(* ===== verification/AigerPrelude.thy ===== *)
theory AigerPrelude
  imports Main "HOL-Library.Monad_Syntax" "HOL-Library.Multiset"
begin

text \<open>
  Prelude of the AIGER development: C's unsigned 32-bit arithmetic on natural numbers with the
  wrap-around written out, failed assertions as the missing value of an option, the decimal
  output of \<open>printf\<close>, the character classes of \<open>ctype.h\<close>, and the list facts that the
  components share.
\<close>

unbundle bit_operations_syntax

named_theorems aiger_defs
  \<comment> \<open>definitions of one-step operations, unfolded when a proof executes them\<close>

section \<open>Unsigned integers and assertions\<close>

text \<open>A value of C type \<open>unsigned\<close>: a natural number below \<open>2 ^ 32\<close>.\<close>

type_synonym uint = nat

definition u32 :: "nat \<Rightarrow> uint" where
  "u32 n = n mod 4294967296"

lemma u32_less [simp]: "u32 n < 4294967296"
  by (simp add: u32_def)

lemma u32_id [simp]: "n < 4294967296 \<Longrightarrow> u32 n = n"
  by (simp add: u32_def)

text \<open>
  \<open>assert (b)\<close>: a failed assertion aborts the program, and the model has no result.
\<close>

definition assert_c :: "bool \<Rightarrow> unit option" where
  "assert_c b = (if b then Some () else None)"

lemma bind_assert_c [simp]: "Option.bind (assert_c b) f = (if b then f () else None)"
  by (simp add: assert_c_def)

lemma assert_c_True [simp]: "assert_c True = Some ()" "assert_c False = None"
  by (simp_all add: assert_c_def)

lemma assert_c_iff [simp]:
  "(assert_c b = Some ()) = b" "(assert_c b = None) = (\<not> b)"
  by (simp_all add: assert_c_def)

text \<open>A pointer into an array, dereferenced: the entry, if the index is in range.\<close>

definition deref :: "'a list \<Rightarrow> nat \<Rightarrow> 'a option" where
  "deref xs i = (if i < length xs then Some (xs ! i) else None)"

text \<open>A loop whose body may abort.\<close>

fun foldm :: "('a \<Rightarrow> 's \<Rightarrow> 's option) \<Rightarrow> 'a list \<Rightarrow> 's \<Rightarrow> 's option" where
  "foldm f [] s = Some s"
| "foldm f (x # xs) s = Option.bind (f x s) (foldm f xs)"

lemma foldm_append: "foldm f (xs @ ys) s = Option.bind (foldm f xs s) (foldm f ys)"
  by (induction xs arbitrary: s) (auto simp: bind_split_asm split: Option.bind_split)

lemma foldm_invariant:
  assumes "foldm f xs s = Some t" "P s"
    and "\<And>x s t. x \<in> set xs \<Longrightarrow> f x s = Some t \<Longrightarrow> P s \<Longrightarrow> P t"
  shows "P t"
  using assms
proof (induction xs arbitrary: s)
  case (Cons x xs)
  then obtain u where u: "f x s = Some u" "foldm f xs u = Some t"
    by (auto simp: bind_eq_Some_conv)
  with Cons.prems have "P u" by auto
  with u(2) show ?case by (rule Cons.IH) (use Cons.prems(3) in auto)
qed simp

section \<open>Decimal numbers and formatted strings\<close>

definition digit :: "nat \<Rightarrow> char" where
  "digit d = char_of (48 + d)"

definition isdigit :: "char \<Rightarrow> bool" where
  "isdigit c \<longleftrightarrow> 48 \<le> (of_char c :: nat) \<and> (of_char c :: nat) \<le> 57"

definition digit_val :: "char \<Rightarrow> nat" where
  "digit_val c = of_char c - 48"

definition isspace :: "char \<Rightarrow> bool" where
  "isspace c \<longleftrightarrow> (of_char c :: nat) = 32 \<or> (9 \<le> (of_char c :: nat) \<and> (of_char c :: nat) \<le> 13)"

lemma of_char_digit [simp]: "d < 10 \<Longrightarrow> (of_char (digit d) :: nat) = 48 + d"
  by (simp add: digit_def of_char_of)

lemma isdigit_digit [simp]: "d < 10 \<Longrightarrow> isdigit (digit d)"
  by (simp add: isdigit_def)

lemma digit_val_digit [simp]: "d < 10 \<Longrightarrow> digit_val (digit d) = d"
  by (simp add: digit_val_def)

lemma not_isdigit_sep [simp]:
  "\<not> isdigit CHR '' ''" "\<not> isdigit CHR ''\<newline>''" "\<not> isdigit CHR ''a''"
  by (simp_all add: isdigit_def)

lemma isspace_sep [simp]: "isspace CHR '' ''" "isspace CHR ''\<newline>''"
  by (simp_all add: isspace_def)

text \<open>The decimal digits that \<open>%u\<close> prints.\<close>

fun dec :: "nat \<Rightarrow> string" where
  "dec n = (if n < 10 then [digit n] else dec (n div 10) @ [digit (n mod 10)])"

declare dec.simps [simp del]

lemma dec_nonempty [simp]: "dec n \<noteq> []"
  by (subst dec.simps) simp

lemma isdigit_dec: "c \<in> set (dec n) \<Longrightarrow> isdigit c"
proof (induction n rule: dec.induct)
  case (1 n)
  then show ?case
    by (subst (asm) (2) dec.simps) (auto split: if_splits)
qed

lemma length_dec: "n < 10 ^ k \<Longrightarrow> 0 < k \<Longrightarrow> length (dec n) \<le> k"
proof (induction n arbitrary: k rule: dec.induct)
  case (1 n)
  show ?case
  proof (cases "n < 10")
    case True
    with 1(3) show ?thesis by (subst dec.simps) simp
  next
    case False
    with 1(2,3) obtain j where k: "k = Suc j" and "0 < j"
      by (cases k; cases "k - 1") auto
    from 1(2) have "n div 10 < 10 ^ j" by (simp add: k less_mult_imp_div_less mult.commute)
    with False \<open>0 < j\<close> 1(1) have "length (dec (n div 10)) \<le> j" by blast
    with False show ?thesis by (subst dec.simps) (simp add: k)
  qed
qed

lemma length_dec_u32: "n < 4294967296 \<Longrightarrow> length (dec n) \<le> 10"
  by (rule length_dec) auto

text \<open>The conversion \<open>%d\<close>, of a signed and of an unsigned value.\<close>

definition dec_int :: "int \<Rightarrow> string" where
  "dec_int i = (if i < 0 then CHR ''-'' # dec (nat (- i)) else dec (nat i))"

definition dec_u32 :: "uint \<Rightarrow> string" where
  "dec_u32 n = dec_int (if n < 2147483648 then int n else int n - 4294967296)"

text \<open>
  \<open>sprintf\<close> with the plain conversions \<open>%u\<close> and \<open>%s\<close>, the only ones in the formats of the modelled
  functions; the rest of a format is copied. It is the function of the C library for the formats of
  \<open>format_args\<close> below: others (field widths, \<open>%%\<close>, missing arguments) are outside the model.
\<close>

datatype fmt_arg = FmtU uint | FmtS string

fun sprintf :: "string \<Rightarrow> fmt_arg list \<Rightarrow> string" where
  "sprintf [] as = []"
| "sprintf [c] as = [c]"
| "sprintf (c # d # f) as =
     (if c = CHR ''%'' \<and> d = CHR ''u'' then
        (case as of FmtU n # as' \<Rightarrow> dec n @ sprintf f as' | _ \<Rightarrow> c # sprintf (d # f) as)
      else if c = CHR ''%'' \<and> d = CHR ''s'' then
        (case as of FmtS s # as' \<Rightarrow> s @ sprintf f as' | _ \<Rightarrow> c # sprintf (d # f) as)
      else c # sprintf (d # f) as)"

text \<open>Every \<open>%\<close> of the format starts a plain conversion that fits the next argument.\<close>

fun format_args :: "string \<Rightarrow> fmt_arg list \<Rightarrow> bool" where
  "format_args [] as = True"
| "format_args [c] as = (c \<noteq> CHR ''%'')"
| "format_args (c # d # f) as =
     (if c \<noteq> CHR ''%'' then format_args (d # f) as
      else case as of
        FmtU n # as' \<Rightarrow> d = CHR ''u'' \<and> format_args f as'
      | FmtS s # as' \<Rightarrow> d = CHR ''s'' \<and> format_args f as'
      | [] \<Rightarrow> False)"

text \<open>The bytes an argument needs beyond the two characters of its conversion.\<close>

fun arg_room :: "fmt_arg \<Rightarrow> nat" where
  "arg_room (FmtU n) = 8"
| "arg_room (FmtS s) = length s"

fun arg_ok :: "fmt_arg \<Rightarrow> bool" where
  "arg_ok (FmtU n) = (n < 4294967296)"
| "arg_ok (FmtS s) = True"

lemma length_sprintf:
  "list_all arg_ok as \<Longrightarrow> length (sprintf f as) \<le> length f + sum_list (map arg_room as)"
proof (induction f as rule: sprintf.induct)
  case (3 c d f as)
  show ?case
  proof (cases as)
    case (Cons a as')
    with 3 show ?thesis
      by (cases a) (auto dest: length_dec_u32)
  qed (use 3 in auto)
qed simp_all

section \<open>Lists\<close>

lemma nth_list_update_iff:
  "i < length xs \<Longrightarrow> xs[i := x] ! j = (if i = j then x else xs ! j)"
  by (cases "i = j") simp_all

lemma nth_snoc: "i < length (xs @ [x]) \<Longrightarrow> (xs @ [x]) ! i = (if i < length xs then xs ! i else x)"
  by (auto simp: nth_append less_Suc_eq)

end
