(* ===== verification/AigerTypes.thy ===== *)
theory AigerTypes
  imports AigerPrelude
begin

text \<open>
  The data of the AIGER library (\<open>aiger.h\<close>, \<open>aiger.c\<close>): literals and their macros, the structs
  \<open>aiger_and\<close>, \<open>aiger_symbol\<close>, \<open>aiger\<close>, \<open>aiger_type\<close> and \<open>aiger_private\<close>, the initial state, the
  error messages, and the string copies.

  An array with its counter is a list whose length is the counter (\<open>num_inputs\<close> is
  \<open>length (inputs p)\<close>); the capacities \<open>size_inputs\<close> and so on only steer the allocator and are
  not kept, except for \<open>types\<close>, which the code indexes up to its capacity: the list \<open>types\<close> has
  length \<open>size_types\<close>. A pointer that may be null is an option. The comment array is read up to
  its first null pointer, so its entries are options and \<open>num_comments\<close> is a field.
\<close>

section \<open>Literals\<close>

definition aiger_false :: uint where
  "aiger_false = 0"

definition aiger_true :: uint where
  "aiger_true = 1"

definition aiger_is_constant :: "uint \<Rightarrow> bool" where
  "aiger_is_constant l \<longleftrightarrow> l = aiger_false \<or> l = aiger_true"

definition aiger_sign :: "uint \<Rightarrow> uint" where
  "aiger_sign l = l AND 1"

definition aiger_strip :: "uint \<Rightarrow> uint" where
  "aiger_strip l = l AND 4294967294"

definition aiger_not :: "uint \<Rightarrow> uint" where
  "aiger_not l = l XOR 1"

definition aiger_var2lit :: "uint \<Rightarrow> uint" where
  "aiger_var2lit i = u32 (push_bit 1 i)"

definition aiger_lit2var :: "uint \<Rightarrow> uint" where
  "aiger_lit2var l = drop_bit 1 l"

lemma aiger_sign_eq [simp]: "aiger_sign l = l mod 2"
  by (simp add: aiger_sign_def and_one_eq)

lemma aiger_lit2var_eq [simp]: "aiger_lit2var l = l div 2"
  by (simp add: aiger_lit2var_def drop_bit_eq_div)

lemma aiger_var2lit_eq [simp]: "i < 2147483648 \<Longrightarrow> aiger_var2lit i = 2 * i"
  by (simp add: aiger_var2lit_def push_bit_eq_mult)

lemma aiger_not_eq: "aiger_not l = (if even l then l + 1 else l - 1)"
  using xor_Suc_0_eq [of l] by (simp add: aiger_not_def)

lemma aiger_strip_eq [simp]:
  assumes "l < 4294967296"
  shows "aiger_strip l = 2 * (l div 2)"
proof (rule bit_eqI)
  fix n
  have l: "take_bit 32 l = l"
    using assms by (simp add: take_bit_nat_eq_self)
  have *: "bit (4294967294::nat) n = (0 < n \<and> n < 32)"
  proof -
    have "(4294967294::nat) = push_bit 1 (mask 31)"
      by (simp add: mask_eq_exp_minus_1 push_bit_eq_mult)
    then show ?thesis by (simp only: bit_push_bit_iff bit_mask_iff) auto
  qed
  have 2: "2 * (l div 2) = push_bit 1 (drop_bit 1 l)"
    by (simp add: push_bit_eq_mult drop_bit_eq_div)
  have "bit l n \<Longrightarrow> n < 32"
    using l by (metis bit_take_bit_iff)
  then show "bit (aiger_strip l) n = bit (2 * (l div 2)) n"
    by (cases "n = 0")
      (simp_all only: 2 aiger_strip_def bit_and_iff * bit_push_bit_iff bit_drop_bit_eq, auto)
qed

lemma aiger_not_less: "l < 4294967296 \<Longrightarrow> aiger_not l < 4294967296"
  by (auto simp: aiger_not_eq elim!: evenE)

lemma aiger_not_simps [simp]:
  "aiger_not l div 2 = l div 2" "odd (aiger_not l) = even l" "aiger_not (aiger_not l) = l"
  by (auto simp: aiger_not_eq elim!: evenE oddE)

section \<open>The structs\<close>

record aiger_and =
  and_lhs :: uint
  and_rhs0 :: uint
  and_rhs1 :: uint

record aiger_symbol =
  sym_lit :: uint
  sym_next :: uint
  sym_reset :: uint
  sym_lits :: "uint list"
  sym_name :: "string option"

definition symbol0 :: aiger_symbol where
  "symbol0 = \<lparr>sym_lit = 0, sym_next = 0, sym_reset = 0, sym_lits = [], sym_name = None\<rparr>"

record aiger =
  maxvar :: uint
  inputs :: "aiger_symbol list"
  latches :: "aiger_symbol list"
  outputs :: "aiger_symbol list"
  bad :: "aiger_symbol list"
  constraints :: "aiger_symbol list"
  justice :: "aiger_symbol list"
  fairness :: "aiger_symbol list"
  ands :: "aiger_and list"
  comments :: "string option list"

record aiger_type =
  ty_input :: bool
  ty_latch :: bool
  ty_and :: bool
  ty_mark :: bool
  ty_onstack :: bool
  ty_idx :: nat

definition type0 :: aiger_type where
  "type0 = \<lparr>ty_input = False, ty_latch = False, ty_and = False, ty_mark = False,
            ty_onstack = False, ty_idx = 0\<rparr>"

record aiger_private = aiger +
  types :: "aiger_type list"
  coi :: "nat list"
  num_comments :: nat
  error :: "string option"

definition aiger_init_mem :: aiger_private where
  "aiger_init_mem =
     \<lparr>maxvar = 0, inputs = [], latches = [], outputs = [], bad = [], constraints = [],
      justice = [], fairness = [], ands = [], comments = [None],
      types = [], coi = [], num_comments = 1, error = None\<rparr>"

definition aiger_init :: aiger_private where
  "aiger_init = aiger_init_mem"

definition aiger_error :: "aiger_private \<Rightarrow> string option" where
  "aiger_error p = error p"

lemma type0_simps [simp]:
  "\<not> ty_input type0" "\<not> ty_latch type0" "\<not> ty_and type0" "\<not> ty_mark type0"
  "\<not> ty_onstack type0" "ty_idx type0 = 0"
  by (simp_all add: type0_def)

section \<open>C strings\<close>

text \<open>
  A C string ends at its first null byte. \<open>c_string\<close> is what \<open>strlen\<close>, \<open>strcpy\<close> and \<open>%s\<close> see of a
  byte sequence that ends with one.
\<close>

definition c_string :: "string \<Rightarrow> string" where
  "c_string s = takeWhile (\<lambda>c. c \<noteq> CHR 0x00) s"

lemma c_string_no_nul [simp]: "CHR 0x00 \<notin> set s \<Longrightarrow> c_string s = s"
  by (auto simp: c_string_def)

definition aiger_copy_str :: "string option \<Rightarrow> string option" where
  "aiger_copy_str str =
     (case str of None \<Rightarrow> None | Some s \<Rightarrow> if c_string s = [] then None else Some (c_string s))"

section \<open>Error messages\<close>

text \<open>
  Each error function formats its message into a buffer of the computed size (\<open>unsigned tmp_len\<close>),
  copies it to \<open>private->error\<close> and returns it. The assertion \<open>!private->error\<close> makes a second error abort.
\<close>

definition set_error :: "string \<Rightarrow> aiger_private \<Rightarrow> aiger_private option" where
  "set_error msg p = do { assert_c (error p = None); Some (p\<lparr>error := Some msg\<rparr>) }"

definition error_s_len :: "string \<Rightarrow> string \<Rightarrow> nat" where
  "error_s_len s a = u32 (length s + length a + 1)"

definition aiger_error_s :: "aiger_private \<Rightarrow> string \<Rightarrow> string \<Rightarrow> aiger_private option" where
  "aiger_error_s p s a = set_error (sprintf s [FmtS a]) p"

definition error_u_len :: "string \<Rightarrow> nat" where
  "error_u_len s = u32 (length s + 4 * 4 + 1)"

definition aiger_error_u :: "aiger_private \<Rightarrow> string \<Rightarrow> uint \<Rightarrow> aiger_private option" where
  "aiger_error_u p s u = set_error (sprintf s [FmtU u]) p"

definition error_uu_len :: "string \<Rightarrow> nat" where
  "error_uu_len s = u32 (length s + 4 * 4 + 4 * 4 + 1)"

definition aiger_error_uu :: "aiger_private \<Rightarrow> string \<Rightarrow> uint \<Rightarrow> uint \<Rightarrow> aiger_private option" where
  "aiger_error_uu p s a b = set_error (sprintf s [FmtU a, FmtU b]) p"

definition error_us_len :: "string \<Rightarrow> string \<Rightarrow> nat" where
  "error_us_len s b = u32 (length s + 4 * 4 + length b + 1)"

definition aiger_error_us :: "aiger_private \<Rightarrow> string \<Rightarrow> uint \<Rightarrow> string \<Rightarrow> aiger_private option" where
  "aiger_error_us p s a b = set_error (sprintf s [FmtU a, FmtS b]) p"

definition error_usu_len :: "string \<Rightarrow> string \<Rightarrow> nat" where
  "error_usu_len s t = u32 (length s + length t + 4 * 4 + 4 * 4 + 1)"

definition aiger_error_usu ::
    "aiger_private \<Rightarrow> string \<Rightarrow> uint \<Rightarrow> string \<Rightarrow> uint \<Rightarrow> aiger_private option" where
  "aiger_error_usu p s a t b = set_error (sprintf s [FmtU a, FmtS t, FmtU b]) p"

lemmas aiger_error_defs =
  aiger_error_s_def aiger_error_u_def aiger_error_uu_def aiger_error_us_def aiger_error_usu_def
  set_error_def

end
