(* ===== verification/AigerBuild.thy ===== *)
theory AigerBuild
  imports AigerTypes
begin

text \<open>
  Construction of an AIG through the API of \<open>aiger.c\<close> (\<open>aiger_add_input\<close> to
  \<open>aiger_add_comment\<close>), and the invariant that the type table agrees with the symbol and gate
  arrays. A failed assertion is \<open>None\<close>.
\<close>

section \<open>The operations\<close>

text \<open>\<open>ENLARGE (private->types, private->size_types)\<close>: double, from at least one, zero-filled.\<close>

definition enlarge :: "aiger_type list \<Rightarrow> aiger_type list" where
  "enlarge ts = ts @ replicate (if ts = [] then 1 else length ts) type0"

function enlarge_types :: "nat \<Rightarrow> aiger_type list \<Rightarrow> aiger_type list" where
  "enlarge_types var ts = (if length ts \<le> var then enlarge_types var (enlarge ts) else ts)"
  by pat_completeness auto
termination
  by (relation "measure (\<lambda>(v, ts). Suc v - length ts)")
    (auto simp: enlarge_def intro: diff_less_mono2)

declare enlarge_types.simps [simp del]

definition aiger_import_literal :: "aiger_private \<Rightarrow> uint \<Rightarrow> aiger_private" where
  "aiger_import_literal p lit =
     (let var = aiger_lit2var lit;
          p = (if maxvar p < var then p\<lparr>maxvar := var\<rparr> else p)
      in p\<lparr>types := enlarge_types var (types p)\<rparr>)"

text \<open>\<open>private->types + var\<close>, dereferenced for reading and for writing.\<close>

definition type_at :: "aiger_private \<Rightarrow> nat \<Rightarrow> aiger_type" where
  "type_at p v = types p ! v"

definition set_type :: "nat \<Rightarrow> (aiger_type \<Rightarrow> aiger_type) \<Rightarrow> aiger_private \<Rightarrow> aiger_private" where
  "set_type v f p = p\<lparr>types := (types p)[v := f (types p ! v)]\<rparr>"

definition new_symbol :: "uint \<Rightarrow> string option \<Rightarrow> aiger_symbol" where
  "new_symbol lit name = symbol0\<lparr>sym_lit := lit, sym_name := aiger_copy_str name\<rparr>"

definition undefined_type :: "aiger_type \<Rightarrow> bool" where
  "undefined_type t \<longleftrightarrow> \<not> ty_input t \<and> \<not> ty_latch t \<and> \<not> ty_and t"

definition aiger_add_input :: "aiger_private \<Rightarrow> uint \<Rightarrow> string option \<Rightarrow> aiger_private option" where
  "aiger_add_input p lit name = do {
     assert_c (aiger_error p = None);
     assert_c (lit \<noteq> 0);
     assert_c (aiger_sign lit = 0);
     let v = aiger_lit2var lit;
     let p = aiger_import_literal p lit;
     assert_c (\<not> ty_input (type_at p v));
     assert_c (\<not> ty_latch (type_at p v));
     assert_c (\<not> ty_and (type_at p v));
     let p = set_type v (\<lambda>t. t\<lparr>ty_input := True, ty_idx := length (inputs p)\<rparr>) p;
     Some (p\<lparr>inputs := inputs p @ [new_symbol lit name]\<rparr>)
   }"

definition aiger_add_latch ::
    "aiger_private \<Rightarrow> uint \<Rightarrow> uint \<Rightarrow> string option \<Rightarrow> aiger_private option" where
  "aiger_add_latch p lit next name = do {
     assert_c (aiger_error p = None);
     assert_c (lit \<noteq> 0);
     assert_c (aiger_sign lit = 0);
     let v = aiger_lit2var lit;
     let p = aiger_import_literal p lit;
     assert_c (\<not> ty_input (type_at p v));
     assert_c (\<not> ty_latch (type_at p v));
     assert_c (\<not> ty_and (type_at p v));
     let p = set_type v (\<lambda>t. t\<lparr>ty_latch := True, ty_idx := length (latches p)\<rparr>) p;
     let p = aiger_import_literal p next;
     Some (p\<lparr>latches := latches p @ [(new_symbol lit name)\<lparr>sym_next := next\<rparr>]\<rparr>)
   }"

definition aiger_add_reset :: "aiger_private \<Rightarrow> uint \<Rightarrow> uint \<Rightarrow> aiger_private option" where
  "aiger_add_reset p lit reset = do {
     assert_c (reset \<le> 1 \<or> reset = lit);
     assert_c (aiger_error p = None);
     assert_c (lit \<noteq> 0);
     assert_c (aiger_sign lit = 0);
     let p = aiger_import_literal p lit;
     let t = type_at p (aiger_lit2var lit);
     assert_c (ty_latch t);
     assert_c (ty_idx t < length (latches p));
     Some (p\<lparr>latches := (latches p)[ty_idx t := (latches p ! ty_idx t)\<lparr>sym_reset := reset\<rparr>]\<rparr>)
   }"

definition aiger_add_output :: "aiger_private \<Rightarrow> uint \<Rightarrow> string option \<Rightarrow> aiger_private" where
  "aiger_add_output p lit name =
     (let p = aiger_import_literal p lit in p\<lparr>outputs := outputs p @ [new_symbol lit name]\<rparr>)"

definition aiger_add_bad :: "aiger_private \<Rightarrow> uint \<Rightarrow> string option \<Rightarrow> aiger_private" where
  "aiger_add_bad p lit name =
     (let p = aiger_import_literal p lit in p\<lparr>bad := bad p @ [new_symbol lit name]\<rparr>)"

definition aiger_add_constraint :: "aiger_private \<Rightarrow> uint \<Rightarrow> string option \<Rightarrow> aiger_private" where
  "aiger_add_constraint p lit name =
     (let p = aiger_import_literal p lit
      in p\<lparr>constraints := constraints p @ [new_symbol lit name]\<rparr>)"

definition aiger_add_justice ::
    "aiger_private \<Rightarrow> uint list \<Rightarrow> string option \<Rightarrow> aiger_private" where
  "aiger_add_justice p lits name =
     (let p = fold (\<lambda>lit p. aiger_import_literal p lit) lits p
      in p\<lparr>justice := justice p @ [(new_symbol 0 name)\<lparr>sym_lits := lits\<rparr>]\<rparr>)"

definition aiger_add_fairness :: "aiger_private \<Rightarrow> uint \<Rightarrow> string option \<Rightarrow> aiger_private" where
  "aiger_add_fairness p lit name =
     (let p = aiger_import_literal p lit
      in p\<lparr>fairness := fairness p @ [new_symbol lit name]\<rparr>)"

definition aiger_add_and :: "aiger_private \<Rightarrow> uint \<Rightarrow> uint \<Rightarrow> uint \<Rightarrow> aiger_private option" where
  "aiger_add_and p lhs rhs0 rhs1 = do {
     assert_c (aiger_error p = None);
     assert_c (lhs > 1);
     assert_c (aiger_sign lhs = 0);
     let v = aiger_lit2var lhs;
     let p = aiger_import_literal p lhs;
     assert_c (\<not> ty_input (type_at p v));
     assert_c (\<not> ty_latch (type_at p v));
     assert_c (\<not> ty_and (type_at p v));
     let p = set_type v (\<lambda>t. t\<lparr>ty_and := True, ty_idx := length (ands p)\<rparr>) p;
     let p = aiger_import_literal p rhs0;
     let p = aiger_import_literal p rhs1;
     Some (p\<lparr>ands := ands p @ [\<lparr>and_lhs = lhs, and_rhs0 = rhs0, and_rhs1 = rhs1\<rparr>]\<rparr>)
   }"

definition aiger_add_comment :: "aiger_private \<Rightarrow> string \<Rightarrow> aiger_private option" where
  "aiger_add_comment p comment = do {
     assert_c (aiger_error p = None);
     assert_c (CHR ''\<newline>'' \<notin> set (c_string comment));
     assert_c (num_comments p \<noteq> 0);
     let i = num_comments p - 1;
     assert_c (comments p ! i = None);
     Some (p\<lparr>comments := take i (comments p) @ [aiger_copy_str (Some comment), None],
             num_comments := num_comments p + 1\<rparr>)
   }"

section \<open>The invariant\<close>

text \<open>
  One kind of definition (input, latch, gate): the table flags exactly the variables that the
  array defines, each with its position in the array.
\<close>

definition kind_ok :: "(aiger_type \<Rightarrow> bool) \<Rightarrow> uint list \<Rightarrow> aiger_type list \<Rightarrow> bool" where
  "kind_ok flag ls ts \<longleftrightarrow>
     (\<forall>i < length ls. even (ls ! i) \<and> 0 < ls ! i \<and> ls ! i div 2 < length ts \<and>
        flag (ts ! (ls ! i div 2)) \<and> ty_idx (ts ! (ls ! i div 2)) = i) \<and>
     (\<forall>v < length ts. flag (ts ! v) \<longrightarrow>
        ty_idx (ts ! v) < length ls \<and> ls ! ty_idx (ts ! v) = 2 * v)"

definition kinds_disjoint :: "aiger_type list \<Rightarrow> bool" where
  "kinds_disjoint ts \<longleftrightarrow> (\<forall>v < length ts.
     \<not> (ty_input (ts ! v) \<and> ty_latch (ts ! v)) \<and> \<not> (ty_input (ts ! v) \<and> ty_and (ts ! v)) \<and>
     \<not> (ty_latch (ts ! v) \<and> ty_and (ts ! v)))"

definition wf_types :: "aiger_private \<Rightarrow> bool" where
  "wf_types p \<longleftrightarrow>
     kind_ok ty_input (map sym_lit (inputs p)) (types p) \<and>
     kind_ok ty_latch (map sym_lit (latches p)) (types p) \<and>
     kind_ok ty_and (map and_lhs (ands p)) (types p) \<and>
     kinds_disjoint (types p) \<and>
     (maxvar p < length (types p) \<or> maxvar p = 0)"

text \<open>Every literal the structure mentions is over a variable up to \<open>m\<close>.\<close>

definition lits_below :: "nat \<Rightarrow> aiger_private \<Rightarrow> bool" where
  "lits_below m p \<longleftrightarrow>
     (\<forall>s \<in> set (inputs p). sym_lit s div 2 \<le> m) \<and>
     (\<forall>s \<in> set (latches p). sym_lit s div 2 \<le> m \<and> sym_next s div 2 \<le> m \<and> sym_reset s div 2 \<le> m) \<and>
     (\<forall>s \<in> set (outputs p). sym_lit s div 2 \<le> m) \<and>
     (\<forall>s \<in> set (bad p). sym_lit s div 2 \<le> m) \<and>
     (\<forall>s \<in> set (constraints p). sym_lit s div 2 \<le> m) \<and>
     (\<forall>s \<in> set (justice p). \<forall>l \<in> set (sym_lits s). l div 2 \<le> m) \<and>
     (\<forall>s \<in> set (fairness p). sym_lit s div 2 \<le> m) \<and>
     (\<forall>g \<in> set (ands p). and_lhs g div 2 \<le> m \<and> and_rhs0 g div 2 \<le> m \<and> and_rhs1 g div 2 \<le> m)"

definition wf_lits :: "aiger_private \<Rightarrow> bool" where
  "wf_lits p \<longleftrightarrow> maxvar p < 2147483648 \<and> lits_below (maxvar p) p"

definition wf_resets :: "aiger_private \<Rightarrow> bool" where
  "wf_resets p \<longleftrightarrow> (\<forall>s \<in> set (latches p). sym_reset s \<le> 1 \<or> sym_reset s = sym_lit s)"

definition ok_name :: "string option \<Rightarrow> bool" where
  "ok_name n \<longleftrightarrow> (case n of None \<Rightarrow> True | Some s \<Rightarrow> s \<noteq> [] \<and> CHR 0x00 \<notin> set s)"

definition all_symbols :: "aiger_private \<Rightarrow> aiger_symbol list" where
  "all_symbols p =
     inputs p @ latches p @ outputs p @ bad p @ constraints p @ justice p @ fairness p"

definition wf_names :: "aiger_private \<Rightarrow> bool" where
  "wf_names p \<longleftrightarrow> (\<forall>s \<in> set (all_symbols p). ok_name (sym_name s))"

definition wf_comments :: "aiger_private \<Rightarrow> bool" where
  "wf_comments p \<longleftrightarrow>
     num_comments p = length (comments p) \<and> comments p \<noteq> [] \<and> last (comments p) = None \<and>
     (\<forall>c \<in> set (comments p). ok_name c \<and> (\<forall>s. c = Some s \<longrightarrow> CHR ''\<newline>'' \<notin> set s))"

definition wf_aiger :: "aiger_private \<Rightarrow> bool" where
  "wf_aiger p \<longleftrightarrow> wf_types p \<and> wf_lits p \<and> wf_resets p \<and> wf_names p \<and> wf_comments p"

lemmas wf_defs = wf_types_def wf_lits_def wf_resets_def wf_names_def wf_comments_def

section \<open>Lemmas about the type table\<close>

lemma enlarge_types_ext:
  "\<exists>n. enlarge_types v ts = ts @ replicate n type0 \<and> v < length ts + n"
proof (induction v ts rule: enlarge_types.induct)
  case (1 v ts)
  show ?case
  proof (cases "length ts \<le> v")
    case True
    with 1 obtain n where n: "enlarge_types v (enlarge ts) = enlarge ts @ replicate n type0"
        "v < length (enlarge ts) + n" by blast
    let ?k = "if ts = [] then 1 else length ts"
    have "enlarge_types v ts = ts @ replicate (?k + n) type0"
      using True n by (subst enlarge_types.simps) (simp add: enlarge_def replicate_add)
    with n(2) show ?thesis by (intro exI [of _ "?k + n"]) (simp add: enlarge_def)
  next
    case False
    then show ?thesis by (subst enlarge_types.simps) (auto intro: exI [of _ 0])
  qed
qed

lemma length_enlarge_types [simp]: "v < length (enlarge_types v ts)" "length ts \<le> length (enlarge_types v ts)"
  using enlarge_types_ext [of v ts] by auto

lemma nth_enlarge_types:
  "w < length (enlarge_types v ts) \<Longrightarrow>
     enlarge_types v ts ! w = (if w < length ts then ts ! w else type0)"
  using enlarge_types_ext [of v ts] by (auto simp: nth_append)

lemma kind_okD:
  assumes "kind_ok flag ls ts" "i < length ls"
  shows "even (ls ! i)" "0 < ls ! i" "ls ! i div 2 < length ts"
    "flag (ts ! (ls ! i div 2))" "ty_idx (ts ! (ls ! i div 2)) = i"
  using assms unfolding kind_ok_def by blast+

lemma kind_ok_flagD:
  assumes "kind_ok flag ls ts" "v < length ts" "flag (ts ! v)"
  shows "ty_idx (ts ! v) < length ls" "ls ! ty_idx (ts ! v) = 2 * v"
  using assms unfolding kind_ok_def by blast+

lemma kind_ok_ext:
  assumes ok: "kind_ok flag ls ts" and "\<not> flag type0"
    and len: "length ts \<le> length us"
    and us: "\<And>w. w < length us \<Longrightarrow> us ! w = (if w < length ts then ts ! w else type0)"
  shows "kind_ok flag ls us"
  unfolding kind_ok_def
proof (intro conjI allI impI)
  fix i assume i: "i < length ls"
  note d = kind_okD [OF ok i]
  from d(3) len us have "ls ! i div 2 < length us" "us ! (ls ! i div 2) = ts ! (ls ! i div 2)"
    by auto
  with d show "even (ls ! i)" "0 < ls ! i" "ls ! i div 2 < length us"
    "flag (us ! (ls ! i div 2))" "ty_idx (us ! (ls ! i div 2)) = i"
    by simp_all
next
  fix v assume v: "v < length us" "flag (us ! v)"
  with assms(2) us have *: "v < length ts" "us ! v = ts ! v" by (auto split: if_splits)
  with v(2) kind_ok_flagD [OF ok] show "ty_idx (us ! v) < length ls" "ls ! ty_idx (us ! v) = 2 * v"
    by simp_all
qed

lemma kind_ok_enlarge:
  "kind_ok flag ls ts \<Longrightarrow> \<not> flag type0 \<Longrightarrow> kind_ok flag ls (enlarge_types v ts)"
  by (erule kind_ok_ext) (simp_all add: nth_enlarge_types)

lemma kind_ok_new:
  assumes ok: "kind_ok flag ls ts" and v: "v < length ts" "0 < v" "\<not> flag (ts ! v)"
    and t: "flag t" "ty_idx t = length ls"
  shows "kind_ok flag (ls @ [2 * v]) (ts[v := t])"
  unfolding kind_ok_def
proof (intro conjI allI impI)
  fix i assume i: "i < length (ls @ [2 * v])"
  have "even ((ls @ [2 * v]) ! i) \<and> 0 < (ls @ [2 * v]) ! i \<and>
      (ls @ [2 * v]) ! i div 2 < length (ts[v := t]) \<and>
      flag (ts[v := t] ! ((ls @ [2 * v]) ! i div 2)) \<and>
      ty_idx (ts[v := t] ! ((ls @ [2 * v]) ! i div 2)) = i"
  proof (cases "i < length ls")
    case True
    note d = kind_okD [OF ok True]
    with v(3) have "ls ! i div 2 \<noteq> v" by metis
    with d True show ?thesis by (simp add: nth_append)
  next
    case False
    with i have "i = length ls" by simp
    with v t show ?thesis by simp
  qed
  then show "even ((ls @ [2 * v]) ! i)" "0 < (ls @ [2 * v]) ! i"
    "(ls @ [2 * v]) ! i div 2 < length (ts[v := t])"
    "flag (ts[v := t] ! ((ls @ [2 * v]) ! i div 2))"
    "ty_idx (ts[v := t] ! ((ls @ [2 * v]) ! i div 2)) = i" by blast+
next
  fix w assume w: "w < length (ts[v := t])" "flag (ts[v := t] ! w)"
  have "ty_idx (ts[v := t] ! w) < length (ls @ [2 * v]) \<and>
    (ls @ [2 * v]) ! ty_idx (ts[v := t] ! w) = 2 * w"
  proof (cases "w = v")
    case False
    with w kind_ok_flagD [OF ok, of w] show ?thesis by (simp add: nth_append)
  qed (use v t in simp)
  then show "ty_idx (ts[v := t] ! w) < length (ls @ [2 * v])"
    "(ls @ [2 * v]) ! ty_idx (ts[v := t] ! w) = 2 * w" by blast+
qed

lemma kind_ok_other:
  assumes ok: "kind_ok flag ls ts" and v: "v < length ts" "\<not> flag (ts ! v)" "\<not> flag t"
  shows "kind_ok flag ls (ts[v := t])"
  unfolding kind_ok_def
proof (intro conjI allI impI)
  fix i assume i: "i < length ls"
  note d = kind_okD [OF ok i]
  with v(2) have "ls ! i div 2 \<noteq> v" by metis
  with d show "even (ls ! i)" "0 < ls ! i" "ls ! i div 2 < length (ts[v := t])"
    "flag (ts[v := t] ! (ls ! i div 2))" "ty_idx (ts[v := t] ! (ls ! i div 2)) = i"
    by simp_all
next
  fix w assume w: "w < length (ts[v := t])" "flag (ts[v := t] ! w)"
  with v have "w \<noteq> v" by auto
  with w kind_ok_flagD [OF ok, of w]
  show "ty_idx (ts[v := t] ! w) < length ls" "ls ! ty_idx (ts[v := t] ! w) = 2 * w"
    by simp_all
qed

lemma kind_ok_zero: "kind_ok flag ls ts \<Longrightarrow> 0 < length ts \<Longrightarrow> \<not> flag (ts ! 0)"
  using kind_okD(2) [of flag ls ts "ty_idx (ts ! 0)"] kind_ok_flagD [of flag ls ts 0] by auto

lemma kind_ok_distinct:
  assumes "kind_ok flag ls ts"
  shows "distinct ls"
  unfolding distinct_conv_nth using kind_okD(5) [OF assms] by metis

lemma kinds_disjoint_enlarge: "kinds_disjoint ts \<Longrightarrow> kinds_disjoint (enlarge_types v ts)"
  by (auto simp: kinds_disjoint_def nth_enlarge_types)

lemma import_simps [simp]:
  "inputs (aiger_import_literal p l) = inputs p" "latches (aiger_import_literal p l) = latches p"
  "outputs (aiger_import_literal p l) = outputs p" "bad (aiger_import_literal p l) = bad p"
  "constraints (aiger_import_literal p l) = constraints p"
  "justice (aiger_import_literal p l) = justice p"
  "fairness (aiger_import_literal p l) = fairness p" "ands (aiger_import_literal p l) = ands p"
  "comments (aiger_import_literal p l) = comments p"
  "num_comments (aiger_import_literal p l) = num_comments p"
  "error (aiger_import_literal p l) = error p"
  "coi (aiger_import_literal p l) = coi p"
  "maxvar (aiger_import_literal p l) = max (maxvar p) (l div 2)"
  "types (aiger_import_literal p l) = enlarge_types (l div 2) (types p)"
  by (auto simp: aiger_import_literal_def Let_def max_def)

lemma import_all_symbols [simp]: "all_symbols (aiger_import_literal p l) = all_symbols p"
  "lits_below m (aiger_import_literal p l) = lits_below m p"
  by (simp_all add: all_symbols_def lits_below_def)

lemma lits_below_mono: "lits_below m p \<Longrightarrow> m \<le> n \<Longrightarrow> lits_below n p"
  unfolding lits_below_def by (meson order.trans)

lemma wf_types_import: "wf_types p \<Longrightarrow> wf_types (aiger_import_literal p l)"
  by (auto simp: wf_types_def kind_ok_enlarge kinds_disjoint_enlarge max_def
      intro: less_le_trans [OF _ length_enlarge_types(2)])

lemma wf_import:
  assumes "wf_aiger p" "l < 4294967296"
  shows "wf_aiger (aiger_import_literal p l)"
  using assms wf_types_import [of p l] lits_below_mono [of "maxvar p" p "max (maxvar p) (l div 2)"]
  by (simp add: wf_aiger_def wf_lits_def wf_resets_def wf_names_def wf_comments_def)

section \<open>Every operation keeps the invariant\<close>

lemma set_type_simps [simp]:
  "inputs (set_type v f p) = inputs p" "latches (set_type v f p) = latches p"
  "outputs (set_type v f p) = outputs p" "bad (set_type v f p) = bad p"
  "constraints (set_type v f p) = constraints p" "justice (set_type v f p) = justice p"
  "fairness (set_type v f p) = fairness p" "ands (set_type v f p) = ands p"
  "comments (set_type v f p) = comments p" "num_comments (set_type v f p) = num_comments p"
  "error (set_type v f p) = error p" "coi (set_type v f p) = coi p"
  "maxvar (set_type v f p) = maxvar p"
  "types (set_type v f p) = (types p)[v := f (types p ! v)]"
  by (simp_all add: set_type_def)

lemma new_symbol_simps [simp]:
  "sym_lit (new_symbol l n) = l" "sym_next (new_symbol l n) = 0" "sym_reset (new_symbol l n) = 0"
  "sym_lits (new_symbol l n) = []" "sym_name (new_symbol l n) = aiger_copy_str n"
  by (simp_all add: new_symbol_def symbol0_def)

lemma ok_name_copy [simp]: "ok_name (aiger_copy_str n)"
  by (auto simp: ok_name_def aiger_copy_str_def c_string_def dest: set_takeWhileD
      split: option.splits)

lemma aiger_copy_str_id [simp]: "ok_name n \<Longrightarrow> aiger_copy_str n = n"
  by (auto simp: ok_name_def aiger_copy_str_def split: option.splits)

lemma kinds_disjoint_upd:
  assumes "kinds_disjoint ts" "v < length ts" "\<not> (ty_input t \<and> ty_latch t)"
    "\<not> (ty_input t \<and> ty_and t)" "\<not> (ty_latch t \<and> ty_and t)"
  shows "kinds_disjoint (ts[v := t])"
  unfolding kinds_disjoint_def
proof (intro allI impI)
  fix w assume "w < length (ts[v := t])"
  with assms show "\<not> (ty_input (ts[v := t] ! w) \<and> ty_latch (ts[v := t] ! w)) \<and>
      \<not> (ty_input (ts[v := t] ! w) \<and> ty_and (ts[v := t] ! w)) \<and>
      \<not> (ty_latch (ts[v := t] ! w) \<and> ty_and (ts[v := t] ! w))"
    by (cases "w = v") (simp_all add: kinds_disjoint_def)
qed

lemma lits_below_more:
  "inputs p = xs \<Longrightarrow> lits_below m (p\<lparr>inputs := xs @ [s]\<rparr>) \<longleftrightarrow> sym_lit s div 2 \<le> m \<and> lits_below m p"
  "latches p = xs \<Longrightarrow> lits_below m (p\<lparr>latches := xs @ [s]\<rparr>) \<longleftrightarrow>
     sym_lit s div 2 \<le> m \<and> sym_next s div 2 \<le> m \<and> sym_reset s div 2 \<le> m \<and> lits_below m p"
  "outputs p = xs \<Longrightarrow> lits_below m (p\<lparr>outputs := xs @ [s]\<rparr>) \<longleftrightarrow> sym_lit s div 2 \<le> m \<and> lits_below m p"
  "bad p = xs \<Longrightarrow> lits_below m (p\<lparr>bad := xs @ [s]\<rparr>) \<longleftrightarrow> sym_lit s div 2 \<le> m \<and> lits_below m p"
  "constraints p = xs \<Longrightarrow> lits_below m (p\<lparr>constraints := xs @ [s]\<rparr>) \<longleftrightarrow> sym_lit s div 2 \<le> m \<and> lits_below m p"
  "justice p = xs \<Longrightarrow> lits_below m (p\<lparr>justice := xs @ [s]\<rparr>) \<longleftrightarrow>
     (\<forall>l \<in> set (sym_lits s). l div 2 \<le> m) \<and> lits_below m p"
  "fairness p = xs \<Longrightarrow> lits_below m (p\<lparr>fairness := xs @ [s]\<rparr>) \<longleftrightarrow> sym_lit s div 2 \<le> m \<and> lits_below m p"
  "ands p = gs \<Longrightarrow> lits_below m (p\<lparr>ands := gs @ [g]\<rparr>) \<longleftrightarrow>
     and_lhs g div 2 \<le> m \<and> and_rhs0 g div 2 \<le> m \<and> and_rhs1 g div 2 \<le> m \<and> lits_below m p"
  unfolding lits_below_def by auto

lemma lits_below_max [simp]:
  "lits_below m p \<Longrightarrow> lits_below (max m n) p" "lits_below m p \<Longrightarrow> lits_below (max n m) p"
  by (auto elim: lits_below_mono)

lemma lits_below_set_type [simp]: "lits_below m (set_type v f p) = lits_below m p"
  by (simp add: lits_below_def)

lemma all_symbols_more:
  "inputs p = xs \<Longrightarrow> set (all_symbols (p\<lparr>inputs := xs @ [s]\<rparr>)) = insert s (set (all_symbols p))"
  "latches p = xs \<Longrightarrow> set (all_symbols (p\<lparr>latches := xs @ [s]\<rparr>)) = insert s (set (all_symbols p))"
  "outputs p = xs \<Longrightarrow> set (all_symbols (p\<lparr>outputs := xs @ [s]\<rparr>)) = insert s (set (all_symbols p))"
  "bad p = xs \<Longrightarrow> set (all_symbols (p\<lparr>bad := xs @ [s]\<rparr>)) = insert s (set (all_symbols p))"
  "constraints p = xs \<Longrightarrow> set (all_symbols (p\<lparr>constraints := xs @ [s]\<rparr>)) = insert s (set (all_symbols p))"
  "justice p = xs \<Longrightarrow> set (all_symbols (p\<lparr>justice := xs @ [s]\<rparr>)) = insert s (set (all_symbols p))"
  "fairness p = xs \<Longrightarrow> set (all_symbols (p\<lparr>fairness := xs @ [s]\<rparr>)) = insert s (set (all_symbols p))"
  "all_symbols (p\<lparr>ands := gs\<rparr>) = all_symbols p"
  by (auto simp: all_symbols_def)

lemma all_symbols_set_type [simp]: "all_symbols (set_type v f p) = all_symbols p"
  by (simp add: all_symbols_def)

lemmas wf_rest_defs = wf_lits_def wf_resets_def wf_names_def wf_comments_def

lemma even_lit: "even l \<Longrightarrow> 2 * (l div 2) = (l::nat)"
  by auto


text \<open>
  A new definition: the table entry of a variable that no definition uses gets a flag and the
  next position.
\<close>

lemma wf_types_define:
  assumes wf: "wf_types p" and v: "v < length (types p)" "0 < v" and un: "undefined_type (types p ! v)"
  shows
    "sym_lit s = 2 * v \<Longrightarrow>
       wf_types ((set_type v (\<lambda>t. t\<lparr>ty_input := True, ty_idx := length (inputs p)\<rparr>) p)
         \<lparr>inputs := inputs p @ [s]\<rparr>)"
    "sym_lit s = 2 * v \<Longrightarrow>
       wf_types ((set_type v (\<lambda>t. t\<lparr>ty_latch := True, ty_idx := length (latches p)\<rparr>) p)
         \<lparr>latches := latches p @ [s]\<rparr>)"
    "and_lhs g = 2 * v \<Longrightarrow>
       wf_types ((set_type v (\<lambda>t. t\<lparr>ty_and := True, ty_idx := length (ands p)\<rparr>) p)
         \<lparr>ands := ands p @ [g]\<rparr>)"
proof -
  have "kind_ok ty_input (map sym_lit (inputs p) @ [2 * v])
      ((types p)[v := (types p ! v)\<lparr>ty_input := True, ty_idx := length (inputs p)\<rparr>])"
    and "kind_ok ty_latch (map sym_lit (latches p) @ [2 * v])
      ((types p)[v := (types p ! v)\<lparr>ty_latch := True, ty_idx := length (latches p)\<rparr>])"
    and "kind_ok ty_and (map and_lhs (ands p) @ [2 * v])
      ((types p)[v := (types p ! v)\<lparr>ty_and := True, ty_idx := length (ands p)\<rparr>])"
    by (rule kind_ok_new, use assms in \<open>simp_all add: wf_types_def undefined_type_def\<close>)+
  with assms show
    "sym_lit s = 2 * v \<Longrightarrow>
       wf_types ((set_type v (\<lambda>t. t\<lparr>ty_input := True, ty_idx := length (inputs p)\<rparr>) p)
         \<lparr>inputs := inputs p @ [s]\<rparr>)"
    "sym_lit s = 2 * v \<Longrightarrow>
       wf_types ((set_type v (\<lambda>t. t\<lparr>ty_latch := True, ty_idx := length (latches p)\<rparr>) p)
         \<lparr>latches := latches p @ [s]\<rparr>)"
    "and_lhs g = 2 * v \<Longrightarrow>
       wf_types ((set_type v (\<lambda>t. t\<lparr>ty_and := True, ty_idx := length (ands p)\<rparr>) p)
         \<lparr>ands := ands p @ [g]\<rparr>)"
    by (simp_all add: wf_types_def undefined_type_def kind_ok_other kinds_disjoint_upd)
qed

lemma wf_types_cong:
  "inputs q = inputs p \<Longrightarrow> latches q = latches p \<Longrightarrow> ands q = ands p \<Longrightarrow> types q = types p \<Longrightarrow>
     maxvar q = maxvar p \<Longrightarrow> wf_types q = wf_types p"
  by (simp add: wf_types_def)

lemma wf_add_input:
  assumes "aiger_add_input p lit name = Some q" "wf_aiger p" "lit < 4294967296"
  shows "wf_aiger q"
proof -
  let ?p = "aiger_import_literal p lit" and ?v = "lit div 2"
  from assms(1) have lit: "lit \<noteq> 0" "even lit" and un: "undefined_type (types ?p ! ?v)"
    and q: "q = (set_type ?v (\<lambda>t. t\<lparr>ty_input := True, ty_idx := length (inputs ?p)\<rparr>) ?p)
                 \<lparr>inputs := inputs ?p @ [new_symbol lit name]\<rparr>"
    by (auto simp: aiger_add_input_def Let_def undefined_type_def type_at_def even_iff_mod_2_eq_zero
        split: if_splits)
  have wf: "wf_aiger ?p" using assms(2,3) by (rule wf_import)
  have "wf_types q"
    unfolding q by (rule wf_types_define(1)) (use wf lit un in \<open>auto simp: wf_aiger_def elim!: evenE\<close>)
  with wf show ?thesis
    by (simp add: q wf_aiger_def wf_rest_defs all_symbols_more lits_below_more)
qed

lemma wf_add_latch:
  assumes "aiger_add_latch p lit next name = Some q" "wf_aiger p"
    "lit < 4294967296" "next < 4294967296"
  shows "wf_aiger q"
proof -
  let ?p = "aiger_import_literal p lit" and ?v = "lit div 2"
  let ?s = "(new_symbol lit name)\<lparr>sym_next := next\<rparr>"
  let ?q = "set_type ?v (\<lambda>t. t\<lparr>ty_latch := True, ty_idx := length (latches ?p)\<rparr>) ?p"
  from assms(1) have lit: "lit \<noteq> 0" "even lit" and un: "undefined_type (types ?p ! ?v)"
    and q: "q = (aiger_import_literal ?q next)\<lparr>latches := latches ?p @ [?s]\<rparr>"
    by (auto simp: aiger_add_latch_def Let_def undefined_type_def type_at_def even_iff_mod_2_eq_zero
        split: if_splits)
  have wf: "wf_aiger ?p" using assms(2,3) by (rule wf_import)
  have "wf_types (?q\<lparr>latches := latches ?p @ [?s]\<rparr>)"
    by (rule wf_types_define(2)) (use wf lit un in \<open>auto simp: wf_aiger_def elim!: evenE\<close>)
  then have "wf_types (aiger_import_literal (?q\<lparr>latches := latches ?p @ [?s]\<rparr>) next)"
    by (rule wf_types_import)
  then have "wf_types q"
    by (rule wf_types_cong [THEN iffD1, rotated -1]) (simp_all add: q)
  moreover have "next div 2 < 2147483648" using assms(4) by simp
  ultimately show ?thesis using wf
    by (simp add: q wf_aiger_def wf_rest_defs all_symbols_more lits_below_more le_max_iff_disj)
qed

lemma wf_add_and:
  assumes "aiger_add_and p lhs rhs0 rhs1 = Some q" "wf_aiger p"
    "lhs < 4294967296" "rhs0 < 4294967296" "rhs1 < 4294967296"
  shows "wf_aiger q"
proof -
  let ?p = "aiger_import_literal p lhs" and ?v = "lhs div 2"
  let ?g = "\<lparr>and_lhs = lhs, and_rhs0 = rhs0, and_rhs1 = rhs1\<rparr>"
  let ?q = "set_type ?v (\<lambda>t. t\<lparr>ty_and := True, ty_idx := length (ands ?p)\<rparr>) ?p"
  from assms(1) have lit: "lhs \<noteq> 0" "even lhs" and un: "undefined_type (types ?p ! ?v)"
    and q: "q = (aiger_import_literal (aiger_import_literal ?q rhs0) rhs1)\<lparr>ands := ands ?p @ [?g]\<rparr>"
    by (auto simp: aiger_add_and_def Let_def undefined_type_def type_at_def even_iff_mod_2_eq_zero
        split: if_splits)
  have wf: "wf_aiger ?p" using assms(2,3) by (rule wf_import)
  have "wf_types (?q\<lparr>ands := ands ?p @ [?g]\<rparr>)"
    by (rule wf_types_define(3)) (use wf lit un in \<open>auto simp: wf_aiger_def elim!: evenE\<close>)
  then have "wf_types (aiger_import_literal (aiger_import_literal (?q\<lparr>ands := ands ?p @ [?g]\<rparr>) rhs0) rhs1)"
    by (intro wf_types_import)
  then have "wf_types q"
    by (rule wf_types_cong [THEN iffD1, rotated -1]) (simp_all add: q)
  moreover have "rhs0 div 2 < 2147483648" "rhs1 div 2 < 2147483648" using assms(4,5) by simp_all
  ultimately show ?thesis using wf
    by (simp add: q wf_aiger_def wf_rest_defs all_symbols_more lits_below_more le_max_iff_disj)
qed

lemma wf_add_reset:
  assumes "aiger_add_reset p lit reset = Some q" "wf_aiger p" "lit < 4294967296"
  shows "wf_aiger q"
proof -
  let ?p = "aiger_import_literal p lit" and ?v = "lit div 2"
  let ?i = "ty_idx (types ?p ! ?v)"
  from assms(1) have reset: "reset \<le> 1 \<or> reset = lit" and even: "even lit"
    and ty: "ty_latch (types ?p ! ?v)" and i: "?i < length (latches p)"
    and q: "q = ?p\<lparr>latches := (latches p)[?i := (latches p ! ?i)\<lparr>sym_reset := reset\<rparr>]\<rparr>"
    by (auto simp: aiger_add_reset_def Let_def type_at_def even_iff_mod_2_eq_zero
        split: if_splits)
  have wf: "wf_aiger ?p" using assms(2,3) by (rule wf_import)
  have lit: "sym_lit (latches p ! ?i) = lit"
    using wf ty i even kind_ok_flagD(2) [of ty_latch "map sym_lit (latches p)" "types ?p" ?v]
    by (simp add: wf_aiger_def wf_types_def even_lit)
  have ls: "map sym_lit (latches q) = map sym_lit (latches p)"
    using i by (simp add: q map_update list_update_same_conv)
  have sub: "s \<in> set (latches q) \<Longrightarrow> s \<in> set (latches p) \<or>
      s = (latches p ! ?i)\<lparr>sym_reset := reset\<rparr>" for s
    using set_update_subset_insert by (fastforce simp: q)
  have mem: "latches p ! ?i \<in> set (latches p)" using i by simp
  have "wf_types q"
    using wf ls by (simp add: wf_aiger_def wf_types_def) (simp add: q)
  moreover have "\<forall>s \<in> set (latches q). (sym_lit s div 2 \<le> maxvar ?p \<and> sym_next s div 2 \<le> maxvar ?p \<and>
      sym_reset s div 2 \<le> maxvar ?p) \<and> (sym_reset s \<le> 1 \<or> sym_reset s = sym_lit s) \<and>
      ok_name (sym_name s)"
  proof
    fix s assume "s \<in> set (latches q)"
    then consider "s \<in> set (latches ?p)" | "s = (latches p ! ?i)\<lparr>sym_reset := reset\<rparr>"
      using sub by auto
    then show "(sym_lit s div 2 \<le> maxvar ?p \<and> sym_next s div 2 \<le> maxvar ?p \<and>
      sym_reset s div 2 \<le> maxvar ?p) \<and> (sym_reset s \<le> 1 \<or> sym_reset s = sym_lit s) \<and>
      ok_name (sym_name s)"
      using wf mem reset lit
      by cases (auto simp: wf_aiger_def wf_lits_def wf_resets_def wf_names_def all_symbols_def
          lits_below_def)
  qed
  moreover have "maxvar q = maxvar ?p" by (simp add: q)
  ultimately show ?thesis
    using wf
    by (simp add: wf_aiger_def wf_rest_defs lits_below_def all_symbols_def ball_Un) (simp add: q)
qed

lemma wf_types_simple [simp]:
  "wf_types (p\<lparr>outputs := xs\<rparr>) = wf_types p" "wf_types (p\<lparr>bad := xs\<rparr>) = wf_types p"
  "wf_types (p\<lparr>constraints := xs\<rparr>) = wf_types p" "wf_types (p\<lparr>justice := xs\<rparr>) = wf_types p"
  "wf_types (p\<lparr>fairness := xs\<rparr>) = wf_types p" "wf_types (p\<lparr>comments := cs\<rparr>) = wf_types p"
  "wf_types (p\<lparr>num_comments := n\<rparr>) = wf_types p" "wf_types (p\<lparr>error := e\<rparr>) = wf_types p"
  by (simp_all add: wf_types_def)

lemma wf_add_plain:
  assumes "wf_aiger p" "l < 4294967296"
  shows "wf_aiger (aiger_add_output p l name)" "wf_aiger (aiger_add_bad p l name)"
    "wf_aiger (aiger_add_constraint p l name)" "wf_aiger (aiger_add_fairness p l name)"
  using wf_import [OF assms]
  by (simp_all add: aiger_add_output_def aiger_add_bad_def aiger_add_constraint_def
      aiger_add_fairness_def Let_def wf_aiger_def wf_rest_defs all_symbols_more lits_below_more
      le_max_iff_disj)

lemma fold_import_simps [simp]:
  "inputs (fold (\<lambda>l p. aiger_import_literal p l) ls p) = inputs p"
  "latches (fold (\<lambda>l p. aiger_import_literal p l) ls p) = latches p"
  "outputs (fold (\<lambda>l p. aiger_import_literal p l) ls p) = outputs p"
  "bad (fold (\<lambda>l p. aiger_import_literal p l) ls p) = bad p"
  "constraints (fold (\<lambda>l p. aiger_import_literal p l) ls p) = constraints p"
  "justice (fold (\<lambda>l p. aiger_import_literal p l) ls p) = justice p"
  "fairness (fold (\<lambda>l p. aiger_import_literal p l) ls p) = fairness p"
  "ands (fold (\<lambda>l p. aiger_import_literal p l) ls p) = ands p"
  "comments (fold (\<lambda>l p. aiger_import_literal p l) ls p) = comments p"
  "num_comments (fold (\<lambda>l p. aiger_import_literal p l) ls p) = num_comments p"
  "error (fold (\<lambda>l p. aiger_import_literal p l) ls p) = error p"
  by (induction ls arbitrary: p) simp_all

lemma wf_fold_import:
  assumes "wf_aiger p" "\<forall>l \<in> set ls. l < 4294967296"
  shows "wf_aiger (fold (\<lambda>l p. aiger_import_literal p l) ls p)"
    and "\<forall>l \<in> set ls. l div 2 \<le> maxvar (fold (\<lambda>l p. aiger_import_literal p l) ls p)"
    and "maxvar p \<le> maxvar (fold (\<lambda>l p. aiger_import_literal p l) ls p)"
proof -
  have "wf_aiger (fold (\<lambda>l p. aiger_import_literal p l) ls p) \<and>
      (\<forall>l \<in> set ls. l div 2 \<le> maxvar (fold (\<lambda>l p. aiger_import_literal p l) ls p)) \<and>
      maxvar p \<le> maxvar (fold (\<lambda>l p. aiger_import_literal p l) ls p)"
    using assms
  proof (induction ls arbitrary: p)
    case (Cons l ls)
    from Cons.prems have "wf_aiger (aiger_import_literal p l)" by (simp add: wf_import)
    with Cons.IH [of "aiger_import_literal p l"] Cons.prems(2) show ?case by simp
  qed simp
  then show "wf_aiger (fold (\<lambda>l p. aiger_import_literal p l) ls p)"
    "\<forall>l \<in> set ls. l div 2 \<le> maxvar (fold (\<lambda>l p. aiger_import_literal p l) ls p)"
    "maxvar p \<le> maxvar (fold (\<lambda>l p. aiger_import_literal p l) ls p)" by blast+
qed

lemma wf_add_justice:
  assumes "wf_aiger p" "\<forall>l \<in> set ls. l < 4294967296"
  shows "wf_aiger (aiger_add_justice p ls name)"
  using wf_fold_import [OF assms]
  by (simp add: aiger_add_justice_def Let_def wf_aiger_def wf_rest_defs all_symbols_more
      lits_below_more)

lemma wf_add_comment:
  assumes "aiger_add_comment p c = Some q" "wf_aiger p"
  shows "wf_aiger q"
proof -
  from assms(1) have nl: "CHR ''\<newline>'' \<notin> set (c_string c)" and
    q: "q = p\<lparr>comments := take (num_comments p - 1) (comments p) @ [aiger_copy_str (Some c), None],
           num_comments := num_comments p + 1\<rparr>"
    by (auto simp: aiger_add_comment_def Let_def split: if_splits)
  from assms(2) have "comments p \<noteq> []" "num_comments p = length (comments p)"
    by (simp_all add: wf_aiger_def wf_comments_def)
  moreover have "set (take n (comments p)) \<subseteq> set (comments p)" for n by (rule set_take_subset)
  ultimately show ?thesis
    using assms(2) nl ok_name_copy [of "Some c"]
    by (simp add: q wf_aiger_def wf_rest_defs all_symbols_def lits_below_def ok_name_def
        aiger_copy_str_def split: option.splits if_splits) (auto simp: subset_iff)
qed

lemma wf_init [simp]: "wf_aiger aiger_init"
  by (simp add: wf_aiger_def wf_types_def wf_rest_defs aiger_init_def aiger_init_mem_def
      kind_ok_def kinds_disjoint_def all_symbols_def lits_below_def ok_name_def)

section \<open>Clients of the construction API\<close>

text \<open>One call of the construction API with its arguments, and a sequence of calls.\<close>

datatype build_op =
    AddInput uint "string option"
  | AddLatch uint uint "string option"
  | AddReset uint uint
  | AddOutput uint "string option"
  | AddBad uint "string option"
  | AddConstraint uint "string option"
  | AddJustice "uint list" "string option"
  | AddFairness uint "string option"
  | AddAnd uint uint uint
  | AddComment string

fun build_step :: "build_op \<Rightarrow> aiger_private \<Rightarrow> aiger_private option" where
  "build_step (AddInput l n) p = aiger_add_input p l n"
| "build_step (AddLatch l x n) p = aiger_add_latch p l x n"
| "build_step (AddReset l r) p = aiger_add_reset p l r"
| "build_step (AddOutput l n) p = Some (aiger_add_output p l n)"
| "build_step (AddBad l n) p = Some (aiger_add_bad p l n)"
| "build_step (AddConstraint l n) p = Some (aiger_add_constraint p l n)"
| "build_step (AddJustice ls n) p = Some (aiger_add_justice p ls n)"
| "build_step (AddFairness l n) p = Some (aiger_add_fairness p l n)"
| "build_step (AddAnd l a b) p = aiger_add_and p l a b"
| "build_step (AddComment c) p = aiger_add_comment p c"

text \<open>The arguments are C unsigned integers.\<close>

fun op_unsigned :: "build_op \<Rightarrow> bool" where
  "op_unsigned (AddInput l n) = (l < 4294967296)"
| "op_unsigned (AddLatch l x n) = (l < 4294967296 \<and> x < 4294967296)"
| "op_unsigned (AddReset l r) = (l < 4294967296 \<and> r < 4294967296)"
| "op_unsigned (AddOutput l n) = (l < 4294967296)"
| "op_unsigned (AddBad l n) = (l < 4294967296)"
| "op_unsigned (AddConstraint l n) = (l < 4294967296)"
| "op_unsigned (AddJustice ls n) = (\<forall>l \<in> set ls. l < 4294967296)"
| "op_unsigned (AddFairness l n) = (l < 4294967296)"
| "op_unsigned (AddAnd l a b) = (l < 4294967296 \<and> a < 4294967296 \<and> b < 4294967296)"
| "op_unsigned (AddComment c) = True"

lemma wf_build_step:
  "build_step x p = Some q \<Longrightarrow> op_unsigned x \<Longrightarrow> wf_aiger p \<Longrightarrow> wf_aiger q"
  by (cases x) (auto dest: wf_add_input wf_add_latch wf_add_reset wf_add_and wf_add_comment
      intro: wf_add_plain wf_add_justice)

lemma wf_build:
  "foldm build_step xs p = Some q \<Longrightarrow> list_all op_unsigned xs \<Longrightarrow> wf_aiger p \<Longrightarrow> wf_aiger q"
  by (erule foldm_invariant [where P = wf_aiger]) (auto simp: list_all_iff intro: wf_build_step)


section \<open>Consequences for the lists\<close>

text \<open>
  The fields that a list does not use are zero: they were cleared when the symbol was allocated.
\<close>

definition plain_symbol :: "aiger_symbol \<Rightarrow> bool" where
  "plain_symbol y \<longleftrightarrow> sym_next y = 0 \<and> sym_reset y = 0 \<and> sym_lits y = []"

definition shaped :: "aiger_private \<Rightarrow> bool" where
  "shaped p \<longleftrightarrow>
     (\<forall>y \<in> set (inputs p) \<union> set (outputs p) \<union> set (bad p) \<union> set (constraints p) \<union> set (fairness p).
        plain_symbol y) \<and>
     (\<forall>y \<in> set (latches p). sym_lits y = []) \<and>
     (\<forall>y \<in> set (justice p). sym_lit y = 0 \<and> sym_next y = 0 \<and> sym_reset y = 0)"

lemma plain_new_symbol [simp]: "plain_symbol (new_symbol l n)"
  by (simp add: plain_symbol_def new_symbol_def symbol0_def)

lemma new_symbol_fields [simp]:
  "sym_next (new_symbol l n) = 0" "sym_reset (new_symbol l n) = 0" "sym_lits (new_symbol l n) = []"
  by (simp_all add: new_symbol_def symbol0_def)

lemma shaped_reset:
  assumes "aiger_add_reset p lit reset = Some q" "shaped p"
  shows "shaped q"
proof -
  let ?p = "aiger_import_literal p lit"
  let ?i = "ty_idx (types ?p ! (lit div 2))"
  from assms(1) have i: "?i < length (latches p)"
    and q: "q = ?p\<lparr>latches := (latches p)[?i := (latches p ! ?i)\<lparr>sym_reset := reset\<rparr>]\<rparr>"
    by (auto simp: aiger_add_reset_def Let_def type_at_def split: if_splits)
  have mem: "latches p ! ?i \<in> set (latches p)" using i by simp
  have "y \<in> set (latches q) \<Longrightarrow> y \<in> set (latches p) \<or> y = (latches p ! ?i)\<lparr>sym_reset := reset\<rparr>" for y
    using set_update_subset_insert by (fastforce simp: q)
  with mem assms(2) have "\<forall>y \<in> set (latches q). sym_lits y = []" by (fastforce simp: shaped_def)
  moreover have "inputs q = inputs p" "outputs q = outputs p" "bad q = bad p" "constraints q = constraints p"
    "justice q = justice p" "fairness q = fairness p" by (simp_all add: q)
  ultimately show ?thesis using assms(2) by (simp add: shaped_def)
qed

lemma shaped_step: "build_step x p = Some q \<Longrightarrow> shaped p \<Longrightarrow> shaped q"
proof (cases x)
  case (AddReset l r)
  then show "build_step x p = Some q \<Longrightarrow> shaped p \<Longrightarrow> shaped q" using shaped_reset by simp
qed (auto simp: shaped_def aiger_add_input_def aiger_add_latch_def aiger_add_and_def aiger_add_comment_def
    aiger_add_output_def aiger_add_bad_def aiger_add_constraint_def aiger_add_justice_def aiger_add_fairness_def
    set_type_def Let_def split: if_splits)

lemma shaped_build: "foldm build_step xs p = Some q \<Longrightarrow> shaped p \<Longrightarrow> shaped q"
  by (erule foldm_invariant [where P = shaped]) (auto intro: shaped_step)

lemma shaped_init [simp]: "shaped aiger_init"
  by (simp add: shaped_def aiger_init_def aiger_init_mem_def)

text \<open>The literals that the structure defines.\<close>

definition definitions :: "aiger_private \<Rightarrow> uint list" where
  "definitions p = map sym_lit (inputs p) @ map sym_lit (latches p) @ map and_lhs (ands p)"

definition definitions_ok :: "aiger_private \<Rightarrow> bool" where
  "definitions_ok p \<longleftrightarrow> distinct (definitions p) \<and> (\<forall>l \<in> set (definitions p). even l \<and> 0 < l)"

lemma kind_ok_elem:
  assumes "kind_ok flag ls ts" "l \<in> set ls"
  shows "even l" "0 < l" "l div 2 < length ts" "flag (ts ! (l div 2))"
  using assms by (auto simp: in_set_conv_nth dest: kind_okD)

lemma wf_definitions:
  assumes "wf_types p"
  shows "definitions_ok p"
proof -
  from assms have k: "kind_ok ty_input (map sym_lit (inputs p)) (types p)"
    "kind_ok ty_latch (map sym_lit (latches p)) (types p)" "kind_ok ty_and (map and_lhs (ands p)) (types p)"
    and d: "kinds_disjoint (types p)" by (simp_all add: wf_types_def)
  note e = kind_ok_elem [OF k(1)] kind_ok_elem [OF k(2)] kind_ok_elem [OF k(3)]
  have "set (map sym_lit (inputs p)) \<inter> set (map sym_lit (latches p)) = {}"
    "set (map sym_lit (inputs p)) \<inter> set (map and_lhs (ands p)) = {}"
    "set (map sym_lit (latches p)) \<inter> set (map and_lhs (ands p)) = {}"
    using d e unfolding kinds_disjoint_def by blast+
  with kind_ok_distinct [OF k(1)] kind_ok_distinct [OF k(2)] kind_ok_distinct [OF k(3)]
  have "distinct (definitions p)" unfolding definitions_def distinct_append set_append by blast
  moreover have "\<forall>l \<in> set (definitions p). even l \<and> 0 < l" unfolding definitions_def set_append using e by blast
  ultimately show ?thesis by (simp add: definitions_ok_def)
qed

end
