(* ===== verification/AigerSem.thy ===== *)
theory AigerSem
  imports AigerBuild
begin

text \<open>
  The reference semantics of an AIG, against which the library and the tools are verified: the
  value of a literal under a valuation of the variables, the valuations that respect every gate,
  the sequential behaviours, the dependency graph of the gates and when it is acyclic. Nothing
  here models code: it is what the file format (\<open>FORMAT\<close>) says an AIG means.
\<close>

section \<open>Values\<close>

definition litval :: "(nat \<Rightarrow> bool) \<Rightarrow> uint \<Rightarrow> bool" where
  "litval \<nu> l = (\<nu> (l div 2) \<noteq> odd l)"

definition gate_holds :: "(nat \<Rightarrow> bool) \<Rightarrow> aiger_and \<Rightarrow> bool" where
  "gate_holds \<nu> g \<longleftrightarrow> \<nu> (and_lhs g div 2) = (litval \<nu> (and_rhs0 g) \<and> litval \<nu> (and_rhs1 g))"

definition models :: "aiger_private \<Rightarrow> (nat \<Rightarrow> bool) \<Rightarrow> bool" where
  "models p \<nu> \<longleftrightarrow> \<not> \<nu> 0 \<and> list_all (gate_holds \<nu>) (ands p)"

lemma litval_not [simp]: "litval \<nu> (aiger_not l) = (\<not> litval \<nu> l)"
  by (auto simp: litval_def)

lemma litval_const: "\<not> \<nu> 0 \<Longrightarrow> \<not> litval \<nu> 0" "\<not> \<nu> 0 \<Longrightarrow> litval \<nu> 1" "\<not> \<nu> 0 \<Longrightarrow> litval \<nu> (Suc 0)"
  by (simp_all add: litval_def)

lemma litval_var [simp]: "litval \<nu> (2 * v) = \<nu> v"
  by (simp add: litval_def)

lemma litval_even: "even l \<Longrightarrow> litval \<nu> l = \<nu> (l div 2)"
  by (simp add: litval_def)

lemma litval_cong: "\<nu> (l div 2) = \<mu> (l div 2) \<Longrightarrow> litval \<nu> l = litval \<mu> l"
  by (simp add: litval_def)

section \<open>Sequential behaviour\<close>

definition latch_init :: "(nat \<Rightarrow> bool) \<Rightarrow> aiger_symbol \<Rightarrow> bool" where
  "latch_init \<nu> s \<longleftrightarrow> sym_reset s = sym_lit s \<or> litval \<nu> (sym_lit s) = (sym_reset s = 1)"

definition latch_next :: "(nat \<Rightarrow> bool) \<Rightarrow> (nat \<Rightarrow> bool) \<Rightarrow> aiger_symbol \<Rightarrow> bool" where
  "latch_next \<nu> \<nu>' s \<longleftrightarrow> litval \<nu>' (sym_lit s) = litval \<nu> (sym_next s)"

text \<open>A run assigns a consistent valuation to every time step.\<close>

definition run :: "aiger_private \<Rightarrow> (nat \<Rightarrow> nat \<Rightarrow> bool) \<Rightarrow> bool" where
  "run p \<tau> \<longleftrightarrow>
     (\<forall>t. models p (\<tau> t)) \<and>
     list_all (latch_init (\<tau> 0)) (latches p) \<and>
     (\<forall>t. list_all (latch_next (\<tau> t) (\<tau> (Suc t))) (latches p))"

text \<open>What an observer sees of one time step.\<close>

record observation =
  o_inputs :: "bool list"
  o_latches :: "bool list"
  o_outputs :: "bool list"
  o_bad :: "bool list"
  o_constraints :: "bool list"
  o_justice :: "bool list list"
  o_fairness :: "bool list"

definition observe :: "aiger_private \<Rightarrow> (nat \<Rightarrow> bool) \<Rightarrow> observation" where
  "observe p \<nu> =
     \<lparr>o_inputs = map (litval \<nu> \<circ> sym_lit) (inputs p),
      o_latches = map (litval \<nu> \<circ> sym_lit) (latches p),
      o_outputs = map (litval \<nu> \<circ> sym_lit) (outputs p),
      o_bad = map (litval \<nu> \<circ> sym_lit) (bad p),
      o_constraints = map (litval \<nu> \<circ> sym_lit) (constraints p),
      o_justice = map (map (litval \<nu>) \<circ> sym_lits) (justice p),
      o_fairness = map (litval \<nu> \<circ> sym_lit) (fairness p)\<rparr>"

definition behaviours :: "aiger_private \<Rightarrow> (nat \<Rightarrow> observation) set" where
  "behaviours p = {\<lambda>t. observe p (\<tau> t) | \<tau>. run p \<tau>}"

section \<open>Dependencies between gates\<close>

text \<open>A gate depends on the variables of its right-hand sides, other than the constant.\<close>

definition deps :: "aiger_private \<Rightarrow> (nat \<times> nat) set" where
  "deps p = {(and_lhs g div 2, l div 2) | g l.
               g \<in> set (ands p) \<and> l \<in> {and_rhs0 g, and_rhs1 g} \<and> l div 2 \<noteq> 0}"

inductive grounded :: "aiger_private \<Rightarrow> nat \<Rightarrow> bool" for p where
  "(\<And>w. (v, w) \<in> deps p \<Longrightarrow> grounded p w) \<Longrightarrow> grounded p v"

lemma finite_deps [simp]: "finite (deps p)"
proof -
  have "deps p \<subseteq> (\<lambda>g. (and_lhs g div 2, and_rhs0 g div 2)) ` set (ands p) \<union>
      (\<lambda>g. (and_lhs g div 2, and_rhs1 g div 2)) ` set (ands p)"
    by (auto simp: deps_def)
  then show ?thesis by (rule finite_subset) simp
qed

lemma grounded_no_cycle: "grounded p v \<Longrightarrow> (v, v) \<notin> (deps p)\<^sup>+"
proof (induction rule: grounded.induct)
  case (1 v)
  show ?case
  proof
    assume "(v, v) \<in> (deps p)\<^sup>+"
    then obtain w where "(v, w) \<in> deps p" "(w, v) \<in> (deps p)\<^sup>*"
      by (meson tranclD)
    then have "(w, w) \<in> (deps p)\<^sup>+" by (meson rtrancl_into_trancl1)
    with 1 \<open>(v, w) \<in> deps p\<close> show False by blast
  qed
qed

lemma acyclic_iff_grounded: "acyclic (deps p) \<longleftrightarrow> (\<forall>v. grounded p v)"
proof
  assume "acyclic (deps p)"
  then have "wf ((deps p)\<inverse>)" by (simp add: finite_acyclic_wf_converse)
  show "\<forall>v. grounded p v"
  proof
    fix v
    from \<open>wf ((deps p)\<inverse>)\<close> show "grounded p v"
      by (induction v rule: wf_induct_rule) (auto intro: grounded.intros)
  qed
next
  assume "\<forall>v. grounded p v"
  then show "acyclic (deps p)" by (auto simp: acyclic_def dest: grounded_no_cycle)
qed

section \<open>Defined literals\<close>

definition defined_var :: "aiger_private \<Rightarrow> nat \<Rightarrow> bool" where
  "defined_var p v \<longleftrightarrow>
     v = 0 \<or> 2 * v \<in> sym_lit ` set (inputs p) \<or> 2 * v \<in> sym_lit ` set (latches p) \<or>
     2 * v \<in> and_lhs ` set (ands p)"

definition all_defined :: "aiger_private \<Rightarrow> bool" where
  "all_defined p \<longleftrightarrow>
     (\<forall>s \<in> set (latches p). defined_var p (sym_next s div 2)) \<and>
     (\<forall>s \<in> set (outputs p) \<union> set (bad p) \<union> set (constraints p) \<union> set (fairness p).
        defined_var p (sym_lit s div 2)) \<and>
     (\<forall>s \<in> set (justice p). \<forall>l \<in> set (sym_lits s). defined_var p (l div 2)) \<and>
     (\<forall>g \<in> set (ands p). defined_var p (and_rhs0 g div 2) \<and> defined_var p (and_rhs1 g div 2))"

section \<open>Lookup in the type table\<close>

lemma wf_typesD:
  assumes "wf_types p"
  shows "kind_ok ty_input (map sym_lit (inputs p)) (types p)"
    "kind_ok ty_latch (map sym_lit (latches p)) (types p)"
    "kind_ok ty_and (map and_lhs (ands p)) (types p)" "kinds_disjoint (types p)"
    "maxvar p \<noteq> 0 \<Longrightarrow> maxvar p < length (types p)"
  using assms by (auto simp: wf_types_def)

lemma kind_ok_mem:
  assumes "kind_ok flag ls ts" "v < length ts"
  shows "flag (ts ! v) \<longleftrightarrow> 2 * v \<in> set ls"
proof
  assume "flag (ts ! v)"
  with kind_ok_flagD [OF assms(1,2)] show "2 * v \<in> set ls" by (metis nth_mem)
next
  assume "2 * v \<in> set ls"
  then obtain i where i: "i < length ls" "ls ! i = 2 * v" by (auto simp: in_set_conv_nth)
  with kind_okD(4) [OF assms(1) i(1)] show "flag (ts ! v)" by simp
qed

lemma kind_ok_length: "kind_ok flag ls ts \<Longrightarrow> 2 * v \<in> set ls \<Longrightarrow> v < length ts"
  by (auto simp: in_set_conv_nth) (metis kind_okD(3) nonzero_mult_div_cancel_left zero_neq_numeral)

lemma kind_ok_pos: "kind_ok flag ls ts \<Longrightarrow> l \<in> set ls \<Longrightarrow> 0 < l \<and> even l"
  by (auto simp: in_set_conv_nth kind_okD)

text \<open>The gate of a flagged variable.\<close>

lemma gate_at:
  assumes "wf_types p" "v < length (types p)" "ty_and (types p ! v)"
  shows "ty_idx (types p ! v) < length (ands p)" "and_lhs (ands p ! ty_idx (types p ! v)) = 2 * v"
  using kind_ok_flagD [OF wf_typesD(3) [OF assms(1)] assms(2,3)] by simp_all

lemma gate_unique:
  assumes "wf_types p" "g \<in> set (ands p)" "h \<in> set (ands p)" "and_lhs g = and_lhs h"
  shows "g = h"
  using kind_ok_distinct [OF wf_typesD(3) [OF assms(1)]] assms(2-)
  by (metis distinct_map inj_onD)

lemma gate_lhs:
  assumes "wf_types p" "g \<in> set (ands p)"
  shows "even (and_lhs g)" "0 < and_lhs g" "and_lhs g div 2 < length (types p)"
    "ty_and (types p ! (and_lhs g div 2))" "ands p ! ty_idx (types p ! (and_lhs g div 2)) = g"
proof -
  obtain i where i: "i < length (ands p)" "ands p ! i = g"
    using assms(2) by (auto simp: in_set_conv_nth)
  note d = kind_okD [OF wf_typesD(3) [OF assms(1)], of i]
  from d i show "even (and_lhs g)" "0 < and_lhs g" "and_lhs g div 2 < length (types p)"
    "ty_and (types p ! (and_lhs g div 2))" "ands p ! ty_idx (types p ! (and_lhs g div 2)) = g"
    by simp_all
qed

lemma deps_gate:
  assumes "wf_types p" "v < length (types p)" "ty_and (types p ! v)"
  shows "(v, w) \<in> deps p \<longleftrightarrow> w \<noteq> 0 \<and>
     (w = and_rhs0 (ands p ! ty_idx (types p ! v)) div 2 \<or> w = and_rhs1 (ands p ! ty_idx (types p ! v)) div 2)"
proof -
  let ?g = "ands p ! ty_idx (types p ! v)"
  note g = gate_at [OF assms]
  have *: "h = ?g" if "h \<in> set (ands p)" "and_lhs h div 2 = v" for h
  proof (rule gate_unique [OF assms(1) that(1)])
    show "?g \<in> set (ands p)" using g by simp
    show "and_lhs h = and_lhs ?g" using gate_lhs(1) [OF assms(1) that(1)] that(2) g(2) by auto
  qed
  have mem: "?g \<in> set (ands p)" using g by simp
  have v: "v = and_lhs ?g div 2" using g(2) by simp
  show ?thesis
  proof
    assume "(v, w) \<in> deps p"
    then obtain h l where "h \<in> set (ands p)" "and_lhs h div 2 = v" "l = and_rhs0 h \<or> l = and_rhs1 h"
      "w = l div 2" "w \<noteq> 0"
      unfolding deps_def by blast
    with * [of h] show "w \<noteq> 0 \<and> (w = and_rhs0 ?g div 2 \<or> w = and_rhs1 ?g div 2)" by blast
  next
    assume "w \<noteq> 0 \<and> (w = and_rhs0 ?g div 2 \<or> w = and_rhs1 ?g div 2)"
    with mem v show "(v, w) \<in> deps p" unfolding deps_def by blast
  qed
qed

lemma deps_and:
  assumes "wf_types p" "(v, w) \<in> deps p"
  shows "v < length (types p)" "ty_and (types p ! v)"
  using assms gate_lhs by (auto simp: deps_def)

lemma not_and_grounded:
  "wf_types p \<Longrightarrow> v < length (types p) \<Longrightarrow> \<not> ty_and (types p ! v) \<Longrightarrow> grounded p v"
  by (rule grounded.intros) (use deps_and in blast)

lemma defined_var_types:
  assumes "wf_types p" "v < length (types p)"
  shows "defined_var p v \<longleftrightarrow> v = 0 \<or> \<not> undefined_type (types p ! v)"
  using kind_ok_mem [OF wf_typesD(1) [OF assms(1)] assms(2)]
    kind_ok_mem [OF wf_typesD(2) [OF assms(1)] assms(2)]
    kind_ok_mem [OF wf_typesD(3) [OF assms(1)] assms(2)]
  by (auto simp: defined_var_def undefined_type_def)

section \<open>Existence and uniqueness of values\<close>

lemma models_unique:
  assumes "models p \<nu>" "models p \<mu>" "grounded p v"
    and "\<And>w. 2 * w \<notin> and_lhs ` set (ands p) \<Longrightarrow> \<nu> w = \<mu> w" "wf_types p"
  shows "\<nu> v = \<mu> v"
  using assms(3)
proof (induction rule: grounded.induct)
  case (1 v)
  show ?case
  proof (cases "2 * v \<in> and_lhs ` set (ands p)")
    case True
    then obtain g where g: "g \<in> set (ands p)" "and_lhs g = 2 * v" by auto
    have eq: "litval \<nu> l = litval \<mu> l" if "l \<in> {and_rhs0 g, and_rhs1 g}" for l
    proof (cases "l div 2 = 0")
      case True
      with assms(1,2) show ?thesis by (simp add: models_def litval_def)
    next
      case False
      with g that have "(v, l div 2) \<in> deps p" by (auto simp: deps_def intro!: exI [of _ g])
      with 1 show ?thesis by (simp add: litval_def)
    qed
    from g assms(1,2) show ?thesis using eq [of "and_rhs0 g"] eq [of "and_rhs1 g"]
      by (auto simp: models_def list_all_iff gate_holds_def)
  qed (use assms(4) in auto)
qed

end
