(* ===== verification/AigerCheck.thy ===== *)
theory AigerCheck
  imports AigerSem
begin

text \<open>
  \<open>aiger_check\<close> of \<open>aiger.c\<close>: every literal that is used is defined, and the gates are not cyclic.
  The search for a cycle is the code's depth-first search with an explicit stack (the list's head
  is the top of the stack, 0 is the marker below which a gate waits for its children). The main
  results: the check never aborts on a well-formed structure, and it reports an error exactly
  when a literal is undefined or the dependency graph has a cycle.
\<close>

section \<open>The operations\<close>

definition aiger_literal_defined :: "aiger_private \<Rightarrow> uint \<Rightarrow> bool option" where
  "aiger_literal_defined p lit = do {
     let var = aiger_lit2var lit;
     assert_c (var \<le> maxvar p);
     if var = 0 then Some True
     else do {
       assert_c (var < length (types p));
       let t = type_at p var;
       Some (ty_and t \<or> ty_input t \<or> ty_latch t)
     }
   }"

text \<open>Every loop of the check stops at the first error, and does nothing after one.\<close>

fun until_error ::
    "('a \<Rightarrow> aiger_private \<Rightarrow> aiger_private option) \<Rightarrow> 'a list \<Rightarrow> aiger_private \<Rightarrow> aiger_private option" where
  "until_error f [] p = Some p"
| "until_error f (x # xs) p =
     (if error p \<noteq> None then Some p else Option.bind (f x p) (until_error f xs))"

definition check_next_symbol :: "aiger_symbol \<Rightarrow> aiger_private \<Rightarrow> aiger_private option" where
  "check_next_symbol s p = do {
     let latch = sym_lit s;
     let next = sym_next s;
     assert_c (aiger_sign latch = 0);
     assert_c (aiger_lit2var latch < length (types p) \<and> ty_latch (type_at p (aiger_lit2var latch)));
     d \<leftarrow> aiger_literal_defined p next;
     if d then Some p
     else aiger_error_uu p ''next state function %u of latch %u undefined'' next latch
   }"

definition aiger_check_next_defined :: "aiger_private \<Rightarrow> aiger_private option" where
  "aiger_check_next_defined p = until_error check_next_symbol (latches p) p"

definition aiger_check_right_hand_side_defined ::
    "aiger_private \<Rightarrow> aiger_and \<Rightarrow> uint \<Rightarrow> aiger_private option" where
  "aiger_check_right_hand_side_defined p g rhs =
     (if error p \<noteq> None then Some p
      else do {
        d \<leftarrow> aiger_literal_defined p rhs;
        if d then Some p else aiger_error_uu p ''literal %u in AND %u undefined'' rhs (and_lhs g)
      })"

definition aiger_check_right_hand_sides_defined :: "aiger_private \<Rightarrow> aiger_private option" where
  "aiger_check_right_hand_sides_defined p =
     until_error (\<lambda>g p. do {
         p \<leftarrow> aiger_check_right_hand_side_defined p g (and_rhs0 g);
         aiger_check_right_hand_side_defined p g (and_rhs1 g)
       }) (ands p) p"

text \<open>The body that the loops over outputs, bad states, constraints, justice and fairness share.\<close>

definition check_stripped :: "string \<Rightarrow> uint \<Rightarrow> aiger_private \<Rightarrow> aiger_private option" where
  "check_stripped fmt l p =
     (let l = aiger_strip l
      in if l \<le> 1 then Some p
         else do {
           d \<leftarrow> aiger_literal_defined p l;
           if d then Some p else aiger_error_u p fmt l
         })"

definition aiger_check_outputs_defined :: "aiger_private \<Rightarrow> aiger_private option" where
  "aiger_check_outputs_defined p =
     until_error (check_stripped ''output %u undefined'') (map sym_lit (outputs p)) p"

definition aiger_check_bad_defined :: "aiger_private \<Rightarrow> aiger_private option" where
  "aiger_check_bad_defined p =
     until_error (check_stripped ''bad %u undefined'') (map sym_lit (bad p)) p"

definition aiger_check_constraints_defined :: "aiger_private \<Rightarrow> aiger_private option" where
  "aiger_check_constraints_defined p =
     until_error (check_stripped ''constraint %u undefined'') (map sym_lit (constraints p)) p"

definition aiger_check_fairness_defined :: "aiger_private \<Rightarrow> aiger_private option" where
  "aiger_check_fairness_defined p =
     until_error (check_stripped ''fairness %u undefined'') (map sym_lit (fairness p)) p"

definition aiger_check_justice_defined :: "aiger_private \<Rightarrow> aiger_private option" where
  "aiger_check_justice_defined p =
     until_error (\<lambda>s. until_error (check_stripped ''justice %u undefined'') (sym_lits s)) (justice p) p"

text \<open>
  The inner loop of \<open>aiger_check_for_cycles\<close>. It ends because each iteration either shortens the
  stack or marks one more entry of the table.
\<close>

definition push_child :: "nat \<Rightarrow> nat list \<Rightarrow> nat list" where
  "push_child c st = (if c \<noteq> 0 then c # st else st)"

function cycle_loop :: "aiger_private \<Rightarrow> nat list \<Rightarrow> aiger_private option" where
  "cycle_loop p [] = Some p"
| "cycle_loop p (j # st) =
     (if j \<noteq> 0 then
        if length (types p) \<le> j then None
        else if ty_mark (type_at p j) \<and> ty_onstack (type_at p j) then
          aiger_error_u p ''cyclic definition for and gate %u'' j
        else if \<not> ty_and (type_at p j) \<or> ty_mark (type_at p j) then cycle_loop p st
        else if length (ands p) \<le> ty_idx (type_at p j) then None
        else
          let g = ands p ! ty_idx (type_at p j)
          in cycle_loop (set_type j (\<lambda>t. t\<lparr>ty_mark := True, ty_onstack := True\<rparr>) p)
               (push_child (aiger_lit2var (and_rhs1 g))
                 (push_child (aiger_lit2var (and_rhs0 g)) (0 # j # st)))
      else
        case st of
          [] \<Rightarrow> None
        | j' # st' \<Rightarrow>
            if j' \<noteq> 0 \<and> j' < length (types p) \<and> ty_mark (type_at p j') \<and> ty_onstack (type_at p j')
            then cycle_loop (set_type j' (\<lambda>t. t\<lparr>ty_onstack := False\<rparr>) p) st'
            else None)"
  by pat_completeness auto

definition unmarked :: "aiger_private \<Rightarrow> nat" where
  "unmarked p = length (filter (\<lambda>t. \<not> ty_mark t) (types p))"

lemma length_filter_update:
  assumes "v < length xs" "P (xs ! v)" "\<not> P x"
  shows "length (filter P (xs[v := x])) < length (filter P xs)"
proof -
  from assms(1) have xs: "xs = take v xs @ xs ! v # drop (Suc v) xs" by (simp add: id_take_nth_drop)
  have "filter P (xs[v := x]) = filter P (take v xs) @ filter P (drop (Suc v) xs)"
    using assms(1,3) by (simp add: upd_conv_take_nth_drop)
  moreover have "filter P xs = filter P (take v xs) @ xs ! v # filter P (drop (Suc v) xs)"
    by (subst xs) (simp add: assms(2))
  ultimately show ?thesis by simp
qed

lemma filter_update_same:
  assumes "v < length xs" "P x = P (xs ! v)"
  shows "length (filter P (xs[v := x])) = length (filter P xs)"
proof -
  from assms(1) have xs: "xs = take v xs @ xs ! v # drop (Suc v) xs" by (simp add: id_take_nth_drop)
  have "length (filter P (xs[v := x])) =
      length (filter P (take v xs)) + (if P x then 1 else 0) + length (filter P (drop (Suc v) xs))"
    using assms(1) by (simp add: upd_conv_take_nth_drop)
  moreover have "length (filter P xs) =
      length (filter P (take v xs)) + (if P (xs ! v) then 1 else 0) + length (filter P (drop (Suc v) xs))"
    by (subst xs) simp
  ultimately show ?thesis using assms(2) by simp
qed

termination cycle_loop
  by (relation "measures [\<lambda>(p, st). unmarked p, \<lambda>(p, st). length st]")
    (auto simp: unmarked_def type_at_def length_filter_update filter_update_same)

declare cycle_loop.simps [simp del]

definition aiger_check_for_cycles :: "aiger_private \<Rightarrow> aiger_private option" where
  "aiger_check_for_cycles p =
     until_error (\<lambda>i p.
         if length (types p) \<le> i then None
         else if \<not> ty_and (type_at p i) \<or> ty_mark (type_at p i) then Some p
         else cycle_loop p [i]) [1..<Suc (maxvar p)] p"

definition aiger_check :: "aiger_private \<Rightarrow> aiger_private option" where
  "aiger_check p = do {
     assert_c (aiger_error p = None);
     p \<leftarrow> aiger_check_next_defined p;
     p \<leftarrow> aiger_check_outputs_defined p;
     p \<leftarrow> aiger_check_bad_defined p;
     p \<leftarrow> aiger_check_constraints_defined p;
     p \<leftarrow> aiger_check_justice_defined p;
     p \<leftarrow> aiger_check_fairness_defined p;
     p \<leftarrow> aiger_check_right_hand_sides_defined p;
     aiger_check_for_cycles p
   }"

section \<open>What the check leaves unchanged\<close>

definition unmark :: "aiger_type \<Rightarrow> aiger_type" where
  "unmark t = t\<lparr>ty_mark := False, ty_onstack := False\<rparr>"

text \<open>Two structures that differ at most in the marks of the search and in the error.\<close>

definition same_core :: "aiger_private \<Rightarrow> aiger_private \<Rightarrow> bool" where
  "same_core p q \<longleftrightarrow>
     map unmark (types q) = map unmark (types p) \<and>
     q\<lparr>types := [], error := None\<rparr> = p\<lparr>types := [], error := None\<rparr>"

lemma same_core_refl [simp]: "same_core p p"
  by (simp add: same_core_def)

lemma same_core_trans [trans]: "same_core p q \<Longrightarrow> same_core q r \<Longrightarrow> same_core p r"
  by (simp add: same_core_def)

lemma same_core_sym: "same_core p q \<Longrightarrow> same_core q p"
  by (simp add: same_core_def)

lemma same_coreD:
  assumes "same_core p q"
  shows "maxvar q = maxvar p" "inputs q = inputs p" "latches q = latches p"
    "outputs q = outputs p" "bad q = bad p" "constraints q = constraints p"
    "justice q = justice p" "fairness q = fairness p" "ands q = ands p"
    "comments q = comments p" "coi q = coi p" "num_comments q = num_comments p"
    "length (types q) = length (types p)" "map unmark (types q) = map unmark (types p)"
proof -
  from assms have e: "q\<lparr>types := [], error := None\<rparr> = p\<lparr>types := [], error := None\<rparr>"
    and t: "map unmark (types q) = map unmark (types p)" by (simp_all add: same_core_def)
  show "map unmark (types q) = map unmark (types p)" by (rule t)
  show "length (types q) = length (types p)" using t by (rule map_eq_imp_length_eq)
  show "maxvar q = maxvar p" "inputs q = inputs p" "latches q = latches p"
    "outputs q = outputs p" "bad q = bad p" "constraints q = constraints p"
    "justice q = justice p" "fairness q = fairness p" "ands q = ands p"
    "comments q = comments p" "coi q = coi p" "num_comments q = num_comments p"
    using arg_cong [OF e, of maxvar] arg_cong [OF e, of inputs] arg_cong [OF e, of latches]
      arg_cong [OF e, of outputs] arg_cong [OF e, of bad] arg_cong [OF e, of constraints]
      arg_cong [OF e, of justice] arg_cong [OF e, of fairness] arg_cong [OF e, of ands]
      arg_cong [OF e, of comments] arg_cong [OF e, of coi] arg_cong [OF e, of num_comments]
    by simp_all
qed

lemma same_core_type:
  assumes "same_core p q" "v < length (types p)"
  shows "ty_input (types q ! v) = ty_input (types p ! v)"
    "ty_latch (types q ! v) = ty_latch (types p ! v)"
    "ty_and (types q ! v) = ty_and (types p ! v)" "ty_idx (types q ! v) = ty_idx (types p ! v)"
proof -
  have "unmark (types q ! v) = unmark (types p ! v)"
    using assms same_coreD(13,14) [OF assms(1)] by (metis nth_map)
  from arg_cong [OF this, of ty_input] arg_cong [OF this, of ty_latch]
    arg_cong [OF this, of ty_and] arg_cong [OF this, of ty_idx]
  show "ty_input (types q ! v) = ty_input (types p ! v)"
    "ty_latch (types q ! v) = ty_latch (types p ! v)"
    "ty_and (types q ! v) = ty_and (types p ! v)" "ty_idx (types q ! v) = ty_idx (types p ! v)"
    by (simp_all add: unmark_def)
qed

lemma kind_ok_cong:
  assumes "length us = length ts"
    and "\<And>v. v < length ts \<Longrightarrow> flag (us ! v) = flag (ts ! v) \<and> ty_idx (us ! v) = ty_idx (ts ! v)"
  shows "kind_ok flag ls us = kind_ok flag ls ts"
  unfolding kind_ok_def using assms by (metis (no_types, lifting))

lemma same_core_wf_types:
  assumes "same_core p q"
  shows "wf_types q = wf_types p"
  using kind_ok_cong [of "types q" "types p" ty_input] kind_ok_cong [of "types q" "types p" ty_latch]
    kind_ok_cong [of "types q" "types p" ty_and] same_coreD [OF assms] same_core_type [OF assms]
  by (simp add: wf_types_def kinds_disjoint_def)

lemma same_core_wf:
  assumes "same_core p q"
  shows "wf_aiger q = wf_aiger p"
  using same_core_wf_types [OF assms] same_coreD [OF assms]
  by (simp add: wf_aiger_def wf_rest_defs lits_below_def all_symbols_def)

lemma same_core_deps: "same_core p q \<Longrightarrow> deps q = deps p"
  by (simp add: deps_def same_coreD(9))

lemma grounded_deps: "grounded p v \<Longrightarrow> deps q = deps p \<Longrightarrow> grounded q v"
  by (induction rule: grounded.induct) (auto intro: grounded.intros)

lemma grounded_cong: "deps q = deps p \<Longrightarrow> grounded q = grounded p"
  by (auto simp: fun_eq_iff intro: grounded_deps)

lemma same_core_grounded:
  assumes "same_core p q"
  shows "grounded q = grounded p"
  using grounded_cong [OF same_core_deps [OF assms]] by blast

lemma same_core_set_type:
  assumes "\<And>t. unmark (f t) = unmark t"
  shows "same_core p (set_type v f p)"
proof -
  have "map unmark ((types p)[v := f (types p ! v)]) = map unmark (types p)"
    by (cases "v < length (types p)")
      (simp_all add: map_update assms list_update_same_conv list_update_beyond)
  then show ?thesis by (simp add: same_core_def set_type_def)
qed

lemma same_core_error [simp]: "same_core p (p\<lparr>error := e\<rparr>)"
  by (simp add: same_core_def)

section \<open>The search for cycles\<close>

text \<open>
  The shape of the stack \<open>S\<close>, with the gates \<open>G\<close> that wait on it, the last one first: a marker 0
  stands on the entry of a waiting gate, and every other entry is a child of the gate that waits
  closest below it.
\<close>

inductive stack_ok :: "aiger_private \<Rightarrow> nat list \<Rightarrow> nat list \<Rightarrow> bool" for p where
  stack_empty: "stack_ok p [] []"
| stack_entry: "stack_ok p S G \<Longrightarrow> j \<noteq> 0 \<Longrightarrow> G \<noteq> [] \<longrightarrow> (hd G, j) \<in> deps p \<Longrightarrow> stack_ok p (j # S) G"
| stack_marker: "stack_ok p (j # S) G \<Longrightarrow> j \<noteq> 0 \<Longrightarrow> stack_ok p (0 # j # S) (j # G)"

inductive_cases stack_entryE: "stack_ok p (j # S) G"

lemma stack_ok_zero:
  assumes "stack_ok p (0 # S) G"
  obtains j S' G' where "S = j # S'" "G = j # G'" "j \<noteq> 0" "stack_ok p (j # S') G'"
  using assms by (cases rule: stack_ok.cases) auto

lemma stack_ok_nonzero:
  assumes "stack_ok p (j # S) G" "j \<noteq> 0"
  shows "stack_ok p S G" "G \<noteq> [] \<Longrightarrow> (hd G, j) \<in> deps p"
  using assms by (auto elim: stack_ok.cases)

text \<open>Waiting gates form a path of the dependency graph.\<close>

lemma stack_ok_path: "stack_ok p S G \<Longrightarrow> g \<in> set G \<Longrightarrow> (g, hd G) \<in> (deps p)\<^sup>*"
proof (induction rule: stack_ok.induct)
  case (stack_marker j S G)
  show ?case
  proof (cases "g = j \<or> G = []")
    case False
    with stack_marker have "(g, hd G) \<in> (deps p)\<^sup>*" "(hd G, j) \<in> deps p"
      using stack_ok_nonzero(2) [OF stack_marker(1,2)] by auto
    then show ?thesis by (simp add: rtrancl_into_rtrancl)
  qed (use stack_marker in auto)
qed auto

text \<open>The invariant of the search.\<close>

definition search_inv :: "aiger_private \<Rightarrow> nat list \<Rightarrow> nat list \<Rightarrow> bool" where
  "search_inv p S G \<longleftrightarrow>
     wf_types p \<and> stack_ok p S G \<and> distinct G \<and>
     (\<forall>j \<in> set S. j < length (types p)) \<and>
     (\<forall>v < length (types p). ty_onstack (types p ! v) = (v \<in> set G)) \<and>
     (\<forall>v \<in> set G. v < length (types p) \<and> ty_mark (types p ! v) \<and> ty_and (types p ! v)) \<and>
     (\<forall>v < length (types p). ty_mark (types p ! v) \<and> v \<notin> set G \<longrightarrow> grounded p v) \<and>
     (\<forall>T g U. S = T @ 0 # g # U \<longrightarrow> (\<forall>w. (g, w) \<in> deps p \<longrightarrow> grounded p w \<or> w \<in> set T))"

lemma stack_ok_deps: "stack_ok p S G \<Longrightarrow> deps q = deps p \<Longrightarrow> stack_ok q S G"
  by (induction rule: stack_ok.induct) (auto intro: stack_ok.intros)

lemma search_invD:
  assumes "search_inv p S G"
  shows "wf_types p" "stack_ok p S G" "distinct G" "j \<in> set S \<Longrightarrow> j < length (types p)"
    "v < length (types p) \<Longrightarrow> ty_onstack (types p ! v) = (v \<in> set G)"
    "v \<in> set G \<Longrightarrow> v < length (types p) \<and> ty_mark (types p ! v) \<and> ty_and (types p ! v)"
    "v < length (types p) \<Longrightarrow> ty_mark (types p ! v) \<Longrightarrow> v \<notin> set G \<Longrightarrow> grounded p v"
    "S = T @ 0 # g # U \<Longrightarrow> (g, w) \<in> deps p \<Longrightarrow> grounded p w \<or> w \<in> set T"
  using assms unfolding search_inv_def by blast+

lemma search_skip:
  assumes inv: "search_inv p (j # S) G" and "j \<noteq> 0"
    and j: "\<not> ty_and (types p ! j) \<or> (ty_mark (types p ! j) \<and> \<not> ty_onstack (types p ! j))"
  shows "search_inv p S G"
proof -
  note d = search_invD [OF inv]
  have len: "j < length (types p)" by (simp add: d(4))
  have g: "grounded p j"
    using j len d(5) [OF len] d(7) [OF len] not_and_grounded [OF d(1) len] by blast
  have "grounded p w \<or> w \<in> set T" if "S = T @ 0 # g # U" "(g, w) \<in> deps p" for T g U w
    using d(8) [of "j # T" g U w] that g by auto
  with d stack_ok_nonzero(1) [OF d(2) \<open>j \<noteq> 0\<close>] show ?thesis
    unfolding search_inv_def by simp
qed

lemma split_at_marker:
  assumes "C @ 0 # j # S = T @ 0 # g # U" "0 \<notin> set C" "j \<noteq> 0"
  shows "(T = C \<and> g = j \<and> U = S) \<or> (\<exists>T'. T = C @ 0 # j # T' \<and> S = T' @ 0 # g # U)"
  using assms
proof (induction C arbitrary: T)
  case Nil
  then show ?case
    by (cases T; cases "tl T") auto
next
  case (Cons c C)
  then obtain T' where "T = c # T'" by (cases T) auto
  with Cons show ?case by auto
qed

lemma search_mark:
  assumes inv: "search_inv p (j # S) G" and j: "j \<noteq> 0" "ty_and (types p ! j)" "\<not> ty_mark (types p ! j)"
    and g: "g = ands p ! ty_idx (types p ! j)"
    and q: "q = set_type j (\<lambda>t. t\<lparr>ty_mark := True, ty_onstack := True\<rparr>) p"
    and wf: "wf_aiger p"
  shows "search_inv q (push_child (and_rhs1 g div 2) (push_child (and_rhs0 g div 2) (0 # j # S))) (j # G)"
proof -
  note d = search_invD [OF inv]
  have len: "j < length (types p)" by (simp add: d(4))
  have core: "same_core p q" unfolding q by (rule same_core_set_type) (simp add: unmark_def)
  have deps: "deps q = deps p" using core by (rule same_core_deps)
  have jG: "j \<notin> set G" using d(6) j(3) by blast
  have ty: "types q ! v = (if v = j then (types p ! j)\<lparr>ty_mark := True, ty_onstack := True\<rparr> else types p ! v)"
    if "v < length (types p)" for v
    using that by (simp add: q)
  have lq: "length (types q) = length (types p)" by (simp add: q)
  define C where "C = push_child (and_rhs1 g div 2) (push_child (and_rhs0 g div 2) [])"
  have C: "push_child (and_rhs1 g div 2) (push_child (and_rhs0 g div 2) (0 # j # S)) = C @ 0 # j # S"
    "0 \<notin> set C" "set C = {w. (j, w) \<in> deps p}"
    using deps_gate [OF d(1) len j(2)] by (auto simp: C_def push_child_def g)
  have stack: "stack_ok q (C @ 0 # j # S) (j # G)"
  proof -
    have "stack_ok p (0 # j # S) (j # G)" by (rule stack_marker [OF d(2) j(1)])
    moreover have "(j, w) \<in> deps p" if "w \<in> set C" for w using that C(3) by blast
    ultimately have "stack_ok p (C @ 0 # j # S) (j # G)"
      by (auto simp: C_def push_child_def intro!: stack_entry)
    then show ?thesis by (rule stack_ok_deps) (rule deps)
  qed
  have range: "w < length (types q)" if "w \<in> set C" for w
  proof -
    have "g \<in> set (ands p)" using gate_at [OF d(1) len j(2)] by (simp add: g)
    with wf have "and_rhs0 g div 2 \<le> maxvar p" "and_rhs1 g div 2 \<le> maxvar p"
      by (auto simp: wf_aiger_def wf_lits_def lits_below_def)
    with that have "w \<noteq> 0" "w \<le> maxvar p" by (auto simp: C_def push_child_def split: if_splits)
    with wf_typesD(5) [OF d(1)] show ?thesis by (simp add: lq)
  qed
  have pend: "grounded q w \<or> w \<in> set T" if "C @ 0 # j # S = T @ 0 # h # U" "(h, w) \<in> deps p" for T h U w
    using split_at_marker [OF that(1) C(2) j(1)] C(3) that(2) d(8) [of "j # _" h U w]
    by (auto simp: same_core_grounded [OF core])
  show ?thesis
    unfolding C(1) search_inv_def
  proof (intro conjI ballI allI impI)
    show "wf_types q" using d(1) same_core_wf_types [OF core] by simp
    show "distinct (j # G)" using d(3) jG by simp
    show "k < length (types q)" if "k \<in> set (C @ 0 # j # S)" for k
    proof -
      from that consider "k \<in> set C" | "k = 0" | "k \<in> set (j # S)" by auto
      then show ?thesis
      proof cases
        case 2
        from len have "0 < length (types p)" by linarith
        with 2 show ?thesis by (simp add: lq)
      qed (use range d(4) in \<open>simp_all add: lq\<close>)
    qed
    show "ty_onstack (types q ! v) = (v \<in> set (j # G))" if "v < length (types q)" for v
      using that d(5) by (simp add: lq ty)
    show "v < length (types q)" "ty_mark (types q ! v)" "ty_and (types q ! v)" if "v \<in> set (j # G)" for v
      using that d(6) len j(2) by (auto simp: lq ty)
    show "grounded q v" if "v < length (types q)" "ty_mark (types q ! v) \<and> v \<notin> set (j # G)" for v
      using that d(7) by (cases "v = j") (simp_all add: lq ty same_core_grounded [OF core])
  qed (use stack pend deps in simp_all)
qed

lemma search_unmark:
  assumes inv: "search_inv p (0 # j # S) G"
    and q: "q = set_type j (\<lambda>t. t\<lparr>ty_onstack := False\<rparr>) p"
  obtains G' where "G = j # G'" "j \<noteq> 0" "search_inv q S G'"
proof -
  note d = search_invD [OF inv]
  obtain G' where G: "G = j # G'" and j: "j \<noteq> 0" "stack_ok p (j # S) G'"
    using d(2) by (rule stack_ok_zero) auto
  have len: "j < length (types p)" by (simp add: d(4))
  have core: "same_core p q" unfolding q by (rule same_core_set_type) (simp add: unmark_def)
  have ty: "types q ! v = (if v = j then (types p ! j)\<lparr>ty_onstack := False\<rparr> else types p ! v)"
    if "v < length (types p)" for v
    using that by (simp add: q)
  have lq: "length (types q) = length (types p)" by (simp add: q)
  have gj: "grounded p j"
  proof (rule grounded.intros)
    fix w assume "(j, w) \<in> deps p"
    from d(8) [of "[]" j S, OF _ this] show "grounded p w" by simp
  qed
  have "search_inv q S G'"
    unfolding search_inv_def same_core_grounded [OF core] same_core_deps [OF core] lq
  proof (intro conjI ballI allI impI)
    show "wf_types q" using d(1) same_core_wf_types [OF core] by simp
    show "stack_ok q S G'"
      by (rule stack_ok_deps [OF stack_ok_nonzero(1) [OF j(2,1)] same_core_deps [OF core]])
    show "distinct G'" using d(3) G by simp
    show "k < length (types p)" if "k \<in> set S" for k using that d(4) by simp
    show "ty_onstack (types q ! v) = (v \<in> set G')" if "v < length (types p)" for v
      using that d(3,5) G by (simp add: ty)
    show "v < length (types p)" "ty_mark (types q ! v)" "ty_and (types q ! v)" if "v \<in> set G'" for v
      using that d(6) G by (auto simp: ty)
    show "grounded p v" if "v < length (types p)" "ty_mark (types q ! v) \<and> v \<notin> set G'" for v
      using that d(7) gj G by (cases "v = j") (simp_all add: ty)
    show "grounded p w \<or> w \<in> set T" if "S = T @ 0 # g # U" "(g, w) \<in> deps p" for T g U w
      using d(8) [of "0 # j # T" g U w] that gj by (auto simp: deps_def)
  qed
  with G j(1) that show ?thesis by blast
qed

lemma search_cycle:
  assumes inv: "search_inv p (j # S) G" and "j \<noteq> 0" "ty_onstack (types p ! j)"
  shows "\<not> acyclic (deps p)"
proof -
  note d = search_invD [OF inv]
  have "j \<in> set G" using d(4,5) assms(3) by simp
  moreover from this have "(hd G, j) \<in> deps p"
    using stack_ok_nonzero(2) [OF d(2) \<open>j \<noteq> 0\<close>] by (cases G) simp_all
  ultimately have "(j, j) \<in> (deps p)\<^sup>+"
    using stack_ok_path [OF d(2)] by (meson rtrancl_into_trancl1)
  then show ?thesis by (auto simp: acyclic_def)
qed

text \<open>
  The inner loop returns; without an error it leaves no waiting gate and has marked every gate of
  the stack, and an error means a cycle.
\<close>

definition marks_grow :: "aiger_private \<Rightarrow> aiger_private \<Rightarrow> bool" where
  "marks_grow p q \<longleftrightarrow> (\<forall>v < length (types p). ty_mark (types p ! v) \<longrightarrow> ty_mark (types q ! v))"

definition search_result :: "aiger_private \<Rightarrow> nat list \<Rightarrow> aiger_private \<Rightarrow> bool" where
  "search_result p S q \<longleftrightarrow>
     same_core p q \<and>
     (error q \<noteq> None \<longrightarrow> \<not> acyclic (deps p)) \<and>
     (error q = None \<longrightarrow> search_inv q [] [] \<and> marks_grow p q \<and>
        (\<forall>v \<in> set S. v \<noteq> 0 \<longrightarrow> ty_and (types p ! v) \<longrightarrow> ty_mark (types q ! v)))"

lemma search_result_step:
  assumes core: "same_core p p'" and grow: "marks_grow p p'" and res: "search_result p' S' q"
    and S: "\<And>v. v \<in> set S \<Longrightarrow> v < length (types p)"
    and S': "\<And>v. v \<in> set S \<Longrightarrow> v \<noteq> 0 \<Longrightarrow> ty_and (types p ! v) \<Longrightarrow> v \<in> set S' \<or> ty_mark (types p' ! v)"
  shows "search_result p S q"
proof -
  note len = same_coreD(13) [OF core]
  have "ty_mark (types q ! v)"
    if e: "error q = None" and v: "v \<in> set S" "v \<noteq> 0" "ty_and (types p ! v)" for v
  proof (cases "v \<in> set S'")
    case True
    with res e v same_core_type(3) [OF core S [OF v(1)]] show ?thesis
      unfolding search_result_def by blast
  next
    case False
    with S' [OF v] res e S [OF v(1)] len show ?thesis
      unfolding search_result_def marks_grow_def by metis
  qed
  moreover have "marks_grow p q" if "error q = None"
    using res that grow len unfolding search_result_def marks_grow_def by metis
  ultimately show ?thesis
    using res same_core_trans [OF core, of q] same_core_deps [OF core]
    unfolding search_result_def by simp
qed

text \<open>The three ways one iteration goes on.\<close>

lemma cycle_loop_pop:
  assumes inv: "search_inv p (0 # S) G"
  obtains j S' q G' where "S = j # S'" "q = set_type j (\<lambda>t. t\<lparr>ty_onstack := False\<rparr>) p"
    "cycle_loop p (0 # S) = cycle_loop q S'" "search_inv q S' G'" "same_core p q" "error q = error p"
    "\<And>r. search_result q S' r \<Longrightarrow> search_result p (0 # S) r"
proof -
  note d = search_invD [OF inv]
  from d(2) obtain j S' G' where S: "S = j # S'" and G: "G = j # G'" and j: "j \<noteq> 0"
    by (auto elim: stack_ok_zero)
  let ?q = "set_type j (\<lambda>t. t\<lparr>ty_onstack := False\<rparr>) p"
  have core: "same_core p ?q" by (rule same_core_set_type) (simp add: unmark_def)
  have top: "j < length (types p)" "ty_mark (types p ! j)" "ty_onstack (types p ! j)"
    using d(5,6) G by auto
  have inv': "search_inv ?q S' G'"
    using search_unmark [OF inv [unfolded S] refl] G by auto
  have eq: "cycle_loop p (0 # S) = cycle_loop ?q S'"
    using S j top by (simp add: cycle_loop.simps(2) type_at_def)
  have grow: "marks_grow p ?q"
    using top by (auto simp: marks_grow_def nth_list_update)
  show ?thesis
  proof (rule that [OF S refl eq inv' core])
    fix r assume "search_result ?q S' r"
    then show "search_result p (0 # S) r"
      by (rule search_result_step [OF core grow]) (use d(4) S top in auto)
  qed simp
qed

lemma cycle_loop_mark:
  assumes inv: "search_inv p (j # S) G" and wf: "wf_aiger p"
    and j: "j \<noteq> 0" "ty_and (types p ! j)" "\<not> ty_mark (types p ! j)"
  obtains g q S' where "g = ands p ! ty_idx (types p ! j)"
    "q = set_type j (\<lambda>t. t\<lparr>ty_mark := True, ty_onstack := True\<rparr>) p"
    "S' = push_child (and_rhs1 g div 2) (push_child (and_rhs0 g div 2) (0 # j # S))"
    "cycle_loop p (j # S) = cycle_loop q S'" "search_inv q S' (j # G)" "same_core p q" "error q = error p"
    "\<And>r. search_result q S' r \<Longrightarrow> search_result p (j # S) r"
proof -
  note d = search_invD [OF inv]
  have len: "j < length (types p)" by (simp add: d(4))
  let ?g = "ands p ! ty_idx (types p ! j)"
  let ?q = "set_type j (\<lambda>t. t\<lparr>ty_mark := True, ty_onstack := True\<rparr>) p"
  let ?S = "push_child (and_rhs1 ?g div 2) (push_child (and_rhs0 ?g div 2) (0 # j # S))"
  have core: "same_core p ?q" by (rule same_core_set_type) (simp add: unmark_def)
  have idx: "ty_idx (types p ! j) < length (ands p)" using gate_at [OF d(1) len j(2)] by simp
  have inv': "search_inv ?q ?S (j # G)" by (rule search_mark [OF inv j refl refl wf])
  have eq: "cycle_loop p (j # S) = cycle_loop ?q ?S"
    using j len idx by (simp add: cycle_loop.simps(2) type_at_def Let_def)
  have grow: "marks_grow p ?q"
    using len by (auto simp: marks_grow_def nth_list_update)
  show ?thesis
  proof (rule that [OF refl refl refl eq inv' core])
    fix r assume "search_result ?q ?S r"
    then show "search_result p (j # S) r"
      by (rule search_result_step [OF core grow]) (use d(4) in \<open>auto simp: push_child_def\<close>)
  qed simp
qed

lemma cycle_loop_skip:
  assumes inv: "search_inv p (j # S) G" and "j \<noteq> 0"
    and j: "\<not> (ty_mark (types p ! j) \<and> ty_onstack (types p ! j))" "\<not> ty_and (types p ! j) \<or> ty_mark (types p ! j)"
  shows "cycle_loop p (j # S) = cycle_loop p S" "search_inv p S G"
    "search_result p S r \<Longrightarrow> search_result p (j # S) r"
proof -
  note d = search_invD [OF inv]
  have len: "j < length (types p)" by (simp add: d(4))
  show "search_inv p S G" by (rule search_skip [OF inv \<open>j \<noteq> 0\<close>]) (use j in blast)
  show "cycle_loop p (j # S) = cycle_loop p S"
    using j len \<open>j \<noteq> 0\<close> by (auto simp: cycle_loop.simps(2) type_at_def)
  assume r: "search_result p S r"
  show "search_result p (j # S) r"
    by (rule search_result_step [OF same_core_refl _ r]) (use d(4) j in \<open>auto simp: marks_grow_def\<close>)
qed

lemma cycle_loop_correct:
  assumes "search_inv p S G" "wf_aiger p" "error p = None"
  shows "\<exists>q. cycle_loop p S = Some q \<and> search_result p S q"
  using assms
proof (induction p S arbitrary: G rule: cycle_loop.induct)
  case (1 p)
  then have "G = []" by (auto simp: search_inv_def elim: stack_ok.cases)
  with 1 show ?case by (auto simp: cycle_loop.simps(1) marks_grow_def search_result_def)
next
  case (2 p j S)
  note inv = "2.prems"(1)
  note d = search_invD [OF inv]
  have len: "j < length (types p)" by (simp add: d(4))
  consider (pop) "j = 0"
    | (cycle) "j \<noteq> 0" "ty_mark (types p ! j)" "ty_onstack (types p ! j)"
    | (skip) "j \<noteq> 0" "\<not> (ty_mark (types p ! j) \<and> ty_onstack (types p ! j))" "\<not> ty_and (types p ! j) \<or> ty_mark (types p ! j)"
    | (mark) "j \<noteq> 0" "ty_and (types p ! j)" "\<not> ty_mark (types p ! j)" by blast
  then show ?case
  proof cases
    case pop
    obtain j' S' q G' where q: "S = j' # S'" "q = set_type j' (\<lambda>t. t\<lparr>ty_onstack := False\<rparr>) p"
      "cycle_loop p (0 # S) = cycle_loop q S'" "search_inv q S' G'" "same_core p q" "error q = error p"
      and res: "\<And>r. search_result q S' r \<Longrightarrow> search_result p (0 # S) r"
      using inv [unfolded pop] by (rule cycle_loop_pop) blast
    have top: "j' \<noteq> 0 \<and> j' < length (types p) \<and> ty_mark (type_at p j') \<and> ty_onstack (type_at p j')"
      using d(2) [unfolded pop q(1)] d(5,6) by (auto elim!: stack_ok_zero simp: type_at_def)
    have "\<exists>r. cycle_loop q S' = Some r \<and> search_result q S' r"
      using 2(3) [OF _ q(1) top, folded q(2), OF _ q(4)] pop "2.prems"(2,3) same_core_wf [OF q(5)] q(6)
      by simp
    with q(3) res pop show ?thesis by auto
  next
    case cycle
    with len "2.prems"(3) search_cycle [OF inv] show ?thesis
      by (simp add: cycle_loop.simps(2) type_at_def aiger_error_defs search_result_def)
  next
    case skip
    note k = cycle_loop_skip [OF inv skip]
    from 2(1) [OF skip(1) _ _ _ k(2)] skip len "2.prems"(2,3)
    have "\<exists>r. cycle_loop p S = Some r \<and> search_result p S r" by (auto simp: type_at_def)
    with k show ?thesis by auto
  next
    case mark
    obtain g q S' where q: "g = ands p ! ty_idx (types p ! j)"
      "q = set_type j (\<lambda>t. t\<lparr>ty_mark := True, ty_onstack := True\<rparr>) p"
      "S' = push_child (and_rhs1 g div 2) (push_child (and_rhs0 g div 2) (0 # j # S))"
      "cycle_loop p (j # S) = cycle_loop q S'" "search_inv q S' (j # G)" "same_core p q" "error q = error p"
      and res: "\<And>r. search_result q S' r \<Longrightarrow> search_result p (j # S) r"
      using inv "2.prems"(2) mark by (rule cycle_loop_mark) blast
    have "ty_idx (types p ! j) < length (ands p)" using gate_at [OF d(1) len mark(2)] by simp
    with 2(2) [OF mark(1) _ _ _ _ refl, of "j # G"] q mark len "2.prems"(2,3) same_core_wf [OF q(6)]
    have "\<exists>r. cycle_loop q S' = Some r \<and> search_result q S' r"
      by (simp add: type_at_def)
    with q(4) res show ?thesis by auto
  qed
qed

text \<open>
  Between searches no gate waits, and every marked gate has been searched completely. A fresh
  structure satisfies this, and every successful check keeps it.
\<close>

definition clean_marks :: "aiger_private \<Rightarrow> bool" where
  "clean_marks p \<longleftrightarrow>
     (\<forall>v < length (types p). \<not> ty_onstack (types p ! v) \<and> (ty_mark (types p ! v) \<longrightarrow> grounded p v))"

lemma search_inv_empty: "wf_types p \<Longrightarrow> search_inv p [] [] \<longleftrightarrow> clean_marks p"
  by (auto simp: search_inv_def clean_marks_def stack_empty)

lemma search_inv_root:
  assumes "search_inv p [] []" "j \<noteq> 0" "j < length (types p)"
  shows "search_inv p [j] []"
  using assms stack_entry [OF stack_empty, of j p]
  by (auto simp: search_inv_def append_eq_Cons_conv Cons_eq_append_conv)

lemma until_error_done [simp]: "error p \<noteq> None \<Longrightarrow> until_error f xs p = Some p"
  by (cases xs) simp_all

lemma cycle_outer_correct:
  assumes "search_inv p [] []" "wf_aiger p" "error p = None"
    and "\<forall>i \<in> set is. i \<noteq> 0 \<and> i < length (types p)"
  shows "\<exists>q. until_error (\<lambda>i p.
         if length (types p) \<le> i then None
         else if \<not> ty_and (type_at p i) \<or> ty_mark (type_at p i) then Some p
         else cycle_loop p [i]) is p = Some q \<and> search_result p is q"
    (is "\<exists>q. until_error ?f is p = Some q \<and> _")
  using assms
proof (induction "is" arbitrary: p)
  case Nil
  then show ?case by (auto simp: search_result_def marks_grow_def)
next
  case (Cons i "is")
  then have i: "i \<noteq> 0" "i < length (types p)" by auto
  have "\<exists>q. ?f i p = Some q \<and> search_result p [i] q"
  proof (cases "\<not> ty_and (type_at p i) \<or> ty_mark (type_at p i)")
    case True
    with i Cons.prems show ?thesis by (auto simp: search_result_def marks_grow_def type_at_def)
  next
    case False
    with cycle_loop_correct [OF search_inv_root [OF Cons.prems(1) i] Cons.prems(2,3)] i
    show ?thesis by auto
  qed
  then obtain q where q: "?f i p = Some q" "search_result p [i] q" by blast
  show ?case
  proof (cases "error q = None")
    case False
    with q Cons.prems(3) show ?thesis by (auto simp: search_result_def)
  next
    case True
    from q(2) have core: "same_core p q" by (simp add: search_result_def)
    from q(2) True have inv: "search_inv q [] []" and grow: "marks_grow p q"
      and m: "ty_and (types p ! i) \<Longrightarrow> ty_mark (types q ! i)"
      using i by (auto simp: search_result_def)
    obtain r where r: "until_error ?f is q = Some r" "search_result q is r"
      using Cons.IH [OF inv _ True] Cons.prems(2,4) same_core_wf [OF core] same_coreD(13) [OF core]
      by auto
    have "search_result p (i # is) r"
      by (rule search_result_step [OF core grow r(2)]) (use Cons.prems(4) m in auto)
    with q(1) r(1) Cons.prems(3) show ?thesis by auto
  qed
qed

lemma check_for_cycles_correct:
  assumes wf: "wf_aiger p" and e: "error p = None" and m: "clean_marks p"
  shows "\<exists>q. aiger_check_for_cycles p = Some q \<and> same_core p q \<and>
     (error q = None \<longleftrightarrow> acyclic (deps p)) \<and> (error q = None \<longrightarrow> clean_marks q)"
proof -
  have wt: "wf_types p" using wf by (simp add: wf_aiger_def)
  have "\<forall>i \<in> set [1..<Suc (maxvar p)]. i \<noteq> 0 \<and> i < length (types p)"
    using wf_typesD(5) [OF wt] by auto
  from cycle_outer_correct [OF _ wf e this] m obtain q where
    q: "aiger_check_for_cycles p = Some q" "search_result p [1..<Suc (maxvar p)] q"
    unfolding aiger_check_for_cycles_def search_inv_empty [OF wt] by blast
  have core: "same_core p q" using q(2) by (simp add: search_result_def)
  have "grounded p v" if none: "error q = None" for v
  proof (cases "v < length (types p) \<and> ty_and (types p ! v)")
    case False
    with wt show ?thesis by (meson deps_and grounded.intros)
  next
    case True
    let ?g = "ands p ! ty_idx (types p ! v)"
    from True gate_at [OF wt] have g: "?g \<in> set (ands p)" "and_lhs ?g = 2 * v" by auto
    with wf gate_lhs(2) [OF wt g(1)] have "v \<in> set [1..<Suc (maxvar p)]"
      by (auto simp: wf_aiger_def wf_lits_def lits_below_def)
    with True q(2) none have "ty_mark (types q ! v)" "search_inv q [] []"
      unfolding search_result_def by auto
    with True search_invD(7) [of q "[]" "[]" v] same_coreD(13) [OF core] same_core_grounded [OF core]
    show ?thesis by simp
  qed
  then have "acyclic (deps p)" if "error q = None"
    using that acyclic_iff_grounded by blast
  moreover have "error q = None" if "acyclic (deps p)"
    using q(2) that unfolding search_result_def by blast
  ultimately have "error q = None \<longleftrightarrow> acyclic (deps p)" by blast
  moreover have "clean_marks q" if "error q = None"
  proof -
    have "wf_types q" using wt same_core_wf_types [OF core] by blast
    moreover have "search_inv q [] []" using q(2) that unfolding search_result_def by blast
    ultimately show ?thesis using search_inv_empty by blast
  qed
  ultimately show ?thesis using q(1) core by (intro exI [of _ q] conjI impI) assumption+
qed

section \<open>Undefined literals\<close>

lemma literal_defined_eq:
  assumes "wf_aiger p" "l div 2 \<le> maxvar p"
  shows "aiger_literal_defined p l = Some (defined_var p (l div 2))"
proof -
  have wt: "wf_types p" using assms(1) by (simp add: wf_aiger_def)
  show ?thesis
  proof (cases "l div 2 = 0")
    case False
    with assms(2) wf_typesD(5) [OF wt] have "l div 2 < length (types p)" by linarith
    with assms(2) False defined_var_types [OF wt this] show ?thesis
      by (auto simp: aiger_literal_defined_def Let_def type_at_def undefined_type_def)
  qed (simp_all add: aiger_literal_defined_def defined_var_def)
qed

text \<open>
  A loop of the check whose body leaves the structure alone or sets an error leaves the structure
  alone if every element passes, and otherwise sets an error.
\<close>

lemma until_error_check:
  assumes "error p = None"
    and "\<And>x. x \<in> set xs \<Longrightarrow> \<exists>m. f x p = Some (if P x then p else p\<lparr>error := Some m\<rparr>)"
  shows "\<exists>e. until_error f xs p = Some (p\<lparr>error := e\<rparr>) \<and> (e = None \<longleftrightarrow> (\<forall>x \<in> set xs. P x))"
  using assms(2)
proof (induction xs)
  case Nil
  have "p\<lparr>error := None\<rparr> = p" using assms(1) by simp
  then show ?case by (metis empty_iff list.set(1) until_error.simps(1))
next
  case (Cons x xs)
  from Cons.prems [of x] obtain m where m: "f x p = Some (if P x then p else p\<lparr>error := Some m\<rparr>)"
    by auto
  from Cons obtain e where e: "until_error f xs p = Some (p\<lparr>error := e\<rparr>)" "e = None \<longleftrightarrow> (\<forall>x \<in> set xs. P x)"
    by auto
  show ?case
  proof (cases "P x")
    case True
    with m e assms(1) show ?thesis by auto
  next
    case False
    with m assms(1) have "until_error f (x # xs) p = Some (p\<lparr>error := Some m\<rparr>)" by simp
    with False show ?thesis by auto
  qed
qed

lemma check_stripped_eq:
  assumes "wf_aiger p" "error p = None" "l div 2 \<le> maxvar p"
  shows "\<exists>m. check_stripped fmt l p = Some (if defined_var p (l div 2) then p else p\<lparr>error := Some m\<rparr>)"
proof -
  have "maxvar p < 2147483648" using assms(1) by (simp add: wf_aiger_def wf_lits_def)
  with assms(3) have l: "l < 4294967296" by linarith
  have d: "aiger_literal_defined p (2 * (l div 2)) = Some (defined_var p (l div 2))"
    using literal_defined_eq [OF assms(1), of "2 * (l div 2)"] assms(3) by simp
  show ?thesis
  proof (cases "2 * (l div 2) \<le> 1")
    case True
    then have "defined_var p (l div 2)" by (simp add: defined_var_def)
    with True show ?thesis by (simp only: check_stripped_def Let_def aiger_strip_eq [OF l] if_True simp_thms)
  next
    case False
    with d assms(2) show ?thesis
      by (simp only: check_stripped_def Let_def aiger_strip_eq [OF l] aiger_error_u_def set_error_def) auto
  qed
qed

lemma check_lits_eq:
  assumes "wf_aiger p" "error p = None" "\<And>l. l \<in> set ls \<Longrightarrow> l div 2 \<le> maxvar p"
  shows "\<exists>e. until_error (check_stripped fmt) ls p = Some (p\<lparr>error := e\<rparr>) \<and>
     (e = None \<longleftrightarrow> (\<forall>l \<in> set ls. defined_var p (l div 2)))"
  by (rule until_error_check [OF assms(2)]) (use check_stripped_eq [OF assms(1,2)] assms(3) in blast)

section \<open>The whole check\<close>

lemma check_symbols_eq:
  assumes "wf_aiger p" "error p = None"
  shows
    "\<exists>e. aiger_check_next_defined p = Some (p\<lparr>error := e\<rparr>) \<and>
       (e = None \<longleftrightarrow> (\<forall>s \<in> set (latches p). defined_var p (sym_next s div 2)))"
    "\<exists>e. aiger_check_outputs_defined p = Some (p\<lparr>error := e\<rparr>) \<and>
       (e = None \<longleftrightarrow> (\<forall>s \<in> set (outputs p). defined_var p (sym_lit s div 2)))"
    "\<exists>e. aiger_check_bad_defined p = Some (p\<lparr>error := e\<rparr>) \<and>
       (e = None \<longleftrightarrow> (\<forall>s \<in> set (bad p). defined_var p (sym_lit s div 2)))"
    "\<exists>e. aiger_check_constraints_defined p = Some (p\<lparr>error := e\<rparr>) \<and>
       (e = None \<longleftrightarrow> (\<forall>s \<in> set (constraints p). defined_var p (sym_lit s div 2)))"
    "\<exists>e. aiger_check_fairness_defined p = Some (p\<lparr>error := e\<rparr>) \<and>
       (e = None \<longleftrightarrow> (\<forall>s \<in> set (fairness p). defined_var p (sym_lit s div 2)))"
    "\<exists>e. aiger_check_justice_defined p = Some (p\<lparr>error := e\<rparr>) \<and>
       (e = None \<longleftrightarrow> (\<forall>s \<in> set (justice p). \<forall>l \<in> set (sym_lits s). defined_var p (l div 2)))"
    "\<exists>e. aiger_check_right_hand_sides_defined p = Some (p\<lparr>error := e\<rparr>) \<and>
       (e = None \<longleftrightarrow>
         (\<forall>g \<in> set (ands p). defined_var p (and_rhs0 g div 2) \<and> defined_var p (and_rhs1 g div 2)))"
proof -
  have b: "lits_below (maxvar p) p" using assms(1) by (simp add: wf_aiger_def wf_lits_def)
  have lits: "\<exists>e. until_error (check_stripped fmt) (map sym_lit xs) p = Some (p\<lparr>error := e\<rparr>) \<and>
       (e = None \<longleftrightarrow> (\<forall>s \<in> set xs. defined_var p (sym_lit s div 2)))"
    if "\<forall>s \<in> set xs. sym_lit s div 2 \<le> maxvar p" for fmt xs
  proof -
    have "\<And>l. l \<in> set (map sym_lit xs) \<Longrightarrow> l div 2 \<le> maxvar p" using that by auto
    from check_lits_eq [OF assms, of "map sym_lit xs" fmt, OF this] show ?thesis by simp
  qed
  show "\<exists>e. aiger_check_outputs_defined p = Some (p\<lparr>error := e\<rparr>) \<and>
       (e = None \<longleftrightarrow> (\<forall>s \<in> set (outputs p). defined_var p (sym_lit s div 2)))"
    "\<exists>e. aiger_check_bad_defined p = Some (p\<lparr>error := e\<rparr>) \<and>
       (e = None \<longleftrightarrow> (\<forall>s \<in> set (bad p). defined_var p (sym_lit s div 2)))"
    "\<exists>e. aiger_check_constraints_defined p = Some (p\<lparr>error := e\<rparr>) \<and>
       (e = None \<longleftrightarrow> (\<forall>s \<in> set (constraints p). defined_var p (sym_lit s div 2)))"
    "\<exists>e. aiger_check_fairness_defined p = Some (p\<lparr>error := e\<rparr>) \<and>
       (e = None \<longleftrightarrow> (\<forall>s \<in> set (fairness p). defined_var p (sym_lit s div 2)))"
    unfolding aiger_check_outputs_defined_def aiger_check_bad_defined_def
      aiger_check_constraints_defined_def aiger_check_fairness_defined_def
    by (rule lits, use b in \<open>simp add: lits_below_def\<close>)+
  show "\<exists>e. aiger_check_justice_defined p = Some (p\<lparr>error := e\<rparr>) \<and>
       (e = None \<longleftrightarrow> (\<forall>s \<in> set (justice p). \<forall>l \<in> set (sym_lits s). defined_var p (l div 2)))"
    unfolding aiger_check_justice_defined_def
  proof (rule until_error_check [OF assms(2)])
    fix s assume "s \<in> set (justice p)"
    with b obtain e where "until_error (check_stripped ''justice %u undefined'') (sym_lits s) p = Some (p\<lparr>error := e\<rparr>)"
      "e = None \<longleftrightarrow> (\<forall>l \<in> set (sym_lits s). defined_var p (l div 2))"
      using check_lits_eq [OF assms, of "sym_lits s" "''justice %u undefined''"]
      by (auto simp: lits_below_def)
    then show "\<exists>m. until_error (check_stripped ''justice %u undefined'') (sym_lits s) p =
        Some (if \<forall>l \<in> set (sym_lits s). defined_var p (l div 2) then p else p\<lparr>error := Some m\<rparr>)"
      using assms(2) by (cases e) auto
  qed
  show "\<exists>e. aiger_check_next_defined p = Some (p\<lparr>error := e\<rparr>) \<and>
       (e = None \<longleftrightarrow> (\<forall>s \<in> set (latches p). defined_var p (sym_next s div 2)))"
    unfolding aiger_check_next_defined_def
  proof (rule until_error_check [OF assms(2)])
    fix s assume s: "s \<in> set (latches p)"
    have k: "kind_ok ty_latch (map sym_lit (latches p)) (types p)"
      using assms(1) by (simp add: wf_aiger_def wf_types_def)
    have l: "sym_lit s \<in> set (map sym_lit (latches p))" using s by simp
    have "even (sym_lit s)" using kind_ok_pos [OF k l] by simp
    moreover from this l have "sym_lit s div 2 < length (types p)" "ty_latch (types p ! (sym_lit s div 2))"
      using kind_ok_length [OF k, of "sym_lit s div 2"] kind_ok_mem [OF k, of "sym_lit s div 2"]
      by (auto simp: even_lit)
    moreover have "aiger_literal_defined p (sym_next s) = Some (defined_var p (sym_next s div 2))"
      by (rule literal_defined_eq [OF assms(1)]) (use b s in \<open>simp add: lits_below_def\<close>)
    ultimately show "\<exists>m. check_next_symbol s p =
        Some (if defined_var p (sym_next s div 2) then p else p\<lparr>error := Some m\<rparr>)"
      using assms(2) by (simp add: check_next_symbol_def type_at_def aiger_error_defs even_iff_mod_2_eq_zero) blast
  qed
  show "\<exists>e. aiger_check_right_hand_sides_defined p = Some (p\<lparr>error := e\<rparr>) \<and>
       (e = None \<longleftrightarrow>
         (\<forall>g \<in> set (ands p). defined_var p (and_rhs0 g div 2) \<and> defined_var p (and_rhs1 g div 2)))"
    unfolding aiger_check_right_hand_sides_defined_def
  proof (rule until_error_check [OF assms(2)])
    fix g assume "g \<in> set (ands p)"
    with b have "aiger_literal_defined p (and_rhs0 g) = Some (defined_var p (and_rhs0 g div 2))"
      "aiger_literal_defined p (and_rhs1 g) = Some (defined_var p (and_rhs1 g div 2))"
      using literal_defined_eq [OF assms(1)] by (simp_all add: lits_below_def)
    then show "\<exists>m. do { p \<leftarrow> aiger_check_right_hand_side_defined p g (and_rhs0 g);
          aiger_check_right_hand_side_defined p g (and_rhs1 g) } =
        Some (if defined_var p (and_rhs0 g div 2) \<and> defined_var p (and_rhs1 g div 2)
              then p else p\<lparr>error := Some m\<rparr>)"
      using assms(2) by (simp add: aiger_check_right_hand_side_defined_def aiger_error_defs) blast
  qed
qed

lemma check_done:
  assumes "error p \<noteq> None"
  shows "aiger_check_next_defined p = Some p" "aiger_check_outputs_defined p = Some p"
    "aiger_check_bad_defined p = Some p" "aiger_check_constraints_defined p = Some p"
    "aiger_check_fairness_defined p = Some p" "aiger_check_justice_defined p = Some p"
    "aiger_check_right_hand_sides_defined p = Some p" "aiger_check_for_cycles p = Some p"
  using assms
  by (simp_all add: aiger_check_next_defined_def aiger_check_outputs_defined_def
      aiger_check_bad_defined_def aiger_check_constraints_defined_def
      aiger_check_fairness_defined_def aiger_check_justice_defined_def
      aiger_check_right_hand_sides_defined_def aiger_check_for_cycles_def del: until_error.simps)

text \<open>
  A stage of the check on a structure with no error yet: it leaves the structure alone if \<open>P\<close>
  holds, sets an error otherwise, and does nothing after an error.
\<close>

definition stage :: "aiger_private \<Rightarrow> (aiger_private \<Rightarrow> aiger_private option) \<Rightarrow> bool \<Rightarrow> bool" where
  "stage p f P \<longleftrightarrow>
     (\<exists>e. f p = Some (p\<lparr>error := e\<rparr>) \<and> (e = None \<longleftrightarrow> P)) \<and>
     (\<forall>m. f (p\<lparr>error := Some m\<rparr>) = Some (p\<lparr>error := Some m\<rparr>))"

lemma stage_bind:
  assumes "stage p f P" "stage p g Q" "error p = None"
  shows "stage p (\<lambda>q. Option.bind (f q) g) (P \<and> Q)"
proof -
  have upd: "p\<lparr>error := None\<rparr> = p" using assms(3) by simp
  from assms obtain e where e: "f p = Some (p\<lparr>error := e\<rparr>)" "e = None \<longleftrightarrow> P"
    unfolding stage_def by blast
  show ?thesis
  proof (cases e)
    case None
    with e upd have "f p = Some p" P by simp_all
    with assms show ?thesis by (simp add: stage_def)
  next
    case (Some m)
    with e have "f p = Some (p\<lparr>error := Some m\<rparr>)" "\<not> P" by simp_all
    with assms show ?thesis by (simp add: stage_def)
  qed
qed

lemma stage_definitions:
  assumes "wf_aiger p" "error p = None"
  shows "stage p (\<lambda>p. do {
      p \<leftarrow> aiger_check_next_defined p;
      p \<leftarrow> aiger_check_outputs_defined p;
      p \<leftarrow> aiger_check_bad_defined p;
      p \<leftarrow> aiger_check_constraints_defined p;
      p \<leftarrow> aiger_check_justice_defined p;
      p \<leftarrow> aiger_check_fairness_defined p;
      aiger_check_right_hand_sides_defined p }) (all_defined p)"
proof -
  have "all_defined p \<longleftrightarrow>
     (\<forall>s \<in> set (latches p). defined_var p (sym_next s div 2)) \<and>
     (\<forall>s \<in> set (outputs p). defined_var p (sym_lit s div 2)) \<and>
     (\<forall>s \<in> set (bad p). defined_var p (sym_lit s div 2)) \<and>
     (\<forall>s \<in> set (constraints p). defined_var p (sym_lit s div 2)) \<and>
     (\<forall>s \<in> set (justice p). \<forall>l \<in> set (sym_lits s). defined_var p (l div 2)) \<and>
     (\<forall>s \<in> set (fairness p). defined_var p (sym_lit s div 2)) \<and>
     (\<forall>g \<in> set (ands p). defined_var p (and_rhs0 g div 2) \<and> defined_var p (and_rhs1 g div 2))"
    unfolding all_defined_def by blast
  then show ?thesis
    by (simp only:, intro stage_bind assms)
      (use check_symbols_eq [OF assms] in \<open>simp_all add: stage_def check_done\<close>)
qed

text \<open>
  The check returns; it reports an error exactly when a literal is undefined or the gates are
  cyclic; and it changes nothing but the error and the marks of the search.
\<close>

lemma aiger_check_spec:
  assumes wf: "wf_aiger p" and e: "error p = None" and m: "clean_marks p"
  shows "\<exists>q. aiger_check p = Some q \<and> same_core p q \<and>
     (error q = None \<longleftrightarrow> all_defined p \<and> acyclic (deps p)) \<and> (error q = None \<longrightarrow> clean_marks q)"
proof -
  have upd: "p\<lparr>error := None\<rparr> = p" using e by simp
  obtain e' where
    "do { p \<leftarrow> aiger_check_next_defined p;
      p \<leftarrow> aiger_check_outputs_defined p;
      p \<leftarrow> aiger_check_bad_defined p;
      p \<leftarrow> aiger_check_constraints_defined p;
      p \<leftarrow> aiger_check_justice_defined p;
      p \<leftarrow> aiger_check_fairness_defined p;
      aiger_check_right_hand_sides_defined p } = Some (p\<lparr>error := e'\<rparr>)"
    and d: "e' = None \<longleftrightarrow> all_defined p"
    using stage_definitions [OF wf e] unfolding stage_def by blast
  then have check: "aiger_check p = aiger_check_for_cycles (p\<lparr>error := e'\<rparr>)"
    using e by (simp add: aiger_check_def aiger_error_def flip: bind_assoc)
  show ?thesis
  proof (cases e')
    case None
    with check upd d check_for_cycles_correct [OF wf e m] show ?thesis by simp
  next
    case (Some msg)
    with check d check_done(8) [of "p\<lparr>error := Some msg\<rparr>"] show ?thesis by simp
  qed
qed

end
