(* ===== verification/AigerQuery.thy ===== *)
theory AigerQuery
  imports AigerCheck
begin

text \<open>
  Lookups and in-place edits of \<open>aiger.c\<close>: \<open>aiger_get_symbol\<close>, \<open>aiger_lit2type\<close>,
  \<open>aiger_lit2tag\<close>, \<open>aiger_is_input\<close>, \<open>aiger_is_latch\<close>, \<open>aiger_is_and\<close>, \<open>aiger_coi\<close>, and the
  removal of symbols and comments. The lookups through the type table are shown equal to a linear
  search of the arrays.
\<close>

section \<open>Lookups\<close>

definition aiger_lit2type :: "aiger_private \<Rightarrow> uint \<Rightarrow> aiger_type option" where
  "aiger_lit2type p lit = do {
     let var = aiger_lit2var lit;
     assert_c (var \<le> maxvar p);
     deref (types p) var
   }"

definition aiger_get_symbol :: "aiger_private \<Rightarrow> uint \<Rightarrow> string option option" where
  "aiger_get_symbol p lit = do {
     assert_c (aiger_error p = None);
     assert_c (lit \<noteq> 0);
     assert_c (aiger_sign lit = 0);
     let var = aiger_lit2var lit;
     assert_c (var \<le> maxvar p);
     t \<leftarrow> deref (types p) var;
     if ty_input t then map_option sym_name (deref (inputs p) (ty_idx t))
     else if ty_latch t then map_option sym_name (deref (latches p) (ty_idx t))
     else Some None
   }"

definition aiger_lit2tag :: "aiger_private \<Rightarrow> uint \<Rightarrow> nat option" where
  "aiger_lit2tag p lit = do {
     let lit = aiger_strip lit;
     if lit = 0 then Some 0
     else do {
       t \<leftarrow> aiger_lit2type p lit;
       if ty_input t then Some 1 else if ty_latch t then Some 2 else Some 3
     }
   }"

definition aiger_is_input :: "aiger_private \<Rightarrow> uint \<Rightarrow> aiger_symbol option option" where
  "aiger_is_input p lit = do {
     assert_c (aiger_error p = None);
     t \<leftarrow> aiger_lit2type p lit;
     if \<not> ty_input t then Some None else map_option Some (deref (inputs p) (ty_idx t))
   }"

definition aiger_is_latch :: "aiger_private \<Rightarrow> uint \<Rightarrow> aiger_symbol option option" where
  "aiger_is_latch p lit = do {
     assert_c (aiger_error p = None);
     t \<leftarrow> aiger_lit2type p lit;
     if \<not> ty_latch t then Some None else map_option Some (deref (latches p) (ty_idx t))
   }"

definition aiger_is_and :: "aiger_private \<Rightarrow> uint \<Rightarrow> aiger_and option option" where
  "aiger_is_and p lit = do {
     assert_c (aiger_error p = None);
     t \<leftarrow> aiger_lit2type p lit;
     if \<not> ty_and t then Some None else map_option Some (deref (ands p) (ty_idx t))
   }"

definition aiger_coi :: "aiger_private \<Rightarrow> aiger_private" where
  "aiger_coi p = p\<lparr>coi := replicate (maxvar p + 1) 1\<rparr>"

section \<open>Symbols and comments\<close>

fun aiger_delete_symbols_aux :: "aiger_symbol list \<Rightarrow> nat \<times> aiger_symbol list" where
  "aiger_delete_symbols_aux [] = (0, [])"
| "aiger_delete_symbols_aux (s # ss) =
     (let (res, ss') = aiger_delete_symbols_aux ss
      in case sym_name s of
           None \<Rightarrow> (res, s # ss')
         | Some _ \<Rightarrow> (Suc res, s\<lparr>sym_name := None\<rparr> # ss'))"

text \<open>The entries behind the first one point to freed strings; no reader goes past a null entry.\<close>

definition aiger_delete_comments :: "aiger_private \<Rightarrow> nat \<times> aiger_private" where
  "aiger_delete_comments p =
     (let p = p\<lparr>num_comments := 0, comments := [None]\<rparr> in (num_comments p, p))"

definition aiger_strip_symbols_and_comments :: "aiger_private \<Rightarrow> (uint \<times> aiger_private) option" where
  "aiger_strip_symbols_and_comments p = do {
     assert_c (aiger_error p = None);
     let (res, p) = aiger_delete_comments p;
     let (n1, ss1) = aiger_delete_symbols_aux (inputs p);
     let (n2, ss2) = aiger_delete_symbols_aux (latches p);
     let (n3, ss3) = aiger_delete_symbols_aux (outputs p);
     let (n4, ss4) = aiger_delete_symbols_aux (bad p);
     let (n5, ss5) = aiger_delete_symbols_aux (constraints p);
     let (n6, ss6) = aiger_delete_symbols_aux (justice p);
     let (n7, ss7) = aiger_delete_symbols_aux (fairness p);
     Some (u32 (res + n1 + n2 + n3 + n4 + n5 + n6 + n7),
       p\<lparr>inputs := ss1, latches := ss2, outputs := ss3, bad := ss4, constraints := ss5,
         justice := ss6, fairness := ss7\<rparr>)
   }"

section \<open>The lookups are linear searches\<close>

lemma deref_kind:
  assumes "kind_ok flag (map f xs) ts" "v < length ts"
  shows "flag (ts ! v) \<Longrightarrow> deref xs (ty_idx (ts ! v)) = find (\<lambda>x. f x = 2 * v) xs"
    and "\<not> flag (ts ! v) \<Longrightarrow> find (\<lambda>x. f x = 2 * v) xs = None"
proof -
  assume "flag (ts ! v)"
  with kind_ok_flagD [OF assms] have i: "ty_idx (ts ! v) < length xs" "f (xs ! ty_idx (ts ! v)) = 2 * v"
    by simp_all
  moreover have "f (xs ! j) \<noteq> 2 * v" if "j < ty_idx (ts ! v)" for j
    proof
    assume eq: "f (xs ! j) = 2 * v"
    from that i(1) have "j < length (map f xs)" "ty_idx (ts ! v) < length (map f xs)" "j \<noteq> ty_idx (ts ! v)"
      by simp_all
    with kind_ok_distinct [OF assms(1)] have "map f xs ! j \<noteq> map f xs ! ty_idx (ts ! v)"
      unfolding distinct_conv_nth by blast
    with eq i that show False by (simp add: \<open>j < length (map f xs)\<close> [simplified])
  qed
  ultimately show "deref xs (ty_idx (ts ! v)) = find (\<lambda>x. f x = 2 * v) xs"
    unfolding deref_def by (auto simp: find_Some_iff intro!: sym [of "find _ _"] exI [of _ "ty_idx (ts ! v)"])
next
  assume "\<not> flag (ts ! v)"
  with kind_ok_mem [OF assms] show "find (\<lambda>x. f x = 2 * v) xs = None"
    by (simp add: find_None_iff image_iff) metis
qed

lemma kind_flag_find:
  assumes "kind_ok flag (map f xs) ts" "v < length ts"
  shows "flag (ts ! v) \<longleftrightarrow> find (\<lambda>x. f x = 2 * v) xs \<noteq> None"
  using kind_ok_mem [OF assms] by (simp add: find_None_iff image_iff) metis

definition input_of :: "aiger_private \<Rightarrow> uint \<Rightarrow> aiger_symbol option" where
  "input_of p l = find (\<lambda>s. sym_lit s = 2 * (l div 2)) (inputs p)"

definition latch_of :: "aiger_private \<Rightarrow> uint \<Rightarrow> aiger_symbol option" where
  "latch_of p l = find (\<lambda>s. sym_lit s = 2 * (l div 2)) (latches p)"

definition gate_of :: "aiger_private \<Rightarrow> uint \<Rightarrow> aiger_and option" where
  "gate_of p l = find (\<lambda>g. and_lhs g = 2 * (l div 2)) (ands p)"

lemma wf_length_types: "wf_aiger p \<Longrightarrow> maxvar p \<noteq> 0 \<Longrightarrow> v \<le> maxvar p \<Longrightarrow> v < length (types p)"
  by (auto simp: wf_aiger_def dest: wf_typesD(5))

lemma lookup_kind:
  assumes "wf_aiger p" "maxvar p \<noteq> 0" "l div 2 \<le> maxvar p"
  shows "aiger_lit2type p l = Some (types p ! (l div 2))"
    "ty_input (types p ! (l div 2)) \<longleftrightarrow> input_of p l \<noteq> None"
    "ty_latch (types p ! (l div 2)) \<longleftrightarrow> latch_of p l \<noteq> None"
    "ty_and (types p ! (l div 2)) \<longleftrightarrow> gate_of p l \<noteq> None"
    "input_of p l \<noteq> None \<Longrightarrow> deref (inputs p) (ty_idx (types p ! (l div 2))) = input_of p l"
    "latch_of p l \<noteq> None \<Longrightarrow> deref (latches p) (ty_idx (types p ! (l div 2))) = latch_of p l"
    "gate_of p l \<noteq> None \<Longrightarrow> deref (ands p) (ty_idx (types p ! (l div 2))) = gate_of p l"
proof -
  have wf: "wf_types p" using assms(1) by (simp add: wf_aiger_def)
  have v: "l div 2 < length (types p)" by (rule wf_length_types [OF assms])
  note k = wf_typesD(1-3) [OF wf]
  show "aiger_lit2type p l = Some (types p ! (l div 2))"
    using assms(3) v by (simp add: aiger_lit2type_def deref_def)
  show i: "ty_input (types p ! (l div 2)) \<longleftrightarrow> input_of p l \<noteq> None"
    unfolding input_of_def by (rule kind_flag_find [OF k(1) v])
  show l: "ty_latch (types p ! (l div 2)) \<longleftrightarrow> latch_of p l \<noteq> None"
    unfolding latch_of_def by (rule kind_flag_find [OF k(2) v])
  show a: "ty_and (types p ! (l div 2)) \<longleftrightarrow> gate_of p l \<noteq> None"
    unfolding gate_of_def by (rule kind_flag_find [OF k(3) v])
  show "input_of p l \<noteq> None \<Longrightarrow> deref (inputs p) (ty_idx (types p ! (l div 2))) = input_of p l"
    using deref_kind(1) [OF k(1) v] i by (simp add: input_of_def)
  show "latch_of p l \<noteq> None \<Longrightarrow> deref (latches p) (ty_idx (types p ! (l div 2))) = latch_of p l"
    using deref_kind(1) [OF k(2) v] l by (simp add: latch_of_def)
  show "gate_of p l \<noteq> None \<Longrightarrow> deref (ands p) (ty_idx (types p ! (l div 2))) = gate_of p l"
    using deref_kind(1) [OF k(3) v] a by (simp add: gate_of_def)
qed

lemma is_lookup_spec:
  assumes "wf_aiger p" "error p = None" "maxvar p \<noteq> 0" "l div 2 \<le> maxvar p"
  shows "aiger_is_input p l = Some (input_of p l)" "aiger_is_latch p l = Some (latch_of p l)"
    "aiger_is_and p l = Some (gate_of p l)"
  using lookup_kind [OF assms(1,3,4)] assms(2)
  by (auto simp: aiger_is_input_def aiger_is_latch_def aiger_is_and_def aiger_error_def)

text \<open>
  With the exact condition: the assertions hold, and there is a type table. A structure has none
  before its first literal, where the lookup dereferences a null pointer.
\<close>

lemma kind_lookup:
  assumes "kind_ok flag (map f xs) ts" "v < length ts"
  shows "(if \<not> flag (ts ! v) then Some None else map_option Some (deref xs (ty_idx (ts ! v)))) = Some (find (\<lambda>x. f x = 2 * v) xs)"
proof (cases "flag (ts ! v)")
  case True
  with kind_flag_find [OF assms] obtain x where "find (\<lambda>x. f x = 2 * v) xs = Some x" by auto
  with deref_kind(1) [OF assms True] True show ?thesis by simp
next
  case False
  with deref_kind(2) [OF assms False] show ?thesis by simp
qed

lemma lookup_exact:
  assumes wf: "wf_aiger p"
  shows "aiger_is_input p l = (if error p = None \<and> l div 2 \<le> maxvar p \<and> types p \<noteq> [] then Some (input_of p l) else None) \<and>
    aiger_is_latch p l = (if error p = None \<and> l div 2 \<le> maxvar p \<and> types p \<noteq> [] then Some (latch_of p l) else None) \<and>
    aiger_is_and p l = (if error p = None \<and> l div 2 \<le> maxvar p \<and> types p \<noteq> [] then Some (gate_of p l) else None)"
proof -
  let ?ok = "l div 2 \<le> maxvar p \<and> types p \<noteq> []"
  have k: "kind_ok ty_input (map sym_lit (inputs p)) (types p)" "kind_ok ty_latch (map sym_lit (latches p)) (types p)"
    "kind_ok ty_and (map and_lhs (ands p)) (types p)" using wf by (simp_all add: wf_aiger_def wf_types_def)
  have v: "l div 2 < length (types p)" if ?ok
    using that wf_length_types [OF wf, of "l div 2"] by (cases "maxvar p = 0") simp_all
  have t: "aiger_lit2type p l = (if ?ok then Some (types p ! (l div 2)) else None)"
    using v by (auto simp: aiger_lit2type_def deref_def Let_def)
  note d = aiger_is_input_def aiger_is_latch_def aiger_is_and_def aiger_error_def input_of_def latch_of_def gate_of_def
  show ?thesis
  proof (cases ?ok)
    case True
    with t have "aiger_lit2type p l = Some (types p ! (l div 2))" by simp
    then show ?thesis
      using True kind_lookup [OF k(1) v [OF True]] kind_lookup [OF k(2) v [OF True]] kind_lookup [OF k(3) v [OF True]]
      by (simp add: d)
  next
    case False
    then have "aiger_lit2type p l = None" unfolding t by (simp only: if_False)
    with False show ?thesis by (simp add: d)
  qed
qed

lemma get_symbol_spec:
  assumes "wf_aiger p" "error p = None" "l div 2 \<le> maxvar p" "l \<noteq> 0" "even l"
  shows "aiger_get_symbol p l =
     Some (case input_of p l of Some s \<Rightarrow> sym_name s
           | None \<Rightarrow> (case latch_of p l of Some s \<Rightarrow> sym_name s | None \<Rightarrow> None))"
proof -
  have m: "maxvar p \<noteq> 0" using assms(3-5) by (auto elim: evenE)
  note k = lookup_kind [OF assms(1) m assms(3)]
  have t: "deref (types p) (l div 2) = Some (types p ! (l div 2))"
    using wf_length_types [OF assms(1) m assms(3)] by (simp add: deref_def)
  have s: "l mod 2 = 0" using assms(5) by (simp add: even_iff_mod_2_eq_zero)
  show ?thesis
  proof (cases "input_of p l")
    case None
    with k assms(2-5) s t show ?thesis
      by (cases "latch_of p l") (simp_all add: aiger_get_symbol_def aiger_error_def)
  next
    case (Some x)
    with k assms(2-5) s t show ?thesis by (simp add: aiger_get_symbol_def aiger_error_def)
  qed
qed

lemma lit2tag_spec:
  assumes "wf_aiger p" "l div 2 \<le> maxvar p" "l < 4294967296"
  shows "aiger_lit2tag p l =
     Some (if l div 2 = 0 then 0 else if input_of p l \<noteq> None then 1
           else if latch_of p l \<noteq> None then 2 else 3)"
proof (cases "l div 2 = 0")
  case False
  then have "maxvar p \<noteq> 0" using assms(2) by linarith
  from lookup_kind [OF assms(1) this, of "2 * (l div 2)"] assms(2)
  have "aiger_lit2type p (2 * (l div 2)) = Some (types p ! (l div 2))"
    "ty_input (types p ! (l div 2)) \<longleftrightarrow> input_of p l \<noteq> None"
    "ty_latch (types p ! (l div 2)) \<longleftrightarrow> latch_of p l \<noteq> None"
    by (simp_all add: input_of_def latch_of_def)
  with False assms(3) show ?thesis by (simp add: aiger_lit2tag_def)
qed (use assms(3) in \<open>simp add: aiger_lit2tag_def\<close>)

section \<open>Removal of symbols and comments\<close>

definition unnamed :: "aiger_symbol \<Rightarrow> aiger_symbol" where
  "unnamed s = s\<lparr>sym_name := None\<rparr>"

definition count_names :: "aiger_symbol list \<Rightarrow> nat" where
  "count_names ss = length (filter (\<lambda>s. sym_name s \<noteq> None) ss)"

lemma unnamed_id: "sym_name s = None \<Longrightarrow> unnamed s = s"
  by (simp add: unnamed_def)

lemma delete_symbols_aux_eq:
  "aiger_delete_symbols_aux ss = (count_names ss, map unnamed ss)"
  by (induction ss) (auto simp: count_names_def unnamed_id split: option.splits, simp add: unnamed_def)

lemma unnamed_simps [simp]:
  "sym_lit (unnamed s) = sym_lit s" "sym_next (unnamed s) = sym_next s"
  "sym_reset (unnamed s) = sym_reset s" "sym_lits (unnamed s) = sym_lits s"
  "sym_name (unnamed s) = None"
  by (simp_all add: unnamed_def)

text \<open>
  The result keeps the circuit and names nothing. The count covers the symbols only:
  \<open>aiger_delete_comments\<close> reads the number of comments after it has cleared it.
\<close>

lemma strip_eq:
  assumes "error p = None"
  shows "aiger_strip_symbols_and_comments p =
     Some (u32 (count_names (all_symbols p)),
       p\<lparr>num_comments := 0, comments := [None], inputs := map unnamed (inputs p),
         latches := map unnamed (latches p), outputs := map unnamed (outputs p),
         bad := map unnamed (bad p), constraints := map unnamed (constraints p),
         justice := map unnamed (justice p), fairness := map unnamed (fairness p)\<rparr>)"
  using assms
  by (simp add: aiger_strip_symbols_and_comments_def aiger_delete_comments_def aiger_error_def
      delete_symbols_aux_eq all_symbols_def count_names_def add.assoc)

lemma strip_spec:
  assumes "wf_aiger p" "error p = None" "aiger_strip_symbols_and_comments p = Some (n, q)"
  shows "n = u32 (count_names (all_symbols p))" "count_names (all_symbols q) = 0"
    "comments q = [None]" "observe q = observe p" "run q = run p" "behaviours q = behaviours p"
    "ands q = ands p" "maxvar q = maxvar p" "types q = types p"
    "wf_types q \<and> wf_lits q \<and> wf_resets q \<and> wf_names q"
proof -
  have q: "q = p\<lparr>num_comments := 0, comments := [None], inputs := map unnamed (inputs p),
         latches := map unnamed (latches p), outputs := map unnamed (outputs p),
         bad := map unnamed (bad p), constraints := map unnamed (constraints p),
         justice := map unnamed (justice p), fairness := map unnamed (fairness p)\<rparr>"
    and n: "n = u32 (count_names (all_symbols p))"
    using assms(3) strip_eq [OF assms(2)] by simp_all
  have m: "map (f \<circ> unnamed) xs = map f xs" if "\<And>s. f (unnamed s) = f s" for f :: "aiger_symbol \<Rightarrow> 'a" and xs
    using that by simp
  show "n = u32 (count_names (all_symbols p))" by (rule n)
  show "count_names (all_symbols q) = 0" by (auto simp: q all_symbols_def count_names_def)
  show "comments q = [None]" "ands q = ands p" "maxvar q = maxvar p" "types q = types p"
    by (simp_all add: q)
  show o: "observe q = observe p" by (simp add: q observe_def fun_eq_iff)
  show r: "run q = run p"
    by (simp add: q run_def models_def fun_eq_iff list.pred_map latch_init_def latch_next_def list_all_iff)
  show "behaviours q = behaviours p" by (simp add: behaviours_def o r)
  have l: "map sym_lit (map unnamed xs) = map sym_lit xs" for xs by simp
  have "wf_types q" using assms(1) by (simp add: q wf_aiger_def wf_types_def comp_def)
  moreover have "wf_lits q" using assms(1) by (simp add: q wf_aiger_def wf_lits_def lits_below_def)
  moreover have "wf_resets q" using assms(1) by (simp add: q wf_aiger_def wf_resets_def)
  moreover have "wf_names q" by (auto simp: q wf_names_def all_symbols_def ok_name_def)
  ultimately show "wf_types q \<and> wf_lits q \<and> wf_resets q \<and> wf_names q" by blast
qed

end
