(* ===== verification/AigerWrite.thy ===== *)
theory AigerWrite
  imports AigerQuery
begin

text \<open>
  The writers of \<open>aiger.c\<close> that only read the structure: the two built-in sinks
  (\<open>aiger_default_put\<close>, \<open>aiger_string_put\<close>), numbers, deltas, the header, symbols, comments and
  the ASCII format. A sink is the client's callback \<open>put\<close>, which takes a character and the sink's
  state and returns an integer, \<open>EOF\<close> for failure. Every writer is shown equal to the emission of
  a fixed text that stops at the first failure (\<open>emit\<close>), for any callback; the locale \<open>sink\<close>
  then says what that means for a sink that keeps what it accepts.
\<close>

section \<open>Sinks\<close>

definition c_EOF :: int where
  "c_EOF = -1"

type_synonym 's putter = "char \<Rightarrow> 's \<Rightarrow> int \<times> 's"

text \<open>\<open>unsigned char\<close> and (signed) \<open>char\<close>, converted to \<open>int\<close>.\<close>

definition uchar_int :: "char \<Rightarrow> int" where
  "uchar_int c = of_char c"

definition char_int :: "char \<Rightarrow> int" where
  "char_int c = (if (of_char c :: nat) < 128 then of_char c else of_char c - 256)"

text \<open>
  An output stream of the C library: the characters that it has accepted, and how many it will still
  accept. Streams are buffered: what becomes of the accepted characters shows when the stream is
  closed, which is a parameter of the functions that close one.
\<close>

record c_file =
  file_data :: string
  file_room :: nat

definition putc :: "int \<Rightarrow> char \<Rightarrow> c_file \<Rightarrow> int \<times> c_file" where
  "putc i c file =
     (if file_room file = 0 then (c_EOF, file)
      else (i, file\<lparr>file_data := file_data file @ [c], file_room := file_room file - 1\<rparr>))"

definition aiger_default_put :: "c_file putter" where
  "aiger_default_put ch file = putc (uchar_int ch) ch file"

text \<open>
  \<open>struct aiger_buffer\<close>: the bytes from \<open>start\<close> to \<open>cursor\<close>, and the distance from \<open>start\<close> to \<open>end\<close>.
\<close>

record aiger_buffer =
  buf_text :: string
  buf_len :: nat

definition aiger_string_put :: "aiger_buffer putter" where
  "aiger_string_put ch b =
     (if length (buf_text b) = buf_len b then (c_EOF, b)
      else (char_int ch, b\<lparr>buf_text := buf_text b @ [ch]\<rparr>))"

section \<open>Writers\<close>

text \<open>
  A writer runs on the sink's state; it fails an assertion (\<open>None\<close>), or returns whether it
  succeeded. A sequence of writers stops at the first failure.
\<close>

type_synonym 's writer = "'s \<Rightarrow> (bool \<times> 's) option"

fun seq :: "'s writer list \<Rightarrow> 's writer" where
  "seq [] s = Some (True, s)"
| "seq (w # ws) s =
     (case w s of None \<Rightarrow> None | Some (ok, s') \<Rightarrow> if ok then seq ws s' else Some (False, s'))"

text \<open>\<open>if (put (c, state) == EOF) return 0;\<close>\<close>

definition put_c :: "'s putter \<Rightarrow> char \<Rightarrow> 's writer" where
  "put_c put c s = (let (r, s') = put c s in Some (r \<noteq> c_EOF, s'))"

text \<open>The result of \<open>aiger_put_s\<close> is \<open>EOF\<close> or the number of characters.\<close>

fun put_s_loop :: "'s putter \<Rightarrow> string \<Rightarrow> nat \<Rightarrow> 's \<Rightarrow> int \<times> 's" where
  "put_s_loop put [] n s = (int n, s)"
| "put_s_loop put (c # cs) n s =
     (let (r, s') = put c s in if r = c_EOF then (c_EOF, s') else put_s_loop put cs (Suc n) s')"

definition aiger_put_s :: "'s putter \<Rightarrow> string \<Rightarrow> 's \<Rightarrow> int \<times> 's" where
  "aiger_put_s put str s = put_s_loop put (c_string str) 0 s"

definition aiger_put_u :: "'s putter \<Rightarrow> uint \<Rightarrow> 's \<Rightarrow> int \<times> 's" where
  "aiger_put_u put u s = aiger_put_s put (sprintf ''%u'' [FmtU u]) s"

definition put_s :: "'s putter \<Rightarrow> string \<Rightarrow> 's writer" where
  "put_s put str s = (let (r, s') = aiger_put_s put str s in Some (r \<noteq> c_EOF, s'))"

definition put_u :: "'s putter \<Rightarrow> uint \<Rightarrow> 's writer" where
  "put_u put u s = (let (r, s') = aiger_put_u put u s in Some (r \<noteq> c_EOF, s'))"

lemma high_bits:
  fixes n :: nat
  assumes "n < 4294967296"
  shows "n AND 4294967168 = 0 \<longleftrightarrow> n < 128"
proof -
  have m: "(4294967168::nat) = push_bit 7 (mask 25)"
    by (simp add: mask_eq_exp_minus_1 push_bit_eq_mult)
  have "n AND 4294967168 = push_bit 7 (drop_bit 7 n AND mask 25)"
    unfolding m by (rule bit_eqI) (auto simp only: bit_and_iff bit_push_bit_iff bit_drop_bit_eq o_def le_add_diff_inverse)
  also have "\<dots> = push_bit 7 (n div 128)"
    using assms by (simp add: take_bit_nat_eq_self drop_bit_eq_div take_bit_eq_mod
        less_mult_imp_div_less flip: take_bit_eq_mask)
  finally show ?thesis by (simp add: push_bit_eq_mult div_eq_0_iff)
qed

function aiger_write_delta :: "'s putter \<Rightarrow> uint \<Rightarrow> 's writer" where
  "aiger_write_delta put tmp s =
     (if tmp AND 4294967168 \<noteq> 0 then
        (let ch = char_of ((tmp AND 127) OR 128);
             (r, s') = put ch s
         in if r = c_EOF then Some (False, s') else aiger_write_delta put (drop_bit 7 tmp) s')
      else
        (let (r, s') = put (char_of tmp) s in Some (r \<noteq> c_EOF, s')))"
  by pat_completeness auto
termination
  by (relation "measure (\<lambda>(put, tmp, s). tmp)")
    (auto simp: drop_bit_eq_div intro!: div_less_dividend gr0I)

declare aiger_write_delta.simps [simp del]

text \<open>\<open>n\<close> numbers, one per line.\<close>

definition write_lits :: "'s putter \<Rightarrow> uint list \<Rightarrow> 's writer" where
  "write_lits put ls = seq (concat (map (\<lambda>l. [put_u put l, put_c put CHR ''\<newline>'']) ls))"

definition write_counts :: "'s putter \<Rightarrow> string \<Rightarrow> aiger_private \<Rightarrow> 's writer" where
  "write_counts put format_string p = seq (
     [put_s put format_string,
      put_c put CHR '' '', put_u put (maxvar p),
      put_c put CHR '' '', put_u put (length (inputs p)),
      put_c put CHR '' '', put_u put (length (latches p)),
      put_c put CHR '' '', put_u put (length (outputs p)),
      put_c put CHR '' '', put_u put (length (ands p))] @
     (if bad p \<noteq> [] \<or> constraints p \<noteq> [] \<or> justice p \<noteq> [] \<or> fairness p \<noteq> []
      then [put_c put CHR '' '', put_u put (length (bad p))] else []) @
     (if constraints p \<noteq> [] \<or> justice p \<noteq> [] \<or> fairness p \<noteq> []
      then [put_c put CHR '' '', put_u put (length (constraints p))] else []) @
     (if justice p \<noteq> [] \<or> fairness p \<noteq> []
      then [put_c put CHR '' '', put_u put (length (justice p))] else []) @
     (if fairness p \<noteq> [] then [put_c put CHR '' '', put_u put (length (fairness p))] else []) @
     [put_c put CHR ''\<newline>''])"

definition write_latch :: "'s putter \<Rightarrow> bool \<Rightarrow> aiger_symbol \<Rightarrow> 's writer" where
  "write_latch put compact s = seq (
     (if \<not> compact then [put_u put (sym_lit s), put_c put CHR '' ''] else []) @
     [put_u put (sym_next s)] @
     (if sym_reset s \<noteq> 0 then [put_c put CHR '' '', put_u put (sym_reset s)] else []) @
     [put_c put CHR ''\<newline>''])"

definition aiger_write_header :: "aiger_private \<Rightarrow> string \<Rightarrow> bool \<Rightarrow> 's putter \<Rightarrow> 's writer" where
  "aiger_write_header p format_string compact put = seq (
     [write_counts put format_string p] @
     (if \<not> compact \<and> inputs p \<noteq> [] then [write_lits put (map sym_lit (inputs p))] else []) @
     map (write_latch put compact) (latches p) @
     [write_lits put (map sym_lit (outputs p)),
      write_lits put (map sym_lit (bad p)),
      write_lits put (map sym_lit (constraints p)),
      write_lits put (map (length \<circ> sym_lits) (justice p))] @
     map (\<lambda>s. write_lits put (sym_lits s)) (justice p) @
     [write_lits put (map sym_lit (fairness p))])"

definition aiger_have_at_least_one_symbol_aux :: "aiger_symbol list \<Rightarrow> bool" where
  "aiger_have_at_least_one_symbol_aux symbols = list_ex (\<lambda>s. sym_name s \<noteq> None) symbols"

definition aiger_have_at_least_one_symbol :: "aiger_private \<Rightarrow> bool" where
  "aiger_have_at_least_one_symbol p \<longleftrightarrow>
     aiger_have_at_least_one_symbol_aux (inputs p) \<or>
     aiger_have_at_least_one_symbol_aux (outputs p) \<or>
     aiger_have_at_least_one_symbol_aux (latches p) \<or>
     aiger_have_at_least_one_symbol_aux (bad p) \<or>
     aiger_have_at_least_one_symbol_aux (constraints p) \<or>
     aiger_have_at_least_one_symbol_aux (justice p) \<or>
     aiger_have_at_least_one_symbol_aux (fairness p)"

fun write_symbols_from :: "'s putter \<Rightarrow> string \<Rightarrow> nat \<Rightarrow> aiger_symbol list \<Rightarrow> 's writer" where
  "write_symbols_from put ty i [] s = Some (True, s)"
| "write_symbols_from put ty i (y # ys) s =
     (case sym_name y of
        None \<Rightarrow> write_symbols_from put ty (Suc i) ys s
      | Some name \<Rightarrow> do {
          assert_c (c_string name \<noteq> []);
          seq [seq [put_s put ty, put_u put i, put_c put CHR '' '', put_s put name,
                    put_c put CHR ''\<newline>''],
               write_symbols_from put ty (Suc i) ys] s
        })"

definition aiger_write_symbols_aux :: "'s putter \<Rightarrow> string \<Rightarrow> aiger_symbol list \<Rightarrow> 's writer" where
  "aiger_write_symbols_aux put ty symbols = write_symbols_from put ty 0 symbols"

definition aiger_write_symbols :: "aiger_private \<Rightarrow> 's putter \<Rightarrow> 's writer" where
  "aiger_write_symbols p put = seq
     [aiger_write_symbols_aux put ''i'' (inputs p),
      aiger_write_symbols_aux put ''l'' (latches p),
      aiger_write_symbols_aux put ''o'' (outputs p),
      aiger_write_symbols_aux put ''b'' (bad p),
      aiger_write_symbols_aux put ''c'' (constraints p),
      aiger_write_symbols_aux put ''j'' (justice p),
      aiger_write_symbols_aux put ''f'' (fairness p)]"

definition aiger_write_symbols_to_file :: "aiger_private \<Rightarrow> c_file writer" where
  "aiger_write_symbols_to_file p file = do {
     assert_c (aiger_error p = None);
     aiger_write_symbols p aiger_default_put file
   }"

text \<open>The loop runs to the first null pointer of the comment array.\<close>

fun write_comment_array :: "'s putter \<Rightarrow> string option list \<Rightarrow> 's writer" where
  "write_comment_array put [] s = None"
| "write_comment_array put (None # cs) s = Some (True, s)"
| "write_comment_array put (Some str # cs) s =
     seq [put_s put str, put_c put CHR ''\<newline>'', write_comment_array put cs] s"

definition aiger_write_comments :: "aiger_private \<Rightarrow> 's putter \<Rightarrow> 's writer" where
  "aiger_write_comments p put = write_comment_array put (comments p)"

definition aiger_write_comments_to_file :: "aiger_private \<Rightarrow> c_file writer" where
  "aiger_write_comments_to_file p file = do {
     assert_c (aiger_error p = None);
     aiger_write_comments p aiger_default_put file
   }"

definition write_and :: "'s putter \<Rightarrow> aiger_and \<Rightarrow> 's writer" where
  "write_and put g = seq
     [put_u put (and_lhs g), put_c put CHR '' '', put_u put (and_rhs0 g), put_c put CHR '' '',
      put_u put (and_rhs1 g), put_c put CHR ''\<newline>'']"

text \<open>
  \<open>assert (!aiger_check (public))\<close>: the check runs for its assertion, and leaves its marks behind.
\<close>

definition assert_check :: "aiger_private \<Rightarrow> aiger_private option" where
  "assert_check p = do {
     p \<leftarrow> aiger_check p;
     assert_c (error p = None);
     Some p
   }"

definition with_state :: "'p \<Rightarrow> (bool \<times> 's) option \<Rightarrow> (bool \<times> 'p \<times> 's) option" where
  "with_state p r = map_option (\<lambda>(ok, s). (ok, p, s)) r"

definition aiger_write_ascii ::
    "aiger_private \<Rightarrow> 's putter \<Rightarrow> 's \<Rightarrow> (bool \<times> aiger_private \<times> 's) option" where
  "aiger_write_ascii p put s = do {
     p \<leftarrow> assert_check p;
     with_state p (seq
       [aiger_write_header p ''aag'' False put, seq (map (write_and put) (ands p))] s)
   }"

section \<open>The text that is written\<close>

text \<open>Emission of a text through the callback, up to the first failure.\<close>

fun emit :: "'s putter \<Rightarrow> string \<Rightarrow> 's writer" where
  "emit put [] s = Some (True, s)"
| "emit put (c # cs) s =
     (let (r, s') = put c s in if r = c_EOF then Some (False, s') else emit put cs s')"

function delta_code :: "uint \<Rightarrow> string" where
  "delta_code n = (if n < 128 then [char_of n] else char_of (128 + n mod 128) # delta_code (n div 128))"
  by pat_completeness auto
termination by (relation "measure id") auto

declare delta_code.simps [simp del]

definition line :: "uint \<Rightarrow> string" where
  "line n = dec n @ ''\<newline>''"

definition counts_text :: "string \<Rightarrow> aiger_private \<Rightarrow> string" where
  "counts_text fmt p =
     fmt @ '' '' @ dec (maxvar p) @ '' '' @ dec (length (inputs p)) @ '' '' @ dec (length (latches p)) @
     '' '' @ dec (length (outputs p)) @ '' '' @ dec (length (ands p)) @
     (if bad p \<noteq> [] \<or> constraints p \<noteq> [] \<or> justice p \<noteq> [] \<or> fairness p \<noteq> []
      then '' '' @ dec (length (bad p)) else []) @
     (if constraints p \<noteq> [] \<or> justice p \<noteq> [] \<or> fairness p \<noteq> []
      then '' '' @ dec (length (constraints p)) else []) @
     (if justice p \<noteq> [] \<or> fairness p \<noteq> [] then '' '' @ dec (length (justice p)) else []) @
     (if fairness p \<noteq> [] then '' '' @ dec (length (fairness p)) else []) @ ''\<newline>''"

definition latch_text :: "bool \<Rightarrow> aiger_symbol \<Rightarrow> string" where
  "latch_text compact s =
     (if compact then [] else dec (sym_lit s) @ '' '') @ dec (sym_next s) @
     (if sym_reset s \<noteq> 0 then '' '' @ dec (sym_reset s) else []) @ ''\<newline>''"

definition lits_text :: "uint list \<Rightarrow> string" where
  "lits_text ls = concat (map line ls)"

definition header_text :: "string \<Rightarrow> bool \<Rightarrow> aiger_private \<Rightarrow> string" where
  "header_text fmt compact p =
     counts_text fmt p @
     (if compact then [] else lits_text (map sym_lit (inputs p))) @
     concat (map (latch_text compact) (latches p)) @
     lits_text (map sym_lit (outputs p)) @ lits_text (map sym_lit (bad p)) @
     lits_text (map sym_lit (constraints p)) @ lits_text (map (length \<circ> sym_lits) (justice p)) @
     concat (map (lits_text \<circ> sym_lits) (justice p)) @ lits_text (map sym_lit (fairness p))"

fun symbols_text_from :: "string \<Rightarrow> nat \<Rightarrow> aiger_symbol list \<Rightarrow> string" where
  "symbols_text_from ty i [] = []"
| "symbols_text_from ty i (y # ys) =
     (case sym_name y of None \<Rightarrow> [] | Some name \<Rightarrow> ty @ dec i @ '' '' @ name @ ''\<newline>'') @
     symbols_text_from ty (Suc i) ys"

definition symbols_text :: "aiger_private \<Rightarrow> string" where
  "symbols_text p =
     symbols_text_from ''i'' 0 (inputs p) @ symbols_text_from ''l'' 0 (latches p) @
     symbols_text_from ''o'' 0 (outputs p) @ symbols_text_from ''b'' 0 (bad p) @
     symbols_text_from ''c'' 0 (constraints p) @ symbols_text_from ''j'' 0 (justice p) @
     symbols_text_from ''f'' 0 (fairness p)"

fun comments_text :: "string option list \<Rightarrow> string" where
  "comments_text (Some c # cs) = c @ ''\<newline>'' @ comments_text cs"
| "comments_text _ = []"

definition and_text :: "aiger_and \<Rightarrow> string" where
  "and_text g = dec (and_lhs g) @ '' '' @ dec (and_rhs0 g) @ '' '' @ dec (and_rhs1 g) @ ''\<newline>''"

definition ascii_text :: "aiger_private \<Rightarrow> string" where
  "ascii_text p = header_text ''aag'' False p @ concat (map and_text (ands p))"

section \<open>Every writer emits its text\<close>

lemma emit_append:
  "emit put (xs @ ys) s =
     (case emit put xs s of None \<Rightarrow> None
      | Some (ok, s') \<Rightarrow> if ok then emit put ys s' else Some (False, s'))"
  by (induction xs arbitrary: s) (auto split: prod.splits)

lemma emit_total: "emit put xs s \<noteq> None"
  by (induction xs arbitrary: s) (auto split: prod.splits)

text \<open>The writers compose as the texts do.\<close>

lemma seq_emit_Nil: "seq [] = emit put []"
  by (simp add: fun_eq_iff)

lemma seq_emit_Cons: "w = emit put x \<Longrightarrow> seq ws = emit put y \<Longrightarrow> seq (w # ws) = emit put (x @ y)"
  by (rule ext) (simp add: emit_append split: option.splits)

lemma seq_append:
  "seq (ws @ vs) s =
     (case seq ws s of None \<Rightarrow> None | Some (ok, s') \<Rightarrow> if ok then seq vs s' else Some (False, s'))"
  by (induction ws arbitrary: s) (auto split: option.splits)

lemma seq_emit_append: "seq ws = emit put x \<Longrightarrow> seq vs = emit put y \<Longrightarrow> seq (ws @ vs) = emit put (x @ y)"
  by (rule ext) (simp add: seq_append emit_append split: option.splits)

lemma seq_emit_map:
  "(\<And>x. x \<in> set xs \<Longrightarrow> f x = emit put (g x)) \<Longrightarrow> seq (map f xs) = emit put (concat (map g xs))"
  by (induction xs) (auto intro: seq_emit_Nil seq_emit_Cons)

lemma seq_emit_concat:
  "(\<And>x. x \<in> set xs \<Longrightarrow> seq (f x) = emit put (g x)) \<Longrightarrow>
     seq (concat (map f xs)) = emit put (concat (map g xs))"
  by (induction xs) (auto intro: seq_emit_Nil seq_emit_append)

lemma seq_emit_if:
  "(b \<Longrightarrow> seq ws = emit put x) \<Longrightarrow> (\<not> b \<Longrightarrow> seq vs = emit put y) \<Longrightarrow>
     seq (if b then ws else vs) = emit put (if b then x else y)"
  by simp

lemma seq_emit_single: "w = emit put x \<Longrightarrow> seq [w] = emit put x"
  by (rule ext) (use emit_total in \<open>auto split: option.splits\<close>)

lemmas seq_emit = seq_emit_if seq_emit_append seq_emit_single seq_emit_Cons seq_emit_Nil

lemma put_c_emit: "put_c put c = emit put [c]"
  by (auto simp: fun_eq_iff put_c_def split: prod.splits)

lemma put_s_loop_emit:
  "(let (r, s') = put_s_loop put cs n s in Some (r \<noteq> c_EOF, s')) = emit put cs s"
  by (induction cs arbitrary: n s) (auto simp: c_EOF_def split: prod.splits)

lemma put_s_emit: "CHR 0x00 \<notin> set str \<Longrightarrow> put_s put str = emit put str"
  by (auto simp: fun_eq_iff put_s_def aiger_put_s_def put_s_loop_emit)

lemma dec_no_nul [simp]: "CHR 0x00 \<notin> set (dec n)"
  using isdigit_dec [of "CHR 0x00" n] by (auto simp: isdigit_def)

lemma put_u_emit: "put_u put u = emit put (dec u)"
  using put_s_emit [of "dec u" put]
  by (simp add: fun_eq_iff put_u_def aiger_put_u_def put_s_def)

lemma write_lits_emit: "write_lits put ls = emit put (lits_text ls)"
  unfolding write_lits_def lits_text_def line_def
  by (intro seq_emit_concat seq_emit put_u_emit put_c_emit)

lemma write_counts_emit:
  assumes "CHR 0x00 \<notin> set fmt"
  shows "write_counts put fmt p = emit put (counts_text fmt p)"
proof -
  have n: "seq (if b then [put_c put c, put_u put n] else []) = emit put (if b then [c] @ dec n else [])"
    for b c n by (intro seq_emit put_u_emit put_c_emit)
  have "write_counts put fmt p = emit put (
      (fmt @ '' '' @ dec (maxvar p) @ '' '' @ dec (length (inputs p)) @ '' '' @ dec (length (latches p)) @
       '' '' @ dec (length (outputs p)) @ '' '' @ dec (length (ands p))) @
      (if bad p \<noteq> [] \<or> constraints p \<noteq> [] \<or> justice p \<noteq> [] \<or> fairness p \<noteq> []
       then '' '' @ dec (length (bad p)) else []) @
      (if constraints p \<noteq> [] \<or> justice p \<noteq> [] \<or> fairness p \<noteq> []
       then '' '' @ dec (length (constraints p)) else []) @
      (if justice p \<noteq> [] \<or> fairness p \<noteq> [] then '' '' @ dec (length (justice p)) else []) @
      (if fairness p \<noteq> [] then '' '' @ dec (length (fairness p)) else []) @ ''\<newline>'')"
    unfolding write_counts_def
    by (intro n seq_emit_append seq_emit_single seq_emit_Cons put_u_emit put_c_emit put_s_emit assms)
  then show ?thesis by (simp only: counts_text_def append_assoc)
qed

lemma write_latch_emit: "write_latch put compact s = emit put (latch_text compact s)"
proof -
  have "write_latch put compact s = emit put (
      (if \<not> compact then dec (sym_lit s) @ '' '' else []) @ dec (sym_next s) @
      (if sym_reset s \<noteq> 0 then '' '' @ dec (sym_reset s) else []) @ ''\<newline>'')"
    unfolding write_latch_def by (intro seq_emit put_u_emit put_c_emit)
  then show ?thesis by (simp add: latch_text_def)
qed

lemma write_header_emit:
  assumes "CHR 0x00 \<notin> set fmt"
  shows "aiger_write_header p fmt compact put = emit put (header_text fmt compact p)"
proof -
  have "aiger_write_header p fmt compact put = emit put (
      counts_text fmt p @
      (if \<not> compact \<and> inputs p \<noteq> [] then lits_text (map sym_lit (inputs p)) else []) @
      concat (map (latch_text compact) (latches p)) @
      (lits_text (map sym_lit (outputs p)) @ lits_text (map sym_lit (bad p)) @
       lits_text (map sym_lit (constraints p)) @ lits_text (map (length \<circ> sym_lits) (justice p))) @
      concat (map (\<lambda>s. lits_text (sym_lits s)) (justice p)) @ lits_text (map sym_lit (fairness p)))"
    unfolding aiger_write_header_def
    by (intro seq_emit_if seq_emit_append seq_emit_map seq_emit_single seq_emit_Cons seq_emit_Nil
        write_counts_emit write_lits_emit write_latch_emit assms)
  then show ?thesis by (simp add: header_text_def comp_def lits_text_def)
qed

lemma write_and_emit: "write_and put g = emit put (and_text g)"
  unfolding write_and_def and_text_def by (intro seq_emit put_u_emit put_c_emit)

lemma write_symbols_from_emit:
  assumes "CHR 0x00 \<notin> set ty" "\<forall>y \<in> set ys. ok_name (sym_name y)"
  shows "write_symbols_from put ty i ys = emit put (symbols_text_from ty i ys)"
  using assms(2)
proof (induction ys arbitrary: i)
  case (Cons y ys)
  then have IH: "write_symbols_from put ty (Suc i) ys = emit put (symbols_text_from ty (Suc i) ys)" by simp
  show ?case
  proof (cases "sym_name y")
    case (Some name)
    with Cons.prems have ok: "CHR 0x00 \<notin> set name" "name \<noteq> []" by (auto simp: ok_name_def)
    have "seq [put_s put ty, put_u put i, put_c put CHR '' '', put_s put name, put_c put CHR ''\<newline>''] =
        emit put (ty @ dec i @ '' '' @ name @ ''\<newline>'')"
      by (intro seq_emit put_u_emit put_c_emit put_s_emit ok assms(1))
    from seq_emit_Cons [OF this seq_emit_single [OF IH]] Some ok show ?thesis
      by (simp add: fun_eq_iff)
  qed (simp add: IH fun_eq_iff)
qed (simp add: fun_eq_iff)

lemma write_symbols_emit:
  assumes "wf_names p"
  shows "aiger_write_symbols p put = emit put (symbols_text p)"
proof -
  have ok: "\<forall>y \<in> set ys. ok_name (sym_name y)" if "set ys \<subseteq> set (all_symbols p)" for ys
    using assms that by (auto simp: wf_names_def)
  note [simp] = all_symbols_def
  show ?thesis
    unfolding aiger_write_symbols_def symbols_text_def aiger_write_symbols_aux_def
    by (intro seq_emit write_symbols_from_emit ok) auto
qed

lemma write_comments_emit:
  assumes "cs \<noteq> []" "last cs = None" "\<forall>c \<in> set cs. ok_name c"
  shows "write_comment_array put cs = emit put (comments_text cs)"
  using assms
proof (induction cs)
  case (Cons c cs)
  show ?case
  proof (cases c)
    case (Some str)
    with Cons.prems have "cs \<noteq> []" "CHR 0x00 \<notin> set str" by (auto simp: ok_name_def split: if_splits)
    with Cons have IH: "write_comment_array put cs = emit put (comments_text cs)" by (auto split: if_splits)
    have "seq [put_s put str, put_c put CHR ''\<newline>'', write_comment_array put cs] =
        emit put (str @ ''\<newline>'' @ comments_text cs)"
      by (intro seq_emit put_s_emit put_c_emit IH) fact
    with Some show ?thesis by (simp add: fun_eq_iff)
  qed (simp add: fun_eq_iff)
qed simp

lemma write_delta_emit:
  "n < 4294967296 \<Longrightarrow> aiger_write_delta put n = emit put (delta_code n)"
proof (induction n rule: delta_code.induct)
  case (1 n)
  show ?case
  proof (cases "n < 128")
    case True
    with 1(2) show ?thesis
      by (subst delta_code.simps) (auto simp: fun_eq_iff aiger_write_delta.simps high_bits split: prod.splits)
  next
    case False
    have "aiger_write_delta put (n div 128) = emit put (delta_code (n div 128))"
      using 1 False by (meson div_le_dividend le_less_trans)
    moreover have "(n AND 127) OR 128 = 128 + n mod 128"
    proof -
      have "n AND 127 = take_bit 7 n" by (simp add: take_bit_eq_mask mask_eq_exp_minus_1)
      moreover have "take_bit 7 n OR 128 = take_bit 7 n + 128"
      proof (rule disjunctive_add_eq_or [symmetric])
        have "bit (128::nat) m \<longleftrightarrow> m = 7" for m using bit_exp_iff [of 7 m, where 'a = nat] by auto
        then show "take_bit 7 n AND 128 = 0" by (intro bit_eqI) (auto simp: bit_simps)
      qed
      ultimately show ?thesis by (simp add: take_bit_eq_mod)
    qed
    ultimately show ?thesis
      using False 1(2)
      by (subst delta_code.simps)
        (auto simp: fun_eq_iff aiger_write_delta.simps [of _ n] high_bits drop_bit_eq_div split: prod.splits)
  qed
qed

section \<open>What a sink promises\<close>

text \<open>
  The contract between the writers and a callback: \<open>content\<close> is what the sink has kept, and
  \<open>accepts s cs\<close> says that it will take the text \<open>cs\<close> in state \<open>s\<close>. A sink appends what it accepts,
  and signals \<open>EOF\<close> at the latest when the text it cannot take is over.
\<close>

locale sink =
  fixes put :: "char \<Rightarrow> 's \<Rightarrow> int \<times> 's"
    and content :: "'s \<Rightarrow> string"
    and accepts :: "'s \<Rightarrow> string \<Rightarrow> bool"
  assumes accepts_Nil: "accepts s []"
    and put_accepts: "accepts s (c # cs) \<Longrightarrow> put c s = (r, s') \<Longrightarrow>
          r \<noteq> c_EOF \<and> content s' = content s @ [c] \<and> accepts s' cs"
    and put_rejects: "\<not> accepts s (c # cs) \<Longrightarrow> put c s = (r, s') \<Longrightarrow> r = c_EOF \<or> \<not> accepts s' cs"
begin

lemma emit_accepted:
  "accepts s cs \<Longrightarrow> \<exists>s'. emit put cs s = Some (True, s') \<and> content s' = content s @ cs"
proof (induction cs arbitrary: s)
  case (Cons c cs)
  obtain r s' where p: "put c s = (r, s')" by fastforce
  from put_accepts [OF Cons.prems p] Cons.IH [of s'] p show ?case by auto
qed simp

lemma emit_rejected: "\<not> accepts s cs \<Longrightarrow> \<exists>s'. emit put cs s = Some (False, s')"
proof (induction cs arbitrary: s)
  case (Cons c cs)
  obtain r s' where p: "put c s = (r, s')" by fastforce
  from put_rejects [OF Cons.prems p] Cons.IH [of s'] p show ?case by auto
qed (simp add: accepts_Nil)

end

text \<open>
  The stream of the C library takes what its device has room for. The string buffer takes what fits
  its length, \<^emph>\<open>except for the character 255\<close>: \<open>aiger_string_put\<close> returns the character as a
  \<open>char\<close>, and the \<open>char\<close> 255 is \<open>EOF\<close>.
\<close>

lemma of_char_nonneg [simp]: "0 \<le> (of_char c :: int)"
  by (metis of_nat_0_le_iff of_nat_of_char)

lemma uchar_int_not_EOF [simp]: "uchar_int c \<noteq> c_EOF"
  using of_char_nonneg [of c] unfolding uchar_int_def c_EOF_def by linarith

interpretation file_sink: sink aiger_default_put file_data "\<lambda>f cs. length cs \<le> file_room f"
  by unfold_locales (auto simp: aiger_default_put_def putc_def split: if_splits)

definition buffer_accepts :: "aiger_buffer \<Rightarrow> string \<Rightarrow> bool" where
  "buffer_accepts b cs \<longleftrightarrow>
     (length (buf_text b) + length cs \<le> buf_len b \<or> buf_len b < length (buf_text b)) \<and>
     CHR 0xFF \<notin> set cs"

lemma char_int_EOF: "char_int c = c_EOF \<longleftrightarrow> c = CHR 0xFF"
proof -
  have "(of_char c :: int) = 255 \<longleftrightarrow> (of_char c :: int) = of_char CHR 0xFF" by simp
  also have "\<dots> \<longleftrightarrow> c = CHR 0xFF" by (rule of_char_eq_iff)
  finally have "(of_char c :: int) = 255 \<longleftrightarrow> c = CHR 0xFF" .
  moreover have "(of_char c :: int) \<noteq> -1" using of_char_nonneg [of c] by linarith
  moreover have "CHR 0xFF = c \<Longrightarrow> \<not> (of_char c :: nat) < 128" by auto
  ultimately show ?thesis by (auto simp: char_int_def c_EOF_def)
qed

interpretation string_sink: sink aiger_string_put buf_text buffer_accepts
  by unfold_locales
    (auto simp: aiger_string_put_def buffer_accepts_def char_int_EOF split: if_splits)

section \<open>The ASCII format\<close>

lemma assert_check_spec:
  assumes "wf_aiger p" "error p = None" "clean_marks p" "all_defined p" "acyclic (deps p)"
  shows "\<exists>q. assert_check p = Some q \<and> same_core p q \<and> error q = None \<and> clean_marks q"
  using aiger_check_spec [OF assms(1-3)] assms(4,5) by (auto simp: assert_check_def)

lemma header_text_cong:
  "same_core p q \<Longrightarrow> header_text fmt c q = header_text fmt c p"
  by (simp add: header_text_def counts_text_def same_coreD)

lemma ascii_text_cong: "same_core p q \<Longrightarrow> ascii_text q = ascii_text p"
  by (simp add: ascii_text_def header_text_cong same_coreD)

lemma write_ascii_check:
  assumes "assert_check p = Some q"
  shows "aiger_write_ascii p put s = with_state q (emit put (ascii_text q) s)"
proof -
  have "seq [aiger_write_header q ''aag'' False put, seq (map (write_and put) (ands q))] =
      emit put (header_text ''aag'' False q @ concat (map and_text (ands q)))"
    by (intro seq_emit_single seq_emit_Cons seq_emit_map write_header_emit write_and_emit) simp
  with assms show ?thesis by (simp add: aiger_write_ascii_def ascii_text_def del: seq.simps)
qed

lemma write_ascii_spec:
  assumes "wf_aiger p" "error p = None" "clean_marks p" "all_defined p" "acyclic (deps p)"
  shows "\<exists>q. same_core p q \<and> error q = None \<and> clean_marks q \<and>
     (\<forall>s. aiger_write_ascii p put s = with_state q (emit put (ascii_text p) s))"
proof -
  from assert_check_spec [OF assms] obtain q
    where q: "assert_check p = Some q" "same_core p q" "error q = None" "clean_marks q" by blast
  with write_ascii_check [OF q(1), of put] show ?thesis using ascii_text_cong [OF q(2)] by auto
qed

end
