(* ===== verification/AigerReencode.thy ===== *)
theory AigerReencode
  imports AigerWrite
begin

text \<open>
  \<open>aiger_reencode\<close> of \<open>aiger.c\<close>: renumbering of the variables such that inputs come first, then
  latches, then the gates that are reachable, children before parents. The definitions follow the
  code: the table \<open>code\<close> (a list of \<open>size_code\<close> entries, 0 for \<open>not coded yet\<close>), the counter \<open>new\<close>,
  and the search with an explicit stack in \<open>aiger_reencode_lit\<close>. That the renumbering succeeds and
  keeps the behaviours is shown in \<open>AigerReencodeProof\<close>.
\<close>

section \<open>Is the structure reencoded?\<close>

definition max_even :: "uint \<Rightarrow> uint \<Rightarrow> uint option" where
  "max_even tmp res = do { assert_c (aiger_sign tmp = 0); Some (if tmp > res then tmp else res) }"

definition aiger_max_input_or_latch :: "aiger_private \<Rightarrow> uint option" where
  "aiger_max_input_or_latch p = do {
     res \<leftarrow> foldm max_even (map sym_lit (inputs p)) 0;
     foldm max_even (map sym_lit (latches p)) res
   }"

fun count_up :: "uint \<Rightarrow> uint list \<Rightarrow> uint option" where
  "count_up m [] = Some m"
| "count_up m (tmp # ls) =
     (let m = u32 (m + 2) in if m \<noteq> tmp then None else count_up m ls)"

fun ands_reencoded :: "uint \<Rightarrow> uint \<Rightarrow> aiger_and list \<Rightarrow> bool" where
  "ands_reencoded m lhs [] = True"
| "ands_reencoded m lhs (g # gs) =
     (if and_lhs g \<le> m then False
      else if and_lhs g \<noteq> lhs then False
      else if and_lhs g < and_rhs0 g then False
      else if and_rhs0 g < and_rhs1 g then False
      else ands_reencoded m (u32 (lhs + 2)) gs)"

definition aiger_is_reencoded :: "aiger_private \<Rightarrow> bool option" where
  "aiger_is_reencoded p =
     (case count_up 0 (map sym_lit (inputs p)) of
        None \<Rightarrow> Some False
      | Some m \<Rightarrow>
          (case count_up m (map sym_lit (latches p)) of
             None \<Rightarrow> Some False
           | Some m \<Rightarrow> do {
               lhs \<leftarrow> aiger_max_input_or_latch p;
               Some (ands_reencoded m (u32 (lhs + 2)) (ands p))
             }))"

section \<open>New codes\<close>

text \<open>The structure with its marks, the counter \<open>new\<close>, and the table \<open>code\<close>.\<close>

type_synonym code_state = "aiger_private \<times> uint \<times> uint list"

definition aiger_new_code :: "nat \<Rightarrow> uint \<Rightarrow> uint list \<Rightarrow> (uint \<times> uint list) option" where
  "aiger_new_code var new code = do {
     let lit = aiger_var2lit var;
     assert_c (lit + 1 < length code);
     assert_c (code ! lit = 0);
     let res = new;
     Some (u32 (new + 2), code[lit := res, lit + 1 := u32 (res + 1)])
   }"

text \<open>\<open>if (child) \<dots> PUSH (stack, top, size_stack, child)\<close>\<close>

definition push_gate :: "aiger_private \<Rightarrow> nat \<Rightarrow> nat list \<Rightarrow> nat list option" where
  "push_gate p child st =
     (if child = 0 then Some st
      else do {
        t \<leftarrow> deref (types p) child;
        Some (if \<not> ty_input t \<and> \<not> ty_latch t \<and> \<not> ty_onstack t then child # st else st)
      })"

partial_function (option) reencode_loop :: "nat list \<Rightarrow> code_state \<Rightarrow> code_state option" where
  "reencode_loop stack s =
     (case stack of
        [] \<Rightarrow> Some s
      | old # st \<Rightarrow>
          (case s of (p, new, code) \<Rightarrow>
            if old \<noteq> 0 then do {
              c \<leftarrow> deref code (aiger_var2lit old);
              if c \<noteq> 0 then reencode_loop st s
              else do {
                assert_c (old \<le> maxvar p);
                t \<leftarrow> deref (types p) old;
                if ty_onstack t then reencode_loop st s
                else do {
                  let p = set_type old (\<lambda>t. t\<lparr>ty_onstack := True\<rparr>) p;
                  assert_c (ty_and t);
                  g \<leftarrow> deref (ands p) (ty_idx t);
                  let child0 = aiger_lit2var (and_rhs0 g);
                  let child1 = aiger_lit2var (and_rhs1 g);
                  let (child0, child1) =
                    (if child0 < child1 then (child1, child0) else (child0, child1));
                  assert_c (child0 \<ge> child1);
                  st \<leftarrow> push_gate p child0 (0 # old # st);
                  st \<leftarrow> push_gate p child1 st;
                  reencode_loop st (p, new, code)
                }
              }
            }
            else
              (case st of
                 [] \<Rightarrow> None
               | old # st \<Rightarrow> do {
                   c \<leftarrow> deref code (aiger_var2lit old);
                   assert_c (c = 0);
                   t \<leftarrow> deref (types p) old;
                   assert_c (ty_onstack t);
                   let p = set_type old (\<lambda>t. t\<lparr>ty_onstack := False\<rparr>) p;
                   (new, code) \<leftarrow> aiger_new_code old new code;
                   reencode_loop st (p, new, code)
                 })))"

declare reencode_loop.simps [code]

definition aiger_reencode_lit :: "uint \<Rightarrow> code_state \<Rightarrow> (uint \<times> code_state) option" where
  "aiger_reencode_lit lit s =
     (if lit < 2 then Some (lit, s)
      else do {
        let (p, new, code) = s;
        res \<leftarrow> deref code lit;
        if res \<noteq> 0 then Some (res, s)
        else do {
          let var = aiger_lit2var lit;
          assert_c (var \<le> maxvar p);
          t \<leftarrow> deref (types p) var;
          (p, new, code) \<leftarrow>
            (if ty_and t then reencode_loop [var] (p, new, code)
             else do {
               assert_c (ty_input t \<or> ty_latch t);
               assert_c (lit < new);
               assert_c (aiger_not lit < length code);
               Some (p, new, code[lit := lit, aiger_not lit := aiger_not lit])
             });
          assert_c (code ! lit \<noteq> 0);
          Some (code ! lit, (p, new, code))
        }
      })"

text \<open>A loop that replaces each literal (or symbol) of an array.\<close>

fun map_state :: "('a \<Rightarrow> 's \<Rightarrow> ('b \<times> 's) option) \<Rightarrow> 'a list \<Rightarrow> 's \<Rightarrow> ('b list \<times> 's) option" where
  "map_state f [] s = Some ([], s)"
| "map_state f (x # xs) s = do {
     (y, s) \<leftarrow> f x s;
     (ys, s) \<leftarrow> map_state f xs s;
     Some (y # ys, s)
   }"

definition reencode_latch :: "aiger_symbol \<Rightarrow> code_state \<Rightarrow> (aiger_symbol \<times> code_state) option" where
  "reencode_latch l s = do {
     (next, s) \<leftarrow> aiger_reencode_lit (sym_next l) s;
     (reset, s) \<leftarrow> aiger_reencode_lit (sym_reset l) s;
     Some (l\<lparr>sym_next := next, sym_reset := reset\<rparr>, s)
   }"

definition reencode_symbol :: "aiger_symbol \<Rightarrow> code_state \<Rightarrow> (aiger_symbol \<times> code_state) option" where
  "reencode_symbol y s = do {
     (lit, s) \<leftarrow> aiger_reencode_lit (sym_lit y) s;
     Some (y\<lparr>sym_lit := lit\<rparr>, s)
   }"

definition reencode_justice :: "aiger_symbol \<Rightarrow> code_state \<Rightarrow> (aiger_symbol \<times> code_state) option" where
  "reencode_justice y s = do {
     (lits, s) \<leftarrow> map_state aiger_reencode_lit (sym_lits y) s;
     Some (y\<lparr>sym_lits := lits\<rparr>, s)
   }"

definition assign_code :: "uint \<Rightarrow> uint \<times> uint list \<Rightarrow> (uint \<times> uint list) option" where
  "assign_code old = (\<lambda>(new, code). do {
     assert_c (old + 1 < length code);
     Some (u32 (new + 2), code[old := new, old + 1 := u32 (new + 1)])
   })"

definition initial_codes :: "aiger_private \<Rightarrow> (uint \<times> uint list) option" where
  "initial_codes p = do {
     let size_code = u32 (2 * (maxvar p + 1));
     let size_code = (if size_code < 2 then 2 else size_code);
     let code = (replicate size_code 0)[1 := 1];
     c \<leftarrow> foldm assign_code (map sym_lit (inputs p)) (2, code);
     foldm assign_code (map sym_lit (latches p)) c
   }"

text \<open>All literals outside the gates; the counter and the table at the end.\<close>

definition reencode_lits :: "aiger_private \<Rightarrow> (aiger_private \<times> uint \<times> uint list) option" where
  "reencode_lits p = do {
     (new, code) \<leftarrow> initial_codes p;
     (la, s) \<leftarrow> map_state reencode_latch (latches p) (p, new, code);
     (ou, s) \<leftarrow> map_state reencode_symbol (outputs p) s;
     (ba, s) \<leftarrow> map_state reencode_symbol (bad p) s;
     (co, s) \<leftarrow> map_state reencode_symbol (constraints p) s;
     (ju, s) \<leftarrow> map_state reencode_justice (justice p) s;
     (fa, s) \<leftarrow> map_state reencode_symbol (fairness p) s;
     let (p, new, code) = s;
     Some (p\<lparr>latches := la, outputs := ou, bad := ba, constraints := co, justice := ju,
             fairness := fa\<rparr>, new, code)
   }"

section \<open>The gates and the type table\<close>

definition reencode_and :: "uint list \<Rightarrow> aiger_and \<Rightarrow> aiger_and option option" where
  "reencode_and code g = do {
     lhs \<leftarrow> deref code (and_lhs g);
     if lhs = 0 then Some None
     else do {
       rhs0 \<leftarrow> deref code (and_rhs0 g);
       rhs1 \<leftarrow> deref code (and_rhs1 g);
       let (rhs0, rhs1) = (if rhs0 < rhs1 then (rhs1, rhs0) else (rhs0, rhs1));
       assert_c (lhs > rhs0);
       assert_c (rhs0 \<ge> rhs1);
       Some (Some \<lparr>and_lhs = lhs, and_rhs0 = rhs0, and_rhs1 = rhs1\<rparr>)
     }
   }"

fun reencode_ands :: "uint list \<Rightarrow> aiger_and list \<Rightarrow> aiger_and list option" where
  "reencode_ands code [] = Some []"
| "reencode_ands code (g # gs) = do {
     h \<leftarrow> reencode_and code g;
     hs \<leftarrow> reencode_ands code gs;
     Some (case h of None \<Rightarrow> hs | Some h \<Rightarrow> h # hs)
   }"

text \<open>\<open>((int) c->lhs) - (int) d->lhs\<close>; a difference that is not an \<open>int\<close> is undefined behaviour.\<close>

definition c_int :: "uint \<Rightarrow> int" where
  "c_int n = (if n < 2147483648 then int n else int n - 4294967296)"

definition cmp_lhs :: "aiger_and \<Rightarrow> aiger_and \<Rightarrow> int option" where
  "cmp_lhs c d = do {
     let r = c_int (and_lhs c) - c_int (and_lhs d);
     assert_c (- 2147483648 \<le> r \<and> r < 2147483648);
     Some r
   }"

text \<open>\<open>qsort\<close> of the C library, as an insertion sort with the caller's comparison.\<close>

fun qsort_insert :: "('a \<Rightarrow> 'a \<Rightarrow> int option) \<Rightarrow> 'a \<Rightarrow> 'a list \<Rightarrow> 'a list option" where
  "qsort_insert cmp x [] = Some [x]"
| "qsort_insert cmp x (y # ys) = do {
     r \<leftarrow> cmp x y;
     if r \<le> 0 then Some (x # y # ys)
     else do { zs \<leftarrow> qsort_insert cmp x ys; Some (y # zs) }
   }"

fun qsort :: "('a \<Rightarrow> 'a \<Rightarrow> int option) \<Rightarrow> 'a list \<Rightarrow> 'a list option" where
  "qsort cmp [] = Some []"
| "qsort cmp (x # xs) = do { ys \<leftarrow> qsort cmp xs; qsort_insert cmp x ys }"

text \<open>Loops that write \<open>private->types\<close>.\<close>

definition put_type :: "nat \<Rightarrow> (aiger_type \<Rightarrow> aiger_type) \<Rightarrow> aiger_type list \<Rightarrow> aiger_type list option" where
  "put_type v f ts = do { assert_c (v < length ts); Some (ts[v := f (ts ! v)]) }"

definition clear_type :: "aiger_type \<Rightarrow> aiger_type" where
  "clear_type t = t\<lparr>ty_input := False, ty_latch := False, ty_and := False, ty_idx := 0\<rparr>"

fun number_types ::
    "(nat \<Rightarrow> aiger_type \<Rightarrow> aiger_type) \<Rightarrow> nat \<Rightarrow> uint list \<Rightarrow> aiger_type list \<Rightarrow> aiger_type list option" where
  "number_types f i [] ts = Some ts"
| "number_types f i (l # ls) ts = do {
     ts \<leftarrow> put_type (aiger_lit2var l) (f i) ts;
     number_types f (Suc i) ls ts
   }"

definition reencode_def_symbol :: "uint list \<Rightarrow> aiger_symbol \<Rightarrow> aiger_symbol option" where
  "reencode_def_symbol code y = map_option (\<lambda>l. y\<lparr>sym_lit := l\<rparr>) (deref code (sym_lit y))"

fun map_option_list :: "('a \<Rightarrow> 'b option) \<Rightarrow> 'a list \<Rightarrow> 'b list option" where
  "map_option_list f [] = Some []"
| "map_option_list f (x # xs) = do { y \<leftarrow> f x; ys \<leftarrow> map_option_list f xs; Some (y # ys) }"

definition reencode_types :: "uint list \<Rightarrow> aiger_private \<Rightarrow> aiger_private option" where
  "reencode_types code p = do {
     ts \<leftarrow> foldm (\<lambda>i. put_type i clear_type) [1..<Suc (maxvar p)] (types p);
     ts \<leftarrow> number_types (\<lambda>i t. t\<lparr>ty_and := True, ty_idx := i\<rparr>) 0 (map and_lhs (ands p)) ts;
     ins \<leftarrow> map_option_list (reencode_def_symbol code) (inputs p);
     ts \<leftarrow> number_types (\<lambda>i t. t\<lparr>ty_input := True, ty_idx := i\<rparr>) 0 (map sym_lit ins) ts;
     las \<leftarrow> map_option_list (reencode_def_symbol code) (latches p);
     ts \<leftarrow> number_types (\<lambda>i t. t\<lparr>ty_latch := True, ty_idx := i\<rparr>) 0 (map sym_lit las) ts;
     Some (p\<lparr>inputs := ins, latches := las, types := ts\<rparr>)
   }"

definition assert_disjoint :: "aiger_private \<Rightarrow> unit option" where
  "assert_disjoint p = assert_c (list_all (\<lambda>i. case deref (types p) i of None \<Rightarrow> False | Some t \<Rightarrow>
       \<not> (ty_input t \<and> ty_latch t) \<and> \<not> (ty_input t \<and> ty_and t) \<and> \<not> (ty_latch t \<and> ty_and t))
     [0..<Suc (maxvar p)])"

definition aiger_reencode :: "aiger_private \<Rightarrow> aiger_private option" where
  "aiger_reencode p = do {
     assert_c (aiger_error p = None);
     r \<leftarrow> aiger_is_reencoded p;
     if r then Some p
     else do {
       (p, new, code) \<leftarrow> reencode_lits p;
       gs \<leftarrow> reencode_ands code (ands p);
       gs \<leftarrow> qsort cmp_lhs gs;
       assert_c (new \<noteq> 0);
       assert_c (maxvar p \<ge> aiger_lit2var (new - 1));
       let p = p\<lparr>ands := gs, maxvar := aiger_lit2var (new - 1)\<rparr>;
       p \<leftarrow> reencode_types code p;
       assert_disjoint p;
       r \<leftarrow> aiger_is_reencoded p;
       assert_c r;
       assert_check p
     }
   }"

end
