(* ===== verification/AigerReencodeSearch.thy ===== *)
theory AigerReencodeSearch
  imports AigerReencode
begin

text \<open>
  The search of \<open>aiger_reencode_lit\<close>. The table \<open>code\<close> is represented by the list \<open>ord\<close> of the
  variables in the order in which they got their codes (\<open>enc\<close>); the invariant of the search says
  that the children of a coded gate have smaller codes, that the marked gates are the ones that
  wait on the stack, and that the search never meets one of these again when the gates are acyclic.
\<close>

section \<open>The table as an order of variables\<close>

definition pos :: "nat list \<Rightarrow> nat \<Rightarrow> nat" where
  "pos ord v = length (takeWhile (\<lambda>w. w \<noteq> v) ord)"

definition enc :: "nat list \<Rightarrow> uint \<Rightarrow> uint" where
  "enc ord l =
     (if l < 2 then l else if l div 2 \<in> set ord then 2 * Suc (pos ord (l div 2)) + l mod 2 else 0)"

definition covered :: "nat list \<Rightarrow> uint \<Rightarrow> bool" where
  "covered ord l \<longleftrightarrow> l div 2 = 0 \<or> l div 2 \<in> set ord"

definition table :: "nat \<Rightarrow> nat list \<Rightarrow> uint list" where
  "table m ord = map (enc ord) [0..<2 * Suc m]"

lemma pos_less: "v \<in> set ord \<Longrightarrow> pos ord v < length ord"
  unfolding pos_def by (induction ord) auto

lemma pos_nth: "distinct ord \<Longrightarrow> i < length ord \<Longrightarrow> pos ord (ord ! i) = i"
  unfolding pos_def by (induction ord arbitrary: i) (auto simp: nth_Cons split: nat.split)

lemma nth_pos: "v \<in> set ord \<Longrightarrow> ord ! pos ord v = v"
  unfolding pos_def by (induction ord) auto

lemma pos_append: "v \<in> set ord \<Longrightarrow> pos (ord @ rest) v = pos ord v"
  unfolding pos_def by (induction ord) auto

lemma pos_snoc: "v \<notin> set ord \<Longrightarrow> pos (ord @ [v]) v = length ord"
  unfolding pos_def by (induction ord) auto

lemma pos_mono: "v \<in> set xs \<Longrightarrow> w \<notin> set xs \<Longrightarrow> pos (xs @ ys) v < pos (xs @ ys) w"
  unfolding pos_def by (induction xs) auto

lemma enc_append: "covered ord l \<Longrightarrow> enc (ord @ rest) l = enc ord l"
  by (auto simp: enc_def covered_def pos_append)

lemma covered_append: "covered ord l \<Longrightarrow> covered (ord @ rest) l"
  by (auto simp: covered_def)

lemma enc_even [simp]: "v \<noteq> 0 \<Longrightarrow> enc ord (2 * v) = (if v \<in> set ord then 2 * Suc (pos ord v) else 0)"
  by (auto simp: enc_def)

lemma enc_zero: "enc ord l = 0 \<longleftrightarrow> l = 0 \<or> (2 \<le> l \<and> l div 2 \<notin> set ord)"
  by (auto simp: enc_def)

lemma enc_div2: "covered ord l \<Longrightarrow> 0 \<notin> set ord \<Longrightarrow>
    enc ord l div 2 = (if l div 2 = 0 then 0 else Suc (pos ord (l div 2)))"
  by (auto simp: enc_def covered_def)

lemma enc_mod2: "covered ord l \<Longrightarrow> 0 \<notin> set ord \<Longrightarrow> enc ord l mod 2 = l mod 2"
  by (auto simp: enc_def covered_def mod_Suc)

lemma enc_snoc:
  assumes "v \<notin> set ord" "v \<noteq> 0"
  shows "enc (ord @ [v]) l = (if l div 2 = v then 2 * Suc (length ord) + l mod 2 else enc ord l)"
proof (cases "l div 2 = v")
  case True
  with assms show ?thesis by (auto simp: enc_def pos_snoc)
next
  case False
  then show ?thesis by (auto simp: enc_def pos_append)
qed

lemma deref_table: "l div 2 \<le> m \<Longrightarrow> deref (table m ord) l = Some (enc ord l)"
proof -
  assume "l div 2 \<le> m"
  then have "l < 2 * Suc m" by presburger
  then show ?thesis by (simp add: deref_def table_def del: upt_Suc mult_Suc_right)
qed

lemma length_table [simp]: "length (table m ord) = 2 * Suc m"
  by (simp add: table_def)

lemma nth_table: "l < 2 * Suc m \<Longrightarrow> table m ord ! l = enc ord l"
  by (simp add: table_def del: upt_Suc mult_Suc_right)

lemma table_snoc:
  assumes "v \<notin> set ord" "v \<noteq> 0" "v \<le> m"
  shows "(table m ord)[2 * v := 2 * Suc (length ord), 2 * v + 1 := 2 * Suc (length ord) + 1] =
     table m (ord @ [v])"
proof (rule nth_equalityI)
  fix l assume "l < length ((table m ord)[2 * v := 2 * Suc (length ord), 2 * v + 1 := 2 * Suc (length ord) + 1])"
  then have l: "l < 2 * Suc m" by simp
  have "l = 2 * v \<or> l = 2 * v + 1 \<longleftrightarrow> l div 2 = v" by auto
  with l assms show "(table m ord)[2 * v := 2 * Suc (length ord), 2 * v + 1 := 2 * Suc (length ord) + 1] ! l =
      table m (ord @ [v]) ! l"
    by (auto simp: nth_list_update nth_table enc_snoc simp del: mult_Suc_right; presburger)
qed simp

section \<open>The invariant\<close>

text \<open>What the search needs of the structure.\<close>

definition reencodable :: "aiger_private \<Rightarrow> bool" where
  "reencodable p \<longleftrightarrow>
     wf_aiger p \<and> all_defined p \<and> acyclic (deps p) \<and> 0 < maxvar p \<and> maxvar p < 1073741824"

definition source_vars :: "aiger_private \<Rightarrow> nat list" where
  "source_vars p = map (\<lambda>s. sym_lit s div 2) (inputs p @ latches p)"

text \<open>The order of the codes: inputs and latches first, and every gate after its children.\<close>

definition order_ok :: "aiger_private \<Rightarrow> nat list \<Rightarrow> bool" where
  "order_ok p ord \<longleftrightarrow>
     distinct ord \<and>
     (\<forall>v \<in> set ord. 0 < v \<and> v \<le> maxvar p \<and> defined_var p v) \<and>
     (\<forall>xs v ys w. ord = xs @ v # ys \<longrightarrow> (v, w) \<in> deps p \<longrightarrow> w \<in> set xs) \<and>
     (\<exists>rest. ord = source_vars p @ rest)"

definition code_inv :: "aiger_private \<Rightarrow> code_state \<Rightarrow> nat list \<Rightarrow> bool" where
  "code_inv p0 = (\<lambda>(p, new, code) ord.
     same_core p0 p \<and> error p = error p0 \<and> code = table (maxvar p0) ord \<and>
     new = 2 * Suc (length ord) \<and> order_ok p0 ord)"

definition dfs_inv :: "aiger_private \<Rightarrow> code_state \<Rightarrow> nat list \<Rightarrow> nat list \<Rightarrow> nat list \<Rightarrow> bool" where
  "dfs_inv p0 s ord S G \<longleftrightarrow>
     code_inv p0 s ord \<and> stack_ok p0 S G \<and> distinct G \<and>
     (\<forall>v < length (types p0). ty_onstack (types (fst s) ! v) = (v \<in> set G)) \<and>
     (\<forall>v \<in> set G. v \<notin> set ord) \<and>
     (\<forall>j \<in> set S. j \<noteq> 0 \<longrightarrow> j \<le> maxvar p0 \<and> ty_and (types p0 ! j)) \<and>
     (\<forall>T g U. S = T @ 0 # g # U \<longrightarrow> (\<forall>w. (g, w) \<in> deps p0 \<longrightarrow> w \<in> set ord \<or> w \<in> set T))"

lemma dfs_invD:
  assumes "dfs_inv p0 s ord S G"
  shows "code_inv p0 s ord" "stack_ok p0 S G" "distinct G"
    "v < length (types p0) \<Longrightarrow> ty_onstack (types (fst s) ! v) = (v \<in> set G)"
    "v \<in> set G \<Longrightarrow> v \<notin> set ord"
    "j \<in> set S \<Longrightarrow> j \<noteq> 0 \<Longrightarrow> j \<le> maxvar p0" "j \<in> set S \<Longrightarrow> j \<noteq> 0 \<Longrightarrow> ty_and (types p0 ! j)"
    "S = T @ 0 # g # U \<Longrightarrow> (g, w) \<in> deps p0 \<Longrightarrow> w \<in> set ord \<or> w \<in> set T"
  using assms unfolding dfs_inv_def by blast+

lemma order_okD:
  assumes "order_ok p ord"
  shows "distinct ord" "v \<in> set ord \<Longrightarrow> 0 < v" "v \<in> set ord \<Longrightarrow> v \<le> maxvar p"
    "v \<in> set ord \<Longrightarrow> defined_var p v" "ord = xs @ v # ys \<Longrightarrow> (v, w) \<in> deps p \<Longrightarrow> w \<in> set xs"
    "\<exists>rest. ord = source_vars p @ rest"
  using assms unfolding order_ok_def by blast+

lemma order_ok_snoc:
  assumes "order_ok p ord" "v \<notin> set ord" "0 < v" "v \<le> maxvar p" "defined_var p v"
    and "\<And>w. (v, w) \<in> deps p \<Longrightarrow> w \<in> set ord"
  shows "order_ok p (ord @ [v])"
  unfolding order_ok_def
proof (intro conjI allI impI ballI)
  note d = order_okD [OF assms(1)]
  show "distinct (ord @ [v])" using d(1) assms(2) by simp
  show "0 < w" "w \<le> maxvar p" "defined_var p w" if "w \<in> set (ord @ [v])" for w
    using that d(2-4) assms(3-5) by auto
  show "w \<in> set xs" if "ord @ [v] = xs @ u # ys" "(u, w) \<in> deps p" for xs u ys w
  proof (cases ys rule: rev_cases)
    case Nil
    with that assms(6) show ?thesis by simp
  next
    case (snoc zs z)
    with that have "ord = xs @ u # zs" by simp
    with d(5) that(2) show ?thesis by blast
  qed
  show "\<exists>rest. ord @ [v] = source_vars p @ rest" using d(6) by auto
qed

lemma order_ok_length:
  assumes "order_ok p ord"
  shows "length ord \<le> maxvar p"
proof -
  have "set ord \<subseteq> {1..maxvar p}" using order_okD(2,3) [OF assms] by (auto simp: Suc_le_eq)
  then have "card (set ord) \<le> card {1..maxvar p}" by (intro card_mono) simp
  then show ?thesis using order_okD(1) [OF assms] by (simp add: distinct_card)
qed

lemma reencodableD:
  assumes "reencodable p"
  shows "wf_aiger p" "wf_types p" "all_defined p" "acyclic (deps p)" "0 < maxvar p"
    "maxvar p < 1073741824" "v \<le> maxvar p \<Longrightarrow> v < length (types p)"
  using assms wf_length_types [of p v] by (auto simp: reencodable_def wf_aiger_def)

section \<open>One iteration of the search\<close>

lemma dfs_skip:
  assumes inv: "dfs_inv p0 s ord (j # S) G" and j: "j \<noteq> 0" "j \<in> set ord"
  shows "dfs_inv p0 s ord S G"
proof -
  note d = dfs_invD [OF inv]
  have "w \<in> set ord \<or> w \<in> set T" if "S = T @ 0 # g # U" "(g, w) \<in> deps p0" for T g U w
  proof -
    from that(1) have "j # S = (j # T) @ 0 # g # U" by simp
    from d(8) [OF this that(2)] j show ?thesis by auto
  qed
  moreover have "stack_ok p0 S G" by (rule stack_ok_nonzero(1) [OF d(2) j(1)])
  ultimately show ?thesis using inv unfolding dfs_inv_def by simp
qed

lemma loop_skip:
  assumes inv: "dfs_inv p0 s ord (j # S) G" and j: "j \<noteq> 0" "j \<in> set ord" and m: "maxvar p0 < 1073741824"
  shows "reencode_loop (j # S) s = reencode_loop S s"
proof -
  note d = dfs_invD [OF inv]
  obtain p new code where s: "s = (p, new, code)" by (cases s)
  with d(1) have "code = table (maxvar p0) ord" by (simp add: code_inv_def)
  moreover have "j \<le> maxvar p0" using d(6) j by simp
  ultimately show ?thesis
    using j m by (subst reencode_loop.simps) (simp add: s deref_table)
qed

lemma onstack_cycle:
  assumes "stack_ok p (j # S) G" "j \<noteq> 0" "j \<in> set G"
  shows "\<not> acyclic (deps p)"
proof -
  have "(hd G, j) \<in> deps p" using stack_ok_nonzero(2) [OF assms(1,2)] assms(3) by (cases G) simp_all
  with stack_ok_path [OF assms(1,3)] have "(j, j) \<in> (deps p)\<^sup>+" by (meson rtrancl_into_trancl1)
  then show ?thesis by (auto simp: acyclic_def)
qed

lemma gate_children:
  assumes "wf_aiger p" "all_defined p" "v < length (types p)" "ty_and (types p ! v)" "(v, w) \<in> deps p"
  shows "w \<noteq> 0" "w \<le> maxvar p" "defined_var p w"
proof -
  have wt: "wf_types p" using assms(1) by (simp add: wf_aiger_def)
  let ?g = "ands p ! ty_idx (types p ! v)"
  have g: "?g \<in> set (ands p)" using gate_at [OF wt assms(3,4)] by simp
  from deps_gate [OF wt assms(3,4)] assms(5)
  have w: "w \<noteq> 0" "w = and_rhs0 ?g div 2 \<or> w = and_rhs1 ?g div 2" by blast+
  show "w \<noteq> 0" by (rule w(1))
  show "w \<le> maxvar p" using assms(1) g w(2) by (auto simp: wf_aiger_def wf_lits_def lits_below_def)
  show "defined_var p w" using assms(2) g w(2) by (auto simp: all_defined_def)
qed

lemma defined_kind:
  assumes "wf_types p" "w < length (types p)" "defined_var p w" "w \<noteq> 0"
  shows "ty_and (types p ! w) \<longleftrightarrow> \<not> ty_input (types p ! w) \<and> \<not> ty_latch (types p ! w)"
  using assms(3,4) defined_var_types [OF assms(1,2)] wf_typesD(4) [OF assms(1)] assms(2)
  by (auto simp: undefined_type_def kinds_disjoint_def)

lemma source_defined:
  assumes "wf_types p" "w < length (types p)" "ty_input (types p ! w) \<or> ty_latch (types p ! w)"
  shows "w \<in> set (source_vars p)"
proof -
  have "2 * w \<in> sym_lit ` set (inputs p) \<or> 2 * w \<in> sym_lit ` set (latches p)"
    using assms(3) kind_ok_mem [OF wf_typesD(1) [OF assms(1)] assms(2)]
      kind_ok_mem [OF wf_typesD(2) [OF assms(1)] assms(2)] by auto
  then have "2 * w \<in> sym_lit ` set (inputs p @ latches p)" by (simp add: image_Un)
  then show ?thesis
  proof (rule imageE)
    fix s assume s: "2 * w = sym_lit s" "s \<in> set (inputs p @ latches p)"
    from s(1) have "w = sym_lit s div 2" by simp
    with s(2) show ?thesis unfolding source_vars_def set_map by blast
  qed
qed

text \<open>A gate that is met for the first time waits on the stack below its children.\<close>

lemma push_gate_eq:
  assumes "w < length (types p)"
  shows "push_gate p w st =
     Some (if w \<noteq> 0 \<and> \<not> ty_input (types p ! w) \<and> \<not> ty_latch (types p ! w) \<and> \<not> ty_onstack (types p ! w)
           then w # st else st)"
  using assms by (simp add: push_gate_def deref_def)

lemma loop_visit_eq:
  assumes inv: "dfs_inv p0 (p, new, code) ord (j # S) G" and p0: "reencodable p0"
    and j: "j \<noteq> 0" "j \<notin> set ord"
  defines "q \<equiv> set_type j (\<lambda>t. t\<lparr>ty_onstack := True\<rparr>) p"
  shows "\<exists>C. reencode_loop (j # S) (p, new, code) = reencode_loop (C @ 0 # j # S) (q, new, code) \<and>
     set C = {w. (j, w) \<in> deps p0 \<and> ty_and (types p0 ! w)} \<and> j \<notin> set G"
proof -
  note d = dfs_invD [OF inv] and r = reencodableD [OF p0]
  have core: "same_core p0 p" and code: "code = table (maxvar p0) ord"
    using d(1) by (simp_all add: code_inv_def)
  have jm: "j \<le> maxvar p0" and ja: "ty_and (types p0 ! j)" using d(6,7) j by simp_all
  have len: "j < length (types p0)" using r(7) jm .
  have jG: "j \<notin> set G" using onstack_cycle [OF d(2) j(1)] r(4) by blast
  let ?g = "ands p0 ! ty_idx (types p0 ! j)"
  define a where "a = and_rhs0 ?g div 2"
  define b where "b = and_rhs1 ?g div 2"
  have idx: "ty_idx (types p0 ! j) < length (ands p0)" using gate_at [OF r(2) len ja] by simp
  have dj: "(j, w) \<in> deps p0 \<longleftrightarrow> w \<noteq> 0 \<and> (w = a \<or> w = b)" for w
    using deps_gate [OF r(2) len ja] by (simp add: a_def b_def)
  have "?g \<in> set (ands p0)" using idx by simp
  with r(1) have ab: "a \<le> maxvar p0" "b \<le> maxvar p0"
    by (auto simp: wf_aiger_def wf_lits_def lits_below_def a_def b_def)
  have coreq: "same_core p0 q"
    unfolding q_def by (rule same_core_trans [OF core same_core_set_type]) (simp add: unmark_def)
  have push: "push_gate q w st = Some (if (j, w) \<in> deps p0 \<and> ty_and (types p0 ! w) then w # st else st)"
    if w: "w = a \<or> w = b" for w st
  proof -
    have lw: "w < length (types p0)" using w ab r(7) by blast
    have "w = 0 \<or> ty_and (types p0 ! w) = (\<not> ty_input (types p0 ! w) \<and> \<not> ty_latch (types p0 ! w))"
      using defined_kind [OF r(2) lw] gate_children(3) [OF r(1,3) len ja, of w] dj w by blast
    moreover have "\<not> ty_onstack (types q ! w)" if "(j, w) \<in> deps p0"
    proof
      assume "ty_onstack (types q ! w)"
      with lw d(4) have "w \<in> set (j # G)"
        using same_coreD(13) [OF core] by (cases "w = j") (simp_all add: q_def)
      moreover have "stack_ok p0 (w # 0 # j # S) (j # G)"
        by (rule stack_entry [OF stack_marker [OF d(2) j(1)]]) (use that dj in auto)
      ultimately show False using onstack_cycle [of p0 w _ "j # G"] r(4) that dj by blast
    qed
    ultimately show ?thesis
      using push_gate_eq [of w q st] lw same_coreD(13) [OF coreq] same_core_type(1,2) [OF coreq lw] dj w
      by (auto simp: deps_def)
  qed
  define C1 where "C1 = (if a < b then b else a)"
  define C2 where "C2 = (if a < b then a else b)"
  define C where "C = (if (j, C2) \<in> deps p0 \<and> ty_and (types p0 ! C2) then [C2] else []) @
      (if (j, C1) \<in> deps p0 \<and> ty_and (types p0 ! C1) then [C1] else [])"
  have C12: "C1 = a \<or> C1 = b" "C2 = a \<or> C2 = b" "C2 \<le> C1" "{C1, C2} = {a, b}"
    by (auto simp: C1_def C2_def)
  have dp: "deref (types p) j = Some (types p ! j)" "ty_and (types p ! j)"
    "ty_idx (types p ! j) = ty_idx (types p0 ! j)" "\<not> ty_onstack (types p ! j)"
    "deref (ands q) (ty_idx (types p0 ! j)) = Some ?g"
    using len ja jG d(4) [OF len] idx same_coreD(13) [OF core] same_coreD(9) [OF coreq]
      same_core_type(3,4) [OF core len] by (simp_all add: deref_def)
  have dc: "deref code (2 * j) = Some 0" using j jm deref_table [of "2 * j"] by (simp add: code)
  have "reencode_loop (j # S) (p, new, code) = reencode_loop (C @ 0 # j # S) (q, new, code)"
  proof -
    have "j < 2147483648" using jm r(6) by simp
    then have "reencode_loop (j # S) (p, new, code) =
        Option.bind (push_gate q C1 (0 # j # S)) (\<lambda>st. Option.bind (push_gate q C2 st)
          (\<lambda>st. reencode_loop st (q, new, code)))"
      using j dp dc jm same_coreD(1) [OF core] C12(3)
      by (subst reencode_loop.simps)
        (simp add: Let_def a_def [symmetric] b_def [symmetric] q_def [symmetric], simp add: C1_def C2_def)
    then show ?thesis by (simp add: push [OF C12(1)] push [OF C12(2)] C_def)
  qed
  moreover have "set C = {w. (j, w) \<in> deps p0 \<and> ty_and (types p0 ! w)}"
  proof (rule set_eqI)
    fix w
    have "w \<in> set C \<longleftrightarrow> (w = C1 \<or> w = C2) \<and> (j, w) \<in> deps p0 \<and> ty_and (types p0 ! w)"
      unfolding C_def by (simp split: if_split) blast
    moreover have "w = C1 \<or> w = C2 \<longleftrightarrow> w = a \<or> w = b" using C12(4) by blast
    ultimately show "w \<in> set C \<longleftrightarrow> w \<in> {w. (j, w) \<in> deps p0 \<and> ty_and (types p0 ! w)}"
      using dj [of w] by blast
  qed
  ultimately show ?thesis using jG by blast
qed

lemma dfs_visit:
  assumes inv: "dfs_inv p0 (p, new, code) ord (j # S) G" and p0: "reencodable p0"
    and j: "j \<noteq> 0" "j \<notin> set ord"
    and C: "set C = {w. (j, w) \<in> deps p0 \<and> ty_and (types p0 ! w)}" "j \<notin> set G"
  shows "dfs_inv p0 (set_type j (\<lambda>t. t\<lparr>ty_onstack := True\<rparr>) p, new, code) ord (C @ 0 # j # S) (j # G)"
proof -
  note d = dfs_invD [OF inv] and r = reencodableD [OF p0]
  let ?q = "set_type j (\<lambda>t. t\<lparr>ty_onstack := True\<rparr>) p"
  have core: "same_core p0 p" using d(1) by (simp add: code_inv_def)
  have coreq: "same_core p0 ?q"
    by (rule same_core_trans [OF core same_core_set_type]) (simp add: unmark_def)
  have jm: "j \<le> maxvar p0" and ja: "ty_and (types p0 ! j)" using d(6,7) j by simp_all
  have len: "j < length (types p0)" using r(7) jm .
  have C0: "0 \<notin> set C" using C(1) by (auto simp: deps_def)
  have child: "w \<le> maxvar p0" if "(j, w) \<in> deps p0" for w
    using gate_children(2) [OF r(1,3) len ja that] .
  have stack: "stack_ok p0 (D @ 0 # j # S) (j # G)" if "set D \<subseteq> {w. (j, w) \<in> deps p0}" for D
    using that
  proof (induction D)
    case (Cons w D)
    then have w: "(j, w) \<in> deps p0" by simp
    then have "w \<noteq> 0" by (auto simp: deps_def)
    with Cons w show ?case by (auto intro: stack_entry)
  qed (simp add: stack_marker [OF d(2) j(1)])
  have coded: "w \<in> set ord" if "(j, w) \<in> deps p0" "w \<notin> set C" for w
  proof -
    have w: "w < length (types p0)" using r(7) child that(1) by blast
    have "w \<noteq> 0" "defined_var p0 w" using gate_children(1,3) [OF r(1,3) len ja that(1)] by blast+
    with defined_kind [OF r(2) w] source_defined [OF r(2) w] C(1) that
    have "w \<in> set (source_vars p0)" by blast
    moreover obtain rest where "ord = source_vars p0 @ rest"
      using d(1) by (auto simp: code_inv_def order_ok_def)
    ultimately show ?thesis by simp
  qed
  show ?thesis
    unfolding dfs_inv_def
  proof (intro conjI ballI allI impI)
    show "code_inv p0 (?q, new, code) ord" using d(1) coreq by (simp add: code_inv_def)
    show "stack_ok p0 (C @ 0 # j # S) (j # G)" by (rule stack) (use C(1) in blast)
    show "distinct (j # G)" using d(3) C(2) by simp
    show "ty_onstack (types (fst (?q, new, code)) ! v) = (v \<in> set (j # G))" if "v < length (types p0)" for v
      using that d(4) same_coreD(13) [OF core] by (cases "v = j") simp_all
    show "v \<notin> set ord" if "v \<in> set (j # G)" for v using that j(2) d(5) by auto
    show "k \<le> maxvar p0" "ty_and (types p0 ! k)" if "k \<in> set (C @ 0 # j # S)" "k \<noteq> 0" for k
      using that d(6,7) C(1) child by auto
    show "w \<in> set ord \<or> w \<in> set T" if eq: "C @ 0 # j # S = T @ 0 # g # U" and "(g, w) \<in> deps p0" for T g U w
      using split_at_marker [OF eq C0 j(1)]
    proof
      assume "T = C \<and> g = j \<and> U = S"
      with coded that(2) show ?thesis by blast
    next
      assume "\<exists>T'. T = C @ 0 # j # T' \<and> S = T' @ 0 # g # U"
      then obtain T' where T': "T = C @ 0 # j # T'" "j # S = (j # T') @ 0 # g # U" by auto
      from d(8) [OF T'(2) that(2)] T'(1) show ?thesis by auto
    qed
  qed
qed

text \<open>A waiting gate whose children have codes gets the next code.\<close>

lemma loop_pop:
  assumes inv: "dfs_inv p0 (p, new, code) ord (0 # S) G" and p0: "reencodable p0"
  obtains j S' G' s' where "S = j # S'" "G = j # G'" "j \<noteq> 0"
    "reencode_loop (0 # S) (p, new, code) = reencode_loop S' s'"
    "dfs_inv p0 s' (ord @ [j]) S' G'"
proof -
  note d = dfs_invD [OF inv] and r = reencodableD [OF p0]
  obtain j S' G' where S: "S = j # S'" and G: "G = j # G'" and j: "j \<noteq> 0" "stack_ok p0 (j # S') G'"
    using d(2) by (rule stack_ok_zero)
  let ?q = "set_type j (\<lambda>t. t\<lparr>ty_onstack := False\<rparr>) p"
  have core: "same_core p0 p" and code: "code = table (maxvar p0) ord"
    and new: "new = 2 * Suc (length ord)" and ok: "order_ok p0 ord" and err: "error p = error p0"
    using d(1) by (simp_all add: code_inv_def)
  have coreq: "same_core p0 ?q"
    by (rule same_core_trans [OF core same_core_set_type]) (simp add: unmark_def)
  have jm: "j \<le> maxvar p0" and ja: "ty_and (types p0 ! j)" using d(6,7) j S by simp_all
  have len: "j < length (types p0)" using r(7) jm .
  have un: "j \<notin> set ord" using d(5) G by simp
  have children: "w \<in> set ord" if "(j, w) \<in> deps p0" for w
    using d(8) [of "[]" j S' w] S that by simp
  have def: "defined_var p0 j"
    using defined_var_types [OF r(2) len] ja by (auto simp: undefined_type_def)
  have ok': "order_ok p0 (ord @ [j])"
    by (rule order_ok_snoc [OF ok un _ jm def children]) (use j in simp_all)
  let ?code = "table (maxvar p0) (ord @ [j])"
  have bound: "length ord < 1073741824" using order_ok_length [OF ok] r(6) by simp
  have nc: "aiger_new_code j new code = Some (2 * Suc (length (ord @ [j])), ?code)"
  proof -
    have v: "aiger_var2lit j = 2 * j" using jm r(6) by simp
    have c: "code ! (2 * j) = 0" using jm un j(1) by (simp add: code nth_table)
    show ?thesis
      using jm bound table_snoc [OF un j(1) jm] c
      by (simp add: aiger_new_code_def v new code Let_def)
  qed
  have eq: "reencode_loop (0 # S) (p, new, code) = reencode_loop S' (?q, 2 * Suc (length (ord @ [j])), ?code)"
  proof -
    have "deref (types p) j = Some (types p ! j)" "ty_onstack (types p ! j)"
      using len same_coreD(13) [OF core] d(4) [OF len] G by (simp_all add: deref_def)
    moreover have "deref code (2 * j) = Some 0"
      using deref_table [of "2 * j" "maxvar p0" ord] jm un j(1) by (simp add: code)
    moreover have "j < 2147483648" using jm r(6) by simp
    ultimately show ?thesis
      using nc by (subst reencode_loop.simps) (simp add: S Let_def)
  qed
  have "dfs_inv p0 (?q, 2 * Suc (length (ord @ [j])), ?code) (ord @ [j]) S' G'"
    unfolding dfs_inv_def
  proof (intro conjI ballI allI impI)
    show "code_inv p0 (?q, 2 * Suc (length (ord @ [j])), ?code) (ord @ [j])"
      using coreq ok' err by (simp add: code_inv_def)
    show "stack_ok p0 S' G'" by (rule stack_ok_nonzero(1) [OF j(2,1)])
    show "distinct G'" using d(3) G by simp
    show "ty_onstack (types (fst (?q, 2 * Suc (length (ord @ [j])), ?code)) ! v) = (v \<in> set G')"
      if "v < length (types p0)" for v
      using that d(3,4) G same_coreD(13) [OF core] by (cases "v = j") simp_all
    show "v \<notin> set (ord @ [j])" if "v \<in> set G'" for v using that d(3,5) G by auto
    show "k \<le> maxvar p0" "ty_and (types p0 ! k)" if "k \<in> set S'" "k \<noteq> 0" for k
      using that d(6,7) S by auto
    show "w \<in> set (ord @ [j]) \<or> w \<in> set T" if "S' = T @ 0 # g # U" "(g, w) \<in> deps p0" for T g U w
    proof -
      have "0 # S = (0 # j # T) @ 0 # g # U" using S that(1) by simp
      from d(8) [OF this that(2)] that(2) show ?thesis by (auto simp: deps_def)
    qed
  qed
  with that [OF S G j(1) eq] show ?thesis by blast
qed

section \<open>The search ends\<close>

text \<open>
  Each iteration drops an entry of the stack or makes one more gate wait; a gate that waited has a
  code afterwards.
\<close>

definition dfs_result :: "aiger_private \<Rightarrow> code_state option \<Rightarrow> nat list \<Rightarrow> nat list \<Rightarrow> bool" where
  "dfs_result p0 r ord S \<longleftrightarrow>
     (\<exists>s' rest. r = Some s' \<and> dfs_inv p0 s' (ord @ rest) [] [] \<and>
        (\<forall>j \<in> set S. j \<noteq> 0 \<longrightarrow> j \<in> set (ord @ rest)))"

lemma reencode_loop_correct:
  assumes "dfs_inv p0 s ord S G" "reencodable p0"
  shows "dfs_result p0 (reencode_loop S s) ord S"
proof -
  let ?r = "measures [\<lambda>(S, G, ord :: nat list). card ({1..maxvar p0} - set ord - set G),
      \<lambda>(S :: nat list, G, ord). length S]"
  have wf: "wf ?r" by simp
  show ?thesis
    using assms(1)
  proof (induction "(S, G, ord)" arbitrary: S G ord s rule: wf_induct_rule [OF wf])
    case (1 S G ord s)
    note IH = "1.hyps" and inv = "1.prems"
    note d = dfs_invD [OF inv] and r = reencodableD [OF assms(2)]
    obtain p new code where s: "s = (p, new, code)" by (cases s)
    show ?case
    proof (cases S)
      case Nil
      with d(2) have "G = []" by (auto elim: stack_ok.cases)
      with Nil inv show ?thesis
        by (subst reencode_loop.simps) (auto simp: dfs_result_def intro!: exI [of _ "[]"])
    next
      case (Cons j S')
      consider "j = 0" | "j \<noteq> 0" "j \<in> set ord" | "j \<noteq> 0" "j \<notin> set ord" by blast
      then show ?thesis
      proof cases
        case 1
        obtain k S'' G' s' where k: "S' = k # S''" "G = k # G'" "k \<noteq> 0"
          "reencode_loop (0 # S') (p, new, code) = reencode_loop S'' s'"
          "dfs_inv p0 s' (ord @ [k]) S'' G'"
          using inv [unfolded s Cons 1] assms(2) by (rule loop_pop)
        have "{1..maxvar p0} - set (ord @ [k]) - set G' = {1..maxvar p0} - set ord - set G"
          using k(2) by auto
        then have "((S'', G', ord @ [k]), (S, G, ord)) \<in> ?r" by (simp add: Cons k(1))
        from IH [OF this k(5)] obtain t rest where
          "reencode_loop S'' s' = Some t" "dfs_inv p0 t ((ord @ [k]) @ rest) [] []"
          "\<forall>j \<in> set S''. j \<noteq> 0 \<longrightarrow> j \<in> set ((ord @ [k]) @ rest)"
          unfolding dfs_result_def by blast
        then show ?thesis
          unfolding dfs_result_def Cons 1 s k(4)
          by (intro exI [of _ t] exI [of _ "[k] @ rest"]) (auto simp: k(1))
      next
        case 2
        have "((S', G, ord), (S, G, ord)) \<in> ?r" by (simp add: Cons)
        from IH [OF this dfs_skip [OF inv [unfolded Cons] 2]] obtain t rest where
          "reencode_loop S' s = Some t" "dfs_inv p0 t (ord @ rest) [] []"
          "\<forall>j \<in> set S'. j \<noteq> 0 \<longrightarrow> j \<in> set (ord @ rest)"
          unfolding dfs_result_def by blast
        with loop_skip [OF inv [unfolded Cons] 2 r(6)] show ?thesis
          unfolding dfs_result_def Cons by (intro exI [of _ t] exI [of _ rest]) (simp add: 2(2))
      next
        case 3
        let ?q = "set_type j (\<lambda>t. t\<lparr>ty_onstack := True\<rparr>) p"
        from loop_visit_eq [OF inv [unfolded Cons s] assms(2) 3] obtain C where
          eq: "reencode_loop (j # S') (p, new, code) = reencode_loop (C @ 0 # j # S') (?q, new, code)"
          and C: "set C = {w. (j, w) \<in> deps p0 \<and> ty_and (types p0 ! w)}" "j \<notin> set G" by blast
        note inv' = dfs_visit [OF inv [unfolded Cons s] assms(2) 3 C]
        have "j \<in> {1..maxvar p0} - set ord - set G"
          using 3 d(6) [of j] C(2) by (simp add: Cons)
        moreover have "{1..maxvar p0} - set ord - set (j # G) = {1..maxvar p0} - set ord - set G - {j}"
          by (simp only: list.set(2)) blast
        ultimately have "card ({1..maxvar p0} - set ord - set (j # G)) < card ({1..maxvar p0} - set ord - set G)"
          by (simp only:) (rule card_Diff1_less, simp_all)
        then have "((C @ 0 # j # S', j # G, ord), (S, G, ord)) \<in> ?r" by simp
        from IH [OF this inv'] obtain t rest where
          "reencode_loop (C @ 0 # j # S') (?q, new, code) = Some t" "dfs_inv p0 t (ord @ rest) [] []"
          "\<forall>k \<in> set (C @ 0 # j # S'). k \<noteq> 0 \<longrightarrow> k \<in> set (ord @ rest)"
          unfolding dfs_result_def by blast
        then show ?thesis
          unfolding dfs_result_def Cons s eq by (intro exI [of _ t] exI [of _ rest]) auto
      qed
    qed
  qed
qed

end
