(* ===== verification/AigerReencodeProof.thy ===== *)
theory AigerReencodeProof
  imports AigerReencodeSearch
begin

text \<open>
  \<open>aiger_reencode\<close> renumbers the variables of every checked structure: it returns, what it returns
  is reencoded and well-formed, and it has the same behaviours.
\<close>

section \<open>The literals outside the gates\<close>

definition codes_ok :: "aiger_private \<Rightarrow> code_state \<Rightarrow> nat list \<Rightarrow> bool" where
  "codes_ok p0 s ord \<longleftrightarrow> dfs_inv p0 s ord [] []"

definition usable :: "aiger_private \<Rightarrow> uint \<Rightarrow> bool" where
  "usable p l \<longleftrightarrow> l div 2 \<le> maxvar p \<and> defined_var p (l div 2)"

lemma codes_okD:
  assumes "codes_ok p0 (p, new, code) ord"
  shows "same_core p0 p" "error p = error p0" "code = table (maxvar p0) ord" "new = 2 * Suc (length ord)"
    "order_ok p0 ord" "v < length (types p0) \<Longrightarrow> \<not> ty_onstack (types p ! v)"
  using assms by (auto simp: codes_ok_def dfs_inv_def code_inv_def)

lemma reencode_lit_correct:
  assumes p0: "reencodable p0" and ok: "codes_ok p0 s ord" and l: "usable p0 l"
  shows "\<exists>s' rest. aiger_reencode_lit l s = Some (enc (ord @ rest) l, s') \<and>
     codes_ok p0 s' (ord @ rest) \<and> covered (ord @ rest) l"
proof -
  obtain p new code where s: "s = (p, new, code)" by (cases s)
  note d = codes_okD [OF ok [unfolded s]] and r = reencodableD [OF p0]
  from l have lm: "l div 2 \<le> maxvar p0" and ld: "defined_var p0 (l div 2)" by (simp_all add: usable_def)
  have dc: "deref code l = Some (enc ord l)" using deref_table [OF lm] d(3) by simp
  consider "l < 2" | "2 \<le> l" "l div 2 \<in> set ord" | "2 \<le> l" "l div 2 \<notin> set ord" by linarith
  then show ?thesis
  proof cases
    case 1
    with ok show ?thesis
      by (intro exI [of _ s] exI [of _ "[]"]) (auto simp: aiger_reencode_lit_def enc_def covered_def)
  next
    case 2
    with ok dc show ?thesis
      by (intro exI [of _ s] exI [of _ "[]"])
        (auto simp: aiger_reencode_lit_def s covered_def, simp_all add: enc_def)
  next
    case 3
    let ?v = "l div 2"
    have v: "?v \<noteq> 0" using 3 by linarith
    have len: "?v < length (types p0)" using r(7) lm .
    obtain rest0 where "ord = source_vars p0 @ rest0" using order_okD(6) [OF d(5)] by blast
    with 3 source_defined [OF r(2) len] defined_kind [OF r(2) len ld v]
    have ga: "ty_and (types p0 ! ?v)" by auto
    have "dfs_inv p0 s ord [?v] []"
      using ok lm ga v unfolding codes_ok_def dfs_inv_def
      by (auto intro: stack_ok.intros simp: Cons_eq_append_conv)
    from reencode_loop_correct [OF this p0] obtain s' rest where
      loop: "reencode_loop [?v] s = Some s'" "codes_ok p0 s' (ord @ rest)" "?v \<in> set (ord @ rest)"
      using v by (auto simp: dfs_result_def codes_ok_def)
    obtain p' new' code' where s': "s' = (p', new', code')" by (cases s')
    have "deref code' l = Some (enc (ord @ rest) l)"
      using deref_table [OF lm] codes_okD(3) [OF loop(2) [unfolded s']] by simp
    then have c: "code' ! l = enc (ord @ rest) l" by (simp add: deref_def split: if_splits)
    moreover have "enc (ord @ rest) l \<noteq> 0" using 3(1) loop(3) by (simp add: enc_def)
    moreover have "deref (types p) ?v = Some (types p ! ?v)" "ty_and (types p ! ?v)" "?v \<le> maxvar p"
      using len ga lm same_coreD(1,13) [OF d(1)] same_core_type(3) [OF d(1) len] by (simp_all add: deref_def)
    moreover have "enc ord l = 0" using 3 by (simp add: enc_zero)
    ultimately show ?thesis
      using 3(1) dc loop v by (intro exI [of _ s'] exI [of _ rest])
        (simp add: aiger_reencode_lit_def s s' covered_def)
  qed
qed

text \<open>
  A loop over an array: \<open>g ord x\<close> is what the entry \<open>x\<close> becomes under the codes \<open>ord\<close>; entries whose
  literals have codes do not change any more when further codes are added.
\<close>

lemma map_state_correct:
  assumes step: "\<And>x s ord. x \<in> set xs \<Longrightarrow> codes_ok p0 s ord \<Longrightarrow>
      \<exists>s' rest. f x s = Some (g (ord @ rest) x, s') \<and> codes_ok p0 s' (ord @ rest) \<and> Q (ord @ rest) x"
    and stable: "\<And>x ord rest. Q ord x \<Longrightarrow> Q (ord @ rest) x \<and> g (ord @ rest) x = g ord x"
    and ok: "codes_ok p0 s ord"
  shows "\<exists>s' rest. map_state f xs s = Some (map (g (ord @ rest)) xs, s') \<and>
     codes_ok p0 s' (ord @ rest) \<and> (\<forall>x \<in> set xs. Q (ord @ rest) x)"
  using step ok
proof (induction xs arbitrary: s ord)
  case Nil
  then show ?case by (intro exI [of _ s] exI [of _ "[]"]) simp
next
  case (Cons x xs)
  obtain s1 r1 where 1: "f x s = Some (g (ord @ r1) x, s1)" "codes_ok p0 s1 (ord @ r1)" "Q (ord @ r1) x"
    using Cons.prems(1) [OF _ Cons.prems(2)] by fastforce
  obtain s2 r2 where 2: "map_state f xs s1 = Some (map (g (ord @ r1 @ r2)) xs, s2)"
    "codes_ok p0 s2 (ord @ r1 @ r2)" "\<forall>x \<in> set xs. Q (ord @ r1 @ r2) x"
    using Cons.IH [OF Cons.prems(1) 1(2)] by auto
  show ?case
    using 1 2 stable [OF 1(3), of r2]
    by (intro exI [of _ s2] exI [of _ "r1 @ r2"]) simp
qed

definition enc_symbol :: "nat list \<Rightarrow> aiger_symbol \<Rightarrow> aiger_symbol" where
  "enc_symbol ord y = y\<lparr>sym_lit := enc ord (sym_lit y)\<rparr>"

definition enc_latch :: "nat list \<Rightarrow> aiger_symbol \<Rightarrow> aiger_symbol" where
  "enc_latch ord y = y\<lparr>sym_next := enc ord (sym_next y), sym_reset := enc ord (sym_reset y)\<rparr>"

definition enc_justice :: "nat list \<Rightarrow> aiger_symbol \<Rightarrow> aiger_symbol" where
  "enc_justice ord y = y\<lparr>sym_lits := map (enc ord) (sym_lits y)\<rparr>"

lemma reencode_symbols_correct:
  assumes "reencodable p0" "codes_ok p0 s ord" "\<forall>y \<in> set ys. usable p0 (sym_lit y)"
  shows "\<exists>s' rest. map_state reencode_symbol ys s = Some (map (enc_symbol (ord @ rest)) ys, s') \<and>
     codes_ok p0 s' (ord @ rest) \<and> (\<forall>y \<in> set ys. covered (ord @ rest) (sym_lit y))"
proof (rule map_state_correct [OF _ _ assms(2)])
  fix y s ord assume "y \<in> set ys" "codes_ok p0 s ord"
  with reencode_lit_correct [OF assms(1) this(2)] assms(3)
  show "\<exists>s' rest. reencode_symbol y s = Some (enc_symbol (ord @ rest) y, s') \<and>
      codes_ok p0 s' (ord @ rest) \<and> covered (ord @ rest) (sym_lit y)"
    by (fastforce simp: reencode_symbol_def enc_symbol_def)
qed (auto simp: covered_append enc_append enc_symbol_def)

lemma reencode_latches_correct:
  assumes "reencodable p0" "codes_ok p0 s ord"
    "\<forall>y \<in> set ys. usable p0 (sym_next y) \<and> usable p0 (sym_reset y)"
  shows "\<exists>s' rest. map_state reencode_latch ys s = Some (map (enc_latch (ord @ rest)) ys, s') \<and>
     codes_ok p0 s' (ord @ rest) \<and>
     (\<forall>y \<in> set ys. covered (ord @ rest) (sym_next y) \<and> covered (ord @ rest) (sym_reset y))"
proof (rule map_state_correct [OF _ _ assms(2)])
  fix y s ord assume y: "y \<in> set ys" "codes_ok p0 s ord"
  then obtain s1 r1 where 1: "aiger_reencode_lit (sym_next y) s = Some (enc (ord @ r1) (sym_next y), s1)"
    "codes_ok p0 s1 (ord @ r1)" "covered (ord @ r1) (sym_next y)"
    using reencode_lit_correct [OF assms(1)] assms(3) by blast
  obtain s2 r2 where 2: "aiger_reencode_lit (sym_reset y) s1 = Some (enc ((ord @ r1) @ r2) (sym_reset y), s2)"
    "codes_ok p0 s2 ((ord @ r1) @ r2)" "covered ((ord @ r1) @ r2) (sym_reset y)"
    using reencode_lit_correct [OF assms(1) 1(2)] assms(3) y(1) by blast
  show "\<exists>s' rest. reencode_latch y s = Some (enc_latch (ord @ rest) y, s') \<and>
      codes_ok p0 s' (ord @ rest) \<and> covered (ord @ rest) (sym_next y) \<and> covered (ord @ rest) (sym_reset y)"
    using 1 2 enc_append [OF 1(3), of r2] covered_append [OF 1(3), of r2]
    by (intro exI [of _ s2] exI [of _ "r1 @ r2"]) (simp add: reencode_latch_def enc_latch_def)
qed (auto simp: covered_append enc_append enc_latch_def)

lemma reencode_justice_correct:
  assumes "reencodable p0" "codes_ok p0 s ord"
    "\<forall>y \<in> set ys. \<forall>l \<in> set (sym_lits y). usable p0 l"
  shows "\<exists>s' rest. map_state reencode_justice ys s = Some (map (enc_justice (ord @ rest)) ys, s') \<and>
     codes_ok p0 s' (ord @ rest) \<and> (\<forall>y \<in> set ys. \<forall>l \<in> set (sym_lits y). covered (ord @ rest) l)"
proof (rule map_state_correct [OF _ _ assms(2)])
  fix y s ord assume y: "y \<in> set ys" "codes_ok p0 s ord"
  have "\<exists>s' rest. map_state aiger_reencode_lit (sym_lits y) s =
      Some (map (enc (ord @ rest)) (sym_lits y), s') \<and> codes_ok p0 s' (ord @ rest) \<and>
      (\<forall>l \<in> set (sym_lits y). covered (ord @ rest) l)"
    by (rule map_state_correct [OF _ _ y(2)])
      (use reencode_lit_correct [OF assms(1)] assms(3) y(1) covered_append enc_append in blast)+
  then show "\<exists>s' rest. reencode_justice y s = Some (enc_justice (ord @ rest) y, s') \<and>
      codes_ok p0 s' (ord @ rest) \<and> (\<forall>l \<in> set (sym_lits y). covered (ord @ rest) l)"
    by (auto simp: reencode_justice_def enc_justice_def)
qed (auto simp: covered_append enc_append enc_justice_def)

section \<open>The first codes\<close>

lemma assign_codes:
  assumes "\<forall>l \<in> set ls. even l \<and> 0 < l \<and> l div 2 \<le> m" "distinct (ord @ map (\<lambda>l. l div 2) ls)" "m < 1073741824"
    and "length ord + length ls \<le> m"
  shows "foldm assign_code ls (2 * Suc (length ord), table m ord) =
     Some (2 * Suc (length ord + length ls), table m (ord @ map (\<lambda>l. l div 2) ls))"
  using assms
proof (induction ls arbitrary: ord)
  case (Cons l ls)
  from Cons.prems(1) obtain v where l: "l = 2 * v" "0 < v" "v \<le> m" by (auto elim!: evenE)
  have un: "v \<notin> set ord" using Cons.prems(2) l by simp
  have "assign_code l (2 * Suc (length ord), table m ord) =
      Some (2 * Suc (length (ord @ [v])), table m (ord @ [v]))"
    using table_snoc [OF un] l Cons.prems(3,4) by (simp add: assign_code_def)
  with Cons.IH [of "ord @ [v]"] Cons.prems l show ?case by simp
qed simp

lemma initial_table: "(replicate (2 * Suc m) 0)[1 := 1] = table m []"
proof (rule nth_equalityI)
  fix i assume "i < length ((replicate (2 * Suc m) (0::nat))[1 := 1])"
  then have i: "i < 2 * Suc m" by simp
  have "Suc 0 < 2 * Suc m" by simp
  with i show "(replicate (2 * Suc m) 0)[1 := 1] ! i = table m [] ! i"
    by (auto simp: nth_list_update nth_table enc_def simp del: mult_Suc_right)
qed simp

lemma source_vars_ok:
  assumes "wf_aiger p" "0 < maxvar p"
  shows "distinct (source_vars p)" "v \<in> set (source_vars p) \<Longrightarrow> 0 < v \<and> v \<le> maxvar p"
    "v \<in> set (source_vars p) \<Longrightarrow> defined_var p v \<and> \<not> ty_and (types p ! v)"
    "length (source_vars p) \<le> maxvar p"
proof -
  have wt: "wf_types p" using assms(1) by (simp add: wf_aiger_def)
  note k = wf_typesD [OF wt]
  have lits: "\<exists>s \<in> set (inputs p) \<union> set (latches p). sym_lit s = 2 * v \<and> 0 < v \<and> v \<le> maxvar p"
    if "v \<in> set (source_vars p)" for v
  proof -
    from that obtain s where s: "s \<in> set (inputs p) \<union> set (latches p)" "v = sym_lit s div 2"
      by (auto simp: source_vars_def)
    have "even (sym_lit s) \<and> 0 < sym_lit s"
      using s(1) kind_ok_pos [OF k(1), of "sym_lit s"] kind_ok_pos [OF k(2), of "sym_lit s"] by auto
    moreover have "sym_lit s div 2 \<le> maxvar p"
      using s(1) assms(1) by (auto simp: wf_aiger_def wf_lits_def lits_below_def)
    ultimately show ?thesis using s by (intro bexI [of _ s]) auto
  qed
  show pos: "0 < v \<and> v \<le> maxvar p" if "v \<in> set (source_vars p)" for v using lits [OF that] by blast
  have flags: "ty_input (types p ! v) \<or> ty_latch (types p ! v)" "v < length (types p)"
    if "v \<in> set (source_vars p)" for v
  proof -
    show v: "v < length (types p)" using pos [OF that] wf_length_types [OF assms(1), of v] assms(2) by simp
    from lits [OF that] have "2 * v \<in> sym_lit ` set (inputs p) \<or> 2 * v \<in> sym_lit ` set (latches p)"
      by (metis UnE image_eqI)
    with kind_ok_mem [OF k(1) v] kind_ok_mem [OF k(2) v]
    show "ty_input (types p ! v) \<or> ty_latch (types p ! v)" by auto
  qed
  show "defined_var p v \<and> \<not> ty_and (types p ! v)" if "v \<in> set (source_vars p)" for v
    using flags [OF that] k(4) defined_var_types [OF wt flags(2) [OF that]]
    by (auto simp: undefined_type_def kinds_disjoint_def)
  have half: "distinct (map (\<lambda>s. sym_lit s div 2) ys)" if "kind_ok f (map sym_lit ys) (types p)" for f ys
  proof -
    have "distinct (map sym_lit ys)" by (rule kind_ok_distinct [OF that])
    moreover have "inj_on (\<lambda>l. l div 2) (set (map sym_lit ys))"
      by (rule inj_onI) (metis kind_ok_pos [OF that] even_lit)
    ultimately have "distinct (map (\<lambda>l. l div 2) (map sym_lit ys))" by (simp only: distinct_map)
    then show ?thesis by (simp add: comp_def)
  qed
  have "sym_lit s div 2 \<noteq> sym_lit t div 2" if "s \<in> set (inputs p)" "t \<in> set (latches p)" for s t
  proof
    assume eq: "sym_lit s div 2 = sym_lit t div 2"
    have "sym_lit s div 2 < length (types p)" "ty_input (types p ! (sym_lit s div 2))"
      using that(1) kind_ok_mem [OF k(1)] kind_ok_length [OF k(1)] kind_ok_pos [OF k(1), of "sym_lit s"]
      by (metis even_lit image_eqI set_map)+
    moreover have "ty_latch (types p ! (sym_lit t div 2))"
      using that(2) kind_ok_mem [OF k(2)] kind_ok_length [OF k(2)] kind_ok_pos [OF k(2), of "sym_lit t"]
      by (metis even_lit image_eqI set_map)
    ultimately show False using k(4) eq by (auto simp: kinds_disjoint_def)
  qed
  then show d: "distinct (source_vars p)"
    using half [OF k(1)] half [OF k(2)] by (auto simp: source_vars_def)
  have "set (source_vars p) \<subseteq> {1..maxvar p}" using pos by (auto simp: Suc_le_eq)
  then have "card (set (source_vars p)) \<le> card {1..maxvar p}" by (intro card_mono) simp
  then show "length (source_vars p) \<le> maxvar p" using d by (simp add: distinct_card)
qed

lemma order_ok_source:
  assumes "reencodable p"
  shows "order_ok p (source_vars p)"
  unfolding order_ok_def
proof (intro conjI allI ballI impI)
  note r = reencodableD [OF assms]
  note v = source_vars_ok [OF r(1,5)]
  show "distinct (source_vars p)" by (rule v(1))
  show "0 < w" "w \<le> maxvar p" "defined_var p w" if "w \<in> set (source_vars p)" for w
    using that v(2,3) by blast+
  show "w \<in> set xs" if "source_vars p = xs @ u # ys" "(u, w) \<in> deps p" for xs u ys w
    using that v(3) [of u] deps_and(2) [OF r(2), of u w] by simp
  show "\<exists>rest. source_vars p = source_vars p @ rest" by simp
qed

lemma initial_codes_correct:
  assumes p: "reencodable p" and "clean_marks p"
  shows "\<exists>new code. initial_codes p = Some (new, code) \<and> codes_ok p (p, new, code) (source_vars p)"
proof -
  note r = reencodableD [OF p]
  note v = source_vars_ok [OF r(1,5)]
  have lits: "\<forall>l \<in> set (map sym_lit (inputs p)) \<union> set (map sym_lit (latches p)).
      even l \<and> 0 < l \<and> l div 2 \<le> maxvar p"
    using kind_ok_pos [OF wf_typesD(1) [OF r(2)]] kind_ok_pos [OF wf_typesD(2) [OF r(2)]] r(1)
    by (auto simp: wf_aiger_def wf_lits_def lits_below_def)
  have sv: "source_vars p = map (\<lambda>l. l div 2) (map sym_lit (inputs p)) @ map (\<lambda>l. l div 2) (map sym_lit (latches p))"
    by (simp add: source_vars_def)
  let ?ins = "map (\<lambda>l. l div 2) (map sym_lit (inputs p))"
  have 1: "foldm assign_code (map sym_lit (inputs p)) (2, table (maxvar p) []) =
      Some (2 * Suc (length (inputs p)), table (maxvar p) ?ins)"
    using assign_codes [of "map sym_lit (inputs p)" "maxvar p" "[]"] lits v(1,4) r(6) by (simp add: sv)
  have 2: "foldm assign_code (map sym_lit (latches p)) (2 * Suc (length (inputs p)), table (maxvar p) ?ins) =
      Some (2 * Suc (length (source_vars p)), table (maxvar p) (source_vars p))"
    using assign_codes [of "map sym_lit (latches p)" "maxvar p" ?ins] lits v(1,4) r(6) by (simp add: sv)
  have "u32 (2 * (maxvar p + 1)) = 2 * Suc (maxvar p)" using r(6) by simp
  then have "initial_codes p = Some (2 * Suc (length (source_vars p)), table (maxvar p) (source_vars p))"
    using 1 2 initial_table [of "maxvar p"] by (simp add: initial_codes_def Let_def del: mult_Suc_right)
  moreover have "codes_ok p (p, 2 * Suc (length (source_vars p)), table (maxvar p) (source_vars p)) (source_vars p)"
    using assms(2) order_ok_source [OF p]
    by (simp add: codes_ok_def dfs_inv_def code_inv_def stack_empty clean_marks_def)
  ultimately show ?thesis by blast
qed

section \<open>All literals\<close>

definition covers :: "nat list \<Rightarrow> aiger_private \<Rightarrow> bool" where
  "covers ord p \<longleftrightarrow>
     (\<forall>y \<in> set (latches p). covered ord (sym_next y) \<and> covered ord (sym_reset y)) \<and>
     (\<forall>y \<in> set (outputs p). covered ord (sym_lit y)) \<and>
     (\<forall>y \<in> set (bad p). covered ord (sym_lit y)) \<and>
     (\<forall>y \<in> set (constraints p). covered ord (sym_lit y)) \<and>
     (\<forall>y \<in> set (justice p). \<forall>l \<in> set (sym_lits y). covered ord l) \<and>
     (\<forall>y \<in> set (fairness p). covered ord (sym_lit y))"

definition enc_lits :: "nat list \<Rightarrow> aiger_private \<Rightarrow> aiger_private \<Rightarrow> aiger_private" where
  "enc_lits ord p q = q\<lparr>latches := map (enc_latch ord) (latches p),
     outputs := map (enc_symbol ord) (outputs p), bad := map (enc_symbol ord) (bad p),
     constraints := map (enc_symbol ord) (constraints p), justice := map (enc_justice ord) (justice p),
     fairness := map (enc_symbol ord) (fairness p)\<rparr>"

lemma usable_lits:
  assumes "reencodable p"
  shows "\<forall>y \<in> set (latches p). usable p (sym_next y) \<and> usable p (sym_reset y)"
    "\<forall>y \<in> set (outputs p). usable p (sym_lit y)" "\<forall>y \<in> set (bad p). usable p (sym_lit y)"
    "\<forall>y \<in> set (constraints p). usable p (sym_lit y)"
    "\<forall>y \<in> set (justice p). \<forall>l \<in> set (sym_lits y). usable p l"
    "\<forall>y \<in> set (fairness p). usable p (sym_lit y)"
    "\<forall>g \<in> set (ands p). usable p (and_rhs0 g) \<and> usable p (and_rhs1 g)"
proof -
  note r = reencodableD [OF assms]
  have b: "lits_below (maxvar p) p" using r(1) by (simp add: wf_aiger_def wf_lits_def)
  have d: "all_defined p" by (rule r(3))
  show "\<forall>y \<in> set (outputs p). usable p (sym_lit y)" "\<forall>y \<in> set (bad p). usable p (sym_lit y)"
    "\<forall>y \<in> set (constraints p). usable p (sym_lit y)"
    "\<forall>y \<in> set (justice p). \<forall>l \<in> set (sym_lits y). usable p l"
    "\<forall>y \<in> set (fairness p). usable p (sym_lit y)"
    "\<forall>g \<in> set (ands p). usable p (and_rhs0 g) \<and> usable p (and_rhs1 g)"
    using b d unfolding lits_below_def all_defined_def usable_def by blast+
  have "usable p (sym_reset y)" if y: "y \<in> set (latches p)" for y
  proof -
    have "sym_reset y \<le> 1 \<or> sym_reset y = sym_lit y" using r(1) y by (auto simp: wf_aiger_def wf_resets_def)
    then show ?thesis
    proof
      assume "sym_reset y \<le> 1"
      then have "sym_reset y div 2 = 0" by simp
      then show ?thesis by (simp add: usable_def defined_var_def)
    next
      assume eq: "sym_reset y = sym_lit y"
      have "even (sym_lit y)" using kind_ok_pos [OF wf_typesD(2) [OF r(2)], of "sym_lit y"] y by simp
      then have "2 * (sym_lit y div 2) \<in> sym_lit ` set (latches p)" using y by (simp add: even_lit)
      with eq b y show ?thesis unfolding usable_def defined_var_def lits_below_def by simp
    qed
  qed
  moreover have "usable p (sym_next y)" if "y \<in> set (latches p)" for y
    using b d that unfolding lits_below_def all_defined_def usable_def by blast
  ultimately show "\<forall>y \<in> set (latches p). usable p (sym_next y) \<and> usable p (sym_reset y)" by blast
qed

lemma enc_symbol_cong:
  "covered ord (sym_lit y) \<Longrightarrow> enc_symbol (ord @ rest) y = enc_symbol ord y"
  "covered ord (sym_next y) \<Longrightarrow> covered ord (sym_reset y) \<Longrightarrow> enc_latch (ord @ rest) y = enc_latch ord y"
  "\<forall>l \<in> set (sym_lits y). covered ord l \<Longrightarrow> enc_justice (ord @ rest) y = enc_justice ord y"
  by (auto simp: enc_symbol_def enc_latch_def enc_justice_def enc_append)

lemma reencode_lits_correct:
  assumes p: "reencodable p" and m: "clean_marks p"
  shows "\<exists>ord q. reencode_lits p = Some (enc_lits ord p q, 2 * Suc (length ord), table (maxvar p) ord) \<and>
     codes_ok p (q, 2 * Suc (length ord), table (maxvar p) ord) ord \<and> covers ord p"
proof -
  note u = usable_lits [OF p]
  obtain new code where 0: "initial_codes p = Some (new, code)" "codes_ok p (p, new, code) (source_vars p)"
    using initial_codes_correct [OF assms] by blast
  let ?ord = "source_vars p"
  obtain s1 r1 where 1: "map_state reencode_latch (latches p) (p, new, code) = Some (map (enc_latch (?ord @ r1)) (latches p), s1)"
    "codes_ok p s1 (?ord @ r1)" "\<forall>y \<in> set (latches p). covered (?ord @ r1) (sym_next y) \<and> covered (?ord @ r1) (sym_reset y)"
    using reencode_latches_correct [OF p 0(2) u(1)] by blast
  obtain s2 r2 where 2: "map_state reencode_symbol (outputs p) s1 = Some (map (enc_symbol ((?ord @ r1) @ r2)) (outputs p), s2)"
    "codes_ok p s2 ((?ord @ r1) @ r2)" "\<forall>y \<in> set (outputs p). covered ((?ord @ r1) @ r2) (sym_lit y)"
    using reencode_symbols_correct [OF p 1(2) u(2)] by blast
  let ?o2 = "(?ord @ r1) @ r2"
  obtain s3 r3 where 3: "map_state reencode_symbol (bad p) s2 = Some (map (enc_symbol (?o2 @ r3)) (bad p), s3)"
    "codes_ok p s3 (?o2 @ r3)" "\<forall>y \<in> set (bad p). covered (?o2 @ r3) (sym_lit y)"
    using reencode_symbols_correct [OF p 2(2) u(3)] by blast
  let ?o3 = "?o2 @ r3"
  obtain s4 r4 where 4: "map_state reencode_symbol (constraints p) s3 = Some (map (enc_symbol (?o3 @ r4)) (constraints p), s4)"
    "codes_ok p s4 (?o3 @ r4)" "\<forall>y \<in> set (constraints p). covered (?o3 @ r4) (sym_lit y)"
    using reencode_symbols_correct [OF p 3(2) u(4)] by blast
  let ?o4 = "?o3 @ r4"
  obtain s5 r5 where 5: "map_state reencode_justice (justice p) s4 = Some (map (enc_justice (?o4 @ r5)) (justice p), s5)"
    "codes_ok p s5 (?o4 @ r5)" "\<forall>y \<in> set (justice p). \<forall>l \<in> set (sym_lits y). covered (?o4 @ r5) l"
    using reencode_justice_correct [OF p 4(2) u(5)] by blast
  let ?o5 = "?o4 @ r5"
  obtain s6 r6 where 6: "map_state reencode_symbol (fairness p) s5 = Some (map (enc_symbol (?o5 @ r6)) (fairness p), s6)"
    "codes_ok p s6 (?o5 @ r6)" "\<forall>y \<in> set (fairness p). covered (?o5 @ r6) (sym_lit y)"
    using reencode_symbols_correct [OF p 5(2) u(6)] by blast
  let ?o6 = "?o5 @ r6"
  obtain q new' code' where s6: "s6 = (q, new', code')" by (cases s6)
  note d = codes_okD(3,4) [OF 6(2) [unfolded s6]]
  have cov: "covers ?o6 p"
    unfolding covers_def using 1(3) 2(3) 3(3) 4(3) 5(3) 6(3) by (simp add: covered_append del: append_assoc)
  have eq: "map (enc_latch (?ord @ r1)) (latches p) = map (enc_latch ?o6) (latches p)"
    "map (enc_symbol ?o2) (outputs p) = map (enc_symbol ?o6) (outputs p)"
    "map (enc_symbol ?o3) (bad p) = map (enc_symbol ?o6) (bad p)"
    "map (enc_symbol ?o4) (constraints p) = map (enc_symbol ?o6) (constraints p)"
    "map (enc_justice ?o5) (justice p) = map (enc_justice ?o6) (justice p)"
    using 1(3) 2(3) 3(3) 4(3) 5(3) by (simp_all add: enc_symbol_cong covered_append del: append_assoc)
  have "reencode_lits p = Some (enc_lits ?o6 p q, new', code')"
    unfolding reencode_lits_def 0(1) Option.bind.bind_lunit case_prod_conv
      1(1) 2(1) 3(1) 4(1) 5(1) 6(1) s6 Let_def enc_lits_def eq ..
  with d cov 6(2) s6 show ?thesis by blast
qed

section \<open>The gates\<close>

definition enc_and :: "nat list \<Rightarrow> aiger_and \<Rightarrow> aiger_and" where
  "enc_and ord g =
     \<lparr>and_lhs = enc ord (and_lhs g), and_rhs0 = max (enc ord (and_rhs0 g)) (enc ord (and_rhs1 g)),
      and_rhs1 = min (enc ord (and_rhs0 g)) (enc ord (and_rhs1 g))\<rparr>"

definition live_ands :: "nat list \<Rightarrow> aiger_private \<Rightarrow> aiger_and list" where
  "live_ands ord p = filter (\<lambda>g. and_lhs g div 2 \<in> set ord) (ands p)"

lemma live_rhs:
  assumes ok: "order_ok p ord" and wt: "wf_types p" and g: "g \<in> set (live_ands ord p)"
    and l: "l = and_rhs0 g \<or> l = and_rhs1 g"
  shows "covered ord l" "enc ord l < enc ord (and_lhs g)"
proof -
  note d = order_okD [OF ok]
  let ?v = "and_lhs g div 2"
  from g have g': "g \<in> set (ands p)" "?v \<in> set ord" by (simp_all add: live_ands_def)
  have lhs: "enc ord (and_lhs g) = 2 * Suc (pos ord ?v)"
    using gate_lhs(1,2) [OF wt g'(1)] g'(2) by (auto simp: enc_def)
  obtain xs ys where split: "ord = xs @ ?v # ys" using split_list [OF g'(2)] by blast
  have "covered ord l \<and> enc ord l < enc ord (and_lhs g)"
  proof (cases "l div 2 = 0")
    case True
    then have "l < 2" by linarith
    then show ?thesis by (simp add: covered_def lhs) (simp add: enc_def)
  next
    case False
    with g'(1) l have dep: "(?v, l div 2) \<in> deps p" by (auto simp: deps_def)
    have w: "l div 2 \<in> set xs" by (rule d(5) [OF split dep])
    have "?v \<notin> set xs" using d(1) split by (metis distinct_append not_distinct_conv_prefix distinct.simps(2) disjoint_iff list.set_intros(1))
    with w have "pos ord (l div 2) < pos ord ?v" by (subst (1 2) split) (rule pos_mono)
    moreover have "l div 2 \<in> set ord" using w split by (metis UnI1 set_append)
    ultimately show ?thesis using False unfolding lhs by (auto simp: covered_def enc_def)
  qed
  then show "covered ord l" "enc ord l < enc ord (and_lhs g)" by blast+
qed

lemma reencode_ands_eq:
  assumes p: "reencodable p" and ok: "order_ok p ord"
  shows "reencode_ands (table (maxvar p) ord) (ands p) = Some (map (enc_and ord) (live_ands ord p))"
proof -
  note r = reencodableD [OF p]
  have "reencode_ands (table (maxvar p) ord) gs =
      Some (map (enc_and ord) (filter (\<lambda>g. and_lhs g div 2 \<in> set ord) gs))"
    if "set gs \<subseteq> set (ands p)" for gs
    using that
  proof (induction gs)
    case (Cons g gs)
    then have g: "g \<in> set (ands p)" by simp
    have b: "and_lhs g div 2 \<le> maxvar p" "and_rhs0 g div 2 \<le> maxvar p" "and_rhs1 g div 2 \<le> maxvar p"
      using r(1) g by (auto simp: wf_aiger_def wf_lits_def lits_below_def)
    note dr = b [THEN deref_table, of ord]
    have "2 \<le> and_lhs g" using gate_lhs(1,2) [OF r(2) g] by (auto elim!: evenE)
    then have z: "enc ord (and_lhs g) = 0 \<longleftrightarrow> and_lhs g div 2 \<notin> set ord" by (auto simp: enc_zero)
    show ?case
    proof (cases "and_lhs g div 2 \<in> set ord")
      case True
      with g have live: "g \<in> set (live_ands ord p)" by (simp add: live_ands_def)
      from live_rhs(2) [OF ok r(2) live, of "and_rhs0 g"] live_rhs(2) [OF ok r(2) live, of "and_rhs1 g"]
      have lt: "enc ord (and_rhs0 g) < enc ord (and_lhs g)" "enc ord (and_rhs1 g) < enc ord (and_lhs g)"
        by simp_all
      have "reencode_and (table (maxvar p) ord) g = Some (Some (enc_and ord g))"
        using lt True z by (auto simp: reencode_and_def dr enc_and_def max_def min_def Let_def)
      with Cons True show ?thesis by simp
    next
      case False
      then have "reencode_and (table (maxvar p) ord) g = Some None"
        using z by (simp add: reencode_and_def dr)
      with Cons False show ?thesis by simp
    qed
  qed simp
  then show ?thesis by (simp add: live_ands_def)
qed

lemma qsort_insert_correct:
  assumes "\<forall>g \<in> set (x # ys). and_lhs g < 2147483648" "sorted (map and_lhs ys)"
  shows "\<exists>zs. qsort_insert cmp_lhs x ys = Some zs \<and> mset zs = add_mset x (mset ys) \<and> sorted (map and_lhs zs)"
  using assms
proof (induction ys)
  case (Cons y ys)
  have c: "cmp_lhs x y = Some (int (and_lhs x) - int (and_lhs y))"
    using Cons.prems(1) by (simp add: cmp_lhs_def c_int_def)
  show ?case
  proof (cases "and_lhs x \<le> and_lhs y")
    case True
    with c Cons.prems(2) show ?thesis by auto
  next
    case False
    from Cons obtain zs where zs: "qsort_insert cmp_lhs x ys = Some zs" "mset zs = add_mset x (mset ys)"
      "sorted (map and_lhs zs)" by auto
    from zs(2) have "set zs = insert x (set ys)" by (metis set_mset_add_mset_insert set_mset_mset)
    with zs(3) False Cons.prems(2) have "sorted (map and_lhs (y # zs))" by auto
    with zs c False show ?thesis by auto
  qed
qed simp

lemma qsort_correct:
  assumes "\<forall>g \<in> set gs. and_lhs g < 2147483648"
  shows "\<exists>zs. qsort cmp_lhs gs = Some zs \<and> mset zs = mset gs \<and> sorted (map and_lhs zs)"
  using assms
proof (induction gs)
  case (Cons g gs)
  then obtain zs where zs: "qsort cmp_lhs gs = Some zs" "mset zs = mset gs" "sorted (map and_lhs zs)" by auto
  from zs(2) have "set zs = set gs" by (metis set_mset_mset)
  with Cons.prems qsort_insert_correct [of g zs] zs show ?case by auto
qed simp

text \<open>The literals of \<open>n\<close> consecutive variables above \<open>a\<close>.\<close>

definition seq_lits :: "nat \<Rightarrow> nat \<Rightarrow> uint list" where
  "seq_lits a n = map (\<lambda>i. 2 * Suc i) [a..<a + n]"

lemma length_seq_lits [simp]: "length (seq_lits a n) = n"
  by (simp add: seq_lits_def)

lemma nth_seq_lits [simp]: "i < n \<Longrightarrow> seq_lits a n ! i = 2 * Suc (a + i)"
  by (simp add: seq_lits_def)

lemma set_seq_lits: "l \<in> set (seq_lits a n) \<longleftrightarrow> (\<exists>i. a \<le> i \<and> i < a + n \<and> l = 2 * Suc i)"
  by (auto simp: seq_lits_def)

lemma live_lhs:
  assumes p: "reencodable p" and ok: "order_ok p ord"
  defines "k \<equiv> length (source_vars p)"
  shows "distinct (map and_lhs (map (enc_and ord) (live_ands ord p)))"
    "set (map and_lhs (map (enc_and ord) (live_ands ord p))) = set (seq_lits k (length ord - k))"
    "k \<le> length ord"
proof -
  note r = reencodableD [OF p] and d = order_okD [OF ok]
  obtain rest where rest: "ord = source_vars p @ rest" using d(6) by blast
  show kn: "k \<le> length ord" by (simp add: k_def rest)
  have enc: "enc ord (and_lhs g) = 2 * Suc (pos ord (and_lhs g div 2))" if "g \<in> set (live_ands ord p)" for g
    using that gate_lhs(1,2) [OF r(2), of g] by (auto simp: live_ands_def enc_def)
  have inj: "inj_on (\<lambda>g. enc ord (and_lhs g)) (set (live_ands ord p))"
  proof (rule inj_onI)
    fix g h assume g: "g \<in> set (live_ands ord p)" "h \<in> set (live_ands ord p)" "enc ord (and_lhs g) = enc ord (and_lhs h)"
    then have "pos ord (and_lhs g div 2) = pos ord (and_lhs h div 2)" using enc by simp
    moreover have gh: "and_lhs g div 2 \<in> set ord" "and_lhs h div 2 \<in> set ord" "g \<in> set (ands p)" "h \<in> set (ands p)"
      using g by (simp_all add: live_ands_def)
    ultimately have "and_lhs g div 2 = and_lhs h div 2" by (metis nth_pos)
    with gate_lhs(1) [OF r(2) gh(3)] gate_lhs(1) [OF r(2) gh(4)] have "and_lhs g = and_lhs h" by (metis even_lit)
    then show "g = h" by (rule gate_unique [OF r(2) gh(3,4)])
  qed
  have "distinct (ands p)"
    using kind_ok_distinct [OF wf_typesD(3) [OF r(2)]] by (simp add: distinct_map)
  then have "distinct (live_ands ord p)" by (simp add: live_ands_def)
  with inj show "distinct (map and_lhs (map (enc_and ord) (live_ands ord p)))"
    by (simp add: distinct_map comp_def enc_and_def inj_on_def)
  have gate: "\<exists>g \<in> set (live_ands ord p). and_lhs g div 2 = ord ! i" if i: "k \<le> i" "i < length ord" for i
  proof -
    have v: "ord ! i \<in> set ord" using i by simp
    have "ord ! i \<notin> set (source_vars p)"
    proof
      assume "ord ! i \<in> set (source_vars p)"
      then obtain j where "j < k" "ord ! j = ord ! i" by (auto simp: in_set_conv_nth k_def rest nth_append)
      with d(1) i show False by (auto simp: nth_eq_iff_index_eq)
    qed
    with d(2-4) [OF v] source_defined [OF r(2)] defined_kind [OF r(2)] r(7)
    have "ty_and (types p ! (ord ! i))" "ord ! i < length (types p)" by blast+
    with kind_ok_mem [OF wf_typesD(3) [OF r(2)]] obtain g where "g \<in> set (ands p)" "and_lhs g = 2 * (ord ! i)" by auto
    with v show ?thesis by (intro bexI [of _ g]) (simp_all add: live_ands_def)
  qed
  have high: "k \<le> pos ord (and_lhs g div 2)" "pos ord (and_lhs g div 2) < length ord"
    if g: "g \<in> set (live_ands ord p)" for g
  proof -
    from g have v: "and_lhs g div 2 \<in> set ord" "g \<in> set (ands p)" by (simp_all add: live_ands_def)
    show "pos ord (and_lhs g div 2) < length ord" by (rule pos_less [OF v(1)])
    show "k \<le> pos ord (and_lhs g div 2)"
    proof (rule ccontr)
      assume "\<not> k \<le> pos ord (and_lhs g div 2)"
      then have "ord ! pos ord (and_lhs g div 2) \<in> set (source_vars p)"
        by (simp add: rest k_def nth_append)
      then have "and_lhs g div 2 \<in> set (source_vars p)" by (simp add: nth_pos [OF v(1)])
      from source_vars_ok(3) [OF r(1,5) this] gate_lhs(4) [OF r(2) v(2)] show False by simp
    qed
  qed
  show "set (map and_lhs (map (enc_and ord) (live_ands ord p))) = set (seq_lits k (length ord - k))"
  proof (intro set_eqI iffI)
    fix l assume "l \<in> set (map and_lhs (map (enc_and ord) (live_ands ord p)))"
    then obtain g where "g \<in> set (live_ands ord p)" "l = enc ord (and_lhs g)" by (auto simp: enc_and_def)
    with enc high kn show "l \<in> set (seq_lits k (length ord - k))" by (auto simp: set_seq_lits)
  next
    fix l assume "l \<in> set (seq_lits k (length ord - k))"
    then obtain i where i: "k \<le> i" "i < length ord" "l = 2 * Suc i" using kn by (auto simp: set_seq_lits)
    obtain g where g: "g \<in> set (live_ands ord p)" "and_lhs g div 2 = ord ! i" using gate [OF i(1,2)] by blast
    have "enc ord (and_lhs g) = l" using enc [OF g(1)] pos_nth [OF d(1) i(2)] g(2) i(3) by simp
    with g(1) show "l \<in> set (map and_lhs (map (enc_and ord) (live_ands ord p)))"
      by (force simp: enc_and_def)
  qed
qed

lemma sorted_gates:
  assumes p: "reencodable p" and ok: "order_ok p ord"
  defines "k \<equiv> length (source_vars p)"
  shows "\<exists>gs. qsort cmp_lhs (map (enc_and ord) (live_ands ord p)) = Some gs \<and>
     set gs = set (map (enc_and ord) (live_ands ord p)) \<and> map and_lhs gs = seq_lits k (length ord - k)"
proof -
  note l = live_lhs [OF p ok, folded k_def]
  have small: "\<forall>g \<in> set (map (enc_and ord) (live_ands ord p)). and_lhs g < 2147483648"
  proof
    fix g assume "g \<in> set (map (enc_and ord) (live_ands ord p))"
    then have "and_lhs g \<in> set (seq_lits k (length ord - k))" using l(2) by auto
    moreover have "length ord < 1073741824" using order_ok_length [OF ok] reencodableD(6) [OF p] by simp
    ultimately show "and_lhs g < 2147483648" by (auto simp: set_seq_lits)
  qed
  from qsort_correct [OF this] obtain gs where gs:
    "qsort cmp_lhs (map (enc_and ord) (live_ands ord p)) = Some gs"
    "mset gs = mset (map (enc_and ord) (live_ands ord p))" "sorted (map and_lhs gs)" by blast
  have m: "mset (map and_lhs gs) = mset (map and_lhs (map (enc_and ord) (live_ands ord p)))"
    using gs(2) by (simp only: mset_map)
  then have "distinct (map and_lhs gs)" "set (map and_lhs gs) = set (seq_lits k (length ord - k))"
    using l(1,2) by (metis mset_eq_imp_distinct_iff, metis mset_eq_setD)
  moreover have "sorted (seq_lits k n)" "distinct (seq_lits k n)" for n
    by (auto simp: seq_lits_def sorted_map distinct_map inj_on_def sorted_wrt_iff_nth_less)
  ultimately have "map and_lhs gs = seq_lits k (length ord - k)"
    using gs(3) by (intro sorted_distinct_set_unique)
  with gs(1) mset_eq_setD [OF gs(2)] show ?thesis by blast
qed

end
