(* ===== verification/AigerReencodeCorrect.thy ===== *)
theory AigerReencodeCorrect
  imports AigerReencodeProof
begin

text \<open>
  The result of \<open>aiger_reencode\<close>: its type table, its well-formedness, and that it has the
  behaviours of the structure it was made from.
\<close>

section \<open>Every assignment to the sources extends to the gates\<close>

definition step_val :: "(nat \<Rightarrow> bool) \<Rightarrow> uint \<Rightarrow> bool" where
  "step_val f l = (if l div 2 = 0 then odd l else f (l div 2) \<noteq> odd l)"

lemma models_exist:
  assumes wt: "wf_types p" and ac: "acyclic (deps p)" and z: "\<not> \<mu> 0"
  shows "\<exists>\<nu>. models p \<nu> \<and> (\<forall>w. 2 * w \<notin> and_lhs ` set (ands p) \<longrightarrow> \<nu> w = \<mu> w)"
proof -
  let ?r = "(deps p)\<inverse>"
  have wfr: "wf ?r" using ac by (simp add: finite_acyclic_wf_converse)
  define F where "F = (\<lambda>f v. case find (\<lambda>g. and_lhs g = 2 * v) (ands p) of
      None \<Rightarrow> \<mu> v | Some g \<Rightarrow> step_val f (and_rhs0 g) \<and> step_val f (and_rhs1 g))"
  define \<nu> where "\<nu> = wfrec ?r F"
  have eq: "\<nu> v = F (cut \<nu> ?r v) v" for v unfolding \<nu>_def by (rule wfrec [OF wfr])
  have other: "\<nu> w = \<mu> w" if "2 * w \<notin> and_lhs ` set (ands p)" for w
  proof -
    have "find (\<lambda>g. and_lhs g = 2 * w) (ands p) = None"
      using that unfolding find_None_iff by (metis image_eqI)
    then show ?thesis by (simp add: eq [of w] F_def)
  qed
  have "2 * 0 \<notin> and_lhs ` set (ands p)"
  proof
    assume "2 * 0 \<in> and_lhs ` set (ands p)"
    then obtain g where "and_lhs g = 0" "g \<in> set (ands p)" by auto
    with gate_lhs(2) [OF wt, of g] show False by simp
  qed
  then have zero: "\<not> \<nu> 0" using other z by simp
  have "gate_holds \<nu> g" if g: "g \<in> set (ands p)" for g
  proof -
    let ?v = "and_lhs g div 2"
    have v: "and_lhs g = 2 * ?v" using gate_lhs(1) [OF wt g] by (simp add: even_lit)
    obtain h where h: "find (\<lambda>g. and_lhs g = 2 * ?v) (ands p) = Some h"
      using g v by (metis (mono_tags, lifting) find_None_iff not_Some_eq)
    then have "h \<in> set (ands p)" "and_lhs h = and_lhs g" using v by (auto simp: find_Some_iff)
    then have hg: "h = g" using gate_unique [OF wt] g by blast
    have "step_val (cut \<nu> ?r ?v) l = litval \<nu> l" if l: "l = and_rhs0 g \<or> l = and_rhs1 g" for l
    proof (cases "l div 2 = 0")
      case False
      with g l have "(l div 2, ?v) \<in> ?r" by (auto simp: deps_def)
      then have "cut \<nu> ?r ?v (l div 2) = \<nu> (l div 2)" by (rule cut_apply)
      with False show ?thesis by (simp add: step_val_def litval_def)
    qed (use zero in \<open>simp add: step_val_def litval_def\<close>)
    then have "F (cut \<nu> ?r ?v) ?v = (litval \<nu> (and_rhs0 g) \<and> litval \<nu> (and_rhs1 g))"
      by (simp only: F_def h hg option.case simp_thms)
    then show ?thesis using eq [of ?v] by (simp add: gate_holds_def)
  qed
  with zero have "models p \<nu>" by (simp add: models_def list_all_iff)
  with other show ?thesis by blast
qed

section \<open>The check reads the table up to \<open>maxvar\<close>\<close>

definition add_types :: "aiger_type list \<Rightarrow> aiger_private \<Rightarrow> aiger_private" where
  "add_types us p = p\<lparr>types := types p @ us\<rparr>"

lemma add_types_simps [simp]:
  "maxvar (add_types us p) = maxvar p" "inputs (add_types us p) = inputs p" "latches (add_types us p) = latches p"
  "outputs (add_types us p) = outputs p" "bad (add_types us p) = bad p" "constraints (add_types us p) = constraints p"
  "justice (add_types us p) = justice p" "fairness (add_types us p) = fairness p" "ands (add_types us p) = ands p"
  "error (add_types us p) = error p" "types (add_types us p) = types p @ us"
  by (simp_all add: add_types_def)

lemma add_types_upd [simp]: "(add_types us p)\<lparr>error := e\<rparr> = add_types us (p\<lparr>error := e\<rparr>)"
  by (simp add: add_types_def)

lemma add_types_set_type: "v < length (types p) \<Longrightarrow> set_type v f (add_types us p) = add_types us (set_type v f p)"
  by (simp add: set_type_def add_types_def nth_append list_update_append)

lemma add_types_error: "set_error m (add_types us p) = map_option (add_types us) (set_error m p)"
  by (simp add: set_error_def)

definition small :: "aiger_private \<Rightarrow> bool" where
  "small p \<longleftrightarrow> lits_below (maxvar p) p \<and> maxvar p < length (types p) \<and> length (types p) \<le> 2147483648"

lemma small_core: "same_core p q \<Longrightarrow> small q = small p"
  by (simp add: small_def lits_below_def same_coreD)

text \<open>A step that does the same on the extended structure, and keeps what \<open>small\<close> says.\<close>

definition extends :: "aiger_type list \<Rightarrow> (aiger_private \<Rightarrow> aiger_private option) \<Rightarrow> aiger_private \<Rightarrow> bool" where
  "extends us f p \<longleftrightarrow> f (add_types us p) = map_option (add_types us) (f p) \<and> (\<forall>q. f p = Some q \<longrightarrow> same_core p q)"

lemma extends_bind:
  assumes "extends us f p" "\<And>q. f p = Some q \<Longrightarrow> same_core p q \<Longrightarrow> extends us g q"
  shows "extends us (\<lambda>p. Option.bind (f p) g) p"
  using assms same_core_trans by (cases "f p") (fastforce simp: extends_def)+

lemma extends_until_error:
  assumes "\<And>x q. x \<in> set xs \<Longrightarrow> same_core p q \<Longrightarrow> error q = None \<Longrightarrow> extends us (f x) q"
  shows "extends us (until_error f xs) p"
  using assms
proof (induction xs arbitrary: p)
  case (Cons x xs)
  show ?case
  proof (cases "error p = None")
    case True
    have "extends us (\<lambda>p. Option.bind (f x p) (until_error f xs)) p"
    proof (rule extends_bind)
      show "extends us (f x) p" using Cons.prems True by simp
      show "extends us (until_error f xs) q" if "f x p = Some q" "same_core p q" for q
        by (rule Cons.IH) (use Cons.prems same_core_trans [OF that(2)] in auto)
    qed
    with True show ?thesis by (simp add: extends_def)
  qed (simp add: extends_def)
qed (simp add: extends_def)

lemma extends_error: "extends us (\<lambda>p. set_error m p) p"
  by (auto simp: extends_def add_types_error set_error_def)

lemma extends_Some: "extends us Some p"
  by (simp add: extends_def)

lemma literal_defined_add_types:
  "small p \<Longrightarrow> l div 2 \<le> maxvar p \<Longrightarrow> aiger_literal_defined (add_types us p) l = aiger_literal_defined p l"
  by (simp add: aiger_literal_defined_def small_def type_at_def nth_append Let_def)

lemma extends_defined:
  assumes "small p" "l div 2 \<le> maxvar p"
  shows "extends us (\<lambda>p. do { d \<leftarrow> aiger_literal_defined p l; if d then Some p else set_error m p }) p"
  using assms by (cases "aiger_literal_defined p l")
    (auto simp: extends_def literal_defined_add_types add_types_error set_error_def)

lemma extends_stripped:
  assumes "small p" "l div 2 \<le> maxvar p"
  shows "extends us (check_stripped fmt l) p"
proof -
  have l: "l < 4294967296" using assms unfolding small_def by linarith
  have eq: "check_stripped fmt l = (\<lambda>p. if 2 * (l div 2) \<le> 1 then Some p
      else do { d \<leftarrow> aiger_literal_defined p (2 * (l div 2));
                if d then Some p else set_error (sprintf fmt [FmtU (2 * (l div 2))]) p })"
    unfolding fun_eq_iff check_stripped_def aiger_error_u_def Let_def aiger_strip_eq [OF l] by simp
  show ?thesis
    unfolding eq
  proof (cases "2 * (l div 2) \<le> 1")
    case False
    show "extends us (\<lambda>p. if 2 * (l div 2) \<le> 1 then Some p
      else do { d \<leftarrow> aiger_literal_defined p (2 * (l div 2));
                if d then Some p else set_error (sprintf fmt [FmtU (2 * (l div 2))]) p }) p"
      unfolding if_not_P [OF False] by (rule extends_defined [OF assms(1)]) (use assms(2) in simp)
  qed (simp add: extends_def)
qed

lemma extends_cycle_loop:
  assumes "small p" "\<forall>j \<in> set st. j \<le> maxvar p"
  shows "extends us (\<lambda>p. cycle_loop p st) p"
  using assms
proof (induction p st rule: cycle_loop.induct)
  case (1 p)
  then show ?case by (simp add: extends_def cycle_loop.simps(1))
next
  case (2 p j st)
  have len: "j < length (types p)" using "2.prems" by (auto simp: small_def)
  have at: "type_at (add_types us p) k = type_at p k" if "k < length (types p)" for k
    using that by (simp add: type_at_def nth_append)
  show ?case
  proof (cases "j = 0")
    case True
    show ?thesis
    proof (cases "\<exists>k st'. st = k # st' \<and> k \<noteq> 0 \<and> k < length (types p) \<and> ty_mark (type_at p k) \<and> ty_onstack (type_at p k)")
      case False
      show ?thesis
      proof (cases st)
        case Nil
        with True show ?thesis by (simp add: extends_def cycle_loop.simps(2))
      next
        case (Cons k st')
        with "2.prems" have "k < length (types p)" by (auto simp: small_def)
        with False True Cons at show ?thesis by (auto simp: extends_def cycle_loop.simps(2))
      qed
    next
      case True': True
      then obtain k st' where k: "st = k # st'" "k \<noteq> 0 \<and> k < length (types p) \<and> ty_mark (type_at p k) \<and> ty_onstack (type_at p k)"
        by blast
      let ?q = "set_type k (\<lambda>t. t\<lparr>ty_onstack := False\<rparr>) p"
      have core: "same_core p ?q" by (rule same_core_set_type) (simp add: unmark_def)
      have "extends us (\<lambda>p. cycle_loop p st') ?q"
        by (rule 2(3) [OF _ k]) (use True "2.prems" k small_core [OF core] in auto)
      then show ?thesis
        using True k at same_core_trans [OF core]
        by (simp add: extends_def cycle_loop.simps(2) add_types_set_type)
    qed
  next
    case False
    let ?g = "ands p ! ty_idx (type_at p j)"
    let ?q = "set_type j (\<lambda>t. t\<lparr>ty_mark := True, ty_onstack := True\<rparr>) p"
    let ?S = "push_child (aiger_lit2var (and_rhs1 ?g)) (push_child (aiger_lit2var (and_rhs0 ?g)) (0 # j # st))"
    consider (cycle) "ty_mark (type_at p j) \<and> ty_onstack (type_at p j)"
      | (skip) "\<not> (ty_mark (type_at p j) \<and> ty_onstack (type_at p j))" "\<not> ty_and (type_at p j) \<or> ty_mark (type_at p j)"
      | (none) "ty_and (type_at p j)" "\<not> ty_mark (type_at p j)" "length (ands p) \<le> ty_idx (type_at p j)"
      | (mark) "ty_and (type_at p j)" "\<not> ty_mark (type_at p j)" "ty_idx (type_at p j) < length (ands p)"
      by linarith
    then show ?thesis
    proof cases
      case cycle
      with False len at extends_error [of us] show ?thesis
        by (simp add: extends_def cycle_loop.simps(2) aiger_error_u_def)
    next
      case skip
      have "extends us (\<lambda>p. cycle_loop p st) p"
        by (rule 2(1)) (use False len skip "2.prems" in auto)
      with False len skip at show ?thesis by (auto simp: extends_def cycle_loop.simps(2))
    next
      case none
      with False len at show ?thesis by (simp add: extends_def cycle_loop.simps(2))
    next
      case mark
      have core: "same_core p ?q" by (rule same_core_set_type) (simp add: unmark_def)
      have "?g \<in> set (ands p)" using mark by simp
      then have "and_rhs0 ?g div 2 \<le> maxvar p" "and_rhs1 ?g div 2 \<le> maxvar p"
        using "2.prems"(1) by (auto simp: small_def lits_below_def)
      then have "extends us (\<lambda>p. cycle_loop p ?S) ?q"
        using False len mark "2.prems" small_core [OF core]
        by (intro 2(2) [OF False _ _ _ _ refl]) (auto simp: push_child_def)
      then show ?thesis
        using False len mark at same_core_trans [OF core]
        by (simp add: extends_def cycle_loop.simps(2) add_types_set_type Let_def)
    qed
  qed
qed

lemma extends_next:
  assumes "small p" "y \<in> set (latches p)"
  shows "extends us (check_next_symbol y) p"
proof -
  have b: "sym_lit y div 2 \<le> maxvar p" "sym_next y div 2 \<le> maxvar p" "sym_lit y div 2 < length (types p)"
    using assms by (auto simp: small_def lits_below_def)
  let ?m = "sprintf ''next state function %u of latch %u undefined'' [FmtU (sym_next y), FmtU (sym_lit y)]"
  have "type_at (add_types us p) (sym_lit y div 2) = type_at p (sym_lit y div 2)"
    using b(3) by (simp add: type_at_def nth_append)
  moreover have "check_next_symbol y q = do {
      assert_c (aiger_sign (sym_lit y) = 0);
      assert_c (aiger_lit2var (sym_lit y) < length (types q) \<and> ty_latch (type_at q (aiger_lit2var (sym_lit y))));
      d \<leftarrow> aiger_literal_defined q (sym_next y);
      if d then Some q else set_error ?m q }" for q
    by (simp only: check_next_symbol_def Let_def aiger_error_uu_def)
  ultimately show ?thesis
    using extends_defined [OF assms(1) b(2), of us ?m] b(3) by (simp add: extends_def)
qed

lemma extends_rhs:
  assumes "small p" "l div 2 \<le> maxvar p"
  shows "extends us (\<lambda>p. aiger_check_right_hand_side_defined p g l) p"
  using extends_defined [OF assms, of us "sprintf ''literal %u in AND %u undefined'' [FmtU l, FmtU (and_lhs g)]"]
  by (simp only: extends_def aiger_check_right_hand_side_defined_def aiger_error_uu_def add_types_simps) auto

text \<open>The checks of all literals, and the search, are such steps.\<close>

lemma extends_lits:
  assumes "small p" "\<forall>l \<in> set ls. l div 2 \<le> maxvar p"
  shows "extends us (until_error (check_stripped fmt) ls) p"
proof (rule extends_until_error)
  fix l q assume "l \<in> set ls" "same_core p q"
  with assms small_core [of p q] same_coreD(1) [of p q] show "extends us (check_stripped fmt l) q"
    by (intro extends_stripped) simp_all
qed

lemma extends_parts:
  assumes sm: "small p"
  shows "extends us aiger_check_next_defined p" "extends us aiger_check_outputs_defined p"
    "extends us aiger_check_bad_defined p" "extends us aiger_check_constraints_defined p"
    "extends us aiger_check_justice_defined p" "extends us aiger_check_fairness_defined p"
    "extends us aiger_check_right_hand_sides_defined p" "extends us aiger_check_for_cycles p"
proof -
  have b: "lits_below (maxvar p) p" using sm by (simp add: small_def)
  have sm': "small q" "maxvar q = maxvar p" "latches q = latches p" if "same_core p q" for q
    using small_core [OF that] sm same_coreD [OF that] by simp_all
  have "extends us (until_error check_next_symbol (latches p)) p"
  proof (rule extends_until_error)
    fix y q assume "y \<in> set (latches p)" and q: "same_core p q"
    with sm' [OF q] show "extends us (check_next_symbol y) q" by (intro extends_next) simp_all
  qed
  then show "extends us aiger_check_next_defined p"
    by (simp add: extends_def aiger_check_next_defined_def)
  have "extends us (until_error (check_stripped fmt) (map sym_lit xs)) p"
    if "\<forall>s \<in> set xs. sym_lit s div 2 \<le> maxvar p" for fmt xs
    by (rule extends_lits [OF sm]) (use that in simp)
  note lits = this [unfolded extends_def]
  show "extends us aiger_check_outputs_defined p"
    using lits [of "outputs p"] b by (simp add: extends_def aiger_check_outputs_defined_def lits_below_def)
  show "extends us aiger_check_bad_defined p"
    using lits [of "bad p"] b by (simp add: extends_def aiger_check_bad_defined_def lits_below_def)
  show "extends us aiger_check_constraints_defined p"
    using lits [of "constraints p"] b
    by (simp add: extends_def aiger_check_constraints_defined_def lits_below_def)
  show "extends us aiger_check_fairness_defined p"
    using lits [of "fairness p"] b by (simp add: extends_def aiger_check_fairness_defined_def lits_below_def)
  have "extends us (until_error (\<lambda>s. until_error (check_stripped ''justice %u undefined'') (sym_lits s)) (justice p)) p"
  proof (rule extends_until_error)
    fix y q assume y: "y \<in> set (justice p)" "same_core p q"
    from b y(1) have "\<forall>l \<in> set (sym_lits y). l div 2 \<le> maxvar p" unfolding lits_below_def by blast
    with sm' [OF y(2)] show "extends us (until_error (check_stripped ''justice %u undefined'') (sym_lits y)) q"
      by (intro extends_lits) simp_all
  qed
  then show "extends us aiger_check_justice_defined p"
    by (simp add: extends_def aiger_check_justice_defined_def)
  have "extends us (until_error (\<lambda>g p. do {
         p \<leftarrow> aiger_check_right_hand_side_defined p g (and_rhs0 g);
         aiger_check_right_hand_side_defined p g (and_rhs1 g) }) (ands p)) p"
  proof (rule extends_until_error, rule extends_bind)
    fix g q assume g: "g \<in> set (ands p)" "same_core p q"
    from b g(1) have r: "and_rhs0 g div 2 \<le> maxvar p" "and_rhs1 g div 2 \<le> maxvar p"
      unfolding lits_below_def by blast+
    show "extends us (\<lambda>p. aiger_check_right_hand_side_defined p g (and_rhs0 g)) q"
      by (rule extends_rhs) (use r sm' [OF g(2)] in simp_all)
    fix q' assume "same_core q q'"
    with g(2) have "same_core p q'" by (rule same_core_trans)
    show "extends us (\<lambda>p. aiger_check_right_hand_side_defined p g (and_rhs1 g)) q'"
      by (rule extends_rhs) (use r sm' [OF \<open>same_core p q'\<close>] in simp_all)
  qed
  then show "extends us aiger_check_right_hand_sides_defined p"
    by (simp add: extends_def aiger_check_right_hand_sides_defined_def)
  have "extends us (until_error (\<lambda>i p. if length (types p) \<le> i then None
         else if \<not> ty_and (type_at p i) \<or> ty_mark (type_at p i) then Some p
         else cycle_loop p [i]) [1..<Suc (maxvar p)]) p"
  proof (rule extends_until_error)
    fix i q assume i: "i \<in> set [1..<Suc (maxvar p)]" "same_core p q"
    have "extends us (\<lambda>p. cycle_loop p [i]) q"
      by (rule extends_cycle_loop) (use i sm' [OF i(2)] in auto)
    moreover have "i < length (types q)" using i sm' [OF i(2)] by (auto simp: small_def)
    ultimately show "extends us (\<lambda>p. if length (types p) \<le> i then None
         else if \<not> ty_and (type_at p i) \<or> ty_mark (type_at p i) then Some p
         else cycle_loop p [i]) q"
      by (simp add: extends_def type_at_def nth_append)
  qed
  then show "extends us aiger_check_for_cycles p"
    by (simp add: extends_def aiger_check_for_cycles_def)
qed

lemma extends_check:
  assumes sm: "small p"
  shows "extends us aiger_check p"
proof -
  have parts: "\<forall>q. same_core p q \<longrightarrow> extends us aiger_check_next_defined q"
    "\<forall>q. same_core p q \<longrightarrow> extends us aiger_check_outputs_defined q"
    "\<forall>q. same_core p q \<longrightarrow> extends us aiger_check_bad_defined q"
    "\<forall>q. same_core p q \<longrightarrow> extends us aiger_check_constraints_defined q"
    "\<forall>q. same_core p q \<longrightarrow> extends us aiger_check_justice_defined q"
    "\<forall>q. same_core p q \<longrightarrow> extends us aiger_check_fairness_defined q"
    "\<forall>q. same_core p q \<longrightarrow> extends us aiger_check_right_hand_sides_defined q"
    "\<forall>q. same_core p q \<longrightarrow> extends us aiger_check_for_cycles q"
    by (simp_all add: extends_parts small_core sm)
  have bind: "\<forall>q. same_core p q \<longrightarrow> extends us (\<lambda>p. Option.bind (f p) g) q"
    if "\<forall>q. same_core p q \<longrightarrow> extends us f q" "\<forall>q. same_core p q \<longrightarrow> extends us g q" for f g
  proof (intro allI impI extends_bind)
    fix q r assume q: "same_core p q"
    then show "extends us f q" using that(1) by blast
    assume "same_core q r"
    with q have "same_core p r" by (rule same_core_trans)
    then show "extends us g r" using that(2) by blast
  qed
  have "\<forall>q. same_core p q \<longrightarrow> extends us (\<lambda>p. do {
     p \<leftarrow> aiger_check_next_defined p;
     p \<leftarrow> aiger_check_outputs_defined p;
     p \<leftarrow> aiger_check_bad_defined p;
     p \<leftarrow> aiger_check_constraints_defined p;
     p \<leftarrow> aiger_check_justice_defined p;
     p \<leftarrow> aiger_check_fairness_defined p;
     p \<leftarrow> aiger_check_right_hand_sides_defined p;
     aiger_check_for_cycles p }) q"
    by (intro bind parts)
  then show ?thesis by (simp add: extends_def aiger_check_def aiger_error_def)
qed

section \<open>The new type table\<close>

lemma put_types_clear:
  assumes "m < length ts"
  shows "\<exists>us. foldm (\<lambda>i. put_type i clear_type) [1..<Suc m] ts = Some us \<and> length us = length ts \<and>
     (\<forall>v < length ts. us ! v = (if 0 < v \<and> v \<le> m then clear_type (ts ! v) else ts ! v))"
  using assms
proof (induction m)
  case (Suc m)
  then obtain us where us: "foldm (\<lambda>i. put_type i clear_type) [1..<Suc m] ts = Some us" "length us = length ts"
    "\<forall>v < length ts. us ! v = (if 0 < v \<and> v \<le> m then clear_type (ts ! v) else ts ! v)" by auto
  have "[1..<Suc (Suc m)] = [1..<Suc m] @ [Suc m]" by simp
  with us Suc.prems show ?case
    by (simp only: foldm_append) (auto simp: put_type_def nth_list_update)
qed auto

lemma number_types_seq:
  assumes "a + n < length ts"
  shows "\<exists>us. number_types f i (seq_lits a n) ts = Some us \<and> length us = length ts \<and>
     (\<forall>v < length ts. us ! v = (if a < v \<and> v \<le> a + n then f (i + (v - Suc a)) (ts ! v) else ts ! v))"
  using assms
proof (induction n arbitrary: a i ts)
  case (Suc n)
  have c: "seq_lits a (Suc n) = 2 * Suc a # seq_lits (Suc a) n"
    by (simp add: seq_lits_def upt_rec [of a])
  let ?ts = "ts[Suc a := f i (ts ! Suc a)]"
  from Suc.IH [of "Suc a" ?ts "Suc i"] Suc.prems obtain us where
    us: "number_types f (Suc i) (seq_lits (Suc a) n) ?ts = Some us" "length us = length ts"
    "\<forall>v < length ts. us ! v = (if Suc a < v \<and> v \<le> Suc (a + n) then f (Suc i + (v - Suc (Suc a))) (?ts ! v) else ?ts ! v)"
    by auto
  have "number_types f i (seq_lits a (Suc n)) ts = Some us"
    using us(1) Suc.prems by (simp add: c put_type_def)
  moreover have "us ! v = (if a < v \<and> v \<le> a + Suc n then f (i + (v - Suc a)) (ts ! v) else ts ! v)"
    if v: "v < length ts" for v
  proof -
    consider "v = Suc a" | "Suc a < v" "v \<le> Suc (a + n)" | "v \<le> a \<or> Suc (a + n) < v" by linarith
    then show ?thesis
    proof cases
      case 2
      then have "Suc i + (v - Suc (Suc a)) = i + (v - Suc a)" by linarith
      with 2 us(3) v show ?thesis by simp
    qed (use us(3) v in auto)
  qed
  ultimately show ?case using us(2) by blast
qed (auto simp: seq_lits_def)

lemma kind_ok_seq:
  assumes "a + n < length ts"
    and "\<And>v. v < length ts \<Longrightarrow> flag (ts ! v) \<longleftrightarrow> a < v \<and> v \<le> a + n"
    and "\<And>v. a < v \<Longrightarrow> v \<le> a + n \<Longrightarrow> ty_idx (ts ! v) = v - Suc a"
  shows "kind_ok flag (seq_lits a n) ts"
  unfolding kind_ok_def
proof (intro conjI allI impI)
  fix i assume "i < length (seq_lits a n)"
  then have i: "i < n" by simp
  then have v: "seq_lits a n ! i div 2 = Suc (a + i)" by simp
  show "even (seq_lits a n ! i)" "0 < seq_lits a n ! i" using i by simp_all
  show "seq_lits a n ! i div 2 < length ts" "flag (ts ! (seq_lits a n ! i div 2))"
    "ty_idx (ts ! (seq_lits a n ! i div 2)) = i"
    unfolding v using i assms by simp_all
next
  fix v assume "v < length ts" "flag (ts ! v)"
  with assms(2) have v: "a < v" "v \<le> a + n" by blast+
  with assms(3) have idx: "ty_idx (ts ! v) = v - Suc a" by blast
  from v show "ty_idx (ts ! v) < length (seq_lits a n)" unfolding idx by simp
  from v have "v - Suc a < n" by linarith
  then show "seq_lits a n ! ty_idx (ts ! v) = 2 * v" unfolding idx using v by simp
qed

definition trunc :: "aiger_private \<Rightarrow> aiger_private" where
  "trunc p = p\<lparr>types := take (Suc (maxvar p)) (types p)\<rparr>"

text \<open>What the table becomes when inputs, latches and gates are numbered one after the other.\<close>

definition new_type :: "nat \<Rightarrow> nat \<Rightarrow> nat \<Rightarrow> nat \<Rightarrow> aiger_type \<Rightarrow> aiger_type" where
  "new_type ni nl na v t =
     (if v = 0 \<or> ni + nl + na < v then t
      else if v \<le> ni then (clear_type t)\<lparr>ty_input := True, ty_idx := v - 1\<rparr>
      else if v \<le> ni + nl then (clear_type t)\<lparr>ty_latch := True, ty_idx := v - Suc ni\<rparr>
      else (clear_type t)\<lparr>ty_and := True, ty_idx := v - Suc (ni + nl)\<rparr>)"

lemma number_all:
  assumes "ni + nl + na < length ts"
  shows "\<exists>us vs ws xs.
     foldm (\<lambda>i. put_type i clear_type) [1..<Suc (ni + nl + na)] ts = Some us \<and>
     number_types (\<lambda>i t. t\<lparr>ty_and := True, ty_idx := i\<rparr>) 0 (seq_lits (ni + nl) na) us = Some vs \<and>
     number_types (\<lambda>i t. t\<lparr>ty_input := True, ty_idx := i\<rparr>) 0 (seq_lits 0 ni) vs = Some ws \<and>
     number_types (\<lambda>i t. t\<lparr>ty_latch := True, ty_idx := i\<rparr>) 0 (seq_lits ni nl) ws = Some xs \<and>
     length xs = length ts \<and> (\<forall>v < length ts. xs ! v = new_type ni nl na v (ts ! v))"
proof -
  obtain us where us: "foldm (\<lambda>i. put_type i clear_type) [1..<Suc (ni + nl + na)] ts = Some us" "length us = length ts"
    "\<forall>v < length ts. us ! v = (if 0 < v \<and> v \<le> ni + nl + na then clear_type (ts ! v) else ts ! v)"
    using put_types_clear [OF assms] by blast
  have us_len: "ni + nl + na < length us" using assms us(2) by simp
  obtain vs where vs: "number_types (\<lambda>i t. t\<lparr>ty_and := True, ty_idx := i\<rparr>) 0 (seq_lits (ni + nl) na) us = Some vs"
    "length vs = length ts"
    "\<forall>v < length ts. vs ! v = (if ni + nl < v \<and> v \<le> ni + nl + na
       then (us ! v)\<lparr>ty_and := True, ty_idx := 0 + (v - Suc (ni + nl))\<rparr> else us ! v)"
    using number_types_seq [OF us_len, of "\<lambda>i t. t\<lparr>ty_and := True, ty_idx := i\<rparr>" 0, unfolded us(2)] by blast
  have vs_len: "0 + ni < length vs" using assms vs(2) by simp
  obtain ws where ws: "number_types (\<lambda>i t. t\<lparr>ty_input := True, ty_idx := i\<rparr>) 0 (seq_lits 0 ni) vs = Some ws"
    "length ws = length ts"
    "\<forall>v < length ts. ws ! v = (if 0 < v \<and> v \<le> 0 + ni
       then (vs ! v)\<lparr>ty_input := True, ty_idx := 0 + (v - Suc 0)\<rparr> else vs ! v)"
    using number_types_seq [OF vs_len, of "\<lambda>i t. t\<lparr>ty_input := True, ty_idx := i\<rparr>" 0, unfolded vs(2)] by blast
  have ws_len: "ni + nl < length ws" using assms ws(2) by simp
  obtain xs where xs: "number_types (\<lambda>i t. t\<lparr>ty_latch := True, ty_idx := i\<rparr>) 0 (seq_lits ni nl) ws = Some xs"
    "length xs = length ts"
    "\<forall>v < length ts. xs ! v = (if ni < v \<and> v \<le> ni + nl
       then (ws ! v)\<lparr>ty_latch := True, ty_idx := 0 + (v - Suc ni)\<rparr> else ws ! v)"
    using number_types_seq [OF ws_len, of "\<lambda>i t. t\<lparr>ty_latch := True, ty_idx := i\<rparr>" 0, unfolded ws(2)] by blast
  have "xs ! v = new_type ni nl na v (ts ! v)" if "v < length ts" for v
    using us(3) [rule_format, OF that] vs(3) [rule_format, OF that] ws(3) [rule_format, OF that]
      xs(3) [rule_format, OF that] assms by (cases "v = 0") (simp_all add: new_type_def)
  with us(1) vs(1) ws(1) xs(1,2) show ?thesis by blast
qed

section \<open>The behaviours\<close>

definition renames :: "nat list \<Rightarrow> aiger_private \<Rightarrow> aiger_private \<Rightarrow> bool" where
  "renames ord p q \<longleftrightarrow>
     inputs q = map (enc_symbol ord) (inputs p) \<and>
     latches q = map (\<lambda>y. enc_symbol ord (enc_latch ord y)) (latches p) \<and>
     outputs q = map (enc_symbol ord) (outputs p) \<and> bad q = map (enc_symbol ord) (bad p) \<and>
     constraints q = map (enc_symbol ord) (constraints p) \<and>
     justice q = map (enc_justice ord) (justice p) \<and> fairness q = map (enc_symbol ord) (fairness p) \<and>
     set (ands q) = enc_and ord ` set (live_ands ord p) \<and> maxvar q = length ord"

text \<open>Two valuations that agree on the coded variables.\<close>

definition agree :: "nat list \<Rightarrow> (nat \<Rightarrow> bool) \<Rightarrow> (nat \<Rightarrow> bool) \<Rightarrow> bool" where
  "agree ord \<nu> \<nu>' \<longleftrightarrow> \<not> \<nu> 0 \<and> \<not> \<nu>' 0 \<and> (\<forall>v \<in> set ord. \<nu>' (Suc (pos ord v)) = \<nu> v)"

lemma enc_sym_simps [simp]:
  "sym_lit (enc_symbol ord y) = enc ord (sym_lit y)" "sym_next (enc_symbol ord y) = sym_next y"
  "sym_reset (enc_symbol ord y) = sym_reset y" "sym_lits (enc_symbol ord y) = sym_lits y"
  "sym_name (enc_symbol ord y) = sym_name y"
  "sym_lit (enc_latch ord y) = sym_lit y" "sym_next (enc_latch ord y) = enc ord (sym_next y)"
  "sym_reset (enc_latch ord y) = enc ord (sym_reset y)" "sym_name (enc_latch ord y) = sym_name y"
  "sym_lits (enc_justice ord y) = map (enc ord) (sym_lits y)" "sym_lit (enc_justice ord y) = sym_lit y"
  "sym_name (enc_justice ord y) = sym_name y"
  by (simp_all add: enc_symbol_def enc_latch_def enc_justice_def)

lemma litval_enc:
  assumes "agree ord \<nu> \<nu>'" "covered ord l" "0 \<notin> set ord"
  shows "litval \<nu>' (enc ord l) = litval \<nu> l"
proof -
  have "even (enc ord l) = even l" using enc_mod2 [OF assms(2,3)] by (simp add: even_iff_mod_2_eq_zero)
  then show ?thesis
    using assms enc_div2 [OF assms(2,3)] by (auto simp: litval_def agree_def covered_def)
qed

lemma source_covered:
  assumes "order_ok p ord" "y \<in> set (inputs p) \<union> set (latches p)"
  shows "covered ord (sym_lit y)"
proof -
  obtain rest where "ord = source_vars p @ rest" using order_okD(6) [OF assms(1)] by blast
  with assms(2) show ?thesis by (auto simp: covered_def source_vars_def)
qed

lemma observe_enc:
  assumes "agree ord \<nu> \<nu>'" "order_ok p ord" "covers ord p" "renames ord p q"
  shows "observe q \<nu>' = observe p \<nu>"
proof -
  have z: "0 \<notin> set ord" using order_okD(2) [OF assms(2), of 0] by blast
  note l = litval_enc [OF assms(1) _ z] and c = source_covered [OF assms(2)]
  show ?thesis
    using assms(3) unfolding covers_def by (simp add: observe_def renames_def assms(4) [unfolded renames_def] l c)
qed

lemma gate_holds_even: "even (and_lhs g) \<Longrightarrow>
    gate_holds \<nu> g \<longleftrightarrow> litval \<nu> (and_lhs g) = (litval \<nu> (and_rhs0 g) \<and> litval \<nu> (and_rhs1 g))"
  by (simp add: gate_holds_def litval_even)

lemma gate_enc:
  assumes "agree ord \<nu> \<nu>'" "order_ok p ord" "wf_types p" "g \<in> set (live_ands ord p)"
  shows "gate_holds \<nu>' (enc_and ord g) = gate_holds \<nu> g"
proof -
  have z: "0 \<notin> set ord" using order_okD(2) [OF assms(2), of 0] by blast
  from assms(4) have g: "g \<in> set (ands p)" "and_lhs g div 2 \<in> set ord" by (simp_all add: live_ands_def)
  have cl: "covered ord (and_lhs g)" using g(2) by (simp add: covered_def)
  note c = live_rhs(1) [OF assms(2,3,4)]
  have even: "even (and_lhs g)" by (rule gate_lhs(1) [OF assms(3) g(1)])
  then have "even (and_lhs (enc_and ord g))" using enc_mod2 [OF cl z] by (simp add: enc_and_def even_iff_mod_2_eq_zero)
  then show ?thesis
    using litval_enc [OF assms(1) cl z] litval_enc [OF assms(1) c z, of "and_rhs0 g"]
      litval_enc [OF assms(1) c z, of "and_rhs1 g"] even
    by (auto simp: gate_holds_even enc_and_def max_def min_def)
qed

lemma latch_enc:
  assumes "order_ok p ord" "covers ord p" "wf_resets p" "y \<in> set (latches p)" "wf_types p"
  shows "agree ord \<nu> \<nu>' \<Longrightarrow> latch_init \<nu>' (enc_symbol ord (enc_latch ord y)) = latch_init \<nu> y"
    "agree ord \<nu> \<nu>' \<Longrightarrow> agree ord \<mu> \<mu>' \<Longrightarrow>
       latch_next \<nu>' \<mu>' (enc_symbol ord (enc_latch ord y)) = latch_next \<nu> \<mu> y"
proof -
  have z: "0 \<notin> set ord" using order_okD(2) [OF assms(1), of 0] by blast
  have c: "covered ord (sym_lit y)" by (rule source_covered [OF assms(1)]) (use assms(4) in simp)
  have cn: "covered ord (sym_next y)" using assms(2,4) by (simp add: covers_def)
  have lit: "even (sym_lit y) \<and> 0 < sym_lit y"
    using kind_ok_pos [OF wf_typesD(2) [OF assms(5)], of "sym_lit y"] assms(4) by simp
  show "latch_next \<nu>' \<mu>' (enc_symbol ord (enc_latch ord y)) = latch_next \<nu> \<mu> y"
    if "agree ord \<nu> \<nu>'" "agree ord \<mu> \<mu>'"
    using litval_enc [OF that(1) cn z] litval_enc [OF that(2) c z] by (simp add: latch_next_def)
  show "latch_init \<nu>' (enc_symbol ord (enc_latch ord y)) = latch_init \<nu> y" if a: "agree ord \<nu> \<nu>'"
  proof (cases "sym_reset y = sym_lit y")
    case False
    then have r: "sym_reset y \<le> 1" using assms(3,4) by (auto simp: wf_resets_def)
    then have "enc ord (sym_reset y) = sym_reset y" by (simp add: enc_def)
    moreover from lit c have "2 \<le> enc ord (sym_lit y)" by (auto simp: enc_def covered_def elim!: evenE)
    ultimately show ?thesis using False r litval_enc [OF a c z] by (auto simp: latch_init_def)
  qed (simp add: latch_init_def)
qed

lemma agree_lift:
  assumes "models q \<nu>'" "renames ord p q" "order_ok p ord" "wf_types p" "models p \<nu>"
    and src: "\<And>w. w \<in> set ord \<Longrightarrow> 2 * w \<notin> and_lhs ` set (ands p) \<Longrightarrow> \<nu> w = \<nu>' (Suc (pos ord w))"
  shows "agree ord \<nu> \<nu>'"
proof -
  note d = order_okD [OF assms(3)]
  have z: "0 \<notin> set ord" using d(2) [of 0] by blast
  have zero: "\<not> \<nu> 0" "\<not> \<nu>' 0" using assms(1,5) by (simp_all add: models_def)
  have "\<nu>' (Suc (pos ord v)) = \<nu> v" if "v \<in> set ord" for v
    using that
  proof (induction "pos ord v" arbitrary: v rule: less_induct)
    case less
    show ?case
    proof (cases "2 * v \<in> and_lhs ` set (ands p)")
      case True
      then obtain g where g: "g \<in> set (ands p)" "and_lhs g = 2 * v" by auto
      with less.prems have live: "g \<in> set (live_ands ord p)" by (simp add: live_ands_def)
      have v0: "v \<noteq> 0" using less.prems z by metis
      have lhs: "enc ord (and_lhs g) = 2 * Suc (pos ord v)" using g(2) less.prems v0 by simp
      have eq: "litval \<nu>' (enc ord l) = litval \<nu> l" if l: "l = and_rhs0 g \<or> l = and_rhs1 g" for l
      proof (cases "l div 2 = 0")
        case True
        then have "l = 0 \<or> l = 1" by linarith
        with zero show ?thesis by (auto simp: litval_def enc_def)
      next
        case False
        note r = live_rhs [OF assms(3,4) live l]
        from False r(1) have w: "l div 2 \<in> set ord" by (simp add: covered_def)
        have "enc ord l div 2 = Suc (pos ord (l div 2))" using enc_div2 [OF r(1) z] False by simp
        moreover have "enc ord l < Suc (pos ord v) * 2" using r(2) lhs by simp
        then have "enc ord l div 2 < Suc (pos ord v)" by (rule less_mult_imp_div_less)
        ultimately have "pos ord (l div 2) < pos ord v" by simp
        from less.hyps [OF this w] show ?thesis
          using enc_div2 [OF r(1) z] enc_mod2 [OF r(1) z] False
          by (simp add: litval_def even_iff_mod_2_eq_zero)
      qed
      have "gate_holds \<nu>' (enc_and ord g)"
        using assms(1,2) live by (auto simp: models_def renames_def list_all_iff)
      then have "\<nu>' (Suc (pos ord v)) = (litval \<nu> (and_rhs0 g) \<and> litval \<nu> (and_rhs1 g))"
        using eq [of "and_rhs0 g"] eq [of "and_rhs1 g"] lhs
        by (auto simp: gate_holds_def enc_and_def max_def min_def split: if_splits)
      moreover have "gate_holds \<nu> g" using assms(5) g(1) by (simp add: models_def list_all_iff)
      ultimately show ?thesis using g(2) by (simp add: gate_holds_def)
    qed (use src less.prems in simp)
  qed
  with zero show ?thesis by (simp add: agree_def)
qed

lemma renames_behaviours:
  assumes p: "reencodable p" and ok: "order_ok p ord" and cov: "covers ord p" and q: "renames ord p q"
  shows "behaviours q = behaviours p"
proof -
  note r = reencodableD [OF p] and d = order_okD [OF ok]
  have wr: "wf_resets p" using r(1) by (simp add: wf_aiger_def)
  have runs: "run p \<tau> = run q \<tau>'"
    if a: "\<And>t. agree ord (\<tau> t) (\<tau>' t)" and m: "\<And>t. models p (\<tau> t) = models q (\<tau>' t)" for \<tau> \<tau>'
  proof -
    have "list_all (latch_init (\<tau> 0)) (latches p) = list_all (latch_init (\<tau>' 0)) (latches q)"
      using latch_enc(1) [OF ok cov wr _ r(2) a] q by (simp add: renames_def list_all_iff)
    moreover have "list_all (latch_next (\<tau> t) (\<tau> (Suc t))) (latches p) =
        list_all (latch_next (\<tau>' t) (\<tau>' (Suc t))) (latches q)" for t
      using latch_enc(2) [OF ok cov wr _ r(2) a a] q by (simp add: renames_def list_all_iff)
    ultimately show ?thesis using m by (simp add: run_def)
  qed
  show ?thesis
  proof (intro set_eqI iffI)
    fix b assume "b \<in> behaviours p"
    then obtain \<tau> where \<tau>: "run p \<tau>" "b = (\<lambda>t. observe p (\<tau> t))" by (auto simp: behaviours_def)
    define \<tau>' where "\<tau>' = (\<lambda>t w. w \<noteq> 0 \<and> w \<le> length ord \<and> \<tau> t (ord ! (w - 1)))"
    have mp: "models p (\<tau> t)" for t using \<tau>(1) by (simp add: run_def)
    have a: "agree ord (\<tau> t) (\<tau>' t)" for t
      using mp [of t] by (auto simp: agree_def \<tau>'_def models_def nth_pos dest: pos_less)
    have mq: "models q (\<tau>' t)" for t
      using mp [of t] gate_enc [OF a ok r(2), of _ t] q a [of t]
      by (auto simp: models_def renames_def list_all_iff agree_def live_ands_def)
    have "run q \<tau>'" using runs [OF a] mp mq \<tau>(1) by simp
    moreover have "b = (\<lambda>t. observe q (\<tau>' t))" using \<tau>(2) observe_enc [OF a ok cov q] by simp
    ultimately show "b \<in> behaviours q" by (auto simp: behaviours_def)
  next
    fix b assume "b \<in> behaviours q"
    then obtain \<tau>' where \<tau>': "run q \<tau>'" "b = (\<lambda>t. observe q (\<tau>' t))" by (auto simp: behaviours_def)
    have mq: "models q (\<tau>' t)" for t using \<tau>'(1) by (simp add: run_def)
    have "\<exists>\<nu>. models p \<nu> \<and> agree ord \<nu> (\<tau>' t)" for t
    proof -
      have "\<not> (0 \<in> set ord \<and> \<tau>' t (Suc (pos ord 0)))" using d(2) [of 0] by blast
      from models_exist [OF r(2,4), of "\<lambda>w. w \<in> set ord \<and> \<tau>' t (Suc (pos ord w))", OF this] obtain \<nu> where \<nu>: "models p \<nu>"
        "\<forall>w. 2 * w \<notin> and_lhs ` set (ands p) \<longrightarrow> \<nu> w = (w \<in> set ord \<and> \<tau>' t (Suc (pos ord w)))" by blast
      have "agree ord \<nu> (\<tau>' t)" by (rule agree_lift [OF mq q ok r(2) \<nu>(1)]) (use \<nu>(2) in blast)
      with \<nu>(1) show ?thesis by blast
    qed
    then obtain \<tau> where mp: "\<And>t. models p (\<tau> t)" and a: "\<And>t. agree ord (\<tau> t) (\<tau>' t)" by metis
    have "run p \<tau>" using runs [OF a] mp mq \<tau>'(1) by simp
    moreover have "b = (\<lambda>t. observe p (\<tau> t))" using \<tau>'(2) observe_enc [OF a ok cov q] by simp
    ultimately show "b \<in> behaviours p" by (auto simp: behaviours_def)
  qed
qed

end
