(* ===== verification/AigerReencodeResult.thy ===== *)
theory AigerReencodeResult
  imports AigerReencodeCorrect
begin

text \<open>
  The main result about \<open>aiger_reencode\<close>: on every checked structure that is not reencoded yet it
  returns a reencoded, well-formed structure with the same behaviours and the same names. The type
  table is well-formed up to the new \<open>maxvar\<close> (\<open>trunc\<close>): the code does not clear the entries
  above it.
\<close>

section \<open>Reencoded structures\<close>

definition reencoded_form :: "aiger_private \<Rightarrow> bool" where
  "reencoded_form p \<longleftrightarrow>
     map sym_lit (inputs p) = seq_lits 0 (length (inputs p)) \<and>
     map sym_lit (latches p) = seq_lits (length (inputs p)) (length (latches p)) \<and>
     map and_lhs (ands p) = seq_lits (length (inputs p) + length (latches p)) (length (ands p)) \<and>
     (\<forall>g \<in> set (ands p). and_rhs0 g \<le> and_lhs g \<and> and_rhs1 g \<le> and_rhs0 g)"

lemma seq_lits_Suc: "seq_lits a (Suc n) = 2 * Suc a # seq_lits (Suc a) n"
  by (simp add: seq_lits_def upt_rec [of a])

lemma count_up_eq:
  "a + length ls < 2147483647 \<Longrightarrow>
     count_up (2 * a) ls = (if ls = seq_lits a (length ls) then Some (2 * (a + length ls)) else None)"
proof (induction ls arbitrary: a)
  case (Cons l ls)
  have "u32 (2 * a + 2) = 2 * Suc a" using Cons.prems by simp
  with Cons.IH [of "Suc a"] Cons.prems show ?case by (auto simp: seq_lits_Suc)
qed (simp add: seq_lits_def)

lemma max_even_seq:
  "foldm max_even (seq_lits a n) (2 * a) = Some (2 * (a + n))"
proof (induction n arbitrary: a)
  case (Suc n)
  from Suc [of "Suc a"] show ?case by (simp add: seq_lits_Suc max_even_def)
qed (simp add: seq_lits_def)

lemma ands_reencoded_eq:
  "k \<le> a \<Longrightarrow> a + length gs < 2147483647 \<Longrightarrow>
     ands_reencoded (2 * k) (2 * Suc a) gs \<longleftrightarrow>
       map and_lhs gs = seq_lits a (length gs) \<and>
       (\<forall>g \<in> set gs. and_rhs0 g \<le> and_lhs g \<and> and_rhs1 g \<le> and_rhs0 g)"
proof (induction gs arbitrary: a)
  case (Cons g gs)
  have "u32 (2 * Suc a + 2) = 2 * Suc (Suc a)" using Cons.prems by simp
  with Cons.IH [of "Suc a"] Cons.prems show ?case by (auto simp: seq_lits_Suc)
qed (simp add: seq_lits_def)

lemma is_reencoded_eq:
  assumes "length (inputs p) + length (latches p) + length (ands p) < 2147483647"
  shows "aiger_is_reencoded p = Some (reencoded_form p)"
proof (cases "map sym_lit (inputs p) = seq_lits 0 (length (inputs p)) \<and>
     map sym_lit (latches p) = seq_lits (length (inputs p)) (length (latches p))")
  case True
  let ?k = "length (inputs p) + length (latches p)"
  have "count_up 0 (map sym_lit (inputs p)) = Some (2 * length (inputs p))"
    using count_up_eq [of 0 "map sym_lit (inputs p)"] True assms by simp
  moreover have "count_up (2 * length (inputs p)) (map sym_lit (latches p)) = Some (2 * ?k)"
    using count_up_eq [of "length (inputs p)" "map sym_lit (latches p)"] True assms by simp
  moreover have "aiger_max_input_or_latch p = Some (2 * ?k)"
    using max_even_seq [of 0 "length (inputs p)"] max_even_seq [of "length (inputs p)" "length (latches p)"] True
    by (simp add: aiger_max_input_or_latch_def)
  moreover have "u32 (2 * ?k + 2) = 2 * Suc ?k" using assms by simp
  ultimately show ?thesis
    using ands_reencoded_eq [of ?k ?k "ands p"] True assms
    by (simp add: aiger_is_reencoded_def reencoded_form_def del: mult_Suc_right)
next
  case False
  then show ?thesis
    using count_up_eq [of 0 "map sym_lit (inputs p)"] count_up_eq [of "length (inputs p)" "map sym_lit (latches p)"] assms
    by (auto simp: aiger_is_reencoded_def reencoded_form_def)
qed

lemma count_definitions:
  assumes "wf_aiger p" "0 < maxvar p"
  shows "length (inputs p) + length (latches p) + length (ands p) \<le> maxvar p"
proof -
  have wt: "wf_types p" using assms(1) by (simp add: wf_aiger_def)
  note v = source_vars_ok [OF assms]
  let ?gs = "map (\<lambda>g. and_lhs g div 2) (ands p)"
  have "distinct (map and_lhs (ands p))" by (rule kind_ok_distinct [OF wf_typesD(3) [OF wt]])
  moreover have "inj_on (\<lambda>l. l div 2) (set (map and_lhs (ands p)))"
    by (rule inj_onI) (metis kind_ok_pos [OF wf_typesD(3) [OF wt]] even_lit)
  ultimately have "distinct (map (\<lambda>l. l div 2) (map and_lhs (ands p)))" by (simp only: distinct_map)
  then have d: "distinct ?gs" by (simp add: comp_def)
  have gate: "0 < w \<and> w \<le> maxvar p \<and> w < length (types p) \<and> ty_and (types p ! w)" if "w \<in> set ?gs" for w
  proof -
    from that obtain g where g: "g \<in> set (ands p)" "w = and_lhs g div 2" by auto
    with gate_lhs [OF wt g(1)] assms(1) show ?thesis
      by (auto simp: wf_aiger_def wf_lits_def lits_below_def elim!: evenE)
  qed
  have "distinct (source_vars p @ ?gs)" using v(1,3) d gate by auto
  moreover have "set (source_vars p @ ?gs) \<subseteq> {1..maxvar p}" using v(2) gate by (auto simp: Suc_le_eq)
  then have "card (set (source_vars p @ ?gs)) \<le> card {1..maxvar p}" by (intro card_mono) simp
  ultimately have "length (source_vars p @ ?gs) \<le> maxvar p" by (metis card_atLeastAtMost diff_Suc_1 distinct_card)
  then show ?thesis by (simp add: source_vars_def)
qed

section \<open>The renumbered structure is well-formed\<close>

lemma enc_source:
  assumes "order_ok p ord" "wf_types p"
  shows "map (enc ord) (map sym_lit (inputs p)) = seq_lits 0 (length (inputs p))"
    "map (enc ord) (map sym_lit (latches p)) = seq_lits (length (inputs p)) (length (latches p))"
proof -
  note d = order_okD [OF assms(1)]
  obtain rest where rest: "ord = source_vars p @ rest" using d(6) by blast
  have lit: "2 \<le> sym_lit y \<and> sym_lit y mod 2 = 0" if "y \<in> set (inputs p) \<union> set (latches p)" for y
    using that kind_ok_pos [OF wf_typesD(1) [OF assms(2)], of "sym_lit y"]
      kind_ok_pos [OF wf_typesD(2) [OF assms(2)], of "sym_lit y"] by (auto elim!: evenE)
  have enc: "enc ord (sym_lit ((inputs p @ latches p) ! i)) = 2 * Suc i" if "i < length (inputs p @ latches p)" for i
  proof -
    let ?y = "(inputs p @ latches p) ! i"
    have "?y \<in> set (inputs p @ latches p)" using that by (rule nth_mem)
    then have y: "2 \<le> sym_lit ?y \<and> sym_lit ?y mod 2 = 0" using lit by auto
    have i: "i < length ord" using that by (simp add: rest source_vars_def)
    have "ord ! i = sym_lit ?y div 2" using that by (simp add: rest source_vars_def nth_append del: map_append)
    with pos_nth [OF d(1) i] nth_mem [OF i] y show ?thesis by (simp add: enc_def)
  qed
  show "map (enc ord) (map sym_lit (inputs p)) = seq_lits 0 (length (inputs p))"
  proof (rule nth_equalityI)
    fix i assume "i < length (map (enc ord) (map sym_lit (inputs p)))"
    then show "map (enc ord) (map sym_lit (inputs p)) ! i = seq_lits 0 (length (inputs p)) ! i"
      using enc [of i] by (simp add: nth_append)
  qed simp
  show "map (enc ord) (map sym_lit (latches p)) = seq_lits (length (inputs p)) (length (latches p))"
  proof (rule nth_equalityI)
    fix i assume "i < length (map (enc ord) (map sym_lit (latches p)))"
    then show "map (enc ord) (map sym_lit (latches p)) ! i = seq_lits (length (inputs p)) (length (latches p)) ! i"
      using enc [of "length (inputs p) + i"] by (simp add: nth_append)
  qed simp
qed

text \<open>Facts about a structure that renames \<open>p\<close> along \<open>ord\<close>.\<close>

definition renamed :: "nat list \<Rightarrow> aiger_private \<Rightarrow> aiger_private \<Rightarrow> bool" where
  "renamed ord p q \<longleftrightarrow>
     renames ord p q \<and>
     map and_lhs (ands q) = seq_lits (length (source_vars p)) (length ord - length (source_vars p)) \<and>
     comments q = comments p \<and> num_comments q = num_comments p"

definition renaming :: "nat list \<Rightarrow> aiger_private \<Rightarrow> aiger_private \<Rightarrow> bool" where
  "renaming ord p q \<longleftrightarrow> reencodable p \<and> order_ok p ord \<and> covers ord p \<and> renamed ord p q"

lemma renamingD:
  assumes "renaming ord p q"
  shows "reencodable p" "order_ok p ord" "covers ord p" "renamed ord p q"
  using assms by (simp_all add: renaming_def)

lemma renamed_len:
  assumes R: "renaming ord p q"
  shows "length (inputs q) = length (inputs p)" "length (latches q) = length (latches p)"
  "length (inputs p) + length (latches p) + length (ands q) = length ord" "maxvar q = length ord"
proof -
  note p = renamingD(1) [OF R] and ok = renamingD(2) [OF R] and cov = renamingD(3) [OF R] and q = renamingD(4) [OF R]
  show "length (inputs q) = length (inputs p)" "length (latches q) = length (latches p)" "maxvar q = length ord"
    using q by (simp_all add: renamed_def renames_def)
  have "length (ands q) = length ord - length (source_vars p)"
    using q by (metis length_map length_seq_lits renamed_def)
  moreover have "length (source_vars p) \<le> length ord" using order_okD(6) [OF ok] by auto
  ultimately show "length (inputs p) + length (latches p) + length (ands q) = length ord"
    by (simp add: source_vars_def)
qed

lemma renamed_lits:
  assumes R: "renaming ord p q"
  shows "map sym_lit (inputs q) = seq_lits 0 (length (inputs p))"
  "map sym_lit (latches q) = seq_lits (length (inputs p)) (length (latches p))"
  "map and_lhs (ands q) = seq_lits (length (inputs p) + length (latches p)) (length (ands q))"
proof -
  note p = renamingD(1) [OF R] and ok = renamingD(2) [OF R] and cov = renamingD(3) [OF R] and q = renamingD(4) [OF R]
  note e = enc_source [OF ok reencodableD(2) [OF p]]
  show "map sym_lit (inputs q) = seq_lits 0 (length (inputs p))"
    "map sym_lit (latches q) = seq_lits (length (inputs p)) (length (latches p))"
    using q e by (simp_all add: renamed_def renames_def comp_def)
  have "length ord - length (source_vars p) = length (ands q)"
    using renamed_len(3) [OF R] by (simp add: source_vars_def)
  then show "map and_lhs (ands q) = seq_lits (length (inputs p) + length (latches p)) (length (ands q))"
    using q by (simp add: renamed_def) (simp add: source_vars_def)
qed

lemma renamed_gate:
  assumes R: "renaming ord p q" and h: "h \<in> set (ands q)"
  shows "and_rhs0 h < and_lhs h" "and_rhs1 h \<le> and_rhs0 h" "even (and_lhs h)" "and_lhs h div 2 \<le> length ord"
proof -
  note p = renamingD(1) [OF R] and ok = renamingD(2) [OF R] and cov = renamingD(3) [OF R] and q = renamingD(4) [OF R]
  from h q obtain g where g: "g \<in> set (live_ands ord p)" "h = enc_and ord g"
    by (auto simp: renamed_def renames_def)
  from live_rhs(2) [OF ok reencodableD(2) [OF p] g(1), of "and_rhs0 g"]
    live_rhs(2) [OF ok reencodableD(2) [OF p] g(1), of "and_rhs1 g"] g(2)
  show "and_rhs0 h < and_lhs h" "and_rhs1 h \<le> and_rhs0 h" by (auto simp: enc_and_def)
  have "and_lhs h \<in> set (map and_lhs (ands q))" using h by simp
  then show "even (and_lhs h)" "and_lhs h div 2 \<le> length ord"
    using renamed_len(3) [OF R] unfolding renamed_lits(3) [OF R] by (auto simp: set_seq_lits)
qed

lemma renamed_form:
  assumes R: "renaming ord p q"
  shows "reencoded_form q"
  using renamed_lits [OF R] renamed_len(1,2) [OF R] renamed_gate [OF R] by (auto simp: reencoded_form_def intro: less_imp_le)

lemma enc_below:
  assumes ok: "order_ok p ord" and "covered ord l"
  shows "enc ord l div 2 \<le> length ord"
proof -
  have "0 \<notin> set ord" using order_okD(2) [OF ok, of 0] by blast
  from enc_div2 [OF assms(2) this] assms(2) pos_less [of "l div 2" ord] show ?thesis by (auto simp: covered_def)
qed

lemma renamed_below:
  assumes R: "renaming ord p q"
  shows "lits_below (length ord) q"
proof -
  note p = renamingD(1) [OF R] and ok = renamingD(2) [OF R] and cov = renamingD(3) [OF R] and q = renamingD(4) [OF R]
  have src: "covered ord (sym_lit y)" if "y \<in> set (inputs p) \<union> set (latches p)" for y
    by (rule source_covered [OF ok that])
  have g: "and_lhs h div 2 \<le> length ord \<and> and_rhs0 h div 2 \<le> length ord \<and> and_rhs1 h div 2 \<le> length ord"
    if "h \<in> set (ands q)" for h
    using renamed_gate [OF R that] by (meson div_le_mono le_trans less_imp_le)
  show ?thesis
    unfolding lits_below_def
    using q cov src enc_below [OF ok] g by (auto simp: renamed_def renames_def covers_def)
qed

lemma renamed_defined:
  assumes R: "renaming ord p q"
  shows "all_defined q"
proof -
  note p = renamingD(1) [OF R] and ok = renamingD(2) [OF R] and cov = renamingD(3) [OF R] and q = renamingD(4) [OF R]
  have def: "defined_var q v" if "v \<le> length ord" for v
  proof -
    consider "v = 0" | "0 < v" "v \<le> length (inputs p)"
      | "length (inputs p) < v" "v \<le> length (inputs p) + length (latches p)"
      | "length (inputs p) + length (latches p) < v" by linarith
    then show ?thesis
    proof cases
      case 2
      then have "2 * v \<in> set (map sym_lit (inputs q))"
        unfolding renamed_lits(1) [OF R] set_seq_lits by (intro exI [of _ "v - 1"]) auto
      then show ?thesis by (simp add: defined_var_def)
    next
      case 3
      then have "2 * v \<in> set (map sym_lit (latches q))"
        unfolding renamed_lits(2) [OF R] set_seq_lits by (intro exI [of _ "v - 1"]) auto
      then show ?thesis by (simp add: defined_var_def)
    next
      case 4
      then have "2 * v \<in> set (map and_lhs (ands q))"
        unfolding renamed_lits(3) [OF R] set_seq_lits using that renamed_len(3) [OF R] by (intro exI [of _ "v - 1"]) auto
      then show ?thesis by (simp add: defined_var_def)
    qed (simp add: defined_var_def)
  qed
  show ?thesis using renamed_below [OF R] def unfolding all_defined_def lits_below_def by blast
qed

lemma renamed_acyclic:
  assumes R: "renaming ord p q"
  shows "acyclic (deps q)"
proof -
  note p = renamingD(1) [OF R] and ok = renamingD(2) [OF R] and cov = renamingD(3) [OF R] and q = renamingD(4) [OF R]
  have "deps q \<subseteq> less_than\<inverse>"
  proof
    fix e assume "e \<in> deps q"
    then obtain h l where h: "h \<in> set (ands q)" "l = and_rhs0 h \<or> l = and_rhs1 h" "e = (and_lhs h div 2, l div 2)"
      by (auto simp: deps_def)
    have "l < and_lhs h" using h(2) renamed_gate(1,2) [OF R h(1)] by linarith
    with renamed_gate(3) [OF R h(1)] have "l div 2 < and_lhs h div 2" by (auto elim!: evenE intro: less_mult_imp_div_less)
    with h(3) show "e \<in> less_than\<inverse>" by simp
  qed
  moreover have "acyclic (less_than\<inverse>)" by (simp add: acyclic_converse wf_acyclic)
  ultimately show ?thesis by (rule acyclic_subset [rotated])
qed

lemma renamed_resets:
  assumes R: "renaming ord p q"
  shows "wf_resets q"
proof -
  note p = renamingD(1) [OF R] and ok = renamingD(2) [OF R] and cov = renamingD(3) [OF R] and q = renamingD(4) [OF R]
  have "sym_reset y \<le> 1 \<or> sym_reset y = sym_lit y" if "y \<in> set (latches p)" for y
    using reencodableD(1) [OF p] that by (simp add: wf_aiger_def wf_resets_def)
  moreover have "l \<le> 1 \<Longrightarrow> enc ord l = l" for l by (simp add: enc_def)
  ultimately show ?thesis using q by (fastforce simp: wf_resets_def renamed_def renames_def)
qed

lemma renamed_names:
  assumes R: "renaming ord p q"
  shows "map sym_name (all_symbols q) = map sym_name (all_symbols p)" "wf_names q"
proof -
  note p = renamingD(1) [OF R] and ok = renamingD(2) [OF R] and cov = renamingD(3) [OF R] and q = renamingD(4) [OF R]
  show n: "map sym_name (all_symbols q) = map sym_name (all_symbols p)"
    using q by (simp add: all_symbols_def renamed_def renames_def)
  have "set (map sym_name (all_symbols q)) = set (map sym_name (all_symbols p))" by (simp only: n)
  with reencodableD(1) [OF p] show "wf_names q"
    unfolding wf_aiger_def wf_names_def by (metis (mono_tags, lifting) image_iff set_map)
qed

section \<open>The type table of the result\<close>

lemma new_type_simps:
  "0 < v \<Longrightarrow> v \<le> ni + nl + na \<Longrightarrow> ty_input (new_type ni nl na v t) \<longleftrightarrow> v \<le> ni"
  "0 < v \<Longrightarrow> v \<le> ni + nl + na \<Longrightarrow> ty_latch (new_type ni nl na v t) \<longleftrightarrow> ni < v \<and> v \<le> ni + nl"
  "0 < v \<Longrightarrow> v \<le> ni + nl + na \<Longrightarrow> ty_and (new_type ni nl na v t) \<longleftrightarrow> ni + nl < v"
  "v = 0 \<Longrightarrow> new_type ni nl na v t = t"
  "ty_onstack (new_type ni nl na v t) = ty_onstack t" "ty_mark (new_type ni nl na v t) = ty_mark t"
  by (auto simp: new_type_def clear_type_def)

lemma new_type_idx:
  "0 < v \<Longrightarrow> v \<le> ni \<Longrightarrow> ty_idx (new_type ni nl na v t) = v - 1"
  "ni < v \<Longrightarrow> v \<le> ni + nl \<Longrightarrow> ty_idx (new_type ni nl na v t) = v - Suc ni"
  "ni + nl < v \<Longrightarrow> v \<le> ni + nl + na \<Longrightarrow> ty_idx (new_type ni nl na v t) = v - Suc (ni + nl)"
  by (auto simp: new_type_def clear_type_def)

lemma new_types_ok:
  assumes n: "ni + nl + na < length ts" and us: "us = take (Suc (ni + nl + na)) (map (\<lambda>v. new_type ni nl na v (ts ! v)) [0..<length ts])"
    and z: "undefined_type (ts ! 0)"
  shows "kind_ok ty_input (seq_lits 0 ni) us" "kind_ok ty_latch (seq_lits ni nl) us"
    "kind_ok ty_and (seq_lits (ni + nl) na) us" "kinds_disjoint us"
proof -
  have len: "length us = Suc (ni + nl + na)" using n by (simp add: us)
  have at: "us ! v = new_type ni nl na v (ts ! v)" if "v < length us" for v
    using that n len by (simp add: us del: upt_Suc)
  have flags: "ty_input (us ! v) \<longleftrightarrow> 0 < v \<and> v \<le> ni" "ty_latch (us ! v) \<longleftrightarrow> ni < v \<and> v \<le> ni + nl"
    "ty_and (us ! v) \<longleftrightarrow> ni + nl < v \<and> v \<le> ni + nl + na" if "v < length us" for v
    using that z len new_type_simps [of v ni nl na "ts ! v"]
    by (cases "v = 0"; simp add: at undefined_type_def)+
  show "kind_ok ty_input (seq_lits 0 ni) us"
    by (rule kind_ok_seq) (use len flags at new_type_idx(1) [of _ ni nl na] in \<open>simp_all\<close>)
  show "kind_ok ty_latch (seq_lits ni nl) us"
    by (rule kind_ok_seq) (use len flags at new_type_idx(2) [of ni _ nl na] in \<open>simp_all\<close>)
  show "kind_ok ty_and (seq_lits (ni + nl) na) us"
    by (rule kind_ok_seq) (use len flags at new_type_idx(3) [of ni nl _ na] in \<open>simp_all\<close>)
  show "kinds_disjoint us" unfolding kinds_disjoint_def using flags by simp
qed

lemma map_option_list_enc:
  "\<forall>y \<in> set ys. sym_lit y div 2 \<le> m \<Longrightarrow>
     map_option_list (reencode_def_symbol (table m ord)) ys = Some (map (enc_symbol ord) ys)"
  by (induction ys) (simp_all add: reencode_def_symbol_def deref_table enc_symbol_def)

lemma reencode_types_correct:
  assumes R: "renaming ord p q" and ands: "ands r = ands q"
    and r: "inputs r = inputs p" "latches r = map (enc_latch ord) (latches p)" "maxvar r = length ord"
    and len: "length ord < length (types r)"
  shows "\<exists>xs. reencode_types (table (maxvar p) ord) r =
       Some (r\<lparr>inputs := map (enc_symbol ord) (inputs p),
               latches := map (\<lambda>y. enc_symbol ord (enc_latch ord y)) (latches p), types := xs\<rparr>) \<and>
     xs = map (\<lambda>v. new_type (length (inputs p)) (length (latches p)) (length (ands q)) v (types r ! v)) [0..<length (types r)]"
proof -
  note p = renamingD(1) [OF R] and ok = renamingD(2) [OF R]
  let ?ni = "length (inputs p)" and ?nl = "length (latches p)" and ?na = "length (ands q)"
  note n = renamed_len(3) [OF R] and l = renamed_lits [OF R] and e = enc_source [OF ok reencodableD(2) [OF p]]
  have "?ni + ?nl + ?na < length (types r)" using len n by simp
  from number_all [OF this] obtain us vs ws xs where t:
    "foldm (\<lambda>i. put_type i clear_type) [1..<Suc (length ord)] (types r) = Some us"
    "number_types (\<lambda>i t. t\<lparr>ty_and := True, ty_idx := i\<rparr>) 0 (map and_lhs (ands r)) us = Some vs"
    "number_types (\<lambda>i t. t\<lparr>ty_input := True, ty_idx := i\<rparr>) 0 (seq_lits 0 ?ni) vs = Some ws"
    "number_types (\<lambda>i t. t\<lparr>ty_latch := True, ty_idx := i\<rparr>) 0 (seq_lits ?ni ?nl) ws = Some xs"
    "length xs = length (types r)" "\<forall>v < length (types r). xs ! v = new_type ?ni ?nl ?na v (types r ! v)"
    unfolding n ands l(3) by blast
  have b: "\<forall>y \<in> set (inputs p). sym_lit y div 2 \<le> maxvar p" "\<forall>y \<in> set (latches p). sym_lit y div 2 \<le> maxvar p"
    using reencodableD(1) [OF p] by (auto simp: wf_aiger_def wf_lits_def lits_below_def)
  have i: "map_option_list (reencode_def_symbol (table (maxvar p) ord)) (inputs r) = Some (map (enc_symbol ord) (inputs p))"
    using map_option_list_enc [OF b(1)] r(1) by simp
  have la: "map_option_list (reencode_def_symbol (table (maxvar p) ord)) (latches r) =
      Some (map (\<lambda>y. enc_symbol ord (enc_latch ord y)) (latches p))"
    using map_option_list_enc [of "latches r" "maxvar p" ord] b(2) r(2) by (simp add: comp_def)
  have li: "map sym_lit (map (enc_symbol ord) (inputs p)) = seq_lits 0 ?ni" using e(1) by (simp add: comp_def)
  have ll: "map sym_lit (map (\<lambda>y. enc_symbol ord (enc_latch ord y)) (latches p)) = seq_lits ?ni ?nl"
    using e(2) by (simp add: comp_def)
  have "reencode_types (table (maxvar p) ord) r =
       Some (r\<lparr>inputs := map (enc_symbol ord) (inputs p),
               latches := map (\<lambda>y. enc_symbol ord (enc_latch ord y)) (latches p), types := xs\<rparr>)"
    unfolding reencode_types_def r(3) t(1,2) i la Option.bind.bind_lunit li ll t(3,4) ..
  moreover have "xs = map (\<lambda>v. new_type ?ni ?nl ?na v (types r ! v)) [0..<length (types r)]"
    using t(5,6) by (intro nth_equalityI) simp_all
  ultimately show ?thesis by blast
qed

section \<open>The final check\<close>

lemma trunc_simps [simp]:
  "maxvar (trunc p) = maxvar p" "inputs (trunc p) = inputs p" "latches (trunc p) = latches p"
  "outputs (trunc p) = outputs p" "bad (trunc p) = bad p" "constraints (trunc p) = constraints p"
  "justice (trunc p) = justice p" "fairness (trunc p) = fairness p" "ands (trunc p) = ands p"
  "comments (trunc p) = comments p" "num_comments (trunc p) = num_comments p"
  "error (trunc p) = error p" "types (trunc p) = take (Suc (maxvar p)) (types p)"
  by (simp_all add: trunc_def)

lemma trunc_add_types: "maxvar p < length (types p) \<Longrightarrow> add_types (drop (Suc (maxvar p)) (types p)) (trunc p) = p"
  by (simp add: add_types_def trunc_def)

lemma trunc_same:
  "renames ord p (trunc q) = renames ord p q" "all_defined (trunc q) = all_defined q"
  "deps (trunc q) = deps q" "lits_below m (trunc q) = lits_below m q"
  "reencoded_form (trunc q) = reencoded_form q" "all_symbols (trunc q) = all_symbols q"
  by (simp_all add: renames_def all_defined_def defined_var_def deps_def lits_below_def reencoded_form_def
      all_symbols_def)

text \<open>
  A structure that is well-formed up to \<open>maxvar\<close>, without cycles or undefined literals, passes
  the check, whatever the table holds above.
\<close>

lemma assert_check_trunc:
  assumes wf: "wf_aiger (trunc q)" and e: "error q = None" and m: "clean_marks (trunc q)"
    and d: "all_defined q" and ac: "acyclic (deps q)" and len: "maxvar q < length (types q)"
    and small: "maxvar q < 1073741824"
  shows "\<exists>r. assert_check q = Some r \<and> same_core (trunc q) (trunc r) \<and> error r = None \<and>
     clean_marks (trunc r) \<and> all_symbols r = all_symbols q \<and> maxvar r < length (types r)"
proof -
  let ?t = "trunc q" and ?us = "drop (Suc (maxvar q)) (types q)"
  have "small ?t"
    using wf len small by (simp add: small_def wf_aiger_def wf_lits_def min_def)
  note ext = extends_check [OF this, of ?us, unfolded extends_def trunc_add_types [OF len]]
  obtain t where t: "aiger_check ?t = Some t" "same_core ?t t" "error t = None" "clean_marks t"
    using aiger_check_spec [OF wf _ m] e d ac by (auto simp: trunc_same)
  have "length (types t) = Suc (maxvar q)" "maxvar t = maxvar q"
    using same_coreD(1,13) [OF t(2)] len by simp_all
  then have tr: "trunc (add_types ?us t) = t" by (simp add: trunc_def add_types_def)
  have "assert_check q = Some (add_types ?us t)"
    using ext t(1,3) by (simp add: assert_check_def)
  moreover have "all_symbols (add_types ?us t) = all_symbols q"
    using same_coreD(2-8) [OF t(2)] by (simp add: all_symbols_def)
  moreover have "maxvar (add_types ?us t) < length (types (add_types ?us t))"
    using \<open>length (types t) = Suc (maxvar q)\<close> \<open>maxvar t = maxvar q\<close> by simp
  ultimately show ?thesis
    using t tr by (intro exI [of _ "add_types ?us t"]) simp
qed

section \<open>The main result\<close>

lemma cleared_zero:
  assumes "wf_aiger p" "0 < maxvar p"
  shows "undefined_type (types p ! 0)"
proof -
  have wt: "wf_types p" using assms(1) by (simp add: wf_aiger_def)
  have "0 < length (types p)" using wf_length_types [OF assms(1), of 0] assms(2) by simp
  with wf_typesD(1-3) [OF wt] show ?thesis by (simp add: undefined_type_def kind_ok_zero)
qed

lemma reencode_correct:
  assumes p: "reencodable p" and m: "clean_marks p" and e: "error p = None" and nr: "\<not> reencoded_form p"
  shows "\<exists>q ord. aiger_reencode p = Some q \<and> order_ok p ord \<and> covers ord p \<and> renames ord p q \<and>
     reencoded_form q \<and> maxvar q = length (inputs q) + length (latches q) + length (ands q) \<and>
     wf_aiger (trunc q) \<and> clean_marks (trunc q) \<and> error q = None \<and> all_defined q \<and> acyclic (deps q) \<and>
     map sym_name (all_symbols q) = map sym_name (all_symbols p) \<and> comments q = comments p \<and>
     (\<forall>g \<in> set (ands q). and_rhs0 g < and_lhs g) \<and> maxvar q < length (types q) \<and> maxvar q \<le> maxvar p"
proof -
  note rp = reencodableD [OF p]
  obtain ord q1 where lits:
      "reencode_lits p = Some (enc_lits ord p q1, 2 * Suc (length ord), table (maxvar p) ord)"
    and codes: "codes_ok p (q1, 2 * Suc (length ord), table (maxvar p) ord) ord" and cov: "covers ord p"
    using reencode_lits_correct [OF p m] by blast
  note c = codes_okD [OF codes]
  note ok = c(5) and core = same_coreD [OF c(1)]
  obtain gs where gs: "qsort cmp_lhs (map (enc_and ord) (live_ands ord p)) = Some gs"
    "set gs = set (map (enc_and ord) (live_ands ord p))"
    "map and_lhs gs = seq_lits (length (source_vars p)) (length ord - length (source_vars p))"
    using sorted_gates [OF p ok] by blast
  define r where "r = (enc_lits ord p q1)\<lparr>ands := gs, maxvar := length ord\<rparr>"
  have rf: "inputs r = inputs p" "latches r = map (enc_latch ord) (latches p)" "maxvar r = length ord"
    "ands r = gs" "types r = types q1" "error r = None" "comments r = comments p" "num_comments r = num_comments p"
    using core c(2) e by (simp_all add: r_def enc_lits_def)
  have nm: "length ord \<le> maxvar p" by (rule order_ok_length [OF ok])
  have len: "length ord < length (types r)" using nm rp(7) core(13) rf(5) by simp
  define xs where "xs = map (\<lambda>v. new_type (length (inputs p)) (length (latches p)) (length gs) v (types r ! v)) [0..<length (types r)]"
  define q where "q = r\<lparr>inputs := map (enc_symbol ord) (inputs p),
      latches := map (\<lambda>y. enc_symbol ord (enc_latch ord y)) (latches p), types := xs\<rparr>"
  have ren: "renamed ord p q"
    using gs(2,3) rf by (simp add: renamed_def renames_def q_def) (simp add: r_def enc_lits_def)
  have R: "renaming ord p q" using p ok cov ren by (simp add: renaming_def)
  have qf: "ands q = gs" "maxvar q = length ord" "error q = None" "types q = xs" using rf by (simp_all add: q_def)
  have types: "reencode_types (table (maxvar p) ord) r = Some q"
    using reencode_types_correct [OF R _ rf(1-3) len] rf(4) qf(1) by (simp add: q_def xs_def)
  have n: "length (inputs p) + length (latches p) + length gs = length ord" using renamed_len(3) [OF R] qf(1) by simp
  have z: "undefined_type (types r ! 0)"
    using cleared_zero [OF rp(1,5)] same_core_type [OF c(1), of 0] rp(7) [of 0] rf(5) by (simp add: undefined_type_def)
  have "take (Suc (maxvar q)) xs = take (Suc (length (inputs p) + length (latches p) + length gs)) xs"
    by (simp only: n qf(2))
  note tk = new_types_ok [OF len [folded n] this [unfolded xs_def] z, folded xs_def]
  have wt: "wf_types (trunc q)"
    using tk renamed_lits [OF R] len by (simp add: wf_types_def qf xs_def)
  have lens: "length xs = length (types r)" by (simp add: xs_def)
  have "wf_lits (trunc q)"
    using renamed_below [OF R] nm rp(6) by (simp add: wf_lits_def trunc_same qf(2))
  moreover have "wf_resets (trunc q)" using renamed_resets [OF R] by (simp add: wf_resets_def)
  moreover have "wf_names (trunc q)" using renamed_names(2) [OF R] by (simp add: wf_names_def trunc_same)
  moreover have "wf_comments (trunc q)"
    using rp(1) ren by (simp add: wf_aiger_def wf_comments_def renamed_def)
  ultimately have wf: "wf_aiger (trunc q)" using wt by (simp add: wf_aiger_def)
  have def: "all_defined q" by (rule renamed_defined [OF R])
  have ac: "acyclic (deps q)" by (rule renamed_acyclic [OF R])
  have "grounded (trunc q) v" for v using ac acyclic_iff_grounded [of "trunc q"] by (simp add: trunc_same)
  moreover have "\<not> ty_onstack (xs ! v)" if "v < length xs" for v
    using that c(6) [of v] core(13) rf(5) by (simp add: xs_def new_type_simps)
  ultimately have cm: "clean_marks (trunc q)" by (simp add: clean_marks_def qf)
  have is0: "aiger_is_reencoded p = Some False"
    using is_reencoded_eq [of p] nr count_definitions [OF rp(1,5)] rp(6) by simp
  have is1: "aiger_is_reencoded q = Some True"
    using is_reencoded_eq [of q] renamed_form [OF R] renamed_len [OF R] qf n nm rp(6) by simp
  have dis: "assert_disjoint q = Some ()"
  proof -
    have "case deref (types q) i of None \<Rightarrow> False | Some t \<Rightarrow>
        \<not> (ty_input t \<and> ty_latch t) \<and> \<not> (ty_input t \<and> ty_and t) \<and> \<not> (ty_latch t \<and> ty_and t)"
      if "i \<le> length ord" for i
      using that wf_typesD(4) [OF wt] len lens by (auto simp: kinds_disjoint_def deref_def qf)
    then show ?thesis by (simp add: assert_disjoint_def list_all_iff qf(2) del: upt_Suc)
  qed
  obtain t where t: "assert_check q = Some t" "same_core (trunc q) (trunc t)" "error t = None"
    "clean_marks (trunc t)" "all_symbols t = all_symbols q" "maxvar t < length (types t)"
    using assert_check_trunc [OF wf qf(3) cm def ac] len lens nm rp(6) qf by auto
  have ands: "reencode_ands (table (maxvar p) ord) (ands (enc_lits ord p q1)) = Some (map (enc_and ord) (live_ands ord p))"
    using reencode_ands_eq [OF p ok] core(9) by (simp add: enc_lits_def)
  have "maxvar (enc_lits ord p q1) = maxvar p" using core(1) by (simp add: enc_lits_def)
  then have eq: "aiger_reencode p = Some t"
    using lits ands gs(1) nm types dis is0 is1 t(1) e
    by (simp add: aiger_reencode_def aiger_error_def Let_def r_def [symmetric])
  note tf = same_coreD [OF t(2), simplified]
  have ren_t: "renames ord p t"
    using ren same_coreD(2-9) [OF t(2)] tf(1) by (simp add: renamed_def renames_def)
  have form: "reencoded_form t" using renamed_form [OF R] tf by (simp add: reencoded_form_def)
  have wft: "wf_aiger (trunc t)" using wf same_core_wf [OF t(2)] by simp
  have dt: "all_defined t" using def tf by (simp add: all_defined_def defined_var_def)
  have act: "acyclic (deps t)" using ac same_core_deps [OF t(2)] by (simp add: trunc_same)
  have nt: "map sym_name (all_symbols t) = map sym_name (all_symbols p)"
    using t(5) renamed_names(1) [OF R] by simp
  have ct: "comments t = comments p" using tf(10) ren by (simp add: renamed_def)
  have gt: "\<forall>g \<in> set (ands t). and_rhs0 g < and_lhs g" using renamed_gate(1) [OF R] tf(9) by simp
  have mt: "maxvar t = length (inputs t) + length (latches t) + length (ands t)"
    using n renamed_len [OF R] tf qf by simp
  have "maxvar t \<le> maxvar p" using tf(1) qf(2) nm by simp
  with eq ok cov ren_t form mt wft t(3,4,6) dt act nt ct gt show ?thesis by blast
qed

lemma reencode_behaviours:
  assumes "reencodable p" "clean_marks p" "error p = None" "aiger_reencode p = Some q"
  shows "behaviours q = behaviours p"
proof (cases "reencoded_form p")
  case True
  note r = reencodableD [OF assms(1)]
  have "aiger_is_reencoded p = Some True"
    using is_reencoded_eq [of p] True count_definitions [OF r(1,5)] r(6) by simp
  with assms(3,4) show ?thesis by (simp add: aiger_reencode_def aiger_error_def)
next
  case False
  from reencode_correct [OF assms(1-3) False] assms(4) obtain ord
    where "order_ok p ord" "covers ord p" "renames ord p q" by auto
  then show ?thesis by (rule renames_behaviours [OF assms(1)])
qed

end
