(* ===== verification/AigerBinary.thy ===== *)
theory AigerBinary
  imports AigerReencodeResult
begin

text \<open>
  The binary writer and the entry points of the writers in \<open>aiger.c\<close>: \<open>aiger_write_binary\<close>,
  \<open>aiger_write_generic\<close>, \<open>aiger_write_to_file\<close>, \<open>aiger_write_to_string\<close> and
  \<open>aiger_open_and_write_to_file\<close>. The files a client opens are a parameter of the last one.
\<close>

section \<open>The operations\<close>

definition aiger_binary_mode :: nat where "aiger_binary_mode = 0"
definition aiger_ascii_mode :: nat where "aiger_ascii_mode = 1"
definition aiger_stripped_mode :: nat where "aiger_stripped_mode = 2"

fun write_deltas :: "'s putter \<Rightarrow> uint \<Rightarrow> aiger_and list \<Rightarrow> 's writer" where
  "write_deltas put lhs [] s = Some (True, s)"
| "write_deltas put lhs (g # gs) s = do {
     assert_c (lhs = and_lhs g);
     assert_c (lhs > and_rhs0 g);
     assert_c (and_rhs0 g \<ge> and_rhs1 g);
     seq [aiger_write_delta put (lhs - and_rhs0 g), aiger_write_delta put (and_rhs0 g - and_rhs1 g),
          write_deltas put (u32 (lhs + 2)) gs] s
   }"

definition aiger_write_binary ::
    "aiger_private \<Rightarrow> 's putter \<Rightarrow> 's \<Rightarrow> (bool \<times> aiger_private \<times> 's) option" where
  "aiger_write_binary p put s = do {
     p \<leftarrow> assert_check p;
     p \<leftarrow> aiger_reencode p;
     (ok, s) \<leftarrow> aiger_write_header p ''aig'' True put s;
     if \<not> ok then Some (False, p, s)
     else do {
       lhs \<leftarrow> aiger_max_input_or_latch p;
       with_state p (write_deltas put (u32 (lhs + 2)) (ands p) s)
     }
   }"

definition write_trailer :: "aiger_private \<Rightarrow> 's putter \<Rightarrow> 's writer" where
  "write_trailer p put s = do {
     comment0 \<leftarrow> deref (comments p) 0;
     seq ((if aiger_have_at_least_one_symbol p then [aiger_write_symbols p put] else []) @
          (if comment0 \<noteq> None then [put_s put ''c\<newline>'', aiger_write_comments p put] else [])) s
   }"

definition aiger_write_generic ::
    "aiger_private \<Rightarrow> nat \<Rightarrow> 's putter \<Rightarrow> 's \<Rightarrow> (bool \<times> aiger_private \<times> 's) option" where
  "aiger_write_generic p mode put s = do {
     assert_c (aiger_error p = None);
     (ok, p, s) \<leftarrow> (if mode AND aiger_ascii_mode \<noteq> 0 then aiger_write_ascii p put s
                     else aiger_write_binary p put s);
     if \<not> ok then Some (False, p, s)
     else if mode AND aiger_stripped_mode \<noteq> 0 then Some (True, p, s)
     else with_state p (write_trailer p put s)
   }"

definition aiger_write_to_file ::
    "aiger_private \<Rightarrow> nat \<Rightarrow> c_file \<Rightarrow> (bool \<times> aiger_private \<times> c_file) option" where
  "aiger_write_to_file p mode file = do {
     assert_c (aiger_error p = None);
     aiger_write_generic p mode aiger_default_put file
   }"

text \<open>The result, the structure, and the bytes written to the string of length \<open>len\<close>.\<close>

definition aiger_write_to_string ::
    "aiger_private \<Rightarrow> nat \<Rightarrow> nat \<Rightarrow> (bool \<times> aiger_private \<times> string) option" where
  "aiger_write_to_string p mode len = do {
     assert_c (aiger_error p = None);
     (res, p, b) \<leftarrow> aiger_write_generic p mode aiger_string_put \<lparr>buf_text = [], buf_len = len\<rparr>;
     if \<not> res then Some (False, p, buf_text b)
     else (let (r, b) = aiger_string_put CHR 0x00 b in Some (r \<noteq> c_EOF, p, buf_text b))
   }"

definition aiger_has_suffix :: "string \<Rightarrow> string \<Rightarrow> bool" where
  "aiger_has_suffix str suffix =
     (if length str < length suffix then False
      else drop (length str - length suffix) str = suffix)"

definition GZIP :: string where "GZIP = ''gzip -c > %s 2>/dev/null''"
definition GUNZIP :: string where "GUNZIP = ''gunzip -c %s 2>/dev/null''"

text \<open>
  The buffer for the command of \<open>popen\<close>: its size goes through the variable \<open>size_cmd\<close> of type
  (signed) \<open>char\<close>. A size that does not fit becomes negative, and a huge \<open>size_t\<close> in \<open>NEWN\<close>, for
  which there is no memory. \<open>sprintf\<close> must fit the buffer with its null byte.
\<close>

definition shell_command :: "string \<Rightarrow> string \<Rightarrow> string option" where
  "shell_command format file_name = do {
     let size_cmd = char_int (char_of (length file_name + length format));
     assert_c (0 \<le> size_cmd);
     let cmd = sprintf format [FmtS file_name];
     assert_c (int (length cmd) + 1 \<le> size_cmd);
     Some cmd
   }"

text \<open>
  \<open>open_w\<close> is the environment's \<open>popen\<close> or \<open>fopen\<close> in mode \<open>w\<close>. \<open>close\<close> is its \<open>pclose\<close> or
  \<open>fclose\<close>: what the file holds once the characters that the stream accepted are flushed, and
  compressed for a pipe. The function ignores the results of both, so \<open>close\<close> may also leave less
  than was written, or what \<open>gzip\<close> made before it failed. The results are those of the function: the
  return value, the structure, what the file holds when it was opened, and whether the file is
  unlinked.
\<close>

datatype target = Pipe string | File string

datatype stored = Plain string | Gzipped string

definition aiger_open_and_write_to_file ::
    "(target \<Rightarrow> c_file option) \<Rightarrow> (target \<Rightarrow> c_file \<Rightarrow> stored) \<Rightarrow> aiger_private \<Rightarrow> string \<Rightarrow>
       (bool \<times> aiger_private \<times> stored option \<times> bool) option" where
  "aiger_open_and_write_to_file open_w close p file_name = do {
     assert_c (aiger_error p = None);
     target \<leftarrow> (if aiger_has_suffix file_name ''.gz''
                 then map_option Pipe (shell_command GZIP file_name)
                 else Some (File file_name));
     case open_w target of
       None \<Rightarrow> Some (False, p, None, False)
     | Some file \<Rightarrow> do {
         let mode = (if aiger_has_suffix file_name ''.aag'' \<or> aiger_has_suffix file_name ''.aag.gz''
                     then aiger_ascii_mode else aiger_binary_mode);
         (res, p, file) \<leftarrow> aiger_write_to_file p mode file;
         Some (res, p, Some (close target file), \<not> res)
       }
   }"

section \<open>What they write\<close>

definition and_code :: "aiger_and \<Rightarrow> string" where
  "and_code g = delta_code (and_lhs g - and_rhs0 g) @ delta_code (and_rhs0 g - and_rhs1 g)"

definition binary_text :: "aiger_private \<Rightarrow> string" where
  "binary_text p = header_text ''aig'' True p @ concat (map and_code (ands p))"

definition trailer_text :: "aiger_private \<Rightarrow> string" where
  "trailer_text p =
     symbols_text p @ (if hd (comments p) \<noteq> None then ''c\<newline>'' @ comments_text (comments p) else [])"

definition mode_trailer :: "nat \<Rightarrow> aiger_private \<Rightarrow> string" where
  "mode_trailer mode p = (if mode AND aiger_stripped_mode \<noteq> 0 then [] else trailer_text p)"

text \<open>A structure that the writers accept: well-formed, without an error, and it passes the check.\<close>

definition checked :: "aiger_private \<Rightarrow> bool" where
  "checked p \<longleftrightarrow>
     wf_aiger p \<and> error p = None \<and> clean_marks p \<and> all_defined p \<and> acyclic (deps p)"

lemma symbols_text_none:
  assumes "\<not> aiger_have_at_least_one_symbol p"
  shows "symbols_text p = []"
proof -
  have "symbols_text_from ty i ys = []" if "\<not> aiger_have_at_least_one_symbol_aux ys" for ty i ys
    using that by (induction ys arbitrary: i) (auto simp: aiger_have_at_least_one_symbol_aux_def)
  with assms show ?thesis by (simp add: symbols_text_def aiger_have_at_least_one_symbol_def)
qed

lemma with_state_simp [simp]: "with_state p (Some (ok, s)) = Some (ok, p, s)"
  by (simp add: with_state_def)

lemma write_generic_tail:
  assumes head: "(if mode AND aiger_ascii_mode \<noteq> 0 then aiger_write_ascii p put s else aiger_write_binary p put s) =
       with_state q (emit put head s)"
    and e: "error p = None" and names: "wf_names q" and cs: "wf_comments q"
  shows "aiger_write_generic p mode put s = with_state q (emit put (head @ mode_trailer mode q) s)"
proof -
  from cs have c: "comments q \<noteq> []" "last (comments q) = None" "\<forall>c \<in> set (comments q). ok_name c"
    by (simp_all add: wf_comments_def)
  have c0: "deref (comments q) 0 = Some (hd (comments q))" using c(1) by (simp add: deref_def hd_conv_nth)
  let ?ws = "(if aiger_have_at_least_one_symbol q then [aiger_write_symbols q put] else []) @
         (if hd (comments q) \<noteq> None then [put_s put ''c\<newline>'', aiger_write_comments q put] else [])"
  have "seq (if aiger_have_at_least_one_symbol q then [aiger_write_symbols q put] else []) = emit put (symbols_text q)"
  proof (cases "aiger_have_at_least_one_symbol q")
    case True
    then show ?thesis by (simp only: if_True seq_emit_single [OF write_symbols_emit [OF names]])
  next
    case False
    then show ?thesis by (simp only: if_False symbols_text_none [OF False] seq_emit_Nil [of put])
  qed
  moreover have "seq (if hd (comments q) \<noteq> None then [put_s put ''c\<newline>'', aiger_write_comments q put] else []) =
      emit put (if hd (comments q) \<noteq> None then ''c\<newline>'' @ comments_text (comments q) else [])"
    unfolding aiger_write_comments_def
    by (intro seq_emit put_s_emit write_comments_emit c) simp
  ultimately have ws: "seq ?ws = emit put (trailer_text q)"
    unfolding trailer_text_def by (rule seq_emit_append)
  have tr: "write_trailer q put t = emit put (trailer_text q) t" for t
    unfolding write_trailer_def c0 Option.bind.bind_lunit ws ..
  obtain ok s' where r: "emit put head s = Some (ok, s')" using emit_total [of put head s] by auto
  show ?thesis
    unfolding aiger_write_generic_def head
    using e r tr by (simp add: aiger_error_def mode_trailer_def emit_append)
qed

lemma write_deltas_emit:
  assumes "map and_lhs gs = seq_lits a (length gs)" "a + length gs < 2147483647"
    and "\<forall>g \<in> set gs. and_rhs0 g < and_lhs g \<and> and_rhs1 g \<le> and_rhs0 g"
  shows "write_deltas put (2 * Suc a) gs = emit put (concat (map and_code gs))"
  using assms
proof (induction gs arbitrary: a)
  case (Cons g gs)
  from Cons.prems(1) have g: "and_lhs g = 2 * Suc a" "map and_lhs gs = seq_lits (Suc a) (length gs)"
    by (simp_all add: seq_lits_Suc)
  have n: "u32 (2 * Suc a + 2) = 2 * Suc (Suc a)" using Cons.prems(2) by simp
  have IH: "write_deltas put (2 * Suc (Suc a)) gs = emit put (concat (map and_code gs))"
    using Cons.IH [OF g(2)] Cons.prems by simp
  have b: "and_lhs g - and_rhs0 g < 4294967296" "and_rhs0 g - and_rhs1 g < 4294967296"
    using g(1) Cons.prems(2,3) by auto
  have "seq [aiger_write_delta put (and_lhs g - and_rhs0 g), aiger_write_delta put (and_rhs0 g - and_rhs1 g),
      write_deltas put (2 * Suc (Suc a)) gs] = emit put (delta_code (and_lhs g - and_rhs0 g) @
        delta_code (and_rhs0 g - and_rhs1 g) @ concat (map and_code gs))"
    by (intro seq_emit_single seq_emit_Cons write_delta_emit b IH)
  then show ?case
    using g(1) Cons.prems(3) n by (simp add: fun_eq_iff and_code_def [of g] del: seq.simps)
qed (simp add: fun_eq_iff)

lemma rhs_below_lhs:
  assumes "acyclic (deps p)" "wf_types p" "g \<in> set (ands p)" "and_rhs0 g \<le> and_lhs g"
  shows "and_rhs0 g < and_lhs g"
proof (rule ccontr)
  assume "\<not> and_rhs0 g < and_lhs g"
  with assms(4) have eq: "and_rhs0 g = and_lhs g" by simp
  have "and_lhs g div 2 \<noteq> 0" using gate_lhs(1,2) [OF assms(2,3)] by (auto elim!: evenE)
  with assms(3) eq have "(and_lhs g div 2, and_lhs g div 2) \<in> deps p"
    unfolding deps_def by (intro CollectI exI [of _ g] exI [of _ "and_rhs0 g"]) simp
  with assms(1) show False by (auto simp: acyclic_def)
qed

text \<open>
  The two writers on a checked structure: what they emit, for any callback, and the structure they
  leave behind.
\<close>

lemma write_generic_ascii:
  assumes "checked p" "mode AND aiger_ascii_mode \<noteq> 0"
  shows "\<exists>q. same_core p q \<and> error q = None \<and> clean_marks q \<and>
     (\<forall>s. aiger_write_generic p mode put s = with_state q (emit put (ascii_text p @ mode_trailer mode p) s))"
proof -
  from assms(1) have c: "wf_aiger p" "error p = None" "clean_marks p" "all_defined p" "acyclic (deps p)"
    by (simp_all add: checked_def)
  obtain q where q: "same_core p q" "error q = None" "clean_marks q"
    "\<And>s. aiger_write_ascii p put s = with_state q (emit put (ascii_text p) s)"
    using write_ascii_spec [OF c, of put] by blast
  have "wf_aiger q" using c(1) same_core_wf [OF q(1)] by simp
  then have w: "wf_names q" "wf_comments q" by (simp_all add: wf_aiger_def)
  have "mode_trailer mode q = mode_trailer mode p"
    using same_coreD [OF q(1)] by (simp add: mode_trailer_def trailer_text_def symbols_text_def)
  with write_generic_tail [OF _ c(2) w, of mode put] assms(2) q(4)
  have "aiger_write_generic p mode put s = with_state q (emit put (ascii_text p @ mode_trailer mode p) s)" for s
    by simp
  with q(1-3) show ?thesis by blast
qed

definition binary_ready :: "aiger_private \<Rightarrow> bool" where
  "binary_ready q \<longleftrightarrow>
     reencoded_form q \<and> wf_names q \<and> wf_comments q \<and>
     (\<forall>g \<in> set (ands q). and_rhs0 g < and_lhs g) \<and>
     length (inputs q) + length (latches q) + length (ands q) < 2147483647"

lemma write_binary_ready:
  assumes "assert_check p = Some p'" "aiger_reencode p' = Some q" "binary_ready q"
  shows "aiger_write_binary p put s = with_state q (emit put (binary_text q) s)"
proof -
  let ?k = "length (inputs q) + length (latches q)"
  from assms(3) have form: "reencoded_form q" and b: "?k + length (ands q) < 2147483647"
    and r: "\<forall>g \<in> set (ands q). and_rhs0 g < and_lhs g" by (simp_all add: binary_ready_def)
  have max: "aiger_max_input_or_latch q = Some (2 * ?k)"
    using max_even_seq [of 0 "length (inputs q)"] max_even_seq [of "length (inputs q)" "length (latches q)"] form
    by (simp add: aiger_max_input_or_latch_def reencoded_form_def)
  have k: "u32 (2 * ?k + 2) = 2 * Suc ?k" using b by simp
  have deltas: "write_deltas put (2 * Suc ?k) (ands q) = emit put (concat (map and_code (ands q)))"
    by (rule write_deltas_emit) (use form b r in \<open>auto simp: reencoded_form_def\<close>)
  obtain ok s' where e: "emit put (header_text ''aig'' True q) s = Some (ok, s')"
    using emit_total [of put "header_text ''aig'' True q" s] by auto
  show ?thesis
    using assms(1,2) max k deltas e
    by (simp add: aiger_write_binary_def write_header_emit binary_text_def emit_append del: mult_Suc_right)
qed

text \<open>What the binary writer turns the structure into.\<close>

definition same_sizes :: "aiger_private \<Rightarrow> aiger_private \<Rightarrow> bool" where
  "same_sizes p q \<longleftrightarrow>
     length (inputs q) = length (inputs p) \<and> length (latches q) = length (latches p) \<and>
     length (outputs q) = length (outputs p) \<and> length (bad q) = length (bad p) \<and>
     length (constraints q) = length (constraints p) \<and> length (fairness q) = length (fairness p) \<and>
     map (length \<circ> sym_lits) (justice q) = map (length \<circ> sym_lits) (justice p)"

definition public_ok :: "aiger_private \<Rightarrow> bool" where
  "public_ok q \<longleftrightarrow> wf_lits q \<and> wf_resets q \<and> definitions_ok q \<and> all_defined q"

lemma renames_sizes: "renames ord p q \<Longrightarrow> same_sizes p q"
  by (simp add: renames_def same_sizes_def)

lemma renames_shaped: "renames ord p q \<Longrightarrow> shaped p \<Longrightarrow> shaped q"
  by (simp add: renames_def shaped_def plain_symbol_def ball_Un enc_symbol_def enc_latch_def enc_justice_def)

lemma reencode_ready:
  assumes "checked p" "0 < maxvar p" "maxvar p < 1073741824"
  shows "\<exists>q. aiger_reencode p = Some q \<and> binary_ready q \<and> behaviours q = behaviours p \<and> error q = None \<and>
     map sym_name (all_symbols q) = map sym_name (all_symbols p) \<and> comments q = comments p \<and>
     (\<not> reencoded_form p \<longrightarrow> maxvar q = length (inputs q) + length (latches q) + length (ands q)) \<and>
     (reencoded_form p \<longrightarrow> same_core p q) \<and> public_ok q \<and> same_sizes p q \<and> (shaped p \<longrightarrow> shaped q)"
proof -
  from assms(1) have c: "wf_aiger p" "error p = None" "clean_marks p" "all_defined p" "acyclic (deps p)"
    by (simp_all add: checked_def)
  have r: "reencodable p" using c assms(2,3) by (simp add: reencodable_def)
  have n: "length (inputs p) + length (latches p) + length (ands p) < 2147483647"
    using count_definitions [OF c(1) assms(2)] assms(3) by simp
  show ?thesis
  proof (cases "reencoded_form p")
    case True
    have "aiger_reencode p = Some p"
      using is_reencoded_eq [OF n] True c(2) by (simp add: aiger_reencode_def aiger_error_def)
    moreover have "binary_ready p"
      using c(1,5) True n rhs_below_lhs [OF c(5)]
      by (auto simp: binary_ready_def wf_aiger_def reencoded_form_def)
    moreover have "public_ok p"
      using c(1,4) wf_definitions by (simp add: public_ok_def wf_aiger_def)
    ultimately show ?thesis using True c(2) by (auto simp: same_sizes_def)
  next
    case False
    obtain q ord where q: "aiger_reencode p = Some q" "order_ok p ord" "covers ord p" "renames ord p q"
      "reencoded_form q" "maxvar q = length (inputs q) + length (latches q) + length (ands q)"
      "wf_aiger (trunc q)" "error q = None" "all_defined q"
      "map sym_name (all_symbols q) = map sym_name (all_symbols p)" "comments q = comments p"
      "\<forall>g \<in> set (ands q). and_rhs0 g < and_lhs g" "maxvar q \<le> maxvar p"
      using reencode_correct [OF r c(3,2) False] by blast
    from q(7) have "wf_names q" "wf_comments q"
      by (simp_all add: wf_aiger_def wf_names_def wf_comments_def trunc_same)
    with q assms(3) have "binary_ready q" by (simp add: binary_ready_def)
    moreover have "public_ok q"
      using q(7,9) wf_definitions [of "trunc q"]
      by (simp add: public_ok_def wf_aiger_def wf_lits_def wf_resets_def trunc_same definitions_ok_def definitions_def)
    ultimately show ?thesis
      using q False renames_behaviours [OF r q(2-4)] renames_sizes [OF q(4)] renames_shaped [OF q(4)] by blast
  qed
qed

lemma write_generic_binary:
  assumes "checked p" "0 < maxvar p" "maxvar p < 1073741824" "mode AND aiger_ascii_mode = 0"
  shows "\<exists>q. behaviours q = behaviours p \<and> binary_ready q \<and> error q = None \<and>
     map sym_name (all_symbols q) = map sym_name (all_symbols p) \<and> comments q = comments p \<and>
     (\<not> reencoded_form p \<longrightarrow> maxvar q = length (inputs q) + length (latches q) + length (ands q)) \<and>
     (reencoded_form p \<longrightarrow> same_core p q) \<and> public_ok q \<and> same_sizes p q \<and> (shaped p \<longrightarrow> shaped q) \<and>
     (\<forall>s. aiger_write_generic p mode put s =
        with_state q (emit put (binary_text q @ mode_trailer mode q) s))"
proof -
  from assms(1) have c: "wf_aiger p" "error p = None" "clean_marks p" "all_defined p" "acyclic (deps p)"
    by (simp_all add: checked_def)
  obtain p' where p': "assert_check p = Some p'" "same_core p p'" "error p' = None" "clean_marks p'"
    using assert_check_spec [OF c] by blast
  note core = same_coreD [OF p'(2)]
  have "checked p'"
    using c p' same_core_wf [OF p'(2)] same_core_deps [OF p'(2)] core
    by (simp add: checked_def all_defined_def defined_var_def)
  moreover have "reencoded_form p' = reencoded_form p" "behaviours p' = behaviours p"
    "all_symbols p' = all_symbols p" "same_sizes p' = same_sizes p" "shaped p' = shaped p"
    using core by (simp_all add: reencoded_form_def behaviours_def run_def models_def observe_def all_symbols_def
        same_sizes_def [abs_def] shaped_def)
  ultimately obtain q where q: "aiger_reencode p' = Some q" "binary_ready q" "behaviours q = behaviours p"
    "error q = None" "map sym_name (all_symbols q) = map sym_name (all_symbols p)" "comments q = comments p"
    "\<not> reencoded_form p \<longrightarrow> maxvar q = length (inputs q) + length (latches q) + length (ands q)"
    "reencoded_form p \<longrightarrow> same_core p' q" "public_ok q" "same_sizes p q" "shaped p \<longrightarrow> shaped q"
    using reencode_ready [of p'] assms(2,3) core(1,10) by auto
  have "reencoded_form p \<longrightarrow> same_core p q" using q(8) p'(2) same_core_trans by blast
  have w: "wf_names q" "wf_comments q" using q(2) by (simp_all add: binary_ready_def)
  have "aiger_write_generic p mode put s = with_state q (emit put (binary_text q @ mode_trailer mode q) s)" for s
    by (rule write_generic_tail [OF _ c(2) w]) (simp add: assms(4) write_binary_ready [OF p'(1) q(1,2)])
  with q \<open>reencoded_form p \<longrightarrow> same_core p q\<close> show ?thesis by blast
qed

end
