(* ===== verification/AigerRead.thy ===== *)
theory AigerRead
  imports AigerBinary
begin

text \<open>
  The readers of \<open>aiger.c\<close>: \<open>aiger_next_ch\<close>, numbers and literals, the header, the ASCII and the
  binary gates, symbols and comments, \<open>aiger_read_generic\<close> and its entry points.

  The client's callback \<open>get\<close> is modelled by the characters it delivers before \<open>EOF\<close>
  (\<open>rd_rest\<close>); \<open>EOF\<close> is the missing character. A reader operation aborts (a failed assertion or
  undefined behaviour), fails with the structure that holds the error, or goes on.
\<close>

section \<open>The reader\<close>

text \<open>The numbers of the header (fields \<open>mode\<close> to \<open>fairness\<close> of \<open>struct aiger_reader\<close>).\<close>

record header =
  hd_binary :: bool
  hd_maxvar :: uint
  hd_inputs :: uint
  hd_latches :: uint
  hd_outputs :: uint
  hd_ands :: uint
  hd_bad :: uint
  hd_constraints :: uint
  hd_justice :: uint
  hd_fairness :: uint

record aiger_reader =
  rd_rest :: string
  rd_ch :: "char option"
  rd_lineno :: uint
  rd_charno :: uint
  rd_token_line :: uint
  rd_done_header :: bool
  rd_looks_aag :: bool
  rd_header :: header
  rd_buffer :: string

definition header0 :: header where
  "header0 = \<lparr>hd_binary = True, hd_maxvar = 0, hd_inputs = 0, hd_latches = 0, hd_outputs = 0,
     hd_ands = 0, hd_bad = 0, hd_constraints = 0, hd_justice = 0, hd_fairness = 0\<rparr>"

definition new_reader :: "string \<Rightarrow> aiger_reader" where
  "new_reader input = \<lparr>rd_rest = input, rd_ch = Some CHR '' '', rd_lineno = 1, rd_charno = 0,
     rd_token_line = 0, rd_done_header = False, rd_looks_aag = False, rd_header = header0,
     rd_buffer = []\<rparr>"

definition aiger_default_get :: "string \<Rightarrow> char option \<times> string" where
  "aiger_default_get file = (case file of [] \<Rightarrow> (None, []) | c # cs \<Rightarrow> (Some c, cs))"

definition space_ch :: "char option \<Rightarrow> bool" where
  "space_ch c = (case c of None \<Rightarrow> False | Some c \<Rightarrow> isspace c)"

definition digit_ch :: "char option \<Rightarrow> bool" where
  "digit_ch c = (case c of None \<Rightarrow> False | Some c \<Rightarrow> isdigit c)"

definition aiger_next_ch :: "aiger_reader \<Rightarrow> aiger_reader" where
  "aiger_next_ch r =
     (let (res, rest) = aiger_default_get (rd_rest r);
          r = r\<lparr>rd_rest := rest\<rparr>;
          r = (if space_ch (rd_ch r) \<and> \<not> space_ch res then r\<lparr>rd_token_line := rd_lineno r\<rparr> else r);
          r = r\<lparr>rd_ch := res\<rparr>;
          r = (if rd_done_header r \<and> rd_looks_aag r \<and> \<not> space_ch res \<and> \<not> digit_ch res \<and> res \<noteq> None
               then r\<lparr>rd_looks_aag := False\<rparr> else r);
          r = (if res = Some CHR ''\<newline>'' then r\<lparr>rd_lineno := u32 (rd_lineno r + 1)\<rparr> else r)
      in if res \<noteq> None then r\<lparr>rd_charno := u32 (rd_charno r + 1)\<rparr> else r)"

lemma next_ch_simps [simp]:
  "rd_rest (aiger_next_ch r) = tl (rd_rest r)"
  "rd_ch (aiger_next_ch r) = (case rd_rest r of [] \<Rightarrow> None | c # cs \<Rightarrow> Some c)"
  "rd_header (aiger_next_ch r) = rd_header r" "rd_buffer (aiger_next_ch r) = rd_buffer r"
  "rd_done_header (aiger_next_ch r) = rd_done_header r"
  by (cases "rd_rest r"; simp add: aiger_next_ch_def aiger_default_get_def Let_def)+

section \<open>Outcomes\<close>

datatype 'a outcome = Abort | Fail aiger_private | Ok 'a aiger_private aiger_reader

type_synonym 'a rd = "aiger_private \<Rightarrow> aiger_reader \<Rightarrow> 'a outcome"

definition returnR :: "'a \<Rightarrow> 'a rd" where
  "returnR x p r = Ok x p r"

definition bindR :: "'a rd \<Rightarrow> ('a \<Rightarrow> 'b rd) \<Rightarrow> 'b rd" where
  "bindR m f p r = (case m p r of Abort \<Rightarrow> Abort | Fail q \<Rightarrow> Fail q | Ok x q s \<Rightarrow> f x q s)"

text \<open>\<open>return aiger_error_\<dots> (private, \<dots>)\<close>\<close>

definition raiseR :: "(aiger_private \<Rightarrow> aiger_reader \<Rightarrow> aiger_private option) \<Rightarrow> 'a rd" where
  "raiseR err p r = (case err p r of None \<Rightarrow> Abort | Some q \<Rightarrow> Fail q)"

lemma raise_Ok [simp]: "raiseR err p r \<noteq> Ok x q s"
  by (simp add: raiseR_def split: option.split)

text \<open>A call of the construction API, an assertion, and a call of \<open>aiger_next_ch\<close>.\<close>

definition apiR :: "(aiger_private \<Rightarrow> aiger_private option) \<Rightarrow> unit rd" where
  "apiR f p r = (case f p of None \<Rightarrow> Abort | Some q \<Rightarrow> Ok () q r)"

definition readerR :: "(aiger_reader \<Rightarrow> aiger_reader) \<Rightarrow> unit rd" where
  "readerR f p r = Ok () p (f r)"

fun loopR :: "('a \<Rightarrow> unit rd) \<Rightarrow> 'a list \<Rightarrow> unit rd" where
  "loopR f [] = returnR ()"
| "loopR f (x # xs) = bindR (f x) (\<lambda>_. loopR f xs)"

fun collectR :: "'a rd \<Rightarrow> nat \<Rightarrow> 'a list rd" where
  "collectR m 0 = returnR []"
| "collectR m (Suc n) = bindR m (\<lambda>x. bindR (collectR m n) (\<lambda>xs. returnR (x # xs)))"

section \<open>Numbers and literals\<close>

function read_digits :: "uint \<Rightarrow> aiger_reader \<Rightarrow> uint \<times> aiger_reader" where
  "read_digits res r =
     (let r = aiger_next_ch r in
      if digit_ch (rd_ch r) then read_digits (u32 (10 * res + digit_val (the (rd_ch r)))) r
      else (res, r))"
  by pat_completeness auto
termination
  by (relation "measure (\<lambda>(res, r). length (rd_rest r))")
    (auto simp: digit_ch_def split: list.splits)

declare read_digits.simps [simp del]

definition aiger_read_number :: "uint rd" where
  "aiger_read_number p r =
     (if \<not> digit_ch (rd_ch r) then Abort
      else (let (res, r) = read_digits (digit_val (the (rd_ch r))) r in Ok res p r))"

text \<open>
  \<open>expected\<close> is \<open>expected_followed_by\<close>, with the missing character for 0. The result is the number
  and the white space after it.
\<close>

definition aiger_read_literal :: "string \<Rightarrow> char option \<Rightarrow> (uint \<times> char) rd" where
  "aiger_read_literal cont expected p r =
     (if \<not> (expected = Some CHR '' '' \<or> expected = Some CHR ''\<newline>'' \<or> expected = None) then Abort
      else if \<not> digit_ch (rd_ch r) then
        raiseR (\<lambda>p r. aiger_error_us p ''line %u: expected %s'' (rd_lineno r) cont) p r
      else
        bindR aiger_read_number (\<lambda>res p r.
          if expected = Some CHR '' '' \<and> rd_ch r \<noteq> Some CHR '' '' then
            raiseR (\<lambda>p r. aiger_error_usu p ''line %u: expected space after %s %u''
              (rd_token_line r) cont res) p r
          else if expected = Some CHR ''\<newline>'' \<and> rd_ch r \<noteq> Some CHR ''\<newline>'' then
            raiseR (\<lambda>p r. aiger_error_usu p ''line %u: expected new line after %s %u''
              (rd_token_line r) cont res) p r
          else if expected = None \<and> rd_ch r \<noteq> Some CHR ''\<newline>'' \<and> rd_ch r \<noteq> Some CHR '' '' then
            raiseR (\<lambda>p r. aiger_error_usu p ''line %u: expected space or new line after %s %u''
              (rd_token_line r) cont res) p r
          else Ok (res, the (rd_ch r)) p (aiger_next_ch r)) p r)"

definition aiger_already_defined :: "uint \<Rightarrow> unit rd" where
  "aiger_already_defined lit p r =
     (if lit = 0 \<or> aiger_sign lit \<noteq> 0 then Abort
      else
        let var = aiger_lit2var lit in
        if maxvar p < var then Ok () p r
        else case deref (types p) var of
          None \<Rightarrow> Abort
        | Some t \<Rightarrow>
            if ty_input t then
              raiseR (\<lambda>p r. aiger_error_uu p ''line %u: literal %u already defined as input''
                (rd_token_line r) lit) p r
            else if ty_latch t then
              raiseR (\<lambda>p r. aiger_error_uu p ''line %u: literal %u already defined as latch''
                (rd_token_line r) lit) p r
            else if ty_and t then
              raiseR (\<lambda>p r. aiger_error_uu p ''line %u: literal %u already defined as AND''
                (rd_token_line r) lit) p r
            else Ok () p r)"

section \<open>The header\<close>

text \<open>\<open>if (condition) return aiger_error_uu (\<dots>)\<close>\<close>

definition rejectR :: "(aiger_private \<Rightarrow> bool) \<Rightarrow> string \<Rightarrow> uint \<Rightarrow> unit rd" where
  "rejectR b fmt lit p r =
     (if b p then raiseR (\<lambda>p r. aiger_error_uu p fmt (rd_token_line r) lit) p r else Ok () p r)"

definition expect_ch :: "char list \<Rightarrow> string \<Rightarrow> unit rd" where
  "expect_ch cs fmt p r =
     (let r = aiger_next_ch r in
      if rd_ch r \<in> Some ` set cs then Ok () p r
      else raiseR (\<lambda>p r. aiger_error_u p fmt (rd_lineno r)) p r)"

text \<open>The result is whether the format is the binary one.\<close>

definition read_magic :: "bool rd" where
  "read_magic =
     bindR (expect_ch ''a'' (''line %u: expected '' @ [CHR 0x27] @ ''a'' @ [CHR 0x27] @
       '' as first character'')) (\<lambda>_.
     bindR (expect_ch ''ia'' (''line %u: expected '' @ [CHR 0x27] @ ''i'' @ [CHR 0x27] @ '' or '' @
       [CHR 0x27] @ ''a'' @ [CHR 0x27] @ '' after '' @ [CHR 0x27] @ ''a'' @ [CHR 0x27])) (\<lambda>_ p r.
     let binary = (rd_ch r \<noteq> Some CHR ''a'') in
     bindR (expect_ch ''g'' (''line %u: expected '' @ [CHR 0x27] @ ''g'' @ [CHR 0x27] @ '' after '' @
       [CHR 0x27] @ ''a[ai]'' @ [CHR 0x27])) (\<lambda>_.
     bindR (expect_ch '' '' (''line %u: expected '' @ [CHR 0x27] @ '' '' @ [CHR 0x27] @ '' after '' @
       [CHR 0x27] @ ''a[ai]g'' @ [CHR 0x27])) (\<lambda>_.
     bindR (readerR aiger_next_ch) (\<lambda>_. returnR binary))) p r))"

text \<open>A number of the header that is only there if the last one was followed by a space.\<close>

definition read_optional :: "char \<Rightarrow> string \<Rightarrow> char option \<Rightarrow> (uint \<times> char) rd" where
  "read_optional ch cont expected =
     (if ch = CHR '' '' then aiger_read_literal cont expected else returnR (0, ch))"

definition read_counts :: "bool \<Rightarrow> header rd" where
  "read_counts binary =
     bindR (aiger_read_literal ''maximum variable index'' (Some CHR '' '')) (\<lambda>(m, _).
     bindR (aiger_read_literal ''number of inputs'' (Some CHR '' '')) (\<lambda>(i, _).
     bindR (aiger_read_literal ''number latches'' (Some CHR '' '')) (\<lambda>(l, _).
     bindR (aiger_read_literal ''number of outputs'' (Some CHR '' '')) (\<lambda>(out, _).
     bindR (aiger_read_literal ''number of and gates'' None) (\<lambda>(a, ch).
     bindR (read_optional ch ''number of bad state constraints'' None) (\<lambda>(b, ch).
     bindR (read_optional ch ''number of invariant constraints'' None) (\<lambda>(c, ch).
     bindR (read_optional ch ''number of justice constraints'' None) (\<lambda>(j, ch).
     bindR (read_optional ch ''number of fairness constraints'' (Some CHR ''\<newline>'')) (\<lambda>(f, ch).
     returnR \<lparr>hd_binary = binary, hd_maxvar = m, hd_inputs = i, hd_latches = l, hd_outputs = out,
       hd_ands = a, hd_bad = b, hd_constraints = c, hd_justice = j, hd_fairness = f\<rparr>)))))))))"

text \<open>\<open>FIT (private->types, private->size_types, public->maxvar + 1)\<close>\<close>

definition fit_types :: "uint \<Rightarrow> aiger_type list \<Rightarrow> aiger_type list" where
  "fit_types n ts = (if length ts < n then ts @ replicate (n - length ts) type0 else ts)"

definition set_header :: "header \<Rightarrow> unit rd" where
  "set_header h p r =
     (if hd_binary h \<and> u32 (u32 (hd_inputs h + hd_latches h) + hd_ands h) \<noteq> hd_maxvar h then
        raiseR (\<lambda>p r. aiger_error_u p ''line %u: invalid maximal variable index'' (rd_lineno r)) p r
      else Ok () (p\<lparr>maxvar := hd_maxvar h, types := fit_types (u32 (hd_maxvar h + 1)) (types p)\<rparr>)
             (r\<lparr>rd_header := h\<rparr>))"

definition bad_definition :: "uint \<Rightarrow> aiger_private \<Rightarrow> bool" where
  "bad_definition lit p \<longleftrightarrow> lit = 0 \<or> aiger_sign lit \<noteq> 0 \<or> aiger_lit2var lit > maxvar p"

definition bad_literal :: "uint \<Rightarrow> aiger_private \<Rightarrow> bool" where
  "bad_literal lit p \<longleftrightarrow> aiger_lit2var lit > maxvar p"

definition read_definition :: "string \<Rightarrow> char \<Rightarrow> string \<Rightarrow> uint rd" where
  "read_definition cont sep fmt =
     bindR (aiger_read_literal cont (Some sep)) (\<lambda>(lit, _).
     bindR (rejectR (bad_definition lit) fmt lit) (\<lambda>_.
     bindR (aiger_already_defined lit) (\<lambda>_.
     returnR lit)))"

definition read_input :: "header \<Rightarrow> nat \<Rightarrow> unit rd" where
  "read_input h i =
     bindR (if \<not> hd_binary h then read_definition ''input literal'' CHR ''\<newline>'' ''line %u: literal %u is not a valid input''
            else returnR (u32 (2 * (i + 1)))) (\<lambda>lit.
     apiR (\<lambda>p. aiger_add_input p lit None))"

definition read_latch :: "header \<Rightarrow> nat \<Rightarrow> unit rd" where
  "read_latch h i =
     bindR (if \<not> hd_binary h then read_definition ''latch literal'' CHR '' '' ''line %u: literal %u is not a valid latch''
            else returnR (u32 (2 * (i + hd_inputs h + 1)))) (\<lambda>lit.
     bindR (aiger_read_literal ''next state literal'' None) (\<lambda>(next, ch).
     bindR (rejectR (bad_literal next) ''line %u: literal %u is not a valid literal'' next) (\<lambda>_.
     bindR (apiR (\<lambda>p. aiger_add_latch p lit next None)) (\<lambda>_.
     if ch = CHR '' '' then
       bindR (aiger_read_literal ''reset literal'' (Some CHR ''\<newline>'')) (\<lambda>(reset, _).
       apiR (\<lambda>p. aiger_add_reset p lit reset))
     else returnR ()))))"

definition read_plain ::
    "string \<Rightarrow> string \<Rightarrow> (aiger_private \<Rightarrow> uint \<Rightarrow> string option \<Rightarrow> aiger_private) \<Rightarrow> nat \<Rightarrow> unit rd" where
  "read_plain cont fmt add i =
     bindR (aiger_read_literal cont (Some CHR ''\<newline>'')) (\<lambda>(lit, _).
     bindR (rejectR (bad_literal lit) fmt lit) (\<lambda>_.
     apiR (\<lambda>p. Some (add p lit None))))"

definition read_justice_lits :: "uint \<Rightarrow> unit rd" where
  "read_justice_lits n =
     bindR (collectR (aiger_read_literal ''justice constraint literal'' (Some CHR ''\<newline>'')) n) (\<lambda>lits.
     apiR (\<lambda>p. Some (aiger_add_justice p (map fst lits) None)))"

definition read_justice :: "header \<Rightarrow> unit rd" where
  "read_justice h =
     (if hd_justice h = 0 then returnR ()
      else
        bindR (collectR (aiger_read_literal ''justice constraint size'' (Some CHR ''\<newline>'')) (hd_justice h)) (\<lambda>sizes.
        loopR read_justice_lits (map fst sizes)))"

definition read_lists :: "header \<Rightarrow> unit rd" where
  "read_lists h =
     bindR (loopR (read_input h) [0..<hd_inputs h]) (\<lambda>_.
     bindR (loopR (read_latch h) [0..<hd_latches h]) (\<lambda>_.
     bindR (loopR (read_plain ''output literal'' ''line %u: literal %u is not a valid output'' aiger_add_output)
       [0..<hd_outputs h]) (\<lambda>_.
     bindR (loopR (read_plain ''bad state constraint literal'' ''line %u: literal %u is not valid bad'' aiger_add_bad)
       [0..<hd_bad h]) (\<lambda>_.
     bindR (loopR (read_plain ''invariant constraint literal'' ''line %u: literal %u is not a valid constraint''
       aiger_add_constraint) [0..<hd_constraints h]) (\<lambda>_.
     bindR (read_justice h) (\<lambda>_.
     loopR (read_plain ''fairness constraint literal'' ''line %u: literal %u is not valid fairness''
       aiger_add_fairness) [0..<hd_fairness h]))))))"

definition aiger_read_header :: "header rd" where
  "aiger_read_header =
     bindR read_magic (\<lambda>binary.
     bindR (read_counts binary) (\<lambda>h.
     bindR (set_header h) (\<lambda>_.
     bindR (read_lists h) (\<lambda>_.
     bindR (readerR (\<lambda>r. r\<lparr>rd_done_header := True, rd_looks_aag := True\<rparr>)) (\<lambda>_.
     returnR h)))))"

section \<open>The gates\<close>

definition read_and :: "nat \<Rightarrow> unit rd" where
  "read_and i =
     bindR (read_definition ''and gate left-hand side literal'' CHR '' ''
       ''line %u: literal %u is not a valid LHS of AND'') (\<lambda>lhs.
     bindR (aiger_read_literal ''and gate first right-hand side literal'' (Some CHR '' '')) (\<lambda>(rhs0, _).
     bindR (rejectR (bad_literal rhs0) ''line %u: literal %u is not a valid literal'' rhs0) (\<lambda>_.
     bindR (aiger_read_literal ''and gate first right-hand side literal'' (Some CHR ''\<newline>'')) (\<lambda>(rhs1, _).
     bindR (rejectR (bad_literal rhs1) ''line %u: literal %u is not a valid literal'' rhs1) (\<lambda>_.
     apiR (\<lambda>p. aiger_add_and p lhs rhs0 rhs1))))))"

definition aiger_read_ascii :: "header \<Rightarrow> unit rd" where
  "aiger_read_ascii h = loopR read_and [0..<hd_ands h]"

text \<open>
  The loop of \<open>aiger_read_delta\<close>. A shift by 32 or more is undefined behaviour, and aborts. The
  shifted value has type \<open>int\<close>: for the fifth byte, where the shift by 28 can leave the range of
  \<open>int\<close>, the model takes the bits that compilers produce, the value modulo \<open>2 ^ 32\<close>.
\<close>

definition unexpected_eof :: "'a rd" where
  "unexpected_eof =
     raiseR (\<lambda>p r. aiger_error_u p ''character %u: unexpected end of file'' (rd_charno r))"

function delta_loop :: "uint \<Rightarrow> nat \<Rightarrow> uint \<Rightarrow> uint rd" where
  "delta_loop charno i res p r =
     (case rd_ch r of
        None \<Rightarrow> unexpected_eof p r
      | Some c \<Rightarrow>
          let ch = (of_char c :: nat) in
          if ch AND 128 \<noteq> 0 then
            if i \<ge> 5 then raiseR (\<lambda>p r. aiger_error_u p ''character %u: invalid code'' charno) p r
            else delta_loop charno (Suc i) (res OR u32 (push_bit (7 * i) (ch AND 127))) p (aiger_next_ch r)
          else if i = 5 \<and> ch \<ge> 8 then
            raiseR (\<lambda>p r. aiger_error_u p ''character %u: invalid code'' charno) p r
          else if 7 * i \<ge> 32 then Abort
          else Ok (res OR u32 (push_bit (7 * i) ch)) p (aiger_next_ch r))"
  by pat_completeness auto
termination by (relation "measure (\<lambda>(charno, i, res, p, r). 5 - i)") auto

declare delta_loop.simps [simp del]

definition aiger_read_delta :: "uint rd" where
  "aiger_read_delta p r = delta_loop (rd_charno r) 0 0 p r"

definition invalid_delta :: "uint \<Rightarrow> bool \<Rightarrow> unit rd" where
  "invalid_delta charno b p r =
     (if b then raiseR (\<lambda>p r. aiger_error_u p ''character %u: invalid delta'' charno) p r else Ok () p r)"

definition read_binary_and :: "uint \<Rightarrow> unit rd" where
  "read_binary_and lhs p r =
     (let charno = rd_charno r in
      bindR aiger_read_delta (\<lambda>delta.
      bindR (invalid_delta charno (delta > lhs)) (\<lambda>_ p r.
      let rhs0 = lhs - delta; charno = rd_charno r in
      bindR aiger_read_delta (\<lambda>delta.
      bindR (invalid_delta charno (delta > rhs0)) (\<lambda>_.
      let rhs1 = rhs0 - delta in
      apiR (\<lambda>p. aiger_add_and p lhs rhs0 rhs1))) p r)) p r)"

definition aiger_read_binary :: "header \<Rightarrow> unit rd" where
  "aiger_read_binary h p r =
     (case aiger_max_input_or_latch p of
        None \<Rightarrow> Abort
      | Some lhs \<Rightarrow> loopR (\<lambda>i. read_binary_and (u32 (lhs + 2 * Suc i))) [0..<hd_ands h] p r)"

section \<open>Symbols and comments\<close>

definition aiger_reader_push_ch :: "char \<Rightarrow> aiger_reader \<Rightarrow> aiger_reader" where
  "aiger_reader_push_ch ch r = r\<lparr>rd_buffer := rd_buffer r @ [ch]\<rparr>"

function comment_line :: "unit rd" where
  "comment_line p r =
     (case rd_ch r of
        None \<Rightarrow> raiseR (\<lambda>p r. aiger_error_u p ''line %u: new line after comment missing'' (rd_lineno r)) p r
      | Some c \<Rightarrow>
          if c = CHR ''\<newline>'' then Ok () p r
          else comment_line p (aiger_next_ch (aiger_reader_push_ch c r)))"
  by pat_completeness auto
termination
  by (relation "measure (\<lambda>(p, r). length (rd_rest r) + (if rd_ch r = None then 0 else 1))")
    (auto simp: aiger_reader_push_ch_def split: list.splits)

declare comment_line.simps [simp del]

text \<open>\<open>reader->top_buffer = 0\<close> after the contents were used as a C string.\<close>

definition clear_buffer :: "aiger_reader \<Rightarrow> aiger_reader" where
  "clear_buffer r = r\<lparr>rd_buffer := []\<rparr>"

lemma comment_line_ok:
  "comment_line p r = Ok x q s \<Longrightarrow> q = p \<and> rd_ch s = Some CHR ''\<newline>'' \<and> length (rd_rest s) \<le> length (rd_rest r)"
  by (induction p r rule: comment_line.induct)
    (subst (asm) (2) comment_line.simps,
      auto simp: raiseR_def aiger_reader_push_ch_def split: option.splits if_splits)

function read_comment_lines :: "unit rd" where
  "read_comment_lines p r =
     (if rd_ch r = None then Ok () p r
      else case comment_line p r of
        Abort \<Rightarrow> Abort
      | Fail q \<Rightarrow> Fail q
      | Ok _ q s \<Rightarrow>
          let s = aiger_reader_push_ch CHR 0x00 (aiger_next_ch s) in
          case aiger_add_comment q (c_string (rd_buffer s)) of
            None \<Rightarrow> Abort
          | Some q \<Rightarrow> read_comment_lines q (clear_buffer s))"
  by pat_completeness auto
termination
proof (relation "measure (\<lambda>(p, r). length (rd_rest r) + (if rd_ch r = None then 0 else 1))")
  fix p r u q s s' t
  assume "rd_ch r \<noteq> None" "comment_line p r = Ok u q s"
    "s' = aiger_reader_push_ch CHR 0x00 (aiger_next_ch s)"
  with comment_line_ok [of p r u q s]
  show "((t, clear_buffer s'), p, r) \<in> measure (\<lambda>(p, r). length (rd_rest r) + (if rd_ch r = None then 0 else 1))"
    by (cases "rd_rest s") (auto simp: clear_buffer_def aiger_reader_push_ch_def)
qed simp

declare read_comment_lines.simps [simp del]

definition aiger_read_comments :: "unit rd" where
  "aiger_read_comments p r =
     (if rd_ch r \<noteq> Some CHR ''\<newline>'' then Abort else read_comment_lines p (aiger_next_ch r))"

text \<open>The arrays that have symbols: the type's name, its symbols, and a new name at a position.\<close>

definition symbol_array :: "char \<Rightarrow> aiger_private \<Rightarrow> string \<times> aiger_symbol list" where
  "symbol_array c p =
     (if c = CHR ''i'' then (''input'', inputs p)
      else if c = CHR ''l'' then (''latch'', latches p)
      else if c = CHR ''o'' then (''output'', outputs p)
      else if c = CHR ''b'' then (''bad'', bad p)
      else if c = CHR ''c'' then (''constraint'', constraints p)
      else if c = CHR ''j'' then (''justice'', justice p)
      else (''fairness'', fairness p))"

definition rename_at :: "nat \<Rightarrow> string option \<Rightarrow> aiger_symbol list \<Rightarrow> aiger_symbol list" where
  "rename_at i n ys = ys[i := (ys ! i)\<lparr>sym_name := n\<rparr>]"

definition set_symbol :: "char \<Rightarrow> nat \<Rightarrow> string option \<Rightarrow> aiger_private \<Rightarrow> aiger_private" where
  "set_symbol c i n p =
     (if c = CHR ''i'' then p\<lparr>inputs := rename_at i n (inputs p)\<rparr>
      else if c = CHR ''l'' then p\<lparr>latches := rename_at i n (latches p)\<rparr>
      else if c = CHR ''o'' then p\<lparr>outputs := rename_at i n (outputs p)\<rparr>
      else if c = CHR ''b'' then p\<lparr>bad := rename_at i n (bad p)\<rparr>
      else if c = CHR ''c'' then p\<lparr>constraints := rename_at i n (constraints p)\<rparr>
      else if c = CHR ''j'' then p\<lparr>justice := rename_at i n (justice p)\<rparr>
      else p\<lparr>fairness := rename_at i n (fairness p)\<rparr>)"

function symbol_name :: "unit rd" where
  "symbol_name p r =
     (case rd_ch r of
        None \<Rightarrow> raiseR (\<lambda>p r. aiger_error_u p ''line %u: new line missing'' (rd_lineno r)) p r
      | Some c \<Rightarrow>
          if c = CHR ''\<newline>'' then Ok () p r
          else symbol_name p (aiger_next_ch (aiger_reader_push_ch c r)))"
  by pat_completeness auto
termination
  by (relation "measure (\<lambda>(p, r). length (rd_rest r) + (if rd_ch r = None then 0 else 1))")
    (auto simp: aiger_reader_push_ch_def split: list.splits)

declare symbol_name.simps [simp del]

text \<open>One entry of the symbol table, after its prefix \<open>c\<close> has been read.\<close>

definition read_symbol :: "char \<Rightarrow> unit rd" where
  "read_symbol c p r =
     (let (type_name, _) = symbol_array c p in
      bindR (aiger_read_literal type_name (Some CHR '' '')) (\<lambda>(pos, _) p r.
      let (_, symbols) = symbol_array c p in
      if pos \<ge> length symbols then
        raiseR (\<lambda>p r. aiger_error_usu p ''line %u: %s symbol table entry position %u too large''
          (rd_token_line r) type_name pos) p r
      else if sym_name (symbols ! pos) \<noteq> None then
        raiseR (\<lambda>p r. aiger_error_usu p ''line %u: %s literal %u has multiple symbols''
          (rd_token_line r) type_name (sym_lit (symbols ! pos))) p r
      else
        bindR symbol_name (\<lambda>_ p r.
        let r = aiger_reader_push_ch CHR 0x00 (aiger_next_ch r) in
        Ok () (set_symbol c pos (aiger_copy_str (Some (rd_buffer r))) p) (clear_buffer r)) p r) p r)"

definition corrupted :: "unit rd" where
  "corrupted p r =
     (if rd_looks_aag r then
        raiseR (\<lambda>p r. aiger_error_u p (''line %u: corrupted symbol table ('' @ [CHR 0x27] @ ''aig'' @ [CHR 0x27] @
          '' instead of '' @ [CHR 0x27] @ ''aag'' @ [CHR 0x27] @ '' header?)'') (rd_lineno r)) p r
      else
        raiseR (\<lambda>p r. aiger_error_u p (''line %u: expected '' @ [CHR 0x27] @ ''[cilobcjf]'' @ [CHR 0x27] @
          '' or EOF'') (rd_lineno r)) p r)"

definition no_constraint :: "unit rd" where
  "no_constraint = raiseR (\<lambda>p r. aiger_error_u p (''line %u: unexpected invariance constraint symbol entry prefix '' @
     [CHR 0x27] @ ''c '' @ [CHR 0x27] @ '' (comment sections start with '' @ [CHR 0x27] @ ''c<new-line>'' @
     [CHR 0x27] @ '' without space)'') (rd_token_line r))"

section \<open>What an entry of the symbol table takes\<close>

text \<open>No operation of the reader gives characters back.\<close>

definition shrinks :: "'a rd \<Rightarrow> bool" where
  "shrinks m \<longleftrightarrow> (\<forall>p r x q s. m p r = Ok x q s \<longrightarrow> length (rd_rest s) \<le> length (rd_rest r))"

lemma shrinksI: "(\<And>p r x q s. m p r = Ok x q s \<Longrightarrow> length (rd_rest s) \<le> length (rd_rest r)) \<Longrightarrow> shrinks m"
  by (auto simp: shrinks_def)

lemma shrinksD: "shrinks m \<Longrightarrow> m p r = Ok x q s \<Longrightarrow> length (rd_rest s) \<le> length (rd_rest r)"
  by (auto simp: shrinks_def)

lemma shrinks_bind: "shrinks m \<Longrightarrow> (\<And>x. shrinks (f x)) \<Longrightarrow> shrinks (bindR m f)"
  by (rule shrinksI) (fastforce simp: bindR_def dest: shrinksD split: outcome.splits)

lemma read_digits_shrinks: "length (rd_rest (snd (read_digits n r))) \<le> length (rd_rest r)"
proof (induction n r rule: read_digits.induct)
  case (1 n r)
  show ?case
  proof (cases "digit_ch (rd_ch (aiger_next_ch r))")
    case True
    from 1 [OF refl True] show ?thesis using True by (subst read_digits.simps) (simp add: Let_def)
  next
    case False
    then show ?thesis by (subst read_digits.simps) (simp add: Let_def)
  qed
qed

lemma shrinks_number: "shrinks aiger_read_number"
  by (rule shrinksI)
    (use read_digits_shrinks in \<open>auto simp: aiger_read_number_def Let_def split: if_splits prod.splits, metis snd_conv\<close>)

lemma shrinks_literal: "shrinks (aiger_read_literal cont e)"
proof -
  have "shrinks (\<lambda>p r. if b r then raiseR (f r) p r else if b' r then raiseR (f' r) p r
      else if b'' r then raiseR (f'' r) p r else Ok (g r) p (aiger_next_ch r))" for b b' b'' f f' f'' and g :: "aiger_reader \<Rightarrow> uint \<times> char"
    by (rule shrinksI) (auto split: if_splits)
  note s = shrinks_bind [OF shrinks_number this]
  show ?thesis
    by (rule shrinksI) (auto simp: aiger_read_literal_def split: if_splits dest!: shrinksD [OF s])
qed

lemma shrinks_name: "symbol_name p r = Ok x q s \<Longrightarrow> length (rd_rest s) \<le> length (rd_rest r)"
proof (induction p r rule: symbol_name.induct)
  case (1 p r)
  show ?case
  proof (cases "rd_ch r")
    case None
    with 1(2) show ?thesis by (subst (asm) symbol_name.simps) simp
  next
    case (Some c)
    from 1(1) [OF Some] 1(2) Some show ?thesis
      by (subst (asm) (2) symbol_name.simps) (fastforce simp: aiger_reader_push_ch_def split: if_splits)
  qed
qed

lemma read_symbol_Ok:
  assumes "read_symbol c p r = Ok x q s"
  shows "digit_ch (rd_ch r)" "length (rd_rest s) \<le> length (rd_rest r)"
proof -
  have e: "\<exists>tn y u t v w. aiger_read_literal tn (Some CHR '' '') p r = Ok y u t \<and> symbol_name u t = Ok () v w \<and>
      s = clear_buffer (aiger_reader_push_ch CHR 0x00 (aiger_next_ch w))"
    using assms unfolding read_symbol_def bindR_def Let_def
    by (auto split: prod.splits outcome.splits if_splits) blast
  then obtain tn y u t v w where r: "aiger_read_literal tn (Some CHR '' '') p r = Ok y u t" "symbol_name u t = Ok () v w"
    "s = clear_buffer (aiger_reader_push_ch CHR 0x00 (aiger_next_ch w))" by blast
  from r(1) show "digit_ch (rd_ch r)" by (rule contrapos_pp) (simp add: aiger_read_literal_def)
  have "length (rd_rest s) = length (tl (rd_rest w))" by (simp add: r(3) clear_buffer_def aiger_reader_push_ch_def)
  with shrinksD [OF shrinks_literal r(1)] shrinks_name [OF r(2)]
  show "length (rd_rest s) \<le> length (rd_rest r)" by simp
qed

text \<open>An entry takes at least the digit behind its prefix.\<close>

lemma read_symbol_less:
  assumes "read_symbol c p (aiger_next_ch r) = Ok x q s"
  shows "length (rd_rest s) < length (rd_rest r)"
proof -
  have "rd_rest r \<noteq> []" using read_symbol_Ok(1) [OF assms] by (cases "rd_rest r") (auto simp: digit_ch_def)
  then show ?thesis using read_symbol_Ok(2) [OF assms] by (cases "rd_rest r") auto
qed

lemma bindR_cong [fundef_cong]:
  assumes "m p r = m' p' r'" "\<And>x q s. m' p' r' = Ok x q s \<Longrightarrow> f x q s = g x q s"
  shows "bindR m f p r = bindR m' g p' r'"
  unfolding bindR_def assms(1) by (rule outcome.case_cong [OF refl]) (simp_all add: assms(2))

text \<open>The loop of \<open>aiger_read_symbols_and_comments\<close>; it ends because every entry reads at least one character.\<close>

function read_symbol_table :: "unit rd" where
  "read_symbol_table p r =
     (case rd_ch r of
        None \<Rightarrow> Ok () p r
      | Some c \<Rightarrow>
          if c \<notin> set ''ilobcjf'' then corrupted p r
          else if c = CHR ''c'' \<and> rd_ch (aiger_next_ch r) = Some CHR ''\<newline>'' then aiger_read_comments p (aiger_next_ch r)
          else if c = CHR ''c'' \<and> constraints p = [] then no_constraint p (aiger_next_ch r)
          else bindR (read_symbol c) (\<lambda>_ p r. read_symbol_table p r) p (aiger_next_ch r))"
  by pat_completeness auto
termination
  by (relation "measure (\<lambda>(p, r). length (rd_rest r))") (simp, simp only: in_measure prod.case read_symbol_less)

declare read_symbol_table.simps [simp del]

definition aiger_read_symbols_and_comments :: "unit rd" where
  "aiger_read_symbols_and_comments p r = (if rd_buffer r \<noteq> [] then Abort else read_symbol_table p r)"

section \<open>Entry points\<close>

text \<open>The structure afterwards; \<open>aiger_error\<close> of it is the returned error.\<close>

definition aiger_read_generic :: "aiger_private \<Rightarrow> string \<Rightarrow> aiger_private option" where
  "aiger_read_generic p input =
     (if aiger_error p \<noteq> None then None
      else
        case bindR aiger_read_header (\<lambda>h.
             bindR (if \<not> hd_binary h then aiger_read_ascii h else aiger_read_binary h) (\<lambda>_.
             aiger_read_symbols_and_comments)) p (new_reader input) of
          Abort \<Rightarrow> None
        | Fail q \<Rightarrow> Some q
        | Ok _ q r \<Rightarrow> aiger_check q)"

definition aiger_read_from_file :: "aiger_private \<Rightarrow> string \<Rightarrow> aiger_private option" where
  "aiger_read_from_file p file = do {
     assert_c (aiger_error p = None);
     aiger_read_generic p file
   }"

text \<open>\<open>open_r\<close> is the environment's \<open>popen\<close> or \<open>fopen\<close> for reading.\<close>

definition aiger_open_and_read_from_file ::
    "(target \<Rightarrow> string option) \<Rightarrow> aiger_private \<Rightarrow> string \<Rightarrow> aiger_private option" where
  "aiger_open_and_read_from_file open_r p file_name = do {
     assert_c (aiger_error p = None);
     target \<leftarrow> (if aiger_has_suffix file_name ''.gz''
                 then map_option Pipe (shell_command GUNZIP file_name)
                 else Some (File file_name));
     case open_r target of
       None \<Rightarrow> aiger_error_s p (''can not read '' @ [CHR 0x27] @ ''%s'' @ [CHR 0x27]) file_name
     | Some file \<Rightarrow> aiger_read_from_file p file
   }"

end
