(* ===== verification/AigerParse.thy ===== *)
theory AigerParse
  imports AigerRead
begin

text \<open>
  The readers on the texts that the writers emit: a reader that stands at a text consumes exactly
  that text (\<open>parses\<close>). Numbers, literals, deltas, and the loops over them.
\<close>

section \<open>A reader that stands at a text\<close>

definition at :: "aiger_reader \<Rightarrow> string \<Rightarrow> bool" where
  "at r cs \<longleftrightarrow> (case rd_ch r of None \<Rightarrow> cs = [] \<and> rd_rest r = [] | Some c \<Rightarrow> cs = c # rd_rest r)"

definition parses :: "'a rd \<Rightarrow> string \<Rightarrow> aiger_private \<Rightarrow> 'a \<Rightarrow> aiger_private \<Rightarrow> bool" where
  "parses m txt p x q \<longleftrightarrow>
     (\<forall>r cs. at r (txt @ cs) \<longrightarrow> (\<exists>s. m p r = Ok x q s \<and> at s cs \<and> rd_buffer s = rd_buffer r))"

lemma at_Cons: "at r (c # cs) \<longleftrightarrow> rd_ch r = Some c \<and> rd_rest r = cs"
  by (auto simp: at_def split: option.splits)

lemma at_Nil: "at r [] \<longleftrightarrow> rd_ch r = None \<and> rd_rest r = []"
  by (auto simp: at_def split: option.splits)

lemma at_next: "at r (c # cs) \<Longrightarrow> at (aiger_next_ch r) cs"
  by (cases cs) (simp_all add: at_Cons at_Nil)

lemma parsesI:
  assumes "\<And>r cs. at r (txt @ cs) \<Longrightarrow> \<exists>s. m p r = Ok x q s \<and> at s cs \<and> rd_buffer s = rd_buffer r"
  shows "parses m txt p x q"
  using assms by (simp add: parses_def)

lemma parsesE:
  assumes "parses m txt p x q" "at r (txt @ cs)"
  obtains s where "m p r = Ok x q s" "at s cs" "rd_buffer s = rd_buffer r"
  using assms unfolding parses_def by blast

lemma parses_return: "parses (returnR x) [] p x p"
  by (simp add: parses_def returnR_def)

lemma parses_bind:
  assumes "parses m t1 p x q" "parses (f x) t2 q y u"
  shows "parses (bindR m f) (t1 @ t2) p y u"
proof (rule parsesI)
  fix r cs assume "at r ((t1 @ t2) @ cs)"
  then have "at r (t1 @ t2 @ cs)" by simp
  with assms(1) obtain s where s: "m p r = Ok x q s" "at s (t2 @ cs)" "rd_buffer s = rd_buffer r"
    by (rule parsesE)
  from assms(2) s(2) obtain t where "f x q s = Ok y u t" "at t cs" "rd_buffer t = rd_buffer s"
    by (rule parsesE)
  with s show "\<exists>s. bindR m f p r = Ok y u s \<and> at s cs \<and> rd_buffer s = rd_buffer r"
    by (simp add: bindR_def)
qed

lemma parses_api: "f p = Some q \<Longrightarrow> parses (apiR f) [] p () q"
  by (simp add: parses_def apiR_def)

lemma parses_reject: "\<not> b p \<Longrightarrow> parses (rejectR b fmt l) [] p () p"
  by (simp add: parses_def rejectR_def)

lemma parses_bind0:
  "parses m [] p x q \<Longrightarrow> parses (f x) t q y u \<Longrightarrow> parses (bindR m f) t p y u"
  using parses_bind [of m "[]"] by simp

text \<open>A loop, with an invariant that says what the structure is after each iteration.\<close>

lemma parses_loop:
  assumes "I a p" "\<And>i q. a \<le> i \<Longrightarrow> i < a + n \<Longrightarrow> I i q \<Longrightarrow> \<exists>u. parses (f i) (t i) q () u \<and> I (Suc i) u"
  shows "\<exists>q. parses (loopR f [a..<a + n]) (concat (map t [a..<a + n])) p () q \<and> I (a + n) q"
  using assms
proof (induction n arbitrary: a p)
  case 0
  then show ?case using parses_return [of "()"] by auto
next
  case (Suc n)
  from Suc.prems(2) [of a p] Suc.prems(1) obtain u where u: "parses (f a) (t a) p () u" "I (Suc a) u" by auto
  have "\<exists>q. parses (loopR f [Suc a..<Suc a + n]) (concat (map t [Suc a..<Suc a + n])) u () q \<and> I (Suc a + n) q"
    by (rule Suc.IH [OF u(2)]) (use Suc.prems(2) in simp)
  then obtain q where q: "parses (loopR f [Suc a..<Suc a + n]) (concat (map t [Suc a..<Suc a + n])) u () q"
    "I (Suc a + n) q" by blast
  have "[a..<a + Suc n] = a # [Suc a..<Suc a + n]" by (simp add: upt_rec)
  with parses_bind [of "f a", OF u(1) q(1)] q(2) show ?case by auto
qed

lemmas parses_loop0 = parses_loop [where a = 0, simplified]

lemma parses_collect:
  assumes "\<And>i. i < length xs \<Longrightarrow> parses m (t (xs ! i)) p (xs ! i) p"
  shows "parses (collectR m (length xs)) (concat (map t xs)) p xs p"
  using assms
proof (induction xs)
  case (Cons x xs)
  have 1: "parses m (t x) p x p" using Cons.prems [of 0] by simp
  have 2: "parses (collectR m (length xs)) (concat (map t xs)) p xs p"
    by (rule Cons.IH) (use Cons.prems [of "Suc _"] in simp)
  have "parses (bindR (collectR m (length xs)) (\<lambda>ys. returnR (x # ys))) (concat (map t xs) @ []) p (x # xs) p"
    by (rule parses_bind [OF 2 parses_return])
  from parses_bind [where f = "\<lambda>x. bindR (collectR m (length xs)) (\<lambda>ys. returnR (x # ys))", OF 1 this]
  show ?case by simp
qed (simp add: parses_return)

section \<open>Numbers\<close>

definition digits_value :: "nat \<Rightarrow> string \<Rightarrow> nat" where
  "digits_value = foldl (\<lambda>n d. u32 (10 * n + digit_val d))"

lemma digits_value_dec: "n < 4294967296 \<Longrightarrow> digits_value 0 (dec n) = n"
proof (induction n rule: dec.induct)
  case (1 n)
  show ?case
  proof (cases "n < 10")
    case True
    then show ?thesis by (subst dec.simps) (simp add: digits_value_def)
  next
    case False
    with 1 have IH: "digits_value 0 (dec (n div 10)) = n div 10" by simp
    have "10 * (n div 10) + n mod 10 = n" by simp
    with False IH 1(2) show ?thesis by (subst dec.simps) (simp add: digits_value_def)
  qed
qed

lemma digit_val_less: "isdigit c \<Longrightarrow> digit_val c < 10"
  by (auto simp: isdigit_def digit_val_def)

lemma digits_value_Cons:
  assumes "isdigit d"
  shows "digits_value 0 (d # ds) = digits_value (digit_val d) ds"
  using digit_val_less [OF assms] by (simp add: digits_value_def)

lemma read_digits_at:
  "at r (d # ds @ c # cs) \<Longrightarrow> \<forall>d \<in> set ds. isdigit d \<Longrightarrow> \<not> isdigit c \<Longrightarrow>
     \<exists>s. read_digits res r = (digits_value res ds, s) \<and> at s (c # cs) \<and> rd_buffer s = rd_buffer r"
proof (induction ds arbitrary: d res r)
  case Nil
  then have "at (aiger_next_ch r) (c # cs)" by (auto dest: at_next)
  with Nil(3) show ?case
    by (subst read_digits.simps) (auto simp: digits_value_def digit_ch_def at_Cons Let_def)
next
  case (Cons e ds)
  from Cons.prems(1) have n: "at (aiger_next_ch r) (e # ds @ c # cs)" by (auto dest: at_next)
  from Cons.IH [OF n] Cons.prems(2,3) obtain s where
    "read_digits (u32 (10 * res + digit_val e)) (aiger_next_ch r) = (digits_value (u32 (10 * res + digit_val e)) ds, s)"
    "at s (c # cs)" "rd_buffer s = rd_buffer r" by fastforce
  with n Cons.prems(2) show ?case
    by (subst read_digits.simps) (auto simp: digits_value_def digit_ch_def at_Cons Let_def)
qed

lemma dec_Cons: "\<exists>d ds. dec n = d # ds \<and> isdigit d \<and> (\<forall>c \<in> set ds. isdigit c)"
  using isdigit_dec [of _ n] by (cases "dec n") auto

lemma read_number_at:
  assumes "at r (dec n @ c # cs)" "n < 4294967296" "\<not> isdigit c"
  shows "\<exists>s. aiger_read_number p r = Ok n p s \<and> at s (c # cs) \<and> rd_buffer s = rd_buffer r"
proof -
  obtain d ds where d: "dec n = d # ds" "isdigit d" "\<forall>c \<in> set ds. isdigit c" using dec_Cons by blast
  from assms(1) have "at r (d # ds @ c # cs)" by (simp add: d(1))
  from read_digits_at [OF this d(3) assms(3)] obtain s where
    "read_digits (digit_val d) r = (digits_value (digit_val d) ds, s)" "at s (c # cs)" "rd_buffer s = rd_buffer r"
    by blast
  moreover have "digits_value (digit_val d) ds = n"
    using digits_value_dec [OF assms(2)] digits_value_Cons [OF d(2), of ds] by (simp add: d(1))
  moreover have "rd_ch r = Some d" using assms(1) by (simp add: d(1) at_Cons)
  ultimately show ?thesis using d(2) by (simp add: aiger_read_number_def digit_ch_def)
qed

lemma parses_literal:
  assumes n: "n < 4294967296" and c: "c = CHR '' '' \<or> c = CHR ''\<newline>''" and e: "e = Some c \<or> e = None"
  shows "parses (aiger_read_literal cont e) (dec n @ [c]) p (n, c) p"
proof (rule parsesI)
  fix r cs assume "at r ((dec n @ [c]) @ cs)"
  then have a: "at r (dec n @ c # cs)" by simp
  have "\<not> isdigit c" using c by auto
  from read_number_at [OF a n this] obtain s where
    s: "aiger_read_number p r = Ok n p s" "at s (c # cs)" "rd_buffer s = rd_buffer r" by blast
  obtain d ds where d: "dec n = d # ds" "isdigit d" using dec_Cons by blast
  have "rd_ch r = Some d" using a by (simp add: d(1) at_Cons)
  with d(2) have "digit_ch (rd_ch r)" by (simp add: digit_ch_def)
  moreover have "rd_ch s = Some c" using s(2) by (simp add: at_Cons)
  ultimately have "aiger_read_literal cont e p r = Ok (n, c) p (aiger_next_ch s)"
    using c e s(1) by (auto simp: aiger_read_literal_def bindR_def)
  with at_next [OF s(2)] s(3)
  show "\<exists>s. aiger_read_literal cont e p r = Ok (n, c) p s \<and> at s cs \<and> rd_buffer s = rd_buffer r" by simp
qed

lemmas parses_line = parses_literal [OF _ disjI2 [OF refl] disjI1 [OF refl]]
lemmas parses_word = parses_literal [OF _ disjI1 [OF refl] disjI1 [OF refl]]

section \<open>Deltas\<close>

lemma or_push_bit:
  fixes a b k :: nat
  assumes "a < 2 ^ k"
  shows "a OR push_bit k b = a + b * 2 ^ k"
proof -
  have "take_bit k a = a" using assms by (simp add: take_bit_nat_eq_self)
  then have "a AND push_bit k b = 0"
    by (metis (no_types, lifting) bit_eqI bit_and_iff bit_push_bit_iff bit_take_bit_iff bit_0_eq bot_apply bot_bool_def linorder_not_le)
  then show ?thesis by (simp add: disjunctive_add_eq_or push_bit_eq_mult flip: disjunctive_add_eq_or)
qed

lemma byte_bits:
  fixes n :: nat
  assumes "n < 128"
  shows "n AND 128 = 0" "(128 + n) AND 128 \<noteq> 0" "(128 + n) AND 127 = n"
proof -
  have 127: "(127::nat) = mask 7" by (simp add: mask_eq_exp_minus_1)
  have 128: "bit (128::nat) m \<longleftrightarrow> m = 7" for m using bit_exp_iff [of 7 m, where 'a = nat] by auto
  have n: "take_bit 7 n = n" using assms by (simp add: take_bit_nat_eq_self)
  then have small: "bit n m \<Longrightarrow> m < 7" for m by (metis bit_take_bit_iff)
  show z: "n AND 128 = 0" by (rule bit_eqI) (use small in \<open>auto simp: bit_and_iff 128\<close>)
  then have or: "128 + n = n OR 128" by (simp add: disjunctive_add_eq_or add.commute)
  show "(128 + n) AND 127 = n" unfolding 127 take_bit_eq_mask [symmetric]
    using assms by (simp add: take_bit_eq_mod)
  have "bit ((128 + n) AND 128) 7" unfolding or by (simp add: bit_and_iff bit_or_iff 128 bit_Suc_0_iff)
  then show "(128 + n) AND 128 \<noteq> 0" by (metis bit_0_eq bot_apply bot_bool_def)
qed

lemma of_char_of_nat: "(n::nat) < 256 \<Longrightarrow> (of_char (char_of n) :: nat) = n"
  by (simp add: of_char_of)

lemma delta_loop_at:
  assumes "at r (delta_code m @ cs)" "res < 2 ^ (7 * i)" "res + m * 2 ^ (7 * i) < 4294967296" "0 < m \<or> i = 0"
  shows "\<exists>s. delta_loop charno i res p r = Ok (res + m * 2 ^ (7 * i)) p s \<and> at s cs \<and> rd_buffer s = rd_buffer r"
  using assms
proof (induction m arbitrary: res i r rule: delta_code.induct)
  case (1 m)
  have small: "m * 2 ^ (7 * i) < 4294967296" using 1(4) by linarith
  show ?case
  proof (cases "m < 128")
    case True
    have code: "delta_code m = [char_of m]" using True by (subst delta_code.simps) simp
    with "1.prems"(1) have a: "at r (char_of m # cs)" by simp
    then have r: "rd_ch r = Some (char_of m)" "at (aiger_next_ch r) cs" using at_next [OF a] by (simp_all add: at_Cons)
    have i: "i \<le> 4"
    proof (rule ccontr)
      assume "\<not> i \<le> 4"
      then have "(2::nat) ^ 35 \<le> 2 ^ (7 * i)" by (intro power_increasing) simp_all
      moreover have "0 < m" using "1.prems"(4) \<open>\<not> i \<le> 4\<close> by auto
      ultimately have "2 ^ 35 \<le> m * 2 ^ (7 * i)" by (metis Suc_leI le_trans mult_le_mono1 nat_mult_1 One_nat_def)
      with small show False by simp
    qed
    have "delta_loop charno i res p r = Ok (res OR u32 (push_bit (7 * i) m)) p (aiger_next_ch r)"
      using True r(1) i by (subst delta_loop.simps) (simp add: of_char_of_nat byte_bits(1))
    moreover have "u32 (push_bit (7 * i) m) = push_bit (7 * i) m" using small by (simp add: push_bit_eq_mult)
    ultimately show ?thesis using r(2) or_push_bit [OF "1.prems"(2), of m] by simp
  next
    case False
    let ?b = "m mod 128" and ?m = "m div 128"
    have code: "delta_code m = char_of (128 + ?b) # delta_code ?m" using False by (subst delta_code.simps) simp
    have b: "?b < 128" by simp
    from "1.prems"(1) code have a: "at r (char_of (128 + ?b) # delta_code ?m @ cs)" by simp
    then have r: "rd_ch r = Some (char_of (128 + ?b))" "at (aiger_next_ch r) (delta_code ?m @ cs)"
      using at_next [OF a] by (simp_all add: at_Cons)
    have split: "m * 2 ^ (7 * i) = ?b * 2 ^ (7 * i) + ?m * 2 ^ (7 * Suc i)"
    proof -
      have "(b + k * 128) * x = b * x + k * (128 * x)" for b k x :: nat by (simp add: algebra_simps)
      from this [of ?b ?m "2 ^ (7 * i)"] have "m * 2 ^ (7 * i) = ?b * 2 ^ (7 * i) + ?m * (128 * 2 ^ (7 * i))"
        by (simp only: mod_div_mult_eq)
      then show ?thesis by (simp add: power_add)
    qed
    have i: "i < 5"
    proof (rule ccontr)
      assume "\<not> i < 5"
      then have "(2::nat) ^ 35 \<le> 2 ^ (7 * i)" by (intro power_increasing) simp_all
      moreover have "1 \<le> m" using False by simp
      ultimately have "1 * 2 ^ 35 \<le> m * 2 ^ (7 * i)" by (intro mult_le_mono)
      with small show False by simp
    qed
    let ?res = "res + ?b * 2 ^ (7 * i)"
    have ub: "u32 (push_bit (7 * i) ?b) = push_bit (7 * i) ?b"
      using small split by (simp add: push_bit_eq_mult)
    have "?res < 2 ^ (7 * Suc i)"
    proof -
      have "?res < (1 + ?b) * 2 ^ (7 * i)" using "1.prems"(2) by simp
      also have "\<dots> \<le> 128 * 2 ^ (7 * i)" using b by (intro mult_le_mono) auto
      finally show ?thesis by (simp add: power_add)
    qed
    moreover have "?res + ?m * 2 ^ (7 * Suc i) < 4294967296" using "1.prems"(3) split by simp
    moreover have "0 < ?m" using False by simp
    ultimately obtain s where s:
      "delta_loop charno (Suc i) ?res p (aiger_next_ch r) = Ok (?res + ?m * 2 ^ (7 * Suc i)) p s"
      "at s cs" "rd_buffer s = rd_buffer (aiger_next_ch r)"
      using 1(1) [OF False r(2)] by blast
    have "delta_loop charno i res p r = delta_loop charno (Suc i) ?res p (aiger_next_ch r)"
      using r(1) i ub or_push_bit [OF "1.prems"(2), of ?b] b
      by (subst delta_loop.simps) (simp add: of_char_of_nat byte_bits(2,3) Let_def)
    with s split show ?thesis by (simp add: add.assoc)
  qed
qed

lemma parses_delta:
  assumes "n < 4294967296"
  shows "parses aiger_read_delta (delta_code n) p n p"
proof (rule parsesI)
  fix r cs assume "at r (delta_code n @ cs)"
  from delta_loop_at [OF this, of 0 0 "rd_charno r" p] assms
  show "\<exists>s. aiger_read_delta p r = Ok n p s \<and> at s cs \<and> rd_buffer s = rd_buffer r"
    by (simp add: aiger_read_delta_def)
qed

end
