(* ===== verification/AigerReadBack.thy ===== *)
theory AigerReadBack
  imports AigerParse
begin

text \<open>
  Reading back what the writers wrote, up to the gates: the structure that the readers build stage
  by stage has the public part (\<open>struct aiger\<close>, the truncation of the record) of the structure
  that was written, without its names and comments.
\<close>

section \<open>The structure under construction\<close>

definition unmarked_types :: "aiger_type list \<Rightarrow> bool" where
  "unmarked_types ts = list_all (\<lambda>t. \<not> ty_onstack t \<and> \<not> ty_mark t) ts"

definition good :: "aiger_private \<Rightarrow> aiger \<Rightarrow> bool" where
  "good q B \<longleftrightarrow> wf_aiger q \<and> error q = None \<and> unmarked_types (types q) \<and>
     maxvar q < length (types q) \<and> aiger.truncate q = B"

lemma truncate_simps [simp]:
  "maxvar (aiger.truncate q) = maxvar q" "inputs (aiger.truncate q) = inputs q"
  "latches (aiger.truncate q) = latches q" "outputs (aiger.truncate q) = outputs q"
  "bad (aiger.truncate q) = bad q" "constraints (aiger.truncate q) = constraints q"
  "justice (aiger.truncate q) = justice q" "fairness (aiger.truncate q) = fairness q"
  "ands (aiger.truncate q) = ands q" "comments (aiger.truncate q) = comments q"
  by (simp_all add: aiger.truncate_def)

lemma truncate_update [simp]:
  "aiger.truncate (q\<lparr>inputs := x\<rparr>) = (aiger.truncate q)\<lparr>inputs := x\<rparr>"
  "aiger.truncate (q\<lparr>latches := x\<rparr>) = (aiger.truncate q)\<lparr>latches := x\<rparr>"
  "aiger.truncate (q\<lparr>outputs := x\<rparr>) = (aiger.truncate q)\<lparr>outputs := x\<rparr>"
  "aiger.truncate (q\<lparr>bad := x\<rparr>) = (aiger.truncate q)\<lparr>bad := x\<rparr>"
  "aiger.truncate (q\<lparr>constraints := x\<rparr>) = (aiger.truncate q)\<lparr>constraints := x\<rparr>"
  "aiger.truncate (q\<lparr>justice := x\<rparr>) = (aiger.truncate q)\<lparr>justice := x\<rparr>"
  "aiger.truncate (q\<lparr>fairness := x\<rparr>) = (aiger.truncate q)\<lparr>fairness := x\<rparr>"
  "aiger.truncate (q\<lparr>ands := gs\<rparr>) = (aiger.truncate q)\<lparr>ands := gs\<rparr>"
  "aiger.truncate (q\<lparr>comments := cs\<rparr>) = (aiger.truncate q)\<lparr>comments := cs\<rparr>"
  "aiger.truncate (q\<lparr>maxvar := m\<rparr>) = (aiger.truncate q)\<lparr>maxvar := m\<rparr>"
  "aiger.truncate (q\<lparr>types := ts\<rparr>) = aiger.truncate q" "aiger.truncate (q\<lparr>error := e\<rparr>) = aiger.truncate q"
  "aiger.truncate (q\<lparr>num_comments := n\<rparr>) = aiger.truncate q"
  by (simp_all add: aiger.truncate_def)

lemma truncate_set_type [simp]: "aiger.truncate (set_type v f q) = aiger.truncate q"
  by (simp add: set_type_def)

lemma goodD:
  assumes "good q B"
  shows "wf_aiger q" "error q = None" "unmarked_types (types q)" "maxvar q < length (types q)"
    "aiger.truncate q = B" "maxvar q = maxvar B" "inputs q = inputs B" "latches q = latches B"
    "outputs q = outputs B" "bad q = bad B" "constraints q = constraints B" "justice q = justice B"
    "fairness q = fairness B" "ands q = ands B" "comments q = comments B"
  using assms by (auto simp: good_def)

lemma import_id: "l div 2 \<le> maxvar q \<Longrightarrow> maxvar q < length (types q) \<Longrightarrow> aiger_import_literal q l = q"
  by (simp add: aiger_import_literal_def enlarge_types.simps [of _ "types q"])

text \<open>A literal that can be defined next.\<close>

definition free :: "aiger \<Rightarrow> uint \<Rightarrow> bool" where
  "free B l \<longleftrightarrow> even l \<and> 0 < l \<and> l div 2 \<le> maxvar B \<and> l \<notin> sym_lit ` set (inputs B) \<and>
     l \<notin> sym_lit ` set (latches B) \<and> l \<notin> and_lhs ` set (ands B)"

lemma free_type:
  assumes "good q B" "free B l"
  shows "undefined_type (types q ! (l div 2))" "l div 2 < length (types q)" "l mod 2 = 0"
proof -
  note g = goodD [OF assms(1)]
  show len: "l div 2 < length (types q)" using assms(2) g(4,6) by (simp add: free_def)
  have wt: "wf_types q" using g(1) by (simp add: wf_aiger_def)
  have l: "2 * (l div 2) = l" using assms(2) by (auto simp: free_def)
  note k = kind_ok_mem [OF wf_typesD(1) [OF wt] len] kind_ok_mem [OF wf_typesD(2) [OF wt] len]
    kind_ok_mem [OF wf_typesD(3) [OF wt] len]
  show "undefined_type (types q ! (l div 2))"
    using assms(2) k g(7,8,14) by (simp add: undefined_type_def free_def l)
  show "l mod 2 = 0" using assms(2) by (simp add: free_def even_iff_mod_2_eq_zero)
qed

lemma unmarked_update:
  assumes "unmarked_types ts" "v < length ts" "\<not> ty_onstack t" "\<not> ty_mark t"
  shows "unmarked_types (ts[v := t])"
  using assms unfolding unmarked_types_def list_all_length by (simp add: nth_list_update)

lemma unmarked_nth: "unmarked_types ts \<Longrightarrow> v < length ts \<Longrightarrow> \<not> ty_onstack (ts ! v) \<and> \<not> ty_mark (ts ! v)"
  by (simp add: unmarked_types_def list_all_length)

lemma good_add_input:
  assumes "good q B" "free B l"
  shows "\<exists>u. aiger_add_input q l None = Some u \<and> good u (B\<lparr>inputs := inputs B @ [new_symbol l None]\<rparr>)"
proof -
  note g = goodD [OF assms(1)] and t = free_type [OF assms]
  have l: "l \<noteq> 0" "l div 2 \<le> maxvar q" using assms(2) g(6) by (simp_all add: free_def)
  let ?u = "(set_type (l div 2) (\<lambda>t. t\<lparr>ty_input := True, ty_idx := length (inputs q)\<rparr>) q)
      \<lparr>inputs := inputs q @ [new_symbol l None]\<rparr>"
  have eq: "aiger_add_input q l None = Some ?u"
    using l t g(2) import_id [OF l(2) g(4)]
    by (simp add: aiger_add_input_def aiger_error_def type_at_def undefined_type_def Let_def)
  have "maxvar q < 2147483648" using g(1) by (simp add: wf_aiger_def wf_lits_def)
  then have "wf_aiger ?u" using wf_add_input [OF eq g(1)] l(2) by simp
  then show ?thesis
    using eq g unmarked_update [OF g(3) t(2)] unmarked_nth [OF g(3) t(2)] by (simp add: good_def)
qed

lemma good_add_latch:
  assumes "good q B" "free B l" "next div 2 \<le> maxvar B" "reset \<le> 1 \<or> reset = l"
  shows "\<exists>u. aiger_add_latch q l next None = Some u \<and>
     good u (B\<lparr>latches := latches B @ [(new_symbol l None)\<lparr>sym_next := next\<rparr>]\<rparr>) \<and>
     (\<exists>w. aiger_add_reset u l reset = Some w \<and>
        good w (B\<lparr>latches := latches B @ [(new_symbol l None)\<lparr>sym_next := next, sym_reset := reset\<rparr>]\<rparr>))"
proof -
  note g = goodD [OF assms(1)] and t = free_type [OF assms(1,2)]
  have l: "l \<noteq> 0" "l div 2 \<le> maxvar q" "next div 2 \<le> maxvar q" using assms(2,3) g(6) by (simp_all add: free_def)
  have m: "maxvar q < 2147483648" using g(1) by (simp add: wf_aiger_def wf_lits_def)
  let ?t = "set_type (l div 2) (\<lambda>t. t\<lparr>ty_latch := True, ty_idx := length (latches q)\<rparr>) q"
  have i1: "aiger_import_literal q l = q" using l(2) g(4) by (rule import_id)
  have i2: "aiger_import_literal ?t next = ?t" using l(3) g(4) by (intro import_id) simp_all
  let ?u = "?t\<lparr>latches := latches q @ [(new_symbol l None)\<lparr>sym_next := next\<rparr>]\<rparr>"
  have eq: "aiger_add_latch q l next None = Some ?u"
    unfolding aiger_add_latch_def aiger_error_def type_at_def Let_def aiger_lit2var_eq i1
    using l(1) t i2 g(2) by (simp add: undefined_type_def)
  have wu: "wf_aiger ?u" using wf_add_latch [OF eq g(1)] l m by simp
  have gu: "good ?u (B\<lparr>latches := latches B @ [(new_symbol l None)\<lparr>sym_next := next\<rparr>]\<rparr>)"
    using wu g unmarked_update [OF g(3) t(2)] unmarked_nth [OF g(3) t(2)] by (simp add: good_def)
  let ?w = "?u\<lparr>latches := latches q @ [(new_symbol l None)\<lparr>sym_next := next, sym_reset := reset\<rparr>]\<rparr>"
  have i3: "aiger_import_literal ?u l = ?u" using l(2) g(4) by (intro import_id) simp_all
  have eq2: "aiger_add_reset ?u l reset = Some ?w"
    unfolding aiger_add_reset_def aiger_error_def type_at_def Let_def aiger_lit2var_eq i3
    using l(1) t g(2) assms(4) by (simp add: nth_append)
  have ww: "wf_aiger ?w" using wf_add_reset [OF eq2 wu] l m by simp
  have "good ?w (B\<lparr>latches := latches B @ [(new_symbol l None)\<lparr>sym_next := next, sym_reset := reset\<rparr>]\<rparr>)"
    using ww g unmarked_update [OF g(3) t(2)] unmarked_nth [OF g(3) t(2)] by (simp add: good_def)
  with eq gu eq2 show ?thesis by blast
qed

lemma good_add_and:
  assumes "good q B" "free B l" "a div 2 \<le> maxvar B" "b div 2 \<le> maxvar B"
  shows "\<exists>u. aiger_add_and q l a b = Some u \<and>
     good u (B\<lparr>ands := ands B @ [\<lparr>and_lhs = l, and_rhs0 = a, and_rhs1 = b\<rparr>]\<rparr>)"
proof -
  note g = goodD [OF assms(1)] and t = free_type [OF assms(1,2)]
  have l: "1 < l" "l div 2 \<le> maxvar q" "a div 2 \<le> maxvar q" "b div 2 \<le> maxvar q"
    using assms(2-4) g(6) by (auto simp: free_def elim!: evenE)
  have m: "maxvar q < 2147483648" using g(1) by (simp add: wf_aiger_def wf_lits_def)
  let ?t = "set_type (l div 2) (\<lambda>t. t\<lparr>ty_and := True, ty_idx := length (ands q)\<rparr>) q"
  have i1: "aiger_import_literal q l = q" using l(2) g(4) by (rule import_id)
  have i2: "aiger_import_literal ?t a = ?t" "aiger_import_literal ?t b = ?t"
    using l(3,4) g(4) by (intro import_id; simp)+
  let ?u = "?t\<lparr>ands := ands q @ [\<lparr>and_lhs = l, and_rhs0 = a, and_rhs1 = b\<rparr>]\<rparr>"
  have eq: "aiger_add_and q l a b = Some ?u"
    unfolding aiger_add_and_def aiger_error_def type_at_def Let_def aiger_lit2var_eq i1
    using l(1) t i2 g(2) by (simp add: undefined_type_def)
  have "wf_aiger ?u" using wf_add_and [OF eq g(1)] l m by simp
  then show ?thesis
    using eq g unmarked_update [OF g(3) t(2)] unmarked_nth [OF g(3) t(2)] by (simp add: good_def)
qed

lemma good_add_plain:
  assumes "good q B" "l div 2 \<le> maxvar B"
  shows "good (aiger_add_output q l None) (B\<lparr>outputs := outputs B @ [new_symbol l None]\<rparr>)"
    "good (aiger_add_bad q l None) (B\<lparr>bad := bad B @ [new_symbol l None]\<rparr>)"
    "good (aiger_add_constraint q l None) (B\<lparr>constraints := constraints B @ [new_symbol l None]\<rparr>)"
    "good (aiger_add_fairness q l None) (B\<lparr>fairness := fairness B @ [new_symbol l None]\<rparr>)"
proof -
  note g = goodD [OF assms(1)]
  have l: "l div 2 \<le> maxvar q" using assms(2) g(6) by simp
  have "maxvar q < 2147483648" using g(1) by (simp add: wf_aiger_def wf_lits_def)
  then have "l < 4294967296" using l by linarith
  note w = wf_add_plain [OF g(1) this, of None]
  note i = import_id [OF l g(4)]
  show "good (aiger_add_output q l None) (B\<lparr>outputs := outputs B @ [new_symbol l None]\<rparr>)"
    using w(1) g i by (simp add: good_def aiger_add_output_def)
  show "good (aiger_add_bad q l None) (B\<lparr>bad := bad B @ [new_symbol l None]\<rparr>)"
    using w(2) g i by (simp add: good_def aiger_add_bad_def)
  show "good (aiger_add_constraint q l None) (B\<lparr>constraints := constraints B @ [new_symbol l None]\<rparr>)"
    using w(3) g i by (simp add: good_def aiger_add_constraint_def)
  show "good (aiger_add_fairness q l None) (B\<lparr>fairness := fairness B @ [new_symbol l None]\<rparr>)"
    using w(4) g i by (simp add: good_def aiger_add_fairness_def)
qed

lemma good_add_justice:
  assumes "good q B" "\<forall>l \<in> set ls. l div 2 \<le> maxvar B"
  shows "good (aiger_add_justice q ls None) (B\<lparr>justice := justice B @ [(new_symbol 0 None)\<lparr>sym_lits := ls\<rparr>]\<rparr>)"
proof -
  note g = goodD [OF assms(1)]
  have l: "\<forall>l \<in> set ls. l div 2 \<le> maxvar q" using assms(2) g(6) by simp
  have "maxvar q < 2147483648" using g(1) by (simp add: wf_aiger_def wf_lits_def)
  then have "\<forall>l \<in> set ls. l < 4294967296" using l by fastforce
  note w = wf_add_justice [OF g(1) this, of None]
  have "fold (\<lambda>lit p. aiger_import_literal p lit) ls q = q"
    using l import_id [OF _ g(4)] by (induction ls) simp_all
  then show ?thesis using w g by (simp add: good_def aiger_add_justice_def)
qed

section \<open>The header\<close>

lemma at_new_reader: "at (new_reader input) (CHR '' '' # input)"
  by (simp add: at_Cons new_reader_def)

lemma expect_ch_at:
  assumes "at r (c0 # c # cs)" "c \<in> set ds"
  shows "\<exists>s. expect_ch ds fmt p r = Ok () p s \<and> at s (c # cs) \<and> rd_buffer s = rd_buffer r"
  using at_next [OF assms(1)] assms(2) by (simp add: expect_ch_def at_Cons Let_def)

lemma read_magic_at:
  assumes "at r (c0 # CHR ''a'' # c # CHR ''g'' # CHR '' '' # cs)" "c = CHR ''a'' \<or> c = CHR ''i''"
  shows "\<exists>s. read_magic p r = Ok (c \<noteq> CHR ''a'') p s \<and> at s cs \<and> rd_buffer s = rd_buffer r"
proof -
  obtain s1 where s1: "\<And>fmt. expect_ch ''a'' fmt p r = Ok () p s1" "at s1 (CHR ''a'' # c # CHR ''g'' # CHR '' '' # cs)"
    "rd_buffer s1 = rd_buffer r"
    using at_next [OF assms(1)] by (auto simp: expect_ch_def at_Cons Let_def)
  obtain s2 where s2: "\<And>fmt. expect_ch ''ia'' fmt p s1 = Ok () p s2" "at s2 (c # CHR ''g'' # CHR '' '' # cs)"
    "rd_buffer s2 = rd_buffer r"
    using at_next [OF s1(2)] assms(2) s1(3) by (auto simp: expect_ch_def at_Cons Let_def)
  obtain s3 where s3: "\<And>fmt. expect_ch ''g'' fmt p s2 = Ok () p s3" "at s3 (CHR ''g'' # CHR '' '' # cs)"
    "rd_buffer s3 = rd_buffer r"
    using at_next [OF s2(2)] s2(3) by (auto simp: expect_ch_def at_Cons Let_def)
  obtain s4 where s4: "\<And>fmt. expect_ch '' '' fmt p s3 = Ok () p s4" "at s4 (CHR '' '' # cs)"
    "rd_buffer s4 = rd_buffer r"
    using at_next [OF s3(2)] s3(3) by (auto simp: expect_ch_def at_Cons Let_def)
  have c: "rd_ch s2 = Some c" using s2(2) by (simp add: at_Cons)
  show ?thesis
    using s1(1) s2(1) s3(1) s4(1,3) at_next [OF s4(2)] c
    by (simp add: read_magic_def bindR_def readerR_def returnR_def Let_def)
qed

lemma parses_bind2:
  assumes "parses m t1 p (a, b) q" "parses (f a b) t2 q y u"
  shows "parses (bindR m (\<lambda>(a, b). f a b)) (t1 @ t2) p y u"
  by (rule parses_bind [OF assms(1)]) (simp add: assms(2))

definition sep :: "bool \<Rightarrow> char" where
  "sep b = (if b then CHR '' '' else CHR ''\<newline>'')"

lemma parses_number:
  "n < 4294967296 \<Longrightarrow> parses (aiger_read_literal cont None) (dec n @ [sep x]) p (n, sep x) p"
  by (rule parses_literal) (auto simp: sep_def)

lemma parses_optional:
  assumes "n < 4294967296" "y \<longrightarrow> x" "\<not> x \<longrightarrow> n = 0" "e = None \<or> e = Some (sep y)"
  shows "parses (read_optional (sep x) cont e) (if x then dec n @ [sep y] else []) p (n, sep y) p"
proof (cases x)
  case True
  have "parses (aiger_read_literal cont e) (dec n @ [sep y]) p (n, sep y) p"
    by (rule parses_literal [OF assms(1)]) (use assms(4) in \<open>auto simp: sep_def\<close>)
  with True show ?thesis by (simp add: read_optional_def sep_def)
next
  case False
  with assms(2,3) have "sep y = CHR ''\<newline>''" "n = 0" by (simp_all add: sep_def)
  with False show ?thesis by (simp add: read_optional_def sep_def parses_return)
qed

definition header_of :: "bool \<Rightarrow> aiger_private \<Rightarrow> header" where
  "header_of binary p = \<lparr>hd_binary = binary, hd_maxvar = maxvar p, hd_inputs = length (inputs p),
     hd_latches = length (latches p), hd_outputs = length (outputs p), hd_ands = length (ands p),
     hd_bad = length (bad p), hd_constraints = length (constraints p), hd_justice = length (justice p),
     hd_fairness = length (fairness p)\<rparr>"

definition small_counts :: "aiger_private \<Rightarrow> bool" where
  "small_counts p \<longleftrightarrow> maxvar p < 4294967295 \<and>
     length (inputs p) < 4294967296 \<and> length (latches p) < 4294967296 \<and>
     length (outputs p) < 4294967296 \<and> length (ands p) < 4294967296 \<and> length (bad p) < 4294967296 \<and>
     length (constraints p) < 4294967296 \<and> length (justice p) < 4294967296 \<and>
     length (fairness p) < 4294967296 \<and> (\<forall>y \<in> set (justice p). length (sym_lits y) < 4294967296)"

lemma parses_counts:
  assumes "small_counts p"
  shows "\<exists>txt. counts_text fmt p = fmt @ '' '' @ txt \<and> parses (read_counts binary) txt q (header_of binary p) q"
proof -
  let ?b = "bad p \<noteq> [] \<or> constraints p \<noteq> [] \<or> justice p \<noteq> [] \<or> fairness p \<noteq> []"
  let ?c = "constraints p \<noteq> [] \<or> justice p \<noteq> [] \<or> fairness p \<noteq> []"
  let ?j = "justice p \<noteq> [] \<or> fairness p \<noteq> []" and ?f = "fairness p \<noteq> []"
  let ?txt = "(dec (maxvar p) @ '' '') @ (dec (length (inputs p)) @ '' '') @ (dec (length (latches p)) @ '' '') @
      (dec (length (outputs p)) @ '' '') @ (dec (length (ands p)) @ [sep ?b]) @
      (if ?b then dec (length (bad p)) @ [sep ?c] else []) @
      (if ?c then dec (length (constraints p)) @ [sep ?j] else []) @
      (if ?j then dec (length (justice p)) @ [sep ?f] else []) @
      (if ?f then dec (length (fairness p)) @ [sep False] else []) @ []"
  have n: "maxvar p < 4294967296" "length (inputs p) < 4294967296" "length (latches p) < 4294967296"
    "length (outputs p) < 4294967296" "length (ands p) < 4294967296" "length (bad p) < 4294967296"
    "length (constraints p) < 4294967296" "length (justice p) < 4294967296" "length (fairness p) < 4294967296"
    using assms by (simp_all add: small_counts_def)
  have "counts_text fmt p = fmt @ '' '' @ ?txt" by (simp add: counts_text_def sep_def)
  moreover have "parses (read_counts binary) ?txt q (header_of binary p) q"
    unfolding read_counts_def header_of_def
    by (rule parses_bind2 [OF parses_word [OF n(1)]] parses_bind2 [OF parses_word [OF n(2)]]
        parses_bind2 [OF parses_word [OF n(3)]] parses_bind2 [OF parses_word [OF n(4)]]
        parses_bind2 [OF parses_number [OF n(5)]] parses_bind2 [OF parses_optional [OF n(6)]]
        parses_bind2 [OF parses_optional [OF n(7)]] parses_bind2 [OF parses_optional [OF n(8)]]
        parses_bind2 [OF parses_optional [OF n(9)]] parses_return; (simp add: sep_def; fail)?)+
  ultimately show ?thesis by blast
qed

end
