(* ===== verification/AigerReadStages.thy ===== *)
theory AigerReadStages
  imports AigerReadBack
begin

text \<open>
  The stages of the readers on the texts of the writers: definitions, latches, the plain lists,
  justice, and the gates of both formats.
\<close>

section \<open>Definitions\<close>

lemma free_less: "good q B \<Longrightarrow> free B l \<Longrightarrow> l < 4294967296"
  using goodD(1,6) [of q B] by (auto simp: free_def wf_aiger_def wf_lits_def)

lemma good_lit_less: "good q B \<Longrightarrow> l div 2 \<le> maxvar B \<Longrightarrow> l < 4294967296"
  using goodD(1,6) [of q B] by (auto simp: wf_aiger_def wf_lits_def)

lemma parses_already:
  assumes "good q B" "free B l"
  shows "parses (aiger_already_defined l) [] q () q"
proof -
  note t = free_type [OF assms]
  have l: "l \<noteq> 0" "l div 2 \<le> maxvar q" using assms(2) goodD(6) [OF assms(1)] by (simp_all add: free_def)
  have "aiger_already_defined l q r = Ok () q r" for r
    using l t by (simp add: aiger_already_defined_def Let_def deref_def undefined_type_def)
  then show ?thesis by (simp add: parses_def)
qed

lemma parses_definition:
  assumes "good q B" "free B l" "c = CHR '' '' \<or> c = CHR ''\<newline>''"
  shows "parses (read_definition cont c fmt) (dec l @ [c]) q l q"
proof -
  have "\<not> bad_definition l q"
    using assms(2) goodD(6) [OF assms(1)] by (simp add: free_def bad_definition_def even_iff_mod_2_eq_zero)
  note r = parses_bind0 [OF parses_reject [where b = "bad_definition l", OF this]
      parses_bind0 [OF parses_already [OF assms(1,2)] parses_return [of l]]]
  have "parses (read_definition cont c fmt) ((dec l @ [c]) @ []) q l q"
    unfolding read_definition_def
    by (rule parses_bind2 [OF parses_literal [OF free_less [OF assms(1,2)] assms(3)]], simp, rule r)
  then show ?thesis by simp
qed

section \<open>The lists of the header\<close>

definition unname :: "aiger_symbol \<Rightarrow> aiger_symbol" where
  "unname y = y\<lparr>sym_name := None\<rparr>"

lemma unname_simps [simp]:
  "sym_lit (unname y) = sym_lit y" "sym_next (unname y) = sym_next y" "sym_reset (unname y) = sym_reset y"
  "sym_lits (unname y) = sym_lits y" "sym_name (unname y) = None"
  by (simp_all add: unname_def)

lemma comp_unname [simp]: "sym_lit \<circ> unname = sym_lit"
  by (simp add: fun_eq_iff)

lemma unname_plain: "plain_symbol y \<Longrightarrow> unname y = new_symbol (sym_lit y) None"
  by (simp add: plain_symbol_def new_symbol_def unname_def aiger_copy_str_def symbol0_def)

lemma unname_latch:
  "sym_lits y = [] \<Longrightarrow> unname y = (new_symbol (sym_lit y) None)\<lparr>sym_next := sym_next y, sym_reset := sym_reset y\<rparr>"
  by (simp add: new_symbol_def unname_def aiger_copy_str_def symbol0_def)

lemma unname_justice:
  "sym_lit y = 0 \<Longrightarrow> sym_next y = 0 \<Longrightarrow> sym_reset y = 0 \<Longrightarrow>
     unname y = (new_symbol 0 None)\<lparr>sym_lits := sym_lits y\<rparr>"
  by (simp add: new_symbol_def unname_def aiger_copy_str_def symbol0_def)

lemma concat_nth: "concat (map (\<lambda>i. f (xs ! i)) [0..<length xs]) = concat (map f xs)"
  using map_nth [of xs] by (metis (no_types, lifting) map_map map_eq_conv comp_apply)

lemma map_take_Suc: "i < length xs \<Longrightarrow> map f (take (Suc i) xs) = map f (take i xs) @ [f (xs ! i)]"
  by (simp add: take_Suc_conv_app_nth)

text \<open>A loop that appends the elements of a list, one per iteration.\<close>

lemma parses_list:
  assumes "I [] p" and "\<And>i q. i < length xs \<Longrightarrow> I (take i xs) q \<Longrightarrow>
      \<exists>u. parses (f i) (t (xs ! i)) q () u \<and> I (take i xs @ [xs ! i]) u"
  shows "\<exists>q. parses (loopR f [0..<length xs]) (concat (map t xs)) p () q \<and> I xs q"
proof -
  have "\<exists>q. parses (loopR f [0..<length xs]) (concat (map (\<lambda>i. t (xs ! i)) [0..<length xs])) p () q \<and>
      I (take (length xs) xs) q"
    by (rule parses_loop0 [where I = "\<lambda>i. I (take i xs)"])
      (use assms in \<open>simp_all add: take_Suc_conv_app_nth\<close>)
  then show ?thesis by (simp add: concat_nth)
qed

lemma not_in_take:
  assumes "distinct (map f xs)" "i < length xs"
  shows "f (xs ! i) \<notin> f ` set (take i xs)"
proof
  assume "f (xs ! i) \<in> f ` set (take i xs)"
  then obtain j where "j < i" "f (xs ! j) = f (xs ! i)" using assms(2) by (auto simp: in_set_conv_nth)
  with assms show False by (auto simp: distinct_conv_nth)
qed

lemma empty_list:
  fixes B :: aiger
  shows "inputs B = [] \<Longrightarrow> B\<lparr>inputs := []\<rparr> = B" "latches B = [] \<Longrightarrow> B\<lparr>latches := []\<rparr> = B"
    "outputs B = [] \<Longrightarrow> B\<lparr>outputs := []\<rparr> = B" "bad B = [] \<Longrightarrow> B\<lparr>bad := []\<rparr> = B"
    "constraints B = [] \<Longrightarrow> B\<lparr>constraints := []\<rparr> = B" "justice B = [] \<Longrightarrow> B\<lparr>justice := []\<rparr> = B"
    "fairness B = [] \<Longrightarrow> B\<lparr>fairness := []\<rparr> = B" "ands B = [] \<Longrightarrow> B\<lparr>ands := []\<rparr> = B"
  by (cases B; simp)+

lemma parses_inputs:
  assumes good: "good q B" and empty: "inputs B = []" "latches B = []" "ands B = []"
    and d: "distinct (map sym_lit ys)"
    and ys: "\<forall>y \<in> set ys. plain_symbol y \<and> even (sym_lit y) \<and> 0 < sym_lit y \<and> sym_lit y div 2 \<le> maxvar B"
    and b: "\<And>i. hd_binary h \<Longrightarrow> i < length ys \<Longrightarrow> sym_lit (ys ! i) = 2 * Suc i"
  shows "\<exists>u. parses (loopR (read_input h) [0..<length ys])
       (concat (map (\<lambda>y. if hd_binary h then [] else line (sym_lit y)) ys)) q () u \<and>
     good u (B\<lparr>inputs := map unname ys\<rparr>)"
proof (rule parses_list [where I = "\<lambda>xs u. good u (B\<lparr>inputs := map unname xs\<rparr>)"])
  show "good q (B\<lparr>inputs := map unname []\<rparr>)" using good empty(1) by (simp add: empty_list)
next
  fix i u assume i: "i < length ys" and u: "good u (B\<lparr>inputs := map unname (take i ys)\<rparr>)"
  let ?B = "B\<lparr>inputs := map unname (take i ys)\<rparr>" and ?l = "sym_lit (ys ! i)"
  have "ys ! i \<in> set ys" using i by simp
  with ys have y: "plain_symbol (ys ! i)" "even ?l" "0 < ?l" "?l div 2 \<le> maxvar B" by blast+
  have f: "free ?B ?l"
    using y empty not_in_take [OF d i] by (simp add: free_def image_image)
  from good_add_input [OF u f] obtain w where
    w: "aiger_add_input u ?l None = Some w" "good w (?B\<lparr>inputs := inputs ?B @ [new_symbol ?l None]\<rparr>)" by blast
  have read: "parses (if \<not> hd_binary h then read_definition ''input literal'' CHR ''\<newline>'' ''line %u: literal %u is not a valid input''
            else returnR (u32 (2 * (i + 1)))) (if hd_binary h then [] else line ?l) u ?l u"
  proof (cases "hd_binary h")
    case True
    then show ?thesis using b [OF True i] parses_return [of ?l u] free_less [OF u f] by simp
  qed (simp add: line_def parses_definition [OF u f])
  have "parses (read_input h i) ((if hd_binary h then [] else line ?l) @ []) u () w"
    unfolding read_input_def
    by (rule parses_bind [OF read], rule parses_api [where f = "\<lambda>p. aiger_add_input p ?l None", OF w(1)])
  with w(2) show "\<exists>w. parses (read_input h i) (if hd_binary h then [] else line ?l) u () w \<and>
      good w (B\<lparr>inputs := map unname (take i ys @ [ys ! i])\<rparr>)"
    by (auto simp: unname_plain [OF y(1)])
qed


lemma parses_latches:
  assumes good: "good q B" and empty: "latches B = []" "ands B = []"
    and d: "distinct (map sym_lit ys)" "sym_lit ` set ys \<inter> sym_lit ` set (inputs B) = {}"
    and ys: "\<forall>y \<in> set ys. sym_lits y = [] \<and> even (sym_lit y) \<and> 0 < sym_lit y \<and> sym_lit y div 2 \<le> maxvar B \<and>
      sym_next y div 2 \<le> maxvar B \<and> (sym_reset y \<le> 1 \<or> sym_reset y = sym_lit y)"
    and b: "\<And>i. hd_binary h \<Longrightarrow> i < length ys \<Longrightarrow> sym_lit (ys ! i) = 2 * (i + hd_inputs h + 1)"
  shows "\<exists>u. parses (loopR (read_latch h) [0..<length ys]) (concat (map (latch_text (hd_binary h)) ys)) q () u \<and>
     good u (B\<lparr>latches := map unname ys\<rparr>)"
proof (rule parses_list [where I = "\<lambda>xs u. good u (B\<lparr>latches := map unname xs\<rparr>)"])
  show "good q (B\<lparr>latches := map unname []\<rparr>)" using good empty(1) by (simp add: empty_list)
next
  fix i u assume i: "i < length ys" and u: "good u (B\<lparr>latches := map unname (take i ys)\<rparr>)"
  let ?B = "B\<lparr>latches := map unname (take i ys)\<rparr>" and ?y = "ys ! i"
  let ?l = "sym_lit ?y" and ?n = "sym_next ?y" and ?r = "sym_reset ?y"
  have mem: "?y \<in> set ys" using i by simp
  with ys have y: "sym_lits ?y = []" "even ?l" "0 < ?l" "?l div 2 \<le> maxvar B" "?n div 2 \<le> maxvar B"
    "?r \<le> 1 \<or> ?r = ?l" by blast+
  have "?l \<notin> sym_lit ` set (inputs B)" using d(2) mem by blast
  then have f: "free ?B ?l"
    using y empty not_in_take [OF d(1) i] by (simp add: free_def image_image)
  have n: "?n div 2 \<le> maxvar ?B" using y(5) by simp
  from good_add_latch [OF u f n y(6)] obtain w v where
    w: "aiger_add_latch u ?l ?n None = Some w"
      "good w (?B\<lparr>latches := latches ?B @ [(new_symbol ?l None)\<lparr>sym_next := ?n\<rparr>]\<rparr>)" and
    v: "aiger_add_reset w ?l ?r = Some v"
      "good v (?B\<lparr>latches := latches ?B @ [(new_symbol ?l None)\<lparr>sym_next := ?n, sym_reset := ?r\<rparr>]\<rparr>)" by blast
  have less: "?l < 4294967296" "?n < 4294967296" using free_less [OF u f] good_lit_less [OF u n] .
  then have r: "?r < 4294967296" using y(6) by auto
  have read: "parses (if \<not> hd_binary h then read_definition ''latch literal'' CHR '' '' ''line %u: literal %u is not a valid latch''
            else returnR (u32 (2 * (i + hd_inputs h + 1)))) (if hd_binary h then [] else dec ?l @ '' '') u ?l u"
  proof (cases "hd_binary h")
    case True
    then show ?thesis using b [OF True i] parses_return [of ?l u] less(1) by simp
  qed (simp add: parses_definition [OF u f])
  have nb: "\<not> bad_literal ?n u" using n goodD(6) [OF u] by (simp add: bad_literal_def)
  have res: "\<exists>x. parses (if c = CHR '' '' then
       bindR (aiger_read_literal ''reset literal'' (Some CHR ''\<newline>'')) (\<lambda>(reset, _). apiR (\<lambda>p. aiger_add_reset p ?l reset))
     else returnR ()) (if ?r \<noteq> 0 then dec ?r @ ''\<newline>'' else []) w () x \<and>
      good x (B\<lparr>latches := map unname (take i ys @ [?y])\<rparr>)" if c: "c = sep (?r \<noteq> 0)" for c
  proof (cases "?r = 0")
    case True
    have "unname ?y = (new_symbol ?l None)\<lparr>sym_next := ?n\<rparr>"
      using True unname_latch [OF y(1)] by (simp add: new_symbol_def symbol0_def)
    with w(2) have "good w (B\<lparr>latches := map unname (take i ys @ [?y])\<rparr>)" by simp
    with True c show ?thesis using parses_return [of "()" w] by (auto simp: sep_def)
  next
    case False
    have "parses (bindR (aiger_read_literal ''reset literal'' (Some CHR ''\<newline>''))
        (\<lambda>(reset, _). apiR (\<lambda>p. aiger_add_reset p ?l reset))) ((dec ?r @ ''\<newline>'') @ []) w () v"
      by (rule parses_bind2 [OF parses_line [OF r]]) (rule parses_api [where f = "\<lambda>p. aiger_add_reset p ?l ?r", OF v(1)])
    moreover have "good v (B\<lparr>latches := map unname (take i ys @ [?y])\<rparr>)"
      using v(2) by (simp add: unname_latch [OF y(1)])
    ultimately show ?thesis using False c by (auto simp: sep_def)
  qed
  from res [OF refl] obtain x where x: "parses (if sep (?r \<noteq> 0) = CHR '' '' then
       bindR (aiger_read_literal ''reset literal'' (Some CHR ''\<newline>'')) (\<lambda>(reset, _). apiR (\<lambda>p. aiger_add_reset p ?l reset))
     else returnR ()) (if ?r \<noteq> 0 then dec ?r @ ''\<newline>'' else []) w () x"
    "good x (B\<lparr>latches := map unname (take i ys @ [?y])\<rparr>)" by blast
  have "parses (read_latch h i) ((if hd_binary h then [] else dec ?l @ '' '') @
      (dec ?n @ [sep (?r \<noteq> 0)]) @ (if ?r \<noteq> 0 then dec ?r @ ''\<newline>'' else [])) u () x"
    unfolding read_latch_def
    by (rule parses_bind [OF read] parses_bind2 [OF parses_number [OF less(2)]]
        parses_bind0 [OF parses_reject [where b = "bad_literal ?n", OF nb]]
        parses_bind0 [OF parses_api [where f = "\<lambda>p. aiger_add_latch p ?l ?n None", OF w(1)]] x(1))+
  moreover have "latch_text (hd_binary h) ?y = (if hd_binary h then [] else dec ?l @ '' '') @
      (dec ?n @ [sep (?r \<noteq> 0)]) @ (if ?r \<noteq> 0 then dec ?r @ ''\<newline>'' else [])"
    by (simp add: latch_text_def sep_def)
  ultimately show "\<exists>x. parses (read_latch h i) (latch_text (hd_binary h) ?y) u () x \<and>
      good x (B\<lparr>latches := map unname (take i ys @ [?y])\<rparr>)" using x(2) by metis
qed

lemma parses_plain_step:
  assumes "good u B" "l div 2 \<le> maxvar B"
  shows "parses (read_plain cont fmt add i) (line l) u () (add u l None)"
proof -
  have nb: "\<not> bad_literal l u" using assms goodD(6) [OF assms(1)] by (simp add: bad_literal_def)
  have "parses (read_plain cont fmt add i) ((dec l @ ''\<newline>'') @ []) u () (add u l None)"
    unfolding read_plain_def
    by (rule parses_bind2 [OF parses_line [OF good_lit_less [OF assms]]])
      (rule parses_bind0 [OF parses_reject [where b = "bad_literal l", OF nb]],
       rule parses_api [where f = "\<lambda>p. Some (add p l None)", OF refl])
  then show ?thesis by (simp add: line_def)
qed

lemma parses_plain:
  assumes good: "good q (B [])"
    and add: "\<And>xs u l. good u (B xs) \<Longrightarrow> l div 2 \<le> m \<Longrightarrow> good (add u l None) (B (xs @ [new_symbol l None]))"
    and m: "\<And>xs. maxvar (B xs) = m"
    and ys: "\<forall>y \<in> set ys. plain_symbol y \<and> sym_lit y div 2 \<le> m"
  shows "\<exists>u. parses (loopR (read_plain cont fmt add) [0..<length ys]) (lits_text (map sym_lit ys)) q () u \<and>
     good u (B (map unname ys))"
proof -
  have "\<exists>u. parses (loopR (read_plain cont fmt add) [0..<length ys]) (concat (map (\<lambda>y. line (sym_lit y)) ys)) q () u \<and>
     good u (B (map unname ys))"
  proof (rule parses_list [where I = "\<lambda>xs u. good u (B (map unname xs))"])
    show "good q (B (map unname []))" using good by simp
  next
    fix i u assume i: "i < length ys" and u: "good u (B (map unname (take i ys)))"
    have "ys ! i \<in> set ys" using i by simp
    with ys have y: "plain_symbol (ys ! i)" "sym_lit (ys ! i) div 2 \<le> m" by blast+
    have "parses (read_plain cont fmt add i) (line (sym_lit (ys ! i))) u () (add u (sym_lit (ys ! i)) None)"
      by (rule parses_plain_step [OF u]) (simp add: m y(2))
    with add [OF u y(2)] show "\<exists>w. parses (read_plain cont fmt add i) (line (sym_lit (ys ! i))) u () w \<and>
        good w (B (map unname (take i ys @ [ys ! i])))" by (auto simp: unname_plain [OF y(1)])
  qed
  then show ?thesis by (simp add: lits_text_def comp_def)
qed


lemma loopR_map: "loopR f (map g xs) = loopR (\<lambda>x. f (g x)) xs"
  by (induction xs) simp_all

lemma loopR_nth: "loopR f xs = loopR (\<lambda>i. f (xs ! i)) [0..<length xs]"
  using loopR_map [of f "\<lambda>i. xs ! i" "[0..<length xs]"] by (simp add: map_nth)

lemma parses_lits:
  assumes "\<forall>n \<in> set ns. n < 4294967296"
  shows "parses (collectR (aiger_read_literal cont (Some CHR ''\<newline>'')) (length ns)) (lits_text ns) q
     (map (\<lambda>n. (n, CHR ''\<newline>'')) ns) q"
proof -
  let ?xs = "map (\<lambda>n. (n, CHR ''\<newline>'')) ns"
  have "parses (collectR (aiger_read_literal cont (Some CHR ''\<newline>'')) (length ?xs))
      (concat (map (\<lambda>(n, _). dec n @ ''\<newline>'') ?xs)) q ?xs q"
    by (rule parses_collect) (use assms in \<open>simp add: parses_line\<close>)
  moreover have "concat (map (\<lambda>(n, _). dec n @ ''\<newline>'') ?xs) = lits_text ns"
    by (simp add: lits_text_def comp_def line_def [abs_def])
  ultimately show ?thesis by simp
qed

lemma parses_justice_step:
  assumes u: "good u B" and ls: "\<forall>l \<in> set ls. l div 2 \<le> maxvar B"
  shows "parses (read_justice_lits (length ls)) (lits_text ls) u () (aiger_add_justice u ls None)"
proof -
  have less: "\<forall>l \<in> set ls. l < 4294967296" using ls good_lit_less [OF u] by blast
  have "parses (read_justice_lits (length ls)) (lits_text ls @ []) u () (aiger_add_justice u ls None)"
    unfolding read_justice_lits_def
    by (rule parses_bind [OF parses_lits [OF less]], rule parses_api) (simp add: comp_def)
  then show ?thesis by simp
qed

lemma parses_justice:
  assumes good: "good q B" and empty: "justice B = []" and h: "hd_justice h = length ys"
    and ys: "\<forall>y \<in> set ys. sym_lit y = 0 \<and> sym_next y = 0 \<and> sym_reset y = 0 \<and>
      length (sym_lits y) < 4294967296 \<and> (\<forall>l \<in> set (sym_lits y). l div 2 \<le> maxvar B)"
  shows "\<exists>u. parses (read_justice h) (lits_text (map (length \<circ> sym_lits) ys) @ concat (map (lits_text \<circ> sym_lits) ys)) q () u \<and>
     good u (B\<lparr>justice := map unname ys\<rparr>)"
proof (cases "ys = []")
  case True
  then show ?thesis using good empty h parses_return [of "()" q]
    by (auto simp: read_justice_def lits_text_def empty_list)
next
  case False
  let ?ns = "map (length \<circ> sym_lits) ys"
  have "\<exists>u. parses (loopR (\<lambda>i. read_justice_lits (?ns ! i)) [0..<length ys]) (concat (map (lits_text \<circ> sym_lits) ys)) q () u \<and>
     good u (B\<lparr>justice := map unname ys\<rparr>)"
  proof (rule parses_list [where I = "\<lambda>xs u. good u (B\<lparr>justice := map unname xs\<rparr>)"])
    show "good q (B\<lparr>justice := map unname []\<rparr>)" using good empty by (simp add: empty_list)
  next
    fix i u assume i: "i < length ys" and u: "good u (B\<lparr>justice := map unname (take i ys)\<rparr>)"
    let ?y = "ys ! i" and ?B = "B\<lparr>justice := map unname (take i ys)\<rparr>"
    have "?y \<in> set ys" using i by simp
    with ys have y: "sym_lit ?y = 0" "sym_next ?y = 0" "sym_reset ?y = 0"
      "\<forall>l \<in> set (sym_lits ?y). l div 2 \<le> maxvar ?B" by auto
    have "good (aiger_add_justice u (sym_lits ?y) None) (B\<lparr>justice := map unname (take i ys @ [?y])\<rparr>)"
      using good_add_justice [OF u y(4)] by (simp add: unname_justice [OF y(1-3)])
    with parses_justice_step [OF u y(4)] i
    show "\<exists>w. parses (read_justice_lits (?ns ! i)) ((lits_text \<circ> sym_lits) ?y) u () w \<and>
        good w (B\<lparr>justice := map unname (take i ys @ [?y])\<rparr>)" by auto
  qed
  then obtain u where u: "parses (loopR read_justice_lits ?ns) (concat (map (lits_text \<circ> sym_lits) ys)) q () u"
    "good u (B\<lparr>justice := map unname ys\<rparr>)" using loopR_nth [of read_justice_lits ?ns] by auto
  have less: "\<forall>n \<in> set ?ns. n < 4294967296" using ys by auto
  have "parses (bindR (collectR (aiger_read_literal ''justice constraint size'' (Some CHR ''\<newline>'')) (length ?ns))
      (\<lambda>sizes. loopR read_justice_lits (map fst sizes)))
      (lits_text ?ns @ concat (map (lits_text \<circ> sym_lits) ys)) q () u"
    by (rule parses_bind [OF parses_lits [OF less]]) (use u(1) in \<open>simp add: comp_def\<close>)
  then have "parses (read_justice h) (lits_text ?ns @ concat (map (lits_text \<circ> sym_lits) ys)) q () u"
    using False h by (simp add: read_justice_def)
  with u(2) show ?thesis by blast
qed

section \<open>The gates\<close>

lemma parses_ands:
  assumes good: "good q B" and empty: "ands B = []"
    and d: "distinct (map and_lhs gs)"
      "\<forall>g \<in> set gs. and_lhs g \<notin> sym_lit ` set (inputs B) \<and> and_lhs g \<notin> sym_lit ` set (latches B)"
    and gs: "\<forall>g \<in> set gs. even (and_lhs g) \<and> 0 < and_lhs g \<and> and_lhs g div 2 \<le> maxvar B \<and>
      and_rhs0 g div 2 \<le> maxvar B \<and> and_rhs1 g div 2 \<le> maxvar B"
    and step: "\<And>i u w B'. i < length gs \<Longrightarrow> good u B' \<Longrightarrow> maxvar B' = maxvar B \<Longrightarrow> free B' (and_lhs (gs ! i)) \<Longrightarrow>
      aiger_add_and u (and_lhs (gs ! i)) (and_rhs0 (gs ! i)) (and_rhs1 (gs ! i)) = Some w \<Longrightarrow>
      parses (f i) (t (gs ! i)) u () w"
  shows "\<exists>u. parses (loopR f [0..<length gs]) (concat (map t gs)) q () u \<and> good u (B\<lparr>ands := gs\<rparr>)"
proof (rule parses_list [where I = "\<lambda>xs u. good u (B\<lparr>ands := xs\<rparr>)"])
  show "good q (B\<lparr>ands := []\<rparr>)" using good empty by (simp add: empty_list)
next
  fix i u assume i: "i < length gs" and u: "good u (B\<lparr>ands := take i gs\<rparr>)"
  let ?g = "gs ! i" and ?B = "B\<lparr>ands := take i gs\<rparr>"
  have mem: "?g \<in> set gs" using i by simp
  with gs have g: "even (and_lhs ?g)" "0 < and_lhs ?g" "and_lhs ?g div 2 \<le> maxvar ?B"
    "and_rhs0 ?g div 2 \<le> maxvar ?B" "and_rhs1 ?g div 2 \<le> maxvar ?B" by simp_all
  have f: "free ?B (and_lhs ?g)"
    using g(1-3) d(2) mem not_in_take [OF d(1) i] by (simp add: free_def)
  from good_add_and [OF u f g(4,5)] obtain w where
    w: "aiger_add_and u (and_lhs ?g) (and_rhs0 ?g) (and_rhs1 ?g) = Some w"
      "good w (?B\<lparr>ands := ands ?B @ [\<lparr>and_lhs = and_lhs ?g, and_rhs0 = and_rhs0 ?g, and_rhs1 = and_rhs1 ?g\<rparr>]\<rparr>)"
    by blast
  have "\<lparr>and_lhs = and_lhs ?g, and_rhs0 = and_rhs0 ?g, and_rhs1 = and_rhs1 ?g\<rparr> = ?g" by (cases ?g) simp
  with w(2) have w2: "good w (B\<lparr>ands := take i gs @ [?g]\<rparr>)" by simp
  from step [OF i u _ f w(1)] w2
  show "\<exists>w. parses (f i) (t ?g) u () w \<and> good w (B\<lparr>ands := take i gs @ [?g]\<rparr>)" by auto
qed

lemma parses_and_step:
  assumes u: "good u B" and f: "free B l" and r: "a div 2 \<le> maxvar B" "b div 2 \<le> maxvar B"
    and w: "aiger_add_and u l a b = Some w"
  shows "parses (read_and i) (dec l @ '' '' @ dec a @ '' '' @ dec b @ ''\<newline>'') u () w"
proof -
  have nb: "\<not> bad_literal a u" "\<not> bad_literal b u" using r goodD(6) [OF u] by (simp_all add: bad_literal_def)
  have "parses (read_and i) ((dec l @ '' '') @ (dec a @ '' '') @ (dec b @ ''\<newline>'') @ []) u () w"
    unfolding read_and_def
    by (rule parses_bind [OF parses_definition [OF u f disjI1 [OF refl]]] parses_bind2 [OF parses_word [OF good_lit_less [OF u r(1)]]]
        parses_bind2 [OF parses_line [OF good_lit_less [OF u r(2)]]]
        parses_bind0 [OF parses_reject [where b = "bad_literal a", OF nb(1)]]
        parses_bind0 [OF parses_reject [where b = "bad_literal b", OF nb(2)]]
        parses_api [where f = "\<lambda>p. aiger_add_and p l a b", OF w])+
  then show ?thesis by simp
qed

lemma parses_ascii_ands:
  assumes good: "good q B" and empty: "ands B = []" and h: "hd_ands h = length gs"
    and d: "distinct (map and_lhs gs)"
      "\<forall>g \<in> set gs. and_lhs g \<notin> sym_lit ` set (inputs B) \<and> and_lhs g \<notin> sym_lit ` set (latches B)"
    and gs: "\<forall>g \<in> set gs. even (and_lhs g) \<and> 0 < and_lhs g \<and> and_lhs g div 2 \<le> maxvar B \<and>
      and_rhs0 g div 2 \<le> maxvar B \<and> and_rhs1 g div 2 \<le> maxvar B"
  shows "\<exists>u. parses (aiger_read_ascii h) (concat (map and_text gs)) q () u \<and> good u (B\<lparr>ands := gs\<rparr>)"
  unfolding aiger_read_ascii_def h
proof (rule parses_ands [OF good empty d gs])
  fix i u w B'
  assume i: "i < length gs" and u: "good u B'" "maxvar B' = maxvar B" "free B' (and_lhs (gs ! i))"
    "aiger_add_and u (and_lhs (gs ! i)) (and_rhs0 (gs ! i)) (and_rhs1 (gs ! i)) = Some w"
  have "gs ! i \<in> set gs" using i by simp
  with gs u(2) have r: "and_rhs0 (gs ! i) div 2 \<le> maxvar B'" "and_rhs1 (gs ! i) div 2 \<le> maxvar B'" by simp_all
  from parses_and_step [OF u(1,3) r u(4)]
  show "parses (read_and i) (and_text (gs ! i)) u () w" by (simp add: and_text_def)
qed

lemma parses_delta_step:
  assumes l: "l < 4294967296" and r: "a \<le> l" "b \<le> a" and w: "aiger_add_and u l a b = Some w"
  shows "parses (read_binary_and l) (delta_code (l - a) @ delta_code (a - b)) u () w"
proof (rule parsesI)
  fix rd cs assume "at rd ((delta_code (l - a) @ delta_code (a - b)) @ cs)"
  then have at: "at rd (delta_code (l - a) @ delta_code (a - b) @ cs)" by simp
  have la: "l - a < 4294967296" "a - b < 4294967296" using l r by simp_all
  obtain s where s: "aiger_read_delta u rd = Ok (l - a) u s" "at s (delta_code (a - b) @ cs)" "rd_buffer s = rd_buffer rd"
    using parsesE [OF parses_delta [OF la(1), of u] at] by blast
  obtain t where t: "aiger_read_delta u s = Ok (a - b) u t" "at t cs" "rd_buffer t = rd_buffer s"
    using parsesE [OF parses_delta [OF la(2), of u] s(2)] by blast
  have "\<not> l < l - a" "\<not> a < a - b" "l - (l - a) = a" "a - (a - b) = b" using r by simp_all
  then have "read_binary_and l u rd = Ok () w t"
    using s(1) t(1) w by (simp add: read_binary_and_def bindR_def invalid_delta_def apiR_def Let_def)
  with s(3) t(2,3) show "\<exists>s. read_binary_and l u rd = Ok () w s \<and> at s cs \<and> rd_buffer s = rd_buffer rd" by simp
qed

lemma parses_binary_ands:
  assumes good: "good q B" and empty: "ands B = []" and h: "hd_ands h = length gs"
    and d: "distinct (map and_lhs gs)"
      "\<forall>g \<in> set gs. and_lhs g \<notin> sym_lit ` set (inputs B) \<and> and_lhs g \<notin> sym_lit ` set (latches B)"
    and gs: "\<forall>g \<in> set gs. even (and_lhs g) \<and> 0 < and_lhs g \<and> and_lhs g div 2 \<le> maxvar B \<and>
      and_rhs0 g div 2 \<le> maxvar B \<and> and_rhs1 g div 2 \<le> maxvar B"
    and r: "\<forall>g \<in> set gs. and_rhs0 g \<le> and_lhs g \<and> and_rhs1 g \<le> and_rhs0 g"
    and m: "aiger_max_input_or_latch q = Some m" "map and_lhs gs = map (\<lambda>i. m + 2 * Suc i) [0..<length gs]"
  shows "\<exists>u. parses (aiger_read_binary h) (concat (map and_code gs)) q () u \<and> good u (B\<lparr>ands := gs\<rparr>)"
proof -
  have "\<exists>u. parses (loopR (\<lambda>i. read_binary_and (u32 (m + 2 * Suc i))) [0..<length gs]) (concat (map and_code gs)) q () u \<and>
      good u (B\<lparr>ands := gs\<rparr>)"
  proof (rule parses_ands [OF good empty d gs])
    fix i u w B'
    assume i: "i < length gs" and u: "good u B'" "maxvar B' = maxvar B" "free B' (and_lhs (gs ! i))"
      "aiger_add_and u (and_lhs (gs ! i)) (and_rhs0 (gs ! i)) (and_rhs1 (gs ! i)) = Some w"
    have mem: "gs ! i \<in> set gs" using i by simp
    have "and_lhs (gs ! i) = map and_lhs gs ! i" using i by simp
    also have "\<dots> = m + 2 * Suc i" unfolding m(2) using i by simp
    finally have lhs: "u32 (m + 2 * Suc i) = and_lhs (gs ! i)" using free_less [OF u(1,3)] by simp
    show "parses (read_binary_and (u32 (m + 2 * Suc i))) (and_code (gs ! i)) u () w"
      unfolding lhs and_code_def
      by (rule parses_delta_step [OF free_less [OF u(1,3)] _ _ u(4)]) (use r mem in blast)+
  qed
  then obtain u where u: "parses (loopR (\<lambda>i. read_binary_and (u32 (m + 2 * Suc i))) [0..<length gs])
      (concat (map and_code gs)) q () u" "good u (B\<lparr>ands := gs\<rparr>)" by blast
  have "parses (aiger_read_binary h) (concat (map and_code gs)) q () u"
    using u(1) m(1) h by (simp add: parses_def aiger_read_binary_def)
  with u(2) show ?thesis by blast
qed

end
