(* ===== verification/AigerReadCore.thy ===== *)
theory AigerReadCore
  imports AigerReadStages
begin

text \<open>
  The header and the gates together: a reader that stands at the text of a readable structure ends
  with its public part, without names and comments.
\<close>

section \<open>Structures that can be read back\<close>

definition readable :: "aiger_private \<Rightarrow> bool" where
  "readable p \<longleftrightarrow>
     maxvar p < 2147483648 \<and> lits_below (maxvar p) p \<and> wf_resets p \<and> wf_names p \<and> shaped p \<and> small_counts p \<and>
     distinct (map sym_lit (inputs p) @ map sym_lit (latches p) @ map and_lhs (ands p)) \<and>
     (\<forall>l \<in> set (map sym_lit (inputs p) @ map sym_lit (latches p) @ map and_lhs (ands p)). even l \<and> 0 < l)"

text \<open>The public part without names and comments, and without gates.\<close>

definition gateless :: "aiger_private \<Rightarrow> aiger" where
  "gateless p = \<lparr>maxvar = maxvar p, inputs = map unname (inputs p), latches = map unname (latches p),
     outputs = map unname (outputs p), bad = map unname (bad p), constraints = map unname (constraints p),
     justice = map unname (justice p), fairness = map unname (fairness p), ands = [], comments = [None]\<rparr>"

definition blank :: "uint \<Rightarrow> aiger" where
  "blank m = \<lparr>maxvar = m, inputs = [], latches = [], outputs = [], bad = [], constraints = [], justice = [],
     fairness = [], ands = [], comments = [None]\<rparr>"

lemma blank_simps [simp]:
  "maxvar (blank m) = m" "inputs (blank m) = []" "latches (blank m) = []" "outputs (blank m) = []" "bad (blank m) = []"
  "constraints (blank m) = []" "justice (blank m) = []" "fairness (blank m) = []" "ands (blank m) = []"
  by (simp_all add: blank_def)

lemma good_blank:
  assumes "m < 2147483648"
  shows "good (aiger_init\<lparr>maxvar := m, types := fit_types (u32 (m + 1)) (types aiger_init)\<rparr>) (blank m)"
  using assms unfolding good_def unmarked_types_def list_all_length
  by (simp add: aiger_init_def aiger_init_mem_def fit_types_def blank_def aiger.truncate_def
      wf_aiger_def wf_types_def wf_rest_defs kind_ok_def kinds_disjoint_def all_symbols_def lits_below_def ok_name_def
      del: replicate_Suc)

section \<open>The header\<close>

definition lists_text :: "bool \<Rightarrow> aiger_private \<Rightarrow> string" where
  "lists_text compact p =
     (if compact then [] else lits_text (map sym_lit (inputs p))) @
     concat (map (latch_text compact) (latches p)) @
     lits_text (map sym_lit (outputs p)) @ lits_text (map sym_lit (bad p)) @
     lits_text (map sym_lit (constraints p)) @ lits_text (map (length \<circ> sym_lits) (justice p)) @
     concat (map (lits_text \<circ> sym_lits) (justice p)) @ lits_text (map sym_lit (fairness p))"

lemma readableD:
  assumes "readable p"
  shows "maxvar p < 2147483648" "lits_below (maxvar p) p" "wf_resets p" "wf_names p" "shaped p" "small_counts p"
    "distinct (map sym_lit (inputs p))" "distinct (map sym_lit (latches p))" "distinct (map and_lhs (ands p))"
    "sym_lit ` set (latches p) \<inter> sym_lit ` set (inputs p) = {}"
    "\<And>g. g \<in> set (ands p) \<Longrightarrow> and_lhs g \<notin> sym_lit ` set (inputs p) \<and> and_lhs g \<notin> sym_lit ` set (latches p)"
    "\<And>y. y \<in> set (inputs p) \<Longrightarrow> even (sym_lit y) \<and> 0 < sym_lit y"
    "\<And>y. y \<in> set (latches p) \<Longrightarrow> even (sym_lit y) \<and> 0 < sym_lit y"
    "\<And>g. g \<in> set (ands p) \<Longrightarrow> even (and_lhs g) \<and> 0 < and_lhs g"
  using assms unfolding readable_def by (simp_all add: image_iff) (blast | metis)+

definition binary_form :: "aiger_private \<Rightarrow> bool" where
  "binary_form p \<longleftrightarrow> reencoded_form p \<and> maxvar p = length (inputs p) + length (latches p) + length (ands p)"

lemma seq_lits_nth: "map f xs = seq_lits a (length xs) \<Longrightarrow> i < length xs \<Longrightarrow> f (xs ! i) = 2 * (i + a + 1)"
  by (drule arg_cong [where f = "\<lambda>ys. ys ! i"]) (simp add: seq_lits_def)

lemma parses_lists:
  assumes p: "readable p" and good: "good q (blank (maxvar p))" and b: "binary \<longrightarrow> binary_form p"
  shows "\<exists>u. parses (read_lists (header_of binary p)) (lists_text binary p) q () u \<and> good u (gateless p)"
proof -
  note r = readableD [OF p] and f = b [unfolded binary_form_def reencoded_form_def]
  let ?h = "header_of binary p"
  note lb = r(2) [unfolded lits_below_def] and sh = r(5) [unfolded shaped_def]
  define B where "B = (blank (maxvar p))\<lparr>inputs := map unname (inputs p)\<rparr>"
  define C where "C = B\<lparr>latches := map unname (latches p)\<rparr>"
  define D where "D = C\<lparr>outputs := map unname (outputs p)\<rparr>"
  define E where "E = D\<lparr>bad := map unname (bad p)\<rparr>"
  define F where "F = E\<lparr>constraints := map unname (constraints p)\<rparr>"
  define G where "G = F\<lparr>justice := map unname (justice p)\<rparr>"
  have m: "maxvar B = maxvar p" "maxvar C = maxvar p" "maxvar D = maxvar p" "maxvar E = maxvar p"
    "maxvar F = maxvar p" "maxvar G = maxvar p"
    by (simp_all add: B_def C_def D_def E_def F_def G_def)
  have h: "hd_binary ?h = binary" "hd_inputs ?h = length (inputs p)" "hd_latches ?h = length (latches p)"
    "hd_outputs ?h = length (outputs p)" "hd_bad ?h = length (bad p)" "hd_constraints ?h = length (constraints p)"
    "hd_justice ?h = length (justice p)" "hd_fairness ?h = length (fairness p)"
    by (simp_all add: header_of_def)
  have t: "concat (map (\<lambda>y. if hd_binary ?h then [] else line (sym_lit y)) (inputs p)) =
      (if binary then [] else lits_text (map sym_lit (inputs p)))"
    unfolding h(1) by (simp add: lits_text_def comp_def)
  have "\<exists>u. parses (loopR (read_input ?h) [0..<length (inputs p)])
       (concat (map (\<lambda>y. if hd_binary ?h then [] else line (sym_lit y)) (inputs p))) q () u \<and> good u B"
    unfolding B_def
    by (rule parses_inputs [OF good])
      (use r(7,12) lb sh f seq_lits_nth [of sym_lit "inputs p" 0] h in \<open>auto simp: header_of_def\<close>)
  then obtain u1 where 1: "parses (loopR (read_input ?h) [0..<length (inputs p)])
       (if binary then [] else lits_text (map sym_lit (inputs p))) q () u1" "good u1 B"
    unfolding t by blast
  have "\<exists>u. parses (loopR (read_latch ?h) [0..<length (latches p)])
      (concat (map (latch_text (hd_binary ?h)) (latches p))) u1 () u \<and> good u C"
    unfolding C_def
  proof (rule parses_latches [OF 1(2)])
    show "\<forall>y \<in> set (latches p). sym_lits y = [] \<and> even (sym_lit y) \<and> 0 < sym_lit y \<and> sym_lit y div 2 \<le> maxvar B \<and>
      sym_next y div 2 \<le> maxvar B \<and> (sym_reset y \<le> 1 \<or> sym_reset y = sym_lit y)"
      using r(3,13) lb sh by (simp add: m wf_resets_def)
    show "sym_lit ` set (latches p) \<inter> sym_lit ` set (inputs B) = {}"
      using r(10) by (simp add: B_def image_image)
    show "sym_lit (latches p ! i) = 2 * (i + hd_inputs ?h + 1)" if "hd_binary ?h" "i < length (latches p)" for i
      using that f seq_lits_nth [of sym_lit "latches p" "length (inputs p)" i] h by simp
  qed (use r(8) in \<open>simp_all add: B_def\<close>)
  then obtain u2 where 2: "parses (loopR (read_latch ?h) [0..<length (latches p)])
      (concat (map (latch_text binary) (latches p))) u1 () u2" "good u2 C" by (auto simp: h)
  have e: "C\<lparr>outputs := []\<rparr> = C" "D\<lparr>bad := []\<rparr> = D" "E\<lparr>constraints := []\<rparr> = E" "justice F = []"
    "G\<lparr>fairness := []\<rparr> = G"
    by (intro empty_list; simp add: B_def C_def D_def E_def F_def G_def)+ (simp_all add: B_def C_def D_def E_def F_def G_def)
  have "\<exists>u. parses (loopR (read_plain ''output literal'' ''line %u: literal %u is not a valid output'' aiger_add_output)
       [0..<length (outputs p)]) (lits_text (map sym_lit (outputs p))) u2 () u \<and> good u (C\<lparr>outputs := map unname (outputs p)\<rparr>)"
  proof (rule parses_plain [where B = "\<lambda>xs. C\<lparr>outputs := xs\<rparr>"])
    show "good u2 (C\<lparr>outputs := []\<rparr>)" using 2(2) e by simp
    show "\<And>xs u l. good u (C\<lparr>outputs := xs\<rparr>) \<Longrightarrow> l div 2 \<le> maxvar p \<Longrightarrow>
        good (aiger_add_output u l None) (C\<lparr>outputs := xs @ [new_symbol l None]\<rparr>)"
      using good_add_plain(1) by (fastforce simp: m)
  qed (use lb sh m in simp_all)
  then obtain u3 where 3: "parses (loopR (read_plain ''output literal'' ''line %u: literal %u is not a valid output'' aiger_add_output)
       [0..<length (outputs p)]) (lits_text (map sym_lit (outputs p))) u2 () u3" "good u3 D" by (auto simp: D_def)
  have "\<exists>u. parses (loopR (read_plain ''bad state constraint literal'' ''line %u: literal %u is not valid bad'' aiger_add_bad)
       [0..<length (bad p)]) (lits_text (map sym_lit (bad p))) u3 () u \<and> good u (D\<lparr>bad := map unname (bad p)\<rparr>)"
  proof (rule parses_plain [where B = "\<lambda>xs. D\<lparr>bad := xs\<rparr>"])
    show "good u3 (D\<lparr>bad := []\<rparr>)" using 3(2) e by simp
    show "\<And>xs u l. good u (D\<lparr>bad := xs\<rparr>) \<Longrightarrow> l div 2 \<le> maxvar p \<Longrightarrow>
        good (aiger_add_bad u l None) (D\<lparr>bad := xs @ [new_symbol l None]\<rparr>)"
      using good_add_plain(2) by (fastforce simp: m)
  qed (use lb sh m in simp_all)
  then obtain u4 where 4: "parses (loopR (read_plain ''bad state constraint literal'' ''line %u: literal %u is not valid bad'' aiger_add_bad)
       [0..<length (bad p)]) (lits_text (map sym_lit (bad p))) u3 () u4" "good u4 E" by (auto simp: E_def)
  have "\<exists>u. parses (loopR (read_plain ''invariant constraint literal'' ''line %u: literal %u is not a valid constraint''
       aiger_add_constraint) [0..<length (constraints p)]) (lits_text (map sym_lit (constraints p))) u4 () u \<and>
       good u (E\<lparr>constraints := map unname (constraints p)\<rparr>)"
  proof (rule parses_plain [where B = "\<lambda>xs. E\<lparr>constraints := xs\<rparr>"])
    show "good u4 (E\<lparr>constraints := []\<rparr>)" using 4(2) e by simp
    show "\<And>xs u l. good u (E\<lparr>constraints := xs\<rparr>) \<Longrightarrow> l div 2 \<le> maxvar p \<Longrightarrow>
        good (aiger_add_constraint u l None) (E\<lparr>constraints := xs @ [new_symbol l None]\<rparr>)"
      using good_add_plain(3) by (fastforce simp: m)
  qed (use lb sh m in simp_all)
  then obtain u5 where 5: "parses (loopR (read_plain ''invariant constraint literal''
       ''line %u: literal %u is not a valid constraint'' aiger_add_constraint) [0..<length (constraints p)])
       (lits_text (map sym_lit (constraints p))) u4 () u5" "good u5 F" by (auto simp: F_def)
  have "\<exists>u. parses (read_justice ?h) (lits_text (map (length \<circ> sym_lits) (justice p)) @
      concat (map (lits_text \<circ> sym_lits) (justice p))) u5 () u \<and> good u (F\<lparr>justice := map unname (justice p)\<rparr>)"
    by (rule parses_justice [OF 5(2) e(4) h(7)]) (use lb sh r(6) m in \<open>auto simp: small_counts_def\<close>)
  then obtain u6 where 6: "parses (read_justice ?h) (lits_text (map (length \<circ> sym_lits) (justice p)) @
      concat (map (lits_text \<circ> sym_lits) (justice p))) u5 () u6" "good u6 G" by (auto simp: G_def)
  have "\<exists>u. parses (loopR (read_plain ''fairness constraint literal'' ''line %u: literal %u is not valid fairness''
       aiger_add_fairness) [0..<length (fairness p)]) (lits_text (map sym_lit (fairness p))) u6 () u \<and>
       good u (G\<lparr>fairness := map unname (fairness p)\<rparr>)"
  proof (rule parses_plain [where B = "\<lambda>xs. G\<lparr>fairness := xs\<rparr>"])
    show "good u6 (G\<lparr>fairness := []\<rparr>)" using 6(2) e by simp
    show "\<And>xs u l. good u (G\<lparr>fairness := xs\<rparr>) \<Longrightarrow> l div 2 \<le> maxvar p \<Longrightarrow>
        good (aiger_add_fairness u l None) (G\<lparr>fairness := xs @ [new_symbol l None]\<rparr>)"
      using good_add_plain(4) by (fastforce simp: m)
  qed (use lb sh m in simp_all)
  then obtain u7 where 7: "parses (loopR (read_plain ''fairness constraint literal''
       ''line %u: literal %u is not valid fairness'' aiger_add_fairness) [0..<length (fairness p)])
       (lits_text (map sym_lit (fairness p))) u6 () u7" "good u7 (G\<lparr>fairness := map unname (fairness p)\<rparr>)" by blast
  have "G\<lparr>fairness := map unname (fairness p)\<rparr> = gateless p"
    by (simp add: B_def C_def D_def E_def F_def G_def blank_def gateless_def)
  with 7(2) have final: "good u7 (gateless p)" by simp
  have "parses (read_lists ?h) (lists_text binary p) q () u7"
    unfolding read_lists_def lists_text_def h(2-6,8)
    by (rule parses_bind [OF 1(1)] parses_bind [OF 2(1)] parses_bind [OF 3(1)] parses_bind [OF 4(1)] parses_bind [OF 5(1)]
       parses_bind [OF 6(1), simplified append_assoc] 7(1))+
  with final show ?thesis by blast
qed


definition format_name :: "bool \<Rightarrow> string" where
  "format_name binary = (if binary then ''aig'' else ''aag'')"

lemma at_flags [simp]: "at (r\<lparr>rd_done_header := x, rd_looks_aag := y\<rparr>) cs = at r cs"
  "at (r\<lparr>rd_header := h\<rparr>) cs = at r cs"
  by (simp_all add: at_def split: option.split)

lemma parses_set_header:
  assumes "binary \<longrightarrow> binary_form p" "maxvar p < 2147483648"
  shows "parses (set_header (header_of binary p)) [] aiger_init ()
     (aiger_init\<lparr>maxvar := maxvar p, types := fit_types (u32 (maxvar p + 1)) (types aiger_init)\<rparr>)"
proof -
  have "\<not> (hd_binary (header_of binary p) \<and>
      u32 (u32 (hd_inputs (header_of binary p) + hd_latches (header_of binary p)) + hd_ands (header_of binary p)) \<noteq>
      hd_maxvar (header_of binary p))"
    using assms by (auto simp: header_of_def binary_form_def)
  note * = if_not_P [OF this]
  have "set_header (header_of binary p) aiger_init r =
      Ok () (aiger_init\<lparr>maxvar := maxvar p, types := fit_types (u32 (maxvar p + 1)) (types aiger_init)\<rparr>)
        (r\<lparr>rd_header := header_of binary p\<rparr>)" for r
    unfolding set_header_def * by (simp add: header_of_def)
  then show ?thesis by (simp add: parses_def)
qed

lemma parses_flags: "parses (readerR (\<lambda>r. r\<lparr>rd_done_header := x, rd_looks_aag := y\<rparr>)) [] p () p"
  by (simp add: parses_def readerR_def)

lemma header_text_lists: "header_text fmt compact p = counts_text fmt p @ lists_text compact p"
  by (simp add: header_text_def lists_text_def)

lemma read_header_at:
  assumes p: "readable p" and b: "binary \<longrightarrow> binary_form p"
  shows "\<exists>q s. aiger_read_header aiger_init (new_reader (header_text (format_name binary) binary p @ cs)) =
      Ok (header_of binary p) q s \<and> at s cs \<and> rd_buffer s = [] \<and> good q (gateless p)"
proof -
  note r = readableD [OF p]
  let ?h = "header_of binary p" and ?fmt = "format_name binary" and ?c = "if binary then CHR ''i'' else CHR ''a''"
  let ?q = "aiger_init\<lparr>maxvar := maxvar p, types := fit_types (u32 (maxvar p + 1)) (types aiger_init)\<rparr>"
  obtain body where body: "counts_text ?fmt p = ?fmt @ '' '' @ body"
    "parses (read_counts binary) body aiger_init ?h aiger_init"
    using parses_counts [OF r(6), of ?fmt binary aiger_init] by blast
  obtain u where u: "parses (read_lists ?h) (lists_text binary p) ?q () u" "good u (gateless p)"
    using parses_lists [OF p good_blank [OF r(1)] b] by blast
  let ?input = "header_text ?fmt binary p @ cs"
  have f: "?fmt = [CHR ''a'', ?c, CHR ''g'']" by (simp add: format_name_def)
  have "?input = CHR ''a'' # ?c # CHR ''g'' # CHR '' '' # body @ lists_text binary p @ cs"
    unfolding header_text_lists body(1) by (simp only: f append.simps append_assoc)
  with at_new_reader [of ?input]
  have "at (new_reader ?input) (CHR '' '' # CHR ''a'' # ?c # CHR ''g'' # CHR '' '' # body @ lists_text binary p @ cs)"
    by simp
  from read_magic_at [OF this, of aiger_init] obtain s where
    s: "read_magic aiger_init (new_reader ?input) = Ok binary aiger_init s" "at s (body @ lists_text binary p @ cs)"
      "rd_buffer s = []" by (cases binary) (auto simp: new_reader_def)
  have "parses (bindR (read_counts binary) (\<lambda>h. bindR (set_header h) (\<lambda>_. bindR (read_lists h) (\<lambda>_.
      bindR (readerR (\<lambda>r. r\<lparr>rd_done_header := True, rd_looks_aag := True\<rparr>)) (\<lambda>_. returnR h)))))
      (body @ lists_text binary p @ []) aiger_init ?h u"
    by (rule parses_bind [OF body(2)] parses_bind0 [OF parses_set_header [OF b r(1)]] parses_bind [OF u(1)]
        parses_bind0 [OF parses_flags] parses_return)+
  moreover from s(2) have "at s ((body @ lists_text binary p @ []) @ cs)" by simp
  ultimately obtain t where
    t: "bindR (read_counts binary) (\<lambda>h. bindR (set_header h) (\<lambda>_. bindR (read_lists h) (\<lambda>_.
      bindR (readerR (\<lambda>r. r\<lparr>rd_done_header := True, rd_looks_aag := True\<rparr>)) (\<lambda>_. returnR h)))) aiger_init s = Ok ?h u t"
      "at t cs" "rd_buffer t = rd_buffer s" by (rule parsesE)
  have "aiger_read_header aiger_init (new_reader ?input) = Ok ?h u t"
    unfolding aiger_read_header_def using s(1) t(1) by (simp add: bindR_def [of read_magic])
  with t(2,3) s(3) u(2) show ?thesis by auto
qed

section \<open>The gates\<close>

definition nameless :: "aiger_private \<Rightarrow> aiger" where
  "nameless p = (gateless p)\<lparr>ands := ands p\<rparr>"

lemma gateless_simps [simp]:
  "maxvar (gateless p) = maxvar p" "inputs (gateless p) = map unname (inputs p)"
  "latches (gateless p) = map unname (latches p)" "ands (gateless p) = []"
  by (simp_all add: gateless_def)

lemma max_input_or_latch_eq:
  assumes "reencoded_form p" "map sym_lit (inputs q) = map sym_lit (inputs p)"
    "map sym_lit (latches q) = map sym_lit (latches p)"
  shows "aiger_max_input_or_latch q = Some (2 * (length (inputs p) + length (latches p)))"
proof -
  have i: "map sym_lit (inputs q) = seq_lits 0 (length (inputs p))"
    and l: "map sym_lit (latches q) = seq_lits (length (inputs p)) (length (latches p))"
    using assms by (simp_all add: reencoded_form_def)
  show ?thesis
    unfolding aiger_max_input_or_latch_def i l
    using max_even_seq [of 0 "length (inputs p)"] max_even_seq [of "length (inputs p)" "length (latches p)"] by simp
qed

definition gates_text :: "bool \<Rightarrow> aiger_private \<Rightarrow> string" where
  "gates_text binary p = (if binary then concat (map and_code (ands p)) else concat (map and_text (ands p)))"

lemma parses_gates:
  assumes p: "readable p" and good: "good q (gateless p)" and b: "binary \<longrightarrow> binary_form p"
  shows "\<exists>u. parses (if \<not> hd_binary (header_of binary p) then aiger_read_ascii (header_of binary p)
       else aiger_read_binary (header_of binary p)) (gates_text binary p) q () u \<and> good u (nameless p)"
proof -
  note r = readableD [OF p]
  let ?h = "header_of binary p"
  have h: "hd_binary ?h = binary" "hd_ands ?h = length (ands p)" by (simp_all add: header_of_def)
  have d: "\<forall>g \<in> set (ands p). and_lhs g \<notin> sym_lit ` set (inputs (gateless p)) \<and>
      and_lhs g \<notin> sym_lit ` set (latches (gateless p))"
    using r(11) by (simp add: image_image)
  have gs: "\<forall>g \<in> set (ands p). even (and_lhs g) \<and> 0 < and_lhs g \<and> and_lhs g div 2 \<le> maxvar (gateless p) \<and>
      and_rhs0 g div 2 \<le> maxvar (gateless p) \<and> and_rhs1 g div 2 \<le> maxvar (gateless p)"
    using r(2,14) by (simp add: lits_below_def)
  show ?thesis
  proof (cases binary)
    case False
    then show ?thesis
      using parses_ascii_ands [OF good gateless_simps(4) h(2) r(9) d gs] h by (simp add: gates_text_def nameless_def)
  next
    case True
    then have f: "reencoded_form p" using b by (simp add: binary_form_def)
    let ?m = "2 * (length (inputs p) + length (latches p))"
    have m: "aiger_max_input_or_latch q = Some ?m"
      by (rule max_input_or_latch_eq [OF f]) (simp_all add: goodD(7,8) [OF good])
    have lhs: "map and_lhs (ands p) = map (\<lambda>i. ?m + 2 * Suc i) [0..<length (ands p)]"
      using f by (auto simp: reencoded_form_def seq_lits_def intro!: nth_equalityI)
    have "\<forall>g \<in> set (ands p). and_rhs0 g \<le> and_lhs g \<and> and_rhs1 g \<le> and_rhs0 g"
      using f by (simp add: reencoded_form_def)
    with True show ?thesis
      using parses_binary_ands [OF good gateless_simps(4) h(2) r(9) d gs _ m lhs] h by (simp add: gates_text_def nameless_def)
  qed
qed

end
