(* ===== verification/AigerReadNames.thy ===== *)
theory AigerReadNames
  imports AigerReadCore
begin

text \<open>
  The symbol table and the comments: reading what the writers wrote puts every name back.
\<close>

section \<open>The seven arrays by their prefix\<close>

definition get_array :: "char \<Rightarrow> 'a aiger_scheme \<Rightarrow> aiger_symbol list" where
  "get_array c B =
     (if c = CHR ''i'' then inputs B else if c = CHR ''l'' then latches B else if c = CHR ''o'' then outputs B
      else if c = CHR ''b'' then bad B else if c = CHR ''c'' then constraints B
      else if c = CHR ''j'' then justice B else fairness B)"

definition set_array :: "char \<Rightarrow> aiger_symbol list \<Rightarrow> 'a aiger_scheme \<Rightarrow> 'a aiger_scheme" where
  "set_array c ys B =
     (if c = CHR ''i'' then B\<lparr>inputs := ys\<rparr> else if c = CHR ''l'' then B\<lparr>latches := ys\<rparr>
      else if c = CHR ''o'' then B\<lparr>outputs := ys\<rparr> else if c = CHR ''b'' then B\<lparr>bad := ys\<rparr>
      else if c = CHR ''c'' then B\<lparr>constraints := ys\<rparr> else if c = CHR ''j'' then B\<lparr>justice := ys\<rparr>
      else B\<lparr>fairness := ys\<rparr>)"

lemma symbol_array_eq: "snd (symbol_array c p) = get_array c p"
  by (simp add: symbol_array_def get_array_def)

lemma set_symbol_eq: "set_symbol c i n p = set_array c (rename_at i n (get_array c p)) p"
  by (simp add: set_symbol_def set_array_def get_array_def)

lemma get_set_array [simp]: "get_array c (set_array c ys B) = ys"
  by (simp add: get_array_def set_array_def)

lemma set_set_array [simp]: "set_array c ys (set_array c xs B) = set_array c ys B"
  by (simp add: set_array_def)

lemma set_array_same [simp]:
  fixes B :: aiger
  shows "get_array c B = ys \<Longrightarrow> set_array c ys B = B"
  by (cases B) (simp add: get_array_def set_array_def split: if_splits)

lemma good_array: "good q B \<Longrightarrow> get_array c q = get_array c B"
  by (drule goodD(5)) (auto simp: get_array_def)

lemma same_ball:
  assumes "map unname xs = map unname ys" "\<And>y. P (unname y) = P y"
  shows "(\<forall>y \<in> set xs. P y) = (\<forall>y \<in> set ys. P y)"
proof -
  have "(\<forall>y \<in> set xs. P y) = (\<forall>y \<in> set (map unname xs). P y)" for xs using assms(2) by simp
  with assms(1) show ?thesis by metis
qed

lemma same_lits: "map unname xs = map unname ys \<Longrightarrow> map sym_lit xs = map sym_lit ys"
  by (drule arg_cong [where f = "map sym_lit"]) simp

lemma wf_set_array:
  assumes wf: "wf_aiger q" and ys: "map unname ys = map unname (get_array c q)" and n: "\<forall>y \<in> set ys. ok_name (sym_name y)"
  shows "wf_aiger (set_array c ys q)"
proof -
  note l = same_lits [OF ys]
  note b = same_ball [OF ys, where P = "\<lambda>y. sym_lit y div 2 \<le> maxvar q"]
    same_ball [OF ys, where P = "\<lambda>y. sym_lit y div 2 \<le> maxvar q \<and> sym_next y div 2 \<le> maxvar q \<and> sym_reset y div 2 \<le> maxvar q"]
    same_ball [OF ys, where P = "\<lambda>y. \<forall>l \<in> set (sym_lits y). l div 2 \<le> maxvar q"]
    same_ball [OF ys, where P = "\<lambda>y. sym_reset y \<le> 1 \<or> sym_reset y = sym_lit y"]
  have "wf_types (set_array c ys q)"
    using wf l by (simp add: wf_aiger_def wf_types_def set_array_def get_array_def split: if_splits)
  moreover have "wf_lits (set_array c ys q)"
    using wf b(1-3) by (simp add: wf_aiger_def wf_lits_def lits_below_def set_array_def get_array_def split: if_splits)
  moreover have "wf_resets (set_array c ys q)"
    using wf b(4) by (simp add: wf_aiger_def wf_resets_def set_array_def get_array_def split: if_splits)
  moreover have "wf_names (set_array c ys q)"
    using wf n by (simp add: wf_aiger_def wf_names_def all_symbols_def set_array_def ball_Un)
  moreover have "wf_comments (set_array c ys q)"
    using wf by (simp add: wf_aiger_def wf_comments_def set_array_def)
  ultimately show ?thesis by (simp add: wf_aiger_def)
qed

lemma set_array_fields [simp]:
  "error (set_array c ys q) = error q" "types (set_array c ys q) = types q" "maxvar (set_array c ys q) = maxvar q"
  "aiger.truncate (set_array c ys q) = set_array c ys (aiger.truncate q)"
  by (simp_all add: set_array_def)

lemma good_set_array:
  assumes good: "good q B" and ys: "map unname ys = map unname (get_array c B)" and n: "\<forall>y \<in> set ys. ok_name (sym_name y)"
  shows "good (set_array c ys q) (set_array c ys B)"
  using wf_set_array [of q ys c] goodD(1-5) [OF good] ys n good_array [OF good] by (simp add: good_def)

section \<open>One entry\<close>

definition plain_name :: "string \<Rightarrow> bool" where
  "plain_name s \<longleftrightarrow> s \<noteq> [] \<and> CHR 0x00 \<notin> set s \<and> CHR ''\<newline>'' \<notin> set s"

definition entry_ok :: "aiger_symbol \<Rightarrow> bool" where
  "entry_ok y \<longleftrightarrow> (case sym_name y of None \<Rightarrow> True | Some s \<Rightarrow> plain_name s)"

lemma at_push [simp]: "at (aiger_reader_push_ch c r) cs = at r cs" "at (clear_buffer r) cs = at r cs"
  "rd_buffer (clear_buffer r) = []" "rd_buffer (aiger_reader_push_ch c r) = rd_buffer r @ [c]"
  by (simp_all add: at_def aiger_reader_push_ch_def clear_buffer_def split: option.split)

lemma symbol_name_at:
  "at r (name @ CHR ''\<newline>'' # cs) \<Longrightarrow> CHR ''\<newline>'' \<notin> set name \<Longrightarrow>
     \<exists>s. symbol_name p r = Ok () p s \<and> at s (CHR ''\<newline>'' # cs) \<and> rd_buffer s = rd_buffer r @ name"
proof (induction name arbitrary: r)
  case Nil
  then show ?case by (subst symbol_name.simps) (simp add: at_Cons)
next
  case (Cons c name)
  from Cons.prems(1) have a: "at r (c # name @ CHR ''\<newline>'' # cs)" by simp
  then have "at (aiger_reader_push_ch c r) (c # name @ CHR ''\<newline>'' # cs)" by simp
  from at_next [OF this] Cons.IH Cons.prems(2) obtain s where
    s: "symbol_name p (aiger_next_ch (aiger_reader_push_ch c r)) = Ok () p s" "at s (CHR ''\<newline>'' # cs)"
      "rd_buffer s = rd_buffer (aiger_next_ch (aiger_reader_push_ch c r)) @ name" by fastforce
  moreover have "rd_ch r = Some c" using a by (simp add: at_Cons)
  ultimately show ?case using Cons.prems(2) by (subst symbol_name.simps) auto
qed

lemma copy_name: "plain_name s \<Longrightarrow> aiger_copy_str (Some (s @ [CHR 0x00])) = Some s"
proof -
  assume s: "plain_name s"
  have "c_string (s @ [CHR 0x00]) = s"
    unfolding c_string_def by (subst takeWhile_append2) (use s in \<open>auto simp: plain_name_def\<close>)
  with s show ?thesis by (simp add: aiger_copy_str_def plain_name_def)
qed

lemma rename_at_snoc:
  "sym_name z = Some n \<Longrightarrow> rename_at (length xs) (Some n) (xs @ map unname (z # zs)) = xs @ z # map unname zs"
  by (simp add: rename_at_def unname_def)

lemma read_symbol_at:
  assumes at: "at r (dec (length xs) @ '' '' @ name @ ''\<newline>'' @ cs)" and r: "rd_buffer r = []"
    and a: "get_array c q = xs @ map unname (z # zs)" and z: "sym_name z = Some name" "plain_name name"
    and n: "length xs < 4294967296"
  shows "\<exists>s. read_symbol c q r = Ok () (set_array c (xs @ z # map unname zs) q) s \<and> at s cs \<and> rd_buffer s = []"
proof -
  obtain ty where ty: "symbol_array c q = (ty, xs @ map unname (z # zs))"
    using symbol_array_eq [of c q] a by (metis prod.collapse)
  from at have "at r ((dec (length xs) @ '' '') @ name @ ''\<newline>'' @ cs)" by simp
  from parsesE [OF parses_word [OF n] this, of ty q] obtain s where
    s: "aiger_read_literal ty (Some CHR '' '') q r = Ok (length xs, CHR '' '') q s" "at s (name @ CHR ''\<newline>'' # cs)"
      "rd_buffer s = []" using r by auto
  from symbol_name_at [OF s(2), of q] z(2) s(3) obtain t where
    t: "symbol_name q s = Ok () q t" "at t (CHR ''\<newline>'' # cs)" "rd_buffer t = name" by (auto simp: plain_name_def)
  have copy: "aiger_copy_str (Some (name @ [CHR 0x00])) = Some name" by (rule copy_name [OF z(2)])
  have ren: "set_symbol c (length xs) (Some name) q = set_array c (xs @ z # map unname zs) q"
    unfolding set_symbol_eq a rename_at_snoc [OF z(1)] ..
  have "read_symbol c q r = Ok () (set_array c (xs @ z # map unname zs) q)
      (clear_buffer (aiger_reader_push_ch CHR 0x00 (aiger_next_ch t)))"
    using s(1) t(1,3) copy ren unfolding read_symbol_def ty by (simp add: bindR_def ty Let_def)
  with at_next [OF t(2)] show ?thesis by simp
qed

section \<open>The table\<close>

lemma symbols_at:
  assumes c: "c \<in> set ''ilobcjf''"
  shows "at r (symbols_text_from [c] (length xs) zs @ cs) \<Longrightarrow> rd_buffer r = [] \<Longrightarrow> good q B \<Longrightarrow>
     get_array c B = xs @ map unname zs \<Longrightarrow> \<forall>y \<in> set (xs @ zs). entry_ok y \<Longrightarrow> length xs + length zs \<le> 4294967296 \<Longrightarrow>
     \<exists>u s. read_symbol_table q r = read_symbol_table u s \<and> at s cs \<and> rd_buffer s = [] \<and>
       good u (set_array c (xs @ zs) B)"
proof (induction zs arbitrary: xs q r B)
  case Nil
  then have "set_array c (xs @ []) B = B" by simp
  with Nil show ?case by (intro exI [of _ q] exI [of _ r]) simp
next
  case (Cons z zs)
  show ?case
  proof (cases "sym_name z")
    case None
    then have "unname z = z" by (simp add: unname_def)
    with Cons.prems None Cons.IH [of r "xs @ [z]" q B] show ?thesis by simp
  next
    case (Some name)
    let ?i = "length xs" and ?rest = "symbols_text_from [c] (Suc (length xs)) zs @ cs"
    let ?q = "set_array c (xs @ z # map unname zs) q" and ?B = "set_array c (xs @ z # map unname zs) B"
    have pn: "plain_name name" using Cons.prems(5) Some by (simp add: entry_ok_def)
    have a: "at r (c # dec ?i @ '' '' @ name @ ''\<newline>'' @ ?rest)" using Cons.prems(1) Some by simp
    then have ch: "rd_ch r = Some c" by (simp add: at_Cons)
    obtain d ds where d: "dec ?i = d # ds" "isdigit d" using dec_Cons by blast
    have "rd_ch (aiger_next_ch r) = Some d" using at_next [OF a] by (simp add: d(1) at_Cons)
    moreover have "d \<noteq> CHR ''\<newline>''" using d(2) by auto
    ultimately have nl: "rd_ch (aiger_next_ch r) \<noteq> Some CHR ''\<newline>''" by simp
    have get: "get_array c q = xs @ map unname (z # zs)" using Cons.prems(4) good_array [OF Cons.prems(3)] by simp
    then have nc: "\<not> (c = CHR ''c'' \<and> constraints q = [])" by (auto simp: get_array_def)
    obtain s where s: "read_symbol c q (aiger_next_ch r) = Ok () ?q s" "at s ?rest" "rd_buffer s = []"
      using read_symbol_at [OF at_next [OF a] _ get Some pn] Cons.prems(2,6) by auto
    have step: "read_symbol_table q r = read_symbol_table ?q s"
      using ch c nl nc s(1) by (subst read_symbol_table.simps) (auto simp: bindR_def)
    have "unname z = unname z" ..
    have good: "good ?q ?B"
    proof (rule good_set_array [OF Cons.prems(3)])
      have un: "unname (unname y) = unname y" for y by (simp add: unname_def)
      show "map unname (xs @ z # map unname zs) = map unname (get_array c B)"
        by (simp add: Cons.prems(4) un)
      show "\<forall>y \<in> set (xs @ z # map unname zs). ok_name (sym_name y)"
        using Cons.prems(5) by (auto simp: entry_ok_def plain_name_def ok_name_def split: option.splits)
    qed
    have a': "at s (symbols_text_from [c] (length (xs @ [z])) zs @ cs)" using s(2) by simp
    have "\<exists>u t. read_symbol_table ?q s = read_symbol_table u t \<and> at t cs \<and> rd_buffer t = [] \<and>
        good u (set_array c ((xs @ [z]) @ zs) ?B)"
      by (rule Cons.IH [OF a' s(3) good]) (use Cons.prems(5,6) in auto)
    with step show ?thesis by auto
  qed
qed


lemma symbols0_at:
  assumes "c \<in> set ''ilobcjf''" "at r (symbols_text_from [c] 0 zs @ cs)" "rd_buffer r = []" "good q B"
    "get_array c B = map unname zs" "\<forall>y \<in> set zs. entry_ok y" "length zs \<le> 4294967296"
  shows "\<exists>u s. read_symbol_table q r = read_symbol_table u s \<and> at s cs \<and> rd_buffer s = [] \<and>
    good u (set_array c zs B)"
  using symbols_at [OF assms(1), of r "[]" zs cs q B] assms(2-) by simp

section \<open>Comments\<close>

lemma comment_line_at:
  "at r (body @ CHR ''\<newline>'' # cs) \<Longrightarrow> CHR ''\<newline>'' \<notin> set body \<Longrightarrow>
     \<exists>s. comment_line p r = Ok () p s \<and> at s (CHR ''\<newline>'' # cs) \<and> rd_buffer s = rd_buffer r @ body"
proof (induction body arbitrary: r)
  case Nil
  then show ?case by (subst comment_line.simps) (simp add: at_Cons)
next
  case (Cons c body)
  from Cons.prems(1) have a: "at r (c # body @ CHR ''\<newline>'' # cs)" by simp
  then have "at (aiger_reader_push_ch c r) (c # body @ CHR ''\<newline>'' # cs)" by simp
  from at_next [OF this] Cons.IH Cons.prems(2) obtain s where
    s: "comment_line p (aiger_next_ch (aiger_reader_push_ch c r)) = Ok () p s" "at s (CHR ''\<newline>'' # cs)"
      "rd_buffer s = rd_buffer (aiger_next_ch (aiger_reader_push_ch c r)) @ body" by fastforce
  moreover have "rd_ch r = Some c" using a by (simp add: at_Cons)
  ultimately show ?case using Cons.prems(2) by (subst comment_line.simps) auto
qed

lemma good_add_comment:
  assumes good: "good q B" and c: "comments B = xs @ [None]" and s: "plain_name s"
  shows "\<exists>u. aiger_add_comment q s = Some u \<and> good u (B\<lparr>comments := xs @ [Some s, None]\<rparr>)"
proof -
  note g = goodD [OF good]
  have n: "num_comments q = Suc (length xs)" "comments q = xs @ [None]"
    using g(1,15) c by (simp_all add: wf_aiger_def wf_comments_def)
  have cs: "c_string s = s" using s by (simp add: plain_name_def)
  let ?u = "q\<lparr>comments := xs @ [Some s, None], num_comments := num_comments q + 1\<rparr>"
  have eq: "aiger_add_comment q s = Some ?u"
    using s g(2) n cs by (simp add: aiger_add_comment_def aiger_error_def plain_name_def aiger_copy_str_def)
  from wf_add_comment [OF eq g(1)] g eq show ?thesis by (auto simp: good_def)
qed

lemma comment_lines_at:
  "at r (comments_text (map Some ls @ [None])) \<Longrightarrow> rd_buffer r = [] \<Longrightarrow> good q B \<Longrightarrow> comments B = xs @ [None] \<Longrightarrow>
     \<forall>l \<in> set ls. plain_name l \<Longrightarrow>
     \<exists>u s. read_comment_lines q r = Ok () u s \<and> good u (B\<lparr>comments := xs @ map Some ls @ [None]\<rparr>)"
proof (induction ls arbitrary: r q B xs)
  case Nil
  then have eq: "B\<lparr>comments := xs @ [None]\<rparr> = B" by (cases B) simp
  have "good q (B\<lparr>comments := xs @ [None]\<rparr>)" unfolding eq by (rule Nil(3))
  with Nil show ?case by (subst read_comment_lines.simps) (simp add: at_Nil)
next
  case (Cons l ls)
  let ?rest = "comments_text (map Some ls @ [None])"
  have l: "plain_name l" using Cons.prems(5) by simp
  have a: "at r (l @ CHR ''\<newline>'' # ?rest)" using Cons.prems(1) by simp
  from comment_line_at [OF a, of q] l Cons.prems(2) obtain s where
    s: "comment_line q r = Ok () q s" "at s (CHR ''\<newline>'' # ?rest)" "rd_buffer s = l" by (auto simp: plain_name_def)
  let ?s = "aiger_reader_push_ch CHR 0x00 (aiger_next_ch s)"
  have s': "at (clear_buffer ?s) ?rest" "rd_buffer (clear_buffer ?s) = []" using at_next [OF s(2)] by simp_all
  have "c_string (rd_buffer ?s) = l"
    unfolding c_string_def by (simp add: s(3)) (subst takeWhile_append2, use l in \<open>auto simp: plain_name_def\<close>)
  with good_add_comment [OF Cons.prems(3,4) l] obtain u where
    u: "aiger_add_comment q (c_string (rd_buffer ?s)) = Some u" "good u (B\<lparr>comments := xs @ [Some l, None]\<rparr>)" by auto
  have "rd_ch r \<noteq> None" using a by (cases l) (simp_all add: at_Cons)
  then have "read_comment_lines q r = read_comment_lines u (clear_buffer ?s)"
    using s(1) u(1) by (subst read_comment_lines.simps) (auto simp: Let_def)
  with Cons.IH [OF s' u(2), of "xs @ [Some l]"] Cons.prems(5) show ?case by simp
qed

section \<open>The rest of the file\<close>

definition named :: "aiger_private \<Rightarrow> bool" where
  "named p \<longleftrightarrow>
     (\<forall>y \<in> set (all_symbols p). entry_ok y) \<and>
     (\<exists>ls. comments p = map Some ls @ [None] \<and> (\<forall>l \<in> set ls. plain_name l))"

lemma nameless_arrays:
  "get_array CHR ''i'' (nameless p) = map unname (inputs p)" "get_array CHR ''l'' (nameless p) = map unname (latches p)"
  "get_array CHR ''o'' (nameless p) = map unname (outputs p)" "get_array CHR ''b'' (nameless p) = map unname (bad p)"
  "get_array CHR ''c'' (nameless p) = map unname (constraints p)" "get_array CHR ''j'' (nameless p) = map unname (justice p)"
  "get_array CHR ''f'' (nameless p) = map unname (fairness p)" "comments (nameless p) = [None]"
  by (simp_all add: get_array_def nameless_def gateless_def)

lemma trailer_at:
  assumes p: "readable p" "named p" and at: "at r (trailer_text p)" "rd_buffer r = []" and good: "good q (nameless p)"
  shows "\<exists>u s. aiger_read_symbols_and_comments q r = Ok () u s \<and> good u (aiger.truncate p)"
proof -
  from p(2) obtain ls where ls: "comments p = map Some ls @ [None]" "\<forall>l \<in> set ls. plain_name l"
    by (auto simp: named_def)
  let ?cs = "if hd (comments p) \<noteq> None then ''c\<newline>'' @ comments_text (comments p) else []"
  note tab = symbols0_at
  have n: "length (inputs p) \<le> 4294967296" "length (latches p) \<le> 4294967296" "length (outputs p) \<le> 4294967296"
    "length (bad p) \<le> 4294967296" "length (constraints p) \<le> 4294967296" "length (justice p) \<le> 4294967296"
    "length (fairness p) \<le> 4294967296"
    using readableD(6) [OF p(1)] by (simp_all add: small_counts_def)
  have e: "\<forall>y \<in> set (inputs p). entry_ok y" "\<forall>y \<in> set (latches p). entry_ok y" "\<forall>y \<in> set (outputs p). entry_ok y"
    "\<forall>y \<in> set (bad p). entry_ok y" "\<forall>y \<in> set (constraints p). entry_ok y" "\<forall>y \<in> set (justice p). entry_ok y"
    "\<forall>y \<in> set (fairness p). entry_ok y"
    using p(2) by (simp_all add: named_def all_symbols_def)
  let ?t6 = "symbols_text_from ''f'' 0 (fairness p) @ ?cs"
  let ?t5 = "symbols_text_from ''j'' 0 (justice p) @ ?t6"
  let ?t4 = "symbols_text_from ''c'' 0 (constraints p) @ ?t5"
  let ?t3 = "symbols_text_from ''b'' 0 (bad p) @ ?t4"
  let ?t2 = "symbols_text_from ''o'' 0 (outputs p) @ ?t3"
  let ?t1 = "symbols_text_from ''l'' 0 (latches p) @ ?t2"
  let ?t0 = "symbols_text_from ''i'' 0 (inputs p) @ ?t1"
  have t0: "at r ?t0" using at(1) by (simp add: trailer_text_def symbols_text_def)
  have c: "CHR ''i'' \<in> set ''ilobcjf''" "CHR ''l'' \<in> set ''ilobcjf''" "CHR ''o'' \<in> set ''ilobcjf''"
    "CHR ''b'' \<in> set ''ilobcjf''" "CHR ''c'' \<in> set ''ilobcjf''" "CHR ''j'' \<in> set ''ilobcjf''"
    "CHR ''f'' \<in> set ''ilobcjf''" by simp_all
  note B = nameless_arrays
  obtain q1 r1 where 1: "read_symbol_table q r = read_symbol_table q1 r1" "at r1 ?t1" "rd_buffer r1 = []"
    "good q1 (set_array CHR ''i'' (inputs p) (nameless p))"
    using tab [OF c(1) t0 at(2) good B(1) e(1) n(1)] by blast
  have g2: "get_array CHR ''l'' (set_array CHR ''i'' (inputs p) (nameless p)) = map unname (latches p)"
    by (simp add: get_array_def set_array_def nameless_def gateless_def)
  obtain q2 r2 where 2: "read_symbol_table q1 r1 = read_symbol_table q2 r2" "at r2 ?t2" "rd_buffer r2 = []"
    "good q2 (set_array CHR ''l'' (latches p) (set_array CHR ''i'' (inputs p) (nameless p)))"
    using tab [OF c(2) 1(2-4) g2 e(2) n(2)] by blast
  have g3: "get_array CHR ''o'' (set_array CHR ''l'' (latches p) (set_array CHR ''i'' (inputs p) (nameless p))) = map unname (outputs p)"
    by (simp add: get_array_def set_array_def nameless_def gateless_def)
  obtain q3 r3 where 3: "read_symbol_table q2 r2 = read_symbol_table q3 r3" "at r3 ?t3" "rd_buffer r3 = []"
    "good q3 (set_array CHR ''o'' (outputs p) (set_array CHR ''l'' (latches p) (set_array CHR ''i'' (inputs p) (nameless p))))"
    using tab [OF c(3) 2(2-4) g3 e(3) n(3)] by blast
  have g4: "get_array CHR ''b'' (set_array CHR ''o'' (outputs p) (set_array CHR ''l'' (latches p) (set_array CHR ''i'' (inputs p) (nameless p)))) = map unname (bad p)"
    by (simp add: get_array_def set_array_def nameless_def gateless_def)
  obtain q4 r4 where 4: "read_symbol_table q3 r3 = read_symbol_table q4 r4" "at r4 ?t4" "rd_buffer r4 = []"
    "good q4 (set_array CHR ''b'' (bad p) (set_array CHR ''o'' (outputs p) (set_array CHR ''l'' (latches p)
       (set_array CHR ''i'' (inputs p) (nameless p)))))"
    using tab [OF c(4) 3(2-4) g4 e(4) n(4)] by blast
  have g5: "get_array CHR ''c'' (set_array CHR ''b'' (bad p) (set_array CHR ''o'' (outputs p) (set_array CHR ''l'' (latches p) (set_array CHR ''i'' (inputs p) (nameless p))))) = map unname (constraints p)"
    by (simp add: get_array_def set_array_def nameless_def gateless_def)
  obtain q5 r5 where 5: "read_symbol_table q4 r4 = read_symbol_table q5 r5" "at r5 ?t5" "rd_buffer r5 = []"
    "good q5 (set_array CHR ''c'' (constraints p) (set_array CHR ''b'' (bad p) (set_array CHR ''o'' (outputs p)
       (set_array CHR ''l'' (latches p) (set_array CHR ''i'' (inputs p) (nameless p))))))"
    using tab [OF c(5) 4(2-4) g5 e(5) n(5)] by blast
  have g6: "get_array CHR ''j'' (set_array CHR ''c'' (constraints p) (set_array CHR ''b'' (bad p) (set_array CHR ''o'' (outputs p) (set_array CHR ''l'' (latches p) (set_array CHR ''i'' (inputs p) (nameless p)))))) = map unname (justice p)"
    by (simp add: get_array_def set_array_def nameless_def gateless_def)
  obtain q6 r6 where 6: "read_symbol_table q5 r5 = read_symbol_table q6 r6" "at r6 ?t6" "rd_buffer r6 = []"
    "good q6 (set_array CHR ''j'' (justice p) (set_array CHR ''c'' (constraints p) (set_array CHR ''b'' (bad p)
       (set_array CHR ''o'' (outputs p) (set_array CHR ''l'' (latches p) (set_array CHR ''i'' (inputs p) (nameless p)))))))"
    using tab [OF c(6) 5(2-4) g6 e(6) n(6)] by blast
  have g7: "get_array CHR ''f'' (set_array CHR ''j'' (justice p) (set_array CHR ''c'' (constraints p) (set_array CHR ''b'' (bad p) (set_array CHR ''o'' (outputs p) (set_array CHR ''l'' (latches p) (set_array CHR ''i'' (inputs p) (nameless p))))))) = map unname (fairness p)"
    by (simp add: get_array_def set_array_def nameless_def gateless_def)
  obtain q7 r7 where 7: "read_symbol_table q6 r6 = read_symbol_table q7 r7" "at r7 ?cs" "rd_buffer r7 = []"
    "good q7 (set_array CHR ''f'' (fairness p) (set_array CHR ''j'' (justice p) (set_array CHR ''c'' (constraints p)
       (set_array CHR ''b'' (bad p) (set_array CHR ''o'' (outputs p) (set_array CHR ''l'' (latches p)
       (set_array CHR ''i'' (inputs p) (nameless p))))))))"
    using tab [OF c(7) 6(2-4) g7 e(7) n(7)] by blast
  let ?B = "(aiger.truncate p)\<lparr>comments := [None]\<rparr>"
  have g7: "good q7 ?B"
    using 7(4) by (simp add: set_array_def nameless_def gateless_def aiger.truncate_def)
  have "\<exists>u s. read_symbol_table q7 r7 = Ok () u s \<and> good u (?B\<lparr>comments := [] @ map Some ls @ [None]\<rparr>)"
  proof (cases "ls = []")
    case True
    then have "at r7 []" using 7(2) by (simp add: ls(1))
    with True g7 show ?thesis by (subst read_symbol_table.simps) (simp add: at_Nil)
  next
    case False
    then have "?cs = CHR ''c'' # CHR ''\<newline>'' # comments_text (map Some ls @ [None])" by (cases ls) (simp_all add: ls(1))
    with 7(2) have a: "at r7 (CHR ''c'' # CHR ''\<newline>'' # comments_text (map Some ls @ [None]))" by simp
    note a2 = at_next [OF a]
    have ch: "rd_ch r7 = Some CHR ''c''" "rd_ch (aiger_next_ch r7) = Some CHR ''\<newline>''" using a a2 by (simp_all add: at_Cons)
    have "read_symbol_table q7 r7 = read_comment_lines q7 (aiger_next_ch (aiger_next_ch r7))"
      using ch by (subst read_symbol_table.simps) (simp add: aiger_read_comments_def)
    with comment_lines_at [OF at_next [OF a2] _ g7, of "[]"] ls(2) 7(3) show ?thesis by simp
  qed
  then obtain u s where u: "read_symbol_table q7 r7 = Ok () u s" "good u (?B\<lparr>comments := [] @ map Some ls @ [None]\<rparr>)"
    by blast
  have "?B\<lparr>comments := [] @ map Some ls @ [None]\<rparr> = aiger.truncate p" by (simp add: aiger.truncate_def ls(1))
  with u 1(1) 2(1) 3(1) 4(1) 5(1) 6(1) 7(1) at(2) show ?thesis
    by (simp add: aiger_read_symbols_and_comments_def)
qed

end
