(* ===== verification/AigerRoundTrip.thy ===== *)
theory AigerRoundTrip
  imports AigerReadNames
begin

text \<open>
  What is written is read back: the reader on the text of a structure returns a structure with the
  same public part (\<open>struct aiger\<close>), in both formats, and the writers composed with the reader.
\<close>

section \<open>The reader on a text\<close>

lemma good_clean: "good q B \<Longrightarrow> clean_marks q"
  by (simp add: good_def unmarked_types_def clean_marks_def list_all_length)

lemma good_checked:
  assumes "good q B" "maxvar B = maxvar p" "ands B = ands p" "map unname (inputs B) = map unname (inputs p)"
    "map unname (latches B) = map unname (latches p)" "map unname (outputs B) = map unname (outputs p)"
    "map unname (bad B) = map unname (bad p)" "map unname (constraints B) = map unname (constraints p)"
    "map unname (justice B) = map unname (justice p)" "map unname (fairness B) = map unname (fairness p)"
    and "all_defined p" "acyclic (deps p)"
  shows "\<exists>u. aiger_check q = Some u \<and> error u = None \<and> wf_aiger u \<and> clean_marks u \<and> aiger.truncate u = B"
proof -
  note g = goodD [OF assms(1)]
  note b = same_ball [of _ _ "\<lambda>y. defined_var p (sym_next y div 2)"] same_ball [of _ _ "\<lambda>y. defined_var p (sym_lit y div 2)"]
    same_ball [of _ _ "\<lambda>y. \<forall>l \<in> set (sym_lits y). defined_var p (l div 2)"]
  have d: "defined_var q = defined_var p"
    using same_lits [OF assms(4)] same_lits [OF assms(5)] g(7,8,14) assms(3)
    by (simp add: defined_var_def fun_eq_iff flip: set_map)
  have "all_defined q"
    using assms(11) b(1) [OF assms(5)] b(2) [OF assms(6)] b(2) [OF assms(7)] b(2) [OF assms(8)] b(3) [OF assms(9)]
      b(2) [OF assms(10)] by (simp add: all_defined_def d g(8-14) assms(3) ball_Un)
  moreover have "acyclic (deps q)" using assms(12) by (simp add: deps_def g(14) assms(3))
  ultimately obtain u where u: "aiger_check q = Some u" "same_core q u" "error u = None" "clean_marks u"
    using aiger_check_spec [OF g(1,2) good_clean [OF assms(1)]] by auto
  have "aiger.truncate u = B" using same_coreD [OF u(2)] g(5) by (simp add: aiger.truncate_def)
  with u g(1) same_core_wf [OF u(2)] show ?thesis by blast
qed

text \<open>The text of a structure in a format, with or without its names and comments.\<close>

definition full_text :: "bool \<Rightarrow> bool \<Rightarrow> aiger_private \<Rightarrow> string" where
  "full_text binary stripped p =
     header_text (format_name binary) binary p @ gates_text binary p @ (if stripped then [] else trailer_text p)"

lemma read_back:
  assumes p: "readable p" "named p" and b: "binary \<longrightarrow> binary_form p" and d: "all_defined p" "acyclic (deps p)"
  shows "\<exists>q. aiger_read_generic aiger_init (full_text binary stripped p) = Some q \<and> error q = None \<and> wf_aiger q \<and>
     clean_marks q \<and> aiger.truncate q = (if stripped then nameless p else aiger.truncate p)"
proof -
  let ?tail = "if stripped then [] else trailer_text p" and ?h = "header_of binary p"
  let ?B = "if stripped then nameless p else aiger.truncate p"
  obtain q1 r1 where 1: "aiger_read_header aiger_init (new_reader (full_text binary stripped p)) = Ok ?h q1 r1"
    "at r1 (gates_text binary p @ ?tail)" "rd_buffer r1 = []" "good q1 (gateless p)"
    using read_header_at [OF p(1) b, of "gates_text binary p @ ?tail"] unfolding full_text_def by blast
  obtain q2 where q2: "parses (if \<not> hd_binary ?h then aiger_read_ascii ?h else aiger_read_binary ?h)
      (gates_text binary p) q1 () q2" "good q2 (nameless p)" using parses_gates [OF p(1) 1(4) b] by blast
  obtain r2 where r2: "(if \<not> hd_binary ?h then aiger_read_ascii ?h else aiger_read_binary ?h) q1 r1 = Ok () q2 r2"
    "at r2 ?tail" "rd_buffer r2 = []" using parsesE [OF q2(1) 1(2)] 1(3) by metis
  have "\<exists>q3 r3. aiger_read_symbols_and_comments q2 r2 = Ok () q3 r3 \<and> good q3 ?B"
  proof (cases stripped)
    case True
    then have "rd_ch r2 = None" using r2(2) by (simp add: at_Nil)
    then have "aiger_read_symbols_and_comments q2 r2 = Ok () q2 r2"
      unfolding aiger_read_symbols_and_comments_def using r2(3) by (simp add: read_symbol_table.simps)
    with True q2(2) show ?thesis by simp
  next
    case False
    with trailer_at [OF p _ r2(3) q2(2)] r2(2) show ?thesis by simp
  qed
  then obtain q3 r3 where 3: "aiger_read_symbols_and_comments q2 r2 = Ok () q3 r3" "good q3 ?B" by blast
  have un: "unname (unname y) = unname y" for y by (simp add: unname_def)
  have "\<exists>u. aiger_check q3 = Some u \<and> error u = None \<and> wf_aiger u \<and> clean_marks u \<and> aiger.truncate u = ?B"
    by (rule good_checked [OF 3(2) _ _ _ _ _ _ _ _ _ d]) (simp_all add: nameless_def gateless_def un)
  then obtain u where u: "aiger_check q3 = Some u" "error u = None" "wf_aiger u" "clean_marks u" "aiger.truncate u = ?B"
    by blast
  have eq: "aiger_read_generic aiger_init (full_text binary stripped p) = aiger_check q3"
    using 1(1) r2(1) 3(1) by (simp add: aiger_read_generic_def bindR_def aiger_error_def aiger_init_def aiger_init_mem_def)
  show ?thesis unfolding eq using u by blast
qed

section \<open>Writing and reading\<close>

text \<open>A structure that a file can hold: it passes the check, its names and comments are single lines.\<close>

definition portable :: "aiger_private \<Rightarrow> bool" where
  "portable p \<longleftrightarrow> checked p \<and> shaped p \<and> named p \<and> small_counts p"

lemma portable_readable: "portable p \<Longrightarrow> readable p"
  using wf_definitions [of p]
  by (simp add: portable_def checked_def wf_aiger_def wf_lits_def readable_def definitions_ok_def definitions_def)

lemma ascii_full: "full_text False (mode AND aiger_stripped_mode \<noteq> 0) p = ascii_text p @ mode_trailer mode p"
  by (simp add: full_text_def ascii_text_def format_name_def gates_text_def mode_trailer_def)

lemma binary_full: "full_text True (mode AND aiger_stripped_mode \<noteq> 0) p = binary_text p @ mode_trailer mode p"
  by (simp add: full_text_def binary_text_def format_name_def gates_text_def mode_trailer_def)

lemma ascii_round_trip:
  assumes "portable p"
  shows "\<exists>q. aiger_read_generic aiger_init (ascii_text p @ mode_trailer mode p) = Some q \<and> error q = None \<and> wf_aiger q \<and>
     clean_marks q \<and> aiger.truncate q = (if mode AND aiger_stripped_mode \<noteq> 0 then nameless p else aiger.truncate p)"
  unfolding ascii_full [symmetric]
  by (rule read_back [OF portable_readable [OF assms]]) (use assms in \<open>simp_all add: portable_def checked_def\<close>)

lemma sizes_small:
  assumes "same_sizes p q" "small_counts p" "maxvar q < 2147483648"
    "length (inputs q) + length (latches q) + length (ands q) < 2147483647"
  shows "small_counts q"
proof -
  have j: "map (length \<circ> sym_lits) (justice q) = map (length \<circ> sym_lits) (justice p)" using assms(1) by (simp add: same_sizes_def)
  have "length (justice q) = length (justice p)" using arg_cong [OF j, of length] by simp
  moreover have "\<forall>y \<in> set (justice q). length (sym_lits y) < 4294967296"
  proof -
    have "\<forall>n \<in> set (map (length \<circ> sym_lits) (justice p)). n < 4294967296" using assms(2) by (auto simp: small_counts_def)
    then have "\<forall>n \<in> set (map (length \<circ> sym_lits) (justice q)). n < 4294967296" by (simp only: j)
    then show ?thesis by simp
  qed
  ultimately show ?thesis using assms by (auto simp: small_counts_def same_sizes_def)
qed

lemma named_cong:
  assumes "map sym_name (all_symbols q) = map sym_name (all_symbols p)" "comments q = comments p" "named p"
  shows "named q"
proof -
  have e: "(\<forall>y \<in> set ys. entry_ok y) = (\<forall>n \<in> set (map sym_name ys). case n of None \<Rightarrow> True | Some s \<Rightarrow> plain_name s)" for ys
    by (simp add: entry_ok_def)
  show ?thesis using assms(3) unfolding named_def e assms(1,2) .
qed

lemma descending_acyclic:
  assumes "\<And>a b. (a, b) \<in> R \<Longrightarrow> b < (a :: nat)"
  shows "acyclic R"
proof -
  have "R\<inverse> \<subseteq> less_than" using assms by auto
  then have "wf (R\<inverse>)" using wf_subset by blast
  then show ?thesis using wf_acyclic acyclic_converse by blast
qed

text \<open>
  The binary format: what is read back is the renumbered structure. A structure that was in the
  right order to begin with must use every variable, because it is not renumbered.
\<close>

lemma binary_round_trip:
  assumes p: "portable p" "0 < maxvar p" "maxvar p < 1073741824" and mode: "mode AND aiger_ascii_mode = 0"
    and gap: "reencoded_form p \<longrightarrow> maxvar p = length (inputs p) + length (latches p) + length (ands p)"
  shows "\<exists>q u. behaviours q = behaviours p \<and> binary_form q \<and>
     (\<forall>s. aiger_write_generic p mode put s = with_state q (emit put (binary_text q @ mode_trailer mode q) s)) \<and>
     aiger_read_generic aiger_init (binary_text q @ mode_trailer mode q) = Some u \<and> error u = None \<and> wf_aiger u \<and>
     clean_marks u \<and> aiger.truncate u = (if mode AND aiger_stripped_mode \<noteq> 0 then nameless q else aiger.truncate q)"
proof -
  have c: "checked p" "shaped p" "named p" "small_counts p" using p(1) by (simp_all add: portable_def)
  obtain q where q: "behaviours q = behaviours p" "binary_ready q" "error q = None"
    "map sym_name (all_symbols q) = map sym_name (all_symbols p)" "comments q = comments p"
    "\<not> reencoded_form p \<longrightarrow> maxvar q = length (inputs q) + length (latches q) + length (ands q)"
    "reencoded_form p \<longrightarrow> same_core p q" "public_ok q" "same_sizes p q" "shaped q"
    "\<forall>s. aiger_write_generic p mode put s = with_state q (emit put (binary_text q @ mode_trailer mode q) s)"
    using write_generic_binary [OF c(1) p(2,3) mode, of put] c(2) by blast
  have m: "maxvar q = length (inputs q) + length (latches q) + length (ands q)"
    using q(6,7) gap same_coreD(1-3,9) [of p q] by (cases "reencoded_form p") simp_all
  have form: "binary_form q" using q(2) m by (simp add: binary_form_def binary_ready_def)
  have bound: "maxvar q < 2147483647" using q(2) m by (simp add: binary_ready_def)
  note pub = q(8) [unfolded public_ok_def]
  have "small_counts q" using sizes_small [OF q(9) c(4)] q(2) pub by (simp add: binary_ready_def wf_lits_def)
  then have "readable q"
    using q(2,10) pub bound by (simp add: readable_def binary_ready_def wf_lits_def definitions_ok_def definitions_def)
  moreover have "named q" by (rule named_cong [OF q(4,5) c(3)])
  moreover have "acyclic (deps q)"
  proof (rule descending_acyclic)
    fix a b assume "(a, b) \<in> deps q"
    then obtain g l where g: "g \<in> set (ands q)" "a = and_lhs g div 2" "b = l div 2" "l \<in> {and_rhs0 g, and_rhs1 g}"
      by (auto simp: deps_def)
    from g(1) pub have "even (and_lhs g)" by (simp add: definitions_ok_def definitions_def)
    moreover have "l < and_lhs g" using g(1,4) q(2) by (fastforce simp: binary_ready_def reencoded_form_def)
    ultimately show "b < a" unfolding g(2,3) by (auto elim!: evenE)
  qed
  ultimately have "\<exists>u. aiger_read_generic aiger_init (full_text True (mode AND aiger_stripped_mode \<noteq> 0) q) = Some u \<and>
      error u = None \<and> wf_aiger u \<and> clean_marks u \<and>
      aiger.truncate u = (if mode AND aiger_stripped_mode \<noteq> 0 then nameless q else aiger.truncate q)"
    using form pub by (intro read_back) simp_all
  with q(1,11) form show ?thesis unfolding binary_full by blast
qed

end
