(* ===== verification/AigerReadSafe.thy ===== *)
theory AigerReadSafe
  imports AigerRoundTrip
begin

text \<open>
  Soundness of the reader: whatever the input is, a structure that is read without an error is
  well-formed, every literal in it is defined, and its gates are acyclic.
\<close>

section \<open>What a step of the reader keeps\<close>

definition step_ok :: "aiger_private \<Rightarrow> aiger_private \<Rightarrow> bool" where
  "step_ok p q \<longleftrightarrow> error q = None \<and> maxvar p \<le> maxvar q \<and>
     (wf_aiger p \<and> unmarked_types (types p) \<and> maxvar q < 2147483648 \<longrightarrow> wf_aiger q \<and> unmarked_types (types q))"

fun outcome_ok :: "('a \<Rightarrow> bool) \<Rightarrow> aiger_private \<Rightarrow> 'a outcome \<Rightarrow> bool" where
  "outcome_ok P p Abort = True"
| "outcome_ok P p (Fail q) = (error q \<noteq> None)"
| "outcome_ok P p (Ok x q s) = (P x \<and> step_ok p q)"

definition safe :: "('a \<Rightarrow> bool) \<Rightarrow> 'a rd \<Rightarrow> bool" where
  "safe P m \<longleftrightarrow> (\<forall>p r. error p = None \<longrightarrow> outcome_ok P p (m p r))"

abbreviation any :: "'a \<Rightarrow> bool" where
  "any x \<equiv> True"

lemma step_ok_refl: "error p = None \<Longrightarrow> step_ok p p"
  by (simp add: step_ok_def)

lemma step_ok_trans: "step_ok p q \<Longrightarrow> step_ok q u \<Longrightarrow> step_ok p u"
  by (auto simp: step_ok_def)

lemma outcome_ok_trans: "step_ok p q \<Longrightarrow> outcome_ok P q x \<Longrightarrow> outcome_ok P p x"
  by (cases x) (auto intro: step_ok_trans)

lemma safeI: "(\<And>p r. error p = None \<Longrightarrow> outcome_ok P p (m p r)) \<Longrightarrow> safe P m"
  by (simp add: safe_def)

lemma safeD: "safe P m \<Longrightarrow> error p = None \<Longrightarrow> outcome_ok P p (m p r)"
  by (simp add: safe_def)

lemma outcome_bind:
  assumes "outcome_ok P p (m p r)" "\<And>x q s. m p r = Ok x q s \<Longrightarrow> P x \<Longrightarrow> error q = None \<Longrightarrow> outcome_ok Q q (f x q s)"
  shows "outcome_ok Q p (bindR m f p r)"
proof (cases "m p r")
  case (Ok x q s)
  with assms(1) have x: "P x" "step_ok p q" by simp_all
  then have "error q = None" by (simp add: step_ok_def)
  with assms(2) [OF Ok x(1)] outcome_ok_trans [OF x(2), of Q "f x q s"] Ok show ?thesis by (simp add: bindR_def)
qed (use assms(1) in \<open>simp_all add: bindR_def\<close>)

lemma safe_bind:
  assumes "safe P m" "\<And>x. P x \<Longrightarrow> safe Q (f x)"
  shows "safe Q (bindR m f)"
  by (rule safeI, rule outcome_bind, erule safeD [OF assms(1)], rule safeD [OF assms(2)])

lemma outcome_ok_mono: "outcome_ok P p x \<Longrightarrow> (\<And>y. P y \<Longrightarrow> Q y) \<Longrightarrow> outcome_ok Q p x"
  by (cases x) auto

lemma safe_weaken: "safe P m \<Longrightarrow> (\<And>x. P x \<Longrightarrow> Q x) \<Longrightarrow> safe Q m"
  by (auto simp: safe_def intro: outcome_ok_mono)

lemma safe_return: "P x \<Longrightarrow> safe P (returnR x)"
  by (simp add: safe_def returnR_def step_ok_refl)

lemma set_error_sets: "set_error msg p = Some q \<Longrightarrow> error q \<noteq> None"
  by (auto simp: set_error_def split: if_splits)

lemma raise_error:
  "aiger_error_u p s a = Some q \<Longrightarrow> error q \<noteq> None" "aiger_error_uu p s a b = Some q \<Longrightarrow> error q \<noteq> None"
  "aiger_error_us p s a t = Some q \<Longrightarrow> error q \<noteq> None" "aiger_error_usu p s a t b = Some q \<Longrightarrow> error q \<noteq> None"
  by (unfold aiger_error_u_def aiger_error_uu_def aiger_error_us_def aiger_error_usu_def; erule set_error_sets)+

lemma safe_raise:
  assumes "\<And>p r q. err p r = Some q \<Longrightarrow> error q \<noteq> None"
  shows "safe P (raiseR err)"
  using assms by (auto simp: safe_def raiseR_def split: option.split)

lemmas safe_errors = safe_raise [OF raise_error(1)] safe_raise [OF raise_error(2)] safe_raise [OF raise_error(3)]
  safe_raise [OF raise_error(4)]

lemma outcome_raise:
  "outcome_ok P p (raiseR (\<lambda>p r. aiger_error_u p s (a r)) q r)" "outcome_ok P p (raiseR (\<lambda>p r. aiger_error_uu p s (a r) b) q r)"
  "outcome_ok P p (raiseR (\<lambda>p r. aiger_error_us p s (a r) t) q r)"
  "outcome_ok P p (raiseR (\<lambda>p r. aiger_error_usu p s (a r) t b) q r)"
  using raise_error by (auto simp: raiseR_def split: option.split)

lemma safe_if: "(b \<Longrightarrow> safe P m) \<Longrightarrow> (\<not> b \<Longrightarrow> safe P n) \<Longrightarrow> safe P (if b then m else n)"
  by simp

lemma safe_loop:
  assumes "\<And>x. x \<in> set xs \<Longrightarrow> safe any (f x)"
  shows "safe any (loopR f xs)"
  using assms by (induction xs) (auto intro!: safe_return safe_bind [where P = any])

lemma safe_collect:
  assumes "safe P m"
  shows "safe (\<lambda>xs. \<forall>x \<in> set xs. P x) (collectR m n)"
proof (induction n)
  case (Suc n)
  show ?case
    unfolding collectR.simps
    by (rule safe_bind [OF assms], rule safe_bind [OF Suc], rule safe_return) simp
qed (simp add: safe_return)

lemma safe_api:
  assumes "\<And>p q. f p = Some q \<Longrightarrow> error p = None \<Longrightarrow> step_ok p q"
  shows "safe any (apiR f)"
  using assms by (auto simp: safe_def apiR_def split: option.split)

lemma safe_reject: "safe any (rejectR b fmt l)"
  by (rule safeI) (simp add: rejectR_def outcome_raise step_ok_refl)

lemma safe_reader: "safe any (readerR f)"
  by (simp add: safe_def readerR_def step_ok_refl)

section \<open>The construction API\<close>

lemma unmarked_append: "unmarked_types (ts @ us) \<longleftrightarrow> unmarked_types ts \<and> unmarked_types us"
  by (simp add: unmarked_types_def)

lemma unmarked_enlarge [simp]: "unmarked_types (enlarge_types v ts) = unmarked_types ts"
  using enlarge_types_ext [of v ts] by (auto simp: unmarked_append) (auto simp: unmarked_types_def list_all_iff)

lemma unmarked_keep:
  assumes "unmarked_types ts" "ty_mark t = ty_mark (ts ! v)" "ty_onstack t = ty_onstack (ts ! v)"
  shows "unmarked_types (ts[v := t])"
proof (cases "v < length ts")
  case True
  show ?thesis by (rule unmarked_update [OF assms(1) True]) (use unmarked_nth [OF assms(1) True] assms(2,3) in simp_all)
qed (simp add: assms(1) list_update_beyond)

lemma unmarked_mark:
  "unmarked_types ts \<Longrightarrow> unmarked_types (ts[v := (ts ! v)\<lparr>ty_input := True, ty_idx := k\<rparr>])"
  "unmarked_types ts \<Longrightarrow> unmarked_types (ts[v := (ts ! v)\<lparr>ty_latch := True, ty_idx := k\<rparr>])"
  "unmarked_types ts \<Longrightarrow> unmarked_types (ts[v := (ts ! v)\<lparr>ty_and := True, ty_idx := k\<rparr>])"
  by (rule unmarked_keep; simp)+

lemma unmarked_fold_import:
  "unmarked_types (types (fold (\<lambda>l p. aiger_import_literal p l) ls p)) = unmarked_types (types p)"
  by (induction ls arbitrary: p) simp_all

lemma maxvar_fold_import: "maxvar p \<le> maxvar (fold (\<lambda>l p. aiger_import_literal p l) ls p)"
proof (induction ls arbitrary: p)
  case (Cons l ls)
  have "maxvar p \<le> maxvar (aiger_import_literal p l)" by simp
  also note Cons [of "aiger_import_literal p l"]
  finally show ?case by simp
qed simp

lemma add_input_ok:
  assumes "aiger_add_input p l n = Some q" "l < 4294967296"
  shows "step_ok p q"
  using wf_add_input [OF assms(1) _ assms(2)] assms(1)
  by (auto simp: step_ok_def aiger_add_input_def aiger_error_def Let_def set_type_def unmarked_mark split: if_splits)

lemma add_latch_ok:
  assumes "aiger_add_latch p l x n = Some q" "l < 4294967296" "x < 4294967296"
  shows "step_ok p q"
  using wf_add_latch [OF assms(1) _ assms(2,3)] assms(1)
  by (auto simp: step_ok_def aiger_add_latch_def aiger_error_def Let_def set_type_def unmarked_mark split: if_splits)

lemma add_and_ok:
  assumes "aiger_add_and p l a b = Some q" "l < 4294967296" "a < 4294967296" "b < 4294967296"
  shows "step_ok p q"
  using wf_add_and [OF assms(1) _ assms(2-4)] assms(1)
  by (auto simp: step_ok_def aiger_add_and_def aiger_error_def Let_def set_type_def unmarked_mark split: if_splits)

lemma add_reset_ok:
  assumes "aiger_add_reset p l x = Some q" "l < 4294967296"
  shows "step_ok p q"
  using wf_add_reset [OF assms(1) _ assms(2)] assms(1)
  by (auto simp: step_ok_def aiger_add_reset_def aiger_error_def Let_def split: if_splits)

lemma add_plain_ok:
  assumes "error p = None" "l < 4294967296"
  shows "step_ok p (aiger_add_output p l n)" "step_ok p (aiger_add_bad p l n)"
    "step_ok p (aiger_add_constraint p l n)" "step_ok p (aiger_add_fairness p l n)"
  using wf_add_plain [OF _ assms(2), of p n] assms(1)
  by (simp_all add: step_ok_def aiger_add_output_def aiger_add_bad_def aiger_add_constraint_def aiger_add_fairness_def Let_def)

lemma add_justice_ok:
  assumes "error p = None" "\<forall>l \<in> set ls. l < 4294967296"
  shows "step_ok p (aiger_add_justice p ls n)"
  using wf_add_justice [OF _ assms(2), of p n] assms(1) maxvar_fold_import [of p ls]
  by (simp add: step_ok_def aiger_add_justice_def Let_def unmarked_fold_import)

lemma add_comment_ok:
  assumes "aiger_add_comment p c = Some q"
  shows "step_ok p q"
  using wf_add_comment [OF assms] assms
  by (auto simp: step_ok_def aiger_add_comment_def aiger_error_def Let_def split: if_splits)

section \<open>The parts of the reader\<close>

lemma read_digits_less: "n < 4294967296 \<Longrightarrow> fst (read_digits n r) < 4294967296"
  by (induction n r rule: read_digits.induct) (subst read_digits.simps, simp add: Let_def)

lemma safe_number: "safe (\<lambda>n. n < 4294967296) aiger_read_number"
proof (rule safeI)
  fix p :: aiger_private and r :: aiger_reader assume e: "error p = None"
  show "outcome_ok (\<lambda>n. n < 4294967296) p (aiger_read_number p r)"
  proof (cases "digit_ch (rd_ch r)")
    case True
    have "digit_val c < 4294967296" for c using nat_of_char_less_256 [of c] unfolding digit_val_def by linarith
    then have "fst (read_digits (digit_val (the (rd_ch r))) r) < 4294967296" by (rule read_digits_less)
    then show ?thesis using e True
      by (cases "read_digits (digit_val (the (rd_ch r))) r") (simp add: aiger_read_number_def step_ok_refl)
  qed (simp add: aiger_read_number_def)
qed


definition small_pair :: "uint \<times> char \<Rightarrow> bool" where
  "small_pair x \<longleftrightarrow> fst x < 4294967296"

lemma safe_literal: "safe small_pair (aiger_read_literal cont e)"
proof (rule safeI)
  fix p :: aiger_private and r :: aiger_reader assume e: "error p = None"
  have "safe small_pair (bindR aiger_read_number (\<lambda>res p r.
          if e = Some CHR '' '' \<and> rd_ch r \<noteq> Some CHR '' '' then
            raiseR (\<lambda>p r. aiger_error_usu p ''line %u: expected space after %s %u''
              (rd_token_line r) cont res) p r
          else if e = Some CHR ''\<newline>'' \<and> rd_ch r \<noteq> Some CHR ''\<newline>'' then
            raiseR (\<lambda>p r. aiger_error_usu p ''line %u: expected new line after %s %u''
              (rd_token_line r) cont res) p r
          else if e = None \<and> rd_ch r \<noteq> Some CHR ''\<newline>'' \<and> rd_ch r \<noteq> Some CHR '' '' then
            raiseR (\<lambda>p r. aiger_error_usu p ''line %u: expected space or new line after %s %u''
              (rd_token_line r) cont res) p r
          else Ok (res, the (rd_ch r)) p (aiger_next_ch r)))"
    by (rule safe_bind [OF safe_number], rule safeI) (simp add: outcome_raise step_ok_refl small_pair_def)
  from safeD [OF this e, of r] show "outcome_ok small_pair p (aiger_read_literal cont e p r)"
    unfolding aiger_read_literal_def by (simp only: outcome_raise outcome_ok.simps simp_thms split: if_split)
qed

lemma safe_literal_bind:
  assumes "\<And>n c. n < 4294967296 \<Longrightarrow> safe P (f n c)"
  shows "safe P (bindR (aiger_read_literal cont e) (\<lambda>(n, c). f n c))"
  by (rule safe_bind [OF safe_literal]) (use assms in \<open>auto simp: small_pair_def\<close>)

lemmas safe_then = safe_bind [where P = any, rotated]

lemma safe_already: "safe any (aiger_already_defined l)"
  by (rule safeI) (simp add: aiger_already_defined_def outcome_raise step_ok_refl Let_def split: option.split)

lemma safe_definition: "safe (\<lambda>l. l < 4294967296) (read_definition cont c fmt)"
  unfolding read_definition_def
  by (rule safe_literal_bind, rule safe_then [OF _ safe_reject], rule safe_then [OF _ safe_already], rule safe_return)

lemma safe_input: "safe any (read_input h i)"
  unfolding read_input_def
  by (rule safe_bind [where P = "\<lambda>l::uint. l < 4294967296"], rule safe_if, rule safe_definition, rule safe_return, simp,
      rule safe_api, rule add_input_ok)

lemma safe_latch: "safe any (read_latch h i)"
  unfolding read_latch_def
  by (rule safe_bind [where P = "\<lambda>l::uint. l < 4294967296"], rule safe_if, rule safe_definition, rule safe_return, simp,
      rule safe_literal_bind, rule safe_then [OF _ safe_reject], rule safe_then [OF _ safe_api], rule safe_if,
      rule safe_literal_bind, rule safe_api, erule add_reset_ok, assumption, rule safe_return, simp,
      erule add_latch_ok, assumption, assumption)

lemma safe_plain:
  assumes "\<And>p l. error p = None \<Longrightarrow> l < 4294967296 \<Longrightarrow> step_ok p (add p l None)"
  shows "safe any (read_plain cont fmt add i)"
  unfolding read_plain_def
  by (rule safe_literal_bind, rule safe_then [OF _ safe_reject], rule safe_api) (auto intro: assms)

lemma safe_justice_lits: "safe any (read_justice_lits n)"
  unfolding read_justice_lits_def
  by (rule safe_bind [OF safe_collect [OF safe_literal]], rule safe_api) (auto intro!: add_justice_ok simp: small_pair_def)

lemma safe_justice: "safe any (read_justice h)"
  unfolding read_justice_def
  by (rule safe_if, rule safe_return, simp, rule safe_bind [OF safe_collect [OF safe_literal]], rule safe_loop,
      rule safe_justice_lits)

lemma safe_lists: "safe any (read_lists h)"
  unfolding read_lists_def
  by (rule safe_then [rotated], rule safe_loop, rule safe_input, rule safe_then [rotated], rule safe_loop, rule safe_latch,
      rule safe_then [rotated], rule safe_loop, rule safe_plain, erule (1) add_plain_ok,
      rule safe_then [rotated], rule safe_loop, rule safe_plain, erule (1) add_plain_ok,
      rule safe_then [rotated], rule safe_loop, rule safe_plain, erule (1) add_plain_ok,
      rule safe_then [OF _ safe_justice], rule safe_loop, rule safe_plain, erule (1) add_plain_ok)

lemma safe_and: "safe any (read_and i)"
  unfolding read_and_def
  by (rule safe_bind [OF safe_definition], rule safe_literal_bind, rule safe_then [OF _ safe_reject],
      rule safe_literal_bind, rule safe_then [OF _ safe_reject], rule safe_api, erule add_and_ok)


section \<open>The gates\<close>

lemma safe_delta_loop: "res < 4294967296 \<Longrightarrow> error p = None \<Longrightarrow>
   outcome_ok (\<lambda>n. n < 4294967296) p (delta_loop charno i res p r)"
proof (induction charno i res p r rule: delta_loop.induct)
  case (1 charno i res p r)
  have or: "res OR u32 n < 4294967296" for n
  proof -
    have "take_bit 32 (res OR u32 n) = res OR u32 n"
      using "1.prems"(1) by (simp add: take_bit_or take_bit_nat_eq_self)
    then show ?thesis using take_bit_nat_less_exp [of 32 "res OR u32 n"] by simp
  qed
  show ?case
    using 1 or by (subst delta_loop.simps)
      (simp add: outcome_raise unexpected_eof_def step_ok_refl Let_def split: option.split)
qed

lemma safe_delta: "safe (\<lambda>n. n < 4294967296) aiger_read_delta"
  by (rule safeI) (simp add: aiger_read_delta_def safe_delta_loop)

lemma safe_binary_and:
  assumes "l < 4294967296"
  shows "safe any (read_binary_and l)"
proof (rule safeI)
  fix p :: aiger_private and r :: aiger_reader assume e: "error p = None"
  let ?f = "\<lambda>n b. bindR aiger_read_delta (\<lambda>delta. bindR (invalid_delta n (delta > b)) (\<lambda>_. apiR (\<lambda>p. aiger_add_and p l b (b - delta))))"
  have inv: "safe any (invalid_delta n b)" for n b
    by (rule safeI) (simp add: invalid_delta_def outcome_raise step_ok_refl)
  have f: "safe any (?f n b)" if "b < 4294967296" for n b
    by (rule safe_bind [OF safe_delta], rule safe_then [OF _ inv], rule safe_api, erule add_and_ok) (use assms that in simp_all)
  have "safe any (bindR aiger_read_delta (\<lambda>delta. bindR (invalid_delta (rd_charno r) (delta > l)) (\<lambda>_ p r. ?f (rd_charno r) (l - delta) p r)))"
    by (rule safe_bind [OF safe_delta], rule safe_then [OF _ inv], rule safeI, rule safeD [OF f]) (use assms in auto)
  from safeD [OF this e, of r] show "outcome_ok any p (read_binary_and l p r)" by (simp add: read_binary_and_def Let_def)
qed

lemma safe_ascii: "safe any (aiger_read_ascii h)"
  unfolding aiger_read_ascii_def by (rule safe_loop, rule safe_and)

lemma safe_binary: "safe any (aiger_read_binary h)"
proof (rule safeI)
  fix p :: aiger_private and r :: aiger_reader assume e: "error p = None"
  have "safe any (loopR (\<lambda>i. read_binary_and (u32 (m + 2 * Suc i))) xs)" for m xs
    by (rule safe_loop, rule safe_binary_and) simp
  from safeD [OF this e] show "outcome_ok any p (aiger_read_binary h p r)"
    by (simp add: aiger_read_binary_def split: option.split)
qed

section \<open>Symbols and comments\<close>

lemma safe_symbol_name: "safe any symbol_name"
proof -
  have "outcome_ok any p (symbol_name p r)" if "error p = None" for p r
    using that
  proof (induction p r rule: symbol_name.induct)
    case (1 p r)
    then show ?case by (subst symbol_name.simps) (simp add: outcome_raise step_ok_refl split: option.split)
  qed
  then show ?thesis by (rule safeI)
qed

lemma comment_line_out: "error p = None \<Longrightarrow> outcome_ok any p (comment_line p r)"
proof (induction p r rule: comment_line.induct)
  case (1 p r)
  then show ?case by (subst comment_line.simps) (simp add: outcome_raise step_ok_refl split: option.split)
qed

lemma read_comment_lines_out: "error p = None \<Longrightarrow> outcome_ok any p (read_comment_lines p r)"
proof (induction p r rule: read_comment_lines.induct)
  case (1 p r)
  note line = comment_line_out [OF "1.prems", of r]
  show ?case
  proof (cases "comment_line p r")
    case (Ok x q s)
    with line have q: "step_ok p q" by simp
    let ?s = "aiger_reader_push_ch CHR 0x00 (aiger_next_ch s)"
    show ?thesis
    proof (cases "aiger_add_comment q (c_string (rd_buffer ?s))")
      case None
      then show ?thesis using Ok 1 by (subst read_comment_lines.simps) (simp add: Let_def step_ok_refl)
    next
      case (Some u)
      note u = add_comment_ok [OF Some]
      have "error u = None" using u by (simp add: step_ok_def)
      then have "rd_ch r \<noteq> None \<Longrightarrow> outcome_ok any u (read_comment_lines u (clear_buffer ?s))"
        using "1.IH" [OF _ Ok refl Some] by blast
      then have "rd_ch r \<noteq> None \<Longrightarrow> outcome_ok any p (read_comment_lines u (clear_buffer ?s))"
        using outcome_ok_trans [OF step_ok_trans [OF q u]] by blast
      then show ?thesis using Ok Some 1 by (subst read_comment_lines.simps) (simp add: Let_def step_ok_refl)
    qed
  qed (use line 1 in \<open>subst read_comment_lines.simps, simp add: step_ok_refl\<close>)+
qed

lemma safe_comments: "safe any aiger_read_comments"
  by (rule safeI) (simp add: aiger_read_comments_def read_comment_lines_out)


lemma set_symbol_ok:
  assumes "error p = None" "i < length (get_array c p)"
  shows "step_ok p (set_symbol c i (aiger_copy_str n) p)"
proof -
  let ?ys = "get_array c p" and ?zs = "rename_at i (aiger_copy_str n) (get_array c p)"
  have "unname ((?ys ! i)\<lparr>sym_name := aiger_copy_str n\<rparr>) = unname (?ys ! i)" by (simp add: unname_def)
  then have un: "map unname ?zs = map unname ?ys" using assms(2) by (simp add: rename_at_def map_update list_update_same_conv)
  have "\<forall>y \<in> set ?zs. ok_name (sym_name y)" if "wf_aiger p"
  proof
    fix y assume "y \<in> set ?zs"
    then consider "y \<in> set ?ys" | "y = (?ys ! i)\<lparr>sym_name := aiger_copy_str n\<rparr>"
      using set_update_subset_insert by (fastforce simp: rename_at_def)
    then show "ok_name (sym_name y)"
    proof cases
      case 1
      have "set ?ys \<subseteq> set (all_symbols p)" by (auto simp: get_array_def all_symbols_def)
      with 1 that show ?thesis by (auto simp: wf_aiger_def wf_names_def)
    qed simp
  qed
  with wf_set_array [OF _ un] assms(1) show ?thesis by (simp add: step_ok_def set_symbol_eq)
qed

lemma safe_symbol: "safe any (read_symbol c)"
proof (rule safeI)
  fix p :: aiger_private and r :: aiger_reader assume e: "error p = None"
  obtain ty ys where a: "symbol_array c p = (ty, ys)" by (cases "symbol_array c p")
  let ?f = "\<lambda>pos p r. let (_, symbols) = symbol_array c p in
      if pos \<ge> length symbols then
        raiseR (\<lambda>p r. aiger_error_usu p ''line %u: %s symbol table entry position %u too large''
          (rd_token_line r) ty pos) p r
      else if sym_name (symbols ! pos) \<noteq> None then
        raiseR (\<lambda>p r. aiger_error_usu p ''line %u: %s literal %u has multiple symbols''
          (rd_token_line r) ty (sym_lit (symbols ! pos))) p r
      else
        bindR symbol_name (\<lambda>_ p r.
        let r = aiger_reader_push_ch CHR 0x00 (aiger_next_ch r) in
        Ok () (set_symbol c pos (aiger_copy_str (Some (rd_buffer r))) p) (clear_buffer r)) p r"
  have name_same: "symbol_name p r = Ok x q s \<Longrightarrow> q = p" for p r x q s
    by (induction p r rule: symbol_name.induct)
      (subst (asm) (2) symbol_name.simps, auto simp: raiseR_def aiger_reader_push_ch_def split: option.splits if_splits)
  have f: "safe any (?f pos)" for pos
  proof (rule safeI)
    fix p :: aiger_private and r :: aiger_reader assume e: "error p = None"
    obtain t zs where b: "symbol_array c p = (t, zs)" by (cases "symbol_array c p")
    then have zs: "zs = get_array c p" using symbol_array_eq [of c p] by simp
    have "outcome_ok any p (bindR symbol_name (\<lambda>_ p r.
        let r = aiger_reader_push_ch CHR 0x00 (aiger_next_ch r) in
        Ok () (set_symbol c pos (aiger_copy_str (Some (rd_buffer r))) p) (clear_buffer r)) p r)" if "pos < length zs"
      using safeD [OF safe_symbol_name e, of r] name_same [of p r] set_symbol_ok [OF e] that zs
      by (cases "symbol_name p r") (auto simp: bindR_def Let_def)
    then show "outcome_ok any p (?f pos p r)" unfolding b by (simp add: outcome_raise)
  qed
  have "safe any (bindR (aiger_read_literal ty (Some CHR '' '')) (\<lambda>(pos, _). ?f pos))"
    by (rule safe_literal_bind, rule f)
  from safeD [OF this e, of r] show "outcome_ok any p (read_symbol c p r)"
    by (simp only: read_symbol_def a Let_def case_prod_conv)
qed

lemma safe_corrupted: "safe any corrupted"
  by (rule safeI) (simp add: corrupted_def outcome_raise)

lemma safe_no_constraint: "safe any no_constraint"
  unfolding no_constraint_def by (rule safe_errors)

lemma safe_symbol_table: "safe any read_symbol_table"
proof -
  have "outcome_ok any p (read_symbol_table p r)" if "error p = None" for p r
    using that
  proof (induction p r rule: read_symbol_table.induct)
    case (1 p r)
    note e = "1.prems"
    have s: "outcome_ok any p (bindR (read_symbol c) (\<lambda>_ p r. read_symbol_table p r) p (aiger_next_ch r))"
      if c: "rd_ch r = Some c" "\<not> c \<notin> set ''ilobcjf''" "\<not> (c = CHR ''c'' \<and> rd_ch (aiger_next_ch r) = Some CHR ''\<newline>'')"
        "\<not> (c = CHR ''c'' \<and> constraints p = [])" for c
      proof (rule outcome_bind)
      show "outcome_ok any p (read_symbol c p (aiger_next_ch r))" by (rule safeD [OF safe_symbol e])
      show "outcome_ok any q (read_symbol_table q s)"
        if "read_symbol c p (aiger_next_ch r) = Ok x q s" "error q = None" for x q s
        by (rule "1.IH" [OF c that])
    qed
    show ?case
      by (subst read_symbol_table.simps)
        (use s in \<open>auto simp: step_ok_refl [OF e] safeD [OF safe_corrupted e] safeD [OF safe_no_constraint e] safeD [OF safe_comments e]
          simp del: next_ch_simps split: option.split\<close>)
  qed
  then show ?thesis by (rule safeI)
qed

lemma safe_symbols_and_comments: "safe any aiger_read_symbols_and_comments"
  by (rule safeI) (simp add: aiger_read_symbols_and_comments_def safeD [OF safe_symbol_table])

section \<open>The whole reader\<close>

lemma safe_optional: "safe small_pair (read_optional ch cont e)"
  unfolding read_optional_def by (rule safe_if, rule safe_literal, rule safe_return) (simp add: small_pair_def)

lemma optional_bind:
  assumes "\<And>n c. n < 4294967296 \<Longrightarrow> safe P (f n c)"
  shows "safe P (bindR (read_optional ch cont e) (\<lambda>(n, c). f n c))"
  by (rule safe_bind [OF safe_optional]) (use assms in \<open>auto simp: small_pair_def\<close>)

lemma safe_expect: "safe any (expect_ch cs fmt)"
  by (rule safeI) (simp add: expect_ch_def Let_def outcome_raise step_ok_refl)

text \<open>The start: nothing is built before the header's numbers are known.\<close>

definition idle :: "'a rd \<Rightarrow> bool" where
  "idle m \<longleftrightarrow> (\<forall>p r x q s. m p r = Ok x q s \<longrightarrow> q = p)"

lemma idle_bind: "idle m \<Longrightarrow> (\<And>x. idle (f x)) \<Longrightarrow> idle (bindR m f)"
  unfolding idle_def bindR_def by (auto split: outcome.splits) (metis)+

lemma idle_simple: "idle (returnR x)" "idle (readerR f)" "idle (raiseR err)"
  by (auto simp: idle_def returnR_def readerR_def raiseR_def split: option.splits)

lemma idle_if: "idle m \<Longrightarrow> idle n \<Longrightarrow> idle (if b then m else n)"
  by simp

lemma idle_number: "idle aiger_read_number"
  by (auto simp: idle_def aiger_read_number_def split: if_splits prod.splits)

lemma idle_literal: "idle (aiger_read_literal cont e)"
proof -
  have "aiger_read_number p r = Ok x q s \<Longrightarrow> q = p" for p r x q s
    using idle_number unfolding idle_def by blast
  then show ?thesis
    unfolding idle_def aiger_read_literal_def bindR_def by (auto split: if_splits outcome.splits)
qed

lemma idle_optional: "idle (read_optional ch cont e)"
  unfolding read_optional_def by (rule idle_if [OF idle_literal idle_simple(1)])

lemma idle_expect: "idle (expect_ch cs fmt)"
  by (auto simp: idle_def expect_ch_def Let_def split: if_splits)

lemma idle_split: "(\<And>a b. idle (f a b)) \<Longrightarrow> idle (case x of (a, b) \<Rightarrow> f a b)"
  by (cases x) simp

lemma idle_counts: "idle (read_counts b)"
  unfolding read_counts_def
  by (intro idle_bind idle_split idle_literal idle_optional idle_simple)

lemma safe_counts: "safe (\<lambda>h. hd_maxvar h < 4294967296) (read_counts b)"
  unfolding read_counts_def
  by (rule safe_literal_bind, rule safe_literal_bind, rule safe_literal_bind, rule safe_literal_bind, rule safe_literal_bind,
      rule optional_bind, rule optional_bind, rule optional_bind, rule optional_bind, rule safe_return) simp


lemma idle_let: "(\<And>b. idle (m b)) \<Longrightarrow> idle (\<lambda>p r. let b = g r in m b p r)"
  unfolding idle_def Let_def by blast

lemma safe_let: "(\<And>b. safe P (m b)) \<Longrightarrow> safe P (\<lambda>p r. let b = g r in m b p r)"
  by (simp add: safe_def)

lemma idle_magic: "idle read_magic"
  unfolding read_magic_def
  by (rule idle_bind [OF idle_expect], rule idle_bind [OF idle_expect], rule idle_let, rule idle_bind [OF idle_expect],
      rule idle_bind [OF idle_expect], rule idle_bind [OF idle_simple(2) idle_simple(1)])

lemma safe_magic: "safe any read_magic"
  unfolding read_magic_def
  by (rule safe_then [OF _ safe_expect], rule safe_then [OF _ safe_expect], rule safe_let, rule safe_then [OF _ safe_expect],
      rule safe_then [OF _ safe_expect], rule safe_then [OF _ safe_reader], rule safe_return, simp)

lemma bindR_assoc: "bindR (bindR m f) g = bindR m (\<lambda>x. bindR (f x) g)"
  by (simp add: bindR_def fun_eq_iff split: outcome.split)

definition read_rest :: "header \<Rightarrow> unit rd" where
  "read_rest h =
     bindR (read_lists h) (\<lambda>_.
     bindR (readerR (\<lambda>r. r\<lparr>rd_done_header := True, rd_looks_aag := True\<rparr>)) (\<lambda>_.
     bindR (if \<not> hd_binary h then aiger_read_ascii h else aiger_read_binary h) (\<lambda>_.
     aiger_read_symbols_and_comments)))"

lemma safe_rest: "safe any (read_rest h)"
  unfolding read_rest_def
  by (rule safe_then [OF _ safe_lists], rule safe_then [OF _ safe_reader], rule safe_then [OF safe_symbols_and_comments],
      rule safe_if, rule safe_ascii, rule safe_binary)

lemma return_bind: "bindR (returnR x) f = f x"
  by (simp add: bindR_def returnR_def fun_eq_iff)

lemma read_all_eq:
  "bindR aiger_read_header (\<lambda>h. bindR (if \<not> hd_binary h then aiger_read_ascii h else aiger_read_binary h)
     (\<lambda>_. aiger_read_symbols_and_comments)) =
   bindR (bindR read_magic read_counts) (\<lambda>h. bindR (set_header h) (\<lambda>_. read_rest h))"
  by (simp add: aiger_read_header_def bindR_assoc return_bind read_rest_def)

lemma set_header_cases:
  assumes "hd_maxvar h < 4294967296"
  shows "set_header h aiger_init r = Abort \<or> (\<exists>q. set_header h aiger_init r = Fail q \<and> error q \<noteq> None) \<or>
    (\<exists>s. set_header h aiger_init r = Ok () (aiger_init\<lparr>maxvar := hd_maxvar h,
       types := fit_types (u32 (hd_maxvar h + 1)) (types aiger_init)\<rparr>) s)"
proof (cases "hd_binary h \<and> u32 (u32 (hd_inputs h + hd_latches h) + hd_ands h) \<noteq> hd_maxvar h")
  case True
  have "outcome_ok any aiger_init (set_header h aiger_init r)"
    unfolding set_header_def if_P [OF True] by (rule outcome_raise)
  moreover have "set_header h aiger_init r \<noteq> Ok () q s" for q s
    unfolding set_header_def if_P [OF True] by simp
  ultimately show ?thesis by (cases "set_header h aiger_init r") auto
next
  case False
  show ?thesis unfolding set_header_def if_not_P [OF False] by blast
qed

lemma init_error [simp]: "error aiger_init = None"
  by (simp add: aiger_init_def aiger_init_mem_def)

lemma read_outcome:
  assumes "aiger_read_generic aiger_init input = Some q"
  shows "error q \<noteq> None \<or> (\<exists>m u. aiger_check u = Some q \<and>
     step_ok (aiger_init\<lparr>maxvar := m, types := fit_types (u32 (m + 1)) (types aiger_init)\<rparr>) u)"
proof -
  let ?m = "bindR read_magic read_counts" and ?r = "new_reader input"
  let ?all = "bindR ?m (\<lambda>h. bindR (set_header h) (\<lambda>_. read_rest h)) aiger_init ?r"
  have gen: "aiger_read_generic aiger_init input = (case ?all of Abort \<Rightarrow> None | Fail q \<Rightarrow> Some q | Ok _ q r \<Rightarrow> aiger_check q)"
    unfolding aiger_read_generic_def read_all_eq by (simp add: aiger_error_def)
  have "safe (\<lambda>h. hd_maxvar h < 4294967296) ?m" by (rule safe_then [OF safe_counts safe_magic])
  note m = safeD [OF this init_error, of ?r]
  show ?thesis
  proof (cases "?m aiger_init ?r")
    case Abort
    with gen assms show ?thesis by (simp add: bindR_def)
  next
    case (Fail p)
    with gen assms m show ?thesis by (simp add: bindR_def)
  next
    case (Ok h p s)
    have "idle ?m" by (rule idle_bind [OF idle_magic idle_counts])
    with Ok have p: "p = aiger_init" unfolding idle_def by blast
    have "hd_maxvar h < 4294967296" using m Ok by simp
    note start = set_header_cases [OF this, of s]
    let ?u = "aiger_init\<lparr>maxvar := hd_maxvar h, types := fit_types (u32 (hd_maxvar h + 1)) (types aiger_init)\<rparr>"
    have all: "?all = bindR (set_header h) (\<lambda>_. read_rest h) aiger_init s" using Ok p by (simp add: bindR_def)
    from start consider "set_header h aiger_init s = Abort"
      | v where "set_header h aiger_init s = Fail v" "error v \<noteq> None" | t where "set_header h aiger_init s = Ok () ?u t"
      by blast
    then show ?thesis
    proof cases
      case 1
      with gen assms all show ?thesis by (simp add: bindR_def)
    next
      case 2
      with gen assms all show ?thesis by (simp add: bindR_def)
    next
      case 3
      have rest: "?all = read_rest h ?u t" using all 3 by (simp add: bindR_def)
      have "error ?u = None" by simp
      note r = safeD [OF safe_rest this, of h t]
      show ?thesis
      proof (cases "read_rest h ?u t")
        case (Ok x u w)
        then have "aiger_check u = Some q" "step_ok ?u u" using gen assms rest r by simp_all
        then show ?thesis by blast
      qed (use gen assms rest r in simp_all)
    qed
  qed
qed

text \<open>The check never touches the maximal variable.\<close>

definition keeps :: "(aiger_private \<Rightarrow> aiger_private option) \<Rightarrow> bool" where
  "keeps f \<longleftrightarrow> (\<forall>p q. f p = Some q \<longrightarrow> maxvar q = maxvar p)"

lemma keeps_bind: "keeps f \<Longrightarrow> keeps g \<Longrightarrow> keeps (\<lambda>p. Option.bind (f p) g)"
  unfolding keeps_def by (auto simp: bind_eq_Some_conv)

lemma keeps_until: "(\<And>x. keeps (f x)) \<Longrightarrow> keeps (until_error f xs)"
proof (induction xs)
  case (Cons x xs)
  have "maxvar q = maxvar p" if "until_error f (x # xs) p = Some q" for p q
  proof (cases "error p")
    case None
    with that obtain u where "f x p = Some u" "until_error f xs u = Some q" by (auto simp: bind_eq_Some_conv)
    with Cons show ?thesis unfolding keeps_def by metis
  qed (use that in simp)
  then show ?case unfolding keeps_def by blast
qed (simp add: keeps_def)

lemma set_error_keeps: "set_error msg p = Some q \<Longrightarrow> maxvar q = maxvar p"
  by (auto simp: set_error_def split: if_splits)

lemma cycle_loop_keeps: "cycle_loop p st = Some q \<Longrightarrow> maxvar q = maxvar p"
proof (induction p st rule: cycle_loop.induct)
  case (2 p j st)
  show ?case
  proof (cases "j = 0")
    case False
    note eq = 2(4) [unfolded cycle_loop.simps(2) [of p j st] if_P [OF False]]
    consider "ty_mark (type_at p j) \<and> ty_onstack (type_at p j)" | "\<not> (ty_mark (type_at p j) \<and> ty_onstack (type_at p j))"
      "\<not> ty_and (type_at p j) \<or> ty_mark (type_at p j)" | "\<not> (ty_mark (type_at p j) \<and> ty_onstack (type_at p j))"
      "\<not> (\<not> ty_and (type_at p j) \<or> ty_mark (type_at p j))" by blast
    then show ?thesis
    proof cases
      case 1
      with eq show ?thesis by (auto simp: aiger_error_u_def dest: set_error_keeps split: if_splits)
    next
      case 2
      with eq \<open>j \<noteq> 0\<close> "2.IH"(1) show ?thesis by (simp split: if_splits)
    next
      case 3
      with eq have s: "\<not> length (types p) \<le> j" "\<not> length (ands p) \<le> ty_idx (type_at p j)" by (auto split: if_splits)
      from eq s 3 "2.IH"(2) [OF False s(1) 3 s(2) refl] show ?thesis by (simp add: Let_def set_type_def)
    qed
  next
    case True
    with 2(3,4) show ?thesis
      unfolding cycle_loop.simps(2) [of p j st] by (auto simp: set_type_def split: if_splits list.splits)
  qed
qed (simp add: cycle_loop.simps(1))

lemma check_parts_keep:
  "keeps aiger_check_next_defined" "keeps aiger_check_outputs_defined" "keeps aiger_check_bad_defined"
  "keeps aiger_check_constraints_defined" "keeps aiger_check_justice_defined" "keeps aiger_check_fairness_defined"
  "keeps aiger_check_right_hand_sides_defined" "keeps aiger_check_for_cycles"
proof -
  have e: "keeps (check_stripped fmt l)" for fmt l
    by (auto simp: keeps_def check_stripped_def aiger_error_u_def Let_def bind_eq_Some_conv dest: set_error_keeps split: if_splits)
  have u: "keeps (\<lambda>p. until_error f (xs p) p)" if "\<And>x. keeps (f x)" for f and xs :: "aiger_private \<Rightarrow> 'c list"
    using keeps_until [of f, OF that] by (simp add: keeps_def)
  show "keeps aiger_check_outputs_defined" "keeps aiger_check_bad_defined" "keeps aiger_check_constraints_defined"
    "keeps aiger_check_fairness_defined"
    unfolding aiger_check_outputs_defined_def [abs_def] aiger_check_bad_defined_def [abs_def]
      aiger_check_constraints_defined_def [abs_def] aiger_check_fairness_defined_def [abs_def] by (rule u, rule e)+
  show "keeps aiger_check_justice_defined"
    unfolding aiger_check_justice_defined_def [abs_def] by (rule u, rule keeps_until, rule e)
  show "keeps aiger_check_next_defined"
    unfolding aiger_check_next_defined_def [abs_def]
    by (rule u) (auto simp: keeps_def check_next_symbol_def aiger_error_uu_def Let_def bind_eq_Some_conv
        dest: set_error_keeps split: if_splits)
  have r: "aiger_check_right_hand_side_defined p g l = Some q \<Longrightarrow> maxvar q = maxvar p" for p g l q
    by (auto simp: aiger_check_right_hand_side_defined_def aiger_error_uu_def bind_eq_Some_conv
        dest: set_error_keeps split: if_splits)
  show "keeps aiger_check_right_hand_sides_defined"
    unfolding aiger_check_right_hand_sides_defined_def [abs_def]
    by (rule u) (auto simp: keeps_def bind_eq_Some_conv, metis r)
  show "keeps aiger_check_for_cycles"
    unfolding aiger_check_for_cycles_def [abs_def]
    by (rule u) (auto simp: keeps_def dest: cycle_loop_keeps split: if_splits)
qed

lemma check_keeps:
  assumes "aiger_check p = Some q"
  shows "maxvar q = maxvar p"
  using assms check_parts_keep unfolding aiger_check_def keeps_def
  by (auto simp: bind_eq_Some_conv split: if_splits)

lemma read_sound:
  assumes read: "aiger_read_generic aiger_init input = Some q" and e: "error q = None" and m: "maxvar q < 2147483648"
  shows "checked q"
proof -
  from read_outcome [OF read] e obtain m0 u where u: "aiger_check u = Some q"
    "step_ok (aiger_init\<lparr>maxvar := m0, types := fit_types (u32 (m0 + 1)) (types aiger_init)\<rparr>) u" by blast
  have mu: "maxvar u < 2147483648" using check_keeps [OF u(1)] m by simp
  then have "m0 < 2147483648" using u(2) by (simp add: step_ok_def)
  from goodD(1,3) [OF good_blank [OF this]] mu u(2) have wu: "wf_aiger u" "unmarked_types (types u)" "error u = None"
    by (auto simp: step_ok_def)
  then have "clean_marks u" by (simp add: unmarked_types_def clean_marks_def list_all_length)
  from aiger_check_spec [OF wu(1,3) this] u(1) e have "same_core u q" "all_defined u" "acyclic (deps u)" "clean_marks q"
    by auto
  with wu(1) e show ?thesis
    using same_core_wf same_core_deps same_coreD(2-9) [of u q]
    by (simp add: checked_def all_defined_def defined_var_def)
qed

end
