(* ===== verification/AigerReadEnds.thy ===== *)
theory AigerReadEnds
  imports AigerReadSafe
begin

text \<open>
  The loop over the symbol table, iteration by iteration: how many there can be, and that it ends.
\<close>

text \<open>One iteration that goes on: the structure and the reader before and after it.\<close>

definition symbol_step :: "aiger_private \<times> aiger_reader \<Rightarrow> aiger_private \<times> aiger_reader \<Rightarrow> bool" where
  "symbol_step = (\<lambda>(p, r) (q, s). \<exists>c. rd_ch r = Some c \<and> c \<in> set ''ilobcjf'' \<and>
     \<not> (c = CHR ''c'' \<and> (rd_ch (aiger_next_ch r) = Some CHR ''\<newline>'' \<or> constraints p = [])) \<and>
     read_symbol c p (aiger_next_ch r) = Ok () q s)"

lemma symbol_step_D:
  assumes "symbol_step (p, r) (q, s)"
  shows "read_symbol_table p r = read_symbol_table q s" "length (rd_rest s) < length (rd_rest r)"
proof -
  obtain c where c: "rd_ch r = Some c" "c \<in> set ''ilobcjf''" "read_symbol c p (aiger_next_ch r) = Ok () q s"
    "\<not> (c = CHR ''c'' \<and> (rd_ch (aiger_next_ch r) = Some CHR ''\<newline>'' \<or> constraints p = []))"
    using assms unfolding symbol_step_def by auto
  show "read_symbol_table p r = read_symbol_table q s"
    by (subst read_symbol_table.simps) (use c in \<open>auto simp: bindR_def simp del: next_ch_simps\<close>)
  show "length (rd_rest s) < length (rd_rest r)" by (rule read_symbol_less [OF c(3)])
qed

lemma symbol_steps:
  "(symbol_step ^^ n) (p, r) (q, s) \<Longrightarrow> n + length (rd_rest s) \<le> length (rd_rest r) \<and> read_symbol_table p r = read_symbol_table q s"
proof (induction n arbitrary: q s)
  case (Suc n)
  then obtain u t where u: "(symbol_step ^^ n) (p, r) (u, t)" "symbol_step (u, t) (q, s)" by auto
  with Suc.IH [OF u(1)] symbol_step_D [OF u(2)] show ?case by simp
qed simp

text \<open>The loop ends: its last iteration is followed by the end of the table or by an error.\<close>

lemma symbol_run:
  "\<exists>n q s. n \<le> length (rd_rest r) \<and> (symbol_step ^^ n) (p, r) (q, s) \<and> (\<forall>t. \<not> symbol_step (q, s) t) \<and>
     read_symbol_table p r = read_symbol_table q s"
proof (induction "length (rd_rest r)" arbitrary: p r rule: less_induct)
  case less
  show ?case
  proof (cases "\<exists>t. symbol_step (p, r) t")
    case True
    then obtain q s where s: "symbol_step (p, r) (q, s)" by auto
    obtain n u t where t: "n \<le> length (rd_rest s)" "(symbol_step ^^ n) (q, s) (u, t)" "\<forall>v. \<not> symbol_step (u, t) v"
      "read_symbol_table q s = read_symbol_table u t" using less [OF symbol_step_D(2) [OF s]] by blast
    have "(symbol_step ^^ Suc n) (p, r) (u, t)" by (rule relpowp_Suc_I2 [OF s t(2)])
    moreover have "Suc n \<le> length (rd_rest r)" using t(1) symbol_step_D(2) [OF s] by simp
    ultimately show ?thesis using t(3,4) symbol_step_D(1) [OF s] by metis
  next
    case False
    then show ?thesis by (intro exI [of _ 0] exI [of _ p] exI [of _ r]) simp
  qed
qed

end
