(* ===== verification/AigerReadReset.thy ===== *)
theory AigerReadReset
  imports AigerReadEnds AigerRoundTrip
begin

text \<open>
  The reader on a latch line with an invalid reset: whatever precedes and follows it, an assertion fails.
\<close>

definition aborts :: "'a rd \<Rightarrow> string \<Rightarrow> aiger_private \<Rightarrow> bool" where
  "aborts m txt p \<longleftrightarrow> (\<forall>r cs. at r (txt @ cs) \<longrightarrow> m p r = Abort)"

lemma abortsD: "aborts m txt p \<Longrightarrow> at r (txt @ cs) \<Longrightarrow> m p r = Abort"
  unfolding aborts_def by blast

lemma aborts_bind:
  assumes "parses m t1 p x q" "aborts (f x) t2 q"
  shows "aborts (bindR m f) (t1 @ t2) p"
  unfolding aborts_def
proof (intro allI impI)
  fix r cs assume "at r ((t1 @ t2) @ cs)"
  then have "at r (t1 @ (t2 @ cs))" by simp
  with assms(1) obtain s where "m p r = Ok x q s" "at s (t2 @ cs)" by (rule parsesE)
  with assms(2) show "bindR m f p r = Abort" by (simp add: bindR_def abortsD)
qed

lemma aborts_bind0: "parses m [] p x q \<Longrightarrow> aborts (f x) t q \<Longrightarrow> aborts (bindR m f) t p"
  using aborts_bind [of m "[]"] by simp

lemma aborts_bind2: "parses m t1 p (a, b) q \<Longrightarrow> aborts (f a b) t2 q \<Longrightarrow> aborts (bindR m (\<lambda>(a, b). f a b)) (t1 @ t2) p"
  by (rule aborts_bind [where x = "(a, b)"]) simp_all

lemma aborts_first:
  assumes "aborts m t p"
  shows "aborts (bindR m f) (t @ t') p"
  unfolding aborts_def
proof (intro allI impI)
  fix r cs assume "at r ((t @ t') @ cs)"
  then have "at r (t @ (t' @ cs))" by simp
  from abortsD [OF assms this] show "bindR m f p r = Abort" by (simp add: bindR_def)
qed

lemma aborts_api: "f p = None \<Longrightarrow> aborts (apiR f) [] p"
  by (simp add: aborts_def apiR_def)

lemma loopR_append: "loopR f (xs @ ys) = bindR (loopR f xs) (\<lambda>_. loopR f ys)"
  by (induction xs) (simp_all add: bindR_def returnR_def fun_eq_iff split: outcome.split)

lemma aborts_loop:
  assumes "parses (loopR f [0..<i]) t1 p () q" "aborts (f i) t2 q" "i < n"
  shows "aborts (loopR f [0..<n]) (t1 @ t2 @ t3) p"
proof -
  have "[0..<n] = [0..<i] @ i # [Suc i..<n]" using assms(3) by (metis less_imp_le_nat upt_add_eq_append upt_conv_Cons le_add_diff_inverse zero_le)
  then have "loopR f [0..<n] = bindR (loopR f [0..<i]) (\<lambda>_. bindR (f i) (\<lambda>_. loopR f [Suc i..<n]))"
    by (simp add: loopR_append)
  with aborts_bind [OF assms(1) aborts_first [OF assms(2)]] show ?thesis by simp
qed

lemma latch_aborts:
  assumes u: "good u B" and f: "free B l" and n: "next div 2 \<le> maxvar B" and r: "1 < r" "r < 4294967296" "r \<noteq> l"
    and h: "hd_binary h \<Longrightarrow> l = 2 * (i + hd_inputs h + 1)"
  shows "aborts (read_latch h i) ((if hd_binary h then [] else dec l @ '' '') @ dec next @ '' '' @ dec r @ ''\<newline>'') u"
proof -
  from good_add_latch [OF u f n, of l] obtain w where w: "aiger_add_latch u l next None = Some w" by blast
  have less: "l < 4294967296" "next < 4294967296" using free_less [OF u f] good_lit_less [OF u n] .
  have read: "parses (if \<not> hd_binary h then read_definition ''latch literal'' CHR '' '' ''line %u: literal %u is not a valid latch''
            else returnR (u32 (2 * (i + hd_inputs h + 1)))) (if hd_binary h then [] else dec l @ '' '') u l u"
  proof (cases "hd_binary h")
    case True
    then show ?thesis using h [OF True] parses_return [of l u] less(1) by simp
  qed (simp add: parses_definition [OF u f])
  have nb: "\<not> bad_literal next u" using n goodD(6) [OF u] by (simp add: bad_literal_def)
  have "aiger_add_reset w l r = None" using r by (simp add: aiger_add_reset_def Let_def)
  then have "aborts (bindR (aiger_read_literal ''reset literal'' (Some CHR ''\<newline>'')) (\<lambda>(reset, _). apiR (\<lambda>p. aiger_add_reset p l reset)))
      ((dec r @ ''\<newline>'') @ []) w"
    by (intro aborts_bind2 [OF parses_line [OF r(2)]] aborts_api)
  then have last: "aborts (if sep True = CHR '' '' then
      bindR (aiger_read_literal ''reset literal'' (Some CHR ''\<newline>'')) (\<lambda>(reset, _). apiR (\<lambda>p. aiger_add_reset p l reset))
      else returnR ()) (dec r @ ''\<newline>'') w" by (simp add: sep_def)
  have "aborts (read_latch h i) ((if hd_binary h then [] else dec l @ '' '') @ (dec next @ [sep True]) @ dec r @ ''\<newline>'') u"
    unfolding read_latch_def
    by (rule aborts_bind [OF read] aborts_bind2 [OF parses_number [OF less(2)]] aborts_bind0 [OF parses_reject [where b = "bad_literal next", OF nb]]
        aborts_bind0 [OF parses_api [where f = "\<lambda>p. aiger_add_latch p l next None", OF w]] last)+
  then show ?thesis by (simp add: sep_def)
qed

section \<open>The file\<close>

text \<open>A structure with another reset value of one latch.\<close>

definition with_reset :: "nat \<Rightarrow> uint \<Rightarrow> aiger_private \<Rightarrow> aiger_private" where
  "with_reset i r p = p\<lparr>latches := (latches p)[i := (latches p ! i)\<lparr>sym_reset := r\<rparr>]\<rparr>"

lemma with_reset_latches:
  assumes "i < length (latches p)"
  shows "latches (with_reset i r p) = take i (latches p) @ (latches p ! i)\<lparr>sym_reset := r\<rparr> # drop (Suc i) (latches p)"
  using assms by (simp add: with_reset_def upd_conv_take_nth_drop)

lemma with_reset_counts: "counts_text fmt (with_reset i r p) = counts_text fmt p" "header_of binary (with_reset i r p) = header_of binary p"
  by (simp_all add: with_reset_def counts_text_def header_of_def)

lemma lists_abort:
  assumes p: "readable p" and good: "good q (blank (maxvar p))" and b: "binary \<longrightarrow> binary_form p"
    and i: "i < length (latches p)" and r: "1 < r" "r < 4294967296" "r \<noteq> sym_lit (latches p ! i)"
  shows "aborts (read_lists (header_of binary p)) (lists_text binary (with_reset i r p)) q"
proof -
  note rd = readableD [OF p] and f = b [unfolded binary_form_def reencoded_form_def]
  note lb = rd(2) [unfolded lits_below_def] and sh = rd(5) [unfolded shaped_def]
  let ?h = "header_of binary p" and ?ys = "take i (latches p)" and ?y = "latches p ! i"
  define B where "B = (blank (maxvar p))\<lparr>inputs := map unname (inputs p)\<rparr>"
  have h: "hd_binary ?h = binary" "hd_inputs ?h = length (inputs p)" "hd_latches ?h = length (latches p)"
    by (simp_all add: header_of_def)
  have y: "?y \<in> set (latches p)" using i by simp
  have lit: "sym_lit (latches p ! j) = 2 * (j + hd_inputs ?h + 1)" if "hd_binary ?h" "j < length (latches p)" for j
    using that f seq_lits_nth [of sym_lit "latches p" "length (inputs p)" j] h by simp
  have "\<exists>u. parses (loopR (read_input ?h) [0..<length (inputs p)])
       (concat (map (\<lambda>y. if hd_binary ?h then [] else line (sym_lit y)) (inputs p))) q () u \<and> good u B"
    unfolding B_def
    by (rule parses_inputs [OF good])
      (use rd(7,12) lb sh f seq_lits_nth [of sym_lit "inputs p" 0] h in \<open>auto simp: header_of_def\<close>)
  moreover have "concat (map (\<lambda>y. if hd_binary ?h then [] else line (sym_lit y)) (inputs p)) =
      (if binary then [] else lits_text (map sym_lit (inputs p)))"
    unfolding h(1) by (simp add: lits_text_def comp_def)
  ultimately obtain u1 where 1: "parses (loopR (read_input ?h) [0..<length (inputs p)])
       (if binary then [] else lits_text (map sym_lit (inputs p))) q () u1" "good u1 B" by metis
  have "\<exists>u. parses (loopR (read_latch ?h) [0..<length ?ys]) (concat (map (latch_text (hd_binary ?h)) ?ys)) u1 () u \<and>
      good u (B\<lparr>latches := map unname ?ys\<rparr>)"
  proof (rule parses_latches [OF 1(2)])
    show "\<forall>y \<in> set ?ys. sym_lits y = [] \<and> even (sym_lit y) \<and> 0 < sym_lit y \<and> sym_lit y div 2 \<le> maxvar B \<and>
      sym_next y div 2 \<le> maxvar B \<and> (sym_reset y \<le> 1 \<or> sym_reset y = sym_lit y)"
      using rd(3,13) lb sh by (auto simp: B_def wf_resets_def dest!: in_set_takeD)
    show "sym_lit ` set ?ys \<inter> sym_lit ` set (inputs B) = {}"
      using rd(10) by (auto simp: B_def dest!: in_set_takeD)
    show "sym_lit (?ys ! j) = 2 * (j + hd_inputs ?h + 1)" if "hd_binary ?h" "j < length ?ys" for j
      using lit [OF that(1)] that(2) i by simp
  qed (use rd(8) in \<open>simp_all add: B_def take_map distinct_take flip: take_map\<close>)
  then obtain u2 where 2: "parses (loopR (read_latch ?h) [0..<i]) (concat (map (latch_text binary) ?ys)) u1 () u2"
      "good u2 (B\<lparr>latches := map unname ?ys\<rparr>)" using i h(1) by auto
  have fr: "free (B\<lparr>latches := map unname ?ys\<rparr>) (sym_lit ?y)"
    using rd(10,13) y lb not_in_take [OF rd(8) i] by (auto simp: free_def B_def image_image)
  have nx: "sym_next ?y div 2 \<le> maxvar (B\<lparr>latches := map unname ?ys\<rparr>)" using lb y by (simp add: B_def)
  have "aborts (read_latch ?h i) (latch_text binary (?y\<lparr>sym_reset := r\<rparr>)) u2"
    using latch_aborts [OF 2(2) fr nx r lit [OF _ i], unfolded h(1)] r(1) by (cases binary) (simp_all add: latch_text_def)
  from aborts_loop [OF 2(1) this i, of "concat (map (latch_text binary) (drop (Suc i) (latches p)))"]
  have "aborts (loopR (read_latch ?h) [0..<hd_latches ?h]) (concat (map (latch_text binary) (latches (with_reset i r p)))) u1"
    by (simp add: with_reset_latches [OF i] h(3))
  note ab = this
  have "inputs (with_reset i r p) = inputs p" by (simp add: with_reset_def)
  then show ?thesis
    unfolding read_lists_def lists_text_def h(2) by (simp only: aborts_bind [OF 1(1) aborts_first [OF ab]])
qed

lemma header_aborts:
  assumes p: "readable p" and b: "binary \<longrightarrow> binary_form p"
    and i: "i < length (latches p)" and r: "1 < r" "r < 4294967296" "r \<noteq> sym_lit (latches p ! i)"
  shows "aiger_read_header aiger_init (new_reader (header_text (format_name binary) binary (with_reset i r p) @ cs)) = Abort"
proof -
  note rd = readableD [OF p]
  let ?h = "header_of binary p" and ?fmt = "format_name binary" and ?c = "if binary then CHR ''i'' else CHR ''a''"
  let ?q = "aiger_init\<lparr>maxvar := maxvar p, types := fit_types (u32 (maxvar p + 1)) (types aiger_init)\<rparr>"
  let ?lists = "lists_text binary (with_reset i r p)"
  obtain body where body: "counts_text ?fmt p = ?fmt @ '' '' @ body"
    "parses (read_counts binary) body aiger_init ?h aiger_init"
    using parses_counts [OF rd(6), of ?fmt binary aiger_init] by blast
  let ?input = "header_text ?fmt binary (with_reset i r p) @ cs"
  have f: "?fmt = [CHR ''a'', ?c, CHR ''g'']" by (simp add: format_name_def)
  have "?input = CHR ''a'' # ?c # CHR ''g'' # CHR '' '' # body @ ?lists @ cs"
    unfolding header_text_lists with_reset_counts(1) body(1) by (simp only: f append.simps append_assoc)
  with at_new_reader [of ?input]
  have "at (new_reader ?input) (CHR '' '' # CHR ''a'' # ?c # CHR ''g'' # CHR '' '' # body @ ?lists @ cs)" by simp
  from read_magic_at [OF this, of aiger_init] obtain s where
    s: "read_magic aiger_init (new_reader ?input) = Ok binary aiger_init s" "at s ((body @ ?lists @ []) @ cs)"
    by (cases binary) auto
  have "aborts (bindR (read_counts binary) (\<lambda>h. bindR (set_header h) (\<lambda>_. bindR (read_lists h) (\<lambda>_.
      bindR (readerR (\<lambda>r. r\<lparr>rd_done_header := True, rd_looks_aag := True\<rparr>)) (\<lambda>_. returnR h)))))
      (body @ ?lists @ []) aiger_init"
    by (rule aborts_bind [OF body(2)] aborts_bind0 [OF parses_set_header [OF b rd(1)]]
        aborts_first [OF lists_abort [OF p good_blank [OF rd(1)] b i r]])+
  from abortsD [OF this s(2)] show ?thesis unfolding aiger_read_header_def using s(1) by (simp add: bindR_def [of read_magic])
qed

lemma file_aborts:
  assumes "portable p" "binary \<longrightarrow> binary_form p" "i < length (latches p)" "1 < r" "r < 4294967296"
    "r \<noteq> sym_lit (latches p ! i)"
  shows "aiger_read_from_file aiger_init (header_text (format_name binary) binary (with_reset i r p) @ cs) = None"
  using header_aborts [OF portable_readable [OF assms(1)] assms(2-6), of cs]
  by (simp add: aiger_read_from_file_def aiger_read_generic_def bindR_def aiger_error_def)

end
