(* ===== verification/AigerClient.thy ===== *)
theory AigerClient
  imports AigerReadSafe
begin

text \<open>
  The construction API as its clients use it: which calls return and what they add to the public
  part, copying a whole structure, and how fresh gates extend the behaviours.
\<close>

section \<open>The contract of the API\<close>

definition public_defs :: "aiger \<Rightarrow> uint set" where
  "public_defs B = sym_lit ` set (inputs B) \<union> sym_lit ` set (latches B) \<union> and_lhs ` set (ands B)"

definition fresh :: "aiger \<Rightarrow> uint \<Rightarrow> bool" where
  "fresh B l \<longleftrightarrow> even l \<and> 0 < l \<and> l < 4294967296 \<and> l \<notin> public_defs B"

text \<open>A structure that a client has built, with its public part.\<close>

definition client :: "aiger_private \<Rightarrow> aiger \<Rightarrow> bool" where
  "client q B \<longleftrightarrow> wf_aiger q \<and> error q = None \<and> unmarked_types (types q) \<and> aiger.truncate q = B"

definition grow :: "uint list \<Rightarrow> aiger \<Rightarrow> aiger" where
  "grow ls B = B\<lparr>maxvar := fold max (map (\<lambda>l. l div 2) ls) (maxvar B)\<rparr>"

lemma clientD:
  assumes "client q B"
  shows "wf_aiger q" "error q = None" "unmarked_types (types q)" "aiger.truncate q = B" "maxvar q = maxvar B"
    "inputs q = inputs B" "latches q = latches B" "outputs q = outputs B" "bad q = bad B" "constraints q = constraints B"
    "justice q = justice B" "fairness q = fairness B" "ands q = ands B" "comments q = comments B"
  using assms by (auto simp: client_def)

lemma client_init: "client aiger_init (blank 0)"
  by (simp add: client_def wf_init, simp add: aiger_init_def aiger_init_mem_def blank_def aiger.truncate_def unmarked_types_def)

lemma truncate_import [simp]: "aiger.truncate (aiger_import_literal q l) = grow [l] (aiger.truncate q)"
  by (simp add: aiger_import_literal_def grow_def Let_def aiger.truncate_def max_def)

lemma fresh_type:
  assumes "client q B" "fresh B l"
  shows "undefined_type (types (aiger_import_literal q l) ! (l div 2))"
proof -
  let ?p = "aiger_import_literal q l"
  have wf: "wf_aiger ?p" using wf_import [OF clientD(1) [OF assms(1)]] assms(2) by (simp add: fresh_def)
  have len: "l div 2 < length (types ?p)" by simp
  have l: "2 * (l div 2) = l" using assms(2) by (auto simp: fresh_def)
  have wt: "wf_types ?p" using wf by (simp add: wf_aiger_def)
  note k = kind_ok_mem [OF wf_typesD(1) [OF wt] len] kind_ok_mem [OF wf_typesD(2) [OF wt] len]
    kind_ok_mem [OF wf_typesD(3) [OF wt] len]
  show ?thesis
    using k assms(2) clientD(6,7,13) [OF assms(1)] unfolding l
    by (simp add: undefined_type_def fresh_def public_defs_def)
qed

lemma fresh_mod: "fresh B l \<Longrightarrow> l mod 2 = 0 \<and> l \<noteq> 0"
  by (simp add: fresh_def even_iff_mod_2_eq_zero)

lemma client_add_input:
  assumes c: "client q B" and f: "fresh B l"
  shows "\<exists>u. aiger_add_input q l n = Some u \<and> client u ((grow [l] B)\<lparr>inputs := inputs B @ [new_symbol l n]\<rparr>)"
proof -
  note d = clientD [OF c]
  let ?u = "(set_type (l div 2) (\<lambda>t. t\<lparr>ty_input := True, ty_idx := length (inputs q)\<rparr>)
      (aiger_import_literal q l))\<lparr>inputs := inputs q @ [new_symbol l n]\<rparr>"
  have eq: "aiger_add_input q l n = Some ?u"
    using fresh_type [OF c f] fresh_mod [OF f] d(2)
    by (simp add: aiger_add_input_def aiger_error_def type_at_def undefined_type_def Let_def)
  from add_input_ok [OF eq] f have "error ?u = None" "wf_aiger ?u" "unmarked_types (types ?u)"
    using wf_add_input [OF eq d(1)] d(2,3) by (simp_all add: fresh_def set_type_def unmarked_mark)
  with eq d(4,6) show ?thesis by (auto simp: client_def)
qed

lemma client_add_latch:
  assumes c: "client q B" and f: "fresh B l" and x: "x < 4294967296"
  shows "\<exists>u. aiger_add_latch q l x n = Some u \<and>
     client u ((grow [l, x] B)\<lparr>latches := latches B @ [(new_symbol l n)\<lparr>sym_next := x\<rparr>]\<rparr>)"
proof -
  note d = clientD [OF c]
  let ?u = "(aiger_import_literal (set_type (l div 2) (\<lambda>t. t\<lparr>ty_latch := True, ty_idx := length (latches q)\<rparr>)
      (aiger_import_literal q l)) x)\<lparr>latches := latches q @ [(new_symbol l n)\<lparr>sym_next := x\<rparr>]\<rparr>"
  have eq: "aiger_add_latch q l x n = Some ?u"
    using fresh_type [OF c f] fresh_mod [OF f] d(2)
    by (simp add: aiger_add_latch_def aiger_error_def type_at_def undefined_type_def Let_def set_type_def)
  have "wf_aiger ?u" using wf_add_latch [OF eq d(1)] f x by (simp add: fresh_def)
  moreover have "error ?u = None" "unmarked_types (types ?u)" using d(2,3) by (simp_all add: set_type_def unmarked_mark)
  moreover have "aiger.truncate ?u = (grow [l, x] B)\<lparr>latches := latches B @ [(new_symbol l n)\<lparr>sym_next := x\<rparr>]\<rparr>"
    using d(4,7) by (simp add: grow_def)
  ultimately show ?thesis using eq by (auto simp: client_def)
qed

lemma client_add_and:
  assumes c: "client q B" and f: "fresh B l" and x: "a < 4294967296" "b < 4294967296"
  shows "\<exists>u. aiger_add_and q l a b = Some u \<and>
     client u ((grow [l, a, b] B)\<lparr>ands := ands B @ [\<lparr>and_lhs = l, and_rhs0 = a, and_rhs1 = b\<rparr>]\<rparr>)"
proof -
  note d = clientD [OF c]
  let ?u = "(aiger_import_literal (aiger_import_literal (set_type (l div 2) (\<lambda>t. t\<lparr>ty_and := True, ty_idx := length (ands q)\<rparr>)
      (aiger_import_literal q l)) a) b)\<lparr>ands := ands q @ [\<lparr>and_lhs = l, and_rhs0 = a, and_rhs1 = b\<rparr>]\<rparr>"
  have "1 < l" using f by (auto simp: fresh_def elim!: evenE)
  then have eq: "aiger_add_and q l a b = Some ?u"
    using fresh_type [OF c f] fresh_mod [OF f] d(2)
    by (simp add: aiger_add_and_def aiger_error_def type_at_def undefined_type_def Let_def set_type_def)
  have "wf_aiger ?u" using wf_add_and [OF eq d(1)] f x by (simp add: fresh_def)
  moreover have "error ?u = None" "unmarked_types (types ?u)" using d(2,3) by (simp_all add: set_type_def unmarked_mark)
  moreover have "aiger.truncate ?u = (grow [l, a, b] B)\<lparr>ands := ands B @ [\<lparr>and_lhs = l, and_rhs0 = a, and_rhs1 = b\<rparr>]\<rparr>"
    using d(4,13) by (simp add: grow_def)
  ultimately show ?thesis using eq by (auto simp: client_def)
qed

text \<open>The reset of the latch that was added last.\<close>

lemma client_add_reset:
  assumes c: "client q (B\<lparr>latches := ys @ [y]\<rparr>)" and r: "r \<le> 1 \<or> r = sym_lit y" and l: "sym_lit y div 2 \<le> maxvar B"
  shows "\<exists>u. aiger_add_reset q (sym_lit y) r = Some u \<and> client u (B\<lparr>latches := ys @ [y\<lparr>sym_reset := r\<rparr>]\<rparr>)"
proof -
  note d = clientD [OF c]
  let ?l = "sym_lit y"
  have ls: "latches q = ys @ [y]" using d(7) by simp
  have wt: "wf_types q" using d(1) by (simp add: wf_aiger_def)
  have e: "map sym_lit (latches q) ! length ys = ?l" "length ys < length (map sym_lit (latches q))"
    by (simp_all add: ls nth_append)
  note k = kind_okD [OF wf_typesD(2) [OF wt] e(2), unfolded e(1)]
  have l2: "even ?l" "0 < ?l" "?l div 2 < length (types q)" "ty_latch (types q ! (?l div 2))"
    "ty_idx (types q ! (?l div 2)) = length ys" using k by simp_all
  have "maxvar q = maxvar B" using d(5) by simp
  then have i: "aiger_import_literal q ?l = q"
    using l l2(3) by (simp add: aiger_import_literal_def enlarge_types.simps [of _ "types q"] Let_def)
  let ?u = "q\<lparr>latches := ys @ [y\<lparr>sym_reset := r\<rparr>]\<rparr>"
  have eq: "aiger_add_reset q ?l r = Some ?u"
    unfolding aiger_add_reset_def Let_def i
    using l2 r d(2) by (simp add: aiger_error_def type_at_def ls nth_append even_iff_mod_2_eq_zero)
  have "?l < 4294967296" using l d(1) \<open>maxvar q = maxvar B\<close> by (auto simp: wf_aiger_def wf_lits_def)
  then have "wf_aiger ?u" by (rule wf_add_reset [OF eq d(1)])
  moreover have "aiger.truncate ?u = B\<lparr>latches := ys @ [y\<lparr>sym_reset := r\<rparr>]\<rparr>" using d(4) by simp
  ultimately show ?thesis using eq d(2,3) by (auto simp: client_def)
qed

lemma client_add_plain:
  assumes c: "client q B" and l: "l < 4294967296"
  shows "client (aiger_add_output q l n) ((grow [l] B)\<lparr>outputs := outputs B @ [new_symbol l n]\<rparr>)"
    "client (aiger_add_bad q l n) ((grow [l] B)\<lparr>bad := bad B @ [new_symbol l n]\<rparr>)"
proof -
  note d = clientD [OF c] and w = wf_add_plain [OF clientD(1) [OF c] l, of n]
  show "client (aiger_add_output q l n) ((grow [l] B)\<lparr>outputs := outputs B @ [new_symbol l n]\<rparr>)"
    using w(1) d(2-4,8) by (simp add: client_def aiger_add_output_def Let_def)
  show "client (aiger_add_bad q l n) ((grow [l] B)\<lparr>bad := bad B @ [new_symbol l n]\<rparr>)"
    using w(2) d(2-4,9) by (simp add: client_def aiger_add_bad_def Let_def)
qed

lemma client_add_comment:
  assumes c: "client q B" and cs: "comments B = xs @ [None]" and s: "plain_name s"
  shows "\<exists>u. aiger_add_comment q s = Some u \<and> client u (B\<lparr>comments := xs @ [Some s, None]\<rparr>)"
proof -
  note d = clientD [OF c]
  have n: "num_comments q = Suc (length xs)" "comments q = xs @ [None]"
    using d(1,14) cs by (simp_all add: wf_aiger_def wf_comments_def)
  have c: "c_string s = s" using s by (simp add: plain_name_def)
  let ?u = "q\<lparr>comments := xs @ [Some s, None], num_comments := num_comments q + 1\<rparr>"
  have eq: "aiger_add_comment q s = Some ?u"
    using s d(2) n c by (simp add: aiger_add_comment_def aiger_error_def plain_name_def aiger_copy_str_def)
  from wf_add_comment [OF eq d(1)] d eq show ?thesis by (auto simp: client_def)
qed

end
