(* ===== verification/AigerTools.thy ===== *)
theory AigerTools
  imports AigerClient
begin

text \<open>
  The command line tools \<open>aigand\<close>, \<open>aigor\<close>, \<open>aigflip\<close> and \<open>aigselect\<close>: their arguments, what they
  refuse, the structure they build, and the files they read and write.

  A tool prints its usage, dies with a message (\<open>die\<close>), or reports success: with what the standard
  output accepted, which is flushed at exit (\<open>Wrote\<close>), or with what closing the named output left in
  the file (\<open>Stored\<close>). A failed assertion is \<open>None\<close>. Messages of verbose mode are not modelled.
\<close>

section \<open>The environment of a tool\<close>

datatype tool_exit = Usage | Die string | Wrote aiger_private c_file | Stored aiger_private stored

text \<open>
  The environment: opening a file or a pipe for reading and writing, what closing a written stream
  leaves in the file, the standard streams, and whether the output is a terminal.
\<close>

record tool_env =
  env_read :: "target \<Rightarrow> string option"
  env_stdin :: string
  env_write :: "target \<Rightarrow> c_file option"
  env_close :: "target \<Rightarrow> c_file \<Rightarrow> stored"
  env_stdout :: c_file
  env_isatty :: bool

text \<open>
  The arguments: \<open>flag\<close> says what an option of the tool does to its settings. The result is the
  settings with the names of the input and the output, or how the tool ends.
\<close>

fun scan_args ::
    "(string \<Rightarrow> 'o \<Rightarrow> 'o option) \<Rightarrow> string list \<Rightarrow> 'o \<Rightarrow> string option \<Rightarrow> string option \<Rightarrow>
       tool_exit + 'o \<times> string option \<times> string option" where
  "scan_args flag [] opts input output = Inr (opts, input, output)"
| "scan_args flag (arg # argv) opts input output =
     (if arg = ''-h'' then Inl Usage
      else case flag arg opts of
        Some opts \<Rightarrow> scan_args flag argv opts input output
      | None \<Rightarrow>
          if arg \<noteq> [] \<and> hd arg = CHR ''-'' then
            Inl (Die (sprintf (''invalid command line option '' @ [CHR 0x27] @ ''%s'' @ [CHR 0x27]) [FmtS arg]))
          else if output \<noteq> None then Inl (Die ''too many arguments'')
          else if input \<noteq> None then scan_args flag argv opts input (Some arg)
          else scan_args flag argv opts (Some arg) output)"

definition read_source :: "tool_env \<Rightarrow> string option \<Rightarrow> aiger_private option" where
  "read_source env input =
     (case input of
        Some name \<Rightarrow> aiger_open_and_read_from_file (env_read env) aiger_init name
      | None \<Rightarrow> aiger_read_from_file aiger_init (env_stdin env))"

definition write_result :: "tool_env \<Rightarrow> string option \<Rightarrow> string \<Rightarrow> aiger_private \<Rightarrow> tool_exit option" where
  "write_result env output failed dst =
     (case output of
        Some name \<Rightarrow> do {
          (ok, dst, file, unlinked) \<leftarrow> aiger_open_and_write_to_file (env_write env) (env_close env) dst name;
          Some (case file of Some f \<Rightarrow> if ok then Stored dst f else Die failed | None \<Rightarrow> Die failed)
        }
      | None \<Rightarrow> do {
          (ok, dst, f) \<leftarrow> aiger_write_to_file dst (if env_isatty env then aiger_ascii_mode else aiger_binary_mode)
            (env_stdout env);
          Some (if ok then Wrote dst f else Die failed)
        })"

text \<open>Properties that the combining tools refuse.\<close>

definition only_outputs :: "aiger_private \<Rightarrow> string option" where
  "only_outputs src =
     (if bad src \<noteq> [] then Some ''can not handle bad state properties''
      else if constraints src \<noteq> [] then Some ''can not handle environment state constraints''
      else if justice src \<noteq> [] then Some ''can not handle justice properties''
      else if fairness src \<noteq> [] then Some ''can not handle fairness constraints''
      else None)"

text \<open>Reading, refusing, building and writing, with the tool's own check and construction.\<close>

definition run_tool ::
    "tool_env \<Rightarrow> string option \<Rightarrow> string option \<Rightarrow> (aiger_private \<Rightarrow> string option) \<Rightarrow>
       (aiger_private \<Rightarrow> aiger_private option) \<Rightarrow> string \<Rightarrow> tool_exit option" where
  "run_tool env input output refuse build failed = do {
     src \<leftarrow> read_source env input;
     case aiger_error src of
       Some err \<Rightarrow> Some (Die (sprintf ''read error: %s'' [FmtS err]))
     | None \<Rightarrow>
         (case refuse src of
            Some msg \<Rightarrow> Some (Die msg)
          | None \<Rightarrow> do {
              dst \<leftarrow> build src;
              write_result env output failed dst
            })
   }"

section \<open>Copying\<close>

definition copy_input :: "aiger_symbol \<Rightarrow> aiger_private \<Rightarrow> aiger_private option" where
  "copy_input y dst = aiger_add_input dst (sym_lit y) (sym_name y)"

definition copy_latch :: "aiger_symbol \<Rightarrow> aiger_private \<Rightarrow> aiger_private option" where
  "copy_latch y dst = do {
     dst \<leftarrow> aiger_add_latch dst (sym_lit y) (sym_next y) (sym_name y);
     aiger_add_reset dst (sym_lit y) (sym_reset y)
   }"

definition copy_and :: "aiger_and \<Rightarrow> aiger_private \<Rightarrow> aiger_private option" where
  "copy_and a dst = aiger_add_and dst (and_lhs a) (and_rhs0 a) (and_rhs1 a)"

definition copy_model :: "aiger_private \<Rightarrow> aiger_private \<Rightarrow> aiger_private option" where
  "copy_model src dst = do {
     dst \<leftarrow> foldm copy_input (inputs src) dst;
     dst \<leftarrow> foldm copy_latch (latches src) dst;
     foldm copy_and (ands src) dst
   }"

definition add_comments :: "string \<Rightarrow> string \<Rightarrow> aiger_private \<Rightarrow> aiger_private option" where
  "add_comments c1 c2 dst = do {
     dst \<leftarrow> aiger_add_comment dst c1;
     aiger_add_comment dst c2
   }"

text \<open>\<open>2 * (dst->maxvar + 1)\<close>\<close>

definition next_lit :: "aiger_private \<Rightarrow> uint" where
  "next_lit dst = u32 (2 * u32 (maxvar dst + 1))"

fun and_chain :: "uint \<Rightarrow> uint list \<Rightarrow> aiger_private \<Rightarrow> (uint \<times> aiger_private) option" where
  "and_chain out [] dst = Some (out, dst)"
| "and_chain out (l # ls) dst = do {
     let tmp = next_lit dst;
     dst \<leftarrow> aiger_add_and dst tmp out l;
     and_chain tmp ls dst
   }"

section \<open>aigand\<close>

definition verbose_flag :: "string \<Rightarrow> bool \<Rightarrow> bool option" where
  "verbose_flag arg verbose = (if arg = ''-v'' then Some True else None)"

definition aigand_build :: "aiger_private \<Rightarrow> aiger_private option" where
  "aigand_build src = do {
     dst \<leftarrow> copy_model src aiger_init;
     dst \<leftarrow> (case map sym_lit (outputs src) of
         [] \<Rightarrow> Some dst
       | out # ls \<Rightarrow> do {
           (out, dst) \<leftarrow> and_chain out ls dst;
           Some (aiger_add_output dst out (Some ''AIGER_AND''))
         });
     add_comments ''aigand'' (sprintf ''conjunction of %u original outputs'' [FmtU (length (outputs src))]) dst
   }"

definition aigand_main :: "tool_env \<Rightarrow> string list \<Rightarrow> tool_exit option" where
  "aigand_main env argv =
     (case scan_args verbose_flag argv False None None of
        Inl e \<Rightarrow> Some e
      | Inr (verbose, input, output) \<Rightarrow> run_tool env input output only_outputs aigand_build ''writing failed'')"

section \<open>aigor\<close>

definition aigor_build :: "aiger_private \<Rightarrow> aiger_private option" where
  "aigor_build src = do {
     dst \<leftarrow> copy_model src aiger_init;
     dst \<leftarrow> (case map sym_lit (outputs src) of
         [] \<Rightarrow> Some dst
       | out # ls \<Rightarrow> do {
           (out, dst) \<leftarrow> and_chain out (map aiger_not ls) dst;
           Some (aiger_add_output dst (aiger_not out) (Some ''AIGER_OR''))
         });
     add_comments ''aigor'' (sprintf ''disjunction of %u original outputs'' [FmtU (length (outputs src))]) dst
   }"

definition aigor_main :: "tool_env \<Rightarrow> string list \<Rightarrow> tool_exit option" where
  "aigor_main env argv =
     (case scan_args verbose_flag argv False None None of
        Inl e \<Rightarrow> Some e
      | Inr (verbose, input, output) \<Rightarrow> run_tool env input output (\<lambda>src. None) aigor_build ''writing failed'')"

section \<open>aigflip\<close>

definition flip_output :: "aiger_symbol \<Rightarrow> aiger_private \<Rightarrow> aiger_private option" where
  "flip_output y dst =
     Some (aiger_add_output dst (aiger_not (sym_lit y))
       (map_option (\<lambda>name. sprintf ''AIGFLIP_%s'' [FmtS name]) (sym_name y)))"

definition aigflip_build :: "aiger_private \<Rightarrow> aiger_private option" where
  "aigflip_build src = do {
     dst \<leftarrow> copy_model src aiger_init;
     dst \<leftarrow> foldm flip_output (outputs src) dst;
     add_comments ''aigflip'' ''flipped/negated all original outputs'' dst
   }"

definition aigflip_main :: "tool_env \<Rightarrow> string list \<Rightarrow> tool_exit option" where
  "aigflip_main env argv =
     (case scan_args verbose_flag argv False None None of
        Inl e \<Rightarrow> Some e
      | Inr (verbose, input, output) \<Rightarrow> run_tool env input output only_outputs aigflip_build ''writing failed'')"

section \<open>aigselect\<close>

definition contains_only_digits :: "string \<Rightarrow> bool" where
  "contains_only_digits str = (if str = [] then False else list_all isdigit str)"

text \<open>\<open>None\<close> is \<open>invalid_number\<close>; \<open>4294967295\<close> is \<open>UINT_MAX\<close>.\<close>

fun parse_number :: "uint \<Rightarrow> string \<Rightarrow> uint option" where
  "parse_number res [] = Some res"
| "parse_number res (ch # str) =
     (if \<not> isdigit ch then None
      else if 4294967295 div 10 < res then None
      else let res = u32 (10 * res); digit = digit_val ch
        in if 4294967295 - digit < res then None else parse_number (res + digit) str)"

text \<open>
  The loop over the arguments; \<open>sel\<close> is the selection. The message for a second selection prints
  the address of the function \<open>select\<close> instead of the number, and is left out of the text.
\<close>

fun aigselect_args ::
    "string list \<Rightarrow> uint option \<Rightarrow> string option \<Rightarrow> string option \<Rightarrow>
       tool_exit + uint option \<times> string option \<times> string option" where
  "aigselect_args [] sel input output = Inr (sel, input, output)"
| "aigselect_args (arg # argv) sel input output =
     (if arg = ''-h'' then Inl Usage
      else if arg = ''-v'' then aigselect_args argv sel input output
      else if arg \<noteq> [] \<and> hd arg = CHR ''-'' then
        Inl (Die (sprintf (''invalid command line option '' @ [CHR 0x27] @ ''%s'' @ [CHR 0x27]) [FmtS arg]))
      else if output \<noteq> None then Inl (Die ''too many arguments'')
      else if contains_only_digits arg then
        if sel \<noteq> None then Inl (Die ''multiple selections'')
        else
          (case parse_number 0 arg of
             None \<Rightarrow> Inl (Die (sprintf (''invalid number '' @ [CHR 0x27] @ ''%s'' @ [CHR 0x27]) [FmtS arg]))
           | Some n \<Rightarrow> aigselect_args argv (Some n) input output)
      else if input \<noteq> None then aigselect_args argv sel input (Some arg)
      else aigselect_args argv sel (Some arg) output)"

definition aigselect_refuse :: "uint \<Rightarrow> string \<Rightarrow> aiger_private \<Rightarrow> string option" where
  "aigselect_refuse selection input src =
     (if outputs src = [] then
        Some (sprintf (''can not find any outputs in '' @ [CHR 0x27] @ ''%s'' @ [CHR 0x27]) [FmtS input])
      else if length (outputs src) \<le> selection then
        Some (sprintf (''selected output index '' @ [CHR 0x27] @ ''%u'' @ [CHR 0x27] @
          '' too large (expected range '' @ [CHR 0x27] @ ''0..%u'' @ [CHR 0x27] @ '')'')
          [FmtU selection, FmtU (length (outputs src) - 1)])
      else None)"

definition aigselect_build :: "uint \<Rightarrow> aiger_private \<Rightarrow> aiger_private option" where
  "aigselect_build selection src = do {
     dst \<leftarrow> copy_model src aiger_init;
     y \<leftarrow> deref (outputs src) selection;
     let dst = aiger_add_output dst (sym_lit y) (sym_name y);
     add_comments ''aigselect'' (sprintf ''selected output index %u of %u original outputs''
       [FmtU selection, FmtU (length (outputs src))]) dst
   }"

definition aigselect_main :: "tool_env \<Rightarrow> string list \<Rightarrow> tool_exit option" where
  "aigselect_main env argv =
     (case aigselect_args argv None None None of
        Inl e \<Rightarrow> Some e
      | Inr (sel, input, output) \<Rightarrow>
          let selection = (case sel of None \<Rightarrow> 0 | Some n \<Rightarrow> n) in
          run_tool env input output
            (aigselect_refuse selection (case input of None \<Rightarrow> ''<stdin>'' | Some name \<Rightarrow> name))
            (aigselect_build selection) ''writing failed'')"

end
