(* ===== verification/AigerToolsSem.thy ===== *)
theory AigerToolsSem
  imports AigerTools
begin

text \<open>
  What the tools compute: copying preserves the circuit, fresh gates extend its behaviours without
  changing them, and each tool's output is the stated function of the outputs of its input.
\<close>

section \<open>Copying\<close>

lemma foldm_list:
  assumes "I [] s" "\<And>i s. i < length xs \<Longrightarrow> I (take i xs) s \<Longrightarrow> \<exists>t. f (xs ! i) s = Some t \<and> I (take i xs @ [xs ! i]) t"
  shows "\<exists>t. foldm f xs s = Some t \<and> I xs t"
proof -
  have "n \<le> length xs \<Longrightarrow> \<exists>t. foldm f (take n xs) s = Some t \<and> I (take n xs) t" for n
  proof (induction n)
    case (Suc n)
    then obtain t where t: "foldm f (take n xs) s = Some t" "I (take n xs) t" by auto
    from assms(2) [OF _ t(2)] Suc.prems obtain u where u: "f (xs ! n) t = Some u" "I (take n xs @ [xs ! n]) u" by auto
    have "take (Suc n) xs = take n xs @ [xs ! n]" using Suc.prems by (simp add: take_Suc_conv_app_nth)
    with t(1) u show ?case by (simp add: foldm_append)
  qed (simp add: assms(1))
  from this [of "length xs"] show ?thesis by simp
qed

lemma copy_ok_name: "ok_name n \<Longrightarrow> aiger_copy_str n = n"
  by (auto simp: aiger_copy_str_def ok_name_def split: option.splits)

lemma new_symbol_same: "plain_symbol y \<Longrightarrow> ok_name (sym_name y) \<Longrightarrow> new_symbol (sym_lit y) (sym_name y) = y"
  by (simp add: new_symbol_def copy_ok_name plain_symbol_def symbol0_def)

lemma new_latch_same:
  "sym_lits y = [] \<Longrightarrow> ok_name (sym_name y) \<Longrightarrow>
     (new_symbol (sym_lit y) (sym_name y))\<lparr>sym_next := sym_next y, sym_reset := sym_reset y\<rparr> = y"
  by (simp add: new_symbol_def copy_ok_name symbol0_def)

lemma new_latch_reset: "(new_symbol l n)\<lparr>sym_next := x, sym_reset := 0\<rparr> = (new_symbol l n)\<lparr>sym_next := x\<rparr>"
  by (simp add: new_symbol_def symbol0_def)

definition copied :: "aiger_private \<Rightarrow> nat \<Rightarrow> aiger" where
  "copied p m = (blank m)\<lparr>inputs := inputs p, latches := latches p, ands := ands p\<rparr>"

lemma copied_simps [simp]:
  "maxvar (copied p m) = m" "inputs (copied p m) = inputs p" "latches (copied p m) = latches p" "ands (copied p m) = ands p"
  "outputs (copied p m) = []" "bad (copied p m) = []" "constraints (copied p m) = []" "justice (copied p m) = []"
  "fairness (copied p m) = []" "comments (copied p m) = [None]"
  by (simp_all add: copied_def blank_def)

lemma copied_record: "(blank m)\<lparr>inputs := inputs p, latches := latches p, ands := ands p, maxvar := n\<rparr> = copied p n"
  by (simp add: copied_def blank_def)

lemma public_defs_grow [simp]: "public_defs (grow ls B) = public_defs B" "public_defs (B\<lparr>maxvar := m\<rparr>) = public_defs B"
  by (simp_all add: public_defs_def grow_def)

lemma grow_max: "\<exists>m. grow ls B = B\<lparr>maxvar := m\<rparr> \<and> maxvar B \<le> m \<and>
    (maxvar B \<le> M \<longrightarrow> (\<forall>l \<in> set ls. l div 2 \<le> M) \<longrightarrow> m \<le> M)"
proof -
  have "n \<le> fold max xs n \<and> (n \<le> M \<longrightarrow> (\<forall>x \<in> set xs. x \<le> M) \<longrightarrow> fold max xs n \<le> M)" for n M :: nat and xs
  proof (induction xs arbitrary: n)
    case (Cons x xs)
    show ?case using Cons.IH [of "max x n"] by auto
  qed simp
  from this [of "maxvar B" "map (\<lambda>l. l div 2) ls" M] show ?thesis
    by (intro exI [of _ "fold max (map (\<lambda>l. l div 2) ls) (maxvar B)"]) (simp add: grow_def)
qed

text \<open>
  A loop over \<open>xs\<close> that defines the literal \<open>key x\<close> of each element: when the literals are new and
  distinct it returns, and has added each element to the public part.
\<close>

lemma foldm_fresh:
  assumes c: "client d B" "maxvar B \<le> M"
    and keys: "distinct (map key xs)" "key ` set xs \<inter> public_defs B = {}"
      "\<forall>x \<in> set xs. even (key x) \<and> 0 < key x \<and> key x < 4294967296"
    and step: "\<And>x d B. x \<in> set xs \<Longrightarrow> client d B \<Longrightarrow> fresh B (key x) \<Longrightarrow>
      \<exists>u. f x d = Some u \<and> client u (app x (grow (used x) B))"
    and used: "\<forall>x \<in> set xs. \<forall>l \<in> set (used x). l div 2 \<le> M"
    and defs: "\<And>x B. public_defs (app x B) = insert (key x) (public_defs B)"
    and comm: "\<And>x m B. app x (B\<lparr>maxvar := m\<rparr>) = (app x B)\<lparr>maxvar := m\<rparr>"
  shows "\<exists>u m. foldm f xs d = Some u \<and> m \<le> M \<and> client u ((fold app xs B)\<lparr>maxvar := m\<rparr>)"
  using c keys step used
proof (induction xs arbitrary: d B)
  case Nil
  then show ?case by (intro exI [of _ d] exI [of _ "maxvar B"]) simp
next
  case (Cons x xs)
  have f: "fresh B (key x)" using Cons.prems(4,5) by (simp add: fresh_def)
  obtain u where u: "f x d = Some u" "client u (app x (grow (used x) B))" using Cons.prems(6) [OF _ Cons.prems(1) f] by auto
  from grow_max [of "used x" B M] Cons.prems(2,7) obtain m where
    m: "grow (used x) B = B\<lparr>maxvar := m\<rparr>" "m \<le> M" by auto
  let ?B = "(app x B)\<lparr>maxvar := m\<rparr>"
  have cl: "client u ?B" using u(2) by (simp add: m(1) comm)
  have "fold app ys (B\<lparr>maxvar := m\<rparr>) = (fold app ys B)\<lparr>maxvar := m\<rparr>" for ys B
    by (induction ys arbitrary: B) (simp_all add: comm)
  then have *: "(fold app xs ?B)\<lparr>maxvar := n\<rparr> = (fold app xs (app x B))\<lparr>maxvar := n\<rparr>" for n by simp
  have "\<exists>v n. foldm f xs u = Some v \<and> n \<le> M \<and> client v ((fold app xs ?B)\<lparr>maxvar := n\<rparr>)"
    by (rule Cons.IH [OF cl]) (use m(2) Cons.prems(3-7) in \<open>auto simp: defs\<close>)
  with u(1) * show ?case by simp
qed

lemma fold_lists:
  "fold (\<lambda>y B. B\<lparr>inputs := inputs B @ [y]\<rparr>) ys B = B\<lparr>inputs := inputs B @ ys\<rparr>"
  "fold (\<lambda>y B. B\<lparr>latches := latches B @ [y]\<rparr>) ys B = B\<lparr>latches := latches B @ ys\<rparr>"
  "fold (\<lambda>g B. B\<lparr>ands := ands B @ [g]\<rparr>) gs B = B\<lparr>ands := ands B @ gs\<rparr>"
  by (induction ys arbitrary: B, simp_all) (induction gs arbitrary: B, simp_all)

text \<open>What the sources of a copy are known to be.\<close>

definition source_ok :: "aiger_private \<Rightarrow> bool" where
  "source_ok p \<longleftrightarrow> wf_aiger p \<and> shaped p"

lemma source_okD:
  assumes "source_ok p"
  shows "distinct (map sym_lit (inputs p))" "distinct (map sym_lit (latches p))" "distinct (map and_lhs (ands p))"
    "\<And>l. l \<in> set (definitions p) \<Longrightarrow> even l \<and> 0 < l \<and> l < 4294967296"
    "sym_lit ` set (inputs p) \<inter> sym_lit ` set (latches p) = {}" "sym_lit ` set (inputs p) \<inter> and_lhs ` set (ands p) = {}"
    "sym_lit ` set (latches p) \<inter> and_lhs ` set (ands p) = {}"
    "lits_below (maxvar p) p" "maxvar p < 2147483648"
proof -
  have defs: "definitions_ok p" using assms wf_definitions by (simp add: source_ok_def wf_aiger_def)
  then show "distinct (map sym_lit (inputs p))" "distinct (map sym_lit (latches p))" "distinct (map and_lhs (ands p))"
    "sym_lit ` set (inputs p) \<inter> sym_lit ` set (latches p) = {}" "sym_lit ` set (inputs p) \<inter> and_lhs ` set (ands p) = {}"
    "sym_lit ` set (latches p) \<inter> and_lhs ` set (ands p) = {}"
    by (simp_all add: definitions_ok_def definitions_def Int_Un_distrib)
  show lb: "lits_below (maxvar p) p" and max: "maxvar p < 2147483648" using assms by (simp_all add: source_ok_def wf_aiger_def wf_lits_def)
  show "even l \<and> 0 < l \<and> l < 4294967296" if "l \<in> set (definitions p)" for l
  proof -
    have "l div 2 \<le> maxvar p" using that lb by (auto simp: definitions_def lits_below_def)
    with max defs that show ?thesis by (simp add: definitions_ok_def)
  qed
qed

lemma copy_inputs:
  assumes p: "source_ok p" and c: "client d B" "maxvar B \<le> maxvar p" and new: "sym_lit ` set (inputs p) \<inter> public_defs B = {}"
  shows "\<exists>u m. foldm copy_input (inputs p) d = Some u \<and> m \<le> maxvar p \<and> client u (B\<lparr>inputs := inputs B @ inputs p, maxvar := m\<rparr>)"
proof -
  have "\<exists>u m. foldm copy_input (inputs p) d = Some u \<and> m \<le> maxvar p \<and>
      client u ((fold (\<lambda>y B. B\<lparr>inputs := inputs B @ [y]\<rparr>) (inputs p) B)\<lparr>maxvar := m\<rparr>)"
  proof (rule foldm_fresh [OF c, where key = sym_lit and used = "\<lambda>y. [sym_lit y]"])
    fix y d and B :: aiger assume y: "y \<in> set (inputs p)" and c: "client d B" and f: "fresh B (sym_lit y)"
    have "plain_symbol y" "ok_name (sym_name y)"
      using p y by (simp_all add: source_ok_def shaped_def wf_aiger_def wf_names_def all_symbols_def)
    then show "\<exists>u. copy_input y d = Some u \<and> client u ((grow [sym_lit y] B)\<lparr>inputs := inputs (grow [sym_lit y] B) @ [y]\<rparr>)"
      using client_add_input [OF c f, of "sym_name y"] new_symbol_same by (simp add: copy_input_def grow_def)
  qed (use source_okD [OF p] new in \<open>auto simp: definitions_def lits_below_def public_defs_def\<close>)
  then show ?thesis unfolding fold_lists by simp
qed

lemma copy_latch_client:
  assumes c: "client d B" and f: "fresh B (sym_lit y)" and x: "sym_next y < 4294967296" and n: "ok_name (sym_name y)" "sym_lits y = []"
    and r: "sym_reset y \<le> 1 \<or> sym_reset y = sym_lit y"
  shows "\<exists>u v. aiger_add_latch d (sym_lit y) (sym_next y) (sym_name y) = Some u \<and> aiger_add_reset u (sym_lit y) (sym_reset y) = Some v \<and>
     (sym_reset y = 0 \<longrightarrow> client u ((grow [sym_lit y, sym_next y] B)\<lparr>latches := latches B @ [y]\<rparr>)) \<and>
     client v ((grow [sym_lit y, sym_next y] B)\<lparr>latches := latches B @ [y]\<rparr>)"
proof -
  let ?z = "(new_symbol (sym_lit y) (sym_name y))\<lparr>sym_next := sym_next y\<rparr>" and ?B = "grow [sym_lit y, sym_next y] B"
  from client_add_latch [OF c f x, of "sym_name y"] obtain u where
    u: "aiger_add_latch d (sym_lit y) (sym_next y) (sym_name y) = Some u" "client u (?B\<lparr>latches := latches B @ [?z]\<rparr>)" by blast
  have lit: "sym_lit ?z = sym_lit y" by (simp add: new_symbol_def)
  have "sym_lit ?z div 2 \<le> maxvar ?B" by (simp add: lit grow_def)
  from client_add_reset [OF u(2) _ this, of "sym_reset y"] r obtain v where
    v: "aiger_add_reset u (sym_lit y) (sym_reset y) = Some v" "client v (?B\<lparr>latches := latches B @ [?z\<lparr>sym_reset := sym_reset y\<rparr>]\<rparr>)"
    unfolding lit by blast
  have z: "?z\<lparr>sym_reset := sym_reset y\<rparr> = y" using new_latch_same n by simp
  moreover have "sym_reset y = 0 \<Longrightarrow> ?z = y" using z by (metis new_latch_reset)
  ultimately show ?thesis using u v by auto
qed

lemma copy_latches:
  assumes p: "source_ok p" and c: "client d B" "maxvar B \<le> maxvar p" and new: "sym_lit ` set (latches p) \<inter> public_defs B = {}"
    and f: "\<And>y d u v. aiger_add_latch d (sym_lit y) (sym_next y) (sym_name y) = Some u \<Longrightarrow>
      aiger_add_reset u (sym_lit y) (sym_reset y) = Some v \<Longrightarrow> f y d = Some v \<or> (sym_reset y = 0 \<and> f y d = Some u)"
  shows "\<exists>u m. foldm f (latches p) d = Some u \<and> m \<le> maxvar p \<and> client u (B\<lparr>latches := latches B @ latches p, maxvar := m\<rparr>)"
proof -
  note d = source_okD [OF p]
  have "\<exists>u m. foldm f (latches p) d = Some u \<and> m \<le> maxvar p \<and>
      client u ((fold (\<lambda>y B. B\<lparr>latches := latches B @ [y]\<rparr>) (latches p) B)\<lparr>maxvar := m\<rparr>)"
  proof (rule foldm_fresh [OF c, where key = sym_lit and used = "\<lambda>y. [sym_lit y, sym_next y]"])
    fix y d and B :: aiger assume y: "y \<in> set (latches p)" and c: "client d B" and fr: "fresh B (sym_lit y)"
    have n: "ok_name (sym_name y)" "sym_lits y = []" "sym_reset y \<le> 1 \<or> sym_reset y = sym_lit y"
      using p y by (simp_all add: source_ok_def shaped_def wf_aiger_def wf_names_def wf_resets_def all_symbols_def)
    have "sym_next y div 2 \<le> maxvar p" using d(8) y by (simp add: lits_below_def)
    then have "sym_next y < 4294967296" using d(9) by linarith
    from copy_latch_client [OF c fr this n]
    show "\<exists>u. f y d = Some u \<and>
        client u ((grow [sym_lit y, sym_next y] B)\<lparr>latches := latches (grow [sym_lit y, sym_next y] B) @ [y]\<rparr>)"
      using f [of d y] by (fastforce simp: grow_def)
  qed (use d new in \<open>auto simp: definitions_def lits_below_def public_defs_def\<close>)
  then show ?thesis unfolding fold_lists by simp
qed

lemma copy_ands:
  assumes p: "source_ok p" and c: "client d B" "maxvar B \<le> maxvar p" and new: "and_lhs ` set (ands p) \<inter> public_defs B = {}"
  shows "\<exists>u m. foldm copy_and (ands p) d = Some u \<and> m \<le> maxvar p \<and> client u (B\<lparr>ands := ands B @ ands p, maxvar := m\<rparr>)"
proof -
  note s = source_okD [OF p]
  have "\<exists>u m. foldm copy_and (ands p) d = Some u \<and> m \<le> maxvar p \<and>
      client u ((fold (\<lambda>g B. B\<lparr>ands := ands B @ [g]\<rparr>) (ands p) B)\<lparr>maxvar := m\<rparr>)"
  proof (rule foldm_fresh [OF c, where key = and_lhs and used = "\<lambda>g. [and_lhs g, and_rhs0 g, and_rhs1 g]"])
    fix g d and B :: aiger assume g: "g \<in> set (ands p)" and c: "client d B" and f: "fresh B (and_lhs g)"
    have "and_rhs0 g div 2 \<le> maxvar p" "and_rhs1 g div 2 \<le> maxvar p" using s(8) g by (simp_all add: lits_below_def)
    then have "and_rhs0 g < 4294967296" "and_rhs1 g < 4294967296" using s(9) by linarith+
    from client_add_and [OF c f this]
    moreover have "\<lparr>and_lhs = and_lhs g, and_rhs0 = and_rhs0 g, and_rhs1 = and_rhs1 g\<rparr> = g" by simp
    ultimately show "\<exists>u. copy_and g d = Some u \<and>
        client u ((grow [and_lhs g, and_rhs0 g, and_rhs1 g] B)\<lparr>ands := ands (grow [and_lhs g, and_rhs0 g, and_rhs1 g] B) @ [g]\<rparr>)"
      unfolding copy_and_def by (simp add: grow_def)
  qed (use s new in \<open>auto simp: definitions_def lits_below_def public_defs_def\<close>)
  then show ?thesis unfolding fold_lists by simp
qed

lemma copy_model_client:
  assumes wf: "wf_aiger p" and sh: "shaped p"
  shows "\<exists>u m. copy_model p aiger_init = Some u \<and> client u (copied p m) \<and> m \<le> maxvar p"
proof -
  have p: "source_ok p" using assms by (simp add: source_ok_def)
  note s = source_okD [OF p]
  have b: "public_defs (blank n) = {}" for n by (simp add: public_defs_def blank_def)
  obtain u1 m1 where 1: "foldm copy_input (inputs p) aiger_init = Some u1" "m1 \<le> maxvar p"
    "client u1 ((blank 0)\<lparr>inputs := inputs p, maxvar := m1\<rparr>)"
    using copy_inputs [OF p client_init] b [of 0] by (auto simp: blank_def)
  obtain u2 m2 where 2: "foldm copy_latch (latches p) u1 = Some u2" "m2 \<le> maxvar p"
    "client u2 ((blank 0)\<lparr>inputs := inputs p, latches := latches p, maxvar := m2\<rparr>)"
    using copy_latches [OF p 1(3), of copy_latch] 1(2) s(5) by (auto simp: public_defs_def blank_def copy_latch_def)
  obtain u3 m3 where 3: "foldm copy_and (ands p) u2 = Some u3" "m3 \<le> maxvar p"
    "client u3 ((blank 0)\<lparr>inputs := inputs p, latches := latches p, ands := ands p, maxvar := m3\<rparr>)"
    using copy_ands [OF p 2(3)] 2(2) s(6,7) by (auto simp: public_defs_def blank_def Int_Un_distrib Int_commute)
  show ?thesis using 1(1) 2(1) 3(1,2) 3(3) [unfolded copied_record] by (auto simp: copy_model_def)
qed

section \<open>Fresh gates\<close>

text \<open>Gates over the next variables, in order, each on earlier variables only.\<close>

fun chain :: "nat \<Rightarrow> aiger_and list \<Rightarrow> bool" where
  "chain m [] = True"
| "chain m (g # gs) =
     (and_lhs g = 2 * Suc m \<and> and_rhs0 g div 2 \<le> m \<and> and_rhs1 g div 2 \<le> m \<and> chain (Suc m) gs)"

lemma gate_holds_update:
  "and_lhs g div 2 \<noteq> v \<Longrightarrow> and_rhs0 g div 2 \<noteq> v \<Longrightarrow> and_rhs1 g div 2 \<noteq> v \<Longrightarrow>
     gate_holds (\<nu>(v := b)) g = gate_holds \<nu> g"
  by (simp add: gate_holds_def litval_def)

lemma chain_extends:
  assumes "chain m gs" "list_all (gate_holds \<nu>) fs"
    "\<forall>g \<in> set fs. and_lhs g div 2 \<le> m \<and> and_rhs0 g div 2 \<le> m \<and> and_rhs1 g div 2 \<le> m"
  shows "\<exists>\<mu>. (\<forall>v \<le> m. \<mu> v = \<nu> v) \<and> list_all (gate_holds \<mu>) (fs @ gs)"
  using assms
proof (induction gs arbitrary: m \<nu> fs)
  case Nil
  then show ?case by auto
next
  case (Cons g gs)
  let ?\<nu> = "\<nu>(Suc m := litval \<nu> (and_rhs0 g) \<and> litval \<nu> (and_rhs1 g))"
  have g: "and_lhs g = 2 * Suc m" "and_rhs0 g div 2 \<le> m" "and_rhs1 g div 2 \<le> m" and c: "chain (Suc m) gs"
    using Cons.prems(1) by simp_all
  have "gate_holds ?\<nu> f" if "f \<in> set fs" for f
    using that Cons.prems(2,3) gate_holds_update [of f "Suc m"] by (fastforce simp: list_all_iff)
  moreover have "gate_holds ?\<nu> g" using g by (auto simp: gate_holds_def litval_def)
  ultimately have "list_all (gate_holds ?\<nu>) (fs @ [g])" by (simp add: list_all_iff)
  moreover have "\<forall>f \<in> set (fs @ [g]). and_lhs f div 2 \<le> Suc m \<and> and_rhs0 f div 2 \<le> Suc m \<and> and_rhs1 f div 2 \<le> Suc m"
    using Cons.prems(3) g by fastforce
  ultimately obtain \<mu> where \<mu>: "\<forall>v \<le> Suc m. \<mu> v = ?\<nu> v" "list_all (gate_holds \<mu>) ((fs @ [g]) @ gs)"
    using Cons.IH [OF c] by blast
  have "\<forall>v \<le> m. \<mu> v = \<nu> v" using \<mu>(1) by simp
  with \<mu>(2) show ?case by auto
qed

text \<open>What a structure observes only depends on the variables up to \<open>m\<close>.\<close>

lemma observe_cong:
  assumes "lits_below m p" "\<forall>v \<le> m. \<mu> v = \<nu> v"
  shows "observe p \<mu> = observe p \<nu>"
proof -
  have l: "litval \<mu> l = litval \<nu> l" if "l div 2 \<le> m" for l using assms(2) that by (simp add: litval_def)
  show ?thesis
    using assms(1) unfolding lits_below_def observe_def by (auto simp: l intro!: map_cong)
qed

lemma latches_cong:
  assumes "lits_below m p" "\<forall>v \<le> m. \<mu> v = \<nu> v" "\<forall>v \<le> m. \<mu>' v = \<nu>' v"
  shows "list_all (latch_init \<mu>) (latches p) = list_all (latch_init \<nu>) (latches p)"
    "list_all (latch_next \<mu> \<mu>') (latches p) = list_all (latch_next \<nu> \<nu>') (latches p)"
proof -
  have l: "litval \<mu> l = litval \<nu> l" "litval \<mu>' l = litval \<nu>' l" if "l div 2 \<le> m" for l
    using assms(2,3) that by (simp_all add: litval_def)
  have y: "sym_lit y div 2 \<le> m" "sym_next y div 2 \<le> m" if "y \<in> set (latches p)" for y
    using assms(1) that by (simp_all add: lits_below_def)
  show "list_all (latch_init \<mu>) (latches p) = list_all (latch_init \<nu>) (latches p)"
    unfolding list_all_iff by (rule ball_cong [OF refl]) (simp add: latch_init_def l y)
  show "list_all (latch_next \<mu> \<mu>') (latches p) = list_all (latch_next \<nu> \<nu>') (latches p)"
    unfolding list_all_iff by (rule ball_cong [OF refl]) (simp add: latch_next_def l y)
qed

text \<open>
  A structure \<open>q\<close> with the inputs, latches and gates of \<open>p\<close> and a chain of fresh gates behaves like
  \<open>p\<close>, seen through the function \<open>F\<close> that its other literals compute.
\<close>

lemma extension_behaviours:
  assumes p: "lits_below m p" and q: "ands q = ands p @ gs" "latches q = latches p" and gs: "chain m gs"
    and obs: "\<And>\<nu>. models q \<nu> \<Longrightarrow> observe q \<nu> = F (observe p \<nu>)"
  shows "behaviours q = (\<lambda>b t. F (b t)) ` behaviours p"
proof (rule set_eqI, rule iffI)
  fix b assume "b \<in> behaviours q"
  then obtain \<tau> where \<tau>: "run q \<tau>" "b = (\<lambda>t. observe q (\<tau> t))" by (auto simp: behaviours_def)
  have "run p \<tau>" using \<tau>(1) q by (simp add: run_def models_def)
  moreover have "b = (\<lambda>t. F (observe p (\<tau> t)))" using \<tau> obs by (simp add: run_def)
  ultimately show "b \<in> (\<lambda>b t. F (b t)) ` behaviours p" by (auto simp: behaviours_def)
next
  fix b assume "b \<in> (\<lambda>b t. F (b t)) ` behaviours p"
  then obtain \<tau> where \<tau>: "run p \<tau>" "b = (\<lambda>t. F (observe p (\<tau> t)))" by (auto simp: behaviours_def)
  have "\<exists>\<mu>. (\<forall>v \<le> m. \<mu> v = \<tau> t v) \<and> list_all (gate_holds \<mu>) (ands p @ gs)" for t
    by (rule chain_extends [OF gs]) (use \<tau>(1) p in \<open>simp_all add: run_def models_def lits_below_def\<close>)
  then obtain \<sigma> where \<sigma>: "\<And>t. \<forall>v \<le> m. \<sigma> t v = \<tau> t v" "\<And>t. list_all (gate_holds (\<sigma> t)) (ands p @ gs)" by metis
  have mq: "models q (\<sigma> t)" for t
    using \<tau>(1) \<sigma>(1) [of t] \<sigma>(2) [of t] q(1) by (simp add: models_def run_def)
  have "run q \<sigma>"
    using \<tau>(1) mq latches_cong [OF p \<sigma>(1) \<sigma>(1)] unfolding run_def q(2) by simp
  moreover have "b = (\<lambda>t. observe q (\<sigma> t))"
    using \<tau>(2) obs [OF mq] observe_cong [OF p \<sigma>(1)] by simp
  ultimately show "b \<in> behaviours q" by (auto simp: behaviours_def)
qed

text \<open>A checked structure only uses the variables that its copy has.\<close>

lemma copied_below:
  assumes "client u (copied p m)" "all_defined p"
  shows "lits_below m p"
proof -
  note d = clientD [OF assms(1)]
  have "lits_below m u" using d(1,5) by (simp add: wf_aiger_def wf_lits_def)
  then have u: "\<forall>y \<in> set (inputs p). sym_lit y div 2 \<le> m"
    "\<forall>y \<in> set (latches p). sym_lit y div 2 \<le> m \<and> sym_next y div 2 \<le> m \<and> sym_reset y div 2 \<le> m"
    "\<forall>g \<in> set (ands p). and_lhs g div 2 \<le> m \<and> and_rhs0 g div 2 \<le> m \<and> and_rhs1 g div 2 \<le> m"
    using d(6,7,13) by (simp_all add: lits_below_def)
  have half: "v \<le> m" if "2 * v = l" "l div 2 \<le> m" for v l using that by auto
  have v: "v \<le> m" if "defined_var p v" for v
    using that half u unfolding defined_var_def by (elim disjE imageE) (simp, blast+)
  show ?thesis
    unfolding lits_below_def using u assms(2) v by (simp add: all_defined_def ball_Un)
qed


section \<open>The structure that a tool builds\<close>

lemma chain_gate:
  assumes "chain m gs" "g \<in> set gs"
  shows "\<exists>k. m \<le> k \<and> k < m + length gs \<and> and_lhs g = 2 * Suc k \<and> and_rhs0 g div 2 \<le> k \<and> and_rhs1 g div 2 \<le> k"
  using assms
proof (induction gs arbitrary: m)
  case (Cons a gs)
  show ?case
  proof (cases "g = a")
    case True
    with Cons.prems show ?thesis by (intro exI [of _ m]) simp
  next
    case False
    with Cons.prems Cons.IH [of "Suc m"] show ?thesis by (auto intro: Suc_leD)
  qed
qed simp

lemma chain_defined:
  assumes "chain m gs" "m < v" "v \<le> m + length gs"
  shows "2 * v \<in> and_lhs ` set gs"
  using assms
proof (induction gs arbitrary: m)
  case (Cons g gs)
  then show ?case by (cases "v = Suc m") auto
qed simp

lemma chain_acyclic:
  assumes p: "acyclic (deps p)" "lits_below m p" and q: "ands q = ands p @ gs" and gs: "chain m gs"
    and lhs: "\<forall>g \<in> set (ands p). and_lhs g div 2 \<le> m"
  shows "acyclic (deps q)"
proof -
  have new: "m < and_lhs g div 2" if "g \<in> set gs" for g using chain_gate [OF gs that] by auto
  have old: "(v, w) \<in> deps p" if "(v, w) \<in> deps q" "v \<le> m" for v w
    using that new by (fastforce simp: deps_def q)
  have below: "w \<le> m" if "(v, w) \<in> deps p" for v w using that p(2) by (auto simp: deps_def lits_below_def)
  have small: "grounded q v" if "v \<le> m" for v
  proof -
    have "grounded p v" using p(1) acyclic_iff_grounded by blast
    then show ?thesis using that
    proof (induction rule: grounded.induct)
      case (1 v)
      show ?case by (rule grounded.intros) (use 1 old below in blast)
    qed
  qed
  have "grounded q v" for v
  proof (induction v rule: less_induct)
    case (less v)
    show ?case
    proof (cases "v \<le> m")
      case False
      show ?thesis
      proof (rule grounded.intros)
        fix w assume "(v, w) \<in> deps q"
        then obtain g l where g: "g \<in> set (ands p @ gs)" "v = and_lhs g div 2" "w = l div 2" "l \<in> {and_rhs0 g, and_rhs1 g}"
          by (auto simp: deps_def q)
        with False lhs have "g \<in> set gs" by auto
        from chain_gate [OF gs this] g have "w < v" by auto
        then show "grounded q w" by (rule less)
      qed
    qed (rule small)
  qed
  then show ?thesis using acyclic_iff_grounded by blast
qed

text \<open>\<open>copied p m\<close> with new gates, new outputs and two comments.\<close>

definition built :: "aiger_private \<Rightarrow> nat \<Rightarrow> aiger_and list \<Rightarrow> aiger_symbol list \<Rightarrow> string option list \<Rightarrow> aiger" where
  "built p m gs ys cs =
     (copied p m)\<lparr>maxvar := m + length gs, outputs := ys, ands := ands p @ gs, comments := cs\<rparr>"

lemma built_simps [simp]:
  "maxvar (built p m gs ys cs) = m + length gs" "inputs (built p m gs ys cs) = inputs p"
  "latches (built p m gs ys cs) = latches p" "ands (built p m gs ys cs) = ands p @ gs" "outputs (built p m gs ys cs) = ys"
  "bad (built p m gs ys cs) = []" "constraints (built p m gs ys cs) = []" "justice (built p m gs ys cs) = []"
  "fairness (built p m gs ys cs) = []" "comments (built p m gs ys cs) = cs"
  by (simp_all add: built_def)

lemma client_checked:
  assumes u: "client u (built p m gs ys cs)" and m: "client v (copied p m)" and p: "all_defined p" "acyclic (deps p)"
    and gs: "chain m gs"
    and used: "\<forall>y \<in> set ys. defined_var u (sym_lit y div 2)" "\<forall>g \<in> set gs. defined_var u (and_rhs0 g div 2) \<and> defined_var u (and_rhs1 g div 2)"
  shows "checked u"
proof -
  note d = clientD [OF u]
  note below = copied_below [OF m p(1)]
  have sub: "defined_var p v \<Longrightarrow> defined_var u v" for v using d(6,7,13) by (auto simp: defined_var_def)
  have "all_defined u" using p(1) sub used d(6-13) by (auto simp: all_defined_def)
  moreover have "acyclic (deps u)"
    by (rule chain_acyclic [OF p(2) below _ gs]) (use d(13) below in \<open>simp_all add: lits_below_def\<close>)
  moreover have "clean_marks u" using d(3) by (simp add: unmarked_types_def clean_marks_def list_all_length)
  ultimately show ?thesis using d(1,2) by (simp add: checked_def)
qed


text \<open>The loop of \<open>aigand\<close> and \<open>aigor\<close>.\<close>

lemma client_max_fresh:
  assumes "client q B" "maxvar B < 2147483647"
  shows "fresh B (2 * Suc (maxvar B))"
proof -
  have below: "lits_below (maxvar q) q" using clientD(1) [OF assms(1)] by (simp add: wf_aiger_def wf_lits_def)
  have all: "l div 2 \<le> maxvar B" if "l \<in> public_defs B" for l
    using below that clientD(5-7,13) [OF assms(1)] by (auto simp: public_defs_def lits_below_def)
  have "2 * Suc (maxvar B) \<notin> public_defs B" using all [of "2 * Suc (maxvar B)"] by auto
  with assms(2) show ?thesis by (simp add: fresh_def)
qed

lemma next_lit_eq: "maxvar d < 2147483647 \<Longrightarrow> next_lit d = 2 * Suc (maxvar d)"
  by (simp add: next_lit_def)

lemma client_next_and:
  assumes c: "client d B" and m: "maxvar B < 2147483647" and l: "a div 2 \<le> maxvar B" "b div 2 \<le> maxvar B"
  shows "\<exists>u. aiger_add_and d (2 * Suc (maxvar B)) a b = Some u \<and>
     client u (B\<lparr>maxvar := Suc (maxvar B), ands := ands B @ [\<lparr>and_lhs = 2 * Suc (maxvar B), and_rhs0 = a, and_rhs1 = b\<rparr>]\<rparr>)"
proof -
  have less: "a < 4294967296" "b < 4294967296" using l m by linarith+
  have "(grow [2 * Suc (maxvar B), a, b] B) = B\<lparr>maxvar := Suc (maxvar B)\<rparr>" using l by (simp add: grow_def max_def)
  with client_add_and [OF c client_max_fresh [OF c m] less] show ?thesis by simp
qed

lemma and_chain_client:
  assumes "client d B" "maxvar B + length ls < 2147483648" "out div 2 \<le> maxvar B" "\<forall>l \<in> set ls. l div 2 \<le> maxvar B"
  shows "\<exists>u res gs. and_chain out ls d = Some (res, u) \<and> length gs = length ls \<and>
     client u (B\<lparr>maxvar := maxvar B + length gs, ands := ands B @ gs\<rparr>) \<and> chain (maxvar B) gs \<and>
     (res = out \<or> maxvar B < res div 2) \<and> res div 2 \<le> maxvar B + length gs \<and>
     (\<forall>g \<in> set gs. (and_rhs0 g = out \<or> maxvar B < and_rhs0 g div 2) \<and> and_rhs1 g \<in> set ls) \<and>
     (\<forall>\<nu>. list_all (gate_holds \<nu>) gs \<longrightarrow> litval \<nu> res = (litval \<nu> out \<and> list_all (litval \<nu>) ls))"
  using assms
proof (induction ls arbitrary: out d B)
  case Nil
  have "B\<lparr>maxvar := maxvar B, ands := ands B\<rparr> = B" by simp
  with Nil show ?case by (intro exI [of _ d] exI [of _ out] exI [of _ "[]"]) simp
next
  case (Cons l ls)
  let ?m = "maxvar B" and ?tmp = "2 * Suc (maxvar B)"
  let ?g = "\<lparr>and_lhs = ?tmp, and_rhs0 = out, and_rhs1 = l\<rparr>"
  let ?B = "B\<lparr>maxvar := Suc ?m, ands := ands B @ [?g]\<rparr>"
  have m: "?m < 2147483647" using Cons.prems(2) by simp
  obtain e where e: "aiger_add_and d ?tmp out l = Some e" "client e ?B"
    using client_next_and [OF Cons.prems(1) m Cons.prems(3), of l] Cons.prems(4) by auto
  have nl: "next_lit d = ?tmp" using next_lit_eq clientD(5) [OF Cons.prems(1)] m by simp
  have "maxvar ?B + length ls < 2147483648" "?tmp div 2 \<le> maxvar ?B" "\<forall>l \<in> set ls. l div 2 \<le> maxvar ?B"
    using Cons.prems(2,4) by auto
  from Cons.IH [OF e(2) this] obtain u res gs where r: "and_chain ?tmp ls e = Some (res, u)" "length gs = length ls"
    "client u (?B\<lparr>maxvar := maxvar ?B + length gs, ands := ands ?B @ gs\<rparr>)" "chain (maxvar ?B) gs"
    "res = ?tmp \<or> maxvar ?B < res div 2" "res div 2 \<le> maxvar ?B + length gs"
    "\<forall>g \<in> set gs. (and_rhs0 g = ?tmp \<or> maxvar ?B < and_rhs0 g div 2) \<and> and_rhs1 g \<in> set ls"
    "\<forall>\<nu>. list_all (gate_holds \<nu>) gs \<longrightarrow> litval \<nu> res = (litval \<nu> ?tmp \<and> list_all (litval \<nu>) ls)" by blast
  let ?gs = "?g # gs"
  have "and_chain out (l # ls) d = Some (res, u)" using e(1) r(1) nl by simp
  moreover have "client u (B\<lparr>maxvar := ?m + length ?gs, ands := ands B @ ?gs\<rparr>)" using r(3) by simp
  moreover have "chain ?m ?gs" using r(4) Cons.prems(3,4) by simp
  moreover have "?m < res div 2" "res div 2 \<le> ?m + length ?gs" using r(5,6) by auto
  moreover have "\<forall>g \<in> set ?gs. (and_rhs0 g = out \<or> ?m < and_rhs0 g div 2) \<and> and_rhs1 g \<in> set (l # ls)" using r(7) by fastforce
  moreover have "litval \<nu> res = (litval \<nu> out \<and> list_all (litval \<nu>) (l # ls))" if "list_all (gate_holds \<nu>) ?gs" for \<nu>
  proof -
    have "litval \<nu> ?tmp = (litval \<nu> out \<and> litval \<nu> l)" using that by (simp add: gate_holds_def litval_def)
    then show ?thesis using r(8) that by simp
  qed
  ultimately show ?case using r(2) by (intro exI [of _ u] exI [of _ res] exI [of _ ?gs]) simp
qed

end
