(* ===== verification/AigerToolsCorrect.thy ===== *)
theory AigerToolsCorrect
  imports AigerToolsSem
begin

text \<open>
  The tools are correct: what each of them builds is portable, and its behaviours are those of
  its input under the tool's effect on the observations. The interface \<open>tool\<close> says this once, and
  what the complete program then does with its files.
\<close>

section \<open>Finishing a structure\<close>

definition comments2 :: "string \<Rightarrow> string \<Rightarrow> string option list" where
  "comments2 c1 c2 = [Some c1, Some c2, None]"

lemma add_comments_client:
  assumes "client u (built p m gs ys [None])" "plain_name c1" "plain_name c2"
  shows "\<exists>w. add_comments c1 c2 u = Some w \<and> client w (built p m gs ys (comments2 c1 c2))"
proof -
  have "comments (built p m gs ys [None]) = [] @ [None]" by simp
  from client_add_comment [OF assms(1) this assms(2)] obtain v where
    v: "aiger_add_comment u c1 = Some v" "client v ((built p m gs ys [None])\<lparr>comments := [Some c1] @ [None]\<rparr>)" by auto
  have "comments ((built p m gs ys [None])\<lparr>comments := [Some c1] @ [None]\<rparr>) = [Some c1] @ [None]" by simp
  from client_add_comment [OF v(2) this assms(3)] obtain w where
    w: "aiger_add_comment v c2 = Some w"
    "client w ((built p m gs ys [None])\<lparr>comments := [Some c1] @ [Some c2, None]\<rparr>)" by auto
  have "(built p m gs ys [None])\<lparr>comments := [Some c1] @ [Some c2, None]\<rparr> = built p m gs ys (comments2 c1 c2)"
    by (simp add: built_def comments2_def)
  with v(1) w show ?thesis by (auto simp: add_comments_def)
qed

lemma count_all: "wf_aiger p \<Longrightarrow> length (inputs p) + length (latches p) + length (ands p) \<le> maxvar p"
proof (cases "maxvar p = 0")
  case True
  assume wf: "wf_aiger p"
  have "definitions_ok p" using wf wf_definitions by (simp add: wf_aiger_def)
  then have "even l \<and> 0 < l" if "l \<in> set (definitions p)" for l using that by (simp add: definitions_ok_def)
  moreover have "l div 2 \<le> 0" if "l \<in> set (definitions p)" for l
    using that wf True by (auto simp: wf_aiger_def wf_lits_def lits_below_def definitions_def)
  ultimately have "set (definitions p) \<subseteq> {}" by (fastforce elim!: evenE)
  then show ?thesis by (simp add: definitions_def)
next
  case False
  assume "wf_aiger p"
  then show ?thesis using count_definitions [of p] False by simp
qed

lemma built_portable:
  assumes w: "client w (built p m gs ys (comments2 c1 c2))" "checked w" and p: "portable p"
    and ys: "\<forall>y \<in> set ys. plain_symbol y \<and> entry_ok y" "length ys < 4294967296" and c: "plain_name c1" "plain_name c2"
  shows "portable w"
proof -
  note d = clientD [OF w(1)]
  have wf: "wf_aiger w" using w(2) by (simp add: checked_def)
  have p': "shaped p" "named p" "small_counts p" using p by (simp_all add: portable_def)
  have "shaped w" using p'(1) ys(1) d(6-12) by (auto simp: shaped_def)
  moreover have "named w"
    unfolding named_def using p'(2) ys(1) d(6-12,14) c
    by (auto simp: named_def all_symbols_def comments2_def intro!: exI [of _ "[c1, c2]"])
  moreover have "maxvar w < 2147483648" using wf by (simp add: wf_aiger_def wf_lits_def)
  then have "small_counts w" using p'(3) ys(2) d(6-12) count_all [OF wf] by (simp add: small_counts_def)
  ultimately show ?thesis using w(2) by (simp add: portable_def)
qed

lemma dec_plain: "CHR 0x00 \<notin> set (dec n)" "CHR ''\<newline>'' \<notin> set (dec n)"
  using isdigit_dec [of "CHR 0x00" n] isdigit_dec [of "CHR ''\<newline>''" n] by (auto simp: isdigit_def)

lemma portableD:
  assumes "portable p"
  shows "checked p" "shaped p" "named p" "small_counts p" "wf_aiger p" "all_defined p" "acyclic (deps p)" "error p = None"
  using assms by (simp_all add: portable_def checked_def)

lemma defined_new:
  assumes u: "client u (built p m gs ys cs)" and gs: "chain m gs" and v: "defined_var p v \<or> (m < v \<and> v \<le> m + length gs)"
  shows "defined_var u v"
  using v chain_defined [OF gs] clientD(6,7,13) [OF u] by (auto simp: defined_var_def)

lemma tool_built:
  assumes p: "portable p" and v: "client v (copied p m)" and u: "client u (built p m gs ys (comments2 c1 c2))"
    and gs: "chain m gs"
      "\<forall>g \<in> set gs. \<forall>l \<in> {and_rhs0 g, and_rhs1 g}. defined_var p (l div 2) \<or> (m < l div 2 \<and> l div 2 \<le> m + length gs)"
    and ys: "\<forall>y \<in> set ys. defined_var p (sym_lit y div 2) \<or> (m < sym_lit y div 2 \<and> sym_lit y div 2 \<le> m + length gs)"
      "\<forall>y \<in> set ys. plain_symbol y \<and> entry_ok y" "length ys < 4294967296"
    and c: "plain_name c1" "plain_name c2"
    and obs: "\<And>\<nu>. models u \<nu> \<Longrightarrow> observe u \<nu> = F (observe p \<nu>)"
  shows "portable u \<and> behaviours u = (\<lambda>b t. F (b t)) ` behaviours p"
proof -
  note pd = portableD [OF p] and d = clientD [OF u]
  have "checked u"
    by (rule client_checked [OF u v pd(6,7) gs(1)]) (use defined_new [OF u gs(1)] gs(2) ys(1) in blast)+
  then have "portable u" by (rule built_portable [OF u _ p ys(2,3) c])
  moreover have "behaviours u = (\<lambda>b t. F (b t)) ` behaviours p"
    by (rule extension_behaviours [OF copied_below [OF v pd(6)] _ _ gs(1) obs]) (simp_all add: d(7,13))
  ultimately show ?thesis ..
qed

section \<open>The effects of the tools\<close>

fun all_outputs :: "bool list \<Rightarrow> bool list" where
  "all_outputs [] = []"
| "all_outputs bs = [list_all (\<lambda>b. b) bs]"

text \<open>What \<open>aigor\<close> computes: the first output enters the disjunction negated.\<close>

fun or_outputs :: "bool list \<Rightarrow> bool list" where
  "or_outputs [] = []"
| "or_outputs (b # bs) = [\<not> b \<or> list_ex (\<lambda>b. b) bs]"

definition only :: "(bool list \<Rightarrow> bool list) \<Rightarrow> observation \<Rightarrow> observation" where
  "only f ob = \<lparr>o_inputs = o_inputs ob, o_latches = o_latches ob, o_outputs = f (o_outputs ob), o_bad = [],
     o_constraints = [], o_justice = [], o_fairness = []\<rparr>"

lemma observe_built:
  assumes "client u (built p m gs ys cs)"
    "map (litval \<nu> \<circ> sym_lit) ys = f (map (litval \<nu> \<circ> sym_lit) (outputs p))"
  shows "observe u \<nu> = only f (observe p \<nu>)"
  using assms(2) clientD(6-12) [OF assms(1)] by (simp add: observe_def only_def)

lemma add_outputs:
  assumes u: "client u (built p m gs ys [None])" and l: "l div 2 \<le> m + length gs"
  shows "client (aiger_add_output u l n) (built p m gs (ys @ [new_symbol l n]) [None])"
proof -
  have "maxvar u < 2147483648" using clientD(1) [OF u] by (simp add: wf_aiger_def wf_lits_def)
  then have "l < 4294967296" using l clientD(5) [OF u] by simp
  have "(grow [l] (built p m gs ys [None]))\<lparr>outputs := outputs (built p m gs ys [None]) @ [new_symbol l n]\<rparr> =
      built p m gs (ys @ [new_symbol l n]) [None]"
    using l by (simp add: grow_def built_def copied_def blank_def)
  with client_add_plain(1) [OF u \<open>l < 4294967296\<close>, of n] show ?thesis by simp
qed

lemma defined_le:
  assumes "client v (copied p m)" "portable p" "y \<in> set (outputs p)"
  shows "sym_lit y div 2 \<le> m" "defined_var p (sym_lit y div 2)"
  using copied_below [OF assms(1) portableD(6) [OF assms(2)]] portableD(6) [OF assms(2)] assms(3)
  by (auto simp: lits_below_def all_defined_def)

lemma copied_built: "client v (copied p m) = client v (built p m [] [] [None])"
  by (simp add: built_def copied_def blank_def)

lemma chain_built:
  assumes p: "portable p" and v: "client v (copied p m)" and m: "m + length ls < 2147483648"
    and out: "defined_var p (out div 2)" "out div 2 \<le> m" and ls: "\<forall>l \<in> set ls. defined_var p (l div 2) \<and> l div 2 \<le> m"
  shows "\<exists>u res gs. and_chain out ls v = Some (res, u) \<and> client u (built p m gs [] [None]) \<and> chain m gs \<and>
     (\<forall>g \<in> set gs. \<forall>l \<in> {and_rhs0 g, and_rhs1 g}. defined_var p (l div 2) \<or> (m < l div 2 \<and> l div 2 \<le> m + length gs)) \<and>
     (defined_var p (res div 2) \<or> m < res div 2) \<and> res div 2 \<le> m + length gs \<and>
     (\<forall>\<nu>. list_all (gate_holds \<nu>) gs \<longrightarrow> litval \<nu> res = (litval \<nu> out \<and> list_all (litval \<nu>) ls))"
proof -
  obtain u res gs where c: "and_chain out ls v = Some (res, u)" "length gs = length ls"
    "client u ((copied p m)\<lparr>maxvar := m + length gs, ands := ands p @ gs\<rparr>)" "chain m gs"
    "res = out \<or> m < res div 2" "res div 2 \<le> m + length gs"
    "\<forall>g \<in> set gs. (and_rhs0 g = out \<or> m < and_rhs0 g div 2) \<and> and_rhs1 g \<in> set ls"
    "\<forall>\<nu>. list_all (gate_holds \<nu>) gs \<longrightarrow> litval \<nu> res = (litval \<nu> out \<and> list_all (litval \<nu>) ls)"
    using and_chain_client [OF v, of ls out] m out(2) ls by auto
  have b: "(copied p m)\<lparr>maxvar := m + length gs, ands := ands p @ gs\<rparr> = built p m gs [] [None]"
    by (simp add: built_def copied_def blank_def)
  have rhs0: "and_rhs0 g div 2 \<le> m + length gs" if "g \<in> set gs" for g using chain_gate [OF c(4) that] by auto
  have "\<forall>g \<in> set gs. \<forall>l \<in> {and_rhs0 g, and_rhs1 g}. defined_var p (l div 2) \<or> (m < l div 2 \<and> l div 2 \<le> m + length gs)"
    using c(7) ls out(1) rhs0 by auto
  moreover have "defined_var p (res div 2) \<or> m < res div 2" using c(5) out(1) by auto
  ultimately show ?thesis using c(1,4,6,8) c(3) [unfolded b] by blast
qed

end
