(* ===== verification/AigerToolsEffect.thy ===== *)
theory AigerToolsEffect
  imports AigerToolsCorrect
begin

text \<open>
  The functional correctness of \<open>aigand\<close>, \<open>aigor\<close>, \<open>aigflip\<close> and \<open>aigselect\<close>, and the interface
  \<open>tool\<close> of the programs that read a structure, build another one and write it.
\<close>

section \<open>What the tools build\<close>

lemmas plain_dec = plain_name_def dec_plain

lemma copied_start:
  assumes "portable p"
  obtains v m where "copy_model p aiger_init = Some v" "client v (copied p m)" "m \<le> maxvar p"
  using copy_model_client [of p] portableD(2,5) [OF assms] by blast

lemma entry_new: "plain_name n \<Longrightarrow> plain_symbol (new_symbol l (Some n)) \<and> entry_ok (new_symbol l (Some n))"
proof -
  assume n: "plain_name n"
  have "c_string n = n" using n unfolding c_string_def plain_name_def by (auto simp: takeWhile_eq_all_conv)
  with n show ?thesis
    by (simp add: new_symbol_def plain_symbol_def entry_ok_def aiger_copy_str_def symbol0_def plain_name_def)
qed

text \<open>A tool without new gates or outputs, and one that combines its literals into one output.\<close>

lemma builds_plain:
  assumes p: "portable p" and v: "client v (copied p m)" and c: "plain_name c1" "plain_name c2" and f: "outputs p = []" "f [] = []"
  shows "\<exists>w. add_comments c1 c2 v = Some w \<and> portable w \<and> behaviours w = (\<lambda>b t. only f (b t)) ` behaviours p"
proof -
  obtain w where w: "add_comments c1 c2 v = Some w" "client w (built p m [] [] (comments2 c1 c2))"
    using add_comments_client [OF v [unfolded copied_built] c] by blast
  have "portable w \<and> behaviours w = (\<lambda>b t. only f (b t)) ` behaviours p"
    by (rule tool_built [OF p v w(2) _ _ _ _ _ c]) (use f in \<open>simp_all add: observe_built [OF w(2), where f = f]\<close>)
  with w(1) show ?thesis by blast
qed

lemma builds_chain:
  assumes p: "portable p" and v: "client v (copied p m)" and m: "m + length ls < 2147483648"
    and c: "plain_name c1" "plain_name c2" and n: "plain_name n"
    and l: "\<forall>l \<in> set (out # ls). \<exists>y \<in> set (outputs p). l div 2 = sym_lit y div 2" and post: "\<And>l. post l div 2 = l div 2"
    and f: "\<And>\<nu> res. litval \<nu> res = (litval \<nu> out \<and> list_all (litval \<nu>) ls) \<Longrightarrow>
      [litval \<nu> (post res)] = f (map (litval \<nu> \<circ> sym_lit) (outputs p))"
  shows "\<exists>res u w. and_chain out ls v = Some (res, u) \<and> add_comments c1 c2 (aiger_add_output u (post res) (Some n)) = Some w \<and>
     portable w \<and> behaviours w = (\<lambda>b t. only f (b t)) ` behaviours p"
proof -
  have le: "\<forall>l \<in> set (out # ls). defined_var p (l div 2) \<and> l div 2 \<le> m" using defined_le [OF v p] l by metis
  then have le: "\<forall>l \<in> set ls. defined_var p (l div 2) \<and> l div 2 \<le> m" "defined_var p (out div 2)" "out div 2 \<le> m" by simp_all
  from chain_built [OF p v m le(2,3,1)] obtain u res gs where
    u: "and_chain out ls v = Some (res, u)" "client u (built p m gs [] [None])"
      "chain m gs" "\<forall>g \<in> set gs. \<forall>l \<in> {and_rhs0 g, and_rhs1 g}. defined_var p (l div 2) \<or> (m < l div 2 \<and> l div 2 \<le> m + length gs)"
      "defined_var p (res div 2) \<or> m < res div 2" "res div 2 \<le> m + length gs"
    and val: "\<And>\<nu>. list_all (gate_holds \<nu>) gs \<Longrightarrow> litval \<nu> res = (litval \<nu> out \<and> list_all (litval \<nu>) ls)"
    by blast
  let ?y = "new_symbol (post res) (Some n)"
  have o: "client (aiger_add_output u (post res) (Some n)) (built p m gs [?y] [None])"
    using add_outputs [OF u(2), of "post res"] u(6) post by simp
  obtain w where w: "add_comments c1 c2 (aiger_add_output u (post res) (Some n)) = Some w"
    "client w (built p m gs [?y] (comments2 c1 c2))" using add_comments_client [OF o c] by blast
  have y: "plain_symbol ?y \<and> entry_ok ?y" "sym_lit ?y = post res"
    by (rule entry_new [OF n]) (simp add: new_symbol_def)
  have "observe w \<nu> = only f (observe p \<nu>)" if "models w \<nu>" for \<nu>
  proof (rule observe_built [OF w(2)])
    have "list_all (gate_holds \<nu>) gs" using that clientD(13) [OF w(2)] by (simp add: models_def)
    from f [OF val [OF this]] y(2) show "map (litval \<nu> \<circ> sym_lit) [?y] = f (map (litval \<nu> \<circ> sym_lit) (outputs p))" by simp
  qed
  then have "portable w \<and> behaviours w = (\<lambda>b t. only f (b t)) ` behaviours p"
    by (intro tool_built [OF p v w(2) u(3,4) _ _ _ c]) (use u(5,6) y post in simp_all)
  with w(1) u(1) show ?thesis by blast
qed

lemma aigand_builds:
  assumes p: "portable p" and m: "maxvar p + length (outputs p) < 2147483648"
  shows "\<exists>u. aigand_build p = Some u \<and> portable u \<and> behaviours u = (\<lambda>b t. only all_outputs (b t)) ` behaviours p"
proof -
  obtain v m where v: "copy_model p aiger_init = Some v" "client v (copied p m)" "m \<le> maxvar p" using p by (rule copied_start)
  have c: "plain_name ''aigand''" "plain_name (sprintf ''conjunction of %u original outputs'' [FmtU n])" for n
    by (simp_all add: plain_dec)
  show ?thesis
  proof (cases "outputs p")
    case Nil
    from builds_plain [OF p v(2) c this, of all_outputs] v(1) Nil show ?thesis by (auto simp: aigand_build_def)
  next
    case (Cons y ys)
    have "\<exists>res u w. and_chain (sym_lit y) (map sym_lit ys) v = Some (res, u) \<and>
        add_comments ''aigand'' (sprintf ''conjunction of %u original outputs'' [FmtU (length (outputs p))])
          (aiger_add_output u res (Some ''AIGER_AND'')) = Some w \<and>
        portable w \<and> behaviours w = (\<lambda>b t. only all_outputs (b t)) ` behaviours p"
      by (rule builds_chain [OF p v(2) _ c, where post = "\<lambda>l. l"])
        (use v(3) assms(2) Cons in \<open>auto simp: plain_name_def list_all_iff\<close>)
    with v(1) Cons show ?thesis by (auto simp: aigand_build_def)
  qed
qed

lemma aigor_builds:
  assumes p: "portable p" and m: "maxvar p + length (outputs p) < 2147483648"
  shows "\<exists>u. aigor_build p = Some u \<and> portable u \<and> behaviours u = (\<lambda>b t. only or_outputs (b t)) ` behaviours p"
proof -
  obtain v m where v: "copy_model p aiger_init = Some v" "client v (copied p m)" "m \<le> maxvar p" using p by (rule copied_start)
  have c: "plain_name ''aigor''" "plain_name (sprintf ''disjunction of %u original outputs'' [FmtU n])" for n
    by (simp_all add: plain_dec)
  show ?thesis
  proof (cases "outputs p")
    case Nil
    from builds_plain [OF p v(2) c this, of or_outputs] v(1) Nil show ?thesis by (auto simp: aigor_build_def)
  next
    case (Cons y ys)
    have "\<exists>res u w. and_chain (sym_lit y) (map aiger_not (map sym_lit ys)) v = Some (res, u) \<and>
        add_comments ''aigor'' (sprintf ''disjunction of %u original outputs'' [FmtU (length (outputs p))])
          (aiger_add_output u (aiger_not res) (Some ''AIGER_OR'')) = Some w \<and>
        portable w \<and> behaviours w = (\<lambda>b t. only or_outputs (b t)) ` behaviours p"
      by (rule builds_chain [OF p v(2) _ c, where post = aiger_not])
        (use v(3) assms(2) Cons in \<open>auto simp: plain_name_def list_all_iff list_ex_iff\<close>)
    with v(1) Cons show ?thesis by (auto simp: aigor_build_def)
  qed
qed

text \<open>Outputs over the copied variables, one for each of a list of literals and names.\<close>

lemma add_all:
  assumes v: "client v (copied p m)" and p: "portable p" and f: "\<And>y. y \<in> set (outputs p) \<Longrightarrow> lit y div 2 = sym_lit y div 2"
    and ys: "set ys \<subseteq> set (outputs p)"
  shows "\<exists>u. foldm (\<lambda>y d. Some (aiger_add_output d (lit y) (nam y))) ys v = Some u \<and>
     client u (built p m [] (map (\<lambda>y. new_symbol (lit y) (nam y)) ys) [None])"
proof (rule foldm_list)
  show "client v (built p m [] (map (\<lambda>y. new_symbol (lit y) (nam y)) []) [None])" using v copied_built by simp
next
  fix i d assume i: "i < length ys" and d: "client d (built p m [] (map (\<lambda>y. new_symbol (lit y) (nam y)) (take i ys)) [None])"
  have y: "ys ! i \<in> set (outputs p)" using i ys by auto
  from add_outputs [OF d, of "lit (ys ! i)" "nam (ys ! i)"] defined_le(1) [OF v p y] f [OF y]
  show "\<exists>t. Some (aiger_add_output d (lit (ys ! i)) (nam (ys ! i))) = Some t \<and>
      client t (built p m [] (map (\<lambda>y. new_symbol (lit y) (nam y)) (take i ys @ [ys ! i])) [None])" by simp
qed

lemma entry_of_name: "(case n of None \<Rightarrow> True | Some s \<Rightarrow> plain_name s) \<Longrightarrow> plain_symbol (new_symbol l n) \<and> entry_ok (new_symbol l n)"
  using entry_new by (cases n) (simp_all add: new_symbol_def plain_symbol_def entry_ok_def aiger_copy_str_def symbol0_def)

lemma new_symbol_lit [simp]: "sym_lit (new_symbol l n) = l"
  by (simp add: new_symbol_def)

lemma builds_outputs:
  assumes p: "portable p" and v: "client v (copied p m)" and c: "plain_name c1" "plain_name c2"
    and ys: "set ys \<subseteq> set (outputs p)" "length ys \<le> length (outputs p)"
    and lit: "\<And>y. y \<in> set (outputs p) \<Longrightarrow> lit y div 2 = sym_lit y div 2"
    and nam: "\<And>y. y \<in> set (outputs p) \<Longrightarrow> (case nam y of None \<Rightarrow> True | Some s \<Rightarrow> plain_name s)"
    and f: "\<And>\<nu>. map (litval \<nu> \<circ> lit) ys = f (map (litval \<nu> \<circ> sym_lit) (outputs p))"
  shows "\<exists>u w. foldm (\<lambda>y d. Some (aiger_add_output d (lit y) (nam y))) ys v = Some u \<and> add_comments c1 c2 u = Some w \<and>
     portable w \<and> behaviours w = (\<lambda>b t. only f (b t)) ` behaviours p"
proof -
  let ?new = "\<lambda>y. new_symbol (lit y) (nam y)"
  obtain u where u: "foldm (\<lambda>y d. Some (aiger_add_output d (lit y) (nam y))) ys v = Some u" "client u (built p m [] (map ?new ys) [None])"
    using add_all [OF v p lit ys(1)] by blast
  obtain w where w: "add_comments c1 c2 u = Some w" "client w (built p m [] (map ?new ys) (comments2 c1 c2))"
    using add_comments_client [OF u(2) c] by blast
  have "observe w \<nu> = only f (observe p \<nu>)" for \<nu>
    by (rule observe_built [OF w(2)]) (simp add: f [symmetric])
  moreover have "\<forall>z \<in> set (map ?new ys). defined_var p (sym_lit z div 2) \<or> (m < sym_lit z div 2 \<and> sym_lit z div 2 \<le> m + length [])"
    using ys(1) lit defined_le(2) [OF v p] by auto
  moreover have "\<forall>z \<in> set (map ?new ys). plain_symbol z \<and> entry_ok z" using ys(1) nam entry_of_name by auto
  moreover have "length (map ?new ys) < 4294967296" using ys(2) portableD(4) [OF p] by (simp add: small_counts_def)
  ultimately have "portable w \<and> behaviours w = (\<lambda>b t. only f (b t)) ` behaviours p"
    by (intro tool_built [OF p v w(2) _ _ _ _ _ c]) simp_all
  with u(1) w(1) show ?thesis by blast
qed

lemma entry_named: "portable p \<Longrightarrow> y \<in> set (outputs p) \<Longrightarrow> (case sym_name y of None \<Rightarrow> True | Some s \<Rightarrow> plain_name s)"
  using portableD(3) [of p] by (auto simp: named_def all_symbols_def entry_ok_def split: option.split)

lemma aigflip_builds:
  assumes p: "portable p"
  shows "\<exists>u. aigflip_build p = Some u \<and> portable u \<and> behaviours u = (\<lambda>b t. only (map Not) (b t)) ` behaviours p"
proof -
  obtain v m where v: "copy_model p aiger_init = Some v" "client v (copied p m)" using p by (rule copied_start)
  let ?nam = "\<lambda>y. map_option (\<lambda>name. sprintf ''AIGFLIP_%s'' [FmtS name]) (sym_name y)"
  have "\<exists>u w. foldm (\<lambda>y d. Some (aiger_add_output d (aiger_not (sym_lit y)) (?nam y))) (outputs p) v = Some u \<and>
      add_comments ''aigflip'' ''flipped/negated all original outputs'' u = Some w \<and>
      portable w \<and> behaviours w = (\<lambda>b t. only (map Not) (b t)) ` behaviours p"
  proof (rule builds_outputs [OF p v(2)])
    show "case ?nam y of None \<Rightarrow> True | Some s \<Rightarrow> plain_name s" if "y \<in> set (outputs p)" for y
      using entry_named [OF p that] by (cases "sym_name y") (simp_all add: plain_name_def)
  qed (simp_all add: plain_name_def)
  with v(1) show ?thesis by (auto simp: aigflip_build_def flip_output_def [abs_def])
qed

lemma aigselect_builds:
  assumes p: "portable p" and n: "n < length (outputs p)"
  shows "\<exists>u. aigselect_build n p = Some u \<and> portable u \<and> behaviours u = (\<lambda>b t. only (\<lambda>os. [os ! n]) (b t)) ` behaviours p"
proof -
  obtain v m where v: "copy_model p aiger_init = Some v" "client v (copied p m)" using p by (rule copied_start)
  let ?y = "outputs p ! n"
  let ?c = "sprintf ''selected output index %u of %u original outputs'' [FmtU n, FmtU (length (outputs p))]"
  have c: "plain_name ''aigselect''" "plain_name ?c" by (simp_all add: plain_dec)
  have "\<exists>u w. foldm (\<lambda>y d. Some (aiger_add_output d (sym_lit y) (sym_name y))) [?y] v = Some u \<and>
      add_comments ''aigselect'' ?c u = Some w \<and>
      portable w \<and> behaviours w = (\<lambda>b t. only (\<lambda>os. [os ! n]) (b t)) ` behaviours p"
    by (rule builds_outputs [OF p v(2) c]) (use n entry_named [OF p] in auto)
  with v(1) n show ?thesis by (auto simp: aigselect_build_def deref_def)
qed

section \<open>The complete programs\<close>

text \<open>A structure read from the text of a portable one is portable, and behaves the same.\<close>

lemma portable_cong:
  assumes p: "portable p" and q: "wf_aiger q" "clean_marks q" "error q = None" "aiger.truncate q = aiger.truncate p"
  shows "portable q" "behaviours q = behaviours p"
proof -
  have e: "maxvar q = maxvar p" "inputs q = inputs p" "latches q = latches p" "outputs q = outputs p" "bad q = bad p"
    "constraints q = constraints p" "justice q = justice p" "fairness q = fairness p" "ands q = ands p" "comments q = comments p"
    using q(4) by (simp_all add: aiger.truncate_def)
  have "all_defined q" using portableD(6) [OF p] by (simp add: all_defined_def defined_var_def e)
  moreover have "acyclic (deps q)" using portableD(7) [OF p] by (simp add: deps_def e)
  ultimately have "checked q" using q by (simp add: checked_def)
  moreover have "shaped q" using portableD(2) [OF p] by (simp add: shaped_def e)
  moreover have "named q" using portableD(3) [OF p] by (simp add: named_def all_symbols_def e)
  moreover have "small_counts q" using portableD(4) [OF p] by (simp add: small_counts_def e)
  ultimately show "portable q" by (simp add: portable_def)
  show "behaviours q = behaviours p" by (simp add: behaviours_def run_def models_def observe_def e)
qed

lemma read_portable:
  assumes p: "portable p"
  shows "\<exists>q. aiger_read_generic aiger_init (ascii_text p @ trailer_text p) = Some q \<and> portable q \<and>
     behaviours q = behaviours p \<and> aiger.truncate q = aiger.truncate p"
proof -
  have t: "mode_trailer aiger_ascii_mode p = trailer_text p"
    by (simp add: mode_trailer_def aiger_ascii_mode_def aiger_stripped_mode_def)
  from ascii_round_trip [OF p, of aiger_ascii_mode] obtain q where
    q: "aiger_read_generic aiger_init (ascii_text p @ trailer_text p) = Some q" "error q = None" "wf_aiger q"
      "clean_marks q" "aiger.truncate q = aiger.truncate p"
    unfolding t by (auto simp: aiger_ascii_mode_def aiger_stripped_mode_def)
  from portable_cong [OF p q(3,4,2,5)] q show ?thesis by blast
qed

text \<open>
  What can be written: a portable structure, or one that renumbering left with a larger type table
  than its variables need, and that is portable without the rest of the table.
\<close>

definition writable :: "aiger_private \<Rightarrow> bool" where
  "writable u \<longleftrightarrow> portable u \<or> (portable (trunc u) \<and> maxvar u < length (types u) \<and> maxvar u < 1073741824)"

lemma trunc_texts [simp]:
  "ascii_text (trunc u) = ascii_text u" "mode_trailer mode (trunc u) = mode_trailer mode u" "trailer_text (trunc u) = trailer_text u"
  by (simp_all add: ascii_text_def header_text_def counts_text_def mode_trailer_def trailer_text_def symbols_text_def)

lemma trunc_behaviours [simp]: "behaviours (trunc u) = behaviours u"
  by (simp add: behaviours_def run_def models_def observe_def)

lemma write_writable:
  assumes u: "writable u" and mode: "mode AND aiger_ascii_mode \<noteq> 0"
  shows "error u = None \<and> (\<exists>q. \<forall>s. aiger_write_generic u mode put s = with_state q (emit put (ascii_text u @ mode_trailer mode u) s))"
proof (cases "portable u")
  case True
  with write_generic_ascii [OF portableD(1) [OF True] mode, of put] portableD(8) show ?thesis by blast
next
  case False
  then have t: "portable (trunc u)" "maxvar u < length (types u)" "maxvar u < 1073741824" using u by (simp_all add: writable_def)
  note d = portableD [OF t(1), unfolded trunc_same trunc_simps]
  have "clean_marks (trunc u)" using d(1) by (simp add: checked_def)
  from assert_check_trunc [OF d(5,8) this d(6,7) t(2,3)] obtain r where
    r: "assert_check u = Some r" "same_core (trunc u) (trunc r)" by blast
  have "wf_aiger (trunc r)" using same_core_wf [OF r(2)] d(5) by simp
  then have "wf_names r" "wf_comments r" by (simp_all add: wf_aiger_def wf_names_def wf_comments_def trunc_same)
  moreover have "mode_trailer mode r = mode_trailer mode u"
    using same_coreD [OF r(2)] by (simp add: mode_trailer_def trailer_text_def symbols_text_def)
  moreover have "ascii_text r = ascii_text u" using ascii_text_cong [OF r(2)] by simp
  moreover have "(if mode AND aiger_ascii_mode \<noteq> 0 then aiger_write_ascii u put s else aiger_write_binary u put s) =
      with_state r (emit put (ascii_text r) s)" for s using mode write_ascii_check [OF r(1)] by simp
  ultimately have "aiger_write_generic u mode put s = with_state r (emit put (ascii_text u @ mode_trailer mode u) s)" for s
    using write_generic_tail [OF _ d(8)] by metis
  then show ?thesis using d(8) by blast
qed

lemma read_writable:
  assumes "writable u"
  shows "\<exists>q. aiger_read_generic aiger_init (ascii_text u @ trailer_text u) = Some q \<and> portable q \<and> behaviours q = behaviours u"
  using assms read_portable [of u] read_portable [of "trunc u"] by (auto simp: writable_def)

lemma reencode_writable:
  assumes p: "portable p" "0 < maxvar p" "maxvar p < 1073741824"
  shows "\<exists>q. aiger_reencode p = Some q \<and> writable q \<and> behaviours q = behaviours p"
proof -
  note d = portableD [OF p(1)]
  obtain q where q: "aiger_reencode p = Some q" "behaviours q = behaviours p" "same_sizes p q" "shaped q" "binary_ready q"
    "map sym_name (all_symbols q) = map sym_name (all_symbols p)" "comments q = comments p" "public_ok q"
    using reencode_ready [OF d(1) p(2,3)] d(2) by blast
  have clean: "clean_marks p" using d(1) by (simp add: checked_def)
  show ?thesis
  proof (cases "reencoded_form p")
    case True
    have "length (inputs p) + length (latches p) + length (ands p) < 2147483647"
      using count_definitions [OF d(5) p(2)] p(3) by simp
    with is_reencoded_eq [of p] True d(8) have "aiger_reencode p = Some p" by (simp add: aiger_reencode_def aiger_error_def)
    with p(1) show ?thesis by (simp add: writable_def)
  next
    case False
    have "reencodable p" using p d by (simp add: reencodable_def)
    from reencode_correct [OF this clean d(8) False] q(1) have
      t: "wf_aiger (trunc q)" "clean_marks (trunc q)" "error q = None" "all_defined q" "acyclic (deps q)"
        "maxvar q < length (types q)" "maxvar q \<le> maxvar p" by auto
    have "small_counts q"
      using sizes_small [OF q(3) d(4)] q(5) t(7) p(3) by (simp add: binary_ready_def)
    moreover have "named q" by (rule named_cong [OF q(6,7) d(3)])
    ultimately have "portable (trunc q)"
      using t q(4) by (simp add: portable_def checked_def trunc_same shaped_def named_def small_counts_def)
    with t p(3) q(1,2) show ?thesis by (simp add: writable_def)
  qed
qed

lemma write_terminal:
  assumes w: "writable w" and tty: "env_isatty env"
  shows "\<exists>x. write_result env None failed w = Some x \<and>
     (if length (ascii_text w @ trailer_text w) \<le> file_room (env_stdout env)
      then \<exists>d f. x = Wrote d f \<and> file_data f = file_data (env_stdout env) @ ascii_text w @ trailer_text w
      else x = Die failed)"
proof -
  have t: "mode_trailer aiger_ascii_mode w = trailer_text w"
    by (simp add: mode_trailer_def aiger_ascii_mode_def aiger_stripped_mode_def)
  have m: "aiger_ascii_mode AND aiger_ascii_mode \<noteq> 0" by (simp add: aiger_ascii_mode_def)
  obtain q where e: "error w = None" and q: "\<And>s. aiger_write_generic w aiger_ascii_mode aiger_default_put s =
      with_state q (emit aiger_default_put (ascii_text w @ trailer_text w) s)"
    using write_writable [OF w m, of aiger_default_put] unfolding t by blast
  have p: "aiger_write_to_file w aiger_ascii_mode (env_stdout env) =
      with_state q (emit aiger_default_put (ascii_text w @ trailer_text w) (env_stdout env))"
    using e by (simp add: aiger_write_to_file_def aiger_error_def q)
  show ?thesis
  proof (cases "length (ascii_text w @ trailer_text w) \<le> file_room (env_stdout env)")
    case True
    with file_sink.emit_accepted [where s = "env_stdout env" and cs = "ascii_text w @ trailer_text w"] tty p show ?thesis
      by (auto simp: write_result_def)
  next
    case False
    with file_sink.emit_rejected [where s = "env_stdout env" and cs = "ascii_text w @ trailer_text w"] tty p show ?thesis
      by (auto simp: write_result_def)
  qed
qed

text \<open>
  A tool: what it refuses, what it builds, the inputs it supports, and its effect on the
  behaviours of its input. All but what it builds only depends on the public part of its input.
\<close>

locale tool =
  fixes refuse :: "aiger_private \<Rightarrow> string option"
    and build :: "aiger_private \<Rightarrow> aiger_private option"
    and supported :: "aiger_private \<Rightarrow> bool"
    and effect :: "aiger_private \<Rightarrow> (nat \<Rightarrow> observation) \<Rightarrow> nat \<Rightarrow> observation"
  assumes builds: "portable p \<Longrightarrow> refuse p = None \<Longrightarrow> supported p \<Longrightarrow>
      \<exists>u. build p = Some u \<and> writable u \<and> behaviours u = effect p ` behaviours p"
    and same_refuse: "aiger.truncate q = aiger.truncate p \<Longrightarrow> refuse q = refuse p"
    and same_support: "aiger.truncate q = aiger.truncate p \<Longrightarrow> supported q = supported p"
    and same_effect: "aiger.truncate q = aiger.truncate p \<Longrightarrow> effect q = effect p"
begin

text \<open>
  The program between standard input and a terminal: it writes, when there is room, the text of a
  structure with the effect's behaviours, which can be read again.
\<close>

lemma filter_text:
  assumes p: "portable p" "refuse p = None" "supported p" and env: "env_stdin env = ascii_text p @ trailer_text p" "env_isatty env"
  shows "\<exists>w x. run_tool env None None refuse build failed = Some x \<and>
     (if length (ascii_text w @ trailer_text w) \<le> file_room (env_stdout env)
      then \<exists>d f. x = Wrote d f \<and> file_data f = file_data (env_stdout env) @ ascii_text w @ trailer_text w
      else x = Die failed) \<and>
     (\<exists>q. aiger_read_generic aiger_init (ascii_text w @ trailer_text w) = Some q \<and> portable q \<and>
        behaviours q = effect p ` behaviours p)"
proof -
  obtain s where s: "aiger_read_generic aiger_init (ascii_text p @ trailer_text p) = Some s" "portable s"
    "behaviours s = behaviours p" "aiger.truncate s = aiger.truncate p" using read_portable [OF p(1)] by blast
  obtain w where w: "build s = Some w" "writable w" "behaviours w = effect p ` behaviours p"
    using builds [OF s(2)] same_refuse [OF s(4)] same_support [OF s(4)] same_effect [OF s(4)] p(2,3) s(3) by auto
  obtain x where x: "write_result env None failed w = Some x"
    "if length (ascii_text w @ trailer_text w) \<le> file_room (env_stdout env)
      then \<exists>d f. x = Wrote d f \<and> file_data f = file_data (env_stdout env) @ ascii_text w @ trailer_text w
      else x = Die failed" using write_terminal [OF w(2) env(2)] by blast
  have "read_source env None = Some s" using s(1) env(1) by (simp add: read_source_def aiger_read_from_file_def aiger_error_def)
  then have "run_tool env None None refuse build failed = Some x"
    using w(1) x(1) portableD(8) [OF s(2)] same_refuse [OF s(4)] p(2) by (simp add: run_tool_def aiger_error_def)
  moreover obtain q where "aiger_read_generic aiger_init (ascii_text w @ trailer_text w) = Some q" "portable q"
    "behaviours q = behaviours w" using read_writable [OF w(2)] by blast
  ultimately show ?thesis using x(2) w(3) by blast
qed

text \<open>Refused inputs end the program with the message, whatever the output is.\<close>

lemma refused:
  assumes p: "portable p" "refuse p = Some msg" and env: "env_stdin env = ascii_text p @ trailer_text p"
  shows "run_tool env None output refuse build failed = Some (Die msg)"
proof -
  obtain s where s: "aiger_read_generic aiger_init (ascii_text p @ trailer_text p) = Some s" "portable s"
    "aiger.truncate s = aiger.truncate p" using read_portable [OF p(1)] by blast
  have "read_source env None = Some s" using s(1) env by (simp add: read_source_def aiger_read_from_file_def aiger_error_def)
  then show ?thesis using portableD(8) [OF s(2)] same_refuse [OF s(3)] p(2) by (simp add: run_tool_def aiger_error_def)
qed

end

lemma same_public:
  assumes "aiger.truncate q = aiger.truncate p"
  shows "maxvar q = maxvar p" "outputs q = outputs p" "bad q = bad p" "constraints q = constraints p"
    "justice q = justice p" "fairness q = fairness p"
  using assms by (simp_all add: aiger.truncate_def)

definition room_for_gates :: "aiger_private \<Rightarrow> bool" where
  "room_for_gates p \<longleftrightarrow> maxvar p + length (outputs p) < 2147483648"

lemma same_only_outputs: "aiger.truncate q = aiger.truncate p \<Longrightarrow> only_outputs q = only_outputs p"
  unfolding only_outputs_def by (simp add: aiger.truncate_def)

lemma same_room: "aiger.truncate q = aiger.truncate p \<Longrightarrow> room_for_gates q = room_for_gates p"
  by (frule same_public(1), drule same_public(2)) (simp add: room_for_gates_def)

lemma same_select: "aiger.truncate q = aiger.truncate p \<Longrightarrow> aigselect_refuse n input q = aigselect_refuse n input p"
  by (drule same_public(2)) (simp add: aigselect_refuse_def)

lemma not_refused: "aigselect_refuse n input p = None \<Longrightarrow> n < length (outputs p)"
  by (auto simp: aigselect_refuse_def split: if_splits)

lemma portable_writable: "\<exists>u. b = Some u \<and> portable u \<and> P u \<Longrightarrow> \<exists>u. b = Some u \<and> writable u \<and> P u"
  by (auto simp: writable_def)

interpretation and_tool: tool only_outputs aigand_build room_for_gates "\<lambda>p b t. only all_outputs (b t)"
  by unfold_locales (rule portable_writable, erule aigand_builds [folded room_for_gates_def], assumption, erule same_only_outputs, erule same_room, rule refl)

interpretation or_tool: tool "\<lambda>src. None" aigor_build room_for_gates "\<lambda>p b t. only or_outputs (b t)"
  by unfold_locales (rule portable_writable, erule aigor_builds [folded room_for_gates_def], assumption, rule refl, erule same_room, rule refl)

interpretation flip_tool: tool only_outputs aigflip_build "\<lambda>p. True" "\<lambda>p b t. only (map Not) (b t)"
  by unfold_locales (rule portable_writable, erule aigflip_builds, erule same_only_outputs, rule refl, rule refl)

interpretation select_tool: tool "aigselect_refuse n input" "aigselect_build n" "\<lambda>p. True"
    "\<lambda>p b t. only (\<lambda>os. [os ! n]) (b t)" for n input
  by unfold_locales (rule portable_writable, rule aigselect_builds, assumption, erule not_refused, erule same_select, rule refl, rule refl)

end
