(* ===== verification/AigerContracts.thy ===== *)
theory AigerContracts
  imports AigerReadReset AigerToolsEffect
begin

text \<open>
  Contracts at the edges of the library: which calls of the construction API pass their
  assertions, where error messages and shell commands fit their buffers, when writing to a string
  succeeds, how \<open>aigselect\<close> reads its number, and what \<open>aigor\<close> does to a single output.
\<close>

section \<open>The construction API\<close>

lemma import_undefined:
  assumes wf: "wf_aiger p" and l: "even l" "l < 4294967296"
  shows "undefined_type (types (aiger_import_literal p l) ! (l div 2)) \<longleftrightarrow> l \<notin> set (definitions p)"
proof -
  let ?p = "aiger_import_literal p l"
  have wt: "wf_types ?p" using wf_import [OF wf l(2)] by (simp add: wf_aiger_def)
  have len: "l div 2 < length (types ?p)" by simp
  note k = kind_ok_mem [OF wf_typesD(1) [OF wt] len] kind_ok_mem [OF wf_typesD(2) [OF wt] len]
    kind_ok_mem [OF wf_typesD(3) [OF wt] len]
  show ?thesis using k by (simp add: undefined_type_def definitions_def even_lit [OF l(1)])
qed

lemma add_returns:
  assumes wf: "wf_aiger p" and e: "error p = None" and l: "l < 4294967296"
  shows "aiger_add_input p l n \<noteq> None \<longleftrightarrow> l \<noteq> 0 \<and> even l \<and> l \<notin> set (definitions p)"
    "aiger_add_latch p l x n \<noteq> None \<longleftrightarrow> l \<noteq> 0 \<and> even l \<and> l \<notin> set (definitions p)"
    "aiger_add_and p l a b \<noteq> None \<longleftrightarrow> l \<noteq> 0 \<and> even l \<and> l \<notin> set (definitions p)"
proof -
  have pos: "even l \<Longrightarrow> (1 < l) = (l \<noteq> 0)" by (cases "l = 1") auto
  show "aiger_add_input p l n \<noteq> None \<longleftrightarrow> l \<noteq> 0 \<and> even l \<and> l \<notin> set (definitions p)"
    "aiger_add_latch p l x n \<noteq> None \<longleftrightarrow> l \<noteq> 0 \<and> even l \<and> l \<notin> set (definitions p)"
    "aiger_add_and p l a b \<noteq> None \<longleftrightarrow> l \<noteq> 0 \<and> even l \<and> l \<notin> set (definitions p)"
    using import_undefined [OF wf _ l] pos e
    by (auto simp: aiger_add_input_def aiger_add_latch_def aiger_add_and_def aiger_error_def type_at_def
        undefined_type_def Let_def even_iff_mod_2_eq_zero)
qed

section \<open>Buffers\<close>

lemma error_fits:
  assumes "a < 4294967296" "b < 4294967296" "length s + length t + 33 < 4294967296"
  shows "aiger_error_s p s t = Some q \<Longrightarrow> length (the (error q)) < error_s_len s t"
    "aiger_error_u p s a = Some q \<Longrightarrow> length (the (error q)) < error_u_len s"
    "aiger_error_uu p s a b = Some q \<Longrightarrow> length (the (error q)) < error_uu_len s"
    "aiger_error_us p s a t = Some q \<Longrightarrow> length (the (error q)) < error_us_len s t"
    "aiger_error_usu p s a t b = Some q \<Longrightarrow> length (the (error q)) < error_usu_len s t"
  using assms length_sprintf [of "[FmtS t]" s] length_sprintf [of "[FmtU a]" s] length_sprintf [of "[FmtU a, FmtU b]" s]
    length_sprintf [of "[FmtU a, FmtS t]" s] length_sprintf [of "[FmtU a, FmtS t, FmtU b]" s]
  by (auto simp: aiger_error_defs error_s_len_def error_u_len_def error_uu_len_def error_us_len_def error_usu_len_def
      u32_def split: if_splits)

text \<open>The formats with which \<open>aiger.c\<close> calls the error functions: the conversions fit the arguments.\<close>

lemma source_formats:
  "format_args (''can not read '' @ [CHR 0x27] @ ''%s'' @ [CHR 0x27]) [FmtS t]"
  "list_all (\<lambda>f. format_args f [FmtU a])
     [''output %u undefined'', ''bad %u undefined'', ''constraint %u undefined'', ''fairness %u undefined'',
      ''justice %u undefined'', ''cyclic definition for and gate %u'',
      ''line %u: expected '' @ [CHR 0x27] @ ''a'' @ [CHR 0x27] @ '' as first character'',
      ''line %u: expected '' @ [CHR 0x27] @ ''i'' @ [CHR 0x27] @ '' or '' @ [CHR 0x27] @ ''a'' @ [CHR 0x27] @ '' after '' @
        [CHR 0x27] @ ''a'' @ [CHR 0x27],
      ''line %u: expected '' @ [CHR 0x27] @ ''g'' @ [CHR 0x27] @ '' after '' @ [CHR 0x27] @ ''a[ai]'' @ [CHR 0x27],
      ''line %u: expected '' @ [CHR 0x27] @ '' '' @ [CHR 0x27] @ '' after '' @ [CHR 0x27] @ ''a[ai]g'' @ [CHR 0x27],
      ''line %u: invalid maximal variable index'', ''character %u: unexpected end of file'',
      ''character %u: invalid code'', ''character %u: invalid delta'', ''line %u: new line after comment missing'',
      ''line %u: corrupted symbol table ('' @ [CHR 0x27] @ ''aig'' @ [CHR 0x27] @ '' instead of '' @ [CHR 0x27] @ ''aag'' @
        [CHR 0x27] @ '' header?)'',
      ''line %u: expected '' @ [CHR 0x27] @ ''[cilobcjf]'' @ [CHR 0x27] @ '' or EOF'',
      ''line %u: unexpected invariance constraint symbol entry prefix '' @ [CHR 0x27] @ ''c '' @ [CHR 0x27] @
        '' (comment sections start with '' @ [CHR 0x27] @ ''c<new-line>'' @ [CHR 0x27] @ '' without space)'',
      ''line %u: new line missing'']"
  "list_all (\<lambda>f. format_args f [FmtU a, FmtU b])
     [''next state function %u of latch %u undefined'', ''literal %u in AND %u undefined'',
      ''line %u: literal %u already defined as input'', ''line %u: literal %u already defined as latch'',
      ''line %u: literal %u already defined as AND'', ''line %u: literal %u is not a valid input'',
      ''line %u: literal %u is not a valid latch'', ''line %u: literal %u is not a valid literal'',
      ''line %u: literal %u is not a valid output'', ''line %u: literal %u is not valid bad'',
      ''line %u: literal %u is not a valid constraint'', ''line %u: literal %u is not valid fairness'',
      ''line %u: literal %u is not a valid LHS of AND'']"
  "format_args ''line %u: expected %s'' [FmtU a, FmtS t]"
  "list_all (\<lambda>f. format_args f [FmtU a, FmtS t, FmtU b])
     [''line %u: expected space after %s %u'', ''line %u: expected new line after %s %u'',
      ''line %u: expected space or new line after %s %u'', ''line %u: %s symbol table entry position %u too large'',
      ''line %u: %s literal %u has multiple symbols'']"
  by simp_all

text \<open>The commands of \<open>popen\<close>: a file name of 104 characters is too long.\<close>

lemma char_size: "(0 \<le> char_int (char_of n) \<and> int k < char_int (char_of n)) \<longleftrightarrow> n mod 256 < 128 \<and> k < n mod 256"
proof -
  have nat: "(of_char (char_of n) :: nat) = n mod 256" by (simp add: of_char_of)
  moreover have "(of_char (char_of n) :: int) = int (n mod 256)" using nat by (metis of_nat_of_char)
  moreover have "n mod 256 < 256" by simp
  ultimately show ?thesis unfolding char_int_def by auto
qed

lemma command_fits: "(n mod 256 < 128 \<and> n - 2 < n mod 256) \<longleftrightarrow> n < (128 :: nat)" if "2 \<le> n"
proof (cases "n < 256")
  case True
  with that show ?thesis by auto
next
  case False
  then have "n mod 256 = (n - 256) mod 256" by (simp add: le_mod_geq)
  then have "n mod 256 \<le> n - 256" by simp
  with False have "\<not> n - 2 < n mod 256" "\<not> n < 128" by linarith+
  then show ?thesis by blast
qed

lemma shell_commands:
  "shell_command GZIP name = (if length name < 104 then Some (''gzip -c > '' @ name @ '' 2>/dev/null'') else None)"
  "shell_command GUNZIP name = (if length name < 104 then Some (''gunzip -c '' @ name @ '' 2>/dev/null'') else None)"
proof -
  let ?c = "char_int (char_of (length name + 24))"
  have fits: "(0 \<le> ?c \<and> int (length name) + 22 < ?c) \<longleftrightarrow> length name < 104"
    using char_size [of "length name + 24" "length name + 22"] command_fits [of "length name + 24"] by (simp add: add.commute)
  have c: "sprintf GZIP [FmtS name] = ''gzip -c > '' @ name @ '' 2>/dev/null''"
    "sprintf GUNZIP [FmtS name] = ''gunzip -c '' @ name @ '' 2>/dev/null''" by (simp_all add: GZIP_def GUNZIP_def)
  have nested: "(if A then if B then x else y else y) = (if A \<and> B then x else y)" for A B and x y :: "string option" by simp
  have l: "length GZIP = 24" "length GUNZIP = 24" by (simp_all add: GZIP_def GUNZIP_def)
  have s: "(int (length (''gzip -c > '' @ name @ '' 2>/dev/null'')) + 1 \<le> ?c) = (int (length name) + 22 < ?c)"
    "(int (length (''gunzip -c '' @ name @ '' 2>/dev/null'')) + 1 \<le> ?c) = (int (length name) + 22 < ?c)" by auto
  show "shell_command GZIP name = (if length name < 104 then Some (''gzip -c > '' @ name @ '' 2>/dev/null'') else None)"
    unfolding shell_command_def Let_def c l bind_assert_c s unfolding fits [symmetric] by (rule nested)
  show "shell_command GUNZIP name = (if length name < 104 then Some (''gunzip -c '' @ name @ '' 2>/dev/null'') else None)"
    unfolding shell_command_def Let_def c l bind_assert_c s unfolding fits [symmetric] by (rule nested)
qed

section \<open>Files\<close>

lemma read_file_init: "aiger_read_from_file aiger_init input = aiger_read_generic aiger_init input"
  by (simp add: aiger_read_from_file_def aiger_error_def)

lemma write_file_text:
  assumes e: "error p = None"
    and q: "\<And>s. aiger_write_generic p mode aiger_default_put s = with_state q (emit aiger_default_put txt s)"
    and f: "file_data file = []"
  shows "\<exists>ok f. aiger_write_to_file p mode file = Some (ok, q, f) \<and> (ok \<longleftrightarrow> length txt \<le> file_room file) \<and>
     (ok \<longrightarrow> file_data f = txt)"
proof -
  have w: "aiger_write_to_file p mode file = with_state q (emit aiger_default_put txt file)"
    using e by (simp add: aiger_write_to_file_def aiger_error_def q)
  show ?thesis
  proof (cases "length txt \<le> file_room file")
    case True
    with file_sink.emit_accepted [where s = "file" and cs = "txt"] w f show ?thesis by auto
  next
    case False
    with file_sink.emit_rejected [where s = "file" and cs = "txt"] w show ?thesis by auto
  qed
qed

lemma write_file_ascii:
  assumes "portable p" "mode AND aiger_ascii_mode \<noteq> 0" "file_data file = []"
  shows "\<exists>ok q f. aiger_write_to_file p mode file = Some (ok, q, f) \<and>
     (ok \<longleftrightarrow> length (ascii_text p @ mode_trailer mode p) \<le> file_room file) \<and>
     (ok \<longrightarrow> file_data f = ascii_text p @ mode_trailer mode p)"
proof -
  obtain q where "\<And>s. aiger_write_generic p mode aiger_default_put s =
      with_state q (emit aiger_default_put (ascii_text p @ mode_trailer mode p) s)"
    using write_generic_ascii [OF portableD(1) [OF assms(1)] assms(2), of aiger_default_put] by blast
  from write_file_text [OF portableD(8) [OF assms(1)] this assms(3)] show ?thesis by blast
qed

section \<open>Writing to a string\<close>

lemma emit_buffer:
  "buffer_accepts b cs \<Longrightarrow> length (buf_text b) \<le> buf_len b \<Longrightarrow>
     emit aiger_string_put cs b = Some (True, b\<lparr>buf_text := buf_text b @ cs\<rparr>)"
  by (induction cs arbitrary: b) (auto simp: buffer_accepts_def aiger_string_put_def char_int_EOF)

lemma write_string_ascii:
  assumes p: "checked p" and m: "mode AND aiger_ascii_mode \<noteq> 0"
  shows "\<exists>ok q str. aiger_write_to_string p mode len = Some (ok, q, str) \<and>
     (ok \<longleftrightarrow> length (ascii_text p @ mode_trailer mode p) < len \<and> CHR 0xFF \<notin> set (ascii_text p @ mode_trailer mode p)) \<and>
     (ok \<longrightarrow> str = ascii_text p @ mode_trailer mode p @ [CHR 0x00])"
proof -
  let ?t = "ascii_text p @ mode_trailer mode p" and ?b = "\<lparr>buf_text = [], buf_len = len\<rparr>"
  obtain q where q: "\<And>s. aiger_write_generic p mode aiger_string_put s = with_state q (emit aiger_string_put ?t s)"
    using write_generic_ascii [OF p m, of aiger_string_put] by blast
  have e: "aiger_error p = None" using p by (simp add: checked_def aiger_error_def)
  show ?thesis
  proof (cases "buffer_accepts ?b ?t")
    case True
    then have acc: "length ?t \<le> len" "CHR 0xFF \<notin> set ?t" by (simp_all add: buffer_accepts_def)
    have "emit aiger_string_put ?t ?b = Some (True, \<lparr>buf_text = ?t, buf_len = len\<rparr>)" using emit_buffer [OF True] by simp
    then have "aiger_write_to_string p mode len =
        (let (r, b) = aiger_string_put CHR 0x00 \<lparr>buf_text = ?t, buf_len = len\<rparr> in Some (r \<noteq> c_EOF, q, buf_text b))"
      using q e by (simp add: aiger_write_to_string_def)
    with acc show ?thesis by (auto simp: aiger_string_put_def char_int_EOF)
  next
    case False
    with string_sink.emit_rejected [OF False] q e show ?thesis
      by (auto simp: aiger_write_to_string_def buffer_accepts_def)
  qed
qed

section \<open>The number of \<open>aigselect\<close>\<close>

text \<open>The value of a string of digits, without wrap-around.\<close>

definition decimal :: "nat \<Rightarrow> string \<Rightarrow> nat" where
  "decimal = foldl (\<lambda>n c. 10 * n + digit_val c)"

lemma decimal_ge: "n \<le> decimal n s"
proof (induction s arbitrary: n)
  case (Cons c s)
  have "n \<le> 10 * n + digit_val c" by simp
  also have "\<dots> \<le> decimal (10 * n + digit_val c) s" by (rule Cons)
  finally show ?case by (simp add: decimal_def)
qed (simp add: decimal_def)

lemma parse_number_eq:
  "res < 4294967296 \<Longrightarrow> parse_number res s =
     (if list_all isdigit s \<and> decimal res s < 4294967296 then Some (decimal res s) else None)"
proof (induction s arbitrary: res)
  case (Cons c s)
  let ?n = "10 * res + digit_val c"
  have step: "decimal res (c # s) = decimal ?n s" by (simp add: decimal_def)
  show ?case
  proof (cases "isdigit c")
    case True
    have d: "digit_val c < 10" using True by (rule digit_val_less)
    show ?thesis
    proof (cases "?n < 4294967296")
      case True
      then have r: "res \<le> 429496729" "10 * res < 4294967296" by simp_all
      have "\<not> 4294967295 - digit_val c < 10 * res" using True d by linarith
      with \<open>isdigit c\<close> r have "parse_number res (c # s) = parse_number ?n s" by (simp add: Let_def)
      with Cons.IH [OF True] \<open>isdigit c\<close> show ?thesis unfolding step by simp
    next
      case False
      have "parse_number res (c # s) = None"
      proof (cases "res \<le> 429496729")
        case True
        then have "10 * res < 4294967296" by simp
        with False d show ?thesis by (simp add: Let_def) linarith
      qed simp
      moreover have "\<not> decimal ?n s < 4294967296" using False decimal_ge [of ?n s] by linarith
      ultimately show ?thesis unfolding step by simp
    qed
  qed simp
qed (simp add: decimal_def)

text \<open>The arguments that select output \<open>n\<close>: its number, or none for the first output.\<close>

lemma decimal_append: "decimal r (xs @ ys) = decimal (decimal r xs) ys"
  by (simp add: decimal_def)

lemma decimal_dec: "decimal 0 (dec n) = n"
proof (induction n rule: dec.induct)
  case (1 n)
  then show ?case by (subst dec.simps) (auto simp: decimal_append decimal_def)
qed

lemma select_args: "n < 4294967296 \<Longrightarrow> aigselect_args [dec n] None None None = Inr (Some n, None, None)"
proof -
  assume n: "n < 4294967296"
  obtain c s where d: "dec n = c # s" by (cases "dec n") simp_all
  have c: "isdigit c" "list_all isdigit (dec n)" using isdigit_dec [of _ n] by (auto simp: d list_all_iff)
  then have "c \<noteq> CHR ''-''" by (auto simp: isdigit_def)
  moreover have "contains_only_digits (dec n)" using c(2) by (simp add: contains_only_digits_def)
  moreover have "parse_number 0 (dec n) = Some n" using c(2) n parse_number_eq [of 0 "dec n"] by (simp add: decimal_dec)
  ultimately show ?thesis by (simp add: d)
qed

lemma selection_args:
  assumes "n < 4294967296" "argv = [dec n] \<or> (argv = [] \<and> n = 0)"
  shows "\<exists>sel. aigselect_args argv None None None = Inr (sel, None, None) \<and> (case sel of None \<Rightarrow> 0 | Some n \<Rightarrow> n) = n"
  using assms select_args by (cases argv) auto

lemma select_refused:
  assumes p: "portable p" "env_stdin env = ascii_text p @ trailer_text p" and n: "n < 4294967296" "argv = [dec n] \<or> (argv = [] \<and> n = 0)"
    and r: "aigselect_refuse n ''<stdin>'' p = Some msg"
  shows "aigselect_main env argv = Some (Die msg)"
proof -
  obtain sel where "aigselect_args argv None None None = Inr (sel, None, None)" "(case sel of None \<Rightarrow> 0 | Some n \<Rightarrow> n) = n"
    using selection_args [OF n] by blast
  then show ?thesis using select_tool.refused [OF p(1) r p(2)] by (simp add: aigselect_main_def)
qed

lemma select_runs:
  assumes p: "portable p" "env_stdin env = ascii_text p @ trailer_text p" "env_isatty env"
    and n: "n < 4294967296" "argv = [dec n] \<or> (argv = [] \<and> n = 0)" "n < length (outputs p)"
  shows "\<exists>w x. aigselect_main env argv = Some x \<and>
     (if length (ascii_text w @ trailer_text w) \<le> file_room (env_stdout env)
      then \<exists>d f. x = Wrote d f \<and> file_data f = file_data (env_stdout env) @ ascii_text w @ trailer_text w
      else x = Die ''writing failed'') \<and>
     (\<exists>q. aiger_read_generic aiger_init (ascii_text w @ trailer_text w) = Some q \<and> portable q \<and>
        behaviours q = (\<lambda>b t. only (\<lambda>os. [os ! n]) (b t)) ` behaviours p)"
proof -
  obtain sel where s: "aigselect_args argv None None None = Inr (sel, None, None)" "(case sel of None \<Rightarrow> 0 | Some n \<Rightarrow> n) = n"
    using selection_args [OF n(1,2)] by blast
  have "aigselect_refuse n ''<stdin>'' p = None" using n(3) by (auto simp: aigselect_refuse_def)
  from select_tool.filter_text [OF p(1) this TrueI p(2,3), of "''writing failed''"] s show ?thesis by (simp add: aigselect_main_def)
qed

end
