(* ===== verification/AigerFilters.thy ===== *)
theory AigerFilters
  imports AigerToolsEffect
begin

text \<open>
  The tools \<open>aigreset\<close>, \<open>aigmove\<close> and \<open>aigunconstraint\<close>: their arguments, what they refuse, and
  the structure they write.
\<close>

section \<open>aigreset\<close>

text \<open>The settings: the reset to normalise to, and whether uninitialised latches are an error.\<close>

record reset_options =
  opt_reset :: uint
  opt_check :: bool

definition reset_flag :: "string \<Rightarrow> reset_options \<Rightarrow> reset_options option" where
  "reset_flag arg opts =
     (if arg = ''-v'' then Some opts
      else if arg = ''-0'' then Some (opts\<lparr>opt_reset := aiger_false\<rparr>)
      else if arg = ''-1'' then Some (opts\<lparr>opt_reset := aiger_true\<rparr>)
      else if arg = ''-c'' then Some (opts\<lparr>opt_check := True\<rparr>)
      else None)"

definition normlit :: "uint \<Rightarrow> aiger_private \<Rightarrow> uint \<Rightarrow> uint option" where
  "normlit reset model lit = do {
     y \<leftarrow> aiger_is_latch model (aiger_strip lit);
     case y of
       None \<Rightarrow> Some lit
     | Some y \<Rightarrow>
         if sym_reset y = sym_lit y then Some lit
         else if sym_reset y = reset then Some lit
         else do { assert_c (sym_reset y = aiger_not reset); Some (aiger_not lit) }
   }"

text \<open>The uninitialised latch that \<open>-c\<close> complains about.\<close>

fun uninitialized :: "nat \<Rightarrow> aiger_symbol list \<Rightarrow> string option" where
  "uninitialized i [] = None"
| "uninitialized i (y # ys) =
     (if sym_reset y = sym_lit y then Some (sprintf ''latch %u literal %u uninitialized'' [FmtU i, FmtU (sym_lit y)])
      else uninitialized (Suc i) ys)"

definition reset_refuse :: "reset_options \<Rightarrow> aiger_private \<Rightarrow> string option" where
  "reset_refuse opts model = (if opt_check opts then uninitialized 0 (latches model) else None)"

text \<open>The loops of \<open>normalize\<close>, over the next states, the literals, and the resets.\<close>

definition normalize_next :: "uint \<Rightarrow> nat \<Rightarrow> aiger_private \<Rightarrow> aiger_private option" where
  "normalize_next reset i model = do {
     y \<leftarrow> deref (latches model) i;
     if sym_reset y = sym_lit y then Some model
     else if sym_reset y = reset then Some model
     else do {
       next \<leftarrow> normlit reset model (sym_next y);
       Some (model\<lparr>latches := (latches model)[i := y\<lparr>sym_next := aiger_not next\<rparr>]\<rparr>)
     }
   }"

definition normalize_symbol :: "uint \<Rightarrow> aiger_private \<Rightarrow> aiger_symbol \<Rightarrow> aiger_symbol option" where
  "normalize_symbol reset model y = do { l \<leftarrow> normlit reset model (sym_lit y); Some (y\<lparr>sym_lit := l\<rparr>) }"

definition normalize_justice :: "uint \<Rightarrow> aiger_private \<Rightarrow> aiger_symbol \<Rightarrow> aiger_symbol option" where
  "normalize_justice reset model y = do {
     ls \<leftarrow> map_option_list (normlit reset model) (sym_lits y);
     Some (y\<lparr>sym_lits := ls\<rparr>)
   }"

definition normalize_and :: "uint \<Rightarrow> aiger_private \<Rightarrow> aiger_and \<Rightarrow> aiger_and option" where
  "normalize_and reset model g = do {
     rhs0 \<leftarrow> normlit reset model (and_rhs0 g);
     rhs1 \<leftarrow> normlit reset model (and_rhs1 g);
     Some (g\<lparr>and_rhs0 := rhs0, and_rhs1 := rhs1\<rparr>)
   }"

definition normalize_reset :: "uint \<Rightarrow> aiger_symbol \<Rightarrow> aiger_symbol option" where
  "normalize_reset reset y =
     (if sym_reset y = sym_lit y then Some y
      else if sym_reset y = reset then Some y
      else do { assert_c (sym_reset y = aiger_not reset); Some (y\<lparr>sym_reset := reset\<rparr>) })"

definition aigreset_normalize :: "uint \<Rightarrow> aiger_private \<Rightarrow> aiger_private option" where
  "aigreset_normalize reset model = do {
     model \<leftarrow> foldm (normalize_next reset) [0..<length (latches model)] model;
     ys \<leftarrow> map_option_list (normalize_symbol reset model) (outputs model);
     let model = model\<lparr>outputs := ys\<rparr>;
     gs \<leftarrow> map_option_list (normalize_and reset model) (ands model);
     let model = model\<lparr>ands := gs\<rparr>;
     ys \<leftarrow> map_option_list (normalize_symbol reset model) (bad model);
     let model = model\<lparr>bad := ys\<rparr>;
     ys \<leftarrow> map_option_list (normalize_symbol reset model) (constraints model);
     let model = model\<lparr>constraints := ys\<rparr>;
     ys \<leftarrow> map_option_list (normalize_justice reset model) (justice model);
     let model = model\<lparr>justice := ys\<rparr>;
     ys \<leftarrow> map_option_list (normalize_symbol reset model) (fairness model);
     let model = model\<lparr>fairness := ys\<rparr>;
     ys \<leftarrow> map_option_list (normalize_reset reset) (latches model);
     Some (model\<lparr>latches := ys\<rparr>)
   }"

definition aigreset_main :: "tool_env \<Rightarrow> string list \<Rightarrow> tool_exit option" where
  "aigreset_main env argv =
     (case scan_args reset_flag argv \<lparr>opt_reset = aiger_false, opt_check = False\<rparr> None None of
        Inl e \<Rightarrow> Some e
      | Inr (opts, input, output) \<Rightarrow>
          run_tool env input output (reset_refuse opts) (aigreset_normalize (opt_reset opts)) ''write error'')"

section \<open>aigmove\<close>

record move_options =
  opt_ignore :: bool
  opt_reverse :: bool

definition move_flag :: "string \<Rightarrow> move_options \<Rightarrow> move_options option" where
  "move_flag arg opts =
     (if arg = ''-v'' then Some opts
      else if arg = ''-i'' then Some (opts\<lparr>opt_ignore := True\<rparr>)
      else if arg = ''-r'' then Some (opts\<lparr>opt_reverse := True\<rparr>)
      else None)"

definition move_refuse :: "move_options \<Rightarrow> aiger_private \<Rightarrow> string option" where
  "move_refuse opts src =
     (if \<not> opt_ignore opts \<and> justice src \<noteq> [] then
        Some (''will not ignore justice properties (use '' @ [CHR 0x27] @ ''-i'' @ [CHR 0x27] @ '')'')
      else if \<not> opt_ignore opts \<and> fairness src \<noteq> [] then
        Some (''will not ignore fairness properties (use '' @ [CHR 0x27] @ ''-i'' @ [CHR 0x27] @ '')'')
      else if \<not> opt_reverse opts \<and> outputs src \<noteq> [] \<and> bad src = [] \<and> constraints src = [] \<and>
          justice src = [] \<and> fairness src = [] then
        Some (''only outputs founds (use '' @ [CHR 0x27] @ ''-r'' @ [CHR 0x27] @ '' for reverse move)'')
      else None)"

definition copy_output :: "aiger_symbol \<Rightarrow> aiger_private \<Rightarrow> aiger_private option" where
  "copy_output y dst = Some (aiger_add_output dst (sym_lit y) (sym_name y))"

definition move_reverse :: "aiger_symbol \<Rightarrow> aiger_private \<Rightarrow> aiger_private option" where
  "move_reverse y dst = Some (aiger_add_bad dst (sym_lit y) (sym_name y))"

text \<open>\<open>latch + 2*(j+1)\<close>, the gates of the monitor.\<close>

fun move_monitor :: "uint \<Rightarrow> nat \<Rightarrow> uint \<Rightarrow> uint list \<Rightarrow> aiger_private \<Rightarrow> (uint \<times> aiger_private) option" where
  "move_monitor latch j prev [] dst = Some (prev, dst)"
| "move_monitor latch j prev (c # cs) dst = do {
     let tmp = u32 (latch + u32 (2 * (j + 1)));
     dst \<leftarrow> aiger_add_and dst tmp prev c;
     move_monitor latch (Suc j) tmp cs dst
   }"

definition move_valid :: "aiger_private \<Rightarrow> aiger_private \<Rightarrow> (uint \<times> aiger_private) option" where
  "move_valid src dst =
     (if latches src \<noteq> [] then do {
        let latch = next_lit dst;
        let valid = u32 (latch + u32 (2 * length (constraints src)));
        dst \<leftarrow> aiger_add_latch dst latch (aiger_not valid) (Some ''AIGMOVE_INVALID_LATCH'');
        (prev, dst) \<leftarrow> move_monitor latch 0 (aiger_not latch) (map sym_lit (constraints src)) dst;
        assert_c (prev = valid);
        Some (valid, dst)
      }
      else
        (case map sym_lit (constraints src) of
           [] \<Rightarrow> None
         | valid # ls \<Rightarrow> and_chain valid ls dst))"

definition move_guarded :: "uint \<Rightarrow> aiger_symbol \<Rightarrow> aiger_private \<Rightarrow> aiger_private option" where
  "move_guarded valid y dst = do {
     let bad = next_lit dst;
     dst \<leftarrow> aiger_add_and dst bad valid (sym_lit y);
     Some (aiger_add_output dst bad (sym_name y))
   }"

definition aigmove_build :: "move_options \<Rightarrow> aiger_private \<Rightarrow> aiger_private option" where
  "aigmove_build opts src = do {
     dst \<leftarrow> copy_model src aiger_init;
     if opt_reverse opts then foldm move_reverse (outputs src) dst
     else do {
       dst \<leftarrow> foldm copy_output (outputs src) dst;
       if bad src \<noteq> [] \<and> constraints src \<noteq> [] then do {
         (valid, dst) \<leftarrow> move_valid src dst;
         foldm (move_guarded valid) (bad src) dst
       }
       else foldm copy_output (bad src) dst
     }
   }"

definition aigmove_main :: "tool_env \<Rightarrow> string list \<Rightarrow> tool_exit option" where
  "aigmove_main env argv =
     (case scan_args move_flag argv \<lparr>opt_ignore = False, opt_reverse = False\<rparr> None None of
        Inl e \<Rightarrow> Some e
      | Inr (opts, input, output) \<Rightarrow>
          run_tool env input output (move_refuse opts) (aigmove_build opts) ''write error'')"

section \<open>aigunconstraint\<close>

text \<open>The messages print a missing input name as the C library does.\<close>

definition unconstraint_refuse :: "string option \<Rightarrow> aiger_private \<Rightarrow> string option" where
  "unconstraint_refuse input src =
     (let name = (case input of None \<Rightarrow> ''(null)'' | Some name \<Rightarrow> name) in
      if outputs src \<noteq> [] then
        Some (sprintf (''can not handle outputs in '' @ [CHR 0x27] @ ''%s'' @ [CHR 0x27]) [FmtS name])
      else if bad src = [] then
        Some (sprintf (''no bad state properties in '' @ [CHR 0x27] @ ''%s'' @ [CHR 0x27]) [FmtS name])
      else if constraints src = [] then None
      else if justice src \<noteq> [] then
        Some (sprintf (''can not handle justice properties in '' @ [CHR 0x27] @ ''%s'' @ [CHR 0x27]) [FmtS name])
      else None)"

text \<open>The loop that copies latches: the reset is only added when it is not zero.\<close>

definition copy_latch_if :: "aiger_symbol \<Rightarrow> aiger_private \<Rightarrow> aiger_private option" where
  "copy_latch_if s dst = do {
     dst \<leftarrow> aiger_add_latch dst (sym_lit s) (sym_next s) (sym_name s);
     if sym_reset s \<noteq> 0 then aiger_add_reset dst (sym_lit s) (sym_reset s) else Some dst
   }"

text \<open>\<open>newlit\<close> counts variables itself, from the maximal variable at its first call.\<close>

definition newlit :: "uint \<Rightarrow> aiger_private \<Rightarrow> uint \<times> uint" where
  "newlit mv dst = (let mv = (if mv = 0 then maxvar dst else mv); res = u32 (mv + 1) in (u32 (2 * res), res))"

fun unconstraint_valid ::
    "uint list \<Rightarrow> uint \<Rightarrow> uint \<Rightarrow> aiger_private \<Rightarrow> (uint \<times> uint \<times> aiger_private) option" where
  "unconstraint_valid [] valid mv dst = Some (valid, mv, dst)"
| "unconstraint_valid (c # cs) valid mv dst = do {
     let (tmp, mv) = newlit mv dst;
     dst \<leftarrow> aiger_add_and dst tmp valid c;
     unconstraint_valid cs tmp mv dst
   }"

fun unconstraint_bad :: "uint \<Rightarrow> aiger_symbol list \<Rightarrow> uint \<Rightarrow> aiger_private \<Rightarrow> aiger_private option" where
  "unconstraint_bad valid [] mv dst = Some dst"
| "unconstraint_bad valid (y # ys) mv dst = do {
     let (tmp, mv) = newlit mv dst;
     dst \<leftarrow> aiger_add_and dst tmp valid (sym_lit y);
     unconstraint_bad valid ys mv (aiger_add_bad dst tmp (sym_name y))
   }"

definition aigunconstraint_copy :: "aiger_private \<Rightarrow> aiger_private option" where
  "aigunconstraint_copy src = do {
     dst \<leftarrow> foldm copy_input (inputs src) aiger_init;
     dst \<leftarrow> foldm copy_and (ands src) dst;
     dst \<leftarrow> foldm copy_latch_if (latches src) dst;
     let (invalid_state, mv) = newlit 0 dst;
     (valid, mv, dst) \<leftarrow> unconstraint_valid (map sym_lit (constraints src)) (aiger_not invalid_state) mv dst;
     dst \<leftarrow> aiger_add_latch dst invalid_state (aiger_not valid) (Some ''AIGUNCONSTRAINT_INVALID_STATE'');
     unconstraint_bad valid (bad src) mv dst
   }"

definition aigunconstraint_build :: "aiger_private \<Rightarrow> aiger_private option" where
  "aigunconstraint_build src = do {
     dst \<leftarrow> (if constraints src = [] then Some src else aigunconstraint_copy src);
     aiger_reencode dst
   }"

definition aigunconstraint_main :: "tool_env \<Rightarrow> string list \<Rightarrow> tool_exit option" where
  "aigunconstraint_main env argv =
     (case scan_args verbose_flag argv False None None of
        Inl e \<Rightarrow> Some e
      | Inr (verbose, input, output) \<Rightarrow>
          run_tool env input output (unconstraint_refuse input) aigunconstraint_build ''write error'')"

end
