(* ===== verification/AigerMonitor.thy ===== *)
theory AigerMonitor
  imports AigerFilters
begin

text \<open>
  Structures with a copied circuit, a monitor latch and fresh gates: what \<open>aigmove\<close> and
  \<open>aigunconstraint\<close> build, as the client of the API sees it, and how the monitor extends the
  behaviours.
\<close>

section \<open>Rows of gates\<close>

text \<open>Gates over the variables after \<open>k\<close>, each the conjunction of the one before with a literal.\<close>

fun gate_row :: "uint \<Rightarrow> nat \<Rightarrow> uint list \<Rightarrow> aiger_private \<Rightarrow> (uint \<times> aiger_private) option" where
  "gate_row prev k [] d = Some (prev, d)"
| "gate_row prev k (c # cs) d = do {
     d \<leftarrow> aiger_add_and d (2 * Suc k) prev c;
     gate_row (2 * Suc k) (Suc k) cs d
   }"

fun row_gates :: "uint \<Rightarrow> nat \<Rightarrow> uint list \<Rightarrow> aiger_and list" where
  "row_gates prev k [] = []"
| "row_gates prev k (c # cs) = \<lparr>and_lhs = 2 * Suc k, and_rhs0 = prev, and_rhs1 = c\<rparr> # row_gates (2 * Suc k) (Suc k) cs"

definition row_end :: "uint \<Rightarrow> nat \<Rightarrow> uint list \<Rightarrow> uint" where
  "row_end prev k cs = (if cs = [] then prev else 2 * (k + length cs))"

lemma row_end_Cons [simp]: "row_end prev k (c # cs) = row_end (2 * Suc k) (Suc k) cs"
  by (simp add: row_end_def)

lemma length_row [simp]: "length (row_gates prev k cs) = length cs"
  by (induction cs arbitrary: prev k) simp_all

lemma row_chain: "prev div 2 \<le> k \<Longrightarrow> \<forall>c \<in> set cs. c div 2 \<le> k \<Longrightarrow> chain k (row_gates prev k cs)"
  by (induction cs arbitrary: prev k) (simp_all add: le_Suc_eq)

lemma row_rhs:
  "g \<in> set (row_gates prev k cs) \<Longrightarrow>
     (and_rhs0 g = prev \<or> (k < and_rhs0 g div 2 \<and> and_rhs0 g div 2 \<le> k + length cs)) \<and> and_rhs1 g \<in> set cs"
proof (induction cs arbitrary: prev k)
  case (Cons c cs)
  then consider "g = \<lparr>and_lhs = 2 * Suc k, and_rhs0 = prev, and_rhs1 = c\<rparr>" | "g \<in> set (row_gates (2 * Suc k) (Suc k) cs)" by auto
  then show ?case by cases (use Cons.IH [of "2 * Suc k" "Suc k"] in auto)
qed simp

lemma row_value:
  "list_all (gate_holds \<nu>) (row_gates prev k cs) \<Longrightarrow> litval \<nu> (row_end prev k cs) = (litval \<nu> prev \<and> list_all (litval \<nu>) cs)"
proof (induction cs arbitrary: prev k)
  case (Cons c cs)
  have "litval \<nu> (2 * Suc k) = (litval \<nu> prev \<and> litval \<nu> c)" using Cons.prems by (simp add: gate_holds_def litval_def)
  with Cons.IH [of "2 * Suc k" "Suc k"] Cons.prems show ?case by (simp del: mult_Suc_right)
qed (simp add: row_end_def)

definition free_above :: "nat \<Rightarrow> aiger \<Rightarrow> bool" where
  "free_above k B \<longleftrightarrow> (\<forall>v. k < v \<longrightarrow> 2 * v \<notin> public_defs B)"

lemma free_fresh: "free_above k B \<Longrightarrow> k < v \<Longrightarrow> v < 2147483648 \<Longrightarrow> fresh B (2 * v)"
  by (simp add: free_above_def fresh_def)

lemma gate_row_client:
  assumes "client d B" "free_above k B" "k + length cs < 2147483648" "prev div 2 \<le> k" "\<forall>c \<in> set cs. c div 2 \<le> k"
  shows "\<exists>u. gate_row prev k cs d = Some (row_end prev k cs, u) \<and>
     client u (B\<lparr>maxvar := max (maxvar B) (if cs = [] then 0 else k + length cs), ands := ands B @ row_gates prev k cs\<rparr>)"
  using assms
proof (induction cs arbitrary: prev k d B)
  case Nil
  then show ?case by (simp add: row_end_def)
next
  case (Cons c cs)
  let ?l = "2 * Suc k"
  let ?g = "\<lparr>and_lhs = ?l, and_rhs0 = prev, and_rhs1 = c\<rparr>"
  let ?B = "B\<lparr>maxvar := max (maxvar B) (Suc k), ands := ands B @ [?g]\<rparr>"
  have less: "prev < 4294967296" "c < 4294967296" using Cons.prems(3-5) by auto
  have "fresh B ?l" using free_fresh [OF Cons.prems(2)] Cons.prems(3) by (simp del: mult_Suc_right)
  moreover have "(grow [?l, prev, c] B)\<lparr>ands := ands B @ [?g]\<rparr> = ?B"
    using Cons.prems(4,5) by (simp add: grow_def max_def)
  ultimately obtain e where e: "aiger_add_and d ?l prev c = Some e" "client e ?B"
    using client_add_and [OF Cons.prems(1) _ less] by metis
  have f: "free_above (Suc k) ?B" using Cons.prems(2) by (auto simp: free_above_def public_defs_def)
  have m: "Suc k + length cs < 2147483648" "?l div 2 \<le> Suc k" "\<forall>c \<in> set cs. c div 2 \<le> Suc k"
    using Cons.prems(3,5) by (auto intro: le_SucI)
  obtain u where u: "gate_row ?l (Suc k) cs e = Some (row_end ?l (Suc k) cs, u)"
    "client u (?B\<lparr>maxvar := max (maxvar ?B) (if cs = [] then 0 else Suc k + length cs), ands := ands ?B @ row_gates ?l (Suc k) cs\<rparr>)"
    using Cons.IH [OF e(2) f m] by blast
  have *: "max (maxvar ?B) (if cs = [] then 0 else Suc k + length cs) = max (maxvar B) (k + length (c # cs))" by auto
  show ?case using u(2) e(1) u(1) unfolding * by (simp del: mult_Suc_right)
qed

section \<open>Guarded literals\<close>

text \<open>
  A list of the structure to which literals are added, in the library's calls and in the public
  part.
\<close>

locale literal_list =
  fixes add :: "aiger_private \<Rightarrow> uint \<Rightarrow> string option \<Rightarrow> aiger_private"
    and app :: "aiger_symbol list \<Rightarrow> aiger \<Rightarrow> aiger"
  assumes add_client: "client d B \<Longrightarrow> l < 4294967296 \<Longrightarrow> client (add d l n) (app [new_symbol l n] (grow [l] B))"
    and app_nil: "app [] B = B"
    and app_app: "app zs (app ys B) = app (ys @ zs) B"
    and app_maxvar: "app ys (B\<lparr>maxvar := m\<rparr>) = (app ys B)\<lparr>maxvar := m\<rparr>" "maxvar (app ys B) = maxvar B"
    and app_ands: "app ys (B\<lparr>ands := gs\<rparr>) = (app ys B)\<lparr>ands := gs\<rparr>" "ands (app ys B) = ands B"
    and app_defs: "public_defs (app ys B) = public_defs B"
begin

lemma add_below:
  assumes "client d B" "l div 2 \<le> maxvar B"
  shows "client (add d l n) (app [new_symbol l n] B)"
proof -
  have "maxvar B < 2147483648" using clientD(1,5) [OF assms(1)] by (simp add: wf_aiger_def wf_lits_def)
  then have "l < 4294967296" using assms(2) by linarith
  moreover have "grow [l] B = B" using assms(2) by (simp add: grow_def)
  ultimately show ?thesis using add_client [OF assms(1)] by metis
qed

lemma copies:
  assumes "client d B" "\<forall>y \<in> set ys. sym_lit y div 2 \<le> maxvar B"
  shows "\<exists>u. foldm (\<lambda>y d. Some (add d (sym_lit y) (sym_name y))) ys d = Some u \<and>
     client u (app (map (\<lambda>y. new_symbol (sym_lit y) (sym_name y)) ys) B)"
  using assms
proof (induction ys arbitrary: d B)
  case Nil
  then show ?case by (simp add: app_nil)
next
  case (Cons y ys)
  have c: "client (add d (sym_lit y) (sym_name y)) (app [new_symbol (sym_lit y) (sym_name y)] B)"
    by (rule add_below) (use Cons.prems in simp_all)
  have m: "\<forall>z \<in> set ys. sym_lit z div 2 \<le> maxvar (app [new_symbol (sym_lit y) (sym_name y)] B)"
    using Cons.prems(2) by (simp add: app_maxvar)
  show ?case using Cons.IH [OF c m] by (simp add: app_app)
qed

end

text \<open>Each literal gets a gate with the guard, and the gate is added.\<close>

fun guard_row ::
    "(aiger_private \<Rightarrow> uint \<Rightarrow> string option \<Rightarrow> aiger_private) \<Rightarrow> uint \<Rightarrow> nat \<Rightarrow> aiger_symbol list \<Rightarrow>
       aiger_private \<Rightarrow> aiger_private option" where
  "guard_row add valid k [] d = Some d"
| "guard_row add valid k (y # ys) d = do {
     d \<leftarrow> aiger_add_and d (2 * Suc k) valid (sym_lit y);
     guard_row add valid (Suc k) ys (add d (2 * Suc k) (sym_name y))
   }"

fun guard_gates :: "uint \<Rightarrow> nat \<Rightarrow> aiger_symbol list \<Rightarrow> aiger_and list" where
  "guard_gates valid k [] = []"
| "guard_gates valid k (y # ys) =
     \<lparr>and_lhs = 2 * Suc k, and_rhs0 = valid, and_rhs1 = sym_lit y\<rparr> # guard_gates valid (Suc k) ys"

fun guard_symbols :: "nat \<Rightarrow> aiger_symbol list \<Rightarrow> aiger_symbol list" where
  "guard_symbols k [] = []"
| "guard_symbols k (y # ys) = new_symbol (2 * Suc k) (sym_name y) # guard_symbols (Suc k) ys"

lemma guard_length [simp]: "length (guard_gates valid k ys) = length ys" "length (guard_symbols k ys) = length ys"
  by (induction ys arbitrary: k) simp_all

lemma guard_chain: "valid div 2 \<le> k \<Longrightarrow> \<forall>y \<in> set ys. sym_lit y div 2 \<le> k \<Longrightarrow> chain k (guard_gates valid k ys)"
  by (induction ys arbitrary: k) (simp_all add: le_Suc_eq)

lemma guard_rhs: "g \<in> set (guard_gates valid k ys) \<Longrightarrow> and_rhs0 g = valid \<and> and_rhs1 g \<in> sym_lit ` set ys"
  by (induction ys arbitrary: k) auto

lemma guard_symbol:
  "z \<in> set (guard_symbols k ys) \<Longrightarrow> k < sym_lit z div 2 \<and> sym_lit z div 2 \<le> k + length ys \<and> (\<exists>y \<in> set ys. z = new_symbol (sym_lit z) (sym_name y))"
proof (induction ys arbitrary: k)
  case (Cons y ys)
  then consider "z = new_symbol (2 * Suc k) (sym_name y)" | "z \<in> set (guard_symbols (Suc k) ys)" by auto
  then show ?case by cases (use Cons.IH [of "Suc k"] in \<open>auto simp: new_symbol_def\<close>)
qed simp

lemma guard_values:
  "list_all (gate_holds \<nu>) (guard_gates valid k ys) \<Longrightarrow>
     map (litval \<nu> \<circ> sym_lit) (guard_symbols k ys) = map (\<lambda>y. litval \<nu> valid \<and> litval \<nu> (sym_lit y)) ys"
  by (induction ys arbitrary: k) (simp_all add: gate_holds_def litval_def new_symbol_def)

context literal_list
begin

lemma guards:
  assumes "client d B" "maxvar B = k" "k + length ys < 2147483648" "valid div 2 \<le> k" "\<forall>y \<in> set ys. sym_lit y div 2 \<le> k"
  shows "\<exists>u. guard_row add valid k ys d = Some u \<and>
     client u (app (guard_symbols k ys) (B\<lparr>maxvar := k + length ys, ands := ands B @ guard_gates valid k ys\<rparr>))"
  using assms
proof (induction ys arbitrary: k d B)
  case Nil
  then have eq: "B\<lparr>maxvar := k + length [], ands := ands B @ guard_gates valid k []\<rparr> = B" by (cases B) simp
  show ?case unfolding eq using Nil.prems(1) by (simp add: app_nil)
next
  case (Cons y ys)
  let ?l = "2 * Suc k"
  let ?g = "\<lparr>and_lhs = ?l, and_rhs0 = valid, and_rhs1 = sym_lit y\<rparr>"
  let ?B = "B\<lparr>maxvar := Suc k, ands := ands B @ [?g]\<rparr>"
  obtain e where e: "aiger_add_and d ?l valid (sym_lit y) = Some e" "client e ?B"
    using client_next_and [OF Cons.prems(1), of valid "sym_lit y"] Cons.prems(2-5) by auto
  let ?C = "app [new_symbol ?l (sym_name y)] ?B"
  have c: "client (add e ?l (sym_name y)) ?C" by (rule add_below [OF e(2)]) simp
  have m: "maxvar ?C = Suc k" "Suc k + length ys < 2147483648" "valid div 2 \<le> Suc k" "\<forall>y \<in> set ys. sym_lit y div 2 \<le> Suc k"
    using Cons.prems(3-5) by (auto simp: app_maxvar intro: le_SucI)
  obtain u where u: "guard_row add valid (Suc k) ys (add e ?l (sym_name y)) = Some u"
    "client u (app (guard_symbols (Suc k) ys) (?C\<lparr>maxvar := Suc k + length ys, ands := ands ?C @ guard_gates valid (Suc k) ys\<rparr>))"
    using Cons.IH [OF c m] by blast
  have *: "?C\<lparr>maxvar := Suc k + length ys, ands := ands ?C @ guard_gates valid (Suc k) ys\<rparr> =
      app [new_symbol ?l (sym_name y)] (B\<lparr>maxvar := Suc k + length ys, ands := ands B @ [?g] @ guard_gates valid (Suc k) ys\<rparr>)"
    by (simp add: app_maxvar app_ands del: mult_Suc_right)
  show ?case using e(1) u(1) u(2) [unfolded * app_app] by (simp del: mult_Suc_right)
qed

end

interpretation outs: literal_list aiger_add_output "\<lambda>ys B. B\<lparr>outputs := outputs B @ ys\<rparr>"
  by unfold_locales (use client_add_plain in \<open>simp_all add: public_defs_def grow_def\<close>)

interpretation bads: literal_list aiger_add_bad "\<lambda>ys B. B\<lparr>bad := bad B @ ys\<rparr>"
  by unfold_locales (use client_add_plain in \<open>simp_all add: public_defs_def grow_def\<close>)

section \<open>The monitor latch\<close>

text \<open>
  A structure with one more latch and a chain of gates: every run of the original extends to a run
  of it, because the latch and the gates are determined by the steps before.
\<close>

lemma below_mono: "lits_below m p \<Longrightarrow> m \<le> k \<Longrightarrow> lits_below k p"
  unfolding lits_below_def by (meson le_trans)

lemma gates_extend:
  assumes p: "lits_below m p" and gs: "chain (Suc m) gs" and \<nu>: "models p \<nu>"
  shows "\<exists>\<mu>. (\<forall>v \<le> m. \<mu> v = \<nu> v) \<and> \<mu> (Suc m) = b \<and> list_all (gate_holds \<mu>) (ands p @ gs)"
proof -
  have "list_all (gate_holds (\<nu>(Suc m := b))) (ands p)"
    using p \<nu> gate_holds_update [of _ "Suc m" \<nu> b] by (fastforce simp: models_def list_all_iff lits_below_def)
  moreover have "\<forall>g \<in> set (ands p). and_lhs g div 2 \<le> Suc m \<and> and_rhs0 g div 2 \<le> Suc m \<and> and_rhs1 g div 2 \<le> Suc m"
    using below_mono [OF p, of "Suc m"] by (simp add: lits_below_def)
  ultimately obtain \<mu> where "\<forall>v \<le> Suc m. \<mu> v = (\<nu>(Suc m := b)) v" "list_all (gate_holds \<mu>) (ands p @ gs)"
    using chain_extends [OF gs] by blast
  then show ?thesis by (intro exI [of _ \<mu>]) auto
qed

lemma monitor_extends:
  assumes p: "lits_below m p" and q: "ands q = ands p @ gs" "latches q = latches p @ [y]" and gs: "chain (Suc m) gs"
    and y: "sym_lit y = 2 * Suc m" "sym_reset y = 0" and \<tau>: "run p \<tau>"
  shows "\<exists>\<sigma>. run q \<sigma> \<and> (\<forall>t. \<forall>v \<le> m. \<sigma> t v = \<tau> t v)"
proof -
  have "\<forall>t b. \<exists>\<mu>. (\<forall>v \<le> m. \<mu> v = \<tau> t v) \<and> \<mu> (Suc m) = b \<and> list_all (gate_holds \<mu>) (ands p @ gs)"
    using gates_extend [OF p gs] \<tau> by (simp add: run_def)
  then obtain f where f: "\<And>t b. \<forall>v \<le> m. f t b v = \<tau> t v" "\<And>t b. f t b (Suc m) = b"
    "\<And>t b. list_all (gate_holds (f t b)) (ands p @ gs)" by metis
  define s where "s = rec_nat False (\<lambda>t b. litval (f t b) (sym_next y))"
  define \<sigma> where "\<sigma> = (\<lambda>t. f t (s t))"
  have s: "s 0 = False" "s (Suc t) = litval (\<sigma> t) (sym_next y)" for t by (simp_all add: s_def \<sigma>_def)
  have \<sigma>: "\<forall>v \<le> m. \<sigma> t v = \<tau> t v" "\<sigma> t (Suc m) = s t" "list_all (gate_holds (\<sigma> t)) (ands p @ gs)" for t
    using f by (simp_all add: \<sigma>_def)
  have "models q (\<sigma> t)" for t using \<tau> \<sigma>(1,3) [of t] q(1) by (simp add: models_def run_def)
  moreover have "latch_init (\<sigma> 0) y" using y \<sigma>(2) [of 0] s(1) by (simp add: latch_init_def del: mult_Suc_right)
  moreover have "latch_next (\<sigma> t) (\<sigma> (Suc t)) y" for t
    using y \<sigma>(2) [of "Suc t"] s(2) [of t] by (simp add: latch_next_def del: mult_Suc_right)
  ultimately have "run q \<sigma>"
    using \<tau> latches_cong [OF p \<sigma>(1) \<sigma>(1)] unfolding run_def q(2) by simp
  with \<sigma>(1) show ?thesis by blast
qed

lemma monitor_behaviours:
  assumes p: "lits_below m p" and q: "ands q = ands p @ gs" "latches q = latches p @ [y]" and gs: "chain (Suc m) gs"
    and y: "sym_lit y = 2 * Suc m" "sym_reset y = 0"
    and obs: "\<And>\<tau> t. run q \<tau> \<Longrightarrow> observe q (\<tau> t) = F (\<lambda>s. observe p (\<tau> s)) t"
  shows "behaviours q = F ` behaviours p"
proof (rule set_eqI, rule iffI)
  fix b assume "b \<in> behaviours q"
  then obtain \<tau> where \<tau>: "run q \<tau>" "b = (\<lambda>t. observe q (\<tau> t))" by (auto simp: behaviours_def)
  have "run p \<tau>" using \<tau>(1) q by (simp add: run_def models_def)
  moreover have "b = F (\<lambda>s. observe p (\<tau> s))" using obs [OF \<tau>(1)] \<tau>(2) by (simp add: fun_eq_iff)
  ultimately show "b \<in> F ` behaviours p" by (auto simp: behaviours_def)
next
  fix b assume "b \<in> F ` behaviours p"
  then obtain \<tau> where \<tau>: "run p \<tau>" "b = F (\<lambda>t. observe p (\<tau> t))" by (auto simp: behaviours_def)
  obtain \<sigma> where \<sigma>: "run q \<sigma>" "\<And>t. \<forall>v \<le> m. \<sigma> t v = \<tau> t v"
    using monitor_extends [OF p q gs y \<tau>(1)] by blast
  have "b = (\<lambda>t. observe q (\<sigma> t))" using \<tau>(2) obs [OF \<sigma>(1)] observe_cong [OF p \<sigma>(2)] by (simp add: fun_eq_iff)
  with \<sigma>(1) show "b \<in> behaviours q" by (auto simp: behaviours_def)
qed

text \<open>The latch holds when the condition \<open>c\<close> has failed before, and \<open>valid\<close> when it has not failed.\<close>

lemma monitor_value:
  assumes r: "run q \<tau>" and y: "y \<in> set (latches q)" "sym_lit y = 2 * Suc m" "sym_reset y = 0" "sym_next y = aiger_not valid"
    and v: "\<And>t. litval (\<tau> t) valid = (\<not> \<tau> t (Suc m) \<and> c t)"
  shows "\<tau> t (Suc m) = (\<exists>s < t. \<not> c s)" "litval (\<tau> t) valid = (\<forall>s \<le> t. c s)"
proof -
  have i: "\<not> \<tau> 0 (Suc m)" using r y by (auto simp: run_def list_all_iff latch_init_def simp del: mult_Suc_right)
  have n: "\<tau> (Suc t) (Suc m) = (\<not> litval (\<tau> t) valid)" for t
  proof -
    have "latch_next (\<tau> t) (\<tau> (Suc t)) y" using r y(1) by (simp add: run_def list_all_iff)
    then show ?thesis unfolding latch_next_def y(2,4) by (simp del: mult_Suc_right)
  qed
  show *: "\<tau> t (Suc m) = (\<exists>s < t. \<not> c s)" for t
    by (induction t) (use i n v in \<open>auto simp: less_Suc_eq\<close>)
  show "litval (\<tau> t) valid = (\<forall>s \<le> t. c s)" using v [of t] * [of t] by (auto simp: le_less)
qed

section \<open>The whole structure\<close>

definition monitored ::
    "aiger_private \<Rightarrow> nat \<Rightarrow> nat \<Rightarrow> aiger_symbol list \<Rightarrow> aiger_and list \<Rightarrow> aiger_symbol list \<Rightarrow> aiger_symbol list \<Rightarrow> aiger" where
  "monitored p m k ls gs os bs =
     (copied p m)\<lparr>maxvar := k, latches := latches p @ ls, ands := ands p @ gs, outputs := os, bad := bs\<rparr>"

lemma monitored_simps [simp]:
  "maxvar (monitored p m k ls gs os bs) = k" "inputs (monitored p m k ls gs os bs) = inputs p"
  "latches (monitored p m k ls gs os bs) = latches p @ ls" "ands (monitored p m k ls gs os bs) = ands p @ gs"
  "outputs (monitored p m k ls gs os bs) = os" "bad (monitored p m k ls gs os bs) = bs"
  "constraints (monitored p m k ls gs os bs) = []" "justice (monitored p m k ls gs os bs) = []"
  "fairness (monitored p m k ls gs os bs) = []" "comments (monitored p m k ls gs os bs) = [None]"
  by (simp_all add: monitored_def)

lemma copied_monitored: "copied p m = monitored p m m [] [] [] []"
  by (simp add: monitored_def copied_def blank_def)

definition good_symbol :: "aiger_symbol \<Rightarrow> bool" where
  "good_symbol y \<longleftrightarrow> plain_symbol y \<and> entry_ok y"

lemma client_portable:
  assumes p: "portable p" and v: "client v (copied p m)" and u: "client u (monitored p m n ls gs os bs)"
    and gs: "chain k gs" "m \<le> k" "\<forall>g \<in> set gs. defined_var u (and_rhs0 g div 2) \<and> defined_var u (and_rhs1 g div 2)"
    and ls: "\<forall>y \<in> set ls. sym_lits y = [] \<and> entry_ok y \<and> defined_var u (sym_next y div 2)"
    and ys: "\<forall>y \<in> set (os @ bs). good_symbol y \<and> defined_var u (sym_lit y div 2)"
    and len: "length os < 4294967296" "length bs < 4294967296"
  shows "portable u"
proof -
  note d = clientD [OF u] and pd = portableD [OF p]
  have below: "lits_below k p" using below_mono [OF copied_below [OF v pd(6)] gs(2)] .
  have sub: "defined_var p w \<Longrightarrow> defined_var u w" for w using d(6,7,13) by (auto simp: defined_var_def)
  have "all_defined u" using pd(6) sub gs(3) ls ys d(6-13) by (auto simp: all_defined_def)
  moreover have "acyclic (deps u)"
    by (rule chain_acyclic [OF pd(7) below _ gs(1)]) (use d(13) below in \<open>simp_all add: lits_below_def\<close>)
  moreover have "clean_marks u" using d(3) by (simp add: unmarked_types_def clean_marks_def list_all_length)
  ultimately have "checked u" using d(1,2) by (simp add: checked_def)
  moreover have "shaped u" using pd(2) ls ys d(6-12) by (auto simp: shaped_def good_symbol_def)
  moreover have "named u"
    unfolding named_def using pd(3) ls ys d(6-12,14)
    by (auto simp: named_def all_symbols_def good_symbol_def intro!: exI [of _ "[]"])
  moreover have "maxvar u < 2147483648" using d(1) by (simp add: wf_aiger_def wf_lits_def)
  then have "small_counts u"
    using pd(4) len d(6-12) count_all [OF d(1)] by (simp add: small_counts_def)
  ultimately show ?thesis by (simp add: portable_def)
qed

end
