(* ===== verification/AigerFiltersCorrect.thy ===== *)
theory AigerFiltersCorrect
  imports AigerMonitor
begin

text \<open>
  \<open>aigmove\<close> and \<open>aigunconstraint\<close> are correct: their loops build rows of gates and guarded literals,
  what they build is portable, and a bad state of their input can be reached under its constraints
  exactly when the literal that replaces it can be reached.
\<close>

section \<open>The loops as rows\<close>

lemma move_monitor_row:
  assumes "l + j + length cs < 2147483648"
  shows "move_monitor (2 * l) j prev cs d = gate_row prev (l + j) cs d"
  using assms
proof (induction cs arbitrary: j prev d)
  case (Cons c cs)
  have e: "u32 (2 * l + u32 (2 * (j + 1))) = 2 * Suc (l + j)" using Cons.prems by simp
  have "move_monitor (2 * l) (Suc j) t cs d = gate_row t (Suc (l + j)) cs d" for t d
    using Cons.IH [of "Suc j"] Cons.prems by simp
  then show ?case unfolding move_monitor.simps gate_row.simps Let_def e
    by (cases "aiger_add_and d (2 * Suc (l + j)) prev c") simp_all
qed simp

lemma unconstraint_valid_row:
  assumes "mv \<noteq> 0" "mv + length cs < 2147483648"
  shows "unconstraint_valid cs valid mv d = map_option (\<lambda>(res, u). (res, mv + length cs, u)) (gate_row valid mv cs d)"
  using assms
proof (induction cs arbitrary: valid mv d)
  case (Cons c cs)
  have e: "newlit mv d = (2 * Suc mv, Suc mv)" using Cons.prems by (simp add: newlit_def)
  show ?case
    using Cons by (cases "aiger_add_and d (2 * Suc mv) valid c") (simp_all add: e Let_def del: mult_Suc_right)
qed simp

lemma unconstraint_bad_row:
  assumes "mv \<noteq> 0" "mv + length ys < 2147483648"
  shows "unconstraint_bad valid ys mv d = guard_row aiger_add_bad valid mv ys d"
  using assms
proof (induction ys arbitrary: mv d)
  case (Cons y ys)
  have e: "newlit mv d = (2 * Suc mv, Suc mv)" using Cons.prems by (simp add: newlit_def)
  show ?case using Cons by (simp add: e Let_def del: mult_Suc_right)
qed simp

lemma move_guarded_row:
  assumes "client d B" "maxvar B = k" "k + length ys < 2147483648" "valid div 2 \<le> k" "\<forall>y \<in> set ys. sym_lit y div 2 \<le> k"
  shows "foldm (move_guarded valid) ys d = guard_row aiger_add_output valid k ys d"
  using assms
proof (induction ys arbitrary: k d B)
  case (Cons y ys)
  let ?l = "2 * Suc k"
  obtain e where e: "aiger_add_and d ?l valid (sym_lit y) = Some e"
    "client e (B\<lparr>maxvar := Suc k, ands := ands B @ [\<lparr>and_lhs = ?l, and_rhs0 = valid, and_rhs1 = sym_lit y\<rparr>]\<rparr>)"
    using client_next_and [OF Cons.prems(1), of valid "sym_lit y"] Cons.prems(2-5) by auto
  have n: "next_lit d = ?l" using next_lit_eq clientD(5) [OF Cons.prems(1)] Cons.prems(2,3) by simp
  note c = outs.add_below [OF e(2), of ?l "sym_name y"]
  have "foldm (move_guarded valid) ys (aiger_add_output e ?l (sym_name y)) =
      guard_row aiger_add_output valid (Suc k) ys (aiger_add_output e ?l (sym_name y))"
    by (rule Cons.IH [OF c]) (use Cons.prems(3-5) in \<open>auto intro: le_SucI\<close>)
  moreover have "move_guarded valid y d = Some (aiger_add_output e ?l (sym_name y))"
    using e(1) n by (simp add: move_guarded_def Let_def del: mult_Suc_right)
  ultimately show ?case using e(1) by (simp del: mult_Suc_right)
qed simp


lemma and_chain_row:
  assumes "client d B" "maxvar B = k" "k + length ls < 2147483648" "out div 2 \<le> k" "\<forall>l \<in> set ls. l div 2 \<le> k"
  shows "and_chain out ls d = gate_row out k ls d"
  using assms
proof (induction ls arbitrary: out k d B)
  case (Cons l ls)
  obtain e where e: "aiger_add_and d (2 * Suc k) out l = Some e"
    "client e (B\<lparr>maxvar := Suc k, ands := ands B @ [\<lparr>and_lhs = 2 * Suc k, and_rhs0 = out, and_rhs1 = l\<rparr>]\<rparr>)"
    using client_next_and [OF Cons.prems(1), of out l] Cons.prems(2-5) by auto
  have n: "next_lit d = 2 * Suc k" using next_lit_eq clientD(5) [OF Cons.prems(1)] Cons.prems(2,3) by simp
  have "and_chain (2 * Suc k) ls e = gate_row (2 * Suc k) (Suc k) ls e"
    by (rule Cons.IH [OF e(2)]) (use Cons.prems(3-5) in \<open>auto intro: le_SucI\<close>)
  with e(1) n show ?case by (simp add: Let_def del: mult_Suc_right)
qed simp

section \<open>The gates of the monitor\<close>

lemma chain_append: "chain m xs \<Longrightarrow> chain (m + length xs) ys \<Longrightarrow> chain m (xs @ ys)"
  by (induction xs arbitrary: m) simp_all

text \<open>The constraints have held up to now.\<close>

definition held :: "(nat \<Rightarrow> observation) \<Rightarrow> nat \<Rightarrow> bool" where
  "held b t \<longleftrightarrow> (\<forall>s \<le> t. list_all (\<lambda>x. x) (o_constraints (b s)))"

definition invalid_latch :: "string \<Rightarrow> nat \<Rightarrow> nat \<Rightarrow> aiger_symbol" where
  "invalid_latch name m n = (new_symbol (2 * Suc m) (Some name))\<lparr>sym_next := aiger_not (2 * (Suc m + n))\<rparr>"

definition monitor_gates :: "aiger_private \<Rightarrow> nat \<Rightarrow> aiger_and list" where
  "monitor_gates p m =
     (let cs = map sym_lit (constraints p); k = Suc m + length cs in
      row_gates (aiger_not (2 * Suc m)) (Suc m) cs @ guard_gates (2 * k) k (bad p))"

definition monitor_symbols :: "aiger_private \<Rightarrow> nat \<Rightarrow> aiger_symbol list" where
  "monitor_symbols p m = guard_symbols (Suc m + length (constraints p)) (bad p)"

definition monitor_end :: "aiger_private \<Rightarrow> nat \<Rightarrow> nat" where
  "monitor_end p m = Suc m + length (constraints p) + length (bad p)"

lemma invalid_fields [simp]:
  "sym_lit (invalid_latch name m n) = 2 * Suc m" "sym_reset (invalid_latch name m n) = 0"
  "sym_next (invalid_latch name m n) = aiger_not (2 * (Suc m + n))" "sym_lits (invalid_latch name m n) = []"
  by (simp_all add: invalid_latch_def new_symbol_def symbol0_def)

text \<open>The literals of a portable structure are those of its copy.\<close>

lemma source_lits:
  assumes p: "portable p" and v: "client v (copied p m)" and y: "y \<in> set (outputs p) \<union> set (bad p) \<union> set (constraints p)"
  shows "sym_lit y div 2 \<le> m" "defined_var p (sym_lit y div 2)" "good_symbol y" "new_symbol (sym_lit y) (sym_name y) = y"
proof -
  show "sym_lit y div 2 \<le> m" "defined_var p (sym_lit y div 2)"
    using copied_below [OF v portableD(6) [OF p]] portableD(6) [OF p] y by (auto simp: lits_below_def all_defined_def)
  show g: "good_symbol y"
    using portableD(2,3) [OF p] y by (auto simp: good_symbol_def shaped_def named_def all_symbols_def)
  have "ok_name (sym_name y)" using portableD(5) [OF p] y by (auto simp: wf_aiger_def wf_names_def all_symbols_def)
  with g show "new_symbol (sym_lit y) (sym_name y) = y" by (simp add: new_symbol_same good_symbol_def)
qed

lemma source_symbols:
  assumes "portable p" "client v (copied p m)"
  shows "map (\<lambda>y. new_symbol (sym_lit y) (sym_name y)) (outputs p) = outputs p"
    "map (\<lambda>y. new_symbol (sym_lit y) (sym_name y)) (bad p) = bad p"
  using source_lits(4) [OF assms] by (simp_all add: map_idI)

lemma monitor_chain:
  assumes p: "portable p" and v: "client v (copied p m)"
  shows "chain (Suc m) (monitor_gates p m)"
proof -
  note l = source_lits(1) [OF p v]
  have c: "\<forall>y \<in> set (constraints p). sym_lit y div 2 \<le> Suc m" "\<forall>y \<in> set (bad p). sym_lit y div 2 \<le> Suc m + n" for n
    using l by (auto intro: le_SucI trans_le_add1)
  let ?k = "Suc m + length (constraints p)"
  have "chain (Suc m) (row_gates (aiger_not (2 * Suc m)) (Suc m) (map sym_lit (constraints p)))"
    by (rule row_chain) (use c(1) in simp_all)
  moreover have "chain ?k (guard_gates (2 * ?k) ?k (bad p))" by (rule guard_chain) (use c(2) in simp_all)
  ultimately show ?thesis by (simp add: monitor_gates_def Let_def chain_append)
qed

lemma guard_good:
  assumes p: "portable p" and z: "z \<in> set (guard_symbols k (bad p))"
  shows "good_symbol z"
proof -
  obtain y where y: "y \<in> set (bad p)" "z = new_symbol (sym_lit z) (sym_name y)"
    using guard_symbol [OF z] by (metis new_symbol_same plain_new_symbol)
  have "entry_ok y" using portableD(3) [OF p] y(1) by (simp add: named_def all_symbols_def)
  then have "plain_symbol (new_symbol (sym_lit z) (sym_name y)) \<and> entry_ok (new_symbol (sym_lit z) (sym_name y))"
    by (intro entry_of_name) (simp add: entry_ok_def)
  with y(2) show ?thesis by (simp add: good_symbol_def)
qed


text \<open>The structure with the monitor, whichever list the guarded literals go to.\<close>

lemma monitor_portable:
  assumes p: "portable p" and v: "client v (copied p m)" and c: "constraints p \<noteq> []" and n: "plain_name name"
    and u: "client u (monitored p m (monitor_end p m) [invalid_latch name m (length (constraints p))] (monitor_gates p m) os bs)"
    and os: "set (os @ bs) \<subseteq> set (outputs p) \<union> set (monitor_symbols p m)"
    and len: "length os < 4294967296" "length bs < 4294967296"
  shows "portable u"
proof -
  note d = clientD [OF u] and l = source_lits [OF p v]
  let ?cs = "map sym_lit (constraints p)" and ?k = "Suc m + length (constraints p)"
  have gs: "chain (Suc m) (monitor_gates p m)" by (rule monitor_chain [OF p v])
  have len_gs: "Suc m + length (monitor_gates p m) = monitor_end p m" by (simp add: monitor_gates_def monitor_end_def Let_def)
  have old: "defined_var p w \<Longrightarrow> defined_var u w" for w using d(6,7,13) by (auto simp: defined_var_def)
  have latch: "defined_var u (Suc m)" using d(7) by (auto simp: defined_var_def simp del: mult_Suc_right)
  have new: "Suc m < w \<Longrightarrow> w \<le> monitor_end p m \<Longrightarrow> defined_var u w" for w
    using chain_defined [OF gs, of w, unfolded len_gs] d(13) by (auto simp: defined_var_def)
  have ends: "?k \<le> monitor_end p m" "Suc m < ?k" using c by (simp_all add: monitor_end_def)
  have rhs: "defined_var u (and_rhs0 g div 2) \<and> defined_var u (and_rhs1 g div 2)" if g: "g \<in> set (monitor_gates p m)" for g
  proof -
    consider "g \<in> set (row_gates (aiger_not (2 * Suc m)) (Suc m) ?cs)" | "g \<in> set (guard_gates (2 * ?k) ?k (bad p))"
      using g by (auto simp: monitor_gates_def Let_def)
    then show ?thesis
    proof cases
      case 1
      from row_rhs [OF this] have r: "and_rhs0 g = aiger_not (2 * Suc m) \<or> (Suc m < and_rhs0 g div 2 \<and> and_rhs0 g div 2 \<le> ?k)"
        "and_rhs1 g \<in> set ?cs" by auto
      then show ?thesis using latch new ends l(2) old by (fastforce simp del: mult_Suc_right)
    next
      case 2
      from guard_rhs [OF this] show ?thesis using new [of ?k] ends l(2) old by fastforce
    qed
  qed
  have "entry_ok (new_symbol l (Some name))" for l using entry_new [OF n] by simp
  then have "entry_ok (invalid_latch name m k)" for k by (simp add: invalid_latch_def entry_ok_def)
  then have ls: "sym_lits (invalid_latch name m k) = [] \<and> entry_ok (invalid_latch name m k)" for k by simp
  have ys: "good_symbol y \<and> defined_var u (sym_lit y div 2)" if y: "y \<in> set (os @ bs)" for y
  proof -
    consider "y \<in> set (outputs p)" | "y \<in> set (guard_symbols ?k (bad p))" using y os by (auto simp: monitor_symbols_def)
    then show ?thesis
    proof cases
      case 1
      then show ?thesis using l(2,3) old by blast
    next
      case 2
      from guard_symbol [OF this] have "?k < sym_lit y div 2" "sym_lit y div 2 \<le> monitor_end p m" by (simp_all add: monitor_end_def)
      then show ?thesis using guard_good [OF p 2] new ends by simp
    qed
  qed
  show ?thesis
    by (rule client_portable [OF p v u gs]) (use rhs ls ys len new [of ?k] ends in simp_all)
qed

lemma monitor_runs:
  assumes p: "portable p" and v: "client v (copied p m)" and c: "constraints p \<noteq> []"
    and u: "client u (monitored p m k [invalid_latch name m (length (constraints p))] (monitor_gates p m) os bs)"
    and r: "run u \<tau>"
  shows "\<tau> t (Suc m) = (\<exists>s < t. \<not> list_all (\<lambda>x. x) (o_constraints (observe p (\<tau> s))))"
    "map (litval (\<tau> t) \<circ> sym_lit) (monitor_symbols p m) = map (\<lambda>x. held (\<lambda>s. observe p (\<tau> s)) t \<and> x) (o_bad (observe p (\<tau> t)))"
proof -
  note d = clientD [OF u]
  let ?cs = "map sym_lit (constraints p)" and ?k = "Suc m + length (constraints p)"
  let ?valid = "2 * ?k" and ?y = "invalid_latch name m (length (constraints p))"
  let ?c = "\<lambda>s. list_all (\<lambda>x. x) (o_constraints (observe p (\<tau> s)))"
  have g: "list_all (gate_holds (\<tau> s)) (monitor_gates p m)" for s using r d(13) by (simp add: run_def models_def)
  have row: "litval (\<tau> s) ?valid = (\<not> \<tau> s (Suc m) \<and> ?c s)" for s
  proof -
    have e: "row_end (aiger_not (2 * Suc m)) (Suc m) ?cs = ?valid" using c by (simp add: row_end_def del: row_end_Cons)
    have "litval (\<tau> s) (aiger_not (2 * Suc m)) = (\<not> \<tau> s (Suc m))" unfolding litval_not litval_var ..
    then show ?thesis
      using row_value [of "\<tau> s" "aiger_not (2 * Suc m)" "Suc m" ?cs] g [of s] unfolding e
      by (simp add: monitor_gates_def Let_def observe_def list_all_iff)
  qed
  have y: "?y \<in> set (latches u)" using d(7) by simp
  note val = monitor_value [OF r y invalid_fields(1,2,3) row]
  show "\<tau> t (Suc m) = (\<exists>s < t. \<not> ?c s)" by (rule val(1))
  have "list_all (gate_holds (\<tau> t)) (guard_gates ?valid ?k (bad p))" using g [of t] by (simp add: monitor_gates_def Let_def)
  from guard_values [OF this] val(2) [of t]
  show "map (litval (\<tau> t) \<circ> sym_lit) (monitor_symbols p m) = map (\<lambda>x. held (\<lambda>s. observe p (\<tau> s)) t \<and> x) (o_bad (observe p (\<tau> t)))"
    by (simp add: monitor_symbols_def held_def observe_def)
qed


section \<open>aigmove\<close>

definition showing :: "observation \<Rightarrow> bool list \<Rightarrow> bool list \<Rightarrow> observation" where
  "showing ob os bs = \<lparr>o_inputs = o_inputs ob, o_latches = o_latches ob, o_outputs = os, o_bad = bs,
     o_constraints = [], o_justice = [], o_fairness = []\<rparr>"

definition watching :: "(nat \<Rightarrow> observation) \<Rightarrow> nat \<Rightarrow> bool list \<Rightarrow> bool list \<Rightarrow> observation" where
  "watching b t os bs =
     (showing (b t) os bs)\<lparr>o_latches := o_latches (b t) @ [\<exists>s < t. \<not> list_all (\<lambda>x. x) (o_constraints (b s))]\<rparr>"

definition move_effect :: "move_options \<Rightarrow> aiger_private \<Rightarrow> (nat \<Rightarrow> observation) \<Rightarrow> nat \<Rightarrow> observation" where
  "move_effect opts p b t =
     (if opt_reverse opts then showing (b t) [] (o_outputs (b t))
      else if bad p = [] \<or> constraints p = [] then showing (b t) (o_outputs (b t) @ o_bad (b t)) []
      else if latches p = [] then
        showing (b t) (o_outputs (b t) @ map (\<lambda>x. list_all (\<lambda>x. x) (o_constraints (b t)) \<and> x) (o_bad (b t))) []
      else watching b t (o_outputs (b t) @ map (\<lambda>x. held b t \<and> x) (o_bad (b t))) [])"

definition move_supported :: "aiger_private \<Rightarrow> bool" where
  "move_supported p \<longleftrightarrow> maxvar p + 1 + length (constraints p) + length (bad p) < 2147483648 \<and>
     length (outputs p) + length (bad p) < 4294967296"

lemma monitored_lists:
  "(monitored p m n ls gs os bs)\<lparr>outputs := os'\<rparr> = monitored p m n ls gs os' bs"
  "(monitored p m n ls gs os bs)\<lparr>bad := bs'\<rparr> = monitored p m n ls gs os bs'"
  "(monitored p m n ls gs os bs)\<lparr>maxvar := n', ands := ands p @ gs'\<rparr> = monitored p m n' ls gs' os bs"
  "(monitored p m n ls gs os bs)\<lparr>maxvar := n', latches := latches p @ ls'\<rparr> = monitored p m n' ls' gs os bs"
  by (simp_all add: monitored_def)

text \<open>Without a monitor the copy shows its own outputs and bad literals.\<close>

lemma plain_built:
  assumes p: "portable p" and v: "client v (copied p m)" and u: "client u (monitored p m n [] gs os bs)"
    and gs: "chain m gs" "\<forall>g \<in> set gs. defined_var u (and_rhs0 g div 2) \<and> defined_var u (and_rhs1 g div 2)"
    and ys: "\<forall>y \<in> set (os @ bs). good_symbol y \<and> defined_var u (sym_lit y div 2)"
    and len: "length os < 4294967296" "length bs < 4294967296"
    and val: "\<And>\<nu>. models u \<nu> \<Longrightarrow> map (litval \<nu> \<circ> sym_lit) os = f (observe p \<nu>) \<and> map (litval \<nu> \<circ> sym_lit) bs = g (observe p \<nu>)"
  shows "portable u \<and> behaviours u = (\<lambda>b t. showing (b t) (f (b t)) (g (b t))) ` behaviours p"
proof -
  note d = clientD [OF u]
  have "portable u" by (rule client_portable [OF p v u gs(1) _ gs(2) _ ys len]) simp_all
  moreover have "observe u \<nu> = showing (observe p \<nu>) (f (observe p \<nu>)) (g (observe p \<nu>))" if "models u \<nu>" for \<nu>
  proof -
    have "o_inputs (observe p \<nu>) = map (litval \<nu> \<circ> sym_lit) (inputs p)" "o_latches (observe p \<nu>) = map (litval \<nu> \<circ> sym_lit) (latches p)"
      by (simp_all add: observe_def)
    with val [OF that] d(6-12) show ?thesis unfolding observe_def [of u] showing_def by simp
  qed
  then have "behaviours u = (\<lambda>b t. showing (b t) (f (b t)) (g (b t))) ` behaviours p"
    by (intro extension_behaviours [OF copied_below [OF v portableD(6) [OF p]] _ _ gs(1)]) (simp_all add: d(7,13))
  ultimately show ?thesis ..
qed

lemma defined_old: "client u (monitored p m n ls gs os bs) \<Longrightarrow> defined_var p w \<Longrightarrow> defined_var u w"
  using clientD(6,7,13) [of u] by (auto simp: defined_var_def)

lemma move_reverse_built:
  assumes p: "portable p" and v: "client v (copied p m)"
  shows "\<exists>u. foldm move_reverse (outputs p) v = Some u \<and> portable u \<and>
     behaviours u = (\<lambda>b t. showing (b t) [] (o_outputs (b t))) ` behaviours p"
proof -
  note l = source_lits [OF p v]
  have "\<exists>u. foldm move_reverse (outputs p) v = Some u \<and>
      client u ((copied p m)\<lparr>bad := bad (copied p m) @ map (\<lambda>y. new_symbol (sym_lit y) (sym_name y)) (outputs p)\<rparr>)"
    unfolding move_reverse_def [abs_def] by (rule bads.copies [OF v]) (use l(1) in simp)
  then obtain u where u: "foldm move_reverse (outputs p) v = Some u" "client u (monitored p m m [] [] [] (outputs p))"
    using source_symbols [OF p v] by (auto simp: copied_monitored monitored_lists)
  have "portable u \<and> behaviours u = (\<lambda>b t. showing (b t) [] (o_outputs (b t))) ` behaviours p"
    by (rule plain_built [OF p v u(2)])
      (use l(2,3) defined_old [OF u(2)] portableD(4) [OF p] in \<open>auto simp: small_counts_def observe_def\<close>)
  with u(1) show ?thesis by blast
qed

lemma copy_outputs_client:
  assumes p: "portable p" and v: "client v (copied p m)"
  shows "\<exists>u. foldm copy_output (outputs p) v = Some u \<and> client u (monitored p m m [] [] (outputs p) [])"
proof -
  have "\<exists>u. foldm copy_output (outputs p) v = Some u \<and>
      client u ((copied p m)\<lparr>outputs := outputs (copied p m) @ map (\<lambda>y. new_symbol (sym_lit y) (sym_name y)) (outputs p)\<rparr>)"
    unfolding copy_output_def [abs_def] by (rule outs.copies [OF v]) (use source_lits(1) [OF p v] in simp)
  then show ?thesis using source_symbols [OF p v] by (auto simp: copied_monitored monitored_lists)
qed

lemma move_plain_built:
  assumes p: "portable p" and v: "client v (copied p m)" and d: "client d (monitored p m m [] [] (outputs p) [])"
    and len: "length (outputs p) + length (bad p) < 4294967296"
  shows "\<exists>u. foldm copy_output (bad p) d = Some u \<and> portable u \<and>
     behaviours u = (\<lambda>b t. showing (b t) (o_outputs (b t) @ o_bad (b t)) []) ` behaviours p"
proof -
  note l = source_lits [OF p v]
  let ?B = "monitored p m m [] [] (outputs p) []"
  have "\<exists>u. foldm copy_output (bad p) d = Some u \<and>
      client u (?B\<lparr>outputs := outputs ?B @ map (\<lambda>y. new_symbol (sym_lit y) (sym_name y)) (bad p)\<rparr>)"
    unfolding copy_output_def [abs_def] by (rule outs.copies [OF d]) (use l(1) in simp)
  then obtain u where u: "foldm copy_output (bad p) d = Some u" "client u (monitored p m m [] [] (outputs p @ bad p) [])"
    using source_symbols [OF p v] by (auto simp: monitored_lists)
  have "portable u \<and> behaviours u = (\<lambda>b t. showing (b t) (o_outputs (b t) @ o_bad (b t)) []) ` behaviours p"
    by (rule plain_built [OF p v u(2)]) (use l(2,3) defined_old [OF u(2)] len in \<open>auto simp: observe_def\<close>)
  with u(1) show ?thesis by blast
qed


lemma chain_new:
  "client u (monitored p m n [] gs os bs) \<Longrightarrow> chain m gs \<Longrightarrow> m < w \<Longrightarrow> w \<le> m + length gs \<Longrightarrow> defined_var u w"
  using chain_defined [of m gs w] clientD(13) [of u] by (auto simp: defined_var_def)

text \<open>The bad literals as outputs, guarded by a literal over the gates.\<close>

lemma move_guards_built:
  assumes p: "portable p" and v: "client v (copied p m)" and e: "client e (monitored p m (m + length gs) [] gs (outputs p) [])"
    and gs: "chain m gs" "\<forall>g \<in> set gs. (defined_var p (and_rhs0 g div 2) \<or> m < and_rhs0 g div 2) \<and> defined_var p (and_rhs1 g div 2)"
    and valid: "defined_var p (valid div 2) \<or> m < valid div 2" "valid div 2 \<le> m + length gs"
      "\<And>\<nu>. list_all (gate_holds \<nu>) gs \<Longrightarrow> litval \<nu> valid = list_all (\<lambda>x. x) (o_constraints (observe p \<nu>))"
    and room: "m + length gs + length (bad p) < 2147483648" "length (outputs p) + length (bad p) < 4294967296"
  shows "\<exists>u. foldm (move_guarded valid) (bad p) e = Some u \<and> portable u \<and>
     behaviours u = (\<lambda>b t. showing (b t) (o_outputs (b t) @ map (\<lambda>x. list_all (\<lambda>x. x) (o_constraints (b t)) \<and> x) (o_bad (b t))) []) ` behaviours p"
proof -
  note l = source_lits [OF p v]
  let ?k = "m + length gs"
  let ?hs = "guard_gates valid ?k (bad p)" and ?zs = "guard_symbols ?k (bad p)"
  have b: "\<forall>y \<in> set (bad p). sym_lit y div 2 \<le> ?k" using l(1) by (auto intro: trans_le_add1)
  obtain u where u: "foldm (move_guarded valid) (bad p) e = Some u"
    "client u ((monitored p m ?k [] gs (outputs p) [])\<lparr>maxvar := ?k + length (bad p), ands := ands p @ gs @ ?hs, outputs := outputs p @ ?zs\<rparr>)"
    using outs.guards [OF e _ room(1) valid(2) b] move_guarded_row [OF e _ room(1) valid(2) b] by auto
  have u2: "client u (monitored p m (?k + length (bad p)) [] (gs @ ?hs) (outputs p @ ?zs) [])"
    using u(2) by (simp add: monitored_lists)
  have ch: "chain m (gs @ ?hs)" using chain_append [OF gs(1)] guard_chain [OF valid(2) b] by blast
  note old = defined_old [OF u2] and new = chain_new [OF u2 ch, simplified]
  have inside: "defined_var u w" if "defined_var p w \<or> m < w" "w \<le> ?k" for w using that old new [of w] by auto
  have gl: "and_rhs0 g div 2 \<le> ?k" if "g \<in> set gs" for g using chain_gate [OF gs(1) that] by auto
  have rhs: "\<forall>g \<in> set (gs @ ?hs). defined_var u (and_rhs0 g div 2) \<and> defined_var u (and_rhs1 g div 2)"
  proof
    fix g assume "g \<in> set (gs @ ?hs)"
    then consider "g \<in> set gs" | "g \<in> set ?hs" by auto
    then show "defined_var u (and_rhs0 g div 2) \<and> defined_var u (and_rhs1 g div 2)"
    proof cases
      case 1
      with gs(2) inside [OF _ gl] old show ?thesis by blast
    next
      case 2
      from guard_rhs [OF this] show ?thesis using inside [OF valid(1,2)] old l(2) by auto
    qed
  qed
  have "defined_var u (sym_lit z div 2)" if "z \<in> set ?zs" for z using guard_symbol [OF that] new by simp
  then have zs: "\<forall>z \<in> set ((outputs p @ ?zs) @ []). good_symbol z \<and> defined_var u (sym_lit z div 2)"
    using l(2,3) old guard_good [OF p] by auto
  have val: "map (litval \<nu> \<circ> sym_lit) (outputs p @ ?zs) =
      o_outputs (observe p \<nu>) @ map (\<lambda>x. list_all (\<lambda>x. x) (o_constraints (observe p \<nu>)) \<and> x) (o_bad (observe p \<nu>)) \<and>
      map (litval \<nu> \<circ> sym_lit) [] = []" if "models u \<nu>" for \<nu>
  proof -
    have h: "list_all (gate_holds \<nu>) gs" "list_all (gate_holds \<nu>) ?hs"
      using that clientD(13) [OF u2] by (simp_all add: models_def)
    from valid(3) [OF h(1)] guard_values [OF h(2)] show ?thesis by (simp add: observe_def)
  qed
  have "portable u \<and> behaviours u = (\<lambda>b t. showing (b t)
      (o_outputs (b t) @ map (\<lambda>x. list_all (\<lambda>x. x) (o_constraints (b t)) \<and> x) (o_bad (b t))) []) ` behaviours p"
    by (rule plain_built [OF p v u2 ch rhs zs _ _ val]) (use room(2) in simp_all)
  with u(1) show ?thesis by blast
qed

lemma move_valid_plain:
  assumes p: "portable p" and v: "client v (copied p m)" and d: "client d (monitored p m m [] [] (outputs p) [])"
    and c: "constraints p \<noteq> []" and la: "latches p = []" and room: "m + length (constraints p) < 2147483648"
  shows "\<exists>valid e gs. move_valid p d = Some (valid, e) \<and> client e (monitored p m (m + length gs) [] gs (outputs p) []) \<and>
     chain m gs \<and> length gs \<le> length (constraints p) \<and>
     (\<forall>g \<in> set gs. (defined_var p (and_rhs0 g div 2) \<or> m < and_rhs0 g div 2) \<and> defined_var p (and_rhs1 g div 2)) \<and>
     (defined_var p (valid div 2) \<or> m < valid div 2) \<and> valid div 2 \<le> m + length gs \<and>
     (\<forall>\<nu>. list_all (gate_holds \<nu>) gs \<longrightarrow> litval \<nu> valid = list_all (\<lambda>x. x) (o_constraints (observe p \<nu>)))"
proof -
  note l = source_lits [OF p v]
  let ?B = "monitored p m m [] [] (outputs p) []"
  obtain y ys where y: "constraints p = y # ys" using c by (cases "constraints p") auto
  let ?c = "sym_lit y" and ?cs = "map sym_lit ys" and ?k = "m + length ys"
  let ?gs = "row_gates ?c m ?cs" and ?valid = "row_end (sym_lit y) m (map sym_lit ys)"
  have r: "m + length ?cs < 2147483648" "?c div 2 \<le> m" "\<forall>c \<in> set ?cs. c div 2 \<le> m" using room l(1) y by auto
  have f: "free_above m ?B"
    using copied_below [OF v portableD(6) [OF p]] by (fastforce simp: free_above_def public_defs_def lits_below_def)
  obtain e where e: "gate_row ?c m ?cs d = Some (?valid, e)"
    "client e (?B\<lparr>maxvar := max (maxvar ?B) (if ?cs = [] then 0 else m + length ?cs), ands := ands ?B @ ?gs\<rparr>)"
    using gate_row_client [OF d f r] by blast
  have mx: "max (maxvar ?B) (if ?cs = [] then 0 else m + length ?cs) = ?k" by (cases ys) simp_all
  have "client e (monitored p m (m + length ?gs) [] ?gs (outputs p) [])" using e(2) unfolding mx by (simp add: monitored_lists)
  moreover have "move_valid p d = Some (?valid, e)"
    using and_chain_row [OF d _ r] e(1) la y by (simp add: move_valid_def)
  moreover have "chain m ?gs" by (rule row_chain) (use r in simp_all)
  moreover have "\<forall>g \<in> set ?gs. (defined_var p (and_rhs0 g div 2) \<or> m < and_rhs0 g div 2) \<and> defined_var p (and_rhs1 g div 2)"
  proof
    fix g assume "g \<in> set ?gs"
    from row_rhs [OF this] show "(defined_var p (and_rhs0 g div 2) \<or> m < and_rhs0 g div 2) \<and> defined_var p (and_rhs1 g div 2)"
      using l(2) y by auto
  qed
  moreover have "defined_var p (?valid div 2) \<or> m < ?valid div 2"
    using l(2) y by (cases ys) (simp_all add: row_end_def del: row_end_Cons)
  moreover have "?valid div 2 \<le> m + length ?gs" using r(2) by (simp add: row_end_def del: row_end_Cons)
  moreover have "litval \<nu> ?valid = list_all (\<lambda>x. x) (o_constraints (observe p \<nu>))" if "list_all (gate_holds \<nu>) ?gs" for \<nu>
    using row_value [OF that] by (simp add: observe_def y list_all_iff)
  ultimately show ?thesis using y by (intro exI [of _ ?valid] exI [of _ e] exI [of _ ?gs]) simp
qed


text \<open>With the monitor it also shows the latch, and the guarded bad literals.\<close>

lemma monitor_behaves:
  assumes p: "portable p" and v: "client v (copied p m)" and c: "constraints p \<noteq> []"
    and u: "client u (monitored p m k [invalid_latch name m (length (constraints p))] (monitor_gates p m) os bs)"
    and val: "\<And>\<tau> t. map (litval (\<tau> t) \<circ> sym_lit) (monitor_symbols p m) =
        map (\<lambda>x. held (\<lambda>s. observe p (\<tau> s)) t \<and> x) (o_bad (observe p (\<tau> t))) \<Longrightarrow>
      map (litval (\<tau> t) \<circ> sym_lit) os = f (\<lambda>s. observe p (\<tau> s)) t \<and> map (litval (\<tau> t) \<circ> sym_lit) bs = g (\<lambda>s. observe p (\<tau> s)) t"
  shows "behaviours u = (\<lambda>b t. watching b t (f b t) (g b t)) ` behaviours p"
proof (rule monitor_behaviours [OF copied_below [OF v portableD(6) [OF p]] _ _ monitor_chain [OF p v] invalid_fields(1,2)])
  fix \<tau> t assume r: "run u \<tau>"
  let ?b = "\<lambda>s. observe p (\<tau> s)"
  have "observe u (\<tau> t) = watching ?b t (map (litval (\<tau> t) \<circ> sym_lit) os) (map (litval (\<tau> t) \<circ> sym_lit) bs)"
    using monitor_runs(1) [OF p v c u r, of t] clientD(6-12) [OF u] unfolding observe_def [of u] watching_def showing_def
    by (simp add: observe_def [of p] del: mult_Suc_right)
  then show "observe u (\<tau> t) = watching ?b t (f ?b t) (g ?b t)" using val [OF monitor_runs(2) [OF p v c u r]] by simp
qed (simp_all add: clientD(7,13) [OF u])

text \<open>With latches, the monitor latch comes first, and the gates fill the variables up to \<open>valid\<close>.\<close>

lemma add_invalid_latch:
  assumes d: "client d (monitored p m k [] gs os bs)" and f: "fresh (monitored p m k [] gs os bs) (2 * Suc m)"
    and m: "m \<le> k" "Suc m + n < 2147483648"
  shows "\<exists>u. aiger_add_latch d (2 * Suc m) (aiger_not (2 * (Suc m + n))) (Some name) = Some u \<and>
     client u (monitored p m (max k (Suc m + n)) [invalid_latch name m n] gs os bs)"
proof -
  let ?B = "monitored p m k [] gs os bs"
  have x: "aiger_not (2 * (Suc m + n)) < 4294967296" using m(2) by (simp add: aiger_not_eq)
  have "(grow [2 * Suc m, aiger_not (2 * (Suc m + n))] ?B)\<lparr>latches := latches ?B @
      [(new_symbol (2 * Suc m) (Some name))\<lparr>sym_next := aiger_not (2 * (Suc m + n))\<rparr>]\<rparr> =
    monitored p m (max k (Suc m + n)) [invalid_latch name m n] gs os bs"
    using m(1) by (simp add: grow_def monitored_def invalid_latch_def max_def del: mult_Suc_right)
  then show ?thesis using client_add_latch [OF d f x, of "Some name"] by simp
qed

lemma free_monitored:
  assumes p: "portable p" and v: "client v (copied p m)" and ls: "ls = [] \<or> ls = [invalid_latch name m n]"
  shows "free_above (Suc m) (monitored p m k ls [] os bs)" "ls = [] \<Longrightarrow> free_above m (monitored p m k ls [] os bs)"
proof -
  have b: "\<forall>y \<in> set (inputs p). sym_lit y div 2 \<le> m" "\<forall>y \<in> set (latches p). sym_lit y div 2 \<le> m"
    "\<forall>g \<in> set (ands p). and_lhs g div 2 \<le> m"
    using copied_below [OF v portableD(6) [OF p]] by (simp_all add: lits_below_def)
  have "l div 2 \<le> m \<or> (ls \<noteq> [] \<and> l = 2 * Suc m)" if "l \<in> public_defs (monitored p m k ls [] os bs)" for l
    using that b ls by (auto simp: public_defs_def simp del: mult_Suc_right)
  then have "v \<le> m \<or> (ls \<noteq> [] \<and> v = Suc m)" if "2 * v \<in> public_defs (monitored p m k ls [] os bs)" for v
    using that by fastforce
  then show "free_above (Suc m) (monitored p m k ls [] os bs)" "ls = [] \<Longrightarrow> free_above m (monitored p m k ls [] os bs)"
    unfolding free_above_def by fastforce+
qed

lemma move_valid_monitor:
  assumes p: "portable p" and v: "client v (copied p m)" and d: "client d (monitored p m m [] [] (outputs p) [])"
    and c: "constraints p \<noteq> []" and la: "latches p \<noteq> []" and room: "Suc m + length (constraints p) < 2147483648"
  shows "\<exists>e. move_valid p d = Some (2 * (Suc m + length (constraints p)), e) \<and>
     client e (monitored p m (Suc m + length (constraints p)) [invalid_latch ''AIGMOVE_INVALID_LATCH'' m (length (constraints p))]
       (row_gates (aiger_not (2 * Suc m)) (Suc m) (map sym_lit (constraints p))) (outputs p) [])"
proof -
  let ?n = "length (constraints p)" and ?cs = "map sym_lit (constraints p)"
  let ?y = "invalid_latch ''AIGMOVE_INVALID_LATCH'' m ?n" and ?L = "aiger_not (2 * Suc m)"
  have f: "fresh (monitored p m m [] [] (outputs p) []) (2 * Suc m)"
    by (rule free_fresh [OF free_monitored(2) [OF p v]]) (use room in simp_all)
  obtain e1 where e1: "aiger_add_latch d (2 * Suc m) (aiger_not (2 * (Suc m + ?n))) (Some ''AIGMOVE_INVALID_LATCH'') = Some e1"
    "client e1 (monitored p m (Suc m + ?n) [?y] [] (outputs p) [])"
    using add_invalid_latch [OF d f _ room, of "''AIGMOVE_INVALID_LATCH''"] by (auto simp: max_def)
  let ?B = "monitored p m (Suc m + ?n) [?y] [] (outputs p) []"
  have fr: "free_above (Suc m) ?B" by (rule free_monitored(1) [OF p v]) simp
  have r: "Suc m + length ?cs < 2147483648" "?L div 2 \<le> Suc m" "\<forall>c \<in> set ?cs. c div 2 \<le> Suc m"
    using room source_lits(1) [OF p v] by (auto intro: le_SucI)
  obtain e where e: "gate_row ?L (Suc m) ?cs e1 = Some (row_end ?L (Suc m) ?cs, e)"
    "client e (?B\<lparr>maxvar := max (maxvar ?B) (if ?cs = [] then 0 else Suc m + length ?cs), ands := ands ?B @ row_gates ?L (Suc m) ?cs\<rparr>)"
    using gate_row_client [OF e1(2) fr r] by blast
  have re: "row_end ?L (Suc m) ?cs = 2 * (Suc m + ?n)" using c by (simp add: row_end_def del: row_end_Cons)
  have nl: "next_lit d = 2 * Suc m" using next_lit_eq clientD(5) [OF d] room by simp
  have val: "u32 (2 * Suc m + u32 (2 * ?n)) = 2 * (Suc m + ?n)" using room by simp
  have mm: "move_monitor (2 * Suc m) 0 ?L ?cs e1 = Some (2 * (Suc m + ?n), e)"
    using move_monitor_row [of "Suc m" 0 ?cs ?L e1] room e(1) re by (simp del: mult_Suc_right)
  have "move_valid p d = Some (2 * (Suc m + ?n), e)"
    unfolding move_valid_def Let_def nl val e1(1) using la by (simp add: mm del: mult_Suc_right)
  moreover have "client e (monitored p m (Suc m + ?n) [?y] (row_gates ?L (Suc m) ?cs) (outputs p) [])"
    using e(2) by (simp add: monitored_lists del: mult_Suc_right)
  ultimately show ?thesis by blast
qed

lemma move_monitor_built:
  assumes p: "portable p" and v: "client v (copied p m)" and d: "client d (monitored p m m [] [] (outputs p) [])"
    and c: "constraints p \<noteq> []" and la: "latches p \<noteq> []" and room: "monitor_end p m < 2147483648"
    and len: "length (outputs p) + length (bad p) < 4294967296"
  shows "\<exists>valid e u. move_valid p d = Some (valid, e) \<and> foldm (move_guarded valid) (bad p) e = Some u \<and> portable u \<and>
     behaviours u = (\<lambda>b t. watching b t (o_outputs (b t) @ map (\<lambda>x. held b t \<and> x) (o_bad (b t))) []) ` behaviours p"
proof -
  let ?n = "length (constraints p)" and ?gs = "row_gates (aiger_not (2 * Suc m)) (Suc m) (map sym_lit (constraints p))"
  let ?k = "Suc m + ?n" and ?y = "invalid_latch ''AIGMOVE_INVALID_LATCH'' m ?n" and ?zs = "monitor_symbols p m"
  have r: "?k + length (bad p) < 2147483648" "?k < 2147483648" using room by (simp_all add: monitor_end_def)
  obtain e where e: "move_valid p d = Some (2 * ?k, e)" "client e (monitored p m ?k [?y] ?gs (outputs p) [])"
    using move_valid_monitor [OF p v d c la r(2)] by blast
  have b: "2 * ?k div 2 \<le> ?k" "\<forall>y \<in> set (bad p). sym_lit y div 2 \<le> ?k"
    using source_lits(1) [OF p v] by (auto intro: le_SucI trans_le_add1)
  obtain u where u: "foldm (move_guarded (2 * ?k)) (bad p) e = Some u"
    "client u ((monitored p m ?k [?y] ?gs (outputs p) [])\<lparr>maxvar := ?k + length (bad p),
       ands := ands p @ ?gs @ guard_gates (2 * ?k) ?k (bad p), outputs := outputs p @ guard_symbols ?k (bad p)\<rparr>)"
    using outs.guards [OF e(2) _ r(1) b] move_guarded_row [OF e(2) _ r(1) b] by auto
  have "client u (monitored p m (?k + length (bad p)) [?y] (?gs @ guard_gates (2 * ?k) ?k (bad p)) (outputs p @ guard_symbols ?k (bad p)) [])"
    using u(2) by (simp only: monitored_lists)
  then have u2: "client u (monitored p m (monitor_end p m) [?y] (monitor_gates p m) (outputs p @ ?zs) [])"
    by (simp only: monitor_gates_def monitor_symbols_def monitor_end_def Let_def length_map)
  have "portable u"
    by (rule monitor_portable [OF p v c _ u2]) (use len in \<open>auto simp: plain_name_def monitor_symbols_def\<close>)
  moreover have "behaviours u = (\<lambda>b t. watching b t (o_outputs (b t) @ map (\<lambda>x. held b t \<and> x) (o_bad (b t))) []) ` behaviours p"
    by (rule monitor_behaves [OF p v c u2]) (simp add: observe_def)
  ultimately show ?thesis using e(1) u(1) by blast
qed

lemma aigmove_builds:
  assumes p: "portable p" and s: "move_supported p"
  shows "\<exists>u. aigmove_build opts p = Some u \<and> portable u \<and> behaviours u = move_effect opts p ` behaviours p"
proof -
  obtain v m where v: "copy_model p aiger_init = Some v" "client v (copied p m)" "m \<le> maxvar p" using p by (rule copied_start)
  obtain d where d: "foldm copy_output (outputs p) v = Some d" "client d (monitored p m m [] [] (outputs p) [])"
    using copy_outputs_client [OF p v(2)] by blast
  have len: "length (outputs p) + length (bad p) < 4294967296" using s by (simp add: move_supported_def)
  have room: "monitor_end p m < 2147483648" "m + length (constraints p) < 2147483648"
    using s v(3) by (simp_all add: move_supported_def monitor_end_def)
  consider "opt_reverse opts" | "\<not> opt_reverse opts" "bad p = [] \<or> constraints p = []"
    | "\<not> opt_reverse opts" "bad p \<noteq> []" "constraints p \<noteq> []" "latches p = []"
    | "\<not> opt_reverse opts" "bad p \<noteq> []" "constraints p \<noteq> []" "latches p \<noteq> []" by blast
  then show ?thesis
  proof cases
    case 1
    with move_reverse_built [OF p v(2)] v(1) show ?thesis by (auto simp: aigmove_build_def move_effect_def [abs_def])
  next
    case 2
    with move_plain_built [OF p v(2) d(2) len] v(1) d(1) show ?thesis
      by (auto simp: aigmove_build_def move_effect_def [abs_def])
  next
    case 3
    obtain valid e gs where e: "move_valid p d = Some (valid, e)" "client e (monitored p m (m + length gs) [] gs (outputs p) [])"
      "chain m gs" "length gs \<le> length (constraints p)"
      "\<forall>g \<in> set gs. (defined_var p (and_rhs0 g div 2) \<or> m < and_rhs0 g div 2) \<and> defined_var p (and_rhs1 g div 2)"
      "defined_var p (valid div 2) \<or> m < valid div 2" "valid div 2 \<le> m + length gs"
      "\<forall>\<nu>. list_all (gate_holds \<nu>) gs \<longrightarrow> litval \<nu> valid = list_all (\<lambda>x. x) (o_constraints (observe p \<nu>))"
      using move_valid_plain [OF p v(2) d(2) 3(3,4) room(2)] by blast
    have "m + length gs + length (bad p) < 2147483648" using e(4) room(1) by (simp add: monitor_end_def)
    from move_guards_built [OF p v(2) e(2,3,5-7) _ this len] e(1,8) v(1) d(1) 3 show ?thesis
      by (auto simp: aigmove_build_def move_effect_def [abs_def])
  next
    case 4
    from move_monitor_built [OF p v(2) d(2) 4(3,4) room(1) len] v(1) d(1) 4 show ?thesis
      by (auto simp: aigmove_build_def move_effect_def [abs_def])
  qed
qed


section \<open>aigunconstraint\<close>

definition unconstraint_effect :: "aiger_private \<Rightarrow> (nat \<Rightarrow> observation) \<Rightarrow> nat \<Rightarrow> observation" where
  "unconstraint_effect p b t =
     (if constraints p = [] then b t else watching b t [] (map (\<lambda>x. held b t \<and> x) (o_bad (b t))))"

definition unconstraint_supported :: "aiger_private \<Rightarrow> bool" where
  "unconstraint_supported p \<longleftrightarrow> maxvar p \<noteq> 0 \<and> maxvar p + 1 + length (constraints p) + length (bad p) < 1073741824"

lemma copy_again:
  assumes "wf_aiger p" "shaped p"
  shows "\<exists>d1 d2 u m. foldm copy_input (inputs p) aiger_init = Some d1 \<and> foldm copy_and (ands p) d1 = Some d2 \<and>
     foldm copy_latch_if (latches p) d2 = Some u \<and> client u (copied p m) \<and> m \<le> maxvar p"
proof -
  have p: "source_ok p" using assms by (simp add: source_ok_def)
  note s = source_okD [OF p]
  have b: "public_defs (blank n) = {}" for n by (simp add: public_defs_def blank_def)
  obtain u1 m1 where 1: "foldm copy_input (inputs p) aiger_init = Some u1" "m1 \<le> maxvar p"
    "client u1 ((blank 0)\<lparr>inputs := inputs p, maxvar := m1\<rparr>)"
    using copy_inputs [OF p client_init] b [of 0] by (auto simp: blank_def)
  obtain u2 m2 where 2: "foldm copy_and (ands p) u1 = Some u2" "m2 \<le> maxvar p"
    "client u2 ((blank 0)\<lparr>inputs := inputs p, ands := ands p, maxvar := m2\<rparr>)"
    using copy_ands [OF p 1(3)] 1(2) s(6) by (auto simp: public_defs_def blank_def Int_commute)
  have f: "copy_latch_if y d = Some v \<or> (sym_reset y = 0 \<and> copy_latch_if y d = Some u)"
    if "aiger_add_latch d (sym_lit y) (sym_next y) (sym_name y) = Some u" "aiger_add_reset u (sym_lit y) (sym_reset y) = Some v" for y d u v
    using that by (simp add: copy_latch_if_def)
  obtain u3 m3 where 3: "foldm copy_latch_if (latches p) u2 = Some u3" "m3 \<le> maxvar p"
    "client u3 ((blank 0)\<lparr>inputs := inputs p, latches := latches p, ands := ands p, maxvar := m3\<rparr>)"
    using copy_latches [where f = copy_latch_if, OF p 2(3) _ _ f] 2(2) s(5,7)
    by (auto simp: public_defs_def blank_def Int_Un_distrib Int_commute)
  show ?thesis using 1(1) 2(1) 3(1,2) 3(3) [unfolded copied_record] by blast
qed

lemma unconstraint_copy_built:
  assumes p: "portable p" and c: "constraints p \<noteq> []"
    and room: "maxvar p + 1 + length (constraints p) + length (bad p) < 2147483648"
  shows "\<exists>u. aigunconstraint_copy p = Some u \<and> portable u \<and> 0 < maxvar u \<and>
     maxvar u \<le> maxvar p + 1 + length (constraints p) + length (bad p) \<and>
     behaviours u = (\<lambda>b t. watching b t [] (map (\<lambda>x. held b t \<and> x) (o_bad (b t)))) ` behaviours p"
proof -
  obtain d1 d2 v m where v: "foldm copy_input (inputs p) aiger_init = Some d1" "foldm copy_and (ands p) d1 = Some d2"
    "foldm copy_latch_if (latches p) d2 = Some v" "client v (copied p m)" "m \<le> maxvar p"
    using copy_again [OF portableD(5,2) [OF p]] by blast
  note v' = v(4) [unfolded copied_monitored]
  let ?n = "length (constraints p)" and ?cs = "map sym_lit (constraints p)" and ?L = "aiger_not (2 * Suc m)"
  let ?k = "Suc m + ?n" and ?gs = "row_gates ?L (Suc m) ?cs" and ?y = "invalid_latch ''AIGUNCONSTRAINT_INVALID_STATE'' m ?n"
  have r: "?k + length (bad p) < 2147483648" "?k < 2147483648" "monitor_end p m < 2147483648"
    using room v(5) by (simp_all add: monitor_end_def)
  have nl: "newlit 0 v = (2 * Suc m, Suc m)" using clientD(5) [OF v(4)] r(2) by (simp add: newlit_def Let_def)
  have cs: "Suc m + length ?cs < 2147483648" "?L div 2 \<le> Suc m" "\<forall>c \<in> set ?cs. c div 2 \<le> Suc m"
    using r source_lits(1) [OF p v(4)] by (auto intro: le_SucI)
  obtain e where e: "gate_row ?L (Suc m) ?cs v = Some (row_end ?L (Suc m) ?cs, e)"
    "client e ((monitored p m m [] [] [] [])\<lparr>maxvar := max m (if ?cs = [] then 0 else Suc m + length ?cs), ands := ands p @ ?gs\<rparr>)"
    using gate_row_client [OF v' free_monitored(1) [OF p v(4)] cs] by auto
  have re: "row_end ?L (Suc m) ?cs = 2 * ?k" using c by (simp add: row_end_def del: row_end_Cons)
  have "client e (monitored p m (max m (if ?cs = [] then 0 else Suc m + length ?cs)) [] ?gs [] [])"
    using e(2) by (simp only: monitored_lists)
  moreover have "max m (if ?cs = [] then 0 else Suc m + length ?cs) = ?k" using c by simp
  ultimately have e2: "client e (monitored p m ?k [] ?gs [] [])" by simp
  have un: "unconstraint_valid ?cs ?L (Suc m) v = Some (2 * ?k, ?k, e)"
    using unconstraint_valid_row [of "Suc m" ?cs ?L v] cs(1) e(1) re by (simp del: mult_Suc_right)
  have "chain (Suc m) ?gs" by (rule row_chain) (use cs in simp_all)
  then have "2 * Suc m \<noteq> and_lhs g" if "g \<in> set ?gs" for g using chain_gate that by fastforce
  moreover have "2 * Suc m \<notin> public_defs (monitored p m ?k [] [] [] [])"
    using free_monitored(2) [OF p v(4)] by (simp add: free_above_def del: mult_Suc_right)
  ultimately have f: "fresh (monitored p m ?k [] ?gs [] []) (2 * Suc m)"
    using r(2) by (auto simp: fresh_def public_defs_def simp del: mult_Suc_right)
  obtain w where w: "aiger_add_latch e (2 * Suc m) (aiger_not (2 * ?k)) (Some ''AIGUNCONSTRAINT_INVALID_STATE'') = Some w"
    "client w (monitored p m ?k [?y] ?gs [] [])"
    using add_invalid_latch [OF e2 f _ r(2), of "''AIGUNCONSTRAINT_INVALID_STATE''"] by (auto simp: max_def)
  have b: "2 * ?k div 2 \<le> ?k" "\<forall>y \<in> set (bad p). sym_lit y div 2 \<le> ?k"
    using source_lits(1) [OF p v(4)] by (auto intro: le_SucI trans_le_add1)
  obtain u where u: "guard_row aiger_add_bad (2 * ?k) ?k (bad p) w = Some u"
    "client u ((monitored p m ?k [?y] ?gs [] [])\<lparr>maxvar := ?k + length (bad p),
       ands := ands p @ ?gs @ guard_gates (2 * ?k) ?k (bad p), bad := guard_symbols ?k (bad p)\<rparr>)"
    using bads.guards [OF w(2) _ r(1) b] by auto
  have "client u (monitored p m (?k + length (bad p)) [?y] (?gs @ guard_gates (2 * ?k) ?k (bad p)) [] (guard_symbols ?k (bad p)))"
    using u(2) by (simp only: monitored_lists)
  then have u2: "client u (monitored p m (monitor_end p m) [?y] (monitor_gates p m) [] (monitor_symbols p m))"
    by (simp only: monitor_gates_def monitor_symbols_def monitor_end_def Let_def length_map)
  have "aigunconstraint_copy p = Some u"
    using v(1-3) nl un w(1) u(1) unconstraint_bad_row [of ?k "bad p" "2 * ?k" w] r(1)
    by (simp add: aigunconstraint_copy_def Let_def del: mult_Suc_right)
  moreover have "portable u"
    by (rule monitor_portable [OF p v(4) c _ u2])
      (use portableD(4) [OF p] in \<open>auto simp: plain_name_def monitor_symbols_def small_counts_def\<close>)
  moreover have "behaviours u = (\<lambda>b t. watching b t [] (map (\<lambda>x. held b t \<and> x) (o_bad (b t)))) ` behaviours p"
    by (rule monitor_behaves [OF p v(4) c u2]) simp
  moreover have "0 < maxvar u" "maxvar u \<le> maxvar p + 1 + length (constraints p) + length (bad p)"
    using clientD(5) [OF u2] v(5) by (simp_all add: monitor_end_def)
  ultimately show ?thesis by blast
qed

lemma aigunconstraint_builds:
  assumes p: "portable p" and s: "unconstraint_supported p"
  shows "\<exists>u. aigunconstraint_build p = Some u \<and> writable u \<and> behaviours u = unconstraint_effect p ` behaviours p"
proof (cases "constraints p = []")
  case True
  with reencode_writable [OF p] s show ?thesis
    by (auto simp: aigunconstraint_build_def unconstraint_effect_def [abs_def] unconstraint_supported_def)
next
  case False
  obtain d where d: "aigunconstraint_copy p = Some d" "portable d" "0 < maxvar d"
    "maxvar d \<le> maxvar p + 1 + length (constraints p) + length (bad p)"
    "behaviours d = (\<lambda>b t. watching b t [] (map (\<lambda>x. held b t \<and> x) (o_bad (b t)))) ` behaviours p"
    using unconstraint_copy_built [OF p False] s by (auto simp: unconstraint_supported_def)
  have "maxvar d < 1073741824" using d(4) s by (simp add: unconstraint_supported_def)
  with reencode_writable [OF d(2,3)] d(1,5) False show ?thesis
    by (auto simp: aigunconstraint_build_def unconstraint_effect_def [abs_def])
qed


section \<open>Reachable bad states\<close>

text \<open>
  A bad literal is reachable when it holds at the end of a run whose constraints have held up to
  then, and an output when it holds at the end of any run.
\<close>

definition reaches_bad :: "aiger_private \<Rightarrow> nat \<Rightarrow> bool" where
  "reaches_bad p j \<longleftrightarrow> (\<exists>b \<in> behaviours p. \<exists>t. held b t \<and> o_bad (b t) ! j)"

definition reaches_output :: "aiger_private \<Rightarrow> nat \<Rightarrow> bool" where
  "reaches_output p j \<longleftrightarrow> (\<exists>b \<in> behaviours p. \<exists>t. o_outputs (b t) ! j)"

lemma observed_lengths:
  assumes "b \<in> behaviours p"
  shows "length (o_outputs (b t)) = length (outputs p)" "length (o_bad (b t)) = length (bad p)"
    "length (o_constraints (b t)) = length (constraints p)"
  using assms by (auto simp: behaviours_def observe_def)

lemma watching_simps [simp]:
  "o_outputs (watching b t os bs) = os" "o_bad (watching b t os bs) = bs" "o_constraints (watching b t os bs) = []"
  "o_outputs (showing ob os bs) = os" "o_bad (showing ob os bs) = bs" "o_constraints (showing ob os bs) = []"
  by (simp_all add: watching_def showing_def)

lemma held_free: "constraints p = [] \<Longrightarrow> b \<in> behaviours p \<Longrightarrow> held b t"
  using observed_lengths(3) [of b p] by (fastforce simp: held_def)

text \<open>Without latches every step can be the first one.\<close>

lemma constant_behaviour:
  assumes "latches p = []" "b \<in> behaviours p"
  shows "(\<lambda>s. b t) \<in> behaviours p"
proof -
  obtain \<tau> where \<tau>: "run p \<tau>" "b = (\<lambda>s. observe p (\<tau> s))" using assms(2) by (auto simp: behaviours_def)
  then have "run p (\<lambda>s. \<tau> t)" using assms(1) by (simp add: run_def)
  with \<tau>(2) show ?thesis by (auto simp: behaviours_def intro!: exI [of _ "\<lambda>s. \<tau> t"])
qed

lemma reaches_bad_now:
  assumes "latches p = []"
  shows "reaches_bad p j = (\<exists>b \<in> behaviours p. \<exists>t. list_all (\<lambda>x. x) (o_constraints (b t)) \<and> o_bad (b t) ! j)"
proof
  assume "\<exists>b \<in> behaviours p. \<exists>t. list_all (\<lambda>x. x) (o_constraints (b t)) \<and> o_bad (b t) ! j"
  then obtain b t where b: "b \<in> behaviours p" "list_all (\<lambda>x. x) (o_constraints (b t))" "o_bad (b t) ! j" by blast
  from constant_behaviour [OF assms b(1), of t] b(2,3) show "reaches_bad p j"
    unfolding reaches_bad_def held_def by (intro bexI [of _ "\<lambda>s. b t"] exI [of _ 0]) auto
qed (auto simp: reaches_bad_def held_def)

lemma move_keeps_bad:
  assumes "\<not> opt_reverse opts" "j < length (bad p)" "behaviours u = move_effect opts p ` behaviours p"
  shows "reaches_output u (length (outputs p) + j) = reaches_bad p j"
proof -
  have "reaches_output u (length (outputs p) + j) =
      (\<exists>b \<in> behaviours p. \<exists>t. o_outputs (move_effect opts p b t) ! (length (outputs p) + j))"
    by (simp add: reaches_output_def assms(3))
  also have "\<dots> = reaches_bad p j"
  proof (cases "bad p = [] \<or> constraints p = [] \<or> latches p \<noteq> []")
    case True
    have "(o_outputs (move_effect opts p b t) ! (length (outputs p) + j)) = (held b t \<and> o_bad (b t) ! j)" if "b \<in> behaviours p" for b t
      using observed_lengths [OF that] held_free [OF _ that] True assms(1,2) by (auto simp: move_effect_def nth_append)
    then show ?thesis by (simp add: reaches_bad_def)
  next
    case False
    have "(o_outputs (move_effect opts p b t) ! (length (outputs p) + j)) =
        (list_all (\<lambda>x. x) (o_constraints (b t)) \<and> o_bad (b t) ! j)" if "b \<in> behaviours p" for b t
      using observed_lengths [OF that] False assms(1,2) by (auto simp: move_effect_def nth_append)
    then show ?thesis using reaches_bad_now False by simp
  qed
  finally show ?thesis .
qed

lemma unconstraint_keeps_bad:
  assumes "j < length (bad p)" "behaviours u = unconstraint_effect p ` behaviours p"
  shows "reaches_bad u j = reaches_bad p j"
proof (cases "constraints p = []")
  case True
  then have "unconstraint_effect p = (\<lambda>b. b)" by (simp add: unconstraint_effect_def [abs_def])
  with assms(2) show ?thesis by (simp add: reaches_bad_def)
next
  case False
  then have "unconstraint_effect p = (\<lambda>b t. watching b t [] (map (\<lambda>x. held b t \<and> x) (o_bad (b t))))"
    by (simp add: unconstraint_effect_def [abs_def])
  then have "reaches_bad u j = (\<exists>b \<in> behaviours p. \<exists>t. map (\<lambda>x. held b t \<and> x) (o_bad (b t)) ! j)"
    unfolding reaches_bad_def assms(2) by (simp add: held_def [of "\<lambda>t. watching b t os bs" for b os bs] held_def [of "\<lambda>t. watching b t [] (f t)" for b f])
  also have "\<dots> = reaches_bad p j"
    unfolding reaches_bad_def by (intro bex_cong refl ex_cong1) (use observed_lengths(2) assms(1) in simp)
  finally show ?thesis .
qed

section \<open>The programs\<close>

lemma same_lists:
  assumes "aiger.truncate q = aiger.truncate p"
  shows "maxvar q = maxvar p" "latches q = latches p" "outputs q = outputs p" "bad q = bad p" "constraints q = constraints p"
    "justice q = justice p" "fairness q = fairness p"
  using assms by (simp_all add: aiger.truncate_def)

interpretation move_tool: tool "move_refuse opts" "aigmove_build opts" move_supported "move_effect opts" for opts
proof unfold_locales
  fix p q :: aiger_private assume e: "aiger.truncate q = aiger.truncate p"
  show "move_refuse opts q = move_refuse opts p" unfolding move_refuse_def same_lists [OF e] ..
  show "move_supported q = move_supported p" unfolding move_supported_def same_lists [OF e] ..
  show "move_effect opts q = move_effect opts p" by (simp add: fun_eq_iff move_effect_def same_lists [OF e])
qed (rule portable_writable, erule aigmove_builds, assumption)

interpretation unconstraint_tool: tool "unconstraint_refuse input" aigunconstraint_build unconstraint_supported unconstraint_effect for input
proof unfold_locales
  fix p q :: aiger_private assume e: "aiger.truncate q = aiger.truncate p"
  show "unconstraint_refuse input q = unconstraint_refuse input p" unfolding unconstraint_refuse_def same_lists [OF e] ..
  show "unconstraint_supported q = unconstraint_supported p" unfolding unconstraint_supported_def same_lists [OF e] ..
  show "unconstraint_effect q = unconstraint_effect p" by (simp add: fun_eq_iff unconstraint_effect_def same_lists [OF e])
qed (erule aigunconstraint_builds, assumption)

end
