(* ===== verification/AigerInPlace.thy ===== *)
theory AigerInPlace
  imports AigerTools
begin

text \<open>
  The tool \<open>aigstrip\<close>, which replaces a file by its stripped form: its arguments, the files it
  renames, writes and removes, and what becomes of the circuit.
\<close>

section \<open>aigstrip\<close>

text \<open>
  The directory: what each name holds, and which renamings and removals the system allows.
\<close>

record directory =
  dir_files :: "string \<Rightarrow> stored option"
  dir_can_rename :: "string \<Rightarrow> string \<Rightarrow> bool"
  dir_can_unlink :: "string \<Rightarrow> bool"

text \<open>\<open>rename\<close> and \<open>unlink\<close> return whether they succeeded.\<close>

definition rename_file :: "string \<Rightarrow> string \<Rightarrow> directory \<Rightarrow> bool \<times> directory" where
  "rename_file old new dir =
     (if dir_can_rename dir old new \<and> dir_files dir old \<noteq> None
      then (True, dir\<lparr>dir_files := (dir_files dir)(old := None, new := dir_files dir old)\<rparr>)
      else (False, dir))"

definition unlink_file :: "string \<Rightarrow> directory \<Rightarrow> bool \<times> directory" where
  "unlink_file name dir =
     (if dir_can_unlink dir name \<and> dir_files dir name \<noteq> None
      then (True, dir\<lparr>dir_files := (dir_files dir)(name := None)\<rparr>)
      else (False, dir))"

definition store_file :: "string \<Rightarrow> stored option \<Rightarrow> directory \<Rightarrow> directory" where
  "store_file name file dir =
     (case file of None \<Rightarrow> dir | Some f \<Rightarrow> dir\<lparr>dir_files := (dir_files dir)(name \<mapsto> f)\<rparr>)"

text \<open>The exit code, the standard output, and the directory afterwards.\<close>

record strip_exit =
  strip_code :: nat
  strip_stdout :: c_file
  strip_dir :: directory

datatype strip_args = StripHelp | StripError string | StripFile "string option"

fun strip_scan :: "string list \<Rightarrow> string option \<Rightarrow> strip_args" where
  "strip_scan [] name = StripFile name"
| "strip_scan (arg # argv) name =
     (if arg = ''-h'' then StripHelp
      else if arg \<noteq> [] \<and> hd arg = CHR ''-'' then
        StripError (sprintf (''invalid option '' @ [CHR 0x27] @ ''%s'' @ [CHR 0x27]) [FmtS arg])
      else if name \<noteq> None then StripError ''multiple files''
      else strip_scan argv (Some arg))"

definition strip_stream :: "tool_env \<Rightarrow> directory \<Rightarrow> strip_exit option" where
  "strip_stream env dir = do {
     model \<leftarrow> aiger_read_from_file aiger_init (env_stdin env);
     if aiger_error model \<noteq> None then Some \<lparr>strip_code = 1, strip_stdout = env_stdout env, strip_dir = dir\<rparr>
     else do {
       (n, model) \<leftarrow> aiger_strip_symbols_and_comments model;
       (ok, model, f) \<leftarrow> aiger_write_to_file model (if env_isatty env then aiger_ascii_mode else aiger_binary_mode)
         (env_stdout env);
       Some \<lparr>strip_code = (if ok then 0 else 1), strip_stdout = f, strip_dir = dir\<rparr>
     }
   }"

definition strip_replace :: "tool_env \<Rightarrow> directory \<Rightarrow> string \<Rightarrow> aiger_private \<Rightarrow> strip_exit option" where
  "strip_replace env dir name model =
     (let renamed = sprintf ''%s~'' [FmtS name];
          (ok, dir) = rename_file name renamed dir in
      if \<not> ok then Some \<lparr>strip_code = 1, strip_stdout = env_stdout env, strip_dir = dir\<rparr>
      else do {
        (res, model, file, unlinked) \<leftarrow> aiger_open_and_write_to_file (env_write env) (env_close env) model name;
        let dir = store_file name file dir;
        let dir = (if unlinked then snd (unlink_file name dir) else dir);
        if res then
          (let (removed, dir) = unlink_file renamed dir in
           Some \<lparr>strip_code = 0, strip_stdout = env_stdout env, strip_dir = dir\<rparr>)
        else
          (let (restored, dir) = rename_file renamed name dir in
           Some \<lparr>strip_code = 1, strip_stdout = env_stdout env, strip_dir = dir\<rparr>)
      })"

definition strip_named :: "tool_env \<Rightarrow> directory \<Rightarrow> string \<Rightarrow> strip_exit option" where
  "strip_named env dir name = do {
     model \<leftarrow> aiger_open_and_read_from_file (env_read env) aiger_init name;
     if aiger_error model \<noteq> None then Some \<lparr>strip_code = 1, strip_stdout = env_stdout env, strip_dir = dir\<rparr>
     else do {
       (n, model) \<leftarrow> aiger_strip_symbols_and_comments model;
       strip_replace env dir name model
     }
   }"

definition aigstrip_main :: "tool_env \<Rightarrow> directory \<Rightarrow> string list \<Rightarrow> strip_exit option" where
  "aigstrip_main env dir argv =
     (case strip_scan argv None of
        StripHelp \<Rightarrow> Some \<lparr>strip_code = 0, strip_stdout = env_stdout env, strip_dir = dir\<rparr>
      | StripError msg \<Rightarrow> Some \<lparr>strip_code = 1, strip_stdout = env_stdout env, strip_dir = dir\<rparr>
      | StripFile None \<Rightarrow> strip_stream env dir
      | StripFile (Some name) \<Rightarrow> strip_named env dir name)"

section \<open>What becomes of the circuit\<close>

lemma store_Some [simp]: "dir_files (store_file name (Some f) dir) = (dir_files dir)(name \<mapsto> f)"
  by (simp add: store_file_def)

lemma store_other [simp]: "other \<noteq> name \<Longrightarrow> dir_files (store_file name file dir) other = dir_files dir other"
  by (simp add: store_file_def split: option.split)

lemma unlink_other [simp]: "other \<noteq> name \<Longrightarrow> dir_files (snd (unlink_file name dir)) other = dir_files dir other"
  by (simp add: unlink_file_def)

lemma rename_result:
  "rename_file old new dir = (ok, dir') \<Longrightarrow> old \<noteq> new \<Longrightarrow>
     if ok then dir_files dir' new = dir_files dir old \<and> dir_files dir old \<noteq> None else dir' = dir"
  by (auto simp: rename_file_def split: if_splits)

text \<open>A stream of the environment accepted the whole text of the structure, and \<open>content\<close> is what closing it left.\<close>

definition written :: "tool_env \<Rightarrow> aiger_private \<Rightarrow> stored option \<Rightarrow> bool" where
  "written env p content \<longleftrightarrow> (\<exists>target stream mode q f. env_write env target = Some stream \<and>
     aiger_write_to_file p mode stream = Some (True, q, f) \<and> content = Some (env_close env target f))"

lemma writtenI:
  "env_write env target = Some stream \<Longrightarrow> aiger_write_to_file p mode stream = Some (True, q, f) \<Longrightarrow>
     written env p (Some (env_close env target f))"
  unfolding written_def by blast

lemma open_write_result:
  assumes "aiger_open_and_write_to_file (env_write env) (env_close env) p name = Some (ok, q, content, unlinked)"
  shows "(ok \<longrightarrow> written env p content) \<and> (unlinked \<longrightarrow> \<not> ok)"
  using assms
  by (auto simp: aiger_open_and_write_to_file_def Let_def Option.bind_eq_Some_conv split: option.splits if_splits intro: writtenI)

text \<open>
  Replacing a file keeps it under its name or under the name of the backup, unless the program
  reports success: then the file is what closing the stream left, after the stream accepted the
  whole text.
\<close>

definition kept :: "tool_env \<Rightarrow> directory \<Rightarrow> string \<Rightarrow> aiger_private \<Rightarrow> strip_exit \<Rightarrow> bool" where
  "kept env dir name p x \<longleftrightarrow>
     dir_files (strip_dir x) name = dir_files dir name \<or> dir_files (strip_dir x) (name @ ''~'') = dir_files dir name \<or>
     (strip_code x = 0 \<and> written env p (dir_files (strip_dir x) name))"

lemma replace_keeps:
  assumes "strip_replace env dir name p = Some x"
  shows "kept env dir name p x"
proof -
  obtain ok dir1 where r: "rename_file name (name @ ''~'') dir = (ok, dir1)" by fastforce
  show ?thesis
  proof (cases ok)
    case False
    with r assms rename_result [OF r] show ?thesis by (auto simp: strip_replace_def kept_def)
  next
    case True
    note ok = True
    have b: "dir_files dir1 (name @ ''~'') = dir_files dir name" using rename_result [OF r] True by simp
    obtain res q content unlinked where
      w: "aiger_open_and_write_to_file (env_write env) (env_close env) p name = Some (res, q, content, unlinked)"
      using assms r True by (auto simp: strip_replace_def Let_def split: Option.bind_splits)
    let ?dir2 = "store_file name content dir1"
    let ?dir3 = "if unlinked then snd (unlink_file name ?dir2) else ?dir2"
    have b3: "dir_files ?dir3 (name @ ''~'') = dir_files dir name" using b by simp
    show ?thesis
    proof (cases res)
      case True
      then have f: "written env p content" "\<not> unlinked" using open_write_result [OF w] by auto
      then obtain f where "content = Some f" by (auto simp: written_def)
      moreover have "strip_dir x = snd (unlink_file (name @ ''~'') ?dir2)" "strip_code x = 0"
        using assms r w ok True f(2) by (auto simp: strip_replace_def Let_def split: prod.splits)
      ultimately show ?thesis using f(1) by (simp add: kept_def)
    next
      case False
      obtain res4 dir4 where r4: "rename_file (name @ ''~'') name ?dir3 = (res4, dir4)" by fastforce
      have "strip_dir x = dir4" using assms r w ok False r4 by (auto simp: strip_replace_def Let_def split: prod.splits)
      moreover have "dir_files dir4 name = dir_files dir name \<or> dir_files dir4 (name @ ''~'') = dir_files dir name"
        using rename_result [OF r4] b3 by (cases res4) auto
      ultimately show ?thesis by (auto simp: kept_def)
    qed
  qed
qed

lemma strip_keeps:
  assumes "aigstrip_main env dir [name] = Some x" "name = [] \<or> hd name \<noteq> CHR ''-''"
  shows "dir_files (strip_dir x) name = dir_files dir name \<or> dir_files (strip_dir x) (name @ ''~'') = dir_files dir name \<or>
    (strip_code x = 0 \<and> (\<exists>src n p. aiger_open_and_read_from_file (env_read env) aiger_init name = Some src \<and> error src = None \<and>
       aiger_strip_symbols_and_comments src = Some (n, p) \<and> written env p (dir_files (strip_dir x) name)))"
proof -
  have "name \<noteq> ''-h''" using assms(2) by auto
  then have "strip_named env dir name = Some x" using assms by (auto simp: aigstrip_main_def)
  then consider "strip_dir x = dir"
    | src n p where "aiger_open_and_read_from_file (env_read env) aiger_init name = Some src" "error src = None"
        "aiger_strip_symbols_and_comments src = Some (n, p)" "strip_replace env dir name p = Some x"
    by (auto simp: strip_named_def aiger_error_def split: Option.bind_splits if_splits)
  then show ?thesis
  proof cases
    case 2
    with replace_keeps [OF 2(4)] show ?thesis unfolding kept_def by blast
  qed simp
qed

end
