(* ===== verification/AigerCnf.thy ===== *)
theory AigerCnf
  imports AigerToolsEffect
begin

text \<open>
  The translator \<open>aigtocnf\<close>: a combinational structure with one output becomes a formula in clause
  normal form, in the format of DIMACS, that is satisfiable when the output can be true. Clauses are
  only generated for the polarities in which gates are used (Plaisted and Greenbaum), unless the
  option \<open>--no-pg\<close> asks for all of them.
\<close>

section \<open>The arguments\<close>

record cnf_options =
  opt_pg :: bool
  opt_prtmap :: bool

datatype cnf_exit = CnfUsage | CnfDie string | CnfWrote "string option" string

fun cnf_args ::
    "string list \<Rightarrow> cnf_options \<Rightarrow> string option \<Rightarrow> string option \<Rightarrow>
       cnf_exit + cnf_options \<times> string option \<times> string option" where
  "cnf_args [] opts input output = Inr (opts, input, output)"
| "cnf_args (arg # argv) opts input output =
     (if arg = ''-h'' then Inl CnfUsage
      else if arg = ''-m'' then cnf_args argv (opts\<lparr>opt_prtmap := True\<rparr>) input output
      else if arg = ''-v'' then cnf_args argv opts input output
      else if arg = ''--no-pg'' then cnf_args argv (opts\<lparr>opt_pg := False\<rparr>) input output
      else if arg \<noteq> [] \<and> hd arg = CHR ''-'' then
        Inl (CnfDie (sprintf (''invalid command line option '' @ [CHR 0x27] @ ''%s'' @ [CHR 0x27]) [FmtS arg]))
      else if input = None then cnf_args argv opts (Some arg) output
      else if output = None then cnf_args argv opts input (Some arg)
      else Inl (CnfDie ''more than two files specified''))"

definition cnf_refuse :: "aiger_private \<Rightarrow> string option" where
  "cnf_refuse p =
     (if latches p \<noteq> [] then Some ''can not handle latches''
      else if bad p \<noteq> [] then
        Some (''can not handle bad state properties (use '' @ [CHR 0x27] @ ''aigmove'' @ [CHR 0x27] @ '')'')
      else if constraints p \<noteq> [] then
        Some (''can not handle environment constraints (use '' @ [CHR 0x27] @ ''aigmove'' @ [CHR 0x27] @ '')'')
      else if outputs p = [] then Some ''no output''
      else if 1 < length (outputs p) then Some ''more than one output''
      else None)"

section \<open>References to literals\<close>

definition bump :: "uint \<Rightarrow> uint list \<Rightarrow> uint list option" where
  "bump lit refs = do { n \<leftarrow> deref refs lit; Some (refs[lit := u32 (n + 1)]) }"

definition ref_and :: "aiger_and \<Rightarrow> uint list \<Rightarrow> uint list option" where
  "ref_and g refs = do {
     n \<leftarrow> deref refs (and_lhs g);
     refs \<leftarrow> (if n \<noteq> 0 then do { refs \<leftarrow> bump (and_rhs0 g) refs; bump (and_rhs1 g) refs } else Some refs);
     n \<leftarrow> deref refs (aiger_not (and_lhs g));
     if n \<noteq> 0 then do { refs \<leftarrow> bump (aiger_not (and_rhs0 g)) refs; bump (aiger_not (and_rhs1 g)) refs } else Some refs
   }"

definition count_refs :: "aiger_private \<Rightarrow> uint \<Rightarrow> uint list option" where
  "count_refs p lit = do {
     refs \<leftarrow> bump lit (replicate (u32 (2 * u32 (maxvar p + 1))) 0);
     foldm ref_and (rev (ands p)) refs
   }"

definition ref_all :: "uint \<Rightarrow> uint list \<Rightarrow> uint list option" where
  "ref_all lit refs = do { assert_c (lit < length refs); Some (refs[lit := 2147483647]) }"

definition cnf_refs :: "cnf_options \<Rightarrow> aiger_private \<Rightarrow> uint \<Rightarrow> uint list option" where
  "cnf_refs opts p lit = do {
     refs \<leftarrow> count_refs p lit;
     if opt_pg opts then Some refs else foldm ref_all [2..<2 * maxvar p + 2] refs
   }"

section \<open>The variables of the formula\<close>

text \<open>The map from literals, the numbers of variables and of clauses, and the comments of \<open>-m\<close>.\<close>

record cnf_map =
  cm_map :: "int list"
  cm_m :: nat
  cm_n :: nat
  cm_text :: string

definition map_const :: "aiger_private \<Rightarrow> uint list \<Rightarrow> cnf_map option" where
  "map_const p refs = do {
     let tab = replicate (u32 (2 * u32 (maxvar p + 1))) 0;
     a \<leftarrow> deref refs 0;
     b \<leftarrow> deref refs 1;
     Some (if a \<noteq> 0 \<or> b \<noteq> 0 then \<lparr>cm_map = tab[0 := - 1, 1 := 1], cm_m = 1, cm_n = 2, cm_text = []\<rparr>
           else \<lparr>cm_map = tab, cm_m = 0, cm_n = 1, cm_text = []\<rparr>)
   }"

definition map_lit :: "bool \<Rightarrow> nat \<Rightarrow> uint list \<Rightarrow> uint \<Rightarrow> cnf_map \<Rightarrow> cnf_map option" where
  "map_lit prtmap k refs lit s = do {
     a \<leftarrow> deref refs lit;
     b \<leftarrow> deref refs (lit + 1);
     if a = 0 \<and> b = 0 then Some s
     else do {
       let m = cm_m s + 1;
       assert_c (lit + 1 < length (cm_map s));
       let s = s\<lparr>cm_map := (cm_map s)[lit := int m, lit + 1 := - int m], cm_m := m\<rparr>;
       let s = (if prtmap then s\<lparr>cm_text := cm_text s @ ''c '' @ dec lit @ '' -> '' @ dec m @ ''\<newline>''\<rparr> else s);
       if lit \<le> 2 * k + 1 then Some s
       else do {
         let s = (if a \<noteq> 0 then s\<lparr>cm_n := cm_n s + 2\<rparr> else s);
         Some (if b \<noteq> 0 then s\<lparr>cm_n := cm_n s + 1\<rparr> else s)
       }
     }
   }"

definition map_lits :: "bool \<Rightarrow> aiger_private \<Rightarrow> uint list \<Rightarrow> cnf_map option" where
  "map_lits prtmap p refs = do {
     s \<leftarrow> map_const p refs;
     foldm (map_lit prtmap (length (inputs p)) refs) (map (\<lambda>v. 2 * v) [1..<maxvar p + 1]) s
   }"

section \<open>The clauses\<close>

definition and_clauses :: "uint list \<Rightarrow> int list \<Rightarrow> aiger_and \<Rightarrow> int list list option" where
  "and_clauses refs tab g = do {
     let lit = and_lhs g;
     n \<leftarrow> deref refs lit;
     cs \<leftarrow> (if n \<noteq> 0 then do {
         l \<leftarrow> deref tab (aiger_not lit);
         r1 \<leftarrow> deref tab (and_rhs1 g);
         r0 \<leftarrow> deref tab (and_rhs0 g);
         Some [[l, r1], [l, r0]]
       }
       else Some []);
     n \<leftarrow> deref refs (lit + 1);
     ds \<leftarrow> (if n \<noteq> 0 then do {
         l \<leftarrow> deref tab lit;
         r1 \<leftarrow> deref tab (aiger_not (and_rhs1 g));
         r0 \<leftarrow> deref tab (aiger_not (and_rhs0 g));
         Some [[l, r1, r0]]
       }
       else Some []);
     Some (cs @ ds)
   }"

definition const_clauses :: "uint list \<Rightarrow> int list \<Rightarrow> int list list option" where
  "const_clauses refs tab = do {
     a \<leftarrow> deref refs 0;
     b \<leftarrow> deref refs 1;
     if a \<noteq> 0 \<or> b \<noteq> 0 then do { t \<leftarrow> deref tab 1; Some [[t]] } else Some []
   }"

text \<open>The map with the counts, and the clauses that are printed after the header.\<close>

definition cnf_formula :: "cnf_options \<Rightarrow> aiger_private \<Rightarrow> uint \<Rightarrow> (cnf_map \<times> int list list) option" where
  "cnf_formula opts p out = do {
     refs \<leftarrow> cnf_refs opts p out;
     s \<leftarrow> map_lits (opt_prtmap opts) p refs;
     cs \<leftarrow> const_clauses refs (cm_map s);
     ds \<leftarrow> map_option_list (and_clauses refs (cm_map s)) (ands p);
     l \<leftarrow> deref (cm_map s) out;
     Some (s, cs @ concat ds @ [[l]])
   }"

definition clause_text :: "int list \<Rightarrow> string" where
  "clause_text c = concat (map (\<lambda>l. dec_int l @ '' '') c) @ ''0\<newline>''"

definition cnf_header :: "nat \<Rightarrow> nat \<Rightarrow> string" where
  "cnf_header m n = sprintf ''p cnf %u %u'' [FmtU m, FmtU n] @ ''\<newline>''"

definition aigtocnf_text :: "cnf_options \<Rightarrow> aiger_private \<Rightarrow> string option" where
  "aigtocnf_text opts p = do {
     p \<leftarrow> aiger_reencode p;
     y \<leftarrow> deref (outputs p) 0;
     if sym_lit y = 0 then Some (cnf_header (length (inputs p)) 1 @ ''0\<newline>'')
     else if sym_lit y = 1 then Some (cnf_header (length (inputs p)) 0)
     else do {
       (s, cs) \<leftarrow> cnf_formula opts p (sym_lit y);
       Some (cm_text s @ cnf_header (cm_m s) (cm_n s) @ concat (map clause_text cs))
     }
   }"

definition aigtocnf_main :: "tool_env \<Rightarrow> string list \<Rightarrow> cnf_exit option" where
  "aigtocnf_main env argv =
     (case cnf_args argv \<lparr>opt_pg = True, opt_prtmap = False\<rparr> None None of
        Inl e \<Rightarrow> Some e
      | Inr (opts, input, output) \<Rightarrow> do {
          p \<leftarrow> read_source env input;
          case aiger_error p of
            Some err \<Rightarrow> Some (CnfDie (sprintf ''%s: %s'' [FmtS (case input of Some name \<Rightarrow> name | None \<Rightarrow> ''<stdin>''), FmtS err]))
          | None \<Rightarrow>
              (case cnf_refuse p of
                 Some msg \<Rightarrow> Some (CnfDie msg)
               | None \<Rightarrow>
                   (case output of
                      None \<Rightarrow> map_option (CnfWrote None) (aigtocnf_text opts p)
                    | Some name \<Rightarrow>
                        if env_write env (File name) = None then
                          Some (CnfDie (sprintf (''failed to write '' @ [CHR 0x27] @ ''%s'' @ [CHR 0x27]) [FmtS name]))
                        else map_option (CnfWrote (Some name)) (aigtocnf_text opts p)))
        })"

end
