(* ===== verification/AigerReset.thy ===== *)
theory AigerReset
  imports AigerFilters
begin

text \<open>
  \<open>aigreset\<close>: its loops compute a renormalisation of the whole structure, which keeps it portable,
  and whose behaviours are those of the input with the renormalised latches flipped, provided that
  no other latch has one of them as its next state.
\<close>

section \<open>The loops\<close>

lemma map_option_list_Some: "(\<And>x. x \<in> set xs \<Longrightarrow> f x = Some (g x)) \<Longrightarrow> map_option_list f xs = Some (map g xs)"
  by (induction xs) auto

text \<open>The latches that are renormalised, literals over them, and the whole structure.\<close>

definition turned :: "uint \<Rightarrow> aiger_symbol \<Rightarrow> bool" where
  "turned r y \<longleftrightarrow> sym_reset y \<noteq> sym_lit y \<and> sym_reset y \<noteq> r"

definition turned_var :: "uint \<Rightarrow> aiger_private \<Rightarrow> nat \<Rightarrow> bool" where
  "turned_var r p v \<longleftrightarrow> (\<exists>y \<in> set (latches p). sym_lit y = 2 * v \<and> turned r y)"

definition turn :: "uint \<Rightarrow> aiger_private \<Rightarrow> uint \<Rightarrow> uint" where
  "turn r p l = (if turned_var r p (l div 2) then aiger_not l else l)"

definition turn_symbol :: "uint \<Rightarrow> aiger_private \<Rightarrow> aiger_symbol \<Rightarrow> aiger_symbol" where
  "turn_symbol r p y = y\<lparr>sym_lit := turn r p (sym_lit y)\<rparr>"

definition turn_justice :: "uint \<Rightarrow> aiger_private \<Rightarrow> aiger_symbol \<Rightarrow> aiger_symbol" where
  "turn_justice r p y = y\<lparr>sym_lits := map (turn r p) (sym_lits y)\<rparr>"

definition turn_and :: "uint \<Rightarrow> aiger_private \<Rightarrow> aiger_and \<Rightarrow> aiger_and" where
  "turn_and r p g = g\<lparr>and_rhs0 := turn r p (and_rhs0 g), and_rhs1 := turn r p (and_rhs1 g)\<rparr>"

definition turn_next :: "uint \<Rightarrow> aiger_private \<Rightarrow> aiger_symbol \<Rightarrow> aiger_symbol" where
  "turn_next r p y = (if turned r y then y\<lparr>sym_next := aiger_not (turn r p (sym_next y))\<rparr> else y)"

definition turn_latch :: "uint \<Rightarrow> aiger_private \<Rightarrow> aiger_symbol \<Rightarrow> aiger_symbol" where
  "turn_latch r p y =
     (if turned r y then y\<lparr>sym_next := aiger_not (turn r p (sym_next y)), sym_reset := r\<rparr> else y)"

definition turn_all :: "uint \<Rightarrow> aiger_private \<Rightarrow> aiger_private" where
  "turn_all r p = p\<lparr>latches := map (turn_latch r p) (latches p), outputs := map (turn_symbol r p) (outputs p),
     ands := map (turn_and r p) (ands p), bad := map (turn_symbol r p) (bad p),
     constraints := map (turn_symbol r p) (constraints p), justice := map (turn_justice r p) (justice p),
     fairness := map (turn_symbol r p) (fairness p)\<rparr>"

lemma other_reset: "sym_reset y \<le> 1 \<or> sym_reset y = sym_lit y \<Longrightarrow> turned r y \<Longrightarrow> r \<le> 1 \<Longrightarrow> sym_reset y = aiger_not r"
  by (auto simp: turned_def aiger_not_eq le_Suc_eq)

lemma normlit_turn:
  assumes wf: "wf_aiger p" and e: "error p = None" and m: "maxvar p \<noteq> 0" and l: "l div 2 \<le> maxvar p" and r: "r \<le> 1"
  shows "normlit r p l = Some (turn r p l)"
proof -
  have l32: "l < 4294967296" using l wf by (auto simp: wf_aiger_def wf_lits_def)
  have s: "aiger_strip l = 2 * (l div 2)" using aiger_strip_eq [OF l32] .
  have la: "aiger_is_latch p (aiger_strip l) = Some (latch_of p l)"
    using is_lookup_spec(2) [OF wf e m, of "aiger_strip l"] l by (simp add: s latch_of_def)
  show ?thesis
  proof (cases "latch_of p l")
    case None
    then have "\<not> turned_var r p (l div 2)" by (auto simp: latch_of_def find_None_iff turned_var_def)
    then show ?thesis unfolding normlit_def la None by (simp add: turn_def)
  next
    case (Some y)
    then have y: "y \<in> set (latches p)" "sym_lit y = 2 * (l div 2)"
      by (auto simp: latch_of_def find_Some_iff)
    have "distinct (map sym_lit (latches p))"
      using wf wf_definitions [of p] by (simp add: wf_aiger_def definitions_ok_def definitions_def)
    then have inj: "inj_on sym_lit (set (latches p))" by (simp add: distinct_map)
    have "z = y" if "z \<in> set (latches p)" "sym_lit z = 2 * (l div 2)" for z
      by (rule inj_onD [OF inj _ that(1) y(1)]) (simp add: that(2) y(2))
    then have t: "turned_var r p (l div 2) \<longleftrightarrow> turned r y" unfolding turned_var_def using y by blast
    have "sym_reset y \<le> 1 \<or> sym_reset y = sym_lit y" using wf y(1) by (simp add: wf_aiger_def wf_resets_def)
    then have n: "turned r y \<Longrightarrow> sym_reset y = aiger_not r" by (rule other_reset [OF _ _ r])
    show ?thesis
    proof (cases "turned r y")
      case True
      with n [OF True] t show ?thesis unfolding normlit_def la Some by (simp add: turned_def turn_def)
    next
      case False
      with t show ?thesis unfolding normlit_def la Some by (auto simp: turned_def turn_def)
    qed
  qed
qed

text \<open>A lookup only depends on the type table and on the literals and resets of the latches.\<close>

lemma normlit_cong:
  assumes "error q = error p" "maxvar q = maxvar p" "types q = types p"
    "map sym_lit (latches q) = map sym_lit (latches p)" "map sym_reset (latches q) = map sym_reset (latches p)"
  shows "normlit r q l = normlit r p l"
proof -
  have len: "length (latches q) = length (latches p)" using arg_cong [OF assms(4), of length] by simp
  have "sym_lit (latches q ! i) = sym_lit (latches p ! i)" "sym_reset (latches q ! i) = sym_reset (latches p ! i)"
    if "i < length (latches p)" for i
    using arg_cong [OF assms(4), of "\<lambda>xs. xs ! i"] arg_cong [OF assms(5), of "\<lambda>xs. xs ! i"] that len by simp_all
  then show ?thesis
    using len assms(1-3)
    by (auto simp: normlit_def aiger_is_latch_def aiger_lit2type_def aiger_error_def deref_def bind_eq_Some_conv
        split: Option.bind_split)
qed

text \<open>What the first loop has done after some iterations, and then the whole.\<close>

definition nexts_done :: "uint \<Rightarrow> aiger_private \<Rightarrow> nat \<Rightarrow> aiger_private" where
  "nexts_done r p n = p\<lparr>latches := map (turn_next r p) (take n (latches p)) @ drop n (latches p)\<rparr>"

lemma turn_next_keeps [simp]: "sym_lit (turn_next r p y) = sym_lit y" "sym_reset (turn_next r p y) = sym_reset y"
  by (simp_all add: turn_next_def)

lemma nexts_keep: "map sym_lit (latches (nexts_done r p n)) = map sym_lit (latches p)"
  "map sym_reset (latches (nexts_done r p n)) = map sym_reset (latches p)"
  by (simp_all add: nexts_done_def comp_def flip: take_map drop_map)

lemma normlit_done:
  assumes "wf_aiger p" "error p = None" "maxvar p \<noteq> 0" "l div 2 \<le> maxvar p" "r \<le> 1"
  shows "normlit r (nexts_done r p n) l = Some (turn r p l)"
proof -
  have "normlit r (nexts_done r p n) l = normlit r p l"
    by (rule normlit_cong [OF _ _ _ nexts_keep]) (simp_all add: nexts_done_def)
  then show ?thesis using normlit_turn [OF assms] by simp
qed

lemma normalize_nexts:
  assumes wf: "wf_aiger p" and e: "error p = None" and m: "maxvar p \<noteq> 0" and r: "r \<le> 1"
  shows "foldm (normalize_next r) [0..<length (latches p)] p = Some (nexts_done r p (length (latches p)))"
proof -
  have "\<exists>t. foldm (normalize_next r) [0..<length (latches p)] p = Some t \<and> t = nexts_done r p (length [0..<length (latches p)])"
  proof (rule foldm_list [where I = "\<lambda>is t. t = nexts_done r p (length is)"])
    show "p = nexts_done r p (length [])" by (simp add: nexts_done_def)
  next
    fix i s assume i: "i < length [0..<length (latches p)]" and s: "s = nexts_done r p (length (take i [0..<length (latches p)]))"
    let ?y = "latches p ! i"
    have i': "i < length (latches p)" using i by simp
    then have s: "s = nexts_done r p i" using s by simp
    have y: "latches s ! i = ?y" "i < length (latches s)" using i' by (simp_all add: s nexts_done_def nth_append)
    have l: "sym_next ?y div 2 \<le> maxvar p" using wf i' by (simp add: wf_aiger_def wf_lits_def lits_below_def)
    have suc: "nexts_done r p (Suc i) = s\<lparr>latches := (latches s)[i := turn_next r p ?y]\<rparr>"
    proof -
      have "drop i (latches p) = ?y # drop (Suc i) (latches p)" using i' by (simp add: Cons_nth_drop_Suc)
      then show ?thesis
        using i' by (simp add: s nexts_done_def take_Suc_conv_app_nth list_update_append)
    qed
    have "normalize_next r i s = Some (nexts_done r p (Suc i))"
    proof (cases "turned r ?y")
      case True
      then show ?thesis
        using y normlit_done [OF wf e m l r, of i]
        by (simp add: suc normalize_next_def deref_def turned_def turn_next_def flip: s)
    next
      case False
      then have "turn_next r p ?y = latches s ! i" by (simp add: turn_next_def y(1))
      then have "s\<lparr>latches := (latches s)[i := turn_next r p ?y]\<rparr> = s" by (simp del: y(1))
      moreover have "normalize_next r i s = Some s" using False y by (auto simp: normalize_next_def deref_def turned_def)
      ultimately show ?thesis by (simp add: suc)
    qed
    then show "\<exists>t. normalize_next r ([0..<length (latches p)] ! i) s = Some t \<and>
        t = nexts_done r p (length (take i [0..<length (latches p)] @ [[0..<length (latches p)] ! i]))"
      using i' by simp
  qed
  then show ?thesis by simp
qed

lemma normlit_like:
  assumes "wf_aiger p" "error p = None" "maxvar p \<noteq> 0" "r \<le> 1" "l div 2 \<le> maxvar p"
    "error q = error p" "maxvar q = maxvar p" "types q = types p" "latches q = map (turn_next r p) (latches p)"
  shows "normlit r q l = Some (turn r p l)"
proof -
  have "normlit r q l = normlit r p l"
    by (rule normlit_cong) (simp_all add: assms(6-9) comp_def)
  then show ?thesis using normlit_turn [OF assms(1-3,5,4)] by simp
qed

lemma normalize_eq:
  assumes wf: "wf_aiger p" and e: "error p = None" and m: "maxvar p \<noteq> 0" and r: "r \<le> 1"
  shows "aigreset_normalize r p = Some (turn_all r p)"
proof -
  note like = normlit_like [OF wf e m r]
  have lb: "lits_below (maxvar p) p" using wf by (simp add: wf_aiger_def wf_lits_def)
  let ?q = "nexts_done r p (length (latches p))"
  have q: "?q = p\<lparr>latches := map (turn_next r p) (latches p)\<rparr>" by (simp add: nexts_done_def)
  have ys: "map_option_list (normalize_symbol r s) ys = Some (map (turn_symbol r p) ys)"
    if "\<forall>y \<in> set ys. sym_lit y div 2 \<le> maxvar p"
      "error s = error p" "maxvar s = maxvar p" "types s = types p" "latches s = map (turn_next r p) (latches p)" for ys s
    by (rule map_option_list_Some) (use that like in \<open>simp add: normalize_symbol_def turn_symbol_def\<close>)
  have gs: "map_option_list (normalize_and r s) (ands p) = Some (map (turn_and r p) (ands p))"
    if "error s = error p" "maxvar s = maxvar p" "types s = types p" "latches s = map (turn_next r p) (latches p)" for s
    by (rule map_option_list_Some) (use lb that like in \<open>simp add: normalize_and_def turn_and_def lits_below_def\<close>)
  have js: "map_option_list (normalize_justice r s) (justice p) = Some (map (turn_justice r p) (justice p))"
    if "error s = error p" "maxvar s = maxvar p" "types s = types p" "latches s = map (turn_next r p) (latches p)" for s
  proof (rule map_option_list_Some)
    fix y assume y: "y \<in> set (justice p)"
    have "map_option_list (normlit r s) (sym_lits y) = Some (map (turn r p) (sym_lits y))"
      by (rule map_option_list_Some) (use lb y that like in \<open>simp add: lits_below_def\<close>)
    then show "normalize_justice r s y = Some (turn_justice r p y)" by (simp add: normalize_justice_def turn_justice_def)
  qed
  have rs: "map_option_list (normalize_reset r) (map (turn_next r p) (latches p)) =
      Some (map (\<lambda>y. if turned r y then (turn_next r p y)\<lparr>sym_reset := r\<rparr> else y) (latches p))"
  proof -
    have "map_option_list (normalize_reset r) (map (turn_next r p) ys) =
        Some (map (\<lambda>y. if turned r y then (turn_next r p y)\<lparr>sym_reset := r\<rparr> else y) ys)" if "set ys \<subseteq> set (latches p)" for ys
      using that
    proof (induction ys)
      case (Cons y ys)
      have reset: "sym_reset y \<le> 1 \<or> sym_reset y = sym_lit y" using wf Cons.prems by (simp add: wf_aiger_def wf_resets_def)
      have "normalize_reset r (turn_next r p y) = Some (if turned r y then (turn_next r p y)\<lparr>sym_reset := r\<rparr> else y)"
      proof (cases "turned r y")
        case True
        with other_reset [OF reset True r] show ?thesis by (simp add: normalize_reset_def turned_def)
      next
        case False
        then show ?thesis by (auto simp: normalize_reset_def turned_def turn_next_def)
      qed
      with Cons show ?case by simp
    qed simp
    then show ?thesis by simp
  qed
  have la: "map (\<lambda>y. if turned r y then (turn_next r p y)\<lparr>sym_reset := r\<rparr> else y) (latches p) = map (turn_latch r p) (latches p)"
    by (simp add: turn_next_def turn_latch_def)
  note lbs = lb [unfolded lits_below_def]
  show ?thesis
    unfolding aigreset_normalize_def normalize_nexts [OF wf e m r] q
    by (simp add: ys gs js rs lbs Let_def turn_all_def la)
qed

section \<open>Flipped variables\<close>

definition turn_val :: "uint \<Rightarrow> aiger_private \<Rightarrow> (nat \<Rightarrow> bool) \<Rightarrow> nat \<Rightarrow> bool" where
  "turn_val r p \<nu> v = (\<nu> v \<noteq> turned_var r p v)"

lemma turn_val_twice [simp]: "turn_val r p (turn_val r p \<nu>) = \<nu>"
  by (auto simp: turn_val_def)

lemma litval_turn_val: "litval (turn_val r p \<nu>) l = (litval \<nu> l \<noteq> turned_var r p (l div 2))"
  by (auto simp: litval_def turn_val_def)

lemma litval_turn [simp]: "litval (turn_val r p \<nu>) (turn r p l) = litval \<nu> l"
  by (auto simp: litval_turn_val turn_def)

lemma turned_var_latch: "turned_var r p v \<Longrightarrow> 2 * v \<in> sym_lit ` set (latches p)"
  by (auto simp: turned_var_def intro: rev_image_eqI)

lemma turned_defs:
  assumes "wf_aiger p"
  shows "\<not> turned_var r p 0" "g \<in> set (ands p) \<Longrightarrow> \<not> turned_var r p (and_lhs g div 2)"
    "y \<in> set (inputs p) \<Longrightarrow> \<not> turned_var r p (sym_lit y div 2)"
    "y \<in> set (latches p) \<Longrightarrow> turned_var r p (sym_lit y div 2) = turned r y" "y \<in> set (latches p) \<Longrightarrow> 2 \<le> sym_lit y"
proof -
  have d: "distinct (definitions p)" "\<forall>l \<in> set (definitions p). even l \<and> 0 < l"
    using assms wf_definitions [of p] by (simp_all add: wf_aiger_def definitions_ok_def)
  show "\<not> turned_var r p 0" using d(2) by (auto simp: turned_var_def definitions_def)
  show "\<not> turned_var r p (and_lhs g div 2)" if "g \<in> set (ands p)"
  proof
    assume "turned_var r p (and_lhs g div 2)"
    then have "2 * (and_lhs g div 2) \<in> sym_lit ` set (latches p)" by (rule turned_var_latch)
    with that d show False by (auto simp: definitions_def even_lit)
  qed
  show "\<not> turned_var r p (sym_lit y div 2)" if "y \<in> set (inputs p)"
  proof
    assume "turned_var r p (sym_lit y div 2)"
    then have "2 * (sym_lit y div 2) \<in> sym_lit ` set (latches p)" by (rule turned_var_latch)
    with that d show False by (auto simp: definitions_def even_lit)
  qed
  show "turned_var r p (sym_lit y div 2) = turned r y" if y: "y \<in> set (latches p)"
  proof -
    have l: "2 * (sym_lit y div 2) = sym_lit y" using d(2) y by (simp add: definitions_def even_lit)
    have inj: "inj_on sym_lit (set (latches p))" using d(1) by (simp add: definitions_def distinct_map)
    have "z = y" if "z \<in> set (latches p)" "sym_lit z = sym_lit y" for z using inj_onD [OF inj that(2,1) y] .
    then show ?thesis unfolding turned_var_def l using y by blast
  qed
  show "2 \<le> sym_lit y" if y: "y \<in> set (latches p)"
  proof -
    have "even (sym_lit y) \<and> 0 < sym_lit y" using d(2) y by (simp add: definitions_def)
    then show ?thesis by (auto elim!: evenE)
  qed
qed

lemma turn_fields [simp]:
  "sym_lit (turn_symbol r p y) = turn r p (sym_lit y)" "sym_lits (turn_justice r p y) = map (turn r p) (sym_lits y)"
  "and_lhs (turn_and r p g) = and_lhs g" "and_rhs0 (turn_and r p g) = turn r p (and_rhs0 g)"
  "and_rhs1 (turn_and r p g) = turn r p (and_rhs1 g)" "sym_lit (turn_latch r p y) = sym_lit y"
  by (simp_all add: turn_symbol_def turn_justice_def turn_and_def turn_latch_def)

lemma turn_all_fields [simp]:
  "inputs (turn_all r p) = inputs p" "latches (turn_all r p) = map (turn_latch r p) (latches p)"
  "outputs (turn_all r p) = map (turn_symbol r p) (outputs p)" "ands (turn_all r p) = map (turn_and r p) (ands p)"
  "bad (turn_all r p) = map (turn_symbol r p) (bad p)" "constraints (turn_all r p) = map (turn_symbol r p) (constraints p)"
  "justice (turn_all r p) = map (turn_justice r p) (justice p)" "fairness (turn_all r p) = map (turn_symbol r p) (fairness p)"
  "maxvar (turn_all r p) = maxvar p" "types (turn_all r p) = types p" "error (turn_all r p) = error p"
  "comments (turn_all r p) = comments p" "num_comments (turn_all r p) = num_comments p"
  by (simp_all add: turn_all_def)

lemma models_turn:
  assumes "wf_aiger p"
  shows "models (turn_all r p) (turn_val r p \<nu>) = models p \<nu>"
  using turned_defs(1,2) [OF assms, where r = r] by (simp add: models_def gate_holds_def list_all_iff turn_val_def)

text \<open>Only renormalised latches have a renormalised latch as their next state.\<close>

definition turn_stable :: "uint \<Rightarrow> aiger_private \<Rightarrow> bool" where
  "turn_stable r p \<longleftrightarrow> (\<forall>y \<in> set (latches p). turned r y \<or> \<not> turned_var r p (sym_next y div 2))"

lemma latches_turn:
  assumes wf: "wf_aiger p" and st: "turn_stable r p" and r: "r \<le> 1" and y: "y \<in> set (latches p)"
  shows "latch_init (turn_val r p \<nu>) (turn_latch r p y) = latch_init \<nu> y"
    "latch_next (turn_val r p \<nu>) (turn_val r p \<mu>) (turn_latch r p y) = latch_next \<nu> \<mu> y"
proof -
  note t = turned_defs(4) [OF wf y, where r = r] turned_defs(5) [OF wf y]
  have reset: "sym_reset y \<le> 1 \<or> sym_reset y = sym_lit y" using wf y by (simp add: wf_aiger_def wf_resets_def)
  show "latch_init (turn_val r p \<nu>) (turn_latch r p y) = latch_init \<nu> y"
  proof (cases "turned r y")
    case True
    have "sym_reset y = aiger_not r" "r \<noteq> sym_lit y" using other_reset [OF reset True r] t(2) r by auto
    moreover have "(aiger_not r = 1) = (r \<noteq> 1)" using r by (auto simp: aiger_not_eq le_Suc_eq)
    ultimately show ?thesis using True t by (auto simp: latch_init_def turn_latch_def litval_turn_val turned_def)
  qed (use t in \<open>simp add: latch_init_def turn_latch_def litval_turn_val\<close>)
  show "latch_next (turn_val r p \<nu>) (turn_val r p \<mu>) (turn_latch r p y) = latch_next \<nu> \<mu> y"
  proof (cases "turned r y")
    case True
    then show ?thesis using t by (auto simp: latch_next_def turn_latch_def litval_turn_val [of r p \<mu>])
  next
    case False
    then have "\<not> turned_var r p (sym_next y div 2)" using st y by (auto simp: turn_stable_def)
    with False t show ?thesis by (simp add: latch_next_def turn_latch_def litval_turn_val)
  qed
qed

lemma run_turn:
  assumes "wf_aiger p" "turn_stable r p" "r \<le> 1"
  shows "run (turn_all r p) (\<lambda>t. turn_val r p (\<tau> t)) = run p \<tau>"
  using models_turn [OF assms(1)] latches_turn [OF assms]
  by (simp add: run_def list_all_iff)

text \<open>What an observer sees: the renormalised latches are flipped.\<close>

definition turn_obs :: "uint \<Rightarrow> aiger_private \<Rightarrow> observation \<Rightarrow> observation" where
  "turn_obs r p ob = ob\<lparr>o_latches := map2 (\<lambda>y b. b \<noteq> turned r y) (latches p) (o_latches ob)\<rparr>"

lemma observe_turn:
  assumes wf: "wf_aiger p"
  shows "observe (turn_all r p) (turn_val r p \<nu>) = turn_obs r p (observe p \<nu>)"
proof -
  have "map (\<lambda>y. litval (turn_val r p \<nu>) (sym_lit y)) (latches p) =
      map2 (\<lambda>y b. b \<noteq> turned r y) (latches p) (map (litval \<nu> \<circ> sym_lit) (latches p))"
    unfolding zip_map2 zip_same_conv_map map_map using turned_defs(4) [OF wf, where r = r] by (simp add: litval_turn_val comp_def)
  moreover have "map (\<lambda>y. litval (turn_val r p \<nu>) (sym_lit y)) (inputs p) = map (\<lambda>y. litval \<nu> (sym_lit y)) (inputs p)"
    using turned_defs(3) [OF wf, where r = r] by (simp add: litval_turn_val)
  ultimately show ?thesis by (simp add: observe_def turn_obs_def comp_def)
qed

lemma turn_behaviours:
  assumes "wf_aiger p" "turn_stable r p" "r \<le> 1"
  shows "behaviours (turn_all r p) = (\<lambda>b t. turn_obs r p (b t)) ` behaviours p"
proof (rule set_eqI, rule iffI)
  fix b assume "b \<in> behaviours (turn_all r p)"
  then obtain \<tau> where \<tau>: "run (turn_all r p) \<tau>" "b = (\<lambda>t. observe (turn_all r p) (\<tau> t))" by (auto simp: behaviours_def)
  let ?\<sigma> = "\<lambda>t. turn_val r p (\<tau> t)"
  have "run p ?\<sigma>" using run_turn [OF assms, of ?\<sigma>] \<tau>(1) by simp
  moreover have "b = (\<lambda>t. turn_obs r p (observe p (?\<sigma> t)))" using observe_turn [OF assms(1), of r "?\<sigma> t" for t] \<tau>(2) by simp
  ultimately show "b \<in> (\<lambda>b t. turn_obs r p (b t)) ` behaviours p" by (auto simp: behaviours_def)
next
  fix b assume "b \<in> (\<lambda>b t. turn_obs r p (b t)) ` behaviours p"
  then obtain \<tau> where \<tau>: "run p \<tau>" "b = (\<lambda>t. turn_obs r p (observe p (\<tau> t)))" by (auto simp: behaviours_def)
  then have "run (turn_all r p) (\<lambda>t. turn_val r p (\<tau> t))" using run_turn [OF assms] by simp
  moreover have "b = (\<lambda>t. observe (turn_all r p) (turn_val r p (\<tau> t)))" using observe_turn [OF assms(1)] \<tau>(2) by simp
  ultimately show "b \<in> behaviours (turn_all r p)"
    unfolding behaviours_def by (intro CollectI exI [of _ "\<lambda>t. turn_val r p (\<tau> t)"] conjI)
qed

section \<open>The result is portable\<close>

lemma turn_var [simp]: "turn r p l div 2 = l div 2"
  by (simp add: turn_def)

lemma turn_latch_fields [simp]:
  "sym_name (turn_latch r p y) = sym_name y" "sym_lits (turn_latch r p y) = sym_lits y"
  "sym_next (turn_latch r p y) div 2 = sym_next y div 2" "sym_name (turn_symbol r p y) = sym_name y"
  "sym_name (turn_justice r p y) = sym_name y"
  by (simp_all add: turn_latch_def turn_symbol_def turn_justice_def)

lemma turn_latch_reset: "r \<le> 1 \<Longrightarrow> sym_reset y div 2 \<le> m \<Longrightarrow> sym_reset (turn_latch r p y) div 2 \<le> m"
  by (auto simp: turn_latch_def)

lemma turn_wf:
  assumes wf: "wf_aiger p" and r: "r \<le> 1"
  shows "wf_aiger (turn_all r p)"
proof -
  have "wf_types (turn_all r p)" using wf by (simp add: wf_aiger_def wf_types_def comp_def)
  moreover have "wf_lits (turn_all r p)"
    using wf turn_latch_reset [OF r] by (simp add: wf_aiger_def wf_lits_def lits_below_def)
  moreover have "wf_resets (turn_all r p)"
    using wf r by (auto simp: wf_aiger_def wf_resets_def turn_latch_def)
  moreover have "wf_names (turn_all r p)"
    using wf by (auto simp: wf_aiger_def wf_names_def all_symbols_def)
  moreover have "wf_comments (turn_all r p)"
    using wf by (simp add: wf_aiger_def wf_comments_def)
  ultimately show ?thesis by (simp add: wf_aiger_def)
qed

lemma turn_deps: "deps (turn_all r p) = deps p"
proof -
  have e: "deps q = (\<Union>g \<in> set (ands q). {(and_lhs g div 2, and_rhs0 g div 2), (and_lhs g div 2, and_rhs1 g div 2)}) - {(v, w). w = 0}" for q
    by (auto simp: deps_def)
  show ?thesis unfolding e by simp
qed

lemma turn_portable:
  assumes p: "portable p" and r: "r \<le> 1"
  shows "portable (turn_all r p)"
proof -
  have d: "defined_var (turn_all r p) = defined_var p" by (simp add: defined_var_def fun_eq_iff image_image)
  have deps: "deps (turn_all r p) = deps p" by (rule turn_deps)
  have "clean_marks (turn_all r p)" using p grounded_cong [OF deps] by (simp add: portable_def checked_def clean_marks_def)
  moreover have "all_defined (turn_all r p)"
    using portableD(6) [OF p] by (auto simp: all_defined_def d)
  ultimately have "checked (turn_all r p)"
    using turn_wf [OF portableD(5) [OF p] r] portableD(7,8) [OF p] by (simp add: checked_def deps)
  moreover have "shaped (turn_all r p)"
    using portableD(2) [OF p] by (auto simp: shaped_def plain_symbol_def turn_symbol_def turn_justice_def)
  moreover have "named (turn_all r p)"
    using portableD(3) [OF p] by (auto simp: named_def all_symbols_def entry_ok_def)
  moreover have "small_counts (turn_all r p)"
    using portableD(4) [OF p] by (simp add: small_counts_def turn_justice_def)
  ultimately show ?thesis by (simp add: portable_def)
qed


section \<open>The program\<close>

definition reset_supported :: "uint \<Rightarrow> aiger_private \<Rightarrow> bool" where
  "reset_supported r p \<longleftrightarrow> r \<le> 1 \<and> maxvar p \<noteq> 0 \<and> turn_stable r p"

lemma same_latches: "aiger.truncate q = aiger.truncate p \<Longrightarrow> latches q = latches p"
  by (simp add: aiger.truncate_def)

lemma same_supported: "aiger.truncate q = aiger.truncate p \<Longrightarrow> reset_supported r q = reset_supported r p"
  by (frule same_public(1), drule same_latches) (simp add: reset_supported_def turn_stable_def turned_var_def)

lemma same_turn_obs: "aiger.truncate q = aiger.truncate p \<Longrightarrow> turn_obs r q = turn_obs r p"
  by (drule same_latches) (simp add: turn_obs_def fun_eq_iff)

lemma aigreset_builds:
  assumes p: "portable p" and s: "reset_supported r p"
  shows "\<exists>u. aigreset_normalize r p = Some u \<and> portable u \<and> behaviours u = (\<lambda>b t. turn_obs r p (b t)) ` behaviours p"
  using normalize_eq [OF portableD(5,8) [OF p]] turn_portable [OF p] turn_behaviours [OF portableD(5) [OF p]] s
  by (simp add: reset_supported_def)

interpretation reset_tool: tool "reset_refuse opts" "aigreset_normalize r" "reset_supported r" "\<lambda>p b t. turn_obs r p (b t)" for opts r
proof unfold_locales
  show "aiger.truncate q = aiger.truncate p \<Longrightarrow> reset_refuse opts q = reset_refuse opts p" for p q
    by (drule same_latches) (simp add: reset_refuse_def)
next
  show "aiger.truncate q = aiger.truncate p \<Longrightarrow> (\<lambda>b t. turn_obs r q (b t)) = (\<lambda>b t. turn_obs r p (b t))" for p q
    by (drule same_turn_obs [where r = r]) simp
qed (rule portable_writable, erule aigreset_builds, assumption, erule same_supported)

lemma normalized_resets:
  assumes "wf_aiger p" "r \<le> 1"
  shows "\<forall>y \<in> set (latches (turn_all r p)). sym_reset y = r \<or> sym_reset y = sym_lit y"
  using turned_defs(5) [OF assms(1)] by (auto simp: turn_latch_def turned_def)

end
