(* ===== verification/AigerRenumbered.thy ===== *)
theory AigerRenumbered
  imports AigerMonitor
begin

text \<open>
  Structures as \<open>aiger_reencode\<close> leaves them: the variables are inputs, latches and gates in this
  order, and gates refer to smaller variables, so every choice of values for the inputs and latches
  extends to all variables, and every finite run extends to an infinite one. The programs that
  evaluate a structure, \<open>aigtocnf\<close> and \<open>aigsim\<close>, renumber it first.
\<close>

lemma map_option_list_some: "(\<And>x. x \<in> set xs \<Longrightarrow> f x = Some (g x)) \<Longrightarrow> map_option_list f xs = Some (map g xs)"
  by (induction xs) simp_all

section \<open>Consecutive literals\<close>

lemma seq_member: "l \<in> set (seq_lits a n) \<longleftrightarrow> (\<exists>v. l = 2 * v \<and> a < v \<and> v \<le> a + n)"
proof
  assume "\<exists>v. l = 2 * v \<and> a < v \<and> v \<le> a + n"
  then obtain v where v: "l = 2 * v" "a < v" "v \<le> a + n" by blast
  obtain w where "v = Suc w" using v(2) by (cases v) simp_all
  with v show "l \<in> set (seq_lits a n)" by (auto simp: seq_lits_def simp del: mult_Suc_right)
qed (auto simp: seq_lits_def simp del: mult_Suc_right)

lemma seq_half: "map (\<lambda>l. l div 2) (seq_lits a n) = [Suc a..<Suc (a + n)]"
  by (rule nth_equalityI) (simp_all add: seq_lits_def del: upt_Suc mult_Suc_right)

lemma seq_chain:
  assumes "map and_lhs gs = seq_lits n (length gs)" "\<forall>g \<in> set gs. and_rhs0 g < and_lhs g \<and> and_rhs1 g \<le> and_rhs0 g"
  shows "chain n gs"
  using assms
proof (induction gs arbitrary: n)
  case (Cons g gs)
  then have l: "and_lhs g = 2 * Suc n" "map and_lhs gs = seq_lits (Suc n) (length gs)" by (simp_all add: seq_lits_Suc)
  then have "and_rhs0 g div 2 \<le> n" "and_rhs1 g div 2 \<le> n" using Cons.prems(2) by auto
  with Cons l show ?case by simp
qed simp

section \<open>Renumbered structures\<close>

abbreviation sources :: "aiger_private \<Rightarrow> nat" where
  "sources q \<equiv> length (inputs q) + length (latches q)"

definition renumbered :: "aiger_private \<Rightarrow> bool" where
  "renumbered q \<longleftrightarrow> reencoded_form q \<and> (\<forall>g \<in> set (ands q). and_rhs0 g < and_lhs g) \<and> public_ok q \<and>
     sources q + length (ands q) \<le> maxvar q"

lemma renumberedD:
  assumes "renumbered q"
  shows "map sym_lit (inputs q) = seq_lits 0 (length (inputs q))"
    "map sym_lit (latches q) = seq_lits (length (inputs q)) (length (latches q))"
    "map and_lhs (ands q) = seq_lits (sources q) (length (ands q))"
    "sources q + length (ands q) \<le> maxvar q" "lits_below (maxvar q) q" "maxvar q < 2147483648" "all_defined q"
    "distinct (map sym_lit (latches q))" "\<forall>y \<in> set (latches q). sym_reset y \<le> 1 \<or> sym_reset y = sym_lit y"
    "chain (sources q) (ands q)"
    "\<And>g. g \<in> set (ands q) \<Longrightarrow> and_rhs0 g < and_lhs g \<and> and_rhs1 g \<le> and_rhs0 g"
    "\<And>g. g \<in> set (ands q) \<Longrightarrow> even (and_lhs g) \<and> sources q < and_lhs g div 2 \<and> and_lhs g div 2 \<le> maxvar q"
proof -
  show "map sym_lit (inputs q) = seq_lits 0 (length (inputs q))"
    "map sym_lit (latches q) = seq_lits (length (inputs q)) (length (latches q))"
    and a: "map and_lhs (ands q) = seq_lits (sources q) (length (ands q))"
    and "sources q + length (ands q) \<le> maxvar q" and b: "lits_below (maxvar q) q" and "maxvar q < 2147483648" "all_defined q"
    "\<forall>y \<in> set (latches q). sym_reset y \<le> 1 \<or> sym_reset y = sym_lit y"
    using assms by (simp_all add: renumbered_def reencoded_form_def public_ok_def wf_lits_def wf_resets_def definitions_ok_def definitions_def)
  have "definitions_ok q" using assms by (simp add: renumbered_def public_ok_def)
  then show "distinct (map sym_lit (latches q))" by (simp add: definitions_ok_def definitions_def)
  show r: "\<And>g. g \<in> set (ands q) \<Longrightarrow> and_rhs0 g < and_lhs g \<and> and_rhs1 g \<le> and_rhs0 g"
    using assms by (simp add: renumbered_def reencoded_form_def)
  show "chain (sources q) (ands q)" by (rule seq_chain [OF a]) (use r in blast)
  show "even (and_lhs g) \<and> sources q < and_lhs g div 2 \<and> and_lhs g div 2 \<le> maxvar q" if g: "g \<in> set (ands q)" for g
  proof -
    have "and_lhs g \<in> set (map and_lhs (ands q))" using g by simp
    moreover have "and_lhs g div 2 \<le> maxvar q" using b g by (simp add: lits_below_def)
    ultimately show ?thesis unfolding a seq_member by auto
  qed
qed

lemma input_var: "renumbered q \<Longrightarrow> y \<in> set (inputs q) \<Longrightarrow> \<exists>v. sym_lit y = 2 * v \<and> 0 < v \<and> v \<le> length (inputs q)"
  using renumberedD(1) [of q] seq_member [of "sym_lit y" 0] by (metis add_0 imageI list.set_map)

lemma latch_var: "renumbered q \<Longrightarrow> y \<in> set (latches q) \<Longrightarrow> \<exists>v. sym_lit y = 2 * v \<and> length (inputs q) < v \<and> v \<le> sources q"
  using renumberedD(2) [of q] seq_member by (metis imageI list.set_map)

text \<open>A defined variable is the constant, an input, a latch, or the variable of a gate.\<close>

lemma defined_cases:
  assumes q: "renumbered q" and v: "defined_var q v"
  obtains (const) "v = 0" | (source) "v \<noteq> 0" "v \<le> sources q" | (gate) g where "g \<in> set (ands q)" "and_lhs g = 2 * v" "sources q < v"
proof -
  have "v = 0 \<or> (v \<noteq> 0 \<and> v \<le> sources q) \<or> (\<exists>g \<in> set (ands q). and_lhs g = 2 * v)"
    using v input_var [OF q] latch_var [OF q] by (fastforce simp: defined_var_def)
  with renumberedD(12) [OF q] that show ?thesis by fastforce
qed

lemma defined_below:
  assumes q: "renumbered q" and v: "defined_var q v"
  shows "v \<le> maxvar q"
  using q v
proof (cases rule: defined_cases)
  case (gate g)
  with renumberedD(12) [OF q gate(1)] show ?thesis by simp
qed (use renumberedD(4) [OF q] in simp_all)

lemma valuation_from_sources:
  assumes q: "renumbered q" and \<nu>: "\<not> \<nu> 0"
  shows "\<exists>\<mu>. models q \<mu> \<and> (\<forall>v \<le> sources q. \<mu> v = \<nu> v)"
  using chain_extends [OF renumberedD(10) [OF q], of \<nu> "[]"] \<nu> by (auto simp: models_def)

section \<open>Renumbering\<close>

lemma no_definitions:
  assumes "wf_aiger p" "maxvar p = 0"
  shows "inputs p = []" "latches p = []" "ands p = []"
proof -
  have d: "definitions_ok p" and b: "lits_below 0 p"
    using assms wf_definitions [of p] by (simp_all add: wf_aiger_def wf_lits_def)
  have none: False if "l \<in> set (definitions p)" for l
  proof -
    have "even l" "0 < l" using d that by (simp_all add: definitions_ok_def)
    moreover have "l div 2 = 0" using b that by (auto simp: definitions_def lits_below_def)
    ultimately show False by (auto elim!: evenE)
  qed
  have "definitions p = []" by (rule ccontr) (use none hd_in_set in blast)
  then show "inputs p = []" "latches p = []" "ands p = []" by (simp_all add: definitions_def)
qed

lemma reencode_renumbered:
  assumes p: "checked p" "maxvar p < 1073741824"
  shows "\<exists>q. aiger_reencode p = Some q \<and> renumbered q \<and> behaviours q = behaviours p \<and> same_sizes p q \<and> maxvar q \<le> maxvar p"
proof (cases "maxvar p = 0")
  case True
  have c: "wf_aiger p" "error p = None" "all_defined p" using p(1) by (simp_all add: checked_def)
  note n = no_definitions [OF c(1) True]
  have r: "reencoded_form p" by (simp add: reencoded_form_def seq_lits_def n)
  then have "aiger_reencode p = Some p" using is_reencoded_eq [of p] c(2) n by (simp add: aiger_reencode_def aiger_error_def)
  moreover have "renumbered p"
    using r c(1,3) True n wf_definitions [of p] by (simp add: renumbered_def public_ok_def wf_aiger_def)
  ultimately show ?thesis by (auto simp: same_sizes_def)
next
  case False
  have c: "wf_aiger p" "error p = None" "clean_marks p" "all_defined p" "acyclic (deps p)" using p(1) by (simp_all add: checked_def)
  obtain q where q: "aiger_reencode p = Some q" "binary_ready q" "behaviours q = behaviours p" "public_ok q" "same_sizes p q"
    "\<not> reencoded_form p \<longrightarrow> maxvar q = sources q + length (ands q)" "reencoded_form p \<longrightarrow> same_core p q"
    using reencode_ready [OF p(1)] False p(2) by auto
  have "maxvar q \<le> maxvar p \<and> sources q + length (ands q) \<le> maxvar q"
  proof (cases "reencoded_form p")
    case True
    then have s: "same_core p q" using q(7) by simp
    show ?thesis using same_coreD [OF s] count_definitions [OF c(1)] False by simp
  next
    case nr: False
    have "reencodable p" using c False p(2) by (simp add: reencodable_def)
    from reencode_correct [OF this c(3,2) nr] q(1,6) nr show ?thesis by auto
  qed
  with q show ?thesis by (auto simp: renumbered_def binary_ready_def)
qed

section \<open>Runs\<close>

text \<open>Any step has a successor, and there is a first step.\<close>

lemma latch_values:
  assumes q: "renumbered q"
  shows "\<exists>\<mu>. models q \<mu> \<and> list_all (\<lambda>y. litval \<mu> (sym_lit y) = f y) (latches q)"
proof -
  define \<nu> where "\<nu> = (\<lambda>v. \<exists>y \<in> set (latches q). sym_lit y = 2 * v \<and> f y)"
  have "\<not> \<nu> 0" using latch_var [OF q] by (fastforce simp: \<nu>_def)
  from valuation_from_sources [OF q, of \<nu>, OF this] obtain \<mu> where \<mu>: "models q \<mu>" "\<forall>v \<le> sources q. \<mu> v = \<nu> v" by blast
  have "litval \<mu> (sym_lit y) = f y" if y: "y \<in> set (latches q)" for y
  proof -
    obtain v where v: "sym_lit y = 2 * v" "v \<le> sources q" using latch_var [OF q y] by blast
    have "z = y" if "z \<in> set (latches q)" "sym_lit z = sym_lit y" for z
      using renumberedD(8) [OF q] that y by (simp add: distinct_map inj_on_def)
    then have "\<nu> v = f y" using y v(1) unfolding \<nu>_def by metis
    with \<mu>(2) v show ?thesis by simp
  qed
  with \<mu>(1) show ?thesis by (auto simp: list_all_iff)
qed

lemma successor:
  assumes "renumbered q"
  shows "\<exists>\<mu>. models q \<mu> \<and> list_all (latch_next \<nu> \<mu>) (latches q)"
  using latch_values [OF assms, of "\<lambda>y. litval \<nu> (sym_next y)"] by (auto simp: list_all_iff latch_next_def)

lemma first_step:
  assumes "renumbered q"
  shows "\<exists>\<mu>. models q \<mu> \<and> list_all (latch_init \<mu>) (latches q)"
  using latch_values [OF assms, of "\<lambda>y. sym_reset y = 1"] by (auto simp: list_all_iff latch_init_def)

text \<open>The first \<open>n\<close> steps of a run.\<close>

definition prefix_run :: "aiger_private \<Rightarrow> (nat \<Rightarrow> nat \<Rightarrow> bool) \<Rightarrow> nat \<Rightarrow> bool" where
  "prefix_run q \<tau> n \<longleftrightarrow> (\<forall>t < n. models q (\<tau> t)) \<and> (0 < n \<longrightarrow> list_all (latch_init (\<tau> 0)) (latches q)) \<and>
     (\<forall>t. Suc t < n \<longrightarrow> list_all (latch_next (\<tau> t) (\<tau> (Suc t))) (latches q))"

text \<open>Steps that follow each other.\<close>

lemma run_of_steps:
  assumes "prefix_run q \<tau> n" "0 < n" "\<And>t. \<rho> t < n" "\<rho> 0 = 0"
    "\<And>t. list_all (latch_next (\<tau> (\<rho> t)) (\<tau> (\<rho> (Suc t)))) (latches q)"
  shows "run q (\<lambda>t. \<tau> (\<rho> t))"
  using assms by (simp add: prefix_run_def run_def)

lemma prefix_extends:
  assumes q: "renumbered q" and p: "prefix_run q \<tau> n"
  shows "\<exists>\<sigma>. run q \<sigma> \<and> (\<forall>t < n. \<sigma> t = \<tau> t)"
proof -
  define after where "after = (\<lambda>\<nu>. SOME \<mu>. models q \<mu> \<and> list_all (latch_next \<nu> \<mu>) (latches q))"
  have after: "models q (after \<nu>)" "list_all (latch_next \<nu> (after \<nu>)) (latches q)" for \<nu>
    unfolding after_def using someI_ex [OF successor [OF q]] by blast+
  obtain \<mu>0 where \<mu>0: "models q \<mu>0" "list_all (latch_init \<mu>0) (latches q)" using first_step [OF q] by blast
  define \<sigma> where "\<sigma> = rec_nat (if 0 < n then \<tau> 0 else \<mu>0) (\<lambda>t \<nu>. if Suc t < n then \<tau> (Suc t) else after \<nu>)"
  have \<sigma>0: "\<sigma> 0 = (if 0 < n then \<tau> 0 else \<mu>0)" and \<sigma>S: "\<sigma> (Suc t) = (if Suc t < n then \<tau> (Suc t) else after (\<sigma> t))" for t
    by (simp_all add: \<sigma>_def)
  have same: "\<sigma> t = \<tau> t" if "t < n" for t using that by (cases t) (simp_all add: \<sigma>0 \<sigma>S)
  have "models q (\<sigma> t)" for t
  proof (cases t)
    case 0
    then show ?thesis using p \<mu>0 by (simp add: \<sigma>0 prefix_run_def)
  next
    case (Suc k)
    then show ?thesis using p after(1) by (simp add: \<sigma>S prefix_run_def)
  qed
  moreover have "list_all (latch_init (\<sigma> 0)) (latches q)" using p \<mu>0 by (simp add: \<sigma>0 prefix_run_def)
  moreover have "list_all (latch_next (\<sigma> t) (\<sigma> (Suc t))) (latches q)" for t
    using p after(2) same [of t] by (simp add: \<sigma>S prefix_run_def)
  ultimately show ?thesis using same by (auto simp: run_def)
qed

text \<open>A run that repeats the steps from \<open>i\<close> to \<open>n\<close>.\<close>

definition lasso :: "nat \<Rightarrow> nat \<Rightarrow> nat \<Rightarrow> nat" where
  "lasso i n t = (if t < n then t else i + (t - i) mod (n - i))"

lemma lasso_less: "i < n \<Longrightarrow> lasso i n t < n"
proof -
  assume "i < n"
  then have "(t - i) mod (n - i) < n - i" by simp
  then have "i + (t - i) mod (n - i) < n" by linarith
  then show ?thesis by (simp add: lasso_def)
qed

lemma lasso_Suc: "i < n \<Longrightarrow> lasso i n (Suc t) = (if Suc (lasso i n t) = n then i else Suc (lasso i n t))"
proof -
  assume i: "i < n"
  show ?thesis
  proof (cases "Suc t < n")
    case False
    have "lasso i n t = i + (t - i) mod (n - i)" using False i by (cases "Suc t = n") (auto simp: lasso_def)
    moreover have "lasso i n (Suc t) = i + Suc (t - i) mod (n - i)" using False i by (simp add: lasso_def Suc_diff_le)
    ultimately show ?thesis using i by (auto simp: mod_Suc)
  qed (simp add: lasso_def)
qed

lemma lasso_often: "i \<le> k \<Longrightarrow> k < n \<Longrightarrow> \<exists>t \<ge> m. lasso i n t = k"
proof -
  assume k: "i \<le> k" "k < n"
  have "1 \<le> n - i" using k by linarith
  then have "m \<le> m * (n - i)" by simp
  then have "m \<le> k + m * (n - i)" by (rule trans_le_add2)
  moreover have "lasso i n (k + m * (n - i)) = k"
  proof (cases "k + m * (n - i) < n")
    case True
    have "m = 0"
    proof (rule ccontr)
      assume "m \<noteq> 0"
      then have "n - i \<le> m * (n - i)" by simp
      with True k show False by linarith
    qed
    then show ?thesis using k by (simp add: lasso_def)
  next
    case False
    have "k + m * (n - i) - i = (k - i) + m * (n - i)" "k - i < n - i" using k by simp_all
    then have "(k + m * (n - i) - i) mod (n - i) = k - i" by simp
    then show ?thesis using False k by (simp add: lasso_def)
  qed
  ultimately show ?thesis by blast
qed

lemma lasso_run:
  assumes p: "prefix_run q \<tau> n" and i: "i < n" and closes: "list_all (latch_next (\<tau> (n - 1)) (\<tau> i)) (latches q)"
  shows "run q (\<lambda>t. \<tau> (lasso i n t))"
proof (rule run_of_steps [OF p])
  show "0 < n" "lasso i n 0 = 0" using i by (simp_all add: lasso_def)
  show "lasso i n t < n" for t by (rule lasso_less [OF i])
  show "list_all (latch_next (\<tau> (lasso i n t)) (\<tau> (lasso i n (Suc t)))) (latches q)" for t
  proof (cases "Suc (lasso i n t) = n")
    case True
    then have "lasso i n t = n - 1" by simp
    with closes True show ?thesis by (simp add: lasso_Suc [OF i])
  next
    case False
    with lasso_less [OF i, of t] p show ?thesis by (simp add: lasso_Suc [OF i] prefix_run_def)
  qed
qed

end
