(* ===== verification/AigerCnfCorrect.thy ===== *)
theory AigerCnfCorrect
  imports AigerCnf AigerFiltersCorrect AigerReset AigerRenumbered
begin

text \<open>
  \<open>aigtocnf\<close> is correct: the references are closed under the polarities of the gates, the map numbers
  the referenced variables without gaps, and the formula is satisfiable exactly when the output of
  the structure can be true. Without the polarity optimisation: how many clauses the header announces.
\<close>

section \<open>What the translator is given\<close>

definition cnf_ready :: "aiger_private \<Rightarrow> bool" where
  "cnf_ready q \<longleftrightarrow> renumbered q \<and> latches q = [] \<and> maxvar q < 715827882"

lemma cnf_readyD:
  assumes "cnf_ready q"
  shows "renumbered q" "map and_lhs (ands q) = seq_lits (length (inputs q)) (length (ands q))" "latches q = []" "all_defined q"
    "maxvar q < 715827882" "length (ands q) \<le> maxvar q"
    "\<And>g. g \<in> set (ands q) \<Longrightarrow> and_rhs0 g < and_lhs g \<and> and_rhs1 g \<le> and_rhs0 g"
    "\<And>g. g \<in> set (ands q) \<Longrightarrow> even (and_lhs g) \<and> length (inputs q) < and_lhs g div 2 \<and> and_lhs g div 2 \<le> maxvar q"
    "length (inputs q) + length (ands q) \<le> maxvar q"
  using assms renumberedD [of q] by (simp_all add: cnf_ready_def)

lemma sorted_gates_form:
  assumes "cnf_ready q"
  shows "sorted_wrt (\<lambda>g h. and_lhs h < and_lhs g) (rev (ands q))"
proof -
  have "sorted_wrt (<) (map and_lhs (ands q))"
    unfolding cnf_readyD(2) [OF assms] seq_lits_def by (simp add: sorted_wrt_map)
  then show ?thesis by (simp add: sorted_wrt_rev sorted_wrt_map)
qed

section \<open>References\<close>

abbreviation marked :: "uint list \<Rightarrow> uint \<Rightarrow> bool" where
  "marked refs l \<equiv> refs ! l \<noteq> 0"

definition closed_at :: "uint list \<Rightarrow> aiger_and \<Rightarrow> bool" where
  "closed_at refs g \<longleftrightarrow>
     (marked refs (and_lhs g) \<longrightarrow> marked refs (and_rhs0 g) \<and> marked refs (and_rhs1 g)) \<and>
     (marked refs (aiger_not (and_lhs g)) \<longrightarrow> marked refs (aiger_not (and_rhs0 g)) \<and> marked refs (aiger_not (and_rhs1 g)))"

text \<open>More references, of which the new ones are in \<open>ls\<close>, and counts up to \<open>b\<close>.\<close>

definition adds :: "uint set \<Rightarrow> uint list \<Rightarrow> uint list \<Rightarrow> bool" where
  "adds ls refs refs' \<longleftrightarrow> length refs' = length refs \<and>
     (\<forall>i < length refs. (marked refs i \<longrightarrow> marked refs' i) \<and> (i \<notin> ls \<longrightarrow> refs' ! i = refs ! i))"

definition at_most :: "nat \<Rightarrow> uint list \<Rightarrow> bool" where
  "at_most b refs \<longleftrightarrow> (\<forall>i < length refs. refs ! i \<le> b)"

lemma at_most_mono: "at_most b refs \<Longrightarrow> b \<le> c \<Longrightarrow> at_most c refs"
  by (auto simp: at_most_def intro: le_trans)

lemma adds_same [simp]: "adds ls refs refs"
  by (simp add: adds_def)

lemma adds_trans: "adds ls refs refs' \<Longrightarrow> adds ks refs' refs'' \<Longrightarrow> adds (ls \<union> ks) refs refs''"
  unfolding adds_def by auto

lemma bump_adds:
  assumes "l < length refs" "at_most b refs" "b < 4294967295"
  shows "\<exists>refs'. bump l refs = Some refs' \<and> adds {l} refs refs' \<and> at_most (Suc b) refs' \<and> marked refs' l"
proof -
  have l: "refs ! l \<le> b" using assms(1,2) by (simp add: at_most_def)
  then have "u32 (refs ! l + 1) = Suc (refs ! l)" using assms(3) by simp
  with assms l show ?thesis by (auto simp: bump_def deref_def adds_def at_most_def nth_list_update intro: le_SucI)
qed

lemma bump_two:
  assumes l: "l < length refs" "k < length refs" and b: "at_most b refs" "b < 4294967294"
  shows "\<exists>refs'. do { refs \<leftarrow> bump l refs; bump k refs } = Some refs' \<and> adds {l, k} refs refs' \<and> at_most (b + 2) refs' \<and>
     marked refs' l \<and> marked refs' k"
proof -
  obtain r where r: "bump l refs = Some r" "adds {l} refs r" "at_most (Suc b) r" "marked r l"
    using bump_adds [OF l(1) b(1)] b(2) by auto
  have "k < length r" "Suc b < 4294967295" using r(2) l(2) b(2) by (simp_all add: adds_def)
  from bump_adds [OF this(1) r(3) this(2)] obtain s where
    s: "bump k r = Some s" "adds {k} r s" "at_most (Suc (Suc b)) s" "marked s k" by blast
  have "adds {l, k} refs s" using adds_trans [OF r(2) s(2)] by (simp add: insert_commute)
  moreover have "marked s l" using r(2,4) s(2) l(1) by (simp add: adds_def)
  ultimately show ?thesis using r(1) s(1,3,4) by auto
qed

lemma aiger_not_even: "even l \<Longrightarrow> aiger_not l = Suc l"
  by (simp add: aiger_not_eq)

lemma negation_less: "l < k \<Longrightarrow> even k \<Longrightarrow> aiger_not l < k"
  by (auto simp: aiger_not_eq elim!: evenE)

lemma ref_and_spec:
  assumes g: "and_rhs0 g < and_lhs g" "and_rhs1 g < and_lhs g" "even (and_lhs g)" "Suc (and_lhs g) < length refs"
    and b: "at_most b refs" "b < 4294967290"
  shows "\<exists>refs'. ref_and g refs = Some refs' \<and> at_most (b + 4) refs' \<and> closed_at refs' g \<and>
     adds {and_rhs0 g, and_rhs1 g, aiger_not (and_rhs0 g), aiger_not (and_rhs1 g)} refs refs'"
proof -
  let ?l = "and_lhs g" and ?a = "and_rhs0 g" and ?c = "and_rhs1 g"
  have n: "aiger_not ?a < ?l" "aiger_not ?c < ?l" "aiger_not ?l = Suc ?l" using g negation_less aiger_not_even by auto
  have len: "?l < length refs" "?a < length refs" "?c < length refs" "aiger_not ?a < length refs" "aiger_not ?c < length refs"
    using g n by auto
  obtain r where r: "(if refs ! ?l \<noteq> 0 then do { refs \<leftarrow> bump ?a refs; bump ?c refs } else Some refs) = Some r"
    "adds {?a, ?c} refs r" "at_most (b + 2) r" "marked refs ?l \<longrightarrow> marked r ?a \<and> marked r ?c"
  proof (cases "refs ! ?l = 0")
    case True
    with that [of refs] at_most_mono [OF b(1)] show ?thesis by simp
  next
    case False
    with bump_two [OF len(2,3) b(1)] b(2) that show ?thesis by auto
  qed
  have lr: "length r = length refs" using r(2) by (simp add: adds_def)
  obtain s where s: "(if r ! aiger_not ?l \<noteq> 0 then do { refs \<leftarrow> bump (aiger_not ?a) r; bump (aiger_not ?c) refs } else Some r) = Some s"
    "adds {aiger_not ?a, aiger_not ?c} r s" "at_most (b + 4) s" "marked r (aiger_not ?l) \<longrightarrow> marked s (aiger_not ?a) \<and> marked s (aiger_not ?c)"
  proof (cases "r ! aiger_not ?l = 0")
    case True
    with that [of r] at_most_mono [OF r(3)] show ?thesis by simp
  next
    case False
    have "aiger_not ?a < length r" "aiger_not ?c < length r" "b + 2 < 4294967294" using lr len(4,5) b(2) by simp_all
    from bump_two [OF this(1,2) r(3) this(3)] obtain s where
      s: "do { refs \<leftarrow> bump (aiger_not ?a) r; bump (aiger_not ?c) refs } = Some s" "adds {aiger_not ?a, aiger_not ?c} r s"
        "at_most (b + 2 + 2) s" "marked s (aiger_not ?a)" "marked s (aiger_not ?c)" by blast
    have "at_most (b + 4) s" by (rule at_most_mono [OF s(3)]) simp
    with False s that show ?thesis by auto
  qed
  have t: "adds ({?a, ?c} \<union> {aiger_not ?a, aiger_not ?c}) refs s" by (rule adds_trans [OF r(2) s(2)])
  have same: "s ! ?l = refs ! ?l" "s ! aiger_not ?l = refs ! aiger_not ?l" "r ! aiger_not ?l = refs ! aiger_not ?l"
    using t r(2) g n len(1) by (auto simp: adds_def)
  have "marked s ?a" "marked s ?c" if "marked refs ?l" using that r(4) s(2) len lr by (auto simp: adds_def)
  then have "closed_at s g" using same s(4) by (simp add: closed_at_def)
  moreover have "ref_and g refs = Some s"
    using r(1) s(1) len(1) n(3) g(4) lr by (simp add: ref_and_def deref_def)
  moreover have "{?a, ?c} \<union> {aiger_not ?a, aiger_not ?c} = {?a, ?c, aiger_not ?a, aiger_not ?c}" by auto
  ultimately show ?thesis using t s(3) by metis
qed


lemma defined_lits: "cnf_ready q \<Longrightarrow> defined_var q v \<Longrightarrow> v \<le> maxvar q"
  using defined_below cnf_readyD(1) by blast

lemma cnf_closed:
  assumes q: "cnf_ready q" and out: "defined_var q (out div 2)"
  shows "\<exists>refs. count_refs q out = Some refs \<and> length refs = 2 * Suc (maxvar q) \<and> marked refs out \<and>
     (\<forall>g \<in> set (ands q). closed_at refs g) \<and> (\<forall>l < length refs. marked refs l \<longrightarrow> defined_var q (l div 2))"
proof -
  note r = cnf_readyD [OF q]
  let ?N = "2 * Suc (maxvar q)"
  have N: "u32 (2 * u32 (maxvar q + 1)) = ?N" using r(5) by simp
  let ?zeros = "replicate ?N (0 :: uint)"
  have outN: "out < ?N" using defined_lits [OF q out] by simp
  then have "out < length ?zeros" by simp
  then obtain r0 where r0: "bump out ?zeros = Some r0" "adds {out} ?zeros r0" "at_most 1 r0" "marked r0 out"
    using bump_adds [of out ?zeros 0] by (auto simp: at_most_def simp del: replicate_Suc replicate.simps mult_Suc_right)
  define I where "I = (\<lambda>gs refs. length refs = ?N \<and> at_most (1 + 4 * length gs) refs \<and> marked refs out \<and>
    (\<forall>g \<in> set gs. closed_at refs g) \<and> (\<forall>l < ?N. marked refs l \<longrightarrow> defined_var q (l div 2)))"
  have "\<exists>refs. foldm ref_and (rev (ands q)) r0 = Some refs \<and> I (rev (ands q)) refs"
  proof (rule foldm_list)
    have "defined_var q (l div 2)" if "l < ?N" "marked r0 l" for l
    proof (rule ccontr)
      assume "\<not> defined_var q (l div 2)"
      then have "l \<noteq> out" using out by auto
      then show False using r0(2) that by (simp add: adds_def del: replicate_Suc)
    qed
    with r0 show "I [] r0" by (simp add: I_def adds_def del: replicate_Suc)
  next
    fix i refs assume i: "i < length (rev (ands q))" and I: "I (take i (rev (ands q))) refs"
    let ?g = "rev (ands q) ! i"
    have g: "?g \<in> set (ands q)" using i by (metis nth_mem set_rev)
    have lhs: "Suc (and_lhs ?g) < length refs" using r(8) [OF g] I by (auto simp: I_def elim!: evenE)
    have b: "at_most (1 + 4 * i) refs" "1 + 4 * i < 4294967290" using I i r(5,6) by (simp_all add: I_def)
    have rhs: "and_rhs0 ?g < and_lhs ?g" "and_rhs1 ?g < and_lhs ?g" "even (and_lhs ?g)" using r(7,8) [OF g] by auto
    from ref_and_spec [OF rhs lhs b] obtain s where s: "ref_and ?g refs = Some s" "at_most (1 + 4 * i + 4) s" "closed_at s ?g"
      "adds {and_rhs0 ?g, and_rhs1 ?g, aiger_not (and_rhs0 ?g), aiger_not (and_rhs1 ?g)} refs s" by blast
    have less: "and_rhs0 ?g < and_lhs h \<and> and_rhs1 ?g < and_lhs h \<and> and_lhs h < ?N \<and> Suc (and_lhs h) < ?N \<and> even (and_lhs h)"
      if h: "h \<in> set (take i (rev (ands q)))" for h
    proof -
      have "and_lhs ?g < and_lhs h" using sorted_gates_form [OF q] h i by (auto simp: in_set_conv_nth sorted_wrt_iff_nth_less)
      moreover have "h \<in> set (ands q)" using h by (metis in_set_takeD set_rev)
      then have "even (and_lhs h) \<and> and_lhs h div 2 \<le> maxvar q" using r(8) by simp
      ultimately show ?thesis using rhs by (auto elim!: evenE)
    qed
    have old: "closed_at s h" if h: "h \<in> set (take i (rev (ands q)))" for h
    proof -
      note l = less [OF h] and n = negation_less [of _ "and_lhs h"] aiger_not_even [of "and_lhs h"]
      have nl: "aiger_not (and_rhs0 ?g) < and_lhs h" "aiger_not (and_rhs1 ?g) < and_lhs h" using l n(1) by blast+
      have hq: "h \<in> set (ands q)" using h by (metis in_set_takeD set_rev)
      have "s ! and_lhs h = refs ! and_lhs h" "s ! aiger_not (and_lhs h) = refs ! aiger_not (and_lhs h)"
        using s(4) l n(2) nl I by (auto simp: adds_def I_def)
      moreover have "marked refs k \<Longrightarrow> marked s k" if "k < and_lhs h" for k using s(4) that l I by (simp add: adds_def I_def)
      moreover have "closed_at refs h" using I h by (simp add: I_def)
      ultimately show ?thesis using r(7) [OF hq] l n(1) unfolding closed_at_def by (metis le_less_trans)
    qed
    have dg: "defined_var q (and_rhs0 ?g div 2)" "defined_var q (and_rhs1 ?g div 2)"
      using r(4) g by (simp_all add: all_defined_def)
    have def: "defined_var q (l div 2)" if l: "l < ?N" "marked s l" for l
    proof (cases "l \<in> {and_rhs0 ?g, and_rhs1 ?g, aiger_not (and_rhs0 ?g), aiger_not (and_rhs1 ?g)}")
      case True
      then show ?thesis using dg by auto
    next
      case False
      then show ?thesis using s(4) I l by (auto simp: adds_def I_def)
    qed
    have "I (take i (rev (ands q)) @ [?g]) s"
      using s I i old def outN by (auto simp: I_def adds_def algebra_simps)
    with s(1) show "\<exists>t. ref_and ?g refs = Some t \<and> I (take i (rev (ands q)) @ [?g]) t" by blast
  qed
  then show ?thesis using r0(1) N by (auto simp: count_refs_def I_def)
qed


section \<open>The map\<close>

definition used :: "uint list \<Rightarrow> nat \<Rightarrow> bool" where
  "used refs v \<longleftrightarrow> marked refs (2 * v) \<or> marked refs (2 * v + 1)"

text \<open>The variables below \<open>k\<close> that are used have numbers, and no two of them the same.\<close>

definition numbered :: "uint list \<Rightarrow> nat \<Rightarrow> nat \<Rightarrow> int list \<Rightarrow> bool" where
  "numbered refs k m tab \<longleftrightarrow> length tab = length refs \<and>
     (\<forall>v < k. used refs v \<longrightarrow> tab ! (2 * v + 1) = - tab ! (2 * v) \<and> tab ! (2 * v) \<noteq> 0 \<and> \<bar>tab ! (2 * v)\<bar> \<le> int m) \<and>
     (\<forall>v < k. \<forall>w < k. used refs v \<longrightarrow> used refs w \<longrightarrow> \<bar>tab ! (2 * v)\<bar> = \<bar>tab ! (2 * w)\<bar> \<longrightarrow> v = w)"

lemma numbered_skip: "numbered refs k m tab \<Longrightarrow> \<not> used refs k \<Longrightarrow> numbered refs (Suc k) m tab"
  unfolding numbered_def by (metis less_Suc_eq)

lemma numbered_add:
  assumes n: "numbered refs k m tab" and k: "2 * k + 1 < length tab"
  shows "numbered refs (Suc k) (Suc m) (tab[2 * k := int (Suc m), 2 * k + 1 := - int (Suc m)])"
proof -
  let ?t = "tab[2 * k := int (Suc m), 2 * k + 1 := - int (Suc m)]"
  have new: "?t ! (2 * k) = int (Suc m)" "?t ! (2 * k + 1) = - int (Suc m)" using k by simp_all
  have old: "?t ! (2 * v) = tab ! (2 * v)" "?t ! (2 * v + 1) = tab ! (2 * v + 1)" if "v < k" for v
    using that by (simp_all add: nth_list_update)
  have le: "\<bar>tab ! (2 * v)\<bar> \<le> int m" if "v < k" "used refs v" for v using n that by (simp add: numbered_def)
  have "?t ! (2 * v + 1) = - ?t ! (2 * v) \<and> ?t ! (2 * v) \<noteq> 0 \<and> \<bar>?t ! (2 * v)\<bar> \<le> int (Suc m)" if "v < Suc k" "used refs v" for v
  proof (cases "v = k")
    case False
    then have v: "v < k" using that by simp
    with n that have "tab ! (2 * v + 1) = - tab ! (2 * v) \<and> tab ! (2 * v) \<noteq> 0 \<and> \<bar>tab ! (2 * v)\<bar> \<le> int m" by (simp add: numbered_def)
    then show ?thesis unfolding old [OF v] by simp
  next
    case True
    show ?thesis unfolding True new by simp
  qed
  moreover have "v = w" if v: "v < Suc k" "used refs v" and w: "w < Suc k" "used refs w" and e: "\<bar>?t ! (2 * v)\<bar> = \<bar>?t ! (2 * w)\<bar>" for v w
  proof (cases "v = k \<or> w = k")
    case True
    then show ?thesis using v w e le [of v] le [of w] new old by (cases "v = k"; cases "w = k") auto
  next
    case False
    then have l: "v < k" "w < k" using v w by simp_all
    then show ?thesis using n v(2) w(2) e unfolding old [OF l(1)] old [OF l(2)] by (simp add: numbered_def)
  qed
  moreover have "length ?t = length refs" using n by (simp add: numbered_def)
  ultimately show ?thesis unfolding numbered_def by blast
qed

text \<open>The clauses that the header counts for the variable \<open>v\<close>.\<close>

definition counted :: "nat \<Rightarrow> uint list \<Rightarrow> nat \<Rightarrow> nat" where
  "counted i refs v = (if v \<le> i then 0 else (if marked refs (2 * v) then 2 else 0) + (if marked refs (2 * v + 1) then 1 else 0))"

lemma map_lit_spec:
  assumes n: "numbered refs k (cm_m s) (cm_map s)" and k: "2 * k + 1 < length refs"
  shows "\<exists>t. map_lit prtmap i refs (2 * k) s = Some t \<and> numbered refs (Suc k) (cm_m t) (cm_map t) \<and>
     cm_n t = cm_n s + counted i refs k \<and> cm_m t = cm_m s + (if used refs k then 1 else 0) \<and>
     (\<forall>l < 2 * k. cm_map t ! l = cm_map s ! l) \<and> (prtmap \<or> cm_text t = cm_text s)"
proof (cases "used refs k")
  case False
  with numbered_skip [OF n] k show ?thesis by (simp add: map_lit_def deref_def used_def counted_def)
next
  case True
  have len: "length (cm_map s) = length refs" using n by (simp add: numbered_def)
  let ?m = "Suc (cm_m s)"
  have num: "numbered refs (Suc k) ?m ((cm_map s)[2 * k := int ?m, 2 * k + 1 := - int ?m])"
    by (rule numbered_add [OF n]) (use k len in simp)
  have c: "(2 * k \<le> 2 * i + 1) = (k \<le> i)" by linarith
  show ?thesis
    using True k len num unfolding map_lit_def Let_def
    by (simp add: deref_def used_def counted_def c algebra_simps)
qed

lemma map_lits_spec:
  assumes len: "length refs = 2 * Suc (maxvar q)" and m: "maxvar q < 715827882"
  shows "\<exists>s. map_lits prtmap q refs = Some s \<and> numbered refs (Suc (maxvar q)) (cm_m s) (cm_map s) \<and>
     cm_n s = 1 + (if used refs 0 then 1 else 0) + sum_list (map (counted (length (inputs q)) refs) [1..<Suc (maxvar q)]) \<and>
     cm_m s = card {v. v \<le> maxvar q \<and> used refs v} \<and> (used refs 0 \<longrightarrow> cm_map s ! 1 = 1) \<and> (prtmap \<or> cm_text s = [])"
proof -
  let ?f = "map_lit prtmap (length (inputs q)) refs" and ?c = "counted (length (inputs q)) refs"
  have N: "u32 (2 * u32 (maxvar q + 1)) = 2 * Suc (maxvar q)" using m by simp
  define c0 :: nat where "c0 = (if used refs 0 then 1 else 0)"
  obtain s0 where s0: "map_const q refs = Some s0" "numbered refs 1 (cm_m s0) (cm_map s0)" "cm_n s0 = 1 + c0" "cm_m s0 = c0"
    "used refs 0 \<longrightarrow> cm_map s0 ! 1 = 1" "cm_text s0 = []"
    using len unfolding map_const_def N Let_def by (auto simp: deref_def used_def numbered_def c0_def)
  have "\<exists>s. foldm ?f (map (\<lambda>v. 2 * v) [1..<k + 1]) s0 = Some s \<and> numbered refs (Suc k) (cm_m s) (cm_map s) \<and>
      cm_n s = cm_n s0 + sum_list (map ?c [1..<k + 1]) \<and> cm_m s = card {v. v \<le> k \<and> used refs v} \<and>
      (used refs 0 \<longrightarrow> cm_map s ! 1 = 1) \<and> (prtmap \<or> cm_text s = [])" if "k \<le> maxvar q" for k
    using that
  proof (induction k)
    case 0
    have "{v. v \<le> 0 \<and> used refs v} = (if used refs 0 then {0} else {})" by auto
    with s0 show ?case by (simp add: c0_def)
  next
    case (Suc k)
    then obtain s where s: "foldm ?f (map (\<lambda>v. 2 * v) [1..<k + 1]) s0 = Some s" "numbered refs (Suc k) (cm_m s) (cm_map s)"
      "cm_n s = cm_n s0 + sum_list (map ?c [1..<k + 1])" "cm_m s = card {v. v \<le> k \<and> used refs v}"
      "used refs 0 \<longrightarrow> cm_map s ! 1 = 1" "prtmap \<or> cm_text s = []" by auto
    have "2 * Suc k + 1 < length refs" using Suc.prems len by simp
    from map_lit_spec [OF s(2) this, of prtmap "length (inputs q)"] obtain t where t: "?f (2 * Suc k) s = Some t"
      "numbered refs (Suc (Suc k)) (cm_m t) (cm_map t)" "cm_n t = cm_n s + ?c (Suc k)" "cm_m t = cm_m s + (if used refs (Suc k) then 1 else 0)"
      "\<forall>l < 2 * Suc k. cm_map t ! l = cm_map s ! l" "prtmap \<or> cm_text t = cm_text s" by blast
    have "{v. v \<le> Suc k \<and> used refs v} = (if used refs (Suc k) then {Suc k} else {}) \<union> {v. v \<le> k \<and> used refs v}" by (auto simp: le_Suc_eq)
    then have "card {v. v \<le> Suc k \<and> used refs v} = card {v. v \<le> k \<and> used refs v} + (if used refs (Suc k) then 1 else 0)" by simp
    moreover have "cm_map t ! 1 = cm_map s ! 1" using t(5) by simp
    ultimately show ?case using s t by (auto simp: foldm_append algebra_simps simp del: mult_Suc_right)
  qed
  from this [of "maxvar q"] s0(1,3) show ?thesis by (simp add: map_lits_def c0_def)
qed


section \<open>The meaning of the formula\<close>

text \<open>A literal of the formula under an assignment, and the clauses that a DIMACS file lists: the
  numbers up to each zero.\<close>

definition lit_true :: "(nat \<Rightarrow> bool) \<Rightarrow> int \<Rightarrow> bool" where
  "lit_true \<beta> i \<longleftrightarrow> \<beta> (nat \<bar>i\<bar>) = (0 < i)"

definition satisfiable :: "int list list \<Rightarrow> bool" where
  "satisfiable cs \<longleftrightarrow> (\<exists>\<beta>. list_all (list_ex (lit_true \<beta>)) cs)"

fun dimacs :: "int list \<Rightarrow> int list list" where
  "dimacs [] = []"
| "dimacs (i # is) =
     (if i = 0 then [] # dimacs is else case dimacs is of [] \<Rightarrow> [[i]] | c # cs \<Rightarrow> (i # c) # cs)"

definition numbers :: "int list list \<Rightarrow> int list" where
  "numbers cs = concat (map (\<lambda>c. c @ [0]) cs)"

lemma dimacs_numbers: "list_all (list_all (\<lambda>i. i \<noteq> 0)) cs \<Longrightarrow> dimacs (numbers cs) = cs"
proof (induction cs)
  case (Cons c cs)
  have "list_all (\<lambda>i. i \<noteq> 0) c \<Longrightarrow> dimacs (c @ 0 # is) = c # dimacs is" for "is" by (induction c) auto
  with Cons show ?case by (simp add: numbers_def)
qed (simp add: numbers_def)

lemma lit_true_neg: "i \<noteq> 0 \<Longrightarrow> lit_true \<beta> (- i) = (\<not> lit_true \<beta> i)"
  by (auto simp: lit_true_def)

lemma numbered_lit:
  assumes n: "numbered refs k m tab" and u: "used refs (l div 2)" "l div 2 < k"
  shows "tab ! l \<noteq> 0" "tab ! aiger_not l = - tab ! l" "\<bar>tab ! l\<bar> \<le> int m" "\<bar>tab ! l\<bar> = \<bar>tab ! (2 * (l div 2))\<bar>"
proof -
  have t: "tab ! (2 * (l div 2) + 1) = - tab ! (2 * (l div 2))" "tab ! (2 * (l div 2)) \<noteq> 0" "\<bar>tab ! (2 * (l div 2))\<bar> \<le> int m"
    using n u by (simp_all add: numbered_def)
  show "tab ! l \<noteq> 0" "tab ! aiger_not l = - tab ! l" "\<bar>tab ! l\<bar> \<le> int m" "\<bar>tab ! l\<bar> = \<bar>tab ! (2 * (l div 2))\<bar>"
    using t by (cases "even l"; auto simp: aiger_not_eq elim!: oddE)+
qed

definition gate_clauses :: "uint list \<Rightarrow> int list \<Rightarrow> aiger_and \<Rightarrow> int list list" where
  "gate_clauses refs tab g =
     (if marked refs (and_lhs g) then
        [[tab ! aiger_not (and_lhs g), tab ! and_rhs1 g], [tab ! aiger_not (and_lhs g), tab ! and_rhs0 g]] else []) @
     (if marked refs (aiger_not (and_lhs g)) then
        [[tab ! and_lhs g, tab ! aiger_not (and_rhs1 g), tab ! aiger_not (and_rhs0 g)]] else [])"

lemma and_clauses_eq:
  assumes "even (and_lhs g)" "Suc (and_lhs g) < length refs" "length tab = length refs" "and_rhs0 g < and_lhs g" "and_rhs1 g < and_lhs g"
  shows "and_clauses refs tab g = Some (gate_clauses refs tab g)"
proof -
  have "aiger_not (and_rhs0 g) < and_lhs g" "aiger_not (and_rhs1 g) < and_lhs g" using assms negation_less by auto
  with assms show ?thesis by (simp add: and_clauses_def gate_clauses_def deref_def aiger_not_even Let_def)
qed

section \<open>Equisatisfiability\<close>

text \<open>What the translation has computed.\<close>

definition translated :: "aiger_private \<Rightarrow> uint \<Rightarrow> uint list \<Rightarrow> nat \<Rightarrow> int list \<Rightarrow> bool" where
  "translated q out refs m tab \<longleftrightarrow> cnf_ready q \<and> length refs = 2 * Suc (maxvar q) \<and> marked refs out \<and> defined_var q (out div 2) \<and>
     (\<forall>g \<in> set (ands q). closed_at refs g) \<and> (\<forall>l < length refs. marked refs l \<longrightarrow> defined_var q (l div 2)) \<and>
     numbered refs (Suc (maxvar q)) m tab \<and> (used refs 0 \<longrightarrow> tab ! 1 = 1)"

definition formula :: "aiger_private \<Rightarrow> uint \<Rightarrow> uint list \<Rightarrow> int list \<Rightarrow> int list list" where
  "formula q out refs tab =
     (if used refs 0 then [[tab ! 1]] else []) @ concat (map (gate_clauses refs tab) (ands q)) @ [[tab ! out]]"

lemma translatedD:
  assumes "translated q out refs m tab"
  shows "cnf_ready q" "length refs = 2 * Suc (maxvar q)" "marked refs out" "defined_var q (out div 2)"
    "\<And>g. g \<in> set (ands q) \<Longrightarrow> closed_at refs g" "numbered refs (Suc (maxvar q)) m tab" "used refs 0 \<Longrightarrow> tab ! 1 = 1"
    "\<And>l. defined_var q (l div 2) \<Longrightarrow> l < length refs" "\<And>l. marked refs l \<Longrightarrow> l < length refs \<Longrightarrow> defined_var q (l div 2)"
proof -
  show q: "cnf_ready q" and len: "length refs = 2 * Suc (maxvar q)" and "marked refs out" "defined_var q (out div 2)"
    "\<And>g. g \<in> set (ands q) \<Longrightarrow> closed_at refs g" "numbered refs (Suc (maxvar q)) m tab" "used refs 0 \<Longrightarrow> tab ! 1 = 1"
    "\<And>l. marked refs l \<Longrightarrow> l < length refs \<Longrightarrow> defined_var q (l div 2)"
    using assms by (simp_all add: translated_def)
  show "l < length refs" if "defined_var q (l div 2)" for l using defined_lits [OF q that] by (simp add: len)
qed


lemma valuation_from_inputs:
  assumes q: "cnf_ready q" and \<nu>: "\<not> \<nu> 0"
  shows "\<exists>\<mu>. models q \<mu> \<and> (\<forall>v \<le> length (inputs q). \<mu> v = \<nu> v)"
  using valuation_from_sources [OF cnf_readyD(1) [OF q], of \<nu>] \<nu> cnf_readyD(3) [OF q] by simp

lemma translated_lit:
  assumes t: "translated q out refs m tab" and l: "marked refs l" "l < length refs"
  shows "used refs (l div 2)" "l div 2 < Suc (maxvar q)" "tab ! l \<noteq> 0" "tab ! aiger_not l = - tab ! l" "\<bar>tab ! l\<bar> \<le> int m"
    "lit_true \<beta> (tab ! l) = (lit_true \<beta> (tab ! (2 * (l div 2))) \<noteq> odd l)"
proof -
  show u: "used refs (l div 2)" using l(1) by (cases "even l") (auto simp: used_def elim!: oddE)
  show b: "l div 2 < Suc (maxvar q)" using l(2) translatedD(2) [OF t] by simp
  note n = numbered_lit [OF translatedD(6) [OF t] u b]
  show "tab ! l \<noteq> 0" "tab ! aiger_not l = - tab ! l" "\<bar>tab ! l\<bar> \<le> int m" using n by simp_all
  have "lit_true \<beta> (tab ! aiger_not l) = (\<not> lit_true \<beta> (tab ! l))" using n(1,2) lit_true_neg by simp
  then show "lit_true \<beta> (tab ! l) = (lit_true \<beta> (tab ! (2 * (l div 2))) \<noteq> odd l)"
    by (cases "even l") (auto simp: aiger_not_eq elim!: oddE)
qed

lemma gate_refs:
  assumes t: "translated q out refs m tab" and g: "g \<in> set (ands q)"
  shows "and_lhs g < length refs" "aiger_not (and_lhs g) < length refs" "and_rhs0 g < length refs" "and_rhs1 g < length refs"
    "aiger_not (and_rhs0 g) < length refs" "aiger_not (and_rhs1 g) < length refs"
proof -
  note q = translatedD(1) [OF t] and len = translatedD(8) [OF t]
  have d: "defined_var q (and_rhs0 g div 2)" "defined_var q (and_rhs1 g div 2)"
    using cnf_readyD(4) [OF q] g by (simp_all add: all_defined_def)
  have l: "defined_var q (and_lhs g div 2)" using cnf_readyD(8) [OF q g] g by (auto simp: defined_var_def)
  show "and_lhs g < length refs" "aiger_not (and_lhs g) < length refs" "and_rhs0 g < length refs" "and_rhs1 g < length refs"
    "aiger_not (and_rhs0 g) < length refs" "aiger_not (and_rhs1 g) < length refs"
    using d l by (auto intro: len)
qed

text \<open>A literal of the structure that is referenced and true in the formula is true in the structure.\<close>

lemma formula_sound:
  assumes t: "translated q out refs m tab" and \<beta>: "list_all (list_ex (lit_true \<beta>)) (formula q out refs tab)"
    and \<mu>: "models q \<mu>" "\<forall>v \<le> length (inputs q). \<mu> v = (v \<noteq> 0 \<and> lit_true \<beta> (tab ! (2 * v)))"
  shows "marked refs l \<Longrightarrow> l < length refs \<Longrightarrow> lit_true \<beta> (tab ! l) \<Longrightarrow> litval \<mu> l"
proof (induction "l div 2" arbitrary: l rule: less_induct)
  case less
  note l = translated_lit [OF t less.prems(1,2)] and q = translatedD(1) [OF t]
  have "defined_var q (l div 2)" by (rule translatedD(9) [OF t less.prems(1,2)])
  with cnf_readyD(1) [OF q] show ?case
  proof (cases rule: defined_cases)
    case const
    have "used refs 0" using l(1) const by simp
    then have one: "lit_true \<beta> (tab ! 1)" using \<beta> by (simp add: formula_def)
    have "l \<noteq> 0"
    proof
      assume z: "l = 0"
      then have "tab ! 1 = - tab ! l" using l(4) by (simp add: aiger_not_eq)
      then show False using one less.prems(3) l(3) lit_true_neg by simp
    qed
    with const have "l = 1" by auto
    then show ?thesis using \<mu>(1) by (simp add: models_def litval_def)
  next
    case source
    then show ?thesis using \<mu>(2) l(6) less.prems(3) cnf_readyD(3) [OF q] by (simp add: litval_def)
  next
    case (gate g)
    have cs: "list_all (list_ex (lit_true \<beta>)) (gate_clauses refs tab g)"
      using \<beta> gate(1) by (auto simp: formula_def list_all_iff)
    have "gate_holds \<mu> g" using \<mu>(1) gate(1) by (simp add: models_def list_all_iff)
    then have h: "\<mu> (l div 2) = (litval \<mu> (and_rhs0 g) \<and> litval \<mu> (and_rhs1 g))" by (simp add: gate_holds_def gate(2))
    have c: "closed_at refs g" by (rule translatedD(5) [OF t gate(1)])
    have sm: "and_rhs0 g div 2 < l div 2" "and_rhs1 g div 2 < l div 2" using cnf_readyD(7) [OF q gate(1)] gate(2) by auto
    note b = gate_refs [OF t gate(1)]
    show ?thesis
    proof (cases "even l")
      case True
      then have e: "l = and_lhs g" using gate(2) by simp
      then have r: "marked refs (and_rhs0 g)" "marked refs (and_rhs1 g)" using c less.prems(1) by (simp_all add: closed_at_def)
      have "\<not> lit_true \<beta> (tab ! aiger_not l)" using l(3,4) less.prems(3) lit_true_neg by simp
      then have "lit_true \<beta> (tab ! and_rhs0 g)" "lit_true \<beta> (tab ! and_rhs1 g)"
        using cs less.prems(1) by (auto simp: gate_clauses_def e)
      then have "litval \<mu> (and_rhs0 g)" "litval \<mu> (and_rhs1 g)"
        using less.hyps [OF sm(1) r(1) b(3)] less.hyps [OF sm(2) r(2) b(4)] by simp_all
      then show ?thesis using h litval_even [OF True] by simp
    next
      case False
      then have e: "l = aiger_not (and_lhs g)" using gate(2) by (auto simp: aiger_not_eq elim!: oddE)
      then have r: "marked refs (aiger_not (and_rhs0 g))" "marked refs (aiger_not (and_rhs1 g))"
        using c less.prems(1) by (simp_all add: closed_at_def)
      have "\<not> lit_true \<beta> (tab ! and_lhs g)" using l(3,4) less.prems(3) lit_true_neg e by simp
      then have "lit_true \<beta> (tab ! aiger_not (and_rhs0 g)) \<or> lit_true \<beta> (tab ! aiger_not (and_rhs1 g))"
        using cs less.prems(1) by (auto simp: gate_clauses_def e)
      moreover have n: "aiger_not (and_rhs0 g) div 2 < l div 2" "aiger_not (and_rhs1 g) div 2 < l div 2" using sm by simp_all
      ultimately have "litval \<mu> (aiger_not (and_rhs0 g)) \<or> litval \<mu> (aiger_not (and_rhs1 g))"
        using less.hyps [OF n(1) r(1) b(5)] less.hyps [OF n(2) r(2) b(6)] by metis
      then show ?thesis using h False by (auto simp: litval_def [of \<mu> l])
    qed
  qed
qed

text \<open>A valuation of the structure gives an assignment under which the literals have the same values.\<close>

lemma formula_assignment:
  assumes t: "translated q out refs m tab"
  shows "\<exists>\<beta>. \<forall>l < length refs. marked refs l \<longrightarrow> lit_true \<beta> (tab ! l) = litval \<mu> l"
proof (intro exI allI impI)
  define \<beta> where "\<beta> = (\<lambda>k. \<exists>v \<le> maxvar q. used refs v \<and> nat \<bar>tab ! (2 * v)\<bar> = k \<and> \<mu> v = (0 < tab ! (2 * v)))"
  fix l assume l: "l < length refs" "marked refs l"
  let ?v = "l div 2"
  note a = translated_lit [OF t l(2,1)]
  have u: "w = ?v" if "w \<le> maxvar q" "used refs w" "nat \<bar>tab ! (2 * w)\<bar> = nat \<bar>tab ! (2 * ?v)\<bar>" for w
    using translatedD(6) [OF t] that a(1,2) by (simp add: numbered_def)
  have "\<beta> (nat \<bar>tab ! (2 * ?v)\<bar>) = (\<mu> ?v = (0 < tab ! (2 * ?v)))"
    unfolding \<beta>_def using u a(1,2) less_Suc_eq_le by blast
  then have "lit_true \<beta> (tab ! (2 * ?v)) = \<mu> ?v" by (auto simp: lit_true_def)
  with a(6) show "lit_true \<beta> (tab ! l) = litval \<mu> l" by (simp add: litval_def)
qed

lemma formula_complete:
  assumes t: "translated q out refs m tab" and \<mu>: "models q \<mu>" "litval \<mu> out"
  shows "satisfiable (formula q out refs tab)"
proof -
  obtain \<beta> where \<beta>: "\<And>l. l < length refs \<Longrightarrow> marked refs l \<Longrightarrow> lit_true \<beta> (tab ! l) = litval \<mu> l"
    using formula_assignment [OF t, of \<mu>] by blast
  have neg: "lit_true \<beta> (tab ! aiger_not l) = (\<not> litval \<mu> l)" if "l < length refs" "marked refs l" for l
    using translated_lit(3,4) [OF t that(2,1)] \<beta> [OF that] lit_true_neg by simp
  have "list_all (list_ex (lit_true \<beta>)) (gate_clauses refs tab g)" if g: "g \<in> set (ands q)" for g
  proof -
    note b = gate_refs [OF t g]
    have h: "litval \<mu> (and_lhs g) = (litval \<mu> (and_rhs0 g) \<and> litval \<mu> (and_rhs1 g))"
      using \<mu>(1) g cnf_readyD(8) [OF translatedD(1) [OF t] g] by (simp add: models_def list_all_iff gate_holds_def litval_even)
    have "closed_at refs g" by (rule translatedD(5) [OF t g])
    then show ?thesis
      using h \<beta> neg b neg [of "aiger_not (and_lhs g)"] by (auto simp: gate_clauses_def closed_at_def)
  qed
  moreover have "lit_true \<beta> (tab ! out)" using \<beta> translatedD(3,4,8) [OF t] \<mu>(2) by simp
  moreover have "lit_true \<beta> (tab ! 1)" if "used refs 0"
  proof -
    have "tab ! 1 = 1" by (rule translatedD(7) [OF t that])
    have "1 < length refs" "0 < length refs" using translatedD(2) [OF t] by simp_all
    with that show ?thesis using \<beta> [of 1] neg [of 0] \<mu>(1) by (auto simp: used_def litval_const models_def aiger_not_eq)
  qed
  ultimately have "list_all (list_ex (lit_true \<beta>)) (formula q out refs tab)" by (auto simp: formula_def list_all_iff)
  then show ?thesis by (auto simp: satisfiable_def)
qed

lemma formula_equisat:
  assumes t: "translated q out refs m tab"
  shows "satisfiable (formula q out refs tab) = (\<exists>\<mu>. models q \<mu> \<and> litval \<mu> out)"
proof
  assume "satisfiable (formula q out refs tab)"
  then obtain \<beta> where \<beta>: "list_all (list_ex (lit_true \<beta>)) (formula q out refs tab)" by (auto simp: satisfiable_def)
  obtain \<mu> where \<mu>: "models q \<mu>" "\<forall>v \<le> length (inputs q). \<mu> v = (v \<noteq> 0 \<and> lit_true \<beta> (tab ! (2 * v)))"
    using valuation_from_inputs [OF translatedD(1) [OF t], of "\<lambda>v. v \<noteq> 0 \<and> lit_true \<beta> (tab ! (2 * v))"] by auto
  have "lit_true \<beta> (tab ! out)" using \<beta> by (simp add: formula_def)
  with formula_sound [OF t \<beta> \<mu>] translatedD(3,4,8) [OF t] \<mu>(1) show "\<exists>\<mu>. models q \<mu> \<and> litval \<mu> out" by blast
qed (use formula_complete [OF t] in blast)

section \<open>The numbers of the header\<close>

lemma gate_clauses_count:
  assumes "cnf_ready q" "g \<in> set (ands q)"
  shows "length (gate_clauses refs tab g) = counted (length (inputs q)) refs (and_lhs g div 2)"
  using cnf_readyD(8) [OF assms] by (auto simp: gate_clauses_def counted_def aiger_not_even elim!: evenE)

lemma upt_split: "i \<le> j \<Longrightarrow> j \<le> k \<Longrightarrow> [i..<k] = [i..<j] @ [j..<k]"
  using upt_add_eq_append [of i j "k - j"] by simp

text \<open>When only what is referenced is marked, the header counts the clauses.\<close>

lemma formula_count:
  assumes t: "translated q out refs m tab"
  shows "length (formula q out refs tab) =
     1 + (if used refs 0 then 1 else 0) + sum_list (map (counted (length (inputs q)) refs) [1..<Suc (maxvar q)])"
proof -
  note q = translatedD(1) [OF t]
  let ?n = "length (inputs q)" and ?k = "length (ands q)"
  let ?c = "counted ?n refs"
  have lhs: "map (\<lambda>g. and_lhs g div 2) (ands q) = [Suc ?n..<Suc (?n + ?k)]"
  proof -
    have "map (\<lambda>l. l div 2) (map and_lhs (ands q)) = [Suc ?n..<Suc (?n + ?k)]"
      unfolding cnf_readyD(2) [OF q] by (rule seq_half)
    then show ?thesis by (simp add: comp_def)
  qed
  have top: "?n + ?k \<le> maxvar q"
    using cnf_readyD(9) [OF q] by simp
  have "length (concat (map (gate_clauses refs tab) (ands q))) = sum_list (map (\<lambda>g. ?c (and_lhs g div 2)) (ands q))"
    using gate_clauses_count [OF q] by (simp add: length_concat comp_def cong: map_cong)
  also have "\<dots> = sum_list (map ?c [Suc ?n..<Suc (?n + ?k)])" unfolding lhs [symmetric] by (simp add: comp_def)
  also have "\<dots> = sum_list (map ?c [1..<Suc (maxvar q)])"
  proof -
    have split: "[1..<Suc (maxvar q)] = [1..<Suc ?n] @ [Suc ?n..<Suc (?n + ?k)] @ [Suc (?n + ?k)..<Suc (maxvar q)]"
      using upt_split [of 1 "Suc ?n" "Suc (maxvar q)"] upt_split [of "Suc ?n" "Suc (?n + ?k)" "Suc (maxvar q)"] top by (simp del: upt_Suc)
    have low: "?c v = 0" if "v \<in> set [1..<Suc ?n]" for v using that by (auto simp: counted_def)
    have high: "?c v = 0" if v: "v \<in> set [Suc (?n + ?k)..<Suc (maxvar q)]" for v
    proof -
      have "\<not> defined_var q v"
      proof
        assume "defined_var q v"
        with cnf_readyD(1) [OF q] show False
        proof (cases rule: defined_cases)
          case (gate g)
          then have "v \<in> set (map (\<lambda>g. and_lhs g div 2) (ands q))" by force
          with v show False unfolding lhs by auto
        qed (use v cnf_readyD(3) [OF q] in auto)
      qed
      moreover have "2 * v < length refs" "2 * v + 1 < length refs" using v translatedD(2) [OF t] by (simp_all del: upt_Suc)
      ultimately have "\<not> marked refs (2 * v)" "\<not> marked refs (2 * v + 1)"
        using translatedD(9) [OF t, of "2 * v"] translatedD(9) [OF t, of "2 * v + 1"] by auto
      then show ?thesis by (simp add: counted_def)
    qed
    have "sum_list (map ?c [1..<Suc ?n]) = 0" "sum_list (map ?c [Suc (?n + ?k)..<Suc (maxvar q)]) = 0"
      using low high by (simp_all del: upt_Suc)
    then show ?thesis unfolding split by simp
  qed
  finally show ?thesis by (simp add: formula_def)
qed

definition in_range :: "nat \<Rightarrow> int list list \<Rightarrow> bool" where
  "in_range m cs \<longleftrightarrow> list_all (list_all (\<lambda>i. i \<noteq> 0 \<and> \<bar>i\<bar> \<le> int m)) cs"

lemma formula_range:
  assumes t: "translated q out refs m tab"
  shows "in_range m (formula q out refs tab)"
proof -
  have l: "tab ! l \<noteq> 0 \<and> \<bar>tab ! l\<bar> \<le> int m \<and> tab ! aiger_not l \<noteq> 0 \<and> \<bar>tab ! aiger_not l\<bar> \<le> int m"
    if "marked refs l" "l < length refs" for l using translated_lit(3-5) [OF t that] by simp
  have "list_all (list_all (\<lambda>i. i \<noteq> 0 \<and> \<bar>i\<bar> \<le> int m)) (gate_clauses refs tab g)" if g: "g \<in> set (ands q)" for g
    using l gate_refs [OF t g] translatedD(5) [OF t g] l [of "aiger_not (and_lhs g)"]
    by (auto simp: gate_clauses_def closed_at_def)
  moreover have "tab ! out \<noteq> 0 \<and> \<bar>tab ! out\<bar> \<le> int m" using l translatedD(3,4,8) [OF t] by simp
  moreover have "tab ! 1 \<noteq> 0 \<and> \<bar>tab ! 1\<bar> \<le> int m" if "used refs 0"
    using that l [of 0] l [of 1] translatedD(2) [OF t] by (auto simp: used_def aiger_not_eq)
  ultimately show ?thesis by (auto simp: in_range_def formula_def list_all_iff)
qed

section \<open>The program\<close>

lemma cnf_formula_eq:
  assumes q: "cnf_ready q" and out: "defined_var q (out div 2)" and pg: "opt_pg opts"
  shows "\<exists>s refs. cnf_formula opts q out = Some (s, formula q out refs (cm_map s)) \<and> translated q out refs (cm_m s) (cm_map s) \<and>
     cm_n s = length (formula q out refs (cm_map s)) \<and> (opt_prtmap opts \<or> cm_text s = [])"
proof -
  obtain refs where refs: "count_refs q out = Some refs" "length refs = 2 * Suc (maxvar q)" "marked refs out"
    "\<forall>g \<in> set (ands q). closed_at refs g" "\<forall>l < length refs. marked refs l \<longrightarrow> defined_var q (l div 2)"
    using cnf_closed [OF q out] by blast
  obtain s where s: "map_lits (opt_prtmap opts) q refs = Some s" "numbered refs (Suc (maxvar q)) (cm_m s) (cm_map s)"
    "cm_n s = 1 + (if used refs 0 then 1 else 0) + sum_list (map (counted (length (inputs q)) refs) [1..<Suc (maxvar q)])"
    "used refs 0 \<longrightarrow> cm_map s ! 1 = 1" "opt_prtmap opts \<or> cm_text s = []"
    using map_lits_spec [OF refs(2) cnf_readyD(5) [OF q]] by blast
  have t: "translated q out refs (cm_m s) (cm_map s)"
    using q out refs s(2,4) by (simp add: translated_def)
  have len: "length (cm_map s) = length refs" using s(2) by (simp add: numbered_def)
  have "const_clauses refs (cm_map s) = Some (if used refs 0 then [[cm_map s ! 1]] else [])"
    using len refs(2) by (simp add: const_clauses_def deref_def used_def)
  moreover have "map_option_list (and_clauses refs (cm_map s)) (ands q) = Some (map (gate_clauses refs (cm_map s)) (ands q))"
  proof (rule map_option_list_some)
    fix g assume g: "g \<in> set (ands q)"
    note b = gate_refs [OF t g] and r = cnf_readyD(7,8) [OF q g]
    show "and_clauses refs (cm_map s) g = Some (gate_clauses refs (cm_map s) g)"
      by (rule and_clauses_eq) (use b r len in \<open>auto simp: aiger_not_even\<close>)
  qed
  moreover have "deref (cm_map s) out = Some (cm_map s ! out)" using translatedD(4,8) [OF t] len by (simp add: deref_def)
  ultimately have "cnf_formula opts q out = Some (s, formula q out refs (cm_map s))"
    using refs(1) s(1) pg by (simp add: cnf_formula_def cnf_refs_def formula_def)
  with t s(3,5) formula_count [OF t] show ?thesis by auto
qed

lemma models_run:
  assumes "latches q = []" and that: "outputs q \<noteq> []"
  shows "reaches_output q 0 = (\<exists>\<mu>. models q \<mu> \<and> litval \<mu> (sym_lit (outputs q ! 0)))"
proof
  assume "reaches_output q 0"
  then obtain \<tau> t where "run q \<tau>" "o_outputs (observe q (\<tau> t)) ! 0" by (auto simp: reaches_output_def behaviours_def)
  with that show "\<exists>\<mu>. models q \<mu> \<and> litval \<mu> (sym_lit (outputs q ! 0))" by (auto simp: run_def observe_def)
next
  assume "\<exists>\<mu>. models q \<mu> \<and> litval \<mu> (sym_lit (outputs q ! 0))"
  then obtain \<mu> where \<mu>: "models q \<mu>" "litval \<mu> (sym_lit (outputs q ! 0))" by blast
  then have "run q (\<lambda>t. \<mu>)" using assms(1) by (simp add: run_def)
  moreover have "o_outputs (observe q \<mu>) ! 0" using \<mu>(2) that by (simp add: observe_def)
  ultimately show "reaches_output q 0"
    unfolding reaches_output_def behaviours_def by (intro bexI [of _ "\<lambda>t. observe q \<mu>"]) auto
qed

text \<open>The renumbering leaves what the translation expects.\<close>

lemma reencode_cnf_ready:
  assumes p: "portable p" "latches p = []" "maxvar p < 715827882"
  shows "\<exists>q. aiger_reencode p = Some q \<and> cnf_ready q \<and> behaviours q = behaviours p \<and> length (outputs q) = length (outputs p)"
proof -
  have "maxvar p < 1073741824" using p(3) by simp
  from reencode_renumbered [OF portableD(1) [OF p(1)] this] p(2,3) show ?thesis by (auto simp: cnf_ready_def same_sizes_def)
qed

text \<open>What a printed formula is: its header is right, and it is satisfiable when the output can be true.\<close>

definition cnf_text_of :: "string \<Rightarrow> nat \<Rightarrow> int list list \<Rightarrow> string" where
  "cnf_text_of remarks m cs = remarks @ cnf_header m (length cs) @ concat (map clause_text cs)"

lemma reaches_output_same: "behaviours q = behaviours p \<Longrightarrow> reaches_output q j = reaches_output p j"
  by (simp add: reaches_output_def)

lemma aigtocnf_formula:
  assumes p: "portable p" "latches p = []" "outputs p \<noteq> []" "maxvar p < 715827882" and pg: "opt_pg opts"
  shows "\<exists>remarks m cs. aigtocnf_text opts p = Some (cnf_text_of remarks m cs) \<and> in_range m cs \<and>
     satisfiable cs = reaches_output p 0 \<and> (opt_prtmap opts \<or> remarks = [])"
proof -
  obtain q where q: "aiger_reencode p = Some q" "cnf_ready q" "behaviours q = behaviours p" "length (outputs q) = length (outputs p)"
    using reencode_cnf_ready [OF p(1,2,4)] by blast
  let ?out = "sym_lit (outputs q ! 0)"
  have o: "outputs q \<noteq> []" using q(4) p(3) by auto
  then have y: "deref (outputs q) 0 = Some (outputs q ! 0)" "outputs q ! 0 \<in> set (outputs q)" by (simp_all add: deref_def)
  have r: "reaches_output p 0 = (\<exists>\<mu>. models q \<mu> \<and> litval \<mu> ?out)"
    using models_run [OF cnf_readyD(3) [OF q(2)] o] reaches_output_same [OF q(3)] by simp
  consider (false) "?out = 0" | (true) "?out = 1" | (gate) "?out \<noteq> 0" "?out \<noteq> 1" by blast
  then show ?thesis
  proof cases
    case false
    have "\<not> reaches_output p 0" unfolding r false by (auto simp: models_def litval_def)
    then have "satisfiable [[]] = reaches_output p 0" by (simp add: satisfiable_def)
    moreover have "aigtocnf_text opts p = Some (cnf_text_of [] (length (inputs q)) [[]])"
      using q(1) y(1) false by (simp add: aigtocnf_text_def cnf_text_of_def clause_text_def)
    ultimately show ?thesis by (intro exI [of _ "[]"] exI [of _ "length (inputs q)"] exI [of _ "[[]]"]) (simp add: in_range_def)
  next
    case true
    obtain \<mu> where \<mu>: "models q \<mu>" using valuation_from_inputs [OF q(2), of "\<lambda>v. False"] by auto
    then have "litval \<mu> 1" by (simp add: models_def litval_def)
    with \<mu> have "reaches_output p 0" unfolding r true by blast
    then have "satisfiable [] = reaches_output p 0" by (simp add: satisfiable_def)
    moreover have "aigtocnf_text opts p = Some (cnf_text_of [] (length (inputs q)) [])"
      using q(1) y(1) true by (simp add: aigtocnf_text_def cnf_text_of_def)
    ultimately show ?thesis by (intro exI [of _ "[]"] exI [of _ "length (inputs q)"]) (simp add: in_range_def)
  next
    case gate
    have "defined_var q (?out div 2)" using cnf_readyD(4) [OF q(2)] y(2) by (simp add: all_defined_def)
    from cnf_formula_eq [OF q(2) this pg] obtain s refs where
      s: "cnf_formula opts q ?out = Some (s, formula q ?out refs (cm_map s))" "translated q ?out refs (cm_m s) (cm_map s)"
        "cm_n s = length (formula q ?out refs (cm_map s))" "opt_prtmap opts \<or> cm_text s = []" by blast
    have "aigtocnf_text opts p = Some (cnf_text_of (cm_text s) (cm_m s) (formula q ?out refs (cm_map s)))"
      using q(1) y(1) gate s(1,3) by (simp add: aigtocnf_text_def cnf_text_of_def)
    then show ?thesis using formula_range [OF s(2)] formula_equisat [OF s(2)] r s(4) by blast
  qed
qed

text \<open>The program on standard input.\<close>

lemma cnf_args_flags:
  "set argv \<subseteq> {''-m'', ''-v''} \<Longrightarrow>
     cnf_args argv opts input output = Inr (opts\<lparr>opt_prtmap := opt_prtmap opts \<or> ''-m'' \<in> set argv\<rparr>, input, output)"
  by (induction argv arbitrary: opts) auto

lemma aigtocnf_writes:
  assumes p: "portable p" "cnf_refuse p = None" "maxvar p < 715827882" and env: "env_stdin env = ascii_text p @ trailer_text p"
    and argv: "set argv \<subseteq> {''-m'', ''-v''}"
  shows "\<exists>remarks m cs. aigtocnf_main env argv = Some (CnfWrote None (cnf_text_of remarks m cs)) \<and> in_range m cs \<and>
     satisfiable cs = reaches_output p 0 \<and> (''-m'' \<in> set argv \<or> remarks = [])"
proof -
  obtain s where s: "aiger_read_generic aiger_init (ascii_text p @ trailer_text p) = Some s" "portable s"
    "behaviours s = behaviours p" "aiger.truncate s = aiger.truncate p" using read_portable [OF p(1)] by blast
  note same = same_public [OF s(4)] same_latches [OF s(4)]
  have sup: "latches s = []" "outputs s \<noteq> []" "cnf_refuse s = None"
    using p(2) same by (auto simp: cnf_refuse_def split: if_splits)
  have m: "maxvar s < 715827882" using p(3) same(1) by simp
  let ?opts = "\<lparr>opt_pg = True, opt_prtmap = ''-m'' \<in> set argv\<rparr>"
  obtain remarks m cs where t: "aigtocnf_text ?opts s = Some (cnf_text_of remarks m cs)" "in_range m cs"
      "satisfiable cs = reaches_output s 0" "''-m'' \<in> set argv \<or> remarks = []"
    using aigtocnf_formula [OF s(2) sup(1,2) m, of ?opts] by auto
  have "read_source env None = Some s" using s(1) env by (simp add: read_source_def aiger_read_from_file_def aiger_error_def)
  with t(1) sup(3) portableD(8) [OF s(2)] have "aigtocnf_main env argv = Some (CnfWrote None (cnf_text_of remarks m cs))"
    by (simp add: aigtocnf_main_def aiger_error_def cnf_args_flags [OF argv])
  with t reaches_output_same [OF s(3)] show ?thesis by auto
qed

section \<open>Without the polarity optimisation\<close>

text \<open>\<open>--no-pg\<close> marks every literal of the circuit, used or not.\<close>

lemma ref_all_spec:
  "length refs = 2 * Suc k \<Longrightarrow> i \<le> 2 * Suc k \<Longrightarrow>
     \<exists>refs'. foldm ref_all [2..<i] refs = Some refs' \<and> length refs' = length refs \<and>
       (\<forall>l < length refs. refs' ! l = (if 2 \<le> l \<and> l < i then 2147483647 else refs ! l))"
proof (induction i)
  case (Suc i)
  then obtain r where r: "foldm ref_all [2..<i] refs = Some r" "length r = length refs"
    "\<forall>l < length refs. r ! l = (if 2 \<le> l \<and> l < i then 2147483647 else refs ! l)" by auto
  show ?case
  proof (cases "2 \<le> i")
    case True
    then have "foldm ref_all [2..<Suc i] refs = Some (r[i := 2147483647])"
      using r(1,2) Suc.prems by (simp add: foldm_append ref_all_def)
    moreover have "r[i := 2147483647] ! l = (if 2 \<le> l \<and> l < Suc i then 2147483647 else refs ! l)" if "l < length refs" for l
      using r(2,3) that True by (cases "l = i") auto
    ultimately show ?thesis using r(2) by simp
  next
    case False
    then show ?thesis using r by auto
  qed
qed simp

lemma counted_all:
  assumes "\<forall>v. 1 \<le> v \<and> v \<le> m \<longrightarrow> marked refs (2 * v) \<and> marked refs (2 * v + 1)"
  shows "k \<le> m \<Longrightarrow> sum_list (map (counted i refs) [1..<Suc k]) = 3 * (k - i)"
proof (induction k)
  case (Suc k)
  then have "marked refs (2 * Suc k)" "marked refs (2 * Suc k + 1)" using assms by auto
  with Suc show ?case by (simp add: counted_def Suc_diff_le)
qed simp

lemma no_pg_formula:
  assumes q: "cnf_ready q" and out: "defined_var q (out div 2)" and pg: "\<not> opt_pg opts"
  shows "\<exists>s cs. cnf_formula opts q out = Some (s, cs) \<and>
     cm_n s = length cs + 3 * (maxvar q - length (inputs q) - length (ands q))"
proof -
  obtain refs0 where refs0: "count_refs q out = Some refs0" "length refs0 = 2 * Suc (maxvar q)"
    "\<forall>l < length refs0. marked refs0 l \<longrightarrow> defined_var q (l div 2)"
    using cnf_closed [OF q out] by blast
  obtain refs where refs: "foldm ref_all [2..<2 * maxvar q + 2] refs0 = Some refs" "length refs = 2 * Suc (maxvar q)"
    "\<forall>l < length refs0. refs ! l = (if 2 \<le> l \<and> l < 2 * Suc (maxvar q) then 2147483647 else refs0 ! l)"
    using ref_all_spec [OF refs0(2), of "2 * Suc (maxvar q)"] refs0(2) by auto
  have m: "marked refs l" if "2 \<le> l" "l < length refs" for l using refs0(2) refs(2,3) that by simp
  obtain s where s: "map_lits (opt_prtmap opts) q refs = Some s" "numbered refs (Suc (maxvar q)) (cm_m s) (cm_map s)"
    "cm_n s = 1 + (if used refs 0 then 1 else 0) + sum_list (map (counted (length (inputs q)) refs) [1..<Suc (maxvar q)])"
    using map_lits_spec [OF refs(2) cnf_readyD(5) [OF q]] by blast
  have len: "length (cm_map s) = length refs" using s(2) by (simp add: numbered_def)
  have "sum_list (map (counted (length (inputs q)) refs) [1..<Suc (maxvar q)]) = 3 * (maxvar q - length (inputs q))"
    by (rule counted_all [where m = "maxvar q"]) (use m refs(2) in auto)
  then have n: "cm_n s = 1 + (if used refs 0 then 1 else 0) + 3 * (maxvar q - length (inputs q))" using s(3) by simp
  have c: "const_clauses refs (cm_map s) = Some (if used refs 0 then [[cm_map s ! 1]] else [])"
    using len refs(2) by (simp add: const_clauses_def deref_def used_def)
  have gates: "map_option_list (and_clauses refs (cm_map s)) (ands q) = Some (map (gate_clauses refs (cm_map s)) (ands q))"
  proof (rule map_option_list_some)
    fix g assume g: "g \<in> set (ands q)"
    note r = cnf_readyD(7,8) [OF q g]
    show "and_clauses refs (cm_map s) g = Some (gate_clauses refs (cm_map s) g)"
      by (rule and_clauses_eq) (use r len refs(2) negation_less [of "and_rhs0 g" "and_lhs g"] negation_less [of "and_rhs1 g" "and_lhs g"] in \<open>auto simp: aiger_not_even\<close>)
  qed
  have "length (gate_clauses refs (cm_map s) g) = 3" if g: "g \<in> set (ands q)" for g
    using m [of "and_lhs g"] m [of "Suc (and_lhs g)"] cnf_readyD(8) [OF q g] refs(2)
    by (auto simp: gate_clauses_def aiger_not_even)
  then have "map (length \<circ> gate_clauses refs (cm_map s)) (ands q) = replicate (length (ands q)) 3"
    by (auto simp: map_eq_conv simp flip: map_replicate_const)
  then have "sum_list (map (length \<circ> gate_clauses refs (cm_map s)) (ands q)) = 3 * length (ands q)" by (simp add: sum_list_replicate)
  moreover have "deref (cm_map s) out = Some (cm_map s ! out)"
    using defined_lits [OF q out] len refs(2) by (simp add: deref_def)
  ultimately show ?thesis
    using refs0(1) refs(1) s(1) pg c gates n cnf_readyD(9) [OF q]
    by (auto simp: cnf_formula_def cnf_refs_def length_concat comp_def)
qed

text \<open>The header of a whole formula: too many clauses are announced for the variables that an ordered structure leaves undefined.\<close>

lemma no_pg_text:
  assumes p: "portable p" "latches p = []" "outputs p \<noteq> []" "maxvar p < 715827882" and pg: "\<not> opt_pg opts"
    and q: "aiger_reencode p = Some q" "1 < sym_lit (outputs q ! 0)"
  shows "\<exists>remarks m cs. aigtocnf_text opts p = Some (remarks @
     cnf_header m (length cs + (if reencoded_form p then 3 * (maxvar p - length (inputs p) - length (ands p)) else 0)) @
     concat (map clause_text cs))"
proof -
  let ?out = "sym_lit (outputs q ! 0)"
  have r: "cnf_ready q" "length (outputs q) = length (outputs p)" using reencode_cnf_ready [OF p(1,2,4)] q(1) by auto
  then have "outputs q \<noteq> []" using p(3) by auto
  then have y: "deref (outputs q) 0 = Some (outputs q ! 0)" "outputs q ! 0 \<in> set (outputs q)" by (simp_all add: deref_def)
  then have d: "defined_var q (?out div 2)" using cnf_readyD(4) [OF r(1)] by (simp add: all_defined_def)
  have m: "maxvar p < 1073741824" using p(4) by simp
  have "maxvar q \<le> maxvar p" using reencode_renumbered [OF portableD(1) [OF p(1)] m] q(1) by auto
  moreover have "0 < maxvar q" using defined_lits [OF r(1) d] q(2) by simp
  ultimately have "0 < maxvar p" by simp
  from reencode_ready [OF portableD(1) [OF p(1)] this] m q(1) have
    s: "\<not> reencoded_form p \<longrightarrow> maxvar q = sources q + length (ands q)" "reencoded_form p \<longrightarrow> same_core p q" by auto
  have gap: "maxvar q - length (inputs q) - length (ands q) =
      (if reencoded_form p then maxvar p - length (inputs p) - length (ands p) else 0)"
    using s same_coreD [of p q] cnf_readyD(3) [OF r(1)] by simp
  obtain t cs where t: "cnf_formula opts q ?out = Some (t, cs)" "cm_n t = length cs + 3 * (maxvar q - length (inputs q) - length (ands q))"
    using no_pg_formula [OF r(1) d pg] by blast
  then have "aigtocnf_text opts p = Some (cm_text t @ cnf_header (cm_m t) (cm_n t) @ concat (map clause_text cs))"
    using q y(1) by (simp add: aigtocnf_text_def)
  then show ?thesis unfolding t(2) gap by (cases "reencoded_form p") auto
qed

end
