(* ===== verification/AigerSim.thy ===== *)
theory AigerSim
  imports AigerTools
begin

text \<open>
  The simulator and witness checker \<open>aigsim\<close>: its arguments, the characters of the stimulus with the
  filter for lines, three valued simulation, the traces it prints, and the check of witnesses for bad
  states and for justice properties, in the order of \<open>main\<close>.
\<close>

section \<open>Outcomes\<close>

text \<open>
  The program stops with a message (\<open>die\<close>), or with a failed assertion or undefined behaviour. It
  ends with its usage, so, or with the value of \<open>res\<close>, which is missing when it was never assigned,
  and \<open>prop_result\<close>.
\<close>

datatype sim_stop = Died string | Aborted

datatype sim_exit = SimUsage | SimStopped sim_stop | SimDone "nat option" "nat list"

text \<open>
  The stimulus that is left, the static variable \<open>last\<close> (\<open>EOF\<close> is the missing character), what has
  been printed, and the number of calls of \<open>rand\<close>.
\<close>

record sim_state =
  ss_rest :: string
  ss_last :: "char option"
  ss_out :: string
  ss_rand :: nat

type_synonym 'a sm = "sim_state \<Rightarrow> sim_stop \<times> string + 'a \<times> sim_state"

definition sm_return :: "'a \<Rightarrow> 'a sm" where
  "sm_return x s = Inr (x, s)"

definition sm_bind :: "'a sm \<Rightarrow> ('a \<Rightarrow> 'b sm) \<Rightarrow> 'b sm" where
  "sm_bind m f s = (case m s of Inl e \<Rightarrow> Inl e | Inr (x, s) \<Rightarrow> f x s)"

definition sm_stop :: "sim_stop \<Rightarrow> 'a sm" where
  "sm_stop e s = Inl (e, ss_out s)"

definition sm_die :: "string \<Rightarrow> 'a sm" where
  "sm_die msg = sm_stop (Died msg)"

definition sm_lift :: "'a option \<Rightarrow> 'a sm" where
  "sm_lift x = (case x of None \<Rightarrow> sm_stop Aborted | Some y \<Rightarrow> sm_return y)"

definition sm_print :: "string \<Rightarrow> unit sm" where
  "sm_print txt s = Inr ((), s\<lparr>ss_out := ss_out s @ txt\<rparr>)"

definition sm_when :: "bool \<Rightarrow> unit sm \<Rightarrow> unit sm" where
  "sm_when b m = (if b then m else sm_return ())"

lemma sm_bind_cong [fundef_cong]:
  "m s = m' s' \<Longrightarrow> (\<And>x t. m' s' = Inr (x, t) \<Longrightarrow> f x t = f' x t) \<Longrightarrow> sm_bind m f s = sm_bind m' f' s'"
  by (auto simp: sm_bind_def split: sum.splits)

text \<open>A step that leaves the stimulus alone, or only consumes it.\<close>

definition sm_keeps :: "'a sm \<Rightarrow> bool" where
  "sm_keeps m \<longleftrightarrow> (\<forall>s x t. m s = Inr (x, t) \<longrightarrow> length (ss_rest t) \<le> length (ss_rest s))"

lemma sm_keepsD: "sm_keeps m \<Longrightarrow> m s = Inr (x, t) \<Longrightarrow> length (ss_rest t) \<le> length (ss_rest s)"
  by (simp add: sm_keeps_def)

lemma sm_keeps_bind [intro]: "sm_keeps m \<Longrightarrow> (\<And>x. sm_keeps (f x)) \<Longrightarrow> sm_keeps (sm_bind m f)"
  unfolding sm_keeps_def sm_bind_def by (fastforce split: sum.splits intro: le_trans)

lemma sm_keeps_simps [simp]:
  "sm_keeps (sm_return x)" "sm_keeps (sm_stop e)" "sm_keeps (sm_die msg)" "sm_keeps (sm_lift y)" "sm_keeps (sm_print txt)"
  "sm_keeps (sm_when b (sm_print txt))"
  by (auto simp: sm_keeps_def sm_return_def sm_stop_def sm_die_def sm_lift_def sm_print_def sm_when_def split: option.splits if_splits)

section \<open>Arguments\<close>

record sim_opts =
  so_check :: bool
  so_witness :: bool
  so_move :: bool
  so_filter :: bool
  so_vcd :: bool
  so_delay :: bool
  so_three :: bool
  so_ground :: bool
  so_seed :: "uint option"
  so_vectors :: int

definition sim_opts0 :: sim_opts where
  "sim_opts0 = \<lparr>so_check = False, so_witness = False, so_move = False, so_filter = False, so_vcd = False,
     so_delay = False, so_three = False, so_ground = False, so_seed = None, so_vectors = -1\<rparr>"

text \<open>\<open>atoi\<close>: white space, a sign, and digits; a value that is no \<open>int\<close> is undefined behaviour.\<close>

definition atoi :: "string \<Rightarrow> int option" where
  "atoi str =
     (let str = dropWhile isspace str;
          neg = (str \<noteq> [] \<and> hd str = CHR ''-'');
          str = (if str \<noteq> [] \<and> (hd str = CHR ''-'' \<or> hd str = CHR ''+'') then tl str else str);
          n = foldl (\<lambda>n c. 10 * n + int (digit_val c)) 0 (takeWhile isdigit str);
          n = (if neg then - n else n)
      in if - 2147483648 \<le> n \<and> n < 2147483648 then Some n else None)"

text \<open>The options with the names of the model and of the stimulus, or how the program ends.\<close>

fun sim_args ::
    "string list \<Rightarrow> sim_opts \<Rightarrow> string option \<Rightarrow> string option \<Rightarrow>
       sim_exit + sim_opts \<times> string option \<times> string option" where
  "sim_args [] opts model stim = Inr (opts, model, stim)"
| "sim_args (arg # argv) opts model stim =
     (if arg = ''-h'' then Inl SimUsage
      else if arg = ''-c'' then sim_args argv (opts\<lparr>so_check := True, so_witness := True, so_ground := True\<rparr>) model stim
      else if arg = ''-m'' then sim_args argv (opts\<lparr>so_move := True\<rparr>) model stim
      else if arg = ''-f'' then sim_args argv (opts\<lparr>so_filter := True\<rparr>) model stim
      else if arg = ''-w'' then sim_args argv (opts\<lparr>so_witness := True\<rparr>) model stim
      else if arg = ''-v'' then sim_args argv (opts\<lparr>so_vcd := True\<rparr>) model stim
      else if arg = ''-d'' then sim_args argv (opts\<lparr>so_delay := True\<rparr>) model stim
      else if arg = ''-3'' then sim_args argv (opts\<lparr>so_three := True\<rparr>) model stim
      else if arg = ''-2'' then sim_args argv (opts\<lparr>so_ground := True\<rparr>) model stim
      else if arg = ''-s'' then
        (case argv of
           [] \<Rightarrow> Inl (SimStopped (Died (''argvument to '' @ [CHR 0x27] @ ''-s'' @ [CHR 0x27] @ '' missing'')))
         | num # argv \<Rightarrow>
             (case atoi num of
                None \<Rightarrow> Inl (SimStopped Aborted)
              | Some n \<Rightarrow> sim_args argv (opts\<lparr>so_seed := Some (nat (n mod 4294967296))\<rparr>) model stim))
      else if arg = ''-r'' then
        (case argv of
           [] \<Rightarrow> Inl (SimStopped (Died (''argument to '' @ [CHR 0x27] @ ''-r'' @ [CHR 0x27] @ '' missing'')))
         | num # argv \<Rightarrow>
             (case atoi num of
                None \<Rightarrow> Inl (SimStopped Aborted)
              | Some n \<Rightarrow> sim_args argv (opts\<lparr>so_vectors := n\<rparr>) model stim))
      else if arg \<noteq> [] \<and> hd arg = CHR ''-'' then
        Inl (SimStopped (Died (sprintf (''invalid option '' @ [CHR 0x27] @ ''%s'' @ [CHR 0x27] @ '' (try '' @ [CHR 0x27] @ ''-h'' @ [CHR 0x27] @ '')'') [FmtS arg])))
      else if model = None then sim_args argv opts (Some arg) stim
      else if stim = None then sim_args argv opts model (Some arg)
      else Inl (SimStopped (Died ''more than two files specified'')))"

definition sim_conflict :: "sim_opts \<Rightarrow> string option \<Rightarrow> string option \<Rightarrow> string option" where
  "sim_conflict opts model stim =
     (if model = None \<and> so_vectors opts < 0 then Some ''can only read model from <stdin> in random simulation mode''
      else if 0 \<le> so_vectors opts \<and> stim \<noteq> None then Some ''random simulation but also stimulus file specified''
      else if 0 \<le> so_vectors opts \<and> so_witness opts then Some ''random simulation but also witness specified''
      else if so_seed opts \<noteq> None \<and> so_vectors opts < 0 then Some ''seed given but no random simulation specified''
      else if so_vectors opts < 0 \<and> so_three opts then
        Some (''can not use '' @ [CHR 0x27] @ ''-3'' @ [CHR 0x27] @ '' without '' @ [CHR 0x27] @ ''-r <vectors>'' @ [CHR 0x27])
      else if 0 \<le> so_vectors opts \<and> so_ground opts then
        Some (''can not combine '' @ [CHR 0x27] @ ''-2'' @ [CHR 0x27] @ '' with '' @ [CHR 0x27] @ ''-r <vectors>'' @ [CHR 0x27])
      else if so_check opts \<and> so_vcd opts then
        Some (''can not combine '' @ [CHR 0x27] @ ''-v'' @ [CHR 0x27] @ '' with '' @ [CHR 0x27] @ ''-c'' @ [CHR 0x27])
      else if \<not> so_vcd opts \<and> so_delay opts then
        Some (''can not use '' @ [CHR 0x27] @ ''-d'' @ [CHR 0x27] @ '' without '' @ [CHR 0x27] @ ''-v'' @ [CHR 0x27])
      else None)"

section \<open>The characters of the stimulus\<close>

definition ignore_line_starting_with :: "bool \<Rightarrow> char option \<Rightarrow> char \<Rightarrow> bool" where
  "ignore_line_starting_with flt prev ch =
     (if ch = CHR ''c'' then True
      else if ch = CHR ''u'' then True
      else if \<not> flt then False
      else if prev \<noteq> Some CHR ''\<newline>'' then False
      else if ch = CHR ''0'' then False
      else if ch = CHR ''1'' then False
      else if ch = CHR ''b'' then False
      else if ch = CHR ''x'' then False
      else if ch = CHR ''.'' then False
      else True)"

text \<open>
  \<open>line_ignored\<close> decides whether the line of the character \<open>start\<close> is ignored and returns what is
  left then; \<open>drop_line\<close> is the loop that skips the rest of the line.
\<close>

definition line_ignored :: "bool \<Rightarrow> char option \<Rightarrow> char \<Rightarrow> string \<Rightarrow> string option" where
  "line_ignored flt prev start rest =
     (if flt \<and> prev = None then
        if start \<noteq> CHR ''0'' \<and> start \<noteq> CHR ''1'' then Some rest
        else (case rest of [] \<Rightarrow> Some [] | ch # cs \<Rightarrow> if ch \<noteq> CHR ''\<newline>'' then Some cs else None)
      else if ignore_line_starting_with flt prev start then Some rest
      else None)"

fun drop_line :: "string \<Rightarrow> string option" where
  "drop_line [] = None"
| "drop_line (ch # rest) = (if ch = CHR ''\<newline>'' then Some rest else drop_line rest)"

lemma drop_line_length: "drop_line cs = Some ds \<Longrightarrow> length ds < length cs"
  by (induction cs) (auto split: if_splits)

lemma line_ignored_length: "line_ignored flt prev c cs = Some ds \<Longrightarrow> length ds \<le> length cs"
  by (auto simp: line_ignored_def split: if_splits list.splits)

function next_char :: "bool \<Rightarrow> char option \<Rightarrow> string \<Rightarrow> sim_stop + char option \<times> string" where
  "next_char flt prev [] = Inr (None, [])"
| "next_char flt prev (start # rest) =
     (case line_ignored flt prev start rest of
        None \<Rightarrow> Inr (Some start, rest)
      | Some cs \<Rightarrow>
          if \<not> (prev = Some CHR ''\<newline>'' \<or> prev = None) then Inl Aborted
          else
            (case drop_line cs of
               None \<Rightarrow> Inl (Died (''unexpected EOF after '' @ [CHR 0x27, start, CHR 0x27]))
             | Some ds \<Rightarrow> next_char flt prev ds))"
  by pat_completeness auto
termination
  by (relation "measure (\<lambda>(flt, prev, cs). length cs)") (auto dest!: drop_line_length line_ignored_length)

definition nxtc :: "bool \<Rightarrow> char option sm" where
  "nxtc flt s =
     (case next_char flt (ss_last s) (ss_rest s) of
        Inl e \<Rightarrow> sm_stop e s
      | Inr (ch, rest) \<Rightarrow> Inr (ch, s\<lparr>ss_rest := rest, ss_last := (if ch = None then ss_last s else ch)\<rparr>))"

lemma next_char_length: "next_char flt prev cs = Inr (c, ds) \<Longrightarrow> length ds \<le> length cs \<and> (c \<noteq> None \<longrightarrow> length ds < length cs)"
  by (induction flt prev cs rule: next_char.induct)
    (fastforce split: option.splits if_splits dest: drop_line_length line_ignored_length)+

lemma nxtc_length: "nxtc flt s = Inr (c, t) \<Longrightarrow> length (ss_rest t) \<le> length (ss_rest s) \<and> (c \<noteq> None \<longrightarrow> length (ss_rest t) < length (ss_rest s))"
  by (auto simp: nxtc_def sm_stop_def split: sum.splits dest!: next_char_length)

text \<open>A character for a message.\<close>

definition show_ch :: "char option \<Rightarrow> char" where
  "show_ch c = (case c of None \<Rightarrow> CHR 0xFF | Some ch \<Rightarrow> ch)"

section \<open>What a witness is for\<close>

text \<open>
  \<open>prop_result\<close> (2 for a property that nothing is claimed of), \<open>expected_prop\<close> and \<open>requireloop\<close>.
\<close>

record sim_claims =
  cl_result :: "nat list"
  cl_expected :: "bool list"
  cl_loop :: bool

function read_index :: "bool \<Rightarrow> uint \<Rightarrow> char \<Rightarrow> (uint \<times> char option) sm" where
  "read_index flt j ch s =
     (let j = u32 (u32 (j * 10) + digit_val ch) in
      sm_bind (nxtc flt) (\<lambda>ch s. if digit_ch ch then read_index flt j (the ch) s else sm_return (j, ch) s) s)"
  by pat_completeness auto
termination
  by (relation "measure (\<lambda>(flt, j, ch, s). length (ss_rest s))") (auto dest!: nxtc_length simp: digit_ch_def split: option.splits)

declare read_index.simps [simp del]

definition claim :: "bool \<Rightarrow> bool \<Rightarrow> aiger_private \<Rightarrow> char \<Rightarrow> uint \<Rightarrow> sim_claims \<Rightarrow> string + sim_claims" where
  "claim known expect model ch j c =
     (if (ch = CHR ''b'' \<and> length (bad model) \<le> j) \<or> (ch = CHR ''j'' \<and> length (justice model) \<le> j) then
        Inl ([CHR 0x27, ch] @ dec_u32 j @ [CHR 0x27] @ '' specified in witness does not exist in model'')
      else if known then
        let i = j + (if ch = CHR ''j'' then length (bad model) else 0) in
        if expect \<and> cl_result c ! i \<noteq> 2 \<and> cl_result c ! i \<noteq> 1 then
          Inl (''Inconsistent results specified for '' @ [ch] @ dec_u32 j)
        else Inr (c\<lparr>cl_expected := (cl_expected c)[i := True], cl_result := (cl_result c)[i := if expect then 1 else 0]\<rparr>)
      else Inr c)"

lemma read_index_length:
  "read_index flt j ch s = Inr ((k, d), t) \<Longrightarrow> length (ss_rest t) \<le> length (ss_rest s)"
proof (induction flt j ch s rule: read_index.induct)
  case (1 flt j ch s)
  obtain c u where n: "nxtc flt s = Inr (c, u)"
    using "1.prems" by (subst (asm) read_index.simps) (auto simp: sm_bind_def Let_def split: sum.splits)
  show ?case
  proof (cases "digit_ch c")
    case True
    with n "1.prems" have "read_index flt (u32 (u32 (j * 10) + digit_val ch)) (the c) u = Inr ((k, d), t)"
      by (subst (asm) read_index.simps) (simp add: sm_bind_def Let_def)
    from "1.IH" [OF refl n True this] nxtc_length [OF n] show ?thesis by simp
  next
    case False
    with n "1.prems" nxtc_length [OF n] show ?thesis
      by (subst (asm) read_index.simps) (simp add: sm_bind_def sm_return_def Let_def)
  qed
qed

text \<open>The loop over the properties, with the character that ended it.\<close>

function witness_props ::
    "bool \<Rightarrow> bool \<Rightarrow> bool \<Rightarrow> bool \<Rightarrow> aiger_private \<Rightarrow> char \<Rightarrow> sim_claims \<Rightarrow> (sim_claims \<times> char \<times> uint \<times> char option) sm" where
  "witness_props flt known expect print model ch c s =
     (let c = c\<lparr>cl_loop := cl_loop c \<or> ch = CHR ''j''\<rparr> in
      sm_bind (nxtc flt) (\<lambda>d s.
        if \<not> digit_ch d then sm_die (''expected integer after '' @ [CHR 0x27, show_ch d, CHR 0x27] @ '' in witness'') s
        else sm_bind (read_index flt 0 (the d)) (\<lambda>je s. case je of (j, e) \<Rightarrow>
          if \<not> (e = Some CHR ''b'' \<or> e = Some CHR ''j'' \<or> e = Some CHR ''\<newline>'') then
            sm_die (''expected digit, '' @ [CHR 0x27] @ ''b'' @ [CHR 0x27] @ '', '' @ [CHR 0x27] @ ''j'' @ [CHR 0x27] @ '' or new line in witness'') s
          else
            (case claim known expect model ch j c of
               Inl msg \<Rightarrow> sm_die msg s
             | Inr c \<Rightarrow> sm_bind (sm_when print (sm_print ('' '' @ [ch] @ dec_u32 j))) (\<lambda>_ s.
                 if e = Some CHR ''b'' \<or> e = Some CHR ''j'' then witness_props flt known expect print model (the e) c s
                 else sm_return (c, ch, j, e) s) s)) s) s)"
  by pat_completeness auto
termination
  by (relation "measure (\<lambda>(flt, known, expect, print, model, ch, c, s). length (ss_rest s))")
    (auto simp: digit_ch_def dest!: nxtc_length read_index_length sm_keepsD [OF sm_keeps_simps(6)] split: option.splits)

declare witness_props.simps [simp del]

section \<open>Values\<close>

text \<open>
  \<open>current\<close> holds 0, 1, 2 for x, and 3 for the negation of an x. \<open>sim_deref\<close> is \<open>deref\<close>, \<open>store\<close> an
  assignment to \<open>current\<close>.
\<close>

definition sim_deref :: "nat list \<Rightarrow> uint \<Rightarrow> nat option" where
  "sim_deref cur lit = do {
     v \<leftarrow> deref cur (aiger_lit2var lit);
     let res = v XOR aiger_sign lit;
     assert_c (lit = 0 \<longrightarrow> res = 0);
     assert_c (lit = 1 \<longrightarrow> res = 1);
     Some res
   }"

definition store :: "nat list \<Rightarrow> nat \<Rightarrow> nat \<Rightarrow> nat list option" where
  "store cur j v = do { assert_c (j < length cur); Some (cur[j := v]) }"

definition tern_and :: "nat \<Rightarrow> nat \<Rightarrow> nat" where
  "tern_and l r = ((l AND r) OR (l AND push_bit 1 r)) OR (r AND push_bit 1 l)"

definition sim_and :: "aiger_and \<Rightarrow> nat list \<Rightarrow> nat list option" where
  "sim_and g cur = do {
     l \<leftarrow> sim_deref cur (and_rhs0 g);
     r \<leftarrow> sim_deref cur (and_rhs1 g);
     store cur (aiger_lit2var (and_lhs g)) (tern_and l r)
   }"

definition put_ch :: "nat list \<Rightarrow> uint \<Rightarrow> char option" where
  "put_ch cur lit = do { v \<leftarrow> sim_deref cur lit; Some (if v AND 2 \<noteq> 0 then CHR ''x'' else digit (v AND 1)) }"

definition put_symbols :: "nat list \<Rightarrow> aiger_symbol list \<Rightarrow> string option" where
  "put_symbols cur ys = map_option_list (\<lambda>y. put_ch cur (sym_lit y)) ys"

section \<open>The initial state\<close>

text \<open>\<open>assert (symbol->reset \<dots>)\<close>\<close>

definition reset_ok :: "aiger_symbol \<Rightarrow> bool" where
  "reset_ok y \<longleftrightarrow> sym_reset y \<le> 1 \<or> sym_reset y = sym_lit y"

definition init_char :: "bool \<Rightarrow> nat \<Rightarrow> aiger_symbol \<Rightarrow> char \<Rightarrow> string + nat" where
  "init_char ground j y ch =
     (if sym_reset y \<le> 1 \<and> ch \<noteq> CHR ''x'' \<and> sym_reset y \<noteq> digit_val ch then
        Inl (''witness specifies invalid initial state for latch l'' @ dec_u32 j)
      else
        let ch = (if sym_reset y \<le> 1 \<and> ch = CHR ''x'' then digit (sym_reset y) else ch) in
        Inr (if ch \<noteq> CHR ''x'' then digit_val ch else if ground then 0 else 2))"

fun witness_state :: "bool \<Rightarrow> bool \<Rightarrow> nat \<Rightarrow> aiger_symbol list \<Rightarrow> nat list \<Rightarrow> nat list sm" where
  "witness_state flt ground j [] cur = sm_return cur"
| "witness_state flt ground j (y # ys) cur =
     sm_bind (sm_lift (assert_c (reset_ok y))) (\<lambda>_.
     sm_bind (nxtc flt) (\<lambda>ch.
       if \<not> (ch = Some CHR ''0'' \<or> ch = Some CHR ''1'' \<or> ch = Some CHR ''x'') then
         sm_die (''expected '' @ [CHR 0x27] @ ''0'' @ [CHR 0x27] @ '', '' @ [CHR 0x27] @ ''1'' @ [CHR 0x27] @ '' or '' @ [CHR 0x27] @ ''x'' @ [CHR 0x27] @
           '' in initial state in witness'')
       else
         (case init_char ground j y (the ch) of
            Inl msg \<Rightarrow> sm_die msg
          | Inr v \<Rightarrow> sm_bind (sm_lift (store cur (sym_lit y div 2) v)) (witness_state flt ground (Suc j) ys))))"

definition reset_latch :: "bool \<Rightarrow> aiger_symbol \<Rightarrow> nat list \<Rightarrow> nat list option" where
  "reset_latch ground y cur = do {
     assert_c (reset_ok y);
     store cur (sym_lit y div 2) (if sym_reset y \<le> 1 then sym_reset y else if ground then 0 else 2)
   }"

definition initial_state :: "sim_opts \<Rightarrow> aiger_private \<Rightarrow> nat list sm" where
  "initial_state opts model =
     (let cur = replicate (u32 (maxvar model + 1)) 0 in
      if so_witness opts then
        sm_bind (witness_state (so_filter opts) (so_ground opts) 0 (latches model) cur) (\<lambda>cur.
        sm_bind (nxtc (so_filter opts)) (\<lambda>ch.
          if ch \<noteq> Some CHR ''\<newline>'' then sm_die ''expected new line after initial state in witness'' else sm_return cur))
      else sm_lift (foldm (reset_latch (so_ground opts)) (latches model) cur))"

section \<open>Inputs\<close>

fun random_inputs :: "(nat \<Rightarrow> nat) \<Rightarrow> bool \<Rightarrow> uint \<Rightarrow> nat list \<Rightarrow> nat list \<Rightarrow> nat list sm" where
  "random_inputs rnd three i [] cur = sm_return cur"
| "random_inputs rnd three i (j # js) cur =
     (\<lambda>s. let tmp = drop_bit (u32 (u32 (17 * j) + i) mod 20) (rnd (ss_rand s)) mod ((if three then 1 else 0) + 2) in
       sm_bind (sm_lift (store cur j tmp)) (random_inputs rnd three i js) (s\<lparr>ss_rand := Suc (ss_rand s)\<rparr>))"

text \<open>\<open>line %u: pos %u: \<dots>\<close>\<close>

definition at_position :: "uint \<Rightarrow> uint \<Rightarrow> string \<Rightarrow> string" where
  "at_position i j txt = sprintf ''line %u: pos %u: expected '' [FmtU i, FmtU j] @ txt"

fun read_inputs :: "bool \<Rightarrow> bool \<Rightarrow> uint \<Rightarrow> nat list \<Rightarrow> char option \<Rightarrow> nat list \<Rightarrow> (nat list \<times> char option) sm" where
  "read_inputs flt ground i [] ch cur = sm_return (cur, ch)"
| "read_inputs flt ground i (j # js) ch cur =
     (if ch = Some CHR ''0'' \<or> ch = Some CHR ''1'' \<or> ch = Some CHR ''x'' then
        let v = (if ch = Some CHR ''0'' then 0 else if ch = Some CHR ''1'' then 1 else if ground then 0 else 2) in
        sm_bind (sm_lift (store cur j v)) (\<lambda>cur.
        sm_bind (nxtc flt) (\<lambda>ch. read_inputs flt ground i js ch cur))
      else sm_die (at_position i j ([CHR 0x27] @ ''0'' @ [CHR 0x27] @ '' or '' @ [CHR 0x27] @ ''1'' @ [CHR 0x27])))"

section \<open>One time step\<close>

text \<open>
  \<open>current\<close>, the time \<open>i\<close>, the last times at which fairness constraints and the literals of justice
  properties held, the bad states that were reached, the stored states, and \<open>constraintViolation\<close>.
\<close>

record sim_trace =
  tr_current :: "nat list"
  tr_time :: uint
  tr_fair :: "uint list"
  tr_justice :: "uint list list"
  tr_bad :: "bool list"
  tr_states :: "nat list list"
  tr_violated :: bool

definition new_trace :: "aiger_private \<Rightarrow> nat list \<Rightarrow> sim_trace" where
  "new_trace model cur =
     \<lparr>tr_current = cur, tr_time = 1, tr_fair = replicate (length (fairness model)) 0,
      tr_justice = map (\<lambda>y. replicate (length (sym_lits y)) 0) (justice model),
      tr_bad = replicate (length (bad model)) False, tr_states = [], tr_violated = False\<rparr>"

text \<open>\<open>i - 1\<close>\<close>

definition pred_u32 :: "uint \<Rightarrow> uint" where
  "pred_u32 i = (if i = 0 then 4294967295 else i - 1)"

definition violations :: "aiger_private \<Rightarrow> nat list \<Rightarrow> nat list option" where
  "violations model cur = do {
     vs \<leftarrow> map_option_list (\<lambda>y. sim_deref cur (sym_lit y)) (constraints model);
     Some (List.filter (\<lambda>j. vs ! j = 0) [0..<length vs])
   }"

definition violation_text :: "uint \<Rightarrow> nat \<Rightarrow> string" where
  "violation_text i j = ''Constraint c'' @ dec_u32 j @ '' was violated at timepoint '' @ dec_u32 (pred_u32 i) @ ''\<newline>''"

definition last_times :: "uint \<Rightarrow> nat list \<Rightarrow> uint list \<Rightarrow> uint list \<Rightarrow> uint list option" where
  "last_times i cur lits ts =
     map_option_list (\<lambda>(l, t). do { v \<leftarrow> sim_deref cur l; Some (if v = 1 then i else t) }) (zip lits ts)"

text \<open>The times of fairness and justice, and the state, when loops are searched.\<close>

definition record_loop :: "aiger_private \<Rightarrow> sim_trace \<Rightarrow> sim_trace option" where
  "record_loop model tr = do {
     let cur = tr_current tr;
     fair \<leftarrow> last_times (tr_time tr) cur (map sym_lit (fairness model)) (tr_fair tr);
     just \<leftarrow> map_option_list (\<lambda>(y, ts). last_times (tr_time tr) cur (sym_lits y) ts) (zip (justice model) (tr_justice tr));
     state \<leftarrow> map_option_list (\<lambda>y. sim_deref cur (sym_lit y)) (latches model);
     Some (tr\<lparr>tr_fair := fair, tr_justice := just, tr_states := tr_states tr @ [state]\<rparr>)
   }"

definition record_bad :: "aiger_private \<Rightarrow> sim_trace \<Rightarrow> sim_trace option" where
  "record_bad model tr = do {
     bs \<leftarrow> map_option_list (\<lambda>(y, b). do { v \<leftarrow> sim_deref (tr_current tr) (sym_lit y); Some (b \<or> v = 1) }) (zip (bad model) (tr_bad tr));
     Some (tr\<lparr>tr_bad := bs\<rparr>)
   }"

definition next_state :: "aiger_private \<Rightarrow> nat list \<Rightarrow> nat list option" where
  "next_state model cur = do {
     vs \<leftarrow> map_option_list (\<lambda>y. sim_deref cur (sym_next y)) (latches model);
     foldm (\<lambda>(y, v) cur. store cur (sym_lit y div 2) v) (zip (latches model) vs) cur
   }"

text \<open>Value changes of the VCD format.\<close>

definition idx_as_vcd_id :: "char \<Rightarrow> nat \<Rightarrow> string" where
  "idx_as_vcd_id ch idx = ch # dec idx"

definition vcd_values :: "nat list \<Rightarrow> char \<Rightarrow> aiger_symbol list \<Rightarrow> string option" where
  "vcd_values cur ch ys =
     map_option concat (map_option_list (\<lambda>(j, y). map_option (\<lambda>c. c # idx_as_vcd_id ch j @ ''\<newline>'') (put_ch cur (sym_lit y)))
       (zip [0..<length ys] ys))"

definition vcd_unknown :: "char \<Rightarrow> aiger_symbol list \<Rightarrow> string" where
  "vcd_unknown ch ys = concat (map (\<lambda>j. ''x'' @ idx_as_vcd_id ch j @ ''\<newline>'') [0..<length ys])"

definition vcd_time :: "uint \<Rightarrow> uint \<Rightarrow> nat \<Rightarrow> string" where
  "vcd_time period i d = ''#'' @ dec (u32 (period * pred_u32 i + d)) @ ''\<newline>''"

definition vcd_before :: "bool \<Rightarrow> uint \<Rightarrow> aiger_private \<Rightarrow> nat list \<Rightarrow> uint \<Rightarrow> string option" where
  "vcd_before delay period model cur i = do {
     ls \<leftarrow> vcd_values cur CHR ''l'' (latches model);
     Some (vcd_time period i 0 @ (if i = 1 then ''$dumpvars\<newline>'' else []) @ ls @
       (if i = 1 \<and> delay then vcd_unknown CHR ''i'' (inputs model) @ vcd_unknown CHR ''o'' (outputs model) else []) @
       (if i = 1 then ''$end\<newline>'' else []))
   }"

definition vcd_after :: "bool \<Rightarrow> uint \<Rightarrow> aiger_private \<Rightarrow> nat list \<Rightarrow> uint \<Rightarrow> string option" where
  "vcd_after delay period model cur i = do {
     is \<leftarrow> vcd_values cur CHR ''i'' (inputs model);
     os \<leftarrow> vcd_values cur CHR ''o'' (outputs model);
     Some ((if delay then vcd_time period i 1 else []) @ is @ (if delay then vcd_time period i 2 else []) @ os)
   }"

text \<open>What is printed after the state of a transition: inputs, outputs and next state.\<close>

definition transition_end :: "aiger_private \<Rightarrow> nat list \<Rightarrow> string option" where
  "transition_end model cur = do {
     ins \<leftarrow> put_symbols cur (inputs model);
     outs \<leftarrow> put_symbols cur (outputs model);
     state \<leftarrow> put_symbols cur (latches model);
     Some (ins @ '' '' @ outs @ '' '' @ state @ ''\<newline>'')
   }"

definition find_loops :: "aiger_private \<Rightarrow> bool" where
  "find_loops model \<longleftrightarrow> fairness model \<noteq> [] \<or> justice model \<noteq> []"

definition period :: "sim_opts \<Rightarrow> uint" where
  "period opts = (if so_delay opts then 20 else 1)"

text \<open>The body of the loop after the inputs: with a violated constraint the loop ends.\<close>

definition sim_cycle :: "sim_opts \<Rightarrow> bool \<Rightarrow> aiger_private \<Rightarrow> sim_trace \<Rightarrow> sim_trace sm" where
  "sim_cycle opts print model tr =
     sm_bind (sm_lift (foldm sim_and (ands model) (tr_current tr))) (\<lambda>cur.
     let i = tr_time tr; tr = tr\<lparr>tr_current := cur\<rparr> in
     sm_bind (sm_lift (violations model cur)) (\<lambda>js.
     sm_bind (sm_print (concat (map (violation_text i) js))) (\<lambda>_.
     if js \<noteq> [] then sm_return (tr\<lparr>tr_violated := True\<rparr>)
     else
       sm_bind (sm_lift (if find_loops model then record_loop model tr else Some tr)) (\<lambda>tr.
       sm_bind (sm_lift (record_bad model tr)) (\<lambda>tr.
       sm_bind (sm_lift (if print then map_option (\<lambda>state. state @ '' '') (put_symbols cur (latches model)) else Some [])) (\<lambda>txt.
       sm_bind (sm_print txt) (\<lambda>_.
       sm_bind (sm_lift (if so_vcd opts then vcd_before (so_delay opts) (period opts) model cur i else Some [])) (\<lambda>txt.
       sm_bind (sm_print txt) (\<lambda>_.
       sm_bind (sm_lift (next_state model cur)) (\<lambda>cur.
       sm_bind (sm_lift (if print then transition_end model cur else Some [])) (\<lambda>txt.
       sm_bind (sm_print txt) (\<lambda>_.
       sm_bind (sm_lift (if so_vcd opts then vcd_after (so_delay opts) (period opts) model cur i else Some [])) (\<lambda>txt.
       sm_bind (sm_print txt) (\<lambda>_.
       sm_return (tr\<lparr>tr_current := cur, tr_time := u32 (i + 1)\<rparr>)))))))))))))))"

lemma sm_keeps_if [intro]: "sm_keeps m \<Longrightarrow> sm_keeps n \<Longrightarrow> sm_keeps (if b then m else n)"
  by simp

lemma sim_cycle_keeps: "sm_keeps (sim_cycle opts print model tr)"
  unfolding sim_cycle_def Let_def by (intro sm_keeps_bind sm_keeps_if sm_keeps_simps)

lemma random_inputs_keeps: "sm_keeps (random_inputs rnd three i js cur)"
proof (induction js arbitrary: cur)
  case (Cons j js)
  have "length (ss_rest t) \<le> length (ss_rest s)" if "random_inputs rnd three i (j # js) cur s = Inr (x, t)" for s x t
  proof -
    let ?s = "s\<lparr>ss_rand := Suc (ss_rand s)\<rparr>"
    have "sm_keeps (sm_bind (sm_lift (store cur j v)) (random_inputs rnd three i js))" for v
      using Cons.IH by (intro sm_keeps_bind) simp_all
    from sm_keepsD [OF this, of _ ?s x t] that show ?thesis by (simp add: Let_def)
  qed
  then show ?case unfolding sm_keeps_def by blast
qed simp

lemma nxtc_keeps [simp]: "sm_keeps (nxtc flt)"
  unfolding sm_keeps_def using nxtc_length by blast

lemma read_inputs_keeps: "sm_keeps (read_inputs flt ground i js ch cur)"
proof (induction js arbitrary: ch cur)
  case (Cons j js)
  then show ?case unfolding read_inputs.simps Let_def by (intro sm_keeps_if sm_keeps_bind) simp_all
qed simp

text \<open>The inputs of a line are read from a character, so something has been consumed before.\<close>

lemma read_inputs_some: "read_inputs flt ground i js ch cur s = Inr ((cur', Some c), t) \<Longrightarrow> js = [] \<longrightarrow> ch = Some c \<Longrightarrow> ch \<noteq> None"
  by (cases js) (auto simp: sm_return_def sm_die_def sm_stop_def split: if_splits)

section \<open>The trace\<close>

text \<open>The loop over the time steps; \<open>ch\<close> is the last character that was read.\<close>

function sim_steps ::
    "sim_opts \<Rightarrow> (nat \<Rightarrow> nat) \<Rightarrow> bool \<Rightarrow> aiger_private \<Rightarrow> int \<Rightarrow> char option \<Rightarrow> sim_trace \<Rightarrow> (sim_trace \<times> char option) sm" where
  "sim_steps opts rnd print model vectors ch tr s =
     (if vectors = 0 then sm_return (tr, ch) s
      else if 0 < vectors then
        sm_bind (random_inputs rnd (so_three opts) (tr_time tr) [1..<Suc (length (inputs model))] (tr_current tr)) (\<lambda>cur s.
        sm_bind (sim_cycle opts print model (tr\<lparr>tr_current := cur\<rparr>)) (\<lambda>tr s.
          if tr_violated tr then sm_return (tr, ch) s
          else sim_steps opts rnd print model (vectors - 1) ch tr s) s) s
      else
        sm_bind (nxtc (so_filter opts)) (\<lambda>ch s.
          if ch = Some CHR ''.'' then sm_return (tr, ch) s
          else
            sm_bind (read_inputs (so_filter opts) (so_ground opts) (tr_time tr) [1..<Suc (length (inputs model))] ch (tr_current tr)) (\<lambda>cd s.
              if snd cd \<noteq> Some CHR ''\<newline>'' then sm_die (at_position (tr_time tr) (Suc (length (inputs model))) ''new line'') s
              else
                sm_bind (sim_cycle opts print model (tr\<lparr>tr_current := fst cd\<rparr>)) (\<lambda>tr s.
                  if tr_violated tr then sm_return (tr, snd cd) s
                  else sim_steps opts rnd print model vectors (snd cd) tr s) s) s) s)"
  by pat_completeness auto
termination
proof (relation "measure (\<lambda>(opts, rnd, print, model, vectors, ch, tr, s). nat vectors + length (ss_rest s))", goal_cases)
  case (2 opts rnd print model vectors ch tr s cur t tr' u)
  then show ?case
    using sm_keepsD [OF random_inputs_keeps 2(3)] sm_keepsD [OF sim_cycle_keeps 2(4)] by simp
next
  case (3 opts rnd print model vectors ch tr s c t cd u tr' v)
  obtain cur d where cd: "cd = (cur, d)" by (cases cd)
  have "c \<noteq> None" using read_inputs_some 3(5,6) unfolding cd by (cases "inputs model") (fastforce simp: sm_return_def)+
  then show ?case
    using 3 nxtc_length [OF 3(3)] sm_keepsD [OF read_inputs_keeps 3(5)] sm_keepsD [OF sim_cycle_keeps 3(7)] by simp
qed simp

declare sim_steps.simps [simp del]

section \<open>The end of a trace\<close>

text \<open>The loop over the bad states: \<open>checkpass\<close>, what is printed, and whether the program dies.\<close>

fun report_bad :: "bool \<Rightarrow> sim_claims \<Rightarrow> nat \<Rightarrow> bool list \<Rightarrow> bool \<Rightarrow> bool sm" where
  "report_bad print c j [] pass = sm_return pass"
| "report_bad print c j (b # bs) pass =
     (let pass = (if \<not> b then pass \<and> \<not> cl_expected c ! j else pass) in
      sm_bind (sm_when (b \<and> print) (sm_print ('' b'' @ dec_u32 j))) (\<lambda>_.
      if cl_result c ! j = 0 \<and> b then
        sm_die (''Trace witnesses b'' @ dec_u32 j @ '' which was previously specified unsatisfiable\<newline>'')
      else report_bad print c (Suc j) bs pass))"

text \<open>Does the stored state equal the state at the end?\<close>

fun same_state :: "nat list \<Rightarrow> nat list \<Rightarrow> aiger_symbol list \<Rightarrow> bool option" where
  "same_state cur vs [] = Some True"
| "same_state cur vs (y # ys) =
     (case vs of
        [] \<Rightarrow> None
      | v # vs \<Rightarrow> do { w \<leftarrow> sim_deref cur (sym_lit y); if v = w then same_state cur vs ys else Some False })"

text \<open>The first time point at which a fair loop can start: \<open>foundfair\<close> and \<open>looppoint\<close>.\<close>

fun find_loop :: "aiger_private \<Rightarrow> sim_trace \<Rightarrow> nat list \<Rightarrow> nat option option" where
  "find_loop model tr [] = Some None"
| "find_loop model tr (i # is) = do {
     state \<leftarrow> deref (tr_states tr) i;
     same \<leftarrow> same_state (tr_current tr) state (latches model);
     if same \<and> list_all (\<lambda>t. i < t) (tr_fair tr) then Some (Some i) else find_loop model tr is
   }"

fun report_justice :: "bool \<Rightarrow> sim_claims \<Rightarrow> nat \<Rightarrow> nat option \<Rightarrow> nat \<Rightarrow> uint list list \<Rightarrow> bool \<Rightarrow> bool sm" where
  "report_justice print c num_bad lp i [] pass = sm_return pass"
| "report_justice print c num_bad lp i (ts # tss) pass =
     (let found = (case lp of None \<Rightarrow> False | Some l \<Rightarrow> list_all (\<lambda>t. l < t) ts);
          pass = (if \<not> found then pass \<and> \<not> cl_expected c ! (num_bad + i) else pass) in
      sm_bind (sm_when (found \<and> print) (sm_print ('' j'' @ dec_u32 i))) (\<lambda>_.
      if cl_result c ! (num_bad + i) = 0 \<and> found then
        sm_die (''Trace witnesses j'' @ dec_u32 i @ '' which was previously specified unsatisfiable\<newline>'')
      else report_justice print c num_bad lp (Suc i) tss pass))"

text \<open>Everything after the loop over the time steps; the result is \<open>checkpass\<close>.\<close>

definition sim_report :: "sim_opts \<Rightarrow> bool \<Rightarrow> aiger_private \<Rightarrow> sim_claims \<Rightarrow> sim_trace \<Rightarrow> bool sm" where
  "sim_report opts print model c tr =
     sm_bind (sm_when (so_vcd opts) (sm_print (vcd_time (period opts) (tr_time tr) 0))) (\<lambda>_.
     sm_bind (sm_when print (sm_print ''Trace is a witness for: {'')) (\<lambda>_.
     sm_bind (report_bad print c 0 (tr_bad tr) True) (\<lambda>pass.
     sm_bind (sm_lift (if find_loops model \<and> \<not> tr_violated tr then find_loop model tr [0..<tr_time tr - 1] else Some None)) (\<lambda>lp.
     sm_bind
       (if find_loops model then
          report_justice print c (length (bad model)) lp 0 (tr_justice tr) (pass \<and> (lp \<noteq> None \<or> \<not> cl_loop c))
        else sm_return pass) (\<lambda>pass.
     sm_bind (sm_when print (sm_print ('' }\<newline>'' @
       (case lp of None \<Rightarrow> [] | Some l \<Rightarrow> ''Loop starts at timepoint: '' @ dec_u32 l @ ''\<newline>'')))) (\<lambda>_.
     sm_return pass))))))"

section \<open>Witnesses\<close>

text \<open>The trace of a stimulus or of a witness, and its check: the result is \<open>checkpass\<close>.\<close>

definition sim_trace_run ::
    "sim_opts \<Rightarrow> (nat \<Rightarrow> nat) \<Rightarrow> bool \<Rightarrow> aiger_private \<Rightarrow> sim_claims \<Rightarrow> char option \<Rightarrow> (bool \<times> char option) sm" where
  "sim_trace_run opts rnd print model c ch =
     sm_bind (initial_state opts model) (\<lambda>cur.
     sm_bind (sim_steps opts rnd print model (so_vectors opts) ch (new_trace model cur)) (\<lambda>(tr, ch).
     sm_bind (sim_report opts print model c tr) (\<lambda>pass.
     sm_return (pass, ch))))"

definition no_claims :: "nat list \<Rightarrow> sim_claims" where
  "no_claims prs = \<lparr>cl_result = prs, cl_expected = replicate (length prs) False, cl_loop = False\<rparr>"

text \<open>The head of a witness: the result, and the properties that it is for.\<close>

definition witness_head ::
    "sim_opts \<Rightarrow> bool \<Rightarrow> aiger_private \<Rightarrow> nat list \<Rightarrow> char option \<Rightarrow> (sim_claims \<times> char option) sm" where
  "witness_head opts print model prs ch =
     sm_bind (if ch = Some CHR ''0'' \<or> ch = Some CHR ''1'' \<or> ch = Some CHR ''2'' then nxtc (so_filter opts) else sm_return None) (\<lambda>nl.
     if nl \<noteq> Some CHR ''\<newline>'' then
       sm_die (''expected '' @ [CHR 0x27] @ ''0'' @ [CHR 0x27] @ '', '' @ [CHR 0x27] @ ''1'' @ [CHR 0x27] @ '' or '' @ [CHR 0x27] @ ''2'' @
         [CHR 0x27] @ '' as first line'')
     else
       sm_bind (nxtc (so_filter opts)) (\<lambda>p.
       if \<not> (p = Some CHR ''b'' \<or> p = Some CHR ''j'') then
         sm_die (''expected '' @ [CHR 0x27] @ ''b'' @ [CHR 0x27] @ '' or '' @ [CHR 0x27] @ ''j'' @ [CHR 0x27] @ '' in witness'')
       else
         sm_bind (sm_when print (sm_print ''Grounded instance of this trace should be a witness for: {'')) (\<lambda>_.
         sm_bind (witness_props (so_filter opts) (ch \<noteq> Some CHR ''2'') (ch = Some CHR ''1'') print model (the p) (no_claims prs)) (\<lambda>(c, och, j, e).
         sm_bind (sm_when print (sm_print '' }\<newline>'')) (\<lambda>_.
         if e \<noteq> Some CHR ''\<newline>'' then sm_die (''expected new line after \"'' @ [och] @ dec_u32 j @ ''\" in witness'')
         else sm_return (c, e))))))"

text \<open>
  One round from the label \<open>readNextWitness\<close> to \<open>skipWitness\<close>: \<open>res\<close>, \<open>prop_result\<close> and the last
  character.
\<close>

definition sim_witness ::
    "sim_opts \<Rightarrow> (nat \<Rightarrow> nat) \<Rightarrow> aiger_private \<Rightarrow> nat list \<Rightarrow> char option \<Rightarrow> (nat \<times> nat list \<times> char option) sm" where
  "sim_witness opts rnd model prs ch =
     (let res = (if so_check opts then 1 else 0); print = (\<not> so_vcd opts \<and> \<not> so_check opts) in
      if \<not> so_witness opts then
        sm_bind (sim_trace_run opts rnd print model (no_claims prs) ch) (\<lambda>(pass, ch).
        sm_return (if pass then 0 else res, prs, ch))
      else
        sm_bind (witness_head opts (print \<and> ch = Some CHR ''1'') model prs ch) (\<lambda>(c, e).
        if ch \<noteq> Some CHR ''1'' then
          sm_bind (nxtc (so_filter opts)) (\<lambda>d.
          if d \<noteq> Some CHR ''.'' then
            sm_die (''expected '' @ [CHR 0x27] @ ''.'' @ [CHR 0x27] @ '' after witness without trace'')
          else sm_return (0, cl_result c, d))
        else
          sm_bind (sim_trace_run opts rnd print model c e) (\<lambda>(pass, ch).
          sm_return (if pass then 0 else res, cl_result c, ch))))"

lemma witness_state_keeps: "sm_keeps (witness_state flt ground j ys cur)"
proof (induction ys arbitrary: j cur)
  case (Cons y ys)
  have "sm_keeps (case init_char ground j y ch of Inl msg \<Rightarrow> sm_die msg
      | Inr v \<Rightarrow> sm_bind (sm_lift (store cur (sym_lit y div 2) v)) (witness_state flt ground (Suc j) ys))" for ch
    using Cons.IH by (auto split: sum.split)
  then show ?case by (auto intro!: sm_keeps_bind)
qed simp

lemma witness_props_keeps: "witness_props flt known expect print model ch c s = Inr (x, t) \<Longrightarrow> length (ss_rest t) \<le> length (ss_rest s)"
proof (induction flt known expect print model ch c s rule: witness_props.induct)
  case (1 flt known expect print model ch c s)
  let ?c = "c\<lparr>cl_loop := cl_loop c \<or> ch = CHR ''j''\<rparr>"
  obtain d u where d: "nxtc flt s = Inr (d, u)" "digit_ch d"
    using "1.prems" by (subst (asm) witness_props.simps)
      (auto simp: sm_bind_def sm_die_def sm_stop_def Let_def split: sum.splits if_splits)
  obtain j e v where j: "read_index flt 0 (the d) u = Inr ((j, e), v)"
    using "1.prems" d by (subst (asm) witness_props.simps) (auto simp: sm_bind_def Let_def split: sum.splits)
  have e: "e = Some CHR ''b'' \<or> e = Some CHR ''j'' \<or> e = Some CHR ''\<newline>''"
    using "1.prems" d j by (subst (asm) witness_props.simps) (auto simp: sm_bind_def sm_die_def sm_stop_def Let_def split: if_splits)
  obtain c' where c': "claim known expect model ch j ?c = Inr c'"
    using "1.prems" d j e by (subst (asm) witness_props.simps) (auto simp: sm_bind_def sm_die_def sm_stop_def Let_def split: sum.splits)
  obtain w where w: "sm_when print (sm_print ('' '' @ [ch] @ dec_u32 j)) v = Inr ((), w)"
    by (cases print) (auto simp: sm_when_def sm_print_def sm_return_def)
  have l: "length (ss_rest w) \<le> length (ss_rest s)"
    using nxtc_length [OF d(1)] read_index_length [OF j] sm_keepsD [OF sm_keeps_simps(6) w] by simp
  show ?case
  proof (cases "e = Some CHR ''b'' \<or> e = Some CHR ''j''")
    case True
    have "witness_props flt known expect print model (the e) c' w = Inr (x, t)"
      using "1.prems" d j e c' w True by (subst (asm) witness_props.simps) (auto simp: sm_bind_def Let_def)
    then have "length (ss_rest t) \<le> length (ss_rest w)"
      using "1.IH" d j e c' w True by (auto simp: Let_def)
    with l show ?thesis by simp
  next
    case False
    with "1.prems" d j e c' w have "t = w"
      by (subst (asm) witness_props.simps) (auto simp: sm_bind_def sm_return_def Let_def)
    with l show ?thesis by simp
  qed
qed

lemma sim_steps_keeps: "sim_steps opts rnd print model vectors ch tr s = Inr (x, t) \<Longrightarrow> length (ss_rest t) \<le> length (ss_rest s)"
proof (induction opts rnd print model vectors ch tr s rule: sim_steps.induct)
  case (1 opts rnd print model vectors ch tr s)
  consider (none) "vectors = 0" | (random) "0 < vectors" | (line) "vectors < 0" by linarith
  then show ?case
  proof cases
    case none
    with "1.prems" show ?thesis by (subst (asm) sim_steps.simps) (simp add: sm_return_def)
  next
    case random
    obtain cur u where u: "random_inputs rnd (so_three opts) (tr_time tr) [1..<Suc (length (inputs model))] (tr_current tr) s = Inr (cur, u)"
      using "1.prems" random by (subst (asm) sim_steps.simps) (auto simp: sm_bind_def split: sum.splits)
    obtain tr' v where v: "sim_cycle opts print model (tr\<lparr>tr_current := cur\<rparr>) u = Inr (tr', v)"
      using "1.prems" random u by (subst (asm) sim_steps.simps) (auto simp: sm_bind_def split: sum.splits)
    have l: "length (ss_rest v) \<le> length (ss_rest s)"
      using sm_keepsD [OF random_inputs_keeps u] sm_keepsD [OF sim_cycle_keeps v] by simp
    have "length (ss_rest t) \<le> length (ss_rest v)"
    proof (cases "tr_violated tr'")
      case True
      with "1.prems" random u v show ?thesis by (subst (asm) sim_steps.simps) (simp add: sm_bind_def sm_return_def)
    next
      case False
      with "1.prems" random u v have "sim_steps opts rnd print model (vectors - 1) ch tr' v = Inr (x, t)"
        by (subst (asm) sim_steps.simps) (simp add: sm_bind_def)
      with "1.IH"(1) random u v False show ?thesis by simp
    qed
    with l show ?thesis by simp
  next
    case line
    obtain c u where u: "nxtc (so_filter opts) s = Inr (c, u)"
      using "1.prems" line by (subst (asm) sim_steps.simps) (auto simp: sm_bind_def split: sum.splits)
    show ?thesis
    proof (cases "c = Some CHR ''.''")
      case True
      with "1.prems" line u nxtc_length [OF u] show ?thesis
        by (subst (asm) sim_steps.simps) (simp add: sm_bind_def sm_return_def)
    next
      case False
      obtain cd v where v: "read_inputs (so_filter opts) (so_ground opts) (tr_time tr) [1..<Suc (length (inputs model))] c (tr_current tr) u = Inr (cd, v)"
        "snd cd = Some CHR ''\<newline>''"
        using "1.prems" line u False by (subst (asm) sim_steps.simps) (auto simp: sm_bind_def sm_die_def sm_stop_def split: sum.splits if_splits)
      obtain tr' w where w: "sim_cycle opts print model (tr\<lparr>tr_current := fst cd\<rparr>) v = Inr (tr', w)"
        using "1.prems" line u False v by (subst (asm) sim_steps.simps) (auto simp: sm_bind_def split: sum.splits)
      have l: "length (ss_rest w) \<le> length (ss_rest s)"
        using nxtc_length [OF u] sm_keepsD [OF read_inputs_keeps v(1)] sm_keepsD [OF sim_cycle_keeps w] by simp
      have "length (ss_rest t) \<le> length (ss_rest w)"
      proof (cases "tr_violated tr'")
        case True
        with "1.prems" line u False v w show ?thesis by (subst (asm) sim_steps.simps) (simp add: sm_bind_def sm_return_def)
      next
        case nv: False
        with "1.prems" line u False v w have "sim_steps opts rnd print model vectors (snd cd) tr' w = Inr (x, t)"
          by (subst (asm) sim_steps.simps) (simp add: sm_bind_def)
        with "1.IH"(2) line u False v w nv show ?thesis by simp
      qed
      with l show ?thesis by simp
    qed
  qed
qed

lemma sm_keeps_caseI: "(\<And>a b. x = (a, b) \<Longrightarrow> sm_keeps (f a b)) \<Longrightarrow> sm_keeps (case x of (a, b) \<Rightarrow> f a b)"
  by (cases x) simp

lemma report_bad_keeps: "sm_keeps (report_bad print c j bs pass)"
proof (induction bs arbitrary: j pass)
  case (Cons b bs)
  show ?case unfolding report_bad.simps Let_def by (intro sm_keeps_bind sm_keeps_if Cons.IH sm_keeps_simps)
qed simp

lemma report_justice_keeps: "sm_keeps (report_justice print c nb lp i tss pass)"
proof (induction tss arbitrary: i pass)
  case (Cons ts tss)
  show ?case unfolding report_justice.simps Let_def by (intro sm_keeps_bind sm_keeps_if Cons.IH sm_keeps_simps)
qed simp

lemma sim_report_keeps: "sm_keeps (sim_report opts print model c tr)"
  unfolding sim_report_def
  by (intro sm_keeps_bind sm_keeps_if report_bad_keeps report_justice_keeps) (simp_all add: sm_when_def)

lemma initial_state_keeps: "sm_keeps (initial_state opts model)"
  unfolding initial_state_def Let_def by (intro sm_keeps_if sm_keeps_bind witness_state_keeps nxtc_keeps sm_keeps_simps)

lemma sim_trace_run_keeps: "sm_keeps (sim_trace_run opts rnd print model c ch)"
proof -
  have "sm_keeps (sim_steps opts rnd print model vs ch tr)" for vs tr
    unfolding sm_keeps_def using sim_steps_keeps by blast
  then show ?thesis
    unfolding sim_trace_run_def
    by (intro sm_keeps_bind sm_keeps_caseI initial_state_keeps sim_report_keeps sm_keeps_simps)
qed

lemma witness_head_keeps: "sm_keeps (witness_head opts print model prs ch)"
proof -
  have "sm_keeps (witness_props flt known expect print model c cl)" for flt known expect print c cl
    unfolding sm_keeps_def using witness_props_keeps by blast
  then show ?thesis
    unfolding witness_head_def by (intro sm_keeps_if sm_keeps_bind sm_keeps_caseI nxtc_keeps sm_keeps_simps)
qed

lemma sim_witness_keeps: "sm_keeps (sim_witness opts rnd model prs ch)"
  unfolding sim_witness_def Let_def
  by (intro sm_keeps_if sm_keeps_bind sm_keeps_caseI sim_trace_run_keeps witness_head_keeps nxtc_keeps sm_keeps_simps)

text \<open>The loop over the witnesses of a file.\<close>

function sim_witnesses ::
    "sim_opts \<Rightarrow> (nat \<Rightarrow> nat) \<Rightarrow> aiger_private \<Rightarrow> nat list \<Rightarrow> char option \<Rightarrow> (nat \<times> nat list) sm" where
  "sim_witnesses opts rnd model prs ch s =
     sm_bind (sim_witness opts rnd model prs ch) (\<lambda>r s. case r of (res, prs, ch) \<Rightarrow>
       if so_witness opts \<and> res = 0 \<and> ch = Some CHR ''.'' then
         sm_bind (nxtc (so_filter opts)) (\<lambda>nl s.
           if nl \<noteq> Some CHR ''\<newline>'' then sm_die (''expected new line after '' @ [CHR 0x27] @ ''.'' @ [CHR 0x27] @ ''\<newline>'') s
           else sm_bind (nxtc (so_filter opts)) (\<lambda>ch s.
             if ch \<noteq> None then sim_witnesses opts rnd model prs ch s else sm_return (res, prs) s) s) s
       else sm_return (res, prs) s) s"
  by pat_completeness auto
termination
  by (relation "measure (\<lambda>(opts, rnd, model, prs, ch, s). length (ss_rest s))")
    (auto dest!: sm_keepsD [OF sim_witness_keeps] nxtc_length)

declare sim_witnesses.simps [simp del]

section \<open>The program\<close>

definition vcd_symbol :: "aiger_symbol \<Rightarrow> string" where
  "vcd_symbol y =
     map (\<lambda>ch. if isspace ch then CHR 0x22 else ch)
       (case sym_name y of Some name \<Rightarrow> name | None \<Rightarrow> dec (sym_lit y div 2))"

definition vcd_vars :: "string \<Rightarrow> char \<Rightarrow> aiger_symbol list \<Rightarrow> string" where
  "vcd_vars kind ch ys =
     concat (map (\<lambda>(j, y). ''$var '' @ kind @ '' 1 '' @ idx_as_vcd_id ch j @ '' '' @ vcd_symbol y @ '' $end\<newline>'') (zip [0..<length ys] ys))"

definition vcd_header :: "aiger_private \<Rightarrow> string" where
  "vcd_header model =
     vcd_vars ''wire'' CHR ''i'' (inputs model) @ vcd_vars ''reg'' CHR ''l'' (latches model) @
     vcd_vars ''wire'' CHR ''o'' (outputs model) @ ''$enddefinitions $end\<newline>''"

text \<open>With \<open>-m\<close>, and for a model whose only properties are outputs, these are bad states.\<close>

definition move_outputs :: "bool \<Rightarrow> aiger_private \<Rightarrow> aiger_private" where
  "move_outputs move model =
     (if move \<or> (bad model = [] \<and> justice model = [] \<and> outputs model \<noteq> []) then
        fold (\<lambda>y m. aiger_add_bad m (sym_lit y) (sym_name y)) (outputs model) model
      else model)"

text \<open>\<open>rand\<close> after \<open>srand\<close> with a seed, or without, delivers numbers.\<close>

record sim_env =
  se_files :: tool_env
  se_rand :: "uint option \<Rightarrow> nat \<Rightarrow> nat"

text \<open>From the opened stimulus on: an empty witness leaves \<open>res\<close> unassigned.\<close>

definition sim_run :: "sim_opts \<Rightarrow> (nat \<Rightarrow> nat) \<Rightarrow> aiger_private \<Rightarrow> string \<Rightarrow> sim_exit \<times> string" where
  "sim_run opts rnd model stimulus =
     (let s = \<lparr>ss_rest = stimulus, ss_last = None, ss_out = (if so_vcd opts then vcd_header model else []), ss_rand = 0\<rparr>;
          prs = replicate (length (bad model) + length (justice model)) 2;
          r = sm_bind (if so_witness opts then nxtc (so_filter opts) else sm_return None) (\<lambda>ch.
            if so_witness opts \<and> ch = None then sm_return (None, prs)
            else sm_bind (sim_witnesses opts rnd model prs ch) (\<lambda>(res, prs). sm_return (Some res, prs))) s
      in case r of Inl (e, out) \<Rightarrow> (SimStopped e, out) | Inr ((res, prs), s) \<Rightarrow> (SimDone res prs, ss_out s))"

definition sim_stimulus :: "tool_env \<Rightarrow> string option \<Rightarrow> string option" where
  "sim_stimulus env stim = (case stim of None \<Rightarrow> Some (env_stdin env) | Some name \<Rightarrow> env_read env (File name))"

definition aigsim_main :: "sim_env \<Rightarrow> string list \<Rightarrow> sim_exit \<times> string" where
  "aigsim_main env argv =
     (case sim_args argv sim_opts0 None None of
        Inl e \<Rightarrow> (e, [])
      | Inr (opts, model_name, stim) \<Rightarrow>
          (case sim_conflict opts model_name stim of
             Some msg \<Rightarrow> (SimStopped (Died msg), [])
           | None \<Rightarrow>
               (case read_source (se_files env) model_name of
                  None \<Rightarrow> (SimStopped Aborted, [])
                | Some model \<Rightarrow>
                    (case aiger_error model of
                       Some err \<Rightarrow> (SimStopped (Died err), [])
                     | None \<Rightarrow>
                         (case aiger_reencode (move_outputs (so_move opts) model) of
                            None \<Rightarrow> (SimStopped Aborted, [])
                          | Some model \<Rightarrow>
                              (case sim_stimulus (se_files env) stim of
                                 None \<Rightarrow> (SimStopped (Died (''failed to open '' @ [CHR 0x27] @ the stim @ [CHR 0x27])), [])
                               | Some txt \<Rightarrow> sim_run opts (se_rand env (so_seed opts)) model txt))))))"

end
