(* ===== verification/AigerSimStep.thy ===== *)
theory AigerSimStep
  imports AigerSim AigerRenumbered
begin

text \<open>
  One time step of \<open>aigsim\<close> on a renumbered structure with two valued inputs: the gates get the values
  of a valuation that the structure allows, the next state follows, and what is recorded of the
  steps before is right.
\<close>

section \<open>Two valued states\<close>

definition bits :: "nat \<Rightarrow> nat list \<Rightarrow> bool" where
  "bits n cur \<longleftrightarrow> length cur = n \<and> 0 < n \<and> cur ! 0 = 0 \<and> (\<forall>x \<in> set cur. x \<le> 1)"

definition val :: "nat list \<Rightarrow> nat \<Rightarrow> bool" where
  "val cur v \<longleftrightarrow> v < length cur \<and> cur ! v = 1"

abbreviation value_of :: "nat list \<Rightarrow> uint \<Rightarrow> nat" where
  "value_of cur l \<equiv> of_bool (litval (val cur) l)"

lemma bits_nth: "bits n cur \<Longrightarrow> v < n \<Longrightarrow> cur ! v = of_bool (val cur v)"
proof -
  assume b: "bits n cur" and v: "v < n"
  then have "cur ! v = 0 \<or> cur ! v = 1" by (metis bits_def nth_mem le_less less_one)
  then show ?thesis using b v by (auto simp: bits_def val_def)
qed

lemma bits_zero: "bits n cur \<Longrightarrow> \<not> val cur 0"
  by (simp add: bits_def val_def)

lemma bits_update: "bits n cur \<Longrightarrow> v \<noteq> 0 \<Longrightarrow> x \<le> 1 \<Longrightarrow> bits n (cur[v := x])"
  by (auto simp: bits_def dest!: set_update_subset_insert [THEN subsetD])

lemma store_bits: "bits n cur \<Longrightarrow> v < n \<Longrightarrow> store cur v x = Some (cur[v := x])"
  by (simp add: store_def bits_def)

lemma deref_bits:
  assumes b: "bits n cur" and l: "l div 2 < n"
  shows "sim_deref cur l = Some (value_of cur l)"
proof -
  have x: "of_bool a XOR (l mod 2) = (of_bool (a \<noteq> odd l) :: nat)" for a
    by (cases a; cases "even l") (simp_all add: odd_iff_mod_2_eq_one even_iff_mod_2_eq_zero)
  have "deref cur (l div 2) = Some (of_bool (val cur (l div 2)))" using bits_nth [OF b l] b l by (simp add: deref_def bits_def)
  moreover have "l = 0 \<or> l = 1 \<Longrightarrow> \<not> val cur (l div 2)" using bits_zero [OF b] by auto
  ultimately show ?thesis by (cases "l = 0 \<or> l = 1") (auto simp: sim_deref_def Let_def x litval_def)
qed

lemma deref_list:
  assumes "bits n cur" "\<forall>y \<in> set ys. f y div 2 < n"
  shows "map_option_list (\<lambda>y. sim_deref cur (f y)) ys = Some (map (\<lambda>y. value_of cur (f y)) ys)"
  by (rule map_option_list_some) (use deref_bits [OF assms(1)] assms(2) in blast)

lemma tern_bits: "tern_and (of_bool a) (of_bool b) = of_bool (a \<and> b)"
  by (cases a; cases b) (simp_all add: tern_and_def)

section \<open>The gates\<close>

lemma val_agree: "\<forall>v \<le> k. cur' ! v = cur ! v \<Longrightarrow> length cur' = length cur \<Longrightarrow> v \<le> k \<Longrightarrow> val cur' v = val cur v"
  by (simp add: val_def)

lemma gate_agree:
  assumes "\<forall>v \<le> k. val cur' v = val cur v" "and_lhs g div 2 \<le> k" "and_rhs0 g div 2 \<le> k" "and_rhs1 g div 2 \<le> k"
  shows "gate_holds (val cur') g = gate_holds (val cur) g"
  using assms by (simp add: gate_holds_def litval_def)

lemma simulate_chain:
  assumes "chain k gs" "k + length gs < n" "bits n cur"
  shows "\<exists>cur'. foldm sim_and gs cur = Some cur' \<and> bits n cur' \<and> (\<forall>v \<le> k. cur' ! v = cur ! v) \<and> list_all (gate_holds (val cur')) gs"
  using assms
proof (induction gs arbitrary: k cur)
  case (Cons g gs)
  have g: "and_lhs g = 2 * Suc k" "and_rhs0 g div 2 \<le> k" "and_rhs1 g div 2 \<le> k" "chain (Suc k) gs" using Cons.prems(1) by simp_all
  let ?b = "litval (val cur) (and_rhs0 g) \<and> litval (val cur) (and_rhs1 g)"
  let ?c = "cur[Suc k := of_bool ?b]"
  have c: "bits n ?c" by (rule bits_update [OF Cons.prems(3)]) simp_all
  have n: "Suc k < n" "and_rhs0 g div 2 < n" "and_rhs1 g div 2 < n" using Cons.prems(2) g(2,3) by simp_all
  have s: "sim_and g cur = Some ?c"
    using deref_bits [OF Cons.prems(3)] store_bits [OF Cons.prems(3) n(1)] n g(1)
    by (simp add: sim_and_def tern_bits del: mult_Suc_right)
  have "Suc k + length gs < n" using Cons.prems(2) by simp
  from Cons.IH [OF g(4) this c] obtain d where d: "foldm sim_and gs ?c = Some d" "bits n d" "\<forall>v \<le> Suc k. d ! v = ?c ! v"
    "list_all (gate_holds (val d)) gs" by blast
  have len: "length d = length ?c" "length ?c = n" using d(2) c by (simp_all add: bits_def)
  have dv: "\<forall>v \<le> Suc k. val d v = val ?c v" using val_agree [OF d(3) len(1)] by blast
  have "gate_holds (val d) g = gate_holds (val ?c) g" by (rule gate_agree [OF dv]) (use g in simp_all)
  moreover have old: "\<forall>v \<le> k. val ?c v = val cur v" by (simp add: val_def)
  then have "gate_holds (val ?c) g"
    using g n(1) len(2) by (simp add: gate_holds_def litval_def val_def)
  ultimately have "gate_holds (val d) g" by simp
  moreover have "\<forall>v \<le> k. d ! v = cur ! v" using d(3) by simp
  ultimately show ?case using s d(1,2,4) by simp
qed simp

lemma simulate_gates:
  assumes q: "renumbered q" and b: "bits (Suc (maxvar q)) cur"
  shows "\<exists>cur'. foldm sim_and (ands q) cur = Some cur' \<and> bits (Suc (maxvar q)) cur' \<and> models q (val cur') \<and>
     (\<forall>v \<le> sources q. cur' ! v = cur ! v)"
proof -
  have "sources q + length (ands q) < Suc (maxvar q)" using renumberedD(4) [OF q] by simp
  from simulate_chain [OF renumberedD(10) [OF q] this b] show ?thesis using bits_zero by (auto simp: models_def)
qed

section \<open>The next state\<close>

lemma store_latches:
  assumes "length vs = length ys" "distinct (map (\<lambda>y. sym_lit y div 2) ys)" "\<forall>y \<in> set ys. 0 < sym_lit y div 2 \<and> sym_lit y div 2 < n"
    "bits n cur" "\<forall>v \<in> set vs. v \<le> 1"
  shows "\<exists>cur'. foldm (\<lambda>(y, v) cur. store cur (sym_lit y div 2) v) (zip ys vs) cur = Some cur' \<and> bits n cur' \<and>
     (\<forall>x. x \<notin> (\<lambda>y. sym_lit y div 2) ` set ys \<longrightarrow> cur' ! x = cur ! x) \<and> list_all2 (\<lambda>y v. cur' ! (sym_lit y div 2) = v) ys vs"
  using assms
proof (induction vs ys arbitrary: cur rule: list_induct2)
  case (Cons v vs y ys)
  let ?v = "sym_lit y div 2"
  have y: "0 < ?v" "?v < n" "?v \<notin> (\<lambda>y. sym_lit y div 2) ` set ys" "v \<le> 1" using Cons.prems by auto
  have b: "bits n (cur[?v := v])" by (rule bits_update [OF Cons.prems(3)]) (use y in simp_all)
  from Cons.IH [OF _ _ b] Cons.prems(1,2,4) obtain d where
    d: "foldm (\<lambda>(y, v) cur. store cur (sym_lit y div 2) v) (zip ys vs) (cur[?v := v]) = Some d" "bits n d"
      "\<forall>x. x \<notin> (\<lambda>y. sym_lit y div 2) ` set ys \<longrightarrow> d ! x = cur[?v := v] ! x" "list_all2 (\<lambda>y v. d ! (sym_lit y div 2) = v) ys vs" by auto
  have "?v < length cur" using y(2) Cons.prems(3) by (simp add: bits_def)
  then have "d ! ?v = v" using d(3) y(3) by simp
  moreover have "\<forall>x. x \<notin> insert ?v ((\<lambda>y. sym_lit y div 2) ` set ys) \<longrightarrow> d ! x = cur ! x" using d(3) by auto
  ultimately show ?case using d(1,2,4) store_bits [OF Cons.prems(3) y(2)] by simp
qed simp

lemma latch_vars:
  assumes q: "renumbered q"
  shows "distinct (map (\<lambda>y. sym_lit y div 2) (latches q))"
    "\<forall>y \<in> set (latches q). 0 < sym_lit y div 2 \<and> sym_lit y div 2 < Suc (maxvar q) \<and> sym_lit y div 2 \<le> sources q \<and> even (sym_lit y)"
proof -
  have "map (\<lambda>y. sym_lit y div 2) (latches q) = map (\<lambda>l. l div 2) (map sym_lit (latches q))" by simp
  also have "\<dots> = [Suc (length (inputs q))..<Suc (sources q)]" unfolding renumberedD(2) [OF q] by (rule seq_half)
  finally show "distinct (map (\<lambda>y. sym_lit y div 2) (latches q))" by (simp only: distinct_upt)
  show "\<forall>y \<in> set (latches q). 0 < sym_lit y div 2 \<and> sym_lit y div 2 < Suc (maxvar q) \<and> sym_lit y div 2 \<le> sources q \<and> even (sym_lit y)"
    using latch_var [OF q] renumberedD(4) [OF q] by fastforce
qed

lemma simulate_latches:
  assumes q: "renumbered q" and b: "bits (Suc (maxvar q)) cur"
  shows "\<exists>cur'. next_state q cur = Some cur' \<and> bits (Suc (maxvar q)) cur' \<and> list_all (latch_next (val cur) (val cur')) (latches q) \<and>
     (\<forall>v. v \<notin> (\<lambda>y. sym_lit y div 2) ` set (latches q) \<longrightarrow> cur' ! v = cur ! v)"
proof -
  let ?vs = "map (\<lambda>y. value_of cur (sym_next y)) (latches q)"
  have "\<forall>y \<in> set (latches q). sym_next y div 2 < Suc (maxvar q)"
    using renumberedD(5) [OF q] by (auto simp: lits_below_def le_imp_less_Suc)
  then have vs: "map_option_list (\<lambda>y. sim_deref cur (sym_next y)) (latches q) = Some ?vs" by (rule deref_list [OF b])
  note l = latch_vars [OF q]
  obtain d where d: "foldm (\<lambda>(y, v) cur. store cur (sym_lit y div 2) v) (zip (latches q) ?vs) cur = Some d"
    "bits (Suc (maxvar q)) d" "\<forall>x. x \<notin> (\<lambda>y. sym_lit y div 2) ` set (latches q) \<longrightarrow> d ! x = cur ! x"
    "list_all2 (\<lambda>y v. d ! (sym_lit y div 2) = v) (latches q) ?vs"
    using store_latches [of ?vs "latches q" "Suc (maxvar q)" cur, OF _ l(1) _ b] l(2) by (force simp del: foldm.simps)
  have "litval (val d) (sym_lit y) = litval (val cur) (sym_next y)" if y: "y \<in> set (latches q)" for y
  proof -
    have "d ! (sym_lit y div 2) = value_of cur (sym_next y)" using d(4) y by (auto simp: list_all2_conv_all_nth in_set_conv_nth)
    moreover have "d ! (sym_lit y div 2) = of_bool (val d (sym_lit y div 2))" by (rule bits_nth [OF d(2)]) (use l(2) y in blast)
    ultimately have "val d (sym_lit y div 2) = litval (val cur) (sym_next y)" by (metis of_bool_eq_iff)
    then show ?thesis using l(2) y by (simp add: litval_even)
  qed
  then show ?thesis using vs d(1-3) by (auto simp: next_state_def list_all_iff latch_next_def)
qed

section \<open>What is known of the steps so far\<close>

text \<open>The last time, counted from one, at which a literal held.\<close>

definition happened :: "(nat \<Rightarrow> nat \<Rightarrow> bool) \<Rightarrow> nat \<Rightarrow> uint \<Rightarrow> nat \<Rightarrow> bool" where
  "happened \<tau> n l m \<longleftrightarrow> m \<le> n \<and> (0 < m \<longrightarrow> litval (\<tau> (m - 1)) l)"

definition recorded :: "aiger_private \<Rightarrow> (nat \<Rightarrow> nat \<Rightarrow> bool) \<Rightarrow> nat \<Rightarrow> sim_trace \<Rightarrow> bool" where
  "recorded q \<tau> n tr \<longleftrightarrow>
     list_all2 (\<lambda>y. happened \<tau> n (sym_lit y)) (fairness q) (tr_fair tr) \<and>
     list_all2 (\<lambda>y. list_all2 (happened \<tau> n) (sym_lits y)) (justice q) (tr_justice tr) \<and>
     tr_states tr = map (\<lambda>t. map (\<lambda>y. of_bool (litval (\<tau> t) (sym_lit y))) (latches q)) [0..<n]"

definition sim_past :: "aiger_private \<Rightarrow> (nat \<Rightarrow> nat \<Rightarrow> bool) \<Rightarrow> nat \<Rightarrow> sim_trace \<Rightarrow> bool" where
  "sim_past q \<tau> n tr \<longleftrightarrow> tr_time tr = Suc n \<and> prefix_run q \<tau> n \<and>
     (\<forall>t < n. list_all (\<lambda>y. litval (\<tau> t) (sym_lit y)) (constraints q)) \<and>
     list_all2 (\<lambda>y b. b \<longrightarrow> (\<exists>t < n. litval (\<tau> t) (sym_lit y))) (bad q) (tr_bad tr) \<and>
     (find_loops q \<longrightarrow> recorded q \<tau> n tr)"

definition sim_now :: "aiger_private \<Rightarrow> (nat \<Rightarrow> nat \<Rightarrow> bool) \<Rightarrow> nat \<Rightarrow> nat list \<Rightarrow> bool" where
  "sim_now q \<tau> n cur \<longleftrightarrow> bits (Suc (maxvar q)) cur \<and>
     (if n = 0 then list_all (latch_init (val cur)) (latches q)
      else list_all (latch_next (\<tau> (n - 1)) (val cur)) (latches q))"

text \<open>The latches only depend on their variables.\<close>

lemma sim_now_cong:
  assumes q: "renumbered q" and now: "sim_now q \<tau> n cur" and b: "bits (Suc (maxvar q)) cur'"
    and same: "\<forall>y \<in> set (latches q). cur' ! (sym_lit y div 2) = cur ! (sym_lit y div 2)"
  shows "sim_now q \<tau> n cur'"
proof -
  have len: "length cur' = length cur" using now b by (simp add: sim_now_def bits_def)
  have l: "litval (val cur') (sym_lit y) = litval (val cur) (sym_lit y)" if "y \<in> set (latches q)" for y
    using same that len by (simp add: litval_def val_def)
  have "latch_init (val cur') y = latch_init (val cur) y" "latch_next \<nu> (val cur') y = latch_next \<nu> (val cur) y" if "y \<in> set (latches q)" for y \<nu>
    using l [OF that] by (simp_all add: latch_init_def latch_next_def)
  with now b show ?thesis by (auto simp: sim_now_def list_all_iff split: if_splits)
qed

lemma prefix_run_Suc:
  assumes p: "prefix_run q \<tau> n" and m: "models q \<nu>"
    and l: "if n = 0 then list_all (latch_init \<nu>) (latches q) else list_all (latch_next (\<tau> (n - 1)) \<nu>) (latches q)"
  shows "prefix_run q (\<tau>(n := \<nu>)) (Suc n)"
proof -
  have "list_all (latch_next ((\<tau>(n := \<nu>)) t) ((\<tau>(n := \<nu>)) (Suc t))) (latches q)" if "Suc t < Suc n" for t
  proof (cases "Suc t = n")
    case True
    then show ?thesis using l by auto
  next
    case False
    then show ?thesis using p that by (simp add: prefix_run_def)
  qed
  then show ?thesis using p m l by (auto simp: prefix_run_def less_Suc_eq)
qed

lemma happened_Suc:
  "happened \<tau> n l m \<Longrightarrow> happened (\<tau>(n := \<nu>)) (Suc n) l (if litval \<nu> l then Suc n else m)"
  by (auto simp: happened_def)

lemma last_times_bits:
  assumes b: "bits N cur" and l: "\<forall>l \<in> set ls. l div 2 < N"
  shows "last_times i cur ls ts = Some (map (\<lambda>(l, t). if litval (val cur) l then i else t) (zip ls ts))"
proof -
  have "map_option_list (\<lambda>(l, t). do { v \<leftarrow> sim_deref cur l; Some (if v = 1 then i else t) }) (zip ls ts) =
      Some (map (\<lambda>(l, t). if litval (val cur) l then i else t) (zip ls ts))"
  proof (rule map_option_list_some)
    fix x assume x: "x \<in> set (zip ls ts)"
    obtain l t where e: "x = (l, t)" by (cases x)
    have "sim_deref cur l = Some (value_of cur l)" by (rule deref_bits [OF b]) (use x l in \<open>auto simp: e dest: set_zip_leftD\<close>)
    then show "(case x of (l, t) \<Rightarrow> do { v \<leftarrow> sim_deref cur l; Some (if v = 1 then i else t) }) =
        Some (case x of (l, t) \<Rightarrow> if litval (val cur) l then i else t)" by (simp add: e)
  qed
  then show ?thesis by (simp add: last_times_def)
qed

lemma happened_list:
  assumes "list_all2 (happened \<tau> n) ls ts"
  shows "list_all2 (happened (\<tau>(n := \<nu>)) (Suc n)) ls (map (\<lambda>(l, t). if litval \<nu> l then Suc n else t) (zip ls ts))"
  using assms happened_Suc by (auto simp: list_all2_conv_all_nth)

lemma states_Suc:
  "map (\<lambda>t. f ((\<tau>(n := \<nu>)) t)) [0..<Suc n] = map (\<lambda>t. f (\<tau> t)) [0..<n] @ [f \<nu>]"
  by simp

lemma record_loop_correct:
  assumes q: "renumbered q" and b: "bits (Suc (maxvar q)) (tr_current tr)" and r: "recorded q \<tau> n tr" and time: "tr_time tr = Suc n"
  shows "\<exists>tr'. record_loop q tr = Some tr' \<and> recorded q (\<tau>(n := val (tr_current tr))) (Suc n) tr' \<and>
     tr_time tr' = tr_time tr \<and> tr_current tr' = tr_current tr \<and> tr_bad tr' = tr_bad tr \<and> tr_violated tr' = tr_violated tr"
proof -
  let ?cur = "tr_current tr" and ?N = "Suc (maxvar q)"
  let ?up = "\<lambda>ls ts. map (\<lambda>(l, t). if litval (val ?cur) l then Suc n else t) (zip ls ts)"
  have lb: "\<forall>y \<in> set (fairness q). sym_lit y div 2 < ?N" "\<forall>y \<in> set (justice q). \<forall>l \<in> set (sym_lits y). l div 2 < ?N"
    "\<forall>y \<in> set (latches q). sym_lit y div 2 < ?N"
    using renumberedD(5) [OF q] by (auto simp: lits_below_def le_imp_less_Suc)
  have f: "last_times (Suc n) ?cur (map sym_lit (fairness q)) (tr_fair tr) = Some (?up (map sym_lit (fairness q)) (tr_fair tr))"
    by (rule last_times_bits [OF b]) (use lb(1) in simp)
  have j: "map_option_list (\<lambda>(y, ts). last_times (Suc n) ?cur (sym_lits y) ts) (zip (justice q) (tr_justice tr)) =
      Some (map (\<lambda>(y, ts). ?up (sym_lits y) ts) (zip (justice q) (tr_justice tr)))"
  proof (rule map_option_list_some)
    fix x assume x: "x \<in> set (zip (justice q) (tr_justice tr))"
    obtain y ts where e: "x = (y, ts)" by (cases x)
    have "last_times (Suc n) ?cur (sym_lits y) ts = Some (?up (sym_lits y) ts)"
      by (rule last_times_bits [OF b]) (use x lb(2) in \<open>auto simp: e dest: set_zip_leftD\<close>)
    then show "(case x of (y, ts) \<Rightarrow> last_times (Suc n) ?cur (sym_lits y) ts) = Some (case x of (y, ts) \<Rightarrow> ?up (sym_lits y) ts)"
      by (simp add: e)
  qed
  have s: "map_option_list (\<lambda>y. sim_deref ?cur (sym_lit y)) (latches q) = Some (map (\<lambda>y. value_of ?cur (sym_lit y)) (latches q))"
    by (rule deref_list [OF b lb(3)])
  have fair: "list_all2 (happened (\<tau>(n := val ?cur)) (Suc n)) (map sym_lit (fairness q)) (?up (map sym_lit (fairness q)) (tr_fair tr))"
    using r by (intro happened_list) (simp add: recorded_def list_all2_map1)
  have just: "list_all2 (\<lambda>y. list_all2 (happened (\<tau>(n := val ?cur)) (Suc n)) (sym_lits y)) (justice q)
      (map (\<lambda>(y, ts). ?up (sym_lits y) ts) (zip (justice q) (tr_justice tr)))"
  proof (rule list_all2_all_nthI)
    have old: "list_all2 (\<lambda>y. list_all2 (happened \<tau> n) (sym_lits y)) (justice q) (tr_justice tr)" using r by (simp add: recorded_def)
    then have len: "length (tr_justice tr) = length (justice q)" by (simp add: list_all2_lengthD)
    then show "length (justice q) = length (map (\<lambda>(y, ts). ?up (sym_lits y) ts) (zip (justice q) (tr_justice tr)))" by simp
    fix i assume i: "i < length (justice q)"
    with old have "list_all2 (happened \<tau> n) (sym_lits (justice q ! i)) (tr_justice tr ! i)" by (rule list_all2_nthD)
    from happened_list [OF this, of "val ?cur"] i len
    show "list_all2 (happened (\<tau>(n := val ?cur)) (Suc n)) (sym_lits (justice q ! i))
        (map (\<lambda>(y, ts). ?up (sym_lits y) ts) (zip (justice q) (tr_justice tr)) ! i)" by simp
  qed
  let ?tr = "tr\<lparr>tr_fair := ?up (map sym_lit (fairness q)) (tr_fair tr), tr_justice := map (\<lambda>(y, ts). ?up (sym_lits y) ts) (zip (justice q) (tr_justice tr)),
    tr_states := tr_states tr @ [map (\<lambda>y. value_of ?cur (sym_lit y)) (latches q)]\<rparr>"
  have "record_loop q tr = Some ?tr" using f j s time by (simp add: record_loop_def Let_def)
  moreover have "recorded q (\<tau>(n := val ?cur)) (Suc n) ?tr"
    using fair just r by (simp add: recorded_def list_all2_map1)
  ultimately show ?thesis by auto
qed

lemma record_bad_correct:
  assumes q: "renumbered q" and b: "bits (Suc (maxvar q)) (tr_current tr)"
    and r: "list_all2 (\<lambda>y b. b \<longrightarrow> (\<exists>t < n. litval (\<tau> t) (sym_lit y))) (bad q) (tr_bad tr)"
  shows "\<exists>bs. record_bad q tr = Some (tr\<lparr>tr_bad := bs\<rparr>) \<and>
     (\<forall>j < length (bad q). bs ! j = (tr_bad tr ! j \<or> litval (val (tr_current tr)) (sym_lit (bad q ! j)))) \<and>
     list_all2 (\<lambda>y b. b \<longrightarrow> (\<exists>t < Suc n. litval ((\<tau>(n := val (tr_current tr))) t) (sym_lit y))) (bad q) bs"
proof -
  let ?cur = "tr_current tr" and ?bs = "map (\<lambda>(y, b). b \<or> litval (val (tr_current tr)) (sym_lit y)) (zip (bad q) (tr_bad tr))"
  have "map_option_list (\<lambda>(y, b). do { v \<leftarrow> sim_deref ?cur (sym_lit y); Some (b \<or> v = 1) }) (zip (bad q) (tr_bad tr)) = Some ?bs"
  proof (rule map_option_list_some)
    fix x assume x: "x \<in> set (zip (bad q) (tr_bad tr))"
    obtain y b where e: "x = (y, b)" by (cases x)
    have "sym_lit y div 2 < Suc (maxvar q)"
      using x renumberedD(5) [OF q] by (auto simp: e lits_below_def le_imp_less_Suc dest: set_zip_leftD)
    then show "(case x of (y, b) \<Rightarrow> do { v \<leftarrow> sim_deref ?cur (sym_lit y); Some (b \<or> v = 1) }) =
        Some (case x of (y, b) \<Rightarrow> b \<or> litval (val ?cur) (sym_lit y))"
      using deref_bits [OF b] by (simp add: e)
  qed
  moreover have "list_all2 (\<lambda>y b. b \<longrightarrow> (\<exists>t < Suc n. litval ((\<tau>(n := val ?cur)) t) (sym_lit y))) (bad q) ?bs"
    using r by (fastforce simp: list_all2_conv_all_nth less_Suc_eq)
  moreover have "length (tr_bad tr) = length (bad q)" using list_all2_lengthD [OF r] by simp
  then have "\<forall>j < length (bad q). ?bs ! j = (tr_bad tr ! j \<or> litval (val ?cur) (sym_lit (bad q ! j)))" by simp
  ultimately show ?thesis unfolding record_bad_def by (intro exI [of _ ?bs] conjI) simp_all
qed

section \<open>The step\<close>

lemma violations_bits:
  assumes q: "renumbered q" and b: "bits (Suc (maxvar q)) cur"
  shows "\<exists>js. violations q cur = Some js \<and> (js = [] \<longleftrightarrow> list_all (\<lambda>y. litval (val cur) (sym_lit y)) (constraints q))"
proof -
  have "\<forall>y \<in> set (constraints q). sym_lit y div 2 < Suc (maxvar q)"
    using renumberedD(5) [OF q] by (auto simp: lits_below_def le_imp_less_Suc)
  then have "map_option_list (\<lambda>y. sim_deref cur (sym_lit y)) (constraints q) = Some (map (\<lambda>y. value_of cur (sym_lit y)) (constraints q))"
    by (rule deref_list [OF b])
  then show ?thesis by (auto simp: violations_def filter_empty_conv list_all_length)
qed

text \<open>
  After the inputs are set, a step either stops at a violated constraint, with nothing recorded, or
  goes on with a valuation that the structure allows.
\<close>

lemma sim_cycle_total:
  assumes q: "renumbered q" and past: "sim_past q \<tau> n tr" and now: "sim_now q \<tau> n (tr_current tr)"
    and n: "Suc n < 4294967295" and opts: "\<not> so_vcd opts" and v: "\<not> tr_violated tr"
  shows "\<exists>tr' cur out. sim_cycle opts False q tr s = Inr (tr', s\<lparr>ss_out := out\<rparr>) \<and> models q (val cur) \<and>
     length cur = length (tr_current tr) \<and> (\<forall>v \<le> sources q. cur ! v = tr_current tr ! v) \<and>
     (if list_all (\<lambda>y. litval (val cur) (sym_lit y)) (constraints q)
      then \<not> tr_violated tr' \<and> sim_past q (\<tau>(n := val cur)) (Suc n) tr' \<and> sim_now q (\<tau>(n := val cur)) (Suc n) (tr_current tr') \<and>
        (\<forall>j < length (bad q). tr_bad tr' ! j = (tr_bad tr ! j \<or> litval (val cur) (sym_lit (bad q ! j)))) \<and> out = ss_out s
      else tr_violated tr' \<and> sim_past q \<tau> n tr')"
proof -
  note p = past [unfolded sim_past_def]
  obtain cur where cur: "foldm sim_and (ands q) (tr_current tr) = Some cur" "bits (Suc (maxvar q)) cur" "models q (val cur)"
    "\<forall>v \<le> sources q. cur ! v = tr_current tr ! v"
    using simulate_gates [OF q, of "tr_current tr"] now by (auto simp: sim_now_def)
  have now': "sim_now q \<tau> n cur"
    by (rule sim_now_cong [OF q now cur(2)]) (use latch_vars(2) [OF q] cur(4) in blast)
  have len: "length cur = length (tr_current tr)" using cur(2) now by (simp add: sim_now_def bits_def)
  obtain js where js: "violations q cur = Some js" "js = [] \<longleftrightarrow> list_all (\<lambda>y. litval (val cur) (sym_lit y)) (constraints q)"
    using violations_bits [OF q cur(2)] by blast
  let ?tr = "tr\<lparr>tr_current := cur\<rparr>"
  show ?thesis
  proof (cases "js = []")
    case False
    then have "sim_cycle opts False q tr s =
        Inr (?tr\<lparr>tr_violated := True\<rparr>, s\<lparr>ss_out := ss_out s @ concat (map (violation_text (tr_time tr)) js)\<rparr>)"
      using cur(1) js(1) by (simp add: sim_cycle_def sm_bind_def sm_lift_def sm_return_def sm_print_def Let_def)
    moreover have "sim_past q \<tau> n (?tr\<lparr>tr_violated := True\<rparr>)" using past by (simp add: sim_past_def recorded_def)
    ultimately show ?thesis using cur(3,4) len False js(2) by fastforce
  next
    case True
    let ?\<tau> = "\<tau>(n := val cur)"
    have "\<exists>u. (if find_loops q then record_loop q ?tr else Some ?tr) = Some u \<and> (find_loops q \<longrightarrow> recorded q ?\<tau> (Suc n) u) \<and>
        tr_time u = Suc n \<and> tr_current u = cur \<and> tr_bad u = tr_bad tr \<and> \<not> tr_violated u"
      using record_loop_correct [OF q, of ?tr \<tau> n] cur(2) p v by (auto simp: recorded_def)
    then obtain u where u: "(if find_loops q then record_loop q ?tr else Some ?tr) = Some u" "find_loops q \<longrightarrow> recorded q ?\<tau> (Suc n) u"
      "tr_time u = Suc n" "tr_current u = cur" "tr_bad u = tr_bad tr" "\<not> tr_violated u" by blast
    obtain bs where bs: "record_bad q u = Some (u\<lparr>tr_bad := bs\<rparr>)"
      "\<forall>j < length (bad q). bs ! j = (tr_bad u ! j \<or> litval (val (tr_current u)) (sym_lit (bad q ! j)))"
      "list_all2 (\<lambda>y b. b \<longrightarrow> (\<exists>t < Suc n. litval (?\<tau> t) (sym_lit y))) (bad q) bs"
      using record_bad_correct [OF q, of u n \<tau>] cur(2) p u(4,5) by auto
    obtain nxt where nxt: "next_state q cur = Some nxt" "bits (Suc (maxvar q)) nxt" "list_all (latch_next (val cur) (val nxt)) (latches q)"
      using simulate_latches [OF q cur(2)] by blast
    let ?u = "u\<lparr>tr_bad := bs, tr_current := nxt, tr_time := Suc (Suc n)\<rparr>"
    have step: "sim_cycle opts False q tr s = Inr (?u, s\<lparr>ss_out := ss_out s\<rparr>)"
      using cur(1) js(1) True u(1) bs(1) nxt(1) opts p n
      by (simp add: sim_cycle_def sm_bind_def sm_lift_def sm_return_def sm_print_def Let_def)
    have "prefix_run q ?\<tau> (Suc n)"
      by (rule prefix_run_Suc) (use p cur(3) now' in \<open>auto simp: sim_now_def\<close>)
    moreover have "list_all (\<lambda>y. litval (?\<tau> t) (sym_lit y)) (constraints q)" if "t < Suc n" for t
      using that p js(2) True by (cases "t = n") auto
    ultimately have "sim_past q ?\<tau> (Suc n) ?u"
      using u(2) bs(3) by (simp add: sim_past_def recorded_def)
    moreover have "sim_now q ?\<tau> (Suc n) (tr_current ?u)" using nxt(2,3) by (simp add: sim_now_def)
    moreover have "\<not> tr_violated ?u" "\<forall>j < length (bad q). tr_bad ?u ! j = (tr_bad tr ! j \<or> litval (val cur) (sym_lit (bad q ! j)))"
      using u(4-6) bs(2) by simp_all
    ultimately show ?thesis using step cur(3,4) len True js(2)
      by (intro exI [of _ ?u] exI [of _ cur] exI [of _ "ss_out s"]) simp
  qed
qed

lemma sim_cycle_correct:
  assumes "renumbered q" "sim_past q \<tau> n tr" "sim_now q \<tau> n (tr_current tr)" "Suc n < 4294967295" "\<not> so_vcd opts" "\<not> tr_violated tr"
    "sim_cycle opts False q tr s = Inr (tr', t)"
  shows "(tr_violated tr' \<and> sim_past q \<tau> n tr') \<or>
     (\<not> tr_violated tr' \<and> (\<exists>\<nu>. sim_past q (\<tau>(n := \<nu>)) (Suc n) tr' \<and> sim_now q (\<tau>(n := \<nu>)) (Suc n) (tr_current tr')))"
  using sim_cycle_total [OF assms(1-6), of s] assms(7) by (fastforce split: if_splits)

end
