(* ===== verification/AigerSimCorrect.thy ===== *)
theory AigerSimCorrect
  imports AigerSimStep AigerFiltersCorrect
begin

text \<open>
  The witness checker \<open>aigsim -c\<close> is sound: when it accepts, a bad state that a witness was for can be
  reached, and a justice property that a witness was for has a behaviour that satisfies the
  constraints always, and the fairness constraints and the literals of the property again and again.
\<close>

section \<open>What witnesses claim\<close>

definition reaches_justice :: "aiger_private \<Rightarrow> nat \<Rightarrow> bool" where
  "reaches_justice p j \<longleftrightarrow> (\<exists>b \<in> behaviours p. (\<forall>t. list_all (\<lambda>x. x) (o_constraints (b t))) \<and>
     (\<forall>k < length (fairness p). \<forall>m. \<exists>t \<ge> m. o_fairness (b t) ! k) \<and>
     (\<forall>k < length (sym_lits (justice p ! j)). \<forall>m. \<exists>t \<ge> m. o_justice (b t) ! j ! k))"

text \<open>Bad states come first in \<open>prop_result\<close>.\<close>

definition confirmed :: "aiger_private \<Rightarrow> nat \<Rightarrow> bool" where
  "confirmed q j \<longleftrightarrow> (if j < length (bad q) then reaches_bad q j else reaches_justice q (j - length (bad q)))"

section \<open>Executions that return\<close>

lemma bind_Inr: "sm_bind m f s = Inr (x, t) \<Longrightarrow> (\<And>y u. m s = Inr (y, u) \<Longrightarrow> f y u = Inr (x, t) \<Longrightarrow> P) \<Longrightarrow> P"
  by (auto simp: sm_bind_def split: sum.splits)

lemma lift_Inr [simp]: "sm_lift y s = Inr (x, t) \<longleftrightarrow> y = Some x \<and> t = s"
  by (auto simp: sm_lift_def sm_return_def sm_stop_def split: option.splits)

lemma return_Inr [simp]: "sm_return y s = Inr (x, t) \<longleftrightarrow> x = y \<and> t = s"
  by (auto simp: sm_return_def)

lemma die_Inr [simp]: "sm_die msg s \<noteq> Inr r"
  by (simp add: sm_die_def sm_stop_def)

lemma print_rest [simp]: "sm_print inp s = Inr ((), t) \<Longrightarrow> ss_rest t = ss_rest s"
  by (auto simp: sm_print_def)

section \<open>The initial state\<close>

lemma init_char_value:
  assumes "init_char True j y ch = Inr v" "ch = CHR ''0'' \<or> ch = CHR ''1'' \<or> ch = CHR ''x''"
  shows "v \<le> 1" "sym_reset y \<le> 1 \<Longrightarrow> v = sym_reset y"
proof -
  have d: "digit_val CHR ''0'' = 0" "digit_val CHR ''1'' = 1" "digit 0 = CHR ''0''" "digit 1 = CHR ''1''" by code_simp+
  have x: "digit r \<noteq> CHR ''x''" if "r \<le> 1" for r
  proof -
    have "r = 0 \<or> r = 1" using that by auto
    then show ?thesis using d(3,4) by auto
  qed
  show "v \<le> 1" "sym_reset y \<le> 1 \<Longrightarrow> v = sym_reset y"
    using assms x [of "sym_reset y"] by (auto simp: init_char_def Let_def d split: if_splits)
qed

lemma witness_state_correct:
  assumes "witness_state flt True j ys cur s = Inr (cur', t)" "bits N cur"
    "distinct (map (\<lambda>y. sym_lit y div 2) ys)" "\<forall>y \<in> set ys. 0 < sym_lit y div 2 \<and> sym_lit y div 2 < N \<and> even (sym_lit y)"
    "\<forall>y \<in> set ys. sym_reset y \<le> 1 \<or> sym_reset y = sym_lit y"
  shows "bits N cur' \<and> (\<forall>x. x \<notin> (\<lambda>y. sym_lit y div 2) ` set ys \<longrightarrow> cur' ! x = cur ! x) \<and> (\<forall>y \<in> set ys. latch_init (val cur') y)"
  using assms
proof (induction ys arbitrary: j cur s)
  case (Cons y ys)
  from Cons.prems(1) obtain ch u v cur1 where ch: "ch = Some CHR ''0'' \<or> ch = Some CHR ''1'' \<or> ch = Some CHR ''x''"
    and v: "init_char True j y (the ch) = Inr v" and st: "store cur (sym_lit y div 2) v = Some cur1"
    and rest: "witness_state flt True (Suc j) ys cur1 u = Inr (cur', t)"
    by (auto elim!: bind_Inr split: if_splits sum.splits) fastforce+
  let ?v = "sym_lit y div 2"
  have y: "0 < ?v" "?v < N" "?v \<notin> (\<lambda>y. sym_lit y div 2) ` set ys" "even (sym_lit y)" using Cons.prems by auto
  have c: "the ch = CHR ''0'' \<or> the ch = CHR ''1'' \<or> the ch = CHR ''x''" using ch by auto
  note val = init_char_value [OF v c]
  have cur1: "cur1 = cur[?v := v]" using st store_bits [OF Cons.prems(2) y(2)] by simp
  have b: "bits N cur1" unfolding cur1 by (rule bits_update [OF Cons.prems(2)]) (use y(1) val(1) in simp_all)
  from Cons.IH [OF rest b] Cons.prems(3-5) have ih: "bits N cur'" "\<forall>x. x \<notin> (\<lambda>y. sym_lit y div 2) ` set ys \<longrightarrow> cur' ! x = cur1 ! x"
    "\<forall>y \<in> set ys. latch_init (val cur') y" by auto
  have len: "?v < length cur" "length cur' = length cur" using Cons.prems(2) ih(1) y(2) by (simp_all add: bits_def)
  then have new: "cur' ! ?v = v" using ih(2) y(3) cur1 by simp
  have "latch_init (val cur') y"
  proof (cases "sym_reset y \<le> 1")
    case True
    then show ?thesis using new val(2) len y(4) by (simp add: latch_init_def litval_even val_def)
  next
    case False
    then show ?thesis using Cons.prems(5) by (simp add: latch_init_def)
  qed
  moreover have "cur' ! x = cur ! x" if "x \<notin> (\<lambda>y. sym_lit y div 2) ` set (y # ys)" for x using that ih(2) cur1 by auto
  ultimately show ?case using ih(1,3) by auto
qed simp

lemma initial_state_correct:
  assumes q: "renumbered q" and o: "so_witness opts" "so_ground opts" and r: "initial_state opts q s = Inr (cur, t)"
  shows "sim_now q \<tau> 0 cur" "sim_past q \<tau> 0 (new_trace q cur)"
proof -
  let ?zero = "replicate (u32 (maxvar q + 1)) (0 :: nat)"
  have z: "bits (Suc (maxvar q)) ?zero" using renumberedD(6) [OF q] by (simp add: bits_def)
  from r o obtain u where "witness_state (so_filter opts) True 0 (latches q) ?zero s = Inr (cur, u)"
    by (auto simp: initial_state_def Let_def elim!: bind_Inr split: if_splits)
  from witness_state_correct [OF this z] latch_vars [OF q] renumberedD(9) [OF q]
  show "sim_now q \<tau> 0 cur" by (simp add: sim_now_def list_all_iff)
  show "sim_past q \<tau> 0 (new_trace q cur)"
    by (simp add: sim_past_def new_trace_def prefix_run_def recorded_def happened_def list_all2_conv_all_nth)
qed

section \<open>The trace\<close>

lemma read_inputs_bits:
  assumes "read_inputs flt True i js ch cur s = Inr ((cur', c), t)" "bits N cur" "\<forall>j \<in> set js. 0 < j"
  shows "bits N cur' \<and> (\<forall>x. x \<notin> set js \<longrightarrow> cur' ! x = cur ! x)"
  using assms
proof (induction js arbitrary: ch cur s)
  case (Cons j js)
  let ?v = "if ch = Some CHR ''0'' then 0 else if ch = Some CHR ''1'' then 1 else (0 :: nat)"
  from Cons.prems(1) obtain cur1 d u where st: "store cur j ?v = Some cur1" and rest: "read_inputs flt True i js d cur1 u = Inr ((cur', c), t)"
    by (auto simp: Let_def elim!: bind_Inr split: if_splits)
  have cur1: "cur1 = cur[j := ?v]" using st by (auto simp: store_def split: if_splits)
  have "bits N cur1" unfolding cur1 by (rule bits_update [OF Cons.prems(2)]) (use Cons.prems(3) in simp_all)
  from Cons.IH [OF rest this] Cons.prems(3) show ?case using cur1 by auto
qed simp

text \<open>One iteration of the loop over the lines of a stimulus.\<close>

lemma sim_steps_line:
  assumes "sim_steps opts rnd print q vectors ch tr s = Inr ((tr', c), t)" "vectors < 0"
  obtains (stop) "nxtc (so_filter opts) s = Inr (Some CHR ''.'', t)" "tr' = tr" "c = Some CHR ''.''"
  | (line) d u cur v tr1 w where "nxtc (so_filter opts) s = Inr (d, u)" "d \<noteq> Some CHR ''.''"
      "read_inputs (so_filter opts) (so_ground opts) (tr_time tr) [1..<Suc (length (inputs q))] d (tr_current tr) u = Inr ((cur, Some CHR ''\<newline>''), v)"
      "sim_cycle opts print q (tr\<lparr>tr_current := cur\<rparr>) v = Inr (tr1, w)" "length (ss_rest w) < length (ss_rest s)"
      "if tr_violated tr1 then tr' = tr1 \<and> c = Some CHR ''\<newline>'' \<and> t = w
       else sim_steps opts rnd print q vectors (Some CHR ''\<newline>'') tr1 w = Inr ((tr', c), t)"
proof -
  let ?js = "[1..<Suc (length (inputs q))]"
  note run = assms(1) [unfolded sim_steps.simps [of opts rnd print q vectors ch tr s]]
  obtain d u where u: "nxtc (so_filter opts) s = Inr (d, u)"
    using run assms(2) by (cases "nxtc (so_filter opts) s") (auto simp: sm_bind_def)
  show ?thesis
  proof (cases "d = Some CHR ''.''")
    case True
    with run u assms(2) stop show ?thesis by (simp add: sm_bind_def)
  next
    case False
    let ?r = "read_inputs (so_filter opts) (so_ground opts) (tr_time tr) ?js d (tr_current tr) u"
    obtain cur e v where r: "?r = Inr ((cur, e), v)"
      using run assms(2) u False by (cases ?r) (auto simp: sm_bind_def simp del: upt_Suc)
    have e: "e = Some CHR ''\<newline>''"
      using run assms(2) u False r by (auto simp: sm_bind_def simp del: upt_Suc split: if_splits)
    let ?c = "sim_cycle opts print q (tr\<lparr>tr_current := cur\<rparr>) v"
    obtain tr1 w where cyc: "?c = Inr (tr1, w)"
      using run assms(2) u False r e by (cases ?c) (auto simp: sm_bind_def simp del: upt_Suc)
    have go: "if tr_violated tr1 then tr' = tr1 \<and> c = Some CHR ''\<newline>'' \<and> t = w
       else sim_steps opts rnd print q vectors (Some CHR ''\<newline>'') tr1 w = Inr ((tr', c), t)"
      using run assms(2) u False r e cyc by (auto simp: sm_bind_def simp del: upt_Suc)
    have "d \<noteq> None" using read_inputs_some [of "so_filter opts" "so_ground opts" "tr_time tr" ?js d] r e
      by (cases "inputs q") (fastforce simp: sm_return_def)+
    then have "length (ss_rest u) < length (ss_rest s)" using nxtc_length [OF u] by simp
    with sm_keepsD [OF read_inputs_keeps r] sm_keepsD [OF sim_cycle_keeps cyc] have "length (ss_rest w) < length (ss_rest s)" by simp
    with line [OF u False _ cyc _ go] r e show ?thesis by simp
  qed
qed

lemma sim_steps_correct:
  assumes q: "renumbered q" and o: "so_ground opts" "\<not> so_vcd opts"
  shows "sim_steps opts rnd False q vectors ch tr s = Inr ((tr', c), t) \<Longrightarrow> vectors < 0 \<Longrightarrow> sim_past q \<tau> n tr \<Longrightarrow>
    sim_now q \<tau> n (tr_current tr) \<Longrightarrow> \<not> tr_violated tr \<Longrightarrow> n + length (ss_rest s) < 4294967290 \<Longrightarrow>
    \<exists>\<tau>' n'. sim_past q \<tau>' n' tr' \<and> (\<not> tr_violated tr' \<longrightarrow> sim_now q \<tau>' n' (tr_current tr'))"
proof (induction "length (ss_rest s)" arbitrary: ch tr s \<tau> n rule: less_induct)
  case less
  from less.prems(1,2) show ?case
  proof (cases rule: sim_steps_line)
    case stop
    with less.prems(3,4) show ?thesis by auto
  next
    case (line d u cur v tr1 w)
    let ?js = "[1..<Suc (length (inputs q))]"
    have pos: "\<forall>j \<in> set ?js. 0 < j" by auto
    have b: "bits (Suc (maxvar q)) (tr_current tr)" using less.prems(4) by (simp add: sim_now_def)
    have cur: "bits (Suc (maxvar q)) cur \<and> (\<forall>x. x \<notin> set ?js \<longrightarrow> cur ! x = tr_current tr ! x)"
      by (rule read_inputs_bits [OF _ b pos]) (use line(3) o(1) in simp)
    have now: "sim_now q \<tau> n cur"
    proof (rule sim_now_cong [OF q less.prems(4)])
      have "\<forall>y \<in> set (latches q). length (inputs q) < sym_lit y div 2" using latch_var [OF q] by fastforce
      then show "\<forall>y \<in> set (latches q). cur ! (sym_lit y div 2) = tr_current tr ! (sym_lit y div 2)" using cur by auto
    qed (use cur in simp)
    have past: "sim_past q \<tau> n (tr\<lparr>tr_current := cur\<rparr>)" using less.prems(3) by (simp add: sim_past_def recorded_def)
    have "Suc n < 4294967295" using less.prems(6) by simp
    from sim_cycle_correct [OF q past _ this o(2) _ line(4)] now less.prems(5)
    consider (stop) "tr_violated tr1" "sim_past q \<tau> n tr1"
      | (step) \<nu> where "\<not> tr_violated tr1" "sim_past q (\<tau>(n := \<nu>)) (Suc n) tr1" "sim_now q (\<tau>(n := \<nu>)) (Suc n) (tr_current tr1)"
      by auto
    then show ?thesis
    proof cases
      case stop
      with line(6) show ?thesis by auto
    next
      case step
      with line(6) have "sim_steps opts rnd False q vectors (Some CHR ''\<newline>'') tr1 w = Inr ((tr', c), t)" by simp
      from less.hyps [OF line(5) this less.prems(2) step(2,3,1)] line(5) less.prems(6) show ?thesis by simp
    qed
  qed
qed

section \<open>The report\<close>

lemma report_bad_correct:
  "report_bad False c j bs pass s = Inr (True, t) \<Longrightarrow> pass \<and> (\<forall>k < length bs. cl_expected c ! (j + k) \<longrightarrow> bs ! k)"
proof (induction bs arbitrary: j pass s)
  case (Cons b bs)
  let ?pass = "if \<not> b then pass \<and> \<not> cl_expected c ! j else pass"
  from Cons.prems obtain u where "report_bad False c (Suc j) bs ?pass u = Inr (True, t)"
    by (auto simp: Let_def elim!: bind_Inr split: if_splits)
  from Cons.IH [OF this] have "?pass" and ih: "\<forall>k < length bs. cl_expected c ! (Suc j + k) \<longrightarrow> bs ! k" by auto
  then have p: "pass" "cl_expected c ! j \<longrightarrow> b" by (auto split: if_splits)
  have "(b # bs) ! k" if "k < length (b # bs)" "cl_expected c ! (j + k)" for k
    using that ih p(2) by (cases k) simp_all
  with p(1) show ?case by blast
qed simp

definition after_all :: "nat option \<Rightarrow> nat list \<Rightarrow> bool" where
  "after_all lp ts \<longleftrightarrow> (case lp of None \<Rightarrow> False | Some l \<Rightarrow> list_all (\<lambda>t. l < t) ts)"

lemma report_justice_correct:
  "report_justice False c nb lp i tss pass s = Inr (True, t) \<Longrightarrow>
     pass \<and> (\<forall>k < length tss. cl_expected c ! (nb + i + k) \<longrightarrow> after_all lp (tss ! k))"
proof (induction tss arbitrary: i pass s)
  case (Cons ts tss)
  let ?pass = "if \<not> after_all lp ts then pass \<and> \<not> cl_expected c ! (nb + i) else pass"
  from Cons.prems obtain u where "report_justice False c nb lp (Suc i) tss ?pass u = Inr (True, t)"
    by (auto simp: Let_def after_all_def elim!: bind_Inr split: if_splits option.splits)
  from Cons.IH [OF this] have "?pass" and ih: "\<forall>k < length tss. cl_expected c ! (nb + Suc i + k) \<longrightarrow> after_all lp (tss ! k)" by auto
  then have p: "pass" "cl_expected c ! (nb + i) \<longrightarrow> after_all lp ts" by (auto split: if_splits)
  have "after_all lp ((ts # tss) ! k)" if "k < length (ts # tss)" "cl_expected c ! (nb + i + k)" for k
    using that ih p(2) by (cases k) simp_all
  with p(1) show ?case by blast
qed simp

lemma same_state_correct:
  assumes "same_state cur vs ys = Some True" "bits N cur" "\<forall>y \<in> set ys. sym_lit y div 2 < N" "length vs = length ys"
  shows "vs = map (\<lambda>y. value_of cur (sym_lit y)) ys"
  using assms
proof (induction ys arbitrary: vs)
  case (Cons y ys)
  then obtain v ws where vs: "vs = v # ws" by (cases vs) simp_all
  have "sim_deref cur (sym_lit y) = Some (value_of cur (sym_lit y))" using deref_bits Cons.prems(2,3) by simp
  with Cons vs show ?case by (auto split: if_splits)
qed simp

lemma find_loop_correct:
  "find_loop q tr is = Some (Some i) \<Longrightarrow>
     i < length (tr_states tr) \<and> same_state (tr_current tr) (tr_states tr ! i) (latches q) = Some True \<and> list_all (\<lambda>t. i < t) (tr_fair tr)"
proof (induction "is")
  case (Cons j js)
  then show ?case by (auto simp: Option.bind_eq_Some_conv deref_def split: if_splits)
qed simp

lemma sim_report_correct:
  assumes "sim_report opts False q c tr s = Inr (True, t)" "\<not> so_vcd opts"
  shows "\<forall>k < length (tr_bad tr). cl_expected c ! k \<longrightarrow> tr_bad tr ! k"
    "find_loops q \<Longrightarrow> \<forall>k < length (tr_justice tr). cl_expected c ! (length (bad q) + k) \<longrightarrow>
       (\<exists>i. \<not> tr_violated tr \<and> find_loop q tr [0..<tr_time tr - 1] = Some (Some i) \<and> list_all (\<lambda>t. i < t) (tr_justice tr ! k))"
proof -
  let ?lp = "if find_loops q \<and> \<not> tr_violated tr then find_loop q tr [0..<tr_time tr - 1] else Some None"
  from assms obtain pass lp u v w pass' where b: "report_bad False c 0 (tr_bad tr) True u = Inr (pass, v)" and lp: "?lp = Some lp"
    and j: "(if find_loops q then report_justice False c (length (bad q)) lp 0 (tr_justice tr) (pass \<and> (lp \<noteq> None \<or> \<not> cl_loop c))
        else sm_return pass) v = Inr (True, w)"
    by (auto simp: sim_report_def sm_when_def elim!: bind_Inr) 
  have "pass \<and> (find_loops q \<longrightarrow> (\<forall>k < length (tr_justice tr). cl_expected c ! (length (bad q) + 0 + k) \<longrightarrow> after_all lp (tr_justice tr ! k)))"
    using j report_justice_correct by (fastforce split: if_splits)
  then have p: "pass" and jj: "find_loops q \<Longrightarrow> \<forall>k < length (tr_justice tr). cl_expected c ! (length (bad q) + k) \<longrightarrow> after_all lp (tr_justice tr ! k)"
    by simp_all
  have "report_bad False c 0 (tr_bad tr) True u = Inr (True, v)" using b p by simp
  from report_bad_correct [OF this] show "\<forall>k < length (tr_bad tr). cl_expected c ! k \<longrightarrow> tr_bad tr ! k" by simp
  assume f: "find_loops q"
  show "\<forall>k < length (tr_justice tr). cl_expected c ! (length (bad q) + k) \<longrightarrow>
       (\<exists>i. \<not> tr_violated tr \<and> find_loop q tr [0..<tr_time tr - 1] = Some (Some i) \<and> list_all (\<lambda>t. i < t) (tr_justice tr ! k))"
    using jj [OF f] lp f by (auto simp: after_all_def split: option.splits if_splits)
qed

section \<open>Traces confirm properties\<close>

lemma past_bad:
  assumes q: "renumbered q" and p: "sim_past q \<tau> n tr" and k: "k < length (bad q)" "tr_bad tr ! k"
  shows "reaches_bad q k"
proof -
  obtain t where t: "t < n" "litval (\<tau> t) (sym_lit (bad q ! k))"
    using p k by (auto simp: sim_past_def list_all2_conv_all_nth)
  have "prefix_run q \<tau> n" using p by (simp add: sim_past_def)
  from prefix_extends [OF q this] obtain \<sigma> where \<sigma>: "run q \<sigma>" "\<And>t. t < n \<Longrightarrow> \<sigma> t = \<tau> t" by blast
  let ?b = "\<lambda>t. observe q (\<sigma> t)"
  have "?b \<in> behaviours q" using \<sigma>(1) by (auto simp: behaviours_def)
  moreover have "held ?b t" using p t(1) \<sigma>(2) by (auto simp: held_def observe_def sim_past_def list_all_iff)
  moreover have "o_bad (?b t) ! k" using t \<sigma>(2) k(1) by (simp add: observe_def)
  ultimately show ?thesis by (auto simp: reaches_bad_def)
qed

lemma past_justice:
  assumes q: "renumbered q" and p: "sim_past q \<tau> n tr" and now: "sim_now q \<tau> n (tr_current tr)"
    and f: "find_loops q" "find_loop q tr [0..<tr_time tr - 1] = Some (Some i)"
    and k: "k < length (justice q)" "list_all (\<lambda>t. i < t) (tr_justice tr ! k)"
  shows "reaches_justice q k"
proof -
  have r: "recorded q \<tau> n tr" using p f(1) by (simp add: sim_past_def)
  note l = find_loop_correct [OF f(2)]
  have i: "i < n" using l r by (simp add: recorded_def)
  have state: "tr_states tr ! i = map (\<lambda>y. of_bool (litval (\<tau> i) (sym_lit y))) (latches q)" using r i by (simp add: recorded_def)
  have lb: "\<forall>y \<in> set (latches q). sym_lit y div 2 < Suc (maxvar q)"
    using renumberedD(5) [OF q] by (auto simp: lits_below_def le_imp_less_Suc)
  have "tr_states tr ! i = map (\<lambda>y. value_of (tr_current tr) (sym_lit y)) (latches q)"
    by (rule same_state_correct [OF _ _ lb]) (use l now state in \<open>simp_all add: sim_now_def\<close>)
  then have same: "litval (\<tau> i) (sym_lit y) = litval (val (tr_current tr)) (sym_lit y)" if "y \<in> set (latches q)" for y
    using state that by (simp add: map_eq_conv) (metis of_bool_eq_iff)
  have "list_all (latch_next (\<tau> (n - 1)) (\<tau> i)) (latches q)"
    using now i same by (auto simp: sim_now_def list_all_iff latch_next_def)
  moreover have pr: "prefix_run q \<tau> n" using p by (simp add: sim_past_def)
  ultimately have run: "run q (\<lambda>t. \<tau> (lasso i n t))" by (intro lasso_run i)
  have often: "\<exists>t \<ge> m. litval (\<tau> (lasso i n t)) x" if h: "happened \<tau> n x v" "i < v" for x v m
  proof -
    have "i \<le> v - 1" "v - 1 < n" "litval (\<tau> (v - 1)) x" using h by (auto simp: happened_def)
    with lasso_often show ?thesis by metis
  qed
  let ?b = "\<lambda>t. observe q (\<tau> (lasso i n t))"
  have "?b \<in> behaviours q" using run by (auto simp: behaviours_def)
  moreover have "list_all (\<lambda>x. x) (o_constraints (?b t))" for t
    using p lasso_less [OF i, of t] by (auto simp: observe_def sim_past_def list_all_iff)
  moreover have "\<exists>t \<ge> m. o_fairness (?b t) ! j" if j: "j < length (fairness q)" for j m
  proof -
    have "happened \<tau> n (sym_lit (fairness q ! j)) (tr_fair tr ! j)" "j < length (tr_fair tr)"
      using r j by (simp_all add: recorded_def list_all2_conv_all_nth)
    with often [of _ "tr_fair tr ! j" m] l j show ?thesis by (auto simp: observe_def list_all_length)
  qed
  moreover have "\<exists>t \<ge> m. o_justice (?b t) ! k ! j" if j: "j < length (sym_lits (justice q ! k))" for j m
  proof -
    have "list_all2 (happened \<tau> n) (sym_lits (justice q ! k)) (tr_justice tr ! k)"
      using r k(1) by (simp add: recorded_def list_all2_conv_all_nth)
    then have "happened \<tau> n (sym_lits (justice q ! k) ! j) (tr_justice tr ! k ! j)" "j < length (tr_justice tr ! k)"
      using j by (simp_all add: list_all2_conv_all_nth)
    with often [of _ "tr_justice tr ! k ! j" m] k j show ?thesis by (auto simp: observe_def list_all_length)
  qed
  ultimately show ?thesis unfolding reaches_justice_def by (intro bexI [of _ ?b]) auto
qed

text \<open>A trace that passes the check confirms every property that it was expected to.\<close>

lemma trace_confirms:
  assumes q: "renumbered q" and o: "so_witness opts" "so_ground opts" "\<not> so_vcd opts" "so_vectors opts < 0"
    and len: "length (ss_rest s) < 4294967290"
    and r: "sim_trace_run opts rnd False q c ch s = Inr ((True, ch'), t)"
    and j: "j < length (bad q) + length (justice q)" "cl_expected c ! j"
  shows "confirmed q j"
proof -
  from r obtain cur u tr v where init: "initial_state opts q s = Inr (cur, u)"
    and steps: "sim_steps opts rnd False q (so_vectors opts) ch (new_trace q cur) u = Inr ((tr, ch'), v)"
    and rep: "sim_report opts False q c tr v = Inr (True, t)"
    by (auto simp: sim_trace_run_def elim!: bind_Inr)
  fix \<tau> :: "nat \<Rightarrow> nat \<Rightarrow> bool"
  have st: "sim_now q \<tau> 0 (tr_current (new_trace q cur))" "sim_past q \<tau> 0 (new_trace q cur)" "\<not> tr_violated (new_trace q cur)"
    using initial_state_correct [OF q o(1,2) init] by (simp_all add: new_trace_def)
  have "0 + length (ss_rest u) < 4294967290" using sm_keepsD [OF initial_state_keeps init] len by simp
  from sim_steps_correct [OF q o(2,3) steps o(4) st(2,1,3) this] obtain \<tau>' n where
    p: "sim_past q \<tau>' n tr" "\<not> tr_violated tr \<longrightarrow> sim_now q \<tau>' n (tr_current tr)" by blast
  note rp = sim_report_correct [OF rep o(3)]
  show ?thesis
  proof (cases "j < length (bad q)")
    case True
    have "length (tr_bad tr) = length (bad q)" using p(1) by (auto simp: sim_past_def dest: list_all2_lengthD)
    then have "tr_bad tr ! j" using rp(1) True j(2) by simp
    with past_bad [OF q p(1) True] True show ?thesis by (simp add: confirmed_def)
  next
    case False
    let ?k = "j - length (bad q)"
    have k: "?k < length (justice q)" using j(1) False by simp
    then have f: "find_loops q" by (auto simp: find_loops_def)
    have "recorded q \<tau>' n tr" using p(1) f by (simp add: sim_past_def)
    then have "length (tr_justice tr) = length (justice q)" by (auto simp: recorded_def dest: list_all2_lengthD)
    then obtain i where "\<not> tr_violated tr" "find_loop q tr [0..<tr_time tr - 1] = Some (Some i)" "list_all (\<lambda>t. i < t) (tr_justice tr ! ?k)"
      using rp(2) [OF f] k j(2) False by auto
    with past_justice [OF q p(1) _ f _ k] p(2) False show ?thesis by (simp add: confirmed_def)
  qed
qed

section \<open>The witnesses of a file\<close>

text \<open>What is claimed: by an earlier witness, or by this one, which is expected to have a trace.\<close>

definition tracked :: "bool \<Rightarrow> nat list \<Rightarrow> sim_claims \<Rightarrow> bool" where
  "tracked expect prs c \<longleftrightarrow> length (cl_result c) = length prs \<and> length (cl_expected c) = length prs \<and>
     (\<forall>j < length prs. cl_result c ! j = 1 \<longrightarrow> prs ! j = 1 \<or> (expect \<and> cl_expected c ! j))"

lemma claim_tracked:
  assumes "claim known expect q ch j c = Inr c'" "tracked expect prs c" "length prs = length (bad q) + length (justice q)"
    "ch = CHR ''b'' \<or> ch = CHR ''j''"
  shows "tracked expect prs c'"
  using assms by (auto simp: claim_def tracked_def Let_def nth_list_update split: if_splits)

lemma witness_props_tracked:
  assumes N: "length prs = length (bad q) + length (justice q)"
  shows "witness_props flt known expect print q ch c s = Inr ((c', r), t) \<Longrightarrow> tracked expect prs c \<Longrightarrow>
     ch = CHR ''b'' \<or> ch = CHR ''j'' \<Longrightarrow> tracked expect prs c'"
proof (induction "length (ss_rest s)" arbitrary: ch c s rule: less_induct)
  case less
  let ?c = "c\<lparr>cl_loop := cl_loop c \<or> ch = CHR ''j''\<rparr>"
  from less.prems(1) obtain d u j e v where d: "nxtc flt s = Inr (d, u)" "digit_ch d" and j: "read_index flt 0 (the d) u = Inr ((j, e), v)"
    and body: "(case claim known expect q ch j ?c of
               Inl msg \<Rightarrow> sm_die msg v
             | Inr c \<Rightarrow> sm_bind (sm_when print (sm_print ('' '' @ [ch] @ dec_u32 j))) (\<lambda>_ s.
                 if e = Some CHR ''b'' \<or> e = Some CHR ''j'' then witness_props flt known expect print q (the e) c s
                 else sm_return (c, ch, j, e) s) v) = Inr ((c', r), t)"
    by (subst (asm) witness_props.simps) (auto simp: Let_def elim!: bind_Inr split: if_splits)
  then obtain c1 where c1: "claim known expect q ch j ?c = Inr c1" by (cases "claim known expect q ch j ?c") auto
  with body obtain w where w: "sm_when print (sm_print ('' '' @ [ch] @ dec_u32 j)) v = Inr ((), w)"
    and go: "(if e = Some CHR ''b'' \<or> e = Some CHR ''j'' then witness_props flt known expect print q (the e) c1 w
                 else sm_return (c1, ch, j, e) w) = Inr ((c', r), t)"
    by (auto elim!: bind_Inr)
  have "tracked expect prs ?c" using less.prems(2) by (simp add: tracked_def)
  from claim_tracked [OF c1 this N less.prems(3)] have t1: "tracked expect prs c1" .
  show ?case
  proof (cases "e = Some CHR ''b'' \<or> e = Some CHR ''j''")
    case True
    have lt: "length (ss_rest w) < length (ss_rest s)"
      using nxtc_length [OF d(1)] d(2) read_index_length [OF j] sm_keepsD [OF sm_keeps_simps(6) w] by (auto simp: digit_ch_def)
    have "witness_props flt known expect print q (the e) c1 w = Inr ((c', r), t)" using go True by simp
    from less.hyps [OF lt this t1] True show ?thesis by auto
  next
    case False
    with go t1 show ?thesis by simp
  qed
qed

text \<open>The state of the loop over witnesses: what was claimed so far is confirmed.\<close>

definition all_confirmed :: "aiger_private \<Rightarrow> nat list \<Rightarrow> bool" where
  "all_confirmed q prs \<longleftrightarrow> length prs = length (bad q) + length (justice q) \<and> (\<forall>j < length prs. prs ! j = 1 \<longrightarrow> confirmed q j)"

lemma witness_head_tracked:
  assumes N: "length prs = length (bad q) + length (justice q)" and r: "witness_head opts print q prs ch s = Inr ((c, e), t)"
  shows "tracked (ch = Some CHR ''1'') prs c"
proof -
  have t: "tracked expect prs (no_claims prs)" for expect by (simp add: tracked_def no_claims_def)
  have key: "tracked expect prs c"
    if "witness_props flt known expect print q k (no_claims prs) u = Inr ((c, r'), v)" "k = CHR ''b'' \<or> k = CHR ''j''"
    for flt known expect k u r' v by (rule witness_props_tracked [OF N that(1) t that(2)])
  from r show ?thesis unfolding witness_head_def by (auto elim!: bind_Inr split: if_splits) (rule key, assumption, simp)+
qed

lemma sim_witness_confirms:
  assumes q: "renumbered q" and o: "so_check opts" "so_witness opts" "so_ground opts" "\<not> so_vcd opts" "so_vectors opts < 0"
    and len: "length (ss_rest s) < 4294967290" and prs: "all_confirmed q prs"
    and r: "sim_witness opts rnd q prs ch s = Inr ((0, prs', ch'), t)"
  shows "all_confirmed q prs'"
proof -
  let ?expect = "ch = Some CHR ''1''"
  have N: "length prs = length (bad q) + length (justice q)" using prs by (simp add: all_confirmed_def)
  from r o obtain c e u where h: "witness_head opts False q prs ch s = Inr ((c, e), u)"
    and go: "(if \<not> ?expect then sm_bind (nxtc (so_filter opts)) (\<lambda>d.
              if d \<noteq> Some CHR ''.'' then
                sm_die (''expected '' @ [CHR 0x27] @ ''.'' @ [CHR 0x27] @ '' after witness without trace'')
              else sm_return (0, cl_result c, d))
            else
              sm_bind (sim_trace_run opts rnd False q c e) (\<lambda>(pass, ch).
              sm_return (if pass then 0 else 1, cl_result c, ch))) u = Inr ((0 :: nat, prs', ch'), t)"
    by (auto simp: sim_witness_def simp del: One_nat_def elim!: bind_Inr)
  note tr = witness_head_tracked [OF N h]
  have prs': "prs' = cl_result c" using go by (auto elim!: bind_Inr split: if_splits)
  have "confirmed q i" if i: "i < length prs" "cl_result c ! i = 1" for i
  proof (cases "prs ! i = 1")
    case True
    with prs i show ?thesis by (simp add: all_confirmed_def)
  next
    case False
    with tr i have x: "?expect" "cl_expected c ! i" by (auto simp: tracked_def)
    then obtain d where pass: "sim_trace_run opts rnd False q c e u = Inr ((True, d), t)"
      using go by (auto elim!: bind_Inr split: if_splits)
    have "length (ss_rest u) < 4294967290" using sm_keepsD [OF witness_head_keeps h] len by simp
    from trace_confirms [OF q o(2-5) this pass _ x(2)] i(1) N show ?thesis by simp
  qed
  with tr N show ?thesis by (simp add: all_confirmed_def tracked_def prs')
qed

lemma sim_witnesses_confirm:
  assumes q: "renumbered q" and o: "so_check opts" "so_witness opts" "so_ground opts" "\<not> so_vcd opts" "so_vectors opts < 0"
  shows "sim_witnesses opts rnd q prs ch s = Inr ((0, prs'), t) \<Longrightarrow> length (ss_rest s) < 4294967290 \<Longrightarrow>
     all_confirmed q prs \<Longrightarrow> all_confirmed q prs'"
proof (induction "length (ss_rest s)" arbitrary: prs ch s rule: less_induct)
  case less
  from less.prems(1) obtain res prs1 ch1 u where w: "sim_witness opts rnd q prs ch s = Inr ((res, prs1, ch1), u)"
    and go: "(if so_witness opts \<and> res = 0 \<and> ch1 = Some CHR ''.'' then
         sm_bind (nxtc (so_filter opts)) (\<lambda>nl s.
           if nl \<noteq> Some CHR ''\<newline>'' then sm_die (''expected new line after '' @ [CHR 0x27] @ ''.'' @ [CHR 0x27] @ ''\<newline>'') s
           else sm_bind (nxtc (so_filter opts)) (\<lambda>ch s.
             if ch \<noteq> None then sim_witnesses opts rnd q prs1 ch s else sm_return (res, prs1) s) s) u
       else sm_return (res, prs1) u) = Inr ((0, prs'), t)"
    by (subst (asm) sim_witnesses.simps) (auto elim!: bind_Inr)
  show ?case
  proof (cases "res = 0")
    case True
    with w have c: "all_confirmed q prs1" using sim_witness_confirms [OF q o less.prems(2,3)] by blast
    show ?thesis
    proof (cases "ch1 = Some CHR ''.''")
      case dot: True
      from go True dot o(2) obtain nl v d x where n: "nxtc (so_filter opts) u = Inr (nl, v)" "nl = Some CHR ''\<newline>''"
        "nxtc (so_filter opts) v = Inr (d, x)"
        and more: "(if d \<noteq> None then sim_witnesses opts rnd q prs1 d x else sm_return (res, prs1) x) = Inr ((0, prs'), t)"
        by (auto elim!: bind_Inr split: if_splits)
      have lt: "length (ss_rest x) < length (ss_rest s)"
        using sm_keepsD [OF sim_witness_keeps w] nxtc_length [OF n(1)] nxtc_length [OF n(3)] n(2) by simp
      show ?thesis
      proof (cases "d = None")
        case True
        with more c show ?thesis by simp
      next
        case False
        with more have "sim_witnesses opts rnd q prs1 d x = Inr ((0, prs'), t)" by simp
        from less.hyps [OF lt this _ c] lt less.prems(2) show ?thesis by simp
      qed
    next
      case False
      with go c show ?thesis by simp
    qed
  next
    case False
    with go show ?thesis by simp
  qed
qed

section \<open>The program\<close>

text \<open>Outputs that become bad states leave a checked structure checked.\<close>

lemma add_bad_checked:
  assumes p: "checked p" and l: "l div 2 \<le> maxvar p" "defined_var p (l div 2)"
  shows "checked (aiger_add_bad p l n) \<and> maxvar (aiger_add_bad p l n) = maxvar p \<and> outputs (aiger_add_bad p l n) = outputs p \<and>
     defined_var (aiger_add_bad p l n) = defined_var p"
proof -
  let ?u = "aiger_add_bad p l n"
  obtain k where k: "enlarge_types (l div 2) (types p) = types p @ replicate k type0" using enlarge_types_ext by blast
  have u: "?u = p\<lparr>types := types p @ replicate k type0, bad := bad p @ [new_symbol l n]\<rparr>"
    using l(1) k by (simp add: aiger_add_bad_def aiger_import_literal_def Let_def)
  have c: "wf_aiger p" "error p = None" "clean_marks p" "all_defined p" "acyclic (deps p)" using p by (simp_all add: checked_def)
  have "maxvar p < 2147483648" using c(1) by (simp add: wf_aiger_def wf_lits_def)
  then have "l < 4294967296" using l(1) by linarith
  from wf_add_plain(2) [OF c(1) this] have wf: "wf_aiger ?u" .
  have deps: "deps ?u = deps p" by (simp add: u deps_def)
  have d: "defined_var ?u = defined_var p" by (simp add: u defined_var_def fun_eq_iff)
  have "\<not> ty_onstack type0" "\<not> ty_mark type0" by (simp_all add: type0_def)
  then have "clean_marks ?u" using c(3) grounded_cong [OF deps] unfolding clean_marks_def by (auto simp: u nth_append)
  moreover have "all_defined ?u" using c(4) l(2) unfolding all_defined_def d by (auto simp: u new_symbol_def)
  ultimately show ?thesis using wf c deps d by (simp add: checked_def u)
qed

lemma move_outputs_checked:
  assumes p: "checked p"
  shows "checked (move_outputs move p) \<and> maxvar (move_outputs move p) = maxvar p"
proof -
  have b: "checked (fold (\<lambda>y m. aiger_add_bad m (sym_lit y) (sym_name y)) ys m) \<and>
      maxvar (fold (\<lambda>y m. aiger_add_bad m (sym_lit y) (sym_name y)) ys m) = maxvar m"
    if "checked m" "\<forall>y \<in> set ys. sym_lit y div 2 \<le> maxvar m \<and> defined_var m (sym_lit y div 2)" for ys m
    using that
  proof (induction ys arbitrary: m)
    case (Cons y ys)
    with add_bad_checked [of m "sym_lit y" "sym_name y"] show ?case by simp
  qed simp
  have "\<forall>y \<in> set (outputs p). sym_lit y div 2 \<le> maxvar p \<and> defined_var p (sym_lit y div 2)"
    using p by (auto simp: checked_def wf_aiger_def wf_lits_def lits_below_def all_defined_def)
  from b [OF p this] p show ?thesis unfolding move_outputs_def by presburger
qed

lemma confirmed_same:
  assumes b: "behaviours q = behaviours p" and s: "same_sizes p q" and j: "j < length (bad p) + length (justice p)"
  shows "confirmed q j = confirmed p j"
proof (cases "j < length (bad p)")
  case True
  then show ?thesis using s b by (simp add: confirmed_def same_sizes_def reaches_bad_def)
next
  case False
  let ?k = "j - length (bad p)"
  have "map (length \<circ> sym_lits) (justice q) = map (length \<circ> sym_lits) (justice p)" using s by (simp add: same_sizes_def)
  moreover have "?k < length (justice p)" using j False by simp
  ultimately have "length (sym_lits (justice q ! ?k)) = length (sym_lits (justice p ! ?k))"
    by (metis comp_apply length_map nth_map)
  then show ?thesis using False s b by (simp add: confirmed_def same_sizes_def reaches_justice_def)
qed

text \<open>The option \<open>-c\<close> implies the options \<open>-w\<close> and \<open>-2\<close>.\<close>

definition check_implies :: "sim_opts \<Rightarrow> bool" where
  "check_implies opts \<longleftrightarrow> (so_check opts \<longrightarrow> so_witness opts \<and> so_ground opts)"

lemma if_rule: "(b \<Longrightarrow> P x) \<Longrightarrow> (\<not> b \<Longrightarrow> P y) \<Longrightarrow> P (if b then x else y)"
  by simp

lemma sim_args_check:
  assumes "check_implies opts" "sim_args argv opts model stim = Inr (opts', model', stim')"
  shows "check_implies opts'"
proof -
  define R where "R = (\<lambda>r :: sim_exit + sim_opts \<times> string option \<times> string option. case r of Inl e \<Rightarrow> True | Inr (opts, m, st) \<Rightarrow> check_implies opts)"
  have leaf: "R (Inl e)" for e by (simp add: R_def)
  have "check_implies opts \<Longrightarrow> R (sim_args argv opts m st)" for opts m st
  proof (induction argv arbitrary: opts m st rule: length_induct)
    case (1 argv)
    show ?case
    proof (cases argv)
      case Nil
      with "1.prems" show ?thesis by (simp add: R_def)
    next
      case (Cons arg rest)
      have ih: "R (sim_args xs opts m st)" if "length xs \<le> length rest" "check_implies opts" for xs opts m st
        using "1.IH" that by (simp add: Cons)
      have num: "R (case rest of [] \<Rightarrow> Inl e | num # xs \<Rightarrow> (case atoi num of None \<Rightarrow> Inl e' | Some n \<Rightarrow> sim_args xs (f n) m st))"
        if "\<And>n. check_implies (f n)" for f e e'
        using ih that leaf by (auto split: list.split option.split)
      show ?thesis
        unfolding Cons sim_args.simps by (intro if_rule [where P = R] leaf ih num) (use "1.prems" in \<open>simp_all add: check_implies_def\<close>)
    qed
  qed
  from this [OF assms(1)] assms(2) have "R (Inr (opts', model', stim'))" by metis
  then show ?thesis by (simp add: R_def)
qed

lemma sim_run_confirms:
  assumes q: "renumbered q" and o: "so_check opts" "so_witness opts" "so_ground opts" "\<not> so_vcd opts" "so_vectors opts < 0"
    and len: "length inp < 4294967290" and r: "sim_run opts rnd q inp = (SimDone (Some 0) prs, out)"
  shows "all_confirmed q prs"
proof -
  let ?s = "\<lparr>ss_rest = inp, ss_last = None, ss_out = [], ss_rand = 0\<rparr>"
  let ?prs = "replicate (length (bad q) + length (justice q)) (2 :: nat)"
  from r o obtain ch u s where ch: "nxtc (so_filter opts) ?s = Inr (ch, u)" and w: "sim_witnesses opts rnd q ?prs ch u = Inr ((0, prs), s)"
    by (auto simp: sim_run_def Let_def sm_bind_def sm_return_def split: sum.splits if_splits prod.splits)
  have "length (ss_rest u) < 4294967290" using nxtc_length [OF ch] len by simp
  moreover have "all_confirmed q ?prs" by (simp add: all_confirmed_def)
  ultimately show ?thesis using sim_witnesses_confirm [OF q o w] by blast
qed

lemma read_source_file:
  assumes "read_source env (Some name) = Some p" "aiger_error p = None" "maxvar p < 2147483648"
  shows "checked p"
proof -
  obtain inp where "aiger_read_from_file aiger_init inp = Some p"
    using assms(1,2) by (auto simp: read_source_def aiger_open_and_read_from_file_def aiger_error_s_def set_error_def aiger_error_def Let_def
        Option.bind_eq_Some_conv split: if_splits option.splits)
  with read_sound [of inp p] assms(2,3) show ?thesis by (simp add: aiger_read_from_file_def aiger_error_def)
qed

lemma aigsim_confirms:
  assumes run: "aigsim_main env argv = (SimDone (Some 0) prs, out)"
    and args: "sim_args argv sim_opts0 None None = Inr (opts, Some name, stim)" "so_check opts"
    and p: "read_source (se_files env) (Some name) = Some p" "maxvar p < 1073741824"
    and inp: "sim_stimulus (se_files env) stim = Some inp" "length inp < 4294967290"
  shows "all_confirmed (move_outputs (so_move opts) p) prs"
proof -
  have ok: "sim_conflict opts (Some name) stim = None" using run args by (auto simp: aigsim_main_def split: option.splits)
  have wg: "so_witness opts" "so_ground opts" using sim_args_check [OF _ args(1)] args(2) by (simp_all add: sim_opts0_def check_implies_def)
  then have vv: "so_vectors opts < 0" "\<not> so_vcd opts" using ok args(2) by (auto simp: sim_conflict_def split: if_splits)
  have e: "aiger_error p = None" using run args ok p(1) by (auto simp: aigsim_main_def split: option.splits)
  have "checked p" by (rule read_source_file [OF p(1) e]) (use p(2) in simp)
  then have m: "checked (move_outputs (so_move opts) p)" "maxvar (move_outputs (so_move opts) p) < 1073741824"
    using move_outputs_checked [of p] p(2) by simp_all
  from reencode_renumbered [OF m] obtain q where q: "aiger_reencode (move_outputs (so_move opts) p) = Some q" "renumbered q"
    "behaviours q = behaviours (move_outputs (so_move opts) p)" "same_sizes (move_outputs (so_move opts) p) q" by blast
  have "sim_run opts (se_rand env (so_seed opts)) q inp = (SimDone (Some 0) prs, out)"
    using run args ok p(1) e q(1) inp(1) by (simp add: aigsim_main_def)
  from sim_run_confirms [OF q(2) args(2) wg vv(2,1) inp(2) this] have c: "all_confirmed q prs" .
  have "length (bad q) = length (bad (move_outputs (so_move opts) p)) \<and> length (justice q) = length (justice (move_outputs (so_move opts) p))"
    using q(4) by (auto simp: same_sizes_def dest!: map_eq_imp_length_eq)
  then have N: "length prs = length (bad (move_outputs (so_move opts) p)) + length (justice (move_outputs (so_move opts) p))"
    using c by (simp add: all_confirmed_def)
  have "confirmed (move_outputs (so_move opts) p) j" if "j < length prs" "prs ! j = 1" for j
    using confirmed_same [OF q(3,4), of j] c that N by (simp add: all_confirmed_def)
  with N show ?thesis unfolding all_confirmed_def by blast
qed

end
