(* ===== verification/AigerDemo.thy ===== *)
theory AigerDemo
  imports AigerContracts AigerFiltersCorrect AigerInPlace AigerCnfCorrect AigerSimCorrect "HOL-Library.Code_Target_Nat"
begin

text \<open>
  A small circuit, built through the API and evaluated in the kernel: two inputs, a latch, a gate
  that nothing uses, and gates and latch numbered so that the binary writer has to renumber them.
  The witnesses of the properties apply them to it.
\<close>

definition demo_ops :: "build_op list" where
  "demo_ops =
     [AddInput 2 (Some ''x''), AddInput 4 None, AddLatch 10 8 (Some ''s''), AddReset 10 1,
      AddAnd 8 6 11, AddAnd 6 3 4, AddAnd 12 2 4, AddOutput 9 (Some ''y''), AddBad 10 None,
      AddJustice [8, 11] None, AddFairness 2 None, AddConstraint 7 None, AddComment ''demo'']"

definition demo :: aiger_private where
  "demo = the (foldm build_step demo_ops aiger_init)"

lemma demo_build: "foldm build_step demo_ops aiger_init = Some demo"
  unfolding demo_def by code_simp

lemma demo_unsigned: "list_all op_unsigned demo_ops"
  by code_simp

lemma demo_error: "error demo = None"
  by code_simp

lemma demo_maxvar: "maxvar demo = 6"
  by code_simp

lemma demo_check_error: "map_option error (aiger_check demo) = Some None"
  by code_simp

lemma unmarked_clean: "list_all (\<lambda>t. \<not> ty_onstack t \<and> \<not> ty_mark t) (types p) \<Longrightarrow> clean_marks p"
  by (simp add: clean_marks_def list_all_length)

text \<open>
  A structure that a client built, whose check reports nothing, is checked, and portable when its
  names and comments are single lines.
\<close>

lemma built_checked:
  assumes b: "foldm build_step ops aiger_init = Some p" "list_all op_unsigned ops" and e: "error p = None"
    and m: "list_all (\<lambda>t. \<not> ty_onstack t \<and> \<not> ty_mark t) (types p)" and c: "map_option error (aiger_check p) = Some None"
  shows "wf_aiger p" "checked p"
proof -
  show wf: "wf_aiger p" by (rule wf_build [OF b]) simp
  obtain q where "aiger_check p = Some q" "error q = None" using c by auto
  with aiger_check_spec [OF wf e unmarked_clean [OF m]] wf e unmarked_clean [OF m]
  show "checked p" by (auto simp: checked_def)
qed

lemma built_is_portable:
  assumes "foldm build_step ops aiger_init = Some p" "checked p" "list_all entry_ok (all_symbols p)"
    "comments p = map Some ls @ [None]" "list_all plain_name ls" "small_counts p"
  shows "portable p"
  using assms shaped_build [OF assms(1) shaped_init] by (auto simp: portable_def named_def list_all_iff)

lemma demo_unmarked: "list_all (\<lambda>t. \<not> ty_onstack t \<and> \<not> ty_mark t) (types demo)"
  by code_simp

lemmas demo_clean = unmarked_clean [OF demo_unmarked]
lemmas demo_wf = built_checked(1) [OF demo_build demo_unsigned demo_error demo_unmarked demo_check_error]
lemmas demo_checked = built_checked(2) [OF demo_build demo_unsigned demo_error demo_unmarked demo_check_error]

lemma demo_portable: "portable demo"
  by (rule built_is_portable [OF demo_build demo_checked, where ls = "[''demo'']"]) code_simp+

lemma demo_not_reencoded: "\<not> reencoded_form demo"
proof -
  have "aiger_is_reencoded demo = Some False" by code_simp
  moreover have "length (inputs demo) + length (latches demo) + length (ands demo) < 2147483647" by code_simp
  ultimately show ?thesis using is_reencoded_eq [of demo] by simp
qed

section \<open>A circuit for the tools\<close>

text \<open>Two inputs, a toggling latch, a gate and three outputs, and no other properties.\<close>

definition filter_ops :: "build_op list" where
  "filter_ops =
     [AddInput 2 (Some ''x''), AddInput 4 None, AddLatch 6 7 None, AddAnd 8 2 5,
      AddOutput 8 (Some ''g''), AddOutput 3 None, AddOutput 6 (Some ''s'')]"

definition filter_demo :: aiger_private where
  "filter_demo = the (foldm build_step filter_ops aiger_init)"

lemma filter_demo_build: "foldm build_step filter_ops aiger_init = Some filter_demo"
  unfolding filter_demo_def by code_simp

lemma filter_demo_checked: "checked filter_demo"
  by (rule built_checked(2) [OF filter_demo_build]) code_simp+

lemma filter_demo_portable: "portable filter_demo"
  by (rule built_is_portable [OF filter_demo_build filter_demo_checked, where ls = "[]"]) code_simp+

lemma filter_demo_room: "room_for_gates filter_demo" "length (outputs filter_demo) = 3"
  by code_simp+

lemma filter_demo_only: "only_outputs filter_demo = None"
  by code_simp

text \<open>Its text on standard input, and a terminal with room for \<open>n\<close> bytes.\<close>

definition demo_env :: "aiger_private \<Rightarrow> nat \<Rightarrow> tool_env" where
  "demo_env p n = \<lparr>env_read = \<lambda>target. None, env_stdin = ascii_text p @ trailer_text p,
     env_write = \<lambda>target. None, env_close = \<lambda>target f. Plain (file_data f),
     env_stdout = \<lparr>file_data = [], file_room = n\<rparr>, env_isatty = True\<rparr>"

lemma demo_env_simps [simp]:
  "env_stdin (demo_env p n) = ascii_text p @ trailer_text p" "env_isatty (demo_env p n)"
  "env_stdout (demo_env p n) = \<lparr>file_data = [], file_room = n\<rparr>"
  by (simp_all add: demo_env_def)

section \<open>A wire\<close>

definition wire :: aiger_private where
  "wire = the (foldm build_step [AddInput 2 None, AddOutput 2 None] aiger_init)"

lemma wire_build: "foldm build_step [AddInput 2 None, AddOutput 2 None] aiger_init = Some wire"
  unfolding wire_def by code_simp

lemma wire_portable: "portable wire"
proof (rule built_is_portable [OF wire_build, where ls = "[]"])
  show "checked wire" by (rule built_checked(2) [OF wire_build]) code_simp+
qed code_simp+

lemma wire_lists: "inputs wire = [new_symbol 2 None]" "outputs wire = [new_symbol 2 None]" "latches wire = []" "ands wire = []"
  by code_simp+

lemma wire_observed:
  assumes "b \<in> behaviours wire"
  shows "\<exists>x. o_inputs (b t) = [x] \<and> o_outputs (b t) = [x]"
  using assms by (auto simp: behaviours_def observe_def wire_lists)

lemma wire_behaves: "\<exists>b. b \<in> behaviours wire"
proof -
  have "run wire (\<lambda>t v. False)" by (simp add: run_def models_def wire_lists)
  then show ?thesis by (auto simp: behaviours_def)
qed

section \<open>Latches for the reset\<close>

definition reset_ops :: "build_op list" where
  "reset_ops = [AddInput 2 None, AddLatch 4 6 (Some ''s''), AddReset 4 1, AddLatch 6 5 None, AddReset 6 1, AddLatch 8 2 None, AddAnd 10 4 9, AddOutput 11 None, AddBad 6 None]"

definition reset_demo :: aiger_private where
  "reset_demo = the (foldm build_step reset_ops aiger_init)"

lemma reset_demo_build: "foldm build_step reset_ops aiger_init = Some reset_demo"
  unfolding reset_demo_def by code_simp

lemma reset_demo_checked: "checked reset_demo"
  by (rule built_checked(2) [OF reset_demo_build]) code_simp+

lemma reset_demo_portable: "portable reset_demo"
  by (rule built_is_portable [OF reset_demo_build reset_demo_checked, where ls = "[]"]) code_simp+

lemma reset_demo_supported: "reset_supported 0 reset_demo"
  by code_simp

text \<open>A constant latch that is one, and one that follows it, from zero.\<close>

definition stale :: aiger_private where
  "stale = the (foldm build_step
     [AddLatch 2 2 None, AddReset 2 1, AddLatch 4 2 None, AddOutput 4 None] aiger_init)"

definition stale_normal :: aiger_private where
  "stale_normal = the (aigreset_normalize 0 stale)"

lemma stale_normal: "aigreset_normalize 0 stale = Some stale_normal"
  unfolding stale_normal_def by code_simp

lemma stale_latches:
  "latches stale = [(new_symbol 2 None)\<lparr>sym_next := 2, sym_reset := 1\<rparr>, (new_symbol 4 None)\<lparr>sym_next := 2\<rparr>]"
  "latches stale_normal = [(new_symbol 2 None)\<lparr>sym_next := 2\<rparr>, (new_symbol 4 None)\<lparr>sym_next := 2\<rparr>]"
  "outputs stale = [new_symbol 4 None]" "outputs stale_normal = [new_symbol 4 None]"
  "ands stale = []" "ands stale_normal = []"
  by code_simp+

lemma stale_runs:
  "run stale \<tau> \<Longrightarrow> \<tau> 1 2" "run stale_normal \<tau> \<Longrightarrow> \<not> \<tau> 1 2"
  by (auto simp: run_def stale_latches latch_init_def latch_next_def litval_def new_symbol_def symbol0_def)

lemma stale_run: "run stale (\<lambda>t v. v = 1 \<or> (v = 2 \<and> t \<noteq> 0))" "run stale_normal (\<lambda>t v. False)"
  by (auto simp: run_def stale_latches latch_init_def latch_next_def litval_def new_symbol_def symbol0_def models_def)

lemma stale_outputs:
  "(\<lambda>b. o_outputs (b 1)) ` behaviours stale = {[True]}" "(\<lambda>b. o_outputs (b 1)) ` behaviours stale_normal = {[False]}"
proof -
  have "o_outputs (observe stale \<nu>) = [\<nu> 2]" "o_outputs (observe stale_normal \<nu>) = [\<nu> 2]" for \<nu>
    by (simp_all add: observe_def stale_latches new_symbol_def litval_def)
  then have o: "(\<lambda>b. o_outputs (b 1)) ` behaviours stale = (\<lambda>\<tau>. [\<tau> (1 :: nat) 2]) ` Collect (run stale)"
    "(\<lambda>b. o_outputs (b 1)) ` behaviours stale_normal = (\<lambda>\<tau>. [\<tau> (1 :: nat) 2]) ` Collect (run stale_normal)"
    by (simp_all add: behaviours_def image_image setcompr_eq_image)
  show "(\<lambda>b. o_outputs (b 1)) ` behaviours stale = {[True]}"
    unfolding o using stale_runs(1) imageI [OF CollectI, of "run stale", OF stale_run(1), of "\<lambda>\<tau>. [\<tau> (1 :: nat) 2]"] by auto
  show "(\<lambda>b. o_outputs (b 1)) ` behaviours stale_normal = {[False]}"
    unfolding o using stale_runs(2) imageI [OF CollectI, of "run stale_normal", OF stale_run(2), of "\<lambda>\<tau>. [\<tau> (1 :: nat) 2]"] by auto
qed

section \<open>Constraints and bad states\<close>

text \<open>A counter of two latches, constrained to keep the input on, with bad states.\<close>

definition monitor_ops :: "build_op list" where
  "monitor_ops = [AddInput 2 (Some ''run''), AddLatch 4 11 (Some ''b0''), AddLatch 6 12 None, AddAnd 8 4 7, AddAnd 10 5 2,
     AddAnd 12 9 4, AddConstraint 2 None, AddConstraint 13 (Some ''c''), AddBad 8 (Some ''up''), AddBad 6 None]"

definition monitor_demo :: aiger_private where
  "monitor_demo = the (foldm build_step monitor_ops aiger_init)"

lemma monitor_demo_build: "foldm build_step monitor_ops aiger_init = Some monitor_demo"
  unfolding monitor_demo_def by code_simp

lemma monitor_demo_checked: "checked monitor_demo"
  by (rule built_checked(2) [OF monitor_demo_build]) code_simp+

lemma monitor_demo_portable: "portable monitor_demo"
  by (rule built_is_portable [OF monitor_demo_build monitor_demo_checked, where ls = "[]"]) code_simp+

lemma monitor_demo_supported: "unconstraint_supported monitor_demo" "move_supported monitor_demo"
  "unconstraint_refuse None monitor_demo = None" "length (bad monitor_demo) = 2"
  by code_simp+

definition demo_dir :: "string \<Rightarrow> string \<Rightarrow> directory" where
  "demo_dir name txt = \<lparr>dir_files = [name \<mapsto> Plain txt], dir_can_rename = \<lambda>old new. True, dir_can_unlink = \<lambda>name. True\<rparr>"

definition strip_env :: "aiger_private \<Rightarrow> tool_env" where
  "strip_env p = (demo_env p 0)\<lparr>env_read := \<lambda>target. Some (ascii_text p @ trailer_text p)\<rparr>"

section \<open>A formula in clause normal form\<close>

text \<open>A combinational structure: the first input holds and the second does not, unless both are equal.\<close>

definition xor_ops :: "build_op list" where
  "xor_ops = [AddInput 2 None, AddInput 4 None, AddAnd 6 2 5, AddAnd 8 3 4, AddAnd 10 7 9, AddOutput 11 None]"

definition xor_demo :: aiger_private where
  "xor_demo = the (foldm build_step xor_ops aiger_init)"

lemma xor_demo_build: "foldm build_step xor_ops aiger_init = Some xor_demo"
  unfolding xor_demo_def by code_simp

lemma xor_demo_checked: "checked xor_demo"
  by (rule built_checked(2) [OF xor_demo_build]) code_simp+

lemma xor_demo_portable: "portable xor_demo"
  by (rule built_is_portable [OF xor_demo_build xor_demo_checked, where ls = "[]"]) code_simp+

lemma xor_demo_supported: "cnf_refuse xor_demo = None" "maxvar xor_demo = 5"
  by code_simp+

text \<open>An input as output, and a gate with a constant operand that nothing uses.\<close>

definition unused_ops :: "build_op list" where
  "unused_ops = [AddInput 2 None, AddAnd 4 2 1, AddOutput 2 None]"

definition unused_demo :: aiger_private where
  "unused_demo = the (foldm build_step unused_ops aiger_init)"

lemma unused_demo_build: "foldm build_step unused_ops aiger_init = Some unused_demo"
  unfolding unused_demo_def by code_simp

lemma unused_demo_checked: "checked unused_demo"
  by (rule built_checked(2) [OF unused_demo_build]) code_simp+

lemma unused_demo_portable: "portable unused_demo"
  by (rule built_is_portable [OF unused_demo_build unused_demo_checked, where ls = "[]"]) code_simp+

lemma unused_demo_reaches: "reaches_output unused_demo 0"
proof -
  have f: "latches unused_demo = []" "map sym_lit (outputs unused_demo) = [2]" "ands unused_demo = [\<lparr>and_lhs = 4, and_rhs0 = 2, and_rhs1 = 1\<rparr>]"
    by code_simp+
  have o: "outputs unused_demo \<noteq> []" "sym_lit (outputs unused_demo ! 0) = 2" using f(2) by auto
  have "models unused_demo (\<lambda>v. v \<noteq> 0)" "litval (\<lambda>v. v \<noteq> 0) 2"
    by (simp_all add: models_def f(3) gate_holds_def litval_def)
  then show ?thesis using models_run [OF f(1) o(1)] o(2) by auto
qed

text \<open>A file whose header allows more variables than it defines.\<close>

definition gap_file :: string where
  "gap_file = ''aag 5 1 0 1 1\<newline>2\<newline>4\<newline>4 2 2\<newline>''"

definition gap_demo :: aiger_private where
  "gap_demo = the (aiger_read_generic aiger_init gap_file)"

lemma gap_read: "aiger_read_generic aiger_init gap_file = Some gap_demo"
  unfolding gap_demo_def by code_simp

lemma gap_facts: "latches gap_demo = []" "outputs gap_demo \<noteq> []" "maxvar gap_demo = 5" "reencoded_form gap_demo"
  "length (inputs gap_demo) = 1" "length (ands gap_demo) = 1"
  by code_simp+

lemma gap_reencoded: "\<exists>q. aiger_reencode gap_demo = Some q \<and> 1 < sym_lit (outputs q ! 0)"
proof -
  have "map_option (\<lambda>q. sym_lit (outputs q ! 0)) (aiger_reencode gap_demo) = Some 4" by code_simp
  then show ?thesis by auto
qed

lemma gap_portable: "portable gap_demo"
proof -
  have "error gap_demo = None" "comments gap_demo = [] @ [None]" "list_all entry_ok (all_symbols gap_demo)" "shaped gap_demo" "small_counts gap_demo"
    by code_simp+
  moreover have "checked gap_demo" by (rule read_sound [OF gap_read]) (use calculation(1) gap_facts(3) in simp_all)
  ultimately show ?thesis by (auto simp: portable_def named_def list_all_iff)
qed

definition all_polarities :: cnf_options where
  "all_polarities = \<lparr>opt_pg = False, opt_prtmap = False\<rparr>"

section \<open>Simulation\<close>

text \<open>
  A flip-flop with both of its values as outputs, a latch that follows an input, with a justice and
  a fairness property, and an output that is a negated input.
\<close>

definition toggle_file :: string where
  "toggle_file = ''aag 1 0 1 2 0\<newline>2 3\<newline>2\<newline>3\<newline>''"

definition fair_file :: string where
  "fair_file = ''aag 2 1 1 0 0 0 0 1 1\<newline>2\<newline>4 2\<newline>1\<newline>4\<newline>2\<newline>''"

definition not_file :: string where
  "not_file = ''aag 1 1 0 1 0\<newline>2\<newline>3\<newline>''"

definition sim_files :: "string \<Rightarrow> string \<Rightarrow> sim_env" where
  "sim_files model stim = \<lparr>se_files = \<lparr>env_read = (\<lambda>target. if target = File ''m.aag'' then Some model else None), env_stdin = stim,
     env_write = \<lambda>target. None, env_close = \<lambda>target f. Plain (file_data f),
     env_stdout = \<lparr>file_data = [], file_room = 0\<rparr>, env_isatty = False\<rparr>, se_rand = \<lambda>seed n. 0\<rparr>"

definition check_opts :: sim_opts where
  "check_opts = sim_opts0\<lparr>so_check := True, so_witness := True, so_ground := True\<rparr>"

lemma check_args: "sim_args [''-c'', ''m.aag''] sim_opts0 None None = Inr (check_opts, Some ''m.aag'', None)" "so_check check_opts"
  by code_simp+

lemma sim_files_stimulus: "sim_stimulus (se_files (sim_files m stim)) None = Some stim"
  by (simp add: sim_stimulus_def sim_files_def)

lemma toggle_check:
  "aigsim_main (sim_files toggle_file ''1\<newline>b0\<newline>0\<newline>\<newline>\<newline>.\<newline>'') [''-c'', ''m.aag''] = (SimDone (Some 0) [1, 2], [])"
  by code_simp

definition toggle :: aiger_private where
  "toggle = the (aiger_read_generic aiger_init toggle_file)"

lemma toggle_read: "aiger_read_generic aiger_init toggle_file = Some toggle"
  unfolding toggle_def by code_simp

lemma toggle_facts: "maxvar toggle = 1" "length (bad (move_outputs False toggle)) = 2"
  by code_simp+

lemma sim_files_read: "read_source (se_files (sim_files m stim)) (Some ''m.aag'') = aiger_read_generic aiger_init m"
proof -
  have "aiger_has_suffix ''m.aag'' ''.gz'' = False" by code_simp
  then show ?thesis by (simp add: read_source_def sim_files_def aiger_open_and_read_from_file_def aiger_error_def aiger_read_from_file_def)
qed

definition fair_demo :: aiger_private where
  "fair_demo = the (aiger_read_generic aiger_init fair_file)"

lemma fair_read: "aiger_read_generic aiger_init fair_file = Some fair_demo"
  unfolding fair_demo_def by code_simp

lemma fair_facts: "maxvar fair_demo = 2" "length (bad (move_outputs False fair_demo)) = 0" "length (justice (move_outputs False fair_demo)) = 1"
  by code_simp+

lemma fair_check:
  "aigsim_main (sim_files fair_file ''1\<newline>j0\<newline>0\<newline>1\<newline>1\<newline>.\<newline>'') [''-c'', ''m.aag''] = (SimDone (Some 0) [1], [])"
  by code_simp

lemma toggle_parts: "latches toggle = [(new_symbol 2 None)\<lparr>sym_next := 3\<rparr>]" "map sym_lit (outputs toggle) = [2, 3]" "ands toggle = []"
  by code_simp+

lemma toggle_runs: "run toggle \<tau> \<Longrightarrow> \<not> \<tau> 0 1"
  by (auto simp: run_def toggle_parts latch_init_def latch_next_def litval_def new_symbol_def symbol0_def)

lemma toggle_run: "run toggle (\<lambda>t v. v = 1 \<and> odd t)"
  by (auto simp: run_def toggle_parts latch_init_def latch_next_def litval_def new_symbol_def symbol0_def models_def)

lemma toggle_outputs: "(\<lambda>b. o_outputs (b 0)) ` behaviours toggle = {[False, True]}"
proof -
  have "o_outputs (observe toggle \<nu>) = [\<nu> 1, \<not> \<nu> 1]" for \<nu>
  proof -
    have "o_outputs (observe toggle \<nu>) = map (litval \<nu>) (map sym_lit (outputs toggle))" by (simp add: observe_def comp_def)
    then show ?thesis unfolding toggle_parts by (simp add: litval_def)
  qed
  then have o: "(\<lambda>b. o_outputs (b 0)) ` behaviours toggle = (\<lambda>\<tau>. [\<tau> (0 :: nat) 1, \<not> \<tau> 0 1]) ` Collect (run toggle)"
    by (simp add: behaviours_def image_image setcompr_eq_image)
  show ?thesis unfolding o using toggle_runs imageI [OF CollectI, of "run toggle", OF toggle_run, of "\<lambda>\<tau>. [\<tau> (0 :: nat) 1, \<not> \<tau> 0 1]"] by auto
qed

lemma toggle_trace: "snd (aigsim_main (sim_files toggle_file ''\<newline>.\<newline>'') [''m.aag'']) = ''0  10 1\<newline>Trace is a witness for: { b1 }\<newline>''"
  by code_simp

lemma aigsim_grounds:
  "fst (aigsim_main (sim_files not_file ''1\<newline>b0\<newline>\<newline>x\<newline>.\<newline>'') [''-c'', ''m.aag'']) = SimDone (Some 0) [1] \<and>
   fst (aigsim_main (sim_files not_file ''1\<newline>b0\<newline>\<newline>1\<newline>.\<newline>'') [''-c'', ''m.aag'']) = SimDone (Some 1) [1]"
  by code_simp

lemma aigsim_contradiction:
  "fst (aigsim_main (sim_files not_file ''1\<newline>b0\<newline>\<newline>0\<newline>.\<newline>0\<newline>b0\<newline>.\<newline>'') [''-c'', ''m.aag'']) = SimDone (Some 0) [0] \<and>
   fst (aigsim_main (sim_files not_file ''0\<newline>b0\<newline>.\<newline>1\<newline>b0\<newline>\<newline>0\<newline>.\<newline>'') [''-c'', ''m.aag'']) =
     SimStopped (Died ''Inconsistent results specified for b0'')"
  by code_simp

lemma aigsim_index_wraps:
  "fst (aigsim_main (sim_files not_file ''1\<newline>b4294967296\<newline>\<newline>0\<newline>.\<newline>'') [''-c'', ''m.aag'']) = SimDone (Some 0) [1]"
  by code_simp

lemma aigsim_empty_witness:
  "fst (aigsim_main (sim_files not_file []) [''-c'', ''m.aag'']) = SimDone None [2]"
  by code_simp

lemma aigsim_aborts:
  "fst (aigsim_main (sim_files not_file ''0c\<newline>.\<newline>'') [''m.aag'']) = SimStopped Aborted"
  by code_simp

text \<open>\<open>aigor\<close> does not compute the disjunction: on the structure with one input that is its only output, the result is the negation of the output.\<close>

lemma aigor_negates_wire:
  "\<exists>u. aigor_build wire = Some u \<and> behaviours u \<noteq> {} \<and>
     behaviours u \<subseteq> {b. \<forall>t. \<exists>x. o_inputs (b t) = [x] \<and> o_outputs (b t) = [\<not> x]}"
proof -
  have "maxvar wire + length (outputs wire) < 2147483648" by code_simp
  then obtain u where u: "aigor_build wire = Some u" "behaviours u = (\<lambda>b t. only or_outputs (b t)) ` behaviours wire"
    using aigor_builds [OF wire_portable] by blast
  have "\<exists>x. o_inputs (only or_outputs (b t)) = [x] \<and> o_outputs (only or_outputs (b t)) = [\<not> x]"
    if "b \<in> behaviours wire" for b t
    using wire_observed [OF that, of t] by (auto simp: only_def)
  with u wire_behaves show ?thesis by auto
qed

text \<open>
  Marks outlive the check. A client that rewires gates after a successful check, through the public
  arrays, gets no error for the cycle it closed: all gates are still marked.
\<close>

definition looped :: aiger_private where
  "looped = (the (Option.bind (foldm build_step [AddInput 2 None, AddAnd 4 2 2, AddAnd 6 4 2] aiger_init) aiger_check))
     \<lparr>ands := [\<lparr>and_lhs = 4, and_rhs0 = 6, and_rhs1 = 2\<rparr>, \<lparr>and_lhs = 6, and_rhs0 = 4, and_rhs1 = 2\<rparr>]\<rparr>"

lemma looped_facts: "wf_aiger looped" "error looped = None" "aiger_check looped \<noteq> None" "map_option error (aiger_check looped) = Some None"
proof -
  have "comments looped = [None]" "num_comments looped = 1" by code_simp+
  then have "wf_comments looped" by (simp add: wf_comments_def ok_name_def)
  moreover have "wf_types looped" "wf_lits looped" "wf_resets looped" "wf_names looped" by code_simp+
  ultimately show "wf_aiger looped" by (simp add: wf_aiger_def)
qed code_simp+

lemma stale_marks: "wf_aiger looped \<and> error looped = None \<and> all_defined looped \<and> \<not> acyclic (deps looped) \<and> (\<exists>q. aiger_check looped = Some q \<and> error q = None)"
proof -
  have g: "ands looped = [\<lparr>and_lhs = 4, and_rhs0 = 6, and_rhs1 = 2\<rparr>, \<lparr>and_lhs = 6, and_rhs0 = 4, and_rhs1 = 2\<rparr>]" by (simp add: looped_def)
  have d: "(and_lhs h div 2, and_rhs0 h div 2) \<in> deps looped" if "h \<in> set (ands looped)" "and_rhs0 h div 2 \<noteq> 0" for h
    using that unfolding deps_def by blast
  have "(2, 3) \<in> deps looped" "(3, 2) \<in> deps looped"
    using d [of "ands looped ! 0"] d [of "ands looped ! 1"] by (simp_all add: g)
  then have "(2, 2) \<in> (deps looped)\<^sup>+" by (rule trancl_trans [OF r_into_trancl r_into_trancl])
  then have "\<not> acyclic (deps looped)" unfolding acyclic_def by blast
  moreover have "all_defined looped" by code_simp
  ultimately show ?thesis using looped_facts by auto
qed

text \<open>
  A disk that is full when the stream is flushed: the stream accepted the text, \<open>fclose\<close> fails and
  leaves an empty file. \<open>aigstrip\<close> reports success and has removed the backup.
\<close>

lemma strip_loses:
  "map_option (\<lambda>x. (strip_code x, dir_files (strip_dir x) ''w.aag'', dir_files (strip_dir x) ''w.aag~''))
     (aigstrip_main ((strip_env wire)\<lparr>env_write := \<lambda>target. Some \<lparr>file_data = [], file_room = 100\<rparr>, env_close := \<lambda>target f. Plain []\<rparr>)
       (demo_dir ''w.aag'' (ascii_text wire)) [''w.aag'']) = Some (0, Some (Plain []), None)"
  by code_simp

end
