(* ===== verification/SimpAig.thy ===== *)
theory SimpAig
  imports AigerPrelude
begin

text \<open>
  The library \<open>simpaig\<close> of And-Inverter Graphs in memory (\<open>simpaig.c\<close>, \<open>simpaig.h\<close>): nodes on a heap with
  reference counts, shared through a hash table, with substitution, shifting in time, and Tseitin
  indices. A pointer carries the negation of a node in its lowest bit.
\<close>

section \<open>Nodes and the manager\<close>

text \<open>
  A pointer is a number, with 0 for \<open>NULL\<close>. The heap maps the addresses that are allocated to nodes;
  the node \<open>false_aig\<close> inside the manager has an address as well. A collision chain is the list of its
  nodes. \<open>malloc\<close> is a parameter: it sees how often it was called and which addresses are in use.
\<close>

type_synonym ptr = nat

record simpaig =
  sg_var :: ptr
  sg_slice :: int
  sg_c0 :: ptr
  sg_c1 :: ptr
  sg_ref :: uint
  sg_cache :: ptr
  sg_rhs :: ptr
  sg_idx :: uint

definition simpaig0 :: simpaig where
  "simpaig0 = \<lparr>sg_var = 0, sg_slice = 0, sg_c0 = 0, sg_c1 = 0, sg_ref = 0, sg_cache = 0, sg_rhs = 0, sg_idx = 0\<rparr>"

type_synonym sg_heap = "ptr \<Rightarrow> simpaig option"

record simpaigmgr =
  mg_malloc :: "nat \<Rightarrow> sg_heap \<Rightarrow> ptr"
  mg_calls :: nat
  mg_nodes :: sg_heap
  mg_false :: ptr
  mg_table :: "ptr list list"
  mg_count :: uint
  mg_cached :: "ptr list"
  mg_assigned :: "ptr list"
  mg_indices :: "ptr list"

definition NOT_ptr :: "ptr \<Rightarrow> ptr" where
  "NOT_ptr p = (if even p then p + 1 else p - 1)"

definition STRIP :: "ptr \<Rightarrow> ptr" where
  "STRIP p = 2 * (p div 2)"

definition SIGN :: "ptr \<Rightarrow> bool" where
  "SIGN p \<longleftrightarrow> odd p"

text \<open>An access through a pointer to no node is undefined behaviour, and has no result.\<close>

definition ISVAR :: "simpaigmgr \<Rightarrow> ptr \<Rightarrow> bool option" where
  "ISVAR m p = (if SIGN p then Some False else do { n \<leftarrow> mg_nodes m p; Some (sg_var n \<noteq> 0) })"

definition ISFALSE :: "simpaigmgr \<Rightarrow> ptr \<Rightarrow> bool option" where
  "ISFALSE m p = (if SIGN p then Some False else do { n \<leftarrow> mg_nodes m p; Some (sg_var n = 0 \<and> sg_c0 n = 0) })"

definition ISTRUE :: "simpaigmgr \<Rightarrow> ptr \<Rightarrow> bool option" where
  "ISTRUE m p = (if SIGN p then ISFALSE m (NOT_ptr p) else Some False)"

definition ISCONST :: "simpaigmgr \<Rightarrow> ptr \<Rightarrow> bool option" where
  "ISCONST m p = do { n \<leftarrow> mg_nodes m (STRIP p); Some (sg_var n = 0 \<and> sg_c0 n = 0) }"

definition ISAND :: "simpaigmgr \<Rightarrow> ptr \<Rightarrow> bool option" where
  "ISAND m p = (if SIGN p then Some False else do { n \<leftarrow> mg_nodes m p; Some (sg_c0 n \<noteq> 0) })"

definition IMPORT :: "simpaigmgr \<Rightarrow> ptr \<Rightarrow> ptr option" where
  "IMPORT m p = do { n \<leftarrow> mg_nodes m (STRIP p); _ \<leftarrow> assert_c (0 < sg_ref n); Some p }"

section \<open>Queries\<close>

definition simpaig_isfalse :: "simpaigmgr \<Rightarrow> ptr \<Rightarrow> bool option" where
  "simpaig_isfalse m aig = do { aig \<leftarrow> IMPORT m aig; ISFALSE m aig }"

definition simpaig_istrue :: "simpaigmgr \<Rightarrow> ptr \<Rightarrow> bool option" where
  "simpaig_istrue m aig = do { aig \<leftarrow> IMPORT m aig; ISFALSE m (NOT_ptr aig) }"

definition simpaig_signed :: "simpaigmgr \<Rightarrow> ptr \<Rightarrow> bool option" where
  "simpaig_signed m aig = do { aig \<leftarrow> IMPORT m aig; Some (SIGN aig) }"

definition simpaig_isvar :: "simpaigmgr \<Rightarrow> ptr \<Rightarrow> ptr option" where
  "simpaig_isvar m aig = do {
     tmp \<leftarrow> IMPORT m aig;
     v \<leftarrow> ISVAR m tmp;
     if v then do { n \<leftarrow> mg_nodes m tmp; Some (sg_var n) } else Some 0
   }"

definition simpaig_slice :: "simpaigmgr \<Rightarrow> ptr \<Rightarrow> int option" where
  "simpaig_slice m aig = do {
     tmp \<leftarrow> IMPORT m aig;
     v \<leftarrow> ISVAR m tmp;
     if v then do { n \<leftarrow> mg_nodes m aig; Some (sg_slice n) } else Some 0
   }"

definition simpaig_isand :: "simpaigmgr \<Rightarrow> ptr \<Rightarrow> bool option" where
  "simpaig_isand m aig = do {
     tmp \<leftarrow> IMPORT m aig;
     n \<leftarrow> mg_nodes m (STRIP tmp);
     Some (sg_var n = 0 \<and> sg_c0 n \<noteq> 0)
   }"

definition simpaig_strip :: "simpaigmgr \<Rightarrow> ptr \<Rightarrow> ptr option" where
  "simpaig_strip m aig = do { aig \<leftarrow> IMPORT m aig; Some (STRIP aig) }"

definition simpaig_not :: "simpaigmgr \<Rightarrow> ptr \<Rightarrow> ptr option" where
  "simpaig_not m aig = do { aig \<leftarrow> IMPORT m aig; Some (NOT_ptr aig) }"

definition simpaig_child :: "simpaigmgr \<Rightarrow> ptr \<Rightarrow> nat \<Rightarrow> ptr option" where
  "simpaig_child m aig child = do {
     let aig = STRIP aig;
     a \<leftarrow> ISAND m aig;
     _ \<leftarrow> assert_c a;
     _ \<leftarrow> assert_c (child = 0 \<or> child = 1);
     n \<leftarrow> mg_nodes m aig;
     Some (if child \<noteq> 0 then sg_c1 n else sg_c0 n)
   }"

definition simpaig_current_nodes :: "simpaigmgr \<Rightarrow> uint option" where
  "simpaig_current_nodes m = do { n \<leftarrow> mg_nodes m (mg_false m); Some (u32 (mg_count m + sg_ref n)) }"

section \<open>References and memory\<close>

definition simpaig_init_mem :: "(nat \<Rightarrow> sg_heap \<Rightarrow> ptr) \<Rightarrow> ptr \<Rightarrow> simpaigmgr" where
  "simpaig_init_mem malloc false_aig =
     \<lparr>mg_malloc = malloc, mg_calls = 0, mg_nodes = [false_aig \<mapsto> simpaig0], mg_false = false_aig, mg_table = [], mg_count = 0,
      mg_cached = [], mg_assigned = [], mg_indices = []\<rparr>"

text \<open>An assignment to a field of a node.\<close>

definition sg_update :: "(simpaig \<Rightarrow> simpaig) \<Rightarrow> ptr \<Rightarrow> simpaigmgr \<Rightarrow> simpaigmgr option" where
  "sg_update f a m = do { n \<leftarrow> mg_nodes m a; Some (m\<lparr>mg_nodes := (mg_nodes m)(a \<mapsto> f n)\<rparr>) }"

text \<open>\<open>NEW\<close>: the memory is cleared, so \<open>malloc\<close> must not fail.\<close>

definition sg_new :: "simpaigmgr \<Rightarrow> (ptr \<times> simpaigmgr) option" where
  "sg_new m =
     (let a = mg_malloc m (mg_calls m) (mg_nodes m) in
      if a = 0 then None
      else Some (a, m\<lparr>mg_calls := Suc (mg_calls m), mg_nodes := (mg_nodes m)(a \<mapsto> simpaig0)\<rparr>))"

definition sg_inc :: "ptr \<Rightarrow> simpaigmgr \<Rightarrow> simpaigmgr option" where
  "sg_inc res m = sg_update (\<lambda>n. if sg_ref n < 4294967295 then n\<lparr>sg_ref := sg_ref n + 1\<rparr> else n) (STRIP res) m"

definition simpaig_false :: "simpaigmgr \<Rightarrow> (ptr \<times> simpaigmgr) option" where
  "simpaig_false m = do { m \<leftarrow> sg_inc (mg_false m) m; Some (mg_false m, m) }"

definition simpaig_true :: "simpaigmgr \<Rightarrow> (ptr \<times> simpaigmgr) option" where
  "simpaig_true m = do { m \<leftarrow> sg_inc (mg_false m) m; Some (NOT_ptr (mg_false m), m) }"

definition simpaig_inc :: "simpaigmgr \<Rightarrow> ptr \<Rightarrow> (ptr \<times> simpaigmgr) option" where
  "simpaig_inc m res = do { res \<leftarrow> IMPORT m res; m \<leftarrow> sg_inc res m; Some (res, m) }"

section \<open>The hash table\<close>

definition simpaig_hash :: "nat \<Rightarrow> ptr \<Rightarrow> int \<Rightarrow> ptr \<Rightarrow> ptr \<Rightarrow> uint" where
  "simpaig_hash size_table var slice c0 c1 =
     (let res = u32 (1223683247 * u32 var);
          res = u32 (res + u32 (2221648459 * nat (slice mod 4294967296)));
          res = u32 (res + u32 (432586151 * u32 c0));
          res = u32 (res + u32 (3333529009 * u32 c1))
      in res AND u32 (size_table + 4294967295))"

definition table_push :: "nat \<Rightarrow> ptr \<Rightarrow> simpaigmgr \<Rightarrow> simpaigmgr option" where
  "table_push h p m = do {
     chain \<leftarrow> deref (mg_table m) h;
     Some (m\<lparr>mg_table := (mg_table m)[h := p # chain]\<rparr>)
   }"

definition simpaig_enlarge :: "simpaigmgr \<Rightarrow> simpaigmgr option" where
  "simpaig_enlarge m =
     (let old_table = mg_table m;
          size_table = (if old_table \<noteq> [] then u32 (2 * length old_table) else 1)
      in foldm (\<lambda>p m. do {
           n \<leftarrow> mg_nodes m p;
           table_push (simpaig_hash size_table (sg_var n) (sg_slice n) (sg_c0 n) (sg_c1 n)) p m
         }) (concat old_table) (m\<lparr>mg_table := replicate size_table []\<rparr>))"

fun find_chain :: "sg_heap \<Rightarrow> ptr \<Rightarrow> int \<Rightarrow> ptr \<Rightarrow> ptr \<Rightarrow> ptr list \<Rightarrow> ptr option option" where
  "find_chain nodes var slice c0 c1 [] = Some None"
| "find_chain nodes var slice c0 c1 (a # chain) = do {
     n \<leftarrow> nodes a;
     if sg_var n \<noteq> var \<or> sg_slice n \<noteq> slice \<or> sg_c0 n \<noteq> c0 \<or> sg_c1 n \<noteq> c1
     then find_chain nodes var slice c0 c1 chain
     else Some (Some a)
   }"

text \<open>The position that is found: its bucket, and the node there, or the end of the chain.\<close>

definition simpaig_find :: "simpaigmgr \<Rightarrow> ptr \<Rightarrow> int \<Rightarrow> ptr \<Rightarrow> ptr \<Rightarrow> (nat \<times> ptr option) option" where
  "simpaig_find m var slice c0 c1 = do {
     let h = simpaig_hash (length (mg_table m)) var slice c0 c1;
     chain \<leftarrow> deref (mg_table m) h;
     r \<leftarrow> find_chain (mg_nodes m) var slice c0 c1 chain;
     Some (h, r)
   }"

text \<open>A new node at the end of its chain, and a node that is cut out of it.\<close>

definition table_insert :: "nat \<Rightarrow> ptr \<Rightarrow> simpaigmgr \<Rightarrow> simpaigmgr option" where
  "table_insert h res m = do {
     chain \<leftarrow> deref (mg_table m) h;
     Some (m\<lparr>mg_count := u32 (mg_count m + 1), mg_table := (mg_table m)[h := chain @ [res]]\<rparr>)
   }"

definition table_remove :: "nat \<Rightarrow> ptr \<Rightarrow> simpaigmgr \<Rightarrow> simpaigmgr option" where
  "table_remove h aig m = do {
     chain \<leftarrow> deref (mg_table m) h;
     Some (m\<lparr>mg_table := (mg_table m)[h := remove1 aig chain]\<rparr>)
   }"

partial_function (option) sg_dec :: "simpaigmgr \<Rightarrow> ptr \<Rightarrow> simpaigmgr option" where
  "sg_dec m p = do {
     let aig = STRIP p;
     _ \<leftarrow> assert_c (aig \<noteq> 0);
     n \<leftarrow> mg_nodes m aig;
     _ \<leftarrow> assert_c (0 < sg_ref n);
     m \<leftarrow> sg_update (\<lambda>n. if sg_ref n < 4294967295 then n\<lparr>sg_ref := sg_ref n - 1\<rparr> else n) aig m;
     n \<leftarrow> mg_nodes m aig;
     if sg_ref n \<noteq> 0 then Some m
     else do {
       false \<leftarrow> ISFALSE m aig;
       if false then Some m
       else do {
         m \<leftarrow> (if sg_c0 n \<noteq> 0 then do { m \<leftarrow> sg_dec m (sg_c0 n); sg_dec m (sg_c1 n) } else Some m);
         (h, q) \<leftarrow> simpaig_find m (sg_var n) (sg_slice n) (sg_c0 n) (sg_c1 n);
         (h, q) \<leftarrow> (if q \<noteq> Some aig then simpaig_find m (sg_var n) (sg_slice n) (sg_c1 n) (sg_c0 n) else Some (h, q));
         _ \<leftarrow> assert_c (q = Some aig);
         m \<leftarrow> table_remove h aig m;
         _ \<leftarrow> assert_c (0 < mg_count m);
         Some (m\<lparr>mg_nodes := (mg_nodes m)(aig := None), mg_count := mg_count m - 1\<rparr>)
       }
     }
   }"

declare sg_dec.simps [code]

definition simpaig_dec :: "simpaigmgr \<Rightarrow> ptr \<Rightarrow> simpaigmgr option" where
  "simpaig_dec m res = do { res \<leftarrow> IMPORT m res; sg_dec m res }"

text \<open>\<open>simpaig_reset\<close> frees the nodes of the first \<open>count_table\<close> buckets; what is left on the heap leaks.\<close>

definition simpaig_reset :: "simpaigmgr \<Rightarrow> sg_heap option" where
  "simpaig_reset m =
     foldm (\<lambda>i nodes. do {
       chain \<leftarrow> deref (mg_table m) i;
       foldm (\<lambda>p nodes. do { _ \<leftarrow> nodes p; Some (nodes(p := None)) }) chain nodes
     }) [0..<mg_count m] (mg_nodes m)"

section \<open>Constructors\<close>

definition simpaig_var :: "simpaigmgr \<Rightarrow> ptr \<Rightarrow> int \<Rightarrow> (ptr \<times> simpaigmgr) option" where
  "simpaig_var m var slice = do {
     _ \<leftarrow> assert_c (var \<noteq> 0);
     m \<leftarrow> (if length (mg_table m) = mg_count m then simpaig_enlarge m else Some m);
     (h, p) \<leftarrow> simpaig_find m var slice 0 0;
     (res, m) \<leftarrow>
       (case p of
          Some res \<Rightarrow> Some (res, m)
        | None \<Rightarrow> do {
            (res, m) \<leftarrow> sg_new m;
            m \<leftarrow> sg_update (\<lambda>n. n\<lparr>sg_var := var, sg_slice := slice\<rparr>) res m;
            m \<leftarrow> table_insert h res m;
            Some (res, m)
          });
     m \<leftarrow> sg_inc res m;
     Some (res, m)
   }"

definition simpaig_and :: "simpaigmgr \<Rightarrow> ptr \<Rightarrow> ptr \<Rightarrow> (ptr \<times> simpaigmgr) option" where
  "simpaig_and m c0 c1 = do {
     f0 \<leftarrow> ISFALSE m c0;
     f1 \<leftarrow> (if f0 then Some True else ISFALSE m c1);
     if f1 \<or> c0 = NOT_ptr c1 then simpaig_false m
     else do {
       t0 \<leftarrow> ISTRUE m c0;
       if t0 \<or> c0 = c1 then do { m \<leftarrow> sg_inc c1 m; Some (c1, m) }
       else do {
         t1 \<leftarrow> ISTRUE m c1;
         if t1 then do { m \<leftarrow> sg_inc c0 m; Some (c0, m) }
         else do {
           m \<leftarrow> (if length (mg_table m) = mg_count m then simpaig_enlarge m else Some m);
           (h, p) \<leftarrow> simpaig_find m 0 0 c1 c0;
           (res, m) \<leftarrow>
             (case p of
                Some res \<Rightarrow> Some (res, m)
              | None \<Rightarrow> do {
                  (h, p) \<leftarrow> simpaig_find m 0 0 c0 c1;
                  (case p of
                     Some res \<Rightarrow> Some (res, m)
                   | None \<Rightarrow> do {
                       (res, m) \<leftarrow> sg_new m;
                       m \<leftarrow> sg_inc c0 m;
                       m \<leftarrow> sg_update (\<lambda>n. n\<lparr>sg_c0 := c0\<rparr>) res m;
                       m \<leftarrow> sg_inc c1 m;
                       m \<leftarrow> sg_update (\<lambda>n. n\<lparr>sg_c1 := c1\<rparr>) res m;
                       m \<leftarrow> table_insert h res m;
                       Some (res, m)
                     })
                });
           m \<leftarrow> sg_inc res m;
           Some (res, m)
         }
       }
     }
   }"

definition simpaig_or :: "simpaigmgr \<Rightarrow> ptr \<Rightarrow> ptr \<Rightarrow> (ptr \<times> simpaigmgr) option" where
  "simpaig_or m a b = do { (res, m) \<leftarrow> simpaig_and m (NOT_ptr a) (NOT_ptr b); Some (NOT_ptr res, m) }"

definition simpaig_implies :: "simpaigmgr \<Rightarrow> ptr \<Rightarrow> ptr \<Rightarrow> (ptr \<times> simpaigmgr) option" where
  "simpaig_implies m a b = do { (res, m) \<leftarrow> simpaig_and m a (NOT_ptr b); Some (NOT_ptr res, m) }"

definition simpaig_xor :: "simpaigmgr \<Rightarrow> ptr \<Rightarrow> ptr \<Rightarrow> (ptr \<times> simpaigmgr) option" where
  "simpaig_xor m a b = do {
     (l, m) \<leftarrow> simpaig_or m a b;
     (r, m) \<leftarrow> simpaig_or m (NOT_ptr a) (NOT_ptr b);
     (res, m) \<leftarrow> simpaig_and m l r;
     m \<leftarrow> sg_dec m l;
     m \<leftarrow> sg_dec m r;
     Some (res, m)
   }"

definition simpaig_xnor :: "simpaigmgr \<Rightarrow> ptr \<Rightarrow> ptr \<Rightarrow> (ptr \<times> simpaigmgr) option" where
  "simpaig_xnor m a b = simpaig_xor m a (NOT_ptr b)"

definition simpaig_ite :: "simpaigmgr \<Rightarrow> ptr \<Rightarrow> ptr \<Rightarrow> ptr \<Rightarrow> (ptr \<times> simpaigmgr) option" where
  "simpaig_ite m c t e = do {
     (l, m) \<leftarrow> simpaig_implies m c t;
     (r, m) \<leftarrow> simpaig_implies m (NOT_ptr c) e;
     (res, m) \<leftarrow> simpaig_and m l r;
     m \<leftarrow> sg_dec m l;
     m \<leftarrow> sg_dec m r;
     Some (res, m)
   }"

section \<open>Substitution and shifting\<close>

definition simpaig_assign :: "simpaigmgr \<Rightarrow> ptr \<Rightarrow> ptr \<Rightarrow> simpaigmgr option" where
  "simpaig_assign m lhs rhs = do {
     lhs \<leftarrow> IMPORT m lhs;
     rhs \<leftarrow> IMPORT m rhs;
     v \<leftarrow> ISVAR m lhs;
     _ \<leftarrow> assert_c v;
     n \<leftarrow> mg_nodes m lhs;
     _ \<leftarrow> assert_c (sg_rhs n = 0);
     _ \<leftarrow> assert_c (sg_cache n = 0);
     m \<leftarrow> sg_inc lhs m;
     m \<leftarrow> sg_inc rhs m;
     m \<leftarrow> sg_update (\<lambda>n. n\<lparr>sg_rhs := rhs\<rparr>) lhs m;
     Some (m\<lparr>mg_assigned := mg_assigned m @ [lhs]\<rparr>)
   }"

definition simpaig_reset_assignment :: "simpaigmgr \<Rightarrow> simpaigmgr option" where
  "simpaig_reset_assignment m = do {
     m \<leftarrow> foldm (\<lambda>aig m. do {
       n \<leftarrow> mg_nodes m aig;
       _ \<leftarrow> assert_c (sg_rhs n \<noteq> 0);
       m \<leftarrow> sg_dec m (sg_rhs n);
       m \<leftarrow> sg_update (\<lambda>n. n\<lparr>sg_rhs := 0\<rparr>) aig m;
       sg_dec m aig
     }) (mg_assigned m) m;
     Some (m\<lparr>mg_assigned := []\<rparr>)
   }"

definition simpaig_cache :: "simpaigmgr \<Rightarrow> ptr \<Rightarrow> ptr \<Rightarrow> simpaigmgr option" where
  "simpaig_cache m lhs rhs = do {
     _ \<leftarrow> assert_c (\<not> SIGN lhs);
     n \<leftarrow> mg_nodes m lhs;
     _ \<leftarrow> assert_c (sg_cache n = 0);
     m \<leftarrow> sg_inc lhs m;
     m \<leftarrow> sg_inc rhs m;
     m \<leftarrow> sg_update (\<lambda>n. n\<lparr>sg_cache := rhs\<rparr>) lhs m;
     Some (m\<lparr>mg_cached := mg_cached m @ [lhs]\<rparr>)
   }"

definition simpaig_reset_cache :: "simpaigmgr \<Rightarrow> simpaigmgr option" where
  "simpaig_reset_cache m = do {
     m \<leftarrow> foldm (\<lambda>aig m. do {
       _ \<leftarrow> assert_c (aig \<noteq> 0 \<and> \<not> SIGN aig);
       n \<leftarrow> mg_nodes m aig;
       _ \<leftarrow> assert_c (sg_cache n \<noteq> 0);
       m \<leftarrow> sg_dec m (sg_cache n);
       m \<leftarrow> sg_update (\<lambda>n. n\<lparr>sg_cache := 0\<rparr>) aig m;
       sg_dec m aig
     }) (mg_cached m) m;
     Some (m\<lparr>mg_cached := []\<rparr>)
   }"

partial_function (option) simpaig_substitute_rec :: "simpaigmgr \<Rightarrow> ptr \<Rightarrow> (ptr \<times> simpaigmgr) option" where
  "simpaig_substitute_rec m p = do {
     let node = (if SIGN p then NOT_ptr p else p);
     n \<leftarrow> mg_nodes m node;
     (res, m) \<leftarrow>
       (if sg_cache n \<noteq> 0 then do { m \<leftarrow> sg_inc (sg_cache n) m; Some (sg_cache n, m) }
        else do {
          v \<leftarrow> ISVAR m node;
          (res, m) \<leftarrow>
            (if v then
               if sg_rhs n \<noteq> 0 then do {
                 c \<leftarrow> ISCONST m (sg_rhs n);
                 if c then simpaig_inc m (sg_rhs n) else simpaig_substitute_rec m (sg_rhs n)
               } else do { m \<leftarrow> sg_inc node m; Some (node, m) }
             else do {
               (l, m) \<leftarrow> simpaig_substitute_rec m (sg_c0 n);
               (r, m) \<leftarrow> simpaig_substitute_rec m (sg_c1 n);
               (res, m) \<leftarrow> simpaig_and m l r;
               m \<leftarrow> sg_dec m l;
               m \<leftarrow> sg_dec m r;
               Some (res, m)
             });
          m \<leftarrow> simpaig_cache m node res;
          Some (res, m)
        });
     Some (if SIGN p then NOT_ptr res else res, m)
   }"

declare simpaig_substitute_rec.simps [code]

definition simpaig_substitute :: "simpaigmgr \<Rightarrow> ptr \<Rightarrow> (ptr \<times> simpaigmgr) option" where
  "simpaig_substitute m node = do {
     node \<leftarrow> IMPORT m node;
     c \<leftarrow> ISCONST m node;
     (res, m) \<leftarrow>
       (if \<not> c then do {
          _ \<leftarrow> assert_c (mg_cached m = []);
          (res, m) \<leftarrow> simpaig_substitute_rec m node;
          m \<leftarrow> simpaig_reset_cache m;
          Some (res, m)
        } else do { m \<leftarrow> sg_inc node m; Some (node, m) });
     m \<leftarrow> simpaig_reset_assignment m;
     Some (res, m)
   }"

text \<open>The array \<open>a\<close> is passed and returned.\<close>

fun substitute_all :: "ptr list \<Rightarrow> simpaigmgr \<Rightarrow> (ptr list \<times> simpaigmgr) option" where
  "substitute_all [] m = Some ([], m)"
| "substitute_all (node # a) m = do {
     node \<leftarrow> IMPORT m node;
     c \<leftarrow> ISCONST m node;
     (res, m) \<leftarrow> (if c then do { m \<leftarrow> sg_inc node m; Some (node, m) } else simpaig_substitute_rec m node);
     m \<leftarrow> sg_dec m node;
     (a, m) \<leftarrow> substitute_all a m;
     Some (res # a, m)
   }"

definition simpaig_substitute_parallel :: "simpaigmgr \<Rightarrow> ptr list \<Rightarrow> (ptr list \<times> simpaigmgr) option" where
  "simpaig_substitute_parallel m a = do {
     _ \<leftarrow> assert_c (mg_cached m = []);
     (a, m) \<leftarrow> substitute_all a m;
     m \<leftarrow> simpaig_reset_cache m;
     m \<leftarrow> simpaig_reset_assignment m;
     Some (a, m)
   }"

text \<open>A slice is an \<open>int\<close>: leaving its range is undefined behaviour.\<close>

definition add_int :: "int \<Rightarrow> int \<Rightarrow> int option" where
  "add_int i j = (if - 2147483648 \<le> i + j \<and> i + j < 2147483648 then Some (i + j) else None)"

partial_function (option) simpaig_shift_rec :: "simpaigmgr \<Rightarrow> ptr \<Rightarrow> int \<Rightarrow> (ptr \<times> simpaigmgr) option" where
  "simpaig_shift_rec m p delta = do {
     let node = (if SIGN p then NOT_ptr p else p);
     n \<leftarrow> mg_nodes m node;
     (res, m) \<leftarrow>
       (if sg_cache n \<noteq> 0 then do { m \<leftarrow> sg_inc (sg_cache n) m; Some (sg_cache n, m) }
        else do {
          v \<leftarrow> ISVAR m node;
          (res, m) \<leftarrow>
            (if v then do { s \<leftarrow> add_int (sg_slice n) delta; simpaig_var m (sg_var n) s }
             else do {
               (l, m) \<leftarrow> simpaig_shift_rec m (sg_c0 n) delta;
               (r, m) \<leftarrow> simpaig_shift_rec m (sg_c1 n) delta;
               (res, m) \<leftarrow> simpaig_and m l r;
               m \<leftarrow> sg_dec m l;
               m \<leftarrow> sg_dec m r;
               Some (res, m)
             });
          m \<leftarrow> simpaig_cache m node res;
          Some (res, m)
        });
     Some (if SIGN p then NOT_ptr res else res, m)
   }"

declare simpaig_shift_rec.simps [code]

definition simpaig_shift :: "simpaigmgr \<Rightarrow> ptr \<Rightarrow> int \<Rightarrow> (ptr \<times> simpaigmgr) option" where
  "simpaig_shift m node delta = do {
     node \<leftarrow> IMPORT m node;
     c \<leftarrow> ISCONST m node;
     if c then do { m \<leftarrow> sg_inc node m; Some (node, m) }
     else do {
       _ \<leftarrow> assert_c (mg_cached m = []);
       (res, m) \<leftarrow> simpaig_shift_rec m node delta;
       m \<leftarrow> simpaig_reset_cache m;
       Some (res, m)
     }
   }"

section \<open>Tseitin indices\<close>

definition simpaig_push_index :: "simpaigmgr \<Rightarrow> ptr \<Rightarrow> simpaigmgr option" where
  "simpaig_push_index m node = do {
     _ \<leftarrow> assert_c (\<not> SIGN node);
     false \<leftarrow> ISFALSE m node;
     _ \<leftarrow> assert_c (\<not> false);
     n \<leftarrow> mg_nodes m node;
     _ \<leftarrow> assert_c (sg_idx n = 0);
     let m = m\<lparr>mg_indices := mg_indices m @ [node]\<rparr>;
     let idx = u32 (length (mg_indices m));
     m \<leftarrow> sg_update (\<lambda>n. n\<lparr>sg_idx := idx\<rparr>) node m;
     _ \<leftarrow> assert_c (idx \<noteq> 0);
     sg_inc node m
   }"

partial_function (option) simpaig_assign_indices_rec :: "simpaigmgr \<Rightarrow> ptr \<Rightarrow> simpaigmgr option" where
  "simpaig_assign_indices_rec m p = do {
     let node = STRIP p;
     n \<leftarrow> mg_nodes m node;
     if sg_idx n \<noteq> 0 then Some m
     else do {
       v \<leftarrow> ISVAR m node;
       m \<leftarrow> (if \<not> v then do { m \<leftarrow> simpaig_assign_indices_rec m (sg_c0 n); simpaig_assign_indices_rec m (sg_c1 n) } else Some m);
       simpaig_push_index m node
     }
   }"

declare simpaig_assign_indices_rec.simps [code]

definition simpaig_assign_indices :: "simpaigmgr \<Rightarrow> ptr \<Rightarrow> simpaigmgr option" where
  "simpaig_assign_indices m node = do {
     c \<leftarrow> ISCONST m node;
     if \<not> c then simpaig_assign_indices_rec m node else Some m
   }"

definition simpaig_reset_indices :: "simpaigmgr \<Rightarrow> simpaigmgr option" where
  "simpaig_reset_indices m = do {
     m \<leftarrow> foldm (\<lambda>aig m. do {
       _ \<leftarrow> assert_c (aig \<noteq> 0 \<and> \<not> SIGN aig);
       n \<leftarrow> mg_nodes m aig;
       _ \<leftarrow> assert_c (sg_idx n \<noteq> 0);
       m \<leftarrow> sg_update (\<lambda>n. n\<lparr>sg_idx := 0\<rparr>) aig m;
       sg_dec m aig
     }) (mg_indices m) m;
     Some (m\<lparr>mg_indices := []\<rparr>)
   }"

definition simpaig_index :: "simpaigmgr \<Rightarrow> ptr \<Rightarrow> uint option" where
  "simpaig_index m node = do {
     _ \<leftarrow> assert_c (\<not> SIGN node);
     n \<leftarrow> mg_nodes m node;
     Some (sg_idx n)
   }"

definition simpaig_max_index :: "simpaigmgr \<Rightarrow> uint" where
  "simpaig_max_index m = u32 (length (mg_indices m))"

text \<open>The unsigned sum is converted to an \<open>int\<close>, which wraps; negating the least \<open>int\<close> is undefined.\<close>

definition simpaig_int_index :: "simpaigmgr \<Rightarrow> ptr \<Rightarrow> int option" where
  "simpaig_int_index m node = do {
     idx \<leftarrow> simpaig_index m (STRIP node);
     let res = int (u32 (idx + 1));
     let res = (if res < 2147483648 then res else res - 4294967296);
     if SIGN node \<and> res = - 2147483648 then None else Some (if SIGN node then - res else res)
   }"

definition simpaig_unsigned_index :: "simpaigmgr \<Rightarrow> ptr \<Rightarrow> uint option" where
  "simpaig_unsigned_index m node = do {
     idx \<leftarrow> simpaig_index m (STRIP node);
     Some (u32 (2 * idx) OR (if SIGN node then 1 else 0))
   }"

end
