(* ===== verification/SimpAigHeap.thy ===== *)
theory SimpAigHeap
  imports SimpAig
begin

text \<open>
  The invariant of \<open>simpaig\<close>: what a pointer denotes, that every node on the heap is referenced as often
  as its counter says, and that the hash table holds every node once. Taking and giving origin references
  keep it; giving origin the last one frees exactly the nodes that nothing refers to any more.
\<close>

section \<open>Pointers\<close>

lemma ptr_simps [simp]:
  "STRIP (NOT_ptr p) = STRIP p" "NOT_ptr (NOT_ptr p) = p" "SIGN (NOT_ptr p) \<longleftrightarrow> \<not> SIGN p" "\<not> SIGN (STRIP p)"
  "STRIP (STRIP p) = STRIP p" "even (STRIP p)" "NOT_ptr p \<noteq> p" "p \<noteq> NOT_ptr p" "NOT_ptr p = NOT_ptr q \<longleftrightarrow> p = q"
proof -
  show "STRIP (NOT_ptr p) = STRIP p" unfolding STRIP_def NOT_ptr_def by (cases "even p") (auto elim!: evenE oddE)
  show "NOT_ptr (NOT_ptr p) = p" unfolding NOT_ptr_def by (cases "even p") (auto elim!: oddE)
  then show "NOT_ptr p = NOT_ptr q \<longleftrightarrow> p = q" unfolding NOT_ptr_def by (auto elim!: evenE oddE split: if_splits) presburger+
qed (auto simp: STRIP_def SIGN_def NOT_ptr_def elim!: evenE oddE)

lemma even_not [simp]: "even (NOT_ptr p) \<longleftrightarrow> odd p"
  by (auto simp: NOT_ptr_def)

lemma strip_even: "even p \<Longrightarrow> STRIP p = p" "\<not> SIGN p \<Longrightarrow> STRIP p = p"
  by (auto simp: STRIP_def SIGN_def)

lemma not_strip: "SIGN p \<Longrightarrow> NOT_ptr p = STRIP p"
  by (auto simp: STRIP_def SIGN_def NOT_ptr_def elim!: oddE)

lemma strip_eq_iff: "STRIP p = STRIP q \<longleftrightarrow> p = q \<or> p = NOT_ptr q"
proof -
  have "p div 2 = q div 2 \<longleftrightarrow> p = q \<or> p = (if even q then q + 1 else q - 1)"
  proof (cases "even q")
    case True
    then obtain k where "q = 2 * k" by (auto elim: evenE)
    then show ?thesis by auto
  next
    case False
    then obtain k where "q = 2 * k + 1" by (auto elim: oddE)
    then show ?thesis by auto
  qed
  then show ?thesis by (simp add: STRIP_def NOT_ptr_def)
qed

lemma strip_zero [simp]: "STRIP 0 = 0"
  by (simp add: STRIP_def)

lemma unsigned_cases: "\<not> SIGN p \<Longrightarrow> \<not> SIGN q \<Longrightarrow> p = NOT_ptr q \<longleftrightarrow> False"
  by auto

section \<open>What a pointer denotes\<close>

text \<open>The graph below a pointer, with the addresses of its nodes, as a tree.\<close>

datatype ptree = PFalse ptr | PVar ptr ptr int | PAnd ptr ptree ptree | PNot ptree

primrec root :: "ptree \<Rightarrow> ptr" where
  "root (PFalse a) = a"
| "root (PVar a v s) = a"
| "root (PAnd a t u) = a"
| "root (PNot t) = NOT_ptr (root t)"

primrec pval :: "(ptr \<Rightarrow> int \<Rightarrow> bool) \<Rightarrow> ptree \<Rightarrow> bool" where
  "pval \<rho> (PFalse a) \<longleftrightarrow> False"
| "pval \<rho> (PVar a v s) \<longleftrightarrow> \<rho> v s"
| "pval \<rho> (PAnd a t u) \<longleftrightarrow> pval \<rho> t \<and> pval \<rho> u"
| "pval \<rho> (PNot t) \<longleftrightarrow> \<not> pval \<rho> t"

primrec tree_vars :: "ptree \<Rightarrow> (ptr \<times> int) set" where
  "tree_vars (PFalse a) = {}"
| "tree_vars (PVar a v s) = {(v, s)}"
| "tree_vars (PAnd a t u) = tree_vars t \<union> tree_vars u"
| "tree_vars (PNot t) = tree_vars t"

primrec addrs :: "ptree \<Rightarrow> ptr set" where
  "addrs (PFalse a) = {a}"
| "addrs (PVar a v s) = {a}"
| "addrs (PAnd a t u) = insert a (addrs t \<union> addrs u)"
| "addrs (PNot t) = addrs t"

definition sg_key :: "simpaig \<Rightarrow> ptr \<times> int \<times> ptr \<times> ptr" where
  "sg_key n = (sg_var n, sg_slice n, sg_c0 n, sg_c1 n)"

primrec reads :: "simpaigmgr \<Rightarrow> ptree \<Rightarrow> bool" where
  "reads m (PFalse a) \<longleftrightarrow> a = mg_false m \<and> even a \<and> map_option sg_key (mg_nodes m a) = Some (0, 0, 0, 0)"
| "reads m (PVar a v s) \<longleftrightarrow> even a \<and> v \<noteq> 0 \<and> map_option sg_key (mg_nodes m a) = Some (v, s, 0, 0)"
| "reads m (PAnd a t u) \<longleftrightarrow>
     even a \<and> map_option sg_key (mg_nodes m a) = Some (0, 0, root t, root u) \<and> STRIP (root t) \<noteq> 0 \<and> reads m t \<and> reads m u"
| "reads m (PNot t) \<longleftrightarrow> \<not> SIGN (root t) \<and> reads m t"

lemma strip_nonzero: "STRIP p \<noteq> 0 \<Longrightarrow> p \<noteq> 0"
  by (auto simp: STRIP_def)

lemma reads_unique: "reads m t \<Longrightarrow> reads m u \<Longrightarrow> root t = root u \<Longrightarrow> t = u"
proof (induction t arbitrary: u)
  case (PFalse a)
  then show ?case by (cases u) (auto simp: SIGN_def)
next
  case (PVar a v s)
  then show ?case by (cases u) (auto simp: SIGN_def)
next
  case (PAnd a t t')
  then have "root t \<noteq> 0" using strip_nonzero by simp
  show ?case
  proof (cases u)
    case (PAnd b w w')
    have "root t = root w" "root t' = root w'" using PAnd PAnd.prems by auto
    then have "t = w" "t' = w'" using PAnd PAnd.prems PAnd.IH by simp_all
    then show ?thesis using PAnd PAnd.prems by simp
  qed (use PAnd.prems \<open>root t \<noteq> 0\<close> in \<open>auto simp: SIGN_def\<close>)
next
  case (PNot t)
  have "odd (root u)" using PNot.prems(1,3) by (auto simp: SIGN_def dest: arg_cong [of _ _ odd])
  show ?case
  proof (cases u)
    case (PNot w)
    then have "t = w" by (intro PNot.IH) (use PNot.prems in simp_all)
    with PNot show ?thesis by simp
  qed (use PNot.prems \<open>odd (root u)\<close> in auto)
qed

text \<open>Negation of a tree.\<close>

fun pnot :: "ptree \<Rightarrow> ptree" where
  "pnot (PNot t) = t"
| "pnot t = PNot t"

lemma pnot_simps [simp]:
  "root (pnot t) = NOT_ptr (root t)" "pval \<rho> (pnot t) \<longleftrightarrow> \<not> pval \<rho> t" "tree_vars (pnot t) = tree_vars t" "addrs (pnot t) = addrs t"
  by (cases t; simp)+

lemma reads_root: "reads m t \<Longrightarrow> SIGN (root t) \<longleftrightarrow> (\<exists>u. t = PNot u)"
  by (cases t) (auto simp: SIGN_def)

lemma reads_pnot [simp]: "reads m t \<Longrightarrow> reads m (pnot t)"
  using reads_root [of m t] by (cases t) (auto simp: SIGN_def)

lemma reads_addrs: "reads m t \<Longrightarrow> STRIP (root t) \<in> addrs t" "reads m t \<Longrightarrow> a \<in> addrs t \<Longrightarrow> a \<in> dom (mg_nodes m)"
proof -
  show "reads m t \<Longrightarrow> STRIP (root t) \<in> addrs t" by (induction t) (auto simp: strip_even)
  show "reads m t \<Longrightarrow> a \<in> addrs t \<Longrightarrow> a \<in> dom (mg_nodes m)" by (induction t) auto
qed

lemma reads_dom: "reads m t \<Longrightarrow> STRIP (root t) \<in> dom (mg_nodes m)"
  using reads_addrs by blast

definition same_key :: "simpaigmgr \<Rightarrow> simpaigmgr \<Rightarrow> ptr \<Rightarrow> bool" where
  "same_key m m' a \<longleftrightarrow> map_option sg_key (mg_nodes m' a) = map_option sg_key (mg_nodes m a)"

lemma reads_frame:
  "reads m t \<Longrightarrow> mg_false m' = mg_false m \<Longrightarrow> (\<And>a. a \<in> addrs t \<Longrightarrow> same_key m m' a) \<Longrightarrow> reads m' t"
  by (induction t) (auto simp: same_key_def)

lemma reads_addr_even: "reads m t \<Longrightarrow> a \<in> addrs t \<Longrightarrow> even a"
  by (induction t) auto

section \<open>The invariant\<close>

text \<open>
  \<open>R\<close> is the multiset of the references that are held outside of the heap. \<open>Z\<close> are the nodes that \<open>dec\<close>
  is about to delete: they are still in the table, but their references to children are gone.
\<close>

definition edges :: "simpaig \<Rightarrow> ptr \<Rightarrow> nat" where
  "edges n a = (if STRIP (sg_c0 n) = a then 1 else 0) + (if STRIP (sg_c1 n) = a then 1 else 0)"

definition degree :: "simpaigmgr \<Rightarrow> ptr set \<Rightarrow> ptr \<Rightarrow> nat" where
  "degree m Z a = (\<Sum>b \<in> dom (mg_nodes m) - Z. edges (the (mg_nodes m b)) a)"

definition refs_held :: "ptr multiset \<Rightarrow> ptr \<Rightarrow> nat" where
  "refs_held R a = count (image_mset STRIP R) a"

lemma held_simps [simp]: "refs_held {#} a = 0" "refs_held (add_mset p R) a = (if STRIP p = a then 1 else 0) + refs_held R a" "refs_held (R + S) a = refs_held R a + refs_held S a"
  by (auto simp: refs_held_def)

lemma held_pos: "0 < refs_held R a \<longleftrightarrow> (\<exists>p \<in># R. STRIP p = a)"
proof -
  have "0 < refs_held R a \<longleftrightarrow> a \<in># image_mset STRIP R" unfolding refs_held_def by (simp only: count_greater_zero_iff)
  then show ?thesis by auto
qed

definition gate_node :: "ptr \<Rightarrow> simpaig \<Rightarrow> bool" where
  "gate_node f n \<longleftrightarrow>
     sg_var n = 0 \<and> sg_slice n = 0 \<and> STRIP (sg_c0 n) \<noteq> 0 \<and> STRIP (sg_c1 n) \<noteq> 0 \<and> STRIP (sg_c0 n) \<noteq> STRIP (sg_c1 n) \<and>
     STRIP (sg_c0 n) \<noteq> f \<and> STRIP (sg_c1 n) \<noteq> f"

definition var_node :: "simpaig \<Rightarrow> bool" where
  "var_node n \<longleftrightarrow> sg_var n \<noteq> 0 \<and> sg_c0 n = 0 \<and> sg_c1 n = 0"

text \<open>Two nodes for the same variable, or for a conjunction of the same operands.\<close>

definition same_gate :: "simpaig \<Rightarrow> simpaig \<Rightarrow> bool" where
  "same_gate n k \<longleftrightarrow> sg_var n = sg_var k \<and> sg_slice n = sg_slice k \<and>
     (sg_c0 n = sg_c0 k \<and> sg_c1 n = sg_c1 k \<or> sg_c0 n = sg_c1 k \<and> sg_c1 n = sg_c0 k)"

lemma same_gate_sym: "same_gate n k \<longleftrightarrow> same_gate k n"
  by (auto simp: same_gate_def)

definition graph_ok :: "simpaigmgr \<Rightarrow> ptr set \<Rightarrow> bool" where
  "graph_ok m Z \<longleftrightarrow>
     finite (dom (mg_nodes m)) \<and> Z \<subseteq> dom (mg_nodes m) - {mg_false m} \<and>
     reads m (PFalse (mg_false m)) \<and>
     (\<forall>a n. mg_nodes m a = Some n \<longrightarrow> even a \<and> a \<noteq> 0) \<and>
     (\<forall>a n. mg_nodes m a = Some n \<longrightarrow> a \<noteq> mg_false m \<longrightarrow> gate_node (mg_false m) n \<or> var_node n) \<and>
     (\<forall>a n. mg_nodes m a = Some n \<longrightarrow> a \<noteq> mg_false m \<longrightarrow> a \<notin> Z \<longrightarrow> sg_var n = 0 \<longrightarrow>
        STRIP (sg_c0 n) \<in> dom (mg_nodes m) - Z \<and> STRIP (sg_c1 n) \<in> dom (mg_nodes m) - Z) \<and>
     (\<forall>a \<in> dom (mg_nodes m) - Z. \<exists>t. reads m t \<and> root t = a) \<and>
     (\<forall>a b n k. mg_nodes m a = Some n \<longrightarrow> mg_nodes m b = Some k \<longrightarrow> a \<noteq> mg_false m \<longrightarrow> b \<noteq> mg_false m \<longrightarrow> same_gate n k \<longrightarrow> a = b)"

definition counts_ok :: "simpaigmgr \<Rightarrow> ptr multiset \<Rightarrow> ptr set \<Rightarrow> bool" where
  "counts_ok m R Z \<longleftrightarrow>
     (\<forall>p \<in># R. STRIP p \<in> dom (mg_nodes m) - Z) \<and>
     (\<forall>a n. mg_nodes m a = Some n \<longrightarrow> a \<notin> Z \<longrightarrow> (sg_ref n = 4294967295 \<or> sg_ref n = refs_held R a + degree m Z a) \<and> sg_ref n \<le> 4294967295) \<and>
     (\<forall>a n. mg_nodes m a = Some n \<longrightarrow> a \<notin> Z \<longrightarrow> a \<noteq> mg_false m \<longrightarrow> 0 < sg_ref n)"

definition key_hash :: "nat \<Rightarrow> simpaig \<Rightarrow> nat" where
  "key_hash k n = simpaig_hash k (sg_var n) (sg_slice n) (sg_c0 n) (sg_c1 n)"

definition table_ok :: "simpaigmgr \<Rightarrow> bool" where
  "table_ok m \<longleftrightarrow>
     distinct (concat (mg_table m)) \<and> set (concat (mg_table m)) = dom (mg_nodes m) - {mg_false m} \<and>
     (\<forall>h < length (mg_table m). \<forall>a \<in> set (mg_table m ! h). \<forall>n. mg_nodes m a = Some n \<longrightarrow> key_hash (length (mg_table m)) n = h) \<and>
     mg_count m = length (concat (mg_table m)) \<and> mg_count m \<le> length (mg_table m) \<and> length (mg_table m) < 4294967296"

definition hinv :: "simpaigmgr \<Rightarrow> ptr multiset \<Rightarrow> ptr set \<Rightarrow> bool" where
  "hinv m R Z \<longleftrightarrow> graph_ok m Z \<and> counts_ok m R Z \<and> table_ok m"

lemma graph_okD:
  assumes "graph_ok m Z"
  shows "finite (dom (mg_nodes m))" "Z \<subseteq> dom (mg_nodes m)" "mg_false m \<notin> Z" "reads m (PFalse (mg_false m))"
    and "mg_nodes m a = Some n \<Longrightarrow> even a \<and> a \<noteq> 0"
    and "mg_nodes m a = Some n \<Longrightarrow> a \<noteq> mg_false m \<Longrightarrow> gate_node (mg_false m) n \<or> var_node n"
    and "mg_nodes m a = Some n \<Longrightarrow> a \<noteq> mg_false m \<Longrightarrow> a \<notin> Z \<Longrightarrow> sg_var n = 0 \<Longrightarrow>
      STRIP (sg_c0 n) \<in> dom (mg_nodes m) - Z \<and> STRIP (sg_c1 n) \<in> dom (mg_nodes m) - Z"
    and "a \<in> dom (mg_nodes m) - Z \<Longrightarrow> \<exists>t. reads m t \<and> root t = a"
    and "mg_nodes m a = Some n \<Longrightarrow> mg_nodes m b = Some k \<Longrightarrow> a \<noteq> mg_false m \<Longrightarrow> b \<noteq> mg_false m \<Longrightarrow> same_gate n k \<Longrightarrow> a = b"
  using assms unfolding graph_ok_def by blast+

lemma counts_okD:
  assumes "counts_ok m R Z"
  shows "p \<in># R \<Longrightarrow> STRIP p \<in> dom (mg_nodes m) - Z"
    and "mg_nodes m a = Some n \<Longrightarrow> a \<notin> Z \<Longrightarrow> sg_ref n = 4294967295 \<or> sg_ref n = refs_held R a + degree m Z a"
    and "mg_nodes m a = Some n \<Longrightarrow> a \<notin> Z \<Longrightarrow> sg_ref n \<le> 4294967295"
    and "mg_nodes m a = Some n \<Longrightarrow> a \<notin> Z \<Longrightarrow> a \<noteq> mg_false m \<Longrightarrow> 0 < sg_ref n"
  using assms unfolding counts_ok_def by blast+

lemma table_okD:
  assumes "table_ok m"
  shows "distinct (concat (mg_table m))" "set (concat (mg_table m)) = dom (mg_nodes m) - {mg_false m}"
    and "h < length (mg_table m) \<Longrightarrow> a \<in> set (mg_table m ! h) \<Longrightarrow> mg_nodes m a = Some n \<Longrightarrow> key_hash (length (mg_table m)) n = h"
    and "mg_count m = length (concat (mg_table m))" "mg_count m \<le> length (mg_table m)" "length (mg_table m) < 4294967296"
  using assms unfolding table_ok_def by blast+

lemma hinvD: "hinv m R Z \<Longrightarrow> graph_ok m Z" "hinv m R Z \<Longrightarrow> counts_ok m R Z" "hinv m R Z \<Longrightarrow> table_ok m"
  by (simp_all add: hinv_def)

text \<open>The address 0 and odd addresses are not in use.\<close>

lemma false_node:
  assumes "graph_ok m Z"
  obtains n where "mg_nodes m (mg_false m) = Some n" "sg_var n = 0" "sg_c0 n = 0" "sg_c1 n = 0" "even (mg_false m)" "mg_false m \<noteq> 0"
  using graph_okD(4) [OF assms] graph_okD(5) [OF assms, of "mg_false m"] by (auto simp: sg_key_def)

lemma child_nonzero: "gate_node f n \<Longrightarrow> sg_c0 n \<noteq> 0 \<and> sg_c1 n \<noteq> 0"
  unfolding gate_node_def using strip_nonzero by blast

section \<open>Changes that keep the graph\<close>

text \<open>Only counters, caches, right hand sides and indices change.\<close>

definition similar :: "simpaigmgr \<Rightarrow> simpaigmgr \<Rightarrow> bool" where
  "similar m m' \<longleftrightarrow> (\<forall>a. same_key m m' a) \<and> mg_false m' = mg_false m \<and> mg_table m' = mg_table m \<and> mg_count m' = mg_count m"

lemma similar_dom: "similar m m' \<Longrightarrow> dom (mg_nodes m') = dom (mg_nodes m)"
  unfolding similar_def same_key_def dom_def by (metis option.map_disc_iff)

lemma similar_sym: "similar m m' \<Longrightarrow> similar m' m"
  by (auto simp: similar_def same_key_def)

lemma similar_node:
  assumes "similar m m'" "mg_nodes m a = Some n"
  obtains n' where "mg_nodes m' a = Some n'" "sg_key n' = sg_key n"
  using assms unfolding similar_def same_key_def by (metis (no_types, lifting) map_option_eq_Some)

lemma key_fields: "sg_key n' = sg_key n \<longleftrightarrow> sg_var n' = sg_var n \<and> sg_slice n' = sg_slice n \<and> sg_c0 n' = sg_c0 n \<and> sg_c1 n' = sg_c1 n"
  by (simp add: sg_key_def)

lemma key_cong:
  assumes "sg_key n' = sg_key n"
  shows "edges n' = edges n" "gate_node f n' = gate_node f n" "var_node n' = var_node n" "same_gate n' k = same_gate n k"
    "same_gate k n' = same_gate k n" "key_hash j n' = key_hash j n"
  using assms by (auto simp: key_fields edges_def gate_node_def var_node_def same_gate_def key_hash_def fun_eq_iff)

lemma similar_reads: "similar m m' \<Longrightarrow> reads m' t = reads m t"
  using reads_frame [of m t m'] reads_frame [of m' t m] by (auto simp: similar_def same_key_def)

lemma similar_degree: assumes "similar m m'" shows "degree m' Z a = degree m Z a"
proof -
  have e: "edges (the (mg_nodes m' b)) a = edges (the (mg_nodes m b)) a" if b: "b \<in> dom (mg_nodes m) - Z" for b
  proof -
    obtain n where n: "mg_nodes m b = Some n" using b by blast
    obtain n' where k: "mg_nodes m' b = Some n'" "sg_key n' = sg_key n" by (rule similar_node [OF assms n])
    show ?thesis by (simp add: n k(1) key_cong(1) [OF k(2)])
  qed
  then show ?thesis unfolding degree_def similar_dom [OF assms] by (intro sum.cong refl e)
qed

lemma similar_graph:
  assumes "similar m m'" "graph_ok m Z"
  shows "graph_ok m' Z"
proof -
  note d = graph_okD [OF assms(2)] and s = similar_dom [OF assms(1)] similar_reads [OF assms(1)]
  have f: "mg_false m' = mg_false m" using assms(1) by (simp add: similar_def)
  have origin: "\<exists>k. mg_nodes m a = Some k \<and> sg_key n = sg_key k" if or: "mg_nodes m' a = Some n" for a n
  proof -
    obtain k where "mg_nodes m a = Some k" "sg_key k = sg_key n" by (rule similar_node [OF similar_sym [OF assms(1)] or])
    then show ?thesis by (intro exI [of _ k]) simp
  qed
  show ?thesis unfolding graph_ok_def s f
  proof (intro conjI allI impI)
    fix a n assume n: "mg_nodes m' a = Some n" and a: "a \<noteq> mg_false m"
    from origin [OF n] obtain k where k: "mg_nodes m a = Some k" "sg_key n = sg_key k" by blast
    show "gate_node (mg_false m) n \<or> var_node n" using d(6) [OF k(1) a] key_cong [OF k(2)] by simp
    assume z: "a \<notin> Z" "sg_var n = 0"
    then show "STRIP (sg_c0 n) \<in> dom (mg_nodes m) - Z" "STRIP (sg_c1 n) \<in> dom (mg_nodes m) - Z"
      using d(7) [OF k(1) a z(1)] k(2) by (auto simp: key_fields)
  next
    fix a b n k assume n: "mg_nodes m' a = Some n" and k: "mg_nodes m' b = Some k" and ab: "a \<noteq> mg_false m" "b \<noteq> mg_false m"
      and g: "same_gate n k"
    from origin [OF n] origin [OF k] obtain n' k' where nk: "mg_nodes m a = Some n'" "sg_key n = sg_key n'" "mg_nodes m b = Some k'" "sg_key k = sg_key k'" by blast
    have "same_gate n' k'" using g key_cong(4) [OF nk(2)] key_cong(5) [OF nk(4)] by simp
    then show "a = b" using d(9) [OF nk(1,3) ab] by simp
  next
    fix a n assume "mg_nodes m' a = Some n"
    then have "a \<in> dom (mg_nodes m)" using s(1) by blast
    then show "even a" "a \<noteq> 0" using d(5) by blast+
  qed (use d in auto)
qed

lemma similar_table:
  assumes "similar m m'" "table_ok m"
  shows "table_ok m'"
proof -
  have f: "mg_false m' = mg_false m" "mg_table m' = mg_table m" "mg_count m' = mg_count m" using assms(1) by (simp_all add: similar_def)
  have "key_hash (length (mg_table m)) n = h" if "h < length (mg_table m)" "a \<in> set (mg_table m ! h)" "mg_nodes m' a = Some n" for h a n
    using table_okD(3) [OF assms(2) that(1,2)] similar_node [OF similar_sym [OF assms(1)] that(3)] key_cong(6) by metis
  then show ?thesis using assms(2) unfolding table_ok_def similar_dom [OF assms(1)] f by blast
qed

section \<open>What an operation leaves alone\<close>

text \<open>The fields of a node that substitution, shifting and indices use, and the lists of nodes that have them.\<close>

definition attrs :: "simpaigmgr \<Rightarrow> ptr \<Rightarrow> ptr \<times> ptr \<times> uint" where
  "attrs m a = (case mg_nodes m a of None \<Rightarrow> (0, 0, 0) | Some n \<Rightarrow> (sg_cache n, sg_rhs n, sg_idx n))"

definition quiet :: "simpaigmgr \<Rightarrow> simpaigmgr \<Rightarrow> bool" where
  "quiet m m' \<longleftrightarrow> attrs m' = attrs m \<and> mg_false m' = mg_false m \<and> mg_malloc m' = mg_malloc m \<and>
     mg_cached m' = mg_cached m \<and> mg_assigned m' = mg_assigned m \<and> mg_indices m' = mg_indices m"

text \<open>Nodes stay, with their operands; a saturated counter is never changed again.\<close>

definition grows :: "simpaigmgr \<Rightarrow> simpaigmgr \<Rightarrow> bool" where
  "grows m m' \<longleftrightarrow> mg_false m' = mg_false m \<and> mg_malloc m' = mg_malloc m \<and>
     (\<forall>a n. mg_nodes m a = Some n \<longrightarrow>
       (\<exists>n'. mg_nodes m' a = Some n' \<and> sg_key n' = sg_key n \<and> (sg_ref n = 4294967295 \<longrightarrow> sg_ref n' = 4294967295)))"

text \<open>Nodes may go, but saturated ones never do.\<close>

definition heap_shrinks :: "simpaigmgr \<Rightarrow> simpaigmgr \<Rightarrow> bool" where
  "heap_shrinks m m' \<longleftrightarrow> mg_false m' = mg_false m \<and> mg_malloc m' = mg_malloc m \<and>
     (\<forall>a n'. mg_nodes m' a = Some n' \<longrightarrow> (\<exists>n. mg_nodes m a = Some n \<and> sg_key n' = sg_key n \<and> sg_ref n' \<le> sg_ref n)) \<and>
     (\<forall>a n. mg_nodes m a = Some n \<longrightarrow> sg_ref n = 4294967295 \<longrightarrow>
       (\<exists>n'. mg_nodes m' a = Some n' \<and> sg_ref n' = 4294967295))"

lemma quiet_refl [simp]: "quiet m m" by (simp add: quiet_def)
lemma quiet_trans [trans]: "quiet m m' \<Longrightarrow> quiet m' m'' \<Longrightarrow> quiet m m''" by (simp add: quiet_def)
lemma grows_refl [simp]: "grows m m" by (auto simp: grows_def)
lemma shrinks_refl [simp]: "heap_shrinks m m" by (auto simp: heap_shrinks_def)

lemma grows_trans [trans]:
  assumes "grows m m'" "grows m' m''"
  shows "grows m m''"
  unfolding grows_def
proof (intro conjI allI impI)
  fix a n assume n: "mg_nodes m a = Some n"
  obtain n' where n': "mg_nodes m' a = Some n'" "sg_key n' = sg_key n" "sg_ref n = 4294967295 \<longrightarrow> sg_ref n' = 4294967295"
    using assms(1) n unfolding grows_def by blast
  obtain n'' where "mg_nodes m'' a = Some n''" "sg_key n'' = sg_key n'" "sg_ref n' = 4294967295 \<longrightarrow> sg_ref n'' = 4294967295"
    using assms(2) n'(1) unfolding grows_def by blast
  with n' show "\<exists>n''. mg_nodes m'' a = Some n'' \<and> sg_key n'' = sg_key n \<and> (sg_ref n = 4294967295 \<longrightarrow> sg_ref n'' = 4294967295)" by simp
qed (use assms in \<open>simp_all add: grows_def\<close>)

lemma shrinks_trans [trans]:
  assumes "heap_shrinks m m'" "heap_shrinks m' m''"
  shows "heap_shrinks m m''"
  unfolding heap_shrinks_def
proof (intro conjI allI impI)
  fix a n'' assume n: "mg_nodes m'' a = Some n''"
  obtain n' where n': "mg_nodes m' a = Some n'" "sg_key n'' = sg_key n'" "sg_ref n'' \<le> sg_ref n'" using assms(2) n unfolding heap_shrinks_def by blast
  obtain k where "mg_nodes m a = Some k" "sg_key n' = sg_key k" "sg_ref n' \<le> sg_ref k" using assms(1) n'(1) unfolding heap_shrinks_def by blast
  with n' show "\<exists>n. mg_nodes m a = Some n \<and> sg_key n'' = sg_key n \<and> sg_ref n'' \<le> sg_ref n" by simp
next
  fix a n assume "mg_nodes m a = Some n" "sg_ref n = 4294967295"
  then obtain n' where "mg_nodes m' a = Some n'" "sg_ref n' = 4294967295" using assms(1) unfolding heap_shrinks_def by blast
  then show "\<exists>n'. mg_nodes m'' a = Some n' \<and> sg_ref n' = 4294967295" using assms(2) unfolding heap_shrinks_def by blast
qed (use assms in \<open>simp_all add: heap_shrinks_def\<close>)

lemma grows_reads: "grows m m' \<Longrightarrow> reads m t \<Longrightarrow> reads m' t"
proof (rule reads_frame)
  assume g: "grows m m'" and r: "reads m t"
  show "same_key m m' a" if a: "a \<in> addrs t" for a
  proof -
    obtain n where n: "mg_nodes m a = Some n" using reads_addrs(2) [OF r a] by blast
    then obtain n' where "mg_nodes m' a = Some n'" "sg_key n' = sg_key n" using g unfolding grows_def by blast
    then show ?thesis by (simp add: same_key_def n)
  qed
qed (simp_all add: grows_def)

lemma shrinks_reads:
  assumes s: "heap_shrinks m m'" and g: "graph_ok m' Z" and r: "reads m t" and a: "STRIP (root t) \<in> dom (mg_nodes m') - Z"
  shows "reads m' t"
proof -
  obtain w where w: "reads m' w" "root w = STRIP (root t)" using graph_okD(8) [OF g a] by blast
  have "reads m w"
  proof (rule reads_frame [OF w(1)])
    show "same_key m' m b" if b: "b \<in> addrs w" for b
    proof -
      obtain n where n: "mg_nodes m' b = Some n" using reads_addrs(2) [OF w(1) b] by blast
      then obtain k where "mg_nodes m b = Some k" "sg_key n = sg_key k" using s unfolding heap_shrinks_def by blast
      then show ?thesis by (simp add: same_key_def n)
    qed
  qed (use s in \<open>simp add: heap_shrinks_def\<close>)
  show ?thesis
  proof (cases "SIGN (root t)")
    case True
    then have "root (pnot t) = root w" using w(2) not_strip by simp
    then have "pnot t = w" using reads_unique [OF reads_pnot [OF r] \<open>reads m w\<close>] by simp
    then have "reads m' (pnot t)" using w(1) by simp
    moreover obtain u where "t = PNot u" using reads_root [OF r] True by blast
    ultimately show ?thesis using r by simp
  next
    case False
    then have "t = w" using reads_unique [OF r \<open>reads m w\<close>] w(2) strip_even(2) by simp
    with w(1) show ?thesis by simp
  qed
qed

section \<open>Taking a reference\<close>

lemma degree_pos:
  assumes "graph_ok m Z" "0 < degree m Z a"
  obtains b n where "mg_nodes m b = Some n" "b \<notin> Z" "0 < edges n a"
proof -
  have f: "finite (dom (mg_nodes m) - Z)" using graph_okD(1) [OF assms(1)] by simp
  have "\<exists>b \<in> dom (mg_nodes m) - Z. edges (the (mg_nodes m b)) a \<noteq> 0"
  proof (rule ccontr)
    assume "\<not> ?thesis"
    then have "degree m Z a = 0" unfolding degree_def by simp
    with assms(2) show False by simp
  qed
  then show thesis using that by auto
qed

lemma set_ref:
  assumes n: "mg_nodes m a = Some n" and m': "m' = m\<lparr>mg_nodes := (mg_nodes m)(a \<mapsto> n\<lparr>sg_ref := r\<rparr>)\<rparr>"
  shows "similar m m'" "quiet m m'" "\<And>b. b \<noteq> a \<Longrightarrow> mg_nodes m' b = mg_nodes m b"
    "sg_ref n \<noteq> 4294967295 \<or> r = 4294967295 \<Longrightarrow> grows m m'"
    "sg_ref n \<noteq> 4294967295 \<or> r = 4294967295 \<Longrightarrow> r \<le> sg_ref n \<Longrightarrow> heap_shrinks m m'"
proof -
  show "similar m m'" using n unfolding m' by (simp add: similar_def same_key_def sg_key_def)
  show "quiet m m'" using n unfolding m' by (simp add: quiet_def attrs_def fun_eq_iff)
  show "b \<noteq> a \<Longrightarrow> mg_nodes m' b = mg_nodes m b" for b unfolding m' by simp
  assume r: "sg_ref n \<noteq> 4294967295 \<or> r = 4294967295"
  with n show "grows m m'" unfolding m' by (simp add: grows_def sg_key_def)
  assume "r \<le> sg_ref n"
  with n r show "heap_shrinks m m'" unfolding m' by (simp add: heap_shrinks_def sg_key_def)
qed

lemma inc_hinv:
  assumes h: "hinv m R Z" and p: "STRIP p \<in> dom (mg_nodes m) - Z"
  shows "\<exists>m'. sg_inc p m = Some m' \<and> hinv m' (add_mset p R) Z \<and> similar m m' \<and> grows m m' \<and> quiet m m' \<and>
    (\<forall>b. b \<noteq> STRIP p \<longrightarrow> mg_nodes m' b = mg_nodes m b)"
proof -
  obtain n where n: "mg_nodes m (STRIP p) = Some n" using p by blast
  note c = counts_okD [OF hinvD(2) [OF h]]
  let ?r = "if sg_ref n < 4294967295 then sg_ref n + 1 else sg_ref n"
  let ?m = "m\<lparr>mg_nodes := (mg_nodes m)(STRIP p \<mapsto> n\<lparr>sg_ref := ?r\<rparr>)\<rparr>"
  have "n\<lparr>sg_ref := ?r\<rparr> = (if sg_ref n < 4294967295 then n\<lparr>sg_ref := sg_ref n + 1\<rparr> else n)" by simp
  then have "sg_inc p m = Some ?m" by (simp add: sg_inc_def sg_update_def n)
  moreover note s = set_ref [OF n refl, where r = ?r]
  moreover have "grows m ?m" using s(4) by simp
  moreover have "hinv ?m (add_mset p R) Z"
  proof -
    have "counts_ok ?m (add_mset p R) Z" unfolding counts_ok_def similar_dom [OF s(1)] similar_degree [OF s(1)]
    proof (intro conjI allI impI ballI)
      fix q assume "q \<in># add_mset p R"
      then show "STRIP q \<in> dom (mg_nodes m) - Z" using p c(1) by auto
    next
      fix a k assume k: "mg_nodes ?m a = Some k" "a \<notin> Z"
      show "sg_ref k = 4294967295 \<or> sg_ref k = refs_held (add_mset p R) a + degree m Z a" "sg_ref k \<le> 4294967295"
        using k c(2) [of a] c(3) [of a] n by (cases "a = STRIP p"; fastforce split: if_splits)+
      assume "a \<noteq> mg_false ?m"
      then show "0 < sg_ref k" using k c(4) [of a] n by (cases "a = STRIP p") (auto split: if_splits)
    qed
    then show ?thesis unfolding hinv_def using similar_graph [OF s(1)] similar_table [OF s(1)] hinvD(1,3) [OF h] by blast
  qed
  ultimately show ?thesis using s(1-3) by (intro exI [of _ ?m] conjI allI impI)
qed

section \<open>The hash table\<close>

lemma hash_less:
  assumes "0 < k" "k < 4294967296"
  shows "simpaig_hash k v s c d < k"
proof -
  have a: "x AND (y :: nat) \<le> y" for x y
  proof -
    have "int (x AND y) \<le> int y" unfolding of_nat_and_eq by (rule AND_upper2) simp
    then show ?thesis by simp
  qed
  have "u32 (k + 4294967295) = k - 1" using assms by (simp add: u32_def mod_if)
  then have "simpaig_hash k v s c d \<le> k - 1" unfolding simpaig_hash_def Let_def using a by metis
  with assms show ?thesis by linarith
qed

lemma find_chain_spec:
  "(\<And>a. a \<in> set chain \<Longrightarrow> nodes a \<noteq> None) \<Longrightarrow>
    find_chain nodes v s c d chain = Some (List.find (\<lambda>a. sg_key (the (nodes a)) = (v, s, c, d)) chain)"
proof (induction chain)
  case (Cons a chain)
  obtain n where "nodes a = Some n" using Cons.prems [of a] by auto
  then show ?case using Cons by (simp add: sg_key_def)
qed simp

lemma in_concat_nth: "a \<in> set (concat xss) \<longleftrightarrow> (\<exists>h < length xss. a \<in> set (xss ! h))"
proof
  assume "a \<in> set (concat xss)"
  then obtain xs where xs: "xs \<in> set xss" "a \<in> set xs" by auto
  then show "\<exists>h < length xss. a \<in> set (xss ! h)" by (metis in_set_conv_nth)
qed auto

lemma table_member:
  assumes t: "table_ok m" and a: "mg_nodes m a = Some n" "a \<noteq> mg_false m"
  shows "key_hash (length (mg_table m)) n < length (mg_table m)" "a \<in> set (mg_table m ! key_hash (length (mg_table m)) n)"
proof -
  have "a \<in> set (concat (mg_table m))" using table_okD(2) [OF t] a by auto
  then obtain h where h: "h < length (mg_table m)" "a \<in> set (mg_table m ! h)" unfolding in_concat_nth by blast
  then have "key_hash (length (mg_table m)) n = h" using table_okD(3) [OF t] a(1) by blast
  with h show "key_hash (length (mg_table m)) n < length (mg_table m)" "a \<in> set (mg_table m ! key_hash (length (mg_table m)) n)" by simp_all
qed

lemma table_alive:
  assumes t: "table_ok m" and h: "h < length (mg_table m)" "a \<in> set (mg_table m ! h)"
  shows "a \<in> dom (mg_nodes m) - {mg_false m}"
proof -
  have "a \<in> set (concat (mg_table m))" unfolding in_concat_nth using h by blast
  then show ?thesis unfolding table_okD(2) [OF t] .
qed

text \<open>A search in a table that is not empty: it finds a node with this key, or there is none.\<close>

definition found :: "simpaigmgr \<Rightarrow> ptr \<times> int \<times> ptr \<times> ptr \<Rightarrow> ptr option \<Rightarrow> bool" where
  "found m k r \<longleftrightarrow>
    (case r of
       Some a \<Rightarrow> a \<noteq> mg_false m \<and> map_option sg_key (mg_nodes m a) = Some k
     | None \<Rightarrow> \<forall>a. a \<noteq> mg_false m \<longrightarrow> map_option sg_key (mg_nodes m a) \<noteq> Some k)"

lemma found_table [simp]: "found (m\<lparr>mg_table := T\<rparr>) k r = found m k r"
  by (cases r) (simp_all add: found_def)

lemma find_spec:
  assumes t: "table_ok m" and ne: "mg_table m \<noteq> []" and h_def: "h = simpaig_hash (length (mg_table m)) v s c d"
  shows "h < length (mg_table m) \<and> (\<exists>r. simpaig_find m v s c d = Some (h, r) \<and> found m (v, s, c, d) r)"
proof -
  let ?f = "\<lambda>a. sg_key (the (mg_nodes m a)) = (v, s, c, d)"
  have h: "h < length (mg_table m)" unfolding h_def using hash_less [of "length (mg_table m)"] ne table_okD(6) [OF t] by simp
  have alive: "mg_nodes m a \<noteq> None" "a \<noteq> mg_false m" if "a \<in> set (mg_table m ! h)" for a using table_alive [OF t h that] by auto
  have e: "simpaig_find m v s c d = Some (h, List.find ?f (mg_table m ! h))"
    unfolding simpaig_find_def Let_def h_def [symmetric] using h find_chain_spec [OF alive(1), of "mg_table m ! h"] by (simp add: deref_def)
  show ?thesis
  proof (cases "List.find ?f (mg_table m ! h)")
    case None
    have "map_option sg_key (mg_nodes m a) \<noteq> Some (v, s, c, d)" if a: "a \<noteq> mg_false m" for a
    proof
      assume k: "map_option sg_key (mg_nodes m a) = Some (v, s, c, d)"
      then obtain n where n: "mg_nodes m a = Some n" "sg_key n = (v, s, c, d)" by auto
      then have "key_hash (length (mg_table m)) n = h" by (simp add: key_hash_def h_def sg_key_def)
      then have "a \<in> set (mg_table m ! h)" using table_member(2) [OF t n(1) a] by simp
      with None n show False by (auto simp: find_None_iff)
    qed
    with h e None show ?thesis by (auto simp: found_def)
  next
    case (Some a)
    then have "a \<in> set (mg_table m ! h)" "?f a" by (auto simp: find_Some_iff)
    with alive [of a] h e Some show ?thesis by (auto simp: found_def)
  qed
qed

lemma find_node:
  assumes g: "graph_ok m Z" and t: "table_ok m" and n: "mg_nodes m a = Some n" "a \<noteq> mg_false m"
  shows "simpaig_find m (sg_var n) (sg_slice n) (sg_c0 n) (sg_c1 n) = Some (key_hash (length (mg_table m)) n, Some a)"
proof -
  have ne: "mg_table m \<noteq> []" using table_member(1) [OF t n] by auto
  obtain r where r: "simpaig_find m (sg_var n) (sg_slice n) (sg_c0 n) (sg_c1 n) = Some (key_hash (length (mg_table m)) n, r)"
    "found m (sg_key n) r"
    using find_spec [OF t ne refl, of "sg_var n" "sg_slice n" "sg_c0 n" "sg_c1 n"] unfolding key_hash_def sg_key_def by blast
  then obtain b where b: "r = Some b" "b \<noteq> mg_false m" "map_option sg_key (mg_nodes m b) = Some (sg_key n)"
    using n unfolding found_def by (cases r) auto
  then obtain k where k: "mg_nodes m b = Some k" "sg_key k = sg_key n" by auto
  have "same_gate n k" using k(2) by (simp add: same_gate_def key_fields)
  then have "a = b" using graph_okD(9) [OF g n(1) k(1) n(2) b(2)] by simp
  with r(1) b(1) show ?thesis by simp
qed

end
