(* ===== verification/SimpAigDec.thy ===== *)
theory SimpAigDec
  imports SimpAigHeap
begin

text \<open>
  Giving back a reference: \<open>dec\<close> returns, keeps the invariant, and leaves every node that is still
  reachable from a reference; nodes whose counter drops to zero are cut out of the table and freed.
\<close>

section \<open>Cutting a node out\<close>

lemma concat_update_remove:
  assumes h: "h < length xss" "a \<in> set (xss ! h)" and d: "distinct (concat xss)"
  shows "distinct (concat (xss[h := remove1 a (xss ! h)]))"
    and "set (concat (xss[h := remove1 a (xss ! h)])) = set (concat xss) - {a}"
    and "length (concat xss) = Suc (length (concat (xss[h := remove1 a (xss ! h)])))"
proof -
  define ls where "ls = take h xss"
  define rs where "rs = drop (Suc h) xss"
  have x: "xss = ls @ (xss ! h) # rs" unfolding ls_def rs_def using h(1) by (simp add: id_take_nth_drop)
  have u: "xss[h := remove1 a (xss ! h)] = ls @ remove1 a (xss ! h) # rs"
    unfolding ls_def rs_def using h(1) by (simp add: upd_conv_take_nth_drop)
  have dx: "distinct (concat ls @ (xss ! h) @ concat rs)" using d by (subst (asm) x) simp
  have c: "concat xss = concat ls @ (xss ! h) @ concat rs" by (subst x) simp
  show "distinct (concat (xss[h := remove1 a (xss ! h)]))"
    unfolding u using dx h(2) by (auto dest: notin_set_remove1 distinct_remove1 simp: set_remove1_eq)
  show "set (concat (xss[h := remove1 a (xss ! h)])) = set (concat xss) - {a}"
    unfolding u c using dx h(2) by (auto simp: set_remove1_eq)
  show "length (concat xss) = Suc (length (concat (xss[h := remove1 a (xss ! h)])))"
    unfolding u c using h(2) by (simp add: length_remove1) (metis Suc_pred length_pos_if_in_set)
qed

text \<open>The node \<open>a\<close> that is about to be deleted has given up its references: it leaves the heap.\<close>

definition deleted :: "nat \<Rightarrow> ptr \<Rightarrow> simpaigmgr \<Rightarrow> simpaigmgr" where
  "deleted h a m = m\<lparr>mg_table := (mg_table m)[h := remove1 a (mg_table m ! h)], mg_nodes := (mg_nodes m)(a := None), mg_count := mg_count m - 1\<rparr>"

lemma delete_reads:
  assumes g: "graph_ok m (insert a Z)" and r: "reads m t" and d: "STRIP (root t) \<in> dom (mg_nodes m) - insert a Z"
  shows "a \<notin> addrs t"
  using r d
proof (induction t)
  case (PAnd b t u)
  then obtain n where n: "mg_nodes m b = Some n" "sg_key n = (0, 0, root t, root u)" by auto
  have b: "STRIP (root (PAnd b t u)) = b" using PAnd.prems(1) by (simp add: strip_even)
  have "root t \<noteq> 0" using PAnd.prems(1) strip_nonzero by simp
  then have "b \<noteq> mg_false m" using graph_okD(4) [OF g] n by (auto simp: sg_key_def)
  then have "STRIP (root t) \<in> dom (mg_nodes m) - insert a Z" "STRIP (root u) \<in> dom (mg_nodes m) - insert a Z"
    using graph_okD(7) [OF g n(1)] n(2) PAnd.prems(2) b by (auto simp: sg_key_def)
  then show ?case using PAnd b by auto
next
  case (PNot t)
  then show ?case by simp
qed (auto simp: strip_even)

lemma delete_node:
  assumes h: "hinv m R (insert a Z)" and z: "a \<notin> Z" and n: "mg_nodes m a = Some n"
  defines "k \<equiv> key_hash (length (mg_table m)) n"
  shows "k < length (mg_table m)" "0 < mg_count m" "hinv (deleted k a m) R Z"
proof -
  note g = hinvD(1) [OF h] and c = hinvD(2) [OF h] and t = hinvD(3) [OF h]
  have f: "a \<noteq> mg_false m" using graph_okD(3) [OF g] by auto
  note k = table_member [OF t n f, folded k_def]
  note cu = concat_update_remove [OF k table_okD(1) [OF t]]
  show "k < length (mg_table m)" by (rule k(1))
  show "0 < mg_count m" using cu(3) table_okD(4) [OF t] by simp
  let ?m = "deleted k a m"
  have N: "mg_nodes ?m = (mg_nodes m)(a := None)" "mg_false ?m = mg_false m" by (simp_all add: deleted_def)
  have D: "dom (mg_nodes ?m) = dom (mg_nodes m) - {a}" unfolding N by auto
  have DZ: "dom (mg_nodes ?m) - Z = dom (mg_nodes m) - insert a Z" unfolding D by auto
  have deg: "degree ?m Z b = degree m (insert a Z) b" for b
    unfolding degree_def DZ by (intro sum.cong refl) (auto simp: N)
  have graph: "graph_ok ?m Z" unfolding graph_ok_def
  proof (intro conjI allI impI ballI)
    show "finite (dom (mg_nodes ?m))" unfolding D using graph_okD(1) [OF g] by simp
    show "Z \<subseteq> dom (mg_nodes ?m) - {mg_false ?m}" unfolding D N using graph_okD(2,3) [OF g] z by auto
    show "reads ?m (PFalse (mg_false ?m))" using graph_okD(4) [OF g] f by (simp add: N)
  next
    fix b assume b: "b \<in> dom (mg_nodes ?m) - Z"
    then obtain w where w: "reads m w" "root w = b" using graph_okD(8) [OF g] unfolding DZ by blast
    have "even b" using b graph_okD(5) [OF g] unfolding DZ by blast
    then have "a \<notin> addrs w" using delete_reads [OF g w(1)] b w(2) unfolding DZ by (simp add: strip_even)
    then have "same_key m ?m d" if "d \<in> addrs w" for d using that by (auto simp: N same_key_def)
    then have "reads ?m w" by (rule reads_frame [OF w(1) N(2)])
    with w(2) show "\<exists>w. reads ?m w \<and> root w = b" by blast
  next
    fix b l assume b: "mg_nodes ?m b = Some l"
    then have b': "mg_nodes m b = Some l" "b \<noteq> a" by (auto simp: N split: if_splits)
    show "even b" "b \<noteq> 0" using graph_okD(5) [OF g b'(1)] by auto
    assume bf: "b \<noteq> mg_false ?m"
    then show "gate_node (mg_false ?m) l \<or> var_node l" using graph_okD(6) [OF g b'(1)] by (simp add: N)
    assume "b \<notin> Z" "sg_var l = 0"
    then show "STRIP (sg_c0 l) \<in> dom (mg_nodes ?m) - Z" "STRIP (sg_c1 l) \<in> dom (mg_nodes ?m) - Z"
      using graph_okD(7) [OF g b'(1)] bf b'(2) unfolding DZ by (auto simp: N)
  next
    fix b l d e assume "mg_nodes ?m b = Some l" "mg_nodes ?m d = Some e" "b \<noteq> mg_false ?m" "d \<noteq> mg_false ?m" "same_gate l e"
    then show "b = d" using graph_okD(9) [OF g, of b l d e] by (auto simp: N split: if_splits)
  qed
  have counts: "counts_ok ?m R Z" unfolding counts_ok_def deg DZ
  proof (intro conjI allI impI ballI)
    show "STRIP p \<in> dom (mg_nodes m) - insert a Z" if "p \<in># R" for p by (rule counts_okD(1) [OF c that])
  next
    fix b l assume b: "mg_nodes ?m b = Some l" "b \<notin> Z"
    then have b': "mg_nodes m b = Some l" "b \<notin> insert a Z" by (auto simp: N split: if_splits)
    show "sg_ref l = 4294967295 \<or> sg_ref l = refs_held R b + degree m (insert a Z) b" "sg_ref l \<le> 4294967295"
      using counts_okD(2,3) [OF c b'] by auto
    assume "b \<noteq> mg_false ?m"
    then show "0 < sg_ref l" using counts_okD(4) [OF c b'] by (simp add: N)
  qed
  have table: "table_ok ?m" unfolding table_ok_def
  proof (intro conjI allI impI ballI)
    have T: "mg_table ?m = (mg_table m)[k := remove1 a (mg_table m ! k)]" by (simp add: deleted_def)
    show "distinct (concat (mg_table ?m))" unfolding T by (rule cu(1))
    show "set (concat (mg_table ?m)) = dom (mg_nodes ?m) - {mg_false ?m}" unfolding T cu(2) D N table_okD(2) [OF t] by auto
    show "mg_count ?m = length (concat (mg_table ?m))" unfolding T using cu(3) table_okD(4) [OF t] by (simp add: deleted_def)
    show "mg_count ?m \<le> length (mg_table ?m)" using table_okD(5) [OF t] by (simp add: deleted_def)
    show "length (mg_table ?m) < 4294967296" using table_okD(6) [OF t] by (simp add: deleted_def)
    fix i b l assume i: "i < length (mg_table ?m)" "b \<in> set (mg_table ?m ! i)" "mg_nodes ?m b = Some l"
    have "b \<in> set (mg_table m ! i)" using i(1,2) set_remove1_subset [of a "mg_table m ! k"] by (cases "i = k") (auto simp: T)
    moreover have "mg_nodes m b = Some l" using i(3) by (auto simp: N split: if_splits)
    ultimately show "key_hash (length (mg_table ?m)) l = i" using table_okD(3) [OF t, of i b l] i(1) by (simp add: deleted_def)
  qed
  show "hinv ?m R Z" unfolding hinv_def using graph counts table by blast
qed

section \<open>Giving back a reference\<close>

text \<open>A node with a cache, a right hand side or an index is referenced by the list that it is on.\<close>

definition marks :: "simpaigmgr \<Rightarrow> ptr multiset \<Rightarrow> bool" where
  "marks m R \<longleftrightarrow> (\<forall>a. attrs m a \<noteq> (0, 0, 0) \<longrightarrow> 0 < refs_held R a)"

lemma marks_quiet: "quiet m m' \<Longrightarrow> marks m R \<Longrightarrow> marks m' R"
  by (simp add: marks_def quiet_def)

lemma dec_keep:
  assumes h: "hinv m (add_mset p R) Z" and n: "mg_nodes m (STRIP p) = Some n"
    and r: "sg_ref n \<noteq> 4294967295 \<Longrightarrow> r = sg_ref n - 1" "sg_ref n = 4294967295 \<Longrightarrow> r = 4294967295" "r \<noteq> 0 \<or> STRIP p = mg_false m"
  shows "hinv (m\<lparr>mg_nodes := (mg_nodes m)(STRIP p \<mapsto> n\<lparr>sg_ref := r\<rparr>)\<rparr>) R Z" (is "hinv ?m R Z")
proof -
  note c = hinvD(2) [OF h] and s = set_ref [where r = r, OF n refl]
  have a: "STRIP p \<notin> Z" using counts_okD(1) [OF c, of p] by simp
  have "counts_ok ?m R Z" unfolding counts_ok_def similar_dom [OF s(1)] similar_degree [OF s(1)]
  proof (intro conjI allI impI ballI)
    show "STRIP q \<in> dom (mg_nodes m) - Z" if "q \<in># R" for q using counts_okD(1) [OF c, of q] that by simp
  next
    fix b l assume b: "mg_nodes ?m b = Some l" "b \<notin> Z"
    have old: "(sg_ref l = 4294967295 \<or> sg_ref l = refs_held R b + degree m Z b) \<and> sg_ref l \<le> 4294967295"
    proof (cases "b = STRIP p")
      case True
      then have l: "sg_ref l = r" using b(1) by auto
      show ?thesis
      proof (cases "sg_ref n = 4294967295")
        case False
        then have "sg_ref n = 1 + refs_held R b + degree m Z b" using counts_okD(2) [OF c n a] True by simp
        with False l r(1) counts_okD(3) [OF c n a] show ?thesis by simp
      qed (use l r(2) in simp)
    next
      case False
      then have "mg_nodes m b = Some l" using b(1) by simp
      from counts_okD(2,3) [OF c this b(2)] False show ?thesis by simp
    qed
    then show "sg_ref l = 4294967295 \<or> sg_ref l = refs_held R b + degree m Z b" "sg_ref l \<le> 4294967295" by simp_all
    assume f: "b \<noteq> mg_false ?m"
    show "0 < sg_ref l"
    proof (cases "b = STRIP p")
      case True
      with b f r(3) show ?thesis by auto
    qed (use b f counts_okD(4) [OF c, of b l] in auto)
  qed
  then show ?thesis unfolding hinv_def using similar_graph [OF s(1)] similar_table [OF s(1)] hinvD(1,3) [OF h] by blast
qed

definition children :: "simpaig \<Rightarrow> ptr multiset" where
  "children n = (if sg_c0 n = 0 then {#} else {#sg_c0 n, sg_c1 n#})"

lemma children_edges: "gate_node f n \<or> var_node n \<Longrightarrow> b \<noteq> 0 \<Longrightarrow> refs_held (children n) b = edges n b"
  by (auto simp: children_def edges_def var_node_def dest: child_nonzero)

lemma dec_release:
  assumes h: "hinv m (add_mset p R) Z" and n: "mg_nodes m (STRIP p) = Some n" "sg_ref n = 1" and f: "STRIP p \<noteq> mg_false m"
  shows "hinv (m\<lparr>mg_nodes := (mg_nodes m)(STRIP p \<mapsto> n\<lparr>sg_ref := 0\<rparr>)\<rparr>) (children n + R) (insert (STRIP p) Z)" (is "hinv ?m _ ?Z")
    and "refs_held R (STRIP p) = 0"
proof -
  let ?a = "STRIP p"
  note g = hinvD(1) [OF h] and c = hinvD(2) [OF h] and s = set_ref [where r = 0, OF n(1) refl]
  have a: "?a \<notin> Z" using counts_okD(1) [OF c, of p] by simp
  have z: "refs_held R ?a = 0" "degree m Z ?a = 0" using counts_okD(2) [OF c n(1) a] n(2) by auto
  show "refs_held R ?a = 0" by (rule z(1))
  have nd: "gate_node (mg_false m) n \<or> var_node n" by (rule graph_okD(6) [OF g n(1) f])
  have no_edge: "edges l ?a = 0" if "mg_nodes m b = Some l" "b \<notin> Z" for b l
  proof -
    have "finite (dom (mg_nodes m) - Z)" using graph_okD(1) [OF g] by simp
    then have "\<forall>d \<in> dom (mg_nodes m) - Z. edges (the (mg_nodes m d)) ?a = 0" using z(2) unfolding degree_def by simp
    then have "edges (the (mg_nodes m b)) ?a = 0" by (rule bspec) (use that in blast)
    with that show ?thesis by simp
  qed
  have ca: "q \<in># children n \<Longrightarrow> STRIP q \<in> dom (mg_nodes m) - ?Z" for q
  proof -
    assume q: "q \<in># children n"
    then have v: "sg_var n = 0" using nd by (auto simp: children_def var_node_def gate_node_def)
    have "STRIP q \<in> dom (mg_nodes m) - Z" using graph_okD(7) [OF g n(1) f a v] q by (auto simp: children_def split: if_splits)
    moreover have "STRIP q \<noteq> ?a" using no_edge [OF n(1) a] q by (auto simp: children_def edges_def split: if_splits)
    ultimately show ?thesis by auto
  qed
  have D: "dom (mg_nodes ?m) = dom (mg_nodes m)" "mg_false ?m = mg_false m" using similar_dom [OF s(1)] by simp_all
  have gm: "graph_ok ?m Z" by (rule similar_graph [OF s(1) g])
  have graph: "graph_ok ?m ?Z" unfolding graph_ok_def
  proof (intro conjI allI impI ballI)
    show "?Z \<subseteq> dom (mg_nodes ?m) - {mg_false ?m}" unfolding D using graph_okD(2,3) [OF g] n(1) f by auto
    fix b l assume b: "mg_nodes ?m b = Some l" "b \<noteq> mg_false ?m" "b \<notin> ?Z" "sg_var l = 0"
    then have l: "mg_nodes m b = Some l" "b \<notin> Z" by auto
    have e: "STRIP (sg_c0 l) \<noteq> ?a" "STRIP (sg_c1 l) \<noteq> ?a" using no_edge [OF l] by (auto simp: edges_def split: if_splits)
    show "STRIP (sg_c0 l) \<in> dom (mg_nodes ?m) - ?Z" "STRIP (sg_c1 l) \<in> dom (mg_nodes ?m) - ?Z"
      using graph_okD(7) [OF g l(1)] b l(2) e unfolding D by auto
  qed (use graph_okD [OF gm] in blast)+
  have deg: "edges n b + degree m ?Z b = degree m Z b" for b
  proof -
    have "degree m Z b = edges (the (mg_nodes m ?a)) b + (\<Sum>d \<in> dom (mg_nodes m) - Z - {?a}. edges (the (mg_nodes m d)) b)"
      unfolding degree_def using graph_okD(1) [OF g] n(1) a by (intro sum.remove) auto
    moreover have "dom (mg_nodes m) - Z - {?a} = dom (mg_nodes m) - ?Z" by auto
    ultimately show ?thesis unfolding degree_def using n(1) by simp
  qed
  have "counts_ok ?m (children n + R) ?Z" unfolding counts_ok_def D(1) similar_degree [OF s(1)]
  proof (intro conjI allI impI ballI)
    fix q assume "q \<in># children n + R"
    then show "STRIP q \<in> dom (mg_nodes m) - ?Z"
      using ca counts_okD(1) [OF c, of q] z(1) held_pos [of R ?a] by auto
  next
    fix b l assume b: "mg_nodes ?m b = Some l" "b \<notin> ?Z"
    then have l: "mg_nodes m b = Some l" "b \<notin> Z" "b \<noteq> ?a" by auto
    have "b \<noteq> 0" using graph_okD(5) [OF g l(1)] by simp
    then show "sg_ref l = 4294967295 \<or> sg_ref l = refs_held (children n + R) b + degree m ?Z b" "sg_ref l \<le> 4294967295"
      using counts_okD(2,3) [OF c l(1,2)] l(3) deg [of b] children_edges [OF nd, of b] by auto
    assume "b \<noteq> mg_false ?m"
    then show "0 < sg_ref l" using counts_okD(4) [OF c l(1,2)] by simp
  qed
  then show "hinv ?m (children n + R) ?Z" unfolding hinv_def using graph similar_table [OF s(1) hinvD(3) [OF h]] by blast
qed

text \<open>The last part of \<open>dec\<close>, after the children of the node have been given back.\<close>

definition dec_tail :: "simpaigmgr \<Rightarrow> ptr \<Rightarrow> simpaig \<Rightarrow> simpaigmgr option" where
  "dec_tail m aig n = do {
     (h, q) \<leftarrow> simpaig_find m (sg_var n) (sg_slice n) (sg_c0 n) (sg_c1 n);
     (h, q) \<leftarrow> (if q \<noteq> Some aig then simpaig_find m (sg_var n) (sg_slice n) (sg_c1 n) (sg_c0 n) else Some (h, q));
     _ \<leftarrow> assert_c (q = Some aig);
     m \<leftarrow> table_remove h aig m;
     _ \<leftarrow> assert_c (0 < mg_count m);
     Some (m\<lparr>mg_nodes := (mg_nodes m)(aig := None), mg_count := mg_count m - 1\<rparr>)
   }"

lemma dec_tail_correct:
  assumes h: "hinv m R (insert a Z)" and z: "a \<notin> Z" and n: "mg_nodes m a = Some n" "sg_ref n = 0" and q: "attrs m a = (0, 0, 0)"
  shows "\<exists>m'. dec_tail m a n = Some m' \<and> hinv m' R Z \<and> heap_shrinks m m' \<and> quiet m m' \<and> (\<forall>b. b \<noteq> a \<longrightarrow> mg_nodes m' b = mg_nodes m b)"
proof -
  let ?k = "key_hash (length (mg_table m)) n"
  note d = delete_node [OF h z n(1)]
  have f: "a \<noteq> mg_false m" using graph_okD(3) [OF hinvD(1) [OF h]] by auto
  have e: "simpaig_find m (sg_var n) (sg_slice n) (sg_c0 n) (sg_c1 n) = Some (?k, Some a)"
    by (rule find_node [OF hinvD(1,3) [OF h] n(1) f])
  have t: "dec_tail m a n = Some (deleted ?k a m)"
    using d(1,2) by (simp add: dec_tail_def e table_remove_def deref_def deleted_def)
  have s: "heap_shrinks m (deleted ?k a m)" using n by (auto simp: heap_shrinks_def deleted_def)
  have "quiet m (deleted ?k a m)" using q by (auto simp: quiet_def deleted_def attrs_def fun_eq_iff split: option.splits)
  with t d(3) s show ?thesis by (intro exI [of _ "deleted ?k a m"]) (simp add: deleted_def)
qed

lemma sg_dec_step:
  assumes n: "mg_nodes m (STRIP p) = Some n" "0 < sg_ref n" "STRIP p \<noteq> 0"
  defines "r \<equiv> if sg_ref n < 4294967295 then sg_ref n - 1 else sg_ref n"
  defines "m' \<equiv> m\<lparr>mg_nodes := (mg_nodes m)(STRIP p \<mapsto> n\<lparr>sg_ref := r\<rparr>)\<rparr>"
  shows "sg_dec m p =
    (if r \<noteq> 0 \<or> sg_var n = 0 \<and> sg_c0 n = 0 then Some m'
     else do {
       m \<leftarrow> (if sg_c0 n \<noteq> 0 then do { m \<leftarrow> sg_dec m' (sg_c0 n); sg_dec m (sg_c1 n) } else Some m');
       dec_tail m (STRIP p) n
     })"
proof -
  have "n\<lparr>sg_ref := r\<rparr> = (if sg_ref n < 4294967295 then n\<lparr>sg_ref := sg_ref n - 1\<rparr> else n)" by (simp add: r_def)
  then have u: "sg_update (\<lambda>n. if sg_ref n < 4294967295 then n\<lparr>sg_ref := sg_ref n - 1\<rparr> else n) (STRIP p) m = Some m'"
    by (simp add: sg_update_def n(1) m'_def)
  have m': "mg_nodes m' (STRIP p) = Some (n\<lparr>sg_ref := r\<rparr>)" by (simp add: m'_def)
  note unfold = u m' n ISFALSE_def dec_tail_def Let_def
  show ?thesis
  proof (cases "r \<noteq> 0 \<or> sg_var n = 0 \<and> sg_c0 n = 0")
    case True
    then show ?thesis by (subst sg_dec.simps) (auto simp: unfold)
  next
    case False
    then have r: "r = 0" and v: "sg_c0 n = 0 \<Longrightarrow> sg_var n \<noteq> 0" by auto
    show ?thesis
    proof (cases "sg_c0 n = 0")
      case True
      then show ?thesis using r v n(3) by (subst sg_dec.simps) (simp add: unfold, simp cong: if_cong)
    next
      case False
      then show ?thesis using r n(3) by (subst sg_dec.simps) (simp add: unfold, simp cong: if_cong)
    qed
  qed
qed

lemma dec_hinv:
  assumes "hinv m (add_mset p R) Z" "marks m R" "reads m t" "STRIP (root t) = STRIP p"
  shows "\<exists>m'. sg_dec m p = Some m' \<and> hinv m' R Z \<and> heap_shrinks m m' \<and> quiet m m' \<and> (\<forall>z \<in> Z. mg_nodes m' z = mg_nodes m z)"
  using assms
proof (induction t arbitrary: m p R Z rule: measure_induct_rule [where f = size])
  case (less t)
  note h = less.prems(1) and k = less.prems(2)
  let ?a = "STRIP p"
  note g = hinvD(1) [OF h] and c = hinvD(2) [OF h]
  obtain n where n: "mg_nodes m ?a = Some n" and a: "?a \<notin> Z" using counts_okD(1) [OF c, of p] by auto
  have z: "?a \<noteq> 0" using graph_okD(5) [OF g n] by simp
  have ref: "sg_ref n = 4294967295 \<or> sg_ref n = Suc (refs_held R ?a + degree m Z ?a)" "sg_ref n \<le> 4294967295"
    using counts_okD(2,3) [OF c n a] by simp_all
  then have pos: "0 < sg_ref n" by auto
  let ?r = "if sg_ref n < 4294967295 then sg_ref n - 1 else sg_ref n"
  let ?m = "m\<lparr>mg_nodes := (mg_nodes m)(?a \<mapsto> n\<lparr>sg_ref := ?r\<rparr>)\<rparr>"
  note step = sg_dec_step [OF n pos z]
  have set: "similar m ?m" "quiet m ?m" "heap_shrinks m ?m" "\<And>b. b \<noteq> ?a \<Longrightarrow> mg_nodes ?m b = mg_nodes m b"
    using set_ref [where r = ?r, OF n refl] ref(2) by auto
  show ?case
  proof (cases "?r \<noteq> 0 \<or> sg_var n = 0 \<and> sg_c0 n = 0")
    case True
    have "?a = mg_false m" if "?r = 0"
      using True that graph_okD(6) [OF g n] child_nonzero [of "mg_false m" n] by (auto simp: var_node_def)
    then have "?r \<noteq> 0 \<or> ?a = mg_false m" by blast
    then have "hinv ?m R Z" by (intro dec_keep [OF h n]) (use ref(2) in auto)
    moreover have "\<forall>z \<in> Z. mg_nodes ?m z = mg_nodes m z" using set(4) a by metis
    ultimately show ?thesis unfolding step using True set(2,3) by auto
  next
    case False
    have one: "sg_ref n = 1" using False ref(2) pos by (auto split: if_splits)
    have r0: "?r = 0" using False by simp
    have f: "?a \<noteq> mg_false m" using False n graph_okD(4) [OF g] by (auto simp: sg_key_def)
    note rel = dec_release [OF h n one f]
    have h1: "hinv ?m (children n + R) (insert ?a Z)" using rel(1) unfolding r0 .
    have noattr: "attrs m ?a = (0, 0, 0)" using k rel(2) unfolding marks_def by (metis less_irrefl)
    have n1: "mg_nodes ?m ?a = Some (n\<lparr>sg_ref := 0\<rparr>)" using r0 by simp
    have mark1: "marks ?m S" if "\<And>b. refs_held R b \<le> refs_held S b" for S
      using marks_quiet [OF set(2) k] that unfolding marks_def by (metis order_less_le_trans)
    have "\<exists>m3. (if sg_c0 n \<noteq> 0 then do { m \<leftarrow> sg_dec ?m (sg_c0 n); sg_dec m (sg_c1 n) } else Some ?m) = Some m3 \<and>
      hinv m3 R (insert ?a Z) \<and> heap_shrinks ?m m3 \<and> quiet ?m m3 \<and> (\<forall>z \<in> insert ?a Z. mg_nodes m3 z = mg_nodes ?m z)"
    proof (cases "sg_c0 n = 0")
      case True
      then show ?thesis using h1 by (intro exI [of _ ?m]) (simp add: children_def)
    next
      case c0: False
      have gn: "gate_node (mg_false m) n" using graph_okD(6) [OF g n f] c0 by (auto simp: var_node_def)
      obtain w where w: "reads m w" "root w = ?a" using graph_okD(8) [OF g, of ?a] n a by auto
      have "even (root w)" unfolding w(2) by simp
      then obtain u u' where u: "w = PAnd ?a u u'" using w n c0 gn by (cases w) (auto simp: sg_key_def gate_node_def SIGN_def)
      have ru: "reads m u" "reads m u'" "root u = sg_c0 n" "root u' = sg_c1 n" using w(1) n unfolding u by (auto simp: sg_key_def)
      have small: "size u < size t" "size u' < size t"
      proof -
        have "t = w \<or> t = PNot w"
        proof (cases "SIGN (root t)")
          case True
          then obtain v where v: "t = PNot v" using reads_root [OF less.prems(3)] by blast
          then have "root v = root w" using less.prems(3,4) w(2) by (simp add: strip_even)
          then show ?thesis using reads_unique [of m v w] less.prems(3) w(1) v by simp
        next
          case False
          then have "root t = root w" using less.prems(4) w(2) by (simp add: strip_even)
          then show ?thesis using reads_unique [OF less.prems(3) w(1)] by simp
        qed
        then show "size u < size t" "size u' < size t" unfolding u by auto
      qed
      have "hinv ?m (add_mset (sg_c0 n) (add_mset (sg_c1 n) R)) (insert ?a Z)" using h1 c0 by (simp add: children_def)
      moreover have "reads ?m u" "reads ?m u'" using ru(1,2) similar_reads [OF set(1)] by simp_all
      ultimately obtain m2 where m2: "sg_dec ?m (sg_c0 n) = Some m2" "hinv m2 (add_mset (sg_c1 n) R) (insert ?a Z)" "heap_shrinks ?m m2" "quiet ?m m2"
          "\<forall>z \<in> insert ?a Z. mg_nodes m2 z = mg_nodes ?m z"
        using less.IH [OF small(1), of ?m "sg_c0 n" "add_mset (sg_c1 n) R" "insert ?a Z"] mark1 ru(3) by auto
      have "reads m2 u'" using shrinks_reads [OF m2(3) hinvD(1) [OF m2(2)] \<open>reads ?m u'\<close>] counts_okD(1) [OF hinvD(2) [OF m2(2)], of "sg_c1 n"] ru(4) by simp
      moreover have "marks m2 R" using marks_quiet [OF m2(4)] mark1 [of R] by simp
      ultimately obtain m3 where m3: "sg_dec m2 (sg_c1 n) = Some m3" "hinv m3 R (insert ?a Z)" "heap_shrinks m2 m3" "quiet m2 m3"
          "\<forall>z \<in> insert ?a Z. mg_nodes m3 z = mg_nodes m2 z"
        using less.IH [OF small(2) m2(2)] ru(4) by auto
      show ?thesis using c0 m2 m3 shrinks_trans [OF m2(3) m3(3)] quiet_trans [OF m2(4) m3(4)] by (intro exI [of _ m3]) auto
    qed
    then obtain m3 where m3: "(if sg_c0 n \<noteq> 0 then do { m \<leftarrow> sg_dec ?m (sg_c0 n); sg_dec m (sg_c1 n) } else Some ?m) = Some m3"
      "hinv m3 R (insert ?a Z)" "heap_shrinks ?m m3" "quiet ?m m3" "\<forall>z \<in> insert ?a Z. mg_nodes m3 z = mg_nodes ?m z" by blast
    have n3: "mg_nodes m3 ?a = Some (n\<lparr>sg_ref := 0\<rparr>)" using m3(5) n1 by simp
    have q3: "attrs m3 ?a = (0, 0, 0)" using noattr set(2) m3(4) by (simp add: quiet_def)
    have tail: "dec_tail m3 ?a (n\<lparr>sg_ref := 0\<rparr>) = dec_tail m3 ?a n" by (simp add: dec_tail_def cong: if_cong)
    obtain m4 where m4: "dec_tail m3 ?a n = Some m4" "hinv m4 R Z" "heap_shrinks m3 m4" "quiet m3 m4" "\<forall>b. b \<noteq> ?a \<longrightarrow> mg_nodes m4 b = mg_nodes m3 b"
      using dec_tail_correct [OF m3(2) a n3 _ q3] unfolding tail by auto
    have "\<forall>z \<in> Z. mg_nodes m4 z = mg_nodes m z" using m4(5) m3(5) set(4) a by (metis insertI2)
    moreover have "sg_dec m p = Some m4" unfolding step if_not_P [OF False] m3(1) using m4(1) by simp
    ultimately show ?thesis
      using m4(2) shrinks_trans [OF set(3) shrinks_trans [OF m3(3) m4(3)]] quiet_trans [OF set(2) quiet_trans [OF m3(4) m4(4)]] by blast
  qed
qed

end
