(* ===== verification/SimpAigBuild.thy ===== *)
theory SimpAigBuild
  imports SimpAigDec
begin

text \<open>
  The constructors of \<open>simpaig\<close>: the hash table grows, variables and conjunctions are found or added, and
  the other connectives are built from conjunction and negation.
\<close>

section \<open>The table\<close>

lemma mset_concat_update:
  assumes "h < length xss"
  shows "mset (concat (xss[h := ys])) + mset (xss ! h) = mset (concat xss) + mset ys"
proof -
  have x: "xss = take h xss @ (xss ! h) # drop (Suc h) xss" using assms by (simp add: id_take_nth_drop)
  have u: "xss[h := ys] = take h xss @ ys # drop (Suc h) xss" using assms by (simp add: upd_conv_take_nth_drop)
  show ?thesis unfolding u by (subst (3) x) simp
qed

lemma concat_add:
  assumes h: "h < length xss" and y: "mset ys = add_mset a (mset (xss ! h))"
  shows "distinct (concat (xss[h := ys])) \<longleftrightarrow> distinct (a # concat xss)" "set (concat (xss[h := ys])) = insert a (set (concat xss))"
    "length (concat (xss[h := ys])) = Suc (length (concat xss))"
proof -
  have e: "mset (concat (xss[h := ys])) = mset (a # concat xss)" using mset_concat_update [OF h, of ys] y by simp
  show "distinct (concat (xss[h := ys])) \<longleftrightarrow> distinct (a # concat xss)" by (rule mset_eq_imp_distinct_iff [OF e])
  show "set (concat (xss[h := ys])) = insert a (set (concat xss))" using mset_eq_setD [OF e] by simp
  show "length (concat (xss[h := ys])) = Suc (length (concat xss))" using mset_eq_length [OF e] by simp
qed

definition hashed :: "sg_heap \<Rightarrow> ptr list list \<Rightarrow> bool" where
  "hashed nodes T \<longleftrightarrow> (\<forall>h < length T. \<forall>a \<in> set (T ! h). \<forall>n. nodes a = Some n \<longrightarrow> key_hash (length T) n = h)"

lemma hashed_add:
  assumes "hashed nodes T" "h < length T" "set ys = insert a (set (T ! h))" "\<And>n. nodes a = Some n \<Longrightarrow> key_hash (length T) n = h"
  shows "hashed nodes (T[h := ys])"
  using assms unfolding hashed_def by (auto simp: nth_list_update)

lemma push_all:
  assumes "\<forall>a \<in> set ps. nodes a \<noteq> None" "mg_nodes m = nodes" "length (mg_table m) = k" "0 < k" "k < 4294967296"
    "hashed nodes (mg_table m)" "distinct (concat (mg_table m) @ ps)"
  shows "\<exists>T. foldm (\<lambda>p m. do {
           n \<leftarrow> mg_nodes m p;
           table_push (simpaig_hash k (sg_var n) (sg_slice n) (sg_c0 n) (sg_c1 n)) p m
         }) ps m = Some (m\<lparr>mg_table := T\<rparr>) \<and> length T = k \<and> hashed nodes T \<and> distinct (concat T) \<and>
         set (concat T) = set (concat (mg_table m)) \<union> set ps \<and> length (concat T) = length (concat (mg_table m)) + length ps"
  using assms
proof (induction ps arbitrary: m)
  case Nil
  then show ?case by (intro exI [of _ "mg_table m"]) simp
next
  case (Cons p ps)
  obtain n where n: "nodes p = Some n" using Cons.prems(1) by auto
  let ?h = "key_hash k n" and ?T = "mg_table m"
  have h: "?h < length ?T" using hash_less Cons.prems(3-5) by (simp add: key_hash_def)
  let ?m = "m\<lparr>mg_table := ?T[?h := p # ?T ! ?h]\<rparr>"
  note ca = concat_add [OF h, of "p # ?T ! ?h" p, simplified]
  have hs: "hashed nodes (mg_table ?m)" using hashed_add [OF Cons.prems(6) h, of "p # ?T ! ?h" p] n Cons.prems(3) by simp
  have d: "distinct (concat (mg_table ?m) @ ps)" using Cons.prems(7) ca(1,2) by auto
  have p: "\<forall>a \<in> set ps. nodes a \<noteq> None" using Cons.prems(1) by simp
  obtain T where T: "foldm (\<lambda>p m. do {
           n \<leftarrow> mg_nodes m p;
           table_push (simpaig_hash k (sg_var n) (sg_slice n) (sg_c0 n) (sg_c1 n)) p m
         }) ps ?m = Some (?m\<lparr>mg_table := T\<rparr>)" "length T = k" "hashed nodes T" "distinct (concat T)"
         "set (concat T) = set (concat (mg_table ?m)) \<union> set ps" "length (concat T) = length (concat (mg_table ?m)) + length ps"
    using Cons.IH [OF p _ _ Cons.prems(4,5) hs d] Cons.prems(2,3) by auto
  have "set (concat T) = set (concat ?T) \<union> set (p # ps)" "length (concat T) = length (concat ?T) + length (p # ps)"
    using T(5,6) ca(2,3) by auto
  moreover have "table_push (simpaig_hash k (sg_var n) (sg_slice n) (sg_c0 n) (sg_c1 n)) p m = Some ?m"
    using h by (simp add: table_push_def deref_def key_hash_def)
  ultimately show ?case using n Cons.prems(2) T(1-4) by (intro exI [of _ T]) simp
qed

lemma table_hashed: "table_ok m \<Longrightarrow> hashed (mg_nodes m) (mg_table m)"
  unfolding hashed_def using table_okD(3) by blast

lemma hashed_empty: "hashed nodes (replicate k [])"
  by (simp add: hashed_def)

lemma concat_replicate_Nil [simp]: "concat (replicate k []) = []"
  by (induction k) auto

text \<open>After the table has grown, there is room for another node.\<close>

lemma enlarge_hinv:
  assumes h: "hinv m R Z" and l: "length (mg_table m) < 2147483648"
  shows "\<exists>T. simpaig_enlarge m = Some (m\<lparr>mg_table := T\<rparr>) \<and> hinv (m\<lparr>mg_table := T\<rparr>) R Z \<and> mg_count m < length T"
proof -
  note t = hinvD(3) [OF h]
  let ?k = "if mg_table m \<noteq> [] then u32 (2 * length (mg_table m)) else 1"
  have k: "0 < ?k" "?k < 4294967296" "mg_count m < ?k" using l table_okD(5) [OF t] by (cases "mg_table m"; auto)+
  have e: "\<forall>a \<in> set (concat (mg_table m)). mg_nodes m a \<noteq> None" using table_okD(2) [OF t] by auto
  obtain T where T: "simpaig_enlarge m = Some (m\<lparr>mg_table := T\<rparr>)" "length T = ?k" "hashed (mg_nodes m) T" "distinct (concat T)"
      "set (concat T) = set (concat (mg_table m))" "length (concat T) = length (concat (mg_table m))"
    using push_all [OF e, of "m\<lparr>mg_table := replicate ?k []\<rparr>" ?k] k(1,2) table_okD(1) [OF t] hashed_empty
    by (auto simp: simpaig_enlarge_def Let_def)
  let ?m = "m\<lparr>mg_table := T\<rparr>"
  have "table_ok ?m" using T(2-6) table_okD(2,4) [OF t] k unfolding table_ok_def hashed_def by auto
  moreover have "graph_ok ?m Z" "counts_ok ?m R Z"
  proof -
    have "reads ?m w \<longleftrightarrow> reads m w" for w by (induction w) simp_all
    then show "graph_ok ?m Z" using hinvD(1) [OF h] by (simp add: graph_ok_def)
    have "degree ?m Z a = degree m Z a" for a by (simp add: degree_def)
    then show "counts_ok ?m R Z" using hinvD(2) [OF h] by (simp add: counts_ok_def)
  qed
  ultimately show ?thesis using T(1,2) k(3) by (intro exI [of _ T]) (simp add: hinv_def)
qed

section \<open>A new node\<close>

lemma degree_outside:
  assumes g: "graph_ok m Z" and a: "a \<notin> dom (mg_nodes m) - Z" "a \<noteq> 0"
  shows "degree m Z a = 0"
proof (rule ccontr)
  assume "degree m Z a \<noteq> 0"
  then obtain b n where b: "mg_nodes m b = Some n" "b \<notin> Z" "0 < edges n a" using degree_pos [OF g] by auto
  have "b \<noteq> mg_false m" using graph_okD(4) [OF g] b(1,3) a(2) by (auto simp: sg_key_def edges_def split: if_splits)
  moreover from this have "sg_var n = 0" using graph_okD(6) [OF g b(1)] b(3) a(2) by (auto simp: var_node_def gate_node_def edges_def split: if_splits)
  ultimately have "STRIP (sg_c0 n) \<in> dom (mg_nodes m) - Z" "STRIP (sg_c1 n) \<in> dom (mg_nodes m) - Z"
    using graph_okD(7) [OF g b(1)] b(2) by auto
  then show False using b(3) a(1) by (auto simp: edges_def split: if_splits)
qed

lemma tree_at:
  assumes "graph_ok m Z" "STRIP p \<in> dom (mg_nodes m) - Z"
  obtains t where "reads m t" "root t = p"
proof -
  obtain t where t: "reads m t" "root t = STRIP p" using graph_okD(8) [OF assms] by blast
  show thesis
  proof (cases "SIGN p")
    case True
    then have "NOT_ptr (STRIP p) = p" using not_strip by (metis ptr_simps(2))
    with t that [of "pnot t"] show thesis by simp
  qed (use t that strip_even(2) in auto)
qed

lemma add_node:
  assumes h: "hinv m (children n + R) {}" and a: "a \<notin> dom (mg_nodes m)" "even a" "a \<noteq> 0"
    and n: "gate_node (mg_false m) n \<or> var_node n" "sg_ref n = 1"
    and new: "\<And>b k. mg_nodes m b = Some k \<Longrightarrow> b \<noteq> mg_false m \<Longrightarrow> \<not> same_gate n k"
    and i: "i = key_hash (length (mg_table m)) n" "mg_count m < length (mg_table m)"
  shows "hinv (m\<lparr>mg_calls := c, mg_nodes := (mg_nodes m)(a \<mapsto> n), mg_count := u32 (mg_count m + 1), mg_table := (mg_table m)[i := mg_table m ! i @ [a]]\<rparr>)
    (add_mset a R) {}" (is "hinv ?m _ _")
proof -
  note g = hinvD(1) [OF h] and co = hinvD(2) [OF h] and t = hinvD(3) [OF h]
  have "0 < length (mg_table m)" using i(2) by linarith
  then have lt: "i < length (mg_table m)" unfolding i(1) key_hash_def using table_okD(6) [OF t] by (rule hash_less)
  have cn: "u32 (mg_count m + 1) = Suc (mg_count m)" using i(2) table_okD(6) [OF t] by simp
  have N: "mg_nodes ?m = (mg_nodes m)(a \<mapsto> n)" "mg_false ?m = mg_false m" by simp_all
  have D: "dom (mg_nodes ?m) = insert a (dom (mg_nodes m))" by auto
  have f: "mg_false m \<in> dom (mg_nodes m)" "a \<noteq> mg_false m" using graph_okD(4) [OF g] a(1) by auto
  have old: "reads ?m w" if "reads m w" for w
  proof (rule reads_frame [OF that])
    show "same_key m ?m b" if "b \<in> addrs w" for b using reads_addrs(2) [OF \<open>reads m w\<close> that] a(1) by (auto simp: same_key_def)
  qed simp
  have ch: "STRIP q \<in> dom (mg_nodes m)" if "q \<in># children n" for q using counts_okD(1) [OF co, of q] that by auto
  have gate: "sg_var n = 0 \<Longrightarrow> children n = {#sg_c0 n, sg_c1 n#} \<and> gate_node (mg_false m) n" using n(1) child_nonzero [of "mg_false m" n] by (auto simp: children_def var_node_def)
  have graph: "graph_ok ?m {}" unfolding graph_ok_def
  proof (intro conjI allI impI ballI)
    show "finite (dom (mg_nodes ?m))" unfolding D using graph_okD(1) [OF g] by simp
    show "reads ?m (PFalse (mg_false ?m))" using old [OF graph_okD(4) [OF g]] by simp
    show "{} \<subseteq> dom (mg_nodes ?m) - {mg_false ?m}" by simp
  next
    fix b assume b: "b \<in> dom (mg_nodes ?m) - {}"
    show "\<exists>w. reads ?m w \<and> root w = b"
    proof (cases "b = a")
      case True
      show ?thesis
      proof (cases "sg_var n = 0")
        case v: True
        then have q: "sg_c0 n \<in># children n" "sg_c1 n \<in># children n" and gn: "gate_node (mg_false m) n" using gate by auto
        obtain w where w: "reads m w" "root w = sg_c0 n" using tree_at [OF g, of "sg_c0 n"] ch [OF q(1)] by auto
        obtain u where u: "reads m u" "root u = sg_c1 n" using tree_at [OF g, of "sg_c1 n"] ch [OF q(2)] by auto
        have "reads ?m (PAnd a w u)" using old [OF w(1)] old [OF u(1)] w(2) u(2) v gn a(2) by (simp add: sg_key_def gate_node_def)
        with True show ?thesis by (intro exI [of _ "PAnd a w u"]) simp
      next
        case False
        then have "reads ?m (PVar a (sg_var n) (sg_slice n))" using n(1) a(2) by (auto simp: sg_key_def var_node_def gate_node_def)
        with True show ?thesis by (intro exI [of _ "PVar a (sg_var n) (sg_slice n)"]) simp
      qed
    next
      case False
      with b obtain w where "reads m w" "root w = b" using graph_okD(8) [OF g, of b] by auto
      then show ?thesis using old by blast
    qed
  next
    fix b l assume b: "mg_nodes ?m b = Some l"
    show "even b" "b \<noteq> 0" using b graph_okD(5) [OF g, of b l] a(2,3) by (auto split: if_splits)
    assume bf: "b \<noteq> mg_false ?m"
    show "gate_node (mg_false ?m) l \<or> var_node l" using b n(1) graph_okD(6) [OF g, of b l] bf by (auto split: if_splits)
    assume v: "sg_var l = 0"
    show "STRIP (sg_c0 l) \<in> dom (mg_nodes ?m) - {}" "STRIP (sg_c1 l) \<in> dom (mg_nodes ?m) - {}"
      using b v graph_okD(7) [OF g, of b l] bf gate ch unfolding D by (auto split: if_splits)
  next
    fix b l d e assume "mg_nodes ?m b = Some l" "mg_nodes ?m d = Some e" "b \<noteq> mg_false ?m" "d \<noteq> mg_false ?m" "same_gate l e"
    then show "b = d" using new [of b l] new [of d e] same_gate_sym [of l e] graph_okD(9) [OF g, of b l d e] by (auto split: if_splits)
  qed
  have deg: "degree ?m {} b = edges n b + degree m {} b" for b
  proof -
    have "degree ?m {} b = edges (the (mg_nodes ?m a)) b + (\<Sum>d \<in> dom (mg_nodes m). edges (the (mg_nodes ?m d)) b)"
      unfolding degree_def D using graph_okD(1) [OF g] a(1) by simp
    also have "(\<Sum>d \<in> dom (mg_nodes m). edges (the (mg_nodes ?m d)) b) = degree m {} b"
      unfolding degree_def using a(1) by (intro sum.cong) auto
    finally show ?thesis unfolding N by (simp only: fun_upd_same option.sel)
  qed
  have ea: "edges n a = 0" "degree m {} a = 0" "refs_held R a = 0"
  proof -
    show "edges n a = 0" using children_edges [OF n(1) a(3)] held_pos [of "children n" a] ch a(1) by auto
    show "degree m {} a = 0" using degree_outside [OF g] a by simp
    show "refs_held R a = 0" using held_pos [of R a] counts_okD(1) [OF co] a(1) by force
  qed
  have counts: "counts_ok ?m (add_mset a R) {}" unfolding counts_ok_def
  proof (intro conjI allI impI ballI)
    fix q assume "q \<in># add_mset a R"
    then show "STRIP q \<in> dom (mg_nodes ?m) - {}" using counts_okD(1) [OF co, of q] a(2) unfolding D by (auto simp: strip_even)
  next
    fix b l assume b: "mg_nodes ?m b = Some l"
    have "(sg_ref l = 4294967295 \<or> sg_ref l = refs_held (add_mset a R) b + degree ?m {} b) \<and> sg_ref l \<le> 4294967295 \<and> (b \<noteq> mg_false ?m \<longrightarrow> 0 < sg_ref l)"
    proof (cases "b = a")
      case True
      with b ea n(2) a(2) deg [of a] show ?thesis by (simp add: strip_even)
    next
      case False
      with b have l: "mg_nodes m b = Some l" by simp
      have "b \<noteq> 0" using graph_okD(5) [OF g l] by simp
      then show ?thesis using counts_okD(2-4) [OF co l] children_edges [OF n(1)] False a(2) deg [of b] by (auto simp: strip_even)
    qed
    then show "sg_ref l = 4294967295 \<or> sg_ref l = refs_held (add_mset a R) b + degree ?m {} b" "sg_ref l \<le> 4294967295"
      "b \<noteq> mg_false ?m \<Longrightarrow> 0 < sg_ref l" by blast+
  qed
  have table: "table_ok ?m"
  proof -
    note ca = concat_add [OF lt, of "mg_table m ! i @ [a]" a, simplified]
    have "b \<noteq> a" if "j < length (mg_table m)" "b \<in> set (mg_table m ! j)" for j b using table_alive [OF t that] a(1) by auto
    then have "hashed (mg_nodes ?m) (mg_table m)" using table_hashed [OF t] unfolding hashed_def by auto
    then have "hashed (mg_nodes ?m) ((mg_table m)[i := mg_table m ! i @ [a]])"
      by (rule hashed_add [OF _ lt, where a = a]) (use i(1) in auto)
    then have "hashed (mg_nodes ?m) (mg_table ?m)" by simp
    moreover have "set (concat (mg_table ?m)) = dom (mg_nodes ?m) - {mg_false ?m}" using ca(2) table_okD(2) [OF t] f(2) unfolding D by auto
    moreover have "distinct (concat (mg_table ?m))" using ca(1) table_okD(1,2) [OF t] a(1) by auto
    ultimately show ?thesis unfolding table_ok_def hashed_def using ca(3) cn i(2) table_okD(4,6) [OF t] by auto
  qed
  show ?thesis unfolding hinv_def using graph counts table by blast
qed

section \<open>Contracts\<close>

text \<open>
  \<open>malloc\<close>: as long as fewer than \<open>2 ^ 31\<close> nodes are in use, it returns an aligned address that is free.
\<close>

definition allocates :: "(nat \<Rightarrow> sg_heap \<Rightarrow> ptr) \<Rightarrow> bool" where
  "allocates f \<longleftrightarrow> (\<forall>c h. finite (dom h) \<longrightarrow> card (dom h) < 2147483648 \<longrightarrow> even (f c h) \<and> f c h \<noteq> 0 \<and> f c h \<notin> dom h)"

definition nodes_used :: "simpaigmgr \<Rightarrow> nat" where
  "nodes_used m = card (dom (mg_nodes m))"

definition refs_below :: "simpaigmgr \<Rightarrow> nat \<Rightarrow> bool" where
  "refs_below m K \<longleftrightarrow> (\<forall>a n. mg_nodes m a = Some n \<longrightarrow> sg_ref n \<le> K)"

text \<open>
  A result: a reference to \<open>p\<close> is handed out, what was there stays, and at most \<open>k\<close> nodes and \<open>k\<close>
  references to a node have been added.
\<close>

definition makes :: "nat \<Rightarrow> simpaigmgr \<Rightarrow> ptr multiset \<Rightarrow> ptr \<Rightarrow> simpaigmgr \<Rightarrow> bool" where
  "makes k m R p m' \<longleftrightarrow> hinv m' (add_mset p R) {} \<and> grows m m' \<and> quiet m m' \<and> nodes_used m' \<le> nodes_used m + k \<and>
     (\<forall>K. refs_below m K \<longrightarrow> refs_below m' (K + k))"

lemma makesD:
  assumes "makes k m R p m'"
  shows "hinv m' (add_mset p R) {}" "grows m m'" "quiet m m'" "nodes_used m' \<le> nodes_used m + k" "refs_below m K \<Longrightarrow> refs_below m' (K + k)"
    "reads m t \<Longrightarrow> reads m' t"
  using assms grows_reads unfolding makes_def by blast+

lemma makes_inc:
  assumes h: "hinv m R {}" and p: "STRIP p \<in> dom (mg_nodes m)"
  shows "\<exists>m'. sg_inc p m = Some m' \<and> makes 1 m R p m'"
proof -
  obtain m' where m': "sg_inc p m = Some m'" "hinv m' (add_mset p R) {}" "similar m m'" "grows m m'" "quiet m m'"
    using inc_hinv [OF h, of p] p by auto
  have "refs_below m' (K + 1)" if K: "refs_below m K" for K
    unfolding refs_below_def
  proof (intro allI impI)
    fix a n' assume n': "mg_nodes m' a = Some n'"
    from m'(1) obtain n where n: "mg_nodes m (STRIP p) = Some n"
      "m' = m\<lparr>mg_nodes := (mg_nodes m)(STRIP p \<mapsto> (if sg_ref n < 4294967295 then n\<lparr>sg_ref := sg_ref n + 1\<rparr> else n))\<rparr>"
      by (auto simp: sg_inc_def sg_update_def bind_eq_Some_conv)
    show "sg_ref n' \<le> K + 1" using K n n' unfolding refs_below_def by (fastforce split: if_splits)
  qed
  then show ?thesis using m' similar_dom [OF m'(3)] by (auto simp: makes_def nodes_used_def)
qed

lemma isfalse_tree: "reads m t \<Longrightarrow> graph_ok m Z \<Longrightarrow> ISFALSE m (root t) = Some (\<exists>a. t = PFalse a)"
  using strip_nonzero by (cases t) (auto simp: ISFALSE_def SIGN_def sg_key_def)

lemma istrue_tree: "reads m t \<Longrightarrow> graph_ok m Z \<Longrightarrow> ISTRUE m (root t) = Some (\<exists>a. t = PNot (PFalse a))"
  using isfalse_tree [of m "pnot t" Z] reads_root [of m t] by (cases t) (auto simp: ISTRUE_def)

lemma isvar_tree: "reads m t \<Longrightarrow> ISVAR m (root t) = Some (\<exists>a v s. t = PVar a v s)"
  by (cases t) (auto simp: ISVAR_def SIGN_def sg_key_def)

lemma isconst_tree: "reads m t \<Longrightarrow> ISCONST m (root t) = Some (STRIP (root t) = mg_false m)" if "graph_ok m Z"
proof -
  assume r: "reads m t"
  obtain n where n: "mg_nodes m (STRIP (root t)) = Some n" using reads_dom [OF r] by blast
  have "sg_var n = 0 \<and> sg_c0 n = 0 \<longleftrightarrow> STRIP (root t) = mg_false m"
  proof (cases "STRIP (root t) = mg_false m")
    case True
    then show ?thesis using n graph_okD(4) [OF that] by (auto simp: sg_key_def)
  next
    case False
    then show ?thesis using graph_okD(6) [OF that n] child_nonzero [of "mg_false m" n] by (auto simp: var_node_def)
  qed
  then show ?thesis by (simp add: ISCONST_def n)
qed

lemma import_tree:
  assumes "hinv m R {}" "p \<in># R"
  shows "IMPORT m p = Some p"
proof -
  obtain n where n: "mg_nodes m (STRIP p) = Some n" using counts_okD(1) [OF hinvD(2) [OF assms(1)] assms(2)] by auto
  have "0 < refs_held R (STRIP p)" using held_pos [of R "STRIP p"] assms(2) by blast
  then have "0 < sg_ref n" using counts_okD(2) [OF hinvD(2) [OF assms(1)] n] by auto
  then show ?thesis by (simp add: IMPORT_def n)
qed

text \<open>The table is enlarged when it is full.\<close>

lemma room_hinv:
  assumes h: "hinv m R {}" and u: "nodes_used m \<le> 2147483648"
  shows "\<exists>T. (if length (mg_table m) = mg_count m then simpaig_enlarge m else Some m) = Some (m\<lparr>mg_table := T\<rparr>) \<and>
    hinv (m\<lparr>mg_table := T\<rparr>) R {} \<and> mg_count m < length T"
proof (cases "length (mg_table m) = mg_count m")
  case True
  note g = hinvD(1) [OF h] and t = hinvD(3) [OF h]
  have "mg_count m = card (dom (mg_nodes m) - {mg_false m})"
    using table_okD(1,2,4) [OF t] by (metis distinct_card)
  also have "\<dots> < nodes_used m" unfolding nodes_used_def using graph_okD(1,4) [OF g]
    by (intro psubset_card_mono) auto
  finally show ?thesis using enlarge_hinv [OF h] True u by simp
next
  case False
  then show ?thesis using table_okD(5) [OF hinvD(3) [OF h]] h by (intro exI [of _ "mg_table m"]) simp
qed

lemma table_change: "grows m (m\<lparr>mg_table := T\<rparr>)" "quiet m (m\<lparr>mg_table := T\<rparr>)" "reads (m\<lparr>mg_table := T\<rparr>) t \<longleftrightarrow> reads m t"
proof -
  show "grows m (m\<lparr>mg_table := T\<rparr>)" "quiet m (m\<lparr>mg_table := T\<rparr>)" by (simp_all add: grows_def quiet_def attrs_def fun_eq_iff)
  show "reads (m\<lparr>mg_table := T\<rparr>) t \<longleftrightarrow> reads m t" by (induction t) simp_all
qed

text \<open>A fresh node enters the heap and the table.\<close>

lemma add_node_makes:
  assumes h: "hinv m (children n + R) {}" and al: "allocates (mg_malloc m)" and u: "nodes_used m < 2147483648"
    and a: "a = mg_malloc m c (mg_nodes m)"
    and n: "gate_node (mg_false m) n \<or> var_node n" "sg_ref n = 1" "sg_cache n = 0" "sg_rhs n = 0" "sg_idx n = 0"
    and new: "\<And>b k. mg_nodes m b = Some k \<Longrightarrow> b \<noteq> mg_false m \<Longrightarrow> \<not> same_gate n k"
    and i: "i = key_hash (length (mg_table m)) n" "mg_count m < length (mg_table m)"
    and m': "m' = m\<lparr>mg_calls := Suc c, mg_nodes := (mg_nodes m)(a \<mapsto> n), mg_count := u32 (mg_count m + 1), mg_table := (mg_table m)[i := mg_table m ! i @ [a]]\<rparr>"
  shows "hinv m' (add_mset a R) {}" "grows m m'" "quiet m m'" "nodes_used m' = Suc (nodes_used m)" "0 < K \<Longrightarrow> refs_below m K \<Longrightarrow> refs_below m' K"
    "a \<notin> dom (mg_nodes m)" "even a" "mg_nodes m' a = Some n"
proof -
  have f: "finite (dom (mg_nodes m))" by (rule graph_okD(1) [OF hinvD(1) [OF h]])
  then have aa: "even a" "a \<noteq> 0" "a \<notin> dom (mg_nodes m)" using al u unfolding allocates_def a nodes_used_def by blast+
  show "hinv m' (add_mset a R) {}" unfolding m' by (rule add_node [OF h aa(3,1,2) n(1,2) new i])
  show "grows m m'" using aa(3) unfolding m' by (auto simp: grows_def)
  show "quiet m m'" using aa(3) n(3-5) unfolding m' by (auto simp: quiet_def attrs_def fun_eq_iff split: option.splits)
  show "nodes_used m' = Suc (nodes_used m)" using aa(3) f unfolding m' nodes_used_def by simp
  show "0 < K \<Longrightarrow> refs_below m K \<Longrightarrow> refs_below m' K" using n(2) unfolding m' by (simp add: refs_below_def)
  show "a \<notin> dom (mg_nodes m)" "even a" "mg_nodes m' a = Some n" using aa unfolding m' by simp_all
qed

lemma var_makes:
  assumes h: "hinv m R {}" and al: "allocates (mg_malloc m)" and u: "nodes_used m < 2147483648" and v: "v \<noteq> 0"
  shows "\<exists>a m'. simpaig_var m v s = Some (a, m') \<and> makes 1 m R a m' \<and> reads m' (PVar a v s)"
proof -
  obtain T where T: "(if length (mg_table m) = mg_count m then simpaig_enlarge m else Some m) = Some (m\<lparr>mg_table := T\<rparr>)"
    "hinv (m\<lparr>mg_table := T\<rparr>) R {}" "mg_count m < length T" using room_hinv [OF h] u by auto
  let ?m = "m\<lparr>mg_table := T\<rparr>"
  have ne: "mg_table ?m \<noteq> []" using T(3) by auto
  obtain i r where r: "i < length T" "simpaig_find ?m v s 0 0 = Some (i, r)" "i = simpaig_hash (length T) v s 0 0"
    "found m (v, s, 0, 0) r"
    using find_spec [OF hinvD(3) [OF T(2)] ne refl, of v s 0 0] by auto
  show ?thesis
  proof (cases r)
    case (Some a)
    then obtain n where n: "mg_nodes m a = Some n" "sg_key n = (v, s, 0, 0)" using r(4) by (auto simp: found_def)
    have "even a" using graph_okD(5) [OF hinvD(1) [OF h] n(1)] by simp
    then obtain m' where m': "sg_inc a ?m = Some m'" "makes 1 ?m R a m'" using makes_inc [OF T(2), of a] n(1) by (auto simp: strip_even)
    have "simpaig_var m v s = Some (a, m')" using v T(1) r(2) Some m'(1) by (simp add: simpaig_var_def)
    moreover have "makes 1 m R a m'"
      using m'(2) grows_trans [OF table_change(1)] quiet_trans [OF table_change(2)]
      by (auto simp: makes_def nodes_used_def refs_below_def)
    moreover have "reads m' (PVar a v s)"
      using makesD(6) [OF m'(2), of "PVar a v s"] n v \<open>even a\<close> by simp
    ultimately show ?thesis by blast
  next
    case None
    let ?a = "mg_malloc m (mg_calls m) (mg_nodes m)"
    let ?n = "simpaig0\<lparr>sg_var := v, sg_slice := s, sg_ref := 1\<rparr>"
    let ?m' = "?m\<lparr>mg_calls := Suc (mg_calls m), mg_nodes := (mg_nodes m)(?a \<mapsto> ?n), mg_count := u32 (mg_count m + 1), mg_table := T[i := T ! i @ [?a]]\<rparr>"
    have new: "\<not> same_gate ?n k" if "mg_nodes m b = Some k" "b \<noteq> mg_false m" for b k
      using r(4) None that by (auto simp: found_def same_gate_def sg_key_def simpaig0_def)
    have nd: "gate_node (mg_false m) ?n \<or> var_node ?n" using v by (simp add: var_node_def simpaig0_def)
    have hc: "hinv ?m (children ?n + R) {}" using T(2) by (simp add: children_def simpaig0_def)
    have ih: "i = key_hash (length T) ?n" unfolding r(3) by (simp add: key_hash_def simpaig0_def)
    note an = add_node_makes [OF hc, of ?a "mg_calls m" i ?m']
    have an': "hinv ?m' (add_mset ?a R) {}" "grows ?m ?m'" "quiet ?m ?m'" "nodes_used ?m' = Suc (nodes_used ?m)"
      "\<And>K. 0 < K \<Longrightarrow> refs_below ?m K \<Longrightarrow> refs_below ?m' K" "?a \<notin> dom (mg_nodes m)" "even ?a" "mg_nodes ?m' ?a = Some ?n"
      using an al u nd new ih T(3) by (simp_all add: nodes_used_def simpaig0_def)
    have a0: "?a \<noteq> 0" using al u graph_okD(1) [OF hinvD(1) [OF h]] unfolding allocates_def nodes_used_def by blast
    have "simpaig_var m v s = Some (?a, ?m')"
      using v T(1) r(1,2) None a0 an'(7)
      by (simp add: simpaig_var_def sg_new_def sg_update_def table_insert_def deref_def sg_inc_def strip_even simpaig0_def Let_def)
    moreover have "makes 1 m R ?a ?m'"
      unfolding makes_def
    proof (intro conjI allI impI)
      show "grows m ?m'" by (rule grows_trans [OF table_change(1) an'(2)])
      show "quiet m ?m'" by (rule quiet_trans [OF table_change(2) an'(3)])
      show "nodes_used ?m' \<le> nodes_used m + 1" using an'(4) by (simp add: nodes_used_def)
      show "refs_below ?m' (K + 1)" if "refs_below m K" for K using an'(5) [of "K + 1"] that by (simp add: refs_below_def le_Suc_eq)
    qed (rule an'(1))
    moreover have "reads ?m' (PVar ?a v s)" using an'(7,8) v by (simp add: sg_key_def simpaig0_def)
    ultimately show ?thesis by blast
  qed
qed

end
