(* ===== verification/SimpAigAnd.thy ===== *)
theory SimpAigAnd
  imports SimpAigBuild
begin

text \<open>
  The conjunction: it is simplified, found in the table or added. The invariant of the whole manager,
  with the references that its lists hold, and the connectives as clients of conjunction, negation and
  \<open>dec\<close>.
\<close>

section \<open>Conjunction\<close>

lemma makes_sub:
  assumes "makes k m R p m'" "k \<le> l"
  shows "makes l m R p m'"
  using assms unfolding makes_def refs_below_def by (meson add_le_mono1 le_trans add_left_mono)

lemma refs_below_mono: "refs_below m K \<Longrightarrow> K \<le> L \<Longrightarrow> refs_below m L"
  unfolding refs_below_def by (meson le_trans)

lemma makes_table:
  assumes "makes k (m\<lparr>mg_table := T\<rparr>) R p m'"
  shows "makes k m R p m'"
  using assms grows_trans [OF table_change(1)] quiet_trans [OF table_change(2)]
  by (auto simp: makes_def nodes_used_def refs_below_def)

text \<open>Operands that are not simplified away: no constant, and over different nodes.\<close>

definition plain_pair :: "simpaigmgr \<Rightarrow> ptree \<Rightarrow> ptree \<Rightarrow> bool" where
  "plain_pair m t u \<longleftrightarrow> STRIP (root t) \<noteq> STRIP (root u) \<and> STRIP (root t) \<noteq> mg_false m \<and> STRIP (root u) \<noteq> mg_false m"

definition and_find :: "simpaigmgr \<Rightarrow> ptr \<Rightarrow> ptr \<Rightarrow> (ptr \<times> simpaigmgr) option" where
  "and_find m c0 c1 = do {
     (h, p) \<leftarrow> simpaig_find m 0 0 c1 c0;
     (res, m) \<leftarrow>
       (case p of
          Some res \<Rightarrow> Some (res, m)
        | None \<Rightarrow> do {
            (h, p) \<leftarrow> simpaig_find m 0 0 c0 c1;
            (case p of
               Some res \<Rightarrow> Some (res, m)
             | None \<Rightarrow> do {
                 (res, m) \<leftarrow> sg_new m;
                 m \<leftarrow> sg_inc c0 m;
                 m \<leftarrow> sg_update (\<lambda>n. n\<lparr>sg_c0 := c0\<rparr>) res m;
                 m \<leftarrow> sg_inc c1 m;
                 m \<leftarrow> sg_update (\<lambda>n. n\<lparr>sg_c1 := c1\<rparr>) res m;
                 m \<leftarrow> table_insert h res m;
                 Some (res, m)
               })
          });
     m \<leftarrow> sg_inc res m;
     Some (res, m)
   }"

lemma inc_other:
  assumes "a \<noteq> STRIP p"
  shows "sg_inc p (m\<lparr>mg_calls := c, mg_nodes := (mg_nodes m)(a \<mapsto> n)\<rparr>) =
    map_option (\<lambda>m'. m'\<lparr>mg_calls := c, mg_nodes := (mg_nodes m')(a \<mapsto> n)\<rparr>) (sg_inc p m)"
  using assms by (auto simp: sg_inc_def sg_update_def fun_upd_twist split: bind_split)

lemma update_new: "sg_update f a (m\<lparr>mg_calls := c, mg_nodes := (mg_nodes m)(a \<mapsto> n)\<rparr>) = Some (m\<lparr>mg_calls := c, mg_nodes := (mg_nodes m)(a \<mapsto> f n)\<rparr>)"
  by (simp add: sg_update_def)

lemma inc_fields:
  "sg_inc p m = Some m' \<Longrightarrow> mg_table m' = mg_table m \<and> mg_count m' = mg_count m \<and> mg_calls m' = mg_calls m \<and> mg_malloc m' = mg_malloc m \<and> mg_false m' = mg_false m"
  by (auto simp: sg_inc_def sg_update_def bind_eq_Some_conv)

lemma refs_inc_two:
  assumes K: "refs_below m K" and m1: "sg_inc p m = Some m1" and m2: "sg_inc q m1 = Some m2" and ne: "STRIP p \<noteq> STRIP q"
  shows "refs_below m2 (Suc K)"
  unfolding refs_below_def
proof (intro allI impI)
  fix a k assume k: "mg_nodes m2 a = Some k"
  from m1 obtain n where n: "mg_nodes m (STRIP p) = Some n"
    "m1 = m\<lparr>mg_nodes := (mg_nodes m)(STRIP p \<mapsto> (if sg_ref n < 4294967295 then n\<lparr>sg_ref := sg_ref n + 1\<rparr> else n))\<rparr>"
    by (auto simp: sg_inc_def sg_update_def bind_eq_Some_conv)
  from m2 obtain l where l: "mg_nodes m1 (STRIP q) = Some l"
    "m2 = m1\<lparr>mg_nodes := (mg_nodes m1)(STRIP q \<mapsto> (if sg_ref l < 4294967295 then l\<lparr>sg_ref := sg_ref l + 1\<rparr> else l))\<rparr>"
    by (auto simp: sg_inc_def sg_update_def bind_eq_Some_conv)
  have l': "mg_nodes m (STRIP q) = Some l" using l(1) n(2) ne by simp
  have b: "sg_ref n \<le> K" "sg_ref l \<le> K" using K n(1) l' unfolding refs_below_def by blast+
  consider "a = STRIP p" | "a = STRIP q" | "a \<noteq> STRIP p" "a \<noteq> STRIP q" by blast
  then show "sg_ref k \<le> Suc K"
  proof cases
    case 3
    then have "mg_nodes m a = Some k" using k unfolding l(2) n(2) by simp
    then show ?thesis using K unfolding refs_below_def by fastforce
  qed (use k b ne in \<open>auto simp: l(2) n(2) split: if_splits\<close>)
qed

lemma and_find_makes:
  assumes h: "hinv m R {}" and al: "allocates (mg_malloc m)" and u: "nodes_used m < 2147483648" and c: "mg_count m < length (mg_table m)"
    and t: "reads m t" "reads m t'" "plain_pair m t t'"
  shows "\<exists>w m'. and_find m (root t) (root t') = Some (root w, m') \<and> makes 1 m R (root w) m' \<and> reads m' w \<and>
    (\<forall>\<rho>. pval \<rho> w \<longleftrightarrow> pval \<rho> t \<and> pval \<rho> t') \<and> tree_vars w = tree_vars t \<union> tree_vars t'"
proof -
  let ?c0 = "root t" and ?c1 = "root t'"
  note g = hinvD(1) [OF h]
  have ne: "mg_table m \<noteq> []" using c by auto
  have nz: "STRIP ?c0 \<noteq> 0" "STRIP ?c1 \<noteq> 0" using reads_dom [OF t(1)] reads_dom [OF t(2)] graph_okD(5) [OF g] by (metis domD)+
  have hit: "\<exists>w m'. (do { m' \<leftarrow> sg_inc a m; Some (a, m') }) = Some (root w, m') \<and> makes 1 m R (root w) m' \<and> reads m' w \<and>
      (\<forall>\<rho>. pval \<rho> w \<longleftrightarrow> pval \<rho> t \<and> pval \<rho> t') \<and> tree_vars w = tree_vars t \<union> tree_vars t'"
    if a: "map_option sg_key (mg_nodes m a) = Some (0, 0, root s, root s')" and s: "(s = t \<and> s' = t') \<or> (s = t' \<and> s' = t)" for a s s'
  proof -
    obtain n where n: "mg_nodes m a = Some n" using a by auto
    have e: "even a" using graph_okD(5) [OF g n] by simp
    obtain m' where m': "sg_inc a m = Some m'" "makes 1 m R a m'" using makes_inc [OF h, of a] n e by (auto simp: strip_even)
    have "reads m (PAnd a s s')" using a e s t nz by auto
    then have "reads m' (PAnd a s s')" by (rule makesD(6) [OF m'(2)])
    with m' s show ?thesis by (intro exI [of _ "PAnd a s s'"]) auto
  qed
  obtain i r where r: "simpaig_find m 0 0 ?c1 ?c0 = Some (i, r)" "found m (0, 0, ?c1, ?c0) r"
    using find_spec [OF hinvD(3) [OF h] ne refl, of 0 0 ?c1 ?c0] by auto
  obtain j q where q: "j < length (mg_table m)" "simpaig_find m 0 0 ?c0 ?c1 = Some (j, q)" "j = simpaig_hash (length (mg_table m)) 0 0 ?c0 ?c1" "found m (0, 0, ?c0, ?c1) q"
    using find_spec [OF hinvD(3) [OF h] ne refl, of 0 0 ?c0 ?c1] by auto
  show ?thesis
  proof (cases r)
    case (Some a)
    then show ?thesis using hit [of a t' t] r by (auto simp: and_find_def found_def)
  next
    case r0: None
    show ?thesis
    proof (cases q)
      case (Some a)
      then show ?thesis using hit [of a t t'] q(2,4) r(1) r0 by (auto simp: and_find_def found_def)
    next
      case None
      let ?a = "mg_malloc m (mg_calls m) (mg_nodes m)"
      have fin: "finite (dom (mg_nodes m))" by (rule graph_okD(1) [OF g])
      then have a: "?a \<notin> dom (mg_nodes m)" "?a \<noteq> 0" "even ?a" using al u unfolding allocates_def nodes_used_def by blast+
      have d: "STRIP ?c0 \<in> dom (mg_nodes m) - {}" "STRIP ?c1 \<in> dom (mg_nodes m) - {}" using reads_dom t(1,2) by auto
      then have ac: "?a \<noteq> STRIP ?c0" "?a \<noteq> STRIP ?c1" using a(1) by auto
      obtain m1 where m1: "sg_inc ?c0 m = Some m1" "hinv m1 (add_mset ?c0 R) {}" "similar m m1" "grows m m1" "quiet m m1"
        using inc_hinv [OF h d(1)] by blast
      obtain m2 where m2: "sg_inc ?c1 m1 = Some m2" "hinv m2 (add_mset ?c1 (add_mset ?c0 R)) {}" "similar m1 m2" "grows m1 m2" "quiet m1 m2"
        using inc_hinv [OF m1(2), of ?c1] d(2) similar_dom [OF m1(3)] by auto
      note f1 = inc_fields [OF m1(1)] and f2 = inc_fields [OF m2(1)]
      let ?n = "simpaig0\<lparr>sg_c0 := ?c0, sg_c1 := ?c1, sg_ref := 1\<rparr>"
      let ?m' = "m2\<lparr>mg_calls := Suc (mg_calls m), mg_nodes := (mg_nodes m2)(?a \<mapsto> ?n), mg_count := u32 (mg_count m2 + 1),
        mg_table := (mg_table m2)[j := mg_table m2 ! j @ [?a]]\<rparr>"
      have gate: "gate_node (mg_false m2) ?n" using t(3) nz f1 f2 by (simp add: gate_node_def plain_pair_def simpaig0_def)
      have sim: "similar m m2" using m1(3) m2(3) by (auto simp: similar_def same_key_def)
      have new: "\<not> same_gate ?n k" if b: "mg_nodes m2 b = Some k" "b \<noteq> mg_false m2" for b k
      proof
        assume s: "same_gate ?n k"
        obtain k' where k: "mg_nodes m b = Some k'" "sg_key k' = sg_key k" by (rule similar_node [OF similar_sym [OF sim] b(1)])
        have "sg_key k' = (0, 0, ?c0, ?c1) \<or> sg_key k' = (0, 0, ?c1, ?c0)"
          unfolding k(2) using s by (auto simp: same_gate_def sg_key_def simpaig0_def)
        moreover have "b \<noteq> mg_false m" using b(2) f1 f2 by simp
        ultimately show False using r(2) r0 q(4) None k(1) by (auto simp: found_def)
      qed
      have hc: "hinv m2 (children ?n + R) {}" using m2(2) child_nonzero [OF gate] by (simp add: children_def simpaig0_def add_mset_commute)
      have jh: "j = key_hash (length (mg_table m2)) ?n" unfolding q(3) using f1 f2 by (simp add: key_hash_def simpaig0_def)
      have am: "allocates (mg_malloc m2)" "nodes_used m2 = nodes_used m" using al f1 f2 similar_dom [OF sim] by (simp_all add: nodes_used_def)
      note ok = add_node [OF hc, of ?a j "Suc (mg_calls m)"]
      have h': "hinv ?m' (add_mset ?a R) {}"
        by (rule ok) (use a similar_dom [OF sim] gate new jh c f1 f2 in \<open>auto simp: simpaig0_def\<close>)
      have g': "grows m2 ?m'" using a(1) similar_dom [OF sim] by (auto simp: grows_def)
      have none: "mg_nodes m2 ?a = None" using a(1) similar_dom [OF sim] by auto
      have q': "quiet m2 ?m'" using none by (auto simp: quiet_def attrs_def fun_eq_iff simpaig0_def)
      have step: "and_find m ?c0 ?c1 = Some (?a, ?m')"
      proof -
        have "sg_inc ?c0 (m\<lparr>mg_calls := Suc (mg_calls m), mg_nodes := (mg_nodes m)(?a \<mapsto> simpaig0)\<rparr>) =
            Some (m1\<lparr>mg_calls := Suc (mg_calls m), mg_nodes := (mg_nodes m1)(?a \<mapsto> simpaig0)\<rparr>)"
          using inc_other [OF ac(1)] m1(1) by simp
        moreover have "sg_inc ?c1 (m1\<lparr>mg_calls := Suc (mg_calls m), mg_nodes := (mg_nodes m1)(?a \<mapsto> simpaig0\<lparr>sg_c0 := ?c0\<rparr>)\<rparr>) =
            Some (m2\<lparr>mg_calls := Suc (mg_calls m), mg_nodes := (mg_nodes m2)(?a \<mapsto> simpaig0\<lparr>sg_c0 := ?c0\<rparr>)\<rparr>)"
          using inc_other [OF ac(2)] m2(1) by simp
        ultimately show ?thesis
          unfolding and_find_def r(1) r0 q(2) None
          using a q(1) f1 f2
          by (simp add: sg_new_def update_new Let_def table_insert_def deref_def, simp add: sg_inc_def sg_update_def strip_even simpaig0_def)
      qed
      have "makes 1 m R ?a ?m'"
        unfolding makes_def
      proof (intro conjI allI impI)
        show "hinv ?m' (add_mset ?a R) {}" by (rule h')
        show "grows m ?m'" by (rule grows_trans [OF grows_trans [OF m1(4) m2(4)] g'])
        show "quiet m ?m'" by (rule quiet_trans [OF quiet_trans [OF m1(5) m2(5)] q'])
        have "dom (mg_nodes ?m') = insert ?a (dom (mg_nodes m))" using similar_dom [OF sim] by auto
        then show "nodes_used ?m' \<le> nodes_used m + 1" unfolding nodes_used_def using a(1) fin by simp
        fix K assume "refs_below m K"
        then have "refs_below m2 (Suc K)" using refs_inc_two m1(1) m2(1) t(3) by (simp add: plain_pair_def)
        then show "refs_below ?m' (K + 1)" by (simp add: refs_below_def)
      qed
      moreover have "reads ?m' (PAnd ?a t t')"
      proof -
        have "reads ?m' t" "reads ?m' t'" using grows_reads [OF grows_trans [OF grows_trans [OF m1(4) m2(4)] g']] t(1,2) by blast+
        then show ?thesis using a(3) nz by (simp add: sg_key_def simpaig0_def)
      qed
      ultimately show ?thesis using step by (intro exI [of _ "PAnd ?a t t'"] exI [of _ ?m']) simp
    qed
  qed
qed

lemma makes_false:
  assumes h: "hinv m R {}"
  shows "\<exists>m'. simpaig_false m = Some (mg_false m, m') \<and> makes 1 m R (mg_false m) m' \<and> reads m' (PFalse (mg_false m))"
proof -
  note f = graph_okD(4) [OF hinvD(1) [OF h]]
  have "STRIP (mg_false m) \<in> dom (mg_nodes m)" using reads_dom [OF f] by simp
  then obtain m' where m': "sg_inc (mg_false m) m = Some m'" "makes 1 m R (mg_false m) m'" using makes_inc [OF h] by blast
  have "simpaig_false m = Some (mg_false m, m')" using m'(1) inc_fields [OF m'(1)] by (simp add: simpaig_false_def)
  with m'(2) makesD(6) [OF m'(2) f] show ?thesis by blast
qed

lemma and_makes:
  assumes h: "hinv m R {}" and al: "allocates (mg_malloc m)" and u: "nodes_used m < 2147483648" and t: "reads m t" "reads m t'"
  shows "\<exists>w m'. simpaig_and m (root t) (root t') = Some (root w, m') \<and> makes 1 m R (root w) m' \<and> reads m' w \<and>
    (\<forall>\<rho>. pval \<rho> w \<longleftrightarrow> pval \<rho> t \<and> pval \<rho> t') \<and> tree_vars w \<subseteq> tree_vars t \<union> tree_vars t'"
proof -
  note g = hinvD(1) [OF h]
  have inc: "\<exists>m'. sg_inc (root s) m = Some m' \<and> makes 1 m R (root s) m' \<and> reads m' s" if "reads m s" for s
    using makes_inc [OF h reads_dom [OF that]] makesD(6) that by blast
  note eqs = isfalse_tree [OF _ g] istrue_tree [OF _ g]
  consider (false) "(\<exists>a. t = PFalse a) \<or> (\<exists>a. t' = PFalse a) \<or> root t = NOT_ptr (root t')"
    | (left) "\<not> ((\<exists>a. t = PFalse a) \<or> (\<exists>a. t' = PFalse a) \<or> root t = NOT_ptr (root t'))" "(\<exists>a. t = PNot (PFalse a)) \<or> root t = root t'"
    | (right) "\<not> ((\<exists>a. t = PFalse a) \<or> (\<exists>a. t' = PFalse a) \<or> root t = NOT_ptr (root t'))" "\<not> ((\<exists>a. t = PNot (PFalse a)) \<or> root t = root t')" "\<exists>a. t' = PNot (PFalse a)"
    | (node) "\<not> ((\<exists>a. t = PFalse a) \<or> (\<exists>a. t' = PFalse a) \<or> root t = NOT_ptr (root t'))" "\<not> ((\<exists>a. t = PNot (PFalse a)) \<or> root t = root t')" "\<nexists>a. t' = PNot (PFalse a)"
    by blast
  then show ?thesis
  proof cases
    case false
    have "\<not> (pval \<rho> t \<and> pval \<rho> t')" for \<rho>
    proof -
      consider "\<exists>a. t = PFalse a" | "\<exists>a. t' = PFalse a" | "root t = NOT_ptr (root t')" using false by blast
      then show ?thesis
      proof cases
        case 3
        then have "t = pnot t'" using reads_unique [OF t(1) reads_pnot [OF t(2)]] by simp
        then show ?thesis by simp
      qed auto
    qed
    moreover obtain m' where m': "simpaig_false m = Some (mg_false m, m')" "makes 1 m R (mg_false m) m'" "reads m' (PFalse (mg_false m))"
      using makes_false [OF h] by blast
    moreover have "simpaig_and m (root t) (root t') = simpaig_false m"
      using false t by (auto simp: simpaig_and_def eqs)
    ultimately show ?thesis by (intro exI [of _ "PFalse (mg_false m)"] exI [of _ m']) auto
  next
    case left
    have "pval \<rho> t' \<longleftrightarrow> pval \<rho> t \<and> pval \<rho> t'" for \<rho>
    proof (cases "root t = root t'")
      case True
      then show ?thesis using reads_unique [OF t] by simp
    qed (use left in auto)
    moreover obtain m' where "sg_inc (root t') m = Some m'" "makes 1 m R (root t') m'" "reads m' t'" using inc [OF t(2)] by blast
    moreover from this have "simpaig_and m (root t) (root t') = Some (root t', m')"
      using left t by (auto simp: simpaig_and_def eqs)
    ultimately show ?thesis by (intro exI [of _ t'] exI [of _ m']) auto
  next
    case right
    obtain m' where "sg_inc (root t) m = Some m'" "makes 1 m R (root t) m'" "reads m' t" using inc [OF t(1)] by blast
    moreover from this have "simpaig_and m (root t) (root t') = Some (root t, m')"
      using right t by (auto simp: simpaig_and_def eqs)
    ultimately show ?thesis using right by (intro exI [of _ t] exI [of _ m']) auto
  next
    case node
    have nc: "STRIP (root s) \<noteq> mg_false m" if s: "reads m s" "\<nexists>a. s = PFalse a" "\<nexists>a. s = PNot (PFalse a)" for s
    proof
      assume e: "STRIP (root s) = mg_false m"
      have f: "reads m (PFalse (mg_false m))" by (rule graph_okD(4) [OF g])
      then consider "root s = root (PFalse (mg_false m))" | "root s = root (pnot (PFalse (mg_false m)))"
        using e strip_eq_iff [of "root s" "mg_false m"] by (auto simp: strip_even)
      then show False using reads_unique [OF s(1) f] reads_unique [OF s(1) reads_pnot [OF f]] s(2,3) by cases auto
    qed
    have pp: "plain_pair m t t'" unfolding plain_pair_def using node nc [OF t(1)] nc [OF t(2)] strip_eq_iff by blast
    obtain T where T: "(if length (mg_table m) = mg_count m then simpaig_enlarge m else Some m) = Some (m\<lparr>mg_table := T\<rparr>)"
      "hinv (m\<lparr>mg_table := T\<rparr>) R {}" "mg_count m < length T" using room_hinv [OF h] u by auto
    let ?m = "m\<lparr>mg_table := T\<rparr>"
    obtain w m' where w: "and_find ?m (root t) (root t') = Some (root w, m')" "makes 1 ?m R (root w) m'" "reads m' w"
      "\<forall>\<rho>. pval \<rho> w \<longleftrightarrow> pval \<rho> t \<and> pval \<rho> t'" "tree_vars w = tree_vars t \<union> tree_vars t'"
      using and_find_makes [OF T(2), of t t'] al u T(3) t pp by (auto simp: nodes_used_def table_change(3) plain_pair_def)
    have "simpaig_and m (root t) (root t') = and_find ?m (root t) (root t')"
      using node T(1) t by (simp add: simpaig_and_def eqs and_find_def)
    with w makes_table [OF w(2)] show ?thesis by (intro exI [of _ w] exI [of _ m']) simp
  qed
qed

section \<open>The lists of the manager\<close>

definition cache_of :: "simpaigmgr \<Rightarrow> ptr \<Rightarrow> ptr" where "cache_of m a = fst (attrs m a)"
definition rhs_of :: "simpaigmgr \<Rightarrow> ptr \<Rightarrow> ptr" where "rhs_of m a = fst (snd (attrs m a))"
definition idx_of :: "simpaigmgr \<Rightarrow> ptr \<Rightarrow> uint" where "idx_of m a = snd (snd (attrs m a))"

lemma attr_of_node [simp]:
  "mg_nodes m a = Some n \<Longrightarrow> cache_of m a = sg_cache n" "mg_nodes m a = Some n \<Longrightarrow> rhs_of m a = sg_rhs n"
  "mg_nodes m a = Some n \<Longrightarrow> idx_of m a = sg_idx n"
  by (simp_all add: cache_of_def rhs_of_def idx_of_def attrs_def)

text \<open>The references that the lists hold, and the nodes that are on them.\<close>

definition listed :: "simpaigmgr \<Rightarrow> ptr multiset" where
  "listed m = mset (mg_cached m) + image_mset (cache_of m) (mset (mg_cached m)) +
     (mset (mg_assigned m) + image_mset (rhs_of m) (mset (mg_assigned m))) + mset (mg_indices m)"

definition lists_ok :: "simpaigmgr \<Rightarrow> bool" where
  "lists_ok m \<longleftrightarrow> distinct (mg_cached m) \<and> distinct (mg_assigned m) \<and> distinct (mg_indices m) \<and>
     (\<forall>a. cache_of m a \<noteq> 0 \<longleftrightarrow> a \<in> set (mg_cached m)) \<and> (\<forall>a. rhs_of m a \<noteq> 0 \<longleftrightarrow> a \<in> set (mg_assigned m)) \<and>
     (\<forall>a. idx_of m a \<noteq> 0 \<longleftrightarrow> a \<in> set (mg_indices m))"

lemma lists_okD:
  assumes "lists_ok m"
  shows "a \<in> set (mg_cached m) \<longleftrightarrow> cache_of m a \<noteq> 0" "a \<in> set (mg_assigned m) \<longleftrightarrow> rhs_of m a \<noteq> 0"
    "a \<in> set (mg_indices m) \<longleftrightarrow> idx_of m a \<noteq> 0"
    "distinct (mg_cached m)" "distinct (mg_assigned m)" "distinct (mg_indices m)"
  using assms unfolding lists_ok_def by blast+

lemma quiet_lists:
  assumes "quiet m m'"
  shows "listed m' = listed m" "lists_ok m' = lists_ok m" "cache_of m' = cache_of m" "rhs_of m' = rhs_of m" "idx_of m' = idx_of m"
proof -
  show c: "cache_of m' = cache_of m" "rhs_of m' = rhs_of m" "idx_of m' = idx_of m"
    using assms by (simp_all add: quiet_def cache_of_def rhs_of_def idx_of_def fun_eq_iff)
  show "listed m' = listed m" "lists_ok m' = lists_ok m" unfolding listed_def lists_ok_def c using assms by (simp_all add: quiet_def)
qed

text \<open>
  The invariant of a manager whose client holds the references \<open>F\<close>, with room for \<open>k\<close> more nodes.
\<close>

definition manager :: "nat \<Rightarrow> simpaigmgr \<Rightarrow> ptr multiset \<Rightarrow> bool" where
  "manager k m F \<longleftrightarrow> hinv m (F + listed m) {} \<and> lists_ok m \<and> allocates (mg_malloc m) \<and> nodes_used m + k \<le> 2147483648"

lemma managerD:
  assumes "manager k m F"
  shows "hinv m (F + listed m) {}" "lists_ok m" "allocates (mg_malloc m)" "nodes_used m + k \<le> 2147483648" "graph_ok m {}"
  using assms hinvD(1) by (auto simp: manager_def)

lemma lists_marks:
  assumes "lists_ok m" "\<And>a. a \<in> dom (mg_nodes m) \<Longrightarrow> even a"
  shows "marks m (F + listed m)"
  unfolding marks_def
proof (intro allI impI)
  fix a assume a: "attrs m a \<noteq> (0, 0, 0)"
  then have "a \<in> dom (mg_nodes m)" by (auto simp: attrs_def split: option.splits)
  then have e: "STRIP a = a" using assms(2) by (simp add: strip_even)
  have "cache_of m a \<noteq> 0 \<or> rhs_of m a \<noteq> 0 \<or> idx_of m a \<noteq> 0"
    using a by (auto simp: cache_of_def rhs_of_def idx_of_def prod_eq_iff)
  then have "a \<in> set (mg_cached m) \<union> set (mg_assigned m) \<union> set (mg_indices m)" using assms(1) by (auto simp: lists_ok_def)
  then have "a \<in># F + listed m" by (auto simp: listed_def)
  with e show "0 < refs_held (F + listed m) a" using held_pos by blast
qed

lemma manager_marks: "manager k m F \<Longrightarrow> marks m (G + listed m)"
  using lists_marks [OF managerD(2)] graph_okD(5) [OF managerD(5)] by (metis domD)

lemma makes_manager:
  assumes m: "manager (k + j) m F" and r: "makes j m (F + listed m) p m'"
  shows "manager k m' (add_mset p F)" "grows m m'" "quiet m m'"
proof -
  note q = quiet_lists [OF makesD(3) [OF r]]
  have "mg_malloc m' = mg_malloc m" using makesD(3) [OF r] by (simp add: quiet_def)
  then show "manager k m' (add_mset p F)" using managerD [OF m] makesD(1,4) [OF r] unfolding manager_def q by auto
  show "grows m m'" "quiet m m'" using makesD(2,3) [OF r] by auto
qed

lemma nodes_shrink:
  assumes "heap_shrinks m m'" "finite (dom (mg_nodes m))"
  shows "nodes_used m' \<le> nodes_used m"
proof -
  have "dom (mg_nodes m') \<subseteq> dom (mg_nodes m)"
  proof
    fix a assume "a \<in> dom (mg_nodes m')"
    then obtain n where "mg_nodes m' a = Some n" by blast
    then show "a \<in> dom (mg_nodes m)" using assms(1) unfolding heap_shrinks_def by blast
  qed
  then show ?thesis unfolding nodes_used_def by (rule card_mono [OF assms(2)])
qed

lemma refs_shrink: "heap_shrinks m m' \<Longrightarrow> refs_below m K \<Longrightarrow> refs_below m' K"
  unfolding heap_shrinks_def refs_below_def by (meson le_trans)

text \<open>The client gives a reference back.\<close>

lemma dec_manager:
  assumes m: "manager k m (add_mset p F)"
  shows "\<exists>m'. sg_dec m p = Some m' \<and> manager k m' F \<and> heap_shrinks m m' \<and> quiet m m' \<and>
    (\<forall>t. root t \<in># F + listed m \<longrightarrow> reads m t \<longrightarrow> reads m' t)"
proof -
  have h: "hinv m (add_mset p (F + listed m)) {}" using managerD(1) [OF m] by simp
  obtain t where t: "reads m t" "root t = STRIP p"
    using graph_okD(8) [OF managerD(5) [OF m], of "STRIP p"] counts_okD(1) [OF hinvD(2) [OF h], of p] by auto
  obtain m' where m': "sg_dec m p = Some m'" "hinv m' (F + listed m) {}" "heap_shrinks m m'" "quiet m m'"
    using dec_hinv [OF h manager_marks [OF m] t(1)] t(2) by auto
  have "mg_malloc m' = mg_malloc m" using m'(4) by (simp add: quiet_def)
  then have "manager k m' F"
    using m'(2) managerD [OF m] nodes_shrink [OF m'(3) graph_okD(1) [OF managerD(5) [OF m]]]
    unfolding manager_def quiet_lists [OF m'(4)] by auto
  moreover have "reads m' t" if "root t \<in># F + listed m" "reads m t" for t
    using shrinks_reads [OF m'(3) hinvD(1) [OF m'(2)] that(2)] counts_okD(1) [OF hinvD(2) [OF m'(2)] that(1)] by simp
  ultimately show ?thesis using m' by blast
qed

text \<open>
  What was there before an operation, and is still held, is there after it, whatever was added and
  deleted in between.
\<close>

definition same_nodes :: "simpaigmgr \<Rightarrow> simpaigmgr \<Rightarrow> bool" where
  "same_nodes m m' \<longleftrightarrow> mg_false m' = mg_false m \<and> mg_malloc m' = mg_malloc m \<and>
     (\<forall>a n n'. mg_nodes m a = Some n \<longrightarrow> mg_nodes m' a = Some n' \<longrightarrow> sg_key n' = sg_key n) \<and>
     (\<forall>a n. mg_nodes m a = Some n \<longrightarrow> sg_ref n = 4294967295 \<longrightarrow> (\<exists>n'. mg_nodes m' a = Some n' \<and> sg_ref n' = 4294967295))"

lemma grows_same: "grows m m' \<Longrightarrow> same_nodes m m'"
  unfolding grows_def same_nodes_def by fastforce

lemma grows_shrinks: "grows m m' \<Longrightarrow> heap_shrinks m' m'' \<Longrightarrow> same_nodes m m''"
  unfolding grows_def heap_shrinks_def same_nodes_def by (smt (verit) option.inject)

lemma same_shrinks:
  assumes "same_nodes m m'" "heap_shrinks m' m''"
  shows "same_nodes m m''"
  using assms unfolding heap_shrinks_def same_nodes_def by (smt (verit))

lemma unheld_parent:
  assumes h: "hinv m R {}" and n: "mg_nodes m d = Some n" "d \<noteq> mg_false m" "sg_ref n \<noteq> 4294967295" and r: "refs_held R d = 0"
  shows "\<exists>b t u. reads m (PAnd b t u) \<and> (STRIP (root t) = d \<or> STRIP (root u) = d) \<and> b \<noteq> mg_false m \<and>
    (\<forall>w. reads m w \<longrightarrow> root w = d \<longrightarrow> size w < size (PAnd b t u))"
proof -
  note g = hinvD(1) [OF h]
  have dz: "d \<noteq> 0" "even d" using graph_okD(5) [OF g n(1)] by auto
  have "0 < degree m {} d" using counts_okD(2,4) [OF hinvD(2) [OF h] n(1)] n(2,3) r by auto
  then obtain b l where b: "mg_nodes m b = Some l" "0 < edges l d" using degree_pos [OF g] by blast
  have bf: "b \<noteq> mg_false m" using graph_okD(4) [OF g] b dz by (auto simp: sg_key_def edges_def split: if_splits)
  have v: "sg_var l = 0" using graph_okD(6) [OF g b(1) bf] b(2) dz by (auto simp: var_node_def gate_node_def edges_def split: if_splits)
  have child: "STRIP (sg_c0 l) = d \<or> STRIP (sg_c1 l) = d" using b(2) by (auto simp: edges_def split: if_splits)
  obtain w where w: "reads m w" "root w = b" using graph_okD(8) [OF g, of b] b(1) by auto
  have "even b" using graph_okD(5) [OF g b(1)] by simp
  then obtain t u where tu: "w = PAnd b t u" using w b(1) v graph_okD(6) [OF g b(1) bf] bf
    by (cases w) (auto simp: sg_key_def var_node_def gate_node_def SIGN_def)
  then have rt: "reads m t" "reads m u" "root t = sg_c0 l" "root u = sg_c1 l" using w b(1) by (auto simp: sg_key_def)
  have "size x < size (PAnd b t u)" if x: "reads m x" "root x = d" for x
  proof -
    have "size x \<le> size y" if y: "reads m y" "STRIP (root y) = d" for y
    proof -
      have "root y = root x \<or> root y = root (pnot x)" using y(2) x(2) dz strip_eq_iff [of "root y" d] by (auto simp: strip_even)
      then have "y = x \<or> y = pnot x" using reads_unique [OF y(1) x(1)] reads_unique [OF y(1) reads_pnot [OF x(1)]] by blast
      moreover have "\<not> SIGN (root x)" using x(2) dz by (simp add: SIGN_def)
      then have "size x \<le> size (pnot x)" using reads_root [OF x(1)] by (cases x) auto
      ultimately show ?thesis by auto
    qed
    then have "size x \<le> size t \<or> size x \<le> size u" using child rt by metis
    then show ?thesis by auto
  qed
  moreover have "STRIP (root t) = d \<or> STRIP (root u) = d" using child rt by simp
  moreover have "reads m (PAnd b t u)" using w(1) tu by simp
  ultimately show ?thesis using bf by blast
qed

text \<open>A node of greatest depth in a set of nodes.\<close>

lemma deepest:
  assumes "graph_ok m {}" "D \<subseteq> dom (mg_nodes m)" "D \<noteq> {}"
  obtains d where "d \<in> D" "\<And>t u. reads m t \<Longrightarrow> root t = d \<Longrightarrow> reads m u \<Longrightarrow> root u \<in> D \<Longrightarrow> size u \<le> size t"
proof -
  define tree where "tree = (\<lambda>b. SOME t. reads m t \<and> root t = b)"
  have tree: "tree (root t) = t" if "reads m t" for t
    unfolding tree_def using that reads_unique by (intro some_equality) auto
  have fin: "finite D" using finite_subset [OF assms(2) graph_okD(1) [OF assms(1)]] .
  let ?S = "(\<lambda>b. size (tree b)) ` D"
  have f: "finite ?S" "?S \<noteq> {}" using fin assms(3) by auto
  then obtain d where d: "d \<in> D" "size (tree d) = Max ?S" using Max_in [OF f] by (metis (no_types, lifting) imageE)
  have "size u \<le> size t" if "reads m t" "root t = d" "reads m u" "root u \<in> D" for t u
  proof -
    have "tree (root u) = u" "tree d = t" using tree [of t] tree [of u] that by auto
    then have "size u \<in> ?S" using that(4) by force
    then show ?thesis using Max_ge [OF f(1)] d(2) \<open>tree d = t\<close> by simp
  qed
  with d(1) show thesis by (rule that)
qed

lemma still_held:
  assumes h: "hinv m R {}" and h': "hinv m' R' {}" and r: "\<And>a. a \<noteq> mg_false m \<Longrightarrow> 0 < refs_held R a \<Longrightarrow> 0 < refs_held R' a" and s: "same_nodes m m'"
  shows "grows m m'"
proof -
  note g = hinvD(1) [OF h] and g' = hinvD(1) [OF h']
  let ?D = "dom (mg_nodes m) - dom (mg_nodes m')"
  have "?D = {}"
  proof (rule ccontr)
    assume "?D \<noteq> {}"
    then obtain d where d: "d \<in> ?D" "\<And>t u. reads m t \<Longrightarrow> root t = d \<Longrightarrow> reads m u \<Longrightarrow> root u \<in> ?D \<Longrightarrow> size u \<le> size t"
      using deepest [OF g, of ?D] by blast
    obtain n where n: "mg_nodes m d = Some n" using d(1) by blast
    have df: "d \<noteq> mg_false m" using d(1) s graph_okD(4) [OF g'] unfolding same_nodes_def by (metis DiffE domI map_option_eq_Some reads.simps(1))
    have sat: "sg_ref n \<noteq> 4294967295" using s n d(1) unfolding same_nodes_def by (metis DiffE domI)
    have "refs_held R d = 0"
    proof (rule ccontr)
      assume "refs_held R d \<noteq> 0"
      then have "0 < refs_held R' d" using r [of d] df by blast
      then obtain p where "p \<in># R'" "STRIP p = d" using held_pos by blast
      then show False using counts_okD(1) [OF hinvD(2) [OF h']] d(1) by auto
    qed
    then obtain b t u where b: "reads m (PAnd b t u)" "STRIP (root t) = d \<or> STRIP (root u) = d" "b \<noteq> mg_false m"
      "\<And>w. reads m w \<Longrightarrow> root w = d \<Longrightarrow> size w < size (PAnd b t u)" using unheld_parent [OF h n df sat] by blast
    obtain w where "reads m w" "root w = d" using graph_okD(8) [OF g, of d] n by auto
    then have "b \<notin> ?D" using d(2) [of w "PAnd b t u"] b(1) b(4) [of w] by auto
    then obtain l' where l': "mg_nodes m' b = Some l'" using b(1) by auto
    obtain l where l: "mg_nodes m b = Some l" "sg_var l = 0" "sg_c0 l = root t" "sg_c1 l = root u" using b(1) by (auto simp: sg_key_def)
    have key: "sg_key l' = sg_key l" using s l(1) l' unfolding same_nodes_def by blast
    have "b \<noteq> mg_false m'" using b(3) s by (simp add: same_nodes_def)
    then have "STRIP (root t) \<in> dom (mg_nodes m')" "STRIP (root u) \<in> dom (mg_nodes m')"
      using graph_okD(7) [OF g' l'] l key by (auto simp: key_fields)
    with b(2) d(1) show False by auto
  qed
  then show ?thesis using s unfolding grows_def same_nodes_def by blast
qed

text \<open>Nothing is on the heap that is not below a reference, as long as no counter has reached its limit.\<close>

lemma no_garbage:
  assumes h: "hinv m R {}" and sat: "\<And>a n. mg_nodes m a = Some n \<Longrightarrow> sg_ref n \<noteq> 4294967295" and d: "d \<in> dom (mg_nodes m)" "d \<noteq> mg_false m"
  shows "\<exists>p t. p \<in># R \<and> reads m t \<and> root t = STRIP p \<and> d \<in> addrs t"
proof (rule ccontr)
  assume no: "\<not> ?thesis"
  note g = hinvD(1) [OF h]
  let ?D = "{e \<in> dom (mg_nodes m). e \<noteq> mg_false m \<and> \<not> (\<exists>p t. p \<in># R \<and> reads m t \<and> root t = STRIP p \<and> e \<in> addrs t)}"
  obtain e where e: "e \<in> ?D" "\<And>t u. reads m t \<Longrightarrow> root t = e \<Longrightarrow> reads m u \<Longrightarrow> root u \<in> ?D \<Longrightarrow> size u \<le> size t"
    using deepest [OF g, of ?D] no d by blast
  obtain n where n: "mg_nodes m e = Some n" using e(1) by blast
  obtain w where w: "reads m w" "root w = e" using graph_okD(8) [OF g, of e] n by auto
  have se: "STRIP e = e" using graph_okD(5) [OF g n] by (simp add: strip_even)
  have "refs_held R e = 0"
  proof (rule ccontr)
    assume "refs_held R e \<noteq> 0"
    then obtain p where "p \<in># R" "STRIP p = e" using held_pos [of R e] by auto
    then show False using e(1) w reads_addrs(1) [OF w(1)] se by auto
  qed
  then obtain b t u where b: "reads m (PAnd b t u)" "STRIP (root t) = e \<or> STRIP (root u) = e" "b \<noteq> mg_false m"
    "\<And>w. reads m w \<Longrightarrow> root w = e \<Longrightarrow> size w < size (PAnd b t u)" using unheld_parent [OF h n _ sat [OF n]] e(1) by blast
  have "b \<notin> ?D" using e(2) [OF w b(1)] b(4) [OF w] by auto
  moreover have "b \<in> dom (mg_nodes m)" using b(1) by auto
  ultimately obtain p x where x: "p \<in># R" "reads m x" "root x = STRIP p" "b \<in> addrs x" using b(3) by blast
  have below: "STRIP (root t) \<in> addrs x \<and> STRIP (root u) \<in> addrs x" if "reads m x" "b \<in> addrs x" for x
    using that
  proof (induction x)
    case (PAnd c y z)
    show ?case
    proof (cases "b = c")
      case True
      then have "PAnd c y z = PAnd b t u" using reads_unique [OF PAnd.prems(1) b(1)] by simp
      then show ?thesis using reads_addrs(1) b(1) by auto
    qed (use PAnd in auto)
  qed (use b(1) in \<open>auto simp: sg_key_def\<close>)
  show False using below [OF x(2,4)] b(2) x e(1) by blast
qed

lemma restored:
  assumes "hinv m R {}" "hinv m' R' {}" "\<And>a. refs_held R a \<le> refs_held R' a" "same_nodes m m'"
  shows "grows m m'"
  by (rule still_held [OF assms(1,2) _ assms(4)]) (use assms(3) in \<open>blast intro: less_le_trans\<close>)

end
