(* ===== verification/SimpAigMemo.thy ===== *)
theory SimpAigMemo
  imports SimpAigAnd
begin

text \<open>
  Substitution and shifting are memoised passes over a graph: a cached result is reused, a conjunction is
  rebuilt from the results of its operands, and the two differ in what they do with variables. The locale
  \<open>memo_pass\<close> states what a pass promises for variables and proves what it then does for every graph.
\<close>

section \<open>Attributes of nodes\<close>

lemma update_attr:
  assumes h: "hinv m R Z" and n: "mg_nodes m a = Some n" "sg_key (f n) = sg_key n" "sg_ref (f n) = sg_ref n"
  shows "\<exists>m'. sg_update f a m = Some m' \<and> hinv m' R Z \<and> similar m m' \<and> grows m m' \<and> m' = m\<lparr>mg_nodes := (mg_nodes m)(a \<mapsto> f n)\<rparr> \<and>
    (\<forall>K. refs_below m K \<longrightarrow> refs_below m' K)"
proof -
  let ?m = "m\<lparr>mg_nodes := (mg_nodes m)(a \<mapsto> f n)\<rparr>"
  have s: "similar m ?m" using n by (simp add: similar_def same_key_def)
  have "counts_ok ?m R Z" unfolding counts_ok_def similar_dom [OF s] similar_degree [OF s]
  proof (intro conjI allI impI ballI)
    show "STRIP q \<in> dom (mg_nodes m) - Z" if "q \<in># R" for q by (rule counts_okD(1) [OF hinvD(2) [OF h] that])
  next
    fix b l assume b: "mg_nodes ?m b = Some l" "b \<notin> Z"
    then obtain l' where l: "mg_nodes m b = Some l'" "sg_ref l = sg_ref l'" using n by (cases "b = a") auto
    note c = counts_okD(2-4) [OF hinvD(2) [OF h] l(1) b(2)]
    show "sg_ref l = 4294967295 \<or> sg_ref l = refs_held R b + degree m Z b" "sg_ref l \<le> 4294967295" using c l(2) by simp_all
    assume "b \<noteq> mg_false ?m"
    then show "0 < sg_ref l" using c l(2) by simp
  qed
  moreover have "graph_ok ?m Z" "table_ok ?m" using similar_graph [OF s] similar_table [OF s] hinvD(1,3) [OF h] by blast+
  moreover have "grows m ?m" using n by (auto simp: grows_def)
  moreover have "refs_below ?m K" if "refs_below m K" for K using that n unfolding refs_below_def by simp
  ultimately show ?thesis using s n(1) by (intro exI [of _ ?m]) (simp add: hinv_def sg_update_def)
qed

lemma manager_not: "manager k m (add_mset p F) \<Longrightarrow> manager k m (add_mset (NOT_ptr p) F)"
  unfolding manager_def hinv_def counts_ok_def by auto

lemma manager_mono: "manager k m F \<Longrightarrow> j \<le> k \<Longrightarrow> manager j m F"
  by (auto simp: manager_def)

lemma inc_manager:
  assumes "manager k m F" "reads m t"
  shows "\<exists>m'. sg_inc (root t) m = Some m' \<and> manager k m' (add_mset (root t) F) \<and> grows m m' \<and> quiet m m' \<and>
    (\<forall>K. refs_below m K \<longrightarrow> refs_below m' (Suc K))"
proof -
  obtain m' where m': "sg_inc (root t) m = Some m'" "makes 1 m (F + listed m) (root t) m'"
    using makes_inc [OF managerD(1) [OF assms(1)] reads_dom [OF assms(2)]] by blast
  obtain m2 where m2: "sg_inc (root t) m = Some m2" "similar m m2"
    using inc_hinv [OF managerD(1) [OF assms(1)], of "root t"] reads_dom [OF assms(2)] by auto
  have d: "nodes_used m' = nodes_used m" using m'(1) m2 similar_dom by (simp add: nodes_used_def)
  note q = quiet_lists [OF makesD(3) [OF m'(2)]]
  have "mg_malloc m' = mg_malloc m" using makesD(3) [OF m'(2)] by (simp add: quiet_def)
  then have "manager k m' (add_mset (root t) F)" using managerD [OF assms(1)] makesD(1) [OF m'(2)] d unfolding manager_def q by auto
  then show ?thesis using m'(1) makesD [OF m'(2)] by auto
qed

lemma cache_entry:
  assumes m: "manager k m (add_mset (root w) F)" and s: "reads m s" "\<not> SIGN (root s)" and w: "reads m w" and c: "cache_of m (root s) = 0"
  shows "\<exists>m'. simpaig_cache m (root s) (root w) = Some m' \<and> manager k m' (add_mset (root w) F) \<and> grows m m' \<and>
    mg_cached m' = mg_cached m @ [root s] \<and> cache_of m' = (cache_of m)(root s := root w) \<and> rhs_of m' = rhs_of m \<and> idx_of m' = idx_of m \<and>
    mg_assigned m' = mg_assigned m \<and> mg_indices m' = mg_indices m \<and> (\<forall>K. refs_below m K \<longrightarrow> refs_below m' (K + 2))"
proof -
  let ?a = "root s"
  have sa: "STRIP ?a = ?a" by (rule strip_even(2) [OF s(2)])
  obtain n where n: "mg_nodes m ?a = Some n" "sg_cache n = 0" using reads_dom [OF s(1)] c unfolding sa by auto
  obtain m1 where m1: "sg_inc ?a m = Some m1" "manager k m1 (add_mset ?a (add_mset (root w) F))" "grows m m1" "quiet m m1"
    "\<And>K. refs_below m K \<Longrightarrow> refs_below m1 (Suc K)" using inc_manager [OF m s(1)] by blast
  obtain m2 where m2: "sg_inc (root w) m1 = Some m2" "manager k m2 (add_mset (root w) (add_mset ?a (add_mset (root w) F)))" "grows m1 m2" "quiet m1 m2"
    "\<And>K. refs_below m1 K \<Longrightarrow> refs_below m2 (Suc K)" using inc_manager [OF m1(2) grows_reads [OF m1(3) w]] by blast
  note g2 = grows_trans [OF m1(3) m2(3)] and q2 = quiet_trans [OF m1(4) m2(4)]
  obtain l where l: "mg_nodes m2 ?a = Some l" using g2 n(1) unfolding grows_def by blast
  let ?f = "\<lambda>n. n\<lparr>sg_cache := root w\<rparr>"
  obtain m3 where m3: "sg_update ?f ?a m2 = Some m3" "hinv m3 (add_mset (root w) (add_mset ?a (add_mset (root w) F)) + listed m2) {}" "similar m2 m3" "grows m2 m3"
      "m3 = m2\<lparr>mg_nodes := (mg_nodes m2)(?a \<mapsto> ?f l)\<rparr>" "\<And>K. refs_below m2 K \<Longrightarrow> refs_below m3 K"
    using update_attr [OF managerD(1) [OF m2(2)] l, of ?f] by (auto simp: sg_key_def)
  let ?m = "m3\<lparr>mg_cached := mg_cached m3 @ [?a]\<rparr>"
  have step: "simpaig_cache m ?a (root w) = Some ?m" using s(2) n m1(1) m2(1) m3(1) by (simp add: simpaig_cache_def)
  have q: "listed m2 = listed m" "lists_ok m" "cache_of m2 = cache_of m" "rhs_of m2 = rhs_of m" "idx_of m2 = idx_of m"
    "mg_cached m2 = mg_cached m" "mg_assigned m2 = mg_assigned m" "mg_indices m2 = mg_indices m"
    using quiet_lists [OF q2] managerD(2) [OF m] q2 by (simp_all add: quiet_def)
  have at: "attrs ?m = (attrs m2)(?a := (root w, rhs_of m ?a, idx_of m ?a))"
  proof -
    have "sg_rhs l = rhs_of m ?a" "sg_idx l = idx_of m ?a" using attr_of_node(2,3) [OF l] q(4,5) by simp_all
    then show ?thesis by (simp add: m3(5) attrs_def fun_eq_iff)
  qed
  have fields: "cache_of ?m = (cache_of m)(?a := root w)" "rhs_of ?m = rhs_of m" "idx_of ?m = idx_of m"
    using q by (auto simp: cache_of_def rhs_of_def idx_of_def at fun_eq_iff)
  have lists: "mg_cached ?m = mg_cached m @ [?a]" "mg_assigned ?m = mg_assigned m" "mg_indices ?m = mg_indices m" using q by (simp_all add: m3(5))
  have na: "?a \<notin> set (mg_cached m)" using lists_okD(1) [OF q(2)] c by simp
  have "root w \<noteq> 0" using reads_dom [OF w] graph_okD(5) [OF managerD(5) [OF m], of "STRIP (root w)"] strip_nonzero by blast
  then have "lists_ok ?m" unfolding lists_ok_def fields lists using q(2) na by (auto simp: lists_ok_def)
  moreover have "listed ?m = add_mset (root w) (add_mset ?a (listed m))"
  proof -
    have "image_mset ((cache_of m)(?a := root w)) (mset (mg_cached m)) = image_mset (cache_of m) (mset (mg_cached m))"
      using na by (intro image_mset_cong) auto
    then show ?thesis unfolding listed_def fields lists by simp
  qed
  moreover have "hinv ?m R Z \<longleftrightarrow> hinv m3 R Z" for R Z
  proof -
    have "reads ?m t \<longleftrightarrow> reads m3 t" for t by (induction t) simp_all
    then show ?thesis by (simp add: hinv_def graph_ok_def counts_ok_def table_ok_def degree_def)
  qed
  moreover have "nodes_used ?m = nodes_used m2" "mg_malloc ?m = mg_malloc m2" using similar_dom [OF m3(3)] by (simp_all add: nodes_used_def m3(5))
  ultimately have "manager k ?m (add_mset (root w) F)" using m3(2) managerD(3,4) [OF m2(2)] q(1) by (simp add: manager_def add_mset_commute)
  moreover have "grows m ?m" using grows_trans [OF g2 m3(4)] by (simp add: grows_def)
  moreover have "refs_below ?m (K + 2)" if "refs_below m K" for K using m3(6) [OF m2(5) [OF m1(5) [OF that]]] by (simp add: refs_below_def)
  ultimately show ?thesis using step fields lists by (intro exI [of _ ?m]) simp
qed

section \<open>A memoised pass\<close>

text \<open>The order in which a pass meets the nodes of a graph: variables have a level.\<close>

primrec tlevel :: "(ptr \<Rightarrow> int \<Rightarrow> nat) \<Rightarrow> ptree \<Rightarrow> nat" where
  "tlevel lv (PFalse a) = 0"
| "tlevel lv (PVar a v s) = lv v s"
| "tlevel lv (PAnd a t u) = max (tlevel lv t) (tlevel lv u)"
| "tlevel lv (PNot t) = tlevel lv t"

primrec tsize :: "ptree \<Rightarrow> nat" where
  "tsize (PFalse a) = 0"
| "tsize (PVar a v s) = 0"
| "tsize (PAnd a t u) = Suc (tsize t + tsize u)"
| "tsize (PNot t) = tsize t"

definition before :: "(ptr \<Rightarrow> int \<Rightarrow> nat) \<Rightarrow> ptree \<Rightarrow> ptree \<Rightarrow> bool" where
  "before lv t u \<longleftrightarrow> tlevel lv t < tlevel lv u \<or> tlevel lv t = tlevel lv u \<and> tsize t < tsize u"

definition until :: "(ptr \<Rightarrow> int \<Rightarrow> nat) \<Rightarrow> ptree \<Rightarrow> ptree \<Rightarrow> bool" where
  "until lv t u \<longleftrightarrow> \<not> before lv u t"

lemma pnot_order [simp]: "tlevel lv (pnot t) = tlevel lv t" "tsize (pnot t) = tsize t"
  by (cases t; simp)+

lemma before_and: "before lv t (PAnd a t u)" "before lv u (PAnd a t u)"
  by (auto simp: before_def)

lemma until_before: "until lv t u \<Longrightarrow> before lv u v \<Longrightarrow> before lv t v"
  by (auto simp: until_def before_def)

lemma before_until: "before lv t u \<Longrightarrow> until lv t u"
  by (auto simp: until_def before_def)

lemma wf_before: "wf {(t, u). before lv t u}"
proof -
  have "{(t, u). before lv t u} = inv_image (less_than <*lex*> less_than) (\<lambda>t. (tlevel lv t, tsize t))"
    by (auto simp: before_def inv_image_def)
  then show ?thesis by (simp only: wf_inv_image wf_lex_prod wf_less_than)
qed

definition cached_pairs :: "(ptree \<Rightarrow> ptree \<Rightarrow> bool) \<Rightarrow> simpaigmgr \<Rightarrow> bool" where
  "cached_pairs Q m \<longleftrightarrow> (\<forall>a \<in> set (mg_cached m). \<exists>t w. reads m t \<and> root t = a \<and> reads m w \<and> root w = cache_of m a \<and> Q t w)"

lemma cached_pairs_grows:
  "cached_pairs Q m \<Longrightarrow> grows m m' \<Longrightarrow> mg_cached m' = mg_cached m \<Longrightarrow> cache_of m' = cache_of m \<Longrightarrow> cached_pairs Q m'"
  unfolding cached_pairs_def by (metis grows_reads)

lemma cached_pairs_quiet: "cached_pairs Q m \<Longrightarrow> grows m m' \<Longrightarrow> quiet m m' \<Longrightarrow> cached_pairs Q m'"
  by (rule cached_pairs_grows [OF _ _ _ quiet_lists(3)]) (simp_all add: quiet_def)

text \<open>
  What a pass leaves behind: a reference to its result, and new entries of the cache, all for nodes of
  the set \<open>U\<close> that pass the test \<open>P\<close>. \<open>i\<close> counts references to a node.
\<close>

definition extends_cache :: "(ptree \<Rightarrow> ptree \<Rightarrow> bool) \<Rightarrow> ptr set \<Rightarrow> (ptree \<Rightarrow> bool) \<Rightarrow> nat \<Rightarrow> simpaigmgr \<Rightarrow> simpaigmgr \<Rightarrow> bool" where
  "extends_cache Q U P i m m' \<longleftrightarrow>
     grows m m' \<and> cached_pairs Q m' \<and> (\<forall>a \<in> set (mg_cached m). cache_of m' a = cache_of m a) \<and>
     rhs_of m' = rhs_of m \<and> idx_of m' = idx_of m \<and> mg_assigned m' = mg_assigned m \<and> mg_indices m' = mg_indices m \<and>
     (\<exists>new. mg_cached m' = mg_cached m @ new \<and> set new \<subseteq> U \<and> (\<forall>a \<in> set new. \<exists>s. reads m' s \<and> root s = a \<and> P s) \<and>
       (\<forall>K. refs_below m K \<longrightarrow> refs_below m' (K + 8 * length new + i)))"

lemma extends_cacheD:
  assumes "extends_cache Q U P i m m'"
  shows "grows m m'" "cached_pairs Q m'" "rhs_of m' = rhs_of m" "idx_of m' = idx_of m" "mg_assigned m' = mg_assigned m" "mg_indices m' = mg_indices m"
    "set (mg_cached m) \<subseteq> set (mg_cached m')" "reads m t \<Longrightarrow> reads m' t" "a \<in> set (mg_cached m) \<Longrightarrow> cache_of m' a = cache_of m a"
  using assms grows_reads unfolding extends_cache_def by auto

lemma extends_quiet:
  assumes "grows m m'" "quiet m m'" "cached_pairs Q m" "\<And>K. refs_below m K \<Longrightarrow> refs_below m' (K + i)"
  shows "extends_cache Q U P i m m'"
proof -
  have "mg_cached m' = mg_cached m @ []" "mg_assigned m' = mg_assigned m" "mg_indices m' = mg_indices m" using assms(2) by (simp_all add: quiet_def)
  then show ?thesis
    unfolding extends_cache_def using assms(1,4) cached_pairs_quiet [OF assms(3,1,2)] quiet_lists [OF assms(2)] by (intro conjI exI [of _ "[]"]) simp_all
qed

lemma extends_trans:
  assumes "extends_cache Q U P i m m'" "extends_cache Q U P' j m' m''" "\<And>s. P s \<Longrightarrow> P'' s" "\<And>s. P' s \<Longrightarrow> P'' s" "i + j \<le> l"
  shows "extends_cache Q U P'' l m m''"
proof -
  obtain new where n: "mg_cached m' = mg_cached m @ new" "set new \<subseteq> U" "\<forall>a \<in> set new. \<exists>s. reads m' s \<and> root s = a \<and> P s"
    "\<And>K. refs_below m K \<Longrightarrow> refs_below m' (K + 8 * length new + i)" using assms(1) unfolding extends_cache_def by blast
  obtain new' where n': "mg_cached m'' = mg_cached m' @ new'" "set new' \<subseteq> U" "\<forall>a \<in> set new'. \<exists>s. reads m'' s \<and> root s = a \<and> P' s"
    "\<And>K. refs_below m' K \<Longrightarrow> refs_below m'' (K + 8 * length new' + j)" using assms(2) unfolding extends_cache_def by blast
  have "refs_below m'' (K + 8 * length (new @ new') + l)" if "refs_below m K" for K
    by (rule refs_below_mono [OF n'(4) [OF n(4) [OF that]]]) (use assms(5) in simp)
  moreover have "\<forall>a \<in> set (new @ new'). \<exists>s. reads m'' s \<and> root s = a \<and> P'' s"
    using n(3) n'(3) assms(3,4) extends_cacheD(8) [OF assms(2)] by fastforce
  ultimately show ?thesis
    using n(1,2) n'(1,2) extends_cacheD(1-6,9) [OF assms(1)] extends_cacheD(1-6,9) [OF assms(2)] grows_trans
    unfolding extends_cache_def by (intro conjI exI [of _ "new @ new'"]) auto
qed

lemma extends_entry:
  assumes e: "extends_cache Q U P i m m'" and c: "mg_cached m'' = mg_cached m' @ [a]" "cache_of m'' = (cache_of m')(a := p)" "a \<notin> set (mg_cached m')"
    and g: "grows m' m''" "rhs_of m'' = rhs_of m'" "idx_of m'' = idx_of m'" "mg_assigned m'' = mg_assigned m'" "mg_indices m'' = mg_indices m'"
    and a: "a \<in> U" "reads m' s" "root s = a" "reads m' w" "root w = p" "Q s w" and P: "P' s" "\<And>s. P s \<Longrightarrow> P' s"
    and r: "\<And>K. refs_below m' K \<Longrightarrow> refs_below m'' (K + 2)" "i \<le> 7"
  shows "extends_cache Q U P' 1 m m''"
proof -
  obtain new where n: "mg_cached m' = mg_cached m @ new" "set new \<subseteq> U" "\<forall>a \<in> set new. \<exists>s. reads m' s \<and> root s = a \<and> P s"
    "\<And>K. refs_below m K \<Longrightarrow> refs_below m' (K + 8 * length new + i)" using e unfolding extends_cache_def by blast
  have "refs_below m'' (K + 8 * length (new @ [a]) + 1)" if "refs_below m K" for K
    by (rule refs_below_mono [OF r(1) [OF n(4) [OF that]]]) (use r(2) in simp)
  moreover have "\<exists>s. reads m'' s \<and> root s = b \<and> P' s" if "b \<in> set (new @ [a])" for b
  proof (cases "b = a")
    case True
    with a(2,3) P(1) grows_reads [OF g(1)] show ?thesis by blast
  next
    case False
    with that n(3) obtain s where "reads m' s" "root s = b" "P s" by auto
    with P(2) grows_reads [OF g(1)] show ?thesis by blast
  qed
  moreover have "cached_pairs Q m''"
    unfolding cached_pairs_def
  proof
    fix b assume b: "b \<in> set (mg_cached m'')"
    show "\<exists>t w. reads m'' t \<and> root t = b \<and> reads m'' w \<and> root w = cache_of m'' b \<and> Q t w"
    proof (cases "b = a")
      case True
      with a c(2) grows_reads [OF g(1)] show ?thesis by auto
    next
      case False
      then have "b \<in> set (mg_cached m')" using b c(1) by simp
      then obtain t x where "reads m' t" "root t = b" "reads m' x" "root x = cache_of m' b" "Q t x"
        using extends_cacheD(2) [OF e] unfolding cached_pairs_def by blast
      with False c(2) grows_reads [OF g(1)] show ?thesis by auto
    qed
  qed
  moreover have "cache_of m'' b = cache_of m b" if "b \<in> set (mg_cached m)" for b
    using that extends_cacheD(9) [OF e] n(1) c(2,3) by auto
  ultimately show ?thesis
    using n(1,2) c(1) a(1) g extends_cacheD(1,3-6) [OF e] grows_trans [of m m' m'']
    unfolding extends_cache_def by (intro conjI exI [of _ "new @ [a]"]) auto
qed

lemma extends_drop:
  assumes m: "manager j m H" and e: "extends_cache Q U P i m m'" and m': "manager k m' (add_mset p G)"
    and h: "\<And>b. b \<noteq> mg_false m \<Longrightarrow> 0 < refs_held H b \<Longrightarrow> 0 < refs_held (G + listed m') b"
  shows "\<exists>m''. sg_dec m' p = Some m'' \<and> manager k m'' G \<and> extends_cache Q U P i m m'' \<and> quiet m' m'' \<and>
    (\<forall>t. root t \<in># G + listed m' \<longrightarrow> reads m' t \<longrightarrow> reads m'' t)"
proof -
  obtain m'' where d: "sg_dec m' p = Some m''" "manager k m'' G" "heap_shrinks m' m''" "quiet m' m''"
    "\<And>t. root t \<in># G + listed m' \<Longrightarrow> reads m' t \<Longrightarrow> reads m'' t" using dec_manager [OF m'] by blast
  obtain new where n: "mg_cached m' = mg_cached m @ new" "set new \<subseteq> U" "\<forall>a \<in> set new. \<exists>s. reads m' s \<and> root s = a \<and> P s"
    "\<And>K. refs_below m K \<Longrightarrow> refs_below m' (K + 8 * length new + i)" using e unfolding extends_cache_def by blast
  note q = quiet_lists [OF d(4)] and ee = extends_cacheD [OF e]
  have c: "mg_cached m'' = mg_cached m'" "mg_assigned m'' = mg_assigned m'" "mg_indices m'' = mg_indices m'" using d(4) by (simp_all add: quiet_def)
  have in_list: "a \<in># listed m'" "cache_of m' a \<in># listed m'" if "a \<in> set (mg_cached m')" for a using that by (auto simp: listed_def)
  have "refs_held (listed m) b \<le> refs_held (listed m') b" for b
  proof -
    have "image_mset (cache_of m') (mset (mg_cached m)) = image_mset (cache_of m) (mset (mg_cached m))"
      using ee(9) by (intro image_mset_cong) simp
    then show ?thesis unfolding listed_def n(1) ee(3,5,6) by simp
  qed
  then have le: "refs_held (listed m) b \<le> refs_held (G + listed m'') b" for b using q(1) by (simp add: trans_le_add2)
  have "0 < refs_held (G + listed m'') b" if "b \<noteq> mg_false m" "0 < refs_held (H + listed m) b" for b
    using that h [of b] le [of b] q(1) by (cases "refs_held H b = 0") auto
  then have "grows m m''" by (rule still_held [OF managerD(1) [OF m] managerD(1) [OF d(2)] _ grows_shrinks [OF ee(1) d(3)]])
  moreover have "cached_pairs Q m''"
    unfolding cached_pairs_def c(1) q(3)
  proof
    fix a assume a: "a \<in> set (mg_cached m')"
    then obtain t w where t: "reads m' t" "root t = a" "reads m' w" "root w = cache_of m' a" "Q t w" using ee(2) unfolding cached_pairs_def by blast
    then have "reads m'' t" "reads m'' w" using d(5) in_list [OF a] by auto
    with t show "\<exists>t w. reads m'' t \<and> root t = a \<and> reads m'' w \<and> root w = cache_of m' a \<and> Q t w" by blast
  qed
  moreover have "\<exists>s. reads m'' s \<and> root s = a \<and> P s" if a: "a \<in> set new" for a
  proof -
    obtain s where s: "reads m' s" "root s = a" "P s" using n(3) a by blast
    then have "reads m'' s" using d(5) in_list(1) [of a] a n(1) by auto
    with s show ?thesis by blast
  qed
  moreover have "refs_below m'' (K + 8 * length new + i)" if "refs_below m K" for K by (rule refs_shrink [OF d(3) n(4) [OF that]])
  ultimately have "extends_cache Q U P i m m''"
    using n(1,2) c q ee(3-6,9) unfolding extends_cache_def by (intro conjI exI [of _ new]) auto
  with d show ?thesis by blast
qed

lemma extends_dec:
  assumes m: "manager j m F" and e: "extends_cache Q U P i m m'" and m': "manager k m' (add_mset p (G + F))"
  shows "\<exists>m''. sg_dec m' p = Some m'' \<and> manager k m'' (G + F) \<and> extends_cache Q U P i m m'' \<and> quiet m' m'' \<and>
    (\<forall>t. root t \<in># G + F + listed m' \<longrightarrow> reads m' t \<longrightarrow> reads m'' t)"
  by (rule extends_drop [OF m e m']) simp

text \<open>The part of a pass that handles a node without a cached result.\<close>

definition pass_node ::
    "(simpaigmgr \<Rightarrow> ptr \<Rightarrow> (ptr \<times> simpaigmgr) option) \<Rightarrow> (simpaigmgr \<Rightarrow> ptr \<Rightarrow> simpaig \<Rightarrow> (ptr \<times> simpaigmgr) option) \<Rightarrow>
       simpaigmgr \<Rightarrow> ptr \<Rightarrow> simpaig \<Rightarrow> (ptr \<times> simpaigmgr) option" where
  "pass_node rec leaf m node n = do {
     v \<leftarrow> ISVAR m node;
     if v then leaf m node n
     else do {
       (l, m) \<leftarrow> rec m (sg_c0 n);
       (r, m) \<leftarrow> rec m (sg_c1 n);
       (res, m) \<leftarrow> simpaig_and m l r;
       m \<leftarrow> sg_dec m l;
       m \<leftarrow> sg_dec m r;
       Some (res, m)
     }
   }"

definition pass_step ::
    "(simpaigmgr \<Rightarrow> ptr \<Rightarrow> (ptr \<times> simpaigmgr) option) \<Rightarrow> (simpaigmgr \<Rightarrow> ptr \<Rightarrow> simpaig \<Rightarrow> (ptr \<times> simpaigmgr) option) \<Rightarrow>
       simpaigmgr \<Rightarrow> ptr \<Rightarrow> (ptr \<times> simpaigmgr) option" where
  "pass_step rec leaf m p = do {
     let node = (if SIGN p then NOT_ptr p else p);
     n \<leftarrow> mg_nodes m node;
     (res, m) \<leftarrow>
       (if sg_cache n \<noteq> 0 then do { m \<leftarrow> sg_inc (sg_cache n) m; Some (sg_cache n, m) }
        else do {
          (res, m) \<leftarrow> pass_node rec leaf m node n;
          m \<leftarrow> simpaig_cache m node res;
          Some (res, m)
        });
     Some (if SIGN p then NOT_ptr res else res, m)
   }"

definition left_over :: "ptr set \<Rightarrow> simpaigmgr \<Rightarrow> nat" where
  "left_over U m = card (U - set (mg_cached m))"

text \<open>
  The contract of a pass over the graph \<open>t\<close>, with \<open>k\<close> more nodes available than nodes left to visit.
\<close>

definition passes ::
    "(simpaigmgr \<Rightarrow> bool) \<Rightarrow> (ptree \<Rightarrow> ptree \<Rightarrow> bool) \<Rightarrow> ptr set \<Rightarrow> (ptr \<Rightarrow> int \<Rightarrow> nat) \<Rightarrow>
       (simpaigmgr \<Rightarrow> ptr \<Rightarrow> (ptr \<times> simpaigmgr) option) \<Rightarrow> ptree \<Rightarrow> bool" where
  "passes J Q U lv rec t \<longleftrightarrow>
     (\<forall>k m F. manager (k + left_over U m) m F \<longrightarrow> cached_pairs Q m \<longrightarrow> J m \<longrightarrow> reads m t \<longrightarrow> addrs t \<subseteq> U \<longrightarrow> STRIP (root t) \<noteq> mg_false m \<longrightarrow>
       (\<exists>w m'. rec m (root t) = Some (root w, m') \<and> reads m' w \<and> Q t w \<and> manager (k + left_over U m') m' (add_mset (root w) F) \<and>
         extends_cache Q U (\<lambda>s. until lv s t) 1 m m' \<and> STRIP (root t) \<in> set (mg_cached m')))"

lemma passesD:
  assumes "passes J Q U lv rec t" "manager (k + left_over U m) m F" "cached_pairs Q m" "J m" "reads m t" "addrs t \<subseteq> U" "STRIP (root t) \<noteq> mg_false m"
  obtains w m' where "rec m (root t) = Some (root w, m')" "reads m' w" "Q t w" "manager (k + left_over U m') m' (add_mset (root w) F)"
    "extends_cache Q U (\<lambda>s. until lv s t) 1 m m'"
  using assms unfolding passes_def by blast

lemma passes_cached:
  assumes "passes J Q U lv rec t" "manager (k + left_over U m) m F" "cached_pairs Q m" "J m" "reads m t" "addrs t \<subseteq> U" "STRIP (root t) \<noteq> mg_false m"
    and "rec m (root t) = Some (p, m')"
  shows "STRIP (root t) \<in> set (mg_cached m')"
  using assms unfolding passes_def by fastforce

locale memo_pass =
  fixes rec :: "simpaigmgr \<Rightarrow> ptr \<Rightarrow> (ptr \<times> simpaigmgr) option"
    and leaf :: "simpaigmgr \<Rightarrow> ptr \<Rightarrow> simpaig \<Rightarrow> (ptr \<times> simpaigmgr) option"
    and J :: "simpaigmgr \<Rightarrow> bool" and Q :: "ptree \<Rightarrow> ptree \<Rightarrow> bool" and U :: "ptr set" and lv :: "ptr \<Rightarrow> int \<Rightarrow> nat"
  assumes rec_step: "rec m p = pass_step rec leaf m p"
    and finite_U: "finite U"
    and J_grows: "J m \<Longrightarrow> grows m m' \<Longrightarrow> rhs_of m' = rhs_of m \<Longrightarrow> J m'"
    and Q_not: "Q t w \<Longrightarrow> Q (pnot t) (pnot w)"
    and Q_and: "Q t w \<Longrightarrow> Q u x \<Longrightarrow> (\<And>\<rho>. pval \<rho> y \<longleftrightarrow> pval \<rho> w \<and> pval \<rho> x) \<Longrightarrow> tree_vars y \<subseteq> tree_vars w \<union> tree_vars x \<Longrightarrow> Q (PAnd a t u) y"
    and leaf: "manager (k + left_over U m) m F \<Longrightarrow> cached_pairs Q m \<Longrightarrow> J m \<Longrightarrow> mg_nodes m a = Some n \<Longrightarrow> reads m (PVar a v s) \<Longrightarrow>
      a \<in> U \<Longrightarrow> a \<notin> set (mg_cached m) \<Longrightarrow> (\<And>t. before lv t (PVar a v s) \<Longrightarrow> passes J Q U lv rec t) \<Longrightarrow>
      \<exists>w m'. leaf m a n = Some (root w, m') \<and> reads m' w \<and> Q (PVar a v s) w \<and> manager (k + left_over U m' - 1) m' (add_mset (root w) F) \<and>
        extends_cache Q U (\<lambda>t. before lv t (PVar a v s)) 5 m m'"
begin

lemma not_entered:
  assumes e: "extends_cache Q U (\<lambda>t. before lv t s) i m m'" and a: "root s \<notin> set (mg_cached m)" and s: "reads m s"
  shows "root s \<notin> set (mg_cached m')"
proof
  assume c: "root s \<in> set (mg_cached m')"
  obtain new where n: "mg_cached m' = mg_cached m @ new" "\<forall>a \<in> set new. \<exists>u. reads m' u \<and> root u = a \<and> before lv u s"
    using e unfolding extends_cache_def by blast
  then obtain u where u: "reads m' u" "root u = root s" "before lv u s" using c a by auto
  then have "u = s" using reads_unique [OF u(1) extends_cacheD(8) [OF e s]] by simp
  with u(3) show False by (simp add: before_def)
qed

lemma left_positive: "a \<in> U \<Longrightarrow> a \<notin> set (mg_cached m) \<Longrightarrow> 0 < left_over U m"
  unfolding left_over_def using finite_U by (auto simp: card_gt_0_iff)

lemma pass_and:
  assumes m: "manager (k + left_over U m) m F" "cached_pairs Q m" "J m" and s: "reads m (PAnd a t u)" "addrs (PAnd a t u) \<subseteq> U" "a \<notin> set (mg_cached m)"
    and n: "mg_nodes m a = Some n" and IH: "passes J Q U lv rec t" "passes J Q U lv rec u"
  shows "\<exists>w m'. pass_node rec leaf m a n = Some (root w, m') \<and> reads m' w \<and> Q (PAnd a t u) w \<and> manager (k + left_over U m' - 1) m' (add_mset (root w) F) \<and>
    extends_cache Q U (\<lambda>s. before lv s (PAnd a t u)) 5 m m'"
proof -
  let ?s = "PAnd a t u"
  note g = managerD(5) [OF m(1)]
  have c: "root t = sg_c0 n" "root u = sg_c1 n" "reads m t" "reads m u" "sg_var n = 0" "even a" using s(1) n by (auto simp: sg_key_def)
  have "STRIP (root t) \<noteq> 0" using s(1) by simp
  then have "a \<noteq> mg_false m" using graph_okD(4) [OF g] n c(1) strip_nonzero by (auto simp: sg_key_def)
  then have "gate_node (mg_false m) n" using graph_okD(6) [OF g n] c(5) by (auto simp: var_node_def)
  then have nf: "STRIP (root t) \<noteq> mg_false m" "STRIP (root u) \<noteq> mg_false m" unfolding c(1,2) by (simp_all add: gate_node_def)
  obtain w1 m1 where m1: "rec m (root t) = Some (root w1, m1)" "reads m1 w1" "Q t w1" "manager (k + left_over U m1) m1 (add_mset (root w1) F)"
      "extends_cache Q U (\<lambda>s. until lv s t) 1 m m1"
    by (rule passesD [OF IH(1) m c(3) _ nf(1)]) (use s(2) in auto)
  note e1 = extends_cacheD [OF m1(5)]
  have J1: "J m1" by (rule J_grows [OF m(3) e1(1,3)])
  have f1: "mg_false m1 = mg_false m" using e1(1) by (simp add: grows_def)
  obtain w2 m2 where m2: "rec m1 (root u) = Some (root w2, m2)" "reads m2 w2" "Q u w2" "manager (k + left_over U m2) m2 (add_mset (root w2) (add_mset (root w1) F))"
      "extends_cache Q U (\<lambda>s. until lv s u) 1 m1 m2"
    by (rule passesD [OF IH(2) m1(4) e1(2) J1 e1(8) [OF c(4)]]) (use s(2) nf(2) f1 in auto)
  have e2: "extends_cache Q U (\<lambda>s. before lv s ?s) 2 m m2"
    by (rule extends_trans [OF m1(5) m2(5)]) (use until_before before_and in \<open>blast+, simp\<close>)
  have na: "a \<notin> set (mg_cached m2)" using not_entered [OF e2] s(1,3) by simp
  then have pos: "0 < left_over U m2" using left_positive [of a m2] s(2) by simp
  have r2: "reads m2 w1" by (rule extends_cacheD(8) [OF m2(5) m1(2)])
  obtain y m3 where m3: "simpaig_and m2 (root w1) (root w2) = Some (root y, m3)" "makes 1 m2 (add_mset (root w2) (add_mset (root w1) F) + listed m2) (root y) m3"
      "reads m3 y" "\<And>\<rho>. pval \<rho> y \<longleftrightarrow> pval \<rho> w1 \<and> pval \<rho> w2" "tree_vars y \<subseteq> tree_vars w1 \<union> tree_vars w2"
    using and_makes [OF managerD(1,3) [OF m2(4)] _ r2 m2(2)] managerD(4) [OF m2(4)] pos by fastforce
  let ?k = "k + left_over U m2 - 1"
  have "manager (?k + 1) m2 (add_mset (root w2) (add_mset (root w1) F))" using m2(4) pos by simp
  note mm = makes_manager [OF this m3(2)]
  have e3: "extends_cache Q U (\<lambda>s. before lv s ?s) 3 m m3"
    by (rule extends_trans [OF e2 extends_quiet [OF mm(2,3) extends_cacheD(2) [OF e2] makesD(5) [OF m3(2)]]]) simp_all
  have "manager ?k m3 (add_mset (root w1) ({#root y, root w2#} + F))" using mm(1) by (simp add: add_mset_commute)
  then obtain m4 where m4: "sg_dec m3 (root w1) = Some m4" "manager ?k m4 ({#root y, root w2#} + F)" "extends_cache Q U (\<lambda>s. before lv s ?s) 3 m m4" "quiet m3 m4"
      "\<And>t. root t \<in># {#root y, root w2#} + F + listed m3 \<Longrightarrow> reads m3 t \<Longrightarrow> reads m4 t"
    using extends_dec [OF m(1) e3] by blast
  have "manager ?k m4 (add_mset (root w2) ({#root y#} + F))" using m4(2) by (simp add: add_mset_commute)
  then obtain m5 where m5: "sg_dec m4 (root w2) = Some m5" "manager ?k m5 ({#root y#} + F)" "extends_cache Q U (\<lambda>s. before lv s ?s) 3 m m5" "quiet m4 m5"
      "\<And>t. root t \<in># {#root y#} + F + listed m4 \<Longrightarrow> reads m4 t \<Longrightarrow> reads m5 t"
    using extends_dec [OF m(1) m4(3)] by blast
  have "reads m5 y" by (rule m5(5) [OF _ m4(5) [OF _ m3(3)]]) simp_all
  moreover have "left_over U m5 = left_over U m2" using quiet_trans [OF mm(3) quiet_trans [OF m4(4) m5(4)]] by (simp add: left_over_def quiet_def)
  moreover have "pass_node rec leaf m a n = Some (root y, m5)"
    using c(5,6) n m1(1) m2(1) m3(1) m4(1) m5(1) unfolding c(1,2) by (simp add: pass_node_def ISVAR_def SIGN_def)
  moreover have "Q ?s y" by (rule Q_and [OF m1(3) m2(3) m3(4,5)])
  moreover have "extends_cache Q U (\<lambda>s. before lv s ?s) 5 m m5"
    by (rule extends_trans [OF m5(3) extends_quiet [OF grows_refl quiet_refl extends_cacheD(2) [OF m5(3)], where i = 2 and P = "\<lambda>s. False"]])
      (auto intro: refs_below_mono)
  ultimately show ?thesis using m5(2) by (intro exI [of _ y] exI [of _ m5]) simp
qed

lemma pass_unsigned:
  assumes m: "manager (k + left_over U m) m F" "cached_pairs Q m" "J m" and s: "reads m s" "\<not> SIGN (root s)" "addrs s \<subseteq> U" "root s \<noteq> mg_false m"
    and IH: "\<And>t. before lv t s \<Longrightarrow> passes J Q U lv rec t"
  shows "\<exists>w m'. pass_step rec leaf m (root s) = Some (root w, m') \<and> reads m' w \<and> Q s w \<and> manager (k + left_over U m') m' (add_mset (root w) F) \<and>
    extends_cache Q U (\<lambda>t. until lv t s) 1 m m' \<and> root s \<in> set (mg_cached m')"
proof -
  let ?a = "root s"
  note g = managerD(5) [OF m(1)]
  have sa: "STRIP ?a = ?a" by (rule strip_even(2) [OF s(2)])
  obtain n where n: "mg_nodes m ?a = Some n" using reads_dom [OF s(1)] unfolding sa by blast
  have aU: "?a \<in> U" using reads_addrs(1) [OF s(1)] s(3) unfolding sa by blast
  show ?thesis
  proof (cases "sg_cache n = 0")
    case False
    then have ac: "?a \<in> set (mg_cached m)" using lists_okD(1) [OF managerD(2) [OF m(1)]] n by simp
    then obtain t w where t: "reads m t" "root t = ?a" "reads m w" "root w = cache_of m ?a" "Q t w" using m(2) unfolding cached_pairs_def by blast
    then have Q: "Q s w" using reads_unique [OF t(1) s(1)] by simp
    obtain m' where m': "sg_inc (root w) m = Some m'" "manager (k + left_over U m) m' (add_mset (root w) F)" "grows m m'" "quiet m m'"
      "\<And>K. refs_below m K \<Longrightarrow> refs_below m' (Suc K)" using inc_manager [OF m(1) t(3)] by blast
    have "extends_cache Q U (\<lambda>t. until lv t s) 1 m m'" by (rule extends_quiet [OF m'(3,4) m(2)]) (use m'(5) in simp)
    moreover have "left_over U m' = left_over U m" using m'(4) by (simp add: left_over_def quiet_def)
    moreover have "pass_step rec leaf m ?a = Some (root w, m')" using s(2) n False m'(1) t(4) by (simp add: pass_step_def)
    ultimately show ?thesis using grows_reads [OF m'(3) t(3)] Q m'(2,4) ac by (intro exI [of _ w] exI [of _ m']) (simp add: quiet_def)
  next
    case True
    then have na: "?a \<notin> set (mg_cached m)" using lists_okD(1) [OF managerD(2) [OF m(1)]] n by simp
    have "\<exists>w m'. pass_node rec leaf m ?a n = Some (root w, m') \<and> reads m' w \<and> Q s w \<and> manager (k + left_over U m' - 1) m' (add_mset (root w) F) \<and>
      extends_cache Q U (\<lambda>t. before lv t s) 5 m m'"
    proof (cases s)
      case (PFalse a)
      with s(1,4) show ?thesis by simp
    next
      case (PNot t)
      with s(1,2) show ?thesis by simp
    next
      case (PVar a v i)
      have "sg_var n \<noteq> 0" "\<not> SIGN a" using s(1) n PVar by (auto simp: sg_key_def SIGN_def)
      then have "pass_node rec leaf m ?a n = leaf m a n" using PVar n by (simp add: pass_node_def ISVAR_def)
      then show ?thesis using leaf [OF m, of a n v i] n s(1) PVar aU na IH by simp
    next
      case (PAnd a t u)
      have "passes J Q U lv rec t" "passes J Q U lv rec u" using IH before_and PAnd by blast+
      then show ?thesis using pass_and [OF m, of a t u n] s(1,3) na n PAnd by simp
    qed
    then obtain w m1 where m1: "pass_node rec leaf m ?a n = Some (root w, m1)" "reads m1 w" "Q s w" "manager (k + left_over U m1 - 1) m1 (add_mset (root w) F)"
      "extends_cache Q U (\<lambda>t. before lv t s) 5 m m1" by blast
    have s1: "reads m1 s" by (rule extends_cacheD(8) [OF m1(5) s(1)])
    have n1: "?a \<notin> set (mg_cached m1)" by (rule not_entered [OF m1(5) na s(1)])
    then have c1: "cache_of m1 ?a = 0" using lists_okD(1) [OF managerD(2) [OF m1(4)]] by blast
    obtain m2 where m2: "simpaig_cache m1 ?a (root w) = Some m2" "manager (k + left_over U m1 - 1) m2 (add_mset (root w) F)" "grows m1 m2"
      "mg_cached m2 = mg_cached m1 @ [?a]" "cache_of m2 = (cache_of m1)(?a := root w)" "rhs_of m2 = rhs_of m1" "idx_of m2 = idx_of m1"
      "mg_assigned m2 = mg_assigned m1" "mg_indices m2 = mg_indices m1" "\<And>K. refs_below m1 K \<Longrightarrow> refs_below m2 (K + 2)"
      using cache_entry [OF m1(4) s1 s(2) m1(2) c1] by blast
    have "extends_cache Q U (\<lambda>t. until lv t s) 1 m m2"
    proof (rule extends_entry [OF m1(5) m2(4,5) n1 m2(3,6-9) aU s1 refl m1(2) refl m1(3)])
      show "until lv s s" by (simp add: until_def before_def)
    qed (use before_until m2(10) in auto)
    moreover have "left_over U m1 = Suc (left_over U m2)"
    proof -
      have "U - set (mg_cached m2) = (U - set (mg_cached m1)) - {?a}" using m2(4) by auto
      then show ?thesis using card_Suc_Diff1 [of "U - set (mg_cached m1)" ?a] finite_U aU n1 by (simp add: left_over_def)
    qed
    moreover have "pass_step rec leaf m ?a = Some (root w, m2)" using s(2) n True m1(1) m2(1) by (simp add: pass_step_def)
    ultimately show ?thesis using grows_reads [OF m2(3) m1(2)] m1(3) m2(2,4) by (intro exI [of _ w] exI [of _ m2]) simp
  qed
qed

lemma pass_all: "passes J Q U lv rec t"
proof (induction t rule: wf_induct_rule [OF wf_before [of lv]])
  case (1 t)
  have IH: "passes J Q U lv rec u" if "before lv u t" for u using "1" that by simp
  show ?case unfolding passes_def
  proof (intro allI impI)
    fix k m F assume m: "manager (k + left_over U m) m F" "cached_pairs Q m" "J m" and t: "reads m t" "addrs t \<subseteq> U" "STRIP (root t) \<noteq> mg_false m"
    let ?s = "if SIGN (root t) then pnot t else t"
    have s: "reads m ?s" "\<not> SIGN (root ?s)" "addrs ?s \<subseteq> U" "root ?s \<noteq> mg_false m"
      using t not_strip strip_even(2) by auto
    have "before lv u t" if "before lv u ?s" for u using that by (auto simp: before_def split: if_splits)
    then obtain w m' where w: "pass_step rec leaf m (root ?s) = Some (root w, m')" "reads m' w" "Q ?s w" "manager (k + left_over U m') m' (add_mset (root w) F)"
      "extends_cache Q U (\<lambda>u. until lv u ?s) 1 m m'" "root ?s \<in> set (mg_cached m')"
      using pass_unsigned [OF m s] IH by blast
    have sr: "STRIP (root t) = root ?s" using not_strip strip_even(2) by auto
    have u: "(\<lambda>u. until lv u ?s) = (\<lambda>u. until lv u t)" by (auto simp: until_def before_def fun_eq_iff)
    show "\<exists>w m'. rec m (root t) = Some (root w, m') \<and> reads m' w \<and> Q t w \<and> manager (k + left_over U m') m' (add_mset (root w) F) \<and>
      extends_cache Q U (\<lambda>s. until lv s t) 1 m m' \<and> STRIP (root t) \<in> set (mg_cached m')"
    proof (cases "SIGN (root t)")
      case False
      have "rec m (root t) = Some (root w, m')" by (subst rec_step) (use w(1) False in simp)
      with w(2-6) u sr False show ?thesis by (intro exI [of _ w] exI [of _ m']) simp
    next
      case True
      obtain x where x: "t = PNot x" using reads_root [OF t(1)] True by blast
      have "rec m (root t) = Some (NOT_ptr (root w), m')"
      proof (subst rec_step)
        have "pass_step rec leaf m (NOT_ptr (root t)) = Some (root w, m')" using w(1) True by simp
        then show "pass_step rec leaf m (root t) = Some (NOT_ptr (root w), m')" using True unfolding pass_step_def by (auto simp: bind_eq_Some_conv Let_def)
      qed
      moreover have "Q t (pnot w)" using Q_not [OF w(3)] True x t(1) reads_root [of m x] by (cases x) auto
      ultimately show ?thesis using w(2,5,6) sr manager_not [OF w(4)] u by (intro exI [of _ "pnot w"] exI [of _ m']) simp
    qed
  qed
qed

end

end
