(* ===== verification/SimpAigReset.thy ===== *)
theory SimpAigReset
  imports SimpAigMemo
begin

text \<open>
  The lists of the manager are emptied in the same way: the reference that an entry holds is given back,
  its field is cleared, and the reference to the entry itself is given back. The locale \<open>entries\<close> has the
  loop once; the caches, the assignments and the indices are its interpretations.
\<close>

section \<open>Emptying a list\<close>

definition attr3 :: "simpaig \<Rightarrow> ptr \<times> ptr \<times> uint" where
  "attr3 n = (sg_cache n, sg_rhs n, sg_idx n)"

lemma attrs_node: "mg_nodes m a = Some n \<Longrightarrow> attrs m a = attr3 n"
  by (simp add: attrs_def attr3_def)

lemma attrs_even: "graph_ok m Z \<Longrightarrow> attrs m a \<noteq> (0, 0, 0) \<Longrightarrow> STRIP a = a"
  using graph_okD(5) [of m Z a] by (auto simp: attrs_def strip_even split: option.splits)

definition release_entry ::
    "(ptr \<times> ptr \<times> uint \<Rightarrow> bool) \<Rightarrow> (ptr \<times> ptr \<times> uint \<Rightarrow> ptr list) \<Rightarrow> (simpaig \<Rightarrow> simpaig) \<Rightarrow> ptr \<Rightarrow> simpaigmgr \<Rightarrow> simpaigmgr option" where
  "release_entry on extra clear a m = do {
     n \<leftarrow> mg_nodes m a;
     _ \<leftarrow> assert_c (on (attr3 n));
     m \<leftarrow> foldm (\<lambda>p m. sg_dec m p) (extra (attr3 n)) m;
     m \<leftarrow> sg_update clear a m;
     sg_dec m a
   }"

lemma dec_all:
  assumes "hinv m (mset ps + R) {}" "marks m R"
  shows "\<exists>m'. foldm (\<lambda>p m. sg_dec m p) ps m = Some m' \<and> hinv m' R {} \<and> heap_shrinks m m' \<and> quiet m m'"
  using assms
proof (induction ps arbitrary: m)
  case (Cons p ps)
  have h: "hinv m (add_mset p (mset ps + R)) {}" using Cons.prems(1) by simp
  have mk: "marks m (mset ps + R)" using Cons.prems(2) by (auto simp: marks_def)
  obtain t where t: "reads m t" "root t = STRIP p"
    using graph_okD(8) [OF hinvD(1) [OF h], of "STRIP p"] counts_okD(1) [OF hinvD(2) [OF h], of p] by auto
  obtain m1 where m1: "sg_dec m p = Some m1" "hinv m1 (mset ps + R) {}" "heap_shrinks m m1" "quiet m m1"
    using dec_hinv [OF h mk t(1)] t(2) by auto
  obtain m2 where "foldm (\<lambda>p m. sg_dec m p) ps m1 = Some m2" "hinv m2 R {}" "heap_shrinks m1 m2" "quiet m1 m2"
    using Cons.IH [OF m1(2) marks_quiet [OF m1(4) Cons.prems(2)]] by blast
  with m1 show ?case using shrinks_trans quiet_trans by (intro exI [of _ m2]) auto
qed simp

locale entries =
  fixes on :: "ptr \<times> ptr \<times> uint \<Rightarrow> bool" and extra :: "ptr \<times> ptr \<times> uint \<Rightarrow> ptr list" and clear :: "simpaig \<Rightarrow> simpaig"
    and off :: "ptr \<times> ptr \<times> uint \<Rightarrow> ptr \<times> ptr \<times> uint"
  assumes clear: "sg_key (clear n) = sg_key n" "sg_ref (clear n) = sg_ref n" "attr3 (clear n) = off (attr3 n)"
    and off: "\<not> on x \<Longrightarrow> off x = x" "\<not> on (off x)" and on: "on x \<Longrightarrow> x \<noteq> (0, 0, 0)"
begin

definition extras :: "simpaigmgr \<Rightarrow> ptr list \<Rightarrow> ptr multiset" where
  "extras m L = mset (concat (map (\<lambda>a. extra (attrs m a)) L))"

lemma release_one:
  assumes h: "hinv m (mset (extra (attrs m a)) + add_mset a R) {}" and a: "on (attrs m a)"
    and mk: "\<And>b. b \<noteq> a \<Longrightarrow> attrs m b \<noteq> (0, 0, 0) \<Longrightarrow> 0 < refs_held R b" "off (attrs m a) \<noteq> (0, 0, 0) \<Longrightarrow> 0 < refs_held R a"
  shows "\<exists>m'. release_entry on extra clear a m = Some m' \<and> hinv m' R {} \<and> heap_shrinks m m' \<and>
    attrs m' = (attrs m)(a := off (attrs m a)) \<and> mg_cached m' = mg_cached m \<and> mg_assigned m' = mg_assigned m \<and> mg_indices m' = mg_indices m"
proof -
  have e: "STRIP a = a" by (rule attrs_even [OF hinvD(1) [OF h] on [OF a]])
  obtain n where n: "mg_nodes m a = Some n" using counts_okD(1) [OF hinvD(2) [OF h], of a] e by auto
  have "marks m (add_mset a R)" using mk(1) e by (auto simp: marks_def)
  then obtain m1 where m1: "foldm (\<lambda>p m. sg_dec m p) (extra (attrs m a)) m = Some m1" "hinv m1 (add_mset a R) {}" "heap_shrinks m m1" "quiet m m1"
    using dec_all [OF h] by blast
  obtain n1 where n1: "mg_nodes m1 a = Some n1" using counts_okD(1) [OF hinvD(2) [OF m1(2)], of a] e by auto
  have at1: "attrs m1 = attrs m" using m1(4) by (simp add: quiet_def)
  obtain m2 where m2: "sg_update clear a m1 = Some m2" "hinv m2 (add_mset a R) {}" "m2 = m1\<lparr>mg_nodes := (mg_nodes m1)(a \<mapsto> clear n1)\<rparr>"
    using update_attr [OF m1(2) n1, of clear] clear(1,2) by blast
  have at2: "attrs m2 = (attrs m)(a := off (attrs m a))"
  proof
    fix b show "attrs m2 b = ((attrs m)(a := off (attrs m a))) b"
    proof (cases "b = a")
      case True
      have "mg_nodes m2 a = Some (clear n1)" unfolding m2(3) by simp
      from attrs_node [OF this] True show ?thesis using attrs_node [OF n1] at1 clear(3) by simp
    qed (simp add: m2(3) attrs_def flip: at1)
  qed
  have s2: "heap_shrinks m1 m2" using n1 clear(1,2) unfolding m2(3) heap_shrinks_def by simp
  have "marks m2 R" unfolding marks_def at2 using mk by simp
  then obtain m3 where m3: "sg_dec m2 a = Some m3" "hinv m3 R {}" "heap_shrinks m2 m3" "quiet m2 m3"
    using dec_all [of m2 "[a]" R] m2(2) by (auto simp: bind_eq_Some_conv)
  have "release_entry on extra clear a m = Some m3"
    using n a m1(1) m2(1) m3(1) attrs_node [OF n] by (simp add: release_entry_def)
  moreover have "heap_shrinks m m3" by (rule shrinks_trans [OF m1(3) shrinks_trans [OF s2 m3(3)]])
  moreover have "mg_cached m3 = mg_cached m" "mg_assigned m3 = mg_assigned m" "mg_indices m3 = mg_indices m" "attrs m3 = attrs m2"
    using m1(4) m3(4) by (simp_all add: quiet_def m2(3))
  ultimately show ?thesis using m3(2) at2 by (intro exI [of _ m3]) simp
qed

lemma release_all:
  assumes "hinv m (mset L + extras m L + R) {}" "distinct L" "\<And>a. on (attrs m a) \<longleftrightarrow> a \<in> set L"
    and "\<And>a. off (attrs m a) \<noteq> (0, 0, 0) \<Longrightarrow> 0 < refs_held R a"
  shows "\<exists>m'. foldm (release_entry on extra clear) L m = Some m' \<and> hinv m' R {} \<and> heap_shrinks m m' \<and>
    attrs m' = (\<lambda>a. off (attrs m a)) \<and> mg_cached m' = mg_cached m \<and> mg_assigned m' = mg_assigned m \<and> mg_indices m' = mg_indices m"
  using assms
proof (induction L arbitrary: m)
  case Nil
  have "attrs m a = off (attrs m a)" for a using off(1) Nil.prems(3) by simp
  then show ?case using Nil.prems(1) by (intro exI [of _ m]) (simp add: fun_eq_iff extras_def)
next
  case (Cons a L)
  let ?R = "mset L + extras m L + R"
  have h: "hinv m (mset (extra (attrs m a)) + add_mset a ?R) {}" using Cons.prems(1) by (simp add: extras_def ac_simps)
  have mk: "0 < refs_held ?R b" if b: "b \<noteq> a" "attrs m b \<noteq> (0, 0, 0)" for b
  proof (cases "b \<in> set L")
    case True
    then have "b \<in># ?R" by simp
    then show ?thesis using held_pos attrs_even [OF hinvD(1) [OF h] b(2)] by blast
  next
    case False
    then have "off (attrs m b) = attrs m b" using off(1) Cons.prems(3) b(1) by simp
    then show ?thesis using Cons.prems(4) [of b] b(2) by simp
  qed
  obtain m1 where m1: "release_entry on extra clear a m = Some m1" "hinv m1 ?R {}" "heap_shrinks m m1" "attrs m1 = (attrs m)(a := off (attrs m a))"
      "mg_cached m1 = mg_cached m" "mg_assigned m1 = mg_assigned m" "mg_indices m1 = mg_indices m"
    using release_one [OF h] Cons.prems(3,4) mk by fastforce
  have na: "a \<notin> set L" "distinct L" using Cons.prems(2) by simp_all
  have x: "extras m1 L = extras m L" unfolding extras_def m1(4) using na(1) by (auto intro!: arg_cong [where f = mset] arg_cong [where f = concat])
  have off1: "off (attrs m1 b) = off (attrs m b)" for b using off by (simp add: m1(4))
  have "on (attrs m1 b) \<longleftrightarrow> b \<in> set L" for b using Cons.prems(3) off(2) na(1) by (simp add: m1(4))
  moreover have "hinv m1 (mset L + extras m1 L + R) {}" using m1(2) x by simp
  moreover have "off (attrs m1 b) \<noteq> (0, 0, 0) \<Longrightarrow> 0 < refs_held R b" for b unfolding off1 by (rule Cons.prems(4))
  ultimately obtain m2 where "foldm (release_entry on extra clear) L m1 = Some m2" "hinv m2 R {}" "heap_shrinks m1 m2" "attrs m2 = (\<lambda>a. off (attrs m1 a))"
      "mg_cached m2 = mg_cached m1" "mg_assigned m2 = mg_assigned m1" "mg_indices m2 = mg_indices m1"
    using Cons.IH [of m1] na(2) by blast
  with m1 off1 show ?case using shrinks_trans [OF m1(3)] by (intro exI [of _ m2]) simp
qed

end

section \<open>The three lists\<close>

interpretation caches: entries "\<lambda>(c, r, i). c \<noteq> 0" "\<lambda>(c, r, i). [c]" "\<lambda>n. n\<lparr>sg_cache := 0\<rparr>" "\<lambda>(c, r, i). (0, r, i)"
  by unfold_locales (auto simp: sg_key_def attr3_def)

interpretation assignments: entries "\<lambda>(c, r, i). r \<noteq> 0" "\<lambda>(c, r, i). [r]" "\<lambda>n. n\<lparr>sg_rhs := 0\<rparr>" "\<lambda>(c, r, i). (c, 0, i)"
  by unfold_locales (auto simp: sg_key_def attr3_def)

interpretation index_list: entries "\<lambda>(c, r, i). i \<noteq> 0" "\<lambda>(c, r, i). []" "\<lambda>n. n\<lparr>sg_idx := 0\<rparr>" "\<lambda>(c, r, i). (c, r, 0)"
  by unfold_locales (auto simp: sg_key_def attr3_def)

text \<open>
  What is left after a list has been emptied: the client's references, and the other two lists.
\<close>

definition releases :: "nat \<Rightarrow> simpaigmgr \<Rightarrow> ptr multiset \<Rightarrow> simpaigmgr \<Rightarrow> bool" where
  "releases k m F m' \<longleftrightarrow> manager k m' F \<and> heap_shrinks m m' \<and> (\<forall>t. root t \<in># F + listed m' \<longrightarrow> reads m t \<longrightarrow> reads m' t)"

lemma releasesD:
  assumes "releases k m F m'"
  shows "manager k m' F" "heap_shrinks m m'" "root t \<in># F + listed m' \<Longrightarrow> reads m t \<Longrightarrow> reads m' t"
  using assms unfolding releases_def by blast+

lemma releasesI:
  assumes m: "manager k m F" and m': "hinv m' (F + listed m') {}" "lists_ok m'" "heap_shrinks m m'"
  shows "releases k m F m'"
proof -
  have "mg_malloc m' = mg_malloc m" using m'(3) by (simp add: heap_shrinks_def)
  then have "manager k m' F"
    using m' managerD(3,4) [OF m] nodes_shrink [OF m'(3) graph_okD(1) [OF managerD(5) [OF m]]] unfolding manager_def by auto
  moreover have "reads m' t" if "root t \<in># F + listed m'" "reads m t" for t
    using shrinks_reads [OF m'(3) hinvD(1) [OF m'(1)] that(2)] counts_okD(1) [OF hinvD(2) [OF m'(1)] that(1)] by simp
  ultimately show ?thesis using m'(3) by (simp add: releases_def)
qed

lemma hinv_list_change [simp]:
  "hinv (m\<lparr>mg_cached := c\<rparr>) R Z \<longleftrightarrow> hinv m R Z" "hinv (m\<lparr>mg_assigned := c\<rparr>) R Z \<longleftrightarrow> hinv m R Z" "hinv (m\<lparr>mg_indices := c\<rparr>) R Z \<longleftrightarrow> hinv m R Z"
proof -
  have "reads (m\<lparr>mg_cached := c\<rparr>) t \<longleftrightarrow> reads m t" "reads (m\<lparr>mg_assigned := c\<rparr>) t \<longleftrightarrow> reads m t" "reads (m\<lparr>mg_indices := c\<rparr>) t \<longleftrightarrow> reads m t" for t
    by (induction t) simp_all
  then show "hinv (m\<lparr>mg_cached := c\<rparr>) R Z \<longleftrightarrow> hinv m R Z" "hinv (m\<lparr>mg_assigned := c\<rparr>) R Z \<longleftrightarrow> hinv m R Z" "hinv (m\<lparr>mg_indices := c\<rparr>) R Z \<longleftrightarrow> hinv m R Z"
    by (simp_all add: hinv_def graph_ok_def counts_ok_def table_ok_def degree_def)
qed

lemma concat_one: "concat (map (\<lambda>a. [f a]) xs) = map f xs"
  by (induction xs) simp_all

lemma extras_eqs:
  "caches.extras m L = image_mset (cache_of m) (mset L)" "assignments.extras m L = image_mset (rhs_of m) (mset L)" "index_list.extras m L = {#}"
proof -
  have e: "(\<lambda>a. case attrs m a of (c, r, i) \<Rightarrow> [c]) = (\<lambda>a. [cache_of m a])" "(\<lambda>a. case attrs m a of (c, r, i) \<Rightarrow> [r]) = (\<lambda>a. [rhs_of m a])"
    "(\<lambda>a. case attrs m a of (c, r, i) \<Rightarrow> []) = (\<lambda>a. [] :: ptr list)"
    by (simp_all add: cache_of_def rhs_of_def fun_eq_iff split: prod.splits)
  show "caches.extras m L = image_mset (cache_of m) (mset L)" "assignments.extras m L = image_mset (rhs_of m) (mset L)" "index_list.extras m L = {#}"
    unfolding caches.extras_def assignments.extras_def index_list.extras_def e by (simp_all only: concat_one mset_map) simp
qed

lemma held_listed:
  assumes "lists_ok m" "graph_ok m Z"
  shows "cache_of m a \<noteq> 0 \<Longrightarrow> 0 < refs_held (mset (mg_cached m) + R) a" "rhs_of m a \<noteq> 0 \<Longrightarrow> 0 < refs_held (mset (mg_assigned m) + R) a"
    "idx_of m a \<noteq> 0 \<Longrightarrow> 0 < refs_held (mset (mg_indices m) + R) a"
proof -
  have e: "cache_of m a \<noteq> 0 \<or> rhs_of m a \<noteq> 0 \<or> idx_of m a \<noteq> 0 \<Longrightarrow> STRIP a = a"
    by (rule attrs_even [OF assms(2)]) (auto simp: cache_of_def rhs_of_def idx_of_def)
  show "cache_of m a \<noteq> 0 \<Longrightarrow> 0 < refs_held (mset (mg_cached m) + R) a" "rhs_of m a \<noteq> 0 \<Longrightarrow> 0 < refs_held (mset (mg_assigned m) + R) a"
    "idx_of m a \<noteq> 0 \<Longrightarrow> 0 < refs_held (mset (mg_indices m) + R) a"
    unfolding held_pos using e lists_okD(1-3) [OF assms(1), of a] by auto
qed

lemma attrs_of: "attrs m a = (cache_of m a, rhs_of m a, idx_of m a)"
  by (simp add: cache_of_def rhs_of_def idx_of_def)

lemma fields_of:
  assumes "\<And>a. attrs m a = (f a, g a, h a)"
  shows "cache_of m = f" "rhs_of m = g" "idx_of m = h"
  by (auto simp: cache_of_def rhs_of_def idx_of_def assms)

lemma foldm_same: "(\<And>x. x \<in> set xs \<Longrightarrow> f x = g x) \<Longrightarrow> foldm f xs = foldm g xs"
proof (induction xs)
  case (Cons x xs)
  then have e: "foldm f xs = foldm g xs" "f x = g x" by simp_all
  show ?case by (rule ext) (simp only: foldm.simps e)
qed (simp add: fun_eq_iff)

lemma on_list:
  assumes "lists_ok m" "graph_ok m Z" "a \<in> set (mg_cached m) \<union> set (mg_assigned m) \<union> set (mg_indices m)"
  shows "a \<noteq> 0" "\<not> SIGN a"
proof -
  have "attrs m a \<noteq> (0, 0, 0)" using assms(3) lists_okD(1-3) [OF assms(1), of a] by (auto simp: attrs_of)
  then obtain n where "mg_nodes m a = Some n" by (auto simp: attrs_def split: option.splits)
  from graph_okD(5) [OF assms(2) this] show "a \<noteq> 0" "\<not> SIGN a" by (simp_all add: SIGN_def)
qed

lemma reset_cache_releases:
  assumes m: "manager k m F"
  shows "\<exists>m'. simpaig_reset_cache m = Some m' \<and> releases k m F m' \<and> mg_cached m' = [] \<and>
    rhs_of m' = rhs_of m \<and> idx_of m' = idx_of m \<and> mg_assigned m' = mg_assigned m \<and> mg_indices m' = mg_indices m"
proof -
  let ?L = "mg_cached m" and ?R = "F + (mset (mg_assigned m) + image_mset (rhs_of m) (mset (mg_assigned m)) + mset (mg_indices m))"
  note l = managerD(2) [OF m] and g = managerD(5) [OF m]
  have h: "hinv m (mset ?L + caches.extras m ?L + ?R) {}" using managerD(1) [OF m] unfolding extras_eqs listed_def by (simp add: ac_simps)
  have on: "(case attrs m a of (c, r, i) \<Rightarrow> c \<noteq> 0) \<longleftrightarrow> a \<in> set ?L" for a unfolding attrs_of using lists_okD(1) [OF l] by simp
  have off: "0 < refs_held ?R a" if "(case attrs m a of (c, r, i) \<Rightarrow> (0, r, i)) \<noteq> (0, 0, 0)" for a
    using that held_listed(2,3) [OF l g, of a "{#}"] unfolding attrs_of by auto
  let ?f = "release_entry (\<lambda>(c, r, i). c \<noteq> 0) (\<lambda>(c, r, i). [c]) (\<lambda>n. n\<lparr>sg_cache := 0\<rparr>)"
  obtain m1 where m1: "foldm ?f ?L m = Some m1"
      "hinv m1 ?R {}" "heap_shrinks m m1" "attrs m1 = (\<lambda>a. case attrs m a of (c, r, i) \<Rightarrow> (0, r, i))"
      "mg_cached m1 = mg_cached m" "mg_assigned m1 = mg_assigned m" "mg_indices m1 = mg_indices m"
    using caches.release_all [OF h lists_okD(4) [OF l] on off] by blast
  let ?m = "m1\<lparr>mg_cached := []\<rparr>"
  have at: "attrs ?m a = (0, rhs_of m a, idx_of m a)" for a
  proof -
    have "attrs ?m a = attrs m1 a" by (simp add: attrs_def)
    then show ?thesis unfolding m1(4) by (simp add: attrs_of)
  qed
  note f = fields_of [OF at]
  have "lists_ok ?m" using l unfolding lists_ok_def f by (simp add: m1(6,7))
  moreover have "listed ?m = mset (mg_assigned m) + image_mset (rhs_of m) (mset (mg_assigned m)) + mset (mg_indices m)"
    unfolding listed_def f by (simp add: m1(6,7))
  ultimately have "releases k m F ?m" using m1(2,3) by (intro releasesI [OF m]) (simp_all add: heap_shrinks_def)
  moreover have "foldm (\<lambda>aig m. do {
       _ \<leftarrow> assert_c (aig \<noteq> 0 \<and> \<not> SIGN aig);
       n \<leftarrow> mg_nodes m aig;
       _ \<leftarrow> assert_c (sg_cache n \<noteq> 0);
       m \<leftarrow> sg_dec m (sg_cache n);
       m \<leftarrow> sg_update (\<lambda>n. n\<lparr>sg_cache := 0\<rparr>) aig m;
       sg_dec m aig
     }) ?L = foldm ?f ?L" (is "foldm ?g _ = _")
  proof (rule foldm_same)
    show "?g a = ?f a" if "a \<in> set ?L" for a
      using on_list [OF l g, of a] that by (simp add: fun_eq_iff release_entry_def attr3_def)
  qed
  ultimately have "simpaig_reset_cache m = Some ?m" unfolding simpaig_reset_cache_def using m1(1) by simp
  then show ?thesis using \<open>releases k m F ?m\<close> f m1(6,7) by (intro exI [of _ ?m]) simp
qed

lemma reset_assignment_releases:
  assumes m: "manager k m F"
  shows "\<exists>m'. simpaig_reset_assignment m = Some m' \<and> releases k m F m' \<and> mg_assigned m' = [] \<and>
    cache_of m' = cache_of m \<and> idx_of m' = idx_of m \<and> mg_cached m' = mg_cached m \<and> mg_indices m' = mg_indices m"
proof -
  let ?L = "mg_assigned m" and ?R = "F + (mset (mg_cached m) + image_mset (cache_of m) (mset (mg_cached m)) + mset (mg_indices m))"
  note l = managerD(2) [OF m] and g = managerD(5) [OF m]
  have h: "hinv m (mset ?L + assignments.extras m ?L + ?R) {}" using managerD(1) [OF m] unfolding extras_eqs listed_def by (simp add: ac_simps)
  have on: "(case attrs m a of (c, r, i) \<Rightarrow> r \<noteq> 0) \<longleftrightarrow> a \<in> set ?L" for a unfolding attrs_of using lists_okD(2) [OF l] by simp
  have off: "0 < refs_held ?R a" if "(case attrs m a of (c, r, i) \<Rightarrow> (c, 0, i)) \<noteq> (0, 0, 0)" for a
    using that held_listed(1,3) [OF l g, of a "{#}"] unfolding attrs_of by auto
  let ?f = "release_entry (\<lambda>(c, r, i). r \<noteq> 0) (\<lambda>(c, r, i). [r]) (\<lambda>n. n\<lparr>sg_rhs := 0\<rparr>)"
  obtain m1 where m1: "foldm ?f ?L m = Some m1"
      "hinv m1 ?R {}" "heap_shrinks m m1" "attrs m1 = (\<lambda>a. case attrs m a of (c, r, i) \<Rightarrow> (c, 0, i))"
      "mg_cached m1 = mg_cached m" "mg_assigned m1 = mg_assigned m" "mg_indices m1 = mg_indices m"
    using assignments.release_all [OF h lists_okD(5) [OF l] on off] by blast
  let ?m = "m1\<lparr>mg_assigned := []\<rparr>"
  have at: "attrs ?m a = (cache_of m a, 0, idx_of m a)" for a
  proof -
    have "attrs ?m a = attrs m1 a" by (simp add: attrs_def)
    then show ?thesis unfolding m1(4) by (simp add: attrs_of)
  qed
  note f = fields_of [OF at]
  have "lists_ok ?m" using l unfolding lists_ok_def f by (simp add: m1(5,7))
  moreover have "listed ?m = mset (mg_cached m) + image_mset (cache_of m) (mset (mg_cached m)) + mset (mg_indices m)"
    unfolding listed_def f by (simp add: m1(5,7))
  ultimately have "releases k m F ?m" using m1(2,3) by (intro releasesI [OF m]) (simp_all add: heap_shrinks_def)
  moreover have "foldm (\<lambda>aig m. do {
       n \<leftarrow> mg_nodes m aig;
       _ \<leftarrow> assert_c (sg_rhs n \<noteq> 0);
       m \<leftarrow> sg_dec m (sg_rhs n);
       m \<leftarrow> sg_update (\<lambda>n. n\<lparr>sg_rhs := 0\<rparr>) aig m;
       sg_dec m aig
     }) ?L = foldm ?f ?L" (is "foldm ?g _ = _")
    by (rule foldm_same) (simp add: fun_eq_iff release_entry_def attr3_def)
  ultimately have "simpaig_reset_assignment m = Some ?m" unfolding simpaig_reset_assignment_def using m1(1) by simp
  then show ?thesis using \<open>releases k m F ?m\<close> f m1(5,7) by (intro exI [of _ ?m]) simp
qed

lemma reset_indices_releases:
  assumes m: "manager k m F"
  shows "\<exists>m'. simpaig_reset_indices m = Some m' \<and> releases k m F m' \<and> mg_indices m' = [] \<and>
    cache_of m' = cache_of m \<and> rhs_of m' = rhs_of m \<and> mg_cached m' = mg_cached m \<and> mg_assigned m' = mg_assigned m"
proof -
  let ?L = "mg_indices m" and ?R = "F + (mset (mg_cached m) + image_mset (cache_of m) (mset (mg_cached m)) +
    (mset (mg_assigned m) + image_mset (rhs_of m) (mset (mg_assigned m))))"
  note l = managerD(2) [OF m] and g = managerD(5) [OF m]
  have h: "hinv m (mset ?L + index_list.extras m ?L + ?R) {}" using managerD(1) [OF m] unfolding extras_eqs listed_def by (simp add: ac_simps)
  have on: "(case attrs m a of (c, r, i) \<Rightarrow> i \<noteq> 0) \<longleftrightarrow> a \<in> set ?L" for a unfolding attrs_of using lists_okD(3) [OF l] by simp
  have off: "0 < refs_held ?R a" if "(case attrs m a of (c, r, i) \<Rightarrow> (c, r, 0)) \<noteq> (0, 0, 0)" for a
    using that held_listed(1,2) [OF l g, of a "{#}"] unfolding attrs_of by auto
  let ?f = "release_entry (\<lambda>(c, r, i). i \<noteq> 0) (\<lambda>(c, r, i). []) (\<lambda>n. n\<lparr>sg_idx := 0\<rparr>)"
  obtain m1 where m1: "foldm ?f ?L m = Some m1"
      "hinv m1 ?R {}" "heap_shrinks m m1" "attrs m1 = (\<lambda>a. case attrs m a of (c, r, i) \<Rightarrow> (c, r, 0))"
      "mg_cached m1 = mg_cached m" "mg_assigned m1 = mg_assigned m" "mg_indices m1 = mg_indices m"
    using index_list.release_all [OF h lists_okD(6) [OF l] on off] by blast
  let ?m = "m1\<lparr>mg_indices := []\<rparr>"
  have at: "attrs ?m a = (cache_of m a, rhs_of m a, 0)" for a
  proof -
    have "attrs ?m a = attrs m1 a" by (simp add: attrs_def)
    then show ?thesis unfolding m1(4) by (simp add: attrs_of)
  qed
  note f = fields_of [OF at]
  have "lists_ok ?m" using l unfolding lists_ok_def f by (simp add: m1(5,6))
  moreover have "listed ?m = mset (mg_cached m) + image_mset (cache_of m) (mset (mg_cached m)) + (mset (mg_assigned m) + image_mset (rhs_of m) (mset (mg_assigned m)))"
    unfolding listed_def f by (simp add: m1(5,6))
  ultimately have "releases k m F ?m" using m1(2,3) by (intro releasesI [OF m]) (simp_all add: heap_shrinks_def)
  moreover have "foldm (\<lambda>aig m. do {
       _ \<leftarrow> assert_c (aig \<noteq> 0 \<and> \<not> SIGN aig);
       n \<leftarrow> mg_nodes m aig;
       _ \<leftarrow> assert_c (sg_idx n \<noteq> 0);
       m \<leftarrow> sg_update (\<lambda>n. n\<lparr>sg_idx := 0\<rparr>) aig m;
       sg_dec m aig
     }) ?L = foldm ?f ?L" (is "foldm ?g _ = _")
  proof (rule foldm_same)
    show "?g a = ?f a" if "a \<in> set ?L" for a
      using on_list [OF l g, of a] that by (simp add: fun_eq_iff release_entry_def attr3_def)
  qed
  ultimately have "simpaig_reset_indices m = Some ?m" unfolding simpaig_reset_indices_def using m1(1) by simp
  then show ?thesis using \<open>releases k m F ?m\<close> f m1(5,6) by (intro exI [of _ ?m]) simp
qed

end
