(* ===== verification/SimpAigShift.thy ===== *)
theory SimpAigShift
  imports SimpAigReset
begin

text \<open>
  Shifting a graph in time is a memoised pass that replaces every variable by its copy in another time
  slice. The result denotes the same function of the shifted variables, and everything that was on the
  heap is still there.
\<close>

section \<open>Emptying the cache after a pass\<close>

lemma const_tree:
  assumes g: "graph_ok m Z" and t: "reads m t" "STRIP (root t) = mg_false m"
  shows "t = PFalse (mg_false m) \<or> t = PNot (PFalse (mg_false m))"
proof -
  have f: "reads m (PFalse (mg_false m))" by (rule graph_okD(4) [OF g])
  then have "root t = root (PFalse (mg_false m)) \<or> root t = root (pnot (PFalse (mg_false m)))"
    using t(2) strip_eq_iff [of "root t" "mg_false m"] by (auto simp: strip_even)
  then show ?thesis using reads_unique [OF t(1) f] reads_unique [OF t(1) reads_pnot [OF f]] by auto
qed

lemma listed_uncached:
  assumes "mg_cached m = []" "mg_cached m' = []" "rhs_of m' = rhs_of m" "mg_assigned m' = mg_assigned m" "mg_indices m' = mg_indices m"
  shows "listed m' = listed m"
  using assms by (simp add: listed_def)

lemma pass_then_reset:
  assumes m: "manager j m F" "mg_cached m = []" and m1: "manager k m1 (add_mset (root w) F)" "reads m1 w" and e: "extends_cache Q U P i m m1"
  shows "\<exists>m'. simpaig_reset_cache m1 = Some m' \<and> manager k m' (add_mset (root w) F) \<and> reads m' w \<and> grows m m' \<and> quiet m m'"
proof -
  obtain m' where m': "simpaig_reset_cache m1 = Some m'" "releases k m1 (add_mset (root w) F) m'" "mg_cached m' = []"
      "rhs_of m' = rhs_of m1" "idx_of m' = idx_of m1" "mg_assigned m' = mg_assigned m1" "mg_indices m' = mg_indices m1"
    using reset_cache_releases [OF m1(1)] by blast
  note r = releasesD [OF m'(2)] and x = extends_cacheD [OF e]
  have l: "listed m' = listed m" using m' x m(2) by (intro listed_uncached) simp_all
  have g: "grows m m'"
    by (rule restored [OF managerD(1) [OF m(1)] managerD(1) [OF r(1)] _ grows_shrinks [OF x(1) r(2)]]) (simp add: l)
  have none: "cache_of m a = 0" "cache_of m' a = 0" for a
    using lists_okD(1) [OF managerD(2) [OF m(1)], of a] lists_okD(1) [OF managerD(2) [OF r(1)], of a] m(2) m'(3) by simp_all
  have "attrs m' = attrs m" by (auto simp: attrs_of fun_eq_iff none m' x)
  then have "quiet m m'" using g m' x m(2) by (simp add: quiet_def grows_def)
  moreover have "reads m' w" by (rule r(3) [OF _ m1(2)]) simp
  ultimately show ?thesis using m'(1) r(1) g by blast
qed

section \<open>Shifting\<close>

definition in_int :: "int \<Rightarrow> bool" where
  "in_int i \<longleftrightarrow> - 2147483648 \<le> i \<and> i < 2147483648"

definition shift_leaf :: "int \<Rightarrow> simpaigmgr \<Rightarrow> ptr \<Rightarrow> simpaig \<Rightarrow> (ptr \<times> simpaigmgr) option" where
  "shift_leaf delta m a n = do { s \<leftarrow> add_int (sg_slice n) delta; simpaig_var m (sg_var n) s }"

definition shiftable :: "int \<Rightarrow> ptr set \<Rightarrow> simpaigmgr \<Rightarrow> bool" where
  "shiftable delta U m \<longleftrightarrow> (\<forall>a \<in> U. \<exists>n. mg_nodes m a = Some n \<and> (sg_var n \<noteq> 0 \<longrightarrow> in_int (sg_slice n + delta)))"

definition shifted :: "int \<Rightarrow> ptree \<Rightarrow> ptree \<Rightarrow> bool" where
  "shifted delta t w \<longleftrightarrow> (\<forall>\<rho>. pval \<rho> w \<longleftrightarrow> pval (\<lambda>v s. \<rho> v (s + delta)) t) \<and> tree_vars w \<subseteq> (\<lambda>(v, s). (v, s + delta)) ` tree_vars t"

lemma shift_leaf_correct:
  assumes m: "manager (k + left_over U m) m F" "cached_pairs (shifted delta) m" "shiftable delta U m" and n: "mg_nodes m a = Some n"
    and t: "reads m (PVar a v s)" and a: "a \<in> U" "a \<notin> set (mg_cached m)" "finite U"
  shows "\<exists>w m'. shift_leaf delta m a n = Some (root w, m') \<and> reads m' w \<and> shifted delta (PVar a v s) w \<and>
    manager (k + left_over U m' - 1) m' (add_mset (root w) F) \<and> extends_cache (shifted delta) U P 5 m m'"
proof -
  have v: "sg_var n = v" "sg_slice n = s" "v \<noteq> 0" using t n by (auto simp: sg_key_def)
  have i: "add_int (sg_slice n) delta = Some (s + delta)"
    using m(3) a(1) n v unfolding shiftable_def in_int_def add_int_def by auto
  have pos: "0 < left_over U m" unfolding left_over_def using a by (auto simp: card_gt_0_iff)
  obtain b m' where b: "simpaig_var m v (s + delta) = Some (b, m')" "makes 1 m (F + listed m) b m'" "reads m' (PVar b v (s + delta))"
    using var_makes [OF managerD(1,3) [OF m(1)] _ v(3), of "s + delta"] managerD(4) [OF m(1)] pos by auto
  let ?k = "k + left_over U m - 1"
  have "manager (?k + 1) m F" using m(1) pos by simp
  note mm = makes_manager [OF this b(2)]
  have "extends_cache (shifted delta) U P 5 m m'"
    by (rule extends_quiet [OF mm(2,3) m(2)]) (auto intro: refs_below_mono [OF makesD(5) [OF b(2)]])
  moreover have "left_over U m' = left_over U m" using mm(3) by (simp add: left_over_def quiet_def)
  moreover have "shift_leaf delta m a n = Some (b, m')" using i b(1) v by (simp add: shift_leaf_def)
  moreover have "shifted delta (PVar a v s) (PVar b v (s + delta))" by (auto simp: shifted_def)
  ultimately show ?thesis using b(3) mm(1) by (intro exI [of _ "PVar b v (s + delta)"] exI [of _ m']) simp
qed

lemma shift_rec_step: "simpaig_shift_rec m p delta = pass_step (\<lambda>m p. simpaig_shift_rec m p delta) (shift_leaf delta) m p"
  by (subst simpaig_shift_rec.simps) (simp only: pass_step_def pass_node_def shift_leaf_def Option.bind_assoc)

interpretation shift: memo_pass "\<lambda>m p. simpaig_shift_rec m p delta" "shift_leaf delta" "shiftable delta (set xs)" "shifted delta" "set xs" "\<lambda>v s. 0" for delta xs
proof unfold_locales
  show "simpaig_shift_rec m p delta = pass_step (\<lambda>m p. simpaig_shift_rec m p delta) (shift_leaf delta) m p" for m p by (rule shift_rec_step)
  show "finite (set xs)" by simp
  show "shiftable delta (set xs) m'" if "shiftable delta (set xs) m" "grows m m'" for m m'
    unfolding shiftable_def
  proof
    fix a assume "a \<in> set xs"
    then obtain n where n: "mg_nodes m a = Some n" "sg_var n \<noteq> 0 \<longrightarrow> in_int (sg_slice n + delta)" using \<open>shiftable delta (set xs) m\<close> unfolding shiftable_def by blast
    obtain n' where "mg_nodes m' a = Some n'" "sg_key n' = sg_key n" using \<open>grows m m'\<close> n(1) unfolding grows_def by blast
    then show "\<exists>n. mg_nodes m' a = Some n \<and> (sg_var n \<noteq> 0 \<longrightarrow> in_int (sg_slice n + delta))" using n(2) by (auto simp: key_fields)
  qed
  show "shifted delta (pnot t) (pnot w)" if "shifted delta t w" for t w using that by (simp add: shifted_def)
  show "shifted delta (PAnd a t u) y" if "shifted delta t w" "shifted delta u x" "\<And>\<rho>. pval \<rho> y \<longleftrightarrow> pval \<rho> w \<and> pval \<rho> x" "tree_vars y \<subseteq> tree_vars w \<union> tree_vars x" for a t u w x y
    using that unfolding shifted_def by (simp add: image_Un) blast
qed (rule shift_leaf_correct; simp)

text \<open>The graph of a node is the same before and after; the slices have to stay in the range of an \<open>int\<close>.\<close>

lemma shift_correct:
  assumes m: "manager (k + card (addrs t)) m F" "mg_cached m = []" and t: "reads m t" "root t \<in># F"
    and i: "\<And>v s. (v, s) \<in> tree_vars t \<Longrightarrow> in_int (s + delta)"
  shows "\<exists>w m'. simpaig_shift m (root t) delta = Some (root w, m') \<and> reads m' w \<and> manager k m' (add_mset (root w) F) \<and> grows m m' \<and> quiet m m' \<and>
    (\<forall>\<rho>. pval \<rho> w \<longleftrightarrow> pval (\<lambda>v s. \<rho> v (s + delta)) t) \<and> tree_vars w \<subseteq> (\<lambda>(v, s). (v, s + delta)) ` tree_vars t"
proof -
  note g = managerD(5) [OF m(1)]
  have imp: "IMPORT m (root t) = Some (root t)" by (rule import_tree [OF managerD(1) [OF m(1)]]) (use t(2) in simp)
  have fin: "finite (addrs t)" by (induction t) simp_all
  then obtain xs where xs: "set xs = addrs t" using finite_list by blast
  have lo: "left_over (addrs t) m = card (addrs t)" using m(2) by (simp add: left_over_def)
  show ?thesis
  proof (cases "STRIP (root t) = mg_false m")
    case True
    obtain m' where m': "sg_inc (root t) m = Some m'" "manager (k + card (addrs t)) m' (add_mset (root t) F)" "grows m m'" "quiet m m'"
      using inc_manager [OF m(1) t(1)] by blast
    have "simpaig_shift m (root t) delta = Some (root t, m')" using True m'(1) t(1) by (simp add: simpaig_shift_def imp isconst_tree [OF g])
    moreover have "manager k m' (add_mset (root t) F)" by (rule manager_mono [OF m'(2)]) simp
    ultimately show ?thesis using grows_reads [OF m'(3) t(1)] m'(3,4) const_tree [OF g t(1) True] by (intro exI [of _ t] exI [of _ m']) auto
  next
    case False
    have "in_int (sg_slice n + delta)" if "reads m u" "a \<in> addrs u" "mg_nodes m a = Some n" "sg_var n \<noteq> 0" "\<And>v s. (v, s) \<in> tree_vars u \<Longrightarrow> in_int (s + delta)" for u a n
      using that by (induction u) (auto simp: sg_key_def)
    then have J: "shiftable delta (set xs) m" unfolding shiftable_def xs using reads_addrs(2) [OF t(1)] t(1) i by blast
    obtain w m1 where w: "simpaig_shift_rec m (root t) delta = Some (root w, m1)" "reads m1 w" "shifted delta t w"
        "manager (k + left_over (set xs) m1) m1 (add_mset (root w) F)" "extends_cache (shifted delta) (set xs) (\<lambda>s. until (\<lambda>v s. 0) s t) 1 m m1"
    proof (rule passesD [OF shift.pass_all, where k = k])
      show "manager (k + left_over (set xs) m) m F" using m(1) lo xs by simp
      show "cached_pairs (shifted delta) m" using m(2) by (simp add: cached_pairs_def)
    qed (use J xs t(1) False in auto)
    obtain m' where m': "simpaig_reset_cache m1 = Some m'" "manager (k + left_over (set xs) m1) m' (add_mset (root w) F)" "reads m' w" "grows m m'" "quiet m m'"
      using pass_then_reset [OF m w(4,2,5)] by blast
    have "simpaig_shift m (root t) delta = Some (root w, m')" using False w(1) m'(1) t(1) m(2) by (simp add: simpaig_shift_def imp isconst_tree [OF g])
    moreover have "manager k m' (add_mset (root w) F)" by (rule manager_mono [OF m'(2)]) simp
    ultimately show ?thesis using m'(3-5) w(3) unfolding shifted_def by blast
  qed
qed

end
