(* ===== verification/SimpAigConn.thy ===== *)
theory SimpAigConn
  imports SimpAigShift
begin

text \<open>
  The constants, variables and connectives as the client of the library sees them: each hands out one
  reference to a graph of the right function, adds at most the nodes it announces, and leaves everything
  that was there.
\<close>

text \<open>
  A reference to \<open>w\<close> is handed out, with room for \<open>k\<close> more nodes afterwards; no counter has gone up by
  more than \<open>j\<close>.
\<close>

definition gives :: "nat \<Rightarrow> nat \<Rightarrow> simpaigmgr \<Rightarrow> ptr multiset \<Rightarrow> ptree \<Rightarrow> simpaigmgr \<Rightarrow> bool" where
  "gives k j m F w m' \<longleftrightarrow> manager k m' (add_mset (root w) F) \<and> reads m' w \<and> grows m m' \<and> quiet m m' \<and>
     (\<forall>K. refs_below m K \<longrightarrow> refs_below m' (K + j))"

lemma givesD:
  assumes "gives k j m F w m'"
  shows "manager k m' (add_mset (root w) F)" "reads m' w" "grows m m'" "quiet m m'" "reads m t \<Longrightarrow> reads m' t"
    "refs_below m K \<Longrightarrow> refs_below m' (K + j)"
  using assms grows_reads unfolding gives_def by blast+

lemma gives_not: "gives k j m F w m' \<Longrightarrow> gives k j m F (pnot w) m'"
  unfolding gives_def using manager_not by fastforce

lemma makes_gives: "manager (k + j) m F \<Longrightarrow> makes j m (F + listed m) (root w) m' \<Longrightarrow> reads m' w \<Longrightarrow> gives k j m F w m'"
  unfolding gives_def using makes_manager [of k j m F "root w" m'] makesD(5) [of j m "F + listed m" "root w" m'] by blast

lemma var_gives:
  assumes m: "manager (k + 1) m F" and v: "v \<noteq> 0"
  shows "\<exists>a m'. simpaig_var m v s = Some (a, m') \<and> gives k 1 m F (PVar a v s) m'"
proof -
  obtain a m' where "simpaig_var m v s = Some (a, m')" "makes 1 m (F + listed m) a m'" "reads m' (PVar a v s)"
    using var_makes [OF managerD(1,3) [OF m] _ v, of s] managerD(4) [OF m] by auto
  then show ?thesis using makes_gives [OF m, of "PVar a v s"] by auto
qed

lemma and_gives:
  assumes m: "manager (k + 1) m F" and t: "reads m t" "reads m u"
  shows "\<exists>w m'. simpaig_and m (root t) (root u) = Some (root w, m') \<and> gives k 1 m F w m' \<and>
    (\<forall>\<rho>. pval \<rho> w \<longleftrightarrow> pval \<rho> t \<and> pval \<rho> u) \<and> tree_vars w \<subseteq> tree_vars t \<union> tree_vars u"
proof -
  obtain w m' where "simpaig_and m (root t) (root u) = Some (root w, m')" "makes 1 m (F + listed m) (root w) m'" "reads m' w"
    "\<forall>\<rho>. pval \<rho> w \<longleftrightarrow> pval \<rho> t \<and> pval \<rho> u" "tree_vars w \<subseteq> tree_vars t \<union> tree_vars u"
    using and_makes [OF managerD(1,3) [OF m] _ t] managerD(4) [OF m] by auto
  with makes_gives [OF m] show ?thesis by blast
qed

lemma or_gives:
  assumes m: "manager (k + 1) m F" and t: "reads m t" "reads m u"
  shows "\<exists>w m'. simpaig_or m (root t) (root u) = Some (root w, m') \<and> gives k 1 m F w m' \<and>
    (\<forall>\<rho>. pval \<rho> w \<longleftrightarrow> pval \<rho> t \<or> pval \<rho> u) \<and> tree_vars w \<subseteq> tree_vars t \<union> tree_vars u"
proof -
  obtain w m' where w: "simpaig_and m (root (pnot t)) (root (pnot u)) = Some (root w, m')" "gives k 1 m F w m'"
    "\<forall>\<rho>. pval \<rho> w \<longleftrightarrow> pval \<rho> (pnot t) \<and> pval \<rho> (pnot u)" "tree_vars w \<subseteq> tree_vars (pnot t) \<union> tree_vars (pnot u)"
    using and_gives [OF m reads_pnot [OF t(1)] reads_pnot [OF t(2)]] by blast
  then show ?thesis using gives_not [OF w(2)] by (intro exI [of _ "pnot w"] exI [of _ m']) (simp add: simpaig_or_def)
qed

lemma implies_gives:
  assumes m: "manager (k + 1) m F" and t: "reads m t" "reads m u"
  shows "\<exists>w m'. simpaig_implies m (root t) (root u) = Some (root w, m') \<and> gives k 1 m F w m' \<and>
    (\<forall>\<rho>. pval \<rho> w \<longleftrightarrow> (pval \<rho> t \<longrightarrow> pval \<rho> u)) \<and> tree_vars w \<subseteq> tree_vars t \<union> tree_vars u"
proof -
  obtain w m' where w: "simpaig_and m (root t) (root (pnot u)) = Some (root w, m')" "gives k 1 m F w m'"
    "\<forall>\<rho>. pval \<rho> w \<longleftrightarrow> pval \<rho> t \<and> pval \<rho> (pnot u)" "tree_vars w \<subseteq> tree_vars t \<union> tree_vars (pnot u)"
    using and_gives [OF m t(1) reads_pnot [OF t(2)]] by blast
  then show ?thesis using gives_not [OF w(2)] by (intro exI [of _ "pnot w"] exI [of _ m']) (simp add: simpaig_implies_def)
qed

text \<open>The last part of \<open>simpaig_xor\<close> and \<open>simpaig_ite\<close>: two intermediate results are joined and given back.\<close>

lemma join_gives:
  assumes m: "manager j m F" and l: "gives (k + 2) 1 m F l m1" and r: "gives (k + 1) 1 m1 (add_mset (root l) F) r m2"
  shows "\<exists>w m'. (do { (res, m) \<leftarrow> simpaig_and m2 (root l) (root r); m \<leftarrow> sg_dec m (root l); m \<leftarrow> sg_dec m (root r); Some (res, m) }) = Some (root w, m') \<and>
    gives k 3 m F w m' \<and> (\<forall>\<rho>. pval \<rho> w \<longleftrightarrow> pval \<rho> l \<and> pval \<rho> r) \<and> tree_vars w \<subseteq> tree_vars l \<union> tree_vars r"
proof -
  obtain w m3 where w: "simpaig_and m2 (root l) (root r) = Some (root w, m3)" "gives k 1 m2 (add_mset (root r) (add_mset (root l) F)) w m3"
    "\<forall>\<rho>. pval \<rho> w \<longleftrightarrow> pval \<rho> l \<and> pval \<rho> r" "tree_vars w \<subseteq> tree_vars l \<union> tree_vars r"
    using and_gives [OF givesD(1) [OF r] givesD(5) [OF r givesD(2) [OF l]] givesD(2) [OF r]] by blast
  note g3 = grows_trans [OF givesD(3) [OF l] grows_trans [OF givesD(3) [OF r] givesD(3) [OF w(2)]]]
  note q3 = quiet_trans [OF givesD(4) [OF l] quiet_trans [OF givesD(4) [OF r] givesD(4) [OF w(2)]]]
  have "manager k m3 (add_mset (root l) (add_mset (root r) (add_mset (root w) F)))" using givesD(1) [OF w(2)] by (simp add: add_mset_commute)
  from dec_manager [OF this] obtain m4 where m4: "sg_dec m3 (root l) = Some m4" "manager k m4 (add_mset (root r) (add_mset (root w) F))"
    "heap_shrinks m3 m4" "quiet m3 m4" "\<forall>t. root t \<in># add_mset (root r) (add_mset (root w) F) + listed m3 \<longrightarrow> reads m3 t \<longrightarrow> reads m4 t" by blast
  from dec_manager [OF m4(2)] obtain m5 where m5: "sg_dec m4 (root r) = Some m5" "manager k m5 (add_mset (root w) F)"
    "heap_shrinks m4 m5" "quiet m4 m5" "\<forall>t. root t \<in># add_mset (root w) F + listed m4 \<longrightarrow> reads m4 t \<longrightarrow> reads m5 t" by blast
  have q: "quiet m m5" by (rule quiet_trans [OF q3 quiet_trans [OF m4(4) m5(4)]])
  have "grows m m5"
    by (rule restored [OF managerD(1) [OF m] managerD(1) [OF m5(2)] _ same_shrinks [OF grows_shrinks [OF g3 m4(3)] m5(3)]])
      (simp add: quiet_lists [OF q])
  moreover have "reads m5 w" using m5(5) m4(5) givesD(2) [OF w(2)] by simp
  moreover have "refs_below m5 (K + 3)" if "refs_below m K" for K
    using refs_shrink [OF m5(3) refs_shrink [OF m4(3) givesD(6) [OF w(2) givesD(6) [OF r givesD(6) [OF l that]]]]] by (simp add: eval_nat_numeral)
  ultimately have "gives k 3 m F w m5" using m5(2) q by (simp add: gives_def)
  then show ?thesis using w(1,3,4) m4(1) m5(1) by (intro exI [of _ w] exI [of _ m5]) simp
qed

lemma xor_gives:
  assumes m: "manager (k + 3) m F" and t: "reads m t" "reads m u"
  shows "\<exists>w m'. simpaig_xor m (root t) (root u) = Some (root w, m') \<and> gives k 3 m F w m' \<and>
    (\<forall>\<rho>. pval \<rho> w \<longleftrightarrow> pval \<rho> t \<noteq> pval \<rho> u) \<and> tree_vars w \<subseteq> tree_vars t \<union> tree_vars u"
proof -
  have m2: "manager (k + 2 + 1) m F" using m by (simp add: eval_nat_numeral)
  obtain l m1 where l: "simpaig_or m (root t) (root u) = Some (root l, m1)" "gives (k + 2) 1 m F l m1" "\<forall>\<rho>. pval \<rho> l \<longleftrightarrow> pval \<rho> t \<or> pval \<rho> u"
    "tree_vars l \<subseteq> tree_vars t \<union> tree_vars u" using or_gives [OF m2 t] by blast
  have m1: "manager (k + 1 + 1) m1 (add_mset (root l) F)" using givesD(1) [OF l(2)] by (simp add: eval_nat_numeral)
  obtain r m2 where r: "simpaig_or m1 (root (pnot t)) (root (pnot u)) = Some (root r, m2)" "gives (k + 1) 1 m1 (add_mset (root l) F) r m2"
    "\<forall>\<rho>. pval \<rho> r \<longleftrightarrow> pval \<rho> (pnot t) \<or> pval \<rho> (pnot u)" "tree_vars r \<subseteq> tree_vars (pnot t) \<union> tree_vars (pnot u)"
    using or_gives [OF m1 reads_pnot [OF givesD(5) [OF l(2) t(1)]] reads_pnot [OF givesD(5) [OF l(2) t(2)]]] by blast
  obtain w m' where w: "(do { (res, m) \<leftarrow> simpaig_and m2 (root l) (root r); m \<leftarrow> sg_dec m (root l); m \<leftarrow> sg_dec m (root r); Some (res, m) }) = Some (root w, m')"
    "gives k 3 m F w m'" "\<forall>\<rho>. pval \<rho> w \<longleftrightarrow> pval \<rho> l \<and> pval \<rho> r" "tree_vars w \<subseteq> tree_vars l \<union> tree_vars r"
    using join_gives [OF m l(2) r(2)] by blast
  have "simpaig_xor m (root t) (root u) = Some (root w, m')" using l(1) r(1) w(1) by (simp add: simpaig_xor_def)
  moreover have "pval \<rho> w \<longleftrightarrow> pval \<rho> t \<noteq> pval \<rho> u" for \<rho> using l(3) r(3) w(3) by auto
  moreover have "tree_vars w \<subseteq> tree_vars t \<union> tree_vars u" using l(4) r(4) w(4) by auto
  ultimately show ?thesis using w(2) by blast
qed

lemma xnor_gives:
  assumes m: "manager (k + 3) m F" and t: "reads m t" "reads m u"
  shows "\<exists>w m'. simpaig_xnor m (root t) (root u) = Some (root w, m') \<and> gives k 3 m F w m' \<and>
    (\<forall>\<rho>. pval \<rho> w \<longleftrightarrow> pval \<rho> t = pval \<rho> u) \<and> tree_vars w \<subseteq> tree_vars t \<union> tree_vars u"
  using xor_gives [OF m t(1) reads_pnot [OF t(2)]] by (auto simp: simpaig_xnor_def)

lemma ite_gives:
  assumes m: "manager (k + 3) m F" and t: "reads m c" "reads m t" "reads m e"
  shows "\<exists>w m'. simpaig_ite m (root c) (root t) (root e) = Some (root w, m') \<and> gives k 3 m F w m' \<and>
    (\<forall>\<rho>. pval \<rho> w \<longleftrightarrow> (if pval \<rho> c then pval \<rho> t else pval \<rho> e)) \<and> tree_vars w \<subseteq> tree_vars c \<union> tree_vars t \<union> tree_vars e"
proof -
  have m2: "manager (k + 2 + 1) m F" using m by (simp add: eval_nat_numeral)
  obtain l m1 where l: "simpaig_implies m (root c) (root t) = Some (root l, m1)" "gives (k + 2) 1 m F l m1" "\<forall>\<rho>. pval \<rho> l \<longleftrightarrow> (pval \<rho> c \<longrightarrow> pval \<rho> t)"
    "tree_vars l \<subseteq> tree_vars c \<union> tree_vars t" using implies_gives [OF m2 t(1,2)] by blast
  have m1: "manager (k + 1 + 1) m1 (add_mset (root l) F)" using givesD(1) [OF l(2)] by (simp add: eval_nat_numeral)
  obtain r m2 where r: "simpaig_implies m1 (root (pnot c)) (root e) = Some (root r, m2)" "gives (k + 1) 1 m1 (add_mset (root l) F) r m2"
    "\<forall>\<rho>. pval \<rho> r \<longleftrightarrow> (pval \<rho> (pnot c) \<longrightarrow> pval \<rho> e)" "tree_vars r \<subseteq> tree_vars (pnot c) \<union> tree_vars e"
    using implies_gives [OF m1 reads_pnot [OF givesD(5) [OF l(2) t(1)]] givesD(5) [OF l(2) t(3)]] by blast
  obtain w m' where w: "(do { (res, m) \<leftarrow> simpaig_and m2 (root l) (root r); m \<leftarrow> sg_dec m (root l); m \<leftarrow> sg_dec m (root r); Some (res, m) }) = Some (root w, m')"
    "gives k 3 m F w m'" "\<forall>\<rho>. pval \<rho> w \<longleftrightarrow> pval \<rho> l \<and> pval \<rho> r" "tree_vars w \<subseteq> tree_vars l \<union> tree_vars r"
    using join_gives [OF m l(2) r(2)] by blast
  have "simpaig_ite m (root c) (root t) (root e) = Some (root w, m')" using l(1) r(1) w(1) by (simp add: simpaig_ite_def)
  moreover have "pval \<rho> w \<longleftrightarrow> (if pval \<rho> c then pval \<rho> t else pval \<rho> e)" for \<rho> using l(3) r(3) w(3) by auto
  moreover have "tree_vars w \<subseteq> tree_vars c \<union> tree_vars t \<union> tree_vars e" using l(4) r(4) w(4) by auto
  ultimately show ?thesis using w(2) by blast
qed

end
