(* ===== verification/SimpAigSubst.thy ===== *)
theory SimpAigSubst
  imports SimpAigConn
begin

text \<open>
  Substitution is the memoised pass that follows the right hand sides of variables. An assignment without
  cycles has exactly one solution; the result of a substitution, under any valuation, is what the graph
  denotes under that solution, and no assigned variable is left in it.
\<close>

section \<open>Assignments and their solution\<close>

type_synonym env = "ptr \<Rightarrow> int \<Rightarrow> bool"

type_synonym assignment = "ptr \<Rightarrow> int \<Rightarrow> ptree option"

definition solves :: "assignment \<Rightarrow> env \<Rightarrow> env \<Rightarrow> bool" where
  "solves A \<rho> \<sigma> \<longleftrightarrow> (\<forall>v s. \<sigma> v s \<longleftrightarrow> (case A v s of None \<Rightarrow> \<rho> v s | Some u \<Rightarrow> pval \<sigma> u))"

definition ranked :: "assignment \<Rightarrow> (ptr \<Rightarrow> int \<Rightarrow> nat) \<Rightarrow> bool" where
  "ranked A lv \<longleftrightarrow> (\<forall>v s u. A v s = Some u \<longrightarrow> tlevel lv u < lv v s)"

text \<open>The solution, by as many rounds of replacement as the rank of a variable says.\<close>

primrec rounds :: "assignment \<Rightarrow> env \<Rightarrow> nat \<Rightarrow> env" where
  "rounds A \<rho> 0 = \<rho>"
| "rounds A \<rho> (Suc n) = (\<lambda>v s. case A v s of None \<Rightarrow> \<rho> v s | Some u \<Rightarrow> pval (rounds A \<rho> n) u)"

definition solution :: "assignment \<Rightarrow> (ptr \<Rightarrow> int \<Rightarrow> nat) \<Rightarrow> env \<Rightarrow> env" where
  "solution A lv \<rho> = (\<lambda>v s. rounds A \<rho> (Suc (lv v s)) v s)"

lemma val_upto: "(\<And>v s. lv v s \<le> L \<Longrightarrow> \<rho> v s = \<sigma> v s) \<Longrightarrow> tlevel lv t \<le> L \<Longrightarrow> pval \<rho> t = pval \<sigma> t"
  by (induction t) auto

lemma rounds_stable:
  assumes "ranked A lv"
  shows "lv v s < n \<Longrightarrow> lv v s < k \<Longrightarrow> rounds A \<rho> n v s = rounds A \<rho> k v s"
proof (induction "lv v s" arbitrary: v s n k rule: less_induct)
  case less
  obtain i j where n: "n = Suc i" "k = Suc j" using less.prems by (metis Nat.lessE)
  show ?case
  proof (cases "A v s")
    case (Some u)
    then have u: "tlevel lv u < lv v s" using assms by (simp add: ranked_def)
    have "pval (rounds A \<rho> i) u = pval (rounds A \<rho> j) u"
      by (rule val_upto [where L = "tlevel lv u" and lv = lv]) (use less.hyps less.prems u n in auto)
    then show ?thesis using Some n by simp
  qed (simp add: n)
qed

lemma solution_solves:
  assumes r: "ranked A lv"
  shows "solves A \<rho> (solution A lv \<rho>)"
  unfolding solves_def
proof (intro allI)
  fix v s
  show "solution A lv \<rho> v s \<longleftrightarrow> (case A v s of None \<Rightarrow> \<rho> v s | Some u \<Rightarrow> pval (solution A lv \<rho>) u)"
  proof (cases "A v s")
    case (Some u)
    then have u: "tlevel lv u < lv v s" using r by (simp add: ranked_def)
    have "pval (rounds A \<rho> (lv v s)) u = pval (solution A lv \<rho>) u"
      by (rule val_upto [where L = "tlevel lv u" and lv = lv]) (use u rounds_stable [OF r] in \<open>auto simp: solution_def simp del: rounds.simps\<close>)
    then show ?thesis using Some by (simp add: solution_def)
  qed (simp add: solution_def)
qed

lemma solution_unique:
  assumes r: "ranked A lv" and s: "solves A \<rho> \<sigma>"
  shows "\<sigma> = solution A lv \<rho>"
proof -
  have "\<sigma> v s = solution A lv \<rho> v s" for v s
  proof (induction "lv v s" arbitrary: v s rule: less_induct)
    case less
    show ?case
    proof (cases "A v s")
      case (Some u)
      then have "tlevel lv u < lv v s" using r by (simp add: ranked_def)
      then have "pval \<sigma> u = pval (solution A lv \<rho>) u" by (intro val_upto [where L = "tlevel lv u" and lv = lv]) (use less in auto)
      then show ?thesis using Some s solution_solves [OF r, of \<rho>] by (simp add: solves_def)
    qed (use s solution_solves [OF r, of \<rho>] in \<open>simp add: solves_def\<close>)
  qed
  then show ?thesis by blast
qed

section \<open>The pass\<close>

definition subst_leaf :: "simpaigmgr \<Rightarrow> ptr \<Rightarrow> simpaig \<Rightarrow> (ptr \<times> simpaigmgr) option" where
  "subst_leaf m node n =
     (if sg_rhs n \<noteq> 0 then do {
        c \<leftarrow> ISCONST m (sg_rhs n);
        if c then simpaig_inc m (sg_rhs n) else simpaig_substitute_rec m (sg_rhs n)
      } else do { m \<leftarrow> sg_inc node m; Some (node, m) })"

text \<open>The variables among the nodes \<open>U\<close> carry the assignment \<open>A\<close>, with right hand sides over \<open>U\<close>.\<close>

definition carries :: "assignment \<Rightarrow> ptr set \<Rightarrow> simpaigmgr \<Rightarrow> bool" where
  "carries A U m \<longleftrightarrow> U \<subseteq> dom (mg_nodes m) \<and>
     (\<forall>a v s. a \<in> U \<longrightarrow> reads m (PVar a v s) \<longrightarrow>
       (case A v s of None \<Rightarrow> rhs_of m a = 0 | Some u \<Rightarrow> rhs_of m a = root u \<and> reads m u \<and> addrs u \<subseteq> U))"

definition substituted :: "assignment \<Rightarrow> ptree \<Rightarrow> ptree \<Rightarrow> bool" where
  "substituted A t w \<longleftrightarrow> (\<forall>\<rho> \<sigma>. solves A \<rho> \<sigma> \<longrightarrow> pval \<rho> w = pval \<sigma> t) \<and> (\<forall>(v, s) \<in> tree_vars w. A v s = None)"

lemma carriesD:
  assumes "carries A U m" "a \<in> U" "reads m (PVar a v s)"
  shows "A v s = None \<Longrightarrow> rhs_of m a = 0" "A v s = Some u \<Longrightarrow> rhs_of m a = root u \<and> reads m u \<and> addrs u \<subseteq> U"
proof -
  have "case A v s of None \<Rightarrow> rhs_of m a = 0 | Some u \<Rightarrow> rhs_of m a = root u \<and> reads m u \<and> addrs u \<subseteq> U"
    using assms unfolding carries_def by blast
  then show "A v s = None \<Longrightarrow> rhs_of m a = 0" "A v s = Some u \<Longrightarrow> rhs_of m a = root u \<and> reads m u \<and> addrs u \<subseteq> U" by simp_all
qed

lemma carries_grows:
  assumes c: "carries A U m" and g: "grows m m'" and r: "rhs_of m' = rhs_of m"
  shows "carries A U m'"
  unfolding carries_def
proof (intro conjI allI impI subsetI)
  fix a assume "a \<in> U"
  then obtain n where "mg_nodes m a = Some n" using c unfolding carries_def by blast
  then show "a \<in> dom (mg_nodes m')" using g unfolding grows_def by blast
next
  fix a v s assume a: "a \<in> U" and t: "reads m' (PVar a v s)"
  obtain n where n: "mg_nodes m a = Some n" using c a unfolding carries_def by blast
  obtain n' where n': "mg_nodes m' a = Some n'" "sg_key n' = sg_key n" using g n unfolding grows_def by blast
  have "reads m (PVar a v s)" using t n n' by simp
  note d = carriesD [OF c a this]
  show "case A v s of None \<Rightarrow> rhs_of m' a = 0 | Some u \<Rightarrow> rhs_of m' a = root u \<and> reads m' u \<and> addrs u \<subseteq> U"
    using d grows_reads [OF g] by (cases "A v s") (simp_all add: r)
qed

lemma subst_leaf_correct:
  assumes m: "manager (k + left_over U m) m F" "cached_pairs (substituted A) m" "carries A U m" and r: "ranked A lv"
    and n: "mg_nodes m a = Some n" and t: "reads m (PVar a v s)" and a: "a \<in> U"
    and IH: "\<And>t. before lv t (PVar a v s) \<Longrightarrow> passes (carries A U) (substituted A) U lv simpaig_substitute_rec t"
  shows "\<exists>w m'. subst_leaf m a n = Some (root w, m') \<and> reads m' w \<and> substituted A (PVar a v s) w \<and>
    manager (k + left_over U m' - 1) m' (add_mset (root w) F) \<and> extends_cache (substituted A) U (\<lambda>t. before lv t (PVar a v s)) 5 m m'"
proof -
  note g = managerD(5) [OF m(1)]
  have inc: "\<exists>m'. sg_inc (root w) m = Some m' \<and> reads m' w \<and> manager (k + left_over U m' - 1) m' (add_mset (root w) F) \<and>
    extends_cache (substituted A) U (\<lambda>t. before lv t (PVar a v s)) 5 m m'" if w: "reads m w" for w
  proof -
    obtain m' where m': "sg_inc (root w) m = Some m'" "manager (k + left_over U m) m' (add_mset (root w) F)" "grows m m'" "quiet m m'"
      "\<And>K. refs_below m K \<Longrightarrow> refs_below m' (Suc K)" using inc_manager [OF m(1) w] by blast
    have "extends_cache (substituted A) U (\<lambda>t. before lv t (PVar a v s)) 5 m m'"
      by (rule extends_quiet [OF m'(3,4) m(2)]) (auto intro: refs_below_mono [OF m'(5)])
    moreover have "left_over U m' = left_over U m" using m'(4) by (simp add: left_over_def quiet_def)
    ultimately show ?thesis using m'(1) grows_reads [OF m'(3) w] manager_mono [OF m'(2)] by auto
  qed
  have rhs: "sg_rhs n = rhs_of m a" using n by simp
  show ?thesis
  proof (cases "A v s")
    case None
    have "substituted A (PVar a v s) (PVar a v s)" using None by (auto simp: substituted_def solves_def)
    moreover have "sg_rhs n = 0" using carriesD(1) [OF m(3) a t None] rhs by simp
    moreover obtain m' where "sg_inc a m = Some m'" "reads m' (PVar a v s)" "manager (k + left_over U m' - 1) m' (add_mset a F)"
      "extends_cache (substituted A) U (\<lambda>t. before lv t (PVar a v s)) 5 m m'" using inc [OF t] by auto
    ultimately show ?thesis by (intro exI [of _ "PVar a v s"] exI [of _ m']) (simp add: subst_leaf_def)
  next
    case (Some u)
    have u: "sg_rhs n = root u" "reads m u" "addrs u \<subseteq> U" "tlevel lv u < lv v s"
      using carriesD(2) [OF m(3) a t Some] rhs r Some by (auto simp: ranked_def)
    have nz: "root u \<noteq> 0" using reads_dom [OF u(2)] graph_okD(5) [OF g, of "STRIP (root u)"] strip_nonzero by blast
    have Q: "substituted A (PVar a v s) w" if "substituted A u w" for w
      using that Some unfolding substituted_def solves_def by (metis option.simps(5) pval.simps(2))
    show ?thesis
    proof (cases "STRIP (root u) = mg_false m")
      case True
      have "substituted A u u" using const_tree [OF g u(2) True] by (auto simp: substituted_def)
      moreover have "IMPORT m (root u) = Some (root u)"
      proof (rule import_tree [OF managerD(1) [OF m(1)]])
        have "a \<in> set (mg_assigned m)" using lists_okD(2) [OF managerD(2) [OF m(1)], of a] u(1) nz rhs by simp
        then have "rhs_of m a \<in># image_mset (rhs_of m) (mset (mg_assigned m))" by simp
        then show "root u \<in># F + listed m" using u(1) rhs unfolding listed_def by simp
      qed
      moreover obtain m' where "sg_inc (root u) m = Some m'" "reads m' u" "manager (k + left_over U m' - 1) m' (add_mset (root u) F)"
        "extends_cache (substituted A) U (\<lambda>t. before lv t (PVar a v s)) 5 m m'" using inc [OF u(2)] by blast
      ultimately show ?thesis
        using Q nz u(1,2) True by (intro exI [of _ u] exI [of _ m']) (simp add: subst_leaf_def isconst_tree [OF g] simpaig_inc_def)
    next
      case False
      have b: "before lv u (PVar a v s)" using u(4) by (simp add: before_def)
      obtain w m' where w: "simpaig_substitute_rec m (root u) = Some (root w, m')" "reads m' w" "substituted A u w"
        "manager (k + left_over U m') m' (add_mset (root w) F)" "extends_cache (substituted A) U (\<lambda>s. until lv s u) 1 m m'"
        by (rule passesD [OF IH [OF b] m u(2,3) False])
      have "extends_cache (substituted A) U (\<lambda>t. before lv t (PVar a v s)) 5 m m'"
        by (rule extends_trans [OF w(5) extends_quiet [OF grows_refl quiet_refl extends_cacheD(2) [OF w(5)], where i = 4 and P = "\<lambda>s. False"]])
          (auto intro: refs_below_mono until_before [OF _ b])
      moreover have "subst_leaf m a n = Some (root w, m')" using nz u(1,2) False w(1) by (simp add: subst_leaf_def isconst_tree [OF g])
      moreover have "manager (k + left_over U m' - 1) m' (add_mset (root w) F)" by (rule manager_mono [OF w(4)]) simp
      ultimately show ?thesis using Q [OF w(3)] w(2) by blast
    qed
  qed
qed

lemma subst_rec_step: "simpaig_substitute_rec m p = pass_step simpaig_substitute_rec subst_leaf m p"
  by (subst simpaig_substitute_rec.simps) (simp only: pass_step_def pass_node_def subst_leaf_def Option.bind_assoc)

text \<open>An assignment that is not ranked is taken as the empty one: nothing is claimed about it.\<close>

definition ranks :: "assignment \<Rightarrow> (ptr \<Rightarrow> int \<Rightarrow> nat) \<Rightarrow> assignment" where
  "ranks A lv = (if ranked A lv then A else (\<lambda>v s. None))"

lemma ranks_ranked: "ranked (ranks A lv) lv" "ranked A lv \<Longrightarrow> ranks A lv = A"
  by (auto simp: ranks_def ranked_def)

interpretation substitute: memo_pass simpaig_substitute_rec subst_leaf "carries (ranks A lv) (set xs)" "substituted (ranks A lv)" "set xs" lv for A lv xs
proof unfold_locales
  show "simpaig_substitute_rec m p = pass_step simpaig_substitute_rec subst_leaf m p" for m p by (rule subst_rec_step)
  show "carries (ranks A lv) (set xs) m'" if "carries (ranks A lv) (set xs) m" "grows m m'" "rhs_of m' = rhs_of m" for m m'
    by (rule carries_grows [OF that])
  show "substituted (ranks A lv) (pnot t) (pnot w)" if "substituted (ranks A lv) t w" for t w using that by (simp add: substituted_def)
  show "substituted (ranks A lv) (PAnd a t u) y"
    if "substituted (ranks A lv) t w" "substituted (ranks A lv) u x" "\<And>\<rho>. pval \<rho> y \<longleftrightarrow> pval \<rho> w \<and> pval \<rho> x" "tree_vars y \<subseteq> tree_vars w \<union> tree_vars x" for a t u w x y
    using that unfolding substituted_def by (simp add: subset_iff) blast
  show "\<exists>w m'. subst_leaf m a n = Some (root w, m') \<and> reads m' w \<and> substituted (ranks A lv) (PVar a v s) w \<and>
      manager (k + left_over (set xs) m' - 1) m' (add_mset (root w) F) \<and> extends_cache (substituted (ranks A lv)) (set xs) (\<lambda>t. before lv t (PVar a v s)) 5 m m'"
    if "manager (k + left_over (set xs) m) m F" "cached_pairs (substituted (ranks A lv)) m" "carries (ranks A lv) (set xs) m"
      "mg_nodes m a = Some n" "reads m (PVar a v s)" "a \<in> set xs"
      "\<And>t. before lv t (PVar a v s) \<Longrightarrow> passes (carries (ranks A lv) (set xs)) (substituted (ranks A lv)) (set xs) lv simpaig_substitute_rec t"
    for k m F a n v s
    by (rule subst_leaf_correct [OF that(1-3) ranks_ranked(1) that(4-7)])
qed (rule finite_set)

end
