(* ===== verification/SimpAigAssign.thy ===== *)
theory SimpAigAssign
  imports SimpAigSubst
begin

text \<open>
  The client's view of substitution: \<open>simpaig_assign\<close> records a right hand side, \<open>simpaig_substitute\<close> and
  \<open>simpaig_substitute_parallel\<close> apply all of them and forget them.
\<close>

section \<open>Recording an assignment\<close>

lemma assign_correct:
  assumes m: "manager k m F" and l: "reads m (PVar a v s)" "a \<in># F" and u: "reads m u" "root u \<in># F" and none: "rhs_of m a = 0" "cache_of m a = 0"
  shows "\<exists>m'. simpaig_assign m a (root u) = Some m' \<and> manager k m' F \<and> grows m m' \<and> rhs_of m' = (rhs_of m)(a := root u) \<and>
    mg_assigned m' = mg_assigned m @ [a] \<and> cache_of m' = cache_of m \<and> idx_of m' = idx_of m \<and> mg_cached m' = mg_cached m \<and> mg_indices m' = mg_indices m"
proof -
  note i = import_tree [OF managerD(1) [OF m]]
  have ea: "STRIP a = a" using l(1) by (simp add: strip_even)
  obtain n where n: "mg_nodes m a = Some n" "sg_rhs n = 0" "sg_cache n = 0" using l(1) none by auto
  obtain m1 where m1: "sg_inc a m = Some m1" "manager k m1 (add_mset a F)" "grows m m1" "quiet m m1" using inc_manager [OF m l(1)] by auto
  obtain m2 where m2: "sg_inc (root u) m1 = Some m2" "manager k m2 (add_mset (root u) (add_mset a F))" "grows m1 m2" "quiet m1 m2"
    using inc_manager [OF m1(2) grows_reads [OF m1(3) u(1)]] by blast
  note g2 = grows_trans [OF m1(3) m2(3)] and q2 = quiet_trans [OF m1(4) m2(4)]
  obtain e where e: "mg_nodes m2 a = Some e" using g2 n(1) unfolding grows_def by blast
  let ?f = "\<lambda>n. n\<lparr>sg_rhs := root u\<rparr>"
  obtain m3 where m3: "sg_update ?f a m2 = Some m3" "hinv m3 (add_mset (root u) (add_mset a F) + listed m2) {}" "similar m2 m3" "grows m2 m3"
      "m3 = m2\<lparr>mg_nodes := (mg_nodes m2)(a \<mapsto> ?f e)\<rparr>"
    using update_attr [OF managerD(1) [OF m2(2)] e, of ?f] by (auto simp: sg_key_def)
  let ?m = "m3\<lparr>mg_assigned := mg_assigned m3 @ [a]\<rparr>"
  have step: "simpaig_assign m a (root u) = Some ?m"
    using i [of a] i [of "root u"] l u isvar_tree [OF l(1)] n m1(1) m2(1) m3(1) by (simp add: simpaig_assign_def)
  have q: "listed m2 = listed m" "lists_ok m" "cache_of m2 = cache_of m" "rhs_of m2 = rhs_of m" "idx_of m2 = idx_of m"
    "mg_cached m2 = mg_cached m" "mg_assigned m2 = mg_assigned m" "mg_indices m2 = mg_indices m"
    using quiet_lists [OF q2] managerD(2) [OF m] q2 by (simp_all add: quiet_def)
  have at: "attrs ?m b = (cache_of m b, ((rhs_of m)(a := root u)) b, idx_of m b)" for b
  proof (cases "b = a")
    case True
    have "sg_cache e = cache_of m a" "sg_idx e = idx_of m a" using attr_of_node [OF e] q by simp_all
    then show ?thesis using True by (simp add: m3(5) attrs_def)
  next
    case False
    then have "attrs ?m b = attrs m2 b" by (simp add: m3(5) attrs_def)
    with False show ?thesis using q by (simp add: attrs_of)
  qed
  note f = fields_of [OF at]
  have lists: "mg_cached ?m = mg_cached m" "mg_assigned ?m = mg_assigned m @ [a]" "mg_indices ?m = mg_indices m" using q by (simp_all add: m3(5))
  have na: "a \<notin> set (mg_assigned m)" using lists_okD(2) [OF q(2)] none(1) by simp
  have "root u \<noteq> 0" using reads_dom [OF u(1)] graph_okD(5) [OF managerD(5) [OF m], of "STRIP (root u)"] strip_nonzero by blast
  then have "lists_ok ?m" unfolding lists_ok_def f lists using q(2) na by (auto simp: lists_ok_def)
  moreover have "listed ?m = add_mset (root u) (add_mset a (listed m))"
  proof -
    have "image_mset ((rhs_of m)(a := root u)) (mset (mg_assigned m)) = image_mset (rhs_of m) (mset (mg_assigned m))"
      using na by (intro image_mset_cong) auto
    then show ?thesis unfolding listed_def f lists by simp
  qed
  moreover have "nodes_used ?m = nodes_used m2" "mg_malloc ?m = mg_malloc m2" using similar_dom [OF m3(3)] by (simp_all add: nodes_used_def m3(5))
  ultimately have "manager k ?m F" using m3(2) managerD(3,4) [OF m2(2)] q(1) by (simp add: manager_def add_mset_commute)
  moreover have "grows m ?m" using grows_trans [OF g2 m3(4)] by (simp add: grows_def)
  ultimately show ?thesis using step f lists by (intro exI [of _ ?m]) (simp add: fun_upd_def)
qed

section \<open>Applying the assignment\<close>

text \<open>
  After a substitution the lists of assignments and of cached results are empty. The client still has
  what it had, and what was indexed is still there.
\<close>

definition applied :: "nat \<Rightarrow> simpaigmgr \<Rightarrow> ptr multiset \<Rightarrow> simpaigmgr \<Rightarrow> bool" where
  "applied k m F m' \<longleftrightarrow> manager k m' F \<and> mg_cached m' = [] \<and> mg_assigned m' = [] \<and> idx_of m' = idx_of m \<and> mg_indices m' = mg_indices m \<and>
     (\<forall>u. root u \<in># F + mset (mg_indices m) \<longrightarrow> reads m u \<longrightarrow> reads m' u)"

lemma resets_applied:
  assumes m: "manager k m1 F" and g: "idx_of m1 = idx_of m" "mg_indices m1 = mg_indices m" "\<And>u. reads m u \<Longrightarrow> reads m1 u"
  shows "\<exists>m2 m'. simpaig_reset_cache m1 = Some m2 \<and> simpaig_reset_assignment m2 = Some m' \<and> applied k m F m' \<and>
    (\<forall>u. root u \<in># F \<longrightarrow> reads m1 u \<longrightarrow> reads m' u)"
proof -
  obtain m2 where m2: "simpaig_reset_cache m1 = Some m2" "releases k m1 F m2" "mg_cached m2 = []" "idx_of m2 = idx_of m1" "mg_indices m2 = mg_indices m1"
    using reset_cache_releases [OF m] by blast
  obtain m' where m': "simpaig_reset_assignment m2 = Some m'" "releases k m2 F m'" "mg_assigned m' = []" "idx_of m' = idx_of m2" "mg_cached m' = mg_cached m2"
    "mg_indices m' = mg_indices m2" using reset_assignment_releases [OF releasesD(1) [OF m2(2)]] by blast
  have in_list: "root u \<in># F + listed m2" "root u \<in># F + listed m'" if "root u \<in># F + mset (mg_indices m)" for u
    using that m2(5) m'(6) g(2) by (auto simp: listed_def)
  have r: "reads m' u" if "root u \<in># F + mset (mg_indices m)" "reads m1 u" for u
    by (rule releasesD(3) [OF m'(2) in_list(2) [OF that(1)] releasesD(3) [OF m2(2) in_list(1) [OF that(1)] that(2)]])
  have "applied k m F m'" unfolding applied_def using releasesD(1) [OF m'(2)] m'(3-6) m2(3-5) g r by auto
  then show ?thesis using m2(1) m'(1) r by auto
qed

lemma substitute_correct:
  assumes m: "manager (k + card U) m F" "mg_cached m = []" and t: "reads m t" "root t \<in># F" "addrs t \<subseteq> U"
    and A: "carries A U m" "ranked A lv" "finite U"
  shows "\<exists>w m'. simpaig_substitute m (root t) = Some (root w, m') \<and> reads m' w \<and> substituted A t w \<and> applied k m (add_mset (root w) F) m'"
proof -
  note g = managerD(5) [OF m(1)]
  have imp: "IMPORT m (root t) = Some (root t)" by (rule import_tree [OF managerD(1) [OF m(1)]]) (use t(2) in simp)
  obtain xs where xs: "set xs = U" using finite_list [OF A(3)] by blast
  have rk: "ranks A lv = A" by (rule ranks_ranked(2) [OF A(2)])
  show ?thesis
  proof (cases "STRIP (root t) = mg_false m")
    case True
    obtain m1 where m1: "sg_inc (root t) m = Some m1" "manager (k + card U) m1 (add_mset (root t) F)" "grows m m1" "quiet m m1"
      using inc_manager [OF m(1) t(1)] by blast
    have k1: "manager k m1 (add_mset (root t) F)" by (rule manager_mono [OF m1(2)]) simp
    obtain m' where m': "simpaig_reset_assignment m1 = Some m'" "releases k m1 (add_mset (root t) F) m'" "mg_assigned m' = []" "idx_of m' = idx_of m1"
      "mg_cached m' = mg_cached m1" "mg_indices m' = mg_indices m1" using reset_assignment_releases [OF k1] by blast
    have r: "reads m' u" if "root u \<in># add_mset (root t) F + mset (mg_indices m)" "reads m u" for u
      by (rule releasesD(3) [OF m'(2) _ grows_reads [OF m1(3) that(2)]]) (use that(1) m'(6) m1(4) in \<open>auto simp: listed_def quiet_def\<close>)
    have "applied k m (add_mset (root t) F) m'" unfolding applied_def
      using releasesD(1) [OF m'(2)] m'(3-6) m1(4) m(2) quiet_lists(5) [OF m1(4)] r by (auto simp: quiet_def)
    moreover have "simpaig_substitute m (root t) = Some (root t, m')" using True m1(1) m'(1) t(1) by (simp add: simpaig_substitute_def imp isconst_tree [OF g])
    moreover have "substituted A t t" using const_tree [OF g t(1) True] by (auto simp: substituted_def)
    ultimately show ?thesis using r [of t] t(1) by (intro exI [of _ t] exI [of _ m']) simp
  next
    case False
    obtain w m1 where w: "simpaig_substitute_rec m (root t) = Some (root w, m1)" "reads m1 w" "substituted A t w"
        "manager (k + left_over U m1) m1 (add_mset (root w) F)" "extends_cache (substituted A) U (\<lambda>s. until lv s t) 1 m m1"
    proof (rule passesD [OF substitute.pass_all [of A lv xs t], where k = k])
      show "manager (k + left_over (set xs) m) m F" using m xs by (simp add: left_over_def)
      show "cached_pairs (substituted (ranks A lv)) m" using m(2) by (simp add: cached_pairs_def)
    qed (use A xs t False rk in auto)
    note x = extends_cacheD [OF w(5)]
    have k1: "manager k m1 (add_mset (root w) F)" by (rule manager_mono [OF w(4)]) simp
    obtain m2 m' where m': "simpaig_reset_cache m1 = Some m2" "simpaig_reset_assignment m2 = Some m'" "applied k m (add_mset (root w) F) m'"
        "\<And>u. root u \<in># add_mset (root w) F \<Longrightarrow> reads m1 u \<Longrightarrow> reads m' u"
      using resets_applied [OF k1 x(4,6,8)] by blast
    have "simpaig_substitute m (root t) = Some (root w, m')"
      using False w(1) m'(1,2) t(1) m(2) by (simp add: simpaig_substitute_def imp isconst_tree [OF g])
    then show ?thesis using m'(3) m'(4) [OF _ w(2)] w(3) by (intro exI [of _ w] exI [of _ m']) simp
  qed
qed

section \<open>Many graphs at once\<close>

lemma substitute_all_correct:
  assumes "manager (k + left_over U m) m (mset (map root ts) + G)" "cached_pairs (substituted A) m" "carries A U m" "ranked A lv" "finite U"
    and "\<And>t. t \<in> set ts \<Longrightarrow> reads m t \<and> addrs t \<subseteq> U"
  shows "\<exists>ws m'. substitute_all (map root ts) m = Some (map root ws, m') \<and> list_all2 (substituted A) ts ws \<and> (\<forall>w \<in> set ws. reads m' w) \<and>
    manager (k + left_over U m') m' (mset (map root ws) + G) \<and> extends_cache (substituted A) U (\<lambda>s. True) (length ts) m m'"
  using assms
proof (induction ts arbitrary: m G)
  case Nil
  then show ?case using extends_quiet [OF grows_refl quiet_refl Nil.prems(2)] by (intro exI [of _ "[]"] exI [of _ m]) simp
next
  case (Cons t ts)
  note M = Cons.prems(1) and g = managerD(5) [OF Cons.prems(1)] and t = Cons.prems(6) [of t, simplified]
  obtain xs where xs: "set xs = U" using finite_list [OF Cons.prems(5)] by blast
  have rk: "ranks A lv = A" by (rule ranks_ranked(2) [OF Cons.prems(4)])
  have imp: "IMPORT m (root t) = Some (root t)" by (rule import_tree [OF managerD(1) [OF M]]) simp
  let ?G = "mset (map root ts) + G"
  have "\<exists>w m1. (if STRIP (root t) = mg_false m then do { m \<leftarrow> sg_inc (root t) m; Some (root t, m) } else simpaig_substitute_rec m (root t)) = Some (root w, m1) \<and>
      reads m1 w \<and> substituted A t w \<and> manager (k + left_over U m1) m1 (add_mset (root w) (add_mset (root t) ?G)) \<and>
      extends_cache (substituted A) U (\<lambda>s. True) 1 m m1 \<and> (STRIP (root t) \<noteq> mg_false m \<longrightarrow> STRIP (root t) \<in> set (mg_cached m1))"
  proof (cases "STRIP (root t) = mg_false m")
    case True
    obtain m1 where m1: "sg_inc (root t) m = Some m1" "manager (k + left_over U m) m1 (add_mset (root t) (mset (map root (t # ts)) + G))" "grows m m1" "quiet m m1"
      "\<And>K. refs_below m K \<Longrightarrow> refs_below m1 (Suc K)" using inc_manager [OF M] t by blast
    have "extends_cache (substituted A) U (\<lambda>s. True) 1 m m1" by (rule extends_quiet [OF m1(3,4) Cons.prems(2)]) (use m1(5) in simp)
    moreover have "left_over U m1 = left_over U m" using m1(4) by (simp add: left_over_def quiet_def)
    moreover have "substituted A t t" using const_tree [OF g _ True] t by (auto simp: substituted_def)
    ultimately show ?thesis using True m1(1,2) grows_reads [OF m1(3)] t by (intro exI [of _ t] exI [of _ m1]) simp
  next
    case False
    have pre: "manager (k + left_over (set xs) m) m (mset (map root (t # ts)) + G)" "cached_pairs (substituted (ranks A lv)) m" "carries (ranks A lv) (set xs) m"
      "reads m t" "addrs t \<subseteq> set xs" "STRIP (root t) \<noteq> mg_false m" using M Cons.prems(2,3) t xs rk False by simp_all
    note p = substitute.pass_all [of A lv xs t]
    obtain w m1 where w: "simpaig_substitute_rec m (root t) = Some (root w, m1)" "reads m1 w" "substituted A t w"
        "manager (k + left_over U m1) m1 (add_mset (root w) (mset (map root (t # ts)) + G))" "extends_cache (substituted A) U (\<lambda>s. until lv s t) 1 m m1"
      by (rule passesD [OF p pre]) (use xs rk in auto)
    have "extends_cache (substituted A) U (\<lambda>s. True) 1 m m1"
      by (rule extends_trans [OF w(5) extends_quiet [OF grows_refl quiet_refl extends_cacheD(2) [OF w(5)], where i = 0 and P = "\<lambda>s. False"]]) simp_all
    with w False passes_cached [OF p pre w(1)] show ?thesis by (intro exI [of _ w] exI [of _ m1]) simp
  qed
  then obtain w m1 where w: "(if STRIP (root t) = mg_false m then do { m \<leftarrow> sg_inc (root t) m; Some (root t, m) } else simpaig_substitute_rec m (root t)) = Some (root w, m1)"
      "reads m1 w" "substituted A t w" "manager (k + left_over U m1) m1 (add_mset (root w) (add_mset (root t) ?G))"
      "extends_cache (substituted A) U (\<lambda>s. True) 1 m m1" "STRIP (root t) \<noteq> mg_false m \<Longrightarrow> STRIP (root t) \<in> set (mg_cached m1)" by blast
  have still: "0 < refs_held (add_mset (root w) ?G + listed m1) b" if "b \<noteq> mg_false m" "0 < refs_held (mset (map root (t # ts)) + G) b" for b
  proof (cases "STRIP (root t) = b")
    case True
    then have "b \<in># listed m1" "STRIP b = b" using w(6) that(1) by (auto simp: listed_def)
    then show ?thesis unfolding held_pos by auto
  qed (use that(2) in simp)
  have M1: "manager (k + left_over U m1) m1 (add_mset (root t) (add_mset (root w) ?G))" using w(4) by (simp add: add_mset_commute)
  obtain m2 where m2: "sg_dec m1 (root t) = Some m2" "manager (k + left_over U m1) m2 (add_mset (root w) ?G)" "extends_cache (substituted A) U (\<lambda>s. True) 1 m m2" "quiet m1 m2"
      "\<And>u. root u \<in># add_mset (root w) ?G + listed m1 \<Longrightarrow> reads m1 u \<Longrightarrow> reads m2 u"
    using extends_drop [OF M w(5) M1 still] by blast
  note x = extends_cacheD [OF m2(3)]
  have lo: "left_over U m1 = left_over U m2" using m2(4) by (simp add: left_over_def quiet_def)
  have r2: "reads m2 w" by (rule m2(5) [OF _ w(2)]) simp
  have M2: "manager (k + left_over U m2) m2 (mset (map root ts) + add_mset (root w) G)" using m2(2) lo by simp
  obtain ws m' where ws: "substitute_all (map root ts) m2 = Some (map root ws, m')" "list_all2 (substituted A) ts ws" "\<forall>w \<in> set ws. reads m' w"
      "manager (k + left_over U m') m' (mset (map root ws) + add_mset (root w) G)" "extends_cache (substituted A) U (\<lambda>s. True) (length ts) m2 m'"
    using Cons.IH [OF M2 x(2) carries_grows [OF Cons.prems(3) x(1,3)] Cons.prems(4,5)] Cons.prems(6) x(8) by (metis list.set_intros(2))
  have "substitute_all (map root (t # ts)) m = Some (map root (w # ws), m')"
    using w(1) m2(1) ws(1) t by (simp add: imp isconst_tree [OF g])
  moreover have "extends_cache (substituted A) U (\<lambda>s. True) (length (t # ts)) m m'" by (rule extends_trans [OF m2(3) ws(5)]) simp_all
  moreover have "reads m' w" by (rule extends_cacheD(8) [OF ws(5) r2])
  ultimately show ?case using w(3) ws(2-4) by (intro exI [of _ "w # ws"] exI [of _ m']) simp
qed

lemma substitute_parallel_correct:
  assumes m: "manager (k + card U) m (mset (map root ts) + G)" "mg_cached m = []" and t: "\<And>t. t \<in> set ts \<Longrightarrow> reads m t \<and> addrs t \<subseteq> U"
    and A: "carries A U m" "ranked A lv" "finite U"
  shows "\<exists>ws m'. simpaig_substitute_parallel m (map root ts) = Some (map root ws, m') \<and> list_all2 (substituted A) ts ws \<and> (\<forall>w \<in> set ws. reads m' w) \<and>
    applied k m (mset (map root ws) + G) m'"
proof -
  have c: "cached_pairs (substituted A) m" using m(2) by (simp add: cached_pairs_def)
  have M: "manager (k + left_over U m) m (mset (map root ts) + G)" using m by (simp add: left_over_def)
  obtain ws m1 where ws: "substitute_all (map root ts) m = Some (map root ws, m1)" "list_all2 (substituted A) ts ws" "\<forall>w \<in> set ws. reads m1 w"
    "manager (k + left_over U m1) m1 (mset (map root ws) + G)" "extends_cache (substituted A) U (\<lambda>s. True) (length ts) m m1"
    using substitute_all_correct [OF M c A t] by blast
  note x = extends_cacheD [OF ws(5)]
  have k1: "manager k m1 (mset (map root ws) + G)" by (rule manager_mono [OF ws(4)]) simp
  obtain m2 m' where m': "simpaig_reset_cache m1 = Some m2" "simpaig_reset_assignment m2 = Some m'" "applied k m (mset (map root ws) + G) m'"
      "\<And>u. root u \<in># mset (map root ws) + G \<Longrightarrow> reads m1 u \<Longrightarrow> reads m' u"
    using resets_applied [OF k1 x(4,6,8)] by blast
  have "reads m' w" if "w \<in> set ws" for w by (rule m'(4)) (use that ws(3) in auto)
  then show ?thesis using ws(1,2) m'(1-3) m(2) by (intro exI [of _ ws] exI [of _ m']) (simp add: simpaig_substitute_parallel_def)
qed

end
