(* ===== verification/SimpAigIndex.thy ===== *)
theory SimpAigIndex
  imports SimpAigAssign
begin

text \<open>
  Tseitin indices: every node of a graph gets a number of its own, from 1 on without gaps, after the
  numbers of its operands; what already has a number keeps it. And the balance of references.
\<close>

section \<open>Numbering\<close>

text \<open>The numbering of a manager: the entries of \<open>indices\<close> in their order, operands first.\<close>

definition indices_numbered :: "simpaigmgr \<Rightarrow> bool" where
  "indices_numbered m \<longleftrightarrow> mg_false m \<notin> set (mg_indices m) \<and> (\<forall>i < length (mg_indices m). idx_of m (mg_indices m ! i) = Suc i) \<and>
     (\<forall>a t u. a \<in> set (mg_indices m) \<longrightarrow> reads m (PAnd a t u) \<longrightarrow>
        0 < idx_of m (STRIP (root t)) \<and> idx_of m (STRIP (root t)) < idx_of m a \<and>
        0 < idx_of m (STRIP (root u)) \<and> idx_of m (STRIP (root u)) < idx_of m a)"

lemma numberedD:
  assumes "indices_numbered m"
  shows "i < length (mg_indices m) \<Longrightarrow> idx_of m (mg_indices m ! i) = Suc i"
    and "a \<in> set (mg_indices m) \<Longrightarrow> reads m (PAnd a t u) \<Longrightarrow> 0 < idx_of m (STRIP (root t)) \<and> idx_of m (STRIP (root t)) < idx_of m a \<and>
      0 < idx_of m (STRIP (root u)) \<and> idx_of m (STRIP (root u)) < idx_of m a"
    and "mg_false m \<notin> set (mg_indices m)"
  using assms unfolding indices_numbered_def by blast+

lemma numbered_addrs:
  assumes "indices_numbered m" "lists_ok m" "graph_ok m Z"
  shows "reads m t \<Longrightarrow> STRIP (root t) \<in> set (mg_indices m) \<Longrightarrow> addrs t \<subseteq> set (mg_indices m)"
proof (induction t)
  case (PAnd a t u)
  have "STRIP a = a" using PAnd.prems(1) by (simp add: strip_even)
  then have a: "a \<in> set (mg_indices m)" using PAnd.prems(2) by simp
  from numberedD(2) [OF assms(1) a PAnd.prems(1)]
  have "STRIP (root t) \<in> set (mg_indices m)" "STRIP (root u) \<in> set (mg_indices m)" using lists_okD(3) [OF assms(2)] by auto
  then show ?case using PAnd a by simp
qed (auto simp: strip_even)

text \<open>What numbering leaves alone.\<close>

definition renumbers :: "simpaigmgr \<Rightarrow> simpaigmgr \<Rightarrow> bool" where
  "renumbers m m' \<longleftrightarrow> grows m m' \<and> (\<exists>new. mg_indices m' = mg_indices m @ new) \<and> (\<forall>a. idx_of m a \<noteq> 0 \<longrightarrow> idx_of m' a = idx_of m a) \<and>
     cache_of m' = cache_of m \<and> rhs_of m' = rhs_of m \<and> mg_cached m' = mg_cached m \<and> mg_assigned m' = mg_assigned m"

lemma renumbersD:
  assumes "renumbers m m'"
  shows "grows m m'" "set (mg_indices m) \<subseteq> set (mg_indices m')" "idx_of m a \<noteq> 0 \<Longrightarrow> idx_of m' a = idx_of m a" "reads m t \<Longrightarrow> reads m' t"
  using assms grows_reads unfolding renumbers_def by auto

lemma renumbers_refl: "renumbers m m"
  by (simp add: renumbers_def)

lemma renumbers_trans: "renumbers m m' \<Longrightarrow> renumbers m' m'' \<Longrightarrow> renumbers m m''"
  unfolding renumbers_def using grows_trans by (auto simp: neq0_conv)

lemma indices_bound:
  assumes m: "manager k m F"
  shows "length (mg_indices m) \<le> nodes_used m" "nodes_used m \<le> 2147483648" "a \<in> dom (mg_nodes m) \<Longrightarrow> a \<notin> set (mg_indices m) \<Longrightarrow> length (mg_indices m) < nodes_used m"
proof -
  note l = managerD(2) [OF m] and g = managerD(5) [OF m]
  have "set (mg_indices m) \<subseteq> dom (mg_nodes m)"
  proof
    fix a assume "a \<in> set (mg_indices m)"
    then have "idx_of m a \<noteq> 0" using lists_okD(3) [OF l] by simp
    then show "a \<in> dom (mg_nodes m)" by (auto simp: idx_of_def attrs_def split: option.splits)
  qed
  moreover have "card (set (mg_indices m)) = length (mg_indices m)" by (rule distinct_card [OF lists_okD(6) [OF l]])
  ultimately show "length (mg_indices m) \<le> nodes_used m" "a \<in> dom (mg_nodes m) \<Longrightarrow> a \<notin> set (mg_indices m) \<Longrightarrow> length (mg_indices m) < nodes_used m"
    using card_mono [OF graph_okD(1) [OF g]] psubset_card_mono [OF graph_okD(1) [OF g]] unfolding nodes_used_def by (metis, metis psubsetI)
  show "nodes_used m \<le> 2147483648" using managerD(4) [OF m] by simp
qed

lemma push_index_correct:
  assumes m: "manager k m F" and s: "reads m s" "\<not> SIGN (root s)" "root s \<noteq> mg_false m" and c: "idx_of m (root s) = 0"
  shows "\<exists>m'. simpaig_push_index m (root s) = Some m' \<and> manager k m' F \<and> renumbers m m' \<and>
    mg_indices m' = mg_indices m @ [root s] \<and> idx_of m' = (idx_of m)(root s := Suc (length (mg_indices m)))"
proof -
  let ?a = "root s"
  note l = managerD(2) [OF m] and g = managerD(5) [OF m]
  have sa: "STRIP ?a = ?a" by (rule strip_even(2) [OF s(2)])
  have d: "?a \<in> dom (mg_nodes m)" using reads_dom [OF s(1)] unfolding sa .
  then obtain n where n: "mg_nodes m ?a = Some n" "sg_idx n = 0" using c by auto
  have na: "?a \<notin> set (mg_indices m)" using lists_okD(3) [OF l] c by simp
  let ?i = "Suc (length (mg_indices m))" and ?f = "\<lambda>n. n\<lparr>sg_idx := Suc (length (mg_indices m))\<rparr>" and ?m0 = "m\<lparr>mg_indices := mg_indices m @ [root s]\<rparr>"
  have i: "u32 ?i = ?i" using indices_bound(2) [OF m] indices_bound(3) [OF m d na] by (simp add: u32_def)
  have "hinv ?m0 (F + listed m) {}" using managerD(1) [OF m] by simp
  then obtain m1 where m1: "sg_update ?f ?a ?m0 = Some m1" "hinv m1 (F + listed m) {}" "similar ?m0 m1" "grows ?m0 m1"
      "m1 = ?m0\<lparr>mg_nodes := (mg_nodes ?m0)(?a \<mapsto> ?f n)\<rparr>"
    using update_attr [of ?m0 "F + listed m" "{}" ?a n ?f] n by (auto simp: sg_key_def)
  have d1: "STRIP ?a \<in> dom (mg_nodes m1) - {}" using similar_dom [OF m1(3)] d sa by simp
  obtain m2 where m2: "sg_inc ?a m1 = Some m2" "hinv m2 (add_mset ?a (F + listed m)) {}" "similar m1 m2" "grows m1 m2" "quiet m1 m2"
    using inc_hinv [OF m1(2) d1] by blast
  have "ISFALSE m ?a = Some False" unfolding isfalse_tree [OF s(1) g] using s(1,3) by (cases s) auto
  then have step: "simpaig_push_index m ?a = Some m2" using s(2) n m1(1) m2(1) i by (simp add: simpaig_push_index_def Let_def)
  have at1: "attrs m1 = (attrs m)(?a := (cache_of m ?a, rhs_of m ?a, ?i))"
    using attr_of_node [OF n(1)] by (auto simp: m1(5) attrs_def fun_eq_iff)
  have at: "attrs m2 a = (cache_of m a, rhs_of m a, ((idx_of m)(?a := ?i)) a)" for a
  proof -
    have "attrs m2 a = attrs m1 a" using m2(5) by (simp add: quiet_def)
    then show ?thesis by (simp add: at1 attrs_of)
  qed
  note f = fields_of [OF at]
  have lists: "mg_cached m2 = mg_cached m" "mg_assigned m2 = mg_assigned m" "mg_indices m2 = mg_indices m @ [?a]"
    using m2(5) by (simp_all add: quiet_def m1(5))
  have "lists_ok m2" unfolding lists_ok_def f lists using l na by (auto simp: lists_ok_def)
  moreover have "listed m2 = add_mset ?a (listed m)" unfolding listed_def f lists by simp
  moreover have "nodes_used m2 = nodes_used m" "mg_malloc m2 = mg_malloc m"
    using similar_dom [OF m2(3)] similar_dom [OF m1(3)] m2(5) by (simp_all add: nodes_used_def quiet_def m1(5))
  ultimately have "manager k m2 F" using m2(2) managerD(3,4) [OF m] by (simp add: manager_def)
  moreover have "grows m m2" using grows_trans [OF m1(4) m2(4)] by (simp add: grows_def)
  then have "renumbers m m2" using c unfolding renumbers_def f lists by simp
  ultimately show ?thesis using step f(3) lists(3) by blast
qed

lemma numbered_push:
  assumes nb: "indices_numbered m" and l: "lists_ok m" and g: "graph_ok m {}" and r: "renumbers m m'" "mg_indices m' = mg_indices m @ [a]" "idx_of m' = (idx_of m)(a := Suc (length (mg_indices m)))"
    and na: "idx_of m a = 0" and s: "reads m s" "root s = a" and e: "a \<noteq> mg_false m"
    and ch: "\<And>t u. s = PAnd a t u \<Longrightarrow> idx_of m (STRIP (root t)) \<noteq> 0 \<and> idx_of m (STRIP (root u)) \<noteq> 0"
  shows "indices_numbered m'"
proof -
  have le: "idx_of m b \<le> length (mg_indices m)" for b
  proof (cases "idx_of m b = 0")
    case False
    then have "b \<in> set (mg_indices m)" using lists_okD(3) [OF l] by simp
    then obtain i where "i < length (mg_indices m)" "mg_indices m ! i = b" by (metis in_set_conv_nth)
    then show ?thesis using numberedD(1) [OF nb] by force
  qed simp
  have ai: "a \<notin> set (mg_indices m)" using lists_okD(3) [OF l] na by simp
  show ?thesis unfolding indices_numbered_def r(2,3)
  proof (intro conjI allI impI)
    show "mg_false m' \<notin> set (mg_indices m @ [a])" using numberedD(3) [OF nb] e r(1) by (simp add: renumbers_def grows_def)
  next
    fix i assume "i < length (mg_indices m @ [a])"
    then consider "i < length (mg_indices m)" | "i = length (mg_indices m)" by fastforce
    then show "((idx_of m)(a := Suc (length (mg_indices m)))) ((mg_indices m @ [a]) ! i) = Suc i"
    proof cases
      case 1
      then have "mg_indices m ! i \<noteq> a" using ai nth_mem by metis
      with 1 numberedD(1) [OF nb 1] show ?thesis by (simp add: nth_append)
    qed simp
  next
    fix b t u assume b: "b \<in> set (mg_indices m @ [a])" and t: "reads m' (PAnd b t u)"
    let ?I = "(idx_of m)(a := Suc (length (mg_indices m)))"
    have "0 < ?I (STRIP (root t)) \<and> ?I (STRIP (root t)) < ?I b \<and> 0 < ?I (STRIP (root u)) \<and> ?I (STRIP (root u)) < ?I b"
    proof (cases "b = a")
      case True
      have "s = PAnd a t u" using reads_unique [OF renumbersD(4) [OF r(1) s(1)] t] s(2) True by simp
      note c = ch [OF this]
      then have "STRIP (root t) \<noteq> a" "STRIP (root u) \<noteq> a" using na by metis+
      with c True le [of "STRIP (root t)"] le [of "STRIP (root u)"] show ?thesis by simp
    next
      case False
      then have bi: "b \<in> set (mg_indices m)" using b by simp
      then have "idx_of m b \<noteq> 0" using lists_okD(3) [OF l] by simp
      then obtain n where n: "mg_nodes m b = Some n" by (auto simp: idx_of_def attrs_def split: option.splits)
      then obtain w where w: "reads m w" "root w = b" using graph_okD(8) [OF g, of b] by auto
      have "w = PAnd b t u" using reads_unique [OF renumbersD(4) [OF r(1) w(1)] t] w(2) by simp
      then have c: "reads m (PAnd b t u)" using w(1) by simp
      note nd = numberedD(2) [OF nb bi c]
      then have "STRIP (root t) \<noteq> a" "STRIP (root u) \<noteq> a" using na by auto
      with nd False show ?thesis by simp
    qed
    then show "0 < ?I (STRIP (root t))" "?I (STRIP (root t)) < ?I b" "0 < ?I (STRIP (root u))" "?I (STRIP (root u)) < ?I b" by blast+
  qed
qed

lemma assign_indices_rec_correct:
  assumes "manager k m F" "indices_numbered m" "reads m t" "STRIP (root t) \<noteq> mg_false m"
  shows "\<exists>m'. simpaig_assign_indices_rec m (root t) = Some m' \<and> manager k m' F \<and> indices_numbered m' \<and> renumbers m m' \<and>
    STRIP (root t) \<in> set (mg_indices m') \<and> (\<forall>a. a \<in> set (mg_indices m') \<longrightarrow> a \<in> set (mg_indices m) \<or> a \<in> addrs t)"
  using assms
proof (induction t arbitrary: m)
  case (PNot t)
  have "simpaig_assign_indices_rec m (root (PNot t)) = simpaig_assign_indices_rec m (root t)"
    by (subst (1 2) simpaig_assign_indices_rec.simps) simp
  then show ?case using PNot by simp
next
  case (PFalse a)
  then show ?case by (auto simp: strip_even)
next
  case (PVar a v s)
  note m = PVar.prems(1) and t = PVar.prems(3)
  note l = managerD(2) [OF m]
  have sa: "STRIP a = a" "\<not> SIGN a" using t by (simp_all add: strip_even SIGN_def)
  obtain n where n: "mg_nodes m a = Some n" "sg_var n \<noteq> 0" using t by (auto simp: sg_key_def)
  show ?case
  proof (cases "sg_idx n = 0")
    case False
    then have "a \<in> set (mg_indices m)" using lists_okD(3) [OF l, of a] n by simp
    moreover have "simpaig_assign_indices_rec m a = Some m" using False n sa by (subst simpaig_assign_indices_rec.simps) simp
    ultimately show ?thesis using m PVar.prems(2) renumbers_refl sa by auto
  next
    case True
    then have c: "idx_of m a = 0" using n by simp
    obtain m' where m': "simpaig_push_index m a = Some m'" "manager k m' F" "renumbers m m'" "mg_indices m' = mg_indices m @ [a]"
        "idx_of m' = (idx_of m)(a := Suc (length (mg_indices m)))"
      using push_index_correct [OF m t] c PVar.prems(4) sa by auto
    have "indices_numbered m'" by (rule numbered_push [OF PVar.prems(2) l managerD(5) [OF m] m'(3-5) c t]) (use PVar.prems(4) sa in simp_all)
    moreover have "simpaig_assign_indices_rec m a = Some m'" using True n sa m'(1) by (subst simpaig_assign_indices_rec.simps) (simp add: ISVAR_def)
    ultimately show ?thesis using m'(2-4) sa by auto
  qed
next
  case (PAnd a t u)
  note m = PAnd.prems(1) and s = PAnd.prems(3)
  note l = managerD(2) [OF m] and g = managerD(5) [OF m]
  have sa: "STRIP a = a" "\<not> SIGN a" using s by (simp_all add: strip_even SIGN_def)
  obtain n where n: "mg_nodes m a = Some n" "sg_var n = 0" "sg_c0 n = root t" "sg_c1 n = root u" using s by (auto simp: sg_key_def)
  show ?case
  proof (cases "sg_idx n = 0")
    case False
    then have "a \<in> set (mg_indices m)" using lists_okD(3) [OF l, of a] n by simp
    moreover have "simpaig_assign_indices_rec m a = Some m" using False n sa by (subst simpaig_assign_indices_rec.simps) simp
    ultimately show ?thesis using m PAnd.prems(2) renumbers_refl sa by auto
  next
    case True
    have "a \<noteq> mg_false m" using PAnd.prems(4) sa by simp
    then have "gate_node (mg_false m) n" using graph_okD(6) [OF g n(1)] n(2) by (auto simp: var_node_def)
    then have nf: "STRIP (root t) \<noteq> mg_false m" "STRIP (root u) \<noteq> mg_false m" using n(3,4) by (simp_all add: gate_node_def)
    have r: "reads m t" "reads m u" using s by simp_all
    obtain m1 where m1: "simpaig_assign_indices_rec m (root t) = Some m1" "manager k m1 F" "indices_numbered m1" "renumbers m m1"
        "STRIP (root t) \<in> set (mg_indices m1)" "\<And>a. a \<in> set (mg_indices m1) \<Longrightarrow> a \<in> set (mg_indices m) \<or> a \<in> addrs t"
      using PAnd.IH(1) [OF m PAnd.prems(2) r(1) nf(1)] by blast
    have f1: "mg_false m1 = mg_false m" using m1(4) by (simp add: renumbers_def grows_def)
    obtain m2 where m2: "simpaig_assign_indices_rec m1 (root u) = Some m2" "manager k m2 F" "indices_numbered m2" "renumbers m1 m2"
        "STRIP (root u) \<in> set (mg_indices m2)" "\<And>a. a \<in> set (mg_indices m2) \<Longrightarrow> a \<in> set (mg_indices m1) \<or> a \<in> addrs u"
      using PAnd.IH(2) [OF m1(2,3) renumbersD(4) [OF m1(4) r(2)]] nf(2) f1 by auto
    note r2 = renumbers_trans [OF m1(4) m2(4)] and l2 = managerD(2) [OF m2(2)]
    have s2: "reads m2 (PAnd a t u)" by (rule renumbersD(4) [OF r2 s])
    have below: "size w < size (PAnd a t u)" if "w \<in> {t, u}" for w using that by auto
    have notin: "a \<notin> addrs t" "a \<notin> addrs u"
    proof -
      have sub: "\<exists>x. reads m x \<and> root x = b \<and> size x \<le> size w" if "reads m w" "b \<in> addrs w" for w b
        using that
      proof (induction w)
        case (PAnd c w x)
        then show ?case using PAnd.prems by (cases "b = c") (force intro: exI [of _ "PAnd c w x"])+
      qed (fastforce intro: exI)+
      have "\<not> (\<exists>x. reads m x \<and> root x = a \<and> size x < size (PAnd a t u))" using reads_unique [OF s] by fastforce
      then show "a \<notin> addrs t" "a \<notin> addrs u" using sub [OF r(1), of a] sub [OF r(2), of a] by fastforce+
    qed
    have "a \<notin> set (mg_indices m)" using lists_okD(3) [OF l, of a] n True by simp
    then have "a \<notin> set (mg_indices m2)" using m1(6) m2(6) notin by blast
    then have c: "idx_of m2 a = 0" using lists_okD(3) [OF l2] by simp
    have f2: "mg_false m2 = mg_false m" using r2 by (simp add: renumbers_def grows_def)
    obtain m3 where m3: "simpaig_push_index m2 a = Some m3" "manager k m3 F" "renumbers m2 m3" "mg_indices m3 = mg_indices m2 @ [a]"
        "idx_of m3 = (idx_of m2)(a := Suc (length (mg_indices m2)))"
      using push_index_correct [OF m2(2) s2] c PAnd.prems(4) sa f2 by auto
    have ch: "idx_of m2 (STRIP (root t)) \<noteq> 0" "idx_of m2 (STRIP (root u)) \<noteq> 0"
      using lists_okD(3) [OF l2] renumbersD(2) [OF m2(4)] m1(5) m2(5) by blast+
    have "indices_numbered m3" by (rule numbered_push [OF m2(3) l2 managerD(5) [OF m2(2)] m3(3-5) c s2]) (use PAnd.prems(4) sa f2 ch in auto)
    moreover have "simpaig_assign_indices_rec m a = Some m3"
      using True n sa m1(1) m2(1) m3(1) by (subst simpaig_assign_indices_rec.simps) (simp add: ISVAR_def)
    moreover have "renumbers m m3" by (rule renumbers_trans [OF r2 m3(3)])
    ultimately show ?thesis using m3(2,4) m1(6) m2(6) sa by auto
  qed
qed

lemma assign_indices_correct:
  assumes m: "manager k m F" "indices_numbered m" and t: "reads m t"
  shows "\<exists>m'. simpaig_assign_indices m (root t) = Some m' \<and> manager k m' F \<and> indices_numbered m' \<and> renumbers m m' \<and>
    set (mg_indices m') = set (mg_indices m) \<union> (addrs t - {mg_false m})"
proof -
  note g = managerD(5) [OF m(1)]
  show ?thesis
  proof (cases "STRIP (root t) = mg_false m")
    case True
    have "addrs t = {mg_false m}" using const_tree [OF g t True] by auto
    moreover have "simpaig_assign_indices m (root t) = Some m" using True t by (simp add: simpaig_assign_indices_def isconst_tree [OF g])
    ultimately show ?thesis using m renumbers_refl by auto
  next
    case False
    obtain m' where m': "simpaig_assign_indices_rec m (root t) = Some m'" "manager k m' F" "indices_numbered m'" "renumbers m m'"
        "STRIP (root t) \<in> set (mg_indices m')" "\<And>a. a \<in> set (mg_indices m') \<Longrightarrow> a \<in> set (mg_indices m) \<or> a \<in> addrs t"
      using assign_indices_rec_correct [OF m t False] by blast
    have "addrs t \<subseteq> set (mg_indices m')"
      by (rule numbered_addrs [OF m'(3) managerD(2,5) [OF m'(2)] renumbersD(4) [OF m'(4) t] m'(5)])
    moreover have "mg_false m \<notin> addrs t"
    proof -
      have "mg_false m \<notin> addrs u" if "reads m u" "STRIP (root u) \<noteq> mg_false m" for u
        using that
      proof (induction u)
        case (PAnd a w x)
        obtain n where n: "mg_nodes m a = Some n" "sg_var n = 0" "sg_c0 n = root w" "sg_c1 n = root x" using PAnd.prems(1) by (auto simp: sg_key_def)
        have a: "a \<noteq> mg_false m" using PAnd.prems by (auto simp: strip_even)
        then have "gate_node (mg_false m) n" using graph_okD(6) [OF g n(1)] n(2) by (auto simp: var_node_def)
        then show ?case using PAnd a n(3,4) by (simp add: gate_node_def)
      qed (auto simp: strip_even)
      then show ?thesis using t False by blast
    qed
    moreover have "simpaig_assign_indices m (root t) = Some m'" using False m'(1) t by (simp add: simpaig_assign_indices_def isconst_tree [OF g])
    ultimately show ?thesis using m'(2-4,6) renumbersD(2) [OF m'(4)] by (intro exI [of _ m']) auto
  qed
qed

section \<open>Literals\<close>

text \<open>The indices of a reference as the DIMACS and the AIGER format have them.\<close>

lemma indexed_bound:
  assumes m: "manager k m F" and nb: "indices_numbered m"
  shows "idx_of m a \<le> length (mg_indices m)" "idx_of m a < 2147483648"
proof -
  show le: "idx_of m a \<le> length (mg_indices m)"
  proof (cases "idx_of m a = 0")
    case False
    then have "a \<in> set (mg_indices m)" using lists_okD(3) [OF managerD(2) [OF m]] by simp
    then obtain i where "i < length (mg_indices m)" "mg_indices m ! i = a" by (metis in_set_conv_nth)
    then show ?thesis using numberedD(1) [OF nb] by force
  qed simp
  have "idx_of m (mg_false m) = 0" using numberedD(3) [OF nb] lists_okD(3) [OF managerD(2) [OF m]] by simp
  have "mg_false m \<in> dom (mg_nodes m)" using reads_dom [OF graph_okD(4) [OF managerD(5) [OF m]]] graph_okD(4) [OF managerD(5) [OF m]] by (simp add: strip_even)
  then have "length (mg_indices m) < nodes_used m" by (rule indices_bound(3) [OF m _ numberedD(3) [OF nb]])
  with le indices_bound(2) [OF m] show "idx_of m a < 2147483648" by linarith
qed

lemma index_literals:
  assumes m: "manager (k + 1) m F" "indices_numbered m" and t: "reads m t"
  shows "simpaig_int_index m (root t) = Some (if SIGN (root t) then - int (idx_of m (STRIP (root t)) + 1) else int (idx_of m (STRIP (root t)) + 1))"
    and "simpaig_unsigned_index m (root t) = Some (2 * idx_of m (STRIP (root t)) + (if SIGN (root t) then 1 else 0))"
proof -
  let ?a = "STRIP (root t)"
  obtain n where n: "mg_nodes m ?a = Some n" using reads_dom [OF t] by blast
  have i: "simpaig_index m ?a = Some (idx_of m ?a)" using n by (simp add: simpaig_index_def)
  have "mg_false m \<in> dom (mg_nodes m)" using reads_dom [OF graph_okD(4) [OF managerD(5) [OF m(1)]]] graph_okD(4) [OF managerD(5) [OF m(1)]] by (simp add: strip_even)
  then have "length (mg_indices m) < nodes_used m" by (rule indices_bound(3) [OF m(1) _ numberedD(3) [OF m(2)]])
  then have b: "idx_of m ?a + 1 < 2147483648" using indexed_bound(1) [OF m, of ?a] managerD(4) [OF m(1)] by linarith
  show "simpaig_int_index m (root t) = Some (if SIGN (root t) then - int (idx_of m ?a + 1) else int (idx_of m ?a + 1))"
    using b by (simp add: simpaig_int_index_def i u32_def Let_def)
  have e: "even (2 * idx_of m ?a)" by simp
  show "simpaig_unsigned_index m (root t) = Some (2 * idx_of m ?a + (if SIGN (root t) then 1 else 0))"
    using b by (simp add: simpaig_unsigned_index_def i u32_def or_Suc_0_eq)
qed

lemma index_distinct:
  assumes m: "manager k m F" "indices_numbered m" and a: "a = mg_false m \<or> a \<in> set (mg_indices m)" and b: "b = mg_false m \<or> b \<in> set (mg_indices m)"
  shows "idx_of m a = idx_of m b \<longleftrightarrow> a = b"
proof
  assume e: "idx_of m a = idx_of m b"
  note l = lists_okD(3) [OF managerD(2) [OF m(1)]]
  have f: "idx_of m (mg_false m) = 0" using l numberedD(3) [OF m(2)] by simp
  have pos: "c \<in> set (mg_indices m) \<Longrightarrow> 0 < idx_of m c" for c using l by simp
  consider "a = mg_false m" "b = mg_false m" | "a \<in> set (mg_indices m)" "b \<in> set (mg_indices m)"
    using a b e f pos [of a] pos [of b] by force
  then show "a = b"
  proof cases
    case 2
    then obtain i j where "i < length (mg_indices m)" "mg_indices m ! i = a" "j < length (mg_indices m)" "mg_indices m ! j = b"
      by (metis in_set_conv_nth)
    with e numberedD(1) [OF m(2), of i] numberedD(1) [OF m(2), of j] show ?thesis by simp
  qed simp
qed simp

section \<open>Balance\<close>

lemma init_manager:
  assumes a: "allocates f" and k: "k < 2147483648" and p: "even p" "p \<noteq> 0"
  shows "manager k (simpaig_init_mem f p) {#}"
proof -
  let ?m = "simpaig_init_mem f p"
  have N: "mg_nodes ?m = [p \<mapsto> simpaig0]" "mg_false ?m = p" "mg_table ?m = []" "mg_count ?m = 0" "mg_malloc ?m = f" by (simp_all add: simpaig_init_mem_def)
  have z: "STRIP 0 \<noteq> p" using p by simp
  have deg: "degree ?m {} a = (if a = 0 then 2 else 0)" for a by (simp add: degree_def N edges_def simpaig0_def)
  have r: "reads ?m (PFalse p)" using p by (simp add: N sg_key_def simpaig0_def)
  have "graph_ok ?m {}" unfolding graph_ok_def N using p r by (auto simp: simpaig0_def split: if_splits intro!: exI [of _ "PFalse p"])
  moreover have "counts_ok ?m {#} {}" unfolding counts_ok_def deg using p by (auto simp: N simpaig0_def split: if_splits)
  moreover have "table_ok ?m" unfolding table_ok_def N by simp
  moreover have at: "attrs ?m a = (0, 0, 0)" for a by (simp add: attrs_def N simpaig0_def)
  note fields_of [OF at]
  then have "lists_ok ?m" "listed ?m = {#}" by (simp_all add: lists_ok_def listed_def, simp_all add: simpaig_init_mem_def)
  ultimately show ?thesis using a k by (simp add: manager_def hinv_def N nodes_used_def)
qed

text \<open>
  When the client has given back all references, and the lists are empty, no node is left, unless a
  counter has reached its limit, where it stays.
\<close>

lemma no_leak:
  assumes m: "manager k m {#}" and l: "mg_cached m = []" "mg_assigned m = []" "mg_indices m = []" and r: "refs_below m K" "K < 4294967295"
  shows "dom (mg_nodes m) = {mg_false m}" "simpaig_current_nodes m = Some 0"
proof -
  have h: "hinv m {#} {}" using managerD(1) [OF m] l by (simp add: listed_def)
  note g = hinvD(1) [OF h]
  let ?f = "mg_false m"
  have f: "even ?f" "?f \<noteq> 0" using graph_okD(4,5) [OF g] by auto
  have "sg_ref n \<noteq> 4294967295" if "mg_nodes m a = Some n" for a n using r that unfolding refs_below_def by fastforce
  then have "dom (mg_nodes m) \<subseteq> {?f}" using no_garbage [OF h] by fastforce
  moreover have "?f \<in> dom (mg_nodes m)" using graph_okD(4) [OF g] by auto
  ultimately show D: "dom (mg_nodes m) = {?f}" by blast
  obtain n where n: "mg_nodes m ?f = Some n" "sg_c0 n = 0" "sg_c1 n = 0" using graph_okD(4) [OF g] by (auto simp: sg_key_def)
  have "degree m {} ?f = 0" using n f by (simp add: degree_def D edges_def)
  then have "sg_ref n = 0" using counts_okD(2) [OF hinvD(2) [OF h] n(1)] r n(1) unfolding refs_below_def by fastforce
  moreover have "mg_count m = 0" using table_okD(2,4) [OF hinvD(3) [OF h]] D by simp
  ultimately show "simpaig_current_nodes m = Some 0" using n by (simp add: simpaig_current_nodes_def u32_def)
qed

end
