(* ===== verification/SimpAigClient.thy ===== *)
theory SimpAigClient
  imports SimpAigIndex
begin

text \<open>
  The library as a whole: a client that holds a list of references and calls the constructors and
  \<open>simpaig_dec\<close> in any order sees Boolean functions. The specification keeps the functions only; the code
  keeps nodes, counters, and the hash table.
\<close>

section \<open>Calls\<close>

text \<open>A call names references by their positions in the list of the client; results go to its front.\<close>

datatype sg_call =
    CallFalse | CallTrue | CallVar ptr int | CallInc nat | CallDec nat | CallNot nat
  | CallAnd nat nat | CallOr nat nat | CallImplies nat nat | CallXor nat nat | CallXnor nat nat | CallIte nat nat nat

type_synonym bool_fun = "env \<Rightarrow> bool"

definition push2 :: "'a list \<Rightarrow> ('a \<times> 's) option \<Rightarrow> ('a list \<times> 's) option" where
  "push2 ps r = map_option (\<lambda>(p, m). (p # ps, m)) r"

fun call :: "sg_call \<Rightarrow> ptr list \<times> simpaigmgr \<Rightarrow> (ptr list \<times> simpaigmgr) option" where
  "call CallFalse (ps, m) = push2 ps (simpaig_false m)"
| "call CallTrue (ps, m) = push2 ps (simpaig_true m)"
| "call (CallVar v s) (ps, m) = push2 ps (simpaig_var m v s)"
| "call (CallInc i) (ps, m) = do { p \<leftarrow> deref ps i; push2 ps (simpaig_inc m p) }"
| "call (CallNot i) (ps, m) = do { p \<leftarrow> deref ps i; p \<leftarrow> simpaig_not m p; Some (ps[i := p], m) }"
| "call (CallDec i) (ps, m) = do { p \<leftarrow> deref ps i; m \<leftarrow> simpaig_dec m p; Some (take i ps @ drop (Suc i) ps, m) }"
| "call (CallAnd i j) (ps, m) = do { p \<leftarrow> deref ps i; q \<leftarrow> deref ps j; push2 ps (simpaig_and m p q) }"
| "call (CallOr i j) (ps, m) = do { p \<leftarrow> deref ps i; q \<leftarrow> deref ps j; push2 ps (simpaig_or m p q) }"
| "call (CallImplies i j) (ps, m) = do { p \<leftarrow> deref ps i; q \<leftarrow> deref ps j; push2 ps (simpaig_implies m p q) }"
| "call (CallXor i j) (ps, m) = do { p \<leftarrow> deref ps i; q \<leftarrow> deref ps j; push2 ps (simpaig_xor m p q) }"
| "call (CallXnor i j) (ps, m) = do { p \<leftarrow> deref ps i; q \<leftarrow> deref ps j; push2 ps (simpaig_xnor m p q) }"
| "call (CallIte i j k) (ps, m) = do { p \<leftarrow> deref ps i; q \<leftarrow> deref ps j; r \<leftarrow> deref ps k; push2 ps (simpaig_ite m p q r) }"

text \<open>The specification of a call, on functions of the variables.\<close>

fun spec_call :: "sg_call \<Rightarrow> bool_fun list \<Rightarrow> bool_fun list option" where
  "spec_call CallFalse fs = Some ((\<lambda>\<rho>. False) # fs)"
| "spec_call CallTrue fs = Some ((\<lambda>\<rho>. True) # fs)"
| "spec_call (CallVar v s) fs = (if v = 0 then None else Some ((\<lambda>\<rho>. \<rho> v s) # fs))"
| "spec_call (CallInc i) fs = do { f \<leftarrow> deref fs i; Some (f # fs) }"
| "spec_call (CallNot i) fs = do { f \<leftarrow> deref fs i; Some (fs[i := \<lambda>\<rho>. \<not> f \<rho>]) }"
| "spec_call (CallDec i) fs = do { f \<leftarrow> deref fs i; Some (take i fs @ drop (Suc i) fs) }"
| "spec_call (CallAnd i j) fs = do { f \<leftarrow> deref fs i; g \<leftarrow> deref fs j; Some ((\<lambda>\<rho>. f \<rho> \<and> g \<rho>) # fs) }"
| "spec_call (CallOr i j) fs = do { f \<leftarrow> deref fs i; g \<leftarrow> deref fs j; Some ((\<lambda>\<rho>. f \<rho> \<or> g \<rho>) # fs) }"
| "spec_call (CallImplies i j) fs = do { f \<leftarrow> deref fs i; g \<leftarrow> deref fs j; Some ((\<lambda>\<rho>. f \<rho> \<longrightarrow> g \<rho>) # fs) }"
| "spec_call (CallXor i j) fs = do { f \<leftarrow> deref fs i; g \<leftarrow> deref fs j; Some ((\<lambda>\<rho>. f \<rho> \<noteq> g \<rho>) # fs) }"
| "spec_call (CallXnor i j) fs = do { f \<leftarrow> deref fs i; g \<leftarrow> deref fs j; Some ((\<lambda>\<rho>. f \<rho> = g \<rho>) # fs) }"
| "spec_call (CallIte i j k) fs = do { f \<leftarrow> deref fs i; g \<leftarrow> deref fs j; h \<leftarrow> deref fs k; Some ((\<lambda>\<rho>. if f \<rho> then g \<rho> else h \<rho>) # fs) }"

definition denotes :: "simpaigmgr \<Rightarrow> ptr \<Rightarrow> bool_fun \<Rightarrow> bool" where
  "denotes m p f \<longleftrightarrow> (\<exists>t. reads m t \<and> root t = p \<and> (\<forall>\<rho>. pval \<rho> t = f \<rho>))"

text \<open>
  The simulation: the client's references denote the functions, and the manager holds exactly them, with
  room for three more nodes and three more references to a node per call that is left.
\<close>

definition simulates :: "nat \<Rightarrow> nat \<Rightarrow> ptr list \<times> simpaigmgr \<Rightarrow> bool_fun list \<Rightarrow> bool" where
  "simulates k K = (\<lambda>(ps, m) fs. manager (3 * k) m (mset ps) \<and> list_all2 (denotes m) ps fs \<and>
     mg_cached m = [] \<and> mg_assigned m = [] \<and> mg_indices m = [] \<and> refs_below m (3 * K))"

lemma denotes_grows: "grows m m' \<Longrightarrow> denotes m p f \<Longrightarrow> denotes m' p f"
  unfolding denotes_def using grows_reads by blast

lemma denotes_all: "grows m m' \<Longrightarrow> list_all2 (denotes m) ps fs \<Longrightarrow> list_all2 (denotes m') ps fs"
  using denotes_grows by (auto elim: list_all2_mono)

lemma simulates_push:
  assumes s: "simulates (Suc k) K (ps, m) fs" and w: "gives (3 * k) j m (mset ps) w m'" "j \<le> 3" "\<And>\<rho>. pval \<rho> w = f \<rho>"
  shows "simulates k (Suc K) (root w # ps, m') (f # fs)"
proof -
  have "denotes m' (root w) f" using givesD(2) [OF w(1)] w(3) unfolding denotes_def by blast
  moreover have "refs_below m' (3 * Suc K)"
    by (rule refs_below_mono [OF givesD(6) [OF w(1), where K = "3 * K"]]) (use s w(2) in \<open>simp_all add: simulates_def\<close>)
  ultimately show ?thesis
    using s givesD(1,3,4) [OF w(1)] denotes_all [OF givesD(3) [OF w(1)]] by (simp add: simulates_def quiet_def)
qed

lemma simulates_nth:
  assumes "simulates k K (ps, m) fs" "deref fs i = Some f"
  obtains t where "deref ps i = Some (root t)" "reads m t" "\<And>\<rho>. pval \<rho> t = f \<rho>" "root t \<in># mset ps"
proof -
  have i: "i < length fs" "fs ! i = f" using assms(2) by (auto simp: deref_def split: if_splits)
  have l: "length ps = length fs" "denotes m (ps ! i) (fs ! i)" using assms(1) i(1) by (auto simp: simulates_def list_all2_conv_all_nth)
  then obtain t where "reads m t" "root t = ps ! i" "\<forall>\<rho>. pval \<rho> t = f \<rho>" using i(2) unfolding denotes_def by blast
  with i l show thesis by (intro that [of t]) (simp_all add: deref_def)
qed

section \<open>The simulation\<close>

lemma inc_gives:
  assumes "manager k m F" "reads m t"
  shows "\<exists>m'. sg_inc (root t) m = Some m' \<and> gives k 1 m F t m'"
proof -
  obtain m' where m': "sg_inc (root t) m = Some m'" "manager k m' (add_mset (root t) F)" "grows m m'" "quiet m m'"
    "\<And>K. refs_below m K \<Longrightarrow> refs_below m' (Suc K)" using inc_manager [OF assms] by blast
  then show ?thesis using grows_reads [OF m'(3) assms(2)] by (auto simp: gives_def)
qed

lemma const_gives:
  assumes m: "manager k m F"
  shows "\<exists>m'. simpaig_false m = Some (mg_false m, m') \<and> simpaig_true m = Some (NOT_ptr (mg_false m), m') \<and> gives k 1 m F (PFalse (mg_false m)) m'"
proof -
  obtain m' where m': "sg_inc (mg_false m) m = Some m'" "gives k 1 m F (PFalse (mg_false m)) m'"
    using inc_gives [OF m graph_okD(4) [OF managerD(5) [OF m]]] by auto
  have "mg_false m' = mg_false m" using givesD(3) [OF m'(2)] by (simp add: grows_def)
  with m' show ?thesis by (simp add: simpaig_false_def simpaig_true_def)
qed

lemma simulates_manager: "simulates (Suc k) K (ps, m) fs \<Longrightarrow> j \<le> 3 \<Longrightarrow> manager (3 * k + j) m (mset ps)"
  by (rule manager_mono [where k = "3 * Suc k"]) (simp_all add: simulates_def)

lemma simulates_import:
  assumes "simulates k K (ps, m) fs" "p \<in># mset ps"
  shows "IMPORT m p = Some p"
  by (rule import_tree [OF managerD(1)]) (use assms in \<open>auto simp: simulates_def\<close>)

lemma simulates_dec:
  assumes s: "simulates (Suc k) K (ps, m) fs" and i: "deref fs i = Some f"
  shows "\<exists>m'. call (CallDec i) (ps, m) = Some (take i ps @ drop (Suc i) ps, m') \<and> simulates k (Suc K) (take i ps @ drop (Suc i) ps, m') (take i fs @ drop (Suc i) fs)"
proof -
  let ?ps = "take i ps @ drop (Suc i) ps" and ?fs = "take i fs @ drop (Suc i) fs"
  have l: "list_all2 (denotes m) ps fs" using s by (simp add: simulates_def)
  then have i': "i < length ps" using i by (auto simp: deref_def list_all2_lengthD split: if_splits)
  have "ps = take i ps @ ps ! i # drop (Suc i) ps" using i' by (simp add: id_take_nth_drop)
  then have ms: "mset ps = add_mset (ps ! i) (mset ?ps)" by (metis mset.simps(2) mset_append union_mset_add_mset_right)
  have M: "manager (3 * k) m (add_mset (ps ! i) (mset ?ps))" using simulates_manager [OF s, of 0] unfolding ms by simp
  obtain m' where m': "sg_dec m (ps ! i) = Some m'" "manager (3 * k) m' (mset ?ps)" "heap_shrinks m m'" "quiet m m'"
    "\<And>t. root t \<in># mset ?ps + listed m \<Longrightarrow> reads m t \<Longrightarrow> reads m' t" using dec_manager [OF M] by blast
  have "list_all2 (denotes m) ?ps ?fs" by (intro list_all2_appendI list_all2_takeI list_all2_dropI l)
  moreover have "denotes m' p f" if "denotes m p f" "p \<in> set ?ps" for p f
    using that m'(5) unfolding denotes_def by (metis set_mset_mset union_iff)
  ultimately have "list_all2 (denotes m') ?ps ?fs" by (rule list.rel_mono_strong)
  moreover have "refs_below m' (3 * Suc K)"
    by (rule refs_below_mono [OF refs_shrink [OF m'(3), where K = "3 * K"]]) (use s in \<open>simp_all add: simulates_def\<close>)
  ultimately have "simulates k (Suc K) (?ps, m') ?fs" using m'(2,4) s by (simp add: simulates_def quiet_def)
  moreover have "call (CallDec i) (ps, m) = Some (?ps, m')"
    using i' simulates_import [OF s, of "ps ! i"] m'(1) by (simp add: deref_def simpaig_dec_def)
  ultimately show ?thesis by blast
qed

lemma simulates_not:
  assumes s: "simulates (Suc k) K (ps, m) fs" and i: "deref fs i = Some f"
  shows "\<exists>ps'. call (CallNot i) (ps, m) = Some (ps', m) \<and> simulates k (Suc K) (ps', m) (fs[i := \<lambda>\<rho>. \<not> f \<rho>])"
proof -
  obtain t where t: "deref ps i = Some (root t)" "reads m t" "\<And>\<rho>. pval \<rho> t = f \<rho>" "root t \<in># mset ps" using simulates_nth [OF s i] by blast
  then have i': "i < length ps" "ps ! i = root t" by (auto simp: deref_def split: if_splits)
  have "manager (3 * k) m (add_mset (root t) (mset ps - {#root t#}))" using simulates_manager [OF s, of 0] t(4) by simp
  from manager_not [OF this] have "manager (3 * k) m (mset (ps[i := NOT_ptr (root t)]))" using i' by (simp add: mset_update)
  moreover have "denotes m (NOT_ptr (root t)) (\<lambda>\<rho>. \<not> f \<rho>)" unfolding denotes_def using t(2,3) by (intro exI [of _ "pnot t"]) simp
  then have "list_all2 (denotes m) (ps[i := NOT_ptr (root t)]) (fs[i := \<lambda>\<rho>. \<not> f \<rho>])"
    using s by (intro list_all2_update_cong) (simp_all add: simulates_def)
  moreover have "refs_below m (3 * Suc K)" by (rule refs_below_mono [where K = "3 * K"]) (use s in \<open>simp_all add: simulates_def\<close>)
  ultimately have "simulates k (Suc K) (ps[i := NOT_ptr (root t)], m) (fs[i := \<lambda>\<rho>. \<not> f \<rho>])" using s by (simp add: simulates_def)
  moreover have "call (CallNot i) (ps, m) = Some (ps[i := NOT_ptr (root t)], m)"
    using t(1) simulates_import [OF s t(4)] by (simp add: simpaig_not_def)
  ultimately show ?thesis by blast
qed

text \<open>Two operands, and a constructor that computes the right function of them.\<close>

definition computes ::
    "nat \<Rightarrow> nat \<Rightarrow> simpaigmgr \<Rightarrow> ptr multiset \<Rightarrow> (simpaigmgr \<Rightarrow> ptr \<Rightarrow> ptr \<Rightarrow> (ptr \<times> simpaigmgr) option) \<Rightarrow> (bool \<Rightarrow> bool \<Rightarrow> bool) \<Rightarrow> bool" where
  "computes k j m F con b \<longleftrightarrow> (\<forall>t u. reads m t \<longrightarrow> reads m u \<longrightarrow>
     (\<exists>w m'. con m (root t) (root u) = Some (root w, m') \<and> gives k j m F w m' \<and> (\<forall>\<rho>. pval \<rho> w \<longleftrightarrow> b (pval \<rho> t) (pval \<rho> u))))"

lemma connectives_compute:
  assumes "manager (k + 3) m F"
  shows "computes k 1 m F simpaig_and (\<lambda>x y. x \<and> y)" "computes k 1 m F simpaig_or (\<lambda>x y. x \<or> y)" "computes k 1 m F simpaig_implies (\<lambda>x y. x \<longrightarrow> y)"
    "computes k 3 m F simpaig_xor (\<lambda>x y. x \<noteq> y)" "computes k 3 m F simpaig_xnor (\<lambda>x y. x = y)"
proof -
  have m: "manager (k + 1) m F" by (rule manager_mono [OF assms]) simp
  show "computes k 1 m F simpaig_and (\<lambda>x y. x \<and> y)" unfolding computes_def using and_gives [OF m] by blast
  show "computes k 1 m F simpaig_or (\<lambda>x y. x \<or> y)" unfolding computes_def using or_gives [OF m] by blast
  show "computes k 1 m F simpaig_implies (\<lambda>x y. x \<longrightarrow> y)" unfolding computes_def using implies_gives [OF m] by blast
  show "computes k 3 m F simpaig_xor (\<lambda>x y. x \<noteq> y)" unfolding computes_def using xor_gives [OF assms] by blast
  show "computes k 3 m F simpaig_xnor (\<lambda>x y. x = y)" unfolding computes_def using xnor_gives [OF assms] by blast
qed

lemma simulates_binary:
  assumes s: "simulates (Suc k) K (ps, m) fs" and i: "deref fs i = Some f" "deref fs l = Some g"
    and op: "computes (3 * k) j m (mset ps) con b"
    and j: "j \<le> 3"
  shows "\<exists>ps' m'. (do { p \<leftarrow> deref ps i; q \<leftarrow> deref ps l; push2 ps (con m p q) }) = Some (ps', m') \<and> simulates k (Suc K) (ps', m') ((\<lambda>\<rho>. b (f \<rho>) (g \<rho>)) # fs)"
proof -
  obtain t where t: "deref ps i = Some (root t)" "reads m t" "\<And>\<rho>. pval \<rho> t = f \<rho>" using simulates_nth [OF s i(1)] by blast
  obtain u where u: "deref ps l = Some (root u)" "reads m u" "\<And>\<rho>. pval \<rho> u = g \<rho>" using simulates_nth [OF s i(2)] by blast
  obtain w m' where w: "con m (root t) (root u) = Some (root w, m')" "gives (3 * k) j m (mset ps) w m'" "\<forall>\<rho>. pval \<rho> w \<longleftrightarrow> b (pval \<rho> t) (pval \<rho> u)"
    using op t(2) u(2) unfolding computes_def by blast
  have "simulates k (Suc K) (root w # ps, m') ((\<lambda>\<rho>. b (f \<rho>) (g \<rho>)) # fs)" by (rule simulates_push [OF s w(2) j]) (simp add: w(3) t(3) u(3))
  then show ?thesis using t(1) u(1) w(1) by (simp add: push2_def)
qed

lemma call_simulates:
  assumes s: "simulates (Suc k) K (ps, m) fs" and c: "spec_call c fs = Some gs"
  shows "\<exists>ps' m'. call c (ps, m) = Some (ps', m') \<and> simulates k (Suc K) (ps', m') gs"
proof (cases c)
  case CallFalse
  obtain m' where m': "simpaig_false m = Some (mg_false m, m')" "gives (3 * k) 1 m (mset ps) (PFalse (mg_false m)) m'"
    using const_gives [OF simulates_manager [OF s, of 0]] by auto
  from simulates_push [OF s m'(2), of "\<lambda>\<rho>. False"] show ?thesis using m'(1) c CallFalse by (auto simp: push2_def)
next
  case CallTrue
  obtain m' where m': "simpaig_true m = Some (NOT_ptr (mg_false m), m')" "gives (3 * k) 1 m (mset ps) (PFalse (mg_false m)) m'"
    using const_gives [OF simulates_manager [OF s, of 0]] by auto
  from simulates_push [OF s gives_not [OF m'(2)], of "\<lambda>\<rho>. True"] show ?thesis using m'(1) c CallTrue by (auto simp: push2_def)
next
  case (CallVar v i)
  obtain a m' where m': "simpaig_var m v i = Some (a, m')" "gives (3 * k) 1 m (mset ps) (PVar a v i) m'"
    using var_gives [OF simulates_manager [OF s, of 1], of v i] c CallVar by (auto split: if_splits)
  from simulates_push [OF s m'(2), of "\<lambda>\<rho>. \<rho> v i"] show ?thesis using m'(1) c CallVar by (auto simp: push2_def split: if_splits)
next
  case (CallInc i)
  then obtain f where f: "deref fs i = Some f" "gs = f # fs" using c by (auto simp: bind_eq_Some_conv)
  obtain t where t: "deref ps i = Some (root t)" "reads m t" "\<And>\<rho>. pval \<rho> t = f \<rho>" "root t \<in># mset ps" using simulates_nth [OF s f(1)] by blast
  have M: "manager (3 * k) m (mset ps)" using simulates_manager [OF s, of 0] by simp
  obtain m' where m': "sg_inc (root t) m = Some m'" "gives (3 * k) 1 m (mset ps) t m'" using inc_gives [OF M t(2)] by blast
  from simulates_push [OF s m'(2), of f] show ?thesis
    using m'(1) CallInc f(2) t(1,3) simulates_import [OF s t(4)] by (auto simp: push2_def simpaig_inc_def)
next
  case (CallDec i)
  then obtain f where f: "deref fs i = Some f" "gs = take i fs @ drop (Suc i) fs" using c by (auto simp: bind_eq_Some_conv)
  show ?thesis using simulates_dec [OF s f(1)] CallDec f(2) by blast
next
  case (CallNot i)
  then obtain f where f: "deref fs i = Some f" "gs = fs[i := \<lambda>\<rho>. \<not> f \<rho>]" using c by (auto simp: bind_eq_Some_conv)
  show ?thesis using simulates_not [OF s f(1)] CallNot f(2) by blast
next
  case (CallAnd i j)
  then obtain f g where f: "deref fs i = Some f" "deref fs j = Some g" "gs = (\<lambda>\<rho>. f \<rho> \<and> g \<rho>) # fs" using c by (auto simp: bind_eq_Some_conv)
  show ?thesis using simulates_binary [OF s f(1,2) connectives_compute(1) [OF simulates_manager [OF s, of 3]]] CallAnd f(3) by simp
next
  case (CallOr i j)
  then obtain f g where f: "deref fs i = Some f" "deref fs j = Some g" "gs = (\<lambda>\<rho>. f \<rho> \<or> g \<rho>) # fs" using c by (auto simp: bind_eq_Some_conv)
  show ?thesis using simulates_binary [OF s f(1,2) connectives_compute(2) [OF simulates_manager [OF s, of 3]]] CallOr f(3) by simp
next
  case (CallImplies i j)
  then obtain f g where f: "deref fs i = Some f" "deref fs j = Some g" "gs = (\<lambda>\<rho>. f \<rho> \<longrightarrow> g \<rho>) # fs" using c by (auto simp: bind_eq_Some_conv)
  show ?thesis using simulates_binary [OF s f(1,2) connectives_compute(3) [OF simulates_manager [OF s, of 3]]] CallImplies f(3) by simp
next
  case (CallXor i j)
  then obtain f g where f: "deref fs i = Some f" "deref fs j = Some g" "gs = (\<lambda>\<rho>. f \<rho> \<noteq> g \<rho>) # fs" using c by (auto simp: bind_eq_Some_conv)
  show ?thesis using simulates_binary [OF s f(1,2) connectives_compute(4) [OF simulates_manager [OF s, of 3]]] CallXor f(3) by simp
next
  case (CallXnor i j)
  then obtain f g where f: "deref fs i = Some f" "deref fs j = Some g" "gs = (\<lambda>\<rho>. f \<rho> = g \<rho>) # fs" using c by (auto simp: bind_eq_Some_conv)
  show ?thesis using simulates_binary [OF s f(1,2) connectives_compute(5) [OF simulates_manager [OF s, of 3]]] CallXnor f(3) by simp
next
  case (CallIte i j l)
  then obtain f g h where f: "deref fs i = Some f" "deref fs j = Some g" "deref fs l = Some h" "gs = (\<lambda>\<rho>. if f \<rho> then g \<rho> else h \<rho>) # fs"
    using c by (auto simp: bind_eq_Some_conv)
  obtain t where t: "deref ps i = Some (root t)" "reads m t" "\<And>\<rho>. pval \<rho> t = f \<rho>" using simulates_nth [OF s f(1)] by blast
  obtain u where u: "deref ps j = Some (root u)" "reads m u" "\<And>\<rho>. pval \<rho> u = g \<rho>" using simulates_nth [OF s f(2)] by blast
  obtain x where x: "deref ps l = Some (root x)" "reads m x" "\<And>\<rho>. pval \<rho> x = h \<rho>" using simulates_nth [OF s f(3)] by blast
  obtain w m' where w: "simpaig_ite m (root t) (root u) (root x) = Some (root w, m')" "gives (3 * k) 3 m (mset ps) w m'"
    "\<forall>\<rho>. pval \<rho> w \<longleftrightarrow> (if pval \<rho> t then pval \<rho> u else pval \<rho> x)" using ite_gives [OF simulates_manager [OF s, of 3] t(2) u(2) x(2)] by auto
  have "simulates k (Suc K) (root w # ps, m') gs" unfolding f(4) by (rule simulates_push [OF s w(2)]) (simp_all add: w(3) t(3) u(3) x(3))
  then show ?thesis using t(1) u(1) x(1) w(1) CallIte by (simp add: push2_def)
qed

section \<open>Sessions\<close>

definition session :: "sg_call list \<Rightarrow> ptr list \<times> simpaigmgr \<Rightarrow> (ptr list \<times> simpaigmgr) option" where
  "session = foldm call"

definition spec_session :: "sg_call list \<Rightarrow> bool_fun list \<Rightarrow> bool_fun list option" where
  "spec_session = foldm spec_call"

lemma session_simulates:
  "simulates (k + length cs) K (ps, m) fs \<Longrightarrow> spec_session cs fs = Some gs \<Longrightarrow>
    \<exists>ps' m'. session cs (ps, m) = Some (ps', m') \<and> simulates k (K + length cs) (ps', m') gs"
proof (induction cs arbitrary: K ps m fs)
  case Nil
  then show ?case by (simp add: session_def spec_session_def)
next
  case (Cons c cs)
  obtain hs where hs: "spec_call c fs = Some hs" "spec_session cs hs = Some gs" using Cons.prems(2) by (auto simp: spec_session_def bind_eq_Some_conv)
  obtain ps1 m1 where m1: "call c (ps, m) = Some (ps1, m1)" "simulates (k + length cs) (Suc K) (ps1, m1) hs"
    using call_simulates [of "k + length cs" K ps m fs c hs] Cons.prems(1) hs(1) by auto
  from Cons.IH [OF m1(2) hs(2)] m1(1) show ?case by (auto simp: session_def)
qed

lemma init_simulates:
  assumes "allocates f" "3 * k < 2147483648" "even p" "p \<noteq> 0"
  shows "simulates k 0 ([], simpaig_init_mem f p) []"
proof -
  have "refs_below (simpaig_init_mem f p) 0" by (simp add: refs_below_def simpaig_init_mem_def simpaig0_def)
  with init_manager [OF assms(1,2,3,4)] show ?thesis by (simp add: simulates_def, simp add: simpaig_init_mem_def)
qed

end
