(* ===== verification/SimpAigDemo.thy ===== *)
theory SimpAigDemo
  imports SimpAigClient "HOL-Library.Code_Target_Nat"
begin

text \<open>
  A memory for the library, and sessions that are evaluated in the kernel; the witnesses of the
  properties apply them to it.
\<close>

section \<open>A memory\<close>

function first_free :: "nat \<Rightarrow> ptr \<Rightarrow> sg_heap \<Rightarrow> ptr" where
  "first_free n a h = (if n = 0 then 0 else if h a = None then a else first_free (n - 1) (a + 2) h)"
  by auto

termination by (relation "measure (\<lambda>(n, a, h). n)") auto

declare first_free.simps [simp del]

definition demo_malloc :: "nat \<Rightarrow> sg_heap \<Rightarrow> ptr" where
  "demo_malloc c h = first_free 2147483649 100 h"

lemma first_free_found:
  assumes "finite (dom h)" "even a" "a \<noteq> 0" "card (dom h \<inter> {a..}) < n"
  shows "even (first_free n a h) \<and> first_free n a h \<noteq> 0 \<and> first_free n a h \<notin> dom h"
  using assms
proof (induction n arbitrary: a)
  case (Suc n)
  show ?case
  proof (cases "h a = None")
    case True
    then show ?thesis using Suc.prems by (subst (1 2 3) first_free.simps) auto
  next
    case False
    have "a \<in> dom h \<inter> {a..}" "a \<notin> dom h \<inter> {a + 2..}" "dom h \<inter> {a + 2..} \<subseteq> dom h \<inter> {a..}" using False by auto
    then have "dom h \<inter> {a + 2..} \<subset> dom h \<inter> {a..}" by blast
    then have "card (dom h \<inter> {a + 2..}) < card (dom h \<inter> {a..})" using Suc.prems(1) by (intro psubset_card_mono) auto
    then have "card (dom h \<inter> {a + 2..}) < n" using Suc.prems(4) by simp
    moreover have "first_free (Suc n) a h = first_free n (a + 2) h" using False by (subst first_free.simps) auto
    ultimately show ?thesis using Suc.IH [of "a + 2"] Suc.prems by simp
  qed
qed simp

lemma demo_allocates: "allocates demo_malloc"
  unfolding allocates_def demo_malloc_def
proof (intro allI impI)
  fix h :: sg_heap assume h: "finite (dom h)" "card (dom h) < 2147483648"
  have "card (dom h \<inter> {100..}) \<le> card (dom h)" using h(1) by (intro card_mono) auto
  then show "even (first_free 2147483649 100 h) \<and> first_free 2147483649 100 h \<noteq> 0 \<and> first_free 2147483649 100 h \<notin> dom h"
    using h by (intro first_free_found) auto
qed

section \<open>Sessions\<close>

definition demo_calls :: "sg_call list" where
  "demo_calls = [CallVar 8 0, CallVar 16 0, CallVar 24 0, CallAnd 2 0]"

definition demo_state :: "ptr list \<times> simpaigmgr" where
  "demo_state = the (session demo_calls ([], simpaig_init_mem demo_malloc 64))"

definition demo_refs :: "ptr list" where "demo_refs = fst demo_state"
definition demo_mgr :: simpaigmgr where "demo_mgr = snd demo_state"

lemma demo_session: "session demo_calls ([], simpaig_init_mem demo_malloc 64) = Some (demo_refs, demo_mgr)"
proof -
  have "map_option fst (session demo_calls ([], simpaig_init_mem demo_malloc 64)) = Some [106, 104, 102, 100]" by code_simp
  then show ?thesis unfolding demo_refs_def demo_mgr_def demo_state_def by auto
qed

lemma demo_refs: "demo_refs = [106, 104, 102, 100]"
  by code_simp

text \<open>The variables \<open>x\<close>, \<open>y\<close>, \<open>z\<close> at 100, 102, 104, and the conjunction of \<open>x\<close> and \<open>z\<close> at 106.\<close>

definition demo_x :: ptree where "demo_x = PVar 100 8 0"
definition demo_y :: ptree where "demo_y = PVar 102 16 0"
definition demo_z :: ptree where "demo_z = PVar 104 24 0"
definition demo_and :: ptree where "demo_and = PAnd 106 demo_x demo_z"

lemma demo_reads: "reads demo_mgr demo_x" "reads demo_mgr demo_y" "reads demo_mgr demo_z" "reads demo_mgr demo_and"
  unfolding demo_x_def demo_y_def demo_z_def demo_and_def by code_simp+

lemma demo_simulates: "\<exists>fs. simulates 100 4 (demo_refs, demo_mgr) fs"
proof -
  have i: "simulates (100 + length demo_calls) 0 ([], simpaig_init_mem demo_malloc 64) []"
    by (rule init_simulates [OF demo_allocates]) (simp_all add: demo_calls_def)
  have "spec_session demo_calls [] \<noteq> None" by (simp add: demo_calls_def spec_session_def deref_def)
  then obtain fs where "spec_session demo_calls [] = Some fs" by blast
  from session_simulates [OF i this] have "simulates 100 (length demo_calls) (demo_refs, demo_mgr) fs" unfolding demo_session by simp
  then have "simulates 100 4 (demo_refs, demo_mgr) fs" by (simp add: demo_calls_def eval_nat_numeral)
  then show ?thesis by blast
qed

lemma demo_manager:
  "manager 300 demo_mgr {#106, 104, 102, 100#}" "mg_cached demo_mgr = []" "mg_assigned demo_mgr = []" "mg_indices demo_mgr = []"
proof -
  obtain fs where "simulates 100 4 (demo_refs, demo_mgr) fs" using demo_simulates by blast
  then have "manager (3 * 100) demo_mgr (mset demo_refs) \<and> list_all2 (denotes demo_mgr) demo_refs fs \<and>
     mg_cached demo_mgr = [] \<and> mg_assigned demo_mgr = [] \<and> mg_indices demo_mgr = [] \<and> refs_below demo_mgr (3 * 4)"
    by (simp only: simulates_def prod.case)
  then have s: "manager (3 * 100) demo_mgr (mset demo_refs)" "mg_cached demo_mgr = []" "mg_assigned demo_mgr = []" "mg_indices demo_mgr = []"
    by simp_all
  show "manager 300 demo_mgr {#106, 104, 102, 100#}" using s(1) unfolding demo_refs by simp
  show "mg_cached demo_mgr = []" "mg_assigned demo_mgr = []" "mg_indices demo_mgr = []" by (fact s)+
qed

definition demo_assignment :: assignment where
  "demo_assignment v s = (if v = 8 \<and> s = 0 then Some demo_y else None)"

lemma demo_assigned:
  "\<exists>m. simpaig_assign demo_mgr 100 102 = Some m \<and> manager 300 m {#106, 104, 102, 100#} \<and> mg_cached m = [] \<and>
     carries demo_assignment {100, 102, 104, 106} m \<and> reads m demo_and"
proof -
  note m = demo_manager(1)
  have none: "rhs_of demo_mgr a = 0" "cache_of demo_mgr a = 0" for a
    using lists_okD(1,2) [OF managerD(2) [OF m], of a] demo_manager(2,3) by simp_all
  obtain m1 where m1: "simpaig_assign demo_mgr 100 (root demo_y) = Some m1" "manager 300 m1 {#106, 104, 102, 100#}" "grows demo_mgr m1"
      "rhs_of m1 = (rhs_of demo_mgr)(100 := root demo_y)" "mg_cached m1 = mg_cached demo_mgr"
    using assign_correct [OF m demo_reads(1) [unfolded demo_x_def] _ demo_reads(2) _ none(1,2)] by (auto simp: demo_y_def)
  have r: "reads m1 demo_x" "reads m1 demo_y" "reads m1 demo_z" "reads m1 demo_and" using grows_reads [OF m1(3)] demo_reads by blast+
  have "carries demo_assignment {100, 102, 104, 106} m1"
    unfolding carries_def
  proof (intro conjI allI impI)
    show "{100, 102, 104, 106} \<subseteq> dom (mg_nodes m1)"
      using reads_addrs(2) [OF r(1)] reads_addrs(2) [OF r(2)] reads_addrs(2) [OF r(3)] reads_addrs(2) [OF r(4)]
      by (auto simp: demo_x_def demo_y_def demo_z_def demo_and_def)
    fix a v s assume a: "a \<in> {100, 102, 104, 106}" and t: "reads m1 (PVar a v s)"
    consider "PVar a v s = demo_x" | "PVar a v s = demo_y" | "PVar a v s = demo_z"
      using a reads_unique [OF t r(1)] reads_unique [OF t r(2)] reads_unique [OF t r(3)] reads_unique [OF t r(4)]
      by (auto simp: demo_x_def demo_y_def demo_z_def demo_and_def)
    then show "case demo_assignment v s of None \<Rightarrow> rhs_of m1 a = 0 | Some u \<Rightarrow> rhs_of m1 a = root u \<and> reads m1 u \<and> addrs u \<subseteq> {100, 102, 104, 106}"
      using r(2) by cases (auto simp: demo_assignment_def demo_x_def demo_y_def demo_z_def m1(4) none)
  qed
  then show ?thesis using m1 r(4) demo_manager(2) by (auto simp: demo_y_def)
qed

text \<open>
  \<open>simpaig_reset\<close> visits \<open>count_table\<close> buckets and not \<open>size_table\<close>: a node in a later bucket is not freed.
\<close>

lemma reset_leaks:
  "map_option (\<lambda>(ps, m). (ps, length (mg_table m), mg_count m, map_option (\<lambda>h. map (\<lambda>a. h a \<noteq> None) ps) (simpaig_reset m)))
     (session [CallVar 8 0, CallVar 8 1, CallDec 1] ([], simpaig_init_mem demo_malloc 64)) = Some ([102], 2, 1, Some [True])"
  by code_simp

end
