(* ===== verification/Spec2Isabelle.thy ===== *)
theory Spec2Isabelle
  imports AigerDemo SimpAigDemo
begin

text \<open>
  AIGER: the library and tools for And-Inverter Graphs that the repository carries under
  \<open>src/pyivy/ivy/submodules/aiger/\<close>, written in C.

  An AIG is a list of inputs, of latches with a next state and a reset, of and gates over literals
  (twice the variable, plus one for a negation), and of literals that are outputs, bad states,
  constraints, justice sets and fairness constraints. The library (\<open>aiger.c\<close>, \<open>aiger.h\<close>) builds
  such structures through an API of calls, checks them, renumbers them, writes them in an ASCII and
  a binary format, and reads them. The tools are programs around it: they read a structure, build
  another one through the API, and write it.

  \<^bold>\<open>Theories and sources.\<close>

  \<^item> \<^verbatim>\<open>AigerPrelude\<close>: unsigned 32-bit arithmetic on natural numbers (\<open>u32\<close> is the wrap-around),
    failed assertions as \<open>None\<close>, \<open>printf\<close>'s decimal output, character classes, loops.
  \<^item> \<^verbatim>\<open>AigerTypes\<close>, \<^verbatim>\<open>AigerBuild\<close>: the structs of \<open>aiger.h\<close> as records, the private part with its
    type table, error messages; \<open>aiger_init\<close> and \<open>aiger_add_*\<close>; the invariant \<open>wf_aiger\<close>.
  \<^item> \<^verbatim>\<open>AigerSem\<close>: the reference semantics of an AIG (no code): values, runs, \<open>behaviours\<close>, the
    dependency graph of gates.
  \<^item> \<^verbatim>\<open>AigerCheck\<close>: \<open>aiger_check\<close>, with the search for cycles on an explicit stack.
  \<^item> \<^verbatim>\<open>AigerQuery\<close>: lookups and \<open>aiger_strip_symbols_and_comments\<close>.
  \<^item> \<^verbatim>\<open>AigerWrite\<close>, \<^verbatim>\<open>AigerBinary\<close>: the writers over a callback. The locale \<open>sink\<close> states what a
    callback promises; the file and the string callback of the library are its interpretations.
  \<^item> \<^verbatim>\<open>AigerReencode\<close> and \<^verbatim>\<open>AigerReencodeSearch\<close>, \<^verbatim>\<open>AigerReencodeProof\<close>, \<^verbatim>\<open>AigerReencodeCorrect\<close>,
    \<^verbatim>\<open>AigerReencodeResult\<close>: \<open>aiger_reencode\<close> and its correctness, in stages (the search, the code
    table, the new type table, the result).
  \<^item> \<^verbatim>\<open>AigerRead\<close>: the reader as functions on the structure and the reader's state, which abort
    (failed assertion, undefined behaviour), fail with an error, or go on. \<^verbatim>\<open>AigerParse\<close>,
    \<^verbatim>\<open>AigerReadBack\<close>, \<^verbatim>\<open>AigerReadStages\<close>, \<^verbatim>\<open>AigerReadCore\<close>, \<^verbatim>\<open>AigerReadNames\<close>,
    \<^verbatim>\<open>AigerRoundTrip\<close>: what the writers wrote is read back. \<^verbatim>\<open>AigerReadSafe\<close>: what the reader
    returns for any input. \<^verbatim>\<open>AigerReadEnds\<close>: the loop over the symbol table ends. \<^verbatim>\<open>AigerReadReset\<close>:
    the latch lines on which the reader fails an assertion.
  \<^item> \<^verbatim>\<open>AigerClient\<close>: the API as its clients use it, on the public part of the structure.
  \<^item> \<^verbatim>\<open>AigerTools\<close>: \<open>aigand.c\<close>, \<open>aigor.c\<close>, \<open>aigflip.c\<close> and \<open>aigselect.c\<close>; \<^verbatim>\<open>AigerToolsSem\<close>,
    \<^verbatim>\<open>AigerToolsCorrect\<close>, \<^verbatim>\<open>AigerToolsEffect\<close>: their effect on behaviours, and the locale \<open>tool\<close>,
    which turns a correct construction into a correct program; the tools are its interpretations.
  \<^item> \<^verbatim>\<open>AigerFilters\<close>: \<open>aigreset.c\<close>, \<open>aigmove.c\<close> and \<open>aigunconstraint.c\<close>; \<^verbatim>\<open>AigerReset\<close>,
    \<^verbatim>\<open>AigerMonitor\<close>, \<^verbatim>\<open>AigerFiltersCorrect\<close>: normal resets, the latch that remembers whether the
    constraints have held, and which bad states stay reachable. \<^verbatim>\<open>AigerInPlace\<close>: \<open>aigstrip.c\<close> with the
    files of a directory, and what becomes of the circuit.
  \<^item> \<^verbatim>\<open>AigerRenumbered\<close>: what clients use of a structure after \<open>aiger_reencode\<close>: inputs, latches and
    gates are numbered without gaps, values follow from the sources, runs can be extended and closed
    to a loop.
  \<^item> \<^verbatim>\<open>AigerCnf\<close>, \<^verbatim>\<open>AigerCnfCorrect\<close>: \<open>aigtocnf.c\<close>, that its formula is satisfiable exactly when
    the output can be one, and what its header announces without the polarity optimisation.
  \<^item> \<^verbatim>\<open>AigerSim\<close>: \<open>aigsim.c\<close> as steps on the stimulus that is left, \<open>last\<close>, and the text printed, in an
    error monad; \<^verbatim>\<open>AigerSimStep\<close>, \<^verbatim>\<open>AigerSimCorrect\<close>: a cycle of the simulation is a step of a run,
    and what an accepted witness shows.
  \<^item> \<^verbatim>\<open>SimpAig\<close>: the library \<open>simpaig.c\<close> of graphs in memory, with its heap, reference counts and hash
    table. \<^verbatim>\<open>SimpAigHeap\<close>, \<^verbatim>\<open>SimpAigDec\<close>, \<^verbatim>\<open>SimpAigBuild\<close>, \<^verbatim>\<open>SimpAigAnd\<close>: what a pointer denotes, the
    invariant of the heap, and that giving back references, new nodes and the conjunction keep it.
    \<^verbatim>\<open>SimpAigMemo\<close>, \<^verbatim>\<open>SimpAigReset\<close>: the locale \<open>memo_pass\<close> of passes with a cache, and the locale
    \<open>entries\<close> of lists that are emptied; \<^verbatim>\<open>SimpAigShift\<close>, \<^verbatim>\<open>SimpAigSubst\<close>, \<^verbatim>\<open>SimpAigAssign\<close>, \<^verbatim>\<open>SimpAigIndex\<close>:
    shifting, substitution and indices as their interpretations. \<^verbatim>\<open>SimpAigConn\<close>, \<^verbatim>\<open>SimpAigClient\<close>: the
    connectives, and sessions of a client as a refinement of Boolean functions. \<^verbatim>\<open>SimpAigDemo\<close>: a memory
    and sessions for the witnesses.
  \<^item> \<^verbatim>\<open>AigerContracts\<close>: assertions of the API, buffers, files, strings, numbers.
  \<^item> \<^verbatim>\<open>AigerDemo\<close>: circuits built through the API, on which the witnesses apply the properties.

  \<^bold>\<open>Correspondence.\<close> A definition has the name of its C function, with the structure passed and
  returned. \<open>aiger_private\<close> extends \<open>aiger\<close> as in C, so \<open>aiger.truncate\<close> is the public part.
  Arrays with a counter are lists; their capacity is not part of the model, except for the type
  table, whose length decides which variables may be looked up. A missing string is \<open>None\<close>. A
  callback takes the character and the client's state and returns C's \<open>int\<close> with the new state.
  An assertion that fails, and an access outside an array, are \<open>None\<close> or \<open>Abort\<close>.

  \<^bold>\<open>Files.\<close> A stream (\<open>c_file\<close>) is what its writer sees: the characters accepted so far, and how many it
  will still accept before \<open>putc\<close> or \<open>fputs\<close> report an error. The streams of C are buffered: what has
  been accepted reaches the file when the stream is closed. The environment of the tools says what
  closing a stream leaves in the file (\<open>env_close\<close>): any content, because \<open>fclose\<close> and \<open>pclose\<close> may
  fail, and \<open>aiger_open_and_write_to_file\<close> ignores their results. Theorems about the standard
  output speak of the characters that the stream accepted; they are flushed at exit.

  \<^bold>\<open>Search marks.\<close> \<open>aiger_check\<close> marks the gates it has searched, and no function clears the marks.
  The theorems that need a check to be complete therefore assume \<open>clean_marks\<close> (it is part of \<open>checked\<close>
  and \<open>portable\<close>): every marked gate only depends on gates without a cycle. A structure without marks is
  clean, and a successful check leaves a clean structure. A client that rewires gates after a check may break it, and
  the next check then misses cycles (\<open>stale_marks\<close>).

  \<^bold>\<open>Formats.\<close> \<open>sprintf\<close> knows the plain conversions \<open>%u\<close> and \<open>%s\<close>, the only ones in the formats of the error
  functions (\<open>source_formats\<close>); \<open>format_args\<close> says which formats it is right for.

  \<^bold>\<open>Bounds and termination.\<close> Literals are unsigned 32-bit: a structure that a client builds has variables
  below \<open>2 ^ 31\<close>. Renumbering compares literals as signed integers, so its theorems are for
  variables below \<open>2 ^ 30\<close>. No definition takes fuel. Loops
  are structural or have a termination measure; the search of \<open>aiger_reencode\<close> and the recursions of
  \<open>simpaig\<close> over the heap are partial functions (\<open>None\<close> when they do not return), and the theorems show
  that they return.
  The theorems on \<open>aigtocnf\<close> are for fewer than 715827882 variables, so that the reference counts,
  at most three for every gate, do not wrap; those on \<open>aigsim\<close> for models below \<open>2 ^ 30\<close> and stimuli
  of fewer than 4294967290 characters, so that the counter of time points does not wrap. \<open>malloc\<close> is
  assumed to return free, aligned addresses as long as fewer than \<open>2 ^ 31\<close> nodes of \<open>simpaig\<close> are in
  use; counters of references that reach their limit are covered by the invariant.

  \<^bold>\<open>Not modelled.\<close> Allocation and deallocation (\<open>aiger_reset\<close>, the memory callbacks), the version
  strings, the messages of verbose mode, and the other tools of the directory; the environment of
  the tools (opening files and pipes, the terminal) is a parameter. The rest of the repository is
  not in C (the language in Python and Go) or vendored (ABC, picotls, Z3).
\<close>

section \<open>Properties\<close>

text \<open>C1: Renumbering keeps the circuit. On a structure that passes the check and has between one and
  \<open>2 ^ 30 - 1\<close> variables, \<open>aiger_reencode\<close>
  returns (no assertion fails), what it returns is reencoded, has the same sequential behaviours
  as observed at inputs, latches, outputs, bad states, constraints, justice and fairness
  literals, and keeps all names and comments.\<close>

theorem reencode_preserves:
  assumes "checked p" "0 < maxvar p" "maxvar p < 1073741824"
  shows "\<exists>q. aiger_reencode p = Some q \<and> aiger_is_reencoded q = Some True \<and>
     behaviours q = behaviours p \<and> error q = None \<and>
     map sym_name (all_symbols q) = map sym_name (all_symbols p) \<and> comments q = comments p"
  using reencode_ready [OF assms] is_reencoded_eq by (fastforce simp: binary_ready_def)

theorem reencode_preserves_witness:
  "\<exists>q. aiger_reencode demo = Some q \<and> aiger_is_reencoded q = Some True \<and> behaviours q = behaviours demo"
  using reencode_preserves [OF demo_checked] by (auto simp: demo_maxvar)

text \<open>C2: The check is correct and complete. On a well-formed structure without a pending error, and with
  clean marks, it returns; it reports an error exactly when a literal is used but not defined or the
  gates depend on each other in a cycle; it changes nothing but the error and the search marks, and
  it leaves clean marks when it reports nothing. Marks are clean (\<open>clean_marks\<close>) when every marked
  gate only depends on gates without a cycle, so in particular when there are none. The code never clears
  them: a client that rewires gates after a check may close a cycle that the next check misses.\<close>

theorem check_decides:
  assumes "wf_aiger p" "error p = None" "clean_marks p"
  shows "\<exists>q. aiger_check p = Some q \<and> same_core p q \<and>
     (aiger_error q = None \<longleftrightarrow> all_defined p \<and> acyclic (deps p)) \<and> (aiger_error q = None \<longrightarrow> clean_marks q)"
  using aiger_check_spec [OF assms] by (auto simp: aiger_error_def)

theorem check_decides_witness:
  "\<exists>q. aiger_check demo = Some q \<and> same_core demo q \<and> (aiger_error q = None \<longleftrightarrow> all_defined demo \<and> acyclic (deps demo))"
proof -
  obtain q where "aiger_check demo = Some q" "same_core demo q" "aiger_error q = None \<longleftrightarrow> all_defined demo \<and> acyclic (deps demo)"
    using check_decides [OF demo_wf demo_error demo_clean] by (elim exE conjE)
  then show ?thesis by (intro exI conjI)
qed

text \<open>C3: The ASCII format round-trips through a file. Writing a portable structure to an empty file
  succeeds exactly when the text fits; reading the file back then gives, without an error, the same
  public structure (without names and comments in stripped mode).\<close>

theorem ascii_file_round_trip:
  assumes "portable p" "mode AND aiger_ascii_mode \<noteq> 0" "file_data file = []"
  shows "\<exists>ok q f u. aiger_write_to_file p mode file = Some (ok, q, f) \<and>
     (ok \<longleftrightarrow> length (ascii_text p @ mode_trailer mode p) \<le> file_room file) \<and>
     (ok \<longrightarrow> aiger_read_from_file aiger_init (file_data f) = Some u \<and> aiger_error u = None \<and>
        aiger.truncate u = (if mode AND aiger_stripped_mode \<noteq> 0 then nameless p else aiger.truncate p))"
  using write_file_ascii [OF assms] ascii_round_trip [OF assms(1), of mode] by (fastforce simp: read_file_init aiger_error_def)

theorem ascii_file_round_trip_witness:
  "\<exists>q f u. aiger_write_to_file demo aiger_ascii_mode \<lparr>file_data = [], file_room = 200\<rparr> = Some (True, q, f) \<and>
     aiger_read_from_file aiger_init (file_data f) = Some u \<and> aiger.truncate u = aiger.truncate demo"
proof -
  have "map_option fst (aiger_write_to_file demo aiger_ascii_mode \<lparr>file_data = [], file_room = 200\<rparr>) = Some True"
    by code_simp
  with ascii_file_round_trip [OF demo_portable, of aiger_ascii_mode "\<lparr>file_data = [], file_room = 200\<rparr>"]
  show ?thesis by (auto simp: aiger_ascii_mode_def aiger_stripped_mode_def)
qed

text \<open>C4: The binary format round-trips through a file. The writer renumbers the structure into one
  with the same behaviours; reading the file back gives exactly the public part of that one. A
  structure that is not renumbered, because it is already ordered, has to use every variable.\<close>

theorem binary_file_round_trip:
  assumes "portable p" "0 < maxvar p" "maxvar p < 1073741824" "mode AND aiger_ascii_mode = 0"
    "reencoded_form p \<longrightarrow> maxvar p = length (inputs p) + length (latches p) + length (ands p)"
    "file_data file = []"
  shows "\<exists>ok q f u. aiger_write_to_file p mode file = Some (ok, q, f) \<and> behaviours q = behaviours p \<and>
     (ok \<longleftrightarrow> length (binary_text q @ mode_trailer mode q) \<le> file_room file) \<and>
     (ok \<longrightarrow> aiger_read_from_file aiger_init (file_data f) = Some u \<and> aiger_error u = None \<and>
        aiger.truncate u = (if mode AND aiger_stripped_mode \<noteq> 0 then nameless q else aiger.truncate q))"
proof -
  from binary_round_trip [OF assms(1-5), of aiger_default_put] obtain q u where q: "behaviours q = behaviours p"
    "\<And>s. aiger_write_generic p mode aiger_default_put s = with_state q (emit aiger_default_put (binary_text q @ mode_trailer mode q) s)"
    "aiger_read_generic aiger_init (binary_text q @ mode_trailer mode q) = Some u" "error u = None"
    "aiger.truncate u = (if mode AND aiger_stripped_mode \<noteq> 0 then nameless q else aiger.truncate q)" by blast
  from write_file_text [OF portableD(8) [OF assms(1)] q(2) assms(6)] q(1,3-5) show ?thesis
    by (fastforce simp: read_file_init aiger_error_def)
qed

theorem binary_file_round_trip_witness:
  "\<exists>q f u. aiger_write_to_file demo aiger_binary_mode \<lparr>file_data = [], file_room = 200\<rparr> = Some (True, q, f) \<and>
     behaviours q = behaviours demo \<and>
     aiger_read_from_file aiger_init (file_data f) = Some u \<and> aiger.truncate u = aiger.truncate q"
proof -
  have "map_option fst (aiger_write_to_file demo aiger_binary_mode \<lparr>file_data = [], file_room = 200\<rparr>) = Some True"
    by code_simp
  with binary_file_round_trip [OF demo_portable, of aiger_binary_mode "\<lparr>file_data = [], file_room = 200\<rparr>"] demo_not_reencoded
  show ?thesis by (auto simp: demo_maxvar aiger_binary_mode_def aiger_stripped_mode_def)
qed

text \<open>C5: Reading is sound. Whatever the bytes are, a structure that the reader returns without an
  error is well-formed, has no undefined literal and no cyclic gate; the one exception of the code
  are headers whose maximal variable does not fit a literal.\<close>

theorem read_is_sound:
  assumes "aiger_read_from_file aiger_init input = Some q" "aiger_error q = None" "maxvar q < 2147483648"
  shows "checked q"
  using read_sound [of input q] assms by (simp add: read_file_init aiger_error_def)

theorem read_is_sound_witness:
  "\<exists>q. aiger_read_from_file aiger_init (ascii_text demo @ trailer_text demo) = Some q \<and> checked q"
  using read_portable [OF demo_portable] read_is_sound
  by (fastforce simp: read_file_init portable_def checked_def aiger_error_def wf_aiger_def wf_lits_def)

text \<open>C6: Checking of witnesses by aigsim is sound for bad states: when aigsim -c ends with exit code 0, the model is below 2 ^ 30 and the witness file is shorter than 4294967290 characters, every bad state literal for which it recorded the claim 1 (outputs taken as bad states included, when the options say so) is reached by a run of the model in which all constraints hold up to and including that moment.\<close>

theorem aigsim_check_sound:
  assumes "aigsim_main env argv = (SimDone (Some 0) prs, out)"
    and "sim_args argv sim_opts0 None None = Inr (opts, Some name, stim)" "so_check opts"
    and "read_source (se_files env) (Some name) = Some p" "maxvar p < 1073741824"
    and "sim_stimulus (se_files env) stim = Some inp" "length inp < 4294967290"
    and "j < length (bad (move_outputs (so_move opts) p))" "prs ! j = 1"
  shows "reaches_bad (move_outputs (so_move opts) p) j"
proof -
  have "all_confirmed (move_outputs (so_move opts) p) prs" by (rule aigsim_confirms [OF assms(1-7)])
  then have "confirmed (move_outputs (so_move opts) p) j" using assms(8,9) by (simp add: all_confirmed_def)
  then show ?thesis using assms(8) by (simp add: confirmed_def)
qed

theorem aigsim_check_sound_witness: "reaches_bad (move_outputs False toggle) 0"
proof -
  have "so_move check_opts = False" by code_simp
  moreover have "reaches_bad (move_outputs (so_move check_opts) toggle) 0"
    by (rule aigsim_check_sound [OF toggle_check check_args _ _ sim_files_stimulus])
      (simp_all add: sim_files_read toggle_read toggle_facts \<open>so_move check_opts = False\<close>)
  ultimately show ?thesis by simp
qed

text \<open>C7: Checking of witnesses by aigsim is sound for justice properties: when aigsim -c ends with exit code 0, under the same bounds, and it recorded the claim 1 for a justice property, there is an infinite behaviour of the model in which all constraints always hold, each fairness literal holds infinitely often and each literal of the justice property holds infinitely often.\<close>

theorem aigsim_fair_cycle:
  assumes "aigsim_main env argv = (SimDone (Some 0) prs, out)"
    and "sim_args argv sim_opts0 None None = Inr (opts, Some name, stim)" "so_check opts"
    and "read_source (se_files env) (Some name) = Some p" "maxvar p < 1073741824"
    and "sim_stimulus (se_files env) stim = Some inp" "length inp < 4294967290"
    and "k < length (justice (move_outputs (so_move opts) p))" "prs ! (length (bad (move_outputs (so_move opts) p)) + k) = 1"
  shows "\<exists>b \<in> behaviours (move_outputs (so_move opts) p). (\<forall>t. list_all (\<lambda>x. x) (o_constraints (b t))) \<and>
     (\<forall>i < length (fairness (move_outputs (so_move opts) p)). \<forall>m. \<exists>t \<ge> m. o_fairness (b t) ! i) \<and>
     (\<forall>i < length (sym_lits (justice (move_outputs (so_move opts) p) ! k)). \<forall>m. \<exists>t \<ge> m. o_justice (b t) ! k ! i)"
proof -
  let ?m = "move_outputs (so_move opts) p"
  have "all_confirmed ?m prs" by (rule aigsim_confirms [OF assms(1-7)])
  then have "confirmed ?m (length (bad ?m) + k)" using assms(8,9) by (simp add: all_confirmed_def)
  then show ?thesis by (simp add: confirmed_def reaches_justice_def)
qed

theorem aigsim_fair_cycle_witness: "reaches_justice (move_outputs False fair_demo) 0"
proof -
  have o: "so_move check_opts = False" by code_simp
  note facts = sim_files_read fair_read fair_facts o
  have "\<exists>b \<in> behaviours (move_outputs (so_move check_opts) fair_demo). (\<forall>t. list_all (\<lambda>x. x) (o_constraints (b t))) \<and>
     (\<forall>i < length (fairness (move_outputs (so_move check_opts) fair_demo)). \<forall>m. \<exists>t \<ge> m. o_fairness (b t) ! i) \<and>
     (\<forall>i < length (sym_lits (justice (move_outputs (so_move check_opts) fair_demo) ! 0)). \<forall>m. \<exists>t \<ge> m. o_justice (b t) ! 0 ! i)"
    by (rule aigsim_fair_cycle [OF fair_check check_args _ _ sim_files_stimulus]) (simp_all add: facts)
  then show ?thesis unfolding reaches_justice_def o .
qed

text \<open>C8: The library \<open>simpaig\<close> implements Boolean functions. Whatever constructors (constants, variables, conjunction, disjunction, implication, exclusive or, equivalence, if-then-else), negations, \<open>simpaig_inc\<close> and \<open>simpaig_dec\<close> a client calls, in any order, from a new manager on, none of them fails an assertion or touches freed memory, the references of the client denote the functions of the specification, the heap holds exactly the nodes below these references, and no node is left when all references have been given back.\<close>

theorem simpaig_session:
  assumes "allocates f" "even p" "p \<noteq> 0" "3 * length cs < 2147483648" "spec_session cs [] = Some fs"
  shows "\<exists>ps m. session cs ([], simpaig_init_mem f p) = Some (ps, m) \<and> list_all2 (denotes m) ps fs \<and>
     (\<forall>a \<in> dom (mg_nodes m). a = mg_false m \<or> (\<exists>t. reads m t \<and> a \<in> addrs t \<and> (\<exists>q \<in> set ps. root t = STRIP q))) \<and>
     (fs = [] \<longrightarrow> simpaig_current_nodes m = Some 0)"
proof -
  have s: "simulates (0 + length cs) 0 ([], simpaig_init_mem f p) []" using init_simulates [OF assms(1) _ assms(2,3)] assms(4) by simp
  obtain ps m where m: "session cs ([], simpaig_init_mem f p) = Some (ps, m)" "simulates 0 (length cs) (ps, m) fs"
    using session_simulates [OF s assms(5)] by auto
  then have M: "manager 0 m (mset ps)" "list_all2 (denotes m) ps fs" "mg_cached m = []" "mg_assigned m = []" "mg_indices m = []" "refs_below m (3 * length cs)"
    by (simp_all add: simulates_def)
  have h: "hinv m (mset ps) {}" using managerD(1) [OF M(1)] M(3-5) by (simp add: listed_def)
  have "a = mg_false m \<or> (\<exists>t. reads m t \<and> a \<in> addrs t \<and> (\<exists>q \<in> set ps. root t = STRIP q))" if a: "a \<in> dom (mg_nodes m)" for a
  proof (cases "a = mg_false m")
    case False
    have "sg_ref n \<noteq> 4294967295" if "mg_nodes m b = Some n" for b n using M(6) that assms(4) unfolding refs_below_def by fastforce
    then show ?thesis using no_garbage [OF h _ a False] by fastforce
  qed simp
  moreover have "simpaig_current_nodes m = Some 0" if "fs = []"
    using no_leak(2) [OF _ M(3-6)] M(1,2) that assms(4) by simp
  ultimately show ?thesis using m(1) M(2) by blast
qed

theorem simpaig_session_witness:
  "\<exists>ps m. session [CallVar 8 0, CallVar 8 1, CallXor 0 1, CallIte 0 1 2, CallDec 3, CallDec 2, CallDec 0, CallDec 0] ([], simpaig_init_mem demo_malloc 64) = Some (ps, m) \<and>
     simpaig_current_nodes m = Some 0"
proof -
  have "spec_session [CallVar 8 0, CallVar 8 1, CallXor 0 1, CallIte 0 1 2, CallDec 3, CallDec 2, CallDec 0, CallDec 0] [] = Some []"
    by (simp add: spec_session_def deref_def)
  from simpaig_session [OF demo_allocates _ _ _ this, of 64] show ?thesis by auto
qed

text \<open>C9: \<open>aigtocnf\<close> as a program, from standard input: a combinational structure becomes a formula in clause
  normal form whose header counts its variables and clauses, whose literals are in range, and which
  is satisfiable exactly when the output can be true; the option \<open>-m\<close> only adds remarks.\<close>

theorem aigtocnf_program:
  assumes "portable p" "cnf_refuse p = None" "maxvar p < 715827882" "env_stdin env = ascii_text p @ trailer_text p"
    "set argv \<subseteq> {''-m'', ''-v''}"
  shows "\<exists>remarks m cs. aigtocnf_main env argv = Some (CnfWrote None (cnf_text_of remarks m cs)) \<and> in_range m cs \<and>
     satisfiable cs = reaches_output p 0 \<and> (''-m'' \<in> set argv \<or> remarks = [])"
  by (rule aigtocnf_writes [OF assms])

theorem aigtocnf_program_witness:
  "\<exists>remarks m cs. aigtocnf_main (demo_env xor_demo 0) [''-m''] = Some (CnfWrote None (cnf_text_of remarks m cs)) \<and> in_range m cs \<and>
     satisfiable cs = reaches_output xor_demo 0"
proof -
  have "maxvar xor_demo < 715827882" "set [''-m''] \<subseteq> {''-m'', ''-v''}" by (simp_all add: xor_demo_supported(2))
  from aigtocnf_program [OF xor_demo_portable xor_demo_supported(1) this(1) demo_env_simps(1) this(2)] show ?thesis by blast
qed

text \<open>C10: The construction API keeps the invariant. Any sequence of calls that passes its assertions,
  from \<open>aiger_init\<close> and with unsigned arguments, gives a well-formed structure: the type table and
  the arrays agree, the kinds are disjoint, literals stay below the maximal variable.\<close>

theorem build_invariant:
  assumes "foldm build_step ops aiger_init = Some p" "list_all op_unsigned ops"
  shows "wf_aiger p \<and> definitions_ok p \<and> shaped p"
proof -
  have "wf_aiger p" by (rule wf_build [OF assms]) simp
  moreover have "shaped p" by (rule shaped_build [OF assms(1)]) simp
  ultimately show ?thesis using wf_definitions by (simp add: wf_aiger_def)
qed

theorem build_invariant_witness: "wf_aiger demo \<and> definitions_ok demo \<and> shaped demo"
  by (rule build_invariant [OF demo_build demo_unsigned])

text \<open>C11: \<open>aigmove\<close> keeps bad states reachable: a bad literal of the input can be reached in a run whose
  constraints have held up to then exactly when the output that replaces it can be reached at all,
  with a monitor latch for the constraints when there are latches, and without when there are none.\<close>

theorem aigmove_keeps_bad:
  assumes "portable p" "move_supported p" "\<not> opt_reverse opts" "j < length (bad p)"
  shows "\<exists>u. aigmove_build opts p = Some u \<and> portable u \<and> reaches_output u (length (outputs p) + j) = reaches_bad p j"
  using aigmove_builds [OF assms(1,2), of opts] move_keeps_bad [OF assms(3,4)] by blast

theorem aigmove_keeps_bad_witness:
  "\<exists>u. aigmove_build \<lparr>opt_ignore = False, opt_reverse = False\<rparr> monitor_demo = Some u \<and>
     reaches_output u (length (outputs monitor_demo) + 1) = reaches_bad monitor_demo 1"
proof -
  have "\<not> opt_reverse \<lparr>opt_ignore = False, opt_reverse = False\<rparr>" "1 < length (bad monitor_demo)"
    by (simp_all add: monitor_demo_supported)
  from aigmove_keeps_bad [OF monitor_demo_portable monitor_demo_supported(2) this] show ?thesis by blast
qed

text \<open>C12: \<open>aigunconstraint\<close> eliminates the constraints: after the monitor is added and the structure renumbered,
  a bad literal can be reached exactly when it could be under the constraints of the input.\<close>

theorem aigunconstraint_keeps_bad:
  assumes "portable p" "unconstraint_supported p" "j < length (bad p)"
  shows "\<exists>u. aigunconstraint_build p = Some u \<and> reaches_bad u j = reaches_bad p j"
  using aigunconstraint_builds [OF assms(1,2)] unconstraint_keeps_bad [OF assms(3)] by blast

theorem aigunconstraint_keeps_bad_witness:
  "\<exists>u. aigunconstraint_build monitor_demo = Some u \<and> reaches_bad u 0 = reaches_bad monitor_demo 0"
proof -
  have "0 < length (bad monitor_demo)" by (simp add: monitor_demo_supported)
  from aigunconstraint_keeps_bad [OF monitor_demo_portable monitor_demo_supported(1) this] show ?thesis by blast
qed

text \<open>C13: Substitution: when the assigned variables have no cycle (they are ranked), the assignment has exactly one solution over every valuation of the other variables, and \<open>simpaig_substitute_parallel\<close> replaces every graph of its array by one that denotes what the old one denotes under the solution, in which no assigned variable is left; the references to the old graphs are given back, the caches and the assignments are emptied.\<close>

theorem simpaig_substitute_correct:
  assumes "manager (k + card U) m (mset (map root ts) + G)" "mg_cached m = []" "\<And>t. t \<in> set ts \<Longrightarrow> reads m t \<and> addrs t \<subseteq> U"
    "carries A U m" "ranked A lv" "finite U"
  shows "\<exists>ws m'. simpaig_substitute_parallel m (map root ts) = Some (map root ws, m') \<and> (\<forall>w \<in> set ws. reads m' w) \<and>
     list_all2 (\<lambda>t w. (\<forall>\<rho>. pval \<rho> w \<longleftrightarrow> pval (solution A lv \<rho>) t) \<and> (\<forall>(v, s) \<in> tree_vars w. A v s = None)) ts ws \<and>
     (\<forall>\<rho> \<sigma>. solves A \<rho> \<sigma> \<longleftrightarrow> \<sigma> = solution A lv \<rho>) \<and> applied k m (mset (map root ws) + G) m'"
proof -
  have s: "solves A \<rho> \<sigma> \<longleftrightarrow> \<sigma> = solution A lv \<rho>" for \<rho> \<sigma>
    using solution_solves [OF assms(5)] solution_unique [OF assms(5)] by blast
  obtain ws m' where w: "simpaig_substitute_parallel m (map root ts) = Some (map root ws, m')" "list_all2 (substituted A) ts ws" "\<forall>w \<in> set ws. reads m' w"
    "applied k m (mset (map root ws) + G) m'" using substitute_parallel_correct [OF assms] by blast
  have "list_all2 (\<lambda>t w. (\<forall>\<rho>. pval \<rho> w \<longleftrightarrow> pval (solution A lv \<rho>) t) \<and> (\<forall>(v, s) \<in> tree_vars w. A v s = None)) ts ws"
    by (rule list_all2_mono [OF w(2)]) (simp add: substituted_def s)
  with w s show ?thesis by blast
qed

theorem simpaig_substitute_correct_witness:
  "\<exists>m p m'. simpaig_assign demo_mgr 100 102 = Some m \<and> simpaig_substitute_parallel m [106] = Some ([p], m') \<and> denotes m' p (\<lambda>\<rho>. \<rho> 16 0 \<and> \<rho> 24 0)"
proof -
  obtain m where m: "simpaig_assign demo_mgr 100 102 = Some m" "manager 300 m {#106, 104, 102, 100#}" "mg_cached m = []"
    "carries demo_assignment {100, 102, 104, 106} m" "reads m demo_and" using demo_assigned by blast
  let ?lv = "\<lambda>v s. if v = 8 then 1 else 0 :: nat"
  have rk: "ranked demo_assignment ?lv" by (simp add: ranked_def demo_assignment_def demo_y_def)
  have M: "manager (296 + card {100, 102, 104, 106 :: ptr}) m (mset (map root [demo_and]) + {#104, 102, 100#})"
  proof -
    have e: "mset (map root [demo_and]) + {#104, 102, 100#} = {#106, 104, 102, 100#}" by (auto simp: multiset_eq_iff demo_and_def)
    have c: "296 + card {100, 102, 104, 106 :: ptr} = 300" by simp
    show ?thesis unfolding e c by (rule m(2))
  qed
  have t: "reads m t \<and> addrs t \<subseteq> {100, 102, 104, 106}" if "t \<in> set [demo_and]" for t
    using that m(5) by (simp add: demo_and_def demo_x_def demo_z_def)
  obtain ws m' where w: "simpaig_substitute_parallel m (map root [demo_and]) = Some (map root ws, m')" "\<forall>w \<in> set ws. reads m' w"
     "list_all2 (\<lambda>t w. (\<forall>\<rho>. pval \<rho> w \<longleftrightarrow> pval (solution demo_assignment ?lv \<rho>) t) \<and> (\<forall>(v, s) \<in> tree_vars w. demo_assignment v s = None)) [demo_and] ws"
    using simpaig_substitute_correct [OF M m(3) t m(4) rk] by auto
  obtain x where x: "ws = [x]" "\<And>\<rho>. pval \<rho> x \<longleftrightarrow> pval (solution demo_assignment ?lv \<rho>) demo_and" using w(3) by (auto simp: list_all2_Cons1)
  have "denotes m' (root x) (\<lambda>\<rho>. \<rho> 16 0 \<and> \<rho> 24 0)"
    unfolding denotes_def using w(2) x
    by (intro exI [of _ x]) (simp add: demo_and_def demo_x_def demo_z_def solution_def demo_assignment_def demo_y_def)
  moreover have "simpaig_substitute_parallel m [106] = Some ([root x], m')" using w(1) x(1) by (simp add: demo_and_def)
  ultimately show ?thesis using m(1) by blast
qed

text \<open>C14: Shifting in time: when the client holds a graph, the cache is empty, there is room for as many nodes as the graph has, and the shifted slices are in the range of an \<open>int\<close>, \<open>simpaig_shift\<close> returns a reference to a graph that denotes the same function of the shifted variables; all nodes, lists and other references are as before.\<close>

theorem simpaig_shift_correct:
  assumes "manager (k + card (addrs t)) m F" "mg_cached m = []" "reads m t" "root t \<in># F"
    "\<And>v s. (v, s) \<in> tree_vars t \<Longrightarrow> in_int (s + delta)"
  shows "\<exists>w m'. simpaig_shift m (root t) delta = Some (root w, m') \<and> reads m' w \<and>
     (\<forall>\<rho>. pval \<rho> w \<longleftrightarrow> pval (\<lambda>v s. \<rho> v (s + delta)) t) \<and> manager k m' (add_mset (root w) F) \<and> grows m m' \<and> quiet m m'"
  using shift_correct [OF assms(1-4), of delta] assms(5) by blast

theorem simpaig_shift_correct_witness:
  "\<exists>w m'. simpaig_shift demo_mgr (root demo_and) 5 = Some (root w, m') \<and> reads m' w \<and> (\<forall>\<rho>. pval \<rho> w \<longleftrightarrow> \<rho> 8 5 \<and> \<rho> 24 5)"
proof -
  have m: "manager (297 + card (addrs demo_and)) demo_mgr {#106, 104, 102, 100#}"
    using demo_manager(1) by (simp add: demo_and_def demo_x_def demo_z_def)
  have "root demo_and \<in># {#106, 104, 102, 100#}" by (simp add: demo_and_def)
  moreover have "in_int (s + 5)" if "(v, s) \<in> tree_vars demo_and" for v s
    using that by (auto simp: demo_and_def demo_x_def demo_z_def in_int_def)
  ultimately obtain w m' where "simpaig_shift demo_mgr (root demo_and) 5 = Some (root w, m')" "reads m' w"
    "\<And>\<rho>. pval \<rho> w \<longleftrightarrow> pval (\<lambda>v s. \<rho> v (s + 5)) demo_and"
    using simpaig_shift_correct [OF m demo_manager(2) demo_reads(4)] by metis
  then show ?thesis by (intro exI [of _ w] exI [of _ m']) (simp add: demo_and_def demo_x_def demo_z_def)
qed

text \<open>C15: Tseitin indices: \<open>simpaig_assign_indices\<close> numbers exactly the nodes of the graph that have no number yet, after the numbers of their operands and without gaps; different nodes have different numbers, none is larger than \<open>simpaig_max_index\<close>, the constant has 0; the literals in the DIMACS and the AIGER format are computed from them without overflow.\<close>

theorem simpaig_indices_correct:
  assumes "manager (k + 1) m F" "indices_numbered m" "reads m t"
  shows "\<exists>m'. simpaig_assign_indices m (root t) = Some m' \<and> manager (k + 1) m' F \<and> indices_numbered m' \<and>
     set (mg_indices m') = set (mg_indices m) \<union> (addrs t - {mg_false m}) \<and> inj_on (idx_of m') (insert (mg_false m) (set (mg_indices m'))) \<and>
     (\<forall>a \<in> set (mg_indices m). idx_of m' a = idx_of m a) \<and> (\<forall>a. idx_of m' a \<le> simpaig_max_index m') \<and>
     (\<forall>u. reads m' u \<longrightarrow> (let i = idx_of m' (STRIP (root u)) in
        simpaig_int_index m' (root u) = Some (if SIGN (root u) then - int (i + 1) else int (i + 1)) \<and>
        simpaig_unsigned_index m' (root u) = Some (2 * i + (if SIGN (root u) then 1 else 0))))"
proof -
  obtain m' where m': "simpaig_assign_indices m (root t) = Some m'" "manager (k + 1) m' F" "indices_numbered m'" "renumbers m m'"
    "set (mg_indices m') = set (mg_indices m) \<union> (addrs t - {mg_false m})" using assign_indices_correct [OF assms] by blast
  have f: "mg_false m' = mg_false m" using m'(4) by (simp add: renumbers_def grows_def)
  have "inj_on (idx_of m') (insert (mg_false m) (set (mg_indices m')))"
    using index_distinct [OF m'(2,3)] f by (auto intro!: inj_onI)
  moreover have "\<forall>a \<in> set (mg_indices m). idx_of m' a = idx_of m a" using renumbersD(3) [OF m'(4)] lists_okD(3) [OF managerD(2) [OF assms(1)]] by blast
  moreover have "length (mg_indices m') \<le> 2147483648" using indices_bound(1,2) [OF m'(2)] by linarith
  then have "idx_of m' a \<le> simpaig_max_index m'" for a
    using indexed_bound(1) [OF m'(2,3), of a] by (simp add: simpaig_max_index_def u32_def)
  ultimately show ?thesis unfolding Let_def
    by (intro exI [of _ m'] conjI allI impI m' index_literals [OF m'(2,3)])
qed

theorem simpaig_indices_correct_witness:
  "\<exists>m'. simpaig_assign_indices demo_mgr (root demo_and) = Some m' \<and> set (mg_indices m') = {100, 104, 106}"
proof -
  have m: "manager (299 + 1) demo_mgr {#106, 104, 102, 100#}" using demo_manager(1) by simp
  have "indices_numbered demo_mgr" by (simp add: indices_numbered_def demo_manager(4))
  from simpaig_indices_correct [OF m this demo_reads(4)] obtain m' where
    "simpaig_assign_indices demo_mgr (root demo_and) = Some m'" "set (mg_indices m') = set (mg_indices demo_mgr) \<union> (addrs demo_and - {mg_false demo_mgr})" by blast
  moreover have "mg_false demo_mgr = 64" by code_simp
  moreover have "addrs demo_and = {106, 100, 104}" by (simp add: demo_and_def demo_x_def demo_z_def insert_commute)
  ultimately show ?thesis using demo_manager(4) by (intro exI [of _ m']) auto
qed

text \<open>C16: The contract of the construction API: on a well-formed structure without an error,
  \<open>aiger_add_input\<close>, \<open>aiger_add_latch\<close> and \<open>aiger_add_and\<close> pass their assertions exactly when the
  literal is positive, not negated and not defined yet.\<close>

theorem add_contract:
  assumes "wf_aiger p" "error p = None" "l < 4294967296"
  shows "(aiger_add_input p l n \<noteq> None \<longleftrightarrow> l \<noteq> 0 \<and> even l \<and> l \<notin> set (definitions p)) \<and>
     (aiger_add_latch p l x n \<noteq> None \<longleftrightarrow> l \<noteq> 0 \<and> even l \<and> l \<notin> set (definitions p)) \<and>
     (aiger_add_and p l a b \<noteq> None \<longleftrightarrow> l \<noteq> 0 \<and> even l \<and> l \<notin> set (definitions p))"
  using add_returns [OF assms] by blast

theorem add_contract_witness:
  "(aiger_add_input demo 14 None \<noteq> None) = (14 \<notin> set (definitions demo)) \<and>
   (aiger_add_and demo 2 4 6 \<noteq> None) = (2 \<notin> set (definitions demo))"
  using add_contract [OF demo_wf demo_error, of 14] add_contract [OF demo_wf demo_error, of 2] by simp

text \<open>C17: Gates are functions of their sources. In a structure that passes the check, every
  assignment to the variables that are not gates (with the constant false) extends to one that
  respects all gates, and any two extensions agree on every variable.\<close>

theorem gates_determined:
  assumes "checked p" "\<not> \<mu> 0"
  shows "\<exists>\<nu>. models p \<nu> \<and> (\<forall>w. 2 * w \<notin> and_lhs ` set (ands p) \<longrightarrow> \<nu> w = \<mu> w) \<and>
     (\<forall>\<nu>'. models p \<nu>' \<and> (\<forall>w. 2 * w \<notin> and_lhs ` set (ands p) \<longrightarrow> \<nu>' w = \<mu> w) \<longrightarrow> \<nu>' = \<nu>)"
proof -
  have wt: "wf_types p" and ac: "acyclic (deps p)" using assms(1) by (simp_all add: checked_def wf_aiger_def)
  have g: "grounded p v" for v using ac acyclic_iff_grounded by blast
  obtain \<nu> where \<nu>: "models p \<nu>" "\<forall>w. 2 * w \<notin> and_lhs ` set (ands p) \<longrightarrow> \<nu> w = \<mu> w"
    using models_exist [of p, OF wt ac, of \<mu>] assms(2) by blast
  have "\<nu>' = \<nu>" if "models p \<nu>'" "\<forall>w. 2 * w \<notin> and_lhs ` set (ands p) \<longrightarrow> \<nu>' w = \<mu> w" for \<nu>'
    using models_unique [OF that(1) \<nu>(1) g _ wt] \<nu>(2) that(2) by (simp add: fun_eq_iff)
  with \<nu> show ?thesis by blast
qed

theorem gates_determined_witness: "\<exists>\<nu>. models demo \<nu> \<and> \<nu> 1 \<and> \<not> \<nu> 2 \<and> \<nu> 5"
proof -
  have "map and_lhs (ands demo) = [8, 6, 12]" by code_simp
  then have free: "and_lhs ` set (ands demo) = {8, 6, 12}" by (metis list.set(1,2) set_map)
  obtain \<nu> where "models demo \<nu>" "\<forall>w. 2 * w \<notin> {8, 6, 12} \<longrightarrow> \<nu> w = odd w"
    using gates_determined [OF demo_checked, of odd] unfolding free by auto
  then show ?thesis by (intro exI [of _ \<nu>]) simp
qed

text \<open>C18: \<open>aigand\<close> computes the conjunction. On a portable structure with room for the new variables
  it returns a portable structure whose only output is, at every step of every behaviour, the
  conjunction of the outputs of its input (and none if there were none).\<close>

theorem aigand_correct:
  assumes "portable p" "maxvar p + length (outputs p) < 2147483648"
  shows "\<exists>u. aigand_build p = Some u \<and> portable u \<and> behaviours u = (\<lambda>b t. only all_outputs (b t)) ` behaviours p"
  by (rule aigand_builds [OF assms])

theorem aigand_correct_witness:
  "\<exists>u. aigand_build filter_demo = Some u \<and> behaviours u = (\<lambda>b t. only all_outputs (b t)) ` behaviours filter_demo"
  using aigand_correct [OF filter_demo_portable] filter_demo_room by (auto simp: room_for_gates_def)

text \<open>C19: What \<open>aigor\<close> computes: the disjunction of the \<^emph>\<open>negated\<close> first output with the other
  outputs.\<close>

theorem aigor_computes:
  assumes "portable p" "maxvar p + length (outputs p) < 2147483648"
  shows "\<exists>u. aigor_build p = Some u \<and> portable u \<and> behaviours u = (\<lambda>b t. only or_outputs (b t)) ` behaviours p"
  by (rule aigor_builds [OF assms])

theorem aigor_computes_witness:
  "\<exists>u. aigor_build filter_demo = Some u \<and> behaviours u = (\<lambda>b t. only or_outputs (b t)) ` behaviours filter_demo"
  using aigor_computes [OF filter_demo_portable] filter_demo_room by (auto simp: room_for_gates_def)

text \<open>C20: \<open>aigflip\<close> negates every output, and applied twice it gives back the outputs.\<close>

theorem aigflip_involution:
  assumes "portable p"
  shows "\<exists>u w. aigflip_build p = Some u \<and> aigflip_build u = Some w \<and> portable w \<and>
     behaviours u = (\<lambda>b t. only (map Not) (b t)) ` behaviours p \<and>
     behaviours w = (\<lambda>b t. only (\<lambda>os. os) (b t)) ` behaviours p"
proof -
  obtain u where u: "aigflip_build p = Some u" "portable u" "behaviours u = (\<lambda>b t. only (map Not) (b t)) ` behaviours p"
    using aigflip_builds [OF assms] by blast
  obtain w where w: "aigflip_build u = Some w" "portable w" "behaviours w = (\<lambda>b t. only (map Not) (b t)) ` behaviours u"
    using aigflip_builds [OF u(2)] by blast
  have "only (map Not) (only (map Not) ob) = only (\<lambda>os. os) ob" for ob by (simp add: only_def comp_def)
  then have "behaviours w = (\<lambda>b t. only (\<lambda>os. os) (b t)) ` behaviours p" by (simp add: w(3) u(3) image_image)
  with u w show ?thesis by blast
qed

theorem aigflip_involution_witness:
  "\<exists>u w. aigflip_build filter_demo = Some u \<and> aigflip_build u = Some w \<and>
     behaviours w = (\<lambda>b t. only (\<lambda>os. os) (b t)) ` behaviours filter_demo"
  using aigflip_involution [OF filter_demo_portable] by blast

text \<open>C21: \<open>aigselect\<close> keeps exactly the selected output.\<close>

theorem aigselect_correct:
  assumes "portable p" "n < length (outputs p)"
  shows "\<exists>u. aigselect_build n p = Some u \<and> portable u \<and> behaviours u = (\<lambda>b t. only (\<lambda>os. [os ! n]) (b t)) ` behaviours p"
  by (rule aigselect_builds [OF assms])

theorem aigselect_correct_witness:
  "\<exists>u. aigselect_build 2 filter_demo = Some u \<and>
     behaviours u = (\<lambda>b t. only (\<lambda>os. [os ! 2]) (b t)) ` behaviours filter_demo"
  using aigselect_correct [OF filter_demo_portable, of 2] filter_demo_room by auto

text \<open>C22: \<open>aigand\<close> as a program, from the text on standard input to a terminal: without arguments it
  writes a text, or fails because it does not fit; the text is read back without an error, and has
  the conjunction of the outputs of the input's circuit.\<close>

theorem aigand_program:
  assumes "portable p" "only_outputs p = None" "room_for_gates p"
    "env_stdin env = ascii_text p @ trailer_text p" "env_isatty env"
  shows "\<exists>w x. aigand_main env [] = Some x \<and>
     (if length (ascii_text w @ trailer_text w) \<le> file_room (env_stdout env)
      then \<exists>d f. x = Wrote d f \<and> file_data f = file_data (env_stdout env) @ ascii_text w @ trailer_text w
      else x = Die ''writing failed'') \<and>
     (\<exists>q. aiger_read_generic aiger_init (ascii_text w @ trailer_text w) = Some q \<and> portable q \<and>
        behaviours q = (\<lambda>b t. only all_outputs (b t)) ` behaviours p)"
  using and_tool.filter_text [OF assms, of "''writing failed''"] by (simp add: aigand_main_def)

theorem aigand_program_witness: "\<exists>x. aigand_main (demo_env filter_demo 500) [] = Some x"
  using aigand_program [OF filter_demo_portable filter_demo_only filter_demo_room(1), of "demo_env filter_demo 500"] by auto

text \<open>C23: What the tools refuse. From standard input without further arguments, \<open>aigand\<close> and \<open>aigflip\<close> end
  with the message when the input has properties other than outputs. \<open>aigselect\<close> with the number of an
  output (or none, for the first output) ends with its message when there is no output, or when the
  number is not below the number of outputs; it accepts all other numbers, and its result has
  exactly that output.\<close>

theorem tools_refuse:
  assumes "portable p" "env_stdin env = ascii_text p @ trailer_text p" "env_isatty env"
    and "n < 4294967296" "argv = [dec n] \<or> (argv = [] \<and> n = 0)"
  shows "(bad p \<noteq> [] \<or> constraints p \<noteq> [] \<or> justice p \<noteq> [] \<or> fairness p \<noteq> [] \<longrightarrow>
       (\<exists>msg. only_outputs p = Some msg \<and> aigand_main env [] = Some (Die msg) \<and> aigflip_main env [] = Some (Die msg))) \<and>
     (outputs p = [] \<longrightarrow> aigselect_main env argv =
       Some (Die (''can not find any outputs in '' @ [CHR 0x27] @ ''<stdin>'' @ [CHR 0x27]))) \<and>
     (outputs p \<noteq> [] \<and> length (outputs p) \<le> n \<longrightarrow> aigselect_main env argv =
       Some (Die (''selected output index '' @ [CHR 0x27] @ dec n @ [CHR 0x27] @ '' too large (expected range '' @ [CHR 0x27] @
         ''0..'' @ dec (length (outputs p) - 1) @ [CHR 0x27] @ '')''))) \<and>
     (n < length (outputs p) \<longrightarrow> (\<exists>w x. aigselect_main env argv = Some x \<and>
       (if length (ascii_text w @ trailer_text w) \<le> file_room (env_stdout env)
        then \<exists>d f. x = Wrote d f \<and> file_data f = file_data (env_stdout env) @ ascii_text w @ trailer_text w
        else x = Die ''writing failed'') \<and>
       (\<exists>q. aiger_read_generic aiger_init (ascii_text w @ trailer_text w) = Some q \<and> portable q \<and>
          behaviours q = (\<lambda>b t. only (\<lambda>os. [os ! n]) (b t)) ` behaviours p)))"
proof (intro conjI impI)
  assume "bad p \<noteq> [] \<or> constraints p \<noteq> [] \<or> justice p \<noteq> [] \<or> fairness p \<noteq> []"
  then have "only_outputs p \<noteq> None" by (simp add: only_outputs_def)
  then obtain msg where m: "only_outputs p = Some msg" by blast
  with and_tool.refused [OF assms(1) m assms(2)] flip_tool.refused [OF assms(1) m assms(2)]
  show "\<exists>msg. only_outputs p = Some msg \<and> aigand_main env [] = Some (Die msg) \<and> aigflip_main env [] = Some (Die msg)"
    by (simp add: aigand_main_def aigflip_main_def)
qed (rule select_refused [OF assms(1,2,4,5)] select_runs [OF assms]; simp add: aigselect_refuse_def)+

theorem tools_refuse_witness:
  "aigand_main (demo_env demo 500) [] = Some (Die ''can not handle bad state properties'') \<and>
   aigselect_main (demo_env filter_demo 500) [dec 3] =
     Some (Die (''selected output index '' @ [CHR 0x27] @ ''3'' @ [CHR 0x27] @ '' too large (expected range '' @ [CHR 0x27] @
       ''0..2'' @ [CHR 0x27] @ '')''))"
proof
  have "only_outputs demo = Some ''can not handle bad state properties''" "bad demo \<noteq> []" by code_simp+
  with tools_refuse [OF demo_portable, of "demo_env demo 500" 0 "[]"]
  show "aigand_main (demo_env demo 500) [] = Some (Die ''can not handle bad state properties'')" by simp
  have "dec 3 = ''3''" "dec 2 = ''2''" by code_simp+
  moreover have "outputs filter_demo \<noteq> []" using filter_demo_room(2) by auto
  ultimately show "aigselect_main (demo_env filter_demo 500) [dec 3] =
     Some (Die (''selected output index '' @ [CHR 0x27] @ ''3'' @ [CHR 0x27] @ '' too large (expected range '' @ [CHR 0x27] @
       ''0..2'' @ [CHR 0x27] @ '')''))"
    using tools_refuse [OF filter_demo_portable, of "demo_env filter_demo 500" 3 "[dec 3]"] by (simp add: filter_demo_room(2))
qed

text \<open>C24: Lookups agree with a linear search. On a well-formed structure the table-driven
  \<open>aiger_is_input\<close>, \<open>aiger_is_latch\<close> and \<open>aiger_is_and\<close> return the first entry of the array that
  defines the literal's variable, and nothing when there is none, provided that no error is pending,
  the variable is not above the maximal one, and there is a type table. These are exactly the calls
  that return: the assertions exclude the first two cases, but a structure to which no literal has
  been added has no table, and looking up the constant there dereferences a null pointer.\<close>

theorem lookup_linear:
  assumes "wf_aiger p"
  shows "aiger_is_input p l =
       (if error p = None \<and> l div 2 \<le> maxvar p \<and> types p \<noteq> [] then Some (find (\<lambda>y. sym_lit y = 2 * (l div 2)) (inputs p)) else None) \<and>
     aiger_is_latch p l =
       (if error p = None \<and> l div 2 \<le> maxvar p \<and> types p \<noteq> [] then Some (find (\<lambda>y. sym_lit y = 2 * (l div 2)) (latches p)) else None) \<and>
     aiger_is_and p l =
       (if error p = None \<and> l div 2 \<le> maxvar p \<and> types p \<noteq> [] then Some (find (\<lambda>g. and_lhs g = 2 * (l div 2)) (ands p)) else None) \<and>
     (maxvar p \<noteq> 0 \<longrightarrow> types p \<noteq> [])"
  using lookup_exact [OF assms, of l] wf_length_types [OF assms, of 0] by (auto simp: input_of_def latch_of_def gate_of_def)

theorem lookup_linear_witness:
  "aiger_is_latch demo 11 = Some (find (\<lambda>y. sym_lit y = 10) (latches demo)) \<and>
   aiger_is_and demo 2 = Some (find (\<lambda>g. and_lhs g = 2) (ands demo))"
  using lookup_linear [OF demo_wf, of 11] lookup_linear [OF demo_wf, of 2] by (simp add: demo_maxvar demo_error)

text \<open>C25: Stripping removes every name and comment, and keeps the circuit: gates, type table and
  behaviours are unchanged. The result counts only the names that were removed, although \<open>aiger.h\<close>
  promises the number of symbols and comments: \<open>aiger_delete_comments\<close> returns zero, whatever the
  comments were. Afterwards no comment can be added: the assertion of \<open>aiger_add_comment\<close> fails.\<close>

theorem strip_keeps_circuit:
  assumes "wf_aiger p" "error p = None"
  shows "\<exists>n q. aiger_strip_symbols_and_comments p = Some (n, q) \<and>
     n = u32 (count_names (all_symbols p)) \<and> fst (aiger_delete_comments p) = 0 \<and>
     (\<forall>y \<in> set (all_symbols q). sym_name y = None) \<and> comments q = [None] \<and>
     behaviours q = behaviours p \<and> ands q = ands p \<and> types q = types p \<and> aiger_add_comment q c = None"
proof -
  obtain n q where s: "aiger_strip_symbols_and_comments p = Some (n, q)" using strip_eq [OF assms(2)] by blast
  have "\<forall>y \<in> set (all_symbols q). sym_name y = None"
    using s strip_eq [OF assms(2)] by (auto simp: all_symbols_def)
  moreover have "num_comments q = 0" using s strip_eq [OF assms(2)] by auto
  then have "aiger_add_comment q c = None" by (simp add: aiger_add_comment_def)
  moreover have "fst (aiger_delete_comments p) = 0" by (simp add: aiger_delete_comments_def)
  ultimately show ?thesis using s strip_spec [OF assms s] by blast
qed

theorem strip_keeps_circuit_witness:
  "\<exists>n q. aiger_strip_symbols_and_comments demo = Some (n, q) \<and> n = 3 \<and> behaviours q = behaviours demo"
proof -
  have "u32 (count_names (all_symbols demo)) = 3" by code_simp
  with strip_keeps_circuit [OF demo_wf demo_error, of "''x''"] show ?thesis by auto
qed

text \<open>C26: Error messages fit their buffers: for formats whose conversions are plain \<open>%u\<close> and \<open>%s\<close> in the
  order of the arguments, as all formats of \<open>aiger.c\<close> are (\<open>source_formats\<close>), the five error functions
  compute an (unsigned) length that leaves room for the formatted message and its null byte, for all
  unsigned arguments and all strings whose lengths do not overflow the sum.\<close>

theorem error_buffers_fit:
  assumes "a < 4294967296" "b < 4294967296" "length s + length t + 33 < 4294967296"
  shows "(format_args s [FmtS t] \<and> aiger_error_s p s t = Some q \<longrightarrow> length (the (error q)) < error_s_len s t) \<and>
     (format_args s [FmtU a] \<and> aiger_error_u p s a = Some q \<longrightarrow> length (the (error q)) < error_u_len s) \<and>
     (format_args s [FmtU a, FmtU b] \<and> aiger_error_uu p s a b = Some q \<longrightarrow> length (the (error q)) < error_uu_len s) \<and>
     (format_args s [FmtU a, FmtS t] \<and> aiger_error_us p s a t = Some q \<longrightarrow> length (the (error q)) < error_us_len s t) \<and>
     (format_args s [FmtU a, FmtS t, FmtU b] \<and> aiger_error_usu p s a t b = Some q \<longrightarrow>
        length (the (error q)) < error_usu_len s t)"
  using error_fits [OF assms] by blast

theorem error_buffers_fit_witness:
  "\<exists>q. aiger_error_u aiger_init ''line %u: bad'' 4294967295 = Some q \<and> length (the (error q)) < 29"
proof -
  obtain q where "aiger_error_u aiger_init ''line %u: bad'' 4294967295 = Some q"
    by (simp add: aiger_error_u_def set_error_def)
  moreover have "error_u_len ''line %u: bad'' = 29" by (simp add: error_u_len_def)
  moreover have "format_args ''line %u: bad'' [FmtU 4294967295]" by simp
  ultimately show ?thesis using error_buffers_fit [of 4294967295 0 "''line %u: bad''" "[]" aiger_init] by auto
qed

text \<open>C27: Deltas round-trip: what \<open>aiger_write_delta\<close> sends for any unsigned number is what
  \<open>aiger_read_delta\<close> reads back, leaving the rest of the input.\<close>

theorem delta_round_trip:
  assumes "n < 4294967296" "length (delta_code n) \<le> file_room file" "file_data file = []" "error p = None"
  shows "\<exists>f s. aiger_write_delta aiger_default_put n file = Some (True, f) \<and>
     aiger_read_delta p (aiger_next_ch (new_reader (file_data f @ cs))) = Ok n p s \<and> at s cs"
proof -
  obtain f where f: "emit aiger_default_put (delta_code n) file = Some (True, f)" "file_data f = delta_code n"
    using file_sink.emit_accepted [OF assms(2)] assms(3) by auto
  have "at (aiger_next_ch (new_reader (delta_code n @ cs))) (delta_code n @ cs)"
    by (rule at_next [of _ "CHR '' ''"]) (simp add: at_Cons new_reader_def)
  from parsesE [OF parses_delta [OF assms(1)] this] obtain s where
    "aiger_read_delta p (aiger_next_ch (new_reader (delta_code n @ cs))) = Ok n p s" "at s cs" by metis
  with f write_delta_emit [OF assms(1), of aiger_default_put] show ?thesis by (metis (no_types))
qed

theorem delta_round_trip_witness:
  "\<exists>f s. aiger_write_delta aiger_default_put 300 \<lparr>file_data = [], file_room = 5\<rparr> = Some (True, f) \<and>
     aiger_read_delta aiger_init (aiger_next_ch (new_reader (file_data f @ ''x''))) = Ok 300 aiger_init s"
proof -
  have "length (delta_code 300) \<le> 5" by (simp add: delta_code.simps)
  with delta_round_trip [of 300 "\<lparr>file_data = [], file_room = 5\<rparr>" aiger_init "''x''"] show ?thesis by auto
qed

text \<open>C28: Writing to a string in ASCII mode succeeds exactly when the text and a null byte fit the
  length \<^emph>\<open>and\<close> the text has no byte 255, which the callback of strings takes for its own failure.\<close>

theorem string_write_limits:
  assumes "checked p" "mode AND aiger_ascii_mode \<noteq> 0"
  shows "\<exists>ok q str. aiger_write_to_string p mode len = Some (ok, q, str) \<and>
     (ok \<longleftrightarrow> length (ascii_text p @ mode_trailer mode p) < len \<and> CHR 0xFF \<notin> set (ascii_text p @ mode_trailer mode p)) \<and>
     (ok \<longrightarrow> str = ascii_text p @ mode_trailer mode p @ [CHR 0x00])"
  by (rule write_string_ascii [OF assms])

theorem string_write_limits_witness:
  "\<exists>q str. aiger_write_to_string demo aiger_ascii_mode 10 = Some (False, q, str)"
proof -
  have "\<not> length (ascii_text demo @ mode_trailer aiger_ascii_mode demo) < 10" by code_simp
  with string_write_limits [OF demo_checked, of aiger_ascii_mode 10] show ?thesis by (auto simp: aiger_ascii_mode_def)
qed

text \<open>C29: The commands for compressed files fit their buffer exactly for names below 104 characters,
  because the size goes through a variable of type \<open>char\<close>; longer names overflow it.\<close>

theorem shell_command_limits:
  "shell_command GZIP name = (if length name < 104 then Some (''gzip -c > '' @ name @ '' 2>/dev/null'') else None) \<and>
   shell_command GUNZIP name = (if length name < 104 then Some (''gunzip -c '' @ name @ '' 2>/dev/null'') else None)"
  using shell_commands by blast

theorem shell_command_limits_witness: "shell_command GUNZIP ''a.aig.gz'' = Some ''gunzip -c a.aig.gz 2>/dev/null''"
  using shell_command_limits [of "''a.aig.gz''"] by simp

text \<open>C30: The loop over the symbol table ends, for any structure and any input. After at most as many
  iterations as there are characters left it reaches a state with no further iteration (the end of
  the table, or an error), whose result is the result of the loop; and every iteration that goes on
  has consumed a character, so that no run has more of them.\<close>

theorem symbol_table_ends:
  "(\<exists>n q s. n \<le> length (rd_rest r) \<and> (symbol_step ^^ n) (p, r) (q, s) \<and> (\<forall>t. \<not> symbol_step (q, s) t) \<and>
      read_symbol_table p r = read_symbol_table q s) \<and>
   (\<forall>n q s. (symbol_step ^^ n) (p, r) (q, s) \<longrightarrow> n + length (rd_rest s) \<le> length (rd_rest r))"
  using symbol_run [of r p] symbol_steps [of _ p r] by blast

theorem symbol_table_ends_witness:
  "\<exists>q s. symbol_step (wire, aiger_next_ch (new_reader ''i0 x\<newline>'')) (q, s) \<and> 1 + length (rd_rest s) \<le> 4"
proof -
  let ?r = "aiger_next_ch (new_reader ''i0 x\<newline>'')"
  have "(case read_symbol CHR ''i'' wire (aiger_next_ch ?r) of Ok u q s \<Rightarrow> True | _ \<Rightarrow> False)" by code_simp
  then obtain q s where "read_symbol CHR ''i'' wire (aiger_next_ch ?r) = Ok () q s" by (auto split: outcome.splits)
  moreover have "rd_ch ?r = Some CHR ''i''" "length (rd_rest ?r) = 4" by code_simp+
  ultimately have "symbol_step (wire, ?r) (q, s)" "length (rd_rest ?r) = 4" by (simp_all add: symbol_step_def)
  with symbol_table_ends [of ?r wire] have "1 + length (rd_rest s) \<le> 4" by (metis relpowp_1)
  with \<open>symbol_step (wire, ?r) (q, s)\<close> show ?thesis by blast
qed

text \<open>C31: Reset literals in the input are not validated. Take the text of any portable structure, in the ASCII
  or (when it is in the order of that format) the binary format, up to the gates, and replace the
  reset of any one latch by any number that is neither 0, nor 1, nor the latch itself: whatever follows,
  the reader does not report an error, but fails the assertion of \<open>aiger_add_reset\<close>.\<close>

theorem reset_aborts_reader:
  assumes "portable p" "binary \<longrightarrow> binary_form p" "i < length (latches p)"
    and "1 < r" "r < 4294967296" "r \<noteq> sym_lit (latches p ! i)"
  shows "aiger_read_from_file aiger_init (header_text (format_name binary) binary (with_reset i r p) @ cs) = None"
  by (rule file_aborts [OF assms])

theorem reset_aborts_reader_witness:
  "aiger_read_from_file aiger_init (header_text ''aag'' False (with_reset 0 4 filter_demo) @ ''x'') = None"
proof -
  have "length (latches filter_demo) = 1" "sym_lit (latches filter_demo ! 0) = 6" by code_simp+
  with reset_aborts_reader [OF filter_demo_portable, of False 0 4 "''x''"] show ?thesis by (simp add: format_name_def)
qed

text \<open>C32: \<open>aigreset\<close> as a program, from standard input to a terminal: when there is room it writes the text
  of a structure whose behaviours are those of the input with the renormalised latches flipped, on
  inputs where no other latch has a renormalised one as its next state.\<close>

theorem reset_program:
  assumes "portable p" "reset_supported r p" "env_stdin env = ascii_text p @ trailer_text p" "env_isatty env"
  shows "\<exists>w x. aigreset_main env [if r = 0 then ''-0'' else ''-1''] = Some x \<and>
     (if length (ascii_text w @ trailer_text w) \<le> file_room (env_stdout env)
      then \<exists>d f. x = Wrote d f \<and> file_data f = file_data (env_stdout env) @ ascii_text w @ trailer_text w
      else x = Die ''write error'') \<and>
     (\<exists>q. aiger_read_generic aiger_init (ascii_text w @ trailer_text w) = Some q \<and> portable q \<and>
        behaviours q = (\<lambda>b t. turn_obs r p (b t)) ` behaviours p)"
proof -
  have r: "r = 0 \<or> r = 1" using assms(2) by (auto simp: reset_supported_def)
  have n: "reset_refuse \<lparr>opt_reset = r, opt_check = False\<rparr> p = None" by (simp add: reset_refuse_def)
  have "aigreset_main env [if r = 0 then ''-0'' else ''-1''] =
      run_tool env None None (reset_refuse \<lparr>opt_reset = r, opt_check = False\<rparr>) (aigreset_normalize r) ''write error''"
    using r by (auto simp: aigreset_main_def reset_flag_def aiger_false_def aiger_true_def)
  with reset_tool.filter_text [OF assms(1) n assms(2-4), of "''write error''"] show ?thesis by (simp only:)
qed

theorem reset_program_witness: "\<exists>x. aigreset_main (demo_env reset_demo 500) [''-0''] = Some x"
  using reset_program [OF reset_demo_portable reset_demo_supported, of "demo_env reset_demo 500"] by auto

text \<open>C33: \<open>aigreset\<close> reaches its goal on every well-formed structure with a variable (one without has no latch): no assertion fails, the structure stays
  well-formed and defines the same literals, and every latch is reset to the requested constant or
  is uninitialised.\<close>

theorem reset_normalizes:
  assumes "wf_aiger p" "error p = None" "maxvar p \<noteq> 0" "r \<le> 1"
  shows "\<exists>q. aigreset_normalize r p = Some q \<and> wf_aiger q \<and> definitions q = definitions p \<and>
     list_all (\<lambda>y. sym_reset y = r \<or> sym_reset y = sym_lit y) (latches q)"
  using normalize_eq [OF assms] turn_wf [OF assms(1,4)] normalized_resets [OF assms(1,4)]
  by (simp add: definitions_def list_all_iff comp_def)

theorem reset_normalizes_witness: 
  "\<exists>q. aigreset_normalize 1 demo = Some q \<and> list_all (\<lambda>y. sym_reset y = 1 \<or> sym_reset y = sym_lit y) (latches q)"
  using reset_normalizes [OF demo_wf demo_error, of 1] by (auto simp: demo_maxvar)

text \<open>C34: \<open>aigreset\<close> does not keep the circuit in general: a latch that is not renormalised keeps its next
  state literal, even when that is a renormalised latch. Of two latches, the first constant true and
  the second following it from zero, the output is true after a step, and false in the result.\<close>

theorem reset_forgets_next:
  "\<exists>q. aigreset_normalize 0 stale = Some q \<and> (\<lambda>b. o_outputs (b 1)) ` behaviours stale = {[True]} \<and>
     (\<lambda>b. o_outputs (b 1)) ` behaviours q = {[False]}"
  using stale_normal stale_outputs by blast

text \<open>C35: \<open>aigunconstraint\<close> as a program, from standard input to a terminal: it writes the text of a structure
  with the inputs and latches of its input, the monitor latch, which holds once a constraint has
  failed, and bad literals guarded by the constraints up to now (when there are constraints: without any, there is no
  monitor and the bad literals stay).\<close>

theorem aigunconstraint_program:
  assumes "portable p" "unconstraint_refuse None p = None" "unconstraint_supported p"
    "env_stdin env = ascii_text p @ trailer_text p" "env_isatty env"
  shows "\<exists>w x. aigunconstraint_main env [] = Some x \<and>
     (if length (ascii_text w @ trailer_text w) \<le> file_room (env_stdout env)
      then \<exists>d f. x = Wrote d f \<and> file_data f = file_data (env_stdout env) @ ascii_text w @ trailer_text w
      else x = Die ''write error'') \<and>
     (\<exists>q. aiger_read_generic aiger_init (ascii_text w @ trailer_text w) = Some q \<and> portable q \<and>
        behaviours q = unconstraint_effect p ` behaviours p)"
  using unconstraint_tool.filter_text [OF assms, of "''write error''"] by (simp add: aigunconstraint_main_def)

theorem aigunconstraint_program_witness: "\<exists>x. aigunconstraint_main (demo_env monitor_demo 500) [] = Some x"
  using aigunconstraint_program [OF monitor_demo_portable monitor_demo_supported(3,1), of "demo_env monitor_demo 500"] by auto

text \<open>C36: \<open>aigstrip\<close> keeps the circuit until it reports success: whatever the directory allows, whether opening or
  writing fails, and whatever closing leaves, the original is under its name or under the name of the
  backup, or the exit code is 0 and the stream has accepted the whole text of the structure that was
  read and stripped; the file then holds what closing that stream left. The results of \<open>fclose\<close> and
  \<open>pclose\<close> are ignored, so a failure there is the one way to lose the circuit (\<open>strip_loses\<close>).\<close>

theorem aigstrip_keeps_circuit:
  assumes "aigstrip_main env dir [name] = Some x" "name = [] \<or> hd name \<noteq> CHR ''-''"
  shows "dir_files (strip_dir x) name = dir_files dir name \<or> dir_files (strip_dir x) (name @ ''~'') = dir_files dir name \<or>
     (strip_code x = 0 \<and> (\<exists>src n p target stream mode q f.
        aiger_open_and_read_from_file (env_read env) aiger_init name = Some src \<and> error src = None \<and>
        aiger_strip_symbols_and_comments src = Some (n, p) \<and> env_write env target = Some stream \<and>
        aiger_write_to_file p mode stream = Some (True, q, f) \<and> dir_files (strip_dir x) name = Some (env_close env target f)))"
  using strip_keeps [OF assms] unfolding written_def by meson

theorem aigstrip_keeps_circuit_witness:
  "\<exists>x. aigstrip_main (strip_env wire) (demo_dir ''a.aag'' ''w'') [''a.aag''] = Some x \<and>
     (dir_files (strip_dir x) ''a.aag'' = Some (Plain ''w'') \<or> dir_files (strip_dir x) ''a.aag~'' = Some (Plain ''w''))"
proof -
  have "map_option strip_code (aigstrip_main (strip_env wire) (demo_dir ''a.aag'' ''w'') [''a.aag'']) = Some 1"
    by code_simp
  then obtain x where x: "aigstrip_main (strip_env wire) (demo_dir ''a.aag'' ''w'') [''a.aag''] = Some x" "strip_code x = 1"
    by auto
  from aigstrip_keeps_circuit [OF x(1)] x(2) have "dir_files (strip_dir x) ''a.aag'' = Some (Plain ''w'') \<or>
      dir_files (strip_dir x) ''a.aag~'' = Some (Plain ''w'')" by (simp add: demo_dir_def)
  with x(1) show ?thesis by blast
qed

text \<open>C37: With \<open>--no-pg\<close>, \<open>aigtocnf\<close> is not correct: for a gate that nothing uses and that has a constant operand,
  it prints the literal 0, which ends a clause. The formula that is read then has an empty clause,
  although the output can be true.\<close>

theorem no_pg_unsound:
  "portable unused_demo \<and> reaches_output unused_demo 0 \<and>
     aigtocnf_text all_polarities unused_demo = Some (cnf_text_of [] 2 [[-2, 0], [-2, 1], [2, 0, -1], [1]]) \<and>
     \<not> satisfiable (dimacs (numbers [[-2, 0], [-2, 1], [2, 0, -1], [1]]))"
proof (intro conjI)
  show "aigtocnf_text all_polarities unused_demo = Some (cnf_text_of [] 2 [[-2, 0], [-2, 1], [2, 0, -1], [1]])"
    by code_simp
  show "\<not> satisfiable (dimacs (numbers [[-2, 0], [-2, 1], [2, 0, -1], [1]]))"
    by (simp add: numbers_def satisfiable_def)
qed (rule unused_demo_portable unused_demo_reaches)+



text \<open>C39: \<open>aigflip\<close> as a program, in the same sense.\<close>

theorem aigflip_program:
  assumes "portable p" "only_outputs p = None" "env_stdin env = ascii_text p @ trailer_text p" "env_isatty env"
  shows "\<exists>w x. aigflip_main env [] = Some x \<and>
     (if length (ascii_text w @ trailer_text w) \<le> file_room (env_stdout env)
      then \<exists>d f. x = Wrote d f \<and> file_data f = file_data (env_stdout env) @ ascii_text w @ trailer_text w
      else x = Die ''writing failed'') \<and>
     (\<exists>q. aiger_read_generic aiger_init (ascii_text w @ trailer_text w) = Some q \<and> portable q \<and>
        behaviours q = (\<lambda>b t. only (map Not) (b t)) ` behaviours p)"
  using flip_tool.filter_text [OF assms(1,2) TrueI assms(3,4), of "''writing failed''"] by (simp add: aigflip_main_def)

theorem aigflip_program_witness: "\<exists>x. aigflip_main (demo_env filter_demo 500) [] = Some x"
  using aigflip_program [OF filter_demo_portable filter_demo_only, of "demo_env filter_demo 500"] by auto

text \<open>C40: The number argument of \<open>aigselect\<close> is parsed without wrap-around: digits give their
  decimal value when it is an unsigned integer, and everything else is an invalid number.\<close>

theorem select_number:
  "parse_number 0 str = (if list_all isdigit str \<and> decimal 0 str < 4294967296 then Some (decimal 0 str) else None)"
  by (rule parse_number_eq) simp

theorem select_number_witness: "parse_number 0 ''4294967295'' = Some 4294967295 \<and> parse_number 0 ''4294967296'' = None"
  unfolding select_number by code_simp

end
